(* ===== verification/Prelude.thy ===== *)
theory Prelude
  imports Main "HOL-Library.Word" "HOL-Library.Monad_Syntax"
begin

text \<open>
  Shared foundation of the development.  It holds the model of the Go operations every component
  uses (indexing and slicing that panic out of range, copying, truncated division), the
  collections of simplification rules the component proofs draw on, and generic lemmas on lists
  and options.

  A Go panic, a failed type assertion and \<^verbatim>\<open>log.Fatalf\<close> all end the process; they are the value
  \<^term>\<open>None\<close> of an \<open>option\<close> result, and a function that cannot panic returns its value directly.
  Go's \<^verbatim>\<open>int\<close> is \<^typ>\<open>int\<close>; the version numbers of the key/value service, which are
  \<^verbatim>\<open>uint64\<close>, and hashes, which are \<^verbatim>\<open>uint32\<close>, keep their width as words.
\<close>

named_theorems go_simps \<open>facts on Go's indexing and slicing\<close>
named_theorems wf_intros \<open>preservation of well-formedness invariants\<close>

type_synonym u64 = "64 word"
type_synonym u32 = "32 word"

section \<open>Go slices\<close>

definition go_nth :: "'a list \<Rightarrow> int \<Rightarrow> 'a option" where
  "go_nth xs i = (if 0 \<le> i \<and> i < int (length xs) then Some (xs ! nat i) else None)"

definition go_set :: "'a list \<Rightarrow> int \<Rightarrow> 'a \<Rightarrow> 'a list option" where
  "go_set xs i v = (if 0 \<le> i \<and> i < int (length xs) then Some (xs[nat i := v]) else None)"

definition go_from :: "'a list \<Rightarrow> int \<Rightarrow> 'a list option" where
  "go_from xs i = (if 0 \<le> i \<and> i \<le> int (length xs) then Some (drop (nat i) xs) else None)"

definition go_upto :: "'a list \<Rightarrow> int \<Rightarrow> 'a list option" where
  "go_upto xs i = (if 0 \<le> i \<and> i \<le> int (length xs) then Some (take (nat i) xs) else None)"

definition go_make :: "int \<Rightarrow> 'a \<Rightarrow> 'a list option" where
  "go_make n z = (if 0 \<le> n then Some (replicate (nat n) z) else None)"

definition go_copy :: "'a list \<Rightarrow> 'a list \<Rightarrow> 'a list" where
  "go_copy dst src = take (length dst) src @ drop (length src) dst"

definition go_mod :: "int \<Rightarrow> int \<Rightarrow> int option" where
  "go_mod a b = (if b = 0 then None else Some (sgn a * (\<bar>a\<bar> mod \<bar>b\<bar>)))"

lemma go_nth_Some [go_simps]:
  "go_nth xs i = Some x \<longleftrightarrow> 0 \<le> i \<and> i < int (length xs) \<and> x = xs ! nat i"
  by (auto simp: go_nth_def)

lemma go_nth_None [go_simps]: "go_nth xs i = None \<longleftrightarrow> i < 0 \<or> int (length xs) \<le> i"
  by (auto simp: go_nth_def)

lemma go_nth_in [go_simps]: "0 \<le> i \<Longrightarrow> i < int (length xs) \<Longrightarrow> go_nth xs i = Some (xs ! nat i)"
  by (simp add: go_nth_def)

lemma go_nth_int: "go_nth xs (int k) = (if k < length xs then Some (xs ! k) else None)"
  by (simp add: go_nth_def)

lemma go_set_Some [go_simps]:
  "go_set xs i v = Some ys \<longleftrightarrow> 0 \<le> i \<and> i < int (length xs) \<and> ys = xs[nat i := v]"
  by (auto simp: go_set_def)

lemma go_set_in [go_simps]: "0 \<le> i \<Longrightarrow> i < int (length xs) \<Longrightarrow> go_set xs i v = Some (xs[nat i := v])"
  by (simp add: go_set_def)

lemma go_from_Some [go_simps]:
  "go_from xs i = Some ys \<longleftrightarrow> 0 \<le> i \<and> i \<le> int (length xs) \<and> ys = drop (nat i) xs"
  by (auto simp: go_from_def)

lemma go_from_in [go_simps]: "0 \<le> i \<Longrightarrow> i \<le> int (length xs) \<Longrightarrow> go_from xs i = Some (drop (nat i) xs)"
  by (simp add: go_from_def)

lemma go_upto_Some [go_simps]:
  "go_upto xs i = Some ys \<longleftrightarrow> 0 \<le> i \<and> i \<le> int (length xs) \<and> ys = take (nat i) xs"
  by (auto simp: go_upto_def)

lemma go_make_Some [go_simps]: "go_make n z = Some xs \<longleftrightarrow> 0 \<le> n \<and> xs = replicate (nat n) z"
  by (auto simp: go_make_def)

text \<open>Copying a slice into a fresh slice of its length yields the slice itself.\<close>

lemma go_copy_exact [simp]: "length src = length dst \<Longrightarrow> go_copy dst src = src"
  by (simp add: go_copy_def)

lemma length_go_copy [simp]: "length (go_copy dst src) = length dst"
  by (simp add: go_copy_def)

lemma go_mod_nonneg: "0 \<le> a \<Longrightarrow> 0 < b \<Longrightarrow> go_mod a b = Some (a mod b)"
  by (cases "a = 0") (auto simp: go_mod_def)

section \<open>Options and lists\<close>

text \<open>Go's idiom for raising a value to a bound.\<close>

lemma if_less_max: "(if a < b then b else a) = max a (b :: int)"
  by simp

lemma upto_int_nat: "[0 .. int n - 1] = map int [0..<n]"
proof (induction n)
  case 0
  then show ?case by simp
next
  case (Suc n)
  then show ?case using upto_rec2 [of 0 "int n"] by simp
qed

lemma nat_int_pred [simp]: "nat (int n - 1) = n - Suc 0"
  by (cases n) auto

lemma bind_Some_iff [go_simps]: "Option.bind x f = Some y \<longleftrightarrow> (\<exists>z. x = Some z \<and> f z = Some y)"
  by (cases x) auto

text \<open>Counters below the word size are faithful.\<close>

lemma of_nat_u64_inject:
  "a < 2 ^ 64 \<Longrightarrow> b < 2 ^ 64 \<Longrightarrow> (of_nat a :: u64) = of_nat b \<longleftrightarrow> a = b"
  by (simp add: word_of_nat_eq_iff take_bit_eq_mod)

text \<open>Two positions of one list are equal or one is before the other.\<close>

lemma two_positions:
  assumes "xs @ x # ys = xs' @ y # ys'"
  obtains "xs = xs'" | us where "xs' = xs @ x # us" | us where "xs = xs' @ y # us"
proof -
  have "xs = xs' \<or> (\<exists>us. xs' = xs @ x # us) \<or> (\<exists>us. xs = xs' @ y # us)"
    using assms
  proof (induction xs arbitrary: xs')
    case Nil
    then show ?case by (cases xs') auto
  next
    case (Cons z zs)
    then show ?case by (cases xs') auto
  qed
  with that show thesis by blast
qed

lemma filter_two_positions:
  assumes "2 \<le> length (filter P xs)"
  obtains us x vs y ws where "xs = us @ x # vs @ y # ws" "P x" "P y"
proof -
  from assms obtain x zs where f: "filter P xs = x # zs" and zs: "zs \<noteq> []"
    by (cases "filter P xs") (auto simp: Suc_le_eq)
  from f obtain us vs where xs: "xs = us @ x # vs" "P x" "zs = filter P vs"
    by (auto simp: filter_eq_Cons_iff)
  with zs obtain y where "y \<in> set vs" "P y" by (auto simp: filter_empty_conv)
  then obtain vs1 vs2 where "vs = vs1 @ y # vs2" by (auto simp: in_set_conv_decomp)
  with xs \<open>P y\<close> that show thesis by blast
qed

lemma count_list_update:
  assumes "i < length xs"
  shows "count_list (xs[i := v]) g + (if xs ! i = g then 1 else 0)
       = count_list xs g + (if v = g then 1 else 0)"
  using assms
proof (induction xs arbitrary: i)
  case Nil
  then show ?case by simp
next
  case (Cons x xs)
  show ?case
  proof (cases i)
    case 0
    then show ?thesis by simp
  next
    case (Suc j)
    with Cons.prems Cons.IH [of j] show ?thesis by auto
  qed
qed

section \<open>Hashing\<close>

unbundle bit_operations_syntax

text \<open>The 32-bit FNV-1a hash of \<^verbatim>\<open>hash/fnv\<close>.\<close>

definition fnv32a :: "string \<Rightarrow> u32" where
  "fnv32a key = foldl (\<lambda>h c. (h XOR of_char c) * 16777619) 2166136261 key"

text \<open>The published FNV-1a test vectors.\<close>

lemma fnv32a_vectors: "fnv32a [] = 0x811C9DC5" "fnv32a ''a'' = 0xE40C292C" "fnv32a ''foobar'' = 0xBF9CF968"
  by (simp_all add: fnv32a_def)

end
