(* ===== verification/KvRpc.thy ===== *)
theory KvRpc
  imports Prelude
begin

text \<open>
  The RPC vocabulary of \<^verbatim>\<open>kvsrv1/rpc/rpc.go\<close>, shared by the single-node server, the replicated
  server, the clerks and the lock service.
\<close>

section \<open>RPC vocabulary\<close>

text \<open>\<open>ErrUnset\<close> is the zero value of the Go string type, which a fresh reply holds.\<close>

datatype Err = ErrUnset | OK | ErrNoKey | ErrVersion | ErrMaybe | ErrWrongLeader | ErrWrongGroup

type_synonym Tversion = u64

record PutArgs =
  put_Key :: string
  put_Value :: string
  put_Version :: Tversion

record PutReply =
  putr_Err :: Err

record GetArgs =
  get_Key :: string

record GetReply =
  getr_Value :: string
  getr_Version :: Tversion
  getr_Err :: Err

definition PutReply0 :: PutReply where
  "PutReply0 = \<lparr>putr_Err = ErrUnset\<rparr>"

definition GetReply0 :: GetReply where
  "GetReply0 = \<lparr>getr_Value = [], getr_Version = 0, getr_Err = ErrUnset\<rparr>"

end
