(* ===== verification/KvSpec.thy ===== *)
theory KvSpec
  imports KvRpc
begin

text \<open>
  The contract of a versioned key/value service, as a locale over the two operations a client may
  call.  Both the single-node server (\<^verbatim>\<open>KvSrv\<close>) and the replicated state machine of the Raft-backed
  server (\<^verbatim>\<open>KvRaft\<close>) are instances.  The consequences every client relies on are proved here once:
  a key's version counts the successful puts, a key never disappears, and at most one put
  succeeds per version.
\<close>

section \<open>Executions\<close>

text \<open>The version a key is at; a missing key is at version 0, the version a creating put names.\<close>

definition version_of :: "(string \<rightharpoonup> string \<times> Tversion) \<Rightarrow> string \<Rightarrow> Tversion" where
  "version_of c k = (case c k of None \<Rightarrow> 0 | Some (_, w) \<Rightarrow> w)"

text \<open>One put at the server and its verdict; a sequence of puts in the order they are executed.\<close>

type_synonym exec = "PutArgs \<times> Err"

fun exec_puts :: "('s \<Rightarrow> PutArgs \<Rightarrow> 's \<times> PutReply) \<Rightarrow> PutArgs list \<Rightarrow> 's \<Rightarrow> 's \<times> exec list" where
  "exec_puts dp [] s = (s, [])"
| "exec_puts dp (a # as) s =
     (let (s1, r) = dp s a; (s2, tr) = exec_puts dp as s1
      in (s2, (a, putr_Err r) # tr))"

definition ok_puts :: "string \<Rightarrow> exec list \<Rightarrow> exec list" where
  "ok_puts k tr = filter (\<lambda>(a, e). put_Key a = k \<and> e = OK) tr"

lemma ok_puts_simps [simp]:
  "ok_puts k [] = []"
  "ok_puts k ((a, e) # tr) = (if put_Key a = k \<and> e = OK then (a, e) # ok_puts k tr else ok_puts k tr)"
  by (simp_all add: ok_puts_def)

lemma ok_puts_append [simp]: "ok_puts k (tr @ tr') = ok_puts k tr @ ok_puts k tr'"
  by (simp add: ok_puts_def)

lemma length_ok_puts: "length (ok_puts k tr) \<le> length tr"
  by (simp add: ok_puts_def)

lemma exec_puts_append:
  "exec_puts dp (as @ bs) s =
     (let (s1, tr1) = exec_puts dp as s; (s2, tr2) = exec_puts dp bs s1 in (s2, tr1 @ tr2))"
  by (induction as arbitrary: s) (simp_all add: split_beta Let_def)

lemma exec_puts_args: "map fst (snd (exec_puts dp as s)) = as"
  by (induction as arbitrary: s) (simp_all add: split_beta Let_def)

lemma length_exec_puts [simp]: "length (snd (exec_puts dp as s)) = length as"
  by (metis exec_puts_args length_map)

section \<open>The contract\<close>

locale versioned_kv =
  fixes do_put :: "'s \<Rightarrow> PutArgs \<Rightarrow> 's \<times> PutReply"
    and do_get :: "'s \<Rightarrow> GetArgs \<Rightarrow> GetReply"
    and cell :: "'s \<Rightarrow> (string \<rightharpoonup> string \<times> Tversion)"
  assumes put_ok_iff:
      "putr_Err (snd (do_put s a)) = OK \<longleftrightarrow> version_of (cell s) (put_Key a) = put_Version a"
    and put_ok_cell:
      "putr_Err (snd (do_put s a)) = OK \<Longrightarrow>
         cell (fst (do_put s a)) = (cell s)(put_Key a \<mapsto> (put_Value a, put_Version a + 1))"
    and put_fail_cell: "putr_Err (snd (do_put s a)) \<noteq> OK \<Longrightarrow> cell (fst (do_put s a)) = cell s"
    and put_nokey_iff:
      "putr_Err (snd (do_put s a)) = ErrNoKey \<longleftrightarrow>
         cell s (put_Key a) = None \<and> put_Version a \<noteq> 0"
    and put_errs: "putr_Err (snd (do_put s a)) \<in> {OK, ErrNoKey, ErrVersion}"
    and get_some: "cell s (get_Key g) = Some (v, w) \<Longrightarrow>
         do_get s g = \<lparr>getr_Value = v, getr_Version = w, getr_Err = OK\<rparr>"
    and get_none: "cell s (get_Key g) = None \<Longrightarrow>
         do_get s g = \<lparr>getr_Value = [], getr_Version = 0, getr_Err = ErrNoKey\<rparr>"
begin

lemma put_version_step:
  "version_of (cell (fst (do_put s a))) k =
     version_of (cell s) k
       + (if put_Key a = k \<and> putr_Err (snd (do_put s a)) = OK then 1 else 0)"
proof (cases "putr_Err (snd (do_put s a)) = OK")
  case True
  then have "version_of (cell s) (put_Key a) = put_Version a" by (simp add: put_ok_iff)
  with True show ?thesis by (auto simp: put_ok_cell version_of_def)
next
  case False
  then show ?thesis by (simp add: put_fail_cell)
qed

text \<open>The version of a key advances by the number of puts that succeeded on it, modulo \<open>2 ^ 64\<close>.\<close>

lemma version_counts_puts:
  "version_of (cell (fst (exec_puts do_put as s))) k =
     version_of (cell s) k + of_nat (length (ok_puts k (snd (exec_puts do_put as s))))"
proof (induction as arbitrary: s)
  case Nil
  then show ?case by simp
next
  case (Cons a as)
  from Cons.IH [of "fst (do_put s a)"] show ?case
    by (simp add: split_beta Let_def put_version_step)
qed

lemma put_keeps_key: "cell s k \<noteq> None \<Longrightarrow> cell (fst (do_put s a)) k \<noteq> None"
  by (cases "putr_Err (snd (do_put s a)) = OK") (simp_all add: put_ok_cell put_fail_cell)

lemma exec_keeps_key: "cell s k \<noteq> None \<Longrightarrow> cell (fst (exec_puts do_put as s)) k \<noteq> None"
proof (induction as arbitrary: s)
  case Nil
  then show ?case by simp
next
  case (Cons a as)
  from put_keeps_key [OF Cons.prems] Cons.IH show ?case
    by (simp add: split_beta Let_def)
qed

text \<open>Every successful put names the version that the puts before it left the key at.\<close>

lemma ok_put_version:
  assumes "snd (exec_puts do_put as s) = tr1 @ (a, OK) # tr2"
  shows "put_Version a = version_of (cell s) (put_Key a) + of_nat (length (ok_puts (put_Key a) tr1))"
  using assms
proof (induction as arbitrary: s tr1)
  case Nil
  then show ?case by simp
next
  case (Cons b as)
  show ?case
  proof (cases tr1)
    case Nil
    with Cons.prems have "b = a" "putr_Err (snd (do_put s a)) = OK"
      by (auto simp: split_beta Let_def)
    with Nil show ?thesis by (simp add: put_ok_iff)
  next
    case (Cons e tr1')
    with Cons.prems have e: "e = (b, putr_Err (snd (do_put s b)))"
      and rest: "snd (exec_puts do_put as (fst (do_put s b))) = tr1' @ (a, OK) # tr2"
      by (auto simp: split_beta Let_def)
    from Cons.IH [OF rest] e Cons show ?thesis
      by (simp add: put_version_step)
  qed
qed

text \<open>
  At most one put per version: two successful puts on one key that name the same version are the
  same execution, as long as fewer than \<open>2 ^ 64\<close> puts are executed (after which versions repeat).
\<close>

lemma same_version_same_exec:
  assumes tr: "snd (exec_puts do_put as s) = tr1 @ (a, OK) # tr2"
    and tr': "snd (exec_puts do_put as s) = tr1' @ (b, OK) # tr2'"
    and key: "put_Key a = put_Key b" and ver: "put_Version a = put_Version b"
    and len: "length as < 2 ^ 64"
  shows "tr1 = tr1'"
proof -
  let ?k = "put_Key a"
  have "of_nat (length (ok_puts ?k tr1)) = (of_nat (length (ok_puts ?k tr1')) :: Tversion)"
    using ok_put_version [OF tr] ok_put_version [OF tr'] key ver by simp
  moreover have "length tr1 < 2 ^ 64" "length tr1' < 2 ^ 64"
    using len arg_cong [OF tr, of length] arg_cong [OF tr', of length] by simp_all
  then have "length (ok_puts ?k tr1) < 2 ^ 64" "length (ok_puts ?k tr1') < 2 ^ 64"
    using length_ok_puts le_less_trans by blast+
  ultimately have same: "length (ok_puts ?k tr1) = length (ok_puts ?k tr1')"
    by (simp only: of_nat_u64_inject)
  have "tr1 @ (a, OK) # tr2 = tr1' @ (b, OK) # tr2'" using tr tr' by simp
  then show ?thesis
    using same key by (cases rule: two_positions) auto
qed

end

end
