(* ===== verification/KvSrv.thy ===== *)
theory KvSrv
  imports KvSpec
begin

text \<open>
  The single-node key/value server of \<^verbatim>\<open>kvsrv1/server.go\<close>.  A handler runs under the server's
  mutex, so each is one function on the server state; the reply a handler fills in is passed in as
  the zero value labrpc allocates.  The server is an instance of the contract \<^verbatim>\<open>versioned_kv\<close>.
\<close>

section \<open>The server\<close>

record valueVersion =
  val :: string
  ver :: Tversion

record KVServer =
  store :: "string \<rightharpoonup> valueVersion"

definition MakeKVServer :: KVServer where
  "MakeKVServer = \<lparr>store = Map.empty\<rparr>"

definition KVServer_Get :: "KVServer \<Rightarrow> GetArgs \<Rightarrow> GetReply \<Rightarrow> GetReply" where
  "KVServer_Get kv args reply =
     (case store kv (get_Key args) of
        None \<Rightarrow> reply\<lparr>getr_Err := ErrNoKey\<rparr>
      | Some item \<Rightarrow> reply\<lparr>getr_Value := val item, getr_Version := ver item, getr_Err := OK\<rparr>)"

definition KVServer_Put :: "KVServer \<Rightarrow> PutArgs \<Rightarrow> PutReply \<Rightarrow> KVServer \<times> PutReply" where
  "KVServer_Put kv args reply =
     (case store kv (put_Key args) of
        None \<Rightarrow>
          (if put_Version args = 0
           then (kv\<lparr>store := (store kv)(put_Key args \<mapsto> \<lparr>val = put_Value args, ver = 1\<rparr>)\<rparr>,
                 reply\<lparr>putr_Err := OK\<rparr>)
           else (kv, reply\<lparr>putr_Err := ErrNoKey\<rparr>))
      | Some item \<Rightarrow>
          (if ver item \<noteq> put_Version args then (kv, reply\<lparr>putr_Err := ErrVersion\<rparr>)
           else (kv\<lparr>store := (store kv)(put_Key args \<mapsto>
                      \<lparr>val = put_Value args, ver = ver item + 1\<rparr>)\<rparr>,
                 reply\<lparr>putr_Err := OK\<rparr>)))"

section \<open>The server meets the contract\<close>

definition KVServer_put :: "KVServer \<Rightarrow> PutArgs \<Rightarrow> KVServer \<times> PutReply" where
  "KVServer_put kv args = KVServer_Put kv args PutReply0"

definition KVServer_get :: "KVServer \<Rightarrow> GetArgs \<Rightarrow> GetReply" where
  "KVServer_get kv args = KVServer_Get kv args GetReply0"

definition KVServer_cell :: "KVServer \<Rightarrow> (string \<rightharpoonup> string \<times> Tversion)" where
  "KVServer_cell kv k = map_option (\<lambda>i. (val i, ver i)) (store kv k)"

lemmas KVServer_defs =
  KVServer_put_def KVServer_get_def KVServer_cell_def KVServer_Put_def KVServer_Get_def
  PutReply0_def GetReply0_def

interpretation srv: versioned_kv KVServer_put KVServer_get KVServer_cell
proof
  fix s :: KVServer and a :: PutArgs and g :: GetArgs and v w
  show "putr_Err (snd (KVServer_put s a)) = OK \<longleftrightarrow>
          version_of (KVServer_cell s) (put_Key a) = put_Version a"
    by (auto simp: KVServer_defs version_of_def split: option.splits)
  show "putr_Err (snd (KVServer_put s a)) = OK \<Longrightarrow>
          KVServer_cell (fst (KVServer_put s a)) =
            (KVServer_cell s)(put_Key a \<mapsto> (put_Value a, put_Version a + 1))"
    by (auto simp: KVServer_defs fun_eq_iff split: option.splits if_splits)
  show "putr_Err (snd (KVServer_put s a)) \<noteq> OK \<Longrightarrow>
          KVServer_cell (fst (KVServer_put s a)) = KVServer_cell s"
    by (auto simp: KVServer_defs fun_eq_iff split: option.splits if_splits)
  show "putr_Err (snd (KVServer_put s a)) = ErrNoKey \<longleftrightarrow>
          KVServer_cell s (put_Key a) = None \<and> put_Version a \<noteq> 0"
    by (auto simp: KVServer_defs split: option.splits)
  show "putr_Err (snd (KVServer_put s a)) \<in> {OK, ErrNoKey, ErrVersion}"
    by (auto simp: KVServer_defs split: option.splits)
  show "KVServer_cell s (get_Key g) = Some (v, w) \<Longrightarrow>
          KVServer_get s g = \<lparr>getr_Value = v, getr_Version = w, getr_Err = OK\<rparr>"
    by (auto simp: KVServer_defs)
  show "KVServer_cell s (get_Key g) = None \<Longrightarrow>
          KVServer_get s g = \<lparr>getr_Value = [], getr_Version = 0, getr_Err = ErrNoKey\<rparr>"
    by (auto simp: KVServer_defs)
qed

end
