(* ===== verification/Clerk.thy ===== *)
theory Clerk
  imports KvSrv
begin

text \<open>
  The retrying client of \<^verbatim>\<open>kvsrv1/client.go\<close>.  The network (\<^verbatim>\<open>labrpc\<close>) decides for each call whether
  the request is lost, executed with the reply lost, or answered; other clients' puts may be
  executed before each attempt.  A schedule is the list of these decisions, one entry per call,
  and the clerk's \<^verbatim>\<open>for\<close> loop recurses over it: running off its end is the clerk still retrying
  (no result).  Every execution at the server is recorded in a trace, marked with whether it is
  the clerk's own.
\<close>

section \<open>The clerk\<close>

datatype delivery = DropRequest | DropReply | Deliver

record attempt =
  others :: "PutArgs list"
  net :: delivery

type_synonym trace = "(bool \<times> exec) list"

text \<open>What the clerk makes of the server's answer: \<open>ErrVersion\<close> on a resend becomes \<open>ErrMaybe\<close>.\<close>

definition Clerk_Put_verdict :: "bool \<Rightarrow> Err \<Rightarrow> Err" where
  "Clerk_Put_verdict first e = (if e = ErrVersion then (if first then ErrVersion else ErrMaybe) else e)"

fun Clerk_Put_loop :: "('s \<Rightarrow> PutArgs \<Rightarrow> 's \<times> PutReply) \<Rightarrow> PutArgs \<Rightarrow> bool \<Rightarrow> attempt list \<Rightarrow> 's
    \<Rightarrow> Err option \<times> 's \<times> trace" where
  "Clerk_Put_loop dp args first [] s = (None, s, [])"
| "Clerk_Put_loop dp args first (att # atts) s =
     (let (s1, tr1) = exec_puts dp (others att) s;
          tr1 = map (Pair False) tr1
      in case net att of
           DropRequest \<Rightarrow>
             (let (r, s', tr) = Clerk_Put_loop dp args False atts s1 in (r, s', tr1 @ tr))
         | DropReply \<Rightarrow>
             (let (s2, reply) = dp s1 args;
                  (r, s', tr) = Clerk_Put_loop dp args False atts s2
              in (r, s', tr1 @ (True, args, putr_Err reply) # tr))
         | Deliver \<Rightarrow>
             (let (s2, reply) = dp s1 args
              in (Some (Clerk_Put_verdict first (putr_Err reply)),
                  s2, tr1 @ [(True, args, putr_Err reply)])))"

definition Clerk_Put :: "('s \<Rightarrow> PutArgs \<Rightarrow> 's \<times> PutReply) \<Rightarrow> string \<Rightarrow> string \<Rightarrow> Tversion
    \<Rightarrow> attempt list \<Rightarrow> 's \<Rightarrow> Err option \<times> 's \<times> trace" where
  "Clerk_Put dp key value version atts s =
     Clerk_Put_loop dp \<lparr>put_Key = key, put_Value = value, put_Version = version\<rparr> True atts s"

fun Clerk_Get_loop :: "('s \<Rightarrow> PutArgs \<Rightarrow> 's \<times> PutReply) \<Rightarrow> ('s \<Rightarrow> GetArgs \<Rightarrow> GetReply) \<Rightarrow> GetArgs
    \<Rightarrow> attempt list \<Rightarrow> 's \<Rightarrow> (string \<times> Tversion \<times> Err) option \<times> 's" where
  "Clerk_Get_loop dp dg args [] s = (None, s)"
| "Clerk_Get_loop dp dg args (att # atts) s =
     (let s1 = fst (exec_puts dp (others att) s)
      in if net att = Deliver
         then (let reply = dg s1 args
               in (Some (getr_Value reply, getr_Version reply, getr_Err reply), s1))
         else Clerk_Get_loop dp dg args atts s1)"

definition Clerk_Get :: "('s \<Rightarrow> PutArgs \<Rightarrow> 's \<times> PutReply) \<Rightarrow> ('s \<Rightarrow> GetArgs \<Rightarrow> GetReply) \<Rightarrow> string
    \<Rightarrow> attempt list \<Rightarrow> 's \<Rightarrow> (string \<times> Tversion \<times> Err) option \<times> 's" where
  "Clerk_Get dp dg key atts s = Clerk_Get_loop dp dg \<lparr>get_Key = key\<rparr> atts s"

section \<open>Traces\<close>

definition own_ok :: "trace \<Rightarrow> nat" where
  "own_ok tr = length (filter (\<lambda>(own, _, e). own \<and> e = OK) tr)"

lemma own_ok_simps [simp]:
  "own_ok [] = 0"
  "own_ok ((own, a, e) # tr) = (if own \<and> e = OK then 1 else 0) + own_ok tr"
  "own_ok (tr @ tr') = own_ok tr + own_ok tr'"
  "own_ok (map (Pair False) xs) = 0"
  by (auto simp: own_ok_def split_beta filter_empty_conv)

text \<open>A trace is faithful when it is what the server answers to its sequence of puts, and marks as
  the clerk's own only the clerk's request.\<close>

definition faithful :: "('s \<Rightarrow> PutArgs \<Rightarrow> 's \<times> PutReply) \<Rightarrow> PutArgs \<Rightarrow> 's \<Rightarrow> 's \<Rightarrow> trace \<Rightarrow> bool" where
  "faithful dp args s s' tr \<longleftrightarrow>
     exec_puts dp (map (fst \<circ> snd) tr) s = (s', map snd tr)
     \<and> (\<forall>(own, a, e) \<in> set tr. own \<longrightarrow> a = args)"

lemma faithful_Nil [simp]: "faithful dp args s s' [] \<longleftrightarrow> s' = s"
  by (auto simp: faithful_def)

lemma faithful_append:
  "faithful dp args s s1 tr \<Longrightarrow> faithful dp args s1 s2 tr' \<Longrightarrow> faithful dp args s s2 (tr @ tr')"
  by (auto simp: faithful_def exec_puts_append)

lemma faithful_others:
  "exec_puts dp as s = (s1, tr) \<Longrightarrow> faithful dp args s s1 (map (Pair False) tr)"
  using exec_puts_args [of dp as s] by (auto simp: faithful_def comp_def)

lemma faithful_own: "dp s args = (s1, r) \<Longrightarrow> faithful dp args s s1 [(True, args, putr_Err r)]"
  by (simp add: faithful_def)

lemma Clerk_Put_loop_faithful:
  "Clerk_Put_loop dp args first atts s = (r, s', tr) \<Longrightarrow> faithful dp args s s' tr"
proof (induction atts arbitrary: first s r s' tr)
  case Nil
  then show ?case by simp
next
  case (Cons att atts)
  obtain s1 tr1 where e1: "exec_puts dp (others att) s = (s1, tr1)" by fastforce
  obtain s2 rep where e2: "dp s1 args = (s2, rep)" by fastforce
  note f1 = faithful_others [OF e1, of args] and f2 = faithful_own [of dp s1 args, OF e2]
  obtain ra sa ta where l1: "Clerk_Put_loop dp args False atts s1 = (ra, sa, ta)" by (metis prod_cases3)
  obtain rb sb tb where l2: "Clerk_Put_loop dp args False atts s2 = (rb, sb, tb)" by (metis prod_cases3)
  from Cons.prems e1 e2 l1 l2 show ?case
    using faithful_append [OF f1 Cons.IH [OF l1]] faithful_append [OF f1 f2]
      faithful_append [OF faithful_append [OF f1 f2] Cons.IH [OF l2]]
    by (auto simp: Let_def split: delivery.splits)
qed

section \<open>What a verdict tells the caller\<close>

text \<open>A schedule that answers some call makes the loop return.\<close>

lemma Clerk_Put_loop_returns:
  "\<exists>att \<in> set atts. net att = Deliver \<Longrightarrow> \<exists>e s' tr. Clerk_Put_loop dp args first atts s = (Some e, s', tr)"
proof (induction atts arbitrary: first s)
  case Nil
  then show ?case by simp
next
  case (Cons att atts)
  show ?case
  proof (cases "net att = Deliver")
    case True
    then show ?thesis by (simp add: split_beta Let_def)
  next
    case False
    with Cons.prems have "\<exists>att \<in> set atts. net att = Deliver" by auto
    note IH = Cons.IH [OF this, of False]
    from False show ?thesis
      using IH [of "fst (exec_puts dp (others att) s)"]
        IH [of "fst (dp (fst (exec_puts dp (others att) s)) args)"]
      by (cases "net att") (auto simp: split_beta Let_def)
  qed
qed

text \<open>The verdict is the answer to the last execution, adjusted on a resend.\<close>

lemma Clerk_Put_loop_last:
  assumes "Clerk_Put_loop dp args first atts s = (Some r, s', tr)"
  obtains tr0 e where "tr = tr0 @ [(True, args, e)]"
    and "r = (if e = ErrVersion then (if r = ErrVersion then ErrVersion else ErrMaybe) else e)"
    and "r = ErrVersion \<Longrightarrow> first \<and> own_ok tr = 0"
  using assms
proof (induction atts arbitrary: first s thesis tr)
  case Nil
  then show ?case by simp
next
  case (Cons att atts)
  let ?s1 = "fst (exec_puts dp (others att) s)"
  let ?t1 = "map (Pair False) (snd (exec_puts dp (others att) s)) :: trace"
  let ?s2 = "fst (dp ?s1 args)"
  let ?e = "putr_Err (snd (dp ?s1 args))"
  show ?case
  proof (cases "net att")
    case DropRequest
    with Cons.prems(2) obtain tr2 where l: "Clerk_Put_loop dp args False atts ?s1 = (Some r, s', tr2)"
      and tr: "tr = ?t1 @ tr2" by (auto simp: split_beta Let_def prod_eq_iff)
    from l obtain tr0 e where "tr2 = tr0 @ [(True, args, e)]"
      and "r = (if e = ErrVersion then (if r = ErrVersion then ErrVersion else ErrMaybe) else e)"
      and "r \<noteq> ErrVersion" by (rule Cons.IH [rotated]) auto
    with tr show ?thesis by (intro Cons.prems(1) [of "?t1 @ tr0" e]) auto
  next
    case DropReply
    with Cons.prems(2) obtain tr2 where l: "Clerk_Put_loop dp args False atts ?s2 = (Some r, s', tr2)"
      and tr: "tr = ?t1 @ (True, args, ?e) # tr2" by (auto simp: split_beta Let_def prod_eq_iff)
    from l obtain tr0 e where "tr2 = tr0 @ [(True, args, e)]"
      and "r = (if e = ErrVersion then (if r = ErrVersion then ErrVersion else ErrMaybe) else e)"
      and "r \<noteq> ErrVersion" by (rule Cons.IH [rotated]) auto
    with tr show ?thesis by (intro Cons.prems(1) [of "?t1 @ (True, args, ?e) # tr0" e]) auto
  next
    case Deliver
    with Cons.prems(2) show ?thesis
      by (intro Cons.prems(1) [of ?t1 ?e])
        (auto simp: Clerk_Put_verdict_def split_beta Let_def split: if_splits)
  qed
qed

context versioned_kv
begin

lemma own_ok_at_most_once:
  assumes f: "faithful do_put args s s' tr" and len: "length tr < 2 ^ 64"
  shows "own_ok tr \<le> 1"
proof (rule ccontr)
  assume "\<not> own_ok tr \<le> 1"
  then have "2 \<le> length (filter (\<lambda>(own, _, e). own \<and> e = OK) tr)" by (simp add: own_ok_def)
  then obtain us x vs y ws where tr: "tr = us @ x # vs @ y # ws"
    and xy: "fst x" "snd (snd x) = OK" "fst y" "snd (snd y) = OK"
    by (rule filter_two_positions) (auto simp: split_beta)
  with f have a: "snd x = (args, OK)" "snd y = (args, OK)"
    by (auto simp: faithful_def prod_eq_iff split_beta)
  from f have ex: "snd (exec_puts do_put (map (fst \<circ> snd) tr) s) = map snd tr"
    by (simp add: faithful_def)
  with tr a have "snd (exec_puts do_put (map (fst \<circ> snd) tr) s) = map snd us @ (args, OK) # map snd (vs @ y # ws)"
    and "snd (exec_puts do_put (map (fst \<circ> snd) tr) s) = map snd (us @ x # vs) @ (args, OK) # map snd ws"
    by simp_all
  from same_version_same_exec [OF this] len show False by simp
qed

lemma own_ok_then_key:
  assumes f: "faithful do_put args s s' tr" and "own_ok tr > 0"
  shows "cell s' (put_Key args) \<noteq> None"
proof -
  from assms(2) obtain us own a vs where tr: "tr = us @ (own, a, OK) # vs" and own: own
    by (auto simp: own_ok_def filter_empty_conv dest!: in_set_conv_decomp [THEN iffD1])
  with f have a: "a = args" by (auto simp: faithful_def)
  let ?as = "map (fst \<circ> snd)"
  let ?s1 = "fst (exec_puts do_put (?as us) s)"
  have "exec_puts do_put (?as us @ args # ?as vs) s = (s', map snd us @ (args, OK) # map snd vs)"
    using f tr a by (simp add: faithful_def)
  then have ok: "putr_Err (snd (do_put ?s1 args)) = OK"
    and s': "s' = fst (exec_puts do_put (?as vs) (fst (do_put ?s1 args)))"
    by (auto simp: exec_puts_append split_beta Let_def)
  show ?thesis
    unfolding s' by (rule exec_keeps_key) (simp add: put_ok_cell [OF ok])
qed

lemma put_verdict:
  assumes run: "Clerk_Put do_put key value version atts s = (Some r, s', tr)"
    and len: "length tr < 2 ^ 64"
  shows "r \<in> {OK, ErrNoKey, ErrVersion, ErrMaybe}
       \<and> own_ok tr \<le> 1
       \<and> (r = OK \<longrightarrow> own_ok tr = 1)
       \<and> (r = ErrVersion \<longrightarrow> own_ok tr = 0)
       \<and> (r = ErrNoKey \<longrightarrow> own_ok tr = 0)"
proof -
  let ?a = "\<lparr>put_Key = key, put_Value = value, put_Version = version\<rparr>"
  from run have loop: "Clerk_Put_loop do_put ?a True atts s = (Some r, s', tr)"
    by (simp add: Clerk_Put_def)
  note f = Clerk_Put_loop_faithful [OF loop]
  from own_ok_at_most_once [OF f len] have once: "own_ok tr \<le> 1" .
  from loop obtain tr0 e where tr: "tr = tr0 @ [(True, ?a, e)]"
    and r: "r = (if e = ErrVersion then (if r = ErrVersion then ErrVersion else ErrMaybe) else e)"
    and ver: "r = ErrVersion \<Longrightarrow> own_ok tr = 0"
    by (rule Clerk_Put_loop_last) auto
  let ?s1 = "fst (exec_puts do_put (map (fst \<circ> snd) tr0) s)"
  from f tr have e: "e = putr_Err (snd (do_put ?s1 ?a))" and s': "s' = fst (do_put ?s1 ?a)"
    by (auto simp: faithful_def exec_puts_append split_beta Let_def)
  have errs: "e \<in> {OK, ErrNoKey, ErrVersion}" using put_errs e by simp
  have nokey: "own_ok tr = 0" if "e = ErrNoKey"
  proof (rule ccontr)
    assume "own_ok tr \<noteq> 0"
    with own_ok_then_key [OF f] have "cell s' key \<noteq> None" by simp
    moreover from that e have n: "putr_Err (snd (do_put ?s1 ?a)) = ErrNoKey" by simp
    from put_nokey_iff [THEN iffD1, OF n] n
    have "cell ?s1 key = None" "putr_Err (snd (do_put ?s1 ?a)) \<noteq> OK" by simp_all
    then have "cell s' key = None" unfolding s' by (simp add: put_fail_cell)
    ultimately show False by simp
  qed
  from r errs once ver nokey tr show ?thesis by (auto split: if_splits)
qed

text \<open>A \<^verbatim>\<open>Get\<close> returns what the server holds at the moment its answered call is executed.\<close>

lemma get_reads_cell:
  assumes "Clerk_Get do_put do_get key atts s = (Some (v, w, e), s')"
  shows "(\<exists>as. s' = fst (exec_puts do_put as s))
       \<and> (case cell s' key of None \<Rightarrow> v = [] \<and> w = 0 \<and> e = ErrNoKey
          | Some (v', w') \<Rightarrow> v = v' \<and> w = w' \<and> e = OK)"
  using assms unfolding Clerk_Get_def
proof (induction atts arbitrary: s)
  case Nil
  then show ?case by simp
next
  case (Cons att atts)
  let ?s1 = "fst (exec_puts do_put (others att) s)"
  show ?case
  proof (cases "net att = Deliver")
    case True
    with Cons.prems have r: "v = getr_Value (do_get ?s1 \<lparr>get_Key = key\<rparr>)"
      "w = getr_Version (do_get ?s1 \<lparr>get_Key = key\<rparr>)" "e = getr_Err (do_get ?s1 \<lparr>get_Key = key\<rparr>)"
      and s': "s' = ?s1" by (auto simp: Let_def)
    show ?thesis
      using get_some [of ?s1 "\<lparr>get_Key = key\<rparr>"] get_none [of ?s1 "\<lparr>get_Key = key\<rparr>"] r s'
      by (auto split: option.splits)
  next
    case False
    with Cons.prems have "Clerk_Get_loop do_put do_get \<lparr>get_Key = key\<rparr> atts ?s1 = (Some (v, w, e), s')"
      by (simp add: Let_def)
    from Cons.IH [OF this] show ?thesis
      by (auto simp: exec_puts_append split_beta Let_def intro: exI [of _ "others att @ _"])
  qed
qed

end

section \<open>The clerk against the single-node server\<close>

text \<open>
  C17: at-most-once puts over a lossy network.  Whatever requests and replies are lost and whatever
  other clients do in between, \<^verbatim>\<open>Clerk.Put\<close> takes effect at most once; \<open>OK\<close> means it took effect
  exactly once, \<open>ErrVersion\<close> and \<open>ErrNoKey\<close> mean that it did not, and no other verdict than these
  and \<open>ErrMaybe\<close> is returned (fewer than \<open>2 ^ 64\<close> puts being executed).
\<close>

theorem Clerk_Put_at_most_once:
  assumes "Clerk_Put KVServer_put key value version atts s = (Some r, s', tr)"
    and "length tr < 2 ^ 64"
  shows "r \<in> {OK, ErrNoKey, ErrVersion, ErrMaybe}
       \<and> own_ok tr \<le> 1
       \<and> (r = OK \<longrightarrow> own_ok tr = 1)
       \<and> (r = ErrVersion \<longrightarrow> own_ok tr = 0)
       \<and> (r = ErrNoKey \<longrightarrow> own_ok tr = 0)"
  using assms by (rule srv.put_verdict)

lemma Clerk_Put_at_most_once_witness:
  "own_ok (snd (snd (Clerk_Put KVServer_put ''k'' ''v'' 0
     [\<lparr>others = [], net = DropReply\<rparr>, \<lparr>others = [], net = Deliver\<rparr>] MakeKVServer))) \<le> 1"
proof -
  let ?run = "Clerk_Put KVServer_put ''k'' ''v'' 0
     [\<lparr>others = [], net = DropReply\<rparr>, \<lparr>others = [], net = Deliver\<rparr>] MakeKVServer"
  have "fst ?run = Some ErrMaybe" and len: "length (snd (snd ?run)) < 2 ^ 64"
    by (simp_all add: Clerk_Put_def Clerk_Put_verdict_def KVServer_defs MakeKVServer_def)
  then have "?run = (Some ErrMaybe, fst (snd ?run), snd (snd ?run))"
    by (metis prod.collapse)
  from Clerk_Put_at_most_once [OF this len] show ?thesis by simp
qed

text \<open>
  \<open>ErrMaybe\<close> is an honest answer: there are runs that end in \<open>ErrMaybe\<close> in which the put took
  effect, and runs in which it did not (another client won the version).
\<close>

theorem Clerk_Put_ErrMaybe_ambiguous:
  "(\<exists>atts s' tr. Clerk_Put KVServer_put key value 0 atts MakeKVServer = (Some ErrMaybe, s', tr)
      \<and> own_ok tr = 1)
   \<and> (\<exists>atts s' tr. Clerk_Put KVServer_put key value 0 atts MakeKVServer = (Some ErrMaybe, s', tr)
      \<and> own_ok tr = 0)"
proof
  show "\<exists>atts s' tr. Clerk_Put KVServer_put key value 0 atts MakeKVServer = (Some ErrMaybe, s', tr)
      \<and> own_ok tr = 1"
    by (rule exI [of _ "[\<lparr>others = [], net = DropReply\<rparr>, \<lparr>others = [], net = Deliver\<rparr>]"])
       (simp add: Clerk_Put_def Clerk_Put_verdict_def KVServer_defs MakeKVServer_def)
  show "\<exists>atts s' tr. Clerk_Put KVServer_put key value 0 atts MakeKVServer = (Some ErrMaybe, s', tr)
      \<and> own_ok tr = 0"
    by (rule exI [of _ "[\<lparr>others = [], net = DropRequest\<rparr>,
          \<lparr>others = [\<lparr>put_Key = key, put_Value = [], put_Version = 0\<rparr>], net = Deliver\<rparr>]"])
       (simp add: Clerk_Put_def Clerk_Put_verdict_def KVServer_defs MakeKVServer_def)
qed

text \<open>
  Progress.  As soon as the network answers one call, \<^verbatim>\<open>Clerk.Put\<close> returns a verdict, whatever
  it lost before.
\<close>

theorem Clerk_Put_returns:
  assumes "\<exists>att \<in> set atts. net att = Deliver"
  shows "\<exists>r s' tr. Clerk_Put KVServer_put key value version atts s = (Some r, s', tr)"
  using Clerk_Put_loop_returns [OF assms] by (simp add: Clerk_Put_def)

lemma Clerk_Put_returns_witness:
  "\<exists>r s' tr. Clerk_Put KVServer_put ''k'' ''v'' 3 [\<lparr>others = [], net = DropReply\<rparr>,
     \<lparr>others = [], net = Deliver\<rparr>] MakeKVServer = (Some r, s', tr)"
  by (rule Clerk_Put_returns) simp

text \<open>
  \<^verbatim>\<open>Clerk.Get\<close> returns the value and version the server holds at the moment its answered call is
  executed, and \<open>ErrNoKey\<close> exactly when the key is missing then.
\<close>

theorem Clerk_Get_reads:
  assumes "Clerk_Get KVServer_put KVServer_get key atts s = (Some (v, w, e), s')"
  shows "(\<exists>as. s' = fst (exec_puts KVServer_put as s))
       \<and> (case store s' key of None \<Rightarrow> v = [] \<and> w = 0 \<and> e = ErrNoKey
          | Some item \<Rightarrow> v = val item \<and> w = ver item \<and> e = OK)"
  using srv.get_reads_cell [OF assms] by (auto simp: KVServer_cell_def split: option.splits)

lemma Clerk_Get_reads_witness:
  "\<exists>s'. Clerk_Get KVServer_put KVServer_get ''k''
      [\<lparr>others = [\<lparr>put_Key = ''k'', put_Value = ''x'', put_Version = 0\<rparr>], net = Deliver\<rparr>]
      MakeKVServer = (Some (''x'', 1, OK), s')
    \<and> (\<exists>as. s' = fst (exec_puts KVServer_put as MakeKVServer))"
proof -
  let ?atts = "[\<lparr>others = [\<lparr>put_Key = ''k'', put_Value = ''x'', put_Version = 0\<rparr>], net = Deliver\<rparr>]"
  have "\<exists>s'. Clerk_Get KVServer_put KVServer_get ''k'' ?atts MakeKVServer = (Some (''x'', 1, OK), s')"
    by (simp add: Clerk_Get_def KVServer_defs MakeKVServer_def)
  then show ?thesis using Clerk_Get_reads by blast
qed

end
