(* ===== verification/KvModel.thy ===== *)
theory KvModel
  imports Clerk "HOL-Library.Char_ord" "HOL-Library.List_Lexorder"
begin

text \<open>
  The linearizability model of \<^verbatim>\<open>models1/kv.go\<close>, which the tests hand to the porcupine checker, and
  the operations \<^verbatim>\<open>kvtest1/porcupine.go\<close> records for it.  The model is the tests' specification of
  the service: the lemmas relate it to the server of \<^verbatim>\<open>KvSrv\<close>.  The checker itself is a third-party
  package and is not modelled.
\<close>

section \<open>The model\<close>

record KvInput =
  in_Op :: "8 word"
  in_Key :: string
  in_Value :: string
  in_Version :: u64

record KvOutput =
  out_Value :: string
  out_Version :: u64
  out_Err :: Err

record KvState =
  st_Value :: string
  st_Version :: u64

record Operation =
  op_ClientId :: int
  op_Input :: KvInput
  op_Call :: int
  op_Output :: KvOutput
  op_Return :: int

text \<open>\<open>Partition\<close> appends each operation to its key's list and returns the lists in key order.\<close>

definition KvModel_group :: "Operation list \<Rightarrow> (string \<rightharpoonup> Operation list)" where
  "KvModel_group history =
     fold (\<lambda>v m. let key = in_Key (op_Input v)
                 in m(key \<mapsto> (case m key of None \<Rightarrow> [] | Some l \<Rightarrow> l) @ [v]))
       history Map.empty"

definition KvModel_keys :: "Operation list \<Rightarrow> string list" where
  "KvModel_keys history = sort (remdups (map (in_Key \<circ> op_Input) history))"

definition KvModel_Partition :: "Operation list \<Rightarrow> Operation list list" where
  "KvModel_Partition history =
     map (\<lambda>k. the (KvModel_group history k)) (KvModel_keys history)"

definition KvModel_Init :: KvState where
  "KvModel_Init = \<lparr>st_Value = [], st_Version = 0\<rparr>"

text \<open>The state after an invalid opcode is the string \<^verbatim>\<open><invalid>\<close>: \<open>None\<close>.\<close>

definition KvModel_Step :: "KvState \<Rightarrow> KvInput \<Rightarrow> KvOutput \<Rightarrow> bool \<times> KvState option" where
  "KvModel_Step st inp out =
     (if in_Op inp = 0 then (out_Value out = st_Value st, Some st)
      else if in_Op inp = 1 then
        (if st_Version st = in_Version inp
         then (out_Err out = OK \<or> out_Err out = ErrMaybe,
               Some \<lparr>st_Value = in_Value inp, st_Version = st_Version st + 1\<rparr>)
         else (out_Err out = ErrVersion \<or> out_Err out = ErrMaybe, Some st))
      else (False, None))"

text \<open>A history in one order, as the checker replays it: every step must be accepted.\<close>

fun KvModel_accepts :: "KvState \<Rightarrow> (KvInput \<times> KvOutput) list \<Rightarrow> bool" where
  "KvModel_accepts st [] = True"
| "KvModel_accepts st ((inp, out) # h) =
     (case KvModel_Step st inp out of
        (ok, Some st') \<Rightarrow> ok \<and> KvModel_accepts st' h
      | (_, None) \<Rightarrow> False)"

section \<open>What the tests record\<close>

datatype kv_request = ReqGet GetArgs | ReqPut PutArgs

fun request_key :: "kv_request \<Rightarrow> string" where
  "request_key (ReqGet g) = get_Key g"
| "request_key (ReqPut a) = put_Key a"

text \<open>The operation \<^verbatim>\<open>Get\<close> and \<^verbatim>\<open>Put\<close> of \<^verbatim>\<open>kvtest1/porcupine.go\<close> append to the log.\<close>

definition record_Get :: "GetArgs \<Rightarrow> GetReply \<Rightarrow> KvInput \<times> KvOutput" where
  "record_Get g r =
     (\<lparr>in_Op = 0, in_Key = get_Key g, in_Value = [], in_Version = 0\<rparr>,
      \<lparr>out_Value = getr_Value r, out_Version = getr_Version r, out_Err = getr_Err r\<rparr>)"

definition record_Put :: "PutArgs \<Rightarrow> Err \<Rightarrow> KvInput \<times> KvOutput" where
  "record_Put a e =
     (\<lparr>in_Op = 1, in_Key = put_Key a, in_Value = put_Value a, in_Version = put_Version a\<rparr>,
      \<lparr>out_Value = [], out_Version = 0, out_Err = e\<rparr>)"

text \<open>A server answering a sequence of requests, and the log this leaves.\<close>

fun serve :: "KVServer \<Rightarrow> kv_request list \<Rightarrow> (KvInput \<times> KvOutput) list" where
  "serve kv [] = []"
| "serve kv (ReqGet g # rs) = record_Get g (KVServer_get kv g) # serve kv rs"
| "serve kv (ReqPut a # rs) =
     (let (kv', r) = KVServer_put kv a in record_Put a (putr_Err r) # serve kv' rs)"

definition on_key :: "string \<Rightarrow> (KvInput \<times> KvOutput) list \<Rightarrow> (KvInput \<times> KvOutput) list" where
  "on_key k h = filter (\<lambda>(inp, _). in_Key inp = k) h"

section \<open>The server implements the model\<close>

text \<open>The model state of one key of the server.\<close>

definition model_of :: "KVServer \<Rightarrow> string \<Rightarrow> KvState" where
  "model_of kv k = (case store kv k of None \<Rightarrow> KvModel_Init
     | Some item \<Rightarrow> \<lparr>st_Value = val item, st_Version = ver item\<rparr>)"

lemma on_key_simps [simp]:
  "on_key k [] = []"
  "on_key k ((inp, out) # h) = (if in_Key inp = k then (inp, out) # on_key k h else on_key k h)"
  by (simp_all add: on_key_def)

lemma model_step_get:
  "KvModel_Step (model_of kv (get_Key g)) (fst (record_Get g (KVServer_get kv g)))
     (snd (record_Get g (KVServer_get kv g))) = (True, Some (model_of kv (get_Key g)))"
  by (simp add: KvModel_Step_def record_Get_def model_of_def KvModel_Init_def KVServer_defs
      split: option.splits)

lemma model_step_put:
  assumes "KVServer_put kv a = (kv', r)" "putr_Err r \<noteq> ErrNoKey"
  shows "KvModel_Step (model_of kv (put_Key a)) (fst (record_Put a (putr_Err r)))
     (snd (record_Put a (putr_Err r))) = (True, Some (model_of kv' (put_Key a)))"
  using assms
  by (auto simp: KvModel_Step_def record_Put_def model_of_def KvModel_Init_def KVServer_defs
      split: option.splits if_splits)

lemma model_of_other_key:
  "KVServer_put kv a = (kv', r) \<Longrightarrow> k \<noteq> put_Key a \<Longrightarrow> model_of kv' k = model_of kv k"
  by (auto simp: model_of_def KVServer_defs split: option.splits if_splits)

lemma serve_accepted:
  assumes "\<forall>(inp, out) \<in> set (on_key k (serve kv rs)). out_Err out = ErrNoKey \<longrightarrow> in_Op inp = 0"
  shows "KvModel_accepts (model_of kv k) (on_key k (serve kv rs))"
  using assms
proof (induction kv rs rule: serve.induct)
  case (1 kv)
  then show ?case by simp
next
  case (2 kv g rs)
  then show ?case
    using model_step_get [of kv g]
    by (cases "get_Key g = k") (auto simp: record_Get_def)
next
  case (3 kv a rs)
  obtain kv' r where put: "KVServer_put kv a = (kv', r)" by fastforce
  from "3.prems" put
  have acc: "KvModel_accepts (model_of kv' k) (on_key k (serve kv' rs))"
    by (intro "3.IH" [OF _ refl]) (auto simp: record_Put_def split: if_splits)
  show ?case
  proof (cases "put_Key a = k")
    case True
    with "3.prems" put have "putr_Err r \<noteq> ErrNoKey" by (auto simp: record_Put_def)
    from model_step_put [OF put this] acc put True show ?thesis
      by (simp add: record_Put_def)
  next
    case False
    with model_of_other_key [OF put] acc put show ?thesis
      by (simp add: record_Put_def)
  qed
qed

text \<open>
  The server refines the tests' linearizability model.  For every sequence of requests and every
  key, the log of the server's answers on that key is a legal sequential history of \<^verbatim>\<open>KvModel\<close>, unless
  a put was answered \<open>ErrNoKey\<close>.
\<close>

theorem server_refines_KvModel:
  assumes "\<forall>(inp, out) \<in> set (on_key k (serve MakeKVServer rs)).
             out_Err out = ErrNoKey \<longrightarrow> in_Op inp = 0"
  shows "KvModel_accepts KvModel_Init (on_key k (serve MakeKVServer rs))"
  using serve_accepted [OF assms] by (simp add: model_of_def MakeKVServer_def)

lemma server_refines_KvModel_witness:
  "KvModel_accepts KvModel_Init (on_key ''k'' (serve MakeKVServer
     [ReqGet \<lparr>get_Key = ''k''\<rparr>,
      ReqPut \<lparr>put_Key = ''k'', put_Value = ''a'', put_Version = 0\<rparr>,
      ReqPut \<lparr>put_Key = ''k'', put_Value = ''b'', put_Version = 7\<rparr>,
      ReqGet \<lparr>get_Key = ''k''\<rparr>]))"
  by (rule server_refines_KvModel)
     (simp add: KVServer_defs MakeKVServer_def record_Get_def record_Put_def)

text \<open>
  C40: the model and the server disagree on a put to a missing key with a non-zero version: the server
  answers \<open>ErrNoKey\<close>, and the model accepts only \<open>ErrVersion\<close> or \<open>ErrMaybe\<close> there.
\<close>

theorem KvModel_rejects_ErrNoKey:
  assumes "store kv (put_Key a) = None" and "put_Version a \<noteq> 0"
  shows "putr_Err (snd (KVServer_put kv a)) = ErrNoKey
    \<and> \<not> KvModel_accepts (model_of kv (put_Key a)) [record_Put a (putr_Err (snd (KVServer_put kv a)))]"
  using assms
  by (simp add: KVServer_defs record_Put_def KvModel_Step_def model_of_def KvModel_Init_def)

lemma KvModel_rejects_ErrNoKey_witness:
  "\<not> KvModel_accepts (model_of MakeKVServer ''y'')
     [record_Put \<lparr>put_Key = ''y'', put_Value = ''v'', put_Version = 1\<rparr> ErrNoKey]"
proof -
  let ?a = "\<lparr>put_Key = ''y'', put_Value = ''v'', put_Version = 1\<rparr> :: PutArgs"
  have "store MakeKVServer (put_Key ?a) = None" "put_Version ?a \<noteq> 0"
    by (simp_all add: MakeKVServer_def)
  from KvModel_rejects_ErrNoKey [OF this] show ?thesis by auto
qed

section \<open>Partitioning a history by key\<close>

lemma KvModel_group_eq:
  "KvModel_group h k =
     (let ops = filter (\<lambda>v. in_Key (op_Input v) = k) h in if ops = [] then None else Some ops)"
proof -
  have "fold (\<lambda>v m. let key = in_Key (op_Input v)
                 in m(key \<mapsto> (case m key of None \<Rightarrow> [] | Some l \<Rightarrow> l) @ [v])) h m k =
     (let ops = filter (\<lambda>v. in_Key (op_Input v) = k) h
      in if ops = [] then m k else Some ((case m k of None \<Rightarrow> [] | Some l \<Rightarrow> l) @ ops))" for m
    by (induction h arbitrary: m) (auto simp: Let_def split: option.splits)
  then show ?thesis by (simp add: KvModel_group_def Let_def)
qed

text \<open>
  \<^verbatim>\<open>Partition\<close> splits a history into one non-empty sub-history per key, in increasing key order;
  each holds exactly the operations on its key, in the order they were recorded.
\<close>

theorem KvModel_Partition_by_key:
  "KvModel_Partition h =
     map (\<lambda>k. filter (\<lambda>v. in_Key (op_Input v) = k) h) (KvModel_keys h)
   \<and> sorted (KvModel_keys h) \<and> distinct (KvModel_keys h)
   \<and> set (KvModel_keys h) = (in_Key \<circ> op_Input) ` set h
   \<and> [] \<notin> set (KvModel_Partition h)"
proof -
  have *: "the (KvModel_group h k) = filter (\<lambda>v. in_Key (op_Input v) = k) h
      \<and> filter (\<lambda>v. in_Key (op_Input v) = k) h \<noteq> []" if "k \<in> set (KvModel_keys h)" for k
    using that by (auto simp: KvModel_group_eq KvModel_keys_def Let_def filter_empty_conv)
  then have "[] \<notin> set (KvModel_Partition h)"
    by (force simp: KvModel_Partition_def)
  with * show ?thesis
    by (auto simp: KvModel_Partition_def KvModel_keys_def)
qed

end
