(* ===== verification/Persister.thy ===== *)
theory Persister
  imports Prelude
begin

text \<open>
  Stable storage, \<^verbatim>\<open>tester1/persister.go\<close>, and the encoded streams written to it with \<^verbatim>\<open>labgob\<close>.  A
  \<^verbatim>\<open>bytes.Buffer\<close> that an encoder has written to is the list of the values encoded into it, in order,
  and a decoder takes values off its front, failing on the wrong kind of value or at the end.  The
  size in bytes of a stream is a parameter (it belongs to \<^verbatim>\<open>encoding/gob\<close>).
\<close>

section \<open>The persister\<close>

record ('r, 's) Persister =
  raftstate :: "'r list"
  snapshot :: "'s list"

definition MakePersister :: "('r, 's) Persister" where
  "MakePersister = \<lparr>raftstate = [], snapshot = []\<rparr>"

definition clone :: "'a list \<Rightarrow> 'a list" where
  "clone orig = go_copy (replicate (length orig) undefined) orig"

definition Persister_Copy :: "('r, 's) Persister \<Rightarrow> ('r, 's) Persister" where
  "Persister_Copy ps = MakePersister\<lparr>raftstate := raftstate ps, snapshot := snapshot ps\<rparr>"

definition ReadRaftState :: "('r, 's) Persister \<Rightarrow> 'r list" where
  "ReadRaftState ps = clone (raftstate ps)"

definition RaftStateSize :: "('r list \<Rightarrow> int) \<Rightarrow> ('r, 's) Persister \<Rightarrow> int" where
  "RaftStateSize len ps = len (raftstate ps)"

definition Save :: "('r, 's) Persister \<Rightarrow> 'r list \<Rightarrow> 's list \<Rightarrow> ('r, 's) Persister" where
  "Save ps rs sn = ps\<lparr>raftstate := clone rs, snapshot := clone sn\<rparr>"

definition ReadSnapshot :: "('r, 's) Persister \<Rightarrow> 's list" where
  "ReadSnapshot ps = clone (snapshot ps)"

definition SnapshotSize :: "('s list \<Rightarrow> int) \<Rightarrow> ('r, 's) Persister \<Rightarrow> int" where
  "SnapshotSize len ps = len (snapshot ps)"

lemma clone_id [simp, code]: "clone xs = xs"
  by (simp add: clone_def)

lemma Persister_simps [simp]:
  "ReadRaftState (Save ps rs sn) = rs" "ReadSnapshot (Save ps rs sn) = sn"
  "ReadRaftState MakePersister = []" "ReadSnapshot MakePersister = []"
  "Persister_Copy ps = ps"
  "raftstate (Save ps rs sn) = rs" "snapshot (Save ps rs sn) = sn"
  by (simp_all add: ReadRaftState_def Save_def ReadSnapshot_def MakePersister_def Persister_Copy_def)

section \<open>Encoded streams\<close>

datatype 'v gob = GobInt int | GobVal 'v

fun DecodeInt :: "'v gob list \<Rightarrow> (int \<times> 'v gob list) option" where
  "DecodeInt (GobInt n # r) = Some (n, r)"
| "DecodeInt _ = None"

fun DecodeVal :: "'v gob list \<Rightarrow> ('v \<times> 'v gob list) option" where
  "DecodeVal (GobVal v # r) = Some (v, r)"
| "DecodeVal _ = None"

end
