(* ===== verification/Raft.thy ===== *)
theory Raft
  imports Persister
begin

text \<open>
  One Raft peer, \<^verbatim>\<open>raft1/raft.go\<close> with the interface types of \<^verbatim>\<open>raftapi/raftapi.go\<close>.  Every method that
  holds \<^verbatim>\<open>rf.mu\<close> throughout is one function on the peer's state; a method that releases the lock
  around an RPC is split there, the second half taking what the goroutine captured.  Index and
  slice panics are \<open>None\<close>.  Clock readings are arguments.
\<close>

section \<open>Data\<close>

datatype Role = Follower | Candidate | Leader

record 'c LogEntry =
  le_Command :: "'c option"
  le_Term :: int

record 'c AppendEntriesArgs =
  ae_Term :: int
  ae_LeaderId :: int
  ae_PrevLogIndex :: int
  ae_PrevLogTerm :: int
  ae_Entries :: "'c LogEntry list"
  ae_LeaderCommit :: int

record AppendEntriesReply =
  aer_Term :: int
  aer_Success :: bool
  aer_ConflictTerm :: int
  aer_ConflictIndex :: int

record 'd InstallSnapshotArgs =
  is_Term :: int
  is_LeaderId :: int
  is_LastIncludedIndex :: int
  is_LastIncludedTerm :: int
  is_Data :: "'d list"

record InstallSnapshotReply =
  isr_Term :: int

record RequestVoteArgs =
  rv_Term :: int
  rv_CandidateId :: int
  rv_LastLogIndex :: int
  rv_LastLogTerm :: int

record RequestVoteReply =
  rvr_Term :: int
  rvr_VoteGranted :: bool

record ('c, 'd) ApplyMsg =
  CommandValid :: bool
  am_Command :: "'c option"
  CommandIndex :: int
  SnapshotValid :: bool
  am_Snapshot :: "'d list"
  SnapshotTerm :: int
  SnapshotIndex :: int

record ('c, 'd) Raft =
  npeers :: int
  persister :: "('c LogEntry list gob, 'd) Persister"
  me :: int
  dead :: bool
  currentTerm :: int
  votedFor :: int
  rlog :: "'c LogEntry list"
  lastIncludedIndex :: int
  lastIncludedTerm :: int
  commitIndex :: int
  lastApplied :: int
  nextIndex :: "int list"
  matchIndex :: "int list"
  role :: Role
  lastHeartbeat :: int

abbreviation zeroEntry :: "'c LogEntry" where
  "zeroEntry \<equiv> \<lparr>le_Command = None, le_Term = 0\<rparr>"

abbreviation peers :: "('c, 'd) Raft \<Rightarrow> int list" where
  "peers rf \<equiv> [0 .. npeers rf - 1]"

section \<open>Indices\<close>

definition getRelativeIndex :: "('c, 'd) Raft \<Rightarrow> int \<Rightarrow> int" where
  "getRelativeIndex rf absoluteIndex = absoluteIndex - lastIncludedIndex rf"

definition getAbsoluteIndex :: "('c, 'd) Raft \<Rightarrow> int \<Rightarrow> int" where
  "getAbsoluteIndex rf relativeIndex = relativeIndex + lastIncludedIndex rf"

definition lastLogIndex :: "('c, 'd) Raft \<Rightarrow> int" where
  "lastLogIndex rf = int (length (rlog rf)) - 1 + lastIncludedIndex rf"

definition lastLogTerm :: "('c, 'd) Raft \<Rightarrow> int option" where
  "lastLogTerm rf = map_option le_Term (go_nth (rlog rf) (int (length (rlog rf)) - 1))"

section \<open>Persistence\<close>

definition encodeState :: "('c, 'd) Raft \<Rightarrow> 'c LogEntry list gob list" where
  "encodeState rf = [GobInt (currentTerm rf), GobInt (votedFor rf), GobVal (rlog rf),
     GobInt (lastIncludedIndex rf), GobInt (lastIncludedTerm rf)]"

definition persist :: "('c, 'd) Raft \<Rightarrow> ('c, 'd) Raft" where
  "persist rf = rf\<lparr>persister := Save (persister rf) (encodeState rf) (ReadSnapshot (persister rf))\<rparr>"

text \<open>A decoding error leaves the peer as it was.\<close>

definition readPersist :: "('c, 'd) Raft \<Rightarrow> 'c LogEntry list gob list \<Rightarrow> ('c, 'd) Raft" where
  "readPersist rf data =
     (if length data < 1 then rf
      else case (do {
          (ct, r) \<leftarrow> DecodeInt data;
          (vf, r) \<leftarrow> DecodeInt r;
          (lg, r) \<leftarrow> DecodeVal r;
          (lii, r) \<leftarrow> DecodeInt r;
          (lit, r) \<leftarrow> DecodeInt r;
          Some (rf\<lparr>currentTerm := ct, votedFor := vf, rlog := lg,
                   lastIncludedIndex := lii, lastIncludedTerm := lit\<rparr>) }) of
        None \<Rightarrow> rf | Some rf' \<Rightarrow> rf')"

definition PersistBytes :: "('c LogEntry list gob list \<Rightarrow> int) \<Rightarrow> ('c, 'd) Raft \<Rightarrow> int" where
  "PersistBytes len rf = RaftStateSize len (persister rf)"

definition Make :: "int \<Rightarrow> int \<Rightarrow> ('c LogEntry list gob, 'd) Persister \<Rightarrow> int \<Rightarrow> ('c, 'd) Raft" where
  "Make n i ps now =
     (let rf = \<lparr>npeers = n, persister = ps, me = i, dead = False,
                currentTerm = 0, votedFor = -1, rlog = [zeroEntry],
                lastIncludedIndex = 0, lastIncludedTerm = 0,
                commitIndex = 0, lastApplied = 0,
                nextIndex = replicate (nat n) 0, matchIndex = replicate (nat n) 0,
                role = Follower, lastHeartbeat = now\<rparr>;
          rf = readPersist rf (ReadRaftState ps)
      in rf\<lparr>commitIndex := lastIncludedIndex rf, lastApplied := lastIncludedIndex rf\<rparr>)"

section \<open>State queries and control\<close>

definition GetState :: "('c, 'd) Raft \<Rightarrow> int \<times> bool" where
  "GetState rf = (currentTerm rf, role rf = Leader)"

definition Kill :: "('c, 'd) Raft \<Rightarrow> ('c, 'd) Raft" where
  "Kill rf = rf\<lparr>dead := True\<rparr>"

definition killed :: "('c, 'd) Raft \<Rightarrow> bool" where
  "killed rf = dead rf"

text \<open>The step to a higher term that the handlers and the reply handlers share.\<close>

abbreviation stepDown :: "('c, 'd) Raft \<Rightarrow> int \<Rightarrow> ('c, 'd) Raft" where
  "stepDown rf t \<equiv> persist (rf\<lparr>currentTerm := t, role := Follower, votedFor := -1\<rparr>)"

section \<open>Snapshots from the service\<close>

text \<open>The log after compaction: a sentinel carrying the term, then the entries after \<open>relIdx\<close>.\<close>

definition compactLog :: "('c, 'd) Raft \<Rightarrow> int \<Rightarrow> int \<Rightarrow> int \<Rightarrow> 'c LogEntry list option" where
  "compactLog rf index relIdx t = do {
     newLog \<leftarrow> go_make (1 + lastLogIndex rf - index) zeroEntry;
     newLog \<leftarrow> go_set newLog 0 \<lparr>le_Command = None, le_Term = t\<rparr>;
     dst \<leftarrow> go_from newLog 1;
     src \<leftarrow> go_from (rlog rf) (relIdx + 1);
     Some (take 1 newLog @ go_copy dst src)
   }"

text \<open>A snapshot covers everything up to its index: nothing below it is left to commit or apply.\<close>

definition raiseCommitApplied :: "('c, 'd) Raft \<Rightarrow> int \<Rightarrow> ('c, 'd) Raft" where
  "raiseCommitApplied rf index =
     (let rf = (if commitIndex rf < index then rf\<lparr>commitIndex := index\<rparr> else rf)
      in if lastApplied rf < index then rf\<lparr>lastApplied := index\<rparr> else rf)"

definition Snapshot :: "('c, 'd) Raft \<Rightarrow> int \<Rightarrow> 'd list \<Rightarrow> ('c, 'd) Raft option" where
  "Snapshot rf index snap =
     (if index \<le> lastIncludedIndex rf then Some rf
      else do {
        let relIdx = getRelativeIndex rf index;
        e \<leftarrow> go_nth (rlog rf) relIdx;
        let rf = rf\<lparr>lastIncludedTerm := le_Term e\<rparr>;
        newLog \<leftarrow> compactLog rf index relIdx (le_Term e);
        let rf = raiseCommitApplied (rf\<lparr>rlog := newLog, lastIncludedIndex := index\<rparr>) index;
        Some (rf\<lparr>persister := Save (persister rf) (encodeState rf) snap\<rparr>)
      })"

section \<open>Elections\<close>

definition logUpToDate :: "RequestVoteArgs \<Rightarrow> int \<Rightarrow> int \<Rightarrow> bool" where
  "logUpToDate args lastIndex lastTerm =
     (if rv_LastLogTerm args > lastTerm then True
      else if rv_LastLogTerm args = lastTerm then rv_LastLogIndex args \<ge> lastIndex
      else False)"

definition RequestVote :: "('c, 'd) Raft \<Rightarrow> RequestVoteArgs \<Rightarrow> int
    \<Rightarrow> (('c, 'd) Raft \<times> RequestVoteReply) option" where
  "RequestVote rf args now =
     (if rv_Term args < currentTerm rf
      then Some (rf, \<lparr>rvr_Term = currentTerm rf, rvr_VoteGranted = False\<rparr>)
      else do {
        let rf = (if rv_Term args > currentTerm rf then stepDown rf (rv_Term args) else rf);
        let reply = \<lparr>rvr_Term = currentTerm rf, rvr_VoteGranted = False\<rparr>;
        lastTerm \<leftarrow> lastLogTerm rf;
        if (votedFor rf = -1 \<or> votedFor rf = rv_CandidateId args)
           \<and> logUpToDate args (lastLogIndex rf) lastTerm
        then do {
          let rf = persist (rf\<lparr>votedFor := rv_CandidateId args\<rparr>);
          Some (rf\<lparr>lastHeartbeat := now\<rparr>, reply\<lparr>rvr_VoteGranted := True\<rparr>)
        }
        else Some (rf, reply)
      })"

text \<open>\<open>startElection\<close> returns the request its goroutines send; \<open>votes\<close> starts at 1.\<close>

definition startElection :: "('c, 'd) Raft \<Rightarrow> int \<Rightarrow> (('c, 'd) Raft \<times> RequestVoteArgs) option" where
  "startElection rf now = do {
     let rf = persist (rf\<lparr>role := Candidate, currentTerm := currentTerm rf + 1, votedFor := me rf\<rparr>);
     let rf = rf\<lparr>lastHeartbeat := now\<rparr>;
     lastTerm \<leftarrow> lastLogTerm rf;
     Some (rf, \<lparr>rv_Term = currentTerm rf, rv_CandidateId = me rf,
                rv_LastLogIndex = lastLogIndex rf, rv_LastLogTerm = lastTerm\<rparr>)
   }"

definition electionPeers :: "('c, 'd) Raft \<Rightarrow> int list" where
  "electionPeers rf = filter (\<lambda>peer. peer \<noteq> me rf) (peers rf)"

definition ticker_tick :: "('c, 'd) Raft \<Rightarrow> int \<Rightarrow> int
    \<Rightarrow> (('c, 'd) Raft \<times> RequestVoteArgs option) option" where
  "ticker_tick rf now rnd =
     (let timeout = 300 + rnd mod 300
      in if role rf \<noteq> Leader \<and> now - lastHeartbeat rf > timeout
         then do { (rf, args) \<leftarrow> startElection rf now; Some (rf, Some args) }
         else Some (rf, None))"

text \<open>Becoming leader: the volatile leader state is reset.\<close>

definition becomeLeader :: "('c, 'd) Raft \<Rightarrow> int \<Rightarrow> ('c, 'd) Raft" where
  "becomeLeader rf now = rf\<lparr>role := Leader, lastHeartbeat := now,
     nextIndex := map (\<lambda>_. lastLogIndex rf + 1) (peers rf), matchIndex := map (\<lambda>_. 0) (peers rf)\<rparr>"

text \<open>The vote goroutine's second half: \<open>votes\<close> is the counter its closures share.\<close>

definition handleVoteReply :: "('c, 'd) Raft \<Rightarrow> int \<Rightarrow> int \<Rightarrow> RequestVoteReply \<Rightarrow> int
    \<Rightarrow> ('c, 'd) Raft \<times> int" where
  "handleVoteReply rf votes term reply now =
     (if role rf \<noteq> Candidate \<or> currentTerm rf \<noteq> term then (rf, votes)
      else if rvr_Term reply > currentTerm rf then (stepDown rf (rvr_Term reply), votes)
      else if rvr_VoteGranted reply then
        (let votes = votes + 1
         in if votes > npeers rf div 2 \<and> role rf = Candidate then (becomeLeader rf now, votes)
            else (rf, votes))
      else (rf, votes))"

section \<open>Log replication: leader\<close>

text \<open>\<open>Start\<close> also spawns \<open>broadcastAppendEntries\<close>, whose goroutines are \<open>sendAppendEntriesToPeer\<close>.\<close>

definition Start :: "('c, 'd) Raft \<Rightarrow> 'c \<Rightarrow> ('c, 'd) Raft \<times> int \<times> int \<times> bool" where
  "Start rf command =
     (if role rf \<noteq> Leader then (rf, -1, -1, False)
      else let entry = \<lparr>le_Command = Some command, le_Term = currentTerm rf\<rparr>;
               rf = persist (rf\<lparr>rlog := rlog rf @ [entry]\<rparr>)
           in (rf, lastLogIndex rf, currentTerm rf, True))"

text \<open>The (peer, term) pairs for which \<open>broadcastAppendEntries\<close> and one round of \<open>sendHeartbeats\<close>
  start a sender.\<close>

definition broadcastAppendEntries :: "('c, 'd) Raft \<Rightarrow> (int \<times> int) list" where
  "broadcastAppendEntries rf =
     (if role rf \<noteq> Leader then []
      else map (\<lambda>peer. (peer, currentTerm rf)) (filter (\<lambda>peer. peer \<noteq> me rf) (peers rf)))"

definition sendHeartbeats :: "('c, 'd) Raft \<Rightarrow> (int \<times> int) list" where
  "sendHeartbeats rf = (if killed rf \<or> role rf \<noteq> Leader then []
      else map (\<lambda>peer. (peer, currentTerm rf)) (filter (\<lambda>peer. peer \<noteq> me rf) (peers rf)))"

datatype ('c, 'd) outgoing = NoSend | SendSnapshot "'d InstallSnapshotArgs" | SendEntries "'c AppendEntriesArgs"

definition sendAppendEntriesToPeer :: "('c, 'd) Raft \<Rightarrow> int \<Rightarrow> int \<Rightarrow> ('c, 'd) outgoing option" where
  "sendAppendEntriesToPeer rf peer term =
     (if role rf \<noteq> Leader \<or> currentTerm rf \<noteq> term then Some NoSend
      else do {
        ni \<leftarrow> go_nth (nextIndex rf) peer;
        if ni \<le> lastIncludedIndex rf then
          Some (SendSnapshot \<lparr>is_Term = term, is_LeaderId = me rf,
             is_LastIncludedIndex = lastIncludedIndex rf, is_LastIncludedTerm = lastIncludedTerm rf,
             is_Data = ReadSnapshot (persister rf)\<rparr>)
        else do {
          let prevLogIndex = ni - 1;
          e \<leftarrow> go_nth (rlog rf) (getRelativeIndex rf prevLogIndex);
          entries \<leftarrow> go_from (rlog rf) (getRelativeIndex rf ni);
          Some (SendEntries \<lparr>ae_Term = term, ae_LeaderId = me rf,
             ae_PrevLogIndex = prevLogIndex, ae_PrevLogTerm = le_Term e,
             ae_Entries = entries, ae_LeaderCommit = commitIndex rf\<rparr>)
        }
      })"

fun countMatch :: "('c, 'd) Raft \<Rightarrow> int \<Rightarrow> int list \<Rightarrow> int \<Rightarrow> int option" where
  "countMatch rf N [] count = Some count"
| "countMatch rf N (peer # ps) count =
     (if peer \<noteq> me rf
      then do { m \<leftarrow> go_nth (matchIndex rf) peer;
                countMatch rf N ps (if m \<ge> N then count + 1 else count) }
      else countMatch rf N ps count)"

function updateCommitIndex_loop :: "('c, 'd) Raft \<Rightarrow> int \<Rightarrow> ('c, 'd) Raft option" where
  "updateCommitIndex_loop rf N =
     (if N > commitIndex rf then do {
        e \<leftarrow> go_nth (rlog rf) (getRelativeIndex rf N);
        if le_Term e \<noteq> currentTerm rf then Some rf
        else do {
          count \<leftarrow> countMatch rf N (peers rf) 1;
          if count > npeers rf div 2 then Some (rf\<lparr>commitIndex := N\<rparr>)
          else updateCommitIndex_loop rf (N - 1)
        }
      }
      else Some rf)"
  by pat_completeness auto
termination
  by (relation "measure (\<lambda>(rf, N). nat (N - commitIndex rf))") auto

declare updateCommitIndex_loop.simps [simp del]

definition updateCommitIndex :: "('c, 'd) Raft \<Rightarrow> ('c, 'd) Raft option" where
  "updateCommitIndex rf = updateCommitIndex_loop rf (lastLogIndex rf)"

text \<open>The backward search for the leader's last entry of the conflicting term, from position \<open>i\<close> of the
  log down to position 1.\<close>

fun findConflictTerm :: "('c, 'd) Raft \<Rightarrow> int \<Rightarrow> nat \<Rightarrow> int option option" where
  "findConflictTerm rf t 0 = Some None"
| "findConflictTerm rf t (Suc i) = do {
     e \<leftarrow> go_nth (rlog rf) (int (Suc i));
     if le_Term e = t then Some (Some (getAbsoluteIndex rf (int (Suc i))))
     else findConflictTerm rf t i
   }"

definition handleAppendReply :: "('c, 'd) Raft \<Rightarrow> int \<Rightarrow> int \<Rightarrow> 'c AppendEntriesArgs \<Rightarrow> AppendEntriesReply
    \<Rightarrow> ('c, 'd) Raft option" where
  "handleAppendReply rf peer term args reply =
     (if role rf \<noteq> Leader \<or> currentTerm rf \<noteq> term then Some rf
      else if aer_Term reply > currentTerm rf then Some (stepDown rf (aer_Term reply))
      else if aer_Success reply then do {
        mi \<leftarrow> go_set (matchIndex rf) peer (ae_PrevLogIndex args + int (length (ae_Entries args)));
        ni \<leftarrow> go_set (nextIndex rf) peer (ae_PrevLogIndex args + int (length (ae_Entries args)) + 1);
        updateCommitIndex (rf\<lparr>matchIndex := mi, nextIndex := ni\<rparr>)
      }
      else if aer_ConflictTerm reply = -1 then do {
        ni \<leftarrow> go_set (nextIndex rf) peer (aer_ConflictIndex reply);
        Some (rf\<lparr>nextIndex := ni\<rparr>)
      }
      else do {
        found \<leftarrow> findConflictTerm rf (aer_ConflictTerm reply) (length (rlog rf) - 1);
        ni \<leftarrow> go_set (nextIndex rf) peer
                (case found of Some i \<Rightarrow> i + 1 | None \<Rightarrow> aer_ConflictIndex reply);
        Some (rf\<lparr>nextIndex := ni\<rparr>)
      })"

definition handleSnapshotReply :: "('c, 'd) Raft \<Rightarrow> int \<Rightarrow> int \<Rightarrow> 'd InstallSnapshotArgs
    \<Rightarrow> InstallSnapshotReply \<Rightarrow> ('c, 'd) Raft option" where
  "handleSnapshotReply rf peer term args reply =
     (if role rf \<noteq> Leader \<or> currentTerm rf \<noteq> term then Some rf
      else if isr_Term reply > currentTerm rf then Some (stepDown rf (isr_Term reply))
      else do {
        m \<leftarrow> go_nth (matchIndex rf) peer;
        let m = (if m < is_LastIncludedIndex args then is_LastIncludedIndex args else m);
        mi \<leftarrow> go_set (matchIndex rf) peer m;
        ni \<leftarrow> go_set (nextIndex rf) peer (m + 1);
        Some (rf\<lparr>matchIndex := mi, nextIndex := ni\<rparr>)
      })"

section \<open>Log replication: follower\<close>

text \<open>The first index of the run of entries with the conflicting term, not below the snapshot.\<close>

function firstIndexOfTerm :: "('c, 'd) Raft \<Rightarrow> int \<Rightarrow> int \<Rightarrow> int option" where
  "firstIndexOfTerm rf t firstIndex =
     (if firstIndex > lastIncludedIndex rf then do {
        e \<leftarrow> go_nth (rlog rf) (getRelativeIndex rf (firstIndex - 1));
        if le_Term e = t then firstIndexOfTerm rf t (firstIndex - 1) else Some firstIndex
      }
      else Some firstIndex)"
  by pat_completeness auto
termination
  by (relation "measure (\<lambda>(rf, t, i). nat (i - lastIncludedIndex rf))") auto

declare firstIndexOfTerm.simps [simp del]

text \<open>The loop over the new entries: \<open>relIndex\<close> is the position of the first, and the flag says
  whether the log has changed.\<close>

fun appendLoop :: "'c LogEntry list \<Rightarrow> int \<Rightarrow> 'c LogEntry list \<Rightarrow> bool
    \<Rightarrow> ('c LogEntry list \<times> bool) option" where
  "appendLoop lg relIndex [] hasNew = Some (lg, hasNew)"
| "appendLoop lg relIndex (entry # es) hasNew =
     (if relIndex < int (length lg) then do {
        e \<leftarrow> go_nth lg relIndex;
        if le_Term e \<noteq> le_Term entry then do {
          lg \<leftarrow> go_upto lg relIndex;
          appendLoop (lg @ [entry]) (relIndex + 1) es True
        }
        else appendLoop lg (relIndex + 1) es hasNew
      }
      else appendLoop (lg @ [entry]) (relIndex + 1) es True)"

definition updateFollowerCommit :: "('c, 'd) Raft \<Rightarrow> 'c AppendEntriesArgs \<Rightarrow> ('c, 'd) Raft" where
  "updateFollowerCommit rf args =
     (if ae_LeaderCommit args > commitIndex rf then
        (let lastNewEntryIndex = ae_PrevLogIndex args + int (length (ae_Entries args));
             newCommitIndex = (if lastNewEntryIndex < ae_LeaderCommit args then lastNewEntryIndex
                               else ae_LeaderCommit args)
         in if newCommitIndex > commitIndex rf then rf\<lparr>commitIndex := newCommitIndex\<rparr> else rf)
      else rf)"

text \<open>The step down at the head of \<open>AppendEntries\<close> and \<open>InstallSnapshot\<close>.\<close>

definition acceptLeader :: "('c, 'd) Raft \<Rightarrow> int \<Rightarrow> ('c, 'd) Raft" where
  "acceptLeader rf t =
     (if t > currentTerm rf then stepDown rf t
      else if role rf = Candidate then rf\<lparr>role := Follower\<rparr> else rf)"

definition AppendEntries :: "('c, 'd) Raft \<Rightarrow> 'c AppendEntriesArgs \<Rightarrow> int
    \<Rightarrow> (('c, 'd) Raft \<times> AppendEntriesReply) option" where
  "AppendEntries rf args now =
     (let reply = \<lparr>aer_Term = 0, aer_Success = False, aer_ConflictTerm = 0, aer_ConflictIndex = 0\<rparr>
      in if ae_Term args < currentTerm rf then Some (rf, reply\<lparr>aer_Term := currentTerm rf\<rparr>)
      else let rf = (acceptLeader rf (ae_Term args))\<lparr>lastHeartbeat := now\<rparr>;
               reply = reply\<lparr>aer_Term := currentTerm rf\<rparr>
      in if ae_PrevLogIndex args < lastIncludedIndex rf then
           Some (rf, reply\<lparr>aer_ConflictIndex := lastIncludedIndex rf + 1, aer_ConflictTerm := -1\<rparr>)
      else if ae_PrevLogIndex args > lastLogIndex rf then
           Some (rf, reply\<lparr>aer_ConflictIndex := lastLogIndex rf + 1, aer_ConflictTerm := -1\<rparr>)
      else do {
        e \<leftarrow> go_nth (rlog rf) (getRelativeIndex rf (ae_PrevLogIndex args));
        if le_Term e \<noteq> ae_PrevLogTerm args then do {
          firstIndex \<leftarrow> firstIndexOfTerm rf (le_Term e) (ae_PrevLogIndex args);
          Some (rf, reply\<lparr>aer_ConflictTerm := le_Term e, aer_ConflictIndex := firstIndex\<rparr>)
        }
        else do {
          (lg, hasNew) \<leftarrow> appendLoop (rlog rf)
             (getRelativeIndex rf (ae_PrevLogIndex args + 1)) (ae_Entries args) False;
          let rf = rf\<lparr>rlog := lg\<rparr>;
          let rf = (if hasNew then persist rf else rf);
          Some (updateFollowerCommit rf args, reply\<lparr>aer_Success := True\<rparr>)
        }
      })"

text \<open>\<open>InstallSnapshot\<close> also returns the message its goroutine sends on \<open>applyCh\<close>, if any.\<close>

definition InstallSnapshot :: "('c, 'd) Raft \<Rightarrow> 'd InstallSnapshotArgs \<Rightarrow> int
    \<Rightarrow> (('c, 'd) Raft \<times> InstallSnapshotReply \<times> ('c, 'd) ApplyMsg option) option" where
  "InstallSnapshot rf args now =
     (let reply = \<lparr>isr_Term = currentTerm rf\<rparr>
      in if is_Term args < currentTerm rf then Some (rf, reply, None)
      else let rf = (acceptLeader rf (is_Term args))\<lparr>lastHeartbeat := now\<rparr>
      in if is_LastIncludedIndex args \<le> lastIncludedIndex rf then Some (rf, reply, None)
      else do {
        let relIdx = getRelativeIndex rf (is_LastIncludedIndex args);
        keep \<leftarrow> (if relIdx > 0 \<and> relIdx < int (length (rlog rf))
                  then map_option (\<lambda>e. le_Term e = is_LastIncludedTerm args) (go_nth (rlog rf) relIdx)
                  else Some False);
        newLog \<leftarrow> (if keep then compactLog rf (is_LastIncludedIndex args) relIdx (is_LastIncludedTerm args)
                   else Some [\<lparr>le_Command = None, le_Term = is_LastIncludedTerm args\<rparr>]);
        let rf = raiseCommitApplied (rf\<lparr>rlog := newLog, lastIncludedIndex := is_LastIncludedIndex args,
                    lastIncludedTerm := is_LastIncludedTerm args\<rparr>) (is_LastIncludedIndex args);
        Some (rf\<lparr>persister := Save (persister rf) (encodeState rf) (is_Data args)\<rparr>, reply,
              Some \<lparr>CommandValid = False, am_Command = None, CommandIndex = 0,
                    SnapshotValid = True, am_Snapshot = is_Data args,
                    SnapshotTerm = is_LastIncludedTerm args,
                    SnapshotIndex = is_LastIncludedIndex args\<rparr>)
      })"

section \<open>Applying committed entries\<close>

definition commandMsg :: "'c LogEntry \<Rightarrow> int \<Rightarrow> ('c, 'd) ApplyMsg" where
  "commandMsg e i = \<lparr>CommandValid = True, am_Command = le_Command e, CommandIndex = i,
     SnapshotValid = False, am_Snapshot = [], SnapshotTerm = 0, SnapshotIndex = 0\<rparr>"

text \<open>One iteration of \<open>applierLoop\<close> under the lock: the messages it then sends in order.\<close>

function applier_collect :: "('c, 'd) Raft \<Rightarrow> (('c, 'd) Raft \<times> ('c, 'd) ApplyMsg list) option" where
  "applier_collect rf =
     (if lastApplied rf < commitIndex rf then do {
        let rf = rf\<lparr>lastApplied := lastApplied rf + 1\<rparr>;
        e \<leftarrow> go_nth (rlog rf) (getRelativeIndex rf (lastApplied rf));
        (rf', msgs) \<leftarrow> applier_collect rf;
        Some (rf', commandMsg e (lastApplied rf) # msgs)
      }
      else Some (rf, []))"
  by pat_completeness auto
termination
  by (relation "measure (\<lambda>rf. nat (commitIndex rf - lastApplied rf))") auto

declare applier_collect.simps [simp del]

definition applierLoop_iter :: "('c, 'd) Raft \<Rightarrow> (('c, 'd) Raft \<times> ('c, 'd) ApplyMsg list) option" where
  "applierLoop_iter rf = (if killed rf then Some (rf, []) else applier_collect rf)"

end
