(* ===== verification/RaftNode.thy ===== *)
theory RaftNode
  imports Raft
begin

text \<open>
  What each operation of one Raft peer does, on every branch.  The case rules
  (\<open>RequestVote_cases\<close>, \<open>AppendEntries_cases\<close>, \<open>InstallSnapshot_cases\<close>, \<open>Snapshot_cases\<close>) are what the later
  theories use instead of the handlers' code.  The peer-local invariants are well-formedness of the
  indices and the log (under which the RPC handlers never panic), agreement of the stable storage
  with the persistent fields, monotone terms and one vote per term.
\<close>

section \<open>Selectors after the shared updates\<close>

lemma persist_sel [simp]:
  "npeers (persist rf) = npeers rf" "me (persist rf) = me rf" "dead (persist rf) = dead rf"
  "currentTerm (persist rf) = currentTerm rf" "votedFor (persist rf) = votedFor rf"
  "rlog (persist rf) = rlog rf" "lastIncludedIndex (persist rf) = lastIncludedIndex rf"
  "lastIncludedTerm (persist rf) = lastIncludedTerm rf" "commitIndex (persist rf) = commitIndex rf"
  "lastApplied (persist rf) = lastApplied rf" "nextIndex (persist rf) = nextIndex rf"
  "matchIndex (persist rf) = matchIndex rf" "role (persist rf) = role rf"
  "lastHeartbeat (persist rf) = lastHeartbeat rf"
  "raftstate (persister (persist rf)) = encodeState rf"
  "snapshot (persister (persist rf)) = snapshot (persister rf)"
  by (simp_all add: persist_def ReadSnapshot_def)

lemma acceptLeader_sel [simp]:
  "npeers (acceptLeader rf t) = npeers rf" "me (acceptLeader rf t) = me rf"
  "currentTerm (acceptLeader rf t) = max (currentTerm rf) t"
  "votedFor (acceptLeader rf t) = (if currentTerm rf < t then -1 else votedFor rf)"
  "rlog (acceptLeader rf t) = rlog rf" "lastIncludedIndex (acceptLeader rf t) = lastIncludedIndex rf"
  "lastIncludedTerm (acceptLeader rf t) = lastIncludedTerm rf"
  "commitIndex (acceptLeader rf t) = commitIndex rf" "lastApplied (acceptLeader rf t) = lastApplied rf"
  "nextIndex (acceptLeader rf t) = nextIndex rf" "matchIndex (acceptLeader rf t) = matchIndex rf"
  "role (acceptLeader rf t) = (if currentTerm rf < t \<or> role rf = Candidate then Follower else role rf)"
  by (simp_all add: acceptLeader_def)

definition bumpTerm :: "('c, 'd) Raft \<Rightarrow> int \<Rightarrow> ('c, 'd) Raft" where
  "bumpTerm rf t = (if t > currentTerm rf then stepDown rf t else rf)"

lemma bumpTerm_sel [simp]:
  "npeers (bumpTerm rf t) = npeers rf" "me (bumpTerm rf t) = me rf"
  "currentTerm (bumpTerm rf t) = max (currentTerm rf) t"
  "votedFor (bumpTerm rf t) = (if currentTerm rf < t then -1 else votedFor rf)"
  "rlog (bumpTerm rf t) = rlog rf" "lastIncludedIndex (bumpTerm rf t) = lastIncludedIndex rf"
  "lastIncludedTerm (bumpTerm rf t) = lastIncludedTerm rf"
  "commitIndex (bumpTerm rf t) = commitIndex rf" "lastApplied (bumpTerm rf t) = lastApplied rf"
  "nextIndex (bumpTerm rf t) = nextIndex rf" "matchIndex (bumpTerm rf t) = matchIndex rf"
  "role (bumpTerm rf t) = (if currentTerm rf < t then Follower else role rf)"
  by (simp_all add: bumpTerm_def)

lemma lastLogIndex_cong [simp]:
  "lastLogIndex (rf\<lparr>currentTerm := a\<rparr>) = lastLogIndex rf"
  "lastLogIndex (rf\<lparr>votedFor := b\<rparr>) = lastLogIndex rf"
  "lastLogIndex (rf\<lparr>role := r\<rparr>) = lastLogIndex rf"
  "lastLogIndex (rf\<lparr>lastHeartbeat := h\<rparr>) = lastLogIndex rf"
  "lastLogIndex (rf\<lparr>commitIndex := c\<rparr>) = lastLogIndex rf"
  "lastLogIndex (rf\<lparr>matchIndex := m\<rparr>) = lastLogIndex rf"
  "lastLogIndex (rf\<lparr>nextIndex := n\<rparr>) = lastLogIndex rf"
  "lastLogIndex (rf\<lparr>lastApplied := la\<rparr>) = lastLogIndex rf"
  "lastLogIndex (rf\<lparr>persister := p\<rparr>) = lastLogIndex rf"
  "lastLogIndex (persist rf) = lastLogIndex rf"
  "lastLogIndex (acceptLeader rf t) = lastLogIndex rf"
  "lastLogIndex (bumpTerm rf t) = lastLogIndex rf"
  by (simp_all add: lastLogIndex_def)

section \<open>Well-formed peers\<close>

definition raft_wf :: "('c, 'd) Raft \<Rightarrow> bool" where
  "raft_wf rf \<longleftrightarrow> rlog rf \<noteq> [] \<and> le_Term (hd (rlog rf)) = lastIncludedTerm rf
     \<and> 0 \<le> lastIncludedIndex rf \<and> lastIncludedIndex rf \<le> commitIndex rf
     \<and> lastIncludedIndex rf \<le> lastApplied rf
     \<and> int (length (nextIndex rf)) = npeers rf \<and> int (length (matchIndex rf)) = npeers rf
     \<and> 0 \<le> me rf \<and> me rf < npeers rf"

text \<open>The log by absolute index; the sentinel stands for the entry at the snapshot's index.\<close>

definition termAt :: "('c, 'd) Raft \<Rightarrow> int \<Rightarrow> int option" where
  "termAt rf i = map_option le_Term (go_nth (rlog rf) (getRelativeIndex rf i))"

definition entryAt :: "('c, 'd) Raft \<Rightarrow> int \<Rightarrow> 'c LogEntry option" where
  "entryAt rf i = (if i > lastIncludedIndex rf then go_nth (rlog rf) (getRelativeIndex rf i) else None)"

lemma raft_wf_last: "raft_wf rf \<Longrightarrow> lastIncludedIndex rf \<le> lastLogIndex rf"
  by (cases "rlog rf") (auto simp: raft_wf_def lastLogIndex_def)

lemma raft_wf_lastLogTerm: "raft_wf rf \<Longrightarrow> lastLogTerm rf = Some (le_Term (last (rlog rf)))"
  by (auto simp: raft_wf_def lastLogTerm_def go_nth_def last_conv_nth nat_diff_distrib)

lemma termAt_in:
  assumes "raft_wf rf" "lastIncludedIndex rf \<le> i" "i \<le> lastLogIndex rf"
  shows "termAt rf i = Some (le_Term (rlog rf ! nat (i - lastIncludedIndex rf)))"
  using assms by (simp add: termAt_def go_nth_def getRelativeIndex_def lastLogIndex_def)

section \<open>RequestVote\<close>

lemma RequestVote_cases [consumes 1, case_names stale denied granted]:
  assumes "RequestVote rf args now = Some (rf', reply)"
  obtains
    "rv_Term args < currentTerm rf" "rf' = rf"
    "reply = \<lparr>rvr_Term = currentTerm rf, rvr_VoteGranted = False\<rparr>"
  | "currentTerm rf \<le> rv_Term args" "rf' = bumpTerm rf (rv_Term args)"
    "reply = \<lparr>rvr_Term = rv_Term args, rvr_VoteGranted = False\<rparr>"
  | lt where "currentTerm rf \<le> rv_Term args"
    "rf' = (persist ((bumpTerm rf (rv_Term args))\<lparr>votedFor := rv_CandidateId args\<rparr>))\<lparr>lastHeartbeat := now\<rparr>"
    "reply = \<lparr>rvr_Term = rv_Term args, rvr_VoteGranted = True\<rparr>"
    "currentTerm rf = rv_Term args \<Longrightarrow> votedFor rf = -1 \<or> votedFor rf = rv_CandidateId args"
    "lastLogTerm rf = Some lt" "logUpToDate args (lastLogIndex rf) lt"
proof -
  let ?rf = "bumpTerm rf (rv_Term args)"
  have llt: "lastLogTerm ?rf = lastLogTerm rf" by (simp add: lastLogTerm_def)
  show thesis
    using assms that unfolding RequestVote_def bumpTerm_def [symmetric]
    by (auto simp: Let_def llt bind_Some_iff max_def split: if_splits)
qed

lemma RequestVote_total: "raft_wf rf \<Longrightarrow> RequestVote rf args now \<noteq> None"
  using raft_wf_lastLogTerm [of rf]
  by (auto simp: RequestVote_def lastLogTerm_def Let_def split: if_splits)

section \<open>AppendEntries\<close>

text \<open>The reference result of the entry loop: keep the log while terms agree, cut it at the first
  disagreement, and append what is missing.\<close>

fun mergeLog :: "'c LogEntry list \<Rightarrow> 'c LogEntry list \<Rightarrow> 'c LogEntry list" where
  "mergeLog tail [] = tail"
| "mergeLog [] es = es"
| "mergeLog (x # tail) (e # es) = (if le_Term x = le_Term e then x # mergeLog tail es else e # es)"

lemma appendLoop_past_end: "appendLoop lg (int (length lg)) es b = Some (lg @ es, b \<or> es \<noteq> [])"
proof (induction es arbitrary: lg b)
  case Nil
  then show ?case by simp
next
  case (Cons e es)
  from Cons.IH [of "lg @ [e]" True] show ?case by (simp add: add.commute)
qed

lemma appendLoop_merge:
  assumes "0 \<le> relIndex" and "relIndex \<le> int (length lg)"
  shows "\<exists>b'. appendLoop lg relIndex es b = Some (take (nat relIndex) lg @ mergeLog (drop (nat relIndex) lg) es, b')
     \<and> (b' = (b \<or> take (nat relIndex) lg @ mergeLog (drop (nat relIndex) lg) es \<noteq> lg))"
  using assms
proof (induction lg relIndex es b rule: appendLoop.induct)
  case (1 lg relIndex hasNew)
  then show ?case by simp
next
  case (2 lg relIndex entry es hasNew)
  let ?r = "nat relIndex"
  show ?case
  proof (cases "relIndex < int (length lg)")
    case False
    with "2.prems" have end_: "relIndex = int (length lg)" by simp
    then show ?thesis using appendLoop_past_end [of "lg @ [entry]" es True] by (auto simp: add.commute)
  next
    case True
    then have r: "?r < length lg" using "2.prems" by simp
    have d: "drop ?r lg = lg ! ?r # drop (Suc ?r) lg" using r by (simp add: Cons_nth_drop_Suc)
    have nth: "go_nth lg relIndex = Some (lg ! ?r)" using True "2.prems" by (simp add: go_nth_def)
    have suc: "nat (relIndex + 1) = Suc ?r" using "2.prems" by simp
    show ?thesis
    proof (cases "le_Term (lg ! ?r) = le_Term entry")
      case True
      from "2.IH"(2) [OF \<open>relIndex < int (length lg)\<close> nth] True "2.prems" r
      obtain b' where "appendLoop lg (relIndex + 1) es hasNew =
          Some (take (Suc ?r) lg @ mergeLog (drop (Suc ?r) lg) es, b')"
        "b' = (hasNew \<or> take (Suc ?r) lg @ mergeLog (drop (Suc ?r) lg) es \<noteq> lg)"
        by (auto simp: suc)
      with True nth \<open>relIndex < int (length lg)\<close> d r show ?thesis
        by (simp add: take_Suc_conv_app_nth)
    next
      case False
      have up: "go_upto lg relIndex = Some (take ?r lg)" using r "2.prems" by (simp add: go_upto_def)
      have "take ?r lg @ entry # es \<noteq> lg"
      proof
        assume "take ?r lg @ entry # es = lg"
        then have "lg ! ?r = entry" using r by (metis (no_types) length_take min.absorb4 nth_append_length)
        with False show False by simp
      qed
      with False nth up True r d appendLoop_past_end [of "take ?r lg @ [entry]" es True]
      show ?thesis using "2.prems" by (auto simp: min_def add.commute)
    qed
  qed
qed

lemma hd_take_app: "0 < n \<Longrightarrow> lg \<noteq> [] \<Longrightarrow> hd (take n lg @ ys) = hd lg"
  by (cases lg; cases n) auto

lemma firstIndexOfTerm_spec:
  assumes "raft_wf rf" and "lastIncludedIndex rf \<le> i" and "i \<le> lastLogIndex rf" and "termAt rf i = Some t"
  shows "\<exists>j. firstIndexOfTerm rf t i = Some j \<and> lastIncludedIndex rf \<le> j \<and> j \<le> i
     \<and> (\<forall>k. j \<le> k \<and> k \<le> i \<longrightarrow> termAt rf k = Some t)
     \<and> (lastIncludedIndex rf < j \<longrightarrow> termAt rf (j - 1) \<noteq> Some t)"
  using assms
proof (induction rf t i rule: firstIndexOfTerm.induct)
  case (1 rf t i)
  show ?case
  proof (cases "lastIncludedIndex rf < i")
    case False
    with "1.prems" show ?thesis by (auto simp: firstIndexOfTerm.simps [of rf t i] intro: exI [of _ i])
  next
    case True
    then obtain e where e: "go_nth (rlog rf) (getRelativeIndex rf (i - 1)) = Some e"
      and te: "termAt rf (i - 1) = Some (le_Term e)"
      using "1.prems" termAt_in [of rf "i - 1"]
      by (auto simp: termAt_def split: option.splits)
    show ?thesis
    proof (cases "le_Term e = t")
      case True
      with "1.IH" [OF \<open>lastIncludedIndex rf < i\<close> e] "1.prems" te \<open>lastIncludedIndex rf < i\<close>
      obtain j where j: "firstIndexOfTerm rf t (i - 1) = Some j" "lastIncludedIndex rf \<le> j" "j \<le> i - 1"
        "\<forall>k. j \<le> k \<and> k \<le> i - 1 \<longrightarrow> termAt rf k = Some t"
        "lastIncludedIndex rf < j \<longrightarrow> termAt rf (j - 1) \<noteq> Some t" by auto
      have "termAt rf k = Some t" if "j \<le> k" "k \<le> i" for k
        using j(4) "1.prems"(4) that by (cases "k = i") auto
      with j True e \<open>lastIncludedIndex rf < i\<close> show ?thesis
        by (intro exI [of _ j]) (auto simp: firstIndexOfTerm.simps [of rf t i])
    next
      case False
      have "termAt rf k = Some t" if "i \<le> k" "k \<le> i" for k
        using "1.prems"(4) that by simp
      with False e te True "1.prems" show ?thesis
        by (intro exI [of _ i]) (auto simp: firstIndexOfTerm.simps [of rf t i])
    qed
  qed
qed

text \<open>The state of an accepting follower, before the commit index is updated.\<close>

definition mergedLog :: "('c, 'd) Raft \<Rightarrow> 'c AppendEntriesArgs \<Rightarrow> 'c LogEntry list" where
  "mergedLog rf args =
     (let r = nat (ae_PrevLogIndex args + 1 - lastIncludedIndex rf)
      in take r (rlog rf) @ mergeLog (drop r (rlog rf)) (ae_Entries args))"

lemma AppendEntries_cases [consumes 2, case_names stale rejected accepted]:
  assumes "AppendEntries rf args now = Some (rf', reply)" and wf: "raft_wf rf"
  obtains
    "ae_Term args < currentTerm rf" "rf' = rf" "\<not> aer_Success reply" "aer_Term reply = currentTerm rf"
  | "currentTerm rf \<le> ae_Term args"
    "rf' = (acceptLeader rf (ae_Term args))\<lparr>lastHeartbeat := now\<rparr>"
    "\<not> aer_Success reply" "aer_Term reply = ae_Term args"
  | rf1 where "currentTerm rf \<le> ae_Term args"
    "lastIncludedIndex rf \<le> ae_PrevLogIndex args" "ae_PrevLogIndex args \<le> lastLogIndex rf"
    "termAt rf (ae_PrevLogIndex args) = Some (ae_PrevLogTerm args)"
    "rf1 = (acceptLeader rf (ae_Term args))\<lparr>lastHeartbeat := now, rlog := mergedLog rf args\<rparr>"
    "rf' = updateFollowerCommit (if mergedLog rf args \<noteq> rlog rf then persist rf1 else rf1) args"
    "aer_Success reply" "aer_Term reply = ae_Term args"
proof -
  let ?prev = "ae_PrevLogIndex args"
  let ?rf = "(acceptLeader rf (ae_Term args))\<lparr>lastHeartbeat := now\<rparr>"
  let ?rf1 = "(acceptLeader rf (ae_Term args))\<lparr>lastHeartbeat := now, rlog := mergedLog rf args\<rparr>"
  show thesis
  proof (cases "ae_Term args < currentTerm rf")
    case True
    with assms(1) have "rf' = rf" "\<not> aer_Success reply" "aer_Term reply = currentTerm rf"
      by (auto simp: AppendEntries_def Let_def)
    with True show thesis by (rule that(1))
  next
    case newer: False
    then have mx: "max (currentTerm rf) (ae_Term args) = ae_Term args" by simp
    show thesis
    proof (cases "lastIncludedIndex rf \<le> ?prev \<and> ?prev \<le> lastLogIndex rf
                    \<and> termAt rf ?prev = Some (ae_PrevLogTerm args)")
      case False
      have "rf' = ?rf \<and> \<not> aer_Success reply \<and> aer_Term reply = ae_Term args"
      proof -
        consider (low) "?prev < lastIncludedIndex rf"
          | (high) "lastIncludedIndex rf \<le> ?prev" "lastLogIndex rf < ?prev"
          | (mismatch) "lastIncludedIndex rf \<le> ?prev" "?prev \<le> lastLogIndex rf"
            "termAt rf ?prev \<noteq> Some (ae_PrevLogTerm args)" using False by linarith
        then show ?thesis
        proof cases
          case low
          with assms(1) newer mx show ?thesis by (auto simp: AppendEntries_def Let_def)
        next
          case high
          with assms(1) newer mx show ?thesis by (auto simp: AppendEntries_def Let_def)
        next
          case mismatch
          with termAt_in [OF wf] obtain e where e: "go_nth (rlog rf) (?prev - lastIncludedIndex rf) = Some e"
            "le_Term e \<noteq> ae_PrevLogTerm args" by (fastforce simp: termAt_def getRelativeIndex_def)
          with assms(1) newer mx mismatch show ?thesis
            by (auto simp: AppendEntries_def Let_def getRelativeIndex_def bind_Some_iff)
        qed
      qed
      with newer that(2) show thesis by simp
    next
      case True
      let ?r = "getRelativeIndex rf (?prev + 1)"
      have "0 \<le> ?r" "?r \<le> int (length (rlog rf))"
        using True by (auto simp: getRelativeIndex_def lastLogIndex_def)
      from appendLoop_merge [OF this, of "ae_Entries args" False]
      have loop: "appendLoop (rlog rf) ?r (ae_Entries args) False =
          Some (mergedLog rf args, mergedLog rf args \<noteq> rlog rf)"
        by (simp add: mergedLog_def Let_def getRelativeIndex_def)
      from True obtain e where e: "go_nth (rlog rf) (?prev - lastIncludedIndex rf) = Some e"
        "le_Term e = ae_PrevLogTerm args" by (auto simp: termAt_def getRelativeIndex_def)
      from assms(1) newer True loop e mx
      have "rf' = updateFollowerCommit (if mergedLog rf args \<noteq> rlog rf then persist ?rf1 else ?rf1) args"
        and "aer_Success reply" "aer_Term reply = ae_Term args"
        by (auto simp: AppendEntries_def Let_def bind_Some_iff getRelativeIndex_def split: if_splits)
      with newer True show thesis by (intro that(3) [OF _ _ _ _ refl]) auto
    qed
  qed
qed

lemma updateFollowerCommit_eq:
  "updateFollowerCommit rf args = rf\<lparr>commitIndex :=
     max (commitIndex rf) (min (ae_LeaderCommit args) (ae_PrevLogIndex args + int (length (ae_Entries args))))\<rparr>"
  by (simp add: updateFollowerCommit_def Let_def max_def min_def)

section \<open>Compaction\<close>

lemma compactLog_eq:
  assumes "raft_wf rf" and "lastIncludedIndex rf \<le> index" and "index \<le> lastLogIndex rf"
  shows "compactLog rf index (getRelativeIndex rf index) t =
     Some (\<lparr>le_Command = None, le_Term = t\<rparr> # drop (Suc (nat (index - lastIncludedIndex rf))) (rlog rf))"
proof -
  let ?k = "nat (index - lastIncludedIndex rf)"
  let ?m = "1 + lastLogIndex rf - index"
  let ?z = "\<lparr>le_Command = None, le_Term = t\<rparr> :: 'a LogEntry"
  have k: "?k < length (rlog rf)" and idx: "getRelativeIndex rf index + 1 = int (Suc ?k)"
    and m: "?m = int (length (rlog rf) - ?k)"
    using assms by (auto simp: lastLogIndex_def getRelativeIndex_def)
  then obtain j where j: "length (rlog rf) - ?k = Suc j" by (metis Suc_diff_Suc)
  then have len: "length (drop (Suc ?k) (rlog rf)) = j" by simp
  have "nat ?m = Suc j" using m j by linarith
  then have "go_make ?m (zeroEntry :: 'a LogEntry) = Some (zeroEntry # replicate j zeroEntry)"
    by (simp add: go_make_def)
  moreover have "go_from (rlog rf) (getRelativeIndex rf index + 1) = Some (drop (Suc ?k) (rlog rf))"
    unfolding idx go_from_def using k by (simp del: of_nat_Suc)
  ultimately show ?thesis
    using len by (simp add: compactLog_def go_set_def go_from_def)
qed

lemma compactLog_cong [simp]:
  "compactLog (rf\<lparr>lastIncludedTerm := u\<rparr>) index relIdx t = compactLog rf index relIdx t"
  "compactLog (rf\<lparr>lastHeartbeat := h\<rparr>) index relIdx t = compactLog rf index relIdx t"
  "compactLog (acceptLeader rf v) index relIdx t = compactLog rf index relIdx t"
  by (simp_all add: compactLog_def lastLogIndex_def)

lemma raiseCommitApplied_eq:
  "raiseCommitApplied rf index =
     rf\<lparr>commitIndex := max (commitIndex rf) index, lastApplied := max (lastApplied rf) index\<rparr>"
  by (simp add: raiseCommitApplied_def max_def)

text \<open>The peer after its log was replaced at \<open>index\<close> and saved with the snapshot \<open>snap\<close>.\<close>

definition installed :: "('c, 'd) Raft \<Rightarrow> int \<Rightarrow> int \<Rightarrow> 'c LogEntry list \<Rightarrow> 'd list \<Rightarrow> ('c, 'd) Raft" where
  "installed rf index t lg snap =
     (let rf = rf\<lparr>rlog := lg, lastIncludedIndex := index, lastIncludedTerm := t,
                  commitIndex := max (commitIndex rf) index, lastApplied := max (lastApplied rf) index\<rparr>
      in rf\<lparr>persister := Save (persister rf) (encodeState rf) snap\<rparr>)"

lemma installed_sel [simp]:
  "npeers (installed rf i t lg sn) = npeers rf" "me (installed rf i t lg sn) = me rf"
  "currentTerm (installed rf i t lg sn) = currentTerm rf" "votedFor (installed rf i t lg sn) = votedFor rf"
  "rlog (installed rf i t lg sn) = lg" "lastIncludedIndex (installed rf i t lg sn) = i"
  "lastIncludedTerm (installed rf i t lg sn) = t"
  "commitIndex (installed rf i t lg sn) = max (commitIndex rf) i"
  "lastApplied (installed rf i t lg sn) = max (lastApplied rf) i"
  "nextIndex (installed rf i t lg sn) = nextIndex rf" "matchIndex (installed rf i t lg sn) = matchIndex rf"
  "role (installed rf i t lg sn) = role rf"
  "raftstate (persister (installed rf i t lg sn)) = encodeState (installed rf i t lg sn)"
  "snapshot (persister (installed rf i t lg sn)) = sn"
  by (simp_all add: installed_def Let_def encodeState_def)

lemma Snapshot_cases [consumes 2, case_names old compacted]:
  assumes "Snapshot rf index snap = Some rf'" and wf: "raft_wf rf"
  obtains "index \<le> lastIncludedIndex rf" "rf' = rf"
  | e where "lastIncludedIndex rf < index" "index \<le> lastLogIndex rf"
    "e = rlog rf ! nat (index - lastIncludedIndex rf)"
    "rf' = installed rf index (le_Term e)
       (\<lparr>le_Command = None, le_Term = le_Term e\<rparr> # drop (Suc (nat (index - lastIncludedIndex rf))) (rlog rf)) snap"
proof (cases "index \<le> lastIncludedIndex rf")
  case True
  with assms(1) have "rf' = rf" by (simp add: Snapshot_def)
  with True show thesis by (rule that(1))
next
  case False
  with assms(1) obtain e where e: "go_nth (rlog rf) (getRelativeIndex rf index) = Some e"
    by (auto simp: Snapshot_def Let_def bind_Some_iff)
  then have le: "index \<le> lastLogIndex rf" and ee: "e = rlog rf ! nat (index - lastIncludedIndex rf)"
    by (auto simp: go_simps getRelativeIndex_def lastLogIndex_def)
  from False have lt: "lastIncludedIndex rf \<le> index" by simp
  show thesis
  proof (rule that(2) [OF _ le ee])
    show "rf' = installed rf index (le_Term e)
       (\<lparr>le_Command = None, le_Term = le_Term e\<rparr> # drop (Suc (nat (index - lastIncludedIndex rf))) (rlog rf)) snap"
      using assms(1) False e compactLog_eq [OF wf lt le, of "le_Term e"]
      by (intro Raft.equality)
         (auto simp: Snapshot_def Let_def raiseCommitApplied_eq installed_def encodeState_def)
  qed (use False in simp)
qed

lemma Snapshot_total:
  "raft_wf rf \<Longrightarrow> index \<le> lastLogIndex rf \<Longrightarrow> Snapshot rf index snap \<noteq> None"
  using compactLog_eq [of rf index]
  by (auto simp: Snapshot_def Let_def getRelativeIndex_def lastLogIndex_def go_nth_def)

text \<open>The log an installed snapshot leaves: the matching suffix, or the sentinel alone.\<close>

definition snapshotLog :: "('c, 'd) Raft \<Rightarrow> 'd InstallSnapshotArgs \<Rightarrow> 'c LogEntry list" where
  "snapshotLog rf args =
     \<lparr>le_Command = None, le_Term = is_LastIncludedTerm args\<rparr> #
     (if is_LastIncludedIndex args \<le> lastLogIndex rf
         \<and> termAt rf (is_LastIncludedIndex args) = Some (is_LastIncludedTerm args)
      then drop (Suc (nat (is_LastIncludedIndex args - lastIncludedIndex rf))) (rlog rf) else [])"

lemma InstallSnapshot_install:
  assumes wf: "raft_wf rf" and newer: "\<not> is_Term args < currentTerm rf"
    and False: "\<not> is_LastIncludedIndex args \<le> lastIncludedIndex rf"
  shows "InstallSnapshot rf args now =
    Some (installed ((acceptLeader rf (is_Term args))\<lparr>lastHeartbeat := now\<rparr>) (is_LastIncludedIndex args)
            (is_LastIncludedTerm args) (snapshotLog rf args) (is_Data args), \<lparr>isr_Term = currentTerm rf\<rparr>,
          Some \<lparr>CommandValid = False, am_Command = None, CommandIndex = 0, SnapshotValid = True,
             am_Snapshot = is_Data args, SnapshotTerm = is_LastIncludedTerm args,
             SnapshotIndex = is_LastIncludedIndex args\<rparr>)"
proof -
  let ?rf = "(acceptLeader rf (is_Term args))\<lparr>lastHeartbeat := now\<rparr>"
  let ?i = "is_LastIncludedIndex args" and ?t = "is_LastIncludedTerm args"
  have eq: "(if keep then compactLog ?rf ?i (getRelativeIndex ?rf ?i) ?t
       else Some [\<lparr>le_Command = None, le_Term = ?t\<rparr>]) = Some (snapshotLog rf args)"
    if "keep \<longleftrightarrow> ?i \<le> lastLogIndex rf \<and> termAt rf ?i = Some ?t" for keep
    using that False compactLog_eq [OF wf, of ?i ?t] by (auto simp: snapshotLog_def getRelativeIndex_def)
  have keep: "(if getRelativeIndex ?rf ?i > 0 \<and> getRelativeIndex ?rf ?i < int (length (rlog ?rf))
        then map_option (\<lambda>e. le_Term e = ?t) (go_nth (rlog ?rf) (getRelativeIndex ?rf ?i))
        else Some False) = Some (?i \<le> lastLogIndex rf \<and> termAt rf ?i = Some ?t)"
    using False termAt_in [OF wf, of ?i]
    by (auto simp: getRelativeIndex_def lastLogIndex_def go_nth_def)
  show ?thesis
    unfolding InstallSnapshot_def Let_def keep
    using newer False by (simp add: eq [OF refl] raiseCommitApplied_eq installed_def Let_def)
qed

lemma InstallSnapshot_cases [consumes 2, case_names stale old installed]:
  assumes "InstallSnapshot rf args now = Some (rf', reply, msg)" and wf: "raft_wf rf"
  obtains
    "is_Term args < currentTerm rf" "rf' = rf" "reply = \<lparr>isr_Term = currentTerm rf\<rparr>" "msg = None"
  | "currentTerm rf \<le> is_Term args" "is_LastIncludedIndex args \<le> lastIncludedIndex rf"
    "rf' = (acceptLeader rf (is_Term args))\<lparr>lastHeartbeat := now\<rparr>"
    "reply = \<lparr>isr_Term = currentTerm rf\<rparr>" "msg = None"
  | m where "currentTerm rf \<le> is_Term args" "lastIncludedIndex rf < is_LastIncludedIndex args"
    "rf' = installed ((acceptLeader rf (is_Term args))\<lparr>lastHeartbeat := now\<rparr>) (is_LastIncludedIndex args)
       (is_LastIncludedTerm args) (snapshotLog rf args) (is_Data args)"
    "reply = \<lparr>isr_Term = currentTerm rf\<rparr>" "msg = Some m"
    "SnapshotValid m" "am_Snapshot m = is_Data args" "SnapshotIndex m = is_LastIncludedIndex args"
proof (cases "is_Term args < currentTerm rf")
  case True
  with assms(1) have "rf' = rf" "reply = \<lparr>isr_Term = currentTerm rf\<rparr>" "msg = None"
    by (auto simp: InstallSnapshot_def)
  with True show thesis by (rule that(1))
next
  case newer: False
  show thesis
  proof (cases "is_LastIncludedIndex args \<le> lastIncludedIndex rf")
    case True
    with newer assms(1)
    have "rf' = (acceptLeader rf (is_Term args))\<lparr>lastHeartbeat := now\<rparr>"
      "reply = \<lparr>isr_Term = currentTerm rf\<rparr>" "msg = None"
      by (auto simp: InstallSnapshot_def Let_def)
    with newer True show thesis by (intro that(2)) simp_all
  next
    case False
    let ?rf = "(acceptLeader rf (is_Term args))\<lparr>lastHeartbeat := now\<rparr>"
    let ?i = "is_LastIncludedIndex args" and ?t = "is_LastIncludedTerm args"
    note InstallSnapshot_install [OF wf newer False, of now]
    with assms(1) have "rf' = installed ?rf ?i ?t (snapshotLog rf args) (is_Data args)"
      "reply = \<lparr>isr_Term = currentTerm rf\<rparr>"
      "msg = Some \<lparr>CommandValid = False, am_Command = None, CommandIndex = 0, SnapshotValid = True,
         am_Snapshot = is_Data args, SnapshotTerm = ?t, SnapshotIndex = ?i\<rparr>" by simp_all
    with newer False show thesis by (intro that(3)) auto
  qed
qed

lemma AppendEntries_total:
  assumes wf: "raft_wf rf" shows "AppendEntries rf args now \<noteq> None"
proof -
  let ?prev = "ae_PrevLogIndex args"
  let ?rf = "(acceptLeader rf (ae_Term args))\<lparr>lastHeartbeat := now\<rparr>"
  let ?r = "getRelativeIndex rf (?prev + 1)"
  have wf': "raft_wf ?rf" using wf by (simp add: raft_wf_def)
  show ?thesis
  proof (cases "lastIncludedIndex rf \<le> ?prev \<and> ?prev \<le> lastLogIndex rf")
    case False
    then show ?thesis by (auto simp: AppendEntries_def Let_def)
  next
    case True
    then have r: "0 \<le> ?r" "?r \<le> int (length (rlog rf))" by (auto simp: getRelativeIndex_def lastLogIndex_def)
    from True obtain e where e: "go_nth (rlog rf) (?prev - lastIncludedIndex rf) = Some e"
      by (auto simp: go_nth_def lastLogIndex_def)
    then have "termAt ?rf ?prev = Some (le_Term e)" by (simp add: termAt_def getRelativeIndex_def)
    with firstIndexOfTerm_spec [OF wf', of ?prev "le_Term e"] True
    obtain j where "firstIndexOfTerm ?rf (le_Term e) ?prev = Some j" by auto
    with e appendLoop_merge [OF r, of "ae_Entries args" False] show ?thesis
      by (auto simp: AppendEntries_def Let_def getRelativeIndex_def)
  qed
qed

lemma InstallSnapshot_total:
  assumes "raft_wf rf" shows "InstallSnapshot rf args now \<noteq> None"
proof (cases "is_Term args < currentTerm rf \<or> is_LastIncludedIndex args \<le> lastIncludedIndex rf")
  case True
  then show ?thesis by (auto simp: InstallSnapshot_def Let_def)
next
  case False
  with InstallSnapshot_install [OF assms] show ?thesis by simp
qed

section \<open>Commit index of a leader\<close>

lemma countMatch_eq:
  assumes "\<forall>p \<in> set ps. 0 \<le> p \<and> p < int (length (matchIndex rf))"
  shows "countMatch rf N ps c =
     Some (c + int (length (filter (\<lambda>p. p \<noteq> me rf \<and> N \<le> matchIndex rf ! nat p) ps)))"
  using assms by (induction ps arbitrary: c) (auto simp: go_nth_def)

definition replicas :: "('c, 'd) Raft \<Rightarrow> int \<Rightarrow> int" where
  "replicas rf N = 1 + int (length (filter (\<lambda>p. p \<noteq> me rf \<and> N \<le> matchIndex rf ! nat p) (peers rf)))"

lemma countMatch_replicas: "raft_wf rf \<Longrightarrow> countMatch rf N (peers rf) 1 = Some (replicas rf N)"
  by (simp add: countMatch_eq replicas_def raft_wf_def)

definition committable :: "('c, 'd) Raft \<Rightarrow> int \<Rightarrow> bool" where
  "committable rf N \<longleftrightarrow> commitIndex rf < N \<and> N \<le> lastLogIndex rf
     \<and> (\<forall>k. N \<le> k \<and> k \<le> lastLogIndex rf \<longrightarrow> termAt rf k = Some (currentTerm rf))
     \<and> replicas rf N > npeers rf div 2"

lemma updateCommitIndex_loop_spec:
  assumes "raft_wf rf" and "N \<le> lastLogIndex rf"
    and "\<forall>k. N < k \<and> k \<le> lastLogIndex rf \<longrightarrow>
           termAt rf k = Some (currentTerm rf) \<and> \<not> replicas rf k > npeers rf div 2"
  shows "\<exists>rf'. updateCommitIndex_loop rf N = Some rf'
     \<and> (rf' = rf \<and> (\<forall>k \<le> N. \<not> committable rf k)
        \<or> (\<exists>k \<le> N. committable rf k \<and> rf' = rf\<lparr>commitIndex := k\<rparr> \<and> (\<forall>j > k. \<not> committable rf j)))"
  using assms
proof (induction rf N rule: updateCommitIndex_loop.induct)
  case (1 rf N)
  note step = updateCommitIndex_loop.simps [of rf N]
  show ?case
  proof (cases "commitIndex rf < N")
    case False
    then show ?thesis by (auto simp: step committable_def)
  next
    case True
    with "1.prems" have "lastIncludedIndex rf \<le> N" by (simp add: raft_wf_def)
    with "1.prems" obtain e where e: "go_nth (rlog rf) (getRelativeIndex rf N) = Some e"
      by (auto simp: go_nth_def getRelativeIndex_def lastLogIndex_def)
    then have tN: "termAt rf N = Some (le_Term e)" by (simp add: termAt_def)
    show ?thesis
    proof (cases "le_Term e = currentTerm rf")
      case False
      have "\<not> committable rf k" if "k \<le> N" for k
        using False tN that "1.prems"(2) by (auto simp: committable_def dest: spec [of _ N])
      with False True e show ?thesis by (auto simp: step)
    next
      case current: True
      note cm = countMatch_replicas [OF "1.prems"(1), of N]
      show ?thesis
      proof (cases "replicas rf N > npeers rf div 2")
        case True
        have all: "termAt rf k = Some (currentTerm rf)" if "N \<le> k" "k \<le> lastLogIndex rf" for k
          using tN current "1.prems"(3) that by (cases "k = N") auto
        then have "committable rf N" using True \<open>commitIndex rf < N\<close> "1.prems"(2) by (simp add: committable_def)
        moreover have "\<not> committable rf j" if "j > N" for j
          using "1.prems"(3) that by (auto simp: committable_def)
        ultimately show ?thesis using True \<open>commitIndex rf < N\<close> e current cm by (auto simp: step)
      next
        case False
        have "termAt rf k = Some (currentTerm rf) \<and> \<not> replicas rf k > npeers rf div 2"
          if "N - 1 < k" "k \<le> lastLogIndex rf" for k
          using False tN current "1.prems"(3) that by (cases "k = N") auto
        then have nxt: "\<forall>k. N - 1 < k \<and> k \<le> lastLogIndex rf \<longrightarrow>
            termAt rf k = Some (currentTerm rf) \<and> \<not> replicas rf k > npeers rf div 2" by blast
        from "1.IH" [OF True e _ cm False "1.prems"(1) _ nxt] current "1.prems"(2)
        have IH: "\<exists>rf'. updateCommitIndex_loop rf (N - 1) = Some rf'
           \<and> (rf' = rf \<and> (\<forall>k \<le> N - 1. \<not> committable rf k)
              \<or> (\<exists>k \<le> N - 1. committable rf k \<and> rf' = rf\<lparr>commitIndex := k\<rparr> \<and> (\<forall>j > k. \<not> committable rf j)))"
          by simp
        have "\<not> committable rf N" using False by (simp add: committable_def)
        then have "(\<forall>k \<le> N - 1. \<not> committable rf k) \<longleftrightarrow> (\<forall>k \<le> N. \<not> committable rf k)"
          by (metis zle_diff1_eq order_le_less)
        moreover have "updateCommitIndex_loop rf N = updateCommitIndex_loop rf (N - 1)"
          using True e current cm False by (simp add: step)
        ultimately show ?thesis using IH by (metis zle_diff1_eq order_less_imp_le)
      qed
    qed
  qed
qed

end
