(* ===== verification/RaftLocal.thy ===== *)
theory RaftLocal
  imports RaftNode
begin

text \<open>
  The guarantees of a single Raft peer under every event it can handle: its invariants are preserved,
  its RPC handlers never panic, its stable storage always holds its persistent state (so a restart
  loses nothing), terms never go back and a vote is never changed within a term, and committed
  entries are delivered once each and in order.
\<close>

section \<open>Events\<close>

datatype ('c, 'd) raft_event =
    EvRequestVote RequestVoteArgs int
  | EvAppendEntries "'c AppendEntriesArgs" int
  | EvInstallSnapshot "'d InstallSnapshotArgs" int
  | EvStart 'c
  | EvSnapshot int "'d list"
  | EvTick int int
  | EvVoteReply int int RequestVoteReply int
  | EvAppendReply int int "'c AppendEntriesArgs" AppendEntriesReply
  | EvSnapshotReply int int "'d InstallSnapshotArgs" InstallSnapshotReply
  | EvApply
  | EvKill

fun handle :: "('c, 'd) raft_event \<Rightarrow> ('c, 'd) Raft \<Rightarrow> ('c, 'd) Raft option" where
  "handle (EvRequestVote args now) rf = map_option fst (RequestVote rf args now)"
| "handle (EvAppendEntries args now) rf = map_option fst (AppendEntries rf args now)"
| "handle (EvInstallSnapshot args now) rf = map_option fst (InstallSnapshot rf args now)"
| "handle (EvStart c) rf = Some (fst (Start rf c))"
| "handle (EvSnapshot i d) rf = Snapshot rf i d"
| "handle (EvTick now rnd) rf = map_option fst (ticker_tick rf now rnd)"
| "handle (EvVoteReply votes t reply now) rf = Some (fst (handleVoteReply rf votes t reply now))"
| "handle (EvAppendReply peer t args reply) rf = handleAppendReply rf peer t args reply"
| "handle (EvSnapshotReply peer t args reply) rf = handleSnapshotReply rf peer t args reply"
| "handle EvApply rf = map_option fst (applierLoop_iter rf)"
| "handle EvKill rf = Some (Kill rf)"

section \<open>Reply handlers and the applier\<close>

lemma updateCommitIndex_cases:
  assumes "raft_wf rf"
  shows "\<exists>rf'. updateCommitIndex rf = Some rf' \<and>
     (rf' = rf \<and> (\<forall>k. \<not> committable rf k)
      \<or> (\<exists>k. committable rf k \<and> rf' = rf\<lparr>commitIndex := k\<rparr> \<and> (\<forall>j > k. \<not> committable rf j)))"
proof -
  from updateCommitIndex_loop_spec [OF assms, of "lastLogIndex rf"]
  obtain rf' where rf': "updateCommitIndex rf = Some rf'"
    and c: "rf' = rf \<and> (\<forall>k \<le> lastLogIndex rf. \<not> committable rf k)
      \<or> (\<exists>k. committable rf k \<and> rf' = rf\<lparr>commitIndex := k\<rparr> \<and> (\<forall>j > k. \<not> committable rf j))"
    by (auto simp: updateCommitIndex_def)
  have "(\<forall>k. \<not> committable rf k)" if "\<forall>k \<le> lastLogIndex rf. \<not> committable rf k"
    using that by (auto simp: committable_def)
  with rf' c show ?thesis by blast
qed

lemma updateCommitIndex_raises:
  assumes "raft_wf rf" "updateCommitIndex rf = Some rf'"
  shows "\<exists>k \<ge> commitIndex rf. rf' = rf\<lparr>commitIndex := k\<rparr>"
proof -
  have "rf\<lparr>commitIndex := commitIndex rf\<rparr> = rf" by simp
  moreover have "commitIndex rf \<le> k" if "committable rf k" for k using that by (simp add: committable_def)
  ultimately show ?thesis using updateCommitIndex_cases [OF assms(1)] assms(2)
    by (metis option.inject order_refl)
qed

lemma handleAppendReply_cases [consumes 2, case_names ignored deposed matched backed_up]:
  assumes "handleAppendReply rf peer t args reply = Some rf'" and wf: "raft_wf rf"
  obtains "role rf \<noteq> Leader \<or> currentTerm rf \<noteq> t" "rf' = rf"
  | "role rf = Leader" "currentTerm rf = t" "t < aer_Term reply" "rf' = stepDown rf (aer_Term reply)"
  | rf1 where "role rf = Leader" "currentTerm rf = t" "aer_Term reply \<le> t" "aer_Success reply"
    "0 \<le> peer" "peer < npeers rf"
    "rf1 = rf\<lparr>matchIndex := (matchIndex rf)[nat peer := ae_PrevLogIndex args + int (length (ae_Entries args))],
              nextIndex := (nextIndex rf)[nat peer := ae_PrevLogIndex args + int (length (ae_Entries args)) + 1]\<rparr>"
    "raft_wf rf1" "updateCommitIndex rf1 = Some rf'"
  | ni where "role rf = Leader" "currentTerm rf = t" "aer_Term reply \<le> t" "\<not> aer_Success reply"
    "rf' = rf\<lparr>nextIndex := (nextIndex rf)[nat peer := ni]\<rparr>"
proof -
  let ?m = "ae_PrevLogIndex args + int (length (ae_Entries args))"
  let ?rf1 = "rf\<lparr>matchIndex := (matchIndex rf)[nat peer := ?m], nextIndex := (nextIndex rf)[nat peer := ?m + 1]\<rparr>"
  consider (ign) "role rf \<noteq> Leader \<or> currentTerm rf \<noteq> t"
    | (dep) "role rf = Leader" "currentTerm rf = t" "t < aer_Term reply"
    | (suc) "role rf = Leader" "currentTerm rf = t" "aer_Term reply \<le> t" "aer_Success reply"
    | (fail) "role rf = Leader" "currentTerm rf = t" "aer_Term reply \<le> t" "\<not> aer_Success reply"
    by linarith
  then show thesis
  proof cases
    case ign
    with assms(1) have "rf' = rf" by (auto simp: handleAppendReply_def)
    with ign show thesis by (rule that(1))
  next
    case dep
    with assms(1) have "rf' = stepDown rf (aer_Term reply)" by (auto simp: handleAppendReply_def)
    with dep show thesis by (rule that(2))
  next
    case suc
    with assms(1) have p: "0 \<le> peer" "peer < int (length (matchIndex rf))"
      and up: "updateCommitIndex ?rf1 = Some rf'"
      by (auto simp: handleAppendReply_def bind_Some_iff go_set_Some)
    have "raft_wf ?rf1" using wf by (simp add: raft_wf_def)
    with suc p up wf show thesis by (intro that(3) [OF _ _ _ _ _ _ refl]) (auto simp: raft_wf_def)
  next
    case fail
    with assms(1) obtain ni where "rf' = rf\<lparr>nextIndex := (nextIndex rf)[nat peer := ni]\<rparr>"
      by (auto simp: handleAppendReply_def bind_Some_iff go_set_Some split: if_splits)
    with fail show thesis by (rule that(4))
  qed
qed

lemma handleSnapshotReply_cases [consumes 1, case_names ignored deposed advanced]:
  assumes "handleSnapshotReply rf peer t args reply = Some rf'"
  obtains "role rf \<noteq> Leader \<or> currentTerm rf \<noteq> t" "rf' = rf"
  | "role rf = Leader" "currentTerm rf = t" "t < isr_Term reply" "rf' = stepDown rf (isr_Term reply)"
  | m where "role rf = Leader" "currentTerm rf = t" "isr_Term reply \<le> t" "0 \<le> peer"
    "peer < int (length (matchIndex rf))" "m = max (matchIndex rf ! nat peer) (is_LastIncludedIndex args)"
    "rf' = rf\<lparr>matchIndex := (matchIndex rf)[nat peer := m], nextIndex := (nextIndex rf)[nat peer := m + 1]\<rparr>"
proof (cases "role rf = Leader \<and> currentTerm rf = t")
  case False
  with assms have "rf' = rf" by (auto simp: handleSnapshotReply_def)
  with False that(1) show thesis by blast
next
  case lead: True
  show thesis
  proof (cases "t < isr_Term reply")
    case True
    with assms lead that(2) show thesis by (auto simp: handleSnapshotReply_def)
  next
    case False
    let ?i = "is_LastIncludedIndex args"
    from False assms lead have
      "(do { m \<leftarrow> go_nth (matchIndex rf) peer; let m = max m ?i;
             mi \<leftarrow> go_set (matchIndex rf) peer m; ni \<leftarrow> go_set (nextIndex rf) peer (m + 1);
             Some (rf\<lparr>matchIndex := mi, nextIndex := ni\<rparr>) }) = Some rf'"
      by (simp add: handleSnapshotReply_def if_less_max)
    then have "0 \<le> peer \<and> peer < int (length (matchIndex rf))
       \<and> (\<exists>m. m = max (matchIndex rf ! nat peer) ?i \<and>
       rf' = rf\<lparr>matchIndex := (matchIndex rf)[nat peer := m], nextIndex := (nextIndex rf)[nat peer := m + 1]\<rparr>)"
      by (auto simp: bind_Some_iff go_set_Some go_nth_Some Let_def)
    with lead False that(3) show thesis by auto
  qed
qed

lemma applier_collect_eq:
  assumes "raft_wf rf" and "commitIndex rf \<le> lastLogIndex rf"
  shows "applier_collect rf =
     Some (rf\<lparr>lastApplied := max (lastApplied rf) (commitIndex rf)\<rparr>,
       map (\<lambda>i. commandMsg (rlog rf ! nat (i - lastIncludedIndex rf)) i) [lastApplied rf + 1 .. commitIndex rf])"
  using assms
proof (induction rf rule: applier_collect.induct)
  case (1 rf)
  let ?rf = "rf\<lparr>lastApplied := lastApplied rf + 1\<rparr>"
  show ?case
  proof (cases "lastApplied rf < commitIndex rf")
    case False
    then show ?thesis by (simp add: applier_collect.simps [of rf] max_def)
  next
    case True
    from "1.prems" True have nth: "go_nth (rlog ?rf) (getRelativeIndex ?rf (lastApplied ?rf))
        = Some (rlog rf ! nat (lastApplied rf + 1 - lastIncludedIndex rf))"
      by (auto simp: go_nth_def getRelativeIndex_def lastLogIndex_def raft_wf_def)
    have wf: "raft_wf ?rf" "commitIndex ?rf \<le> lastLogIndex ?rf" using "1.prems" by (auto simp: raft_wf_def)
    have "[lastApplied rf + 1 .. commitIndex rf] = (lastApplied rf + 1) # [2 + lastApplied rf .. commitIndex rf]"
      using True by (simp add: upto_rec1 add.commute)
    moreover have "max (lastApplied rf + 1) (commitIndex rf) = max (lastApplied rf) (commitIndex rf)"
      using True by simp
    ultimately show ?thesis
      using "1.IH" [OF True refl nth wf] True nth by (simp add: applier_collect.simps [of rf] Let_def)
  qed
qed

text \<open>Whatever the commit index, collecting changes only \<open>lastApplied\<close>, and raises it.\<close>

lemma applier_collect_frame:
  "applier_collect rf = Some (rf', msgs) \<Longrightarrow> \<exists>a \<ge> lastApplied rf. rf' = rf\<lparr>lastApplied := a\<rparr>"
proof (induction rf arbitrary: rf' msgs rule: applier_collect.induct)
  case (1 rf)
  show ?case
  proof (cases "lastApplied rf < commitIndex rf")
    case False
    with "1.prems" show ?thesis by (auto simp: applier_collect.simps [of rf] intro!: exI [of _ "lastApplied rf"])
  next
    case True
    let ?rf = "rf\<lparr>lastApplied := lastApplied rf + 1\<rparr>"
    from "1.prems" True obtain e ms where
      e: "go_nth (rlog ?rf) (getRelativeIndex ?rf (lastApplied ?rf)) = Some e"
      and rec: "applier_collect ?rf = Some (rf', ms)"
      by (auto simp: applier_collect.simps [of rf] Let_def bind_Some_iff)
    from "1.IH" [OF True refl e rec] obtain a where "lastApplied rf + 1 \<le> a" "rf' = rf\<lparr>lastApplied := a\<rparr>"
      by auto
    then show ?thesis by (intro exI [of _ a]) simp
  qed
qed

lemma applierLoop_frame:
  "applierLoop_iter rf = Some (rf', msgs) \<Longrightarrow> \<exists>a \<ge> lastApplied rf. rf' = rf\<lparr>lastApplied := a\<rparr>"
  using applier_collect_frame [of rf rf' msgs]
  by (cases "killed rf") (auto simp: applierLoop_iter_def intro!: exI [of _ "lastApplied rf"])

section \<open>Local invariants\<close>

text \<open>Stable storage holds the persistent fields; before the first write it is empty and they have
  their initial values.\<close>

definition persisted :: "('c, 'd) Raft \<Rightarrow> bool" where
  "persisted rf \<longleftrightarrow> raftstate (persister rf) = encodeState rf
     \<or> raftstate (persister rf) = [] \<and> currentTerm rf = 0 \<and> votedFor rf = -1 \<and> rlog rf = [zeroEntry]
        \<and> lastIncludedIndex rf = 0 \<and> lastIncludedTerm rf = 0"

text \<open>Terms only grow, and within a term a vote once cast stays.\<close>

definition vote_le :: "('c, 'd) Raft \<Rightarrow> ('c, 'd) Raft \<Rightarrow> bool" where
  "vote_le rf rf' \<longleftrightarrow> currentTerm rf \<le> currentTerm rf'
     \<and> (currentTerm rf = currentTerm rf' \<and> votedFor rf \<noteq> -1 \<longrightarrow> votedFor rf' = votedFor rf)"

definition local_step :: "('c, 'd) Raft \<Rightarrow> ('c, 'd) Raft \<Rightarrow> bool" where
  "local_step rf rf' \<longleftrightarrow> raft_wf rf' \<and> persisted rf' \<and> vote_le rf rf'
     \<and> me rf' = me rf \<and> npeers rf' = npeers rf"

lemma vote_le_refl [simp]: "vote_le rf rf"
  by (simp add: vote_le_def)

lemma persisted_persist [simp]: "persisted (persist rf)"
  by (simp add: persisted_def encodeState_def)

lemma persisted_cong:
  assumes "persisted rf" and "persister rf' = persister rf" and "encodeState rf' = encodeState rf"
  shows "persisted rf'"
  using assms by (auto simp: persisted_def encodeState_def)

lemma raft_wf_cong:
  assumes "raft_wf rf" and "rlog rf' = rlog rf" and "lastIncludedTerm rf' = lastIncludedTerm rf"
    and "lastIncludedIndex rf' = lastIncludedIndex rf" and "commitIndex rf \<le> commitIndex rf'"
    and "lastApplied rf \<le> lastApplied rf'" and "length (nextIndex rf') = length (nextIndex rf)"
    and "length (matchIndex rf') = length (matchIndex rf)" and "me rf' = me rf" and "npeers rf' = npeers rf"
  shows "raft_wf rf'"
  using assms by (auto simp: raft_wf_def)

lemma stepDown_local: "raft_wf rf \<Longrightarrow> currentTerm rf < t \<Longrightarrow> local_step rf (stepDown rf t)"
  by (auto simp: local_step_def vote_le_def intro: raft_wf_cong)

lemma acceptLeader_local:
  assumes "raft_wf rf" "persisted rf" shows "local_step rf ((acceptLeader rf t)\<lparr>lastHeartbeat := now\<rparr>)"
proof -
  have "persisted ((acceptLeader rf t)\<lparr>lastHeartbeat := now\<rparr>)"
    using assms(2) persisted_cong [OF persisted_persist]
    by (auto simp: acceptLeader_def persisted_def encodeState_def)
  with assms(1) show ?thesis by (auto simp: local_step_def vote_le_def intro: raft_wf_cong)
qed

lemma RequestVote_local:
  assumes "RequestVote rf args now = Some (rf', reply)" "raft_wf rf" "persisted rf"
  shows "local_step rf rf'"
  using assms(1)
proof (cases rule: RequestVote_cases)
  case stale
  then show ?thesis using assms by (simp add: local_step_def)
next
  case denied
  then show ?thesis using assms stepDown_local [of rf "rv_Term args"]
    by (auto simp: bumpTerm_def local_step_def)
next
  case (granted lt)
  have "persisted rf'" unfolding granted(2) by (simp add: persisted_def encodeState_def)
  with granted assms(2) show ?thesis
    by (auto simp: local_step_def vote_le_def intro: raft_wf_cong)
qed

lemma mergedLog_hd:
  assumes "raft_wf rf" "lastIncludedIndex rf \<le> ae_PrevLogIndex args" "ae_PrevLogIndex args \<le> lastLogIndex rf"
  shows "mergedLog rf args \<noteq> [] \<and> hd (mergedLog rf args) = hd (rlog rf)"
proof -
  let ?r = "nat (ae_PrevLogIndex args + 1 - lastIncludedIndex rf)"
  have "0 < ?r" "rlog rf \<noteq> []" using assms by (auto simp: raft_wf_def)
  then have "hd (take ?r (rlog rf) @ mergeLog (drop ?r (rlog rf)) (ae_Entries args)) = hd (rlog rf)"
    by (rule hd_take_app)
  with \<open>0 < ?r\<close> \<open>rlog rf \<noteq> []\<close> show ?thesis by (simp add: mergedLog_def Let_def)
qed

lemma AppendEntries_local:
  assumes "AppendEntries rf args now = Some (rf', reply)" "raft_wf rf" "persisted rf"
  shows "local_step rf rf'"
  using assms(1,2)
proof (cases rule: AppendEntries_cases)
  case stale
  then show ?thesis using assms by (simp add: local_step_def)
next
  case rejected
  then show ?thesis using acceptLeader_local [OF assms(2,3)] by simp
next
  case (accepted rf1)
  let ?rf0 = "(acceptLeader rf (ae_Term args))\<lparr>lastHeartbeat := now\<rparr>"
  have l0: "local_step rf ?rf0" by (rule acceptLeader_local [OF assms(2,3)])
  have "persisted rf'"
  proof (cases "mergedLog rf args = rlog rf")
    case True
    then have "rf1 = ?rf0" using accepted(5) by (intro Raft.equality) simp_all
    with True accepted(6) l0 show ?thesis
      by (auto simp: updateFollowerCommit_eq local_step_def encodeState_def intro: persisted_cong)
  next
    case False
    with accepted(6) show ?thesis
      by (auto simp: updateFollowerCommit_eq encodeState_def intro: persisted_cong [OF persisted_persist])
  qed
  moreover have "raft_wf rf'"
    using mergedLog_hd [OF assms(2) accepted(2,3)] assms(2) accepted(5,6)
    by (auto simp: updateFollowerCommit_eq raft_wf_def)
  ultimately show ?thesis using accepted
    by (auto simp: local_step_def vote_le_def updateFollowerCommit_eq)
qed

lemma installed_persisted [simp]: "persisted (installed rf i t lg sn)"
  by (simp add: persisted_def)

lemma InstallSnapshot_local:
  assumes "InstallSnapshot rf args now = Some (rf', reply, msg)" "raft_wf rf" "persisted rf"
  shows "local_step rf rf'"
  using assms(1,2)
proof (cases rule: InstallSnapshot_cases)
  case stale
  then show ?thesis using assms by (simp add: local_step_def)
next
  case old
  then show ?thesis using acceptLeader_local [OF assms(2,3)] by simp
next
  case (installed m)
  with assms(2) show ?thesis by (auto simp: local_step_def vote_le_def raft_wf_def snapshotLog_def)
qed

lemma Snapshot_local:
  assumes "Snapshot rf index snap = Some rf'" "raft_wf rf" "persisted rf"
  shows "local_step rf rf'"
  using assms(1,2)
proof (cases rule: Snapshot_cases)
  case old
  then show ?thesis using assms by (simp add: local_step_def)
next
  case (compacted e)
  with assms(2) show ?thesis by (auto simp: local_step_def vote_le_def raft_wf_def)
qed

lemma Start_local: "raft_wf rf \<Longrightarrow> persisted rf \<Longrightarrow> local_step rf (fst (Start rf c))"
  by (auto simp: Start_def Let_def local_step_def vote_le_def raft_wf_def)

lemma startElection_eq:
  assumes "raft_wf rf"
  shows "startElection rf now =
     (let rf' = (persist (rf\<lparr>role := Candidate, currentTerm := currentTerm rf + 1, votedFor := me rf\<rparr>))
                  \<lparr>lastHeartbeat := now\<rparr>
      in Some (rf', \<lparr>rv_Term = currentTerm rf + 1, rv_CandidateId = me rf,
                 rv_LastLogIndex = lastLogIndex rf, rv_LastLogTerm = le_Term (last (rlog rf))\<rparr>))"
proof -
  let ?rf = "(persist (rf\<lparr>role := Candidate, currentTerm := currentTerm rf + 1, votedFor := me rf\<rparr>))
                  \<lparr>lastHeartbeat := now\<rparr>"
  have "lastLogTerm ?rf = lastLogTerm rf" by (simp add: lastLogTerm_def)
  with raft_wf_lastLogTerm [OF assms] show ?thesis by (simp add: startElection_def Let_def)
qed

lemma ticker_local:
  assumes "ticker_tick rf now rnd = Some (rf', args)" "raft_wf rf" "persisted rf"
  shows "local_step rf rf'"
proof (cases "role rf \<noteq> Leader \<and> now - lastHeartbeat rf > 300 + rnd mod 300")
  case False
  then have "ticker_tick rf now rnd = Some (rf, None)" by (auto simp: ticker_tick_def Let_def)
  with assms show ?thesis by (simp add: local_step_def)
next
  case True
  with assms(1) have rf': "rf' = (persist (rf\<lparr>role := Candidate, currentTerm := currentTerm rf + 1,
      votedFor := me rf\<rparr>))\<lparr>lastHeartbeat := now\<rparr>"
    by (auto simp: ticker_tick_def Let_def startElection_eq [OF assms(2)])
  have "persisted rf'" unfolding rf' by (simp add: persisted_def encodeState_def)
  with assms(2) rf' show ?thesis by (auto simp: local_step_def vote_le_def intro: raft_wf_cong)
qed

lemma handleVoteReply_local:
  assumes "raft_wf rf" "persisted rf"
  shows "local_step rf (fst (handleVoteReply rf votes t reply now))"
proof -
  have lead: "local_step rf (becomeLeader rf now)"
    using assms persisted_cong [of rf "becomeLeader rf now"]
    by (auto simp: local_step_def vote_le_def becomeLeader_def raft_wf_def encodeState_def)
  with assms stepDown_local [of rf "rvr_Term reply"] show ?thesis
    by (auto simp: handleVoteReply_def Let_def local_step_def [of rf rf])
qed

lemma handleAppendReply_local:
  assumes "handleAppendReply rf peer t args reply = Some rf'" "raft_wf rf" "persisted rf"
  shows "local_step rf rf'"
  using assms(1,2)
proof (cases rule: handleAppendReply_cases)
  case ignored
  then show ?thesis using assms by (simp add: local_step_def)
next
  case deposed
  then show ?thesis using stepDown_local [OF assms(2)] by simp
next
  case (matched rf1)
  from updateCommitIndex_raises [OF matched(8,9)]
  obtain k where "k \<ge> commitIndex rf1" "rf' = rf1\<lparr>commitIndex := k\<rparr>" by blast
  with matched(7,8) assms(3) show ?thesis
    by (auto simp: local_step_def vote_le_def raft_wf_def encodeState_def intro: persisted_cong)
next
  case (backed_up ni)
  with assms(2,3) show ?thesis
    by (auto simp: local_step_def vote_le_def raft_wf_def encodeState_def intro: persisted_cong)
qed

lemma handleSnapshotReply_local:
  assumes "handleSnapshotReply rf peer t args reply = Some rf'" "raft_wf rf" "persisted rf"
  shows "local_step rf rf'"
  using assms(1)
proof (cases rule: handleSnapshotReply_cases)
  case ignored
  then show ?thesis using assms by (simp add: local_step_def)
next
  case deposed
  then show ?thesis using stepDown_local [OF assms(2)] by simp
next
  case (advanced m)
  with assms(2,3) show ?thesis
    by (auto simp: local_step_def vote_le_def raft_wf_def encodeState_def intro: persisted_cong)
qed

lemma frame_local:
  assumes "raft_wf rf" "persisted rf" "lastApplied rf \<le> a"
  shows "local_step rf (rf\<lparr>lastApplied := a\<rparr>)" "local_step rf (rf\<lparr>dead := b\<rparr>)"
  using assms by (auto simp: local_step_def vote_le_def raft_wf_def encodeState_def intro: persisted_cong)

lemmas local_rules = RequestVote_local AppendEntries_local InstallSnapshot_local Start_local Snapshot_local
  ticker_local handleVoteReply_local handleAppendReply_local handleSnapshotReply_local

lemma handle_local:
  assumes "handle ev rf = Some rf'" "raft_wf rf" "persisted rf"
  shows "local_step rf rf'"
proof (cases ev)
  case EvApply
  with assms(1) obtain a where "a \<ge> lastApplied rf" "rf' = rf\<lparr>lastApplied := a\<rparr>"
    using applierLoop_frame by fastforce
  with frame_local [OF assms(2,3)] show ?thesis by simp
next
  case EvKill
  with assms frame_local(2) [OF assms(2,3) order_refl] show ?thesis by (auto simp: Kill_def)
qed (use assms in \<open>auto intro: local_rules\<close>)

end
