(* ===== verification/RaftPeer.thy ===== *)
theory RaftPeer
  imports RaftLocal
begin

text \<open>
  The properties of one Raft peer: its life as a sequence of events and restarts, what survives a
  restart, and the contract of each operation.
\<close>

section \<open>The life of a peer\<close>

text \<open>A peer handles events, and after a crash is made again from its stable storage.\<close>

inductive peer_run :: "int \<Rightarrow> int \<Rightarrow> ('c, 'd) Raft \<Rightarrow> ('c, 'd) Raft \<Rightarrow> bool" for n i where
  run_refl: "peer_run n i rf rf"
| run_event: "peer_run n i rf rf1 \<Longrightarrow> handle ev rf1 = Some rf2 \<Longrightarrow> peer_run n i rf rf2"
| run_restart: "peer_run n i rf rf1 \<Longrightarrow> peer_run n i rf (Make n i (persister rf1) now)"

lemma readPersist_encodeState:
  "readPersist rf (encodeState rf1) = rf\<lparr>currentTerm := currentTerm rf1, votedFor := votedFor rf1,
     rlog := rlog rf1, lastIncludedIndex := lastIncludedIndex rf1, lastIncludedTerm := lastIncludedTerm rf1\<rparr>"
  by (simp add: readPersist_def encodeState_def)

lemma Make_restores:
  assumes "persisted rf"
  shows "currentTerm (Make n i (persister rf) now) = currentTerm rf"
    "votedFor (Make n i (persister rf) now) = votedFor rf"
    "rlog (Make n i (persister rf) now) = rlog rf"
    "lastIncludedIndex (Make n i (persister rf) now) = lastIncludedIndex rf"
    "lastIncludedTerm (Make n i (persister rf) now) = lastIncludedTerm rf"
  using assms
  by (auto simp: persisted_def Make_def Let_def ReadRaftState_def readPersist_encodeState
        readPersist_def [of _ "[]"])

lemma Make_fresh [simp]:
  "me (Make n i ps now) = i" "npeers (Make n i ps now) = n" "role (Make n i ps now) = Follower"
  "persister (Make n i ps now) = ps" "commitIndex (Make n i ps now) = lastIncludedIndex (Make n i ps now)"
  "lastApplied (Make n i ps now) = lastIncludedIndex (Make n i ps now)"
  "length (nextIndex (Make n i ps now)) = nat n" "length (matchIndex (Make n i ps now)) = nat n"
  by (auto simp: Make_def Let_def readPersist_def bind_Some_iff split: option.splits)

lemma Make_persisted: "persisted rf \<Longrightarrow> persisted (Make n i (persister rf) now)"
  using Make_restores [of rf n i now] by (simp add: persisted_def encodeState_def)

lemma Make_wf:
  assumes "persisted rf" "raft_wf rf" "me rf = i" "npeers rf = n" shows "raft_wf (Make n i (persister rf) now)"
  using assms Make_restores [OF assms(1), of n i now] by (auto simp: raft_wf_def)

lemma Make_initial:
  assumes "0 \<le> i" "i < n"
  shows "raft_wf (Make n i MakePersister now)" "persisted (Make n i MakePersister now)"
  using assms by (auto simp: Make_def readPersist_def raft_wf_def persisted_def MakePersister_def
      ReadRaftState_def Let_def)

lemma vote_le_trans: "vote_le a b \<Longrightarrow> vote_le b c \<Longrightarrow> vote_le a c"
  by (auto simp: vote_le_def)

lemma peer_run_local:
  assumes "peer_run n i rf rf'" "raft_wf rf" "persisted rf" "me rf = i" "npeers rf = n"
  shows "local_step rf rf'"
  using assms
proof (induction rule: peer_run.induct)
  case (run_refl rf)
  then show ?case by (simp add: local_step_def)
next
  case (run_event rf rf1 ev rf2)
  then have "local_step rf rf1" "local_step rf1 rf2" using handle_local by (auto simp: local_step_def)
  then show ?case using vote_le_trans by (auto simp: local_step_def)
next
  case (run_restart rf rf1 now)
  then have l: "local_step rf rf1" and p: "persisted rf1" by (auto simp: local_step_def)
  have "vote_le rf1 (Make n i (persister rf1) now)" using Make_restores [OF p] by (simp add: vote_le_def)
  with l run_restart.prems show ?case
    using vote_le_trans Make_wf [of rf1 i n] Make_persisted [OF p] by (auto simp: local_step_def)
qed

text \<open>
  C23: Crash recovery.  Whatever events and restarts a peer has been through since it was first made,
  restarting it from its stable storage gives back its current term, its vote, its log and its
  snapshot position; the new peer is well-formed and starts as a follower whose commit and apply
  positions are the snapshot's.
\<close>

theorem restart_restores:
  assumes "peer_run n i (Make n i MakePersister t0) rf" and "0 \<le> i" "i < n"
  shows "let rf' = Make n i (persister rf) now in
     currentTerm rf' = currentTerm rf \<and> votedFor rf' = votedFor rf \<and> rlog rf' = rlog rf
     \<and> lastIncludedIndex rf' = lastIncludedIndex rf \<and> lastIncludedTerm rf' = lastIncludedTerm rf
     \<and> role rf' = Follower \<and> commitIndex rf' = lastIncludedIndex rf
     \<and> lastApplied rf' = lastIncludedIndex rf \<and> raft_wf rf'"
proof -
  from peer_run_local [OF assms(1) Make_initial [OF assms(2,3)]]
  have "persisted rf" "raft_wf rf" "me rf = i" "npeers rf = n" by (auto simp: local_step_def)
  then show ?thesis using Make_restores [of rf n i now] Make_wf [of rf i n now] by (simp add: Let_def)
qed

text \<open>A concrete peer: the first of three, which has timed out, won its election, accepted a command
  and crashed.\<close>

definition demo_events :: "(nat, nat) raft_event list" where
  "demo_events = [EvTick 1000 0, EvVoteReply 1 1 \<lparr>rvr_Term = 1, rvr_VoteGranted = True\<rparr> 1001, EvStart 42]"

fun run_events :: "('c, 'd) raft_event list \<Rightarrow> ('c, 'd) Raft \<Rightarrow> ('c, 'd) Raft option" where
  "run_events [] rf = Some rf"
| "run_events (ev # evs) rf = Option.bind (handle ev rf) (run_events evs)"

lemma peer_run_events:
  "peer_run n i rf rf1 \<Longrightarrow> run_events evs rf1 = Some rf2 \<Longrightarrow> peer_run n i rf rf2"
  by (induction evs arbitrary: rf1) (auto simp: bind_Some_iff intro: run_event)

definition demo_peer :: "(nat, nat) Raft" where
  "demo_peer = \<lparr>npeers = 3, persister = \<lparr>raftstate = [GobInt 1, GobInt 0,
       GobVal [zeroEntry, \<lparr>le_Command = Some 42, le_Term = 1\<rparr>], GobInt 0, GobInt 0], snapshot = []\<rparr>,
     me = 0, dead = False, currentTerm = 1, votedFor = 0,
     rlog = [zeroEntry, \<lparr>le_Command = Some 42, le_Term = 1\<rparr>], lastIncludedIndex = 0, lastIncludedTerm = 0,
     commitIndex = 0, lastApplied = 0, nextIndex = [1, 1, 1], matchIndex = [0, 0, 0],
     role = Leader, lastHeartbeat = 1001\<rparr>"

lemma demo_run: "run_events demo_events (Make 3 0 MakePersister 0) = Some demo_peer"
  by (simp add: demo_events_def demo_peer_def Make_def readPersist_def MakePersister_def Let_def
        ReadRaftState_def ticker_tick_def startElection_def persist_def encodeState_def Save_def
        ReadSnapshot_def lastLogTerm_def go_nth_def lastLogIndex_def handleVoteReply_def becomeLeader_def
        Start_def numeral_nat upto.simps)

lemma demo_peer_run: "peer_run 3 0 (Make 3 0 MakePersister 0) demo_peer"
  by (rule peer_run_events [OF run_refl demo_run])

theorem restart_restores_witness:
  "let rf' = Make 3 0 (persister demo_peer) 9 in
     currentTerm rf' = currentTerm demo_peer \<and> votedFor rf' = votedFor demo_peer \<and> rlog rf' = rlog demo_peer
     \<and> lastIncludedIndex rf' = lastIncludedIndex demo_peer \<and> lastIncludedTerm rf' = lastIncludedTerm demo_peer
     \<and> role rf' = Follower \<and> commitIndex rf' = lastIncludedIndex demo_peer
     \<and> lastApplied rf' = lastIncludedIndex demo_peer \<and> raft_wf rf'"
  by (rule restart_restores [OF demo_peer_run]) simp_all

text \<open>
  One vote per term, over crashes.  As a peer runs (events and restarts in any order), its term
  never decreases, and while the term is the same a vote that was cast does not change.
\<close>

theorem one_vote_per_term:
  assumes "peer_run n i rf rf'" and "raft_wf rf" and "persisted rf" and "me rf = i" and "npeers rf = n"
  shows "currentTerm rf \<le> currentTerm rf'
     \<and> (currentTerm rf' = currentTerm rf \<and> votedFor rf \<noteq> -1 \<longrightarrow> votedFor rf' = votedFor rf)"
  using peer_run_local [OF assms] by (auto simp: local_step_def vote_le_def)

theorem one_vote_per_term_witness:
  "currentTerm demo_peer \<le> currentTerm (Make 3 0 (persister demo_peer) 9)
   \<and> votedFor (Make 3 0 (persister demo_peer) 9 :: (nat, nat) Raft) = 0"
proof -
  have run: "peer_run 3 0 demo_peer (Make 3 0 (persister demo_peer) 9)" by (rule run_restart [OF run_refl])
  have st: "raft_wf demo_peer" "persisted demo_peer" "me demo_peer = 0" "npeers demo_peer = 3"
    by (auto simp: demo_peer_def raft_wf_def persisted_def encodeState_def)
  have "currentTerm (Make 3 0 (persister demo_peer) 9 :: (nat, nat) Raft) = currentTerm demo_peer"
    by (rule Make_restores [OF st(2)])
  with one_vote_per_term [OF run st] show ?thesis by (simp add: demo_peer_def)
qed

section \<open>The handlers\<close>

text \<open>
  The three RPC handlers never panic on a well-formed peer, whatever the arguments a caller sends,
  and leave it well-formed.
\<close>

theorem handlers_never_panic:
  assumes "raft_wf rf" and "persisted rf"
  shows "(\<exists>rf' r. RequestVote rf vargs now = Some (rf', r) \<and> raft_wf rf' \<and> persisted rf')
    \<and> (\<exists>rf' r. AppendEntries rf aargs now = Some (rf', r) \<and> raft_wf rf' \<and> persisted rf')
    \<and> (\<exists>rf' r m. InstallSnapshot rf sargs now = Some (rf', r, m) \<and> raft_wf rf' \<and> persisted rf')"
proof (intro conjI)
  obtain rf' r where "RequestVote rf vargs now = Some (rf', r)"
    using RequestVote_total [OF assms(1)] by fastforce
  with RequestVote_local [OF this assms] show "\<exists>rf' r. RequestVote rf vargs now = Some (rf', r) \<and> raft_wf rf' \<and> persisted rf'"
    by (auto simp: local_step_def)
  obtain rf' r where "AppendEntries rf aargs now = Some (rf', r)"
    using AppendEntries_total [OF assms(1)] by fastforce
  with AppendEntries_local [OF this assms] show "\<exists>rf' r. AppendEntries rf aargs now = Some (rf', r) \<and> raft_wf rf' \<and> persisted rf'"
    by (auto simp: local_step_def)
  obtain rf' r m where "InstallSnapshot rf sargs now = Some (rf', r, m)"
    using InstallSnapshot_total [OF assms(1)] by fastforce
  with InstallSnapshot_local [OF this assms] show "\<exists>rf' r m. InstallSnapshot rf sargs now = Some (rf', r, m) \<and> raft_wf rf' \<and> persisted rf'"
    by (auto simp: local_step_def)
qed

lemma demo_peer_ok: "raft_wf demo_peer" "persisted demo_peer"
  by (auto simp: demo_peer_def raft_wf_def persisted_def encodeState_def)

theorem handlers_never_panic_witness:
  "(\<exists>rf' r. RequestVote demo_peer \<lparr>rv_Term = -5, rv_CandidateId = 99, rv_LastLogIndex = -7, rv_LastLogTerm = 3\<rparr> 0
       = Some (rf', r) \<and> raft_wf rf' \<and> persisted rf')
    \<and> (\<exists>rf' r. AppendEntries demo_peer \<lparr>ae_Term = 9, ae_LeaderId = -1, ae_PrevLogIndex = -4, ae_PrevLogTerm = 0,
         ae_Entries = [], ae_LeaderCommit = 77\<rparr> 0 = Some (rf', r) \<and> raft_wf rf' \<and> persisted rf')
    \<and> (\<exists>rf' r m. InstallSnapshot demo_peer \<lparr>is_Term = 9, is_LeaderId = 1, is_LastIncludedIndex = 50,
         is_LastIncludedTerm = 2, is_Data = [1]\<rparr> 0 = Some (rf', r, m) \<and> raft_wf rf' \<and> persisted rf')"
  by (rule handlers_never_panic [OF demo_peer_ok])

text \<open>Reading the log through the merge.\<close>

lemma mergeLog_matches:
  "k < length es \<Longrightarrow> k < length (mergeLog tail es) \<and> le_Term (mergeLog tail es ! k) = le_Term (es ! k)"
proof (induction tail es arbitrary: k rule: mergeLog.induct)
  case (3 x tail e es)
  then show ?case by (cases k) auto
qed auto

lemma mergedLog_nth:
  assumes "raft_wf rf" "lastIncludedIndex rf \<le> ae_PrevLogIndex args" "ae_PrevLogIndex args \<le> lastLogIndex rf"
  shows "k < length (ae_Entries args) \<Longrightarrow>
       map_option le_Term (go_nth (mergedLog rf args) (ae_PrevLogIndex args + 1 + int k - lastIncludedIndex rf))
       = Some (le_Term (ae_Entries args ! k))"
    and "i \<le> ae_PrevLogIndex args \<Longrightarrow>
       go_nth (mergedLog rf args) (i - lastIncludedIndex rf) = go_nth (rlog rf) (i - lastIncludedIndex rf)"
proof -
  let ?r = "nat (ae_PrevLogIndex args + 1 - lastIncludedIndex rf)"
  have r: "?r \<le> length (rlog rf)" "ae_PrevLogIndex args + 1 - lastIncludedIndex rf = int ?r"
    using assms by (auto simp: lastLogIndex_def)
  have lg: "mergedLog rf args = take ?r (rlog rf) @ mergeLog (drop ?r (rlog rf)) (ae_Entries args)"
    by (simp add: mergedLog_def Let_def)
  have len: "length (take ?r (rlog rf)) = ?r" using r by simp
  { assume k: "k < length (ae_Entries args)"
    have "ae_PrevLogIndex args + 1 + int k - lastIncludedIndex rf = int (?r + k)" using r by simp
    moreover have "mergedLog rf args ! (?r + k) = mergeLog (drop ?r (rlog rf)) (ae_Entries args) ! k"
      unfolding lg using r(1) by (simp add: nth_append min_def)
    ultimately show "map_option le_Term (go_nth (mergedLog rf args) (ae_PrevLogIndex args + 1 + int k - lastIncludedIndex rf))
       = Some (le_Term (ae_Entries args ! k))"
      using mergeLog_matches [OF k, of "drop ?r (rlog rf)"] len lg
      by (simp add: go_nth_def del: of_nat_add) }
  { assume "i \<le> ae_PrevLogIndex args"
    then have "i - lastIncludedIndex rf < int ?r" using r by linarith
    then show "go_nth (mergedLog rf args) (i - lastIncludedIndex rf) = go_nth (rlog rf) (i - lastIncludedIndex rf)"
      using r by (auto simp: go_nth_def lg nth_append) }
qed

text \<open>
  C24: What an acknowledged \<open>AppendEntries\<close> means.  If the follower answers success, its log had the
  leader's entry just before the new ones; afterwards its entries up to there are unchanged, every
  new entry's position carries the leader's term, nothing that already agreed was cut (the log is
  the reference merge), and the commit index has risen to the leader's, but not past the last
  new entry.
\<close>

theorem AppendEntries_success:
  assumes "AppendEntries rf args now = Some (rf', reply)" and "raft_wf rf" and "aer_Success reply"
  shows "currentTerm rf \<le> ae_Term args \<and> currentTerm rf' = ae_Term args
    \<and> termAt rf (ae_PrevLogIndex args) = Some (ae_PrevLogTerm args)
    \<and> rlog rf' = mergedLog rf args
    \<and> (\<forall>i \<le> ae_PrevLogIndex args. termAt rf' i = termAt rf i \<and> entryAt rf' i = entryAt rf i)
    \<and> (\<forall>k < length (ae_Entries args). termAt rf' (ae_PrevLogIndex args + 1 + int k) = Some (le_Term (ae_Entries args ! k)))
    \<and> commitIndex rf' = max (commitIndex rf)
         (min (ae_LeaderCommit args) (ae_PrevLogIndex args + int (length (ae_Entries args))))"
  using assms(1,2)
proof (cases rule: AppendEntries_cases)
  case (accepted rf1)
  have sel: "rlog rf' = mergedLog rf args" "lastIncludedIndex rf' = lastIncludedIndex rf"
    using accepted(5,6) by (auto simp: updateFollowerCommit_eq)
  have "termAt rf' i = termAt rf i \<and> entryAt rf' i = entryAt rf i" if "i \<le> ae_PrevLogIndex args" for i
    using mergedLog_nth(2) [OF assms(2) accepted(2,3) that] sel
    by (simp add: termAt_def entryAt_def getRelativeIndex_def)
  moreover have "termAt rf' (ae_PrevLogIndex args + 1 + int k) = Some (le_Term (ae_Entries args ! k))"
    if "k < length (ae_Entries args)" for k
    using mergedLog_nth(1) [OF assms(2) accepted(2,3) that] sel
    by (simp add: termAt_def getRelativeIndex_def)
  ultimately show ?thesis using accepted sel(1) by (auto simp: updateFollowerCommit_eq)
qed (use assms(3) in auto)

definition demo_append :: "nat AppendEntriesArgs" where
  "demo_append = \<lparr>ae_Term = 2, ae_LeaderId = 1, ae_PrevLogIndex = 0, ae_PrevLogTerm = 0,
     ae_Entries = [\<lparr>le_Command = Some 7, le_Term = 2\<rparr>], ae_LeaderCommit = 1\<rparr>"

lemmas append_eval = AppendEntries_def Let_def acceptLeader_def persist_def encodeState_def Save_def
  ReadSnapshot_def getRelativeIndex_def lastLogIndex_def go_nth_def go_upto_def updateFollowerCommit_def

theorem AppendEntries_success_witness:
  "\<exists>rf' reply. AppendEntries demo_peer demo_append 0 = Some (rf', reply) \<and> aer_Success reply
     \<and> termAt rf' 1 = Some 2 \<and> commitIndex rf' = 1"
proof -
  obtain rf' reply where step: "AppendEntries demo_peer demo_append 0 = Some (rf', reply)" "aer_Success reply"
    by (simp add: append_eval demo_peer_def demo_append_def)
  from AppendEntries_success [OF step(1) demo_peer_ok(1) step(2)] step show ?thesis
    by (auto simp: demo_append_def demo_peer_def)
qed

text \<open>
  The conflict hint of a rejected \<open>AppendEntries\<close>.  A follower whose log is too short, or
  compacted past the leader's previous entry, asks for the index just after what it has; one that has
  another term there reports that term and the first index of its run of entries with that term
  (not looking below the snapshot).  The log is not touched.
\<close>

theorem AppendEntries_conflict_hint:
  assumes "AppendEntries rf args now = Some (rf', reply)" and wf: "raft_wf rf"
    and cur: "currentTerm rf \<le> ae_Term args" and fail: "\<not> aer_Success reply"
  shows "rlog rf' = rlog rf \<and>
    (aer_ConflictTerm reply = -1 \<and> aer_ConflictIndex reply = lastIncludedIndex rf + 1
       \<and> ae_PrevLogIndex args < lastIncludedIndex rf
     \<or> aer_ConflictTerm reply = -1 \<and> aer_ConflictIndex reply = lastLogIndex rf + 1
       \<and> lastLogIndex rf < ae_PrevLogIndex args
     \<or> lastIncludedIndex rf \<le> aer_ConflictIndex reply \<and> aer_ConflictIndex reply \<le> ae_PrevLogIndex args
       \<and> aer_ConflictTerm reply \<noteq> ae_PrevLogTerm args
       \<and> (\<forall>k. aer_ConflictIndex reply \<le> k \<and> k \<le> ae_PrevLogIndex args \<longrightarrow> termAt rf k = Some (aer_ConflictTerm reply))
       \<and> (lastIncludedIndex rf < aer_ConflictIndex reply
            \<longrightarrow> termAt rf (aer_ConflictIndex reply - 1) \<noteq> Some (aer_ConflictTerm reply)))"
proof -
  let ?prev = "ae_PrevLogIndex args"
  let ?rf = "(acceptLeader rf (ae_Term args))\<lparr>lastHeartbeat := now\<rparr>"
  have wf': "raft_wf ?rf" using wf by (simp add: raft_wf_def)
  have tr: "termAt ?rf k = termAt rf k" for k by (simp add: termAt_def getRelativeIndex_def)
  have log: "rlog rf' = rlog rf" using assms(1) wf
    by (cases rule: AppendEntries_cases) (use fail in auto)
  consider (low) "?prev < lastIncludedIndex rf" | (high) "lastIncludedIndex rf \<le> ?prev" "lastLogIndex rf < ?prev"
    | (inside) "lastIncludedIndex rf \<le> ?prev" "?prev \<le> lastLogIndex rf" by linarith
  then show ?thesis
  proof cases
    case low
    with assms(1) cur log show ?thesis by (auto simp: AppendEntries_def Let_def)
  next
    case high
    with assms(1) cur log show ?thesis by (auto simp: AppendEntries_def Let_def)
  next
    case inside
    then obtain e where e: "go_nth (rlog rf) (?prev - lastIncludedIndex rf) = Some e"
      by (auto simp: go_nth_def lastLogIndex_def)
    then have te: "termAt ?rf ?prev = Some (le_Term e)" by (simp add: termAt_def getRelativeIndex_def)
    have ne: "le_Term e \<noteq> ae_PrevLogTerm args"
      using assms(1) cur inside e fail
      by (auto simp: AppendEntries_def Let_def getRelativeIndex_def bind_Some_iff)
    from firstIndexOfTerm_spec [OF wf' _ _ te] inside
    obtain j where j: "firstIndexOfTerm ?rf (le_Term e) ?prev = Some j" "lastIncludedIndex rf \<le> j" "j \<le> ?prev"
      "\<forall>k. j \<le> k \<and> k \<le> ?prev \<longrightarrow> termAt rf k = Some (le_Term e)"
      "lastIncludedIndex rf < j \<longrightarrow> termAt rf (j - 1) \<noteq> Some (le_Term e)" by (auto simp: tr)
    have "aer_ConflictTerm reply = le_Term e" "aer_ConflictIndex reply = j"
      using assms(1) cur inside e ne j(1) by (auto simp: AppendEntries_def Let_def getRelativeIndex_def)
    with j ne log show ?thesis by simp
  qed
qed

theorem AppendEntries_conflict_hint_witness:
  "\<exists>rf' reply. AppendEntries demo_peer (demo_append\<lparr>ae_PrevLogIndex := 5\<rparr>) 0 = Some (rf', reply)
     \<and> \<not> aer_Success reply \<and> aer_ConflictIndex reply = 2"
proof -
  obtain rf' reply where step: "AppendEntries demo_peer (demo_append\<lparr>ae_PrevLogIndex := 5\<rparr>) 0 = Some (rf', reply)"
    "\<not> aer_Success reply" by (simp add: append_eval demo_peer_def demo_append_def)
  have "currentTerm demo_peer \<le> ae_Term (demo_append\<lparr>ae_PrevLogIndex := 5\<rparr>)"
    by (simp add: demo_peer_def demo_append_def)
  from AppendEntries_conflict_hint [OF step(1) demo_peer_ok(1) this step(2)] step show ?thesis
    by (auto simp: demo_append_def demo_peer_def lastLogIndex_def termAt_def go_nth_def getRelativeIndex_def
        dest: spec [of _ 5])
qed

section \<open>The leader\<close>

text \<open>
  The leader's commit rule.  After a success reply is handled, the commit index is the largest
  index such that every entry from it to the end of the log is of the current term and a majority of
  the peers (the leader and those whose match index reaches it) stores it, if there is one above the
  old commit index; otherwise it is unchanged.  Only the commit index changes, and the search neither
  panics nor runs forever.
\<close>

theorem updateCommitIndex_largest:
  assumes "raft_wf rf"
  shows "\<exists>rf'. updateCommitIndex rf = Some rf' \<and> rf' = rf\<lparr>commitIndex := commitIndex rf'\<rparr>
     \<and> (commitIndex rf' = commitIndex rf \<and> (\<forall>k. \<not> committable rf k)
        \<or> committable rf (commitIndex rf') \<and> (\<forall>j > commitIndex rf'. \<not> committable rf j))"
proof -
  from updateCommitIndex_cases [OF assms] obtain rf' where "updateCommitIndex rf = Some rf'"
    and "rf' = rf \<and> (\<forall>k. \<not> committable rf k)
      \<or> (\<exists>k. committable rf k \<and> rf' = rf\<lparr>commitIndex := k\<rparr> \<and> (\<forall>j > k. \<not> committable rf j))" by blast
  then show ?thesis by (intro exI [of _ rf']) auto
qed

definition demo_leader :: "(nat, nat) Raft" where
  "demo_leader = demo_peer\<lparr>matchIndex := [0, 1, 0], nextIndex := [1, 2, 1]\<rparr>"

lemma demo_leader_wf: "raft_wf demo_leader"
  by (simp add: demo_leader_def demo_peer_def raft_wf_def)

theorem updateCommitIndex_largest_witness:
  "\<exists>rf'. updateCommitIndex demo_leader = Some rf' \<and> commitIndex rf' = 1"
proof -
  have t1: "termAt demo_leader 1 = Some 1"
    by (simp add: demo_leader_def demo_peer_def termAt_def getRelativeIndex_def go_nth_def)
  have "k = 1" if "1 \<le> k" "k \<le> lastLogIndex demo_leader" for k
    using that by (simp add: lastLogIndex_def demo_leader_def demo_peer_def)
  with t1 have c: "committable demo_leader 1"
    by (auto simp: committable_def replicas_def lastLogIndex_def demo_leader_def demo_peer_def upto.simps)
  have "k \<le> 1" if "committable demo_leader k" for k
    using that by (simp add: committable_def lastLogIndex_def demo_leader_def demo_peer_def)
  with c updateCommitIndex_largest [OF demo_leader_wf] show ?thesis by (metis order_le_less)
qed

text \<open>
  A command a leader accepts is in its log, at the index and with the term \<open>Start\<close> returns, on
  stable storage before \<open>Start\<close> returns, and no earlier entry changes; a peer that is not leader
  does nothing.
\<close>

theorem Start_appends:
  assumes "Start rf c = (rf', index, t, ok)" and "raft_wf rf"
  shows "(ok \<longleftrightarrow> role rf = Leader) \<and> (\<not> ok \<longrightarrow> rf' = rf) \<and>
    (ok \<longrightarrow> t = currentTerm rf \<and> index = lastLogIndex rf + 1 \<and> index = lastLogIndex rf'
       \<and> entryAt rf' index = Some \<lparr>le_Command = Some c, le_Term = t\<rparr>
       \<and> raftstate (persister rf') = encodeState rf' \<and> (\<forall>i < index. entryAt rf' i = entryAt rf i))"
proof (cases "role rf = Leader")
  case False
  with assms(1) show ?thesis by (auto simp: Start_def)
next
  case True
  let ?e = "\<lparr>le_Command = Some c, le_Term = currentTerm rf\<rparr>"
  from True assms(1) have eq: "rf' = persist (rf\<lparr>rlog := rlog rf @ [?e]\<rparr>)" "ok" "t = currentTerm rf"
    "index = lastLogIndex rf'" by (auto simp: Start_def Let_def)
  then have idx: "index = lastLogIndex rf + 1" by (simp add: lastLogIndex_def)
  have "raftstate (persister rf') = encodeState rf'" using eq(1) by (simp add: encodeState_def)
  moreover have "entryAt rf' index = Some ?e"
    using eq(1) idx raft_wf_last [OF assms(2)]
    by (simp add: entryAt_def getRelativeIndex_def go_nth_def lastLogIndex_def nth_append)
  moreover have "entryAt rf' i = entryAt rf i" if "i < index" for i
    using eq(1) idx that
    by (auto simp: entryAt_def getRelativeIndex_def go_nth_def lastLogIndex_def nth_append)
  ultimately show ?thesis using True eq idx by simp
qed

theorem Start_appends_witness:
  "\<exists>rf'. Start demo_peer 5 = (rf', 2, 1, True) \<and> entryAt rf' 2 = Some \<lparr>le_Command = Some 5, le_Term = 1\<rparr>"
proof -
  obtain rf' where step: "Start demo_peer 5 = (rf', 2, 1, True)"
    by (simp add: Start_def demo_peer_def Let_def persist_def lastLogIndex_def)
  from Start_appends [OF step demo_peer_ok(1)] step show ?thesis by auto
qed

text \<open>
  What a leader sends.  For a peer whose next index is within the log, the request carries the
  leader's entries from the next index to the end, with the index and term of the entry before; for
  a peer that needs compacted entries it carries the stored snapshot and its position; the sender
  does not panic; a sender started in an earlier term sends nothing.
\<close>

theorem sendAppendEntries_contract:
  assumes "raft_wf rf" and "0 \<le> peer" "peer < npeers rf" and "nextIndex rf ! nat peer \<le> lastLogIndex rf + 1"
  shows "if role rf \<noteq> Leader \<or> currentTerm rf \<noteq> t then sendAppendEntriesToPeer rf peer t = Some NoSend
    else if nextIndex rf ! nat peer \<le> lastIncludedIndex rf then
      (\<exists>a. sendAppendEntriesToPeer rf peer t = Some (SendSnapshot a) \<and> is_Term a = t
         \<and> is_LastIncludedIndex a = lastIncludedIndex rf
         \<and> termAt rf (is_LastIncludedIndex a) = Some (is_LastIncludedTerm a)
         \<and> is_Data a = snapshot (persister rf))
    else (\<exists>a. sendAppendEntriesToPeer rf peer t = Some (SendEntries a) \<and> ae_Term a = t
         \<and> ae_PrevLogIndex a = nextIndex rf ! nat peer - 1
         \<and> termAt rf (ae_PrevLogIndex a) = Some (ae_PrevLogTerm a)
         \<and> ae_PrevLogIndex a + int (length (ae_Entries a)) = lastLogIndex rf
         \<and> (\<forall>k < length (ae_Entries a). entryAt rf (ae_PrevLogIndex a + 1 + int k) = Some (ae_Entries a ! k))
         \<and> ae_LeaderCommit a = commitIndex rf)"
proof -
  let ?ni = "nextIndex rf ! nat peer"
  have ni: "go_nth (nextIndex rf) peer = Some ?ni"
    using assms(1-3) by (auto simp: go_nth_def raft_wf_def)
  have sentinel: "termAt rf (lastIncludedIndex rf) = Some (lastIncludedTerm rf)"
    using assms(1) by (cases "rlog rf") (auto simp: termAt_def getRelativeIndex_def go_nth_def raft_wf_def)
  show ?thesis
  proof (cases "role rf \<noteq> Leader \<or> currentTerm rf \<noteq> t")
    case True
    then show ?thesis by (auto simp: sendAppendEntriesToPeer_def)
  next
    case lead: False
    show ?thesis
    proof (cases "?ni \<le> lastIncludedIndex rf")
      case True
      with lead ni sentinel show ?thesis by (auto simp: sendAppendEntriesToPeer_def ReadSnapshot_def)
    next
      case False
      let ?r = "nat (?ni - lastIncludedIndex rf)"
      have r: "?r \<le> length (rlog rf)" "0 < ?r" "?ni = lastIncludedIndex rf + int ?r"
        using False assms(4) by (auto simp: lastLogIndex_def)
      have e: "go_nth (rlog rf) (getRelativeIndex rf (?ni - 1)) = Some (rlog rf ! (?r - 1))"
      proof -
        have "?ni - 1 - lastIncludedIndex rf = int (?r - 1)" using r by linarith
        then show ?thesis using r by (simp add: go_nth_def getRelativeIndex_def del: of_nat_diff)
      qed
      have es: "go_from (rlog rf) (getRelativeIndex rf ?ni) = Some (drop ?r (rlog rf))"
        using r by (auto simp: go_from_def getRelativeIndex_def)
      have "entryAt rf (?ni - 1 + 1 + int k) = Some (drop ?r (rlog rf) ! k)" if "k < length (drop ?r (rlog rf))" for k
      proof -
        have idx: "?ni - 1 + 1 + int k - lastIncludedIndex rf = int (?r + k)" using r by linarith
        show ?thesis using that r unfolding entryAt_def getRelativeIndex_def idx go_nth_int by auto
      qed
      then show ?thesis using lead ni False e es r
        by (auto simp: sendAppendEntriesToPeer_def Let_def termAt_def lastLogIndex_def)
    qed
  qed
qed

theorem sendAppendEntries_contract_witness:
  "\<exists>a. sendAppendEntriesToPeer demo_peer 1 1 = Some (SendEntries a) \<and> ae_PrevLogIndex a = 0
     \<and> ae_PrevLogIndex a + int (length (ae_Entries a)) = lastLogIndex demo_peer"
proof -
  have "(0::int) \<le> 1" "1 < npeers demo_peer" "nextIndex demo_peer ! nat 1 \<le> lastLogIndex demo_peer + 1"
    by (simp_all add: demo_peer_def lastLogIndex_def)
  from sendAppendEntries_contract [OF demo_peer_ok(1) this, of 1] show ?thesis by (auto simp: demo_peer_def)
qed

section \<open>Applying and compacting\<close>

text \<open>
  Entries are applied once each and in order.  One pass of the applier sends, for the indices from
  the last applied one (exclusive) to the commit index, in increasing order and without gaps, exactly
  the commands the log has there, and then nothing is left to apply; it does not panic as long as the
  commit index is within the log.
\<close>

theorem applier_in_order:
  assumes "raft_wf rf" and "commitIndex rf \<le> lastLogIndex rf" and "\<not> killed rf"
  shows "\<exists>rf' msgs. applierLoop_iter rf = Some (rf', msgs)
     \<and> map CommandIndex msgs = [lastApplied rf + 1 .. commitIndex rf]
     \<and> (\<forall>m \<in> set msgs. CommandValid m \<and> \<not> SnapshotValid m
          \<and> Some (am_Command m) = map_option le_Command (entryAt rf (CommandIndex m)))
     \<and> rf' = rf\<lparr>lastApplied := max (lastApplied rf) (commitIndex rf)\<rparr>
     \<and> applierLoop_iter rf' = Some (rf', [])"
proof -
  let ?rf = "rf\<lparr>lastApplied := max (lastApplied rf) (commitIndex rf)\<rparr>"
  let ?msg = "\<lambda>i. commandMsg (rlog rf ! nat (i - lastIncludedIndex rf)) i :: ('a, 'b) ApplyMsg"
  let ?msgs = "map ?msg [lastApplied rf + 1 .. commitIndex rf]"
  have eq: "applierLoop_iter rf = Some (?rf, ?msgs)"
    using applier_collect_eq [OF assms(1,2)] assms(3) by (simp add: applierLoop_iter_def)
  have "raft_wf ?rf" "commitIndex ?rf \<le> lastLogIndex ?rf" using assms(1,2) by (auto simp: raft_wf_def)
  from applier_collect_eq [OF this] assms(3) have idle: "applierLoop_iter ?rf = Some (?rf, [])"
    by (simp add: applierLoop_iter_def killed_def)
  have "CommandValid m \<and> \<not> SnapshotValid m
      \<and> Some (am_Command m) = map_option le_Command (entryAt rf (CommandIndex m))" if "m \<in> set ?msgs" for m
  proof -
    from that obtain i where m: "m = ?msg i" and i: "lastApplied rf + 1 \<le> i" "i \<le> commitIndex rf" by auto
    with assms(1,2) have "lastIncludedIndex rf < i" "i \<le> lastLogIndex rf" by (auto simp: raft_wf_def)
    then show ?thesis by (simp add: m commandMsg_def entryAt_def getRelativeIndex_def go_nth_def lastLogIndex_def)
  qed
  moreover have "map CommandIndex ?msgs = [lastApplied rf + 1 .. commitIndex rf]"
    by (simp add: commandMsg_def comp_def)
  ultimately show ?thesis using eq idle by blast
qed

theorem applier_in_order_witness:
  "\<exists>rf' msgs. applierLoop_iter (demo_peer\<lparr>commitIndex := 1\<rparr>) = Some (rf', msgs)
     \<and> map CommandIndex msgs = [1] \<and> lastApplied rf' = 1"
proof -
  have "raft_wf (demo_peer\<lparr>commitIndex := 1\<rparr>)"
    "commitIndex (demo_peer\<lparr>commitIndex := 1\<rparr>) \<le> lastLogIndex (demo_peer\<lparr>commitIndex := 1\<rparr>)"
    "\<not> killed (demo_peer\<lparr>commitIndex := 1\<rparr>)"
    by (simp_all add: demo_peer_def raft_wf_def lastLogIndex_def killed_def)
  from applier_in_order [OF this] show ?thesis by (auto simp: demo_peer_def)
qed

lemma nth_drop_shift:
  assumes "0 < k" "k < int (length lg) - int n"
  shows "(x # drop (Suc n) lg) ! nat k = lg ! nat (k + int n)"
proof -
  obtain j where "nat k = Suc j" using assms(1) by (cases "nat k") auto
  moreover from this have "nat (k + int n) = Suc n + j" using assms(1) by linarith
  ultimately show ?thesis using assms by (auto simp: ac_simps)
qed

text \<open>What compaction at \<open>index\<close> keeps: every entry above it, and the term at it.\<close>

lemma installed_suffix:
  assumes "raft_wf rf" "lastIncludedIndex rf < index" "index \<le> lastLogIndex rf"
    and rf': "rlog rf' = \<lparr>le_Command = None, le_Term = t\<rparr> # drop (Suc (nat (index - lastIncludedIndex rf))) (rlog rf)"
      "lastIncludedIndex rf' = index"
  shows "lastLogIndex rf' = lastLogIndex rf" "i > index \<Longrightarrow> entryAt rf' i = entryAt rf i"
    "i > index \<Longrightarrow> termAt rf' i = termAt rf i" "termAt rf' index = Some t"
proof -
  let ?n = "nat (index - lastIncludedIndex rf)"
  have n: "int ?n = index - lastIncludedIndex rf" "?n < length (rlog rf)" using assms(2,3) by (auto simp: lastLogIndex_def)
  then show "lastLogIndex rf' = lastLogIndex rf" by (auto simp: lastLogIndex_def rf')
  show "termAt rf' index = Some t" by (simp add: termAt_def getRelativeIndex_def go_nth_def rf')
  have "go_nth (rlog rf') (i - index) = go_nth (rlog rf) (i - lastIncludedIndex rf)" if "i > index"
    using nth_drop_shift [of "i - index" "rlog rf" ?n] that n assms(2)
    by (auto simp: go_nth_def rf')
  then show "i > index \<Longrightarrow> entryAt rf' i = entryAt rf i" "i > index \<Longrightarrow> termAt rf' i = termAt rf i"
    using assms(2) by (auto simp: entryAt_def termAt_def getRelativeIndex_def rf')
qed

text \<open>
  Compaction is transparent.  \<open>Snapshot\<close> at an index inside the log does not panic; it keeps the
  last index, every entry above the snapshot and the term at it, never lowers the commit or apply
  position, and stores the new state together with the snapshot; at an already compacted index it does
  nothing.
\<close>

theorem Snapshot_keeps_suffix:
  assumes "raft_wf rf" and "index \<le> lastLogIndex rf"
  shows "\<exists>rf'. Snapshot rf index snap = Some rf' \<and> (index \<le> lastIncludedIndex rf \<longrightarrow> rf' = rf)
    \<and> (lastIncludedIndex rf < index \<longrightarrow>
        lastIncludedIndex rf' = index \<and> lastLogIndex rf' = lastLogIndex rf
        \<and> Some (lastIncludedTerm rf') = termAt rf index \<and> termAt rf' index = termAt rf index
        \<and> (\<forall>i > index. entryAt rf' i = entryAt rf i)
        \<and> commitIndex rf' = max (commitIndex rf) index \<and> lastApplied rf' = max (lastApplied rf) index
        \<and> raftstate (persister rf') = encodeState rf' \<and> snapshot (persister rf') = snap)"
proof -
  from Snapshot_total [OF assms] obtain rf' where rf': "Snapshot rf index snap = Some rf'" by auto
  from rf' assms(1) show ?thesis
  proof (cases rule: Snapshot_cases)
    case old
    with rf' show ?thesis by auto
  next
    case (compacted e)
    have t: "termAt rf index = Some (le_Term e)" using termAt_in [OF assms(1) _ assms(2)] compacted(1,3) by simp
    from installed_suffix [OF assms(1) compacted(1,2), of rf' "le_Term e"] compacted(4)
    have "lastLogIndex rf' = lastLogIndex rf" "\<forall>i > index. entryAt rf' i = entryAt rf i"
      "termAt rf' index = Some (le_Term e)" by simp_all
    with rf' compacted t show ?thesis by simp
  qed
qed

theorem Snapshot_keeps_suffix_witness:
  "\<exists>rf'. Snapshot demo_peer 1 [9] = Some rf' \<and> lastIncludedIndex rf' = 1 \<and> lastLogIndex rf' = 1
     \<and> termAt rf' 1 = Some 1 \<and> snapshot (persister rf') = [9]"
proof -
  have st: "(1::int) \<le> lastLogIndex demo_peer" "termAt demo_peer 1 = Some 1" "lastIncludedIndex demo_peer < 1"
    "lastLogIndex demo_peer = 1"
    by (simp_all add: demo_peer_def lastLogIndex_def termAt_def getRelativeIndex_def go_nth_def)
  from Snapshot_keeps_suffix [OF demo_peer_ok(1) st(1), of "[9]"] st show ?thesis by auto
qed

text \<open>
  A snapshot received from the leader.  A newer snapshot replaces the log up to its index: the
  suffix after it stays if the log agrees with the snapshot's term there and is dropped otherwise,
  the commit and apply positions never go back, state and snapshot are stored together, and the service
  is handed exactly this snapshot.  A snapshot of an older term or an already covered index is
  ignored.
\<close>

theorem InstallSnapshot_contract:
  assumes "InstallSnapshot rf args now = Some (rf', reply, msg)" and "raft_wf rf"
  shows "if is_Term args < currentTerm rf then rf' = rf \<and> msg = None
    else if is_LastIncludedIndex args \<le> lastIncludedIndex rf then rlog rf' = rlog rf \<and> msg = None
    else lastIncludedIndex rf' = is_LastIncludedIndex args \<and> lastIncludedTerm rf' = is_LastIncludedTerm args
      \<and> (if termAt rf (is_LastIncludedIndex args) = Some (is_LastIncludedTerm args)
         then lastLogIndex rf' = lastLogIndex rf \<and> (\<forall>i > is_LastIncludedIndex args. entryAt rf' i = entryAt rf i)
         else lastLogIndex rf' = is_LastIncludedIndex args)
      \<and> commitIndex rf' = max (commitIndex rf) (is_LastIncludedIndex args)
      \<and> lastApplied rf' = max (lastApplied rf) (is_LastIncludedIndex args)
      \<and> raftstate (persister rf') = encodeState rf' \<and> snapshot (persister rf') = is_Data args
      \<and> (\<exists>m. msg = Some m \<and> SnapshotValid m \<and> am_Snapshot m = is_Data args
           \<and> SnapshotIndex m = is_LastIncludedIndex args)"
  using assms
proof (cases rule: InstallSnapshot_cases)
  case (installed m)
  let ?i = "is_LastIncludedIndex args" and ?t = "is_LastIncludedTerm args"
  have log: "rlog rf' = snapshotLog rf args" "lastIncludedIndex rf' = ?i" using installed(3) by simp_all
  have tail: "lastLogIndex rf' = lastLogIndex rf \<and> (\<forall>i > ?i. entryAt rf' i = entryAt rf i)"
    if "termAt rf ?i = Some ?t"
  proof -
    from that installed(2) have in_: "?i \<le> lastLogIndex rf"
      by (auto simp: termAt_def go_nth_def getRelativeIndex_def lastLogIndex_def split: if_splits)
    with installed_suffix [OF assms(2) installed(2) in_, of rf' ?t] log that
    show ?thesis by (simp add: snapshotLog_def)
  qed
  have "lastLogIndex rf' = ?i" if "termAt rf ?i \<noteq> Some ?t"
    using that log by (simp add: snapshotLog_def lastLogIndex_def)
  with tail installed show ?thesis by simp
qed auto

theorem InstallSnapshot_contract_witness:
  "\<exists>rf' reply msg. InstallSnapshot demo_peer \<lparr>is_Term = 9, is_LeaderId = 1, is_LastIncludedIndex = 50,
         is_LastIncludedTerm = 2, is_Data = [1]\<rparr> 0 = Some (rf', reply, msg)
     \<and> lastIncludedIndex rf' = 50 \<and> lastLogIndex rf' = 50 \<and> commitIndex rf' = 50"
proof -
  let ?args = "\<lparr>is_Term = 9, is_LeaderId = 1, is_LastIncludedIndex = 50,
         is_LastIncludedTerm = 2, is_Data = [1 :: nat]\<rparr>"
  obtain rf' reply msg where step: "InstallSnapshot demo_peer ?args 0 = Some (rf', reply, msg)"
    using InstallSnapshot_total [OF demo_peer_ok(1), of ?args 0] by auto
  have "termAt demo_peer 50 = None"
    by (simp add: demo_peer_def termAt_def getRelativeIndex_def go_nth_def)
  moreover have "currentTerm demo_peer = 1" "lastIncludedIndex demo_peer = 0" "commitIndex demo_peer = 0"
    by (simp_all add: demo_peer_def)
  ultimately show ?thesis using InstallSnapshot_contract [OF step demo_peer_ok(1)] step by auto
qed

end
