(* ===== verification/RaftCluster.thy ===== *)
theory RaftCluster
  imports RaftPeer
begin

text \<open>
  A cluster of Raft peers and the network between them.  Each step is one locked section of
  \<^verbatim>\<open>raft1/raft.go\<close> on one peer: a timeout, a request or a reply handled, a command accepted, a snapshot
  taken, entries applied, a crash and restart.  The goroutine that \<open>startElection\<close> starts for each
  peer makes one RPC and handles its reply once, so a vote call is sent, replied and done at most
  once, and may be lost at any point; calls for log entries and snapshots may be lost, delayed,
  reordered and repeated without limit.  A restart keeps only the persister.  The invariants about
  votes give Election Safety.
\<close>

section \<open>Cluster states and steps\<close>

datatype vote_call = VNone | VSent RequestVoteArgs | VReplied RequestVoteReply | VDone

text \<open>\<open>votes i t\<close> is the counter shared by the goroutines of peer \<open>i\<close>'s election for term \<open>t\<close>; \<open>voted p t\<close>
  records whom \<open>p\<close> voted for in term \<open>t\<close> (a history variable that no step reads).\<close>

record ('c, 'd) cluster =
  nodes :: "int \<Rightarrow> ('c, 'd) Raft"
  votes :: "int \<Rightarrow> int \<Rightarrow> int"
  vote_calls :: "int \<Rightarrow> int \<Rightarrow> int \<Rightarrow> vote_call"
  append_reqs :: "(int \<times> 'c AppendEntriesArgs) set"
  append_replies :: "(int \<times> 'c AppendEntriesArgs \<times> AppendEntriesReply) set"
  snap_reqs :: "(int \<times> 'd InstallSnapshotArgs) set"
  snap_replies :: "(int \<times> 'd InstallSnapshotArgs \<times> InstallSnapshotReply) set"
  voted :: "int \<Rightarrow> int \<Rightarrow> int option"

definition record_vote :: "int \<Rightarrow> ('c, 'd) Raft \<Rightarrow> (int \<Rightarrow> int \<Rightarrow> int option) \<Rightarrow> int \<Rightarrow> int \<Rightarrow> int option" where
  "record_vote p rf h = (if votedFor rf = -1 then h else h(p := (h p)(currentTerm rf := Some (votedFor rf))))"

text \<open>Peer \<open>p\<close> moves to \<open>rf\<close>.\<close>

definition move :: "int \<Rightarrow> ('c, 'd) Raft \<Rightarrow> ('c, 'd) cluster \<Rightarrow> ('c, 'd) cluster" where
  "move p rf s = s\<lparr>nodes := (nodes s)(p := rf), voted := record_vote p rf (voted s)\<rparr>"

definition set_call :: "int \<Rightarrow> int \<Rightarrow> int \<Rightarrow> vote_call \<Rightarrow> ('c, 'd) cluster \<Rightarrow> ('c, 'd) cluster" where
  "set_call i t p c s = s\<lparr>vote_calls := (vote_calls s)(i := (vote_calls s i)(t := (vote_calls s i t)(p := c)))\<rparr>"

definition set_votes :: "int \<Rightarrow> int \<Rightarrow> int \<Rightarrow> ('c, 'd) cluster \<Rightarrow> ('c, 'd) cluster" where
  "set_votes i t v s = s\<lparr>votes := (votes s)(i := (votes s i)(t := v))\<rparr>"

text \<open>The calls a new election makes: one to each other peer.\<close>

definition open_calls :: "('c, 'd) Raft \<Rightarrow> RequestVoteArgs \<Rightarrow> ('c, 'd) cluster \<Rightarrow> ('c, 'd) cluster" where
  "open_calls rf args s = s\<lparr>vote_calls := (vote_calls s)(me rf := (vote_calls s (me rf))(rv_Term args :=
     (\<lambda>p. if p \<in> set (electionPeers rf) then VSent args else VNone)))\<rparr>"

inductive cl_step :: "int \<Rightarrow> ('c, 'd) cluster \<Rightarrow> ('c, 'd) cluster \<Rightarrow> bool" for n where
  cl_elect: "0 \<le> i \<Longrightarrow> i < n \<Longrightarrow> ticker_tick (nodes s i) now rnd = Some (rf, Some args) \<Longrightarrow>
    cl_step n s (set_votes i (rv_Term args) 1 (open_calls rf args (move i rf s)))"
| cl_vote: "0 \<le> p \<Longrightarrow> p < n \<Longrightarrow> vote_calls s i t p = VSent args \<Longrightarrow>
    RequestVote (nodes s p) args now = Some (rf, reply) \<Longrightarrow>
    cl_step n s (set_call i t p (VReplied reply) (move p rf s))"
| cl_vote_reply: "0 \<le> i \<Longrightarrow> i < n \<Longrightarrow> vote_calls s i t p = VReplied reply \<Longrightarrow>
    handleVoteReply (nodes s i) (votes s i t) t reply now = (rf, v) \<Longrightarrow>
    cl_step n s (set_votes i t v (set_call i t p VDone (move i rf s)))"
| cl_start: "0 \<le> i \<Longrightarrow> i < n \<Longrightarrow> Start (nodes s i) c = (rf, r) \<Longrightarrow> cl_step n s (move i rf s)"
| cl_send: "0 \<le> i \<Longrightarrow> i < n \<Longrightarrow> p \<in> set (peers (nodes s i)) \<Longrightarrow> p \<noteq> i \<Longrightarrow>
    sendAppendEntriesToPeer (nodes s i) p t = Some (SendEntries args) \<Longrightarrow>
    cl_step n s (s\<lparr>append_reqs := insert (p, args) (append_reqs s)\<rparr>)"
| cl_send_snap: "0 \<le> i \<Longrightarrow> i < n \<Longrightarrow> p \<in> set (peers (nodes s i)) \<Longrightarrow> p \<noteq> i \<Longrightarrow>
    sendAppendEntriesToPeer (nodes s i) p t = Some (SendSnapshot sargs) \<Longrightarrow>
    cl_step n s (s\<lparr>snap_reqs := insert (p, sargs) (snap_reqs s)\<rparr>)"
| cl_append: "0 \<le> p \<Longrightarrow> p < n \<Longrightarrow> (p, args) \<in> append_reqs s \<Longrightarrow>
    AppendEntries (nodes s p) args now = Some (rf, reply) \<Longrightarrow>
    cl_step n s ((move p rf s)\<lparr>append_replies := insert (p, args, reply) (append_replies s)\<rparr>)"
| cl_append_reply: "0 \<le> i \<Longrightarrow> i < n \<Longrightarrow> (p, args, reply) \<in> append_replies s \<Longrightarrow> ae_LeaderId args = i \<Longrightarrow>
    handleAppendReply (nodes s i) p (ae_Term args) args reply = Some rf \<Longrightarrow> cl_step n s (move i rf s)"
| cl_snap: "0 \<le> p \<Longrightarrow> p < n \<Longrightarrow> (p, sargs) \<in> snap_reqs s \<Longrightarrow>
    InstallSnapshot (nodes s p) sargs now = Some (rf, reply, msg) \<Longrightarrow>
    cl_step n s ((move p rf s)\<lparr>snap_replies := insert (p, sargs, reply) (snap_replies s)\<rparr>)"
| cl_snap_reply: "0 \<le> i \<Longrightarrow> i < n \<Longrightarrow> (p, sargs, reply) \<in> snap_replies s \<Longrightarrow> is_LeaderId sargs = i \<Longrightarrow>
    handleSnapshotReply (nodes s i) p (is_Term sargs) sargs reply = Some rf \<Longrightarrow> cl_step n s (move i rf s)"
| cl_compact: "0 \<le> i \<Longrightarrow> i < n \<Longrightarrow> index \<le> lastApplied (nodes s i) \<Longrightarrow>
    Snapshot (nodes s i) index snap = Some rf \<Longrightarrow> cl_step n s (move i rf s)"
| cl_apply: "0 \<le> i \<Longrightarrow> i < n \<Longrightarrow> applierLoop_iter (nodes s i) = Some (rf, msgs) \<Longrightarrow> cl_step n s (move i rf s)"
| cl_kill: "0 \<le> i \<Longrightarrow> i < n \<Longrightarrow> cl_step n s (move i (Kill (nodes s i)) s)"
| cl_restart: "0 \<le> i \<Longrightarrow> i < n \<Longrightarrow> cl_step n s (move i (Make n i (persister (nodes s i)) now) s)"

definition cl_init :: "int \<Rightarrow> int \<Rightarrow> ('c, 'd) cluster" where
  "cl_init n now = \<lparr>nodes = (\<lambda>i. Make n i MakePersister now), votes = (\<lambda>_ _. 0), vote_calls = (\<lambda>_ _ _. VNone),
     append_reqs = {}, append_replies = {}, snap_reqs = {}, snap_replies = {}, voted = (\<lambda>_ _. None)\<rparr>"

inductive cl_run :: "int \<Rightarrow> ('c, 'd) cluster \<Rightarrow> ('c, 'd) cluster \<Rightarrow> bool" for n where
  cl_refl: "cl_run n s s"
| cl_trans: "cl_run n s s' \<Longrightarrow> cl_step n s' s'' \<Longrightarrow> cl_run n s s''"

section \<open>Roles\<close>

text \<open>Except for a timeout and a vote reply, a step keeps role and term or ends as a follower.\<close>

definition role_le :: "('c, 'd) Raft \<Rightarrow> ('c, 'd) Raft \<Rightarrow> bool" where
  "role_le rf rf' \<longleftrightarrow> role rf' = Follower \<or> role rf' = role rf \<and> currentTerm rf' = currentTerm rf"

lemma role_le_RequestVote: "RequestVote rf args now = Some (rf', reply) \<Longrightarrow> role_le rf rf'"
  by (cases rule: RequestVote_cases) (auto simp: role_le_def split: if_splits)

lemma role_le_AppendEntries:
  "AppendEntries rf args now = Some (rf', reply) \<Longrightarrow> raft_wf rf \<Longrightarrow> role_le rf rf'"
  by (cases rule: AppendEntries_cases) (auto simp: role_le_def updateFollowerCommit_eq split: if_splits)

lemma role_le_InstallSnapshot:
  "InstallSnapshot rf args now = Some (rf', reply, msg) \<Longrightarrow> raft_wf rf \<Longrightarrow> role_le rf rf'"
  by (cases rule: InstallSnapshot_cases) (auto simp: role_le_def split: if_splits)

lemma role_le_Snapshot: "Snapshot rf index snap = Some rf' \<Longrightarrow> raft_wf rf \<Longrightarrow> role_le rf rf'"
  by (cases rule: Snapshot_cases) (auto simp: role_le_def)

lemma role_le_Start: "Start rf c = (rf', r) \<Longrightarrow> role_le rf rf'"
  by (auto simp: Start_def role_le_def Let_def split: if_splits)

lemma role_le_handleAppendReply:
  assumes "handleAppendReply rf peer t args reply = Some rf'" "raft_wf rf"
  shows "role_le rf rf'"
  using assms
proof (cases rule: handleAppendReply_cases)
  case (matched rf1)
  from updateCommitIndex_raises [OF matched(8,9)] matched(7) show ?thesis by (auto simp: role_le_def)
qed (auto simp: role_le_def)

lemma role_le_handleSnapshotReply:
  "handleSnapshotReply rf peer t args reply = Some rf' \<Longrightarrow> role_le rf rf'"
  by (cases rule: handleSnapshotReply_cases) (auto simp: role_le_def)

lemma role_le_apply: "applierLoop_iter rf = Some (rf', msgs) \<Longrightarrow> role_le rf rf'"
  using applierLoop_frame by (fastforce simp: role_le_def)

lemma role_le_Kill: "role_le rf (Kill rf)"
  by (simp add: role_le_def Kill_def)

lemma role_le_Make: "role_le rf (Make n i ps now)"
  by (simp add: role_le_def)

lemmas role_rules = role_le_RequestVote role_le_AppendEntries role_le_InstallSnapshot role_le_Snapshot
  role_le_Start role_le_handleAppendReply role_le_handleSnapshotReply role_le_apply

section \<open>The election invariant\<close>

definition in_cluster :: "int \<Rightarrow> int set" where
  "in_cluster n = {0..<n}"

lemma in_cluster_simps [simp]: "p \<in> in_cluster n \<longleftrightarrow> 0 \<le> p \<and> p < n" "finite (in_cluster n)"
  "card (in_cluster n) = nat n"
  by (auto simp: in_cluster_def)

text \<open>Every peer is sound, the history agrees with what each peer remembers of its vote, calls carry
  the election they belong to, and granted replies are recorded votes.\<close>

definition peers_ok :: "int \<Rightarrow> ('c, 'd) cluster \<Rightarrow> bool" where
  "peers_ok n s \<longleftrightarrow> (\<forall>p \<in> in_cluster n. raft_wf (nodes s p) \<and> persisted (nodes s p)
     \<and> me (nodes s p) = p \<and> npeers (nodes s p) = n)"

definition history_ok :: "('c, 'd) cluster \<Rightarrow> int \<Rightarrow> bool" where
  "history_ok s p \<longleftrightarrow> (\<forall>t c. voted s p t = Some c \<longrightarrow> t \<le> currentTerm (nodes s p) \<and> c \<noteq> -1
       \<and> (t = currentTerm (nodes s p) \<longrightarrow> votedFor (nodes s p) = c))
     \<and> (votedFor (nodes s p) \<noteq> -1 \<longrightarrow> voted s p (currentTerm (nodes s p)) = Some (votedFor (nodes s p)))"

fun call_ok :: "int \<Rightarrow> (int \<Rightarrow> int \<Rightarrow> int option) \<Rightarrow> int \<Rightarrow> int \<Rightarrow> int \<Rightarrow> vote_call \<Rightarrow> bool" where
  "call_ok n h i t p (VSent args) \<longleftrightarrow> rv_Term args = t \<and> rv_CandidateId args = i \<and> p \<in> in_cluster n \<and> p \<noteq> i \<and> i \<noteq> -1"
| "call_ok n h i t p (VReplied reply) \<longleftrightarrow> p \<in> in_cluster n \<and> p \<noteq> i \<and> (rvr_VoteGranted reply \<longrightarrow> h p t = Some i)"
| "call_ok n h i t p VNone \<longleftrightarrow> True"
| "call_ok n h i t p VDone \<longleftrightarrow> True"

definition supporters :: "int \<Rightarrow> ('c, 'd) cluster \<Rightarrow> int \<Rightarrow> int \<Rightarrow> int set" where
  "supporters n s i t = {p \<in> in_cluster n. voted s p t = Some i}"

text \<open>The supporters whose reply the candidate has handled.\<close>

definition counted :: "int \<Rightarrow> ('c, 'd) cluster \<Rightarrow> int \<Rightarrow> int \<Rightarrow> int set" where
  "counted n s i t = {p \<in> supporters n s i t. p \<noteq> i \<and> vote_calls s i t p = VDone}"

definition candidate_ok :: "int \<Rightarrow> ('c, 'd) cluster \<Rightarrow> int \<Rightarrow> bool" where
  "candidate_ok n s i \<longleftrightarrow> (let rf = nodes s i in
     (role rf = Candidate \<longrightarrow> i \<in> supporters n s i (currentTerm rf)
        \<and> votes s i (currentTerm rf) \<le> 1 + int (card (counted n s i (currentTerm rf))))
     \<and> (role rf = Leader \<longrightarrow> n div 2 < int (card (supporters n s i (currentTerm rf)))))"

definition elect_inv :: "int \<Rightarrow> ('c, 'd) cluster \<Rightarrow> bool" where
  "elect_inv n s \<longleftrightarrow> peers_ok n s \<and> (\<forall>p \<in> in_cluster n. history_ok s p)
     \<and> (\<forall>i t p. call_ok n (voted s) i t p (vote_calls s i t p)) \<and> (\<forall>i \<in> in_cluster n. candidate_ok n s i)"

lemma move_sel [simp]:
  "nodes (move p rf s) = (nodes s)(p := rf)" "voted (move p rf s) = record_vote p rf (voted s)"
  "votes (move p rf s) = votes s" "vote_calls (move p rf s) = vote_calls s"
  by (simp_all add: move_def)

lemma set_call_sel [simp]:
  "nodes (set_call i t p c s) = nodes s" "voted (set_call i t p c s) = voted s" "votes (set_call i t p c s) = votes s"
  "vote_calls (set_call i t p c s) j u q = (if (j, u, q) = (i, t, p) then c else vote_calls s j u q)"
  by (simp_all add: set_call_def)

lemma set_votes_sel [simp]:
  "nodes (set_votes i t v s) = nodes s" "voted (set_votes i t v s) = voted s"
  "vote_calls (set_votes i t v s) = vote_calls s"
  "votes (set_votes i t v s) j u = (if (j, u) = (i, t) then v else votes s j u)"
  by (simp_all add: set_votes_def)

lemma open_calls_sel [simp]:
  "nodes (open_calls rf args s) = nodes s" "voted (open_calls rf args s) = voted s"
  "votes (open_calls rf args s) = votes s"
  "vote_calls (open_calls rf args s) j u q = (if j = me rf \<and> u = rv_Term args
     then if q \<in> set (electionPeers rf) then VSent args else VNone else vote_calls s j u q)"
  by (simp_all add: open_calls_def)

text \<open>History only grows: a peer that respects its vote never overwrites an entry.\<close>

lemma history_okD:
  assumes "history_ok s p" "voted s p t = Some c"
  shows "t \<le> currentTerm (nodes s p)" "c \<noteq> -1" "t = currentTerm (nodes s p) \<Longrightarrow> votedFor (nodes s p) = c"
  using assms unfolding history_ok_def by blast+

lemma vote_le_history:
  assumes "history_ok s p" "vote_le (nodes s p) rf" "voted s p t = Some c"
  shows "t \<le> currentTerm rf" "c \<noteq> -1" "t = currentTerm rf \<Longrightarrow> votedFor rf = c"
  using history_okD [OF assms(1,3)] assms(2) by (auto simp: vote_le_def)

lemma record_vote_apply:
  "record_vote p rf h p t = (if votedFor rf \<noteq> -1 \<and> t = currentTerm rf then Some (votedFor rf) else h p t)"
  by (simp add: record_vote_def)

lemma record_vote_mono:
  assumes "history_ok s p" and "vote_le (nodes s p) rf" and "voted s q t = Some c"
  shows "record_vote p rf (voted s) q t = Some c"
  using assms vote_le_history(3) [OF assms(1,2), of t c] by (auto simp: record_vote_def)

lemma move_history:
  assumes "history_ok s p" and "vote_le (nodes s p) rf" shows "history_ok (move p rf s) p"
proof -
  note h = vote_le_history [OF assms]
  have "t \<le> currentTerm rf \<and> c \<noteq> -1 \<and> (t = currentTerm rf \<longrightarrow> votedFor rf = c)"
    if "record_vote p rf (voted s) p t = Some c" for t c
  proof (cases "votedFor rf \<noteq> -1 \<and> t = currentTerm rf")
    case True
    with that have "votedFor rf = c" by (simp add: record_vote_apply)
    with True show ?thesis by auto
  next
    case False
    with that have "voted s p t = Some c" unfolding record_vote_apply by presburger
    from h [OF this] show ?thesis by blast
  qed
  moreover have "votedFor rf \<noteq> -1 \<longrightarrow> record_vote p rf (voted s) p (currentTerm rf) = Some (votedFor rf)"
    by (simp add: record_vote_apply)
  ultimately show ?thesis unfolding history_ok_def move_sel fun_upd_same by blast
qed

lemma history_ok_other: "q \<noteq> p \<Longrightarrow> history_ok (move p rf s) q = history_ok s q"
  by (simp add: history_ok_def record_vote_def)

lemma move_peers_ok:
  assumes "peers_ok n s" "local_step (nodes s p) rf" shows "peers_ok n (move p rf s)"
  using assms by (auto simp: peers_ok_def local_step_def)

lemma call_ok_mono:
  assumes "call_ok n h i t p c" "\<And>q u d. h q u = Some d \<Longrightarrow> h' q u = Some d" shows "call_ok n h' i t p c"
  using assms by (cases c) auto

lemma supporters_mono:
  assumes "\<And>q u d. voted s q u = Some d \<Longrightarrow> voted s' q u = Some d"
  shows "supporters n s i t \<subseteq> supporters n s' i t"
  using assms by (auto simp: supporters_def)

lemma finite_supporters [simp]: "finite (supporters n s i t)" "finite (counted n s i t)"
  by (rule finite_subset [of _ "in_cluster n"]; auto simp: supporters_def counted_def)+

text \<open>A candidate or leader stays sound while the history grows and done calls stay done.\<close>

lemma candidate_ok_mono:
  assumes "candidate_ok n s i" and "role_le (nodes s i) (nodes s' i)"
    and mono: "\<And>q u d. voted s q u = Some d \<Longrightarrow> voted s' q u = Some d"
    and "votes s' i (currentTerm (nodes s i)) = votes s i (currentTerm (nodes s i))"
    and fin: "\<And>q. vote_calls s i (currentTerm (nodes s i)) q = VDone \<Longrightarrow> vote_calls s' i (currentTerm (nodes s i)) q = VDone"
  shows "candidate_ok n s' i"
proof -
  let ?t = "currentTerm (nodes s i)"
  have sup: "supporters n s i ?t \<subseteq> supporters n s' i ?t" by (rule supporters_mono [OF mono])
  then have "card (supporters n s i ?t) \<le> card (supporters n s' i ?t)" by (simp add: card_mono)
  moreover have "card (counted n s i ?t) \<le> card (counted n s' i ?t)"
    using sup fin by (intro card_mono) (auto simp: counted_def)
  ultimately show ?thesis using assms(1,2,4) sup
    by (auto simp: candidate_ok_def role_le_def Let_def)
qed

text \<open>The common part of every step of a peer \<open>p\<close>: only its own candidacy is left to check.\<close>

definition others_inv :: "int \<Rightarrow> int \<Rightarrow> ('c, 'd) cluster \<Rightarrow> bool" where
  "others_inv n p s \<longleftrightarrow> peers_ok n s \<and> (\<forall>q \<in> in_cluster n. history_ok s q)
     \<and> (\<forall>i t q. call_ok n (voted s) i t q (vote_calls s i t q)) \<and> (\<forall>i \<in> in_cluster n - {p}. candidate_ok n s i)"

lemma elect_inv_others: "elect_inv n s \<longleftrightarrow> others_inv n p s \<and> (p \<in> in_cluster n \<longrightarrow> candidate_ok n s p)"
  by (auto simp: elect_inv_def others_inv_def)

lemma others_inv_move:
  assumes inv: "elect_inv n s" and p: "p \<in> in_cluster n" and step: "local_step (nodes s p) rf"
  shows "others_inv n p (move p rf s)"
    and "voted s q t = Some c \<Longrightarrow> voted (move p rf s) q t = Some c"
proof -
  have hist: "history_ok s p" and le: "vote_le (nodes s p) rf"
    using inv p step by (auto simp: elect_inv_def local_step_def)
  note mono = record_vote_mono [OF hist le]
  show "voted s q t = Some c \<Longrightarrow> voted (move p rf s) q t = Some c" using mono by simp
  have "history_ok (move p rf s) q" if "q \<in> in_cluster n" for q
    using move_history [OF hist le] inv that history_ok_other [of q p rf s]
    by (cases "q = p") (auto simp: elect_inv_def)
  moreover have "candidate_ok n (move p rf s) i" if "i \<in> in_cluster n" "i \<noteq> p" for i
  proof (rule candidate_ok_mono [of n s i])
    show "candidate_ok n s i" using inv that by (simp add: elect_inv_def)
    show "role_le (nodes s i) (nodes (move p rf s) i)" using that(2) by (simp add: role_le_def)
  qed (use mono in simp_all)
  moreover have "call_ok n (record_vote p rf (voted s)) i t q (vote_calls s i t q)" for i t q
  proof (rule call_ok_mono)
    show "call_ok n (voted s) i t q (vote_calls s i t q)" using inv by (simp add: elect_inv_def)
  qed (rule mono)
  ultimately show "others_inv n p (move p rf s)"
    using inv move_peers_ok [OF _ step] by (simp add: others_inv_def elect_inv_def)
qed

lemma elect_inv_move:
  assumes inv: "elect_inv n s" and p: "p \<in> in_cluster n"
    and step: "local_step (nodes s p) rf" and role: "role_le (nodes s p) rf"
  shows "elect_inv n (move p rf s)"
proof -
  have "candidate_ok n (move p rf s) p"
  proof (rule candidate_ok_mono [of n s p])
    show "candidate_ok n s p" using inv p by (simp add: elect_inv_def)
  qed (use role others_inv_move(2) [OF inv p step] in simp_all)
  with others_inv_move(1) [OF inv p step] show ?thesis by (simp add: elect_inv_others [of n _ p])
qed

section \<open>Every step keeps the invariant\<close>

lemma elect_inv_frame:
  assumes "elect_inv n s" "nodes s' = nodes s" "voted s' = voted s" "votes s' = votes s" "vote_calls s' = vote_calls s"
  shows "elect_inv n s'"
  using assms by (simp add: elect_inv_def peers_ok_def history_ok_def candidate_ok_def supporters_def counted_def)

lemma elect_inv_peer:
  assumes "elect_inv n s" "0 \<le> p" "p < n"
  shows "raft_wf (nodes s p)" "persisted (nodes s p)" "me (nodes s p) = p" "npeers (nodes s p) = n" "history_ok s p"
  using assms by (auto simp: elect_inv_def peers_ok_def)

lemma elect_inv_call: "elect_inv n s \<Longrightarrow> call_ok n (voted s) i t p (vote_calls s i t p)"
  by (simp add: elect_inv_def)

text \<open>A voter answers a call: a granted reply is a vote it has just recorded.\<close>

lemma elect_inv_vote:
  assumes inv: "elect_inv n s" and p: "0 \<le> p" "p < n" and call: "vote_calls s i t p = VSent args"
    and step: "RequestVote (nodes s p) args now = Some (rf, reply)"
  shows "elect_inv n (set_call i t p (VReplied reply) (move p rf s))"
proof -
  let ?s = "move p rf s" and ?s' = "set_call i t p (VReplied reply) (move p rf s)"
  note sound = elect_inv_peer [OF inv p]
  have inv1: "elect_inv n ?s"
    using elect_inv_move [OF inv _ RequestVote_local [OF step sound(1,2)] role_le_RequestVote [OF step]] p by simp
  have args: "rv_Term args = t" "rv_CandidateId args = i" "p \<noteq> i" "i \<noteq> -1"
    using elect_inv_call [OF inv, of i t p] call by simp_all
  have "voted ?s p t = Some i" if "rvr_VoteGranted reply"
    using step
  proof (cases rule: RequestVote_cases)
    case (granted lt)
    then have "votedFor rf = i" "currentTerm rf = t" using args by simp_all
    then show ?thesis using args(4) by (simp add: record_vote_apply)
  qed (use that in auto)
  then have "call_ok n (voted ?s) i t p (VReplied reply)" using p args(3) by simp
  then have "call_ok n (voted ?s') j u q (vote_calls ?s' j u q)" for j u q
    using inv1 by (auto simp: elect_inv_def)
  moreover have "candidate_ok n ?s' j" if "j \<in> in_cluster n" for j
  proof (rule candidate_ok_mono [of n ?s])
    show "candidate_ok n ?s j" using inv1 that by (simp add: elect_inv_def)
  qed (use call in \<open>auto simp: role_le_def\<close>)
  ultimately show ?thesis using inv1 by (simp add: elect_inv_def peers_ok_def history_ok_def)
qed

text \<open>A timeout: the new candidate supports itself, and no reply of the new election has been handled.\<close>

lemma ticker_elects:
  assumes "ticker_tick rf now rnd = Some (rf', Some args)" "raft_wf rf"
  shows "role rf' = Candidate" "currentTerm rf' = currentTerm rf + 1" "votedFor rf' = me rf" "me rf' = me rf"
    "npeers rf' = npeers rf" "rv_Term args = currentTerm rf + 1" "rv_CandidateId args = me rf"
  using assms(1) by (auto simp: ticker_tick_def Let_def startElection_eq [OF assms(2)] split: if_splits)

lemma elect_inv_elect:
  assumes inv: "elect_inv n s" and i: "0 \<le> i" "i < n"
    and step: "ticker_tick (nodes s i) now rnd = Some (rf, Some args)"
  shows "elect_inv n (set_votes i (rv_Term args) 1 (open_calls rf args (move i rf s)))"
proof -
  let ?s = "move i rf s" and ?s' = "set_votes i (rv_Term args) 1 (open_calls rf args (move i rf s))"
  note sound = elect_inv_peer [OF inv i] and new = ticker_elects [OF step elect_inv_peer(1) [OF inv i]]
  have i': "i \<in> in_cluster n" using i by simp
  note o = others_inv_move [OF inv i' ticker_local [OF step sound(1,2)]]
  have "call_ok n (voted ?s') j u q (vote_calls ?s' j u q)" for j u q
    using o(1) new sound(3,4) i by (auto simp: others_inv_def electionPeers_def)
  moreover have "candidate_ok n ?s' j" if "j \<in> in_cluster n" "j \<noteq> i" for j
  proof (rule candidate_ok_mono [of n ?s])
    show "candidate_ok n ?s j" using o(1) that by (simp add: others_inv_def)
  qed (use that(2) new sound(3) in \<open>auto simp: role_le_def\<close>)
  moreover have "candidate_ok n ?s' i"
    using new sound(3) i by (simp add: candidate_ok_def supporters_def record_vote_apply Let_def)
  ultimately show ?thesis
    using o(1) unfolding elect_inv_others [of n _ i]
    by (simp add: others_inv_def peers_ok_def history_ok_def)
qed

text \<open>A candidate handles a reply: a granted one adds a supporter that had not been counted.\<close>

lemma elect_inv_vote_reply:
  assumes inv: "elect_inv n s" and i: "0 \<le> i" "i < n" and call: "vote_calls s i t p = VReplied reply"
    and step: "handleVoteReply (nodes s i) (votes s i t) t reply now = (rf, v)"
  shows "elect_inv n (set_votes i t v (set_call i t p VDone (move i rf s)))"
proof -
  let ?s = "move i rf s" and ?s' = "set_votes i t v (set_call i t p VDone (move i rf s))"
  note sound = elect_inv_peer [OF inv i]
  have i': "i \<in> in_cluster n" using i by simp
  have loc: "local_step (nodes s i) rf"
    using handleVoteReply_local [OF sound(1,2), of "votes s i t" t reply now] step by simp
  note o = others_inv_move [OF inv i' loc]
  have call': "p \<in> in_cluster n" "p \<noteq> i" "rvr_VoteGranted reply \<Longrightarrow> voted s p t = Some i"
    using elect_inv_call [OF inv, of i t p] call by simp_all
  have "candidate_ok n ?s' j" if "j \<in> in_cluster n" "j \<noteq> i" for j
  proof (rule candidate_ok_mono [of n ?s])
    show "candidate_ok n ?s j" using o(1) that by (simp add: others_inv_def)
  qed (use that(2) in \<open>auto simp: role_le_def\<close>)
  moreover have "candidate_ok n ?s' i"
  proof (cases "role (nodes s i) = Candidate \<and> currentTerm (nodes s i) = t \<and> rvr_Term reply \<le> t \<and> rvr_VoteGranted reply")
    case False
    then have v: "v = votes s i t" and r: "role_le (nodes s i) rf"
      using step by (auto simp: handleVoteReply_def role_le_def Let_def split: if_splits)
    show ?thesis
    proof (rule candidate_ok_mono [of n s])
      show "candidate_ok n s i" using inv i by (simp add: elect_inv_def)
    qed (use v r o(2) in auto)
  next
    case True
    have rf: "currentTerm rf = t" "votedFor rf = votedFor (nodes s i)" "v = votes s i t + 1"
      "role rf = Leader \<and> v > n div 2 \<or> role rf = Candidate"
      using step True sound(4) by (auto simp: handleVoteReply_def becomeLeader_def Let_def split: if_splits)
    have cand: "i \<in> supporters n s i t" "votes s i t \<le> 1 + int (card (counted n s i t))"
      using inv i True by (auto simp: elect_inv_def candidate_ok_def Let_def)
    have sup: "supporters n s i t \<subseteq> supporters n ?s' i t"
      by (rule supporters_mono) (use o(2) in simp)
    have "p \<notin> counted n s i t" using call by (simp add: counted_def)
    moreover have "insert p (counted n s i t) \<subseteq> counted n ?s' i t"
      using sup call' True by (auto simp: counted_def supporters_def)
    ultimately have "card (counted n s i t) + 1 \<le> card (counted n ?s' i t)"
      using card_mono [of "counted n ?s' i t" "insert p (counted n s i t)"] by simp
    with cand(2) rf(3) have v: "v \<le> 1 + int (card (counted n ?s' i t))" by simp
    have "insert i (counted n ?s' i t) \<subseteq> supporters n ?s' i t" using sup cand(1) by (auto simp: counted_def)
    moreover have "i \<notin> counted n ?s' i t" by (simp add: counted_def)
    ultimately have "card (counted n ?s' i t) + 1 \<le> card (supporters n ?s' i t)"
      using card_mono [of "supporters n ?s' i t" "insert i (counted n ?s' i t)"] by simp
    then show ?thesis using v rf cand(1) sup by (auto simp: candidate_ok_def Let_def)
  qed
  moreover have "call_ok n (voted ?s') j u q (vote_calls ?s' j u q)" for j u q
    using o(1) by (simp add: others_inv_def)
  ultimately show ?thesis
    using o(1) unfolding elect_inv_others [of n _ i]
    by (simp add: others_inv_def peers_ok_def history_ok_def)
qed

lemma elect_inv_event:
  assumes inv: "elect_inv n s" and p: "0 \<le> p" "p < n" and ev: "handle ev (nodes s p) = Some rf"
    and role: "raft_wf (nodes s p) \<Longrightarrow> role_le (nodes s p) rf"
  shows "elect_inv n (move p rf s)"
  using elect_inv_move [OF inv] handle_local [OF ev] elect_inv_peer [OF inv p] role p by simp

lemma elect_inv_restart:
  assumes inv: "elect_inv n s" and i: "0 \<le> i" "i < n"
  shows "elect_inv n (move i (Make n i (persister (nodes s i)) now) s)"
proof -
  note sound = elect_inv_peer [OF inv i]
  have "peer_run n i (nodes s i) (Make n i (persister (nodes s i)) now)" by (rule run_restart [OF run_refl])
  from elect_inv_move [OF inv _ peer_run_local [OF this sound(1-4)] role_le_Make] i show ?thesis by simp
qed

lemma cl_step_elect_inv:
  assumes "cl_step n s s'" "elect_inv n s" shows "elect_inv n s'"
  using assms
proof (cases rule: cl_step.cases)
  case (cl_elect i now rnd rf args)
  with elect_inv_elect assms(2) show ?thesis by blast
next
  case (cl_vote p i t args now rf reply)
  with elect_inv_vote assms(2) show ?thesis by blast
next
  case (cl_vote_reply i t p reply now rf v)
  with elect_inv_vote_reply assms(2) show ?thesis by blast
next
  case (cl_start i c rf r)
  with elect_inv_event [OF assms(2), of i "EvStart c"] role_le_Start [OF cl_start(4)] show ?thesis by simp
next
  case (cl_send i p t args)
  with assms(2) show ?thesis by (simp add: elect_inv_frame)
next
  case (cl_send_snap i p t sargs)
  with assms(2) show ?thesis by (simp add: elect_inv_frame)
next
  case (cl_append p args now rf reply)
  then have "elect_inv n (move p rf s)"
    using elect_inv_event [OF assms(2), of p "EvAppendEntries args now"] role_le_AppendEntries [OF cl_append(5)] by simp
  then show ?thesis unfolding cl_append(1) by (rule elect_inv_frame) simp_all
next
  case (cl_append_reply i p args reply rf)
  with elect_inv_event [OF assms(2), of i "EvAppendReply p (ae_Term args) args reply"] role_le_handleAppendReply [OF cl_append_reply(6)]
  show ?thesis by simp
next
  case (cl_snap p sargs now rf reply msg)
  then have "elect_inv n (move p rf s)"
    using elect_inv_event [OF assms(2), of p "EvInstallSnapshot sargs now"] role_le_InstallSnapshot [OF cl_snap(5)] by simp
  then show ?thesis unfolding cl_snap(1) by (rule elect_inv_frame) simp_all
next
  case (cl_snap_reply i p sargs reply rf)
  with elect_inv_event [OF assms(2), of i "EvSnapshotReply p (is_Term sargs) sargs reply"] role_le_handleSnapshotReply [OF cl_snap_reply(6)]
  show ?thesis by simp
next
  case (cl_compact i index snap rf)
  with elect_inv_event [OF assms(2), of i "EvSnapshot index snap"] role_le_Snapshot [OF cl_compact(5)] show ?thesis by simp
next
  case (cl_apply i rf msgs)
  with elect_inv_event [OF assms(2), of i EvApply] role_le_apply [OF cl_apply(4)] show ?thesis by simp
next
  case (cl_kill i)
  with elect_inv_event [OF assms(2), of i EvKill] role_le_Kill [of "nodes s i"] show ?thesis by simp
next
  case (cl_restart i now)
  with elect_inv_restart assms(2) show ?thesis by blast
qed

lemma cl_init_elect_inv: "elect_inv n (cl_init n now)"
proof -
  have "votedFor (Make n i MakePersister now) = -1" for i
    by (simp add: Make_def Let_def readPersist_def)
  then show ?thesis
    by (auto simp: cl_init_def elect_inv_def peers_ok_def history_ok_def candidate_ok_def Make_initial)
qed

lemma cl_run_elect_inv: "cl_run n s s' \<Longrightarrow> elect_inv n s \<Longrightarrow> elect_inv n s'"
  by (induction rule: cl_run.induct) (auto intro: cl_step_elect_inv)

section \<open>Election safety\<close>

text \<open>No step forgets a recorded vote.\<close>

lemma elect_inv_history_grows:
  assumes "elect_inv n s" "0 \<le> p" "p < n" "local_step (nodes s p) rf" "voted s q t = Some c"
  shows "record_vote p rf (voted s) q t = Some c"
  using others_inv_move(2) [OF assms(1) _ assms(4,5)] assms(2,3) by simp

lemma cl_step_moves:
  assumes "cl_step n s s'" "elect_inv n s"
  obtains "voted s' = voted s" "nodes s' = nodes s"
  | p rf where "0 \<le> p" "p < n" "local_step (nodes s p) rf" "voted s' = record_vote p rf (voted s)"
      "nodes s' = (nodes s)(p := rf)"
  using assms
proof (cases rule: cl_step.cases)
  case (cl_elect i now rnd rf args)
  show ?thesis by (rule that(2) [of i rf]) (use cl_elect elect_inv_peer [OF assms(2)] in \<open>auto intro: ticker_local\<close>)
next
  case (cl_vote p i t args now rf reply)
  show ?thesis by (rule that(2) [of p rf]) (use cl_vote elect_inv_peer [OF assms(2)] in \<open>auto intro: RequestVote_local\<close>)
next
  case (cl_vote_reply i t p reply now rf v)
  with that(2) [of i rf] handleVoteReply_local [of "nodes s i" "votes s i t" t reply now] elect_inv_peer [OF assms(2)]
  show ?thesis by simp
next
  case (cl_start i c rf r)
  with that(2) [of i rf] Start_local [of "nodes s i" c] elect_inv_peer [OF assms(2)] show ?thesis by simp
next
  case (cl_append p args now rf reply)
  show ?thesis by (rule that(2) [of p rf]) (use cl_append elect_inv_peer [OF assms(2)] in \<open>auto intro: AppendEntries_local\<close>)
next
  case (cl_append_reply i p args reply rf)
  show ?thesis by (rule that(2) [of i rf]) (use cl_append_reply elect_inv_peer [OF assms(2)] in \<open>auto intro: handleAppendReply_local\<close>)
next
  case (cl_snap p sargs now rf reply msg)
  show ?thesis by (rule that(2) [of p rf]) (use cl_snap elect_inv_peer [OF assms(2)] in \<open>auto intro: InstallSnapshot_local\<close>)
next
  case (cl_snap_reply i p sargs reply rf)
  show ?thesis by (rule that(2) [of i rf]) (use cl_snap_reply elect_inv_peer [OF assms(2)] in \<open>auto intro: handleSnapshotReply_local\<close>)
next
  case (cl_compact i index snap rf)
  show ?thesis by (rule that(2) [of i rf]) (use cl_compact elect_inv_peer [OF assms(2)] in \<open>auto intro: Snapshot_local\<close>)
next
  case (cl_apply i rf msgs)
  with that(2) [of i rf] handle_local [of EvApply "nodes s i"] elect_inv_peer [OF assms(2)] show ?thesis by simp
next
  case (cl_kill i)
  with that(2) [of i] handle_local [of EvKill "nodes s i"] elect_inv_peer [OF assms(2)] show ?thesis by simp
next
  case (cl_restart i now)
  with that(2) [of i] peer_run_local [OF run_restart [OF run_refl], of "nodes s i" i n now]
    elect_inv_peer [OF assms(2)] show ?thesis by simp
qed simp_all

lemma cl_step_history:
  assumes "cl_step n s s'" "elect_inv n s" "voted s q t = Some c" shows "voted s' q t = Some c"
  using assms(1,2)
proof (cases rule: cl_step_moves)
  case 1
  with assms(3) show ?thesis by simp
next
  case (2 p rf)
  with elect_inv_history_grows [OF assms(2)] assms(3) show ?thesis by simp
qed

lemma cl_run_history:
  "cl_run n s s' \<Longrightarrow> elect_inv n s \<Longrightarrow> voted s q t = Some c \<Longrightarrow> voted s' q t = Some c"
  by (induction rule: cl_run.induct) (auto intro: cl_step_history cl_run_elect_inv)

lemma cl_step_term: "cl_step n s s' \<Longrightarrow> elect_inv n s \<Longrightarrow> currentTerm (nodes s q) \<le> currentTerm (nodes s' q)"
  by (erule (1) cl_step_moves) (auto simp: local_step_def vote_le_def)

lemma cl_run_term: "cl_run n s s' \<Longrightarrow> elect_inv n s \<Longrightarrow> currentTerm (nodes s q) \<le> currentTerm (nodes s' q)"
  by (induction rule: cl_run.induct) (auto intro: order_trans cl_step_term cl_run_elect_inv)

text \<open>Two majorities share a peer.\<close>

lemma majorities_intersect:
  assumes "0 < n" "A \<subseteq> in_cluster n" "B \<subseteq> in_cluster n" "n div 2 < int (card A)" "n div 2 < int (card B)"
  shows "A \<inter> B \<noteq> {}"
proof
  assume "A \<inter> B = {}"
  have "finite A" "finite B" using assms(2,3) by (meson finite_subset in_cluster_simps(2))+
  with \<open>A \<inter> B = {}\<close> have "card A + card B = card (A \<union> B)" by (simp add: card_Un_disjoint)
  also have "\<dots> \<le> nat n" using card_mono [of "in_cluster n" "A \<union> B"] assms(2,3) by simp
  finally show False using assms(1,4,5) by linarith
qed

lemma leader_unique:
  assumes "elect_inv n s" and "cl_run n s s'"
    and "0 \<le> i" "i < n" "role (nodes s i) = Leader" and "0 \<le> j" "j < n" "role (nodes s' j) = Leader"
    and "currentTerm (nodes s i) = currentTerm (nodes s' j)"
  shows "i = j"
proof -
  let ?t = "currentTerm (nodes s i)"
  have inv: "elect_inv n s'" using cl_run_elect_inv [OF assms(2,1)] .
  have "supporters n s i ?t \<subseteq> supporters n s' i ?t"
    by (rule supporters_mono) (rule cl_run_history [OF assms(2,1)])
  then have "card (supporters n s i ?t) \<le> card (supporters n s' i ?t)" by (simp add: card_mono)
  moreover have "n div 2 < int (card (supporters n s i ?t))"
    using assms(1,3-5) by (auto simp: elect_inv_def candidate_ok_def Let_def)
  moreover have "n div 2 < int (card (supporters n s' j ?t))"
    using inv assms(6-9) by (auto simp: elect_inv_def candidate_ok_def Let_def)
  ultimately have "supporters n s' i ?t \<inter> supporters n s' j ?t \<noteq> {}"
    using assms(3,4) by (intro majorities_intersect [of n]) (auto simp: supporters_def)
  then show ?thesis by (auto simp: supporters_def)
qed

text \<open>
  C9: Election Safety.  In every run of a cluster, whatever is lost, delayed, reordered or repeated and
  whoever crashes and restarts, two peers that are leaders of the same term, at the same moment or at
  different ones, are the same peer.
\<close>

theorem election_safety:
  assumes "cl_run n (cl_init n now) s" and "cl_run n s s'"
    and "0 \<le> i" "i < n" "role (nodes s i) = Leader" and "0 \<le> j" "j < n" "role (nodes s' j) = Leader"
    and "currentTerm (nodes s i) = currentTerm (nodes s' j)"
  shows "i = j"
  using cl_run_elect_inv [OF assms(1) cl_init_elect_inv] assms(2-9) by (rule leader_unique)

text \<open>A run of three peers in which peer 0 is elected by peer 1.\<close>

definition demo_args :: RequestVoteArgs where
  "demo_args = \<lparr>rv_Term = 1, rv_CandidateId = 0, rv_LastLogIndex = 0, rv_LastLogTerm = 0\<rparr>"

lemmas cl_eval = ticker_tick_def startElection_def RequestVote_def handleVoteReply_def becomeLeader_def
  lastLogTerm_def lastLogIndex_def logUpToDate_def go_nth_def Make_def readPersist_def Let_def demo_args_def

lemma demo_cluster_run:
  "\<exists>s. cl_run 3 (cl_init 3 0 :: (nat, nat) cluster) s \<and> role (nodes s 0) = Leader \<and> currentTerm (nodes s 0) = 1"
proof -
  let ?s0 = "cl_init 3 0 :: (nat, nat) cluster"
  obtain rf0 where rf0: "ticker_tick (nodes ?s0 0) 1000 0 = Some (rf0, Some demo_args)"
    and rf0': "role rf0 = Candidate" "currentTerm rf0 = 1" "me rf0 = 0" "npeers rf0 = 3"
    by (simp add: cl_init_def cl_eval)
  define s1 where "s1 = set_votes 0 (rv_Term demo_args) 1 (open_calls rf0 demo_args (move 0 rf0 ?s0))"
  have step1: "cl_step 3 ?s0 s1" unfolding s1_def by (rule cl_elect [OF _ _ rf0]) simp_all
  have call1: "vote_calls s1 0 1 1 = VSent demo_args"
    using rf0' by (simp add: s1_def electionPeers_def demo_args_def)
  obtain rf1 where rf1: "RequestVote (nodes s1 1) demo_args 0 = Some (rf1, \<lparr>rvr_Term = 1, rvr_VoteGranted = True\<rparr>)"
    by (simp add: s1_def cl_init_def cl_eval)
  define s2 where "s2 = set_call 0 1 1 (VReplied \<lparr>rvr_Term = 1, rvr_VoteGranted = True\<rparr>) (move 1 rf1 s1)"
  have step2: "cl_step 3 s1 s2" unfolding s2_def by (rule cl_vote [OF _ _ call1 rf1]) simp_all
  have n2: "nodes s2 0 = rf0" "votes s2 0 1 = 1" by (simp_all add: s2_def s1_def demo_args_def)
  obtain rf2 where rf2: "handleVoteReply (nodes s2 0) (votes s2 0 1) 1 \<lparr>rvr_Term = 1, rvr_VoteGranted = True\<rparr> 0 = (rf2, 2)"
    and rf2': "role rf2 = Leader" "currentTerm rf2 = 1"
    using rf0' n2 by (simp add: handleVoteReply_def becomeLeader_def)
  define s3 where "s3 = set_votes 0 1 2 (set_call 0 1 1 VDone (move 0 rf2 s2))"
  have step3: "cl_step 3 s2 s3" unfolding s3_def by (rule cl_vote_reply [OF _ _ _ rf2]) (simp_all add: s2_def)
  have "cl_run 3 ?s0 s3" using cl_trans [OF cl_trans [OF cl_trans [OF cl_refl step1] step2] step3] .
  moreover have "nodes s3 0 = rf2" by (simp add: s3_def)
  ultimately show ?thesis using rf2' by blast
qed

theorem election_safety_witness:
  "\<exists>s. cl_run 3 (cl_init 3 0 :: (nat, nat) cluster) s
     \<and> {j \<in> in_cluster 3. role (nodes s j) = Leader \<and> currentTerm (nodes s j) = 1} = {0}"
proof -
  obtain s where s: "cl_run 3 (cl_init 3 0 :: (nat, nat) cluster) s" "role (nodes s 0) = Leader" "currentTerm (nodes s 0) = 1"
    using demo_cluster_run by blast
  have "0 = j" if "j \<in> in_cluster 3" "role (nodes s j) = Leader" "currentTerm (nodes s j) = 1" for j
    by (rule election_safety [OF s(1) cl_refl _ _ s(2)]) (use that s in simp_all)
  with s have "{j \<in> in_cluster 3. role (nodes s j) = Leader \<and> currentTerm (nodes s j) = 1} = {0}"
    by (intro set_eqI) auto
  with s(1) show ?thesis by blast
qed

text \<open>
  A cluster of a single peer never elects a leader: the votes are only counted when a reply comes
  in, and there is nobody to reply.
\<close>

theorem single_peer_never_leads:
  assumes "cl_run 1 (cl_init 1 now) s"
  shows "role (nodes s 0) \<noteq> Leader"
proof -
  have "elect_inv 1 s \<and> role (nodes s 0) \<noteq> Leader" using assms
  proof (induction "cl_init 1 now :: ('a, 'b) cluster" s rule: cl_run.induct)
    case cl_refl
    show ?case using cl_init_elect_inv [of 1 now] by (simp add: cl_init_def)
  next
    case (cl_trans s s')
    then have inv: "elect_inv 1 s" and nl: "role (nodes s 0) \<noteq> Leader" by blast+
    have inv': "elect_inv 1 s'" by (rule cl_step_elect_inv [OF cl_trans(3) inv])
    have nl': "Leader \<noteq> role (nodes s p)" if "0 \<le> p" "p < 1" for p
      using nl that by (cases "p = 0") auto
    from cl_trans(3) have "role (nodes s' 0) \<noteq> Leader"
    proof (cases rule: cl_step.cases)
      case (cl_elect i now rnd rf args)
      with nl ticker_elects(1) [OF cl_elect(4)] elect_inv_peer(1) [OF inv] show ?thesis by auto
    next
      case (cl_vote_reply i t p reply now rf v)
      with elect_inv_call [OF inv, of i t p] show ?thesis by simp
    next
      case (cl_kill i)
      with nl' [of i] nl show ?thesis by (auto simp: Kill_def)
    qed (use nl nl' elect_inv_peer(1) [OF inv] in \<open>auto simp: role_le_def Kill_def dest!: role_rules\<close>)
    with inv' show ?case by blast
  qed
  then show ?thesis by blast
qed

theorem single_peer_never_leads_witness: "role (nodes (cl_init 1 0 :: (nat, nat) cluster) 0) \<noteq> Leader"
  by (rule single_peer_never_leads [OF cl_refl])

end
