(* ===== verification/RaftAbs.thy ===== *)
theory RaftAbs
  imports Raft
begin

text \<open>
  Raft as an abstract protocol: what the peers of \<^verbatim>\<open>raft1/raft.go\<close> do to terms, votes and logs, without
  messages, timers, indices of followers, compaction or restarts.  A peer has a term, votes and a full log;
  the log of each term's leader, the log each candidate stood with, the voters that elected a leader and how
  far each peer has agreed with each leader are remembered for ever.  The six steps are the ones by which
  the logs change: entering a term, standing, voting, being elected, accepting a command, and taking over a
  prefix of the leader's log.  The invariants give Log Matching, and with quorums that intersect Leader
  Completeness: an entry of the leader's term that a quorum has taken over is in the log of every later leader.
\<close>

section \<open>Logs\<close>

text \<open>Indices start at 1; the term at index 0, before the log, is 0.\<close>

definition tm :: "'c LogEntry list \<Rightarrow> nat \<Rightarrow> int" where
  "tm L k = (if k = 0 then 0 else le_Term (L ! (k - 1)))"

text \<open>Two logs hold the same first \<open>k\<close> entries.\<close>

definition agree :: "nat \<Rightarrow> 'a list \<Rightarrow> 'a list \<Rightarrow> bool" where
  "agree k F G \<longleftrightarrow> k \<le> length F \<and> k \<le> length G \<and> take k F = take k G"

definition upToDate :: "'c LogEntry list \<Rightarrow> 'c LogEntry list \<Rightarrow> bool" where
  "upToDate cl L \<longleftrightarrow> tm L (length L) < tm cl (length cl)
     \<or> tm L (length L) = tm cl (length cl) \<and> length L \<le> length cl"

text \<open>A peer takes over the first \<open>m\<close> entries of the leader's log: it keeps its log if it has them already.\<close>

definition adopt :: "nat \<Rightarrow> 'a list \<Rightarrow> 'a list \<Rightarrow> 'a list" where
  "adopt m F L = (if agree m F L then F else take m L)"

lemma tm_0 [simp]: "tm L 0 = 0"
  by (simp add: tm_def)

lemma tm_append [simp]: "k \<le> length L \<Longrightarrow> tm (L @ M) k = tm L k"
  by (auto simp: tm_def nth_append)

lemma tm_take [simp]: "k \<le> m \<Longrightarrow> tm (take m L) k = tm L k"
  by (auto simp: tm_def)

lemma tm_snoc [simp]: "tm (L @ [e]) (Suc (length L)) = le_Term e"
  by (simp add: tm_def)

lemma agree_0 [simp]: "agree 0 F G"
  by (simp add: agree_def)

lemma agree_refl [simp]: "agree k F F \<longleftrightarrow> k \<le> length F"
  by (simp add: agree_def)

lemma agree_sym: "agree k F G \<Longrightarrow> agree k G F"
  by (simp add: agree_def)

lemma agree_trans: "agree k F G \<Longrightarrow> agree k G H \<Longrightarrow> agree k F H"
  by (simp add: agree_def)

lemma agree_mono: "agree k F G \<Longrightarrow> j \<le> k \<Longrightarrow> agree j F G"
  unfolding agree_def by (metis dual_order.trans min.absorb1 take_take)

lemma agree_length: "agree k F G \<Longrightarrow> k \<le> length F \<and> k \<le> length G"
  by (simp add: agree_def)

lemma agree_append [simp]: "k \<le> length G \<Longrightarrow> agree k F (G @ H) \<longleftrightarrow> agree k F G"
  by (auto simp: agree_def)

lemma agree_append_left [simp]: "k \<le> length F \<Longrightarrow> agree k (F @ H) G \<longleftrightarrow> agree k F G"
  by (auto simp: agree_def)

lemma agree_appendI: "agree k F G \<Longrightarrow> agree k (F @ H) G"
  by (simp add: agree_length)

lemma agree_take [simp]: "k \<le> m \<Longrightarrow> agree k F (take m G) \<longleftrightarrow> agree k F G"
  by (auto simp: agree_def min_absorb1)

lemma agree_take_left [simp]: "k \<le> m \<Longrightarrow> agree k (take m F) G \<longleftrightarrow> agree k F G"
  by (auto simp: agree_def min_absorb1)

lemma agree_nth: "agree k F G \<Longrightarrow> i < k \<Longrightarrow> F ! i = G ! i"
  unfolding agree_def by (metis nth_take)

lemma agree_tm: "agree k F G \<Longrightarrow> j \<le> k \<Longrightarrow> tm F j = tm G j"
  using agree_nth [of k F G "j - 1"] by (auto simp: tm_def)

lemma agree_all_nth: "k \<le> length F \<Longrightarrow> k \<le> length G \<Longrightarrow> (\<And>i. i < k \<Longrightarrow> F ! i = G ! i) \<Longrightarrow> agree k F G"
  by (simp add: agree_def list_eq_iff_nth_eq)

text \<open>What a peer shares with the leader it keeps, and it has the entries it takes over.\<close>

lemma adopt_keeps:
  assumes "agree k F L" shows "agree k (adopt m F L) F"
proof (cases "agree m F L")
  case False
  with assms have "k < m" using agree_mono not_le by blast
  with False assms show ?thesis by (simp add: adopt_def agree_sym)
qed (use assms in \<open>simp add: adopt_def agree_length\<close>)

lemma adopt_agrees: "m \<le> length L \<Longrightarrow> agree m (adopt m F L) L"
  by (simp add: adopt_def)

lemma adopt_same [simp]: "m \<le> length L \<Longrightarrow> adopt m L L = L"
  by (simp add: adopt_def)

section \<open>The protocol\<close>

record 'c araft =
  aterm :: "int \<Rightarrow> int"
  avoted :: "int \<Rightarrow> int \<Rightarrow> int option"
  alog :: "int \<Rightarrow> 'c LogEntry list"
  acand :: "int \<Rightarrow> int \<Rightarrow> 'c LogEntry list option"
  alead :: "int \<Rightarrow> int option"
  abase :: "int \<Rightarrow> 'c LogEntry list option"
  allog :: "int \<Rightarrow> 'c LogEntry list"
  avoters :: "int \<Rightarrow> int set"
  acked :: "int \<Rightarrow> int \<Rightarrow> nat"

definition upd2 :: "('a \<Rightarrow> 'b \<Rightarrow> 'v) \<Rightarrow> 'a \<Rightarrow> 'b \<Rightarrow> 'v \<Rightarrow> 'a \<Rightarrow> 'b \<Rightarrow> 'v" where
  "upd2 f x y v = f(x := (f x)(y := v))"

lemma upd2_apply [simp]: "upd2 f x y v a b = (if a = x \<and> b = y then v else f a b)"
  by (simp add: upd2_def)

definition a_term :: "int \<Rightarrow> int \<Rightarrow> 'c araft \<Rightarrow> 'c araft" where
  "a_term p t A = A\<lparr>aterm := (aterm A)(p := t)\<rparr>"

definition a_stand :: "int \<Rightarrow> int \<Rightarrow> 'c araft \<Rightarrow> 'c araft" where
  "a_stand p t A = A\<lparr>aterm := (aterm A)(p := t), avoted := upd2 (avoted A) p t (Some p),
     acand := upd2 (acand A) t p (Some (alog A p))\<rparr>"

definition a_vote :: "int \<Rightarrow> int \<Rightarrow> int \<Rightarrow> 'c araft \<Rightarrow> 'c araft" where
  "a_vote p t c A = A\<lparr>aterm := (aterm A)(p := t), avoted := upd2 (avoted A) p t (Some c)\<rparr>"

definition a_lead :: "int \<Rightarrow> int \<Rightarrow> int set \<Rightarrow> 'c araft \<Rightarrow> 'c araft" where
  "a_lead c t Q A = A\<lparr>alead := (alead A)(t := Some c), abase := (abase A)(t := Some (alog A c)),
     allog := (allog A)(t := alog A c), avoters := (avoters A)(t := Q), acked := upd2 (acked A) c t (length (alog A c))\<rparr>"

definition a_append :: "int \<Rightarrow> int \<Rightarrow> 'c LogEntry \<Rightarrow> 'c araft \<Rightarrow> 'c araft" where
  "a_append c t e A = A\<lparr>alog := (alog A)(c := alog A c @ [e]), allog := (allog A)(t := allog A t @ [e]),
     acked := upd2 (acked A) c t (Suc (length (alog A c)))\<rparr>"

definition a_adopt :: "int \<Rightarrow> int \<Rightarrow> nat \<Rightarrow> 'c araft \<Rightarrow> 'c araft" where
  "a_adopt p t m A = A\<lparr>aterm := (aterm A)(p := t), alog := (alog A)(p := adopt m (alog A p) (allog A t)),
     acked := upd2 (acked A) p t (max (acked A p t) m)\<rparr>"

lemmas a_ops = a_term_def a_stand_def a_vote_def a_lead_def a_append_def a_adopt_def

inductive a_step :: "(int set \<Rightarrow> bool) \<Rightarrow> 'c araft \<Rightarrow> 'c araft \<Rightarrow> bool" for qm where
  s_term: "aterm A p < t \<Longrightarrow> a_step qm A (a_term p t A)"
| s_stand: "aterm A p < t \<Longrightarrow> a_step qm A (a_stand p t A)"
| s_vote: "aterm A p \<le> t \<Longrightarrow> avoted A p t = None \<or> avoted A p t = Some c \<Longrightarrow> acand A t c = Some cl \<Longrightarrow>
    upToDate cl (alog A p) \<Longrightarrow> a_step qm A (a_vote p t c A)"
| s_lead: "aterm A c = t \<Longrightarrow> acand A t c = Some (alog A c) \<Longrightarrow> abase A t = None \<Longrightarrow> qm Q \<Longrightarrow>
    (\<And>p. p \<in> Q \<Longrightarrow> avoted A p t = Some c) \<Longrightarrow> a_step qm A (a_lead c t Q A)"
| s_append: "alead A t = Some c \<Longrightarrow> aterm A c = t \<Longrightarrow> alog A c = allog A t \<Longrightarrow> le_Term e = t \<Longrightarrow>
    a_step qm A (a_append c t e A)"
| s_adopt: "abase A t \<noteq> None \<Longrightarrow> aterm A p \<le> t \<Longrightarrow> m \<le> length (allog A t) \<Longrightarrow> a_step qm A (a_adopt p t m A)"

inductive a_run :: "(int set \<Rightarrow> bool) \<Rightarrow> 'c araft \<Rightarrow> 'c araft \<Rightarrow> bool" for qm where
  a_refl: "a_run qm A A"
| a_trans: "a_run qm A A' \<Longrightarrow> a_step qm A' A'' \<Longrightarrow> a_run qm A A''"

lemma a_run_step: "a_step qm A A' \<Longrightarrow> a_run qm A A'"
  by (rule a_trans [OF a_refl])

lemma a_run_append: "a_run qm A' A'' \<Longrightarrow> a_run qm A A' \<Longrightarrow> a_run qm A A''"
  by (induction rule: a_run.induct) (auto intro: a_trans)

definition a_init :: "'c araft" where
  "a_init = \<lparr>aterm = (\<lambda>_. 0), avoted = (\<lambda>_ _. None), alog = (\<lambda>_. []), acand = (\<lambda>_ _. None), alead = (\<lambda>_. None),
     abase = (\<lambda>_. None), allog = (\<lambda>_. []), avoters = (\<lambda>_. {}), acked = (\<lambda>_ _. 0)\<rparr>"

section \<open>Invariants\<close>

text \<open>Every entry of a log was written by the leader of its term, and the log agrees with that leader's up to there.\<close>

definition log_ok :: "'c araft \<Rightarrow> int \<Rightarrow> 'c LogEntry list \<Rightarrow> bool" where
  "log_ok A b F \<longleftrightarrow> (\<forall>k. 1 \<le> k \<and> k \<le> length F \<longrightarrow> 1 \<le> tm F k \<and> tm F k \<le> b
     \<and> abase A (tm F k) \<noteq> None \<and> agree k F (allog A (tm F k)))"

text \<open>A leader of a term in \<open>(t, b]\<close> was elected without the first \<open>k\<close> entries of the leader of \<open>t\<close>.\<close>

definition conflict :: "'c araft \<Rightarrow> int \<Rightarrow> nat \<Rightarrow> int \<Rightarrow> bool" where
  "conflict A t k b \<longleftrightarrow> (\<exists>u B. t < u \<and> u \<le> b \<and> abase A u = Some B \<and> \<not> agree k B (allog A t))"

text \<open>Index \<open>k\<close> holds an entry of the leader's own term that the peer has taken over from it.\<close>

definition took :: "'c araft \<Rightarrow> int \<Rightarrow> int \<Rightarrow> nat \<Rightarrow> bool" where
  "took A p t k \<longleftrightarrow> 1 \<le> k \<and> k \<le> acked A p t \<and> tm (allog A t) k = t"

definition inv_logs :: "'c araft \<Rightarrow> bool" where
  "inv_logs A \<longleftrightarrow> (\<forall>p. 0 \<le> aterm A p \<and> log_ok A (aterm A p) (alog A p))"

definition inv_leaders :: "'c araft \<Rightarrow> bool" where
  "inv_leaders A \<longleftrightarrow> (\<forall>t B. abase A t = Some B \<longrightarrow> 1 \<le> t \<and> log_ok A t (allog A t) \<and> (\<forall>e \<in> set B. le_Term e < t)
     \<and> (\<exists>R. allog A t = B @ R \<and> (\<forall>e \<in> set R. le_Term e = t))
     \<and> (\<exists>c. alead A t = Some c \<and> acand A t c = Some B))"

definition inv_cands :: "'c araft \<Rightarrow> bool" where
  "inv_cands A \<longleftrightarrow> (\<forall>t c cl. acand A t c = Some cl \<longrightarrow> 1 \<le> t \<and> t \<le> aterm A c \<and> log_ok A (t - 1) cl)"

definition inv_votes :: "'c araft \<Rightarrow> bool" where
  "inv_votes A \<longleftrightarrow> (\<forall>p t c. avoted A p t = Some c \<longrightarrow> t \<le> aterm A p \<and> acand A t c \<noteq> None)"

definition inv_elected :: "(int set \<Rightarrow> bool) \<Rightarrow> 'c araft \<Rightarrow> bool" where
  "inv_elected qm A \<longleftrightarrow> (\<forall>t. (alead A t = None \<longleftrightarrow> abase A t = None)
     \<and> (abase A t \<noteq> None \<longrightarrow> qm (avoters A t) \<and> (\<forall>p \<in> avoters A t. avoted A p t = alead A t)))"

definition inv_acked :: "'c araft \<Rightarrow> bool" where
  "inv_acked A \<longleftrightarrow> (\<forall>p. (\<forall>t. (aterm A p < t \<or> abase A t = None \<longrightarrow> acked A p t = 0) \<and> acked A p t \<le> length (allog A t))
     \<and> agree (acked A p (aterm A p)) (alog A p) (allog A (aterm A p)))"

definition inv_kept :: "'c araft \<Rightarrow> bool" where
  "inv_kept A \<longleftrightarrow> (\<forall>p t k. t < aterm A p \<longrightarrow> took A p t k \<longrightarrow> agree k (alog A p) (allog A t) \<or> conflict A t k (aterm A p))"

definition inv_voted :: "'c araft \<Rightarrow> bool" where
  "inv_voted A \<longleftrightarrow> (\<forall>p u c cl t k. avoted A p u = Some c \<longrightarrow> acand A u c = Some cl \<longrightarrow> abase A u = None \<longrightarrow> t < u \<longrightarrow>
     took A p t k \<longrightarrow> agree k cl (allog A t) \<or> conflict A t k (u - 1))"

definition inv_complete :: "'c araft \<Rightarrow> bool" where
  "inv_complete A \<longleftrightarrow> (\<forall>p u B t k. abase A u = Some B \<longrightarrow> p \<in> avoters A u \<longrightarrow> t < u \<longrightarrow>
     took A p t k \<longrightarrow> agree k B (allog A t) \<or> conflict A t k (u - 1))"

definition a_inv :: "(int set \<Rightarrow> bool) \<Rightarrow> 'c araft \<Rightarrow> bool" where
  "a_inv qm A \<longleftrightarrow> inv_logs A \<and> inv_leaders A \<and> inv_cands A \<and> inv_votes A \<and> inv_elected qm A \<and> inv_acked A
     \<and> inv_kept A \<and> inv_voted A \<and> inv_complete A"

lemmas a_invs = inv_logs_def inv_leaders_def inv_cands_def inv_votes_def inv_elected_def inv_acked_def
  inv_kept_def inv_voted_def inv_complete_def

lemma a_init_inv: "a_inv qm a_init"
  by (simp add: a_inv_def a_invs a_init_def log_ok_def took_def)

section \<open>Growing histories\<close>

text \<open>No step changes the log a leader was elected with, and leaders' logs only grow.\<close>

definition grows :: "'c araft \<Rightarrow> 'c araft \<Rightarrow> bool" where
  "grows A A' \<longleftrightarrow> (\<forall>t B. abase A t = Some B \<longrightarrow> abase A' t = Some B \<and> (\<exists>R. allog A' t = allog A t @ R))"

lemma growsD:
  assumes "grows A A'" "abase A t \<noteq> None"
  shows "abase A' t = abase A t" "\<exists>R. allog A' t = allog A t @ R" "length (allog A t) \<le> length (allog A' t)"
proof -
  from assms obtain B where B: "abase A t = Some B" by auto
  with assms show 1: "abase A' t = abase A t" "\<exists>R. allog A' t = allog A t @ R" by (auto simp: grows_def)
  from 1(2) show "length (allog A t) \<le> length (allog A' t)" by auto
qed

lemma grows_agree:
  assumes "grows A A'" "abase A t \<noteq> None" "k \<le> length (allog A t)"
  shows "agree k F (allog A' t) = agree k F (allog A t)" "tm (allog A' t) k = tm (allog A t) k"
  using growsD(2) [OF assms(1,2)] assms(3) by auto

lemma log_ok_grows:
  assumes "log_ok A b F" "grows A A'" "b \<le> b'"
  shows "log_ok A' b' F"
  unfolding log_ok_def
proof (intro allI impI)
  fix k assume k: "1 \<le> k \<and> k \<le> length F"
  with assms(1) have F: "1 \<le> tm F k" "tm F k \<le> b" "abase A (tm F k) \<noteq> None" "agree k F (allog A (tm F k))"
    by (auto simp: log_ok_def)
  have "agree k F (allog A' (tm F k))"
    using grows_agree(1) [OF assms(2) F(3)] F(4) agree_length [OF F(4)] by blast
  with F assms(3) growsD(1) [OF assms(2) F(3)]
  show "1 \<le> tm F k \<and> tm F k \<le> b' \<and> abase A' (tm F k) \<noteq> None \<and> agree k F (allog A' (tm F k))" by auto
qed

lemma conflict_grows:
  assumes "conflict A t k b" "grows A A'" "b \<le> b'" "abase A t \<noteq> None" "k \<le> length (allog A t)"
  shows "conflict A' t k b'"
proof -
  from assms(1) obtain u B where "t < u" "u \<le> b" "abase A u = Some B" "\<not> agree k B (allog A t)"
    by (auto simp: conflict_def)
  with assms(2-5) growsD(1) [OF assms(2), of u] grows_agree(1) [OF assms(2,4,5), of B] show ?thesis
    by (auto simp: conflict_def intro!: exI [of _ u])
qed

lemma a_step_grows: "a_step qm A A' \<Longrightarrow> grows A A'"
  by (induction rule: a_step.induct) (auto simp: grows_def a_ops)

lemma a_run_grows: "a_run qm A A' \<Longrightarrow> grows A A'"
proof (induction rule: a_run.induct)
  case a_refl
  show ?case by (simp add: grows_def)
next
  case (a_trans A A' A'')
  have "grows A' A''" by (rule a_step_grows [OF a_trans(2)])
  with a_trans(3) show ?case unfolding grows_def by (metis append.assoc)
qed

lemma a_invD:
  assumes "a_inv qm A"
  shows "inv_logs A" "inv_leaders A" "inv_cands A" "inv_votes A" "inv_elected qm A" "inv_acked A"
    "inv_kept A" "inv_voted A" "inv_complete A"
  using assms by (auto simp: a_inv_def)

lemma log_okD:
  assumes "log_ok A b F" "1 \<le> k" "k \<le> length F"
  shows "1 \<le> tm F k" "tm F k \<le> b" "abase A (tm F k) \<noteq> None" "agree k F (allog A (tm F k))"
  using assms by (auto simp: log_ok_def)

lemma log_ok_take: "log_ok A b L \<Longrightarrow> log_ok A b (take m L)"
  by (simp add: log_ok_def)

lemma log_ok_adopt: "log_ok A b F \<Longrightarrow> log_ok A b L \<Longrightarrow> log_ok A b (adopt m F L)"
  by (simp add: adopt_def log_ok_take)

lemma inv_leadersD:
  assumes "inv_leaders A" "abase A t = Some B"
  shows "1 \<le> t" "log_ok A t (allog A t)" "\<And>e. e \<in> set B \<Longrightarrow> le_Term e < t" "\<exists>R. allog A t = B @ R"
    "k \<le> length B \<Longrightarrow> agree k F (allog A t) = agree k F B" "length B \<le> length (allog A t)"
    "\<exists>c. alead A t = Some c \<and> acand A t c = Some B"
  using assms by (auto simp: inv_leaders_def) force+

lemma inv_ackedD:
  assumes "inv_acked A"
  shows "aterm A p < t \<Longrightarrow> acked A p t = 0" "abase A t = None \<Longrightarrow> acked A p t = 0"
    "acked A p t \<le> length (allog A t)" "agree (acked A p (aterm A p)) (alog A p) (allog A (aterm A p))"
  using assms by (auto simp: inv_acked_def)

lemma inv_electedD:
  assumes "inv_elected qm A"
  shows "(alead A t = None) = (abase A t = None)" "abase A t \<noteq> None \<Longrightarrow> qm (avoters A t)"
    "abase A t \<noteq> None \<Longrightarrow> p \<in> avoters A t \<Longrightarrow> avoted A p t = alead A t"
  using assms unfolding inv_elected_def by blast+

text \<open>An entry taken over was written by an elected leader, in a term the peer has reached.\<close>

lemma tookD:
  assumes "inv_acked A" "took A p t k"
  shows "abase A t \<noteq> None" "t \<le> aterm A p" "1 \<le> k" "k \<le> length (allog A t)" "tm (allog A t) k = t"
proof -
  from assms(2) have k: "1 \<le> k" "k \<le> acked A p t" and tm: "tm (allog A t) k = t" by (simp_all add: took_def)
  from k inv_ackedD(2) [OF assms(1), where p = p and t = t] show "abase A t \<noteq> None" by auto
  from k inv_ackedD(1) [OF assms(1), where p = p and t = t] show "t \<le> aterm A p" by (cases "t \<le> aterm A p") auto
  from k inv_ackedD(3) [OF assms(1), where p = p and t = t] show "k \<le> length (allog A t)" by simp
qed (use assms(2) in \<open>simp_all add: took_def\<close>)

text \<open>What a peer has taken over in a past term or in its own is still in its log, unless there was a conflict.\<close>

lemma took_kept:
  assumes "inv_acked A" "inv_kept A" "took A p t k"
  shows "agree k (alog A p) (allog A t) \<or> t < aterm A p \<and> conflict A t k (aterm A p)"
proof (cases "t = aterm A p")
  case True
  with assms(3) inv_ackedD(4) [OF assms(1), of p] show ?thesis by (auto simp: took_def intro: agree_mono)
next
  case False
  with tookD(2) [OF assms(1,3)] have "t < aterm A p" by simp
  with assms(2,3) show ?thesis by (auto simp: inv_kept_def)
qed

lemma took_grows:
  assumes "inv_acked A" "grows A A'" "took A' p t k" "acked A' p t = acked A p t"
  shows "took A p t k"
proof -
  from assms(3,4) have k: "1 \<le> k" "k \<le> acked A p t" by (auto simp: took_def)
  with inv_ackedD(2,3) [OF assms(1), where p = p and t = t]
  have "abase A t \<noteq> None" "k \<le> length (allog A t)" by auto
  from grows_agree(2) [OF assms(2) this] assms(3) k show ?thesis by (simp add: took_def)
qed

section \<open>Every step preserves the invariants\<close>

text \<open>A peer's past acknowledgements are fixed.\<close>

lemma a_step_acked: "a_step qm A A' \<Longrightarrow> t < aterm A' q \<Longrightarrow> acked A' q t = acked A q t"
  by (erule a_step.cases) (auto simp: a_ops)

lemma a_step_took:
  "a_step qm A A' \<Longrightarrow> inv_acked A \<Longrightarrow> t < aterm A' q \<Longrightarrow> took A' q t k \<Longrightarrow> took A q t k"
  by (rule took_grows [OF _ a_step_grows _ a_step_acked])

lemma a_step_aterm: "a_step qm A A' \<Longrightarrow> aterm A q \<le> aterm A' q"
  by (erule a_step.cases) (auto simp: a_ops)

lemma kept_grows:
  assumes "inv_acked A" "took A q t k" "grows A A'" "b \<le> b'" "agree k F (allog A t) \<or> conflict A t k b"
  shows "agree k F (allog A' t) \<or> conflict A' t k b'"
  using assms(5) grows_agree(1) [OF assms(3) tookD(1,4) [OF assms(1,2)]]
    conflict_grows [OF _ assms(3,4) tookD(1,4) [OF assms(1,2)]] by blast

lemma log_ok_snoc:
  assumes "log_ok A b (allog A b)" "abase A b \<noteq> None" "1 \<le> b" "allog A' b = allog A b @ [e]" "le_Term e = b" "grows A A'"
  shows "log_ok A' b (allog A b @ [e])"
  unfolding log_ok_def
proof (intro allI impI)
  fix k assume k: "1 \<le> k \<and> k \<le> length (allog A b @ [e])"
  show "1 \<le> tm (allog A b @ [e]) k \<and> tm (allog A b @ [e]) k \<le> b \<and> abase A' (tm (allog A b @ [e]) k) \<noteq> None
    \<and> agree k (allog A b @ [e]) (allog A' (tm (allog A b @ [e]) k))"
  proof (cases "k \<le> length (allog A b)")
    case True
    with k log_okD [OF log_ok_grows [OF assms(1,6) order_refl], of k] show ?thesis by auto
  next
    case False
    with k have "k = Suc (length (allog A b))" by simp
    with assms growsD(1) [OF assms(6,2)] show ?thesis by simp
  qed
qed

lemma inv_logs_step:
  assumes st: "a_step qm A A'" and inv: "a_inv qm A" shows "inv_logs A'"
proof -
  note gr = a_step_grows [OF st] and L = a_invD(1) [OF inv, unfolded inv_logs_def]
  have old: "log_ok A' (aterm A' p) (alog A p)" for p
    by (rule log_ok_grows [OF _ gr a_step_aterm [OF st]]) (use L in blast)
  have nn: "0 \<le> aterm A' p" for p using L a_step_aterm [OF st, of p] by (meson order_trans)
  have "log_ok A' (aterm A' p) (alog A' p)" for p
    using st
  proof (cases rule: a_step.cases)
    case (s_append t c e)
    with inv_electedD(1) [OF a_invD(5) [OF inv], of t] obtain B where B: "abase A t = Some B" by auto
    have "log_ok A' t (allog A t @ [e])"
      by (rule log_ok_snoc [OF inv_leadersD(2) [OF a_invD(2) [OF inv] B] _ inv_leadersD(1) [OF a_invD(2) [OF inv] B] _ _ gr])
        (use B s_append in \<open>simp_all add: a_append_def\<close>)
    with s_append old show ?thesis by (simp add: a_append_def)
  next
    case (s_adopt t q m)
    then obtain B where B: "abase A t = Some B" by auto
    have "log_ok A' t (allog A t)" by (rule log_ok_grows [OF inv_leadersD(2) [OF a_invD(2) [OF inv] B] gr order_refl])
    with old [of p] s_adopt show ?thesis by (auto simp: a_adopt_def intro: log_ok_adopt)
  qed (use old [of p] in \<open>auto simp: a_ops\<close>)
  with nn show ?thesis by (simp add: inv_logs_def)
qed

lemma log_ok_terms:
  assumes "log_ok A b F" "e \<in> set F" shows "le_Term e \<le> b"
proof -
  from assms(2) obtain i where "i < length F" "e = F ! i" by (auto simp: in_set_conv_nth)
  with log_okD(2) [OF assms(1), of "Suc i"] show ?thesis by (simp add: tm_def)
qed

lemma no_cand: "inv_cands A \<Longrightarrow> aterm A p < t \<Longrightarrow> acand A t p = None"
  unfolding inv_cands_def by (metis leD option.exhaust)

lemma no_vote: "inv_votes A \<Longrightarrow> aterm A p < t \<Longrightarrow> avoted A p t = None"
  unfolding inv_votes_def by (metis leD option.exhaust)

lemma inv_leaders_step:
  assumes st: "a_step qm A A'" and inv: "a_inv qm A" shows "inv_leaders A'"
proof -
  note gr = a_step_grows [OF st] and I = a_invD [OF inv]
  let ?ok = "\<lambda>A t B. 1 \<le> t \<and> log_ok A t (allog A t) \<and> (\<forall>e \<in> set B. le_Term e < t)
     \<and> (\<exists>R. allog A t = B @ R \<and> (\<forall>e \<in> set R. le_Term e = t)) \<and> (\<exists>c. alead A t = Some c \<and> acand A t c = Some B)"
  have old: "?ok A t B" if "abase A t = Some B" for t B using I(2) that by (simp add: inv_leaders_def)
  have keep: "?ok A' t B" if "abase A t = Some B" "allog A' t = allog A t" "alead A' t = alead A t"
    "\<And>c. acand A t c = Some B \<Longrightarrow> acand A' t c = Some B" for t B
    using old [OF that(1)] that log_ok_grows [OF _ gr order_refl, of t "allog A t"] by auto
  have "?ok A' u B" if B: "abase A' u = Some B" for u B
    using st
  proof (cases rule: a_step.cases)
    case (s_stand p t)
    then have "acand A t p = None" using no_cand [OF I(3)] by blast
    with s_stand B show ?thesis by (intro keep) (auto simp: a_stand_def)
  next
    case (s_lead c t Q)
    show ?thesis
    proof (cases "u = t")
      case True
      with B s_lead(1) have u: "B = alog A c" "allog A' u = alog A c" by (simp_all add: a_lead_def)
      from s_lead I(3) have c: "1 \<le> t" "log_ok A (t - 1) (alog A c)" by (auto simp: inv_cands_def)
      have "le_Term e < t" if "e \<in> set (alog A c)" for e using log_ok_terms [OF c(2) that] by simp
      with u c(1) log_ok_grows [OF c(2) gr, of t] s_lead True show ?thesis by (simp add: a_lead_def)
    qed (use s_lead B in \<open>intro keep; simp add: a_lead_def\<close>)
  next
    case (s_append t c e)
    show ?thesis
    proof (cases "u = t")
      case True
      with B s_append(1) have u: "abase A t = Some B" by (simp add: a_append_def)
      have "log_ok A' t (allog A t @ [e])"
        by (rule log_ok_snoc [OF inv_leadersD(2) [OF I(2) u] _ inv_leadersD(1) [OF I(2) u] _ _ gr])
          (use u s_append in \<open>simp_all add: a_append_def\<close>)
      with old [OF u] s_append True show ?thesis by (auto simp: a_append_def)
    qed (use s_append B in \<open>intro keep; simp add: a_append_def\<close>)
  qed (use B in \<open>intro keep; simp add: a_ops\<close>)+
  then show ?thesis by (simp add: inv_leaders_def)
qed

lemma inv_cands_step:
  assumes st: "a_step qm A A'" and inv: "a_inv qm A" shows "inv_cands A'"
proof -
  have old: "1 \<le> t \<and> t \<le> aterm A' c \<and> log_ok A' (t - 1) cl" if "acand A t c = Some cl" for t c cl
    using a_invD(3) [OF inv] that log_ok_grows [OF _ a_step_grows [OF st] order_refl, of "t - 1" cl] a_step_aterm [OF st, of c]
    by (fastforce simp: inv_cands_def)
  have "1 \<le> t \<and> t \<le> aterm A' c \<and> log_ok A' (t - 1) cl" if cl: "acand A' t c = Some cl" for t c cl
    using st
  proof (cases rule: a_step.cases)
    case (s_stand p u)
    have "0 \<le> aterm A p" "log_ok A (aterm A p) (alog A p)" using a_invD(1) [OF inv] by (auto simp: inv_logs_def)
    with log_ok_grows [OF _ a_step_grows [OF st], of "aterm A p" "alog A p" "u - 1"] s_stand cl old [of t c cl]
    show ?thesis by (auto simp: a_stand_def split: if_splits)
  qed (use cl old [of t c cl] in \<open>auto simp: a_ops\<close>)
  then show ?thesis by (simp add: inv_cands_def)
qed

lemma inv_votes_step:
  assumes st: "a_step qm A A'" and inv: "a_inv qm A" shows "inv_votes A'"
  using st a_invD(4) [OF inv] unfolding inv_votes_def
  by (cases rule: a_step.cases) (fastforce simp: a_ops split: if_splits)+

lemma inv_elected_step:
  assumes st: "a_step qm A A'" and inv: "a_inv qm A" shows "inv_elected qm A'"
proof -
  note I = a_invD [OF inv] and E = inv_electedD [OF a_invD(5) [OF inv]]
  have voted: "avoted A p t \<noteq> None" "t \<le> aterm A p" if "p \<in> avoters A t" "abase A t \<noteq> None" for p t
    using E(1) [of t] E(3) [OF that(2,1)] that I(4) by (auto simp: inv_votes_def)
  from st show ?thesis
  proof (cases rule: a_step.cases)
    case (s_stand p t)
    then show ?thesis using E voted [of p t] by (auto simp: inv_elected_def a_stand_def)
  next
    case (s_vote p t c cl)
    then show ?thesis using E voted [of p t] by (auto simp: inv_elected_def a_vote_def)
  qed (use E in \<open>auto simp: inv_elected_def a_ops\<close>)
qed

lemma inv_acked_step:
  assumes st: "a_step qm A A'" and inv: "a_inv qm A" shows "inv_acked A'"
proof -
  note K = inv_ackedD [OF a_invD(6) [OF inv]] and gr = a_step_grows [OF st]
  have "abase A' t = None \<Longrightarrow> acked A' p t = 0" "aterm A' p < t \<Longrightarrow> acked A' p t = 0"
    "acked A' p t \<le> length (allog A' t)" "agree (acked A' p (aterm A' p)) (alog A' p) (allog A' (aterm A' p))" for p t
  proof -
    from st K(2) [where p = p and t = t] show "acked A' p t = 0" if "abase A' t = None"
      using that inv_electedD(1) [OF a_invD(5) [OF inv], of t]
      by (cases rule: a_step.cases) (auto simp: a_ops split: if_splits)
    from st K(1) [where p = p and t = t] show "acked A' p t = 0" if "aterm A' p < t"
      using that by (cases rule: a_step.cases) (auto simp: a_ops split: if_splits)
    from st K(2,3) [where p = p and t = t] show "acked A' p t \<le> length (allog A' t)"
      by (cases rule: a_step.cases) (auto simp: a_ops split: if_splits)
    show "agree (acked A' p (aterm A' p)) (alog A' p) (allog A' (aterm A' p))"
      using st
    proof (cases rule: a_step.cases)
      case (s_term q t)
      with K(1) [where p = q and t = t] K(4) [of p] show ?thesis by (auto simp: a_term_def)
    next
      case (s_stand q t)
      with K(1) [where p = q and t = t] K(4) [of p] show ?thesis by (auto simp: a_stand_def)
    next
      case (s_vote q t c cl)
      with K(1) [where p = q and t = t] K(4) [of p] show ?thesis by (cases "aterm A q = t") (auto simp: a_vote_def)
    next
      case (s_lead c t Q)
      with K(2) [where p = p and t = t] K(4) [of p] show ?thesis by (auto simp: a_lead_def)
    next
      case (s_append t c e)
      with K(3) [where p = p and t = t] K(4) [of p] show ?thesis by (auto simp: a_append_def)
    next
      case (s_adopt t q m)
      show ?thesis
      proof (cases "p = q")
        case True
        have "aterm A p = t \<or> acked A p t = 0" using K(1) [where p = p and t = t] s_adopt(3) True by (metis order_le_less)
        then have ag: "agree (acked A p t) (alog A p) (allog A t)" using K(4) [of p] by auto
        have "agree (acked A p t) (adopt m (alog A p) (allog A t)) (allog A t)"
          by (rule agree_trans [OF adopt_keeps [OF ag] ag])
        with adopt_agrees [OF s_adopt(4)] s_adopt True show ?thesis by (simp add: a_adopt_def max_def)
      qed (use s_adopt K(4) [of p] in \<open>simp add: a_adopt_def\<close>)
    qed
  qed
  then show ?thesis by (simp add: inv_acked_def)
qed

lemma inv_kept_step:
  assumes st: "a_step qm A A'" and inv: "a_inv qm A" shows "inv_kept A'"
  unfolding inv_kept_def
proof (intro allI impI)
  fix p t k assume t: "t < aterm A' p" and "took A' p t k"
  note gr = a_step_grows [OF st] and I = a_invD [OF inv]
  have tk: "took A p t k" by (rule a_step_took [OF st I(6) t \<open>took A' p t k\<close>])
  have "agree k (alog A p) (allog A t) \<or> conflict A t k (aterm A p)" using took_kept [OF I(6,7) tk] by blast
  note old = kept_grows [OF I(6) tk gr a_step_aterm [OF st] this]
  from st show "agree k (alog A' p) (allog A' t) \<or> conflict A' t k (aterm A' p)"
  proof (cases rule: a_step.cases)
    case (s_append u c e)
    with old t show ?thesis by (auto simp: a_append_def intro: agree_appendI)
  next
    case (s_adopt u q m)
    then obtain B where B: "abase A' u = Some B" "abase A u = Some B" by (auto simp: a_adopt_def)
    show ?thesis
    proof (cases "p = q \<and> agree k (alog A' p) (allog A' t) = False \<and> agree k B (allog A' t)")
      case True
      then have "agree k B (allog A u)" "agree k B (allog A t)"
        using inv_leadersD(5) [OF I(2) B(2), of k B] s_adopt by (auto simp: a_adopt_def dest: agree_length)
      then have "agree k (allog A u) (allog A t)" using agree_sym agree_trans by blast
      then have "agree k (adopt m (alog A p) (allog A u)) (allog A t)" if "agree k (alog A p) (allog A t)"
        using that adopt_keeps agree_sym agree_trans by blast
      with old True s_adopt show ?thesis by (auto simp: a_adopt_def)
    next
      case False
      with old s_adopt B t show ?thesis by (auto simp: a_adopt_def conflict_def split: if_splits)
    qed
  qed (use old in \<open>auto simp: a_ops\<close>)
qed

text \<open>The terms of a log do not decrease.\<close>

lemma log_ok_mono:
  assumes "inv_leaders A" "log_ok A b F" "1 \<le> j" "j \<le> k" "k \<le> length F"
  shows "tm F j \<le> tm F k"
proof -
  let ?T = "tm F k"
  have k: "abase A ?T \<noteq> None" "agree k F (allog A ?T)" using log_okD(3,4) [OF assms(2), of k] assms(3-5) by auto
  then obtain B where "abase A ?T = Some B" by auto
  from inv_leadersD(2) [OF assms(1) this] have "tm (allog A ?T) j \<le> ?T"
    by (rule log_okD(2)) (use assms(3,4) agree_length [OF k(2)] in auto)
  with agree_tm [OF k(2) assms(4)] show ?thesis by simp
qed

text \<open>A voter that compares logs lets through only candidates that have what the voter took over in
  earlier terms, unless a leader in between did not have it.\<close>

lemma voter_checks:
  assumes inv: "inv_leaders A" "inv_logs A" "inv_cands A"
    and P: "agree k (alog A p) (allog A t)" "1 \<le> k" "tm (allog A t) k = t" and t: "t < u" "abase A t \<noteq> None"
    and cl: "acand A u c = Some cl" "upToDate cl (alog A p)"
  shows "agree k cl (allog A t) \<or> conflict A t k (u - 1)"
proof -
  let ?P = "alog A p" and ?T = "tm cl (length cl)"
  have okP: "log_ok A (aterm A p) ?P" and okc: "log_ok A (u - 1) cl"
    using inv(2,3) cl(1) by (auto simp: inv_logs_def inv_cands_def)
  note kP = agree_length [OF P(1)]
  have "t = tm ?P k" using agree_tm [OF P(1) order_refl] P(3) by simp
  also have "\<dots> \<le> tm ?P (length ?P)" by (rule log_ok_mono [OF inv(1) okP P(2)]) (use kP in auto)
  finally have tP: "t \<le> tm ?P (length ?P)" .
  have "1 \<le> t" using log_okD(1) [OF okP P(2)] kP \<open>t = tm ?P k\<close> by simp
  with tP cl(2) have c1: "1 \<le> length cl" by (cases "length cl") (auto simp: upToDate_def)
  note T = log_okD [OF okc c1 order_refl]
  consider "?T = t" "length ?P \<le> length cl" | "t < ?T" using tP cl(2) unfolding upToDate_def by linarith
  then show ?thesis
  proof cases
    case 1
    with T(4) kP show ?thesis by (auto intro: agree_mono)
  next
    case 2
    from T(3) obtain B where B: "abase A ?T = Some B" by auto
    show ?thesis
    proof (cases "agree k B (allog A t)")
      case True
      obtain Bt where "abase A t = Some Bt" using t(2) by auto
      note ok_t = inv_leadersD(2) [OF inv(1) this]
      have kT: "agree k (allog A ?T) (allog A t)"
        by (rule agree_trans [OF agree_sym True])
          (use inv_leadersD(5) [OF inv(1) B, of k B] agree_length [OF True] in simp)
      have "k \<le> length cl"
      proof (rule ccontr)
        assume n: "\<not> k \<le> length cl"
        have "?T = tm (allog A t) (length cl)"
          using agree_tm [OF T(4), of "length cl"] agree_tm [OF kT, of "length cl"] n by simp
        also have "\<dots> \<le> t" by (rule log_okD(2) [OF ok_t c1]) (use n agree_length [OF kT] in auto)
        finally show False using 2 by simp
      qed
      with agree_mono [OF T(4)] kT agree_trans show ?thesis by blast
    next
      case False
      with B T(2) 2 show ?thesis by (auto simp: conflict_def)
    qed
  qed
qed

lemma vote_keeps:
  assumes inv: "a_inv qm A" and tk: "took A p t k" and u: "aterm A p \<le> u" "t < u" "abase A u = None"
    and cl: "acand A u c = Some cl" "upToDate cl (alog A p)"
  shows "agree k cl (allog A t) \<or> conflict A t k (u - 1)"
proof -
  note I = a_invD [OF inv]
  note tkD = tookD [OF I(6) tk]
  from took_kept [OF I(6,7) tk] consider "agree k (alog A p) (allog A t)" | "conflict A t k (aterm A p)" by blast
  then show ?thesis
  proof cases
    case 1
    show ?thesis by (rule voter_checks [OF I(2,1,3) 1 tkD(3,5) u(2) tkD(1) cl])
  next
    case 2
    then obtain v B where "t < v" "v \<le> aterm A p" "abase A v = Some B" "\<not> agree k B (allog A t)"
      by (auto simp: conflict_def)
    moreover from this u(1,3) have "v \<noteq> u" by auto
    ultimately show ?thesis using u(1) by (auto simp: conflict_def intro!: exI [of _ v])
  qed
qed

lemma stand_keeps:
  assumes inv: "a_inv qm A" and tk: "took A p t k" and u: "aterm A p < u"
  shows "agree k (alog A p) (allog A t) \<or> conflict A t k (u - 1)"
proof -
  have "aterm A p \<le> u - 1" using u by simp
  then have "conflict A t k (aterm A p) \<Longrightarrow> conflict A t k (u - 1)" unfolding conflict_def by (meson order_trans)
  with took_kept [OF a_invD(6,7) [OF inv] tk] show ?thesis by blast
qed

lemma inv_voted_step:
  assumes st: "a_step qm A A'" and inv: "a_inv qm A" shows "inv_voted A'"
  unfolding inv_voted_def
proof (intro allI impI)
  fix p u c cl t k
  assume v: "avoted A' p u = Some c" "acand A' u c = Some cl" "abase A' u = None" "t < u" and "took A' p t k"
  note gr = a_step_grows [OF st] and I = a_invD [OF inv]
  have "u \<le> aterm A' p" using inv_votes_step [OF st inv] v(1) by (auto simp: inv_votes_def)
  with v(4) have tk: "took A p t k" by (intro a_step_took [OF st I(6) _ \<open>took A' p t k\<close>]) simp
  have u: "abase A u = None" using v(3) growsD(1) [OF gr, of u] by (cases "abase A u") auto
  have "agree k cl (allog A t) \<or> conflict A t k (u - 1)"
  proof (cases "avoted A p u = Some c \<and> acand A u c = Some cl")
    case True
    with I(8) u v(4) tk show ?thesis unfolding inv_voted_def by blast
  next
    case new: False
    from st show ?thesis
    proof (cases rule: a_step.cases)
      case (s_stand q s)
      have "avoted A p s \<noteq> Some q" using no_cand [OF I(3) s_stand(2)] I(4) unfolding inv_votes_def by blast
      with s_stand(1) new v(1,2) have "p = q" "u = s" "cl = alog A p"
        by (auto simp: a_stand_def split: if_splits)
      with stand_keeps [OF inv tk] s_stand show ?thesis by simp
    next
      case (s_vote q s d cd)
      with new v(1,2) have "p = q" "u = s" "c = d" "cl = cd" by (auto simp: a_vote_def split: if_splits)
      with vote_keeps [OF inv tk _ v(4) u] s_vote show ?thesis by simp
    qed (use new v(1,2) in \<open>auto simp: a_ops\<close>)
  qed
  from kept_grows [OF I(6) tk gr order_refl this] show "agree k cl (allog A' t) \<or> conflict A' t k (u - 1)" .
qed

lemma inv_complete_step:
  assumes st: "a_step qm A A'" and inv: "a_inv qm A" shows "inv_complete A'"
  unfolding inv_complete_def
proof (intro allI impI)
  fix p u B t k
  assume v: "abase A' u = Some B" "p \<in> avoters A' u" "t < u" and "took A' p t k"
  note gr = a_step_grows [OF st] and I = a_invD [OF inv] and E' = inv_electedD [OF inv_elected_step [OF st inv]]
  have "avoted A' p u \<noteq> None" using E'(1) [of u] E'(3) [of u p] v by auto
  then have "u \<le> aterm A' p" using inv_votes_step [OF st inv] by (auto simp: inv_votes_def)
  with v(3) have tk: "took A p t k" by (intro a_step_took [OF st I(6) _ \<open>took A' p t k\<close>]) simp
  have "agree k B (allog A t) \<or> conflict A t k (u - 1)"
  proof (cases "abase A u = Some B \<and> p \<in> avoters A u")
    case True
    with I(9) v(3) tk show ?thesis unfolding inv_complete_def by blast
  next
    case new: False
    from st show ?thesis
    proof (cases rule: a_step.cases)
      case (s_lead c s Q)
      with new v(1,2) have u: "u = s" "B = alog A c" "p \<in> Q" by (auto simp: a_lead_def split: if_splits)
      with s_lead have "avoted A p u = Some c" "acand A u c = Some B" "abase A u = None" by auto
      with I(8) v(3) tk show ?thesis unfolding inv_voted_def by blast
    qed (use new v(1,2) in \<open>auto simp: a_ops\<close>)
  qed
  from kept_grows [OF I(6) tk gr order_refl this] show "agree k B (allog A' t) \<or> conflict A' t k (u - 1)" .
qed

lemma a_step_inv: "a_step qm A A' \<Longrightarrow> a_inv qm A \<Longrightarrow> a_inv qm A'"
  unfolding a_inv_def [of qm A']
  by (intro conjI inv_logs_step inv_leaders_step inv_cands_step inv_votes_step inv_elected_step inv_acked_step
      inv_kept_step inv_voted_step inv_complete_step)

lemma a_run_inv: "a_run qm A A' \<Longrightarrow> a_inv qm A \<Longrightarrow> a_inv qm A'"
  by (induction rule: a_run.induct) (auto intro: a_step_inv)

end
