(* ===== verification/RaftCommit.thy ===== *)
theory RaftCommit
  imports RaftAbs
begin

text \<open>
  What is committed in the abstract protocol of \<^verbatim>\<open>RaftAbs\<close>: an entry is chosen when a quorum has taken it over from the
  leader of its own term, the rule of \<open>updateCommitIndex\<close> in \<^verbatim>\<open>raft1/raft.go\<close>.  With quorums that meet, every
  later leader has the chosen entries, so what is committed stays committed and any two committed prefixes agree.
\<close>

definition chosen :: "(int set \<Rightarrow> bool) \<Rightarrow> 'c araft \<Rightarrow> int \<Rightarrow> nat \<Rightarrow> bool" where
  "chosen qm A t k \<longleftrightarrow> abase A t \<noteq> None \<and> 1 \<le> k \<and> k \<le> length (allog A t) \<and> tm (allog A t) k = t
     \<and> (\<exists>Q. qm Q \<and> (\<forall>q \<in> Q. k \<le> acked A q t))"

text \<open>The first \<open>c\<close> entries of \<open>F\<close> are covered by an entry chosen in a term up to \<open>b\<close>.\<close>

definition committed :: "(int set \<Rightarrow> bool) \<Rightarrow> 'c araft \<Rightarrow> int \<Rightarrow> nat \<Rightarrow> 'c LogEntry list \<Rightarrow> bool" where
  "committed qm A b c F \<longleftrightarrow> c = 0 \<or> (\<exists>t k. chosen qm A t k \<and> t \<le> b \<and> c \<le> k \<and> agree c F (allog A t))"

lemma committed_0 [simp]: "committed qm A b 0 F"
  by (simp add: committed_def)

lemma committed_length: "committed qm A b c F \<Longrightarrow> c \<le> length F"
  by (auto simp: committed_def dest: agree_length)

lemma committed_mono: "committed qm A b c F \<Longrightarrow> b \<le> b' \<Longrightarrow> d \<le> c \<Longrightarrow> committed qm A b' d F"
  unfolding committed_def using agree_mono le_trans order_trans by (metis le_zero_eq)

lemma committed_prefix: "committed qm A b c F \<Longrightarrow> agree c G F \<Longrightarrow> committed qm A b c G"
  unfolding committed_def using agree_trans by blast

lemma chosen_committed: "chosen qm A t k \<Longrightarrow> agree k F (allog A t) \<Longrightarrow> committed qm A t k F"
  unfolding committed_def by blast

section \<open>What was chosen stays chosen\<close>

lemma a_step_acked_mono:
  assumes st: "a_step qm A A'" and inv: "inv_acked A" shows "acked A p t \<le> acked A' p t"
  using st inv_ackedD(2,3) [OF inv, where p = p and t = t]
  by (cases rule: a_step.cases) (auto simp: a_ops)

lemma chosen_step:
  assumes st: "a_step qm A A'" and inv: "a_inv qm A" and ch: "chosen qm A t k" shows "chosen qm A' t k"
proof -
  from ch have t: "abase A t \<noteq> None" "k \<le> length (allog A t)" by (simp_all add: chosen_def)
  note gr = a_step_grows [OF st]
  from ch obtain Q where Q: "qm Q" "\<And>q. q \<in> Q \<Longrightarrow> k \<le> acked A q t" by (auto simp: chosen_def)
  from Q(2) have "\<forall>q \<in> Q. k \<le> acked A' q t"
    using a_step_acked_mono [OF st a_invD(6) [OF inv]] le_trans by blast
  with ch Q(1) growsD(1,3) [OF gr t(1)] grows_agree(2) [OF gr t] show ?thesis by (auto simp: chosen_def)
qed

lemma chosen_run: "a_run qm A A' \<Longrightarrow> a_inv qm A \<Longrightarrow> chosen qm A t k \<Longrightarrow> chosen qm A' t k"
  by (induction rule: a_run.induct) (auto intro: chosen_step a_run_inv)

lemma committed_run:
  assumes run: "a_run qm A A'" and inv: "a_inv qm A" and com: "committed qm A b c F" shows "committed qm A' b c F"
proof (cases "c = 0")
  case False
  with com obtain t k where t: "chosen qm A t k" "t \<le> b" "c \<le> k" "agree c F (allog A t)" by (auto simp: committed_def)
  then have "agree c F (allog A' t)"
    using grows_agree(1) [OF a_run_grows [OF run], of t c F] agree_length by (auto simp: chosen_def)
  with t chosen_run [OF run inv t(1)] show ?thesis by (auto simp: committed_def)
qed simp

section \<open>Quorums that meet\<close>

locale quorums =
  fixes qm :: "int set \<Rightarrow> bool"
  assumes meet: "qm P \<Longrightarrow> qm Q \<Longrightarrow> P \<inter> Q \<noteq> {}"
begin

text \<open>Leader Completeness: a leader of a later term was elected with every entry chosen before.\<close>

lemma leader_has_chosen:
  assumes inv: "a_inv qm A" and ch: "chosen qm A t k"
  shows "abase A u = Some B \<Longrightarrow> t < u \<Longrightarrow> agree k B (allog A t)"
proof (induction "nat (u - t)" arbitrary: u B rule: less_induct)
  case less
  from ch obtain Q where Q: "qm Q" "\<And>q. q \<in> Q \<Longrightarrow> k \<le> acked A q t" by (auto simp: chosen_def)
  from less.prems inv_electedD(2) [OF a_invD(5) [OF inv], of u] have "qm (avoters A u)" by auto
  from meet [OF Q(1) this] obtain p where p: "p \<in> Q" "p \<in> avoters A u" by auto
  from ch Q(2) [OF p(1)] have "took A p t k" by (auto simp: chosen_def took_def)
  with a_invD(9) [OF inv] less.prems p(2) have "agree k B (allog A t) \<or> conflict A t k (u - 1)"
    unfolding inv_complete_def by blast
  moreover have "\<not> conflict A t k (u - 1)"
    using less.hyps by (auto simp: conflict_def)
  ultimately show ?case by blast
qed

lemma later_has_chosen:
  assumes inv: "a_inv qm A" and ch: "chosen qm A t k" and u: "abase A u \<noteq> None" "t \<le> u"
  shows "agree k (allog A u) (allog A t)"
proof (cases "t = u")
  case True
  with ch show ?thesis by (simp add: chosen_def)
next
  case False
  from u(1) obtain B where B: "abase A u = Some B" by auto
  from leader_has_chosen [OF inv ch B] u(2) False have "agree k B (allog A t)" by simp
  with inv_leadersD(5) [OF a_invD(2) [OF inv] B, of k "allog A t"] show ?thesis
    by (meson agree_length agree_sym)
qed

lemma leader_has_committed:
  assumes inv: "a_inv qm A" and com: "committed qm A b c F" and u: "abase A u \<noteq> None" "b \<le> u"
  shows "agree c F (allog A u)"
proof (cases "c = 0")
  case False
  with com obtain t k where t: "chosen qm A t k" "t \<le> b" "c \<le> k" "agree c F (allog A t)" by (auto simp: committed_def)
  with later_has_chosen [OF inv t(1) u(1)] u(2) show ?thesis by (meson agree_mono agree_sym agree_trans order_trans)
qed simp

text \<open>Two committed prefixes agree on what both cover.\<close>

lemma committed_agree:
  assumes inv: "a_inv qm A" and com: "committed qm A b c F" "committed qm A d e G"
  shows "agree (min c e) F G"
proof (cases "c = 0 \<or> e = 0")
  case False
  with com obtain t k u l where t: "chosen qm A t k" "c \<le> k" "agree c F (allog A t)"
    and u: "chosen qm A u l" "e \<le> l" "agree e G (allog A u)" by (auto simp: committed_def)
  have "agree (min c e) (allog A u) (allog A t)"
  proof (cases "t \<le> u")
    case True
    with later_has_chosen [OF inv t(1), of u] u(1) t(2) show ?thesis by (auto simp: chosen_def intro: agree_mono)
  next
    case False
    with later_has_chosen [OF inv u(1), of t] t(1) u(2) show ?thesis
      by (auto simp: chosen_def intro: agree_mono agree_sym)
  qed
  with agree_mono [OF t(3), of "min c e"] agree_mono [OF u(3), of "min c e"] show ?thesis
    using agree_sym agree_trans by (metis min.cobounded1 min.cobounded2)
qed auto

text \<open>Taking over a prefix of the leader's log loses nothing committed, and what the leader has committed of that
  prefix is committed here too.\<close>

lemma committed_adopt:
  assumes inv: "a_inv qm A" and com: "committed qm A b c F" and t: "abase A t \<noteq> None" "b \<le> t"
  shows "committed qm A t c (adopt m F (allog A t))"
  using adopt_keeps [OF leader_has_committed [OF inv com t]] committed_prefix committed_mono [OF com t(2) order_refl] by blast

lemma committed_from_leader:
  assumes "committed qm A t c (allog A t)" "m \<le> length (allog A t)"
  shows "committed qm A t (min c m) (adopt m F (allog A t))"
  using committed_prefix [OF committed_mono [OF assms(1) order_refl, of "min c m"]]
    agree_mono [OF adopt_agrees [OF assms(2)], of "min c m" F] by simp

text \<open>No step of the protocol takes a committed entry out of a peer's log.\<close>

lemma committed_log_step:
  assumes st: "a_step qm A A'" and inv: "a_inv qm A" and com: "committed qm A (aterm A p) c (alog A p)"
  shows "committed qm A' (aterm A' p) c (alog A' p)"
proof -
  have old: "committed qm A' (aterm A' p) c (alog A p)"
    using committed_run [OF a_run_step [OF st] inv com] a_step_aterm [OF st] by (rule committed_mono) simp
  have app: "committed qm A' b c (F @ [e])" if "committed qm A' b c F" for b F e
    by (rule committed_prefix [OF that]) (use committed_length [OF that] in simp)
  from st show ?thesis
  proof (cases rule: a_step.cases)
    case (s_append t d e)
    with old app [OF old, of e] show ?thesis by (auto simp: a_append_def)
  next
    case (s_adopt t q m)
    then have "committed qm A' t c (adopt m (alog A p) (allog A' t))" if "p = q"
      using committed_adopt [OF a_step_inv [OF st inv] old, of t] that by (simp add: a_adopt_def)
    with s_adopt old show ?thesis by (auto simp: a_adopt_def)
  qed (use old in \<open>auto simp: a_ops\<close>)
qed

lemma committed_log_run:
  "a_run qm A A' \<Longrightarrow> a_inv qm A \<Longrightarrow> committed qm A (aterm A p) c (alog A p) \<Longrightarrow>
     committed qm A' (aterm A' p) c (alog A' p)"
  by (induction rule: a_run.induct) (auto intro: committed_log_step a_run_inv)

end

end
