(* ===== verification/RaftRefine.thy ===== *)
theory RaftRefine
  imports RaftCluster RaftCommit
begin

text \<open>
  The cluster of \<^verbatim>\<open>RaftCluster\<close>, with its messages, timers, compacted logs and restarts, refines the abstract
  protocol of \<^verbatim>\<open>RaftAbs\<close>.  A peer's log is the part of its abstract log after the snapshot; every step of the cluster is
  one step of the protocol or none.
\<close>

section \<open>Majorities\<close>

definition majority :: "int \<Rightarrow> int set \<Rightarrow> bool" where
  "majority n Q \<longleftrightarrow> 0 < n \<and> Q \<subseteq> in_cluster n \<and> n div 2 < int (card Q)"

interpretation maj: quorums "majority n" for n
  by unfold_locales (use majorities_intersect in \<open>auto simp: majority_def\<close>)

section \<open>Logs behind a snapshot\<close>

definition log_sim :: "'c LogEntry list \<Rightarrow> ('c, 'd) Raft \<Rightarrow> bool" where
  "log_sim F rf \<longleftrightarrow> tl (rlog rf) = drop (nat (lastIncludedIndex rf)) F \<and> nat (lastIncludedIndex rf) \<le> length F
     \<and> lastIncludedTerm rf = tm F (nat (lastIncludedIndex rf))"

lemma log_sim_cong:
  "log_sim F rf \<Longrightarrow> rlog rf' = rlog rf \<Longrightarrow> lastIncludedIndex rf' = lastIncludedIndex rf \<Longrightarrow>
     lastIncludedTerm rf' = lastIncludedTerm rf \<Longrightarrow> log_sim F rf'"
  by (simp add: log_sim_def)

lemma log_simD:
  assumes "log_sim F rf" "raft_wf rf"
  shows "rlog rf = hd (rlog rf) # drop (nat (lastIncludedIndex rf)) F" "0 \<le> lastIncludedIndex rf"
    "nat (lastIncludedIndex rf) \<le> length F" "le_Term (hd (rlog rf)) = tm F (nat (lastIncludedIndex rf))"
proof -
  from assms have "rlog rf \<noteq> []" "tl (rlog rf) = drop (nat (lastIncludedIndex rf)) F"
    by (simp_all add: log_sim_def raft_wf_def)
  then show "rlog rf = hd (rlog rf) # drop (nat (lastIncludedIndex rf)) F" by (metis list.collapse)
qed (use assms in \<open>simp_all add: log_sim_def raft_wf_def\<close>)

lemma log_sim_last:
  assumes "log_sim F rf" "raft_wf rf" shows "lastLogIndex rf = int (length F)"
proof -
  note l = log_simD [OF assms]
  have "length (rlog rf) = Suc (length F - nat (lastIncludedIndex rf))" by (subst l(1)) simp
  with l(2,3) show ?thesis by (simp add: lastLogIndex_def)
qed

text \<open>Reading the log at an index is reading the abstract log there.\<close>

lemma log_sim_nth:
  assumes "log_sim F rf" "raft_wf rf" "lastIncludedIndex rf < i" "i \<le> int (length F)"
  shows "rlog rf ! nat (i - lastIncludedIndex rf) = F ! (nat i - 1)"
proof -
  note l = log_simD [OF assms(1,2)]
  have "nat (i - lastIncludedIndex rf) = Suc (nat i - 1 - nat (lastIncludedIndex rf))" using assms(3) l(2) by simp
  then have "rlog rf ! nat (i - lastIncludedIndex rf) = drop (nat (lastIncludedIndex rf)) F ! (nat i - 1 - nat (lastIncludedIndex rf))"
    by (subst l(1)) simp
  also have "\<dots> = F ! (nat i - 1)" using assms(3,4) l(2,3) by simp
  finally show ?thesis .
qed

lemma log_sim_entryAt:
  assumes "log_sim F rf" "raft_wf rf"
  shows "entryAt rf i = (if lastIncludedIndex rf < i \<and> i \<le> int (length F) then Some (F ! (nat i - 1)) else None)"
proof (cases "lastIncludedIndex rf < i \<and> i \<le> int (length F)")
  case True
  with log_sim_nth [OF assms, of i] log_sim_last [OF assms] show ?thesis
    by (simp add: entryAt_def go_nth_def getRelativeIndex_def lastLogIndex_def)
next
  case False
  with log_sim_last [OF assms] show ?thesis
    by (auto simp: entryAt_def go_nth_def getRelativeIndex_def lastLogIndex_def)
qed

lemma log_sim_termAt:
  assumes "log_sim F rf" "raft_wf rf" "lastIncludedIndex rf \<le> i" "i \<le> int (length F)"
  shows "termAt rf i = Some (tm F (nat i))"
proof (cases "i = lastIncludedIndex rf")
  case True
  with log_simD [OF assms(1,2)] show ?thesis
    using assms(2) by (simp add: termAt_def go_nth_def getRelativeIndex_def raft_wf_def hd_conv_nth)
next
  case False
  with assms log_simD(2) [OF assms(1,2)] have "0 < i" by simp
  with False assms log_sim_nth [OF assms(1,2), of i] log_sim_last [OF assms(1,2)] show ?thesis
    using termAt_in [OF assms(2), of i] by (simp add: tm_def)
qed

section \<open>Merging entries is taking over a prefix\<close>

lemma agree_Suc_Cons: "agree (Suc k) (x # F) (y # G) \<longleftrightarrow> x = y \<and> agree k F G"
  by (auto simp: agree_def)

lemma mergeLog_adopt:
  assumes "\<And>i. i < length G \<Longrightarrow> i < length es \<Longrightarrow> le_Term (G ! i) = le_Term (es ! i) \<Longrightarrow> G ! i = es ! i"
  shows "mergeLog G es = adopt (length es) G es"
  using assms
proof (induction G es rule: mergeLog.induct)
  case (3 x G e es)
  have IH: "mergeLog G es = adopt (length es) G es" if "le_Term x = le_Term e"
    using "3.IH" [OF that] "3.prems" [of "Suc i" for i] by simp
  have "x = e" if "le_Term x = le_Term e" using "3.prems" [of 0] that by simp
  with IH show ?case by (auto simp: adopt_def agree_Suc_Cons)
qed (auto simp: adopt_def agree_def)

lemma agree_split:
  assumes "agree j F L" shows "agree (j + k) F L \<longleftrightarrow> agree k (drop j F) (drop j L)"
proof -
  have "take (j + k) F = take (j + k) L \<longleftrightarrow> take k (drop j F) = take k (drop j L)"
    using assms by (simp add: agree_def take_add)
  with agree_length [OF assms] show ?thesis by (auto simp: agree_def)
qed

lemma adopt_split:
  assumes "agree j F L" "j + k \<le> length L"
  shows "take j F @ adopt k (drop j F) (take k (drop j L)) = adopt (j + k) F L"
proof (cases "agree (j + k) F L")
  case True
  with agree_split [OF assms(1), of k] show ?thesis by (simp add: adopt_def)
next
  case False
  from assms(1) have "take j F = take j L" by (simp add: agree_def)
  with False agree_split [OF assms(1), of k] show ?thesis by (simp add: adopt_def take_add)
qed

text \<open>Log Matching: logs of the protocol with the same term at the same index agree up to there.\<close>

lemma log_matching_abs:
  assumes "log_ok A b F" "log_ok A d G" "k \<le> length F" "k \<le> length G" "tm F k = tm G k"
  shows "agree k F G"
proof (cases "k = 0")
  case False
  with log_okD(4) [OF assms(1), of k] log_okD(4) [OF assms(2), of k] assms(3-5) show ?thesis
    using agree_sym agree_trans by (metis One_nat_def Suc_leI neq0_conv)
qed simp

lemma merge_is_adopt:
  assumes "log_ok A b F" "log_ok A d L" "j \<le> length F" "tm F j = tm L j" "j + k \<le> length L"
  shows "take j F @ mergeLog (drop j F) (take k (drop j L)) = adopt (j + k) F L"
proof -
  have j: "agree j F L" using log_matching_abs [OF assms(1,2,3) _ assms(4)] assms(5) by simp
  have "drop j F ! i = take k (drop j L) ! i"
    if i: "i < length (drop j F)" "i < length (take k (drop j L))"
      and eq: "le_Term (drop j F ! i) = le_Term (take k (drop j L) ! i)" for i
  proof -
    from i eq assms(5) have "tm F (Suc (j + i)) = tm L (Suc (j + i))" by (simp add: tm_def)
    with log_matching_abs [OF assms(1,2), of "Suc (j + i)"] i have "agree (Suc (j + i)) F L" by fastforce
    from agree_nth [OF this, of "j + i"] i assms(5) show ?thesis by simp
  qed
  then have "mergeLog (drop j F) (take k (drop j L)) = adopt k (drop j F) (take k (drop j L))"
    using mergeLog_adopt [of "drop j F" "take k (drop j L)"] assms(5) by (simp add: min_absorb2)
  with adopt_split [OF j assms(5)] show ?thesis by simp
qed

section \<open>The simulation relation\<close>

definition peer_sim :: "int \<Rightarrow> 'c araft \<Rightarrow> int \<Rightarrow> ('c, 'd) Raft \<Rightarrow> bool" where
  "peer_sim n A p rf \<longleftrightarrow> aterm A p = currentTerm rf \<and> log_sim (alog A p) rf
     \<and> committed (majority n) A (aterm A p) (nat (commitIndex rf)) (alog A p) \<and> lastApplied rf \<le> commitIndex rf
     \<and> (role rf = Candidate \<longrightarrow> acand A (aterm A p) p = Some (alog A p) \<and> alead A (aterm A p) \<noteq> Some p)
     \<and> (role rf = Leader \<longrightarrow> alead A (aterm A p) = Some p \<and> alog A p = allog A (aterm A p)
          \<and> length (alog A p) \<le> acked A p (aterm A p)
          \<and> (\<forall>q \<in> in_cluster n. matchIndex rf ! nat q \<le> int (acked A q (aterm A p))))"

definition vote_sim :: "'c araft \<Rightarrow> int \<Rightarrow> int \<Rightarrow> RequestVoteArgs \<Rightarrow> bool" where
  "vote_sim A i t args \<longleftrightarrow> (\<exists>cl. acand A t i = Some cl \<and> rv_LastLogIndex args = int (length cl)
     \<and> rv_LastLogTerm args = tm cl (length cl))"

text \<open>A message in the name of the leader of term \<open>t\<close>, sent to another peer.\<close>

definition from_leader :: "'c araft \<Rightarrow> int \<Rightarrow> int \<Rightarrow> bool" where
  "from_leader A p t \<longleftrightarrow> abase A t \<noteq> None \<and> alead A t \<noteq> Some p"

definition append_sim :: "int \<Rightarrow> 'c araft \<Rightarrow> int \<Rightarrow> 'c AppendEntriesArgs \<Rightarrow> bool" where
  "append_sim n A p args \<longleftrightarrow> (let L = allog A (ae_Term args); j = nat (ae_PrevLogIndex args); k = length (ae_Entries args) in
     from_leader A p (ae_Term args) \<and> 0 \<le> ae_PrevLogIndex args \<and> j + k \<le> length L
     \<and> ae_PrevLogTerm args = tm L j \<and> ae_Entries args = take k (drop j L)
     \<and> committed (majority n) A (ae_Term args) (nat (ae_LeaderCommit args)) L)"

definition snap_sim :: "int \<Rightarrow> 'c araft \<Rightarrow> int \<Rightarrow> 'd InstallSnapshotArgs \<Rightarrow> bool" where
  "snap_sim n A p args \<longleftrightarrow> (let L = allog A (is_Term args); j = nat (is_LastIncludedIndex args) in
     from_leader A p (is_Term args) \<and> 0 \<le> is_LastIncludedIndex args \<and> is_LastIncludedTerm args = tm L j
     \<and> committed (majority n) A (is_Term args) j L)"

definition msgs_sim :: "int \<Rightarrow> 'c araft \<Rightarrow> ('c, 'd) cluster \<Rightarrow> bool" where
  "msgs_sim n A s \<longleftrightarrow> (\<forall>i t p args. vote_calls s i t p = VSent args \<longrightarrow> vote_sim A i t args)
     \<and> (\<forall>p args. (p, args) \<in> append_reqs s \<longrightarrow> append_sim n A p args)
     \<and> (\<forall>p args reply. (p, args, reply) \<in> append_replies s \<longrightarrow> aer_Success reply \<longrightarrow>
          ae_PrevLogIndex args + int (length (ae_Entries args)) \<le> int (acked A p (ae_Term args)))
     \<and> (\<forall>p args. (p, args) \<in> snap_reqs s \<longrightarrow> snap_sim n A p args)
     \<and> (\<forall>p args reply. (p, args, reply) \<in> snap_replies s \<longrightarrow> isr_Term reply \<le> is_Term args \<longrightarrow>
          is_LastIncludedIndex args \<le> int (acked A p (is_Term args)))"

definition cluster_sim :: "int \<Rightarrow> 'c araft \<Rightarrow> ('c, 'd) cluster \<Rightarrow> bool" where
  "cluster_sim n A s \<longleftrightarrow> a_inv (majority n) A \<and> avoted A = voted s
     \<and> (\<forall>p \<in> in_cluster n. peer_sim n A p (nodes s p)) \<and> msgs_sim n A s"

lemma cluster_simD:
  assumes "cluster_sim n A s"
  shows "a_inv (majority n) A" "avoted A = voted s" "\<And>p. 0 \<le> p \<Longrightarrow> p < n \<Longrightarrow> peer_sim n A p (nodes s p)" "msgs_sim n A s"
  using assms by (auto simp: cluster_sim_def)

lemma peer_simD:
  assumes "peer_sim n A p rf"
  shows "aterm A p = currentTerm rf" "log_sim (alog A p) rf"
    "committed (majority n) A (currentTerm rf) (nat (commitIndex rf)) (alog A p)" "lastApplied rf \<le> commitIndex rf"
    "role rf = Candidate \<Longrightarrow> acand A (currentTerm rf) p = Some (alog A p) \<and> alead A (currentTerm rf) \<noteq> Some p"
    "role rf = Leader \<Longrightarrow> alead A (currentTerm rf) = Some p \<and> alog A p = allog A (currentTerm rf)
       \<and> length (alog A p) \<le> acked A p (currentTerm rf)
       \<and> (\<forall>q \<in> in_cluster n. matchIndex rf ! nat q \<le> int (acked A q (currentTerm rf)))"
  using assms by (auto simp: peer_sim_def)

lemma peer_simI:
  assumes "aterm A p = currentTerm rf" "log_sim (alog A p) rf"
    "committed (majority n) A (currentTerm rf) (nat (commitIndex rf)) (alog A p)" "lastApplied rf \<le> commitIndex rf"
    "role rf = Candidate \<Longrightarrow> acand A (currentTerm rf) p = Some (alog A p) \<and> alead A (currentTerm rf) \<noteq> Some p"
    "role rf = Leader \<Longrightarrow> alead A (currentTerm rf) = Some p \<and> alog A p = allog A (currentTerm rf)
       \<and> length (alog A p) \<le> acked A p (currentTerm rf)"
    "\<And>q. role rf = Leader \<Longrightarrow> 0 \<le> q \<Longrightarrow> q < n \<Longrightarrow> matchIndex rf ! nat q \<le> int (acked A q (currentTerm rf))"
  shows "peer_sim n A p rf"
  unfolding peer_sim_def assms(1) using assms(2-7) by auto

lemma peer_sim_committed:
  "peer_sim n A p rf \<Longrightarrow> committed (majority n) A (aterm A p) (nat (commitIndex rf)) (alog A p)"
  unfolding peer_sim_def by blast

section \<open>Steps of one peer seen by the others\<close>

text \<open>A step of the protocol that is peer \<open>p\<close>'s, or none.\<close>

definition acts :: "int \<Rightarrow> int \<Rightarrow> 'c araft \<Rightarrow> 'c araft \<Rightarrow> bool" where
  "acts n p A A' \<longleftrightarrow> (A' = A \<or> a_step (majority n) A A') \<and> (\<forall>q. q \<noteq> p \<longrightarrow> aterm A' q = aterm A q \<and> alog A' q = alog A q
     \<and> (\<forall>t. acand A' t q = acand A t q \<and> (alead A' t = Some q \<longleftrightarrow> alead A t = Some q)
          \<and> (alead A t = Some q \<longrightarrow> allog A' t = allog A t)))"

lemma acts_refl: "acts n p A A"
  by (simp add: acts_def)

lemma acts_step:
  assumes "a_step (majority n) A A'"
    and "\<exists>t. A' = a_term p t A \<or> A' = a_stand p t A \<or> (\<exists>c. A' = a_vote p t c A) \<or> (\<exists>m. A' = a_adopt p t m A)
      \<or> (\<exists>Q. A' = a_lead p t Q A \<and> alead A t = None) \<or> (\<exists>e. A' = a_append p t e A \<and> alead A t = Some p)"
  shows "acts n p A A'"
  using assms by (auto simp: acts_def a_ops split: if_splits)

lemma acts_run: "acts n p A A' \<Longrightarrow> a_run (majority n) A A'"
  by (auto simp: acts_def intro: a_refl a_run_step)

lemma acts_acand:
  assumes "acts n p A A'" "a_inv (majority n) A" "acand A t c = Some cl" shows "acand A' t c = Some cl"
proof -
  from assms(1) consider "A' = A" | "a_step (majority n) A A'" by (auto simp: acts_def)
  then show ?thesis
  proof cases
    case 2
    then show ?thesis using assms(3) no_cand [OF a_invD(3) [OF assms(2)]]
      by (cases rule: a_step.cases) (auto simp: a_ops)
  qed (use assms in simp)
qed

lemma acts_acked:
  assumes "acts n p A A'" "a_inv (majority n) A" shows "acked A q t \<le> acked A' q t"
  using assms a_step_acked_mono [OF _ a_invD(6) [OF assms(2)]] by (auto simp: acts_def)

lemma acts_committed:
  assumes "acts n p A A'" "a_inv (majority n) A" "committed (majority n) A (aterm A q) c (alog A q)"
  shows "committed (majority n) A' (aterm A' q) c (alog A' q)"
  using assms maj.committed_log_step by (auto simp: acts_def)

lemma acts_from_leader:
  assumes "acts n p A A'" "a_inv (majority n) A" "from_leader A q t" shows "from_leader A' q t"
proof -
  have b: "abase A t \<noteq> None" "alead A t \<noteq> Some q" using assms(3) by (auto simp: from_leader_def)
  have b': "abase A' t \<noteq> None" using growsD(1) [OF a_run_grows [OF acts_run [OF assms(1)]] b(1)] b(1) by simp
  have "alead A' t = alead A t"
    using assms(1) b(1) inv_electedD(1) [OF a_invD(5) [OF assms(2)], of t]
    by (auto simp: acts_def a_ops elim!: a_step.cases split: if_splits)
  with b b' show ?thesis by (simp add: from_leader_def)
qed

lemma acts_inv: "acts n p A A' \<Longrightarrow> a_inv (majority n) A \<Longrightarrow> a_inv (majority n) A'"
  by (auto simp: acts_def intro: a_step_inv)

lemma committed_leader_run:
  assumes "a_run qm A A'" "a_inv qm A" "abase A t \<noteq> None" "committed qm A t c (allog A t)"
  shows "committed qm A' t c (allog A' t)"
proof (rule committed_prefix [OF committed_run [OF assms(1,2,4)]])
  show "agree c (allog A' t) (allog A t)"
    using grows_agree(1) [OF a_run_grows [OF assms(1)] assms(3), of c "allog A t"] committed_length [OF assms(4)] agree_sym
    by fastforce
qed

lemma acts_peer:
  assumes act: "acts n p A A'" and inv: "a_inv (majority n) A" and q: "q \<noteq> p" and sim: "peer_sim n A q rf"
  shows "peer_sim n A' q rf"
proof -
  from act q have f: "aterm A' q = aterm A q" "alog A' q = alog A q" "\<And>t. acand A' t q = acand A t q"
    "\<And>t. alead A' t = Some q \<longleftrightarrow> alead A t = Some q" "\<And>t. alead A t = Some q \<Longrightarrow> allog A' t = allog A t"
    by (auto simp: acts_def)
  have "committed (majority n) A' (aterm A' q) (nat (commitIndex rf)) (alog A' q)"
    by (rule acts_committed [OF act inv peer_sim_committed [OF sim]])
  then have com: "committed (majority n) A' (currentTerm rf) (nat (commitIndex rf)) (alog A' q)"
    using f(1) peer_simD(1) [OF sim] by simp
  note ack = acts_acked [OF act inv]
  have ack': "x \<le> int (acked A' r t)" if "x \<le> int (acked A r t)" for x r t using that ack [of r t] by linarith
  show ?thesis
  proof (rule peer_simI [OF _ _ com peer_simD(4) [OF sim]])
    assume l: "role rf = Leader"
    show "alead A' (currentTerm rf) = Some q \<and> alog A' q = allog A' (currentTerm rf)
       \<and> length (alog A' q) \<le> acked A' q (currentTerm rf)"
      using peer_simD(6) [OF sim l] f ack [of q "currentTerm rf"] by auto
    show "matchIndex rf ! nat r \<le> int (acked A' r (currentTerm rf))" if "0 \<le> r" "r < n" for r
      by (rule ack') (use peer_simD(6) [OF sim l] that in simp)
  qed (use f peer_simD(1,2,5) [OF sim] in simp_all)
qed

lemma append_sim_acts:
  assumes act: "acts n p A A'" and inv: "a_inv (majority n) A" and sim: "append_sim n A q args"
  shows "append_sim n A' q args"
proof -
  let ?t = "ae_Term args" and ?j = "nat (ae_PrevLogIndex args)" and ?k = "length (ae_Entries args)"
  have l: "from_leader A q ?t" and len: "?j + ?k \<le> length (allog A ?t)" using sim by (auto simp: append_sim_def Let_def)
  have b: "abase A ?t \<noteq> None" using l by (simp add: from_leader_def)
  from growsD(2) [OF a_run_grows [OF acts_run [OF act]] b] obtain R where R: "allog A' ?t = allog A ?t @ R" ..
  have "tm (allog A' ?t) ?j = tm (allog A ?t) ?j" "take ?k (drop ?j (allog A' ?t)) = take ?k (drop ?j (allog A ?t))"
    using R len by auto
  with sim acts_from_leader [OF act inv l] R committed_leader_run [OF acts_run [OF act] inv b]
  show ?thesis by (auto simp: append_sim_def Let_def)
qed

lemma snap_sim_acts:
  assumes act: "acts n p A A'" and inv: "a_inv (majority n) A" and sim: "snap_sim n A q args"
  shows "snap_sim n A' q args"
proof -
  let ?t = "is_Term args" and ?j = "nat (is_LastIncludedIndex args)"
  have l: "from_leader A q ?t" and c: "committed (majority n) A ?t ?j (allog A ?t)" using sim by (auto simp: snap_sim_def Let_def)
  have b: "abase A ?t \<noteq> None" using l by (simp add: from_leader_def)
  from growsD(2) [OF a_run_grows [OF acts_run [OF act]] b] obtain R where R: "allog A' ?t = allog A ?t @ R" ..
  have "tm (allog A' ?t) ?j = tm (allog A ?t) ?j" using R committed_length [OF c] by simp
  with sim acts_from_leader [OF act inv l] committed_leader_run [OF acts_run [OF act] inv b]
  show ?thesis by (auto simp: snap_sim_def Let_def)
qed

lemma msgs_sim_acts:
  assumes act: "acts n p A A'" and inv: "a_inv (majority n) A" and sim: "msgs_sim n A s"
  shows "msgs_sim n A' s"
  unfolding msgs_sim_def
proof (intro conjI allI impI)
  have ack: "x \<le> int (acked A' r t)" if "x \<le> int (acked A r t)" for x r t
    using that acts_acked [OF act inv, of r t] by linarith
  show "vote_sim A' i t args" if "vote_calls s i t p = VSent args" for i t p args
    using that sim acts_acand [OF act inv] unfolding msgs_sim_def vote_sim_def by blast
  show "append_sim n A' p args" if "(p, args) \<in> append_reqs s" for p args
    by (rule append_sim_acts [OF act inv]) (use that sim in \<open>simp add: msgs_sim_def\<close>)
  show "snap_sim n A' p args" if "(p, args) \<in> snap_reqs s" for p args
    by (rule snap_sim_acts [OF act inv]) (use that sim in \<open>simp add: msgs_sim_def\<close>)
  show "ae_PrevLogIndex args + int (length (ae_Entries args)) \<le> int (acked A' p (ae_Term args))"
    if "(p, args, reply) \<in> append_replies s" "aer_Success reply" for p args reply
    by (rule ack) (use that sim in \<open>simp add: msgs_sim_def\<close>)
  show "is_LastIncludedIndex args \<le> int (acked A' p (is_Term args))"
    if "(p, args, reply) \<in> snap_replies s" "isr_Term reply \<le> is_Term args" for p args reply
    by (rule ack) (use that sim in \<open>simp add: msgs_sim_def\<close>)
qed

text \<open>A peer moves as its abstract counterpart does.\<close>

lemma sim_move:
  assumes sim: "cluster_sim n A s" and act: "acts n p A A'" and v: "avoted A' = record_vote p rf (voted s)"
    and p: "peer_sim n A' p rf"
  shows "cluster_sim n A' (move p rf s)"
proof -
  note S = cluster_simD [OF sim]
  have "msgs_sim n A' (move p rf s)" using msgs_sim_acts [OF act S(1,4)] by (simp add: msgs_sim_def move_def)
  moreover have "peer_sim n A' q (nodes (move p rf s) q)" if "q \<in> in_cluster n" for q
    using p acts_peer [OF act S(1), of q "nodes s q"] S(3) [of q] that by auto
  ultimately show ?thesis using acts_inv [OF act S(1)] v by (simp add: cluster_sim_def)
qed

text \<open>A peer that keeps its term, vote and log moves without its counterpart.\<close>

lemma record_vote_same:
  assumes "history_ok s p" "currentTerm rf = currentTerm (nodes s p)" "votedFor rf = votedFor (nodes s p)"
  shows "record_vote p rf (voted s) = voted s"
  using assms by (auto simp: record_vote_def history_ok_def fun_eq_iff)

lemma elect_inv_history: "elect_inv n s \<Longrightarrow> 0 \<le> p \<Longrightarrow> p < n \<Longrightarrow> history_ok s p"
  by (simp add: elect_inv_def)

lemma sim_stutter:
  assumes sim: "cluster_sim n A s" and inv: "elect_inv n s" and p: "0 \<le> p" "p < n"
    and "currentTerm rf = currentTerm (nodes s p)" "votedFor rf = votedFor (nodes s p)" "peer_sim n A p rf"
  shows "cluster_sim n A (move p rf s)"
  by (rule sim_move [OF sim acts_refl _ assms(7)])
    (use record_vote_same [OF elect_inv_history [OF inv p] assms(5,6)] cluster_simD(2) [OF sim] in simp)

text \<open>A peer that only enters a higher term.\<close>

lemma sim_term:
  assumes sim: "cluster_sim n A s" and p: "0 \<le> p" "p < n" and t: "currentTerm (nodes s p) < t"
    and rf: "currentTerm rf = t" "votedFor rf = -1" "rlog rf = rlog (nodes s p)" "role rf = Follower"
      "lastIncludedIndex rf = lastIncludedIndex (nodes s p)" "lastIncludedTerm rf = lastIncludedTerm (nodes s p)"
      "commitIndex rf = commitIndex (nodes s p)" "lastApplied rf = lastApplied (nodes s p)"
  shows "cluster_sim n (a_term p t A) (move p rf s)" "acts n p A (a_term p t A)"
proof -
  note S = cluster_simD [OF sim]
  note P = S(3) [OF p]
  have "aterm A p < t" using t peer_simD(1) [OF P] by simp
  then show act: "acts n p A (a_term p t A)" by (intro acts_step s_term) blast+
  have "committed (majority n) (a_term p t A) (aterm (a_term p t A) p) (nat (commitIndex rf)) (alog (a_term p t A) p)"
    unfolding rf(7) by (rule acts_committed [OF act S(1) peer_sim_committed [OF P]])
  then have "peer_sim n (a_term p t A) p rf"
    using P log_sim_cong [OF peer_simD(2) [OF P], of rf] rf by (simp add: peer_sim_def a_term_def)
  then show "cluster_sim n (a_term p t A) (move p rf s)"
    by (rule sim_move [OF sim act, rotated]) (use rf(2) S(2) in \<open>simp add: a_term_def record_vote_def\<close>)
qed

end
