(* ===== verification/RaftSim.thy ===== *)
theory RaftSim
  imports RaftRefine
begin

text \<open>
  Every step of the cluster is a step of the abstract protocol, one handler at a time, and the runs of the
  cluster are therefore runs of the protocol.
\<close>

section \<open>Elections\<close>

lemma msgs_simD:
  assumes "msgs_sim n A s"
  shows "vote_calls s i t p = VSent vargs \<Longrightarrow> vote_sim A i t vargs" "(p, args) \<in> append_reqs s \<Longrightarrow> append_sim n A p args"
    "(p, args, reply) \<in> append_replies s \<Longrightarrow> aer_Success reply \<Longrightarrow>
       ae_PrevLogIndex args + int (length (ae_Entries args)) \<le> int (acked A p (ae_Term args))"
    "(p, sargs) \<in> snap_reqs s \<Longrightarrow> snap_sim n A p sargs"
    "(p, sargs, sreply) \<in> snap_replies s \<Longrightarrow> isr_Term sreply \<le> is_Term sargs \<Longrightarrow>
       is_LastIncludedIndex sargs \<le> int (acked A p (is_Term sargs))"
  using assms unfolding msgs_sim_def by blast+

lemma log_sim_lastTerm:
  assumes "log_sim F rf" "raft_wf rf" shows "lastLogTerm rf = Some (tm F (length F))"
proof -
  have "lastIncludedIndex rf \<le> int (length F)" using log_simD(2,3) [OF assms] by simp
  moreover have "int (length F) - lastIncludedIndex rf = int (length (rlog rf)) - 1"
    using log_sim_last [OF assms] by (simp add: lastLogIndex_def)
  ultimately show ?thesis
    using log_sim_termAt [OF assms, of "int (length F)"] by (simp add: termAt_def lastLogTerm_def getRelativeIndex_def)
qed

lemma record_vote_upd2: "votedFor rf \<noteq> -1 \<Longrightarrow> record_vote p rf h = upd2 h p (currentTerm rf) (Some (votedFor rf))"
  by (simp add: record_vote_def upd2_def)

lemma ticker_elects_log:
  assumes "ticker_tick rf now rnd = Some (rf', Some args)" "raft_wf rf"
  shows "rlog rf' = rlog rf" "lastIncludedIndex rf' = lastIncludedIndex rf" "lastIncludedTerm rf' = lastIncludedTerm rf"
    "commitIndex rf' = commitIndex rf" "lastApplied rf' = lastApplied rf" "rv_LastLogIndex args = lastLogIndex rf"
    "lastLogTerm rf = Some (rv_LastLogTerm args)"
  using assms(1) raft_wf_lastLogTerm [OF assms(2)]
  by (auto simp: ticker_tick_def Let_def startElection_eq [OF assms(2)] split: if_splits)

lemma new_term_no_leader:
  assumes "a_inv qm A" "aterm A p < t" shows "alead A t \<noteq> Some p"
proof
  assume l: "alead A t = Some p"
  with inv_electedD(1) [OF a_invD(5) [OF assms(1)], of t] obtain B where B: "abase A t = Some B" by auto
  from inv_leadersD(7) [OF a_invD(2) [OF assms(1)] this] l no_cand [OF a_invD(3) [OF assms(1)] assms(2)] show False by auto
qed

lemma sim_elect:
  assumes sim: "cluster_sim n A s" and inv: "elect_inv n s" and p: "0 \<le> p" "p < n"
    and st: "ticker_tick (nodes s p) now rnd = Some (rf, Some args)"
  shows "\<exists>A'. acts n p A A' \<and> cluster_sim n A' (set_votes p (rv_Term args) 1 (open_calls rf args (move p rf s)))"
proof -
  note S = cluster_simD [OF sim] and P = cluster_simD(3) [OF sim p] and W = elect_inv_peer [OF inv p]
  note E = ticker_elects [OF st W(1)] and L = ticker_elects_log [OF st W(1)]
  let ?t = "currentTerm (nodes s p) + 1" and ?A = "a_stand p (currentTerm (nodes s p) + 1) A"
  have lt: "aterm A p < ?t" using peer_simD(1) [OF P] by simp
  then have act: "acts n p A ?A" by (intro acts_step s_stand) blast+
  have com: "committed (majority n) ?A (aterm ?A p) (nat (commitIndex (nodes s p))) (alog ?A p)"
    by (rule acts_committed [OF act S(1) peer_sim_committed [OF P]])
  have "peer_sim n ?A p rf"
    by (rule peer_simI)
      (use E L com peer_simD(4) [OF P] log_sim_cong [OF peer_simD(2) [OF P]] new_term_no_leader [OF S(1) lt]
        in \<open>simp_all add: a_stand_def\<close>)
  moreover have "avoted ?A = record_vote p rf (voted s)"
    using E W(3) p S(2) by (simp add: record_vote_upd2 a_stand_def)
  ultimately have sim': "cluster_sim n ?A (move p rf s)" by (intro sim_move [OF sim act])
  have "vote_sim ?A p ?t args"
    using L(6,7) log_sim_last [OF peer_simD(2) [OF P] W(1)] log_sim_lastTerm [OF peer_simD(2) [OF P] W(1)]
    by (simp add: vote_sim_def a_stand_def)
  with sim' E W(3) have "cluster_sim n ?A (set_votes p (rv_Term args) 1 (open_calls rf args (move p rf s)))"
    by (auto simp: cluster_sim_def msgs_sim_def set_votes_def open_calls_def split: if_splits)
  with act show ?thesis by blast
qed

lemma sim_vote:
  assumes sim: "cluster_sim n A s" and inv: "elect_inv n s" and p: "0 \<le> p" "p < n"
    and call: "vote_calls s i t p = VSent args" and st: "RequestVote (nodes s p) args now = Some (rf, reply)"
  shows "\<exists>A'. acts n p A A' \<and> cluster_sim n A' (move p rf s)"
  using st
proof (cases rule: RequestVote_cases)
  case stale
  then show ?thesis using sim_stutter [OF sim inv p refl refl cluster_simD(3) [OF sim p]] acts_refl by blast
next
  case denied
  show ?thesis
  proof (cases "currentTerm (nodes s p) < rv_Term args")
    case True
    with denied sim_term [OF sim p True, of rf] show ?thesis by auto
  next
    case False
    with denied have "rf = nodes s p" by (simp add: bumpTerm_def)
    then show ?thesis using sim_stutter [OF sim inv p refl refl cluster_simD(3) [OF sim p]] acts_refl by blast
  qed
next
  case (granted lt)
  note S = cluster_simD [OF sim] and P = cluster_simD(3) [OF sim p] and W = elect_inv_peer [OF inv p]
  have c: "rv_Term args = t" "rv_CandidateId args = i" "i \<noteq> -1" using elect_inv_call [OF inv, of i t p] call by simp_all
  from msgs_simD(1) [OF S(4) call] obtain cl where cl: "acand A t i = Some cl" "rv_LastLogIndex args = int (length cl)"
    "rv_LastLogTerm args = tm cl (length cl)" by (auto simp: vote_sim_def)
  have "upToDate cl (alog A p)"
    using granted(5,6) cl log_sim_last [OF peer_simD(2) [OF P] W(1)] log_sim_lastTerm [OF peer_simD(2) [OF P] W(1)]
    by (auto simp: upToDate_def logUpToDate_def split: if_splits)
  moreover have "avoted A p t = None \<or> avoted A p t = Some i"
    using granted(1,4) c S(2) history_okD [OF W(5), of t] by (cases "voted s p t") auto
  moreover have le: "aterm A p \<le> t" using granted(1) c peer_simD(1) [OF P] by simp
  ultimately have act: "acts n p A (a_vote p t i A)" using cl(1) by (intro acts_step s_vote [of A p t i cl]) blast+
  let ?A = "a_vote p t i A"
  have com: "committed (majority n) ?A (aterm ?A p) (nat (commitIndex (nodes s p))) (alog ?A p)"
    by (rule acts_committed [OF act S(1) peer_sim_committed [OF P]])
  have rf: "currentTerm rf = t" "votedFor rf = i" "rlog rf = rlog (nodes s p)" "commitIndex rf = commitIndex (nodes s p)"
    "lastIncludedIndex rf = lastIncludedIndex (nodes s p)" "lastIncludedTerm rf = lastIncludedTerm (nodes s p)"
    "lastApplied rf = lastApplied (nodes s p)" "matchIndex rf = matchIndex (nodes s p)"
    "role rf = (if currentTerm (nodes s p) < t then Follower else role (nodes s p))"
    using granted(1,2) c by simp_all
  have "peer_sim n ?A p rf"
  proof (rule peer_simI)
    have same: "currentTerm (nodes s p) = t \<and> role (nodes s p) = role rf" if "role rf \<noteq> Follower"
      using that rf(9) granted(1) c by (auto split: if_splits)
    show "acand ?A (currentTerm rf) p = Some (alog ?A p) \<and> alead ?A (currentTerm rf) \<noteq> Some p" if r: "role rf = Candidate"
      unfolding rf(1) using peer_simD(5) [OF P] r same by (auto simp: a_vote_def)
    show "alead ?A (currentTerm rf) = Some p \<and> alog ?A p = allog ?A (currentTerm rf)
       \<and> length (alog ?A p) \<le> acked ?A p (currentTerm rf)" if r: "role rf = Leader"
      unfolding rf(1) using peer_simD(6) [OF P] r same by (auto simp: a_vote_def)
    show "matchIndex rf ! nat q \<le> int (acked ?A q (currentTerm rf))" if r: "role rf = Leader" "0 \<le> q" "q < n" for q
      unfolding rf(1,8) using peer_simD(6) [OF P] r same by (auto simp: a_vote_def)
  qed (use com peer_simD(4) [OF P] log_sim_cong [OF peer_simD(2) [OF P]] rf in \<open>simp_all add: a_vote_def\<close>)
  moreover have "avoted ?A = record_vote p rf (voted s)"
    using rf(1,2) c(3) S(2) by (simp add: record_vote_upd2 a_vote_def)
  ultimately have "cluster_sim n ?A (move p rf s)" by (intro sim_move [OF sim act])
  with act show ?thesis by blast
qed

lemma sim_calls:
  assumes "cluster_sim n A s" "c \<in> {VNone, VDone} \<or> (\<exists>r. c = VReplied r)"
  shows "cluster_sim n A (set_call i t p c s)" "cluster_sim n A (set_votes i t v s)"
  using assms by (auto simp: cluster_sim_def msgs_sim_def set_call_def set_votes_def)

text \<open>A majority of the votes makes the candidate the leader of its term: nobody else leads it.\<close>

lemma no_other_leader:
  assumes "a_inv (majority n) A" "majority n Q" "\<And>q. q \<in> Q \<Longrightarrow> avoted A q t = Some p" "alead A t \<noteq> Some p"
  shows "abase A t = None"
proof (rule ccontr)
  assume b: "abase A t \<noteq> None"
  note E = inv_electedD [OF a_invD(5) [OF assms(1)]]
  from maj.meet [OF E(2) [OF b] assms(2)] obtain q where "q \<in> avoters A t" "q \<in> Q" by blast
  with E(3) [OF b, of q] assms(3) [of q] assms(4) show False by simp
qed

lemma sim_lead:
  assumes sim: "cluster_sim n A s" and inv: "elect_inv n s" and p: "0 \<le> p" "p < n"
    and cand: "role (nodes s p) = Candidate"
    and maj: "n div 2 < int (card (supporters n s p (currentTerm (nodes s p))))"
  shows "\<exists>A'. acts n p A A' \<and> cluster_sim n A' (move p (becomeLeader (nodes s p) now) s)"
proof -
  let ?t = "currentTerm (nodes s p)" and ?Q = "supporters n s p (currentTerm (nodes s p))"
  let ?rf = "becomeLeader (nodes s p) now" and ?A = "a_lead p ?t ?Q A"
  note S = cluster_simD [OF sim] and P = cluster_simD(3) [OF sim p] and W = elect_inv_peer [OF inv p]
  note C = peer_simD(5) [OF P cand]
  have Q: "majority n ?Q" using maj p by (auto simp: majority_def supporters_def)
  have v: "avoted A q ?t = Some p" if "q \<in> ?Q" for q using that S(2) by (simp add: supporters_def)
  have none: "abase A ?t = None" by (rule no_other_leader [OF S(1) Q v]) (use C in auto)
  have st: "a_step (majority n) A ?A"
    by (rule s_lead) (use C none Q v peer_simD(1) [OF P] in auto)
  have act: "acts n p A ?A"
    by (rule acts_step [OF st]) (use none inv_electedD(1) [OF a_invD(5) [OF S(1)], of ?t] in blast)
  have com: "committed (majority n) ?A (aterm ?A p) (nat (commitIndex (nodes s p))) (alog ?A p)"
    by (rule acts_committed [OF act S(1) peer_sim_committed [OF P]])
  have mi: "matchIndex ?rf ! nat q = 0" if "0 \<le> q" "q < n" for q using that W(4) by (simp add: becomeLeader_def)
  have "peer_sim n ?A p ?rf"
    by (rule peer_simI)
      (use com mi peer_simD(1,4) [OF P] log_sim_cong [OF peer_simD(2) [OF P], of ?rf] in \<open>simp_all add: becomeLeader_def a_lead_def\<close>)
  moreover have "avoted ?A = record_vote p ?rf (voted s)"
    using record_vote_same [OF W(5), of ?rf] S(2) by (simp add: becomeLeader_def a_lead_def)
  ultimately show ?thesis using sim_move [OF sim act] act by blast
qed

lemma sim_vote_reply:
  assumes sim: "cluster_sim n A s" and inv: "elect_inv n s" and p: "0 \<le> p" "p < n"
    and call: "vote_calls s p t q = VReplied reply" and st: "handleVoteReply (nodes s p) (votes s p t) t reply now = (rf, v)"
    and lead: "role rf = Leader \<Longrightarrow> n div 2 < int (card (supporters n s p (currentTerm rf)))"
  shows "\<exists>A'. acts n p A A' \<and> cluster_sim n A' (set_votes p t v (set_call p t q VDone (move p rf s)))"
proof -
  have "\<exists>A'. acts n p A A' \<and> cluster_sim n A' (move p rf s)"
  proof (cases "rf = nodes s p")
    case True
    then show ?thesis using sim_stutter [OF sim inv p refl refl cluster_simD(3) [OF sim p]] acts_refl by blast
  next
    case False
    then consider "rf = stepDown (nodes s p) (rvr_Term reply)" "currentTerm (nodes s p) < rvr_Term reply"
      | "rf = becomeLeader (nodes s p) now" "role (nodes s p) = Candidate"
      using st by (auto simp: handleVoteReply_def Let_def split: if_splits)
    then show ?thesis
    proof cases
      case 1
      with sim_term [OF sim p 1(2), of rf] show ?thesis by auto
    next
      case 2
      with sim_lead [OF sim inv p 2(2)] lead show ?thesis by (simp add: becomeLeader_def)
    qed
  qed
  then obtain A' where "acts n p A A'" "cluster_sim n A' (move p rf s)" by blast
  with sim_calls(2) [OF sim_calls(1), of n A' "move p rf s" VDone] show ?thesis by blast
qed

section \<open>The leader's log\<close>

lemma sim_start:
  assumes sim: "cluster_sim n A s" and inv: "elect_inv n s" and p: "0 \<le> p" "p < n" and st: "Start (nodes s p) c = (rf, r)"
  shows "\<exists>A'. acts n p A A' \<and> cluster_sim n A' (move p rf s)"
proof (cases "role (nodes s p) = Leader")
  case False
  with st have "rf = nodes s p" by (simp add: Start_def)
  then show ?thesis using sim_stutter [OF sim inv p refl refl cluster_simD(3) [OF sim p]] acts_refl by blast
next
  case True
  let ?t = "currentTerm (nodes s p)" and ?e = "\<lparr>le_Command = Some c, le_Term = currentTerm (nodes s p)\<rparr>"
  let ?A = "a_append p ?t ?e A"
  note S = cluster_simD [OF sim] and P = cluster_simD(3) [OF sim p] and W = elect_inv_peer [OF inv p]
  note L = peer_simD(6) [OF P True]
  from True st have rf: "rf = persist ((nodes s p)\<lparr>rlog := rlog (nodes s p) @ [?e]\<rparr>)" by (simp add: Start_def Let_def)
  have "a_step (majority n) A ?A" by (rule s_append) (use L peer_simD(1) [OF P] in simp_all)
  then have act: "acts n p A ?A" by (rule acts_step) (use L in blast)
  have com: "committed (majority n) ?A (aterm ?A p) (nat (commitIndex (nodes s p))) (alog ?A p)"
    by (rule acts_committed [OF act S(1) peer_sim_committed [OF P]])
  have lg: "log_sim (alog ?A p) rf"
    using peer_simD(2) [OF P] W(1) unfolding rf by (auto simp: log_sim_def a_append_def raft_wf_def)
  have "peer_sim n ?A p rf"
  proof (rule peer_simI [OF _ lg])
    show "matchIndex rf ! nat q \<le> int (acked ?A q (currentTerm rf))" if "role rf = Leader" "0 \<le> q" "q < n" for q
    proof -
      have "matchIndex (nodes s p) ! nat q \<le> int (acked A q ?t)" using L that by simp
      also have "\<dots> \<le> int (acked ?A q ?t)" using acts_acked [OF act S(1)] by simp
      finally show ?thesis by (simp add: rf)
    qed
  qed (use com L peer_simD(1,4) [OF P] True in \<open>simp_all add: rf a_append_def\<close>)
  moreover have "avoted ?A = record_vote p rf (voted s)"
    using record_vote_same [OF W(5), of rf] S(2) by (simp add: rf a_append_def)
  ultimately show ?thesis using sim_move [OF sim act] act by blast
qed

lemma log_sim_drop:
  assumes "log_sim F rf" "raft_wf rf" "lastIncludedIndex rf \<le> j"
  shows "drop (Suc (nat (j - lastIncludedIndex rf))) (rlog rf) = drop (nat j) F"
proof -
  note l = log_simD [OF assms(1,2)]
  have "nat (j - lastIncludedIndex rf) + nat (lastIncludedIndex rf) = nat j" using assms(3) l(2) by simp
  then show ?thesis by (subst l(1)) simp
qed

lemma leader_from:
  assumes "a_inv qm A" "alead A t = Some p" "q \<noteq> p" shows "from_leader A q t"
  using assms inv_electedD(1) [OF a_invD(5) [OF assms(1)], of t] by (auto simp: from_leader_def)

lemma sim_send:
  assumes sim: "cluster_sim n A s" and inv: "elect_inv n s" and p: "0 \<le> p" "p < n" and q: "q \<noteq> p"
    and st: "sendAppendEntriesToPeer (nodes s p) q t = Some (SendEntries args)"
  shows "cluster_sim n A (s\<lparr>append_reqs := insert (q, args) (append_reqs s)\<rparr>)"
proof -
  let ?rf = "nodes s p" and ?F = "alog A p"
  note S = cluster_simD [OF sim] and P = cluster_simD(3) [OF sim p] and W = elect_inv_peer [OF inv p]
  note lg = peer_simD(2) [OF P] W(1)
  from st obtain ni where lead: "role ?rf = Leader" "currentTerm ?rf = t" and ni: "lastIncludedIndex ?rf < ni"
    and nth: "ni - 1 - lastIncludedIndex ?rf < int (length (rlog ?rf))"
    and args: "args = \<lparr>ae_Term = t, ae_LeaderId = me ?rf, ae_PrevLogIndex = ni - 1,
      ae_PrevLogTerm = le_Term (rlog ?rf ! nat (ni - 1 - lastIncludedIndex ?rf)),
      ae_Entries = drop (nat (ni - lastIncludedIndex ?rf)) (rlog ?rf), ae_LeaderCommit = commitIndex ?rf\<rparr>"
    by (auto simp: sendAppendEntriesToPeer_def getRelativeIndex_def bind_Some_iff go_nth_Some go_from_Some Let_def split: if_splits)
  note L = peer_simD(6) [OF P lead(1)]
  have j: "lastIncludedIndex ?rf \<le> ni - 1" "ni - 1 \<le> int (length ?F)" "0 \<le> ni - 1"
    using ni nth log_sim_last [OF lg] log_simD(2) [OF lg] by (simp_all add: lastLogIndex_def)
  have "ni - lastIncludedIndex ?rf = 1 + (ni - 1 - lastIncludedIndex ?rf)" by simp
  with j(1) have "nat (ni - lastIncludedIndex ?rf) = Suc (nat (ni - 1 - lastIncludedIndex ?rf))" by linarith
  with log_sim_drop [OF lg j(1)] have es: "ae_Entries args = drop (nat (ni - 1)) ?F" by (simp add: args)
  have "termAt ?rf (ni - 1) = Some (ae_PrevLogTerm args)"
    using termAt_in [OF W(1) j(1)] j(2) log_sim_last [OF lg] by (simp add: args)
  with log_sim_termAt [OF lg j(1,2)] have pt: "ae_PrevLogTerm args = tm ?F (nat (ni - 1))" by simp
  have "append_sim n A q args"
    using es pt L lead leader_from [OF S(1) _ q, of t] j(2,3) peer_simD(3) [OF P]
    by (simp add: append_sim_def Let_def args)
  with sim show ?thesis by (auto simp: cluster_sim_def msgs_sim_def)
qed

lemma sim_send_snap:
  assumes sim: "cluster_sim n A s" and inv: "elect_inv n s" and p: "0 \<le> p" "p < n" and q: "q \<noteq> p"
    and st: "sendAppendEntriesToPeer (nodes s p) q t = Some (SendSnapshot sargs)"
  shows "cluster_sim n A (s\<lparr>snap_reqs := insert (q, sargs) (snap_reqs s)\<rparr>)"
proof -
  let ?rf = "nodes s p"
  note S = cluster_simD [OF sim] and P = cluster_simD(3) [OF sim p] and W = elect_inv_peer [OF inv p]
  from st have lead: "role ?rf = Leader" "currentTerm ?rf = t" and args: "is_Term sargs = t"
    "is_LastIncludedIndex sargs = lastIncludedIndex ?rf" "is_LastIncludedTerm sargs = lastIncludedTerm ?rf"
    by (auto simp: sendAppendEntriesToPeer_def bind_Some_iff Let_def split: if_splits)
  note L = peer_simD(6) [OF P lead(1)]
  have "committed (majority n) A t (nat (lastIncludedIndex ?rf)) (alog A p)"
    by (rule committed_mono [OF peer_simD(3) [OF P]]) (use lead W(1) in \<open>auto simp: raft_wf_def\<close>)
  with L lead args leader_from [OF S(1) _ q, of t] peer_simD(2) [OF P] W(1) have "snap_sim n A q sargs"
    by (auto simp: snap_sim_def Let_def log_sim_def raft_wf_def)
  with sim show ?thesis by (auto simp: cluster_sim_def msgs_sim_def)
qed

section \<open>Followers\<close>

text \<open>A peer that answers the leader of term \<open>t\<close> takes over a prefix of its log, possibly an empty one.\<close>

lemma sim_adopt:
  assumes sim: "cluster_sim n A s" and inv: "elect_inv n s" and p: "0 \<le> p" "p < n"
    and t: "from_leader A p t" "currentTerm (nodes s p) \<le> t" "m \<le> length (allog A t)"
    and rf: "currentTerm rf = t" "role rf = Follower"
      "votedFor rf = (if currentTerm (nodes s p) < t then -1 else votedFor (nodes s p))"
    and lg: "log_sim (adopt m (alog A p) (allog A t)) rf" "lastApplied rf \<le> commitIndex rf"
    and com: "committed (majority n) A t (nat (commitIndex rf)) (adopt m (alog A p) (allog A t))"
  shows "acts n p A (a_adopt p t m A)" "cluster_sim n (a_adopt p t m A) (move p rf s)"
    "m \<le> acked (a_adopt p t m A) p t"
proof -
  let ?A = "a_adopt p t m A"
  note S = cluster_simD [OF sim] and P = cluster_simD(3) [OF sim p] and W = elect_inv_peer [OF inv p]
  have "a_step (majority n) A ?A"
    by (rule s_adopt) (use t peer_simD(1) [OF P] in \<open>simp_all add: from_leader_def\<close>)
  then show act: "acts n p A ?A" by (rule acts_step) blast
  have "committed (majority n) ?A t (nat (commitIndex rf)) (adopt m (alog A p) (allog A t))"
    by (rule committed_run [OF acts_run [OF act] S(1) com])
  then have "peer_sim n ?A p rf" by (intro peer_simI) (use rf lg in \<open>simp_all add: a_adopt_def\<close>)
  moreover have "avoted ?A = record_vote p rf (voted s)"
    using rf(1,3) t(2) S(2) record_vote_same [OF W(5), of rf]
    by (cases "currentTerm (nodes s p) < t") (simp_all add: a_adopt_def record_vote_def [of p rf] order_less_le)
  ultimately show "cluster_sim n ?A (move p rf s)" by (intro sim_move [OF sim act])
  show "m \<le> acked ?A p t" by (simp add: a_adopt_def)
qed

lemma adopt_0 [simp]: "adopt 0 F L = F"
  by (simp add: adopt_def)

lemma committed_max: "committed qm A b c F \<Longrightarrow> committed qm A b d F \<Longrightarrow> committed qm A b (max c d) F"
  by (simp add: max_def)

text \<open>A peer that hears from the leader of its own term is not that leader.\<close>

lemma not_leader:
  assumes "cluster_sim n A s" "0 \<le> p" "p < n" "from_leader A p t" "currentTerm (nodes s p) \<le> t"
  shows "role (acceptLeader (nodes s p) t) = Follower"
proof -
  have "role (nodes s p) \<noteq> Leader" if "currentTerm (nodes s p) = t"
    using peer_simD(6) [OF cluster_simD(3) [OF assms(1-3)]] assms(4) that by (auto simp: from_leader_def)
  with assms(5) show ?thesis by (cases "role (nodes s p)") auto
qed

text \<open>The merged log is the part of the adopted log after the snapshot.\<close>

lemma mergedLog_sim:
  assumes lg: "log_sim F rf" "raft_wf rf" and prev: "lastIncludedIndex rf \<le> ae_PrevLogIndex args" "ae_PrevLogIndex args \<le> lastLogIndex rf"
    and tm: "termAt rf (ae_PrevLogIndex args) = Some (tm L (nat (ae_PrevLogIndex args)))"
    and L: "log_ok A b F" "log_ok A d L" "nat (ae_PrevLogIndex args) + length (ae_Entries args) \<le> length L"
      "ae_Entries args = take (length (ae_Entries args)) (drop (nat (ae_PrevLogIndex args)) L)"
  shows "tl (mergedLog rf args) = drop (nat (lastIncludedIndex rf)) (adopt (nat (ae_PrevLogIndex args) + length (ae_Entries args)) F L)"
    "agree (nat (ae_PrevLogIndex args)) F L"
proof -
  let ?j = "nat (ae_PrevLogIndex args)" and ?k = "length (ae_Entries args)" and ?l = "nat (lastIncludedIndex rf)"
  note l = log_simD [OF lg]
  have j: "?l \<le> ?j" "?j \<le> length F" using prev l(2) log_sim_last [OF lg] by simp_all
  have tj: "tm F ?j = tm L ?j"
    using tm log_sim_termAt [OF lg prev(1)] prev(2) log_sim_last [OF lg] by simp
  show "agree ?j F L" using log_matching_abs [OF L(1,2) j(2) _ tj] L(3) by simp
  have r: "nat (ae_PrevLogIndex args + 1 - lastIncludedIndex rf) = Suc (?j - ?l)" using prev(1) l(2) by simp
  have d: "drop (Suc (?j - ?l)) (rlog rf) = drop ?j F"
    using log_sim_drop [OF lg prev(1)] prev(1) l(2) by (simp add: nat_diff_distrib)
  have "mergedLog rf args = take (Suc (?j - ?l)) (rlog rf) @ mergeLog (drop ?j F) (ae_Entries args)"
    by (simp only: mergedLog_def Let_def r d)
  also have "take (Suc (?j - ?l)) (rlog rf) = hd (rlog rf) # take (?j - ?l) (drop ?l F)" by (subst l(1)) simp
  finally have "tl (mergedLog rf args) = take (?j - ?l) (drop ?l F) @ mergeLog (drop ?j F) (ae_Entries args)" by simp
  also have "\<dots> = drop ?l (take ?j F @ mergeLog (drop ?j F) (ae_Entries args))" using j by (simp add: drop_take)
  also have "take ?j F @ mergeLog (drop ?j F) (ae_Entries args) = adopt (?j + ?k) F L"
    using merge_is_adopt [OF L(1,2) j(2) tj L(3)] L(4) by simp
  finally show "tl (mergedLog rf args) = drop ?l (adopt (?j + ?k) F L)" .
qed

lemma sim_log_ok: "cluster_sim n A s \<Longrightarrow> log_ok A (aterm A p) (alog A p)"
  using a_invD(1) [OF cluster_simD(1)] by (auto simp: inv_logs_def)

lemma sim_leader_ok: "cluster_sim n A s \<Longrightarrow> from_leader A p t \<Longrightarrow> log_ok A t (allog A t)"
  using inv_leadersD(2) [OF a_invD(2) [OF cluster_simD(1)]] by (auto simp: from_leader_def)

lemma sim_reject:
  assumes sim: "cluster_sim n A s" and inv: "elect_inv n s" and p: "0 \<le> p" "p < n"
    and t: "from_leader A p t" "currentTerm (nodes s p) \<le> t" and m: "agree m (alog A p) (allog A t)"
    and rf_def: "rf = (acceptLeader (nodes s p) t)\<lparr>lastHeartbeat := now\<rparr>"
  shows "acts n p A (a_adopt p t m A)" "cluster_sim n (a_adopt p t m A) (move p rf s)" "m \<le> acked (a_adopt p t m A) p t"
proof -
  note P = cluster_simD(3) [OF sim p]
  have ad: "adopt m (alog A p) (allog A t) = alog A p" using m by (simp add: adopt_def)
  have com: "committed (majority n) A t (nat (commitIndex (nodes s p))) (alog A p)"
    using committed_mono [OF peer_simD(3) [OF P] t(2) order_refl] .
  have lg: "log_sim (alog A p) rf" by (rule log_sim_cong [OF peer_simD(2) [OF P]]) (simp_all add: rf_def)
  have rf: "currentTerm rf = t" "role rf = Follower" "commitIndex rf = commitIndex (nodes s p)" "lastApplied rf = lastApplied (nodes s p)"
    "votedFor rf = (if currentTerm (nodes s p) < t then -1 else votedFor (nodes s p))"
    using not_leader [OF sim p t] t(2) by (simp_all add: rf_def)
  have la: "lastApplied rf \<le> commitIndex rf" using rf peer_simD(4) [OF P] by simp
  note sim_adopt [OF sim inv p t conjunct2 [OF agree_length [OF m]] rf(1,2,5), unfolded ad, OF lg la]
  with com rf(3) show "acts n p A (a_adopt p t m A)" "cluster_sim n (a_adopt p t m A) (move p rf s)" "m \<le> acked (a_adopt p t m A) p t"
    by simp_all
qed

lemma sim_append_accept:
  assumes sim: "cluster_sim n A s" and inv: "elect_inv n s" and p: "0 \<le> p" "p < n"
    and args: "append_sim n A p args" and ct: "currentTerm (nodes s p) \<le> ae_Term args"
    and prev: "lastIncludedIndex (nodes s p) \<le> ae_PrevLogIndex args" "ae_PrevLogIndex args \<le> lastLogIndex (nodes s p)"
      "termAt (nodes s p) (ae_PrevLogIndex args) = Some (ae_PrevLogTerm args)"
    and rf: "currentTerm rf = ae_Term args" "role rf = Follower" "rlog rf = mergedLog (nodes s p) args"
      "votedFor rf = (if currentTerm (nodes s p) < ae_Term args then -1 else votedFor (nodes s p))"
      "lastIncludedIndex rf = lastIncludedIndex (nodes s p)" "lastIncludedTerm rf = lastIncludedTerm (nodes s p)"
      "lastApplied rf = lastApplied (nodes s p)"
      "commitIndex rf = max (commitIndex (nodes s p)) (min (ae_LeaderCommit args) (ae_PrevLogIndex args + int (length (ae_Entries args))))"
  defines "A' \<equiv> a_adopt p (ae_Term args) (nat (ae_PrevLogIndex args) + length (ae_Entries args)) A"
  shows "acts n p A A' \<and> cluster_sim n A' (move p rf s)
    \<and> nat (ae_PrevLogIndex args) + length (ae_Entries args) \<le> acked A' p (ae_Term args)"
proof -
  let ?t = "ae_Term args" and ?j = "nat (ae_PrevLogIndex args)" and ?k = "length (ae_Entries args)"
  let ?L = "allog A ?t" and ?F = "alog A p" and ?l = "nat (lastIncludedIndex (nodes s p))"
  note S = cluster_simD [OF sim] and P = cluster_simD(3) [OF sim p] and W = elect_inv_peer [OF inv p]
  note lg = peer_simD(2) [OF P] W(1)
  have fl: "from_leader A p ?t" and ar: "0 \<le> ae_PrevLogIndex args" "?j + ?k \<le> length ?L" "ae_PrevLogTerm args = tm ?L ?j"
    "ae_Entries args = take ?k (drop ?j ?L)" "committed (majority n) A ?t (nat (ae_LeaderCommit args)) ?L"
    using args by (simp_all add: append_sim_def Let_def)
  note M = mergedLog_sim [OF lg prev(1,2) prev(3) [unfolded ar(3)] sim_log_ok [OF sim] sim_leader_ok [OF sim fl] ar(2,4)]
  have keep: "agree ?l (adopt (?j + ?k) ?F ?L) ?F"
    by (rule agree_mono [OF adopt_keeps [OF M(2)]]) (use prev(1) in simp)
  have lg': "log_sim (adopt (?j + ?k) ?F ?L) rf"
    using M(1) rf lg(1) agree_length [OF keep] agree_tm [OF keep order_refl] by (simp add: log_sim_def)
  have "committed (majority n) A ?t (nat (commitIndex (nodes s p))) (adopt (?j + ?k) ?F ?L)"
    using maj.committed_adopt [OF S(1) peer_simD(3) [OF P] _ ct] fl by (simp add: from_leader_def)
  moreover have "committed (majority n) A ?t (min (nat (ae_LeaderCommit args)) (?j + ?k)) (adopt (?j + ?k) ?F ?L)"
    by (rule maj.committed_from_leader [OF ar(5,2)])
  moreover have "nat (commitIndex rf) = max (nat (commitIndex (nodes s p))) (min (nat (ae_LeaderCommit args)) (?j + ?k))"
    using ar(1) by (simp add: rf(8) max_def min_def nat_le_iff nat_add_distrib)
  ultimately have com: "committed (majority n) A ?t (nat (commitIndex rf)) (adopt (?j + ?k) ?F ?L)"
    by (simp add: committed_max)
  have la: "lastApplied rf \<le> commitIndex rf" using peer_simD(4) [OF P] by (simp add: rf)
  show ?thesis
    unfolding A'_def using sim_adopt [OF sim inv p fl ct ar(2) rf(1,2,4) lg' la com] by blast
qed

lemma sim_append:
  assumes sim: "cluster_sim n A s" and inv: "elect_inv n s" and p: "0 \<le> p" "p < n"
    and req: "(p, args) \<in> append_reqs s" and st: "AppendEntries (nodes s p) args now = Some (rf, reply)"
  shows "\<exists>A'. acts n p A A' \<and> cluster_sim n A' ((move p rf s)\<lparr>append_replies := insert (p, args, reply) (append_replies s)\<rparr>)"
proof -
  note S = cluster_simD [OF sim] and P = cluster_simD(3) [OF sim p] and W = elect_inv_peer [OF inv p]
  note ar = msgs_simD(2) [OF S(4) req]
  then have fl: "from_leader A p (ae_Term args)" by (simp add: append_sim_def Let_def)
  have "\<exists>A'. acts n p A A' \<and> cluster_sim n A' (move p rf s)
    \<and> (aer_Success reply \<longrightarrow> nat (ae_PrevLogIndex args) + length (ae_Entries args) \<le> acked A' p (ae_Term args))"
    using st W(1)
  proof (cases rule: AppendEntries_cases)
    case stale
    then show ?thesis using sim_stutter [OF sim inv p refl refl P] acts_refl by blast
  next
    case rejected
    with sim_reject(1,2) [OF sim inv p fl rejected(1) agree_0 rejected(2)] show ?thesis by blast
  next
    case (accepted rf1)
    note sim_append_accept [OF sim inv p ar accepted(1-4), of rf]
    with accepted not_leader [OF sim p fl] show ?thesis by (auto simp: updateFollowerCommit_eq max_def)
  qed
  then obtain A' where A': "acts n p A A'" "cluster_sim n A' (move p rf s)"
    "aer_Success reply \<Longrightarrow> nat (ae_PrevLogIndex args) + length (ae_Entries args) \<le> acked A' p (ae_Term args)" by blast
  have "0 \<le> ae_PrevLogIndex args" using ar by (simp add: append_sim_def Let_def)
  then have "ae_PrevLogIndex args + int (length (ae_Entries args)) \<le> int (acked A' p (ae_Term args))" if "aer_Success reply"
    using A'(3) [OF that] by linarith
  with A'(2) have "cluster_sim n A' ((move p rf s)\<lparr>append_replies := insert (p, args, reply) (append_replies s)\<rparr>)"
    by (auto simp: cluster_sim_def msgs_sim_def move_def)
  with A'(1) show ?thesis by blast
qed

section \<open>Replies to the leader\<close>

lemma peer_sim_leader:
  assumes "peer_sim n A p rf" "role rf = Leader"
  shows "alead A (currentTerm rf) = Some p" "alog A p = allog A (currentTerm rf)"
    "length (alog A p) \<le> acked A p (currentTerm rf)" "length (allog A (currentTerm rf)) \<le> acked A p (currentTerm rf)"
    "\<And>q. 0 \<le> q \<Longrightarrow> q < n \<Longrightarrow> matchIndex rf ! nat q \<le> int (acked A q (currentTerm rf))"
  using peer_simD(6) [OF assms] by auto

text \<open>What \<open>updateCommitIndex\<close> may commit has been taken over by a majority.\<close>

lemma committable_chosen:
  assumes inv: "a_inv (majority n) A" and p: "0 \<le> p" "p < n" and wf: "raft_wf rf" "me rf = p" "npeers rf = n"
    and L: "log_sim (alog A p) rf" "alead A (currentTerm rf) = Some p" "alog A p = allog A (currentTerm rf)"
      "length (alog A p) \<le> acked A p (currentTerm rf)"
    and mi: "\<And>q. 0 \<le> q \<Longrightarrow> q < n \<Longrightarrow> matchIndex rf ! nat q \<le> int (acked A q (currentTerm rf))"
    and k: "committable rf k"
  shows "committed (majority n) A (currentTerm rf) (nat k) (alog A p)"
proof -
  let ?t = "currentTerm rf" and ?Q = "insert p {q \<in> in_cluster n. q \<noteq> p \<and> k \<le> matchIndex rf ! nat q}"
  have k': "commitIndex rf < k" "k \<le> lastLogIndex rf" "termAt rf k = Some ?t" "n div 2 < replicas rf k"
    using k wf(3) by (auto simp: committable_def)
  have k1: "lastIncludedIndex rf \<le> k" "1 \<le> nat k" "nat k \<le> length (alog A p)"
    using k'(1,2) wf(1) log_sim_last [OF L(1) wf(1)] by (auto simp: raft_wf_def)
  have "tm (alog A p) (nat k) = ?t" using log_sim_termAt [OF L(1) wf(1) k1(1)] k1(3) k'(3) by simp
  moreover have Q: "majority n ?Q"
  proof -
    have "set (filter (\<lambda>q. q \<noteq> me rf \<and> k \<le> matchIndex rf ! nat q) (peers rf))
        = {q \<in> in_cluster n. q \<noteq> p \<and> k \<le> matchIndex rf ! nat q}" using wf by auto
    then have "length (filter (\<lambda>q. q \<noteq> me rf \<and> k \<le> matchIndex rf ! nat q) (peers rf))
        = card {q \<in> in_cluster n. q \<noteq> p \<and> k \<le> matchIndex rf ! nat q}"
      using distinct_card [of "filter (\<lambda>q. q \<noteq> me rf \<and> k \<le> matchIndex rf ! nat q) (peers rf)"] by simp
    moreover have "finite {q \<in> in_cluster n. q \<noteq> p \<and> k \<le> matchIndex rf ! nat q}"
      by (rule finite_subset [of _ "in_cluster n"]) auto
    ultimately have "int (card ?Q) = replicas rf k" by (simp add: replicas_def)
    with k'(4) p show ?thesis by (auto simp: majority_def)
  qed
  moreover have ak: "nat k \<le> acked A q ?t" if "q \<in> ?Q" for q
  proof (cases "q = p")
    case False
    with that mi [of q] show ?thesis by (simp add: nat_le_iff)
  qed (use k1(3) L(4) in simp)
  moreover have "abase A ?t \<noteq> None" using L(2) inv_electedD(1) [OF a_invD(5) [OF inv], of ?t] by auto
  moreover have "\<exists>Q. majority n Q \<and> (\<forall>q \<in> Q. nat k \<le> acked A q ?t)" using Q ak by blast
  ultimately have "chosen (majority n) A ?t (nat k)" using k1 L(3) by (simp add: chosen_def)
  then show ?thesis by (rule chosen_committed) (use k1(3) L(3) in simp)
qed

lemma sim_append_reply:
  assumes sim: "cluster_sim n A s" and inv: "elect_inv n s" and p: "0 \<le> p" "p < n"
    and rep: "(q, args, reply) \<in> append_replies s"
    and st: "handleAppendReply (nodes s p) q (ae_Term args) args reply = Some rf"
  shows "\<exists>A'. acts n p A A' \<and> cluster_sim n A' (move p rf s)"
proof -
  note S = cluster_simD [OF sim] and P = cluster_simD(3) [OF sim p] and W = elect_inv_peer [OF inv p]
  from st W(1) show ?thesis
  proof (cases rule: handleAppendReply_cases)
    case ignored
    then show ?thesis using sim_stutter [OF sim inv p refl refl P] acts_refl by blast
  next
    case deposed
    with sim_term [OF sim p, of "aer_Term reply" rf] show ?thesis by auto
  next
    case (matched rf1)
    note L = peer_sim_leader [OF P matched(1)]
    have ack: "ae_PrevLogIndex args + int (length (ae_Entries args)) \<le> int (acked A q (ae_Term args))"
      by (rule msgs_simD(3) [OF S(4) rep matched(4)])
    have len: "int (length (matchIndex (nodes s p))) = n" using W(1,4) by (simp add: raft_wf_def)
    have mi: "matchIndex rf1 ! nat r \<le> int (acked A r (currentTerm rf1))" if "0 \<le> r" "r < n" for r
      using ack L matched(2,5,6,7) that len by (cases "r = q") (auto simp: nth_list_update)
    have lg: "log_sim (alog A p) rf1" by (rule log_sim_cong [OF peer_simD(2) [OF P]]) (simp_all add: matched(7))
    have com: "committed (majority n) A (currentTerm rf1) (nat k) (alog A p)" if "committable rf1 k" for k
      by (rule committable_chosen [OF S(1) p matched(8) _ _ lg _ _ _ mi that]) (use L W in \<open>simp_all add: matched(7)\<close>)
    have "peer_sim n A p rf1"
      by (rule peer_simI) (use P lg L mi peer_simD(1,3,4) [OF P] matched(1) in \<open>simp_all add: matched(7)\<close>)
    then have "peer_sim n A p rf" if "commitIndex rf1 \<le> k" "rf = rf1\<lparr>commitIndex := k\<rparr>"
      "committed (majority n) A (currentTerm rf1) (nat k) (alog A p)" for k
      by (intro peer_simI) (use that log_sim_cong [OF lg, of rf] in \<open>auto simp: peer_sim_def\<close>)
    moreover have "commitIndex rf1 \<le> k" if "committable rf1 k" for k using that by (simp add: committable_def)
    ultimately have "peer_sim n A p rf"
      using updateCommitIndex_cases [OF matched(8)] matched(9) com \<open>peer_sim n A p rf1\<close> by auto
    moreover have "currentTerm rf = currentTerm (nodes s p)" "votedFor rf = votedFor (nodes s p)"
      using updateCommitIndex_raises [OF matched(8,9)] by (auto simp: matched(7))
    ultimately show ?thesis using sim_stutter [OF sim inv p] acts_refl by blast
  next
    case (backed_up ni)
    have "peer_sim n A p rf"
      by (rule peer_simI)
        (use P peer_simD(1-4) [OF P] peer_sim_leader [OF P backed_up(1)] log_sim_cong [OF peer_simD(2) [OF P], of rf] backed_up in simp_all)
    then show ?thesis using sim_stutter [OF sim inv p, of rf] backed_up(5) acts_refl by auto
  qed
qed

lemma sim_snap_reply:
  assumes sim: "cluster_sim n A s" and inv: "elect_inv n s" and p: "0 \<le> p" "p < n"
    and rep: "(q, sargs, reply) \<in> snap_replies s"
    and st: "handleSnapshotReply (nodes s p) q (is_Term sargs) sargs reply = Some rf"
  shows "\<exists>A'. acts n p A A' \<and> cluster_sim n A' (move p rf s)"
proof -
  note S = cluster_simD [OF sim] and P = cluster_simD(3) [OF sim p] and W = elect_inv_peer [OF inv p]
  from st show ?thesis
  proof (cases rule: handleSnapshotReply_cases)
    case ignored
    then show ?thesis using sim_stutter [OF sim inv p refl refl P] acts_refl by blast
  next
    case deposed
    with sim_term [OF sim p, of "isr_Term reply" rf] show ?thesis by auto
  next
    case (advanced m)
    note L = peer_sim_leader [OF P advanced(1)]
    have ack: "is_LastIncludedIndex sargs \<le> int (acked A q (is_Term sargs))"
      by (rule msgs_simD(5) [OF S(4) rep advanced(3)])
    have len: "int (length (matchIndex (nodes s p))) = n" using W(1,4) by (simp add: raft_wf_def)
    have mi: "matchIndex rf ! nat r \<le> int (acked A r (currentTerm rf))" if "0 \<le> r" "r < n" for r
      using ack L advanced(2,4-7) that len by (cases "r = q") (auto simp: nth_list_update)
    have "peer_sim n A p rf"
      by (rule peer_simI)
        (use P L mi peer_simD(1-4) [OF P] log_sim_cong [OF peer_simD(2) [OF P], of rf] advanced in simp_all)
    then show ?thesis using sim_stutter [OF sim inv p, of rf] advanced(7) acts_refl by auto
  qed
qed

section \<open>Snapshots, applying, crashes\<close>

lemma snapshotLog_sim:
  assumes lg: "log_sim F rf" "raft_wf rf" and ok: "log_ok A b F" "log_ok A d L"
    and i: "lastIncludedIndex rf < is_LastIncludedIndex args" "nat (is_LastIncludedIndex args) \<le> length L"
    and t: "is_LastIncludedTerm args = tm L (nat (is_LastIncludedIndex args))"
    and rf': "rlog rf' = snapshotLog rf args" "lastIncludedIndex rf' = is_LastIncludedIndex args"
      "lastIncludedTerm rf' = is_LastIncludedTerm args"
  shows "log_sim (adopt (nat (is_LastIncludedIndex args)) F L) rf'"
proof -
  let ?i = "is_LastIncludedIndex args" and ?j = "nat (is_LastIncludedIndex args)"
  have "?i \<le> lastLogIndex rf \<and> termAt rf ?i = Some (is_LastIncludedTerm args) \<longleftrightarrow> agree ?j F L"
  proof (cases "?i \<le> lastLogIndex rf")
    case True
    then have j: "?j \<le> length F" "?i \<le> int (length F)" using log_sim_last [OF lg] by simp_all
    then have "termAt rf ?i = Some (tm F ?j)" using log_sim_termAt [OF lg, of ?i] i(1) by simp
    with True t log_matching_abs [OF ok j(1) i(2)] agree_tm [of ?j F L ?j] show ?thesis by auto
  next
    case False
    with log_sim_last [OF lg] show ?thesis by (auto dest: agree_length)
  qed
  then have "tl (snapshotLog rf args) = drop ?j (adopt ?j F L)"
    using log_sim_drop [OF lg, of ?i] i(1) by (simp add: snapshotLog_def adopt_def)
  moreover have "agree ?j (adopt ?j F L) L" by (rule adopt_agrees [OF i(2)])
  ultimately show ?thesis using rf' t agree_tm [of ?j _ L ?j] by (auto simp: log_sim_def dest: agree_length)
qed

lemma sim_snap:
  assumes sim: "cluster_sim n A s" and inv: "elect_inv n s" and p: "0 \<le> p" "p < n"
    and req: "(p, sargs) \<in> snap_reqs s" and st: "InstallSnapshot (nodes s p) sargs now = Some (rf, reply, msg)"
  shows "\<exists>A'. acts n p A A' \<and> cluster_sim n A' ((move p rf s)\<lparr>snap_replies := insert (p, sargs, reply) (snap_replies s)\<rparr>)"
proof -
  let ?t = "is_Term sargs" and ?i = "is_LastIncludedIndex sargs" and ?j = "nat (is_LastIncludedIndex sargs)"
  let ?L = "allog A (is_Term sargs)" and ?F = "alog A p"
  note S = cluster_simD [OF sim] and P = cluster_simD(3) [OF sim p] and W = elect_inv_peer [OF inv p]
  note lg = peer_simD(2) [OF P] W(1) and la = peer_simD(4) [OF P]
  have fl: "from_leader A p ?t" and ar: "0 \<le> ?i" "is_LastIncludedTerm sargs = tm ?L ?j" "committed (majority n) A ?t ?j ?L"
    using msgs_simD(4) [OF S(4) req] by (simp_all add: snap_sim_def Let_def)
  have b: "abase A ?t \<noteq> None" using fl by (simp add: from_leader_def)
  have len: "?j \<le> length ?L" by (rule committed_length [OF ar(3)])
  have "\<exists>A'. acts n p A A' \<and> cluster_sim n A' (move p rf s) \<and> (isr_Term reply \<le> ?t \<longrightarrow> ?j \<le> acked A' p ?t)"
    using st W(1)
  proof (cases rule: InstallSnapshot_cases)
    case stale
    then show ?thesis using sim_stutter [OF sim inv p refl refl P] acts_refl by auto
  next
    case old
    have "agree (nat (commitIndex (nodes s p))) ?F ?L"
      by (rule maj.leader_has_committed [OF S(1) peer_simD(3) [OF P] b old(1)])
    then have "agree ?j ?F ?L" by (rule agree_mono) (use old(2) W(1) in \<open>auto simp: raft_wf_def\<close>)
    from sim_reject [OF sim inv p fl old(1) this old(3)] show ?thesis by blast
  next
    case (installed m)
    have mx: "nat (commitIndex rf) = max (nat (commitIndex (nodes s p))) ?j" by (simp add: installed(3) max_def)
    have c1: "committed (majority n) A ?t (nat (commitIndex (nodes s p))) (adopt ?j ?F ?L)"
      by (rule maj.committed_adopt [OF S(1) peer_simD(3) [OF P] b installed(1)])
    have "committed (majority n) A ?t ?j (adopt ?j ?F ?L)"
      using maj.committed_from_leader [OF ar(3) len] by simp
    from committed_max [OF c1 this] have com: "committed (majority n) A ?t (nat (commitIndex rf)) (adopt ?j ?F ?L)"
      unfolding mx .
    have "log_sim (adopt ?j ?F ?L) rf"
      by (rule snapshotLog_sim [OF lg sim_log_ok [OF sim] sim_leader_ok [OF sim fl] installed(2) len ar(2)])
        (simp_all add: installed(3))
    moreover have "currentTerm rf = ?t" "role rf = Follower" "lastApplied rf \<le> commitIndex rf"
      "votedFor rf = (if currentTerm (nodes s p) < ?t then -1 else votedFor (nodes s p))"
      using installed(1) not_leader [OF sim p fl installed(1)] la by (auto simp: installed(3))
    ultimately show ?thesis using sim_adopt [OF sim inv p fl installed(1) len _ _ _ _ _ com] by blast
  qed
  then obtain A' where A': "acts n p A A'" "cluster_sim n A' (move p rf s)" "isr_Term reply \<le> ?t \<Longrightarrow> ?j \<le> acked A' p ?t"
    by blast
  have "?i \<le> int (acked A' p ?t)" if "isr_Term reply \<le> ?t" using A'(3) [OF that] ar(1) by linarith
  with A'(2) have "cluster_sim n A' ((move p rf s)\<lparr>snap_replies := insert (p, sargs, reply) (snap_replies s)\<rparr>)"
    by (auto simp: cluster_sim_def msgs_sim_def move_def)
  with A'(1) show ?thesis by blast
qed

lemma sim_compact:
  assumes sim: "cluster_sim n A s" and inv: "elect_inv n s" and p: "0 \<le> p" "p < n"
    and ix: "index \<le> lastApplied (nodes s p)" and st: "Snapshot (nodes s p) index snap = Some rf"
  shows "cluster_sim n A (move p rf s)"
proof -
  note P = cluster_simD(3) [OF sim p] and W = elect_inv_peer [OF inv p]
  note lg = peer_simD(2) [OF P] W(1) and la = peer_simD(4) [OF P]
  from st W(1) show ?thesis
  proof (cases rule: Snapshot_cases)
    case old
    then show ?thesis using sim_stutter [OF sim inv p refl refl P] by simp
  next
    case (compacted e)
    have i: "lastIncludedIndex (nodes s p) \<le> index" "index \<le> int (length (alog A p))" "0 \<le> index"
      using compacted(1,2) log_sim_last [OF lg] log_simD(2) [OF lg] by simp_all
    have "tm (alog A p) (nat index) = le_Term e"
      using log_sim_termAt [OF lg i(1,2)] termAt_in [OF W(1) i(1)] compacted(2,3) by simp
    then have lg': "log_sim (alog A p) rf"
      using log_sim_drop [OF lg i(1)] i by (simp add: log_sim_def compacted(4) nat_le_iff)
    have same: "commitIndex rf = commitIndex (nodes s p)" "lastApplied rf = lastApplied (nodes s p)"
      using ix la by (simp_all add: compacted(4))
    have "peer_sim n A p rf"
      by (rule peer_simI [OF _ lg'])
        (use same P peer_simD(1,3-5) [OF P] peer_sim_leader [OF P] in \<open>simp_all add: compacted(4)\<close>)
    then show ?thesis using sim_stutter [OF sim inv p, of rf] by (simp add: compacted(4))
  qed
qed

end
