(* ===== verification/RaftView.thy ===== *)
theory RaftView
  imports RaftCluster
begin

text \<open>
  What the service on top of a peer of \<^verbatim>\<open>raft1/raft.go\<close> sees of it, and which steps of a cluster change that; and that every entry
  after the first of a log carries a command.
\<close>

section \<open>What a service sees of its peer\<close>

definition apply_view :: "('c, 'd) Raft \<Rightarrow> int \<times> int \<times> 'd list" where
  "apply_view rf = (lastApplied rf, lastIncludedIndex rf, ReadSnapshot (persister rf))"

text \<open>All entries carry a command; only the placeholder at the start of the log has none.\<close>

definition real_log :: "('c, 'd) Raft \<Rightarrow> bool" where
  "real_log rf \<longleftrightarrow> (\<forall>e \<in> set (tl (rlog rf)). le_Command e \<noteq> None)"

definition keeps :: "('c, 'd) Raft \<Rightarrow> ('c, 'd) Raft \<Rightarrow> bool" where
  "keeps rf rf' \<longleftrightarrow> apply_view rf' = apply_view rf \<and> (real_log rf \<longrightarrow> real_log rf')"

lemma apply_view_simps [simp]:
  "apply_view (rf\<lparr>role := r\<rparr>) = apply_view rf" "apply_view (rf\<lparr>currentTerm := t\<rparr>) = apply_view rf" "apply_view (rf\<lparr>votedFor := v\<rparr>) = apply_view rf"
  "apply_view (rf\<lparr>lastHeartbeat := h\<rparr>) = apply_view rf" "apply_view (rf\<lparr>rlog := l\<rparr>) = apply_view rf" "apply_view (rf\<lparr>commitIndex := c\<rparr>) = apply_view rf"
  "apply_view (rf\<lparr>nextIndex := ni\<rparr>) = apply_view rf" "apply_view (rf\<lparr>matchIndex := mi\<rparr>) = apply_view rf" "apply_view (rf\<lparr>dead := b\<rparr>) = apply_view rf"
  "apply_view (persist rf) = apply_view rf"
  by (simp_all add: apply_view_def persist_def)

lemma apply_view_steps [simp]:
  "apply_view (acceptLeader rf t) = apply_view rf" "apply_view (bumpTerm rf t) = apply_view rf"
  by (simp_all add: acceptLeader_def bumpTerm_def)

lemma keeps_cong: "apply_view rf' = apply_view rf \<Longrightarrow> rlog rf' = rlog rf \<Longrightarrow> keeps rf rf'"
  by (simp add: keeps_def real_log_def)

lemma keeps_RequestVote: "RequestVote rf args now = Some (rf', reply) \<Longrightarrow> keeps rf rf'"
  by (cases rule: RequestVote_cases) (auto intro!: keeps_cong)

lemma keeps_ticker: "ticker_tick rf now rnd = Some (rf', a) \<Longrightarrow> keeps rf rf'"
  by (auto simp: ticker_tick_def startElection_def Let_def bind_Some_iff intro!: keeps_cong split: if_splits)

lemma keeps_voteReply: "handleVoteReply rf v t reply now = (rf', v') \<Longrightarrow> keeps rf rf'"
  by (auto simp: handleVoteReply_def becomeLeader_def Let_def intro!: keeps_cong split: if_splits)

lemma keeps_Start: "Start rf c = (rf', r) \<Longrightarrow> raft_wf rf \<Longrightarrow> keeps rf rf'"
  by (cases "rlog rf") (auto simp: Start_def Let_def keeps_def real_log_def raft_wf_def split: if_splits)

lemma keeps_snapReply: "handleSnapshotReply rf peer t args reply = Some rf' \<Longrightarrow> keeps rf rf'"
  by (cases rule: handleSnapshotReply_cases) (auto intro!: keeps_cong)

lemma keeps_appendReply:
  assumes "handleAppendReply rf peer t args reply = Some rf'" "raft_wf rf" shows "keeps rf rf'"
  using assms
proof (cases rule: handleAppendReply_cases)
  case (matched rf1)
  from updateCommitIndex_raises [OF matched(8,9)] matched(7) show ?thesis by (auto intro!: keeps_cong)
qed (auto intro!: keeps_cong)

lemma set_mergeLog: "set (mergeLog xs es) \<subseteq> set xs \<union> set es"
  by (induction xs es rule: mergeLog.induct) auto

lemma keeps_AppendEntries:
  assumes "AppendEntries rf args now = Some (rf', reply)" "raft_wf rf" "\<forall>e \<in> set (ae_Entries args). le_Command e \<noteq> None"
  shows "keeps rf rf'"
  using assms(1,2)
proof (cases rule: AppendEntries_cases)
  case (accepted rf1)
  let ?r = "nat (ae_PrevLogIndex args + 1 - lastIncludedIndex rf)"
  have ne: "rlog rf \<noteq> []" "0 < ?r" using assms(2) accepted(2) by (auto simp: raft_wf_def)
  then obtain x xs r where x: "rlog rf = x # xs" "?r = Suc r" by (metis gr0_conv_Suc neq_Nil_conv)
  have "tl (mergedLog rf args) = take r xs @ mergeLog (drop r xs) (ae_Entries args)" by (simp add: mergedLog_def Let_def x)
  then have "set (tl (mergedLog rf args)) \<subseteq> set (tl (rlog rf)) \<union> set (ae_Entries args)"
    using set_mergeLog [of "drop r xs" "ae_Entries args"] x(1) by (auto dest: in_set_takeD in_set_dropD)
  moreover have "apply_view rf' = apply_view rf" "rlog rf' = mergedLog rf args"
    using accepted(5,6) by (auto simp: updateFollowerCommit_eq)
  ultimately show ?thesis using assms(3) by (auto simp: keeps_def real_log_def)
qed (auto intro!: keeps_cong)

lemma installed_view: "apply_view (installed rf i t lg sn) = (max (lastApplied rf) i, i, sn)"
  by (simp add: apply_view_def installed_def Let_def)

lemma real_drop: "real_log rf \<Longrightarrow> rlog rf' = x # drop (Suc k) (rlog rf) \<Longrightarrow> real_log rf'"
  by (cases "rlog rf") (auto simp: real_log_def dest: in_set_dropD)

lemma real_Snapshot: "Snapshot rf index snap = Some rf' \<Longrightarrow> raft_wf rf \<Longrightarrow> real_log rf \<Longrightarrow> real_log rf'"
  by (cases rule: Snapshot_cases) (auto simp: installed_def Let_def intro: real_drop)

lemma real_InstallSnapshot:
  assumes "InstallSnapshot rf args now = Some (rf', reply, msg)" "raft_wf rf" "real_log rf"
  shows "real_log rf'"
  using assms(1,2)
proof (cases rule: InstallSnapshot_cases)
  case (installed m)
  then have "rlog rf' = snapshotLog rf args" by (simp add: installed_def Let_def)
  then show ?thesis using assms(3) by (cases "rlog rf") (auto simp: real_log_def snapshotLog_def dest: in_set_dropD)
qed (use assms(3) in \<open>auto simp: real_log_def\<close>)

section \<open>The cluster keeps commands\<close>

definition real_cluster :: "int \<Rightarrow> ('c, 'd) cluster \<Rightarrow> bool" where
  "real_cluster n s \<longleftrightarrow> (\<forall>p \<in> in_cluster n. real_log (nodes s p)) \<and> (\<forall>(p, args) \<in> append_reqs s. \<forall>e \<in> set (ae_Entries args). le_Command e \<noteq> None)"

lemma real_move: "real_cluster n s \<Longrightarrow> real_log rf \<Longrightarrow> real_cluster n (move p rf s)"
  by (auto simp: real_cluster_def move_def)

lemma keeps_real: "keeps rf rf' \<Longrightarrow> real_log rf \<Longrightarrow> real_log rf'"
  by (simp add: keeps_def)

lemma real_sent:
  assumes "sendAppendEntriesToPeer rf p t = Some (SendEntries args)" "raft_wf rf" "real_log rf" "e \<in> set (ae_Entries args)"
  shows "le_Command e \<noteq> None"
proof -
  define ni where "ni = nextIndex rf ! nat p"
  from assms(1) have ni: "lastIncludedIndex rf < ni" and es: "ae_Entries args = drop (nat (ni - lastIncludedIndex rf)) (rlog rf)"
    unfolding ni_def by (auto simp: sendAppendEntriesToPeer_def getRelativeIndex_def bind_Some_iff go_nth_Some go_from_Some Let_def split: if_splits)
  obtain r where r: "nat (ni - lastIncludedIndex rf) = Suc r" using ni by (metis gr0_conv_Suc zero_less_nat_eq diff_gt_0_iff_gt)
  obtain x xs where "rlog rf = x # xs" using assms(2) by (cases "rlog rf") (auto simp: raft_wf_def)
  with es r assms(3,4) show ?thesis by (auto simp: real_log_def dest: in_set_dropD)
qed

lemma real_calls [simp]:
  "real_cluster n (set_call i t p c s) = real_cluster n s" "real_cluster n (set_votes i t v s) = real_cluster n s"
  "real_cluster n (open_calls rf args s) = real_cluster n s" "real_cluster n (s\<lparr>append_replies := R\<rparr>) = real_cluster n s"
  "real_cluster n (s\<lparr>snap_reqs := Q\<rparr>) = real_cluster n s" "real_cluster n (s\<lparr>snap_replies := Q'\<rparr>) = real_cluster n s"
  by (simp_all add: real_cluster_def set_call_def set_votes_def open_calls_def)

lemma real_clusterD:
  assumes "real_cluster n s" shows "0 \<le> p \<Longrightarrow> p < n \<Longrightarrow> real_log (nodes s p)"
    "(q, args) \<in> append_reqs s \<Longrightarrow> \<forall>e \<in> set (ae_Entries args). le_Command e \<noteq> None"
  using assms by (auto simp: real_cluster_def)

lemma cl_step_real:
  assumes st: "cl_step n s s'" and inv: "elect_inv n s" and real: "real_cluster n s"
  shows "real_cluster n s'"
proof -
  note wf = elect_inv_peer [OF inv] and rl = real_clusterD(1) [OF real]
  have kept: "real_cluster n (move p rf s)" if "keeps (nodes s p) rf" "0 \<le> p" "p < n" for p rf
    using real_move [OF real keeps_real [OF that(1) rl [OF that(2,3)]]] .
  from st show ?thesis
  proof (cases rule: cl_step.cases)
    case (cl_send i p t args)
    with real real_sent [OF cl_send(6) wf(1) rl] show ?thesis by (auto simp: real_cluster_def)
  next
    case (cl_snap p sargs now rf reply msg)
    with real_move [OF real real_InstallSnapshot [OF cl_snap(5) wf(1) rl]] show ?thesis by simp
  next
    case (cl_compact i index snap rf)
    with real_move [OF real real_Snapshot [OF cl_compact(5) wf(1) rl]] show ?thesis by simp
  next
    case (cl_apply i rf msgs)
    with applierLoop_frame [OF cl_apply(4)] rl [OF cl_apply(2,3)] show ?thesis by (auto intro!: real_move [OF real] simp: real_log_def)
  next
    case (cl_restart i now)
    with Make_restores(3) [OF wf(2) [OF cl_restart(2,3)], of n i now] rl [OF cl_restart(2,3)] show ?thesis
      by (auto intro!: real_move [OF real] simp: real_log_def)
  next
    case (cl_kill i)
    with rl show ?thesis by (auto intro!: real_move [OF real] simp: real_log_def Kill_def)
  next
    case (cl_append p args now rf reply)
    with kept [OF keeps_AppendEntries [OF cl_append(5) wf(1) real_clusterD(2) [OF real cl_append(4)]]] show ?thesis by simp
  qed (use real in \<open>auto intro!: kept intro: keeps_RequestVote keeps_ticker keeps_voteReply keeps_Start keeps_snapReply keeps_appendReply wf\<close>)
qed

lemma cl_init_real: "real_cluster n (cl_init n now)"
  by (auto simp: real_cluster_def cl_init_def real_log_def Make_def readPersist_def Let_def)

section \<open>Steps no service sees\<close>

definition quiet :: "int \<Rightarrow> ('c, 'd) cluster \<Rightarrow> ('c, 'd) cluster \<Rightarrow> bool" where
  "quiet n s s' \<longleftrightarrow> cl_step n s s' \<and> (\<forall>p. 0 \<le> p \<and> p < n \<longrightarrow> apply_view (nodes s' p) = apply_view (nodes s p))"

lemma quiet_send: "cl_step n s s' \<Longrightarrow> nodes s' = nodes s \<Longrightarrow> quiet n s s'"
  by (simp add: quiet_def)

lemma quiet_move:
  "cl_step n s s' \<Longrightarrow> nodes s' = (nodes s)(p := rf) \<Longrightarrow> apply_view rf = apply_view (nodes s p) \<Longrightarrow> quiet n s s'"
  by (simp add: quiet_def)

lemma quiet_run: "(quiet n)\<^sup>*\<^sup>* s s' \<Longrightarrow> cl_run n s s'"
  by (induction rule: rtranclp_induct) (auto simp: quiet_def intro: cl_refl cl_trans)

text \<open>A cluster step that a service sees is a pass of the applier, a snapshot from the leader, a compaction or a restart.\<close>

lemma cl_step_seen:
  assumes st: "cl_step n s s'" and inv: "elect_inv n s" and real: "real_cluster n s"
    and p: "0 \<le> p" "p < n" "apply_view (nodes s' p) \<noteq> apply_view (nodes s p)"
  shows "(\<exists>rf msgs. applierLoop_iter (nodes s p) = Some (rf, msgs) \<and> s' = move p rf s)
    \<or> (\<exists>sargs now rf reply m. (p, sargs) \<in> snap_reqs s \<and> InstallSnapshot (nodes s p) sargs now = Some (rf, reply, Some m)
         \<and> s' = (move p rf s)\<lparr>snap_replies := insert (p, sargs, reply) (snap_replies s)\<rparr>)
    \<or> (\<exists>index snap rf. Snapshot (nodes s p) index snap = Some rf \<and> s' = move p rf s)
    \<or> (\<exists>now. s' = move p (Make n p (persister (nodes s p)) now) s)"
proof -
  note wf = elect_inv_peer [OF inv]
  have kept: False if "keeps (nodes s q) rf" "nodes s' = (nodes s)(q := rf)" for q rf
    using that p(3) by (auto simp: keeps_def split: if_splits)
  have there: "q = p" if "nodes s' = (nodes s)(q := rf)" for q rf using that p(3) by (auto split: if_splits)
  from st show ?thesis
  proof (cases rule: cl_step.cases)
    case (cl_append q args now rf reply)
    then show ?thesis using kept [OF keeps_AppendEntries [OF cl_append(5) wf(1) real_clusterD(2) [OF real cl_append(4)]]] by simp
  next
    case (cl_snap q sargs now rf reply msg)
    have "q = p" by (rule there [of _ rf]) (simp add: cl_snap(1))
    with cl_snap(5) wf(1) [OF cl_snap(2,3)] show ?thesis
    proof (cases rule: InstallSnapshot_cases)
      case (installed m)
      with cl_snap(1,4,5) \<open>q = p\<close> have "(p, sargs) \<in> snap_reqs s" "InstallSnapshot (nodes s p) sargs now = Some (rf, reply, Some m)"
        "s' = (move p rf s)\<lparr>snap_replies := insert (p, sargs, reply) (snap_replies s)\<rparr>" by simp_all
      then show ?thesis by blast
    qed (use cl_snap \<open>q = p\<close> p(3) in simp_all)
  next
    case (cl_compact q index snap rf)
    then show ?thesis using there [of q rf] by auto
  next
    case (cl_apply q rf msgs)
    then show ?thesis using there [of q rf] by auto
  next
    case (cl_restart q now)
    then show ?thesis using there [of q] by auto
  next
    case (cl_kill q)
    then show ?thesis using kept [OF keeps_cong, of "Kill (nodes s q)" q] by (simp add: Kill_def)
  next
    case (cl_elect q now rnd rf args)
    then show ?thesis using kept [OF keeps_ticker] by fastforce
  next
    case (cl_vote q i t args now rf reply)
    then show ?thesis using kept [OF keeps_RequestVote] by fastforce
  next
    case (cl_vote_reply q t r reply now rf v)
    then show ?thesis using kept [OF keeps_voteReply] by fastforce
  next
    case (cl_start q c rf r)
    then show ?thesis using kept [OF keeps_Start [OF cl_start(4) wf(1)]] by simp
  next
    case (cl_append_reply q r args reply rf)
    then show ?thesis using kept [OF keeps_appendReply [OF cl_append_reply(6) wf(1)]] by simp
  next
    case (cl_snap_reply q r sargs reply rf)
    then show ?thesis using kept [OF keeps_snapReply] by fastforce
  qed (use p in auto)
qed

end
