(* ===== verification/RaftOrigin.thy ===== *)
theory RaftOrigin
  imports RaftView
begin

text \<open>
  Where the commands in a cluster's logs come from.  A command occurs at an index in the log of a peer of \<^verbatim>\<open>raft1/raft.go\<close> or in a request
  that is on its way; \<open>Start\<close> makes it occur at one index, and no other step makes a command occur anywhere it did not occur before.
\<close>

section \<open>Occurrences\<close>

definition node_occ :: "('c, 'd) Raft \<Rightarrow> (int \<times> 'c) set" where
  "node_occ rf = {(lastIncludedIndex rf + int j, c) | j c. 0 < j \<and> j < length (rlog rf) \<and> le_Command (rlog rf ! j) = Some c}"

definition args_occ :: "'c AppendEntriesArgs \<Rightarrow> (int \<times> 'c) set" where
  "args_occ args = {(ae_PrevLogIndex args + 1 + int j, c) | j c. j < length (ae_Entries args) \<and> le_Command (ae_Entries args ! j) = Some c}"

definition occ :: "int \<Rightarrow> ('c, 'd) cluster \<Rightarrow> (int \<times> 'c) set" where
  "occ n s = (\<Union>p \<in> in_cluster n. node_occ (nodes s p)) \<union> (\<Union>(p, args) \<in> append_reqs s. args_occ args)"

lemma node_occ_cong: "rlog rf' = rlog rf \<Longrightarrow> lastIncludedIndex rf' = lastIncludedIndex rf \<Longrightarrow> node_occ rf' = node_occ rf"
  by (simp add: node_occ_def)

lemma node_occ_suffix:
  assumes "lastIncludedIndex rf' = lastIncludedIndex rf + int k" "rlog rf' = e # drop (Suc k) (rlog rf)"
  shows "node_occ rf' \<subseteq> node_occ rf"
proof
  fix x assume "x \<in> node_occ rf'"
  then obtain j c where j: "x = (lastIncludedIndex rf' + int j, c)" "0 < j" "j < length (rlog rf')" "le_Command (rlog rf' ! j) = Some c"
    by (auto simp: node_occ_def)
  then have "rlog rf' ! j = rlog rf ! (k + j)" "k + j < length (rlog rf)" using assms(2) by (auto simp: nth_Cons')
  with j assms(1) show "x \<in> node_occ rf" unfolding node_occ_def by (intro CollectI exI [of _ "k + j"] exI [of _ c]) simp
qed

lemma node_occ_short: "length (rlog rf) \<le> 1 \<Longrightarrow> node_occ rf = {}"
  by (auto simp: node_occ_def)

section \<open>Handlers\<close>

lemma mergeLog_nth: "j < length (mergeLog xs ys) \<Longrightarrow>
    j < length xs \<and> mergeLog xs ys ! j = xs ! j \<or> j < length ys \<and> mergeLog xs ys ! j = ys ! j"
proof (induction xs ys arbitrary: j rule: mergeLog.induct)
  case (3 x xs y ys)
  show ?case
  proof (cases "le_Term x = le_Term y")
    case True
    with "3.IH" "3.prems" show ?thesis by (cases j) auto
  qed (use "3.prems" in simp)
qed simp_all

lemma occ_AppendEntries:
  assumes "AppendEntries rf args now = Some (rf', reply)" "raft_wf rf"
  shows "node_occ rf' \<subseteq> node_occ rf \<union> args_occ args"
  using assms
proof (cases rule: AppendEntries_cases)
  case (accepted rf1)
  let ?r = "nat (ae_PrevLogIndex args + 1 - lastIncludedIndex rf)"
  have r: "?r \<le> length (rlog rf)" "int ?r = ae_PrevLogIndex args + 1 - lastIncludedIndex rf" using accepted(2,3) by (auto simp: lastLogIndex_def)
  have sel: "rlog rf' = take ?r (rlog rf) @ mergeLog (drop ?r (rlog rf)) (ae_Entries args)" "lastIncludedIndex rf' = lastIncludedIndex rf"
    using accepted(5,6) by (auto simp: updateFollowerCommit_eq mergedLog_def Let_def)
  show ?thesis
  proof
    fix x assume "x \<in> node_occ rf'"
    then obtain j c where j: "x = (lastIncludedIndex rf + int j, c)" "0 < j" "j < length (rlog rf')" "le_Command (rlog rf' ! j) = Some c"
      by (auto simp: node_occ_def sel(2))
    have "j < length (rlog rf) \<and> rlog rf' ! j = rlog rf ! j \<or> ?r \<le> j \<and> j - ?r < length (ae_Entries args) \<and> rlog rf' ! j = ae_Entries args ! (j - ?r)"
    proof (cases "j < ?r")
      case True
      then show ?thesis using r(1) by (simp add: sel(1) nth_append)
    next
      case False
      then have "j - ?r < length (mergeLog (drop ?r (rlog rf)) (ae_Entries args))" using j(3) r(1) by (simp add: sel(1))
      from mergeLog_nth [OF this] False r(1) show ?thesis by (auto simp: sel(1) nth_append)
    qed
    then show "x \<in> node_occ rf \<union> args_occ args"
    proof (elim disjE conjE)
      assume "j < length (rlog rf)" "rlog rf' ! j = rlog rf ! j"
      with j show ?thesis by (auto simp: node_occ_def)
    next
      assume e: "?r \<le> j" "j - ?r < length (ae_Entries args)" "rlog rf' ! j = ae_Entries args ! (j - ?r)"
      have "lastIncludedIndex rf + int j = ae_PrevLogIndex args + 1 + int (j - ?r)" using e(1) r(2) by (simp add: of_nat_diff)
      with j e(2,3) show ?thesis unfolding args_occ_def by auto
    qed
  qed
qed (auto simp: node_occ_def)

lemma occ_InstallSnapshot:
  assumes "InstallSnapshot rf sargs now = Some (rf', reply, msg)" "raft_wf rf"
  shows "node_occ rf' \<subseteq> node_occ rf"
  using assms
proof (cases rule: InstallSnapshot_cases)
  case (installed m)
  show ?thesis
  proof (cases "length (snapshotLog rf sargs) \<le> 1")
    case True
    then show ?thesis using installed(3) by (simp add: node_occ_short)
  next
    case False
    then have "snapshotLog rf sargs = \<lparr>le_Command = None, le_Term = is_LastIncludedTerm sargs\<rparr>
        # drop (Suc (nat (is_LastIncludedIndex sargs - lastIncludedIndex rf))) (rlog rf)" by (auto simp: snapshotLog_def split: if_splits)
    with installed(2,3) show ?thesis by (intro node_occ_suffix) simp_all
  qed
qed (auto simp: node_occ_def)

lemma occ_Snapshot:
  assumes "Snapshot rf index snap = Some rf'" "raft_wf rf"
  shows "node_occ rf' \<subseteq> node_occ rf"
  using assms
proof (cases rule: Snapshot_cases)
  case (compacted e)
  then show ?thesis by (intro node_occ_suffix [of _ _ "nat (index - lastIncludedIndex rf)"]) simp_all
qed simp

lemma occ_Start:
  assumes "Start rf c = (rf', index, t, lead)" "raft_wf rf"
  shows "node_occ rf' \<subseteq> node_occ rf \<union> (if lead then {(index, c)} else {})"
  using assms by (auto simp: Start_def Let_def node_occ_def nth_append lastLogIndex_def raft_wf_def split: if_splits)

lemma occ_send:
  assumes "sendAppendEntriesToPeer rf p t = Some (SendEntries args)" "raft_wf rf"
  shows "args_occ args \<subseteq> node_occ rf"
proof -
  from assms(1) obtain ni es where ni: "\<not> ni \<le> lastIncludedIndex rf" "ae_PrevLogIndex args = ni - 1" "ae_Entries args = es"
    "go_from (rlog rf) (getRelativeIndex rf ni) = Some es"
    by (auto simp: sendAppendEntriesToPeer_def bind_Some_iff Let_def split: if_splits)
  let ?r = "nat (ni - lastIncludedIndex rf)"
  have es: "es = drop ?r (rlog rf)" using ni(4) by (auto simp: go_from_def getRelativeIndex_def split: if_splits)
  show ?thesis
  proof
    fix x assume "x \<in> args_occ args"
    then obtain j c where j: "x = (ni + int j, c)" "j < length es" "le_Command (es ! j) = Some c" by (auto simp: args_occ_def ni)
    then show "x \<in> node_occ rf" unfolding node_occ_def
      using ni(1) es by (intro CollectI exI [of _ "?r + j"] exI [of _ c]) auto
  qed
qed

section \<open>Steps\<close>

lemma node_occ_in: "0 \<le> p \<Longrightarrow> p < n \<Longrightarrow> node_occ (nodes s p) \<subseteq> occ n s"
  by (auto simp: occ_def)

lemma args_occ_in: "(p, args) \<in> append_reqs s \<Longrightarrow> args_occ args \<subseteq> occ n s"
  by (auto simp: occ_def)

lemma occ_move:
  assumes "node_occ rf \<subseteq> occ n s \<union> X" "nodes s' = (nodes s)(p := rf)" "append_reqs s' = append_reqs s"
  shows "occ n s' \<subseteq> occ n s \<union> X"
proof
  fix x assume "x \<in> occ n s'"
  then consider q where "q \<in> in_cluster n" "x \<in> node_occ (nodes s' q)" | q args where "(q, args) \<in> append_reqs s" "x \<in> args_occ args"
    by (auto simp: occ_def assms(3) simp del: in_cluster_simps)
  then show "x \<in> occ n s \<union> X"
  proof cases
    case 1
    show ?thesis
    proof (cases "q = p")
      case True
      then show ?thesis using assms(1,2) 1(2) by auto
    next
      case False
      then show ?thesis using node_occ_in [of q n s] 1 assms(2) by auto
    qed
  qed (auto dest: args_occ_in)
qed

text \<open>Most steps leave a peer's entries alone.\<close>

definition same_log :: "('c, 'd) Raft \<Rightarrow> ('c, 'd) Raft \<Rightarrow> bool" where
  "same_log rf rf' \<longleftrightarrow> rlog rf' = rlog rf \<and> lastIncludedIndex rf' = lastIncludedIndex rf"

lemma same_log_occ: "same_log rf rf' \<Longrightarrow> node_occ rf' = node_occ rf"
  by (simp add: same_log_def node_occ_def)

lemma same_log_RequestVote: "RequestVote rf args now = Some (rf', reply) \<Longrightarrow> same_log rf rf'"
  by (cases rule: RequestVote_cases) (auto simp: same_log_def)

lemma same_log_ticker: "ticker_tick rf now rnd = Some (rf', a) \<Longrightarrow> same_log rf rf'"
  by (auto simp: ticker_tick_def startElection_def Let_def bind_Some_iff same_log_def split: if_splits)

lemma same_log_voteReply: "handleVoteReply rf v t reply now = (rf', v') \<Longrightarrow> same_log rf rf'"
  by (auto simp: handleVoteReply_def becomeLeader_def Let_def same_log_def bumpTerm_def split: if_splits)

lemma same_log_snapReply: "handleSnapshotReply rf peer t args reply = Some rf' \<Longrightarrow> same_log rf rf'"
  by (cases rule: handleSnapshotReply_cases) (auto simp: same_log_def)

lemma same_log_appendReply:
  assumes "handleAppendReply rf peer t args reply = Some rf'" "raft_wf rf" shows "same_log rf rf'"
  using assms
proof (cases rule: handleAppendReply_cases)
  case (matched rf1)
  from updateCommitIndex_raises [OF matched(8,9)] matched(7) show ?thesis by (auto simp: same_log_def)
qed (auto simp: same_log_def)

lemma occ_frame:
  "nodes s' = nodes s \<Longrightarrow> append_reqs s' = append_reqs s \<Longrightarrow> occ n s' = occ n s"
  by (simp add: occ_def)

lemma append_reqs_move [simp]: "append_reqs (move p rf s) = append_reqs s"
  by (simp add: move_def)

lemma occ_moved:
  assumes "node_occ rf \<subseteq> occ n s" "nodes s' = (nodes s)(p := rf)" "append_reqs s' = append_reqs s" shows "occ n s' \<subseteq> occ n s"
  using occ_move [of rf n s "{}" s' p] assms by simp

lemma occ_same:
  assumes "same_log (nodes s p) rf" "nodes s' = (nodes s)(p := rf)" "append_reqs s' = append_reqs s" "0 \<le> p" "p < n" shows "occ n s' \<subseteq> occ n s"
  using occ_moved [OF _ assms(2,3)] same_log_occ [OF assms(1)] node_occ_in [OF assms(4,5), of s] by simp

lemma occ_sent:
  assumes "args_occ args \<subseteq> occ n s" "nodes s' = nodes s" "append_reqs s' = insert (p, args) (append_reqs s)" shows "occ n s' \<subseteq> occ n s"
  using assms by (auto simp: occ_def simp del: in_cluster_simps)

text \<open>A step either makes nothing occur, or is a \<open>Start\<close> on a leader and makes its command occur at the index it returns.\<close>

lemma cl_step_occ:
  assumes st: "cl_step n s s'" and inv: "elect_inv n s"
  shows "occ n s' \<subseteq> occ n s \<or> (\<exists>i c rf index t. 0 \<le> i \<and> i < n \<and> Start (nodes s i) c = (rf, index, t, True) \<and> s' = move i rf s
     \<and> occ n s' \<subseteq> insert (index, c) (occ n s))"
proof -
  note wf = elect_inv_peer [OF inv]
  note moved = occ_moved [of _ n s s'] and same = occ_same [of s _ _ s' n]
  from st show ?thesis
  proof (cases rule: cl_step.cases)
    case (cl_start i c rf r)
    obtain index t lead where r: "r = (index, t, lead)" by (cases r)
    note oc = occ_Start [OF cl_start(4) [unfolded r] wf(1) [OF cl_start(2,3)]] node_occ_in [OF cl_start(2,3), of s]
    show ?thesis
    proof (cases lead)
      case True
      have "occ n s' \<subseteq> occ n s \<union> {(index, c)}" by (rule occ_move [of rf _ _ _ _ i]) (use oc True cl_start(1) in auto)
      with True cl_start r show ?thesis by (intro disjI2 exI) auto
    next
      case False
      with oc cl_start(1) show ?thesis by (intro disjI1 moved [of rf i]) auto
    qed
  next
    case (cl_send i p t args)
    with occ_send [OF cl_send(6) wf(1)] node_occ_in [OF cl_send(2,3), of s] show ?thesis by (auto simp: occ_def simp del: in_cluster_simps)
  next
    case (cl_append p args now rf reply)
    with occ_AppendEntries [OF cl_append(5) wf(1)] node_occ_in [OF cl_append(2,3), of s] args_occ_in [OF cl_append(4), of n]
    show ?thesis by (intro disjI1 moved [of rf p]) auto
  next
    case (cl_snap p sargs now rf reply msg)
    with occ_InstallSnapshot [OF cl_snap(5) wf(1)] node_occ_in [OF cl_snap(2,3), of s] show ?thesis by (intro disjI1 moved [of rf p]) auto
  next
    case (cl_compact i index snap rf)
    with occ_Snapshot [OF cl_compact(5) wf(1)] node_occ_in [OF cl_compact(2,3), of s] show ?thesis by (intro disjI1 moved [of rf i]) auto
  next
    case (cl_apply i rf msgs)
    with applierLoop_frame [OF cl_apply(4)] show ?thesis by (intro disjI1 same [of i rf]) (auto simp: same_log_def)
  next
    case (cl_restart i now)
    with Make_restores(3,4) [OF wf(2) [OF cl_restart(2,3)], of n i now] show ?thesis
      by (intro disjI1 same [of i "Make n i (persister (nodes s i)) now"]) (auto simp: same_log_def)
  next
    case (cl_kill i)
    then show ?thesis by (intro disjI1 same [of i "Kill (nodes s i)"]) (auto simp: same_log_def Kill_def)
  next
    case (cl_append_reply i p args reply rf)
    with same_log_appendReply [OF cl_append_reply(6) wf(1)] show ?thesis by (intro disjI1 same [of i rf]) auto
  next
    case (cl_elect i now rnd rf args)
    with same_log_ticker [OF cl_elect(4)] show ?thesis by (intro disjI1 same [of i rf]) (auto simp: set_votes_def open_calls_def)
  next
    case (cl_vote p i t args now rf reply)
    with same_log_RequestVote [OF cl_vote(5)] show ?thesis by (intro disjI1 same [of p rf]) (auto simp: set_call_def)
  next
    case (cl_vote_reply i t p reply now rf v)
    with same_log_voteReply [OF cl_vote_reply(5)] show ?thesis by (intro disjI1 same [of i rf]) (auto simp: set_call_def set_votes_def)
  next
    case (cl_snap_reply i p sargs reply rf)
    with same_log_snapReply [OF cl_snap_reply(6)] show ?thesis by (intro disjI1 same [of i rf]) auto
  next
    case (cl_send_snap i p t sargs)
    then show ?thesis using occ_frame [of s' s n] by simp
  qed
qed

lemma cl_init_occ: "occ n (cl_init n now) = {}"
  by (auto simp: occ_def cl_init_def node_occ_def Make_def readPersist_def Let_def)

text \<open>Steps that no service sees and that start nothing.\<close>

definition calm :: "int \<Rightarrow> ('c, 'd) cluster \<Rightarrow> ('c, 'd) cluster \<Rightarrow> bool" where
  "calm n s s' \<longleftrightarrow> quiet n s s' \<and> occ n s' \<subseteq> occ n s"

lemma calm_move:
  assumes "cl_step n s s'" "nodes s' = (nodes s)(p := rf)" "append_reqs s' = append_reqs s" "apply_view rf = apply_view (nodes s p)" "node_occ rf \<subseteq> occ n s"
  shows "calm n s s'"
  using quiet_move [OF assms(1,2,4)] occ_move [of rf n s "{}" s' p] assms(2,3,5) by (simp add: calm_def)

lemma calm_send: "cl_step n s (s\<lparr>append_reqs := insert (p, args) (append_reqs s)\<rparr>) \<Longrightarrow> args_occ args \<subseteq> occ n s \<Longrightarrow>
    calm n s (s\<lparr>append_reqs := insert (p, args) (append_reqs s)\<rparr>)"
  unfolding calm_def by (rule conjI [OF quiet_send]) (auto simp: occ_def simp del: in_cluster_simps)

lemma calm_quiet: "(calm n)\<^sup>*\<^sup>* s s' \<Longrightarrow> (quiet n)\<^sup>*\<^sup>* s s'"
  by (erule rtranclp_mono [THEN predicate2D, rotated]) (auto simp: calm_def)

end
