(* ===== verification/RaftDemo.thy ===== *)
theory RaftDemo
  imports RaftOrigin
begin

text \<open>
  A concrete run of a cluster, for any command: peer 0 of three is elected by peer 1, accepts the command, replicates it to
  peer 1, commits it, and tells peer 1 with its next heartbeat.  No service has seen anything yet.
\<close>

section \<open>The peers and the messages\<close>

abbreviation demo_entry :: "'c \<Rightarrow> 'c LogEntry" where
  "demo_entry c \<equiv> \<lparr>le_Command = Some c, le_Term = 1\<rparr>"

definition demo_stored :: "'c LogEntry list \<Rightarrow> ('c LogEntry list gob, 'd) Persister" where
  "demo_stored l = \<lparr>raftstate = [GobInt 1, GobInt 0, GobVal l, GobInt 0, GobInt 0], snapshot = []\<rparr>"

text \<open>The leader with the log \<open>l\<close>, before it knows anything of the others.\<close>

definition demo_elect :: "'c LogEntry list \<Rightarrow> ('c, 'd) Raft" where
  "demo_elect l = \<lparr>npeers = 3, persister = demo_stored l, me = 0, dead = False, currentTerm = 1, votedFor = 0,
     rlog = l, lastIncludedIndex = 0, lastIncludedTerm = 0,
     commitIndex = 0, lastApplied = 0, nextIndex = [1, 1, 1], matchIndex = [0, 0, 0],
     role = Leader, lastHeartbeat = 1001\<rparr>"

definition demo_leader :: "'c \<Rightarrow> ('c, 'd) Raft" where
  "demo_leader c = (demo_elect [zeroEntry, demo_entry c])\<lparr>matchIndex := [0, 1, 0], nextIndex := [1, 2, 1], commitIndex := 1\<rparr>"

definition demo_voter :: "('c, 'd) Raft" where
  "demo_voter = (Make 3 1 MakePersister 0)\<lparr>currentTerm := 1, votedFor := 0, lastHeartbeat := 0, persister := demo_stored [zeroEntry]\<rparr>"

definition demo_follower :: "'c \<Rightarrow> int \<Rightarrow> ('c, 'd) Raft" where
  "demo_follower c k = demo_voter\<lparr>rlog := [zeroEntry, demo_entry c], commitIndex := k, persister := demo_stored [zeroEntry, demo_entry c]\<rparr>"

definition demo_entries :: "'c \<Rightarrow> 'c AppendEntriesArgs" where
  "demo_entries c = \<lparr>ae_Term = 1, ae_LeaderId = 0, ae_PrevLogIndex = 0, ae_PrevLogTerm = 0,
     ae_Entries = [demo_entry c], ae_LeaderCommit = 0\<rparr>"

definition demo_heartbeat :: "'c AppendEntriesArgs" where
  "demo_heartbeat = \<lparr>ae_Term = 1, ae_LeaderId = 0, ae_PrevLogIndex = 1, ae_PrevLogTerm = 1,
     ae_Entries = [], ae_LeaderCommit = 1\<rparr>"

abbreviation demo_ok :: AppendEntriesReply where
  "demo_ok \<equiv> \<lparr>aer_Term = 1, aer_Success = True, aer_ConflictTerm = 0, aer_ConflictIndex = 0\<rparr>"

lemmas demo_eval = Make_def readPersist_def MakePersister_def Let_def ReadRaftState_def persist_def encodeState_def Save_def
  ReadSnapshot_def lastLogTerm_def go_nth_def go_from_def go_set_def lastLogIndex_def getRelativeIndex_def numeral_nat upto.simps
  demo_stored_def

lemmas demo_peers = demo_elect_def demo_leader_def demo_voter_def demo_follower_def

section \<open>The steps\<close>

lemma demo_vote_granted:
  "RequestVote (Make 3 1 MakePersister 0) demo_args 0 = Some (demo_voter, \<lparr>rvr_Term = 1, rvr_VoteGranted = True\<rparr>)"
  by (simp add: demo_args_def RequestVote_def logUpToDate_def demo_voter_def demo_eval)

lemma demo_started: "Start (demo_elect [zeroEntry]) c = (demo_elect [zeroEntry, demo_entry c], 1, 1, True)"
  by (simp add: Start_def demo_elect_def demo_eval)

lemma demo_sends: "sendAppendEntriesToPeer (demo_elect [zeroEntry, demo_entry c]) 1 1 = Some (SendEntries (demo_entries c))"
  "sendAppendEntriesToPeer (demo_leader c) 1 1 = Some (SendEntries demo_heartbeat)"
  by (simp_all add: sendAppendEntriesToPeer_def demo_peers demo_entries_def demo_heartbeat_def demo_eval)

lemma demo_appends: "AppendEntries demo_voter (demo_entries c) 0 = Some (demo_follower c 0, demo_ok)"
  "AppendEntries (demo_follower c 0) demo_heartbeat 0 = Some (demo_follower c 1, demo_ok)"
  by (simp_all add: AppendEntries_def acceptLeader_def updateFollowerCommit_def demo_peers
      demo_entries_def demo_heartbeat_def demo_eval)

lemma demo_commits: "handleAppendReply (demo_elect [zeroEntry, demo_entry c]) 1 1 (demo_entries c) demo_ok = Some (demo_leader c)"
  by (simp add: handleAppendReply_def updateCommitIndex_def updateCommitIndex_loop.simps demo_peers demo_entries_def demo_eval)

lemma demo_peer_events:
  obtains rf where "ticker_tick (Make 3 0 MakePersister 0 :: ('c, 'd) Raft) 1000 0 = Some (rf, Some demo_args)"
    "me rf = 0" "npeers rf = 3" "apply_view rf = (0, 0, [])"
    "handleVoteReply rf 1 1 \<lparr>rvr_Term = 1, rvr_VoteGranted = True\<rparr> 1001 = (demo_elect [zeroEntry], 2)"
  by (simp add: ticker_tick_def startElection_def handleVoteReply_def becomeLeader_def demo_args_def demo_elect_def apply_view_def demo_eval)

lemma demo_views [simp]:
  "apply_view (Make 3 p MakePersister 0) = (0, 0, [])" "apply_view (demo_elect l) = (0, 0, [])" "apply_view (demo_leader c) = (0, 0, [])"
  "apply_view demo_voter = (0, 0, [])" "apply_view (demo_follower c k) = (0, 0, [])"
  by (simp_all add: apply_view_def demo_peers demo_eval)

lemma demo_occ [simp]: "node_occ (demo_elect [zeroEntry]) = {}" "node_occ demo_voter = {}" "node_occ (demo_elect [zeroEntry, demo_entry c]) = {(1, c)}"
  "node_occ (demo_leader c) = {(1, c)}" "node_occ (demo_follower c k) = {(1, c)}" "args_occ (demo_entries c) = {(1, c)}" "args_occ demo_heartbeat = {}"
  by (auto simp: node_occ_def args_occ_def demo_peers demo_entries_def demo_heartbeat_def less_Suc_eq demo_eval)

lemma demo_voted: "\<exists>s. (calm 3)\<^sup>*\<^sup>* (cl_init 3 0 :: ('c, 'd) cluster) s \<and> nodes s 0 = demo_elect [zeroEntry] \<and> nodes s 1 = demo_voter"
proof -
  let ?s0 = "cl_init 3 0 :: ('c, 'd) cluster" and ?yes = "\<lparr>rvr_Term = 1, rvr_VoteGranted = True\<rparr>"
  obtain rf where rf: "ticker_tick (nodes ?s0 0) 1000 0 = Some (rf, Some demo_args)" "me rf = 0" "npeers rf = 3" "apply_view rf = (0, 0, [])"
    "handleVoteReply rf 1 1 ?yes 1001 = (demo_elect [zeroEntry], 2)" using demo_peer_events by (auto simp: cl_init_def)
  have "node_occ rf = {}" using same_log_occ [OF same_log_ticker [OF rf(1)]] by (simp add: cl_init_def node_occ_short demo_eval)
  define s1 where "s1 = set_votes 0 (rv_Term demo_args) 1 (open_calls rf demo_args (move 0 rf ?s0))"
  have "cl_step 3 ?s0 s1" unfolding s1_def by (rule cl_elect [OF _ _ rf(1)]) simp_all
  then have step1: "calm 3 ?s0 s1"
    by (rule calm_move [of _ _ _ 0 rf]) (simp_all add: s1_def rf(4) \<open>node_occ rf = {}\<close> set_votes_def open_calls_def, simp add: cl_init_def)
  have s1: "vote_calls s1 0 1 1 = VSent demo_args" "nodes s1 0 = rf" "nodes s1 1 = Make 3 1 MakePersister 0" "votes s1 0 1 = 1"
    using rf(2,3) by (simp_all add: s1_def electionPeers_def demo_args_def cl_init_def)
  define s2 where "s2 = set_call 0 1 1 (VReplied ?yes) (move 1 demo_voter s1)"
  have "cl_step 3 s1 s2" unfolding s2_def by (rule cl_vote [OF _ _ s1(1), where now = 0]) (simp_all add: s1 demo_vote_granted)
  then have step2: "calm 3 s1 s2" by (rule calm_move [of _ _ _ 1 demo_voter]) (simp_all add: s2_def s1 set_call_def)
  have s2: "vote_calls s2 0 1 1 = VReplied ?yes" "nodes s2 0 = rf" "nodes s2 1 = demo_voter" "votes s2 0 1 = 1"
    by (simp_all add: s2_def s1)
  define s3 where "s3 = set_votes 0 1 2 (set_call 0 1 1 VDone (move 0 (demo_elect [zeroEntry]) s2))"
  have "cl_step 3 s2 s3" unfolding s3_def by (rule cl_vote_reply [OF _ _ s2(1), where now = 1001]) (simp_all add: s2 rf(5))
  then have step3: "calm 3 s2 s3"
    by (rule calm_move [of _ _ _ 0 "demo_elect [zeroEntry]"]) (simp_all add: s3_def s2 rf(4) set_call_def set_votes_def)
  have "nodes s3 0 = demo_elect [zeroEntry]" "nodes s3 1 = demo_voter" by (simp_all add: s3_def s2)
  moreover have "(calm 3)\<^sup>*\<^sup>* ?s0 s3" using step1 step2 step3 by (meson converse_rtranclp_into_rtranclp rtranclp.rtrancl_refl)
  ultimately show ?thesis by blast
qed

lemma demo_replicated:
  fixes s0 :: "('c, 'd) cluster"
  assumes s0: "nodes s0 0 = demo_elect [zeroEntry, demo_entry c]" "nodes s0 1 = demo_voter"
  shows "\<exists>s. (calm 3)\<^sup>*\<^sup>* s0 s \<and> nodes s 0 = demo_leader c \<and> nodes s 1 = demo_follower c 0"
proof -
  have occ: "(1, c) \<in> occ 3 s0" using node_occ_in [of 0 3 s0] s0(1) by simp
  define s1 where "s1 = s0\<lparr>append_reqs := insert (1, demo_entries c) (append_reqs s0)\<rparr>"
  have "cl_step 3 s0 s1" unfolding s1_def
    by (rule cl_send [of 0 3 1 s0 1]) (simp_all add: s0 demo_sends(1), simp add: demo_elect_def)
  then have step1: "calm 3 s0 s1" unfolding s1_def by (rule calm_send) (simp add: occ)
  have s1: "nodes s1 = nodes s0" "(1, demo_entries c) \<in> append_reqs s1" by (simp_all add: s1_def)
  then have occ1: "(1, c) \<in> occ 3 s1" using args_occ_in [OF s1(2), of 3] by simp
  define s2 where "s2 = (move 1 (demo_follower c 0) s1)\<lparr>append_replies := insert (1, demo_entries c, demo_ok) (append_replies s1)\<rparr>"
  have "cl_step 3 s1 s2" unfolding s2_def by (rule cl_append [OF _ _ s1(2), where now = 0]) (simp_all add: s1(1) s0 demo_appends(1))
  then have step2: "calm 3 s1 s2" by (rule calm_move [of _ _ _ 1 "demo_follower c 0"]) (simp_all add: s2_def s1 s0 occ1)
  have s2: "nodes s2 0 = demo_elect [zeroEntry, demo_entry c]" "nodes s2 1 = demo_follower c 0" "(1, demo_entries c, demo_ok) \<in> append_replies s2"
    by (simp_all add: s2_def s1 s0)
  then have occ2: "(1, c) \<in> occ 3 s2" using node_occ_in [of 0 3 s2] by simp
  define s3 where "s3 = move 0 (demo_leader c) s2"
  have "cl_step 3 s2 s3" unfolding s3_def
    by (rule cl_append_reply [OF _ _ s2(3)]) (use demo_commits in \<open>simp_all add: s2 demo_entries_def\<close>)
  then have step3: "calm 3 s2 s3" by (rule calm_move [of _ _ _ 0 "demo_leader c"]) (simp_all add: s3_def s2 occ2)
  have "nodes s3 0 = demo_leader c" "nodes s3 1 = demo_follower c 0" by (simp_all add: s3_def s2)
  moreover have "(calm 3)\<^sup>*\<^sup>* s0 s3" using step1 step2 step3 by (meson converse_rtranclp_into_rtranclp rtranclp.rtrancl_refl)
  ultimately show ?thesis by blast
qed

lemma demo_elected:
  fixes c :: 'c
  shows "\<exists>s. (quiet 3)\<^sup>*\<^sup>* (cl_init 3 0 :: ('c, 'd) cluster) s \<and> nodes s 0 = demo_elect [zeroEntry, demo_entry c] \<and> nodes s 1 = demo_voter"
proof -
  obtain s3 :: "('c, 'd) cluster" where run: "(quiet 3)\<^sup>*\<^sup>* (cl_init 3 0) s3" and s3: "nodes s3 0 = demo_elect [zeroEntry]" "nodes s3 1 = demo_voter"
    using demo_voted calm_quiet by blast
  define s4 where "s4 = move 0 (demo_elect [zeroEntry, demo_entry c]) s3"
  have "cl_step 3 s3 s4" unfolding s4_def by (rule cl_start [of 0 3 s3 c]) (simp_all add: s3 demo_started)
  then have "quiet 3 s3 s4" by (rule quiet_move [of _ _ _ 0 "demo_elect [zeroEntry, demo_entry c]"]) (simp_all add: s4_def s3)
  with run have "(quiet 3)\<^sup>*\<^sup>* (cl_init 3 0) s4" by simp
  moreover have "nodes s4 0 = demo_elect [zeroEntry, demo_entry c]" "nodes s4 1 = demo_voter" by (simp_all add: s4_def s3)
  ultimately show ?thesis by blast
qed

lemma demo_quiet_run:
  fixes c :: 'c
  shows "\<exists>s. (quiet 3)\<^sup>*\<^sup>* (cl_init 3 0 :: ('c, 'd) cluster) s \<and> nodes s 0 = demo_leader c \<and> nodes s 1 = demo_follower c 1"
proof -
  obtain s0 :: "('c, 'd) cluster" where s0: "(quiet 3)\<^sup>*\<^sup>* (cl_init 3 0) s0" "nodes s0 0 = demo_elect [zeroEntry, demo_entry c]" "nodes s0 1 = demo_voter"
    using demo_elected [of c] by auto
  from demo_replicated [OF s0(2,3)] obtain s3 where s3': "(calm 3)\<^sup>*\<^sup>* s0 s3" and s3: "nodes s3 0 = demo_leader c" "nodes s3 1 = demo_follower c 0" by blast
  note run = rtranclp_trans [OF s0(1) calm_quiet [OF s3']]
  define s4 where "s4 = s3\<lparr>append_reqs := insert (1, demo_heartbeat) (append_reqs s3)\<rparr>"
  have "cl_step 3 s3 s4" unfolding s4_def
    by (rule cl_send [of 0 3 1 s3 1]) (simp_all add: s3 demo_sends(2), simp add: demo_leader_def demo_elect_def)
  then have step4: "quiet 3 s3 s4" by (rule quiet_send) (simp add: s4_def)
  have s4: "nodes s4 = nodes s3" "(1, demo_heartbeat) \<in> append_reqs s4" by (simp_all add: s4_def)
  define s5 where "s5 = (move 1 (demo_follower c 1) s4)\<lparr>append_replies := insert (1, demo_heartbeat, demo_ok) (append_replies s4)\<rparr>"
  have "cl_step 3 s4 s5" unfolding s5_def by (rule cl_append [OF _ _ s4(2), where now = 0]) (simp_all add: s4(1) s3 demo_appends(2))
  then have step5: "quiet 3 s4 s5" by (rule quiet_move [of _ _ _ 1 "demo_follower c 1"]) (simp_all add: s5_def s4 s3)
  have "(quiet 3)\<^sup>*\<^sup>* (cl_init 3 0) s5" using run step4 step5 by (meson rtranclp.rtrancl_into_rtrancl)
  moreover have "nodes s5 0 = demo_leader c" "nodes s5 1 = demo_follower c 1" by (simp_all add: s5_def s4 s3)
  ultimately show ?thesis by blast
qed

lemma demo_commit_run:
  "\<exists>s. cl_run 3 (cl_init 3 0 :: ('c, 'd) cluster) s \<and> nodes s 0 = demo_leader c \<and> nodes s 1 = demo_follower c 1"
  using demo_quiet_run [of c] quiet_run by blast

lemma demo_values:
  fixes rf rf' :: "('c, 'd) Raft"
  assumes "rf = demo_leader c" "rf' = demo_follower c 1"
  shows "entryAt rf 1 = Some (demo_entry c)" "entryAt rf' 1 = Some (demo_entry c)"
  "commitIndex rf = 1" "commitIndex rf' = 1" "role rf = Leader"
  "currentTerm rf = 1" "currentTerm rf' = 1" "lastIncludedIndex rf = 0"
  "map_option snd (applierLoop_iter rf) = Some [commandMsg (demo_entry c) 1]"
  "map_option snd (applierLoop_iter rf') = Some [commandMsg (demo_entry c) 1]"
  unfolding assms by (simp_all add: entryAt_def applierLoop_iter_def killed_def applier_collect.simps demo_peers demo_eval)

end
