(* ===== verification/RaftSafety.thy ===== *)
theory RaftSafety
  imports RaftSim RaftDemo
begin

text \<open>
  The safety of Raft as \<^verbatim>\<open>raft1/raft.go\<close> implements it, for every run of a cluster: the logs match, committed entries
  are never lost, every later leader has them, and no two peers ever apply different commands at the same index.
\<close>

section \<open>The cluster refines the protocol\<close>

lemma sim_apply:
  assumes sim: "cluster_sim n A s" and inv: "elect_inv n s" and p: "0 \<le> p" "p < n"
    and st: "applierLoop_iter (nodes s p) = Some (rf, msgs)"
  shows "cluster_sim n A (move p rf s)"
proof (cases "killed (nodes s p)")
  case True
  with st have "rf = nodes s p" by (simp add: applierLoop_iter_def)
  then show ?thesis using sim_stutter [OF sim inv p refl refl cluster_simD(3) [OF sim p]] by simp
next
  case False
  note P = cluster_simD(3) [OF sim p] and W = elect_inv_peer [OF inv p]
  have "commitIndex (nodes s p) \<le> lastLogIndex (nodes s p)"
    using committed_length [OF peer_simD(3) [OF P]] log_sim_last [OF peer_simD(2) [OF P] W(1)] by simp
  from applier_collect_eq [OF W(1) this] st False
  have rf: "rf = (nodes s p)\<lparr>lastApplied := commitIndex (nodes s p)\<rparr>"
    using peer_simD(4) [OF P] by (simp add: applierLoop_iter_def max_absorb2)
  have "peer_sim n A p rf"
    by (rule peer_simI) (use peer_simD(1,3,5) [OF P] peer_sim_leader [OF P] log_sim_cong [OF peer_simD(2) [OF P], of rf] in \<open>simp_all add: rf\<close>)
  then show ?thesis using sim_stutter [OF sim inv p, of rf] by (simp add: rf)
qed

lemma sim_kill:
  assumes sim: "cluster_sim n A s" and inv: "elect_inv n s" and p: "0 \<le> p" "p < n"
  shows "cluster_sim n A (move p (Kill (nodes s p)) s)"
proof -
  note P = cluster_simD(3) [OF sim p]
  have "peer_sim n A p (Kill (nodes s p))"
    by (rule peer_simI)
      (use peer_simD(1,3-5) [OF P] peer_sim_leader [OF P] log_sim_cong [OF peer_simD(2) [OF P], of "Kill (nodes s p)"] in \<open>simp_all add: Kill_def\<close>)
  then show ?thesis using sim_stutter [OF sim inv p] by (simp add: Kill_def)
qed

text \<open>A restarted peer has its log back and forgets only what it knew to be committed after its snapshot.\<close>

lemma sim_restart:
  assumes sim: "cluster_sim n A s" and inv: "elect_inv n s" and p: "0 \<le> p" "p < n"
  shows "cluster_sim n A (move p (Make n p (persister (nodes s p)) now) s)"
proof -
  let ?rf = "Make n p (persister (nodes s p)) now"
  note P = cluster_simD(3) [OF sim p] and W = elect_inv_peer [OF inv p]
  note M = Make_restores [OF W(2), of n p now]
  have "committed (majority n) A (currentTerm (nodes s p)) (nat (lastIncludedIndex (nodes s p))) (alog A p)"
    by (rule committed_mono [OF peer_simD(3) [OF P] order_refl]) (use W(1) in \<open>simp add: raft_wf_def nat_mono\<close>)
  then have "peer_sim n A p ?rf"
    by (intro peer_simI) (use M peer_simD(1) [OF P] log_sim_cong [OF peer_simD(2) [OF P], of ?rf] in simp_all)
  then show ?thesis using sim_stutter [OF sim inv p] M by simp
qed

lemma elected_majority:
  assumes inv: "elect_inv n s" and p: "0 \<le> p" "p < n" and call: "vote_calls s p t q = VReplied reply"
    and st: "handleVoteReply (nodes s p) (votes s p t) t reply now = (rf, v)" and lead: "role rf = Leader"
  shows "n div 2 < int (card (supporters n s p (currentTerm rf)))"
proof -
  let ?s' = "set_votes p t v (set_call p t q VDone (move p rf s))"
  have "elect_inv n ?s'" by (rule cl_step_elect_inv [OF cl_vote_reply [OF p call st] inv])
  then have "candidate_ok n ?s' p" using p by (simp add: elect_inv_def)
  then have "n div 2 < int (card (supporters n ?s' p (currentTerm rf)))"
    using lead by (simp add: candidate_ok_def Let_def)
  moreover have "currentTerm rf = currentTerm (nodes s p)" "votedFor rf = votedFor (nodes s p)"
    using st lead by (auto simp: handleVoteReply_def becomeLeader_def Let_def split: if_splits)
  then have "supporters n ?s' p (currentTerm rf) = supporters n s p (currentTerm rf)"
    using record_vote_same [OF elect_inv_history [OF inv p], of rf] by (simp add: supporters_def)
  ultimately show ?thesis by simp
qed

lemma cl_step_sim:
  assumes "cl_step n s s'" "elect_inv n s" "cluster_sim n A s"
  shows "\<exists>A'. a_run (majority n) A A' \<and> cluster_sim n A' s'"
proof -
  note sim = assms(3) and inv = assms(2)
  have acted: "?thesis" if "\<exists>A'. acts n p A A' \<and> cluster_sim n A' s'" for p using that acts_run by blast
  have stay: "?thesis" if "cluster_sim n A s'" using that a_refl by blast
  from assms(1) show ?thesis
  proof (cases rule: cl_step.cases)
    case (cl_elect i now rnd rf args)
    then show ?thesis using sim_elect [OF sim inv] acted by blast
  next
    case (cl_vote p i t args now rf reply)
    with sim_vote [OF sim inv cl_vote(2-5)] sim_calls(1) [of n _ "move p rf s" "VReplied reply"] acted show ?thesis by blast
  next
    case (cl_vote_reply i t p reply now rf v)
    show ?thesis unfolding cl_vote_reply(1)
      using sim_vote_reply [OF sim inv cl_vote_reply(2-5)] elected_majority [OF inv cl_vote_reply(2-5)] acts_run by blast
  next
    case (cl_start i c rf r)
    then show ?thesis using sim_start [OF sim inv] acted by blast
  next
    case (cl_send i p t args)
    then show ?thesis using sim_send [OF sim inv] stay by blast
  next
    case (cl_send_snap i p t sargs)
    then show ?thesis using sim_send_snap [OF sim inv] stay by blast
  next
    case (cl_append p args now rf reply)
    then show ?thesis using sim_append [OF sim inv] acted by blast
  next
    case (cl_append_reply i p args reply rf)
    then show ?thesis using sim_append_reply [OF sim inv] acted by blast
  next
    case (cl_snap p sargs now rf reply msg)
    then show ?thesis using sim_snap [OF sim inv] acted by blast
  next
    case (cl_snap_reply i p sargs reply rf)
    then show ?thesis using sim_snap_reply [OF sim inv] acted by blast
  next
    case (cl_compact i index snap rf)
    then show ?thesis using sim_compact [OF sim inv] stay by blast
  next
    case (cl_apply i rf msgs)
    then show ?thesis using sim_apply [OF sim inv] stay by blast
  next
    case (cl_kill i)
    then show ?thesis using sim_kill [OF sim inv] stay by blast
  next
    case (cl_restart i now)
    then show ?thesis using sim_restart [OF sim inv] stay by blast
  qed
qed

lemma cl_run_sim:
  "cl_run n s s' \<Longrightarrow> elect_inv n s \<Longrightarrow> cluster_sim n A s \<Longrightarrow> \<exists>A'. a_run (majority n) A A' \<and> cluster_sim n A' s'"
proof (induction rule: cl_run.induct)
  case (cl_refl s)
  then show ?case using a_refl by blast
next
  case (cl_trans s s' s'')
  then obtain A' where "a_run (majority n) A A'" "cluster_sim n A' s'" by blast
  with cl_step_sim [OF cl_trans(2) cl_run_elect_inv [OF cl_trans(1)]] cl_trans.prems show ?case
    using a_run_append by blast
qed

lemma a_init_sel [simp]:
  "aterm a_init p = 0" "avoted a_init = (\<lambda>_ _. None)" "alog a_init p = []"
  by (simp_all add: a_init_def)

lemma Make_initial_log:
  "currentTerm (Make n p MakePersister now) = 0" "rlog (Make n p MakePersister now) = [zeroEntry]"
  "lastIncludedIndex (Make n p MakePersister now) = 0" "lastIncludedTerm (Make n p MakePersister now) = 0"
  by (simp_all add: Make_def readPersist_def Let_def MakePersister_def ReadRaftState_def)

lemma cl_init_sim: "cluster_sim n a_init (cl_init n now)"
  by (simp add: cluster_sim_def a_init_inv msgs_sim_def cl_init_def peer_sim_def log_sim_def Make_initial_log)

lemma reachable_sim:
  assumes "cl_run n (cl_init n now) s"
  shows "elect_inv n s" "\<exists>A. a_run (majority n) a_init A \<and> cluster_sim n A s"
  using cl_run_elect_inv [OF assms cl_init_elect_inv] cl_run_sim [OF assms cl_init_elect_inv cl_init_sim] by blast+

text \<open>
  C12: The Raft cluster of the repository refines the abstract protocol.  For every run of a cluster, with messages lost, delayed,
  reordered and repeated, logs compacted and peers crashed and restarted, there is a run of the protocol of
  \<^verbatim>\<open>RaftAbs\<close> over majorities that ends in a state the cluster's state stands for: the same terms and votes, each
  peer's log the part of its abstract log after the snapshot, each commit index covered by chosen entries, and each
  leader's log the log of its term.
\<close>

theorem raft_refines_protocol:
  assumes "cl_run n (cl_init n now) s"
  shows "\<exists>A. a_run (majority n) a_init A \<and> cluster_sim n A s"
  by (rule reachable_sim(2) [OF assms])

theorem raft_refines_protocol_witness:
  "\<exists>s A. role (nodes s 0) = Leader \<and> a_run (majority 3) a_init A \<and> cluster_sim 3 A (s :: (nat, nat) cluster)"
  using demo_cluster_run raft_refines_protocol by blast

text \<open>Two moments of a run: the protocol's state at the later one extends that at the earlier one.\<close>

lemma two_moments:
  assumes "cl_run n (cl_init n now) s" "cl_run n s s'"
  obtains A A' where "elect_inv n s" "elect_inv n s'" "cluster_sim n A s" "cluster_sim n A' s'"
    "a_run (majority n) A A'" "a_inv (majority n) A" "a_inv (majority n) A'"
proof -
  have inv: "elect_inv n s" by (rule reachable_sim(1) [OF assms(1)])
  obtain A where A: "cluster_sim n A s" using reachable_sim(2) [OF assms(1)] by blast
  obtain A' where "a_run (majority n) A A'" "cluster_sim n A' s'" using cl_run_sim [OF assms(2) inv A] by blast
  with inv A cl_run_elect_inv [OF assms(2) inv] cluster_simD(1) show thesis by (intro that [of A A']) blast+
qed

section \<open>Log Matching\<close>

text \<open>A peer's log entries are those of its abstract log.\<close>

lemma sim_entryAt:
  assumes "cluster_sim n A s" "elect_inv n s" "0 \<le> p" "p < n" "entryAt (nodes s p) k = Some e"
  shows "1 \<le> nat k" "nat k \<le> length (alog A p)" "e = alog A p ! (nat k - 1)" "tm (alog A p) (nat k) = le_Term e"
proof -
  note P = cluster_simD(3) [OF assms(1,3,4)] and W = elect_inv_peer [OF assms(2-4)]
  note lg = peer_simD(2) [OF P] W(1)
  from assms(5) log_sim_entryAt [OF lg, of k]
  have k: "lastIncludedIndex (nodes s p) < k" "k \<le> int (length (alog A p))" and e: "e = alog A p ! (nat k - 1)"
    by (auto split: if_splits)
  from k log_simD(2) [OF lg] show k1: "1 \<le> nat k" "nat k \<le> length (alog A p)" by auto
  show "e = alog A p ! (nat k - 1)" by (rule e)
  with k1 show "tm (alog A p) (nat k) = le_Term e" by (auto simp: tm_def)
qed

text \<open>
  C10: Log Matching.  If two peers' logs, at the same moment of a run or at different ones, hold entries with the same term at an
  index, then they hold the same entry there and at every smaller index that both logs still keep.
\<close>

theorem log_matching:
  assumes "cl_run n (cl_init n now) s" and "cl_run n s s'" and "0 \<le> i" "i < n" and "0 \<le> j" "j < n"
    and "entryAt (nodes s i) k = Some e" and "entryAt (nodes s' j) k = Some e'" and "le_Term e = le_Term e'"
    and "l \<le> k" and "entryAt (nodes s i) l = Some f" and "entryAt (nodes s' j) l = Some f'"
  shows "f = f'"
proof -
  obtain A A' where A: "elect_inv n s" "elect_inv n s'" "cluster_sim n A s" "cluster_sim n A' s'"
    "a_run (majority n) A A'" "a_inv (majority n) A" "a_inv (majority n) A'" using two_moments [OF assms(1,2)] .
  note ei = sim_entryAt [OF A(3,1) assms(3,4)] and ej = sim_entryAt [OF A(4,2) assms(5,6)]
  have "log_ok A' (aterm A i) (alog A i)"
    by (rule log_ok_grows [OF sim_log_ok [OF A(3)] a_run_grows [OF A(5)] order_refl])
  then have "agree (nat k) (alog A i) (alog A' j)"
    by (rule log_matching_abs [OF _ sim_log_ok [OF A(4)]])
      (use ei [OF assms(7)] ej [OF assms(8)] assms(9) in simp_all)
  from agree_nth [OF this, of "nat l - 1"] ei(1,3) [OF assms(11)] ej(3) [OF assms(12)] assms(10) show ?thesis by simp
qed

theorem log_matching_witness:
  "\<exists>s f f'. cl_run 3 (cl_init 3 0 :: (nat, nat) cluster) s \<and> entryAt (nodes s 0) 1 = Some f \<and> entryAt (nodes s 1) 1 = Some f' \<and> f = f'"
proof -
  obtain s where s: "cl_run 3 (cl_init 3 0 :: (nat, nat) cluster) s" "nodes s 0 = demo_leader 42" "nodes s 1 = demo_follower 42 1"
    using demo_commit_run [of 42] by auto
  from s demo_values(1,2) [OF s(2,3)] obtain f f' where f: "entryAt (nodes s 0) 1 = Some f" "entryAt (nodes s 1) 1 = Some f'" "le_Term f = le_Term f'"
    by simp
  from log_matching [OF s(1) cl_refl _ _ _ _ f order_refl f(1,2)] f s(1) show ?thesis by auto
qed

section \<open>Committed entries\<close>

text \<open>An index up to the commit index is covered by what the protocol has committed, then and later.\<close>

lemma sim_committed:
  assumes "cluster_sim n A s" "elect_inv n s" "0 \<le> p" "p < n" "k \<le> commitIndex (nodes s p)"
  shows "committed (majority n) A (aterm A p) (nat k) (alog A p)"
  using committed_mono [OF peer_simD(3) [OF cluster_simD(3) [OF assms(1,3,4)]] order_refl, of "nat k"]
    peer_simD(1) [OF cluster_simD(3) [OF assms(1,3,4)]] assms(5) by (simp add: nat_mono)

lemma sim_covers:
  assumes "cluster_sim n A s" "elect_inv n s" "0 \<le> p" "p < n" "agree (nat k) F (alog A p)" "0 < k"
  shows "k \<le> lastLogIndex (nodes s p)"
    "lastIncludedIndex (nodes s p) < k \<Longrightarrow> entryAt (nodes s p) k = Some (F ! (nat k - 1))"
proof -
  note lg = peer_simD(2) [OF cluster_simD(3) [OF assms(1,3,4)]] elect_inv_peer(1) [OF assms(2-4)]
  have k: "k \<le> int (length (alog A p))" using agree_length [OF assms(5)] by linarith
  then show "k \<le> lastLogIndex (nodes s p)" using log_sim_last [OF lg] by simp
  show "entryAt (nodes s p) k = Some (F ! (nat k - 1))" if "lastIncludedIndex (nodes s p) < k"
    using that k log_sim_entryAt [OF lg] agree_nth [OF assms(5), of "nat k - 1"] assms(6) by simp
qed

text \<open>
  C8: Leader Completeness.  An entry that some peer knows to be committed at some moment of a run is in the log of every later
  leader whose term is not smaller than the peer's: the leader's log reaches that index and, unless the
  leader has compacted it into its snapshot, holds that very entry there.
\<close>

theorem leader_completeness:
  assumes "cl_run n (cl_init n now) s" and "cl_run n s s'" and "0 \<le> i" "i < n" and "0 \<le> j" "j < n"
    and "entryAt (nodes s i) k = Some e" and "k \<le> commitIndex (nodes s i)"
    and "role (nodes s' j) = Leader" and "currentTerm (nodes s i) \<le> currentTerm (nodes s' j)"
  shows "k \<le> lastLogIndex (nodes s' j) \<and> (lastIncludedIndex (nodes s' j) < k \<longrightarrow> entryAt (nodes s' j) k = Some e)"
proof -
  obtain A A' where A: "elect_inv n s" "elect_inv n s'" "cluster_sim n A s" "cluster_sim n A' s'"
    "a_run (majority n) A A'" "a_inv (majority n) A" "a_inv (majority n) A'" using two_moments [OF assms(1,2)] .
  note ei = sim_entryAt [OF A(3,1) assms(3,4,7)] and L = peer_sim_leader [OF cluster_simD(3) [OF A(4) assms(5,6)] assms(9)]
  have le: "aterm A i \<le> currentTerm (nodes s' j)"
    using peer_simD(1) [OF cluster_simD(3) [OF A(3) assms(3,4)]] assms(10) by simp
  have "committed (majority n) A' (aterm A i) (nat k) (alog A i)"
    by (rule committed_run [OF A(5,6) sim_committed [OF A(3,1) assms(3,4,8)]])
  from maj.leader_has_committed [OF A(7) this _ le] L(1,2) inv_electedD(1) [OF a_invD(5) [OF A(7)], of "currentTerm (nodes s' j)"]
  have "agree (nat k) (alog A i) (alog A' j)" by auto
  from sim_covers [OF A(4,2) assms(5,6) this] ei(1,3) show ?thesis by auto
qed

theorem leader_completeness_witness:
  "\<exists>s. cl_run 3 (cl_init 3 0 :: (nat, nat) cluster) s \<and> role (nodes s 0) = Leader \<and> commitIndex (nodes s 1) = 1
     \<and> entryAt (nodes s 0) 1 = entryAt (nodes s 1) 1"
proof -
  obtain s where s: "cl_run 3 (cl_init 3 0 :: (nat, nat) cluster) s" "nodes s 0 = demo_leader 42" "nodes s 1 = demo_follower 42 1"
    using demo_commit_run [of 42] by auto
  have "entryAt (nodes s 0) 1 = entryAt (nodes s 1) 1"
    using leader_completeness [OF s(1) cl_refl, of 1 0 1] demo_values [OF s(2,3)] by simp
  with s demo_values [OF s(2,3)] show ?thesis by auto
qed

text \<open>
  C11: Committed entries are permanent.  Once a peer knows an entry to be committed, its log keeps that entry at that index for ever
  (or has compacted it into its snapshot), over any number of crashes, restarts, elections and snapshots.
\<close>

theorem committed_permanent:
  assumes "cl_run n (cl_init n now) s" and "cl_run n s s'" and "0 \<le> i" "i < n"
    and "entryAt (nodes s i) k = Some e" and "k \<le> commitIndex (nodes s i)"
  shows "k \<le> lastLogIndex (nodes s' i) \<and> (lastIncludedIndex (nodes s' i) < k \<longrightarrow> entryAt (nodes s' i) k = Some e)"
proof -
  obtain A A' where A: "elect_inv n s" "elect_inv n s'" "cluster_sim n A s" "cluster_sim n A' s'"
    "a_run (majority n) A A'" "a_inv (majority n) A" "a_inv (majority n) A'" using two_moments [OF assms(1,2)] .
  note ei = sim_entryAt [OF A(3,1) assms(3,4,5)] and com = sim_committed [OF A(3,1) assms(3,4,6)]
  have "agree (min (nat k) (nat k)) (alog A i) (alog A' i)"
    by (rule maj.committed_agree [OF A(7) committed_run [OF A(5,6) com] maj.committed_log_run [OF A(5,6) com]])
  from sim_covers [OF A(4,2) assms(3,4) this [unfolded min.idem]] ei(1,3) show ?thesis by auto
qed

theorem committed_permanent_witness:
  "\<exists>s s'. cl_run 3 (cl_init 3 0 :: (nat, nat) cluster) s \<and> cl_run 3 s s' \<and> commitIndex (nodes s 1) = 1 \<and> commitIndex (nodes s' 1) = 0
     \<and> 1 \<le> lastLogIndex (nodes s' 1)"
proof -
  obtain s where s: "cl_run 3 (cl_init 3 0 :: (nat, nat) cluster) s" "nodes s 0 = demo_leader 42" "nodes s 1 = demo_follower 42 1"
    using demo_commit_run [of 42] by auto
  let ?s' = "move 1 (Make 3 1 (persister (nodes s 1)) 9) s"
  have run: "cl_run 3 s ?s'" by (rule cl_trans [OF cl_refl cl_restart]) simp_all
  have "1 \<le> lastLogIndex (nodes ?s' 1)"
    using committed_permanent [OF s(1) run, of 1 1] demo_values [OF s(2,3)] by simp
  moreover have "commitIndex (nodes ?s' 1) = 0" using s(3) by (simp add: demo_peers demo_eval)
  ultimately show ?thesis using s run demo_values [OF s(2,3)] by (intro exI [of _ s] exI [of _ ?s']) simp
qed

text \<open>The messages the applier delivers: committed entries of the log, at their index.\<close>

lemma applied_committed:
  assumes "cluster_sim n A s" "elect_inv n s" "0 \<le> p" "p < n"
    and "applierLoop_iter (nodes s p) = Some (rf, msgs)" "m \<in> set msgs"
  shows "committed (majority n) A (aterm A p) (nat (CommandIndex m)) (alog A p)" "1 \<le> nat (CommandIndex m)"
    "am_Command m = le_Command (alog A p ! (nat (CommandIndex m) - 1))"
proof -
  let ?rf = "nodes s p"
  note P = cluster_simD(3) [OF assms(1,3,4)] and W = elect_inv_peer [OF assms(2-4)]
  have com: "commitIndex ?rf \<le> lastLogIndex ?rf" "commitIndex ?rf \<le> int (length (alog A p))"
    using committed_length [OF peer_simD(3) [OF P]] log_sim_last [OF peer_simD(2) [OF P] W(1)] by simp_all
  from assms(5,6) applier_collect_eq [OF W(1) com(1)]
  obtain i where i: "lastApplied ?rf + 1 \<le> i" "i \<le> commitIndex ?rf" and m: "m = commandMsg (rlog ?rf ! nat (i - lastIncludedIndex ?rf)) i"
    by (auto simp: applierLoop_iter_def split: if_splits)
  have il: "lastIncludedIndex ?rf < i" using i W(1) by (simp add: raft_wf_def)
  show "committed (majority n) A (aterm A p) (nat (CommandIndex m)) (alog A p)"
    using sim_committed [OF assms(1-4) i(2)] by (simp add: m commandMsg_def)
  have "0 < i" using il W(1) by (simp add: raft_wf_def)
  then show "1 \<le> nat (CommandIndex m)" by (simp add: m commandMsg_def)
  show "am_Command m = le_Command (alog A p ! (nat (CommandIndex m) - 1))"
    using log_sim_nth [OF peer_simD(2) [OF P] W(1) il] i(2) com(2) by (simp add: m commandMsg_def)
qed

text \<open>
  C2: State Machine Safety.  If two peers, at any two moments of a run, deliver commands on their apply channels at the same index, the
  commands are the same: all replicas apply the same sequence of commands.
\<close>

theorem state_machine_safety:
  assumes "cl_run n (cl_init n now) s" and "cl_run n s s'" and "0 \<le> i" "i < n" and "0 \<le> j" "j < n"
    and "applierLoop_iter (nodes s i) = Some (rf, msgs)" and "applierLoop_iter (nodes s' j) = Some (rf', msgs')"
    and "m \<in> set msgs" and "m' \<in> set msgs'" and "CommandIndex m = CommandIndex m'"
  shows "am_Command m = am_Command m'"
proof -
  obtain A A' where A: "elect_inv n s" "elect_inv n s'" "cluster_sim n A s" "cluster_sim n A' s'"
    "a_run (majority n) A A'" "a_inv (majority n) A" "a_inv (majority n) A'" using two_moments [OF assms(1,2)] .
  note mi = applied_committed [OF A(3,1) assms(3,4,7,9)] and mj = applied_committed [OF A(4,2) assms(5,6,8,10)]
  have "agree (min (nat (CommandIndex m)) (nat (CommandIndex m'))) (alog A i) (alog A' j)"
    by (rule maj.committed_agree [OF A(7) committed_run [OF A(5,6) mi(1)] mj(1)])
  from agree_nth [OF this, of "nat (CommandIndex m) - 1"] mi(2,3) mj(3) assms(11) show ?thesis by simp
qed

theorem state_machine_safety_witness:
  "\<exists>s rf rf' m m'. cl_run 3 (cl_init 3 0 :: (nat, nat) cluster) s \<and> applierLoop_iter (nodes s 0) = Some (rf, [m])
     \<and> applierLoop_iter (nodes s 1) = Some (rf', [m']) \<and> CommandIndex m = 1 \<and> CommandIndex m' = 1 \<and> am_Command m = am_Command m'"
proof -
  obtain s where s: "cl_run 3 (cl_init 3 0 :: (nat, nat) cluster) s" "nodes s 0 = demo_leader 42" "nodes s 1 = demo_follower 42 1"
    using demo_commit_run [of 42] by auto
  from demo_values(9,10) [OF s(2,3)] obtain rf rf' m m' where ms: "applierLoop_iter (nodes s 0) = Some (rf, [m])"
    "applierLoop_iter (nodes s 1) = Some (rf', [m'])" "CommandIndex m = 1" "CommandIndex m' = 1"
    by (auto simp: commandMsg_def)
  from state_machine_safety [OF s(1) cl_refl _ _ _ _ ms(1,2), of m m'] ms(3,4) have "am_Command m = am_Command m'" by simp
  with s(1) ms show ?thesis by blast
qed

end
