(* ===== verification/Rsm.thy ===== *)
theory Rsm
  imports RaftPeer KvRpc
begin

text \<open>
  The replicated state machine layer, \<^verbatim>\<open>kvraft1/rsm/rsm.go\<close>.  The \<^verbatim>\<open>StateMachine\<close> interface is the locale
  \<open>state_machine\<close>: the server's \<open>DoOp\<close>, \<open>Snapshot\<close> and \<open>Restore\<close>, with the laws the layer relies on.  The
  reader goroutine \<open>applyReader\<close> is a function of one message; \<open>Submit\<close> is split at the points where it
  takes and releases locks.  A channel made by \<open>Submit\<close> has room for one notification.
\<close>

section \<open>Data\<close>

record 'q Op =
  op_Id :: int
  op_Term :: int
  op_Command :: 'q

record 'r Notification =
  n_id :: int
  n_term :: int
  n_result :: 'r

record 'r chan =
  buf :: "'r Notification list"
  closed :: bool

text \<open>\<open>pendingOps\<close> maps a log index to a channel; channels are references into \<open>chans\<close>, and \<open>next_chan\<close>
  is the next unused one.\<close>

record ('s, 'r) RSM =
  rsm_me :: int
  maxraftstate :: int
  sm :: 's
  pendingOps :: "int \<rightharpoonup> nat"
  chans :: "nat \<Rightarrow> 'r chan"
  next_chan :: nat

section \<open>Operations\<close>

definition MakeRSM :: "('s \<Rightarrow> 'd list \<Rightarrow> 's option) \<Rightarrow> int \<Rightarrow> int \<Rightarrow> ('q Op LogEntry list gob, 'd) Persister
    \<Rightarrow> int \<Rightarrow> 's \<Rightarrow> int \<Rightarrow> (('s, 'r) RSM \<times> ('q Op, 'd) Raft) option" where
  "MakeRSM restore n i ps maxraft s now = do {
     let rsm = \<lparr>rsm_me = i, maxraftstate = maxraft, sm = s, pendingOps = Map.empty,
                chans = (\<lambda>_. \<lparr>buf = [], closed = False\<rparr>), next_chan = 0\<rparr>;
     let rf = Make n i ps now;
     let snap = ReadSnapshot ps;
     if length snap > 0 then do { s' \<leftarrow> restore (sm rsm) snap; Some (rsm\<lparr>sm := s'\<rparr>, rf) }
     else Some (rsm, rf)
   }"

definition chan_send :: "'r chan \<Rightarrow> 'r Notification \<Rightarrow> 'r chan" where
  "chan_send ch nt = ch\<lparr>buf := buf ch @ [nt]\<rparr>"

text \<open>Notify the \<open>Submit\<close> that waits at this index, if there is one.\<close>

definition notify :: "('s, 'r) RSM \<Rightarrow> int \<Rightarrow> 'r Notification \<Rightarrow> ('s, 'r) RSM" where
  "notify rsm index nt =
     (case pendingOps rsm index of
        None \<Rightarrow> rsm
      | Some ch \<Rightarrow> rsm\<lparr>pendingOps := (pendingOps rsm)(index := None),
                      chans := (chans rsm)(ch := chan_send (chans rsm ch) nt)\<rparr>)"

text \<open>One message of the channel from Raft: a command is executed and reported, a snapshot is
  restored.  A command that is not an \<open>Op\<close> is skipped.\<close>

definition applyReader_exec :: "('s \<Rightarrow> 'q \<Rightarrow> ('s \<times> 'r) option) \<Rightarrow> ('s \<Rightarrow> 'd list \<Rightarrow> 's option)
    \<Rightarrow> ('s, 'r) RSM \<Rightarrow> ('q Op, 'd) ApplyMsg \<Rightarrow> ('s, 'r) RSM option" where
  "applyReader_exec dop restore rsm msg =
     (if CommandValid msg then
        (case am_Command msg of
           None \<Rightarrow> Some rsm
         | Some op \<Rightarrow> do {
             (s', res) \<leftarrow> dop (sm rsm) (op_Command op);
             Some (notify (rsm\<lparr>sm := s'\<rparr>) (CommandIndex msg)
                     \<lparr>n_id = op_Id op, n_term = op_Term op, n_result = res\<rparr>)
           })
      else if SnapshotValid msg then do {
        s' \<leftarrow> restore (sm rsm) (am_Snapshot msg);
        Some (rsm\<lparr>sm := s'\<rparr>)
      }
      else Some rsm)"

text \<open>After a command, a snapshot is taken if Raft's state has grown to the limit.\<close>

definition applyReader_snapshot :: "('s \<Rightarrow> 'd list) \<Rightarrow> ('q Op LogEntry list gob list \<Rightarrow> int)
    \<Rightarrow> ('s, 'r) RSM \<Rightarrow> ('q Op, 'd) Raft \<Rightarrow> ('q Op, 'd) ApplyMsg \<Rightarrow> ('q Op, 'd) Raft option" where
  "applyReader_snapshot snap len rsm rf msg =
     (if CommandValid msg \<and> am_Command msg \<noteq> None \<and> maxraftstate rsm \<noteq> -1 \<and> PersistBytes len rf \<ge> maxraftstate rsm
      then Snapshot rf (CommandIndex msg) (snap (sm rsm))
      else Some rf)"

text \<open>When the channel from Raft is closed, every waiting \<open>Submit\<close> is woken by closing its channel.\<close>

definition applyReader_close :: "('s, 'r) RSM \<Rightarrow> ('s, 'r) RSM" where
  "applyReader_close rsm = rsm\<lparr>pendingOps := Map.empty,
     chans := (\<lambda>c. if c \<in> ran (pendingOps rsm) then (chans rsm c)\<lparr>closed := True\<rparr> else chans rsm c)\<rparr>"

text \<open>\<open>Submit\<close> up to the operation it will start: only a leader goes on.\<close>

definition Submit_op :: "('q Op, 'd) Raft \<Rightarrow> int \<Rightarrow> 'q \<Rightarrow> Err + 'q Op" where
  "Submit_op rf nrand req =
     (let (term, isLeader) = GetState rf
      in if \<not> isLeader then Inl ErrWrongLeader
         else Inr \<lparr>op_Id = nrand, op_Term = term, op_Command = req\<rparr>)"

definition Submit_start :: "('q Op, 'd) Raft \<Rightarrow> 'q Op \<Rightarrow> ('q Op, 'd) Raft \<times> (Err + int \<times> int)" where
  "Submit_start rf op =
     (let (rf, index, startTerm, isLeader) = Start rf op
      in (rf, if \<not> isLeader then Inl ErrWrongLeader else Inr (index, startTerm)))"

definition Submit_register :: "('s, 'r) RSM \<Rightarrow> int \<Rightarrow> ('s, 'r) RSM \<times> nat" where
  "Submit_register rsm index =
     (let ch = next_chan rsm
      in (rsm\<lparr>chans := (chans rsm)(ch := \<lparr>buf = [], closed = False\<rparr>), next_chan := ch + 1,
              pendingOps := (pendingOps rsm)(index \<mapsto> ch)\<rparr>, ch))"

text \<open>One turn of the waiting loop; \<open>None\<close> means it sleeps and tries again.  \<open>startTerm\<close> is the term \<open>Start\<close>
  returned.  On return the deferred function removes the entry at \<open>index\<close>.\<close>

definition Submit_poll :: "('s, 'r) RSM \<Rightarrow> ('q Op, 'd) Raft \<Rightarrow> nat \<Rightarrow> int \<Rightarrow> int \<Rightarrow> (Err \<times> 'r option) option" where
  "Submit_poll rsm rf ch op_id startTerm =
     (case buf (chans rsm ch) of
        notification # _ \<Rightarrow>
          (if n_term notification \<noteq> startTerm \<or> n_id notification \<noteq> op_id then Some (ErrWrongLeader, None)
           else Some (OK, Some (n_result notification)))
      | [] \<Rightarrow>
          (if closed (chans rsm ch) then Some (ErrWrongLeader, None)
           else let (currTerm, currIsLeader) = GetState rf
                in if \<not> currIsLeader \<or> currTerm \<noteq> startTerm then Some (ErrWrongLeader, None) else None))"

definition Submit_return :: "('s, 'r) RSM \<Rightarrow> int \<Rightarrow> ('s, 'r) RSM" where
  "Submit_return rsm index = rsm\<lparr>pendingOps := (pendingOps rsm)(index := None)\<rparr>"

section \<open>The state machine contract\<close>

text \<open>\<open>view\<close> is the part of the server's state that operations read and snapshots carry.\<close>

fun run_ops :: "('s \<Rightarrow> 'q \<Rightarrow> ('s \<times> 'r) option) \<Rightarrow> 'q list \<Rightarrow> 's \<Rightarrow> ('s \<times> 'r list) option" where
  "run_ops dop [] s = Some (s, [])"
| "run_ops dop (q # qs) s = do { (s1, r) \<leftarrow> dop s q; (s2, rs) \<leftarrow> run_ops dop qs s1; Some (s2, r # rs) }"

lemma run_ops_append:
  "run_ops dop (xs @ ys) s =
     do { (s1, r1) \<leftarrow> run_ops dop xs s; (s2, r2) \<leftarrow> run_ops dop ys s1; Some (s2, r1 @ r2) }"
proof (induction xs arbitrary: s)
  case Nil
  then show ?case by (cases "run_ops dop ys s") auto
next
  case (Cons x xs)
  show ?case
  proof (cases "dop s x")
    case None
    then show ?thesis by simp
  next
    case (Some p)
    obtain s1 r where p: "p = (s1, r)" by (cases p)
    show ?thesis
    proof (cases "run_ops dop xs s1")
      case None
      with Some p Cons.IH [of s1] show ?thesis by simp
    next
      case (Some p2)
      obtain s2 r2 where p2: "p2 = (s2, r2)" by (cases p2)
      show ?thesis using \<open>dop s x = Some p\<close> p Some p2 Cons.IH [of s1] by (cases "run_ops dop ys s2") auto
    qed
  qed
qed

lemma length_run_ops: "run_ops dop qs s = Some (s', rs) \<Longrightarrow> length rs = length qs"
  by (induction qs arbitrary: s rs) (auto simp: bind_Some_iff)

locale state_machine =
  fixes DoOp :: "'s \<Rightarrow> 'q \<Rightarrow> ('s \<times> 'r) option"
    and SnapshotSM :: "'s \<Rightarrow> 'd list"
    and RestoreSM :: "'s \<Rightarrow> 'd list \<Rightarrow> 's option"
    and view :: "'s \<Rightarrow> 'v"
  assumes DoOp_view: "view s = view t \<Longrightarrow> DoOp s q = Some (s', r) \<Longrightarrow>
        \<exists>t'. DoOp t q = Some (t', r) \<and> view t' = view s'"
    and Restore_Snapshot: "\<exists>t'. RestoreSM t (SnapshotSM s) = Some t' \<and> view t' = view s"
    and Snapshot_view: "view s = view t \<Longrightarrow> SnapshotSM s = SnapshotSM t"
    and Snapshot_nonempty: "SnapshotSM s \<noteq> []"
begin

lemma run_ops_view:
  assumes "view s = view t" "run_ops DoOp qs s = Some (s', rs)"
  shows "\<exists>t'. run_ops DoOp qs t = Some (t', rs) \<and> view t' = view s'"
  using assms
proof (induction qs arbitrary: s t rs)
  case Nil
  then show ?case by simp
next
  case (Cons q qs)
  from Cons.prems(2) obtain s1 r rs1 where s1: "DoOp s q = Some (s1, r)" "run_ops DoOp qs s1 = Some (s', rs1)"
    "rs = r # rs1" by (auto simp: bind_Some_iff)
  from DoOp_view [OF Cons.prems(1) s1(1)] obtain t1 where t1: "DoOp t q = Some (t1, r)" "view t1 = view s1" by blast
  from Cons.IH [OF t1(2) [symmetric] s1(2)] t1(1) s1(3) show ?case by auto
qed

text \<open>Restoring a snapshot and executing the rest is executing everything.\<close>

lemma replay_from_snapshot:
  assumes "run_ops DoOp (qs1 @ qs2) s0 = Some (s2, rs)" "run_ops DoOp qs1 s0 = Some (s1, rs1)"
  shows "\<exists>t1 t2. RestoreSM t (SnapshotSM s1) = Some t1 \<and> run_ops DoOp qs2 t1 = Some (t2, drop (length qs1) rs)
           \<and> view t2 = view s2"
proof -
  from assms obtain rs2 where r2: "run_ops DoOp qs2 s1 = Some (s2, rs2)" "rs = rs1 @ rs2"
    by (auto simp: run_ops_append bind_Some_iff)
  from Restore_Snapshot [of t s1] obtain t1 where t1: "RestoreSM t (SnapshotSM s1) = Some t1" "view t1 = view s1"
    by blast
  from run_ops_view [OF t1(2) [symmetric] r2(1)] t1(1) r2(2) length_run_ops [OF assms(2)]
  show ?thesis by auto
qed

end

end
