(* ===== verification/RsmReplica.thy ===== *)
theory RsmReplica
  imports Rsm
begin

text \<open>
  One replica of the state machine layer, fed with the messages of an agreed log in order (what Raft
  promises its service), while \<open>Submit\<close> calls register, wait and return at arbitrary moments.  The
  replica's state is the log's prefix executed in order, whether it came from commands or from
  snapshots, and a \<open>Submit\<close> that returns \<open>OK\<close> returns the result of its own operation.
\<close>

section \<open>Replica states and steps\<close>

text \<open>The reference execution: state and results after the first \<open>k\<close> operations of the log.\<close>

definition exec_log :: "('s \<Rightarrow> 'q \<Rightarrow> ('s \<times> 'r) option) \<Rightarrow> 's \<Rightarrow> 'q Op list \<Rightarrow> nat \<Rightarrow> ('s \<times> 'r list) option" where
  "exec_log dop s0 log k = run_ops dop (map op_Command (take k log)) s0"

text \<open>\<open>applied\<close> is the index of the last message; \<open>owner c\<close> is the log index channel \<open>c\<close> was made for.\<close>

record ('s, 'r) replica =
  rsm :: "('s, 'r) RSM"
  applied :: nat
  owner :: "nat \<Rightarrow> int"

text \<open>The next message in order: the next command, or a snapshot that covers at least what is applied.\<close>

inductive next_msg :: "('s \<Rightarrow> 'q \<Rightarrow> ('s \<times> 'r) option) \<Rightarrow> ('s \<Rightarrow> 'd list) \<Rightarrow> 's \<Rightarrow> 'q Op list
    \<Rightarrow> nat \<Rightarrow> ('q Op, 'd) ApplyMsg \<Rightarrow> nat \<Rightarrow> bool" for dop snap s0 log where
  next_command: "k < length log \<Longrightarrow> CommandValid m \<Longrightarrow> am_Command m = Some (log ! k) \<Longrightarrow>
    CommandIndex m = int k + 1 \<Longrightarrow> next_msg dop snap s0 log k m (k + 1)"
| next_snapshot: "k \<le> j \<Longrightarrow> exec_log dop s0 log j = Some (s, rs) \<Longrightarrow> \<not> CommandValid m \<Longrightarrow> SnapshotValid m \<Longrightarrow>
    am_Snapshot m = snap s \<Longrightarrow> next_msg dop snap s0 log k m j"

inductive replica_step :: "('s \<Rightarrow> 'q \<Rightarrow> ('s \<times> 'r) option) \<Rightarrow> ('s \<Rightarrow> 'd list) \<Rightarrow> ('s \<Rightarrow> 'd list \<Rightarrow> 's option)
    \<Rightarrow> 's \<Rightarrow> 'q Op list \<Rightarrow> ('s, 'r) replica \<Rightarrow> ('s, 'r) replica \<Rightarrow> bool" for dop snap restore s0 log where
  rep_message: "next_msg dop snap s0 log (applied x) m k \<Longrightarrow> applyReader_exec dop restore (rsm x) m = Some r \<Longrightarrow>
    replica_step dop snap restore s0 log x (x\<lparr>rsm := r, applied := k\<rparr>)"
| rep_register: "Submit_register (rsm x) index = (r, ch) \<Longrightarrow>
    replica_step dop snap restore s0 log x (x\<lparr>rsm := r, owner := (owner x)(ch := index)\<rparr>)"
| rep_return: "replica_step dop snap restore s0 log x (x\<lparr>rsm := Submit_return (rsm x) index\<rparr>)"
| rep_close: "replica_step dop snap restore s0 log x (x\<lparr>rsm := applyReader_close (rsm x)\<rparr>)"

text \<open>A replica starts from nothing or, after a restart, from the snapshot on stable storage.\<close>

inductive replica_run :: "('s \<Rightarrow> 'q \<Rightarrow> ('s \<times> 'r) option) \<Rightarrow> ('s \<Rightarrow> 'd list) \<Rightarrow> ('s \<Rightarrow> 'd list \<Rightarrow> 's option)
    \<Rightarrow> 's \<Rightarrow> 'q Op list \<Rightarrow> ('s, 'r) replica \<Rightarrow> bool" for dop snap restore s0 log where
  run_fresh: "ReadSnapshot (ps :: ('q Op LogEntry list gob, 'd) Persister) = [] \<Longrightarrow> MakeRSM restore n i ps maxraft s0 now = Some (r, rf) \<Longrightarrow>
    replica_run dop snap restore s0 log \<lparr>rsm = r, applied = 0, owner = (\<lambda>_. 0)\<rparr>"
| run_recover: "exec_log dop s0 log k = Some (s, rs) \<Longrightarrow> ReadSnapshot (ps :: ('q Op LogEntry list gob, 'd) Persister) = snap s \<Longrightarrow>
    MakeRSM restore n i ps maxraft s0 now = Some (r, rf) \<Longrightarrow>
    replica_run dop snap restore s0 log \<lparr>rsm = r, applied = k, owner = (\<lambda>_. 0)\<rparr>"
| run_step: "replica_run dop snap restore s0 log x \<Longrightarrow> replica_step dop snap restore s0 log x y \<Longrightarrow>
    replica_run dop snap restore s0 log y"

section \<open>The channels\<close>

text \<open>A waiting channel is empty (so the reader never blocks on a send), each pending channel waits at
  its own index, and what a channel holds is the outcome of the operation at its index.\<close>

definition chans_ok :: "('q Op list) \<Rightarrow> 'r list \<Rightarrow> ('s, 'r) replica \<Rightarrow> bool" where
  "chans_ok log rs x \<longleftrightarrow>
     (\<forall>i ch. pendingOps (rsm x) i = Some ch \<longrightarrow> ch < next_chan (rsm x) \<and> owner x ch = i \<and> buf (chans (rsm x) ch) = [])
     \<and> (\<forall>ch. buf (chans (rsm x) ch) = [] \<or> (\<exists>k < length rs. owner x ch = int k + 1
          \<and> buf (chans (rsm x) ch) = [\<lparr>n_id = op_Id (log ! k), n_term = op_Term (log ! k), n_result = rs ! k\<rparr>]))"

lemma chans_ok_frame:
  assumes "chans_ok log rs x" "pendingOps r = pendingOps (rsm x)" "chans r = chans (rsm x)" "next_chan r = next_chan (rsm x)"
  shows "chans_ok log rs (x\<lparr>rsm := r\<rparr>)"
  using assms by (simp add: chans_ok_def)

lemma chans_ok_more:
  assumes "chans_ok log rs x" shows "chans_ok log (rs @ rs') (x\<lparr>applied := k\<rparr>)"
proof -
  have "\<exists>j < length (rs @ rs'). P j ((rs @ rs') ! j)" if "\<exists>j < length rs. P j (rs ! j)" for P
    using that by (auto simp: nth_append intro: exI [of _ "_ :: nat"])
  with assms show ?thesis unfolding chans_ok_def by (fastforce simp: nth_append)
qed

lemma chans_ok_notify:
  assumes ok: "chans_ok log rs x" and k: "length rs = k" "k < length log"
  shows "chans_ok log (rs @ [v]) (x\<lparr>rsm := notify (rsm x) (int k + 1)
            \<lparr>n_id = op_Id (log ! k), n_term = op_Term (log ! k), n_result = v\<rparr>\<rparr>)"
proof (cases "pendingOps (rsm x) (int k + 1)")
  case None
  then show ?thesis using chans_ok_more [OF ok, of "[v]" "applied x"] by (simp add: notify_def)
next
  case (Some ch)
  let ?nt = "\<lparr>n_id = op_Id (log ! k), n_term = op_Term (log ! k), n_result = v\<rparr>"
  let ?x = "x\<lparr>rsm := notify (rsm x) (int k + 1) ?nt\<rparr>"
  from ok Some have ch: "owner x ch = int k + 1" "buf (chans (rsm x) ch) = []" by (auto simp: chans_ok_def)
  have sel: "pendingOps (rsm ?x) = (pendingOps (rsm x))(int k + 1 := None)" "next_chan (rsm ?x) = next_chan (rsm x)"
    "buf (chans (rsm ?x) c) = (if c = ch then [?nt] else buf (chans (rsm x) c))" "owner ?x = owner x" for c
    using Some ch by (simp_all add: notify_def chan_send_def)
  have "i = int k + 1" if "pendingOps (rsm x) i = Some ch" for i using ok that ch(1) by (auto simp: chans_ok_def)
  then have pend: "\<forall>i c. pendingOps (rsm ?x) i = Some c \<longrightarrow>
      c < next_chan (rsm ?x) \<and> owner ?x c = i \<and> buf (chans (rsm ?x) c) = []"
    using ok unfolding sel by (auto simp: chans_ok_def)
  have "buf (chans (rsm ?x) c) = [] \<or> (\<exists>j < length (rs @ [v]). owner ?x c = int j + 1
      \<and> buf (chans (rsm ?x) c) = [\<lparr>n_id = op_Id (log ! j), n_term = op_Term (log ! j), n_result = (rs @ [v]) ! j\<rparr>])" for c
  proof (cases "c = ch")
    case True
    then show ?thesis using ch(1) k sel(3) [of c] by (intro disjI2 exI [of _ k]) (auto simp: nth_append)
  next
    case False
    then show ?thesis using chans_ok_more [OF ok, of "[v]" "applied x"] unfolding sel by (simp add: chans_ok_def)
  qed
  with pend show ?thesis by (simp add: chans_ok_def)
qed

lemma chans_ok_register:
  assumes "chans_ok log rs x" and "Submit_register (rsm x) index = (r, ch)"
  shows "chans_ok log rs (x\<lparr>rsm := r, owner := (owner x)(ch := index)\<rparr>)"
proof -
  have r: "ch = next_chan (rsm x)" "pendingOps r = (pendingOps (rsm x))(index \<mapsto> ch)"
    "chans r = (chans (rsm x))(ch := \<lparr>buf = [], closed = False\<rparr>)" "next_chan r = next_chan (rsm x) + 1"
    using assms(2) by (auto simp: Submit_register_def Let_def)
  have lt: "c < next_chan (rsm x)" "owner x c = i" "buf (chans (rsm x) c) = []" if "pendingOps (rsm x) i = Some c" for i c
    using assms(1) that by (auto simp: chans_ok_def)
  have "c < next_chan r \<and> ((owner x)(ch := index)) c = i \<and> buf (chans r c) = []" if "pendingOps r i = Some c" for i c
  proof (cases "i = index")
    case True
    with that show ?thesis by (simp add: r)
  next
    case False
    with that have "pendingOps (rsm x) i = Some c" by (simp add: r)
    from lt [OF this] show ?thesis by (simp add: r)
  qed
  moreover have "buf (chans r c) = [] \<or> (\<exists>k < length rs. ((owner x)(ch := index)) c = int k + 1
      \<and> buf (chans r c) = [\<lparr>n_id = op_Id (log ! k), n_term = op_Term (log ! k), n_result = rs ! k\<rparr>])" for c
    using assms(1) by (cases "c = ch") (auto simp: r chans_ok_def)
  ultimately show ?thesis by (simp add: chans_ok_def)
qed

lemma chans_ok_return: "chans_ok log rs x \<Longrightarrow> chans_ok log rs (x\<lparr>rsm := Submit_return (rsm x) index\<rparr>)"
  by (simp add: chans_ok_def Submit_return_def)

lemma chans_ok_close: "chans_ok log rs x \<Longrightarrow> chans_ok log rs (x\<lparr>rsm := applyReader_close (rsm x)\<rparr>)"
  by (simp add: chans_ok_def applyReader_close_def)

section \<open>The replica invariant\<close>

lemma exec_log_Suc:
  assumes "k < length log"
  shows "exec_log dop s0 log (k + 1) =
     do { (s, rs) \<leftarrow> exec_log dop s0 log k; (s', r) \<leftarrow> dop s (op_Command (log ! k)); Some (s', rs @ [r]) }"
proof -
  have "take (k + 1) log = take k log @ [log ! k]" using assms by (simp add: take_Suc_conv_app_nth)
  then show ?thesis
    by (cases "exec_log dop s0 log k") (auto simp: exec_log_def run_ops_append split: Option.bind_splits)
qed

lemma exec_log_prefix:
  assumes "exec_log dop s0 log k = Some (s, rs)" "exec_log dop s0 log j = Some (s', rs')" "k \<le> j"
  shows "\<exists>more. rs' = rs @ more"
proof -
  have "take j log = take k log @ take (j - k) (drop k log)"
    using assms(3) by (metis le_add_diff_inverse take_add)
  with assms(1,2) show ?thesis by (auto simp: exec_log_def run_ops_append bind_Some_iff)
qed

lemma length_exec_log: "exec_log dop s0 log k = Some (s, rs) \<Longrightarrow> length rs = min k (length log)"
  by (auto simp: exec_log_def dest: length_run_ops)

definition replica_inv :: "('s \<Rightarrow> 'q \<Rightarrow> ('s \<times> 'r) option) \<Rightarrow> ('s \<Rightarrow> 'v) \<Rightarrow> 's \<Rightarrow> 'q Op list \<Rightarrow> ('s, 'r) replica \<Rightarrow> bool" where
  "replica_inv dop vw s0 log x \<longleftrightarrow>
     (\<exists>s rs. exec_log dop s0 log (applied x) = Some (s, rs) \<and> vw (sm (rsm x)) = vw s \<and> chans_ok log rs x)"

lemma notify_sm [simp]: "sm (notify r i nt) = sm r"
  by (simp add: notify_def split: option.splits)

lemma chans_ok_fresh: "pendingOps r = Map.empty \<Longrightarrow> chans r = (\<lambda>_. \<lparr>buf = [], closed = False\<rparr>) \<Longrightarrow>
    chans_ok log rs \<lparr>rsm = r, applied = k, owner = w\<rparr>"
  by (simp add: chans_ok_def)

context state_machine
begin

lemma inv_command:
  assumes inv: "replica_inv DoOp view s0 log x" and k: "applied x < length log"
    and m: "CommandValid m" "am_Command m = Some (log ! applied x)" "CommandIndex m = int (applied x) + 1"
    and step: "applyReader_exec DoOp RestoreSM (rsm x) m = Some r"
  shows "replica_inv DoOp view s0 log (x\<lparr>rsm := r, applied := applied x + 1\<rparr>)"
proof -
  let ?k = "applied x"
  from inv obtain s rs where s: "exec_log DoOp s0 log ?k = Some (s, rs)" "view (sm (rsm x)) = view s" "chans_ok log rs x"
    by (auto simp: replica_inv_def)
  have len: "length rs = ?k" using length_exec_log [OF s(1)] k by simp
  from step m obtain t v where t: "DoOp (sm (rsm x)) (op_Command (log ! ?k)) = Some (t, v)"
    and r: "r = notify ((rsm x)\<lparr>sm := t\<rparr>) (int ?k + 1) \<lparr>n_id = op_Id (log ! ?k), n_term = op_Term (log ! ?k), n_result = v\<rparr>"
    by (auto simp: applyReader_exec_def bind_Some_iff)
  from DoOp_view [OF s(2) t] obtain s' where s': "DoOp s (op_Command (log ! ?k)) = Some (s', v)" "view s' = view t" by blast
  have "exec_log DoOp s0 log (?k + 1) = Some (s', rs @ [v])" using exec_log_Suc [OF k, of DoOp s0] s(1) s'(1) by simp
  moreover have "chans_ok log rs (x\<lparr>rsm := (rsm x)\<lparr>sm := t\<rparr>\<rparr>)" by (rule chans_ok_frame [OF s(3)]) simp_all
  from chans_ok_notify [OF this len k, of v] have "chans_ok log (rs @ [v]) (x\<lparr>rsm := r, applied := ?k + 1\<rparr>)"
    by (simp add: r chans_ok_def)
  ultimately show ?thesis using s'(2) by (auto simp: replica_inv_def r)
qed

lemma inv_snapshot:
  assumes inv: "replica_inv DoOp view s0 log x" and j: "applied x \<le> j" "exec_log DoOp s0 log j = Some (s, rs)"
    and m: "\<not> CommandValid m" "SnapshotValid m" "am_Snapshot m = SnapshotSM s"
    and step: "applyReader_exec DoOp RestoreSM (rsm x) m = Some r"
  shows "replica_inv DoOp view s0 log (x\<lparr>rsm := r, applied := j\<rparr>)"
proof -
  from inv obtain s1 rs1 where s1: "exec_log DoOp s0 log (applied x) = Some (s1, rs1)" "chans_ok log rs1 x"
    by (auto simp: replica_inv_def)
  from exec_log_prefix [OF s1(1) j(2,1)] obtain more where rs: "rs = rs1 @ more" by blast
  from step m obtain t where t: "RestoreSM (sm (rsm x)) (SnapshotSM s) = Some t" "r = (rsm x)\<lparr>sm := t\<rparr>"
    by (auto simp: applyReader_exec_def bind_Some_iff)
  from Restore_Snapshot [of "sm (rsm x)" s] t(1) have "view t = view s" by auto
  moreover have "chans_ok log rs (x\<lparr>rsm := r, applied := j\<rparr>)"
    using chans_ok_more [OF s1(2), of more j] t(2) rs by (simp add: chans_ok_def)
  ultimately show ?thesis using j(2) t(2) by (auto simp: replica_inv_def)
qed

lemma replica_step_inv:
  assumes "replica_step DoOp SnapshotSM RestoreSM s0 log x y" and IH: "replica_inv DoOp view s0 log x"
  shows "replica_inv DoOp view s0 log y"
  using assms(1)
proof (cases rule: replica_step.cases)
  case (rep_message m k r)
  from rep_message(2) show ?thesis
  proof (cases rule: next_msg.cases)
    case next_command
    with inv_command [OF IH] rep_message(1,3) show ?thesis by simp
  next
    case (next_snapshot s rs)
    with inv_snapshot [OF IH] rep_message(1,3) show ?thesis by simp
  qed
next
  case (rep_register index r ch)
  then have "sm r = sm (rsm x)" by (auto simp: Submit_register_def Let_def)
  with rep_register IH chans_ok_register [OF _ rep_register(2)] show ?thesis
    by (fastforce simp: replica_inv_def)
next
  case (rep_return index)
  with IH chans_ok_return [of log _ x index] show ?thesis
    by (auto simp: replica_inv_def Submit_return_def)
next
  case rep_close
  with IH chans_ok_close [of log _ x] show ?thesis
    by (auto simp: replica_inv_def applyReader_close_def)
qed

lemma replica_run_inv: "replica_run DoOp SnapshotSM RestoreSM s0 log x \<Longrightarrow> replica_inv DoOp view s0 log x"
proof (induction rule: replica_run.induct)
  case (run_fresh ps n i maxraft now r rf)
  then have "r = \<lparr>rsm_me = i, maxraftstate = maxraft, sm = s0, pendingOps = Map.empty,
                chans = (\<lambda>_. \<lparr>buf = [], closed = False\<rparr>), next_chan = 0\<rparr>" by (simp add: MakeRSM_def Let_def)
  then show ?case by (auto simp: replica_inv_def exec_log_def chans_ok_fresh)
next
  case (run_recover k s rs ps n i maxraft now r rf)
  from run_recover(3) Snapshot_nonempty [of s] run_recover(2) obtain t where t: "RestoreSM s0 (SnapshotSM s) = Some t"
    and r: "r = \<lparr>rsm_me = i, maxraftstate = maxraft, sm = t, pendingOps = Map.empty,
                chans = (\<lambda>_. \<lparr>buf = [], closed = False\<rparr>), next_chan = 0\<rparr>"
    by (auto simp: MakeRSM_def Let_def bind_Some_iff)
  from Restore_Snapshot [of s0 s] t have "view t = view s" by auto
  with run_recover(1) r show ?case by (auto simp: replica_inv_def chans_ok_fresh)
qed (blast intro: replica_step_inv)

text \<open>What a returning \<open>Submit\<close> reports.\<close>

lemma inv_submit_ok:
  assumes "replica_inv DoOp view s0 log x"
    and "Submit_poll (rsm x) rf ch op_id startTerm = Some (OK, Some v)"
  shows "\<exists>k s rs. owner x ch = int k + 1 \<and> k < length log \<and> op_Id (log ! k) = op_id \<and> op_Term (log ! k) = startTerm
      \<and> exec_log DoOp s0 log (k + 1) = Some (s, rs) \<and> v = last rs"
proof -
  from assms(1) obtain s rs where s: "exec_log DoOp s0 log (applied x) = Some (s, rs)" "chans_ok log rs x"
    by (auto simp: replica_inv_def)
  from assms(2) obtain nt nts where nt: "buf (chans (rsm x) ch) = nt # nts" "n_term nt = startTerm" "n_id nt = op_id" "n_result nt = v"
    by (auto simp: Submit_poll_def Let_def split: list.splits if_splits prod.splits)
  have "buf (chans (rsm x) ch) = [] \<or> (\<exists>k < length rs. owner x ch = int k + 1
      \<and> buf (chans (rsm x) ch) = [\<lparr>n_id = op_Id (log ! k), n_term = op_Term (log ! k), n_result = rs ! k\<rparr>])"
    using s(2) by (simp add: chans_ok_def)
  with nt(1) obtain k where k: "k < length rs" "owner x ch = int k + 1"
    "nt = \<lparr>n_id = op_Id (log ! k), n_term = op_Term (log ! k), n_result = rs ! k\<rparr>" by auto
  have kl: "k < length log" "k + 1 \<le> applied x" using length_exec_log [OF s(1)] k(1) by auto
  have tk: "take (applied x) log = take (k + 1) log @ take (applied x - (k + 1)) (drop (k + 1) log)"
    using kl(2) by (metis le_add_diff_inverse take_add)
  with s(1) obtain s1 rs1 where s1: "exec_log DoOp s0 log (k + 1) = Some (s1, rs1)"
    by (auto simp: exec_log_def run_ops_append bind_Some_iff)
  from exec_log_prefix [OF this s(1) kl(2)] obtain more where "rs = rs1 @ more" by blast
  moreover have "length rs1 = k + 1" using length_exec_log [OF s1] kl by simp
  ultimately have "rs ! k = last rs1" by (cases rs1 rule: rev_cases) (auto simp: nth_append)
  with k nt kl s1 show ?thesis by auto
qed

lemmas submit_ok = inv_submit_ok [OF replica_run_inv]

end

section \<open>A call that registers too late\<close>

text \<open>A channel that was made for an index already applied stays empty: messages only come for later
  indices.\<close>

definition missed :: "nat \<Rightarrow> ('s, 'r) replica \<Rightarrow> bool" where
  "missed ch x \<longleftrightarrow> buf (chans (rsm x) ch) = [] \<and> ch < next_chan (rsm x) \<and> owner x ch \<le> int (applied x)"

lemma missed_notify:
  assumes "missed ch x" "chans_ok log rs x"
    "pendingOps r = pendingOps (rsm x)" "chans r = chans (rsm x)" "next_chan r = next_chan (rsm x)"
  shows "buf (chans (notify r (int (applied x) + 1) nt) ch) = []" "next_chan (notify r i nt) = next_chan (rsm x)"
proof -
  have "c \<noteq> ch" if "pendingOps (rsm x) (int (applied x) + 1) = Some c" for c
    using assms(1,2) that by (auto simp: missed_def chans_ok_def)
  then show "buf (chans (notify r (int (applied x) + 1) nt) ch) = []"
    using assms by (auto simp: notify_def missed_def split: option.splits)
  show "next_chan (notify r i nt) = next_chan (rsm x)" using assms(5) by (simp add: notify_def split: option.splits)
qed

lemma missed_step:
  assumes "replica_step dop snap restore s0 log x y" "missed ch x" "chans_ok log rs x"
  shows "missed ch y"
  using assms(1)
proof (cases rule: replica_step.cases)
  case (rep_message m k r)
  from rep_message(2) show ?thesis
  proof (cases rule: next_msg.cases)
    case next_command
    with rep_message(3) obtain t v where
      r: "r = notify ((rsm x)\<lparr>sm := t\<rparr>) (int (applied x) + 1)
            \<lparr>n_id = op_Id (log ! applied x), n_term = op_Term (log ! applied x), n_result = v\<rparr>"
      by (auto simp: applyReader_exec_def bind_Some_iff)
    with missed_notify [OF assms(2,3), of "(rsm x)\<lparr>sm := t\<rparr>"] assms(2) rep_message(1) next_command(1)
    show ?thesis by (simp add: missed_def)
  next
    case (next_snapshot s rs)
    with rep_message(3) obtain t where "r = (rsm x)\<lparr>sm := t\<rparr>" by (auto simp: applyReader_exec_def bind_Some_iff)
    with assms(2) rep_message(1) next_snapshot(1) show ?thesis by (simp add: missed_def)
  qed
next
  case (rep_register index r c)
  with assms(2) show ?thesis by (auto simp: missed_def Submit_register_def Let_def)
next
  case (rep_return index)
  with assms(2) show ?thesis by (simp add: missed_def Submit_return_def)
next
  case rep_close
  with assms(2) show ?thesis by (simp add: missed_def applyReader_close_def)
qed

inductive replica_steps :: "('s \<Rightarrow> 'q \<Rightarrow> ('s \<times> 'r) option) \<Rightarrow> ('s \<Rightarrow> 'd list) \<Rightarrow> ('s \<Rightarrow> 'd list \<Rightarrow> 's option)
    \<Rightarrow> 's \<Rightarrow> 'q Op list \<Rightarrow> ('s, 'r) replica \<Rightarrow> ('s, 'r) replica \<Rightarrow> bool" for dop snap restore s0 log where
  steps_refl: "replica_steps dop snap restore s0 log x x"
| steps_step: "replica_steps dop snap restore s0 log x y \<Longrightarrow> replica_step dop snap restore s0 log y z \<Longrightarrow>
    replica_steps dop snap restore s0 log x z"

context state_machine
begin

lemma missed_forever:
  assumes "replica_steps DoOp SnapshotSM RestoreSM s0 log x y" "replica_run DoOp SnapshotSM RestoreSM s0 log x" "missed ch x"
  shows "missed ch y \<and> replica_run DoOp SnapshotSM RestoreSM s0 log y"
  using assms
proof (induction rule: replica_steps.induct)
  case (steps_refl x)
  then show ?case by blast
next
  case (steps_step x y z)
  then have y: "missed ch y" "replica_run DoOp SnapshotSM RestoreSM s0 log y" by blast+
  from replica_run_inv [OF y(2)] obtain rs where "chans_ok log rs y" by (auto simp: replica_inv_def)
  from missed_step [OF steps_step.hyps(2) y(1) this] run_step [OF y(2) steps_step.hyps(2)] show ?case by blast
qed

end

end
