(* ===== verification/RsmService.thy ===== *)
theory RsmService
  imports RaftSafety RsmReplica RaftOrigin
begin

text \<open>
  A replicated service: on every peer of a Raft cluster a replica of the state machine layer of \<^verbatim>\<open>kvraft1/rsm/rsm.go\<close> reads the
  messages its peer has put on the apply channel, takes snapshots, serves \<open>Submit\<close> calls, and starts again after a crash from the
  snapshot on stable storage.  All replicas, at all moments, have executed a prefix of one common log.
\<close>

section \<open>States and steps\<close>

text \<open>The cluster, the replica on each peer, and the messages each peer has sent to its replica and that are not read yet.\<close>

record ('q, 'd, 's, 'r) service =
  sv_cl :: "('q Op, 'd) cluster"
  sv_rep :: "int \<Rightarrow> ('s, 'r) replica"
  sv_queue :: "int \<Rightarrow> ('q Op, 'd) ApplyMsg list"

definition msg_index :: "('c, 'd) ApplyMsg \<Rightarrow> nat" where
  "msg_index m = (if CommandValid m then nat (CommandIndex m) else nat (SnapshotIndex m))"

text \<open>
  A step of a peer that its replica does not see; a pass of the applier, whose messages go to the channel; a snapshot from the leader,
  whose message goes to the channel; the reader takes a message; the reader, after a command, compacts the peer's log; a \<open>Submit\<close> call
  registers (for whatever index its \<open>Start\<close> returned) or returns; the reader ends; a peer and its replica are started again from stable storage.

  The messages on the channel are in the order in which the peer made them, and a snapshot is not older than what the peer has
  delivered.  \<^verbatim>\<open>raft.go\<close> leaves both to luck: the snapshot message is sent by a goroutine of its own, and it is sent also when the
  commands up to a later index have been delivered.
\<close>

inductive sv_step :: "('s \<Rightarrow> 'q \<Rightarrow> ('s \<times> 'r) option) \<Rightarrow> ('s \<Rightarrow> 'd list) \<Rightarrow> ('s \<Rightarrow> 'd list \<Rightarrow> 's option) \<Rightarrow> (int \<Rightarrow> 's)
    \<Rightarrow> ('q Op LogEntry list gob list \<Rightarrow> int) \<Rightarrow> int \<Rightarrow> ('q, 'd, 's, 'r) service \<Rightarrow> ('q, 'd, 's, 'r) service \<Rightarrow> bool"
  for dop snap restore s0 len n where
  sv_raft: "quiet n (sv_cl x) s \<Longrightarrow> sv_step dop snap restore s0 len n x (x\<lparr>sv_cl := s\<rparr>)"
| sv_apply: "0 \<le> p \<Longrightarrow> p < n \<Longrightarrow> applierLoop_iter (nodes (sv_cl x) p) = Some (rf, msgs) \<Longrightarrow>
    sv_step dop snap restore s0 len n x (x\<lparr>sv_cl := move p rf (sv_cl x), sv_queue := (sv_queue x)(p := sv_queue x p @ msgs)\<rparr>)"
| sv_install: "0 \<le> p \<Longrightarrow> p < n \<Longrightarrow> (p, sargs) \<in> snap_reqs (sv_cl x) \<Longrightarrow>
    InstallSnapshot (nodes (sv_cl x) p) sargs now = Some (rf, reply, Some m) \<Longrightarrow>
    lastApplied (nodes (sv_cl x) p) \<le> is_LastIncludedIndex sargs \<Longrightarrow>
    sv_step dop snap restore s0 len n x
      (x\<lparr>sv_cl := (move p rf (sv_cl x))\<lparr>snap_replies := insert (p, sargs, reply) (snap_replies (sv_cl x))\<rparr>,
         sv_queue := (sv_queue x)(p := sv_queue x p @ [m])\<rparr>)"
| sv_handle: "0 \<le> p \<Longrightarrow> p < n \<Longrightarrow> sv_queue x p = m # ms \<Longrightarrow> applyReader_exec dop restore (rsm (sv_rep x p)) m = Some r \<Longrightarrow>
    sv_step dop snap restore s0 len n x
      (x\<lparr>sv_rep := (sv_rep x)(p := (sv_rep x p)\<lparr>rsm := r, applied := msg_index m\<rparr>), sv_queue := (sv_queue x)(p := ms)\<rparr>)"
| sv_compact: "0 \<le> p \<Longrightarrow> p < n \<Longrightarrow> CommandIndex m = int (applied (sv_rep x p)) \<Longrightarrow>
    applyReader_snapshot snap len (rsm (sv_rep x p)) (nodes (sv_cl x) p) m = Some rf \<Longrightarrow>
    sv_step dop snap restore s0 len n x (x\<lparr>sv_cl := move p rf (sv_cl x)\<rparr>)"
| sv_register: "0 \<le> p \<Longrightarrow> p < n \<Longrightarrow> Submit_register (rsm (sv_rep x p)) index = (r, ch) \<Longrightarrow>
    sv_step dop snap restore s0 len n x
      (x\<lparr>sv_rep := (sv_rep x)(p := (sv_rep x p)\<lparr>rsm := r, owner := (owner (sv_rep x p))(ch := index)\<rparr>)\<rparr>)"
| sv_return: "0 \<le> p \<Longrightarrow> p < n \<Longrightarrow>
    sv_step dop snap restore s0 len n x (x\<lparr>sv_rep := (sv_rep x)(p := (sv_rep x p)\<lparr>rsm := Submit_return (rsm (sv_rep x p)) index\<rparr>)\<rparr>)"
| sv_close: "0 \<le> p \<Longrightarrow> p < n \<Longrightarrow>
    sv_step dop snap restore s0 len n x (x\<lparr>sv_rep := (sv_rep x)(p := (sv_rep x p)\<lparr>rsm := applyReader_close (rsm (sv_rep x p))\<rparr>)\<rparr>)"
| sv_restart: "0 \<le> p \<Longrightarrow> p < n \<Longrightarrow> MakeRSM restore n p (persister (nodes (sv_cl x) p)) maxraft (s0 p) now = Some (r, rf) \<Longrightarrow>
    sv_step dop snap restore s0 len n x
      (x\<lparr>sv_cl := move p rf (sv_cl x), sv_queue := (sv_queue x)(p := []),
         sv_rep := (sv_rep x)(p := \<lparr>rsm = r, applied = nat (lastIncludedIndex rf), owner = (\<lambda>_. 0)\<rparr>)\<rparr>)"

inductive sv_run :: "('s \<Rightarrow> 'q \<Rightarrow> ('s \<times> 'r) option) \<Rightarrow> ('s \<Rightarrow> 'd list) \<Rightarrow> ('s \<Rightarrow> 'd list \<Rightarrow> 's option) \<Rightarrow> (int \<Rightarrow> 's)
    \<Rightarrow> ('q Op LogEntry list gob list \<Rightarrow> int) \<Rightarrow> int \<Rightarrow> ('q, 'd, 's, 'r) service \<Rightarrow> ('q, 'd, 's, 'r) service \<Rightarrow> bool"
  for dop snap restore s0 len n where
  sv_refl: "sv_run dop snap restore s0 len n x x"
| sv_trans: "sv_run dop snap restore s0 len n x y \<Longrightarrow> sv_step dop snap restore s0 len n y z \<Longrightarrow> sv_run dop snap restore s0 len n x z"

text \<open>All peers start with an empty persister.\<close>

definition sv_init :: "('s \<Rightarrow> 'd list \<Rightarrow> 's option) \<Rightarrow> (int \<Rightarrow> 's) \<Rightarrow> int \<Rightarrow> int \<Rightarrow> int \<Rightarrow> ('q, 'd, 's, 'r) service" where
  "sv_init restore s0 maxraft n now =
     \<lparr>sv_cl = cl_init n now,
      sv_rep = (\<lambda>p. \<lparr>rsm = fst (the (MakeRSM restore n p (MakePersister :: ('q Op LogEntry list gob, 'd) Persister) maxraft (s0 p) now)),
                 applied = 0, owner = (\<lambda>_. 0)\<rparr>),
      sv_queue = (\<lambda>_. [])\<rparr>"

section \<open>The invariant\<close>

text \<open>A snapshot at index \<open>i\<close> is the state after the first \<open>i\<close> operations; there is none at index 0.\<close>

definition snap_ok :: "('s \<Rightarrow> 'q \<Rightarrow> ('s \<times> 'r) option) \<Rightarrow> ('s \<Rightarrow> 'd list) \<Rightarrow> 's \<Rightarrow> 'q Op list \<Rightarrow> int \<Rightarrow> 'd list \<Rightarrow> bool" where
  "snap_ok dop snap s0 log i d \<longleftrightarrow> i = 0 \<and> d = []
     \<or> 0 < i \<and> nat i \<le> length log \<and> (\<exists>s rs. exec_log dop s0 log (nat i) = Some (s, rs) \<and> d = snap s)"

text \<open>The messages on a channel take the replica from index \<open>k\<close> to index \<open>a\<close>.\<close>

fun queue_ok :: "('s \<Rightarrow> 'q \<Rightarrow> ('s \<times> 'r) option) \<Rightarrow> ('s \<Rightarrow> 'd list) \<Rightarrow> 's \<Rightarrow> 'q Op list \<Rightarrow> nat \<Rightarrow> ('q Op, 'd) ApplyMsg list \<Rightarrow> nat \<Rightarrow> bool" where
  "queue_ok dop snap s0 log k [] a \<longleftrightarrow> k = a"
| "queue_ok dop snap s0 log k (m # ms) a \<longleftrightarrow> next_msg dop snap s0 log k m (msg_index m) \<and> msg_index m \<le> length log
     \<and> queue_ok dop snap s0 log (msg_index m) ms a"

definition peer_ok :: "('s \<Rightarrow> 'q \<Rightarrow> ('s \<times> 'r) option) \<Rightarrow> ('s \<Rightarrow> 'd list) \<Rightarrow> ('s \<Rightarrow> 'v) \<Rightarrow> 's \<Rightarrow> 'q Op list
    \<Rightarrow> ('q Op, 'd) Raft \<Rightarrow> ('s, 'r) replica \<Rightarrow> ('q Op, 'd) ApplyMsg list \<Rightarrow> bool" where
  "peer_ok dop snap vw s0 log rf x q \<longleftrightarrow> replica_inv dop vw s0 log x \<and> queue_ok dop snap s0 log (applied x) q (nat (lastApplied rf))
     \<and> lastApplied rf \<le> int (length log) \<and> snap_ok dop snap s0 log (lastIncludedIndex rf) (ReadSnapshot (persister rf))"

text \<open>The log's operations are committed.\<close>

definition agreed :: "int \<Rightarrow> 'q Op araft \<Rightarrow> 'q Op list \<Rightarrow> bool" where
  "agreed n A log \<longleftrightarrow> (\<exists>b F. committed (majority n) A b (length log) F \<and> (\<forall>k < length log. le_Command (F ! k) = Some (log ! k)))"

definition sv_inv :: "('s \<Rightarrow> 'q \<Rightarrow> ('s \<times> 'r) option) \<Rightarrow> ('s \<Rightarrow> 'd list) \<Rightarrow> ('s \<Rightarrow> 'v) \<Rightarrow> 's \<Rightarrow> int \<Rightarrow> 'q Op list
    \<Rightarrow> ('q, 'd, 's, 'r) service \<Rightarrow> bool" where
  "sv_inv dop snap vw s0 n log x \<longleftrightarrow> elect_inv n (sv_cl x) \<and> real_cluster n (sv_cl x)
     \<and> (\<exists>A. cluster_sim n A (sv_cl x) \<and> agreed n A log)
     \<and> (\<forall>p. 0 \<le> p \<and> p < n \<longrightarrow> peer_ok dop snap vw s0 log (nodes (sv_cl x) p) (sv_rep x p) (sv_queue x p))
     \<and> (\<forall>(p, sargs) \<in> snap_reqs (sv_cl x). snap_ok dop snap s0 log (is_LastIncludedIndex sargs) (is_Data sargs))"

section \<open>Longer logs\<close>

lemma exec_log_more: "k \<le> length log \<Longrightarrow> exec_log dop s0 (log @ ext) k = exec_log dop s0 log k"
  by (simp add: exec_log_def)

lemma next_msg_le: "next_msg dop snap s0 log k m j \<Longrightarrow> k \<le> j"
  by (cases rule: next_msg.cases) auto

lemma next_msg_more: "next_msg dop snap s0 log k m j \<Longrightarrow> j \<le> length log \<Longrightarrow> next_msg dop snap s0 (log @ ext) k m j"
  by (auto simp: next_msg.simps nth_append exec_log_more)

lemma queue_ok_le: "queue_ok dop snap s0 log k ms a \<Longrightarrow> k \<le> a"
  by (induction ms arbitrary: k) (auto dest: next_msg_le intro: order_trans)

lemma queue_ok_more: "queue_ok dop snap s0 log k ms a \<Longrightarrow> queue_ok dop snap s0 (log @ ext) k ms a"
  by (induction ms arbitrary: k) (auto intro: next_msg_more)

lemma queue_ok_append:
  "queue_ok dop snap s0 log k ms a \<Longrightarrow> queue_ok dop snap s0 log a ms' b \<Longrightarrow> queue_ok dop snap s0 log k (ms @ ms') b"
  by (induction ms arbitrary: k) auto

lemma snap_ok_more: "snap_ok dop snap s0 log i d \<Longrightarrow> snap_ok dop snap s0 (log @ ext) i d"
  by (auto simp: snap_ok_def exec_log_more)

lemma replica_inv_more:
  assumes "replica_inv dop vw s0 log x" "applied x \<le> length log" shows "replica_inv dop vw s0 (log @ ext) x"
proof -
  from assms(1) obtain s rs where s: "exec_log dop s0 log (applied x) = Some (s, rs)" "vw (sm (rsm x)) = vw s" "chans_ok log rs x"
    by (auto simp: replica_inv_def)
  have "length rs \<le> length log" using length_exec_log [OF s(1)] by simp
  with s(3) have "chans_ok (log @ ext) rs x" unfolding chans_ok_def by (auto simp: nth_append) (metis order_less_le_trans)+
  with s assms(2) show ?thesis by (auto simp: replica_inv_def exec_log_more)
qed

lemma peer_ok_applied: "peer_ok dop snap vw s0 log rf x q \<Longrightarrow> applied x \<le> nat (lastApplied rf) \<and> applied x \<le> length log"
  by (auto simp: peer_ok_def dest: queue_ok_le)

lemma peer_ok_more: "peer_ok dop snap vw s0 log rf x q \<Longrightarrow> peer_ok dop snap vw s0 (log @ ext) rf x q"
  using peer_ok_applied [of dop snap vw s0 log rf x q]
  by (auto simp: peer_ok_def intro: replica_inv_more queue_ok_more snap_ok_more)

lemma peer_ok_view: "apply_view rf' = apply_view rf \<Longrightarrow> peer_ok dop snap vw s0 log rf' x q = peer_ok dop snap vw s0 log rf x q"
  by (simp add: peer_ok_def apply_view_def)

lemma agreed_run: "agreed n A log \<Longrightarrow> a_run (majority n) A A' \<Longrightarrow> a_inv (majority n) A \<Longrightarrow> agreed n A' log"
  unfolding agreed_def using committed_run by blast

section \<open>What one pass of the applier delivers\<close>

lemma queue_ok_commands:
  assumes "\<And>i. a < i \<Longrightarrow> i \<le> c \<Longrightarrow> le_Command (f i) = Some (log ! (nat i - 1))" "0 \<le> a" "a \<le> c" "c \<le> int (length log)"
  shows "queue_ok dop snap s0 log (nat a) (map (\<lambda>i. commandMsg (f i) i) [a + 1..c]) (nat c)"
  using assms
proof (induction "nat (c - a)" arbitrary: a)
  case 0
  then show ?case by simp
next
  case (Suc d)
  then have up: "[a + 1..c] = (a + 1) # [a + 1 + 1..c]" by (simp add: upto_rec1)
  have "queue_ok dop snap s0 log (nat (a + 1)) (map (\<lambda>i. commandMsg (f i) i) [a + 1 + 1..c]) (nat c)"
    by (rule Suc.hyps(1)) (use Suc in auto)
  moreover have na: "nat (a + 1) = nat a + 1" using Suc.prems(2) by simp
  moreover have "le_Command (f (a + 1)) = Some (log ! nat a)" using Suc.prems(1) [of "a + 1"] Suc.prems(3) Suc.hyps(2) by (simp add: na)
  ultimately show ?case using Suc.prems Suc.hyps(2) unfolding up
    by (auto simp: next_msg.simps msg_index_def commandMsg_def)
qed

text \<open>The common log can be extended to what a peer knows to be committed.\<close>

lemma agreed_extend:
  assumes sim: "cluster_sim n A s" and inv: "elect_inv n s" and real: "real_cluster n s" and ag: "agreed n A log"
    and p: "0 \<le> p" "p < n" and low: "lastIncludedIndex (nodes s p) \<le> int (length log)"
  shows "\<exists>ext. agreed n A (log @ ext) \<and> commitIndex (nodes s p) \<le> int (length (log @ ext))
    \<and> (ext = [] \<or> int (length (log @ ext)) = commitIndex (nodes s p))
    \<and> (\<forall>i. lastIncludedIndex (nodes s p) < i \<and> i \<le> commitIndex (nodes s p) \<longrightarrow>
         le_Command (rlog (nodes s p) ! nat (i - lastIncludedIndex (nodes s p))) = Some ((log @ ext) ! (nat i - 1)))"
proof -
  let ?rf = "nodes s p" and ?G = "alog A p" and ?c = "nat (commitIndex (nodes s p))"
  note P = cluster_simD(3) [OF sim p] and W = elect_inv_peer [OF inv p]
  note lg = peer_simD(2) [OF P] W(1)
  have com: "committed (majority n) A (aterm A p) ?c ?G" by (rule sim_committed [OF sim inv p order_refl])
  have cl: "commitIndex ?rf \<le> int (length ?G)" "0 \<le> lastIncludedIndex ?rf"
    using committed_length [OF com] W(1) by (auto simp: raft_wf_def)
  from ag obtain b F where F: "committed (majority n) A b (length log) F" "\<And>k. k < length log \<Longrightarrow> le_Command (F ! k) = Some (log ! k)"
    by (auto simp: agreed_def)
  have "agree (min (length log) ?c) F ?G" by (rule maj.committed_agree [OF cluster_simD(1) [OF sim] F(1) com])
  then have old: "le_Command (?G ! k) = Some (log ! k)" if "k < length log" "k < ?c" for k
    using agree_nth [of "min (length log) ?c" F ?G k] F(2) [of k] that by simp
  have nth: "rlog ?rf ! nat (i - lastIncludedIndex ?rf) = ?G ! (nat i - 1)" if "lastIncludedIndex ?rf < i" "i \<le> commitIndex ?rf" for i
    by (rule log_sim_nth [OF lg]) (use that cl in auto)
  show ?thesis
  proof (cases "?c \<le> length log")
    case True
    have "commitIndex ?rf \<le> int (length log)" using True by simp
    moreover have "le_Command (rlog ?rf ! nat (i - lastIncludedIndex ?rf)) = Some (log ! (nat i - 1))"
      if "lastIncludedIndex ?rf < i" "i \<le> commitIndex ?rf" for i
      using nth [OF that] old [of "nat i - 1"] that cl True by simp
    ultimately show ?thesis using ag by (intro exI [of _ "[]"]) simp
  next
    case False
    have some: "le_Command (?G ! k) \<noteq> None" if "k < ?c" for k
    proof (cases "k < length log")
      case True
      then show ?thesis using old that by simp
    next
      case k: False
      let ?i = "int k + 1"
      have i: "lastIncludedIndex ?rf < ?i" "?i \<le> commitIndex ?rf" "?i \<le> lastLogIndex ?rf"
        using k low that cl(1) log_sim_last [OF lg] by simp_all
      then have "rlog ?rf ! nat (?i - lastIncludedIndex ?rf) \<in> set (tl (rlog ?rf))"
        by (auto simp: in_set_conv_nth nth_tl lastLogIndex_def intro!: exI [of _ "nat (int k - lastIncludedIndex ?rf)"] arg_cong [of _ _ "(!) (rlog ?rf)"])
      with real_clusterD(1) [OF real p] have "le_Command (rlog ?rf ! nat (?i - lastIncludedIndex ?rf)) \<noteq> None" by (simp add: real_log_def)
      moreover have "nat ?i - 1 = k" by simp
      ultimately show ?thesis using nth [OF i(1,2)] by simp
    qed
    define new where "new = map (\<lambda>k. the (le_Command (?G ! k))) [length log..<?c]"
    have get: "(log @ new) ! k = the (le_Command (?G ! k))" if "k < ?c" for k
      using that old [of k] by (cases "k < length log") (auto simp: nth_append new_def)
    have len: "length (log @ new) = ?c" using False by (simp add: new_def)
    have "agreed n A (log @ new)" unfolding agreed_def len using com some get by (intro exI [of _ "aterm A p"] exI [of _ ?G]) simp
    moreover have "le_Command (rlog ?rf ! nat (i - lastIncludedIndex ?rf)) = Some ((log @ new) ! (nat i - 1))"
      if "lastIncludedIndex ?rf < i" "i \<le> commitIndex ?rf" for i
    proof -
      have "nat i - 1 < ?c" using that cl by simp
      then show ?thesis using nth [OF that] get some by simp
    qed
    ultimately show ?thesis using len False by (intro exI [of _ new]) auto
  qed
qed

section \<open>Steps of the cluster\<close>

lemma sv_invD:
  assumes "sv_inv dop snap vw s0 n log x"
  shows "elect_inv n (sv_cl x)" "real_cluster n (sv_cl x)"
    "0 \<le> p \<Longrightarrow> p < n \<Longrightarrow> peer_ok dop snap vw s0 log (nodes (sv_cl x) p) (sv_rep x p) (sv_queue x p)"
    "(q, sargs) \<in> snap_reqs (sv_cl x) \<Longrightarrow> snap_ok dop snap s0 log (is_LastIncludedIndex sargs) (is_Data sargs)"
  using assms by (auto simp: sv_inv_def)

lemma snap_reqs_calls [simp]:
  "snap_reqs (set_call i t p c s) = snap_reqs s" "snap_reqs (set_votes i t v s) = snap_reqs s"
  "snap_reqs (open_calls rf args s) = snap_reqs s" "snap_reqs (move p rf s) = snap_reqs s"
  by (simp_all add: set_call_def set_votes_def open_calls_def move_def)

text \<open>A snapshot on the network is one that a peer had on stable storage.\<close>

lemma cl_step_snap_reqs:
  assumes "cl_step n s s'" "(q, sargs) \<in> snap_reqs s'"
  shows "(q, sargs) \<in> snap_reqs s \<or> (\<exists>p. 0 \<le> p \<and> p < n \<and> is_LastIncludedIndex sargs = lastIncludedIndex (nodes s p)
     \<and> is_Data sargs = ReadSnapshot (persister (nodes s p)))"
  using assms(1)
proof (cases rule: cl_step.cases)
  case (cl_send_snap i p t sargs')
  then have "is_LastIncludedIndex sargs' = lastIncludedIndex (nodes s i)" "is_Data sargs' = ReadSnapshot (persister (nodes s i))"
    by (auto simp: sendAppendEntriesToPeer_def bind_Some_iff Let_def split: if_splits)
  with cl_send_snap assms(2) show ?thesis by auto
qed (use assms(2) in auto)

lemma sv_inv_cluster:
  assumes inv: "sv_inv dop snap vw s0 n log x" and st: "cl_step n (sv_cl x) (sv_cl y)"
    and ok: "\<And>p. 0 \<le> p \<Longrightarrow> p < n \<Longrightarrow> peer_ok dop snap vw s0 log (nodes (sv_cl y) p) (sv_rep y p) (sv_queue y p)"
  shows "sv_inv dop snap vw s0 n log y"
proof -
  from inv obtain A where A: "cluster_sim n A (sv_cl x)" "agreed n A log" by (auto simp: sv_inv_def)
  from cl_step_sim [OF st sv_invD(1) [OF inv] A(1)] obtain A' where A': "a_run (majority n) A A'" "cluster_sim n A' (sv_cl y)" by blast
  have "agreed n A' log" by (rule agreed_run [OF A(2) A'(1) cluster_simD(1) [OF A(1)]])
  moreover have "snap_ok dop snap s0 log (is_LastIncludedIndex sargs) (is_Data sargs)" if "(q, sargs) \<in> snap_reqs (sv_cl y)" for q sargs
    using cl_step_snap_reqs [OF st that] sv_invD(3,4) [OF inv] by (auto simp: peer_ok_def)
  ultimately show ?thesis
    using A'(2) ok cl_step_elect_inv [OF st sv_invD(1) [OF inv]] cl_step_real [OF st sv_invD(1,2) [OF inv]] by (auto simp: sv_inv_def)
qed

text \<open>A step of one peer and its replica.\<close>

lemma sv_inv_peer:
  assumes inv: "sv_inv dop snap vw s0 n log x" and st: "cl_step n (sv_cl x) (sv_cl y)" and node: "nodes (sv_cl y) = (nodes (sv_cl x))(p := rf)"
    and rest: "\<And>q. q \<noteq> p \<Longrightarrow> sv_rep y q = sv_rep x q" "\<And>q. q \<noteq> p \<Longrightarrow> sv_queue y q = sv_queue x q"
    and ok: "peer_ok dop snap vw s0 log rf (sv_rep y p) (sv_queue y p)"
  shows "sv_inv dop snap vw s0 n log y"
  by (rule sv_inv_cluster [OF inv st]) (use node ok rest sv_invD(3) [OF inv] in auto)

text \<open>A step of one replica.\<close>

lemma sv_inv_replica:
  assumes inv: "sv_inv dop snap vw s0 n log x" and "sv_cl y = sv_cl x"
    and rest: "\<And>q. q \<noteq> p \<Longrightarrow> sv_rep y q = sv_rep x q" "\<And>q. q \<noteq> p \<Longrightarrow> sv_queue y q = sv_queue x q"
    and ok: "peer_ok dop snap vw s0 log (nodes (sv_cl x) p) (sv_rep y p) (sv_queue y p)"
  shows "sv_inv dop snap vw s0 n log y"
proof -
  have "peer_ok dop snap vw s0 log (nodes (sv_cl x) q) (sv_rep y q) (sv_queue y q)" if "0 \<le> q" "q < n" for q
    using ok rest sv_invD(3) [OF inv that] by (cases "q = p") auto
  with inv assms(2) show ?thesis by (auto simp: sv_inv_def)
qed

lemma move_same: "elect_inv n s \<Longrightarrow> 0 \<le> p \<Longrightarrow> p < n \<Longrightarrow> move p (nodes s p) s = s"
  using record_vote_same [OF elect_inv_history, of n s p "nodes s p"] by (simp add: move_def)

lemma snapshot_msg: "InstallSnapshot rf sargs now = Some (rf', reply, Some m) \<Longrightarrow> \<not> CommandValid m"
  by (auto simp: InstallSnapshot_def Let_def bind_Some_iff split: if_splits)

text \<open>What the log is extended by occurs in the cluster.\<close>

definition log_occurs :: "int \<Rightarrow> ('c, 'd) cluster \<Rightarrow> nat \<Rightarrow> 'c list \<Rightarrow> bool" where
  "log_occurs n s k log \<longleftrightarrow> (\<forall>j. k \<le> j \<and> j < length log \<longrightarrow> (int j + 1, log ! j) \<in> occ n s)"

lemma log_occurs_none: "length log \<le> k \<Longrightarrow> log_occurs n s k log"
  by (auto simp: log_occurs_def)

lemma applied_more:
  assumes inv: "sv_inv dop snap vw s0 n log x" and p: "0 \<le> p" "p < n"
  shows "\<exists>ext. sv_inv dop snap vw s0 n (log @ ext) x \<and> log_occurs n (sv_cl x) (length log) (log @ ext) \<and> commitIndex (nodes (sv_cl x) p) \<le> int (length (log @ ext))
    \<and> (\<forall>i. lastIncludedIndex (nodes (sv_cl x) p) < i \<and> i \<le> commitIndex (nodes (sv_cl x) p) \<longrightarrow>
         le_Command (rlog (nodes (sv_cl x) p) ! nat (i - lastIncludedIndex (nodes (sv_cl x) p))) = Some ((log @ ext) ! (nat i - 1)))"
proof -
  from inv obtain A where A: "cluster_sim n A (sv_cl x)" "agreed n A log" by (auto simp: sv_inv_def)
  have low: "lastIncludedIndex (nodes (sv_cl x) p) \<le> int (length log)"
    using sv_invD(3) [OF inv p] by (auto simp: peer_ok_def snap_ok_def)
  from agreed_extend [OF A(1) sv_invD(1,2) [OF inv] A(2) p low] obtain ext where ext: "agreed n A (log @ ext)"
    "commitIndex (nodes (sv_cl x) p) \<le> int (length (log @ ext))"
    and last: "ext = [] \<or> int (length (log @ ext)) = commitIndex (nodes (sv_cl x) p)" and get:
    "\<forall>i. lastIncludedIndex (nodes (sv_cl x) p) < i \<and> i \<le> commitIndex (nodes (sv_cl x) p) \<longrightarrow>
       le_Command (rlog (nodes (sv_cl x) p) ! nat (i - lastIncludedIndex (nodes (sv_cl x) p))) = Some ((log @ ext) ! (nat i - 1))" by blast
  have "sv_inv dop snap vw s0 n (log @ ext) x"
    using inv A(1) ext(1) peer_ok_more snap_ok_more unfolding sv_inv_def by fast
  moreover have "log_occurs n (sv_cl x) (length log) (log @ ext)"
  proof (cases "ext = []")
    case False
    let ?rf = "nodes (sv_cl x) p"
    have "commitIndex ?rf \<le> lastLogIndex ?rf"
      using committed_length [OF peer_simD(3) [OF cluster_simD(3) [OF A(1) p]]]
        log_sim_last [OF peer_simD(2) [OF cluster_simD(3) [OF A(1) p]] elect_inv_peer(1) [OF sv_invD(1) [OF inv] p]] by simp
    have "(int j + 1, (log @ ext) ! j) \<in> node_occ ?rf" if j: "length log \<le> j" "j < length (log @ ext)" for j
    proof -
      have i: "lastIncludedIndex ?rf < int j + 1" "int j + 1 \<le> commitIndex ?rf" using j low False last by auto
      have "nat (int j + 1) - 1 = j" by simp
      with get i have "le_Command (rlog ?rf ! nat (int j + 1 - lastIncludedIndex ?rf)) = Some ((log @ ext) ! j)" by metis
      then show ?thesis unfolding node_occ_def using i \<open>commitIndex ?rf \<le> lastLogIndex ?rf\<close>
        by (intro CollectI exI [of _ "nat (int j + 1 - lastIncludedIndex ?rf)"] exI) (auto simp: lastLogIndex_def)
    qed
    with node_occ_in [OF p, of "sv_cl x"] show ?thesis unfolding log_occurs_def by blast
  qed (simp add: log_occurs_none)
  ultimately show ?thesis using ext(2) get by blast
qed

lemma sv_inv_apply:
  assumes inv: "sv_inv dop snap vw s0 n log x" and p: "0 \<le> p" "p < n" and st: "applierLoop_iter (nodes (sv_cl x) p) = Some (rf, msgs)"
  shows "\<exists>ext. sv_inv dop snap vw s0 n (log @ ext) (x\<lparr>sv_cl := move p rf (sv_cl x), sv_queue := (sv_queue x)(p := sv_queue x p @ msgs)\<rparr>)
    \<and> log_occurs n (sv_cl x) (length log) (log @ ext)"
proof (cases "killed (nodes (sv_cl x) p)")
  case True
  with st have "rf = nodes (sv_cl x) p" "msgs = []" by (auto simp: applierLoop_iter_def)
  then show ?thesis using inv move_same [OF sv_invD(1) [OF inv] p] by (intro exI [of _ "[]"]) (simp add: log_occurs_none)
next
  case False
  let ?rf = "nodes (sv_cl x) p"
  from applied_more [OF inv p] obtain ext where inv': "sv_inv dop snap vw s0 n (log @ ext) x"
    and new: "log_occurs n (sv_cl x) (length log) (log @ ext)"
    and c: "commitIndex ?rf \<le> int (length (log @ ext))" and get: "\<And>i. lastIncludedIndex ?rf < i \<Longrightarrow> i \<le> commitIndex ?rf \<Longrightarrow>
      le_Command (rlog ?rf ! nat (i - lastIncludedIndex ?rf)) = Some ((log @ ext) ! (nat i - 1))" by blast
  from inv obtain A where sim: "cluster_sim n A (sv_cl x)" by (auto simp: sv_inv_def)
  note P = cluster_simD(3) [OF sim p] and W = elect_inv_peer [OF sv_invD(1) [OF inv] p]
  have "commitIndex ?rf \<le> lastLogIndex ?rf"
    using committed_length [OF peer_simD(3) [OF P]] log_sim_last [OF peer_simD(2) [OF P] W(1)] by simp
  from applier_collect_eq [OF W(1) this] st False peer_simD(4) [OF P]
  have rf: "rf = ?rf\<lparr>lastApplied := commitIndex ?rf\<rparr>"
    and msgs: "msgs = map (\<lambda>i. commandMsg (rlog ?rf ! nat (i - lastIncludedIndex ?rf)) i) [lastApplied ?rf + 1..commitIndex ?rf]"
    by (auto simp: applierLoop_iter_def max_absorb2)
  have bounds: "0 \<le> lastApplied ?rf" "lastApplied ?rf \<le> commitIndex ?rf" "lastIncludedIndex ?rf \<le> lastApplied ?rf"
    using W(1) peer_simD(4) [OF P] by (auto simp: raft_wf_def)
  have "queue_ok dop snap s0 (log @ ext) (nat (lastApplied ?rf)) msgs (nat (commitIndex ?rf))"
    unfolding msgs by (rule queue_ok_commands) (use get bounds c in auto)
  with sv_invD(3) [OF inv' p] c have "peer_ok dop snap vw s0 (log @ ext) rf (sv_rep x p) (sv_queue x p @ msgs)"
    by (auto simp: peer_ok_def rf intro: queue_ok_append)
  then have "sv_inv dop snap vw s0 n (log @ ext) (x\<lparr>sv_cl := move p rf (sv_cl x), sv_queue := (sv_queue x)(p := sv_queue x p @ msgs)\<rparr>)"
    by (intro sv_inv_peer [OF inv', of _ p rf]) (use cl_apply [OF p st] in simp_all)
  with new show ?thesis by blast
qed

lemma sv_inv_install:
  assumes inv: "sv_inv dop snap vw s0 n log x" and p: "0 \<le> p" "p < n" and msg: "(p, sargs) \<in> snap_reqs (sv_cl x)"
    and st: "InstallSnapshot (nodes (sv_cl x) p) sargs now = Some (rf, reply, Some m)"
    and new: "lastApplied (nodes (sv_cl x) p) \<le> is_LastIncludedIndex sargs"
  shows "sv_inv dop snap vw s0 n log
    (x\<lparr>sv_cl := (move p rf (sv_cl x))\<lparr>snap_replies := insert (p, sargs, reply) (snap_replies (sv_cl x))\<rparr>,
       sv_queue := (sv_queue x)(p := sv_queue x p @ [m])\<rparr>)"
proof -
  let ?rf = "nodes (sv_cl x) p" and ?i = "is_LastIncludedIndex sargs"
  note W = elect_inv_peer [OF sv_invD(1) [OF inv] p] and P = sv_invD(3) [OF inv p]
  from st W(1) have i: "lastIncludedIndex ?rf < ?i" and m: "SnapshotValid m" "am_Snapshot m = is_Data sargs" "SnapshotIndex m = ?i"
    and rf: "apply_view rf = (max (lastApplied ?rf) ?i, ?i, is_Data sargs)"
    by (cases rule: InstallSnapshot_cases; simp add: installed_view; simp add: acceptLeader_def)+
  have "0 < ?i" using i W(1) by (simp add: raft_wf_def)
  with sv_invD(4) [OF inv msg] obtain s rs where s: "nat ?i \<le> length log" "exec_log dop s0 log (nat ?i) = Some (s, rs)" "is_Data sargs = snap s"
    by (auto simp: snap_ok_def)
  have "queue_ok dop snap s0 log (nat (lastApplied ?rf)) [m] (nat ?i)"
    using s m new snapshot_msg [OF st] by (auto simp: msg_index_def intro!: next_snapshot)
  moreover have "queue_ok dop snap s0 log (applied (sv_rep x p)) (sv_queue x p) (nat (lastApplied ?rf))" using P by (simp add: peer_ok_def)
  ultimately have "queue_ok dop snap s0 log (applied (sv_rep x p)) (sv_queue x p @ [m]) (nat ?i)" by (rule queue_ok_append [rotated])
  with P rf new s sv_invD(4) [OF inv msg] have "peer_ok dop snap vw s0 log rf (sv_rep x p) (sv_queue x p @ [m])"
    by (auto simp: peer_ok_def apply_view_def max_absorb2)
  then show ?thesis by (intro sv_inv_peer [OF inv, of _ p rf]) (use cl_snap [OF p msg st] in simp_all)
qed

context state_machine
begin

lemma sv_inv_handle:
  assumes inv: "sv_inv DoOp SnapshotSM view t n log x" and p: "0 \<le> p" "p < n" and q: "sv_queue x p = m # ms"
    and st: "applyReader_exec DoOp RestoreSM (rsm (sv_rep x p)) m = Some r"
  shows "sv_inv DoOp SnapshotSM view t n log
    (x\<lparr>sv_rep := (sv_rep x)(p := (sv_rep x p)\<lparr>rsm := r, applied := msg_index m\<rparr>), sv_queue := (sv_queue x)(p := ms)\<rparr>)"
proof -
  note P = sv_invD(3) [OF inv p, unfolded q]
  then have "next_msg DoOp SnapshotSM t log (applied (sv_rep x p)) m (msg_index m)" by (simp add: peer_ok_def)
  from replica_step_inv [OF rep_message [OF this st]] P
  have "peer_ok DoOp SnapshotSM view t log (nodes (sv_cl x) p) ((sv_rep x p)\<lparr>rsm := r, applied := msg_index m\<rparr>) ms"
    by (auto simp: peer_ok_def)
  then show ?thesis by (intro sv_inv_replica [OF inv, of _ p]) simp_all
qed

lemma sv_inv_submit:
  assumes inv: "sv_inv DoOp SnapshotSM view t n log x" and p: "0 \<le> p" "p < n"
    and st: "replica_step DoOp SnapshotSM RestoreSM t log (sv_rep x p) rep" "applied rep = applied (sv_rep x p)"
  shows "sv_inv DoOp SnapshotSM view t n log (x\<lparr>sv_rep := (sv_rep x)(p := rep)\<rparr>)"
  by (rule sv_inv_replica [OF inv, of _ p])
    (use sv_invD(3) [OF inv p] replica_step_inv [OF st(1)] st(2) in \<open>auto simp: peer_ok_def\<close>)

lemma sv_inv_compact:
  assumes inv: "sv_inv DoOp SnapshotSM view t n log x" and p: "0 \<le> p" "p < n" and m: "CommandIndex m = int (applied (sv_rep x p))"
    and st: "applyReader_snapshot SnapshotSM len (rsm (sv_rep x p)) (nodes (sv_cl x) p) m = Some rf"
  shows "sv_inv DoOp SnapshotSM view t n log (x\<lparr>sv_cl := move p rf (sv_cl x)\<rparr>)"
proof (cases "rf = nodes (sv_cl x) p")
  case True
  then show ?thesis using inv move_same [OF sv_invD(1) [OF inv] p] by simp
next
  case False
  let ?rf = "nodes (sv_cl x) p" and ?x = "sv_rep x p"
  note W = elect_inv_peer [OF sv_invD(1) [OF inv] p] and P = sv_invD(3) [OF inv p] and A = peer_ok_applied [OF sv_invD(3) [OF inv p]]
  have snap: "Snapshot ?rf (int (applied ?x)) (SnapshotSM (sm (rsm ?x))) = Some rf"
    using st False m by (auto simp: applyReader_snapshot_def split: if_splits)
  have la: "int (applied ?x) \<le> lastApplied ?rf" using A W(1) by (auto simp: raft_wf_def)
  from snap W(1) False have k: "lastIncludedIndex ?rf < int (applied ?x)"
    and rf: "apply_view rf = (max (lastApplied ?rf) (int (applied ?x)), int (applied ?x), SnapshotSM (sm (rsm ?x)))"
    by (cases rule: Snapshot_cases; simp add: installed_view)+
  from P obtain s rs where s: "exec_log DoOp t log (applied ?x) = Some (s, rs)" "view (sm (rsm ?x)) = view s"
    by (auto simp: peer_ok_def replica_inv_def)
  have "snap_ok DoOp SnapshotSM t log (int (applied ?x)) (SnapshotSM (sm (rsm ?x)))"
    using s Snapshot_view [OF s(2)] A k W(1) by (auto simp: snap_ok_def raft_wf_def)
  with P rf la have "peer_ok DoOp SnapshotSM view t log rf ?x (sv_queue x p)"
    by (auto simp: peer_ok_def apply_view_def max_absorb1)
  then show ?thesis by (intro sv_inv_peer [OF inv, of _ p rf]) (use cl_compact [OF p la snap] in simp_all)
qed

text \<open>A replica that starts again has the snapshot of its peer's stable storage, and the peer goes on after it.\<close>

lemma MakeRSM_state:
  fixes ps :: "('q Op LogEntry list gob, 'd) Persister"
  assumes st: "MakeRSM RestoreSM n p ps maxraft s1 now = Some (r, rf)" and views: "view s1 = view t"
    and snap: "snap_ok DoOp SnapshotSM t log i (ReadSnapshot ps)"
  shows "rf = Make n p ps now" "replica_inv DoOp view t log \<lparr>rsm = r, applied = nat i, owner = w\<rparr>"
proof -
  show "rf = Make n p ps now" using st by (auto simp: MakeRSM_def Let_def bind_Some_iff split: if_splits)
  let ?r = "\<lambda>s. \<lparr>rsm_me = p, maxraftstate = maxraft, sm = s, pendingOps = Map.empty,
                chans = (\<lambda>_. \<lparr>buf = [], closed = False\<rparr>), next_chan = 0\<rparr>"
  show "replica_inv DoOp view t log \<lparr>rsm = r, applied = nat i, owner = w\<rparr>"
  proof (cases "ReadSnapshot ps = []")
    case True
    then have "i = 0" using snap Snapshot_nonempty by (auto simp: snap_ok_def) metis
    moreover have "r = ?r s1" using True st by (auto simp: MakeRSM_def Let_def)
    ultimately show ?thesis using views by (auto simp: replica_inv_def exec_log_def chans_ok_fresh)
  next
    case False
    with snap obtain s rs where s: "exec_log DoOp t log (nat i) = Some (s, rs)" "ReadSnapshot ps = SnapshotSM s" by (auto simp: snap_ok_def)
    from st s(2) Snapshot_nonempty [of s] obtain u where u: "RestoreSM s1 (SnapshotSM s) = Some u" "r = ?r u"
      by (auto simp: MakeRSM_def Let_def bind_Some_iff)
    from Restore_Snapshot [of s1 s] u(1) have "view u = view s" by auto
    with s(1) u(2) show ?thesis by (auto simp: replica_inv_def chans_ok_fresh)
  qed
qed

lemma sv_inv_restart:
  assumes inv: "sv_inv DoOp SnapshotSM view t n log x" and p: "0 \<le> p" "p < n" and views: "view (s0 p) = view t"
    and st: "MakeRSM RestoreSM n p (persister (nodes (sv_cl x) p)) maxraft (s0 p) now = Some (r, rf)"
  shows "sv_inv DoOp SnapshotSM view t n log
    (x\<lparr>sv_cl := move p rf (sv_cl x), sv_queue := (sv_queue x)(p := []),
       sv_rep := (sv_rep x)(p := \<lparr>rsm = r, applied = nat (lastIncludedIndex rf), owner = (\<lambda>_. 0)\<rparr>)\<rparr>)"
proof -
  let ?rf = "nodes (sv_cl x) p"
  note W = elect_inv_peer [OF sv_invD(1) [OF inv] p] and P = sv_invD(3) [OF inv p]
  have sn: "snap_ok DoOp SnapshotSM t log (lastIncludedIndex ?rf) (ReadSnapshot (persister ?rf))" using P by (simp add: peer_ok_def)
  note M = MakeRSM_state [OF st views sn] and R = Make_restores(4) [OF W(2), of n p now]
  have "lastIncludedIndex ?rf \<le> int (length log)" using sn by (auto simp: snap_ok_def)
  then have "peer_ok DoOp SnapshotSM view t log rf \<lparr>rsm = r, applied = nat (lastIncludedIndex rf), owner = (\<lambda>_. 0)\<rparr> []"
    using M(2) sn by (simp add: peer_ok_def M(1) R)
  then show ?thesis by (intro sv_inv_peer [OF inv, of _ p rf]) (use cl_restart [OF p, of "sv_cl x" now] M(1) in simp_all)
qed

lemma sv_step_log:
  assumes "sv_step DoOp SnapshotSM RestoreSM s0 len n x y" and inv: "sv_inv DoOp SnapshotSM view t n log x"
    and views: "\<And>p. view (s0 p) = view t"
  shows "\<exists>ext. sv_inv DoOp SnapshotSM view t n (log @ ext) y \<and> log_occurs n (sv_cl x) (length log) (log @ ext)"
proof -
  have stay: ?thesis if "sv_inv DoOp SnapshotSM view t n log y" using that by (intro exI [of _ "[]"]) (simp add: log_occurs_none)
  from assms(1) show ?thesis
  proof (cases rule: sv_step.cases)
    case (sv_raft s)
    then have "peer_ok DoOp SnapshotSM view t log (nodes (sv_cl y) p) (sv_rep y p) (sv_queue y p)" if "0 \<le> p" "p < n" for p
      using iffD2 [OF peer_ok_view sv_invD(3) [OF inv that], of "nodes s p"] that by (simp add: quiet_def)
    then have "sv_inv DoOp SnapshotSM view t n log y" by (intro sv_inv_cluster [OF inv]) (use sv_raft in \<open>simp_all add: quiet_def\<close>)
    then show ?thesis by (rule stay)
  next
    case (sv_apply p rf msgs)
    then show ?thesis using sv_inv_apply [OF inv] by simp
  next
    case (sv_install p sargs now rf reply m)
    then show ?thesis using sv_inv_install [OF inv] stay by simp
  next
    case (sv_handle p m ms r)
    then show ?thesis using sv_inv_handle [OF inv] stay by simp
  next
    case (sv_compact p m rf)
    then show ?thesis using sv_inv_compact [OF inv] stay by simp
  next
    case (sv_register p index r ch)
    then show ?thesis using sv_inv_submit [OF inv sv_register(2,3) rep_register] stay by simp
  next
    case (sv_return p index)
    then show ?thesis using sv_inv_submit [OF inv sv_return(2,3) rep_return] stay by simp
  next
    case (sv_close p)
    then show ?thesis using sv_inv_submit [OF inv sv_close(2,3) rep_close] stay by simp
  next
    case (sv_restart p maxraft now r rf)
    then show ?thesis using sv_inv_restart [OF inv _ _ views] stay by simp
  qed
qed

lemma sv_step_inv:
  assumes "sv_step DoOp SnapshotSM RestoreSM s0 len n x y" "sv_inv DoOp SnapshotSM view t n log x" "\<And>p. view (s0 p) = view t"
  shows "\<exists>ext. sv_inv DoOp SnapshotSM view t n (log @ ext) y"
  using sv_step_log [OF assms] by blast

lemma sv_run_inv:
  assumes "sv_run DoOp SnapshotSM RestoreSM s0 len n x y" "\<And>p. view (s0 p) = view t"
  shows "sv_inv DoOp SnapshotSM view t n log x \<Longrightarrow> \<exists>ext. sv_inv DoOp SnapshotSM view t n (log @ ext) y"
  using assms(1)
proof (induction rule: sv_run.induct)
  case (sv_refl x)
  then show ?case by (intro exI [of _ "[]"]) simp
next
  case (sv_trans x y z)
  then obtain ext where "sv_inv DoOp SnapshotSM view t n (log @ ext) y" by blast
  from sv_step_inv [OF sv_trans.hyps(2) this assms(2)] show ?case by (metis append.assoc)
qed

lemma sv_init_inv:
  assumes "\<And>p. view (s0 p) = view t"
  shows "sv_inv DoOp SnapshotSM view t n [] (sv_init RestoreSM s0 maxraft n now)"
proof -
  let ?x = "sv_init RestoreSM s0 maxraft n now :: ('q, 'd, 's, 'r) service"
  have "peer_ok DoOp SnapshotSM view t [] (nodes (sv_cl ?x) p) (sv_rep ?x p) (sv_queue ?x p)" for p
    using assms [of p]
    by (simp add: peer_ok_def sv_init_def cl_init_def Make_def readPersist_def Let_def MakeRSM_def snap_ok_def replica_inv_def
        exec_log_def chans_ok_fresh)
  moreover obtain A where "cluster_sim n A (sv_cl ?x)" using reachable_sim(2) [OF cl_refl, of n now] by (auto simp: sv_init_def)
  moreover have "agreed n A []" for A :: "'q Op araft" by (simp add: agreed_def)
  ultimately show ?thesis
    using cl_init_elect_inv [of n now] cl_init_real [of n now] by (auto simp: sv_inv_def sv_init_def) (auto simp: cl_init_def)
qed

text \<open>At any two moments of a run, the log of the later one extends the log of the earlier one.\<close>

lemma sv_two_moments:
  assumes "sv_run DoOp SnapshotSM RestoreSM s0 len n (sv_init RestoreSM s0 maxraft n now) x" "sv_run DoOp SnapshotSM RestoreSM s0 len n x y"
    and views: "\<And>p. view (s0 p) = view t"
  obtains log ext where "sv_inv DoOp SnapshotSM view t n log x" "sv_inv DoOp SnapshotSM view t n (log @ ext) y"
  using sv_run_inv [OF assms(1) views sv_init_inv [OF views]] sv_run_inv [OF assms(2) views] that by (metis append_Nil)

end

end
