(* ===== verification/KvRaft.thy ===== *)
theory KvRaft
  imports RsmService Clerk
begin

text \<open>
  The services replicated with \<^verbatim>\<open>Rsm\<close>: the key/value server of \<^verbatim>\<open>kvraft1/server.go\<close> and the test counter of
  \<^verbatim>\<open>kvraft1/rsm/server.go\<close>, both instances of \<open>state_machine\<close>; the key/value server's \<open>DoOp\<close> is also the
  second instance of \<open>versioned_kv\<close> and answers exactly as the single-node server does.
\<close>

section \<open>The replicated key/value server\<close>

text \<open>The field names of this package's \<open>valueVersion\<close> are exported, the values are the same.\<close>

record KVRaftServer =
  kv_me :: int
  kv_dead :: bool
  kv_store :: "string \<rightharpoonup> valueVersion"

text \<open>Requests and results travel as \<open>any\<close>: here the types the switch of \<open>DoOp\<close> distinguishes.\<close>

datatype kv_req = ReqGet GetArgs | ReqPut PutArgs | ReqOther
datatype kv_res = ResGet GetReply | ResPut PutReply | ResNil

definition KVServer_DoOp :: "KVRaftServer \<Rightarrow> kv_req \<Rightarrow> (KVRaftServer \<times> kv_res) option" where
  "KVServer_DoOp kv req =
     (case req of
        ReqGet args \<Rightarrow>
          (let reply = GetReply0 in
           case kv_store kv (get_Key args) of
             None \<Rightarrow> Some (kv, ResGet (reply\<lparr>getr_Err := ErrNoKey\<rparr>))
           | Some item \<Rightarrow> Some (kv, ResGet (reply\<lparr>getr_Value := val item, getr_Version := ver item, getr_Err := OK\<rparr>)))
      | ReqPut args \<Rightarrow>
          (let reply = PutReply0 in
           case kv_store kv (put_Key args) of
             None \<Rightarrow>
               (if put_Version args = 0
                then Some (kv\<lparr>kv_store := (kv_store kv)(put_Key args \<mapsto> \<lparr>val = put_Value args, ver = 1\<rparr>)\<rparr>,
                           ResPut (reply\<lparr>putr_Err := OK\<rparr>))
                else Some (kv, ResPut (reply\<lparr>putr_Err := ErrNoKey\<rparr>)))
           | Some item \<Rightarrow>
               (if ver item \<noteq> put_Version args then Some (kv, ResPut (reply\<lparr>putr_Err := ErrVersion\<rparr>))
                else Some (kv\<lparr>kv_store := (kv_store kv)(put_Key args \<mapsto>
                                 \<lparr>val = put_Value args, ver = ver item + 1\<rparr>)\<rparr>,
                           ResPut (reply\<lparr>putr_Err := OK\<rparr>))))
      | ReqOther \<Rightarrow> Some (kv, ResNil))"

type_synonym kv_data = "(string \<rightharpoonup> valueVersion) gob"

definition KVServer_Snapshot :: "KVRaftServer \<Rightarrow> kv_data list" where
  "KVServer_Snapshot kv = [GobVal (kv_store kv)]"

definition KVServer_Restore :: "KVRaftServer \<Rightarrow> kv_data list \<Rightarrow> KVRaftServer option" where
  "KVServer_Restore kv data =
     (if length data = 0 then Some kv
      else map_option (\<lambda>(st, _). kv\<lparr>kv_store := st\<rparr>) (DecodeVal data))"

text \<open>The RPC handlers, after \<open>Submit\<close> has returned; a result of the wrong type panics.\<close>

definition KVServer_Get_reply :: "Err \<times> kv_res option \<Rightarrow> GetReply \<Rightarrow> GetReply option" where
  "KVServer_Get_reply r reply =
     (case r of (err, res) \<Rightarrow>
        if err \<noteq> OK then Some (reply\<lparr>getr_Err := err\<rparr>)
        else case res of Some (ResGet g) \<Rightarrow> Some g | _ \<Rightarrow> None)"

definition KVServer_Put_reply :: "Err \<times> kv_res option \<Rightarrow> PutReply \<Rightarrow> PutReply option" where
  "KVServer_Put_reply r reply =
     (case r of (err, res) \<Rightarrow>
        if err \<noteq> OK then Some (reply\<lparr>putr_Err := err\<rparr>)
        else case res of Some (ResPut p) \<Rightarrow> Some p | _ \<Rightarrow> None)"

definition KVServer_Kill :: "KVRaftServer \<Rightarrow> KVRaftServer" where
  "KVServer_Kill kv = kv\<lparr>kv_dead := True\<rparr>"

definition KVServer_killed :: "KVRaftServer \<Rightarrow> bool" where
  "KVServer_killed kv = kv_dead kv"

definition StartKVServer :: "int \<Rightarrow> int \<Rightarrow> (kv_req Op LogEntry list gob, kv_data) Persister \<Rightarrow> int \<Rightarrow> int
    \<Rightarrow> ((KVRaftServer, kv_res) RSM \<times> (kv_req Op, kv_data) Raft) option" where
  "StartKVServer n i ps maxraft now =
     MakeRSM KVServer_Restore n i ps maxraft \<lparr>kv_me = i, kv_dead = False, kv_store = Map.empty\<rparr> now"

lemmas kvraft_defs = KVServer_DoOp_def KVServer_Snapshot_def KVServer_Restore_def

interpretation kvsm: state_machine KVServer_DoOp KVServer_Snapshot KVServer_Restore kv_store
proof
  fix s t s' :: KVRaftServer and q r
  show "kv_store s = kv_store t \<Longrightarrow> KVServer_DoOp s q = Some (s', r) \<Longrightarrow>
      \<exists>t'. KVServer_DoOp t q = Some (t', r) \<and> kv_store t' = kv_store s'"
    by (cases q) (auto simp: kvraft_defs Let_def split: option.splits if_splits)
  show "\<exists>t'. KVServer_Restore t (KVServer_Snapshot s) = Some t' \<and> kv_store t' = kv_store s"
    by (simp add: kvraft_defs)
  show "kv_store s = kv_store t \<Longrightarrow> KVServer_Snapshot s = KVServer_Snapshot t"
    by (simp add: kvraft_defs)
  show "KVServer_Snapshot s \<noteq> []" by (simp add: kvraft_defs)
qed

section \<open>The replicated server answers as the single-node server\<close>

definition single :: "KVRaftServer \<Rightarrow> KVServer" where
  "single kv = \<lparr>store = kv_store kv\<rparr>"

lemma DoOp_put:
  "\<exists>kv'. KVServer_DoOp kv (ReqPut a) = Some (kv', ResPut (snd (KVServer_put (single kv) a)))
     \<and> single kv' = fst (KVServer_put (single kv) a)"
  by (auto simp: KVServer_DoOp_def KVServer_defs single_def Let_def split: option.splits)

lemma DoOp_get: "KVServer_DoOp kv (ReqGet g) = Some (kv, ResGet (KVServer_get (single kv) g))"
  by (auto simp: KVServer_DoOp_def KVServer_defs single_def Let_def split: option.splits)

text \<open>The reference service: the single-node server executing a request.\<close>

fun serve_req :: "KVServer \<Rightarrow> kv_req \<Rightarrow> KVServer \<times> kv_res" where
  "serve_req s (ReqPut a) = (let (s', r) = KVServer_put s a in (s', ResPut r))"
| "serve_req s (ReqGet g) = (s, ResGet (KVServer_get s g))"
| "serve_req s ReqOther = (s, ResNil)"

fun serve_all :: "KVServer \<Rightarrow> kv_req list \<Rightarrow> KVServer \<times> kv_res list" where
  "serve_all s [] = (s, [])"
| "serve_all s (q # qs) = (let (s1, r) = serve_req s q; (s2, rs) = serve_all s1 qs in (s2, r # rs))"

lemma DoOp_serve: "\<exists>kv'. KVServer_DoOp kv q = Some (kv', snd (serve_req (single kv) q)) \<and> single kv' = fst (serve_req (single kv) q)"
  using DoOp_put DoOp_get by (cases q) (auto simp: split_beta Let_def KVServer_DoOp_def)

lemma run_ops_serve:
  "\<exists>kv'. run_ops KVServer_DoOp qs kv = Some (kv', snd (serve_all (single kv) qs)) \<and> single kv' = fst (serve_all (single kv) qs)"
proof (induction qs arbitrary: kv)
  case Nil
  then show ?case by simp
next
  case (Cons q qs)
  from DoOp_serve [of kv q] obtain kv1 where kv1: "KVServer_DoOp kv q = Some (kv1, snd (serve_req (single kv) q))"
    "single kv1 = fst (serve_req (single kv) q)" by blast
  from Cons.IH [of kv1] kv1 show ?case by (auto simp: split_beta Let_def)
qed

definition KVRaft0 :: "int \<Rightarrow> KVRaftServer" where
  "KVRaft0 i = \<lparr>kv_me = i, kv_dead = False, kv_store = Map.empty\<rparr>"

lemma single_KVRaft0 [simp]: "single (KVRaft0 i) = MakeKVServer"
  by (simp add: single_def KVRaft0_def MakeKVServer_def)

lemma single_eq: "single a = single b \<longleftrightarrow> kv_store a = kv_store b"
  by (simp add: single_def)

lemma inv_single:
  assumes "replica_inv KVServer_DoOp kv_store (KVRaft0 i) log x"
  shows "single (sm (rsm x)) = fst (serve_all MakeKVServer (map op_Command (take (applied x) log)))"
proof -
  from assms obtain s rs where
    s: "exec_log KVServer_DoOp (KVRaft0 i) log (applied x) = Some (s, rs)" "kv_store (sm (rsm x)) = kv_store s"
    by (auto simp: replica_inv_def)
  have "single (sm (rsm x)) = single s" by (simp add: single_eq s(2))
  with s(1) run_ops_serve [of "map op_Command (take (applied x) log)" "KVRaft0 i"] show ?thesis
    by (auto simp: exec_log_def)
qed

lemma inv_answer:
  assumes "replica_inv KVServer_DoOp kv_store (KVRaft0 i) log x"
    and "Submit_poll (rsm x) rf ch op_id startTerm = Some (OK, Some v)"
  shows "\<exists>k < length log. owner x ch = int k + 1 \<and> op_Id (log ! k) = op_id \<and> op_Term (log ! k) = startTerm
      \<and> v = snd (serve_req (fst (serve_all MakeKVServer (map op_Command (take k log)))) (op_Command (log ! k)))"
proof -
  from kvsm.inv_submit_ok [OF assms] obtain k s rs where k: "owner x ch = int k + 1" "k < length log" "op_Id (log ! k) = op_id"
    "op_Term (log ! k) = startTerm" and ex: "exec_log KVServer_DoOp (KVRaft0 i) log (k + 1) = Some (s, rs)" and v: "v = last rs"
    by blast
  from run_ops_serve [of "map op_Command (take k log)" "KVRaft0 i"] obtain kv' where
    kv': "exec_log KVServer_DoOp (KVRaft0 i) log k = Some (kv', snd (serve_all MakeKVServer (map op_Command (take k log))))"
    "single kv' = fst (serve_all MakeKVServer (map op_Command (take k log)))" by (auto simp: exec_log_def)
  from DoOp_serve [of kv' "op_Command (log ! k)"] obtain kv2 where
    "KVServer_DoOp kv' (op_Command (log ! k)) = Some (kv2, snd (serve_req (single kv') (op_Command (log ! k))))" by blast
  with exec_log_Suc [OF k(2), of KVServer_DoOp "KVRaft0 i"] kv'(1) ex
  have "last rs = snd (serve_req (single kv') (op_Command (log ! k)))" by auto
  with k v kv'(2) show ?thesis by auto
qed

text \<open>
  Every replica is the single server.  A replica of the key/value service that is fed the agreed log
  in order, from the start, from a snapshot received on the way or from one found at restart, and
  whatever \<open>Submit\<close> calls come and go, holds exactly the store the single-node server has after
  executing the same prefix of the log.
\<close>

theorem replica_is_single_server:
  assumes "replica_run KVServer_DoOp KVServer_Snapshot KVServer_Restore (KVRaft0 i) log x"
  shows "single (sm (rsm x)) = fst (serve_all MakeKVServer (map op_Command (take (applied x) log)))"
  by (rule inv_single [OF kvsm.replica_run_inv [OF assms]])

text \<open>A log of one put, submitted by the call that waits at index 1 and applied.\<close>

definition demo_put :: PutArgs where
  "demo_put = \<lparr>put_Key = ''a'', put_Value = ''x'', put_Version = 0\<rparr>"

definition demo_log :: "kv_req Op list" where
  "demo_log = [\<lparr>op_Id = 7, op_Term = 1, op_Command = ReqPut demo_put\<rparr>]"

definition demo_msg :: "(kv_req Op, kv_data) ApplyMsg" where
  "demo_msg = commandMsg \<lparr>le_Command = Some (demo_log ! 0), le_Term = 1\<rparr> 1"

definition demo_rf :: "(kv_req Op, kv_data) Raft" where
  "demo_rf = Make 3 0 MakePersister 0"

definition demo_rsm :: "(KVRaftServer, kv_res) RSM" where
  "demo_rsm = \<lparr>rsm_me = 0, maxraftstate = -1, sm = KVRaft0 0, pendingOps = Map.empty,
     chans = (\<lambda>_. \<lparr>buf = [], closed = False\<rparr>), next_chan = 0\<rparr>"

lemma demo_replica:
  "\<exists>x. replica_run KVServer_DoOp KVServer_Snapshot KVServer_Restore (KVRaft0 0) demo_log x \<and> applied x = 1
     \<and> owner x 0 = 1 \<and> Submit_poll (rsm x) rf 0 7 1 = Some (OK, Some (ResPut \<lparr>putr_Err = OK\<rparr>))"
proof -
  let ?run = "replica_run KVServer_DoOp KVServer_Snapshot KVServer_Restore (KVRaft0 0) demo_log"
  let ?st = "replica_step KVServer_DoOp KVServer_Snapshot KVServer_Restore (KVRaft0 0) demo_log"
  have make: "MakeRSM KVServer_Restore 3 0 MakePersister (-1) (KVRaft0 0) 0 = Some (demo_rsm, Make 3 0 MakePersister 0)"
    by (simp add: MakeRSM_def demo_rsm_def Let_def)
  let ?x0 = "\<lparr>rsm = demo_rsm, applied = 0, owner = (\<lambda>_. 0)\<rparr>"
  have run0: "?run ?x0" by (rule run_fresh [OF _ make]) simp
  obtain r1 where r1: "Submit_register demo_rsm 1 = (r1, 0)" "pendingOps r1 1 = Some 0" "sm r1 = KVRaft0 0"
    "buf (chans r1 0) = []" by (simp add: Submit_register_def demo_rsm_def)
  let ?x1 = "?x0\<lparr>rsm := r1, owner := (\<lambda>_. 0)(0 := 1)\<rparr>"
  have "?st ?x0 (?x0\<lparr>rsm := r1, owner := (owner ?x0)(0 := 1)\<rparr>)" by (rule rep_register) (simp add: r1)
  then have run1: "?run ?x1" by (intro run_step [OF run0]) simp
  have nxt: "next_msg KVServer_DoOp KVServer_Snapshot (KVRaft0 0) demo_log (applied ?x1) demo_msg 1"
    using next_command [of 0 demo_log demo_msg KVServer_DoOp KVServer_Snapshot "KVRaft0 0"]
    by (simp add: demo_log_def demo_msg_def commandMsg_def)
  obtain r2 where r2: "applyReader_exec KVServer_DoOp KVServer_Restore (rsm ?x1) demo_msg = Some r2"
    "buf (chans r2 0) = [\<lparr>n_id = 7, n_term = 1, n_result = ResPut \<lparr>putr_Err = OK\<rparr>\<rparr>]"
    using r1(2-4) by (simp add: applyReader_exec_def demo_msg_def commandMsg_def demo_log_def demo_put_def
        KVServer_DoOp_def KVRaft0_def PutReply0_def notify_def chan_send_def)
  let ?x2 = "?x1\<lparr>rsm := r2, applied := 1\<rparr>"
  have "?run ?x2" by (rule run_step [OF run1 rep_message [OF nxt r2(1)]])
  moreover have "Submit_poll (rsm ?x2) rf 0 7 1 = Some (OK, Some (ResPut \<lparr>putr_Err = OK\<rparr>))"
    by (simp add: Submit_poll_def r2(2))
  ultimately show ?thesis by (intro exI [of _ ?x2]) simp
qed

theorem replica_is_single_server_witness:
  "\<exists>x. replica_run KVServer_DoOp KVServer_Snapshot KVServer_Restore (KVRaft0 0) demo_log x
     \<and> kv_store (sm (rsm x)) ''a'' = Some \<lparr>val = ''x'', ver = 1\<rparr>"
proof -
  obtain x where x: "replica_run KVServer_DoOp KVServer_Snapshot KVServer_Restore (KVRaft0 0) demo_log x" "applied x = 1"
    using demo_replica by blast
  have "store (single (sm (rsm x))) ''a'' = Some \<lparr>val = ''x'', ver = 1\<rparr>"
    unfolding replica_is_single_server [OF x(1)] x(2)
    by (simp add: demo_log_def demo_put_def KVServer_put_def KVServer_Put_def MakeKVServer_def PutReply0_def)
  with x(1) show ?thesis by (auto simp: single_def)
qed

text \<open>
  A request that \<open>Submit\<close> reports as done was executed where it was submitted.  If the waiting loop
  returns \<open>OK\<close> for an operation id, then the entry at the index the call registered for carries that
  id and the term the call started in, and the result is what the single-node server answers to that
  request after the requests before it in the log.
\<close>

theorem Submit_returns_own_result:
  assumes "replica_run KVServer_DoOp KVServer_Snapshot KVServer_Restore (KVRaft0 i) log x"
    and "Submit_poll (rsm x) rf ch op_id startTerm = Some (OK, Some v)"
  shows "\<exists>k < length log. owner x ch = int k + 1 \<and> op_Id (log ! k) = op_id \<and> op_Term (log ! k) = startTerm
      \<and> v = snd (serve_req (fst (serve_all MakeKVServer (map op_Command (take k log)))) (op_Command (log ! k)))"
  by (rule inv_answer [OF kvsm.replica_run_inv [OF assms(1)] assms(2)])

theorem Submit_returns_own_result_witness:
  "\<exists>x k. replica_run KVServer_DoOp KVServer_Snapshot KVServer_Restore (KVRaft0 0) demo_log x
     \<and> Submit_poll (rsm x) demo_rf 0 7 1 = Some (OK, Some (ResPut \<lparr>putr_Err = OK\<rparr>))
     \<and> owner x 0 = int k + 1 \<and> op_Id (demo_log ! k) = 7"
proof -
  obtain x where x: "replica_run KVServer_DoOp KVServer_Snapshot KVServer_Restore (KVRaft0 0) demo_log x"
    "Submit_poll (rsm x) demo_rf 0 7 1 = Some (OK, Some (ResPut \<lparr>putr_Err = OK\<rparr>))"
    using demo_replica by blast
  from Submit_returns_own_result [OF this] obtain k where "owner x 0 = int k + 1" "op_Id (demo_log ! k) = 7" by blast
  with x show ?thesis by (intro exI [of _ x] exI [of _ k]) simp
qed

section \<open>The replicated server keeps the versioned contract\<close>

definition rkv_put :: "KVRaftServer \<Rightarrow> PutArgs \<Rightarrow> KVRaftServer \<times> PutReply" where
  "rkv_put kv a = (case KVServer_DoOp kv (ReqPut a) of Some (kv', ResPut r) \<Rightarrow> (kv', r) | _ \<Rightarrow> (kv, PutReply0))"

definition rkv_get :: "KVRaftServer \<Rightarrow> GetArgs \<Rightarrow> GetReply" where
  "rkv_get kv g = (case KVServer_DoOp kv (ReqGet g) of Some (_, ResGet r) \<Rightarrow> r | _ \<Rightarrow> GetReply0)"

definition rkv_cell :: "KVRaftServer \<Rightarrow> (string \<rightharpoonup> string \<times> Tversion)" where
  "rkv_cell kv = KVServer_cell (single kv)"

lemma rkv_single:
  "single (fst (rkv_put kv a)) = fst (KVServer_put (single kv) a)" "snd (rkv_put kv a) = snd (KVServer_put (single kv) a)"
  "rkv_get kv g = KVServer_get (single kv) g"
  using DoOp_put [of kv a] DoOp_get [of kv g] by (auto simp: rkv_put_def rkv_get_def)

interpretation rkv: versioned_kv rkv_put rkv_get rkv_cell
proof
  fix s :: KVRaftServer and a
  show "putr_Err (snd (rkv_put s a)) \<in> {OK, ErrNoKey, ErrVersion}" unfolding rkv_single by (rule srv.put_errs)
qed (simp_all add: rkv_single rkv_cell_def srv.put_ok_iff srv.put_ok_cell srv.put_fail_cell srv.put_nokey_iff
        srv.get_some srv.get_none)

text \<open>
  A key's version counts its successful puts.  Along any sequence of puts executed by the replicated
  server, the version of a key rises by exactly the number of puts on it that were answered \<open>OK\<close>
  (modulo \<open>2 ^ 64\<close>), so a version is never reused before the counter wraps.
\<close>

theorem replicated_version_counts_puts:
  "version_of (rkv_cell (fst (exec_puts rkv_put as kv))) k =
     version_of (rkv_cell kv) k + of_nat (length (ok_puts k (snd (exec_puts rkv_put as kv))))"
  by (rule rkv.version_counts_puts)

section \<open>The counter of the state machine tests\<close>

datatype counter_req = Inc | Null | Dec
datatype counter_res = IncRep int | NullRep

record rsmSrv =
  rs_me :: int
  counter :: int

definition rsmSrv_DoOp :: "rsmSrv \<Rightarrow> counter_req \<Rightarrow> (rsmSrv \<times> counter_res) option" where
  "rsmSrv_DoOp rs req =
     (case req of
        Inc \<Rightarrow> let rs = rs\<lparr>counter := counter rs + 1\<rparr> in Some (rs, IncRep (counter rs))
      | Null \<Rightarrow> Some (rs, NullRep)
      | Dec \<Rightarrow> None)"

definition rsmSrv_Snapshot :: "rsmSrv \<Rightarrow> unit gob list" where
  "rsmSrv_Snapshot rs = [GobInt (counter rs)]"

definition rsmSrv_Restore :: "rsmSrv \<Rightarrow> unit gob list \<Rightarrow> rsmSrv option" where
  "rsmSrv_Restore rs data = map_option (\<lambda>(n, _). rs\<lparr>counter := n\<rparr>) (DecodeInt data)"

definition makeRsmSrv :: "int \<Rightarrow> int \<Rightarrow> (counter_req Op LogEntry list gob, unit gob) Persister \<Rightarrow> int \<Rightarrow> int
    \<Rightarrow> ((rsmSrv, counter_res) RSM \<times> (counter_req Op, unit gob) Raft) option" where
  "makeRsmSrv n srv ps maxraft now = MakeRSM rsmSrv_Restore n srv ps maxraft \<lparr>rs_me = srv, counter = 0\<rparr> now"

interpretation countsm: state_machine rsmSrv_DoOp rsmSrv_Snapshot rsmSrv_Restore counter
proof
  fix s t s' :: rsmSrv and q r
  show "counter s = counter t \<Longrightarrow> rsmSrv_DoOp s q = Some (s', r) \<Longrightarrow>
      \<exists>t'. rsmSrv_DoOp t q = Some (t', r) \<and> counter t' = counter s'"
    by (cases q) (auto simp: rsmSrv_DoOp_def Let_def)
qed (auto simp: rsmSrv_Snapshot_def rsmSrv_Restore_def)

lemma rsmSrv_DoOp_Inc [simp]:
  "rsmSrv_DoOp rs Inc = Some (rs\<lparr>counter := counter rs + 1\<rparr>, IncRep (counter rs + 1))"
  by (simp add: rsmSrv_DoOp_def)

lemma run_incs: "run_ops rsmSrv_DoOp (replicate k Inc) rs = Some (rs\<lparr>counter := counter rs + int k\<rparr>,
    map (\<lambda>j. IncRep (counter rs + 1 + int j)) [0..<k])"
proof (induction k arbitrary: rs)
  case 0
  then show ?case by simp
next
  case (Suc k)
  have "[0..<Suc k] = 0 # map Suc [0..<k]" by (simp add: map_Suc_upt upt_conv_Cons del: upt_Suc)
  then show ?case using Suc.IH [of "rs\<lparr>counter := counter rs + 1\<rparr>"]
    by (simp add: comp_def ac_simps del: upt_Suc)
qed

text \<open>
  The counter counts.  A replica that has applied a log of \<open>k\<close> increments, with any snapshots on
  the way, has counter \<open>k\<close>.
\<close>

theorem counter_counts:
  assumes "replica_run rsmSrv_DoOp rsmSrv_Snapshot rsmSrv_Restore \<lparr>rs_me = i, counter = 0\<rparr> log x"
    and "\<forall>op \<in> set log. op_Command op = Inc" and "applied x \<le> length log"
  shows "counter (sm (rsm x)) = int (applied x)"
proof -
  have "map op_Command (take (applied x) log) = replicate (applied x) Inc"
    using assms(2,3) by (intro replicate_eqI) (auto dest: in_set_takeD)
  with countsm.replica_run_inv [OF assms(1)] show ?thesis
    by (auto simp: replica_inv_def exec_log_def run_incs)
qed

theorem counter_counts_witness:
  "\<exists>x. replica_run rsmSrv_DoOp rsmSrv_Snapshot rsmSrv_Restore \<lparr>rs_me = 0, counter = 0\<rparr>
         [\<lparr>op_Id = 1, op_Term = 1, op_Command = Inc\<rparr>] x \<and> applied x = 1 \<and> counter (sm (rsm x)) = 1"
proof -
  let ?log = "[\<lparr>op_Id = 1, op_Term = 1, op_Command = Inc\<rparr>]"
  let ?s = "\<lparr>rs_me = 0, counter = 1\<rparr>"
  let ?ps = "\<lparr>raftstate = [], snapshot = rsmSrv_Snapshot ?s\<rparr> :: (counter_req Op LogEntry list gob, unit gob) Persister"
  obtain r :: "(rsmSrv, counter_res) RSM" and rf where make: "MakeRSM rsmSrv_Restore 3 0 ?ps (-1) \<lparr>rs_me = 0, counter = 0\<rparr> 0 = Some (r, rf)"
    by (auto simp: MakeRSM_def Let_def ReadSnapshot_def rsmSrv_Snapshot_def rsmSrv_Restore_def)
  have ex: "exec_log rsmSrv_DoOp \<lparr>rs_me = 0, counter = 0\<rparr> ?log 1 = Some (?s, [IncRep 1])"
    by (simp add: exec_log_def rsmSrv_DoOp_def Let_def)
  have run: "replica_run rsmSrv_DoOp rsmSrv_Snapshot rsmSrv_Restore \<lparr>rs_me = 0, counter = 0\<rparr> ?log
      \<lparr>rsm = r, applied = 1, owner = (\<lambda>_. 0)\<rparr>"
    by (rule run_recover [OF ex _ make]) (simp add: ReadSnapshot_def)
  from counter_counts [OF this] have "counter (sm r) = 1" by simp
  with run show ?thesis by (intro exI [of _ "\<lparr>rsm = r, applied = 1, owner = (\<lambda>_. 0)\<rparr>"]) simp
qed

section \<open>Two races\<close>

text \<open>
  C38: \<open>Submit\<close> can miss its notification.  The channel is registered only after \<open>Start\<close> has returned; if
  the reader applies the entry first, the channel is never written, whatever happens later, and the
  waiting loop keeps sleeping as long as the peer stays leader of the term (and the channel from
  Raft is not closed): the operation took effect and the call does not return.
\<close>

theorem late_Submit_never_notified:
  assumes "replica_run KVServer_DoOp KVServer_Snapshot KVServer_Restore (KVRaft0 i) log x"
    and "index \<le> int (applied x)" and "Submit_register (rsm x) index = (r, ch)"
    and "replica_steps KVServer_DoOp KVServer_Snapshot KVServer_Restore (KVRaft0 i) log
           (x\<lparr>rsm := r, owner := (owner x)(ch := index)\<rparr>) y"
    and "\<not> closed (chans (rsm y) ch)" and "GetState rf = (startTerm, True)"
  shows "Submit_poll (rsm y) rf ch op_id startTerm = None"
proof -
  let ?x = "x\<lparr>rsm := r, owner := (owner x)(ch := index)\<rparr>"
  have run: "replica_run KVServer_DoOp KVServer_Snapshot KVServer_Restore (KVRaft0 i) log ?x"
    by (rule run_step [OF assms(1) rep_register [OF assms(3)]])
  have "missed ch ?x" using assms(2,3) by (auto simp: missed_def Submit_register_def Let_def)
  from kvsm.missed_forever [OF assms(4) run this] have "buf (chans (rsm y) ch) = []" by (simp add: missed_def)
  with assms(5,6) show ?thesis by (simp add: Submit_poll_def)
qed

theorem late_Submit_never_notified_witness:
  "\<exists>x r. replica_run KVServer_DoOp KVServer_Snapshot KVServer_Restore (KVRaft0 0) demo_log x \<and> applied x = 1
     \<and> r = fst (Submit_register (rsm x) 1) \<and> Submit_poll r (demo_rf\<lparr>role := Leader\<rparr>) (next_chan (rsm x)) 7 0 = None"
proof -
  obtain x where x: "replica_run KVServer_DoOp KVServer_Snapshot KVServer_Restore (KVRaft0 0) demo_log x" "applied x = 1"
    using demo_replica by blast
  obtain r ch where r: "Submit_register (rsm x) 1 = (r, ch)" "ch = next_chan (rsm x)" "\<not> closed (chans r ch)"
    by (simp add: Submit_register_def Let_def)
  have st: "GetState (demo_rf\<lparr>role := Leader\<rparr>) = (0, True)"
    by (simp add: GetState_def demo_rf_def Make_def readPersist_def Let_def)
  have "Submit_poll (rsm (x\<lparr>rsm := r, owner := (owner x)(ch := 1)\<rparr>)) (demo_rf\<lparr>role := Leader\<rparr>) ch 7 0 = None"
    by (rule late_Submit_never_notified [OF x(1) _ r(1) steps_refl _ st]) (use x(2) r(3) in simp_all)
  with x r show ?thesis by (intro exI [of _ x] exI [of _ r]) simp
qed

text \<open>The reader handling several messages.\<close>

fun read_msgs :: "(kv_req Op, kv_data) ApplyMsg list \<Rightarrow> (KVRaftServer, kv_res) RSM \<Rightarrow> (KVRaftServer, kv_res) RSM option" where
  "read_msgs [] r = Some r"
| "read_msgs (m # ms) r = Option.bind (applyReader_exec KVServer_DoOp KVServer_Restore r m) (read_msgs ms)"

definition race_snapshot :: "kv_data InstallSnapshotArgs" where
  "race_snapshot = \<lparr>is_Term = 1, is_LeaderId = 1, is_LastIncludedIndex = 1, is_LastIncludedTerm = 1,
     is_Data = [GobVal [''a'' \<mapsto> \<lparr>val = ''x'', ver = 1\<rparr>]]\<rparr>"

definition race_append :: "kv_req Op AppendEntriesArgs" where
  "race_append = \<lparr>ae_Term = 1, ae_LeaderId = 1, ae_PrevLogIndex = 1, ae_PrevLogTerm = 1,
     ae_Entries = [\<lparr>le_Command = Some \<lparr>op_Id = 8, op_Term = 1,
        op_Command = ReqPut \<lparr>put_Key = ''b'', put_Value = ''y'', put_Version = 0\<rparr>\<rparr>, le_Term = 1\<rparr>],
     ae_LeaderCommit = 2\<rparr>"

text \<open>
  C39: A snapshot can undo applied operations.  \<open>InstallSnapshot\<close> raises the apply position at once but
  sends its message from a goroutine of its own, so the applier may send the commands after the
  snapshot first.  A follower that is sent a snapshot at index 1 and then entry 2 produces two
  messages; read in index order they leave both keys in the store, read in the other order the
  restore wipes out the put of entry 2, although Raft considers index 2 applied and will not send
  it again.
\<close>

theorem snapshot_overtaken_loses_put:
  "\<exists>rf1 r1 m1 rf2 r2 rf3 m2 good bad.
     InstallSnapshot demo_rf race_snapshot 5 = Some (rf1, r1, Some m1)
     \<and> AppendEntries rf1 race_append 6 = Some (rf2, r2) \<and> applierLoop_iter rf2 = Some (rf3, [m2])
     \<and> lastApplied rf3 = 2
     \<and> read_msgs [m1, m2] demo_rsm = Some good \<and> read_msgs [m2, m1] demo_rsm = Some bad
     \<and> kv_store (sm good) ''b'' = Some \<lparr>val = ''y'', ver = 1\<rparr> \<and> kv_store (sm bad) ''b'' = None"
proof -
  let ?e = "\<lparr>le_Command = Some \<lparr>op_Id = 8, op_Term = 1,
        op_Command = ReqPut \<lparr>put_Key = ''b'', put_Value = ''y'', put_Version = 0\<rparr>\<rparr>, le_Term = 1\<rparr> :: kv_req Op LogEntry"
  let ?m1 = "\<lparr>CommandValid = False, am_Command = None, CommandIndex = 0, SnapshotValid = True,
     am_Snapshot = is_Data race_snapshot, SnapshotTerm = 1, SnapshotIndex = 1\<rparr>"
  obtain rf1 r1 where rf1: "InstallSnapshot demo_rf race_snapshot 5 = Some (rf1, r1, Some ?m1)"
    "currentTerm rf1 = 1" "role rf1 = Follower" "rlog rf1 = [\<lparr>le_Command = None, le_Term = 1\<rparr>]" "lastIncludedIndex rf1 = 1"
    "commitIndex rf1 = 1" "lastApplied rf1 = 1" "dead rf1 = False"
    by (simp add: InstallSnapshot_def race_snapshot_def demo_rf_def Make_def readPersist_def Let_def acceptLeader_def
        persist_def getRelativeIndex_def raiseCommitApplied_def)
  obtain rf2 r2 where rf2: "AppendEntries rf1 race_append 6 = Some (rf2, r2)" "rlog rf2 = [\<lparr>le_Command = None, le_Term = 1\<rparr>, ?e]"
    "lastIncludedIndex rf2 = 1" "commitIndex rf2 = 2" "lastApplied rf2 = 1" "dead rf2 = False"
    using rf1(2-8) by (simp add: AppendEntries_def race_append_def Let_def acceptLeader_def persist_def
        getRelativeIndex_def lastLogIndex_def go_nth_def updateFollowerCommit_def)
  have "applierLoop_iter rf2 = Some (rf2\<lparr>lastApplied := 2\<rparr>, [commandMsg ?e 2])"
    using rf2(2-6) by (simp add: applierLoop_iter_def killed_def applier_collect.simps Let_def getRelativeIndex_def go_nth_def)
  moreover obtain good where "read_msgs [?m1, commandMsg ?e 2] demo_rsm = Some good" "kv_store (sm good) ''b'' = Some \<lparr>val = ''y'', ver = 1\<rparr>"
    by (simp add: applyReader_exec_def commandMsg_def demo_rsm_def KVRaft0_def race_snapshot_def kvraft_defs notify_def)
  moreover obtain bad where "read_msgs [commandMsg ?e 2, ?m1] demo_rsm = Some bad" "kv_store (sm bad) ''b'' = None"
    by (simp add: applyReader_exec_def commandMsg_def demo_rsm_def KVRaft0_def race_snapshot_def kvraft_defs notify_def)
  moreover have "lastApplied (rf2\<lparr>lastApplied := 2\<rparr>) = 2" by simp
  ultimately show ?thesis using rf1(1) rf2(1) by blast
qed

end
