(* ===== verification/KvLin.thy ===== *)
theory KvLin
  imports KvModel KvRaft "HOL-Library.Multiset"
begin

text \<open>
  Linearizability of recorded operations, the property that \<^verbatim>\<open>kvtest1/porcupine.go\<close> checks with the model of \<^verbatim>\<open>models1/kv.go\<close>, and
  when a log of executed requests gives it.  The log may hold several attempts of one operation, some of them executed after the
  operation has returned; an operation takes effect at the attempt that changed the store, or else where it was answered.
\<close>

section \<open>Linearizable histories\<close>

text \<open>One part of a history is linearizable if its operations, in some order in which none returned before the call of an earlier one, are
  accepted by the model; the checker looks at the parts of \<open>Partition\<close> one by one.\<close>

definition linearizable :: "Operation list \<Rightarrow> bool" where
  "linearizable h \<longleftrightarrow> (\<exists>h'. mset h' = mset h \<and> sorted_wrt (\<lambda>a b. \<not> op_Return b < op_Call a) h'
     \<and> KvModel_accepts KvModel_Init (map (\<lambda>v. (op_Input v, op_Output v)) h'))"

definition linearizable_parts :: "Operation list \<Rightarrow> bool" where
  "linearizable_parts h \<longleftrightarrow> (\<forall>part \<in> set (KvModel_Partition h). linearizable part)"

text \<open>It is enough to order the whole history.\<close>

lemma linearizable_parts_order:
  assumes "mset h' = mset h" "sorted_wrt (\<lambda>a b. \<not> op_Return b < op_Call a) h'"
    and "\<And>k. KvModel_accepts KvModel_Init (on_key k (map (\<lambda>v. (op_Input v, op_Output v)) h'))"
  shows "linearizable_parts h"
  unfolding linearizable_parts_def
proof
  fix part assume "part \<in> set (KvModel_Partition h)"
  then obtain k where part: "part = filter (\<lambda>v. in_Key (op_Input v) = k) h" using KvModel_Partition_by_key [of h] by auto
  let ?h = "filter (\<lambda>v. in_Key (op_Input v) = k) h'"
  have "mset ?h = mset part" using assms(1) by (simp add: part)
  moreover have "map (\<lambda>v. (op_Input v, op_Output v)) ?h = on_key k (map (\<lambda>v. (op_Input v, op_Output v)) h')"
    by (simp add: on_key_def filter_map comp_def)
  ultimately show "linearizable part"
    unfolding linearizable_def using sorted_wrt_filter [OF assms(2)] assms(3) [of k] by (intro exI [of _ ?h]) simp
qed

text \<open>The order in which operations are recorded does not matter.\<close>

lemma linearizable_parts_perm:
  assumes "mset h = mset h'" "linearizable_parts h'" shows "linearizable_parts h"
  unfolding linearizable_parts_def
proof
  fix part assume "part \<in> set (KvModel_Partition h)"
  then obtain k where k: "k \<in> set (KvModel_keys h)" "part = filter (\<lambda>v. in_Key (op_Input v) = k) h" using KvModel_Partition_by_key [of h] by auto
  have "set h = set h'" using assms(1) by (metis set_mset_mset)
  with k(1) have "k \<in> set (KvModel_keys h')" by (simp add: KvModel_keys_def)
  then have "linearizable (filter (\<lambda>v. in_Key (op_Input v) = k) h')" using assms(2) KvModel_Partition_by_key [of h'] by (auto simp: linearizable_parts_def)
  then show "linearizable part" using assms(1) by (simp add: linearizable_def k(2))
qed

section \<open>Executing a log\<close>

definition at_log :: "kv_req list \<Rightarrow> nat \<Rightarrow> KVServer" where
  "at_log L k = fst (serve_all MakeKVServer (take k L))"

lemma serve_all_append: "fst (serve_all s (xs @ ys)) = fst (serve_all (fst (serve_all s xs)) ys)"
  by (induction xs arbitrary: s) (auto simp: split_beta Let_def)

lemma at_log_0 [simp]: "at_log L 0 = MakeKVServer"
  by (simp add: at_log_def)

lemma at_log_Suc: "k < length L \<Longrightarrow> at_log L (Suc k) = fst (serve_req (at_log L k) (L ! k))"
  by (simp add: at_log_def take_Suc_conv_app_nth serve_all_append split_beta Let_def)

lemma at_log_append: "k \<le> length L \<Longrightarrow> at_log (L @ L') k = at_log L k"
  by (simp add: at_log_def)

text \<open>A put takes effect if the version it carries is the key's; each key's version counts its effective puts.\<close>

definition effective :: "kv_req list \<Rightarrow> string \<Rightarrow> nat \<Rightarrow> bool" where
  "effective L key k \<longleftrightarrow> (\<exists>a. L ! k = KvRaft.ReqPut a \<and> put_Key a = key \<and> st_Version (model_of (at_log L k) key) = put_Version a)"

definition nput :: "kv_req list \<Rightarrow> string \<Rightarrow> nat \<Rightarrow> nat" where
  "nput L key k = length (filter (effective L key) [0..<k])"

lemma nput_0 [simp]: "nput L key 0 = 0"
  by (simp add: nput_def)

lemma nput_Suc: "nput L key (Suc k) = (if effective L key k then Suc (nput L key k) else nput L key k)"
  by (simp add: nput_def)

lemma nput_mono: "j \<le> k \<Longrightarrow> nput L key j \<le> nput L key k"
  by (induction k) (auto simp: nput_Suc le_Suc_eq)

lemma nput_le: "nput L key k \<le> k"
  unfolding nput_def by (metis diff_zero length_filter_le length_upt)

lemma put_errs:
  "putr_Err (snd (KVServer_put kv a)) =
     (if st_Version (model_of kv (put_Key a)) = put_Version a then OK
      else if store kv (put_Key a) = None then ErrNoKey else ErrVersion)"
  by (auto simp: KVServer_defs model_of_def KvModel_Init_def split: option.splits)

lemma put_model:
  "model_of (fst (KVServer_put kv a)) key =
     (if key = put_Key a \<and> st_Version (model_of kv key) = put_Version a
      then \<lparr>st_Value = put_Value a, st_Version = put_Version a + 1\<rparr> else model_of kv key)"
  by (auto simp: KVServer_defs model_of_def KvModel_Init_def split: option.splits)

lemma model_Suc:
  assumes "k < length L"
  shows "model_of (at_log L (Suc k)) key = (case L ! k of
     KvRaft.ReqPut a \<Rightarrow> if effective L key k then \<lparr>st_Value = put_Value a, st_Version = put_Version a + 1\<rparr> else model_of (at_log L k) key
   | _ \<Rightarrow> model_of (at_log L k) key)"
  using at_log_Suc [OF assms] put_model by (auto simp: effective_def split_beta Let_def split: kv_req.splits)

lemma model_same: "k < length L \<Longrightarrow> \<not> effective L key k \<Longrightarrow> model_of (at_log L (Suc k)) key = model_of (at_log L k) key"
  by (simp add: model_Suc split: kv_req.splits)

lemma version_nput: "k \<le> length L \<Longrightarrow> st_Version (model_of (at_log L k) key) = of_nat (nput L key k)"
proof (induction k)
  case 0
  then show ?case by (simp add: model_of_def MakeKVServer_def KvModel_Init_def)
next
  case (Suc k)
  then have k: "k < length L" "st_Version (model_of (at_log L k) key) = of_nat (nput L key k)" by simp_all
  show ?case
  proof (cases "effective L key k")
    case True
    then obtain a where a: "L ! k = KvRaft.ReqPut a" "put_Version a = of_nat (nput L key k)" using k(2) by (auto simp: effective_def)
    then show ?thesis using True by (simp add: model_Suc [OF k(1)] nput_Suc add.commute)
  next
    case False
    then show ?thesis using k by (simp add: model_same nput_Suc)
  qed
qed

text \<open>Before the counter wraps around, versions are compared as numbers.\<close>

lemma unat_u64: "n < 2 ^ 64 \<Longrightarrow> unat (of_nat n :: u64) = n"
  by (simp add: unsigned_of_nat take_bit_nat_eq_self)

lemma effective_iff:
  assumes "k < length L" "length L < 2 ^ 64" "L ! k = KvRaft.ReqPut a"
  shows "effective L (put_Key a) k \<longleftrightarrow> nput L (put_Key a) k = unat (put_Version a)"
proof -
  have "nput L (put_Key a) k < 2 ^ 64" using nput_le [of L "put_Key a" k] assms(1,2) by linarith
  from unat_u64 [OF this] show ?thesis using version_nput [of k L "put_Key a"] assms(1,3) by (auto simp: effective_def)
qed

lemma no_key_nput: "k \<le> length L \<Longrightarrow> length L < 2 ^ 64 \<Longrightarrow> store (at_log L k) key = None \<Longrightarrow> nput L key k = 0"
proof -
  assume k: "k \<le> length L" "length L < 2 ^ 64" "store (at_log L k) key = None"
  then have "of_nat (nput L key k) = (0 :: u64)" using version_nput [OF k(1), of key] by (simp add: model_of_def KvModel_Init_def)
  moreover have "nput L key k < 2 ^ 64" using nput_le [of L key k] k(1,2) by linarith
  ultimately show ?thesis using unat_u64 [of "nput L key k"] by simp
qed

section \<open>Operations of clerks\<close>

record clerk_op =
  co_client :: int
  co_req :: kv_request
  co_call :: int
  co_result :: "((KvInput \<times> KvOutput) \<times> int) option"

fun kv_cmd :: "kv_request \<Rightarrow> kv_req" where
  "kv_cmd (KvModel.ReqGet g) = KvRaft.ReqGet g"
| "kv_cmd (KvModel.ReqPut a) = KvRaft.ReqPut a"

text \<open>What \<^verbatim>\<open>Get\<close> and \<^verbatim>\<open>Put\<close> of \<^verbatim>\<open>kvtest1/porcupine.go\<close> record when the clerk has returned; \<open>None\<close> is an answer of the wrong type.\<close>

fun clerk_record :: "bool \<Rightarrow> kv_request \<Rightarrow> kv_res \<Rightarrow> (KvInput \<times> KvOutput) option" where
  "clerk_record first (KvModel.ReqGet g) (ResGet r) = Some (record_Get g r)"
| "clerk_record first (KvModel.ReqPut a) (ResPut r) = Some (record_Put a (Clerk_Put_verdict first (putr_Err r)))"
| "clerk_record first req r = None"

definition operation :: "clerk_op \<Rightarrow> Operation" where
  "operation c = (let ((inp, out), ret) = the (co_result c)
     in \<lparr>op_ClientId = co_client c, op_Input = inp, op_Call = co_call c, op_Output = out, op_Return = ret\<rparr>)"

text \<open>
  The log \<open>L\<close> executes the operations \<open>ops\<close>: entry \<open>k\<close> is an attempt of operation \<open>own k\<close>; operation \<open>i\<close> was called when the log had the length
  \<open>cl i\<close> and returned when it had the length \<open>rl i\<close>; it was answered by the entry \<open>ans i\<close>, and \<open>first i\<close> tells whether that was its only attempt.
  A put carries a version that the key had reached at the call.
\<close>

definition executed :: "kv_req list \<Rightarrow> (nat \<Rightarrow> nat) \<Rightarrow> clerk_op list \<Rightarrow> (nat \<Rightarrow> nat) \<Rightarrow> (nat \<Rightarrow> nat) \<Rightarrow> (nat \<Rightarrow> nat) \<Rightarrow> (nat \<Rightarrow> bool) \<Rightarrow> bool" where
  "executed L own ops cl rl ans first \<longleftrightarrow>
     (\<forall>k < length L. own k < length ops \<and> L ! k = kv_cmd (co_req (ops ! own k)) \<and> cl (own k) \<le> k)
     \<and> (\<forall>i < length ops. ans i < length L \<and> ans i < rl i \<and> own (ans i) = i \<and> (first i \<longrightarrow> (\<forall>k < length L. own k = i \<longrightarrow> k = ans i))
          \<and> (\<exists>io ret. clerk_record (first i) (co_req (ops ! i)) (snd (serve_req (at_log L (ans i)) (L ! ans i))) = Some io
               \<and> co_result (ops ! i) = Some (io, ret)))
     \<and> (\<forall>i < length ops. \<forall>j < length ops. op_Return (operation (ops ! i)) < co_call (ops ! j) \<longrightarrow> rl i \<le> cl j)
     \<and> (\<forall>i < length ops. \<forall>a. co_req (ops ! i) = KvModel.ReqPut a \<longrightarrow> unat (put_Version a) \<le> nput L (put_Key a) (cl i))"

section \<open>Linearization points\<close>

text \<open>Position \<open>p\<close> is where operation \<open>i\<close> takes effect: within its call, at one of its attempts, at the only one that changes the store if
  there is one, and the model makes the same step there.\<close>

definition lin_point :: "kv_req list \<Rightarrow> (nat \<Rightarrow> nat) \<Rightarrow> clerk_op list \<Rightarrow> (nat \<Rightarrow> nat) \<Rightarrow> (nat \<Rightarrow> nat) \<Rightarrow> nat \<Rightarrow> nat \<Rightarrow> bool" where
  "lin_point L own ops cl rl i p \<longleftrightarrow> cl i \<le> p \<and> p < rl i \<and> p < length L \<and> own p = i
     \<and> (\<forall>key k. k < length L \<and> own k = i \<and> effective L key k \<longrightarrow> k = p)
     \<and> (let v = operation (ops ! i); key = request_key (co_req (ops ! i))
        in in_Key (op_Input v) = key
           \<and> KvModel_Step (model_of (at_log L p) key) (op_Input v) (op_Output v) = (True, Some (model_of (at_log L (Suc p)) key)))"

lemma kv_cmd_eq [simp]: "kv_cmd r = KvRaft.ReqPut a \<longleftrightarrow> r = KvModel.ReqPut a" "kv_cmd r = KvRaft.ReqGet g \<longleftrightarrow> r = KvModel.ReqGet g"
  "KvRaft.ReqPut a = kv_cmd r \<longleftrightarrow> r = KvModel.ReqPut a"
  by (cases r; auto)+

lemma executedD:
  assumes "executed L own ops cl rl ans first"
  shows "k < length L \<Longrightarrow> own k < length ops" "k < length L \<Longrightarrow> L ! k = kv_cmd (co_req (ops ! own k))" "k < length L \<Longrightarrow> cl (own k) \<le> k"
    "i < length ops \<Longrightarrow> ans i < length L" "i < length ops \<Longrightarrow> ans i < rl i" "i < length ops \<Longrightarrow> own (ans i) = i"
    "i < length ops \<Longrightarrow> first i \<Longrightarrow> k < length L \<Longrightarrow> own k = i \<Longrightarrow> k = ans i"
    "i < length ops \<Longrightarrow> \<exists>io ret. clerk_record (first i) (co_req (ops ! i)) (snd (serve_req (at_log L (ans i)) (L ! ans i))) = Some io
       \<and> co_result (ops ! i) = Some (io, ret)"
    "i < length ops \<Longrightarrow> j < length ops \<Longrightarrow> op_Return (operation (ops ! i)) < co_call (ops ! j) \<Longrightarrow> rl i \<le> cl j"
    "i < length ops \<Longrightarrow> co_req (ops ! i) = KvModel.ReqPut a \<Longrightarrow> unat (put_Version a) \<le> nput L (put_Key a) (cl i)"
  using assms unfolding executed_def by blast+

lemma effective_own:
  assumes "executed L own ops cl rl ans first" "k < length L" "effective L key k"
  obtains a where "co_req (ops ! own k) = KvModel.ReqPut a" "put_Key a = key" "L ! k = KvRaft.ReqPut a"
  using executedD(2) [OF assms(1,2)] assms(3) by (auto simp: effective_def)

lemma get_point:
  assumes ex: "executed L own ops cl rl ans first" and i: "i < length ops" and req: "co_req (ops ! i) = KvModel.ReqGet g"
  shows "lin_point L own ops cl rl i (ans i)"
proof -
  note X = executedD [OF ex]
  note a = X(4-6) [OF i]
  have cl: "cl (own (ans i)) \<le> ans i" and L: "L ! ans i = KvRaft.ReqGet g" using X(2,3) [OF a(1)] a(3) req by simp_all
  from X(8) [OF i] L req obtain ret where res: "co_result (ops ! i) = Some (record_Get g (KVServer_get (at_log L (ans i)) g), ret)" by auto
  have "\<not> effective L key k" if "k < length L" "own k = i" for key k
  proof
    assume "effective L key k"
    from effective_own [OF ex that(1) this] that(2) req show False by auto
  qed
  moreover have "at_log L (Suc (ans i)) = at_log L (ans i)" using at_log_Suc [OF a(1)] L by simp
  ultimately show ?thesis using a cl res req model_step_get [of "at_log L (ans i)" g]
    by (auto simp: lin_point_def operation_def record_Get_def)
qed

lemma put_point:
  assumes ex: "executed L own ops cl rl ans first" and i: "i < length ops" and req: "co_req (ops ! i) = KvModel.ReqPut a"
    and len: "length L < 2 ^ 64"
  shows "\<exists>p. lin_point L own ops cl rl i p"
proof -
  let ?key = "put_Key a" and ?v = "unat (put_Version a)" and ?e = "putr_Err (snd (KVServer_put (at_log L (ans i)) a))"
  have own: "L ! k = KvRaft.ReqPut a" "cl i \<le> k" if "k < length L" "own k = i" for k
    using executedD(2,3) [OF ex that(1)] that(2) req by simp_all
  note an = executedD(4-6) [OF ex i] and one = executedD(7) [OF ex i] and known = executedD(10) [OF ex i req]
  from executedD(8) [OF ex i] own(1) [OF an(1,3)] req
  obtain ret where res: "co_result (ops ! i) = Some (record_Put a (Clerk_Put_verdict (first i) ?e), ret)" by (auto simp: split_beta Let_def)
  have eff: "effective L key k \<longleftrightarrow> key = ?key \<and> nput L ?key k = ?v" if "k < length L" "own k = i" for key k
    using effective_iff [OF that(1) len own(1) [OF that]] own(1) [OF that] by (auto simp: effective_def)
  have low: "?v \<le> nput L ?key k" if "k < length L" "own k = i" for k
    using known nput_mono [OF own(2) [OF that], of L ?key] by linarith
  have reply: "?e = (if effective L ?key (ans i) then OK else ErrVersion)"
  proof -
    have "store (at_log L (ans i)) ?key \<noteq> None" if "\<not> effective L ?key (ans i)"
    proof
      assume "store (at_log L (ans i)) ?key = None"
      with no_key_nput [of "ans i" L ?key] an(1) len have "nput L ?key (ans i) = 0" by simp
      with low [OF an(1,3)] eff [OF an(1,3), of ?key] that show False by simp
    qed
    moreover have "effective L ?key (ans i) \<longleftrightarrow> st_Version (model_of (at_log L (ans i)) ?key) = put_Version a"
      using own(1) [OF an(1,3)] by (simp add: effective_def)
    ultimately show ?thesis by (auto simp: put_errs)
  qed
  define p where "p = (if \<exists>k < length L. own k = i \<and> effective L ?key k then (SOME k. k < length L \<and> own k = i \<and> effective L ?key k) else ans i)"
  have p: "p < length L" "own p = i" "(\<exists>k < length L. own k = i \<and> effective L ?key k) \<Longrightarrow> effective L ?key p"
    using someI_ex [of "\<lambda>k. k < length L \<and> own k = i \<and> effective L ?key k"] an unfolding p_def by (auto split: if_splits)
  have after: "\<not> effective L ?key k" if "k < length L" "own k = i" "effective L ?key p" "p < k" for k
    using eff [OF that(1,2), of ?key] eff [OF p(1,2), of ?key] that(3,4) nput_mono [of "Suc p" k L ?key] by (auto simp: nput_Suc)
  have only: "k = p" if k: "k < length L" "own k = i" "effective L key k" for key k
  proof -
    from eff [OF k(1,2)] k(3) have key: "key = ?key" by simp
    with k p(3) have e: "effective L ?key p" by blast
    show ?thesis
    proof (rule ccontr)
      assume "k \<noteq> p"
      then consider "p < k" | "k < p" by linarith
      then show False
      proof cases
        case 1
        from after [OF k(1,2) e 1] k(3) key show False by simp
      next
        case 2
        from eff [OF k(1,2), of ?key] eff [OF p(1,2), of ?key] k(3) key e nput_mono [of "Suc k" p L ?key] 2 show False by (simp add: nput_Suc)
      qed
    qed
  qed
  have before: "p \<le> ans i"
  proof (rule ccontr)
    assume "\<not> p \<le> ans i"
    then have "p \<noteq> ans i" "ans i < p" by simp_all
    then have e: "effective L ?key p" using p(3) by (metis p_def)
    then have "\<not> effective L ?key (ans i)" using only [OF an(1,3)] \<open>p \<noteq> ans i\<close> by blast
    with eff [OF an(1,3), of ?key] low [OF an(1,3)] have "?v < nput L ?key (ans i)" by simp
    with nput_mono [of "ans i" p L ?key] \<open>ans i < p\<close> eff [OF p(1,2), of ?key] e show False by simp
  qed
  have verdict: "Clerk_Put_verdict (first i) ?e \<in> (if effective L ?key p then {OK, ErrMaybe} else {ErrVersion, ErrMaybe})"
  proof (cases "effective L ?key p")
    case True
    show ?thesis
    proof (cases "p = ans i")
      case False
      then have "\<not> first i" using one [OF _ p(1,2)] by blast
      moreover have "\<not> effective L ?key (ans i)" using only [OF an(1,3)] False by blast
      ultimately show ?thesis using True reply by (simp add: Clerk_Put_verdict_def)
    qed (use True reply in \<open>simp add: Clerk_Put_verdict_def\<close>)
  next
    case False
    then have "\<not> effective L ?key (ans i)" using p(3) an by blast
    with False reply show ?thesis by (simp add: Clerk_Put_verdict_def)
  qed
  have "KvModel_Step (model_of (at_log L p) ?key) (fst (record_Put a e)) (snd (record_Put a e)) = (True, Some (model_of (at_log L (Suc p)) ?key))"
    if "e \<in> (if effective L ?key p then {OK, ErrMaybe} else {ErrVersion, ErrMaybe})" for e
    using that own(1) [OF p(1,2)] model_Suc [OF p(1), of ?key]
    by (auto simp: KvModel_Step_def record_Put_def effective_def split: if_splits)
  note step = this [OF verdict]
  have all: "\<forall>key k. k < length L \<and> own k = i \<and> effective L key k \<longrightarrow> k = p" using only by blast
  have op: "op_Input (operation (ops ! i)) = fst (record_Put a (Clerk_Put_verdict (first i) ?e))"
    "op_Output (operation (ops ! i)) = snd (record_Put a (Clerk_Put_verdict (first i) ?e))" by (simp_all add: operation_def res record_Put_def)
  have "in_Key (fst (record_Put a (Clerk_Put_verdict (first i) ?e))) = ?key" by (simp add: record_Put_def)
  then have "lin_point L own ops cl rl i p"
    unfolding lin_point_def Let_def op req request_key.simps using own(2) [OF p(1,2)] before an(2) p(1,2) all step by simp
  then show ?thesis by blast
qed

lemma lin_point_exists:
  assumes "executed L own ops cl rl ans first" "i < length ops" "length L < 2 ^ 64"
  shows "\<exists>p. lin_point L own ops cl rl i p"
  using get_point [OF assms(1,2)] put_point [OF assms(1,2) _ assms(3)] by (cases "co_req (ops ! i)") blast+

section \<open>The order of the operations\<close>

lemma replay_log:
  assumes pt: "\<And>i. i < length ops \<Longrightarrow> lin_point L own ops cl rl i (lp i)" and own: "\<And>k. k < length L \<Longrightarrow> own k < length ops"
    and cmd: "\<And>k. k < length L \<Longrightarrow> L ! k = kv_cmd (co_req (ops ! own k))" and m: "m \<le> length L"
  shows "KvModel_accepts (model_of (at_log L m) key)
    (on_key key (map (\<lambda>k. (op_Input (operation (ops ! own k)), op_Output (operation (ops ! own k)))) (filter (\<lambda>k. lp (own k) = k) [m..<length L])))"
  using m
proof (induction m rule: inc_induct)
  case base
  then show ?case by simp
next
  case (step m)
  let ?i = "own m"
  note P = pt [OF own [OF step.hyps(2)]]
  have up: "[m..<length L] = m # [Suc m..<length L]" using step.hyps(2) by (simp add: upt_conv_Cons)
  have quiet: "model_of (at_log L (Suc m)) key = model_of (at_log L m) key" if "lp ?i \<noteq> m \<or> request_key (co_req (ops ! ?i)) \<noteq> key"
  proof (rule model_same [OF step.hyps(2)])
    show "\<not> effective L key m"
    proof
      assume e: "effective L key m"
      with P step.hyps(2) have "m = lp ?i" by (simp add: lin_point_def)
      moreover from e cmd [OF step.hyps(2)] have "request_key (co_req (ops ! ?i)) = key" by (auto simp: effective_def)
      ultimately show False using that by simp
    qed
  qed
  show ?case
  proof (cases "lp ?i = m")
    case False
    with quiet step.IH show ?thesis by (simp add: up)
  next
    case True
    then have st: "in_Key (op_Input (operation (ops ! ?i))) = request_key (co_req (ops ! ?i))"
      "KvModel_Step (model_of (at_log L m) (request_key (co_req (ops ! ?i)))) (op_Input (operation (ops ! ?i))) (op_Output (operation (ops ! ?i)))
        = (True, Some (model_of (at_log L (Suc m)) (request_key (co_req (ops ! ?i)))))" using P by (auto simp: lin_point_def Let_def)
    show ?thesis
    proof (cases "request_key (co_req (ops ! ?i)) = key")
      case True
      with st step.IH \<open>lp ?i = m\<close> show ?thesis by (simp add: up)
    next
      case False
      with st(1) quiet step.IH \<open>lp ?i = m\<close> show ?thesis by (simp add: up)
    qed
  qed
qed

lemma executed_linearizable:
  assumes ex: "executed L own ops cl rl ans first" and len: "length L < 2 ^ 64"
  shows "linearizable_parts (map operation ops)"
proof -
  have "\<forall>i. \<exists>p. i < length ops \<longrightarrow> lin_point L own ops cl rl i p" using lin_point_exists [OF ex _ len] by blast
  from choice [OF this] obtain lp where pt: "\<And>i. i < length ops \<Longrightarrow> lin_point L own ops cl rl i (lp i)" by blast
  note own = executedD(1) [OF ex] and P = pt [unfolded lin_point_def]
  let ?ks = "filter (\<lambda>k. lp (own k) = k) [0..<length L]"
  let ?h = "map (\<lambda>k. operation (ops ! own k)) ?ks"
  have inj: "inj_on own (set ?ks)" by (rule inj_onI) (metis (mono_tags, lifting) filter_set mem_Collect_eq set_filter)
  have "set (map own ?ks) = {0..<length ops}"
  proof
    show "set (map own ?ks) \<subseteq> {0..<length ops}" using own by auto
    show "{0..<length ops} \<subseteq> set (map own ?ks)"
    proof
      fix i assume "i \<in> {0..<length ops}"
      then have "lp i < length L" "own (lp i) = i" using P [of i] by simp_all
      then show "i \<in> set (map own ?ks)" by (auto intro!: image_eqI [of _ _ "lp i"])
    qed
  qed
  moreover have "distinct (map own ?ks)" using inj by (simp add: distinct_map)
  ultimately have "mset (map own ?ks) = mset [0..<length ops]" by (metis atLeastLessThan_upt distinct_upt set_eq_iff_mset_eq_distinct)
  then have "image_mset (\<lambda>i. operation (ops ! i)) (mset (map own ?ks)) = image_mset (\<lambda>i. operation (ops ! i)) (mset [0..<length ops])" by simp
  moreover have "map operation ops = map (\<lambda>i. operation (ops ! i)) [0..<length ops]" by (rule nth_equalityI) simp_all
  ultimately have "mset ?h = mset (map operation ops)" by (simp add: image_mset.compositionality comp_def)
  moreover have "sorted_wrt (\<lambda>a b. \<not> op_Return b < op_Call a) ?h"
    unfolding sorted_wrt_map
  proof (rule sorted_wrt_mono_rel [OF _ sorted_wrt_filter [OF strict_sorted_iff [THEN iffD2]]])
    fix k k' assume k: "k \<in> set ?ks" "k' \<in> set ?ks" "k < k'"
    then have o: "own k < length ops" "own k' < length ops" "lp (own k) = k" "lp (own k') = k'" using own by auto
    show "\<not> op_Return (operation (ops ! own k')) < op_Call (operation (ops ! own k))"
    proof
      assume "op_Return (operation (ops ! own k')) < op_Call (operation (ops ! own k))"
      then have "op_Return (operation (ops ! own k')) < co_call (ops ! own k)" by (simp add: operation_def split_beta Let_def)
      from executedD(9) [OF ex o(2,1) this] P [OF o(1)] P [OF o(2)] o(3,4) k(3) show False by simp
    qed
  qed simp
  moreover have "KvModel_accepts KvModel_Init (on_key key (map (\<lambda>v. (op_Input v, op_Output v)) ?h))" for key
    using replay_log [OF pt own executedD(2) [OF ex], of 0 key] by (simp add: comp_def model_of_def MakeKVServer_def)
  ultimately show ?thesis by (rule linearizable_parts_order)
qed

end
