(* ===== verification/GoFmt.thy ===== *)
theory GoFmt
  imports Prelude
begin

text \<open>
  What the tests use of Go's \<^verbatim>\<open>fmt\<close>, \<^verbatim>\<open>strconv\<close> and \<^verbatim>\<open>encoding/json\<close>: numbers and slices of numbers in decimal, and the JSON text of
  the small records that \<^verbatim>\<open>kvtest1/kvtest.go\<close> stores in the key/value service.  Reading back what was written is the identity.
\<close>

section \<open>Decimal numbers\<close>

fun fmt_nat :: "nat \<Rightarrow> string" where
  "fmt_nat n = (if n < 10 then [char_of (48 + n)] else fmt_nat (n div 10) @ [char_of (48 + n mod 10)])"

declare fmt_nat.simps [simp del]

definition fmt_int :: "int \<Rightarrow> string" where
  "fmt_int i = (if i < 0 then ''-'' @ fmt_nat (nat (- i)) else fmt_nat (nat i))"

fun fmt_seq :: "int list \<Rightarrow> string" where
  "fmt_seq [] = []"
| "fmt_seq [i] = fmt_int i"
| "fmt_seq (i # is) = fmt_int i @ '' '' @ fmt_seq is"

definition fmt_ints :: "int list \<Rightarrow> string" where
  "fmt_ints is = ''['' @ fmt_seq is @ '']''"

definition is_digit :: "char \<Rightarrow> bool" where
  "is_digit c \<longleftrightarrow> 48 \<le> (of_char c :: nat) \<and> (of_char c :: nat) \<le> 57"

definition digits_value :: "string \<Rightarrow> nat" where
  "digits_value ds = foldl (\<lambda>v c. 10 * v + (of_char c - 48)) 0 ds"

lemma digit_char: "d < 10 \<Longrightarrow> is_digit (char_of (48 + d)) \<and> (of_char (char_of (48 + d) :: char) :: nat) = 48 + d"
  by (simp add: is_digit_def)

lemma fmt_nat_digits: "(\<forall>c \<in> set (fmt_nat n). is_digit c) \<and> fmt_nat n \<noteq> [] \<and> digits_value (fmt_nat n) = n"
proof (induction n rule: fmt_nat.induct)
  case (1 n)
  show ?case
  proof (cases "n < 10")
    case True
    then show ?thesis using digit_char [of n] by (simp add: fmt_nat.simps [of n] digits_value_def)
  next
    case False
    with 1 have IH: "\<forall>c \<in> set (fmt_nat (n div 10)). is_digit c" "digits_value (fmt_nat (n div 10)) = n div 10" by auto
    with False digit_char [of "n mod 10"] show ?thesis
      by (auto simp: fmt_nat.simps [of n] digits_value_def)
  qed
qed

lemma fmt_nat_inject: "fmt_nat m = fmt_nat n \<longleftrightarrow> m = n"
  using fmt_nat_digits by metis

section \<open>Reading\<close>

definition parse_nat :: "string \<Rightarrow> (nat \<times> string) option" where
  "parse_nat s = (let ds = takeWhile is_digit s in if ds = [] then None else Some (digits_value ds, drop (length ds) s))"

definition parse_int :: "string \<Rightarrow> (int \<times> string) option" where
  "parse_int s =
     (if take 1 s = ''-'' then map_option (\<lambda>(n, r). (- int n, r)) (parse_nat (drop 1 s))
      else map_option (\<lambda>(n, r). (int n, r)) (parse_nat s))"

definition stops :: "string \<Rightarrow> bool" where
  "stops s \<longleftrightarrow> (case s of [] \<Rightarrow> True | c # _ \<Rightarrow> \<not> is_digit c)"

lemma takeWhile_digits: "(\<forall>c \<in> set ds. is_digit c) \<Longrightarrow> stops s \<Longrightarrow> takeWhile is_digit (ds @ s) = ds"
  by (induction ds) (auto simp: stops_def split: list.splits)

lemma parse_fmt_nat: "stops s \<Longrightarrow> parse_nat (fmt_nat n @ s) = Some (n, s)"
  using fmt_nat_digits [of n] takeWhile_digits [of "fmt_nat n" s] by (simp add: parse_nat_def Let_def)

lemma parse_fmt_int:
  assumes "stops s" shows "parse_int (fmt_int i @ s) = Some (i, s)"
proof (cases "i < 0")
  case True
  then show ?thesis using parse_fmt_nat [OF assms, of "nat (- i)"] by (simp add: fmt_int_def parse_int_def)
next
  case False
  obtain c cs where c: "fmt_nat (nat i) = c # cs" "is_digit c" using fmt_nat_digits [of "nat i"] by (cases "fmt_nat (nat i)") auto
  then have "c \<noteq> CHR ''-''" by (auto simp: is_digit_def)
  then have "parse_int (fmt_nat (nat i) @ s) = map_option (\<lambda>(n, r). (int n, r)) (parse_nat (fmt_nat (nat i) @ s))"
    by (simp add: c(1) parse_int_def)
  with False parse_fmt_nat [OF assms, of "nat i"] show ?thesis by (simp add: fmt_int_def)
qed

section \<open>JSON\<close>

text \<open>Records with two integer fields, and slices of them, as \<^verbatim>\<open>json.Marshal\<close> writes them.\<close>

definition strip :: "string \<Rightarrow> string \<Rightarrow> string option" where
  "strip pre s = (if take (length pre) s = pre then Some (drop (length pre) s) else None)"

lemma strip_app [simp]: "strip pre (pre @ s) = Some s"
  by (simp add: strip_def)

definition quoted :: "string \<Rightarrow> string" where
  "quoted f = [CHR 0x22] @ f @ [CHR 0x22]"

definition marshal_pair :: "string \<Rightarrow> string \<Rightarrow> int \<times> int \<Rightarrow> string" where
  "marshal_pair f g p = (''{'' @ quoted f @ '':'') @ fmt_int (fst p) @ ('','' @ quoted g @ '':'') @ fmt_int (snd p) @ ''}''"

definition unmarshal_pair :: "string \<Rightarrow> string \<Rightarrow> string \<Rightarrow> ((int \<times> int) \<times> string) option" where
  "unmarshal_pair f g s = do {
     s \<leftarrow> strip (''{'' @ quoted f @ '':'') s;
     (a, s) \<leftarrow> parse_int s;
     s \<leftarrow> strip ('','' @ quoted g @ '':'') s;
     (b, s) \<leftarrow> parse_int s;
     s \<leftarrow> strip ''}'' s;
     Some ((a, b), s)
   }"

fun marshal_items :: "string \<Rightarrow> string \<Rightarrow> (int \<times> int) list \<Rightarrow> string" where
  "marshal_items f g [] = '']''"
| "marshal_items f g (p # ps) = '','' @ marshal_pair f g p @ marshal_items f g ps"

definition marshal_pairs :: "string \<Rightarrow> string \<Rightarrow> (int \<times> int) list \<Rightarrow> string" where
  "marshal_pairs f g ps = (case ps of [] \<Rightarrow> ''[]'' | p # ps \<Rightarrow> ''['' @ marshal_pair f g p @ marshal_items f g ps)"

fun unmarshal_items :: "nat \<Rightarrow> string \<Rightarrow> string \<Rightarrow> string \<Rightarrow> (int \<times> int) list option" where
  "unmarshal_items 0 f g s = None"
| "unmarshal_items (Suc n) f g s =
     (if s = '']'' then Some []
      else do { s \<leftarrow> strip '','' s; (p, s) \<leftarrow> unmarshal_pair f g s; ps \<leftarrow> unmarshal_items n f g s; Some (p # ps) })"

definition unmarshal_pairs :: "string \<Rightarrow> string \<Rightarrow> string \<Rightarrow> (int \<times> int) list option" where
  "unmarshal_pairs f g s =
     (if s = ''[]'' then Some []
      else do { s \<leftarrow> strip ''['' s; (p, s) \<leftarrow> unmarshal_pair f g s; ps \<leftarrow> unmarshal_items (Suc (length s)) f g s; Some (p # ps) })"

lemma unmarshal_marshal_pair: "unmarshal_pair f g (marshal_pair f g p @ s) = Some (p, s)"
proof -
  have "stops (('','' @ quoted g @ '':'') @ x)" "stops (''}'' @ x)" for x by (simp_all add: stops_def is_digit_def)
  then show ?thesis
    unfolding unmarshal_pair_def marshal_pair_def append_assoc [symmetric, of "''{'' @ quoted f @ '':''"]
    using parse_fmt_int strip_app [of "''{'' @ quoted f @ '':''"] strip_app [of "'','' @ quoted g @ '':''"] strip_app [of "''}''"]
    by simp
qed

lemma unmarshal_marshal_items:
  "length (marshal_items f g ps) < n \<Longrightarrow> unmarshal_items n f g (marshal_items f g ps) = Some ps"
proof (induction ps arbitrary: n)
  case Nil
  then obtain m where "n = Suc m" by (cases n) auto
  then show ?case by simp
next
  case (Cons p ps)
  then obtain m where m: "n = Suc m" "length (marshal_items f g ps) < m" by (cases n) auto
  have "strip '','' (marshal_items f g (p # ps)) = Some (marshal_pair f g p @ marshal_items f g ps)"
    using strip_app [of "'',''" "marshal_pair f g p @ marshal_items f g ps"] by simp
  moreover have "marshal_items f g (p # ps) \<noteq> '']''" by simp
  ultimately show ?case
    using m Cons.IH [OF m(2)] unmarshal_marshal_pair [of f g p "marshal_items f g ps"] by simp
qed

text \<open>Reading back the JSON text that was written for a slice of records gives the slice.\<close>

lemma unmarshal_marshal_pairs: "unmarshal_pairs f g (marshal_pairs f g ps) = Some ps"
proof (cases ps)
  case Nil
  then show ?thesis by (simp add: marshal_pairs_def unmarshal_pairs_def)
next
  case (Cons p qs)
  let ?s = "marshal_pairs f g ps"
  have s: "?s = ''['' @ marshal_pair f g p @ marshal_items f g qs" by (simp add: marshal_pairs_def Cons)
  have "?s \<noteq> ''[]''" by (simp add: s marshal_pair_def)
  moreover have "strip ''['' ?s = Some (marshal_pair f g p @ marshal_items f g qs)"
    unfolding s by (rule strip_app)
  ultimately show ?thesis
    using unmarshal_marshal_pair [of f g p "marshal_items f g qs"] unmarshal_marshal_items [of f g qs, OF lessI]
    by (simp add: unmarshal_pairs_def Cons)
qed

end
