(* ===== verification/Annotation.thy ===== *)
theory Annotation
  imports GoFmt
begin

text \<open>
  The record of what happens in a test that \<^verbatim>\<open>tester1/annotation.go\<close> keeps for the visualizer: points, intervals and
  continuous annotations, and the framework's view of which servers are connected and crashed.  The two global
  variables are one state that every operation takes and returns; clock readings are arguments, a map's iteration
  order is an argument, and a nil \<open>finfo\<close> or an index out of range is a panic, \<open>None\<close>.
  Opening the file and drawing are left out: what would be drawn is returned.
\<close>

section \<open>State\<close>

record PAnnotation =
  pa_Tag :: string
  pa_Start :: int
  pa_End :: int
  pa_Description :: string
  pa_Details :: string
  pa_BackgroundColor :: string

record Continuous =
  co_start :: int
  co_desp :: string
  co_details :: string
  co_bgcolor :: string

record Annotation =
  an_annotations :: "PAnnotation list"
  an_continuous :: "string \<rightharpoonup> Continuous"
  an_finalized :: bool

record CheckerBegin =
  cb_ts :: int
  cb_details :: string

record FrameworkInfo =
  fi_nservers :: int
  fi_connected :: "bool list"
  fi_crashed :: "bool list"
  fi_ckbegin :: CheckerBegin

record astate =
  annotation :: Annotation
  finfo :: "FrameworkInfo option"

definition COLOR_INFO :: string where "COLOR_INFO = ''#FAFAFA''"
definition COLOR_NEUTRAL :: string where "COLOR_NEUTRAL = ''#FFECB3''"
definition COLOR_SUCCESS :: string where "COLOR_SUCCESS = ''#C8E6C9''"
definition COLOR_FAILURE :: string where "COLOR_FAILURE = ''#FFCDD2''"
definition COLOR_FAULT :: string where "COLOR_FAULT = ''#B3E5FC''"
definition COLOR_USER :: string where "COLOR_USER = ''#FFF176''"
definition TAG_CHECKER :: string where "TAG_CHECKER = ''$ Checker''"
definition TAG_PARTITION :: string where "TAG_PARTITION = ''$ Failure''"
definition TAG_INFO :: string where "TAG_INFO = ''$ Test Info''"

definition mkAnnotation :: Annotation where
  "mkAnnotation = \<lparr>an_annotations = [], an_continuous = Map.empty, an_finalized = False\<rparr>"

definition mkFrameworkInfo :: "int \<Rightarrow> FrameworkInfo option" where
  "mkFrameworkInfo nservers = do {
     conn \<leftarrow> go_make nservers True;
     crashed \<leftarrow> go_make nservers False;
     Some \<lparr>fi_nservers = nservers, fi_connected = conn, fi_crashed = crashed, fi_ckbegin = \<lparr>cb_ts = 0, cb_details = []\<rparr>\<rparr>
   }"

definition astate_init :: astate where
  "astate_init = \<lparr>annotation = mkAnnotation, finfo = None\<rparr>"

section \<open>Points, intervals and continuous annotations\<close>

definition annotatePointColor :: "Annotation \<Rightarrow> string \<Rightarrow> string \<Rightarrow> string \<Rightarrow> string \<Rightarrow> int \<Rightarrow> Annotation" where
  "annotatePointColor an tag desp details bgcolor t =
     an\<lparr>an_annotations := an_annotations an @ [\<lparr>pa_Tag = tag, pa_Start = t, pa_End = 0, pa_Description = desp,
        pa_Details = details, pa_BackgroundColor = bgcolor\<rparr>]\<rparr>"

definition annotateIntervalColor :: "Annotation \<Rightarrow> string \<Rightarrow> int \<Rightarrow> string \<Rightarrow> string \<Rightarrow> string \<Rightarrow> int \<Rightarrow> Annotation" where
  "annotateIntervalColor an tag start desp details bgcolor t =
     an\<lparr>an_annotations := an_annotations an @ [\<lparr>pa_Tag = tag, pa_Start = start, pa_End = t, pa_Description = desp,
        pa_Details = details, pa_BackgroundColor = bgcolor\<rparr>]\<rparr>"

text \<open>The interval a continuous annotation has become at time \<open>t\<close>.\<close>

definition concretize :: "string \<Rightarrow> Continuous \<Rightarrow> int \<Rightarrow> PAnnotation" where
  "concretize tag cont t = \<lparr>pa_Tag = tag, pa_Start = co_start cont, pa_End = t, pa_Description = co_desp cont,
     pa_Details = co_details cont, pa_BackgroundColor = co_bgcolor cont\<rparr>"

definition annotateContinuousColor :: "Annotation \<Rightarrow> string \<Rightarrow> string \<Rightarrow> string \<Rightarrow> string \<Rightarrow> int \<Rightarrow> Annotation" where
  "annotateContinuousColor an tag desp details bgcolor t =
     (let new = \<lparr>co_start = t, co_desp = desp, co_details = details, co_bgcolor = bgcolor\<rparr>
      in case an_continuous an tag of
           None \<Rightarrow> an\<lparr>an_continuous := (an_continuous an)(tag \<mapsto> new)\<rparr>
         | Some cont \<Rightarrow> an\<lparr>an_annotations := an_annotations an @ [concretize tag cont t],
                          an_continuous := (an_continuous an)(tag \<mapsto> new)\<rparr>)"

text \<open>A tag that is not in the map reads as the zero value, and the function goes on with it.\<close>

definition zeroContinuous :: Continuous where
  "zeroContinuous = \<lparr>co_start = 0, co_desp = [], co_details = [], co_bgcolor = []\<rparr>"

definition annotateContinuousEnd :: "Annotation \<Rightarrow> string \<Rightarrow> int \<Rightarrow> Annotation" where
  "annotateContinuousEnd an tag t =
     (let cont = (case an_continuous an tag of None \<Rightarrow> zeroContinuous | Some cont \<Rightarrow> cont)
      in an\<lparr>an_annotations := an_annotations an @ [concretize tag cont t],
            an_continuous := (an_continuous an)(tag := None)\<rparr>)"

definition finalize :: "Annotation \<Rightarrow> string list \<Rightarrow> int \<Rightarrow> Annotation \<times> PAnnotation list" where
  "finalize an order t =
     (an\<lparr>an_finalized := True\<rparr>,
      an_annotations an @ concat (map (\<lambda>tag. case an_continuous an tag of None \<Rightarrow> [] | Some cont \<Rightarrow> [concretize tag cont t]) order))"

definition clear :: "Annotation \<Rightarrow> Annotation" where
  "clear an = an\<lparr>an_annotations := [], an_continuous := Map.empty, an_finalized := False\<rparr>"

definition endAnnotation :: "string \<Rightarrow> int \<Rightarrow> PAnnotation" where
  "endAnnotation end t = \<lparr>pa_Tag = TAG_INFO, pa_Start = t, pa_End = 0, pa_Description = end, pa_Details = end,
     pa_BackgroundColor = COLOR_INFO\<rparr>"

definition FinalizeAnnotations :: "string \<Rightarrow> string list \<Rightarrow> int \<Rightarrow> int \<Rightarrow> astate \<Rightarrow> astate \<times> PAnnotation list" where
  "FinalizeAnnotations end order t t' st =
     (let (an, as) = finalize (annotation st) order t in (st\<lparr>annotation := an\<rparr>, as @ [endAnnotation end t']))"

text \<open>What a test leaves when it ends: the annotations to draw, if any are drawn.  \<open>enabled\<close> is the environment variable
  \<^verbatim>\<open>VIS_ENABLE\<close>, \<open>opened\<close> whether the file could be opened.\<close>

definition cleanup :: "bool \<Rightarrow> string \<Rightarrow> string \<Rightarrow> bool \<Rightarrow> string list \<Rightarrow> int \<Rightarrow> int \<Rightarrow> Annotation \<Rightarrow> Annotation \<times> PAnnotation list option" where
  "cleanup failed end enabled opened order t t' an =
     (if enabled = ''never'' \<or> (\<not> failed \<and> enabled \<noteq> ''always'') \<or> an_finalized an then (clear an, None)
      else let (an, as) = finalize an order t
           in if as = [] then (an, None) else if opened then (an, Some (as @ [endAnnotation end t'])) else (an, None))"

section \<open>The exported operations\<close>

definition AnnotatePointColor :: "string \<Rightarrow> string \<Rightarrow> string \<Rightarrow> string \<Rightarrow> int \<Rightarrow> astate \<Rightarrow> astate" where
  "AnnotatePointColor tag desp details bgcolor t st = st\<lparr>annotation := annotatePointColor (annotation st) tag desp details bgcolor t\<rparr>"

definition AnnotateIntervalColor :: "string \<Rightarrow> int \<Rightarrow> string \<Rightarrow> string \<Rightarrow> string \<Rightarrow> int \<Rightarrow> astate \<Rightarrow> astate" where
  "AnnotateIntervalColor tag start desp details bgcolor t st =
     st\<lparr>annotation := annotateIntervalColor (annotation st) tag start desp details bgcolor t\<rparr>"

definition AnnotateContinuousColor :: "string \<Rightarrow> string \<Rightarrow> string \<Rightarrow> string \<Rightarrow> int \<Rightarrow> astate \<Rightarrow> astate" where
  "AnnotateContinuousColor tag desp details bgcolor t st =
     st\<lparr>annotation := annotateContinuousColor (annotation st) tag desp details bgcolor t\<rparr>"

definition AnnotateContinuousEnd :: "string \<Rightarrow> int \<Rightarrow> astate \<Rightarrow> astate" where
  "AnnotateContinuousEnd tag t st = st\<lparr>annotation := annotateContinuousEnd (annotation st) tag t\<rparr>"

definition Annotate :: "string \<Rightarrow> string \<Rightarrow> string \<Rightarrow> int \<Rightarrow> astate \<Rightarrow> astate" where
  "Annotate tag desp details t st = st\<lparr>annotation := annotatePointColor (annotation st) tag desp details COLOR_USER t\<rparr>"

definition AnnotateInterval :: "string \<Rightarrow> int \<Rightarrow> string \<Rightarrow> string \<Rightarrow> int \<Rightarrow> astate \<Rightarrow> astate" where
  "AnnotateInterval tag start desp details t st =
     st\<lparr>annotation := annotateIntervalColor (annotation st) tag start desp details COLOR_USER t\<rparr>"

definition AnnotateContinuous :: "string \<Rightarrow> string \<Rightarrow> string \<Rightarrow> int \<Rightarrow> astate \<Rightarrow> astate" where
  "AnnotateContinuous tag desp details t st =
     st\<lparr>annotation := annotateContinuousColor (annotation st) tag desp details COLOR_USER t\<rparr>"

definition AnnotateInfo :: "string \<Rightarrow> string \<Rightarrow> int \<Rightarrow> astate \<Rightarrow> astate" where
  "AnnotateInfo desp details = AnnotatePointColor TAG_INFO desp details COLOR_INFO"

definition AnnotateInfoInterval :: "int \<Rightarrow> string \<Rightarrow> string \<Rightarrow> int \<Rightarrow> astate \<Rightarrow> astate" where
  "AnnotateInfoInterval start desp details = AnnotateIntervalColor TAG_INFO start desp details COLOR_INFO"

section \<open>The framework's annotations\<close>

definition AnnotateTest :: "string \<Rightarrow> int \<Rightarrow> int \<Rightarrow> astate \<Rightarrow> astate option" where
  "AnnotateTest desp nservers t st = do {
     let details = desp @ '' ('' @ fmt_int nservers @ '' servers)'';
     fi \<leftarrow> mkFrameworkInfo nservers;
     let st = st\<lparr>finfo := Some fi, annotation := clear (annotation st)\<rparr>;
     Some (AnnotateInfo details details t st)
   }"

definition AnnotateCheckerBegin :: "string \<Rightarrow> int \<Rightarrow> astate \<Rightarrow> astate option" where
  "AnnotateCheckerBegin details t st = do {
     fi \<leftarrow> finfo st;
     Some (st\<lparr>finfo := Some (fi\<lparr>fi_ckbegin := \<lparr>cb_ts = t, cb_details = details\<rparr>\<rparr>)\<rparr>)
   }"

text \<open>The reset at the end assigns to a local copy of \<open>finfo.ckbegin\<close>: the state keeps the timestamp.\<close>

definition AnnotateCheckerEnd :: "string \<Rightarrow> string \<Rightarrow> string \<Rightarrow> int \<Rightarrow> astate \<Rightarrow> astate option" where
  "AnnotateCheckerEnd desp details color t st = do {
     fi \<leftarrow> finfo st;
     let ckbegin = fi_ckbegin fi;
     if cb_ts ckbegin = 0 then Some (AnnotatePointColor TAG_CHECKER desp details color t st)
     else Some (AnnotateIntervalColor TAG_CHECKER (cb_ts ckbegin) desp (cb_details ckbegin @ '': '' @ details) color t st)
   }"

definition AnnotateCheckerSuccess :: "string \<Rightarrow> string \<Rightarrow> int \<Rightarrow> astate \<Rightarrow> astate option" where
  "AnnotateCheckerSuccess desp details = AnnotateCheckerEnd desp details COLOR_SUCCESS"

definition AnnotateCheckerFailure :: "string \<Rightarrow> string \<Rightarrow> int \<Rightarrow> astate \<Rightarrow> astate option" where
  "AnnotateCheckerFailure desp details = AnnotateCheckerEnd desp details COLOR_FAILURE"

definition AnnotateCheckerNeutral :: "string \<Rightarrow> string \<Rightarrow> int \<Rightarrow> astate \<Rightarrow> astate option" where
  "AnnotateCheckerNeutral desp details = AnnotateCheckerEnd desp details COLOR_NEUTRAL"

definition SetAnnotationFinalized :: "astate \<Rightarrow> astate" where
  "SetAnnotationFinalized st = st\<lparr>annotation := (annotation st)\<lparr>an_finalized := True\<rparr>\<rparr>"

definition GetAnnotationFinalized :: "astate \<Rightarrow> bool" where
  "GetAnnotationFinalized st = an_finalized (annotation st)"

text \<open>The walk over the servers: the text so far, the connected servers and the crashed ones.\<close>

fun faultLoop :: "bool list \<Rightarrow> int \<Rightarrow> bool list \<Rightarrow> string \<Rightarrow> int list \<Rightarrow> int list \<Rightarrow> (string \<times> int list \<times> int list) option" where
  "faultLoop crashed sid [] text conn crashes = Some (text, conn, crashes)"
| "faultLoop crashed sid (connected # cs) text conn crashes = do {
     c \<leftarrow> go_nth crashed sid;
     if c then faultLoop crashed (sid + 1) cs text conn (crashes @ [sid])
     else if connected then faultLoop crashed (sid + 1) cs text (conn @ [sid]) crashes
     else faultLoop crashed (sid + 1) cs (text @ ''['' @ fmt_int sid @ ''] '') conn crashes
   }"

definition faultText :: "FrameworkInfo \<Rightarrow> string option" where
  "faultText fi = do {
     (text, conn, crashes) \<leftarrow> faultLoop (fi_crashed fi) 0 (fi_connected fi) ''partition = '' [] [];
     let text = (if length conn > 0 then text @ fmt_ints conn else text);
     Some (if length crashes > 0 then text @ '' / crash = '' @ fmt_ints crashes else text)
   }"

definition annotateFault :: "int \<Rightarrow> astate \<Rightarrow> astate option" where
  "annotateFault t st = do {
     fi \<leftarrow> finfo st;
     trues \<leftarrow> go_make (fi_nservers fi) True;
     falses \<leftarrow> go_make (fi_nservers fi) False;
     if trues = fi_connected fi \<and> falses = fi_crashed fi then Some (AnnotateContinuousEnd TAG_PARTITION t st)
     else do {
       text \<leftarrow> faultText fi;
       Some (AnnotateContinuousColor TAG_PARTITION text text COLOR_FAULT t st)
     }
   }"

definition AnnotateConnection :: "bool list \<Rightarrow> int \<Rightarrow> astate \<Rightarrow> astate option" where
  "AnnotateConnection connection t st = do {
     fi \<leftarrow> finfo st;
     if fi_connected fi = connection then Some st
     else annotateFault t (st\<lparr>finfo := Some (fi\<lparr>fi_connected := go_copy (fi_connected fi) connection\<rparr>)\<rparr>)
   }"

definition AnnotateTwoPartitions :: "int list \<Rightarrow> int list \<Rightarrow> int \<Rightarrow> astate \<Rightarrow> astate" where
  "AnnotateTwoPartitions p1 p2 t =
     (let text = ''partition = '' @ fmt_ints p1 @ '' '' @ fmt_ints p2
      in AnnotateContinuousColor TAG_PARTITION text text COLOR_FAULT t)"

definition AnnotateClearFailure :: "int \<Rightarrow> astate \<Rightarrow> astate option" where
  "AnnotateClearFailure t st = do {
     fi \<leftarrow> finfo st;
     Some (AnnotateContinuousEnd TAG_PARTITION t (st\<lparr>finfo := Some (fi\<lparr>fi_crashed := map (\<lambda>_. False) (fi_crashed fi),
        fi_connected := map (\<lambda>_. True) (fi_connected fi)\<rparr>)\<rparr>))
   }"

text \<open>The loops of \<open>AnnotateShutdown\<close> and \<open>AnnotateRestart\<close>: set the flag of each server, and note whether any changed.\<close>

fun markLoop :: "bool \<Rightarrow> int list \<Rightarrow> bool list \<Rightarrow> bool \<Rightarrow> (bool list \<times> bool) option" where
  "markLoop v [] crashed changed = Some (crashed, changed)"
| "markLoop v (sid # servers) crashed changed = do {
     c \<leftarrow> go_nth crashed sid;
     crashed' \<leftarrow> go_set crashed sid v;
     markLoop v servers crashed' (changed \<or> c \<noteq> v)
   }"

definition AnnotateShutdown :: "int list \<Rightarrow> int \<Rightarrow> astate \<Rightarrow> astate option" where
  "AnnotateShutdown servers t st = do {
     fi \<leftarrow> finfo st;
     (crashed, changed) \<leftarrow> markLoop True servers (fi_crashed fi) False;
     let st = st\<lparr>finfo := Some (fi\<lparr>fi_crashed := crashed\<rparr>)\<rparr>;
     if \<not> changed then Some st else annotateFault t st
   }"

definition AnnotateShutdownAll :: "int \<Rightarrow> astate \<Rightarrow> astate option" where
  "AnnotateShutdownAll t st = do { fi \<leftarrow> finfo st; AnnotateShutdown [0 .. fi_nservers fi - 1] t st }"

definition AnnotateRestart :: "int list \<Rightarrow> int \<Rightarrow> astate \<Rightarrow> astate option" where
  "AnnotateRestart servers t st = do {
     fi \<leftarrow> finfo st;
     (crashed, changed) \<leftarrow> markLoop False servers (fi_crashed fi) False;
     let st = st\<lparr>finfo := Some (fi\<lparr>fi_crashed := crashed\<rparr>)\<rparr>;
     if \<not> changed then Some st else annotateFault t st
   }"

definition AnnotateRestartAll :: "int \<Rightarrow> astate \<Rightarrow> astate option" where
  "AnnotateRestartAll t st = do { fi \<leftarrow> finfo st; AnnotateRestart [0 .. fi_nservers fi - 1] t st }"

definition AnnotateCheckerFailureBeforeExit :: "string \<Rightarrow> string \<Rightarrow> string \<Rightarrow> bool \<Rightarrow> string list \<Rightarrow> int \<Rightarrow> int \<Rightarrow> int \<Rightarrow> astate
    \<Rightarrow> (astate \<times> PAnnotation list option) option" where
  "AnnotateCheckerFailureBeforeExit desp details enabled opened order t t' t'' st = do {
     st \<leftarrow> AnnotateCheckerFailure desp details t st;
     let (an, drawn) = cleanup True ''test failed'' enabled opened order t' t'' (annotation st);
     Some (st\<lparr>annotation := an\<rparr>, drawn)
   }"

section \<open>The fault annotation shows the faults\<close>

definition no_fault :: "FrameworkInfo \<Rightarrow> bool" where
  "no_fault fi \<longleftrightarrow> (\<forall>c \<in> set (fi_connected fi). c) \<and> (\<forall>c \<in> set (fi_crashed fi). \<not> c)"

definition info_ok :: "FrameworkInfo \<Rightarrow> bool" where
  "info_ok fi \<longleftrightarrow> 0 \<le> fi_nservers fi \<and> int (length (fi_connected fi)) = fi_nservers fi \<and> int (length (fi_crashed fi)) = fi_nservers fi"

text \<open>The ongoing annotation under the failure tag is there exactly when some server is cut off or crashed, and
  describes which.\<close>

definition fault_shown :: "astate \<Rightarrow> bool" where
  "fault_shown st \<longleftrightarrow> (\<exists>fi. finfo st = Some fi \<and> info_ok fi \<and> map_option co_desp (an_continuous (annotation st) TAG_PARTITION)
     = (if no_fault fi then None else faultText fi))"

lemma faultLoop_total:
  "0 \<le> sid \<Longrightarrow> sid + int (length cs) \<le> int (length crashed) \<Longrightarrow> faultLoop crashed sid cs b conn crashes \<noteq> None"
  by (induction crashed sid cs b conn crashes rule: faultLoop.induct) (auto simp: go_simps)

lemma faultText_total: "info_ok fi \<Longrightarrow> \<exists>text. faultText fi = Some text"
  using faultLoop_total [of 0 "fi_connected fi" "fi_crashed fi" "''partition = ''" "[]" "[]"]
  by (auto simp: info_ok_def faultText_def Let_def)

lemma all_eq_replicate: "xs = replicate (length xs) v \<longleftrightarrow> (\<forall>x \<in> set xs. x = v)"
  by (metis in_set_replicate replicate_length_same)

lemma no_fault_iff:
  assumes "info_ok fi"
  shows "replicate (nat (fi_nservers fi)) True = fi_connected fi \<and> replicate (nat (fi_nservers fi)) False = fi_crashed fi \<longleftrightarrow> no_fault fi"
proof -
  have "nat (fi_nservers fi) = length (fi_connected fi)" "nat (fi_nservers fi) = length (fi_crashed fi)"
    using assms by (auto simp: info_ok_def)
  then show ?thesis
    using all_eq_replicate [of "fi_connected fi" True] all_eq_replicate [of "fi_crashed fi" False] by (auto simp: no_fault_def eq_commute)
qed

lemma continuous_end_sel [simp]:
  "an_continuous (annotateContinuousEnd an tag t) = (an_continuous an)(tag := None)"
  by (simp add: annotateContinuousEnd_def Let_def)

lemma continuous_color_sel [simp]:
  "map_option co_desp (an_continuous (annotateContinuousColor an tag desp details c t) tag) = Some desp"
  by (simp add: annotateContinuousColor_def Let_def split: option.splits)

lemma annotateFault_shows:
  assumes "finfo st = Some fi" "info_ok fi" shows "\<exists>st'. annotateFault t st = Some st' \<and> finfo st' = Some fi \<and> fault_shown st'"
proof -
  obtain tx where tx: "faultText fi = Some tx" using faultText_total [OF assms(2)] by blast
  have mk: "go_make (fi_nservers fi) b = Some (replicate (nat (fi_nservers fi)) b)" for b
    using assms(2) by (simp add: info_ok_def go_make_def)
  show ?thesis
    using assms tx no_fault_iff [OF assms(2)]
    by (auto simp: annotateFault_def mk fault_shown_def AnnotateContinuousEnd_def AnnotateContinuousColor_def)
qed

lemma markLoop_spec:
  assumes "\<forall>i \<in> set servers. 0 \<le> i \<and> i < int (length crashed)"
  shows "\<exists>crashed' changed'. markLoop v servers crashed changed = Some (crashed', changed') \<and> length crashed' = length crashed
     \<and> (changed \<longrightarrow> changed') \<and> (\<not> changed' \<longrightarrow> crashed' = crashed)
     \<and> (\<forall>i < length crashed. crashed' ! i = (if int i \<in> set servers then v else crashed ! i))"
  using assms
proof (induction v servers crashed changed rule: markLoop.induct)
  case (1 v crashed changed)
  then show ?case by simp
next
  case (2 v i servers crashed changed)
  from "2.prems" have i: "0 \<le> i" "i < int (length crashed)" by auto
  let ?c = "crashed[nat i := v]"
  from "2.IH" [of "crashed ! nat i" ?c] i "2.prems" obtain cr ch where
    r: "markLoop v servers ?c (changed \<or> crashed ! nat i \<noteq> v) = Some (cr, ch)" "length cr = length crashed"
      "changed \<or> crashed ! nat i \<noteq> v \<longrightarrow> ch" "\<not> ch \<longrightarrow> cr = ?c"
      "\<forall>j < length crashed. cr ! j = (if int j \<in> set servers then v else ?c ! j)" by (auto simp: go_simps)
  have "?c = crashed" if "crashed ! nat i = v" using that list_update_id [of crashed "nat i"] by simp
  with r(4) have unch: "\<not> ch \<longrightarrow> cr = crashed" using r(3) by blast
  have "int j = i \<longleftrightarrow> j = nat i" for j using i(1) by auto
  with r(5) i(2) have all: "\<forall>j < length crashed. cr ! j = (if int j \<in> set (i # servers) then v else crashed ! j)"
    by (simp add: nth_list_update)
  have "markLoop v (i # servers) crashed changed = Some (cr, ch)" using r(1) i by (simp add: go_simps)
  with r(2,3) unch all show ?case by blast
qed

text \<open>The operations of a test, each with its time.\<close>

datatype an_op = AConnection "bool list" | AShutdown "int list" | AShutdownAll | ARestart "int list" | ARestartAll | AClear
  | APoint string string string | AContinuous string string string | AEnd string | ABegin string | ACheck string string string

fun an_apply :: "an_op \<Rightarrow> int \<Rightarrow> astate \<Rightarrow> astate option" where
  "an_apply (AConnection c) t st = AnnotateConnection c t st"
| "an_apply (AShutdown ids) t st = AnnotateShutdown ids t st"
| "an_apply AShutdownAll t st = AnnotateShutdownAll t st"
| "an_apply (ARestart ids) t st = AnnotateRestart ids t st"
| "an_apply ARestartAll t st = AnnotateRestartAll t st"
| "an_apply AClear t st = AnnotateClearFailure t st"
| "an_apply (APoint tag desp details) t st = Some (Annotate tag desp details t st)"
| "an_apply (AContinuous tag desp details) t st = Some (AnnotateContinuous tag desp details t st)"
| "an_apply (AEnd tag) t st = Some (AnnotateContinuousEnd tag t st)"
| "an_apply (ABegin details) t st = AnnotateCheckerBegin details t st"
| "an_apply (ACheck desp details color) t st = AnnotateCheckerEnd desp details color t st"

fun an_run :: "(an_op \<times> int) list \<Rightarrow> astate \<Rightarrow> astate option" where
  "an_run [] st = Some st"
| "an_run ((x, t) # ops) st = do { st \<leftarrow> an_apply x t st; an_run ops st }"

text \<open>Server numbers are in range, and user code leaves the failure tag alone.\<close>

fun an_ok :: "int \<Rightarrow> an_op \<Rightarrow> bool" where
  "an_ok n (AConnection c) \<longleftrightarrow> int (length c) = n"
| "an_ok n (AShutdown ids) \<longleftrightarrow> (\<forall>i \<in> set ids. 0 \<le> i \<and> i < n)"
| "an_ok n (ARestart ids) \<longleftrightarrow> (\<forall>i \<in> set ids. 0 \<le> i \<and> i < n)"
| "an_ok n (AContinuous tag _ _) \<longleftrightarrow> tag \<noteq> TAG_PARTITION"
| "an_ok n (AEnd tag) \<longleftrightarrow> tag \<noteq> TAG_PARTITION"
| "an_ok n _ \<longleftrightarrow> True"

definition shown_for :: "int \<Rightarrow> astate \<Rightarrow> bool" where
  "shown_for n st \<longleftrightarrow> fault_shown st \<and> map_option fi_nservers (finfo st) = Some n"

lemma shown_mark:
  assumes "shown_for n st" "\<forall>i \<in> set ids. 0 \<le> i \<and> i < n"
  shows "\<exists>st'. AnnotateShutdown ids t st = Some st' \<and> shown_for n st'" "\<exists>st'. AnnotateRestart ids t st = Some st' \<and> shown_for n st'"
proof -
  from assms(1) obtain fi where fi: "finfo st = Some fi" "info_ok fi" "fi_nservers fi = n" "fault_shown st"
    by (auto simp: shown_for_def fault_shown_def)
  then have ids: "\<forall>i \<in> set ids. 0 \<le> i \<and> i < int (length (fi_crashed fi))" using assms(2) by (simp add: info_ok_def)
  have mark: "\<exists>cr ch st'. markLoop v ids (fi_crashed fi) False = Some (cr, ch) \<and> shown_for n st'
    \<and> (if \<not> ch then Some (st\<lparr>finfo := Some (fi\<lparr>fi_crashed := cr\<rparr>)\<rparr>)
        else annotateFault t (st\<lparr>finfo := Some (fi\<lparr>fi_crashed := cr\<rparr>)\<rparr>)) = Some st'" for v
  proof -
    from markLoop_spec [OF ids, of v False] obtain cr ch where r: "markLoop v ids (fi_crashed fi) False = Some (cr, ch)"
      "length cr = length (fi_crashed fi)" "\<not> ch \<longrightarrow> cr = fi_crashed fi" by blast
    have ok: "info_ok (fi\<lparr>fi_crashed := cr\<rparr>)" using fi(2) r(2) by (simp add: info_ok_def)
    show ?thesis
    proof (cases ch)
      case True
      obtain st' where "annotateFault t (st\<lparr>finfo := Some (fi\<lparr>fi_crashed := cr\<rparr>)\<rparr>) = Some st'"
        "finfo st' = Some (fi\<lparr>fi_crashed := cr\<rparr>)" "fault_shown st'"
        using annotateFault_shows [of "st\<lparr>finfo := Some (fi\<lparr>fi_crashed := cr\<rparr>)\<rparr>", OF _ ok, of t] by auto
      with True r(1) fi(3) show ?thesis by (intro exI [of _ cr] exI [of _ ch] exI [of _ st']) (simp add: shown_for_def)
    next
      case False
      with r(3) have "fi\<lparr>fi_crashed := cr\<rparr> = fi" by simp
      moreover have "st\<lparr>finfo := Some fi\<rparr> = st" unfolding fi(1) [symmetric] by simp
      ultimately have "st\<lparr>finfo := Some (fi\<lparr>fi_crashed := cr\<rparr>)\<rparr> = st" by (simp only:)
      with False r(1) assms(1) show ?thesis by auto
    qed
  qed
  obtain cr ch st' where a: "markLoop True ids (fi_crashed fi) False = Some (cr, ch)" "shown_for n st'"
    "(if \<not> ch then Some (st\<lparr>finfo := Some (fi\<lparr>fi_crashed := cr\<rparr>)\<rparr>)
       else annotateFault t (st\<lparr>finfo := Some (fi\<lparr>fi_crashed := cr\<rparr>)\<rparr>)) = Some st'" using mark [of True] by blast
  show "\<exists>st'. AnnotateShutdown ids t st = Some st' \<and> shown_for n st'"
    by (rule exI [of _ st']) (use a fi(1) in \<open>simp add: AnnotateShutdown_def\<close>)
  obtain cr ch st' where a: "markLoop False ids (fi_crashed fi) False = Some (cr, ch)" "shown_for n st'"
    "(if \<not> ch then Some (st\<lparr>finfo := Some (fi\<lparr>fi_crashed := cr\<rparr>)\<rparr>)
       else annotateFault t (st\<lparr>finfo := Some (fi\<lparr>fi_crashed := cr\<rparr>)\<rparr>)) = Some st'" using mark [of False] by blast
  show "\<exists>st'. AnnotateRestart ids t st = Some st' \<and> shown_for n st'"
    by (rule exI [of _ st']) (use a fi(1) in \<open>simp add: AnnotateRestart_def\<close>)
qed

lemma shown_connection:
  assumes "shown_for n st" "int (length c) = n" shows "\<exists>st'. AnnotateConnection c t st = Some st' \<and> shown_for n st'"
proof -
  from assms(1) obtain fi where fi: "finfo st = Some fi" "info_ok fi" "fi_nservers fi = n" by (auto simp: shown_for_def fault_shown_def)
  have len: "length c = length (fi_connected fi)" using fi assms(2) by (auto simp: info_ok_def)
  let ?fi = "fi\<lparr>fi_connected := c\<rparr>"
  have "info_ok ?fi" using fi(2) len by (simp add: info_ok_def)
  with annotateFault_shows [of "st\<lparr>finfo := Some ?fi\<rparr>" ?fi t] fi len assms(1) show ?thesis
    by (auto simp: AnnotateConnection_def shown_for_def)
qed

lemma shown_clear:
  assumes "shown_for n st" shows "\<exists>st'. AnnotateClearFailure t st = Some st' \<and> shown_for n st'"
proof -
  from assms obtain fi where fi: "finfo st = Some fi" "info_ok fi" "fi_nservers fi = n" by (auto simp: shown_for_def fault_shown_def)
  let ?fi = "fi\<lparr>fi_crashed := map (\<lambda>_. False) (fi_crashed fi), fi_connected := map (\<lambda>_. True) (fi_connected fi)\<rparr>"
  have "info_ok ?fi" "no_fault ?fi" using fi(2) by (simp_all add: info_ok_def no_fault_def)
  with fi show ?thesis by (simp add: AnnotateClearFailure_def shown_for_def fault_shown_def AnnotateContinuousEnd_def)
qed

lemma shown_other:
  assumes "shown_for n st" "finfo st = Some fi" "finfo st' = Some (fi\<lparr>fi_ckbegin := b\<rparr>)"
    and "an_continuous (annotation st') TAG_PARTITION = an_continuous (annotation st) TAG_PARTITION"
  shows "shown_for n st'"
proof -
  have "info_ok (fi\<lparr>fi_ckbegin := b\<rparr>) = info_ok fi" "no_fault (fi\<lparr>fi_ckbegin := b\<rparr>) = no_fault fi"
    "faultText (fi\<lparr>fi_ckbegin := b\<rparr>) = faultText fi" by (simp_all add: info_ok_def no_fault_def faultText_def)
  with assms show ?thesis by (simp add: shown_for_def fault_shown_def)
qed

lemma continuous_color_other [simp]:
  "tag \<noteq> tag' \<Longrightarrow> an_continuous (annotateContinuousColor an tag desp details c t) tag' = an_continuous an tag'"
  by (simp add: annotateContinuousColor_def Let_def split: option.splits)

lemma an_apply_shown:
  assumes st: "shown_for n st" and "an_ok n x" "0 \<le> n" shows "\<exists>st'. an_apply x t st = Some st' \<and> shown_for n st'"
proof -
  from st obtain fi where fi: "finfo st = Some fi" "fi_nservers fi = n" by (auto simp: shown_for_def fault_shown_def)
  have same: "fi\<lparr>fi_ckbegin := fi_ckbegin fi\<rparr> = fi" by simp
  show ?thesis
  proof (cases x)
    case (AConnection c)
    with shown_connection [OF st] assms(2) show ?thesis by simp
  next
    case (AShutdown ids)
    with shown_mark(1) [OF st] assms(2) show ?thesis by simp
  next
    case AShutdownAll
    with shown_mark(1) [OF st, of "[0 .. n - 1]"] fi show ?thesis by (simp add: AnnotateShutdownAll_def)
  next
    case (ARestart ids)
    with shown_mark(2) [OF st] assms(2) show ?thesis by simp
  next
    case ARestartAll
    with shown_mark(2) [OF st, of "[0 .. n - 1]"] fi show ?thesis by (simp add: AnnotateRestartAll_def)
  next
    case AClear
    with shown_clear [OF st] show ?thesis by simp
  next
    case (APoint tag desp details)
    then show ?thesis using shown_other [OF st fi(1), of _ "fi_ckbegin fi"] fi by (simp add: Annotate_def annotatePointColor_def)
  next
    case (AContinuous tag desp details)
    then show ?thesis using shown_other [OF st fi(1), of _ "fi_ckbegin fi"] fi assms(2) by (simp add: AnnotateContinuous_def)
  next
    case (AEnd tag)
    then show ?thesis using shown_other [OF st fi(1), of _ "fi_ckbegin fi"] fi assms(2) by (simp add: AnnotateContinuousEnd_def)
  next
    case (ABegin details)
    then show ?thesis using shown_other [OF st fi(1)] fi by (simp add: AnnotateCheckerBegin_def)
  next
    case (ACheck desp details color)
    then show ?thesis using shown_other [OF st fi(1), of _ "fi_ckbegin fi"] fi
      by (simp add: AnnotateCheckerEnd_def AnnotatePointColor_def annotatePointColor_def AnnotateIntervalColor_def annotateIntervalColor_def Let_def)
  qed
qed

lemma an_run_shown:
  "shown_for n st \<Longrightarrow> \<forall>(x, _) \<in> set ops. an_ok n x \<Longrightarrow> 0 \<le> n \<Longrightarrow> \<exists>st'. an_run ops st = Some st' \<and> shown_for n st'"
proof (induction ops st rule: an_run.induct)
  case (2 x t ops st)
  then obtain st1 where "an_apply x t st = Some st1" "shown_for n st1" using an_apply_shown [of n st x t] by auto
  with 2 show ?case by auto
qed simp

lemma AnnotateTest_shown:
  assumes "0 \<le> n" shows "\<exists>st0. AnnotateTest desp n t st = Some st0 \<and> shown_for n st0"
  using assms by (auto simp: AnnotateTest_def mkFrameworkInfo_def go_make_def AnnotateInfo_def AnnotatePointColor_def annotatePointColor_def
      clear_def shown_for_def fault_shown_def info_ok_def no_fault_def Let_def)

text \<open>
  The failure annotation is accurate.  In a test that numbers its servers correctly and leaves the failure tag to the framework, no
  annotation operation panics, whatever the sequence of connection changes, shutdowns, restarts, checks and
  user annotations; and at every moment there is an ongoing failure annotation exactly when some server is
  disconnected or crashed, and its text is the description of which ones.
\<close>

theorem fault_annotation_accurate:
  assumes "0 \<le> n" and "\<forall>(x, _) \<in> set ops. an_ok n x"
  shows "\<exists>st0 st'. AnnotateTest desp n t st = Some st0 \<and> an_run ops st0 = Some st' \<and> fault_shown st'"
proof -
  obtain st0 where st0: "AnnotateTest desp n t st = Some st0" "shown_for n st0" using AnnotateTest_shown [OF assms(1)] by blast
  with an_run_shown [OF st0(2) assms(2,1)] show ?thesis by (auto simp: shown_for_def)
qed

theorem fault_annotation_accurate_witness:
  "\<exists>st0 st'. AnnotateTest ''Test'' 3 5 astate_init = Some st0
     \<and> an_run [(AShutdown [1], 10), (AConnection [True, True, False], 20)] st0 = Some st' \<and> fault_shown st'
     \<and> map_option co_desp (an_continuous (annotation st') TAG_PARTITION) = Some ''partition = [2] [0] / crash = [1]''"
proof -
  obtain st0 st' where r: "AnnotateTest ''Test'' 3 5 astate_init = Some st0"
    "an_run [(AShutdown [1], 10), (AConnection [True, True, False], 20)] st0 = Some st'" "fault_shown st'"
    using fault_annotation_accurate [of 3 "[(AShutdown [1], 10), (AConnection [True, True, False], 20)]" "''Test''" 5 astate_init] by auto
  have "Option.bind (AnnotateTest ''Test'' 3 5 astate_init) (\<lambda>st0. map_option
      (\<lambda>st'. map_option co_desp (an_continuous (annotation st') TAG_PARTITION))
      (an_run [(AShutdown [1], 10), (AConnection [True, True, False], 20)] st0)) = Some (Some ''partition = [2] [0] / crash = [1]'')"
    by code_simp
  with r show ?thesis by auto
qed

text \<open>Two slips in the code.  Ending a continuous annotation that is not there still records one: from time 0, without a
  description.  And the beginning of a check is not forgotten at its end, so that a later check that did not announce its
  beginning is drawn as an interval from the old beginning.\<close>

theorem ClearFailure_records_phantom:
  "\<exists>st0 st'. AnnotateTest desp 3 t astate_init = Some st0 \<and> AnnotateClearFailure t' st0 = Some st'
     \<and> concretize TAG_PARTITION zeroContinuous t' \<in> set (an_annotations (annotation st'))"
  by (simp add: AnnotateTest_def mkFrameworkInfo_def go_make_def astate_init_def AnnotateInfo_def AnnotatePointColor_def
      annotatePointColor_def clear_def mkAnnotation_def AnnotateClearFailure_def AnnotateContinuousEnd_def annotateContinuousEnd_def Let_def)

theorem CheckerEnd_keeps_begin:
  assumes "finfo st = Some fi" and "t \<noteq> 0"
  shows "\<exists>st1 st2 st3 a. AnnotateCheckerBegin b t st = Some st1 \<and> AnnotateCheckerSuccess d e t1 st1 = Some st2
     \<and> AnnotateCheckerSuccess d' e' t2 st2 = Some st3 \<and> an_annotations (annotation st3) = an_annotations (annotation st2) @ [a]
     \<and> pa_Start a = t \<and> pa_End a = t2"
  using assms by (simp add: AnnotateCheckerBegin_def AnnotateCheckerSuccess_def AnnotateCheckerEnd_def AnnotateIntervalColor_def annotateIntervalColor_def)

end
