(* ===== verification/KvTest.thy ===== *)
theory KvTest
  imports KvModel Annotation
begin

text \<open>
  The driver of the key/value tests: \<^verbatim>\<open>kvtest1/kvtest.go\<close> and the recording calls of \<^verbatim>\<open>kvtest1/porcupine.go\<close>.  A test holds the operation
  log, the counter of operations and the annotations; a clerk is an argument, the two operations of the interface
  \<^verbatim>\<open>IKVClerk\<close> over a world that holds the service and the clock.  \<open>Fatal\<close> is \<^verbatim>\<open>ts.Fatalf\<close>, \<open>Running\<close> a call that has not
  returned or a loop that has used up the bound on its iterations.
\<close>

section \<open>Tests and clerks\<close>

datatype 'a outcome = Done 'a | Fatal | Running

fun obind :: "'a outcome \<Rightarrow> ('a \<Rightarrow> 'b outcome) \<Rightarrow> 'b outcome" where
  "obind (Done x) f = f x"
| "obind Fatal f = Fatal"
| "obind Running f = Running"

record 'w IKVClerk =
  ck_Get :: "string \<Rightarrow> 'w \<Rightarrow> ((string \<times> Tversion \<times> Err) \<times> 'w) option"
  ck_Put :: "string \<Rightarrow> string \<Rightarrow> Tversion \<Rightarrow> 'w \<Rightarrow> (Err \<times> 'w) option"
  ck_now :: "'w \<Rightarrow> int"

record 'w Test =
  ts_world :: 'w
  ts_ops :: "32 word"
  ts_oplog :: "Operation list option"
  ts_randomkeys :: bool
  ts_ann :: astate

definition OpLog_Len :: "Operation list \<Rightarrow> int" where
  "OpLog_Len log = int (length log)"

definition OpLog_Append :: "Operation list \<Rightarrow> Operation \<Rightarrow> Operation list" where
  "OpLog_Append log p = log @ [p]"

definition zeroOperation :: Operation where
  "zeroOperation = \<lparr>op_ClientId = 0, op_Input = \<lparr>in_Op = 0, in_Key = [], in_Value = [], in_Version = 0\<rparr>, op_Call = 0,
     op_Output = \<lparr>out_Value = [], out_Version = 0, out_Err = ErrUnset\<rparr>, op_Return = 0\<rparr>"

definition OpLog_Read :: "Operation list \<Rightarrow> Operation list" where
  "OpLog_Read log = go_copy (replicate (length log) zeroOperation) log"

definition MakeTest :: "'w \<Rightarrow> bool \<Rightarrow> astate \<Rightarrow> 'w Test" where
  "MakeTest w randomkeys an = \<lparr>ts_world = w, ts_ops = 0, ts_oplog = Some [], ts_randomkeys = randomkeys, ts_ann = an\<rparr>"

section \<open>Recorded operations\<close>

definition kvtest_Get :: "'w IKVClerk \<Rightarrow> string \<Rightarrow> int \<Rightarrow> 'w Test \<Rightarrow> ((string \<times> Tversion \<times> Err) \<times> 'w Test) outcome" where
  "kvtest_Get ck key cli ts =
     (let start = ck_now ck (ts_world ts)
      in case ck_Get ck key (ts_world ts) of
           None \<Rightarrow> Running
         | Some ((vl, vn, err), w) \<Rightarrow>
             (let finish = ck_now ck w;
                  ts = ts\<lparr>ts_world := w, ts_ops := ts_ops ts + 1\<rparr>
              in Done ((vl, vn, err), ts\<lparr>ts_oplog := map_option (\<lambda>log. OpLog_Append log
                   \<lparr>op_ClientId = cli, op_Input = \<lparr>in_Op = 0, in_Key = key, in_Value = [], in_Version = 0\<rparr>, op_Call = start,
                    op_Output = \<lparr>out_Value = vl, out_Version = vn, out_Err = err\<rparr>, op_Return = finish\<rparr>) (ts_oplog ts)\<rparr>)))"

definition kvtest_Put :: "'w IKVClerk \<Rightarrow> string \<Rightarrow> string \<Rightarrow> Tversion \<Rightarrow> int \<Rightarrow> 'w Test \<Rightarrow> (Err \<times> 'w Test) outcome" where
  "kvtest_Put ck key value version cli ts =
     (let start = ck_now ck (ts_world ts)
      in case ck_Put ck key value version (ts_world ts) of
           None \<Rightarrow> Running
         | Some (err, w) \<Rightarrow>
             (let finish = ck_now ck w;
                  ts = ts\<lparr>ts_world := w, ts_ops := ts_ops ts + 1\<rparr>
              in Done (err, ts\<lparr>ts_oplog := map_option (\<lambda>log. OpLog_Append log
                   \<lparr>op_ClientId = cli, op_Input = \<lparr>in_Op = 1, in_Key = key, in_Value = value, in_Version = version\<rparr>, op_Call = start,
                    op_Output = \<lparr>out_Value = [], out_Version = 0, out_Err = err\<rparr>, op_Return = finish\<rparr>) (ts_oplog ts)\<rparr>)))"

text \<open>The methods of \<open>Test\<close> have the same bodies, on the test's own log.\<close>

definition Test_Get :: "'w IKVClerk \<Rightarrow> string \<Rightarrow> int \<Rightarrow> 'w Test \<Rightarrow> ((string \<times> Tversion \<times> Err) \<times> 'w Test) outcome" where
  "Test_Get ck key cli ts = kvtest_Get ck key cli ts"

definition Test_Put :: "'w IKVClerk \<Rightarrow> string \<Rightarrow> string \<Rightarrow> Tversion \<Rightarrow> int \<Rightarrow> 'w Test \<Rightarrow> (Err \<times> 'w Test) outcome" where
  "Test_Put ck key value version cli ts = kvtest_Put ck key value version cli ts"

section \<open>Puts and checks\<close>

fun fmt_err :: "Err \<Rightarrow> string" where
  "fmt_err ErrUnset = []"
| "fmt_err OK = ''OK''"
| "fmt_err ErrNoKey = ''ErrNoKey''"
| "fmt_err ErrVersion = ''ErrVersion''"
| "fmt_err ErrMaybe = ''ErrMaybe''"
| "fmt_err ErrWrongLeader = ''ErrWrongLeader''"
| "fmt_err ErrWrongGroup = ''ErrWrongGroup''"

definition fmt_ver :: "Tversion \<Rightarrow> string" where
  "fmt_ver v = fmt_nat (unat v)"

fun PutAtLeastOnce_loop :: "nat \<Rightarrow> 'w IKVClerk \<Rightarrow> string \<Rightarrow> string \<Rightarrow> Tversion \<Rightarrow> int \<Rightarrow> 'w Test \<Rightarrow> (Tversion \<times> 'w Test) outcome" where
  "PutAtLeastOnce_loop 0 ck key value vn me ts = Running"
| "PutAtLeastOnce_loop (Suc n) ck key value vn me ts =
     obind (Test_Put ck key value vn me ts) (\<lambda>(err, ts).
       if err = OK then Done (vn + 1, ts)
       else if err = ErrMaybe \<or> err = ErrVersion then PutAtLeastOnce_loop n ck key value (vn + 1) me ts
       else if vn \<noteq> 0 then Fatal
       else PutAtLeastOnce_loop n ck key value vn me ts)"

definition PutAtLeastOnce :: "nat \<Rightarrow> 'w IKVClerk \<Rightarrow> string \<Rightarrow> string \<Rightarrow> Tversion \<Rightarrow> int \<Rightarrow> 'w Test \<Rightarrow> (Tversion \<times> 'w Test) outcome" where
  "PutAtLeastOnce n ck key value vn me ts =
     obind (PutAtLeastOnce_loop n ck key value vn me ts) (\<lambda>(vn', ts).
       Done (vn', ts\<lparr>ts_ann := AnnotateInfo (''Put('' @ key @ '', '' @ value @ '') completes'')
         (''version: '' @ fmt_ver vn @ '' -> '' @ fmt_ver vn') (ck_now ck (ts_world ts)) (ts_ann ts)\<rparr>))"

text \<open>A panic of the annotations (no test was announced) ends the test like \<^verbatim>\<open>Fatalf\<close>.\<close>

definition annotated :: "'w IKVClerk \<Rightarrow> (int \<Rightarrow> astate \<Rightarrow> astate option) \<Rightarrow> 'w Test \<Rightarrow> 'w Test outcome" where
  "annotated ck f ts = (case f (ck_now ck (ts_world ts)) (ts_ann ts) of None \<Rightarrow> Fatal | Some an \<Rightarrow> Done (ts\<lparr>ts_ann := an\<rparr>))"

definition CheckGet :: "'w IKVClerk \<Rightarrow> string \<Rightarrow> string \<Rightarrow> Tversion \<Rightarrow> 'w Test \<Rightarrow> 'w Test outcome" where
  "CheckGet ck key value version ts =
     obind (annotated ck (AnnotateCheckerBegin (''checking Get('' @ key @ '') = ('' @ value @ '', '' @ fmt_ver version @ '')'')) ts) (\<lambda>ts.
     obind (Test_Get ck key 0 ts) (\<lambda>((vl, vn, err), ts).
       if err \<noteq> OK then
         (let t = ''Get('' @ key @ '') returns error = '' @ fmt_err err
          in obind (annotated ck (AnnotateCheckerFailure t t) ts) (\<lambda>_. Fatal))
       else if vl \<noteq> value \<or> vn \<noteq> version then
         (let t = ''Get('' @ key @ '') returns ('' @ vl @ '', '' @ fmt_ver vn @ '') != ('' @ value @ '', '' @ fmt_ver version @ '')''
          in obind (annotated ck (AnnotateCheckerFailure t t) ts) (\<lambda>_. Fatal))
       else annotated ck (AnnotateCheckerSuccess (''Get('' @ key @ '') returns ('' @ vl @ '', '' @ fmt_ver vn @ '') as expected'') ''OK'') ts))"

section \<open>Records stored as JSON\<close>

record EntryV =
  ev_Id :: int
  ev_V :: Tversion

record entry =
  en_Id :: int
  en_N :: int

definition marshal_EntryV :: "EntryV \<Rightarrow> string" where
  "marshal_EntryV e = marshal_pair ''Id'' ''V'' (ev_Id e, uint (ev_V e))"

definition unmarshal_EntryV :: "string \<Rightarrow> EntryV option" where
  "unmarshal_EntryV s = (case unmarshal_pair ''Id'' ''V'' s of
     Some ((i, v), []) \<Rightarrow> if 0 \<le> v \<and> v < 2 ^ 64 then Some \<lparr>ev_Id = i, ev_V = word_of_int v\<rparr> else None
   | _ \<Rightarrow> None)"

definition marshal_entries :: "entry list \<Rightarrow> string" where
  "marshal_entries es = marshal_pairs ''Id'' ''N'' (map (\<lambda>e. (en_Id e, en_N e)) es)"

definition unmarshal_entries :: "string \<Rightarrow> entry list option" where
  "unmarshal_entries s = map_option (map (\<lambda>(i, m). \<lparr>en_Id = i, en_N = m\<rparr>)) (unmarshal_pairs ''Id'' ''N'' s)"

definition GetJson :: "(string \<Rightarrow> 'v option) \<Rightarrow> 'w IKVClerk \<Rightarrow> string \<Rightarrow> int \<Rightarrow> 'w Test \<Rightarrow> (('v \<times> Tversion) \<times> 'w Test) outcome" where
  "GetJson unmarshal ck key me ts =
     obind (kvtest_Get ck key me ts) (\<lambda>((vl, vn, err), ts).
       if err = OK then (case unmarshal vl of None \<Rightarrow> Fatal | Some v \<Rightarrow> Done ((v, vn), ts)) else Fatal)"

definition PutJson :: "('v \<Rightarrow> string) \<Rightarrow> 'w IKVClerk \<Rightarrow> string \<Rightarrow> 'v \<Rightarrow> Tversion \<Rightarrow> int \<Rightarrow> 'w Test \<Rightarrow> (Err \<times> 'w Test) outcome" where
  "PutJson marshal ck key v vn me ts = kvtest_Put ck key (marshal v) vn me ts"

fun PutAtLeastOnceJson :: "nat \<Rightarrow> ('v \<Rightarrow> string) \<Rightarrow> 'w IKVClerk \<Rightarrow> string \<Rightarrow> 'v \<Rightarrow> Tversion \<Rightarrow> int \<Rightarrow> 'w Test \<Rightarrow> (Tversion \<times> 'w Test) outcome" where
  "PutAtLeastOnceJson 0 marshal ck key value vn me ts = Running"
| "PutAtLeastOnceJson (Suc n) marshal ck key value vn me ts =
     obind (PutJson marshal ck key value 0 me ts) (\<lambda>(err, ts).
       if err \<noteq> ErrMaybe then Done (vn, ts) else PutAtLeastOnceJson n marshal ck key value (vn + 1) me ts)"

section \<open>Clients that put\<close>

record ClntRes =
  Nok :: int
  Nmaybe :: int

fun OnePut :: "nat \<Rightarrow> int \<Rightarrow> 'w IKVClerk \<Rightarrow> string \<Rightarrow> Tversion \<Rightarrow> 'w Test \<Rightarrow> ((Tversion \<times> bool) \<times> 'w Test) outcome" where
  "OnePut 0 me ck key vn ts = Running"
| "OnePut (Suc n) me ck key vn ts =
     obind (PutJson marshal_EntryV ck key \<lparr>ev_Id = me, ev_V = vn\<rparr> vn me ts) (\<lambda>(err, ts).
       if \<not> (err = OK \<or> err = ErrVersion \<or> err = ErrMaybe) then Fatal
       else obind (GetJson unmarshal_EntryV ck key me ts) (\<lambda>((e, ver0), ts).
         if err = OK \<and> ver0 = vn + 1 \<and> (ev_Id e \<noteq> me \<and> ev_V e \<noteq> vn) then Fatal
         else if err = OK \<or> err = ErrMaybe then Done ((ver0, err = OK), ts)
         else OnePut n me ck key ver0 ts))"

text \<open>One entry per turn of the loop: \<open>None\<close> if the client is told to stop, otherwise the random number drawn.\<close>

fun OneClientPut_loop :: "nat \<Rightarrow> int \<Rightarrow> 'w IKVClerk \<Rightarrow> string list \<Rightarrow> int option list \<Rightarrow> (string \<Rightarrow> Tversion) \<Rightarrow> ClntRes
    \<Rightarrow> 'w Test \<Rightarrow> (ClntRes \<times> 'w Test) outcome" where
  "OneClientPut_loop n cli ck ka [] verm res ts = Running"
| "OneClientPut_loop n cli ck ka (None # turns) verm res ts = Done (res, ts)"
| "OneClientPut_loop n cli ck ka (Some r # turns) verm res ts =
     (case (if ts_randomkeys ts then do { m \<leftarrow> go_mod r (int (length ka)); go_nth ka m } else go_nth ka 0) of
        None \<Rightarrow> Fatal
      | Some k \<Rightarrow> obind (OnePut n cli ck k (verm k) ts) (\<lambda>((v, ok), ts).
          OneClientPut_loop n cli ck ka turns (verm(k := v))
            (if ok then res\<lparr>Nok := Nok res + 1\<rparr> else res\<lparr>Nmaybe := Nmaybe res + 1\<rparr>) ts))"

definition OneClientPut :: "nat \<Rightarrow> int \<Rightarrow> 'w IKVClerk \<Rightarrow> string list \<Rightarrow> int option list \<Rightarrow> 'w Test \<Rightarrow> (ClntRes \<times> 'w Test) outcome" where
  "OneClientPut n cli ck ka turns ts = OneClientPut_loop n cli ck ka turns (\<lambda>_. 0) \<lparr>Nok = 0, Nmaybe = 0\<rparr> ts"

definition CheckPutConcurrent :: "'w IKVClerk \<Rightarrow> string \<Rightarrow> ClntRes list \<Rightarrow> ClntRes \<Rightarrow> bool \<Rightarrow> 'w Test \<Rightarrow> (ClntRes \<times> 'w Test) outcome" where
  "CheckPutConcurrent ck key rs res reliable ts =
     obind (GetJson unmarshal_EntryV ck key (-1) ts) (\<lambda>((_, ver0), ts).
       let res = fold (\<lambda>r res. res\<lparr>Nok := Nok res + Nok r, Nmaybe := Nmaybe res + Nmaybe r\<rparr>) rs res
       in if reliable then (if ver0 \<noteq> word_of_int (Nok res) then Fatal else Done (res, ts))
          else if ver0 > word_of_int (Nok res + Nmaybe res) then Fatal else Done (res, ts))"

section \<open>Keys and values\<close>

definition letterBytes :: string where
  "letterBytes = ''abcdefghijklmnopqrstuvwxyzABCDEFGHIJKLMNOPQRSTUVWXYZ''"

text \<open>\<open>rnd i\<close> is the \<open>i\<close>-th number drawn.\<close>

definition RandValue :: "(nat \<Rightarrow> int) \<Rightarrow> int \<Rightarrow> string option" where
  "RandValue rnd n = do {
     b \<leftarrow> go_make n (CHR 0x00);
     those (map (\<lambda>i. do { m \<leftarrow> go_mod (rnd i) (int (length letterBytes)); go_nth letterBytes m }) [0 ..< length b])
   }"

definition MakeKeys :: "int \<Rightarrow> string list option" where
  "MakeKeys n = do { keys \<leftarrow> go_make n ([] :: string); Some (map (\<lambda>i. ''k'' @ fmt_int (int i)) [0 ..< length keys]) }"

text \<open>\<open>SpreadPutsSize\<close> puts directly through the clerk, without recording, and checks afterwards.\<close>

fun spread_puts :: "'w IKVClerk \<Rightarrow> (string \<times> string) list \<Rightarrow> 'w Test \<Rightarrow> 'w Test outcome" where
  "spread_puts ck [] ts = Done ts"
| "spread_puts ck ((k, v) # kvs) ts =
     (case ck_Put ck k v 0 (ts_world ts) of None \<Rightarrow> Running | Some (_, w) \<Rightarrow> spread_puts ck kvs (ts\<lparr>ts_world := w\<rparr>))"

fun spread_checks :: "'w IKVClerk \<Rightarrow> (string \<times> string) list \<Rightarrow> 'w Test \<Rightarrow> 'w Test outcome" where
  "spread_checks ck [] ts = Done ts"
| "spread_checks ck ((k, v) # kvs) ts = obind (CheckGet ck k v 1 ts) (spread_checks ck kvs)"

definition SpreadPutsSize :: "(nat \<Rightarrow> string) \<Rightarrow> 'w IKVClerk \<Rightarrow> int \<Rightarrow> 'w Test \<Rightarrow> ((string list \<times> string list) \<times> 'w Test) outcome" where
  "SpreadPutsSize randstring ck n ts =
     (case MakeKeys n of None \<Rightarrow> Fatal
      | Some ka \<Rightarrow> let va = map randstring [0 ..< length ka]
          in obind (spread_puts ck (zip ka va) ts) (\<lambda>ts. obind (spread_checks ck (zip ka va) ts) (\<lambda>ts. Done ((ka, va), ts))))"

text \<open>The two sides of a random partition, from the bits drawn for the servers.\<close>

definition Partitioner_split :: "int list \<Rightarrow> int list \<times> int list" where
  "Partitioner_split a = (map int (filter (\<lambda>j. a ! j = 0) [0 ..< length a]), map int (filter (\<lambda>j. a ! j = 1) [0 ..< length a]))"

section \<open>Clients that append\<close>

record appender =
  ap_i :: int
  ap_nok :: int
  ap_nmay :: int

definition OneClientAppend_value :: "int \<Rightarrow> int \<Rightarrow> entry list \<Rightarrow> string" where
  "OneClientAppend_value me i es = marshal_entries (es @ [\<lparr>en_Id = me, en_N = i\<rparr>])"

text \<open>What an answer to the put means to the client: the next state, or another try of the same entry.\<close>

definition OneClientAppend_after_Put :: "appender \<Rightarrow> Err \<Rightarrow> appender option" where
  "OneClientAppend_after_Put c err =
     (if err = OK then Some (c\<lparr>ap_nok := ap_nok c + 1, ap_i := ap_i c + 1\<rparr>)
      else if err = ErrMaybe then Some (c\<lparr>ap_nmay := ap_nmay c + 1, ap_i := ap_i c + 1\<rparr>) else None)"

fun OneClientAppend_try :: "nat \<Rightarrow> int \<Rightarrow> 'w IKVClerk \<Rightarrow> appender \<Rightarrow> 'w Test \<Rightarrow> (appender \<times> 'w Test) outcome" where
  "OneClientAppend_try 0 me ck c ts = Running"
| "OneClientAppend_try (Suc n) me ck c ts =
     obind (GetJson unmarshal_entries ck ''k'' me ts) (\<lambda>((es, vn), ts).
     obind (kvtest_Put ck ''k'' (OneClientAppend_value me (ap_i c) es) vn me ts) (\<lambda>(err, ts).
       case OneClientAppend_after_Put c err of
         Some c' \<Rightarrow> Done (c', ts)
       | None \<Rightarrow> OneClientAppend_try n me ck c ts))"

fun OneClientAppend_loop :: "nat \<Rightarrow> int \<Rightarrow> 'w IKVClerk \<Rightarrow> bool list \<Rightarrow> appender \<Rightarrow> 'w Test \<Rightarrow> (ClntRes \<times> 'w Test) outcome" where
  "OneClientAppend_loop n me ck [] c ts = Running"
| "OneClientAppend_loop n me ck (stop # turns) c ts =
     (if stop then Done (\<lparr>Nok = ap_nok c, Nmaybe = ap_nmay c\<rparr>, ts)
      else obind (OneClientAppend_try n me ck c ts) (\<lambda>(c, ts). OneClientAppend_loop n me ck turns c ts))"

definition appender_start :: appender where
  "appender_start = \<lparr>ap_i = 0, ap_nok = 0, ap_nmay = 0\<rparr>"

definition OneClientAppend :: "nat \<Rightarrow> int \<Rightarrow> 'w IKVClerk \<Rightarrow> bool list \<Rightarrow> 'w Test \<Rightarrow> (ClntRes \<times> 'w Test) outcome" where
  "OneClientAppend n me ck turns ts = OneClientAppend_loop n me ck turns appender_start ts"

section \<open>Checking the appends\<close>

type_synonym counts = "int \<rightharpoonup> int"

text \<open>A key that is not in the map reads as 0.\<close>

definition get0 :: "counts \<Rightarrow> int \<Rightarrow> int" where
  "get0 m k = (case m k of None \<Rightarrow> 0 | Some v \<Rightarrow> v)"

fun CheckAppends_loop :: "entry list \<Rightarrow> counts \<Rightarrow> counts \<Rightarrow> (counts \<times> counts) option" where
  "CheckAppends_loop [] expect skipped = Some (expect, skipped)"
| "CheckAppends_loop (e # es) expect skipped =
     (if get0 expect (en_Id e) > en_N e then None
      else if get0 expect (en_Id e) = en_N e then CheckAppends_loop es (expect(en_Id e \<mapsto> get0 expect (en_Id e) + 1)) skipped
      else CheckAppends_loop es (expect(en_Id e \<mapsto> en_N e + 1))
             (skipped(en_Id e \<mapsto> get0 skipped (en_Id e) + (en_N e - get0 expect (en_Id e)))))"

definition CheckAppends_client :: "ClntRes list \<Rightarrow> counts \<Rightarrow> counts \<Rightarrow> int \<Rightarrow> bool" where
  "CheckAppends_client rs expect skipped c =
     (case go_nth rs c of None \<Rightarrow> False
      | Some r \<Rightarrow> \<not> get0 skipped c > Nmaybe r \<and> \<not> get0 expect c > Nok r + Nmaybe r)"

definition CheckAppends :: "entry list \<Rightarrow> int \<Rightarrow> ClntRes list \<Rightarrow> Tversion \<Rightarrow> unit outcome" where
  "CheckAppends es nclnt rs vn =
     (let zero = (\<lambda>c. if 0 \<le> c \<and> c < nclnt then Some 0 else None)
      in case CheckAppends_loop es zero zero of
           None \<Rightarrow> Fatal
         | Some (expect, skipped) \<Rightarrow>
             if int (length es) + 1 \<noteq> sint vn then Fatal
             else if list_all (CheckAppends_client rs expect skipped) ([0 .. nclnt - 1] @ map en_Id es) then Done () else Fatal)"

section \<open>What CheckAppends accepts\<close>

text \<open>The numbers client \<open>c\<close> has in the list, and the first number above all of them.\<close>

definition numbers :: "int \<Rightarrow> entry list \<Rightarrow> int list" where
  "numbers c es = map en_N (filter (\<lambda>e. en_Id e = c) es)"

fun above :: "int \<Rightarrow> int list \<Rightarrow> int" where
  "above b [] = b"
| "above b (m # ms) = above (m + 1) ms"

fun rising :: "int \<Rightarrow> int list \<Rightarrow> bool" where
  "rising b [] = True"
| "rising b (m # ms) = (b \<le> m \<and> rising (m + 1) ms)"

lemma numbers_simps [simp]:
  "numbers c [] = []" "numbers c (e # es) = (if en_Id e = c then en_N e # numbers c es else numbers c es)"
  "numbers c (es @ es') = numbers c es @ numbers c es'"
  by (simp_all add: numbers_def)

lemma above_append [simp]: "above b (ms @ ms') = above (above b ms) ms'"
  by (induction b ms rule: above.induct) auto

lemma rising_append [simp]: "rising b (ms @ ms') \<longleftrightarrow> rising b ms \<and> rising (above b ms) ms'"
  by (induction b ms rule: above.induct) auto

lemma rising_above: "rising b ms \<Longrightarrow> b + int (length ms) \<le> above b ms"
  by (induction b ms rule: rising.induct) auto

text \<open>A sequence rises if it is strictly increasing and starts at the bound or above it.\<close>

lemma rising_sorted: "rising b ms \<longleftrightarrow> sorted_wrt (<) ms \<and> (\<forall>m \<in> set ms. b \<le> m)"
proof (induction b ms rule: rising.induct)
  case (2 b m ms)
  have "(\<forall>x \<in> set ms. m + 1 \<le> x) \<longleftrightarrow> (\<forall>x \<in> set ms. m < x)" by auto
  moreover have "b \<le> x" if "b \<le> m" "m < x" for x using that by simp
  ultimately show ?case using 2 by auto
qed simp

lemma get0_upd [simp]: "get0 (m(k \<mapsto> v)) c = (if c = k then v else get0 m c)"
  by (simp add: get0_def)

lemma CheckAppends_loop_iff:
  "CheckAppends_loop es expect skipped \<noteq> None \<longleftrightarrow> (\<forall>c. rising (get0 expect c) (numbers c es))"
proof (induction es arbitrary: expect skipped)
  case (Cons e es)
  let ?b = "get0 expect (en_Id e)"
  have upd: "(\<forall>c. rising (get0 (expect(en_Id e \<mapsto> en_N e + 1)) c) (numbers c es)) \<and> ?b \<le> en_N e
      \<longleftrightarrow> (\<forall>c. rising (get0 expect c) (numbers c (e # es)))" by (auto split: if_splits)
  show ?case
  proof (cases "?b \<le> en_N e")
    case True
    then have "\<exists>sk. CheckAppends_loop (e # es) expect skipped = CheckAppends_loop es (expect(en_Id e \<mapsto> en_N e + 1)) sk" by auto
    with Cons.IH [of "expect(en_Id e \<mapsto> en_N e + 1)"] True upd show ?thesis by metis
  next
    case False
    then have "CheckAppends_loop (e # es) expect skipped = None" by simp
    with False upd show ?thesis by metis
  qed
qed simp

lemma CheckAppends_loop_counts:
  "CheckAppends_loop es expect skipped = Some (expect', skipped') \<Longrightarrow>
     get0 expect' c = above (get0 expect c) (numbers c es)
     \<and> get0 skipped' c = get0 skipped c + (above (get0 expect c) (numbers c es) - get0 expect c - int (length (numbers c es)))"
proof (induction es arbitrary: expect skipped)
  case (Cons e es)
  let ?b = "get0 expect (en_Id e)"
  show ?case
  proof (cases "?b = en_N e")
    case True
    with Cons.prems have "CheckAppends_loop es (expect(en_Id e \<mapsto> en_N e + 1)) skipped = Some (expect', skipped')" by simp
    from Cons.IH [OF this, unfolded get0_upd] True show ?thesis by (cases "c = en_Id e") simp_all
  next
    case False
    let ?sk = "skipped(en_Id e \<mapsto> get0 skipped (en_Id e) + (en_N e - ?b))"
    from False Cons.prems have "CheckAppends_loop es (expect(en_Id e \<mapsto> en_N e + 1)) ?sk = Some (expect', skipped')"
      by (simp split: if_splits)
    from Cons.IH [OF this, unfolded get0_upd] show ?thesis by (cases "c = en_Id e") simp_all
  qed
qed simp

definition client_ok :: "entry list \<Rightarrow> ClntRes list \<Rightarrow> int \<Rightarrow> bool" where
  "client_ok es rs c \<longleftrightarrow> (let r = rs ! nat c; top = above 0 (numbers c es) in
     0 \<le> c \<and> c < int (length rs) \<and> top - int (length (numbers c es)) \<le> Nmaybe r \<and> top \<le> Nok r + Nmaybe r)"

lemma CheckAppends_rising_iff:
  "CheckAppends es nclnt rs vn = Done () \<longleftrightarrow>
     (\<forall>c. rising 0 (numbers c es)) \<and> int (length es) + 1 = sint vn \<and> (\<forall>c \<in> {0 ..< nclnt} \<union> en_Id ` set es. client_ok es rs c)"
proof -
  let ?zero = "\<lambda>c. if 0 \<le> c \<and> c < nclnt then Some 0 else None"
  have z: "get0 ?zero c = 0" for c by (simp add: get0_def)
  have loop: "CheckAppends_loop es ?zero ?zero \<noteq> None \<longleftrightarrow> (\<forall>c. rising 0 (numbers c es))"
    unfolding CheckAppends_loop_iff z ..
  show ?thesis
  proof (cases "CheckAppends_loop es ?zero ?zero")
    case None
    with loop show ?thesis by (auto simp: CheckAppends_def Let_def)
  next
    case (Some p)
    obtain expect skipped where p: "p = (expect, skipped)" by fastforce
    note counts = CheckAppends_loop_counts [OF Some [unfolded p], unfolded z]
    have "CheckAppends_client rs expect skipped c \<longleftrightarrow> client_ok es rs c" for c
      using counts [of c] by (auto simp: CheckAppends_client_def client_ok_def Let_def go_nth_def)
    moreover have "set ([0 .. nclnt - 1] @ map en_Id es) = {0 ..< nclnt} \<union> en_Id ` set es" by auto
    ultimately have "list_all (CheckAppends_client rs expect skipped) ([0 .. nclnt - 1] @ map en_Id es)
        \<longleftrightarrow> (\<forall>c \<in> {0 ..< nclnt} \<union> en_Id ` set es. client_ok es rs c)" unfolding list_all_iff by simp
    with Some p loop show ?thesis by (auto simp: CheckAppends_def Let_def)
  qed
qed

text \<open>
  C36: What the append check accepts.  \<open>CheckAppends\<close> passes exactly when every client's numbers in the list are strictly increasing from 0 on, the list is
  one shorter than the version, and for every client that took part or appears in the list the number of skipped entries is at most its
  uncertain puts and its highest entry is below its successful and uncertain puts together.
\<close>

theorem CheckAppends_iff:
  "CheckAppends es nclnt rs vn = Done () \<longleftrightarrow>
     (\<forall>c. sorted_wrt (<) (numbers c es) \<and> (\<forall>m \<in> set (numbers c es). 0 \<le> m)) \<and> int (length es) + 1 = sint vn
     \<and> (\<forall>c \<in> {0 ..< nclnt} \<union> en_Id ` set es. client_ok es rs c)"
  unfolding CheckAppends_rising_iff rising_sorted ..

theorem CheckAppends_iff_witness:
  "CheckAppends [\<lparr>en_Id = 0, en_N = 0\<rparr>, \<lparr>en_Id = 1, en_N = 0\<rparr>, \<lparr>en_Id = 0, en_N = 2\<rparr>] 2
     [\<lparr>Nok = 2, Nmaybe = 1\<rparr>, \<lparr>Nok = 1, Nmaybe = 0\<rparr>] 4 = Done ()"
proof -
  have "{0 ..< 2} = {0, 1 :: int}" by auto
  then show ?thesis unfolding CheckAppends_iff by (auto simp: client_ok_def numbers_def)
qed

end
