(* ===== verification/KvHistory.thy ===== *)
theory KvHistory
  imports KvLin KvTest
begin

text \<open>
  Clients of a key/value service, and the log of operations they leave: clerks (of \<^verbatim>\<open>kvsrv1/client.go\<close> and \<^verbatim>\<open>kvraft1/client.go\<close>) that call \<open>Get\<close> and \<open>Put\<close> on servers over
  a network that loses requests and replies, the handlers that these calls start, and the log that \<^verbatim>\<open>kvtest1/porcupine.go\<close> keeps for the linearizability check.
  The servers are an interface, the locale \<open>kv_provider\<close>: whatever they do, there is a log of executed operations, each submitted by one handler, and handlers are answered
  from it.  Over such servers every history is linearizable.
\<close>

section \<open>Handlers and clerks\<close>

text \<open>A call of \<open>KVServer.Get\<close> or \<open>KVServer.Put\<close> for operation \<open>h_opno\<close> on a server, with the local variables of \<open>Submit\<close> as far as they are set:
  the operation, the index and term from \<open>Start\<close>, the channel, and what \<open>Submit\<close> returned.  (The handlers of \<^verbatim>\<open>kvsrv1/server.go\<close> have only the operation and the reply.)\<close>

record kv_handler =
  h_opno :: nat
  h_server :: int
  h_op :: "kv_req Op option"
  h_start :: "(int \<times> int) option"
  h_chan :: "nat option"
  h_reply :: "(Err \<times> kv_res option) option"

definition new_handler :: "nat \<Rightarrow> int \<Rightarrow> kv_handler" where
  "new_handler i p = \<lparr>h_opno = i, h_server = p, h_op = None, h_start = None, h_chan = None, h_reply = None\<rparr>"

text \<open>The reply of a handler; \<open>None\<close> is a failed type assertion.\<close>

fun handler_reply :: "kv_request \<Rightarrow> Err \<times> kv_res option \<Rightarrow> kv_res option" where
  "handler_reply (KvModel.ReqGet g) r = map_option ResGet (KVServer_Get_reply r GetReply0)"
| "handler_reply (KvModel.ReqPut a) r = map_option ResPut (KVServer_Put_reply r PutReply0)"

fun reply_err :: "kv_res \<Rightarrow> Err" where
  "reply_err (ResGet r) = getr_Err r"
| "reply_err (ResPut r) = putr_Err r"

text \<open>The loop of the clerk's \<open>Get\<close> or \<open>Put\<close> for an operation: about to call a server, with the flag \<open>first\<close>; waiting for the call, which is a handler;
  returned, with what the test will record.\<close>

datatype clerk_state = Idle | Calling nat int bool | Waiting nat int bool nat | Returned nat "KvInput \<times> KvOutput"

record kv_clerk =
  kc_leader :: int
  kc_state :: clerk_state

fun clerk_opno :: "clerk_state \<Rightarrow> nat option" where
  "clerk_opno Idle = None"
| "clerk_opno (Calling i l f) = Some i"
| "clerk_opno (Waiting i l f h) = Some i"
| "clerk_opno (Returned i io) = Some i"

section \<open>The system\<close>

record 'x kv_system =
  ks_sv :: 'x
  ks_clerks :: "nat \<Rightarrow> kv_clerk"
  ks_handlers :: "kv_handler list"
  ks_ops :: "clerk_op list"
  ks_log :: "Operation list"
  ks_now :: int

definition ks_init :: "'x \<Rightarrow> int \<Rightarrow> 'x kv_system" where
  "ks_init x now = \<lparr>ks_sv = x, ks_clerks = (\<lambda>_. \<lparr>kc_leader = 0, kc_state = Idle\<rparr>), ks_handlers = [], ks_ops = [], ks_log = [], ks_now = now\<rparr>"

text \<open>The version that a finished operation has told about a key: the version \<open>Get\<close> returned, or the one after a \<open>Put\<close> that returned \<open>OK\<close>.\<close>

definition told :: "clerk_op \<Rightarrow> string \<Rightarrow> Tversion \<Rightarrow> bool" where
  "told c key v \<longleftrightarrow> (case co_result c of
       None \<Rightarrow> False
     | Some ((inp, out), _) \<Rightarrow>
         (case co_req c of
            KvModel.ReqGet g \<Rightarrow> get_Key g = key \<and> v = out_Version out
          | KvModel.ReqPut a \<Rightarrow> put_Key a = key \<and> out_Err out = OK \<and> v = put_Version a + 1))"

text \<open>The clients of the tests put with version 0 or with a version they were told.\<close>

definition fair_req :: "clerk_op list \<Rightarrow> kv_request \<Rightarrow> bool" where
  "fair_req ops req \<longleftrightarrow> (case req of
       KvModel.ReqGet g \<Rightarrow> True
     | KvModel.ReqPut a \<Rightarrow> put_Version a = 0 \<or> (\<exists>c \<in> set ops. told c (put_Key a) (put_Version a)))"

definition ids_of :: "kv_handler list \<Rightarrow> int set" where
  "ids_of hs = {op_Id op | h op. h \<in> set hs \<and> h_op h = Some op}"

abbreviation set_clerk :: "nat \<Rightarrow> clerk_state \<Rightarrow> 'x kv_system \<Rightarrow> 'x kv_system" where
  "set_clerk c st s \<equiv> s\<lparr>ks_clerks := (ks_clerks s)(c := (ks_clerks s c)\<lparr>kc_state := st\<rparr>)\<rparr>"

abbreviation set_handler :: "nat \<Rightarrow> kv_handler \<Rightarrow> 'x kv_system \<Rightarrow> 'x kv_system" where
  "set_handler j h s \<equiv> s\<lparr>ks_handlers := (ks_handlers s)[j := h]\<rparr>"

text \<open>
  Steps of the clients: time passes; a client notes the time and calls its clerk; the clerk sends a request to a server; the clerk gets no answer, or the answer
  \<open>ErrWrongLeader\<close>, and goes on to the next server; the clerk gets another answer and returns; the client notes the time and records the operation.
  There are \<open>n\<close> servers, which all clerks have in the same order.  A handler outlives a call that has failed.
\<close>

inductive ck_step :: "int \<Rightarrow> 'x kv_system \<Rightarrow> 'x kv_system \<Rightarrow> bool" for n where
  ck_tick: "ks_now s \<le> t \<Longrightarrow> ck_step n s (s\<lparr>ks_now := t\<rparr>)"
| ck_call: "kc_state (ks_clerks s c) = Idle \<Longrightarrow> fair_req (ks_ops s) req \<Longrightarrow>
    ck_step n s ((set_clerk c (Calling (length (ks_ops s)) (kc_leader (ks_clerks s c)) True) s)
      \<lparr>ks_ops := ks_ops s @ [\<lparr>co_client = int c, co_req = req, co_call = ks_now s, co_result = None\<rparr>]\<rparr>)"
| ck_send: "kc_state (ks_clerks s c) = Calling i p first \<Longrightarrow>
    ck_step n s ((set_clerk c (Waiting i p first (length (ks_handlers s))) s)\<lparr>ks_handlers := ks_handlers s @ [new_handler i p]\<rparr>)"
| ck_fail: "kc_state (ks_clerks s c) = Waiting i p first j \<Longrightarrow> ck_step n s (set_clerk c (Calling i ((p + 1) mod n) False) s)"
| ck_wrong: "kc_state (ks_clerks s c) = Waiting i p first j \<Longrightarrow> h_reply (ks_handlers s ! j) = Some res \<Longrightarrow>
    handler_reply (co_req (ks_ops s ! i)) res = Some r \<Longrightarrow> reply_err r = ErrWrongLeader \<Longrightarrow>
    ck_step n s (set_clerk c (Calling i ((p + 1) mod n) False) s)"
| ck_return: "kc_state (ks_clerks s c) = Waiting i p first j \<Longrightarrow> h_reply (ks_handlers s ! j) = Some res \<Longrightarrow>
    handler_reply (co_req (ks_ops s ! i)) res = Some r \<Longrightarrow> reply_err r \<noteq> ErrWrongLeader \<Longrightarrow> clerk_record first (co_req (ks_ops s ! i)) r = Some io \<Longrightarrow>
    ck_step n s (s\<lparr>ks_clerks := (ks_clerks s)(c := \<lparr>kc_leader = p, kc_state = Returned i io\<rparr>)\<rparr>)"
| ck_record: "kc_state (ks_clerks s c) = Returned i io \<Longrightarrow> c' = (ks_ops s ! i)\<lparr>co_result := Some (io, ks_now s)\<rparr> \<Longrightarrow>
    ck_step n s ((set_clerk c Idle s)\<lparr>ks_ops := (ks_ops s)[i := c'], ks_log := OpLog_Append (ks_log s) (operation c')\<rparr>)"

text \<open>Clients and servers take turns.\<close>

inductive ks_run :: "('x kv_system \<Rightarrow> 'x kv_system \<Rightarrow> bool) \<Rightarrow> int \<Rightarrow> 'x kv_system \<Rightarrow> 'x kv_system \<Rightarrow> bool" for srv n where
  ks_refl: "ks_run srv n s s"
| ks_client: "ks_run srv n s s' \<Longrightarrow> ck_step n s' s'' \<Longrightarrow> ks_run srv n s s''"
| ks_server: "ks_run srv n s s' \<Longrightarrow> srv s' s'' \<Longrightarrow> ks_run srv n s s''"

section \<open>What servers promise\<close>

text \<open>What the single-node server answers to entry \<open>k\<close> of the log.\<close>

definition answer :: "kv_req Op list \<Rightarrow> nat \<Rightarrow> kv_res" where
  "answer log k = snd (serve_req (at_log (map op_Command log) k) (op_Command (log ! k)))"

definition handler_ok :: "kv_req Op list \<Rightarrow> clerk_op list \<Rightarrow> kv_handler \<Rightarrow> bool" where
  "handler_ok log ops h \<longleftrightarrow> h_opno h < length ops
     \<and> (\<forall>op. h_op h = Some op \<longrightarrow> op_Command op = kv_cmd (co_req (ops ! h_opno h)))
     \<and> (\<forall>e res. h_reply h = Some (e, res) \<longrightarrow> e = ErrWrongLeader \<or> e = OK \<and> (\<exists>k < length log. h_op h = Some (log ! k) \<and> res = Some (answer log k)))"

definition ids_differ :: "kv_handler list \<Rightarrow> bool" where
  "ids_differ hs \<longleftrightarrow> (\<forall>a < length hs. \<forall>b < length hs. \<forall>op op'. h_op (hs ! a) = Some op \<and> h_op (hs ! b) = Some op' \<and> op_Id op = op_Id op' \<longrightarrow> a = b)"

text \<open>Every operation of the log was submitted by a handler, and only once.\<close>

definition served :: "kv_req Op list \<Rightarrow> kv_handler list \<Rightarrow> clerk_op list \<Rightarrow> bool" where
  "served log hs ops \<longleftrightarrow> distinct log \<and> (\<forall>op \<in> set log. \<exists>h \<in> set hs. h_op h = Some op) \<and> ids_differ hs \<and> (\<forall>h \<in> set hs. handler_ok log ops h)"

lemma servedD:
  assumes "served log hs ops"
  shows "distinct log" "op \<in> set log \<Longrightarrow> \<exists>h \<in> set hs. h_op h = Some op" "ids_differ hs" "h \<in> set hs \<Longrightarrow> handler_ok log ops h"
  using assms by (auto simp: served_def)

lemma answer_more: "k < length log \<Longrightarrow> answer (log @ ext) k = answer log k"
  by (simp add: answer_def at_log_append nth_append)

lemma handler_ok_more: "handler_ok log ops h \<Longrightarrow> handler_ok (log @ ext) ops h"
  unfolding handler_ok_def by (auto simp: nth_append answer_more)

lemma handler_ok_ops:
  "handler_ok log ops h \<Longrightarrow> length ops \<le> length ops' \<Longrightarrow> (\<And>i. i < length ops \<Longrightarrow> co_req (ops' ! i) = co_req (ops ! i)) \<Longrightarrow> handler_ok log ops' h"
  by (auto simp: handler_ok_def)

lemma ids_differ_set:
  assumes hs: "ids_differ hs" and j: "j < length hs"
    and ids: "\<And>op. h_op h = Some op \<Longrightarrow> h_op (hs ! j) = Some op \<or> op_Id op \<notin> ids_of hs"
  shows "ids_differ (hs[j := h])"
proof -
  have old: "op_Id op \<noteq> op_Id op'" if "a < length hs" "a \<noteq> j" "h_op (hs ! a) = Some op" "h_op h = Some op'" for a op op'
  proof
    assume eq: "op_Id op = op_Id op'"
    have "op_Id op \<in> ids_of hs" using that(1,3) unfolding ids_of_def by (auto intro!: exI nth_mem)
    with ids [OF that(4)] eq have "h_op (hs ! j) = Some op'" by auto
    with hs eq that j show False unfolding ids_differ_def by blast
  qed
  show ?thesis unfolding ids_differ_def
  proof (intro allI impI)
    fix a b op op' assume ab: "a < length (hs[j := h])" "b < length (hs[j := h])"
      and ops: "h_op (hs[j := h] ! a) = Some op \<and> h_op (hs[j := h] ! b) = Some op' \<and> op_Id op = op_Id op'"
    show "a = b"
    proof (rule ccontr)
      assume "a \<noteq> b"
      then consider "a = j" "b \<noteq> j" | "b = j" "a \<noteq> j" | "a \<noteq> j" "b \<noteq> j" by blast
      then show False
      proof cases
        case 1
        then have "h_op h = Some op" "h_op (hs ! b) = Some op'" using ops ab by simp_all
        with old [of b op' op] 1 ab ops show False by simp
      next
        case 2
        then have "h_op h = Some op'" "h_op (hs ! a) = Some op" using ops ab by simp_all
        with old [of a op op'] 2 ab ops show False by simp
      next
        case 3
        then have "h_op (hs ! a) = Some op" "h_op (hs ! b) = Some op'" using ops by simp_all
        with hs ab ops \<open>a \<noteq> b\<close> show False unfolding ids_differ_def by (metis length_list_update)
      qed
    qed
  qed
qed

section \<open>The clients' side\<close>

text \<open>The attempts of operation \<open>i\<close>: its handlers and what they submit.\<close>

definition tries :: "kv_handler list \<Rightarrow> nat \<Rightarrow> (nat \<times> kv_req Op option) set" where
  "tries hs i = {(a, h_op (hs ! a)) | a. a < length hs \<and> h_opno (hs ! a) = i}"

lemma tries_iff: "(a, q) \<in> tries hs i \<longleftrightarrow> a < length hs \<and> h_opno (hs ! a) = i \<and> q = h_op (hs ! a)"
  by (auto simp: tries_def)

lemma tries_set: "j < length hs \<Longrightarrow> h_opno h = h_opno (hs ! j) \<Longrightarrow> h_op h = h_op (hs ! j) \<Longrightarrow> tries (hs[j := h]) = tries hs"
  by (rule ext, rule set_eqI) (auto simp: tries_iff nth_list_update)

lemma tries_begin:
  assumes "j < length hs" "h_op (hs ! j) = None" "h_opno h = h_opno (hs ! j)" "h_op h = Some op"
  shows "tries (hs[j := h]) = (tries hs)(h_opno (hs ! j) := insert (j, Some op) (tries hs (h_opno (hs ! j)) - {(j, None)}))"
proof (rule ext, rule set_eqI)
  fix i and x :: "nat \<times> kv_req Op option"
  obtain a q where x: "x = (a, q)" by (cases x)
  show "x \<in> tries (hs[j := h]) i \<longleftrightarrow> x \<in> ((tries hs)(h_opno (hs ! j) := insert (j, Some op) (tries hs (h_opno (hs ! j)) - {(j, None)}))) i"
    using assms unfolding x by (cases "a = j"; cases "i = h_opno (hs ! j)") (auto simp: tries_iff)
qed

lemma tries_new: "tries (hs @ [new_handler i p]) = (tries hs)(i := insert (length hs, None) (tries hs i))"
  by (rule ext, rule set_eqI) (auto simp: tries_iff nth_append new_handler_def less_Suc_eq split: if_splits)

text \<open>Operation \<open>i\<close> was answered by entry \<open>k\<close> of the log, and the clerk made \<open>io\<close> of the answer; if the flag \<open>first\<close> was set, there is no other attempt.\<close>

definition answered :: "kv_req Op list \<Rightarrow> kv_request \<Rightarrow> (nat \<times> kv_req Op option) set \<Rightarrow> KvInput \<times> KvOutput \<Rightarrow> nat \<Rightarrow> bool" where
  "answered log req T io k \<longleftrightarrow> k < length log \<and> (\<exists>a. (a, Some (log ! k)) \<in> T)
     \<and> (\<exists>first. clerk_record first req (answer log k) = Some io \<and> (first \<longrightarrow> (\<forall>(a, q) \<in> T. q = Some (log ! k))))"

fun clerk_ok :: "kv_req Op list \<Rightarrow> clerk_op list \<Rightarrow> (nat \<Rightarrow> (nat \<times> kv_req Op option) set) \<Rightarrow> clerk_state \<Rightarrow> bool" where
  "clerk_ok log ops T Idle \<longleftrightarrow> True"
| "clerk_ok log ops T (Calling i p first) \<longleftrightarrow> (first \<longrightarrow> T i = {})"
| "clerk_ok log ops T (Waiting i p first j) \<longleftrightarrow> (\<exists>q. (j, q) \<in> T i) \<and> (first \<longrightarrow> (\<forall>(a, q) \<in> T i. a = j))"
| "clerk_ok log ops T (Returned i io) \<longleftrightarrow> (\<exists>k. answered log (co_req (ops ! i)) (T i) io k)"

definition pending :: "clerk_op list \<Rightarrow> nat \<Rightarrow> nat \<Rightarrow> bool" where
  "pending ops c i \<longleftrightarrow> i < length ops \<and> co_result (ops ! i) = None \<and> co_client (ops ! i) = int c"

text \<open>\<open>cl i\<close> and \<open>rl i\<close> are the lengths of the log when operation \<open>i\<close> was called and when it was recorded.\<close>

definition op_ok :: "kv_req Op list \<Rightarrow> (nat \<Rightarrow> nat) \<Rightarrow> (nat \<Rightarrow> nat) \<Rightarrow> 'x kv_system \<Rightarrow> nat \<Rightarrow> bool" where
  "op_ok log cl rl s i \<longleftrightarrow> cl i \<le> length log \<and> co_call (ks_ops s ! i) \<le> ks_now s
     \<and> (\<forall>a k. (a, Some (log ! k)) \<in> tries (ks_handlers s) i \<and> k < length log \<longrightarrow> cl i \<le> k)
     \<and> (co_result (ks_ops s ! i) = None \<longrightarrow> (\<exists>c. clerk_opno (kc_state (ks_clerks s c)) = Some i))
     \<and> (\<forall>io ret. co_result (ks_ops s ! i) = Some (io, ret) \<longrightarrow> ret \<le> ks_now s \<and> rl i \<le> length log
          \<and> (\<exists>k < rl i. answered log (co_req (ks_ops s ! i)) (tries (ks_handlers s) i) io k)
          \<and> (\<forall>j < length (ks_ops s). ret < co_call (ks_ops s ! j) \<longrightarrow> rl i \<le> cl j))
     \<and> (\<forall>a. co_req (ks_ops s ! i) = KvModel.ReqPut a \<longrightarrow> unat (put_Version a) \<le> nput (map op_Command log) (put_Key a) (cl i))"

definition recorded :: "clerk_op list \<Rightarrow> Operation list" where
  "recorded ops = map operation (filter (\<lambda>c. co_result c \<noteq> None) ops)"

definition client_inv :: "kv_req Op list \<Rightarrow> (nat \<Rightarrow> nat) \<Rightarrow> (nat \<Rightarrow> nat) \<Rightarrow> 'x kv_system \<Rightarrow> bool" where
  "client_inv log cl rl s \<longleftrightarrow> (\<forall>c. clerk_ok log (ks_ops s) (tries (ks_handlers s)) (kc_state (ks_clerks s c)))
     \<and> (\<forall>c i. clerk_opno (kc_state (ks_clerks s c)) = Some i \<longrightarrow> pending (ks_ops s) c i)
     \<and> (\<forall>i < length (ks_ops s). op_ok log cl rl s i) \<and> mset (ks_log s) = mset (recorded (ks_ops s))"

lemma client_invD:
  assumes "client_inv log cl rl s"
  shows "clerk_ok log (ks_ops s) (tries (ks_handlers s)) (kc_state (ks_clerks s c))"
    "clerk_opno (kc_state (ks_clerks s c)) = Some i \<Longrightarrow> pending (ks_ops s) c i"
    "i < length (ks_ops s) \<Longrightarrow> op_ok log cl rl s i" "mset (ks_log s) = mset (recorded (ks_ops s))"
  using assms by (auto simp: client_inv_def)

lemma op_okD:
  assumes "op_ok log cl rl s i"
  shows "cl i \<le> length log" "co_call (ks_ops s ! i) \<le> ks_now s"
    "(a, Some (log ! k)) \<in> tries (ks_handlers s) i \<Longrightarrow> k < length log \<Longrightarrow> cl i \<le> k"
    "co_result (ks_ops s ! i) = None \<Longrightarrow> \<exists>c. clerk_opno (kc_state (ks_clerks s c)) = Some i"
    "co_result (ks_ops s ! i) = Some (io, ret) \<Longrightarrow> ret \<le> ks_now s"
    "co_result (ks_ops s ! i) = Some (io, ret) \<Longrightarrow> rl i \<le> length log"
    "co_result (ks_ops s ! i) = Some (io, ret) \<Longrightarrow> \<exists>k < rl i. answered log (co_req (ks_ops s ! i)) (tries (ks_handlers s) i) io k"
    "co_result (ks_ops s ! i) = Some (io, ret) \<Longrightarrow> j < length (ks_ops s) \<Longrightarrow> ret < co_call (ks_ops s ! j) \<Longrightarrow> rl i \<le> cl j"
    "co_req (ks_ops s ! i) = KvModel.ReqPut a' \<Longrightarrow> unat (put_Version a') \<le> nput (map op_Command log) (put_Key a') (cl i)"
  using assms by (auto simp: op_ok_def)

text \<open>Operations of different clerks are different.\<close>

lemma clerk_opno_inj:
  assumes "client_inv log cl rl s" "clerk_opno (kc_state (ks_clerks s c)) = Some i" "clerk_opno (kc_state (ks_clerks s c')) = Some i"
  shows "c = c'"
  using client_invD(2) [OF assms(1,2)] client_invD(2) [OF assms(1,3)] by (simp add: pending_def)

text \<open>A longer log.\<close>

lemma effective_append: "k < length L \<Longrightarrow> effective (L @ L') key k = effective L key k"
  by (simp add: effective_def at_log_append nth_append)

lemma nput_append: "k \<le> length L \<Longrightarrow> nput (L @ L') key k = nput L key k"
  unfolding nput_def by (intro arg_cong [of _ _ length] filter_cong) (auto simp: effective_append)

lemma answered_more: "answered log req T io k \<Longrightarrow> answered (log @ ext) req T io k"
  by (auto simp: answered_def answer_more nth_append)

lemma clerk_ok_more: "clerk_ok log ops T st \<Longrightarrow> clerk_ok (log @ ext) ops T st"
  by (cases st) (auto intro: answered_more)

lemma op_ok_more: "op_ok log cl rl s i \<Longrightarrow> op_ok (log @ ext) cl rl s i"
proof -
  assume ok: "op_ok log cl rl s i"
  have "cl i \<le> k" if "(a, Some ((log @ ext) ! k)) \<in> tries (ks_handlers s) i" for a k
    using op_okD(1,3) [OF ok] that by (cases "k < length log") (auto simp: nth_append)
  with ok answered_more [of log _ _ _ _ ext] show ?thesis unfolding op_ok_def by (auto simp: nput_append) blast+
qed

lemma client_inv_more: "client_inv log cl rl s \<Longrightarrow> client_inv (log @ ext) cl rl s"
  by (auto simp: client_inv_def intro: clerk_ok_more op_ok_more)

lemma op_ok_frame:
  assumes "op_ok log cl rl s i" "tries (ks_handlers s') i = tries (ks_handlers s) i" "ks_ops s' = ks_ops s" "ks_now s \<le> ks_now s'"
    "\<And>c. clerk_opno (kc_state (ks_clerks s' c)) = clerk_opno (kc_state (ks_clerks s c))"
  shows "op_ok log cl rl s' i"
  unfolding op_ok_def [of log cl rl s'] assms(2,3,5)
  using op_okD [OF assms(1)] order_trans [OF _ assms(4)] by (intro conjI allI impI) blast+

text \<open>Steps that the clients do not see.\<close>

lemma client_inv_frame:
  assumes "client_inv log cl rl s" "tries (ks_handlers s') = tries (ks_handlers s)" "ks_ops s' = ks_ops s" "ks_clerks s' = ks_clerks s"
    "ks_log s' = ks_log s" "ks_now s \<le> ks_now s'"
  shows "client_inv log cl rl s'"
proof -
  have "op_ok log cl rl s' i" if "op_ok log cl rl s i" for i by (rule op_ok_frame [OF that]) (use assms in simp_all)
  with assms(1-5) show ?thesis by (simp add: client_inv_def)
qed

text \<open>A clerk goes on with its operation.\<close>

lemma client_inv_clerk:
  assumes inv: "client_inv log cl rl s" and i: "clerk_opno (kc_state (ks_clerks s c)) = Some i" "clerk_opno (kc_state ck) = Some i"
    and ok: "clerk_ok log (ks_ops s) (tries (ks_handlers s)) (kc_state ck)"
  shows "client_inv log cl rl (s\<lparr>ks_clerks := (ks_clerks s)(c := ck)\<rparr>)"
proof -
  let ?s = "s\<lparr>ks_clerks := (ks_clerks s)(c := ck)\<rparr>"
  have same: "clerk_opno (kc_state (ks_clerks ?s c')) = clerk_opno (kc_state (ks_clerks s c'))" for c' using i by simp
  have "op_ok log cl rl ?s j" if "op_ok log cl rl s j" for j by (rule op_ok_frame [OF that _ _ _ same]) simp_all
  then have "\<forall>j < length (ks_ops ?s). op_ok log cl rl ?s j" using client_invD(3) [OF inv] by simp
  moreover have "\<forall>c' j. clerk_opno (kc_state (ks_clerks ?s c')) = Some j \<longrightarrow> pending (ks_ops ?s) c' j"
    unfolding same using client_invD(2) [OF inv] by simp
  moreover have "\<forall>c'. clerk_ok log (ks_ops ?s) (tries (ks_handlers ?s)) (kc_state (ks_clerks ?s c'))" using client_invD(1) [OF inv] ok by simp
  ultimately show ?thesis using client_invD(4) [OF inv] unfolding client_inv_def by simp
qed

text \<open>A request is sent or starts to be executed: only the attempts of one operation change.\<close>

lemma client_inv_tries:
  assumes inv: "client_inv log cl rl s" and s': "ks_ops s' = ks_ops s" "ks_log s' = ks_log s" "ks_now s' = ks_now s"
    and T: "\<And>j. j \<noteq> i \<Longrightarrow> tries (ks_handlers s') j = tries (ks_handlers s) j"
    and cks: "\<And>c'. clerk_opno (kc_state (ks_clerks s' c')) = clerk_opno (kc_state (ks_clerks s c'))"
    and ok: "\<And>c'. clerk_opno (kc_state (ks_clerks s' c')) = Some i \<Longrightarrow> clerk_ok log (ks_ops s) (tries (ks_handlers s')) (kc_state (ks_clerks s' c'))"
    and rest: "\<And>c'. clerk_opno (kc_state (ks_clerks s' c')) \<noteq> Some i \<Longrightarrow> ks_clerks s' c' = ks_clerks s c'"
    and new: "i < length (ks_ops s) \<Longrightarrow> op_ok log cl rl s' i"
  shows "client_inv log cl rl s'"
proof -
  have "clerk_ok log (ks_ops s) (tries (ks_handlers s')) st" if "clerk_ok log (ks_ops s) (tries (ks_handlers s)) st" "clerk_opno st \<noteq> Some i" for st
    using that T by (cases st) auto
  then have "clerk_ok log (ks_ops s) (tries (ks_handlers s')) (kc_state (ks_clerks s' c'))" for c'
    using ok [of c'] rest [of c'] cks [of c'] client_invD(1) [OF inv, of c'] by (metis (no_types))
  moreover have "op_ok log cl rl s' j" if "j < length (ks_ops s)" for j
  proof (cases "j = i")
    case False
    then show ?thesis by (intro op_ok_frame [OF client_invD(3) [OF inv that] T _ _ cks]) (simp_all add: s')
  qed (use new that in simp)
  ultimately show ?thesis using client_invD(2,4) [OF inv] unfolding client_inv_def s' cks by simp
qed

text \<open>A key has reached every version that clients were told.\<close>

lemma unat_of_nat_le: "unat (of_nat n :: u64) \<le> n"
  by (simp add: unsigned_of_nat take_bit_nat_less_eq_self)

lemma nput_get:
  assumes "k \<le> length L" shows "unat (getr_Version (KVServer_get (at_log L k) g)) \<le> nput L (get_Key g) k"
proof -
  have "getr_Version (KVServer_get (at_log L k) g) = st_Version (model_of (at_log L k) (get_Key g))"
    by (auto simp: KVServer_defs model_of_def KvModel_Init_def split: option.splits)
  with version_nput [OF assms] unat_of_nat_le show ?thesis by simp
qed

lemma nput_put:
  assumes "k < length L" "L ! k = KvRaft.ReqPut a" "putr_Err (snd (KVServer_put (at_log L k) a)) = OK"
  shows "unat (put_Version a + 1) \<le> nput L (put_Key a) (Suc k)"
proof -
  have v: "st_Version (model_of (at_log L k) (put_Key a)) = put_Version a" using assms(3) by (simp add: put_errs split: if_splits)
  then have "effective L (put_Key a) k" using assms(2) by (simp add: effective_def)
  then have "nput L (put_Key a) (Suc k) = Suc (nput L (put_Key a) k)" by (simp add: nput_Suc)
  moreover have "put_Version a + 1 = of_nat (Suc (nput L (put_Key a) k))" using version_nput [of k L "put_Key a"] assms(1) v by (simp add: add.commute)
  ultimately show ?thesis using unat_of_nat_le [of "Suc (nput L (put_Key a) k)"] by metis
qed

lemma told_version:
  assumes inv: "client_inv log cl rl s" and ok: "\<forall>h \<in> set (ks_handlers s). handler_ok log (ks_ops s) h" and c: "c \<in> set (ks_ops s)" "told c key v"
  shows "unat v \<le> nput (map op_Command log) key (length log)"
proof -
  let ?L = "map op_Command log"
  from c(1) obtain i where i: "i < length (ks_ops s)" "c = ks_ops s ! i" by (metis in_set_conv_nth)
  from c(2) obtain inp out ret where res: "co_result (ks_ops s ! i) = Some ((inp, out), ret)" by (auto simp: told_def i(2) split: option.splits)
  from op_okD(7) [OF client_invD(3) [OF inv i(1)] res] obtain k a first where k: "k < length log" "(a, Some (log ! k)) \<in> tries (ks_handlers s) i"
    "clerk_record first (co_req c) (answer log k) = Some (inp, out)" by (auto simp: answered_def i(2))
  have "op_Command (log ! k) = kv_cmd (co_req c)" using k(2) ok by (auto simp: tries_iff handler_ok_def i(2))
  then have ans: "answer log k = snd (serve_req (at_log ?L k) (kv_cmd (co_req c)))" "?L ! k = kv_cmd (co_req c)" using k(1) by (simp_all add: answer_def)
  show ?thesis
  proof (cases "co_req c")
    case (ReqGet g)
    with c(2) k(3) ans(1) have "v = getr_Version (KVServer_get (at_log ?L k) g)" "get_Key g = key"
      by (auto simp: told_def i(2) res record_Get_def)
    with nput_get [of k ?L g] nput_mono [of k "length log" ?L key] k(1) show ?thesis by simp
  next
    case (ReqPut a)
    with c(2) k(3) ans(1) have "v = put_Version a + 1" "put_Key a = key" "Clerk_Put_verdict first (putr_Err (snd (KVServer_put (at_log ?L k) a))) = OK"
      by (auto simp: told_def i(2) res record_Put_def split_beta)
    moreover from this(3) have "putr_Err (snd (KVServer_put (at_log ?L k) a)) = OK" by (auto simp: Clerk_Put_verdict_def split: if_splits)
    ultimately show ?thesis using nput_put [of k ?L a] nput_mono [of "Suc k" "length log" ?L key] k(1) ans(2) ReqPut by simp
  qed
qed

text \<open>A client calls its clerk.\<close>

lemma client_inv_call:
  assumes inv: "client_inv log cl rl s" and ok: "\<forall>h \<in> set (ks_handlers s). handler_ok log (ks_ops s) h"
    and idle: "kc_state (ks_clerks s c) = Idle" and fair: "fair_req (ks_ops s) req"
    and s': "s' = (set_clerk c (Calling (length (ks_ops s)) (kc_leader (ks_clerks s c)) True) s)
      \<lparr>ks_ops := ks_ops s @ [\<lparr>co_client = int c, co_req = req, co_call = ks_now s, co_result = None\<rparr>]\<rparr>"
  shows "client_inv log (cl(length (ks_ops s) := length log)) rl s'"
proof -
  let ?N = "length (ks_ops s)" and ?T = "tries (ks_handlers s)"
  let ?cl = "cl(?N := length log)"
  have none: "?T ?N = {}" using ok by (auto simp: tries_def handler_ok_def dest!: bspec [OF _ nth_mem])
  have op: "ks_ops s' ! i = ks_ops s ! i" if "i < ?N" for i using that by (simp add: s' nth_append)
  have st: "kc_state (ks_clerks s' c') = (if c' = c then Calling ?N (kc_leader (ks_clerks s c)) True else kc_state (ks_clerks s c'))" for c' by (simp add: s')
  have pend: "i < ?N" if "clerk_opno (kc_state (ks_clerks s c')) = Some i" for c' i using client_invD(2) [OF inv that] by (simp add: pending_def)
  have "clerk_ok log (ks_ops s') ?T (kc_state (ks_clerks s c'))" for c'
    using client_invD(1) [OF inv, of c'] op pend [of c'] by (cases "kc_state (ks_clerks s c')") auto
  then have 1: "\<forall>c'. clerk_ok log (ks_ops s') (tries (ks_handlers s')) (kc_state (ks_clerks s' c'))" using none by (simp add: st s')
  have 2: "\<forall>c' i. clerk_opno (kc_state (ks_clerks s' c')) = Some i \<longrightarrow> pending (ks_ops s') c' i"
  proof (intro allI impI)
    fix c' i assume i: "clerk_opno (kc_state (ks_clerks s' c')) = Some i"
    show "pending (ks_ops s') c' i"
    proof (cases "c' = c")
      case True
      then show ?thesis using i by (auto simp: pending_def s' nth_append)
    next
      case False
      then have "pending (ks_ops s) c' i" using i client_invD(2) [OF inv] by (simp add: st)
      then show ?thesis using op [of i] by (simp add: pending_def) (simp add: s')
    qed
  qed
  have "op_ok log ?cl rl s' i" if i: "i < ?N" for i
  proof -
    note P = op_okD [OF client_invD(3) [OF inv i]]
    have late: "rl i \<le> ?cl j" if "co_result (ks_ops s ! i) = Some (io, ret)" "j < length (ks_ops s')" "ret < co_call (ks_ops s' ! j)" for io ret j
      using P(6,8) [OF that(1)] that(2,3) op [of j] by (cases "j = ?N") (auto simp: s' less_Suc_eq)
    have "\<exists>c'. clerk_opno (kc_state (ks_clerks s' c')) = Some i" if "co_result (ks_ops s ! i) = None"
      using P(4) [OF that] idle st by (metis clerk_opno.simps(1) option.distinct(1))
    moreover have "ks_now s' = ks_now s" "ks_handlers s' = ks_handlers s" "?cl i = cl i" using i by (simp_all add: s')
    ultimately show ?thesis unfolding op_ok_def op [OF i] using P late by (intro conjI allI impI) auto
  qed
  moreover have "op_ok log ?cl rl s' ?N"
  proof -
    have "ks_ops s' ! ?N = \<lparr>co_client = int c, co_req = req, co_call = ks_now s, co_result = None\<rparr>" by (simp add: s')
    moreover have "unat (put_Version a) \<le> nput (map op_Command log) (put_Key a) (length log)" if "req = KvModel.ReqPut a" for a
      using fair that told_version [OF inv ok] by (auto simp: fair_req_def)
    ultimately show ?thesis using none st [of c] by (auto simp: op_ok_def s')
  qed
  ultimately have 3: "\<forall>i < length (ks_ops s'). op_ok log ?cl rl s' i" by (simp add: s' less_Suc_eq)
  have "mset (ks_log s') = mset (recorded (ks_ops s'))" using client_invD(4) [OF inv] by (simp add: s' recorded_def)
  with 1 2 3 show ?thesis by (simp add: client_inv_def)
qed

text \<open>The clerk sends a request.\<close>

lemma client_inv_send:
  assumes inv: "client_inv log cl rl s" and st: "kc_state (ks_clerks s c) = Calling i p first"
    and s': "s' = (set_clerk c (Waiting i p first (length (ks_handlers s))) s)\<lparr>ks_handlers := ks_handlers s @ [new_handler i p]\<rparr>"
  shows "client_inv log cl rl s'"
proof -
  let ?T = "insert (length (ks_handlers s), None) (tries (ks_handlers s) i)"
  have opno: "clerk_opno (kc_state (ks_clerks s c)) = Some i" using st by simp
  have same: "clerk_opno (kc_state (ks_clerks s' c')) = clerk_opno (kc_state (ks_clerks s c'))" for c' using st by (simp add: s')
  have T: "tries (ks_handlers s') = (tries (ks_handlers s))(i := ?T)" by (simp add: s' tries_new)
  have me: "c' = c" if "clerk_opno (kc_state (ks_clerks s' c')) = Some i" for c' using clerk_opno_inj [OF inv _ opno] that same by simp
  have "first \<longrightarrow> tries (ks_handlers s) i = {}" using client_invD(1) [OF inv, of c] st by simp
  then have "clerk_ok log (ks_ops s) (tries (ks_handlers s')) (kc_state (ks_clerks s' c))" unfolding T by (auto simp: s')
  then have ok: "clerk_ok log (ks_ops s) (tries (ks_handlers s')) (kc_state (ks_clerks s' c'))" if "clerk_opno (kc_state (ks_clerks s' c')) = Some i" for c'
    using me [OF that] by simp
  have rest: "ks_clerks s' c' = ks_clerks s c'" if "clerk_opno (kc_state (ks_clerks s' c')) \<noteq> Some i" for c'
    using that opno same [of c'] by (cases "c' = c") (simp_all add: s')
  have "op_ok log cl rl s' i" if i: "i < length (ks_ops s)"
  proof -
    note P = op_okD [OF client_invD(3) [OF inv i]]
    have "co_result (ks_ops s ! i) = None" using client_invD(2) [OF inv opno] by (simp add: pending_def)
    moreover have "ks_ops s' = ks_ops s" "ks_now s' = ks_now s" by (simp_all add: s')
    ultimately show ?thesis unfolding op_ok_def T same using P(1-4,9) opno by (auto intro: P(3))
  qed
  from client_inv_tries [OF inv _ _ _ _ same ok rest this] show ?thesis by (simp add: T) (simp add: s')
qed

text \<open>The request starts to be executed.\<close>

lemma answered_deliver:
  assumes "answered log req T io k" "(j, None) \<in> T" shows "answered log req (insert (j, Some op) (T - {(j, None)})) io k"
  using assms by (auto simp: answered_def)

lemma client_inv_deliver:
  assumes inv: "client_inv log cl rl s" and log: "\<forall>op \<in> set log. \<exists>h \<in> set (ks_handlers s). h_op h = Some op"
    and j: "j < length (ks_handlers s)" "h_op (ks_handlers s ! j) = None" and new: "op_Id op \<notin> ids_of (ks_handlers s)"
    and h: "h_opno h = h_opno (ks_handlers s ! j)" "h_op h = Some op" and hs: "ks_handlers s' = (ks_handlers s)[j := h]"
    and s': "ks_ops s' = ks_ops s" "ks_clerks s' = ks_clerks s" "ks_log s' = ks_log s" "ks_now s' = ks_now s"
  shows "client_inv log cl rl s'"
proof -
  define i where "i = h_opno (ks_handlers s ! j)"
  let ?T = "insert (j, Some op) (tries (ks_handlers s) i - {(j, None)})"
  have T: "tries (ks_handlers s') = (tries (ks_handlers s))(i := ?T)"
    unfolding hs i_def by (rule tries_begin [OF j h])
  have inT: "(j, None) \<in> tries (ks_handlers s) i" using j by (simp add: tries_iff i_def)
  have fresh: "log ! k \<noteq> op" if "k < length log" for k
    using log that new nth_mem [OF that] unfolding ids_of_def by blast
  have ck: "clerk_ok log (ks_ops s) (tries (ks_handlers s')) (kc_state (ks_clerks s c'))" for c'
    using client_invD(1) [OF inv, of c'] inT answered_deliver [OF _ inT] unfolding T
    by (cases "kc_state (ks_clerks s c')") (auto split: if_splits, blast)
  have "op_ok log cl rl s' i" if i: "i < length (ks_ops s)"
  proof -
    note P = op_okD [OF client_invD(3) [OF inv i]]
    have "cl i \<le> k" if "(a, Some (log ! k)) \<in> ?T" "k < length log" for a k using that fresh [OF that(2)] P(3) [of a k] by auto
    moreover have "\<exists>k < rl i. answered log (co_req (ks_ops s ! i)) ?T io k" if "co_result (ks_ops s ! i) = Some (io, ret)" for io ret
      using P(7) [OF that] answered_deliver [OF _ inT] by blast
    moreover have "tries (ks_handlers s') i = ?T" by (simp only: T fun_upd_same)
    ultimately show ?thesis unfolding op_ok_def s' using P by (intro conjI allI impI) auto
  qed
  then show ?thesis by (intro client_inv_tries [OF inv, of _ i]) (use ck in \<open>auto simp: T\<close>, auto simp: s')
qed

text \<open>The clerk gets an answer and returns.\<close>

lemma handler_reply_answer:
  assumes "handler_ok log ops h" "h_reply h = Some res" "handler_reply req res = Some r" "reply_err r \<noteq> ErrWrongLeader"
  obtains k where "k < length log" "h_op h = Some (log ! k)" "r = answer log k"
proof -
  obtain e v where res: "res = (e, v)" by (cases res)
  have "e \<noteq> ErrWrongLeader"
    using assms(3,4) by (cases req) (auto simp: res KVServer_Get_reply_def KVServer_Put_reply_def)
  with assms(1,2) obtain k where "k < length log" "h_op h = Some (log ! k)" "res = (OK, Some (answer log k))" by (auto simp: handler_ok_def res)
  moreover from this(3) assms(3) have "r = answer log k"
    by (cases req) (auto simp: KVServer_Get_reply_def KVServer_Put_reply_def split: kv_res.splits)
  ultimately show thesis using that by blast
qed

lemma client_inv_return:
  assumes inv: "client_inv log cl rl s" and ok: "\<forall>h \<in> set (ks_handlers s). handler_ok log (ks_ops s) h" and st: "kc_state (ks_clerks s c) = Waiting i p first j"
    and r: "h_reply (ks_handlers s ! j) = Some res" "handler_reply (co_req (ks_ops s ! i)) res = Some r" "reply_err r \<noteq> ErrWrongLeader"
      "clerk_record first (co_req (ks_ops s ! i)) r = Some io"
  shows "client_inv log cl rl (s\<lparr>ks_clerks := (ks_clerks s)(c := \<lparr>kc_leader = p, kc_state = Returned i io\<rparr>)\<rparr>)"
proof (rule client_inv_clerk [OF inv, of _ i])
  from client_invD(1) [OF inv, of c] st obtain q where q: "(j, q) \<in> tries (ks_handlers s) i" and f: "first \<longrightarrow> (\<forall>(a, q) \<in> tries (ks_handlers s) i. a = j)" by auto
  then have j: "j < length (ks_handlers s)" "q = h_op (ks_handlers s ! j)" by (auto simp: tries_iff)
  from ok j(1) have "handler_ok log (ks_ops s) (ks_handlers s ! j)" by simp
  from handler_reply_answer [OF this r(1-3)] obtain k where k: "k < length log" "h_op (ks_handlers s ! j) = Some (log ! k)" "r = answer log k" .
  have "q' = Some (log ! k)" if "first" "(a, q') \<in> tries (ks_handlers s) i" for a q' using f that k(2) by (auto simp: tries_iff)
  with k q j(2) r(4) have "answered log (co_req (ks_ops s ! i)) (tries (ks_handlers s) i) io k" unfolding answered_def by auto
  then show "clerk_ok log (ks_ops s) (tries (ks_handlers s)) (kc_state \<lparr>kc_leader = p, kc_state = Returned i io\<rparr>)" by auto
qed (use st in simp_all)

text \<open>The client records the operation.\<close>

lemma mset_recorded:
  assumes "i < length ops" "co_result (ops ! i) = None" "co_result c \<noteq> None"
  shows "mset (recorded (ops[i := c])) = add_mset (operation c) (mset (recorded ops))"
proof -
  have "mset (ops[i := c]) = add_mset c (mset ops - {#ops ! i#})" by (rule mset_update [OF assms(1)])
  moreover have "mset ops = add_mset (ops ! i) (mset ops - {#ops ! i#})" using assms(1) by (simp add: nth_mem_mset)
  then have "filter_mset (\<lambda>c. co_result c \<noteq> None) (mset ops) = filter_mset (\<lambda>c. co_result c \<noteq> None) (mset ops - {#ops ! i#})"
    using assms(2) by (metis (mono_tags, lifting) filter_mset_add_mset)
  ultimately show ?thesis using assms(3) unfolding recorded_def mset_map mset_filter by simp
qed

lemma client_inv_record:
  assumes inv: "client_inv log cl rl s" and st: "kc_state (ks_clerks s c) = Returned i io" and c': "c' = (ks_ops s ! i)\<lparr>co_result := Some (io, ks_now s)\<rparr>"
    and s': "s' = (set_clerk c Idle s)\<lparr>ks_ops := (ks_ops s)[i := c'], ks_log := OpLog_Append (ks_log s) (operation c')\<rparr>"
  shows "client_inv log cl (rl(i := length log)) s'"
proof -
  let ?T = "tries (ks_handlers s)" and ?rl = "rl(i := length log)"
  have opno: "clerk_opno (kc_state (ks_clerks s c)) = Some i" using st by simp
  have i: "i < length (ks_ops s)" "co_result (ks_ops s ! i) = None" using client_invD(2) [OF inv opno] by (simp_all add: pending_def)
  have op: "co_req (ks_ops s' ! j) = co_req (ks_ops s ! j)" "co_call (ks_ops s' ! j) = co_call (ks_ops s ! j)" "co_client (ks_ops s' ! j) = co_client (ks_ops s ! j)"
    "j \<noteq> i \<Longrightarrow> ks_ops s' ! j = ks_ops s ! j" for j
    using i(1) by (cases "j = i"; simp add: s' c')+
  have len: "length (ks_ops s') = length (ks_ops s)" by (simp add: s')
  have sel: "ks_handlers s' = ks_handlers s" "ks_now s' = ks_now s" by (simp_all add: s')
  have cks: "kc_state (ks_clerks s' d) = (if d = c then Idle else kc_state (ks_clerks s d))" for d by (simp add: s')
  have other: "j \<noteq> i" if "clerk_opno (kc_state (ks_clerks s d)) = Some j" "d \<noteq> c" for d j using clerk_opno_inj [OF inv opno] that by blast
  have same: "clerk_ok log (ks_ops s') ?T x = clerk_ok log (ks_ops s) ?T x" for x by (cases x) (simp_all add: op(1))
  have 1: "\<forall>d. clerk_ok log (ks_ops s') (tries (ks_handlers s')) (kc_state (ks_clerks s' d))"
    unfolding sel same cks using client_invD(1) [OF inv] by simp
  have 2: "\<forall>d j. clerk_opno (kc_state (ks_clerks s' d)) = Some j \<longrightarrow> pending (ks_ops s') d j"
    using client_invD(2) [OF inv] other op(4) len by (auto simp: cks pending_def)
  have "op_ok log cl ?rl s' j" if j: "j < length (ks_ops s)" "j \<noteq> i" for j
  proof -
    note P = op_okD [OF client_invD(3) [OF inv j(1)]]
    have "\<exists>d. clerk_opno (kc_state (ks_clerks s' d)) = Some j" if "co_result (ks_ops s ! j) = None" using P(4) [OF that] opno j(2) cks by (metis option.inject)
    then show ?thesis unfolding op_ok_def sel len op(4) [OF j(2)] op(2) using P j(2) by (intro conjI allI impI) auto
  qed
  moreover have "op_ok log cl ?rl s' i"
  proof -
    note P = op_okD [OF client_invD(3) [OF inv i(1)]]
    have res: "co_result (ks_ops s' ! i) = Some (io, ks_now s)" using i(1) by (simp add: s' c')
    from client_invD(1) [OF inv, of c] st obtain k where "answered log (co_req (ks_ops s ! i)) (?T i) io k" by auto
    moreover from this have "k < length log" by (simp add: answered_def)
    moreover have "\<not> ks_now s < co_call (ks_ops s ! j)" if "j < length (ks_ops s)" for j using op_okD(2) [OF client_invD(3) [OF inv that]] by simp
    ultimately show ?thesis unfolding op_ok_def sel len op(1,2) res using P(1-3,9) by (intro conjI allI impI) auto
  qed
  ultimately have 3: "\<forall>j < length (ks_ops s'). op_ok log cl ?rl s' j" unfolding len by metis
  have "mset (ks_log s') = mset (recorded (ks_ops s'))"
    using client_invD(4) [OF inv] mset_recorded [OF i, of c'] by (simp add: s' OpLog_Append_def) (simp add: c')
  with 1 2 3 show ?thesis by (simp add: client_inv_def)
qed

section \<open>Runs\<close>

lemma client_step:
  assumes st: "ck_step n s s'" and inv: "client_inv log cl rl s" and ok: "\<forall>h \<in> set (ks_handlers s). handler_ok log (ks_ops s) h"
  shows "\<exists>cl rl. client_inv log cl rl s'"
  using st
proof (cases rule: ck_step.cases)
  case (ck_tick t)
  with client_inv_frame [OF inv, of s'] show ?thesis by auto
next
  case (ck_call c req)
  from client_inv_call [OF inv ok ck_call(2,3,1)] show ?thesis by blast
next
  case (ck_send c i p first)
  from client_inv_send [OF inv ck_send(2,1)] show ?thesis by blast
next
  case (ck_return c i p first j res r io)
  from client_inv_return [OF inv ok ck_return(2-6)] ck_return(1) show ?thesis by blast
next
  case (ck_record c i io c')
  from client_inv_record [OF inv ck_record(2,3,1)] show ?thesis by blast
next
  case (ck_fail c i p first j)
  from client_inv_clerk [OF inv, of c i "(ks_clerks s c)\<lparr>kc_state := Calling i ((p + 1) mod n) False\<rparr>"] ck_fail show ?thesis by auto
next
  case (ck_wrong c i p first j res r)
  from client_inv_clerk [OF inv, of c i "(ks_clerks s c)\<lparr>kc_state := Calling i ((p + 1) mod n) False\<rparr>"] ck_wrong show ?thesis by auto
qed

text \<open>The servers' side of a client's step: a new request, or none.\<close>

lemma client_served:
  assumes st: "ck_step n s s'" and inv: "client_inv log cl rl s" and sv: "served log (ks_handlers s) (ks_ops s)"
  shows "ks_sv s' = ks_sv s" "ks_handlers s' = ks_handlers s \<or> (\<exists>i p. ks_handlers s' = ks_handlers s @ [new_handler i p])"
    "served log (ks_handlers s') (ks_ops s')"
proof -
  note D = servedD [OF sv]
  show "ks_sv s' = ks_sv s" using st by (cases rule: ck_step.cases) simp_all
  have hs: "ks_handlers s' = ks_handlers s \<or> (\<exists>i p. i < length (ks_ops s) \<and> ks_handlers s' = ks_handlers s @ [new_handler i p])"
    using st
  proof (cases rule: ck_step.cases)
    case (ck_send c i p first)
    with client_invD(2) [OF inv, of c i] show ?thesis by (auto simp: pending_def)
  qed simp_all
  then show "ks_handlers s' = ks_handlers s \<or> (\<exists>i p. ks_handlers s' = ks_handlers s @ [new_handler i p])" by blast
  have ops: "length (ks_ops s) \<le> length (ks_ops s') \<and> (\<forall>i < length (ks_ops s). co_req (ks_ops s' ! i) = co_req (ks_ops s ! i))"
    using st
  proof (cases rule: ck_step.cases)
    case (ck_record c i io c')
    with client_invD(2) [OF inv, of c i] show ?thesis by (auto simp: pending_def nth_list_update)
  qed (simp_all add: nth_append)
  have ok: "handler_ok log (ks_ops s') h" if "h \<in> set (ks_handlers s)" for h by (rule handler_ok_ops [OF D(4) [OF that]]) (use ops in auto)
  have new: "handler_ok log (ks_ops s') (new_handler i p)" "h_op (new_handler i p) = None" if "i < length (ks_ops s)" for i p
    using that ops by (auto simp: handler_ok_def new_handler_def)
  have "ids_differ (ks_handlers s')" using hs D(3) new(2) unfolding ids_differ_def by (auto simp: nth_append less_Suc_eq)
  with hs ok new(1) D(1,2) show "served log (ks_handlers s') (ks_ops s')" unfolding served_def by auto
qed

section \<open>Linearizability\<close>

lemma same_handler:
  assumes "ids_differ hs" "a < length hs" "b < length hs" "h_op (hs ! a) = Some op" "h_op (hs ! b) = Some op" shows "a = b"
  using assms unfolding ids_differ_def by blast

lemma served_length:
  assumes "served log hs ops" shows "length log \<le> length hs"
proof -
  have "set log \<subseteq> (\<lambda>h. the (h_op h)) ` set hs" using servedD(2) [OF assms] by force
  from card_mono [OF _ this] have "card (set log) \<le> card ((\<lambda>h. the (h_op h)) ` set hs)" by simp
  also have "\<dots> \<le> length hs" by (metis card_image_le card_length finite_set order_trans)
  finally show ?thesis using distinct_card [OF servedD(1) [OF assms]] by simp
qed

lemma all_recorded:
  assumes "client_inv log cl rl s" "\<forall>c. kc_state (ks_clerks s c) = Idle" "i < length (ks_ops s)" shows "\<exists>io ret. co_result (ks_ops s ! i) = Some (io, ret)"
  using op_okD(4) [OF client_invD(3) [OF assms(1,3)]] assms(2) by (cases "co_result (ks_ops s ! i)") auto

lemma history_executed:
  assumes sv: "served log (ks_handlers s) (ks_ops s)" and cl: "client_inv log cl rl s" and idle: "\<forall>c. kc_state (ks_clerks s c) = Idle"
  shows "\<exists>own ans first. executed (map op_Command log) own (ks_ops s) cl rl ans first"
proof -
  let ?L = "map op_Command log" and ?ops = "ks_ops s" and ?hs = "ks_handlers s"
  note D = servedD [OF sv]
  have "\<forall>k. \<exists>a. k < length log \<longrightarrow> a < length ?hs \<and> h_op (?hs ! a) = Some (log ! k)" using D(2) by (metis in_set_conv_nth nth_mem)
  from choice [OF this] obtain f where f: "\<And>k. k < length log \<Longrightarrow> f k < length ?hs \<and> h_op (?hs ! f k) = Some (log ! k)" by blast
  define own where "own k = h_opno (?hs ! f k)" for k
  have ok: "handler_ok log ?ops (?hs ! f k)" "h_op (?hs ! f k) = Some (log ! k)" "f k < length ?hs" if "k < length log" for k
    using D(4) f [OF that] by auto
  have tr: "(f k, Some (log ! k)) \<in> tries ?hs (own k)" if "k < length log" for k using ok(2,3) [OF that] by (simp add: tries_iff own_def)
  have entry: "own k < length ?ops" "?L ! k = kv_cmd (co_req (?ops ! own k))" "cl (own k) \<le> k" if "k < length log" for k
  proof -
    show "own k < length ?ops" "?L ! k = kv_cmd (co_req (?ops ! own k))" using ok [OF that] that by (auto simp: handler_ok_def own_def)
    then show "cl (own k) \<le> k" using op_okD(3) [OF client_invD(3) [OF cl] tr [OF that] that] by blast
  qed
  have mine: "own k = i" if "k < length log" "(a, Some (log ! k)) \<in> tries ?hs i" for k a i
  proof -
    have "a = f k" by (rule same_handler [OF D(3), of _ _ "log ! k"]) (use that ok [OF that(1)] in \<open>auto simp: tries_iff\<close>)
    with that(2) show ?thesis by (simp add: tries_iff own_def)
  qed
  have "\<exists>k b. k < rl i \<and> k < length log \<and> own k = i \<and> (b \<longrightarrow> (\<forall>k' < length log. own k' = i \<longrightarrow> k' = k))
      \<and> (\<exists>io ret. clerk_record b (co_req (?ops ! i)) (answer log k) = Some io \<and> co_result (?ops ! i) = Some (io, ret))" if i: "i < length ?ops" for i
  proof -
    from all_recorded [OF cl idle i] obtain io ret where res: "co_result (?ops ! i) = Some (io, ret)" by blast
    from op_okD(7) [OF client_invD(3) [OF cl i] res] obtain k a b where k: "k < rl i" "k < length log" "(a, Some (log ! k)) \<in> tries ?hs i"
      "clerk_record b (co_req (?ops ! i)) (answer log k) = Some io" "b \<Longrightarrow> \<forall>(a, q) \<in> tries ?hs i. q = Some (log ! k)" by (auto simp: answered_def)
    have "k' = k" if "b" "k' < length log" "own k' = i" for k'
    proof -
      have "log ! k' = log ! k" using tr [OF that(2)] k(5) [OF that(1)] that(3) by auto
      with nth_eq_iff_index_eq [OF D(1) that(2) k(2)] show ?thesis by simp
    qed
    with k res mine [OF k(2,3)] show ?thesis by blast
  qed
  then obtain ans first where ans: "\<And>i. i < length ?ops \<Longrightarrow> ans i < rl i \<and> ans i < length log \<and> own (ans i) = i
      \<and> (first i \<longrightarrow> (\<forall>k' < length log. own k' = i \<longrightarrow> k' = ans i))
      \<and> (\<exists>io ret. clerk_record (first i) (co_req (?ops ! i)) (answer log (ans i)) = Some io \<and> co_result (?ops ! i) = Some (io, ret))" by metis
  have "snd (serve_req (at_log ?L k) (?L ! k)) = answer log k" if "k < length log" for k using that by (simp add: answer_def)
  then have part: "\<forall>i < length ?ops. ans i < length ?L \<and> ans i < rl i \<and> own (ans i) = i \<and> (first i \<longrightarrow> (\<forall>k < length ?L. own k = i \<longrightarrow> k = ans i))
      \<and> (\<exists>io ret. clerk_record (first i) (co_req (?ops ! i)) (snd (serve_req (at_log ?L (ans i)) (?L ! ans i))) = Some io \<and> co_result (?ops ! i) = Some (io, ret))"
    using ans unfolding length_map by metis
  have "rl i \<le> cl j" if "i < length ?ops" "j < length ?ops" "op_Return (operation (?ops ! i)) < co_call (?ops ! j)" for i j
  proof -
    from all_recorded [OF cl idle that(1)] obtain io ret where res: "co_result (?ops ! i) = Some (io, ret)" by blast
    then have "op_Return (operation (?ops ! i)) = ret" by (simp add: operation_def split_beta)
    then show ?thesis using op_okD(8) [OF client_invD(3) [OF cl that(1)] res that(2)] that(3) by simp
  qed
  moreover have "unat (put_Version a) \<le> nput ?L (put_Key a) (cl i)" if "i < length ?ops" "co_req (?ops ! i) = KvModel.ReqPut a" for i a
    by (rule op_okD(9) [OF client_invD(3) [OF cl that(1)] that(2)])
  moreover have "\<forall>k < length ?L. own k < length ?ops \<and> ?L ! k = kv_cmd (co_req (?ops ! own k)) \<and> cl (own k) \<le> k" using entry unfolding length_map by blast
  ultimately have "executed ?L own ?ops cl rl ans first" unfolding executed_def using part by blast
  then show ?thesis by blast
qed

lemma history_linearizable:
  assumes sv: "served log (ks_handlers s) (ks_ops s)" and cl: "client_inv log cl rl s" and idle: "\<forall>c. kc_state (ks_clerks s c) = Idle"
    and few: "length (ks_handlers s) < 2 ^ 64"
  shows "linearizable_parts (ks_log s)"
proof -
  from history_executed [OF sv cl idle] obtain own ans first where ex: "executed (map op_Command log) own (ks_ops s) cl rl ans first" by blast
  have "length (map op_Command log) < 2 ^ 64" using served_length [OF sv] few by simp
  from executed_linearizable [OF ex this] have "linearizable_parts (map operation (ks_ops s))" .
  moreover have "recorded (ks_ops s) = map operation (ks_ops s)"
    unfolding recorded_def using all_recorded [OF cl idle] by (intro arg_cong [of _ _ "map operation"] filter_True) (auto simp: in_set_conv_nth)
  then have "mset (ks_log s) = mset (map operation (ks_ops s))" using client_invD(4) [OF cl] by simp
  ultimately show ?thesis by (metis linearizable_parts_perm)
qed

section \<open>The interface of the servers\<close>

text \<open>A step of the servers does not touch the clients; it begins at most one operation, with a new id; and it keeps the log, or extends it.\<close>

locale kv_provider =
  fixes srv :: "'x kv_system \<Rightarrow> 'x kv_system \<Rightarrow> bool"
    and holds :: "kv_req Op list \<Rightarrow> 'x \<Rightarrow> kv_handler list \<Rightarrow> bool"
  assumes srv_clients: "srv s s' \<Longrightarrow> ks_ops s' = ks_ops s \<and> ks_clerks s' = ks_clerks s \<and> ks_log s' = ks_log s \<and> ks_now s' = ks_now s"
    and srv_tries: "srv s s' \<Longrightarrow> tries (ks_handlers s') = tries (ks_handlers s) \<or> (\<exists>j h op. j < length (ks_handlers s) \<and> h_op (ks_handlers s ! j) = None
      \<and> op_Id op \<notin> ids_of (ks_handlers s) \<and> h_opno h = h_opno (ks_handlers s ! j) \<and> h_op h = Some op \<and> ks_handlers s' = (ks_handlers s)[j := h])"
    and srv_log: "srv s s' \<Longrightarrow> holds log (ks_sv s) (ks_handlers s) \<Longrightarrow> served log (ks_handlers s) (ks_ops s) \<Longrightarrow>
      \<exists>ext. holds (log @ ext) (ks_sv s') (ks_handlers s') \<and> served (log @ ext) (ks_handlers s') (ks_ops s')"
    and holds_new: "holds log x hs \<Longrightarrow> holds log x (hs @ [new_handler i p])"
begin

lemma server_step_inv:
  assumes st: "srv s s'" and h: "holds log (ks_sv s) (ks_handlers s)" and sv: "served log (ks_handlers s) (ks_ops s)" and cl: "client_inv log cl rl s"
  shows "\<exists>log. holds log (ks_sv s') (ks_handlers s') \<and> served log (ks_handlers s') (ks_ops s') \<and> (\<exists>cl rl. client_inv log cl rl s')"
proof -
  note C = srv_clients [OF st]
  from srv_tries [OF st] have "client_inv log cl rl s'"
  proof (elim disjE exE conjE)
    assume "tries (ks_handlers s') = tries (ks_handlers s)"
    then show ?thesis by (intro client_inv_frame [OF cl]) (use C in simp_all)
  next
    fix j h op
    assume j: "j < length (ks_handlers s)" "h_op (ks_handlers s ! j) = None" "op_Id op \<notin> ids_of (ks_handlers s)"
      "h_opno h = h_opno (ks_handlers s ! j)" "h_op h = Some op" "ks_handlers s' = (ks_handlers s)[j := h]"
    show ?thesis by (rule client_inv_deliver [OF cl _ j]) (use servedD(2) [OF sv] C in auto)
  qed
  with srv_log [OF st h sv] client_inv_more show ?thesis by blast
qed

lemma run_inv:
  assumes "ks_run srv n s0 s" "s0 = ks_init x now" "holds [] x []"
  shows "\<exists>log. holds log (ks_sv s) (ks_handlers s) \<and> served log (ks_handlers s) (ks_ops s) \<and> (\<exists>cl rl. client_inv log cl rl s)"
  using assms
proof (induction rule: ks_run.induct)
  case (ks_refl s)
  moreover have "client_inv [] cl rl (ks_init x now)" for cl rl by (simp add: client_inv_def ks_init_def recorded_def)
  ultimately show ?case by (auto simp: ks_init_def served_def ids_differ_def intro!: exI [of _ "[]"])
next
  case (ks_client s s' s'')
  then obtain log cl rl where inv: "holds log (ks_sv s') (ks_handlers s')" "served log (ks_handlers s') (ks_ops s')" "client_inv log cl rl s'" by blast
  note C = client_served [OF ks_client.hyps(2) inv(3,2)]
  have "holds log (ks_sv s'') (ks_handlers s'')" using C(1,2) inv(1) holds_new by metis
  moreover have "\<exists>cl rl. client_inv log cl rl s''" by (rule client_step [OF ks_client.hyps(2) inv(3)]) (use servedD(4) [OF inv(2)] in blast)
  ultimately show ?case using C(3) by blast
next
  case (ks_server s s' s'')
  then show ?case using server_step_inv by blast
qed

lemma run_linearizable:
  assumes "ks_run srv n (ks_init x now) s" "holds [] x []" "\<forall>c. kc_state (ks_clerks s c) = Idle" "length (ks_handlers s) < 2 ^ 64"
  shows "linearizable_parts (ks_log s)"
  using run_inv [OF assms(1) refl assms(2)] history_linearizable [OF _ _ assms(3,4)] by blast

end

lemma ks_run_trans:
  assumes "ks_run srv n s' s''" shows "ks_run srv n s s' \<Longrightarrow> ks_run srv n s s''"
  using assms by (induction rule: ks_run.induct) (auto intro: ks_client ks_server)

text \<open>A system in which only one clerk is busy.\<close>

definition one_clerk :: "'x \<Rightarrow> clerk_state \<Rightarrow> kv_handler list \<Rightarrow> clerk_op list \<Rightarrow> Operation list \<Rightarrow> int \<Rightarrow> 'x kv_system" where
  "one_clerk x st hs ops lg t = \<lparr>ks_sv = x, ks_clerks = (\<lambda>_. \<lparr>kc_leader = 0, kc_state = Idle\<rparr>)(0 := \<lparr>kc_leader = 0, kc_state = st\<rparr>),
     ks_handlers = hs, ks_ops = ops, ks_log = lg, ks_now = t\<rparr>"

lemma one_clerk_sv [simp]: "ks_sv (one_clerk x st hs ops lg t) = x" "one_clerk x st hs ops lg t\<lparr>ks_sv := y\<rparr> = one_clerk y st hs ops lg t"
  by (simp_all add: one_clerk_def)

lemma one_clerk_init: "ks_init x now = one_clerk x Idle [] [] [] now"
  by (simp add: ks_init_def one_clerk_def fun_eq_iff)

end
