(* ===== verification/KvService.thy ===== *)
theory KvService
  imports KvRaft "HOL-Library.Sublist"
begin

text \<open>
  The replicated key/value service as a whole: \<^verbatim>\<open>kvraft1/server.go\<close> on \<^verbatim>\<open>kvraft1/rsm/rsm.go\<close> on \<^verbatim>\<open>raft1/raft.go\<close>, on every
  peer of a cluster with lost, delayed and repeated messages, crashes and restarts.  Its clients cannot tell it from the
  single-node server of \<^verbatim>\<open>kvsrv1/server.go\<close> that executes one sequence of requests.
\<close>

type_synonym kv_service = "(kv_req, kv_data, KVRaftServer, kv_res) service"

abbreviation kv_run :: "(kv_req Op LogEntry list gob list \<Rightarrow> int) \<Rightarrow> int \<Rightarrow> kv_service \<Rightarrow> kv_service \<Rightarrow> bool" where
  "kv_run \<equiv> sv_run KVServer_DoOp KVServer_Snapshot KVServer_Restore KVRaft0"

abbreviation kv_init :: "int \<Rightarrow> int \<Rightarrow> int \<Rightarrow> kv_service" where
  "kv_init \<equiv> sv_init KVServer_Restore KVRaft0"

text \<open>The store of every replica is that of the single-node server after a prefix of the log.\<close>

definition kv_serves :: "int \<Rightarrow> kv_req Op list \<Rightarrow> kv_service \<Rightarrow> bool" where
  "kv_serves n log x \<longleftrightarrow> (\<forall>p. 0 \<le> p \<and> p < n \<longrightarrow> applied (sv_rep x p) \<le> length log
     \<and> single (sm (rsm (sv_rep x p))) = fst (serve_all MakeKVServer (map op_Command (take (applied (sv_rep x p)) log))))"

text \<open>Every call that can return \<open>OK\<close> has its operation in the log, at the index it registered for, and returns what the
  single-node server answers there.\<close>

definition kv_answers :: "int \<Rightarrow> kv_req Op list \<Rightarrow> kv_service \<Rightarrow> bool" where
  "kv_answers n log x \<longleftrightarrow> (\<forall>p rf ch op_id startTerm v. 0 \<le> p \<and> p < n
       \<and> Submit_poll (rsm (sv_rep x p)) (rf :: (kv_req Op, kv_data) Raft) ch op_id startTerm = Some (OK, Some v) \<longrightarrow>
     (\<exists>k < length log. owner (sv_rep x p) ch = int k + 1 \<and> op_Id (log ! k) = op_id \<and> op_Term (log ! k) = startTerm
        \<and> v = snd (serve_req (fst (serve_all MakeKVServer (map op_Command (take k log)))) (op_Command (log ! k)))))"

abbreviation kv_inv :: "int \<Rightarrow> kv_req Op list \<Rightarrow> kv_service \<Rightarrow> bool" where
  "kv_inv \<equiv> sv_inv KVServer_DoOp KVServer_Snapshot kv_store (KVRaft0 0)"

lemma kv_inv_serves: "kv_inv n log x \<Longrightarrow> kv_serves n log x"
  using peer_ok_applied inv_single sv_invD(3) unfolding kv_serves_def peer_ok_def by fast

lemma kv_inv_answers: "kv_inv n log x \<Longrightarrow> kv_answers n log x"
  using inv_answer sv_invD(3) unfolding kv_answers_def peer_ok_def by fast

lemma kv_two_moments:
  assumes "kv_run len n (kv_init maxraft n now) x" "kv_run len n x y"
  obtains log log' where "prefix log log'" "kv_inv n log x" "kv_inv n log' y"
proof -
  have "kv_store (KVRaft0 p) = kv_store (KVRaft0 0)" for p by (simp add: KVRaft0_def)
  from kvsm.sv_two_moments [OF assms this] that show thesis by (metis prefixI)
qed

section \<open>A run that executes a put\<close>

lemma quiet_service: "(quiet n)\<^sup>*\<^sup>* (sv_cl x) s \<Longrightarrow> sv_run dop snap restore s0 len n x (x\<lparr>sv_cl := s\<rparr>)"
proof (induction rule: rtranclp_induct)
  case base
  then show ?case using sv_refl [of dop snap restore s0 len n x] by simp
next
  case (step s s')
  from sv_trans [OF step.IH sv_raft [of n "x\<lparr>sv_cl := s\<rparr>" s']] step.hyps(2) show ?case by simp
qed

lemma demo_apply:
  "applierLoop_iter (demo_leader (demo_log ! 0) :: (kv_req Op, kv_data) Raft) = Some ((demo_leader (demo_log ! 0))\<lparr>lastApplied := 1\<rparr>, [demo_msg])"
  by (simp add: applierLoop_iter_def killed_def applier_collect.simps demo_peers demo_eval demo_msg_def)

lemma demo_reader:
  "\<exists>r1 r2. Submit_register demo_rsm 1 = (r1, 0) \<and> applyReader_exec KVServer_DoOp KVServer_Restore r1 demo_msg = Some r2
     \<and> buf (chans r2 0) = [\<lparr>n_id = 7, n_term = 1, n_result = ResPut \<lparr>putr_Err = OK\<rparr>\<rparr>]"
  by (simp add: Submit_register_def demo_rsm_def applyReader_exec_def demo_msg_def commandMsg_def demo_log_def demo_put_def
      KVServer_DoOp_def KVRaft0_def PutReply0_def notify_def chan_send_def)

text \<open>A put is submitted to the leader, committed by two peers, delivered to the leader's replica and executed; the waiting call
  can return \<open>OK\<close>.\<close>

lemma demo_service_run:
  "\<exists>x. kv_run (\<lambda>_. 0) 3 (kv_init (-1) 3 0) x \<and> applied (sv_rep x 0) = 1 \<and> owner (sv_rep x 0) 0 = 1
     \<and> Submit_poll (rsm (sv_rep x 0)) demo_rf 0 7 1 = Some (OK, Some (ResPut \<lparr>putr_Err = OK\<rparr>))"
proof -
  let ?run = "kv_run (\<lambda>_. 0) 3 (kv_init (-1) 3 0)"
  obtain s :: "(kv_req Op, kv_data) cluster" where s: "(quiet 3)\<^sup>*\<^sup>* (cl_init 3 0) s" "nodes s 0 = demo_leader (demo_log ! 0)"
    using demo_quiet_run [of "demo_log ! 0"] by auto
  obtain r1 r2 where r: "Submit_register demo_rsm 1 = (r1, 0)" "applyReader_exec KVServer_DoOp KVServer_Restore r1 demo_msg = Some r2"
    "buf (chans r2 0) = [\<lparr>n_id = 7, n_term = 1, n_result = ResPut \<lparr>putr_Err = OK\<rparr>\<rparr>]" using demo_reader by blast
  define x1 :: kv_service where "x1 = (kv_init (-1) 3 0)\<lparr>sv_cl := s\<rparr>"
  have run1: "?run x1" unfolding x1_def by (rule quiet_service) (simp add: sv_init_def s(1))
  have x1: "sv_cl x1 = s" "rsm (sv_rep x1 0) = demo_rsm" "sv_queue x1 0 = []"
    by (simp_all add: x1_def sv_init_def MakeRSM_def demo_rsm_def Let_def)
  define x2 where "x2 = x1\<lparr>sv_rep := (sv_rep x1)(0 := (sv_rep x1 0)\<lparr>rsm := r1, owner := (owner (sv_rep x1 0))(0 := 1)\<rparr>)\<rparr>"
  have run2: "?run x2" unfolding x2_def by (rule sv_trans [OF run1 sv_register]) (simp_all add: x1 r(1))
  have x2: "sv_cl x2 = s" "rsm (sv_rep x2 0) = r1" "owner (sv_rep x2 0) 0 = 1" "sv_queue x2 0 = []" by (simp_all add: x2_def x1)
  define x3 where "x3 = x2\<lparr>sv_cl := move 0 ((demo_leader (demo_log ! 0))\<lparr>lastApplied := 1\<rparr>) (sv_cl x2),
    sv_queue := (sv_queue x2)(0 := sv_queue x2 0 @ [demo_msg])\<rparr>"
  have run3: "?run x3" unfolding x3_def by (rule sv_trans [OF run2 sv_apply]) (simp_all add: x2 s(2) demo_apply)
  have x3: "sv_rep x3 = sv_rep x2" "sv_queue x3 0 = [demo_msg]" by (simp_all add: x3_def x2)
  define x4 where "x4 = x3\<lparr>sv_rep := (sv_rep x3)(0 := (sv_rep x3 0)\<lparr>rsm := r2, applied := msg_index demo_msg\<rparr>), sv_queue := (sv_queue x3)(0 := [])\<rparr>"
  have "?run x4" unfolding x4_def by (rule sv_trans [OF run3 sv_handle]) (simp_all add: x3 x2 r(2))
  moreover have "applied (sv_rep x4 0) = 1" by (simp add: x4_def msg_index_def demo_msg_def commandMsg_def)
  moreover have "owner (sv_rep x4 0) 0 = 1" "rsm (sv_rep x4 0) = r2" by (simp_all add: x4_def x3 x2)
  ultimately show ?thesis using r(3) by (intro exI [of _ x4]) (simp add: Submit_poll_def)
qed

section \<open>One log\<close>





section \<open>A snapshot that comes too late\<close>

definition race_entries :: "kv_req Op AppendEntriesArgs" where
  "race_entries = race_append\<lparr>ae_PrevLogIndex := 0, ae_PrevLogTerm := 0,
     ae_Entries := \<lparr>le_Command = Some (demo_log ! 0), le_Term = 1\<rparr> # ae_Entries race_append\<rparr>"

text \<open>
  Why \<open>sv_install\<close> asks for a snapshot that is not older than what the peer has delivered.  A follower gets entries 1 and 2,
  delivers both, and its reply is lost; the leader compacts its log up to index 1 and sends the snapshot.  \<open>InstallSnapshot\<close>
  keeps \<open>lastApplied\<close> at 2 and still hands the snapshot to the service, which goes back to the state after entry 1 and never sees entry 2 again.
\<close>

lemma old_snapshot_rolls_back:
  "\<exists>rf1 r1 rf2 m1 m2 rf3 r3 m3 good bad.
     AppendEntries demo_rf race_entries 5 = Some (rf1, r1) \<and> applierLoop_iter rf1 = Some (rf2, [m1, m2])
     \<and> InstallSnapshot rf2 race_snapshot 6 = Some (rf3, r3, Some m3) \<and> lastApplied rf3 = 2
     \<and> read_msgs [m1, m2] demo_rsm = Some good \<and> kv_store (sm good) ''b'' = Some \<lparr>val = ''y'', ver = 1\<rparr>
     \<and> read_msgs [m1, m2, m3] demo_rsm = Some bad \<and> kv_store (sm bad) ''b'' = None"
proof -
  let ?e = "\<lparr>le_Command = Some \<lparr>op_Id = 8, op_Term = 1,
        op_Command = ReqPut \<lparr>put_Key = ''b'', put_Value = ''y'', put_Version = 0\<rparr>\<rparr>, le_Term = 1\<rparr> :: kv_req Op LogEntry"
  let ?m3 = "\<lparr>CommandValid = False, am_Command = None, CommandIndex = 0, SnapshotValid = True,
     am_Snapshot = is_Data race_snapshot, SnapshotTerm = 1, SnapshotIndex = 1\<rparr>"
  obtain rf1 r1 where rf1: "AppendEntries demo_rf race_entries 5 = Some (rf1, r1)" "currentTerm rf1 = 1" "role rf1 = Follower"
    "rlog rf1 = [zeroEntry, \<lparr>le_Command = Some (demo_log ! 0), le_Term = 1\<rparr>, ?e]"
    "lastIncludedIndex rf1 = 0" "commitIndex rf1 = 2" "lastApplied rf1 = 0" "dead rf1 = False"
    by (simp add: AppendEntries_def race_entries_def race_append_def acceptLeader_def updateFollowerCommit_def demo_rf_def demo_eval)
  have ap: "applierLoop_iter rf1 = Some (rf1\<lparr>lastApplied := 2\<rparr>, [demo_msg, commandMsg ?e 2])"
    using rf1(4-8) by (simp add: applierLoop_iter_def killed_def applier_collect.simps demo_eval demo_msg_def)
  obtain rf3 r3 where rf3: "InstallSnapshot (rf1\<lparr>lastApplied := 2\<rparr>) race_snapshot 6 = Some (rf3, r3, Some ?m3)" "lastApplied rf3 = 2"
    using rf1(2-8) by (simp add: InstallSnapshot_def race_snapshot_def acceptLeader_def raiseCommitApplied_def compactLog_def go_make_def go_copy_def demo_eval)
  obtain good bad where "read_msgs [demo_msg, commandMsg ?e 2] demo_rsm = Some good" "kv_store (sm good) ''b'' = Some \<lparr>val = ''y'', ver = 1\<rparr>"
    "read_msgs [demo_msg, commandMsg ?e 2, ?m3] demo_rsm = Some bad" "kv_store (sm bad) ''b'' = None"
    by (simp add: applyReader_exec_def demo_msg_def commandMsg_def demo_rsm_def KVRaft0_def race_snapshot_def kvraft_defs notify_def
        demo_log_def demo_put_def PutReply0_def)
  with rf1(1) ap rf3 show ?thesis by blast
qed

end
