(* ===== verification/KvHistoryRaft.thy ===== *)
theory KvHistoryRaft
  imports KvHistory KvService
begin

text \<open>
  The clients of the replicated key/value service: the handlers of \<^verbatim>\<open>kvraft1/server.go\<close> call \<open>Submit\<close> of \<^verbatim>\<open>kvraft1/rsm/rsm.go\<close> on the peers of a Raft cluster.
  The service is a provider in the sense of \<open>KvHistory\<close>: what is committed was started by a handler, at the index that its \<open>Start\<close> returned.
\<close>

section \<open>The servers\<close>

text \<open>
  Steps of the servers: the service makes a step in which no command is started (\<open>cl_step_occ\<close>: any step but a \<open>Start\<close>); a request arrives at a server, which is the leader or
  not; \<open>Submit\<close> calls \<open>Start\<close>, registers its channel, and returns.  The ids that \<open>Submit\<close> draws are different.  Nothing is assumed about the handlers of a server that crashes:
  they may be lost, or go on after the restart.
\<close>

inductive rs_step :: "(kv_req Op LogEntry list gob list \<Rightarrow> int) \<Rightarrow> int \<Rightarrow> kv_service kv_system \<Rightarrow> kv_service kv_system \<Rightarrow> bool" for len n where
  rs_service: "sv_step KVServer_DoOp KVServer_Snapshot KVServer_Restore KVRaft0 len n (ks_sv s) y \<Longrightarrow>
    occ n (sv_cl y) \<subseteq> occ n (sv_cl (ks_sv s)) \<Longrightarrow> rs_step len n s (s\<lparr>ks_sv := y\<rparr>)"
| rs_deliver: "j < length (ks_handlers s) \<Longrightarrow> h = ks_handlers s ! j \<Longrightarrow> h_op h = None \<Longrightarrow> h_reply h = None \<Longrightarrow> 0 \<le> h_server h \<Longrightarrow> h_server h < n \<Longrightarrow>
    Submit_op (nodes (sv_cl (ks_sv s)) (h_server h)) nrand (kv_cmd (co_req (ks_ops s ! h_opno h))) = Inr op \<Longrightarrow> nrand \<notin> ids_of (ks_handlers s) \<Longrightarrow>
    rs_step len n s (set_handler j (h\<lparr>h_op := Some op\<rparr>) s)"
| rs_refuse: "j < length (ks_handlers s) \<Longrightarrow> h = ks_handlers s ! j \<Longrightarrow> h_op h = None \<Longrightarrow> h_reply h = None \<Longrightarrow> 0 \<le> h_server h \<Longrightarrow> h_server h < n \<Longrightarrow>
    Submit_op (nodes (sv_cl (ks_sv s)) (h_server h)) nrand (kv_cmd (co_req (ks_ops s ! h_opno h))) = Inl e \<Longrightarrow>
    rs_step len n s (set_handler j (h\<lparr>h_reply := Some (e, None)\<rparr>) s)"
| rs_start: "j < length (ks_handlers s) \<Longrightarrow> h = ks_handlers s ! j \<Longrightarrow> h_op h = Some op \<Longrightarrow> h_start h = None \<Longrightarrow> h_reply h = None \<Longrightarrow> 0 \<le> h_server h \<Longrightarrow> h_server h < n \<Longrightarrow>
    Submit_start (nodes (sv_cl (ks_sv s)) (h_server h)) op = (rf, Inr (index, startTerm)) \<Longrightarrow>
    rs_step len n s (set_handler j (h\<lparr>h_start := Some (index, startTerm)\<rparr>) (s\<lparr>ks_sv := (ks_sv s)\<lparr>sv_cl := move (h_server h) rf (sv_cl (ks_sv s))\<rparr>\<rparr>))"
| rs_deposed: "j < length (ks_handlers s) \<Longrightarrow> h = ks_handlers s ! j \<Longrightarrow> h_op h = Some op \<Longrightarrow> h_start h = None \<Longrightarrow> h_reply h = None \<Longrightarrow> 0 \<le> h_server h \<Longrightarrow> h_server h < n \<Longrightarrow>
    Submit_start (nodes (sv_cl (ks_sv s)) (h_server h)) op = (rf, Inl e) \<Longrightarrow>
    rs_step len n s (set_handler j (h\<lparr>h_reply := Some (e, None)\<rparr>) (s\<lparr>ks_sv := (ks_sv s)\<lparr>sv_cl := move (h_server h) rf (sv_cl (ks_sv s))\<rparr>\<rparr>))"
| rs_register: "j < length (ks_handlers s) \<Longrightarrow> h = ks_handlers s ! j \<Longrightarrow> h_start h = Some (index, startTerm) \<Longrightarrow> h_chan h = None \<Longrightarrow> p = h_server h \<Longrightarrow> 0 \<le> p \<Longrightarrow> p < n \<Longrightarrow>
    Submit_register (rsm (sv_rep (ks_sv s) p)) index = (r, ch) \<Longrightarrow>
    rs_step len n s (set_handler j (h\<lparr>h_chan := Some ch\<rparr>) (s\<lparr>ks_sv := (ks_sv s)\<lparr>sv_rep := (sv_rep (ks_sv s))
      (p := (sv_rep (ks_sv s) p)\<lparr>rsm := r, owner := (owner (sv_rep (ks_sv s) p))(ch := index)\<rparr>)\<rparr>\<rparr>))"
| rs_poll: "j < length (ks_handlers s) \<Longrightarrow> h = ks_handlers s ! j \<Longrightarrow> h_op h = Some op \<Longrightarrow> h_start h = Some (index, startTerm) \<Longrightarrow> h_chan h = Some ch \<Longrightarrow> h_reply h = None \<Longrightarrow>
    p = h_server h \<Longrightarrow> 0 \<le> p \<Longrightarrow> p < n \<Longrightarrow>
    Submit_poll (rsm (sv_rep (ks_sv s) p)) (nodes (sv_cl (ks_sv s)) p) ch (op_Id op) startTerm = Some res \<Longrightarrow>
    rs_step len n s (set_handler j (h\<lparr>h_reply := Some res\<rparr>) (s\<lparr>ks_sv := (ks_sv s)\<lparr>sv_rep := (sv_rep (ks_sv s))
      (p := (sv_rep (ks_sv s) p)\<lparr>rsm := Submit_return (rsm (sv_rep (ks_sv s) p)) index\<rparr>)\<rparr>\<rparr>))"

section \<open>The log and the handlers\<close>

text \<open>The operations that were started, at the indices that \<open>Start\<close> returned.\<close>

definition started :: "kv_handler list \<Rightarrow> (int \<times> kv_req Op) set" where
  "started hs = {(index, op) | h op index t. h \<in> set hs \<and> h_op h = Some op \<and> h_start h = Some (index, t)}"

definition log_started :: "kv_req Op list \<Rightarrow> kv_handler list \<Rightarrow> bool" where
  "log_started log hs \<longleftrightarrow> (\<forall>k < length log. (int k + 1, log ! k) \<in> started hs)"

definition raft_holds :: "int \<Rightarrow> kv_req Op list \<Rightarrow> kv_service \<Rightarrow> kv_handler list \<Rightarrow> bool" where
  "raft_holds n log x hs \<longleftrightarrow> kv_inv n log x \<and> occ n (sv_cl x) \<subseteq> started hs \<and> log_started log hs"

lemma raft_holdsD: assumes "raft_holds n log x hs" shows "kv_inv n log x" "occ n (sv_cl x) \<subseteq> started hs" "log_started log hs"
  using assms by (auto simp: raft_holds_def)

lemma log_started_more:
  assumes "log_started log hs" "log_occurs n s (length log) (log @ ext)" "occ n s \<subseteq> started hs"
  shows "log_started (log @ ext) hs"
  unfolding log_started_def
proof (intro allI impI)
  fix k assume k: "k < length (log @ ext)"
  show "(int k + 1, (log @ ext) ! k) \<in> started hs"
  proof (cases "k < length log")
    case True
    then show ?thesis using assms(1) by (simp add: log_started_def nth_append)
  next
    case False
    then have "(int k + 1, (log @ ext) ! k) \<in> occ n s" using assms(2) k by (simp add: log_occurs_def)
    then show ?thesis using assms(3) by blast
  qed
qed

lemma started_new: "started (hs @ [new_handler i p]) = started hs"
proof -
  have "h_op (new_handler i p) = None" by (simp add: new_handler_def)
  then show ?thesis unfolding started_def by (auto dest: sym)
qed

lemma started_mono:
  assumes "j < length hs" "\<And>op. h_op (hs ! j) = Some op \<Longrightarrow> h_op h = Some op" "\<And>st. h_start (hs ! j) = Some st \<Longrightarrow> h_start h = Some st"
  shows "started hs \<subseteq> started (hs[j := h])"
proof
  fix x assume "x \<in> started hs"
  then obtain a op index t where a: "x = (index, op)" "a < length hs" "h_op (hs ! a) = Some op" "h_start (hs ! a) = Some (index, t)"
    unfolding started_def by (auto simp: in_set_conv_nth)
  then have "h_op (hs[j := h] ! a) = Some op" "h_start (hs[j := h] ! a) = Some (index, t)" using assms by (cases "a = j"; simp)+
  moreover have "hs[j := h] ! a \<in> set (hs[j := h])" using a(2) by simp
  ultimately show "x \<in> started (hs[j := h])" unfolding started_def a(1) by blast
qed

lemma log_startedE:
  assumes "log_started log hs" "k < length log"
  obtains a t where "a < length hs" "h_op (hs ! a) = Some (log ! k)" "h_start (hs ! a) = Some (int k + 1, t)"
  using assms unfolding log_started_def started_def by (fastforce simp: in_set_conv_nth)

text \<open>An operation is at one place of the log only.\<close>

lemma log_started_distinct:
  assumes "log_started log hs" "ids_differ hs" shows "distinct log"
  unfolding distinct_conv_nth
proof (intro allI impI)
  fix k k' assume k: "k < length log" "k' < length log" "k \<noteq> k'"
  obtain a t where a: "a < length hs" "h_op (hs ! a) = Some (log ! k)" "h_start (hs ! a) = Some (int k + 1, t)" using log_startedE [OF assms(1) k(1)] .
  obtain b u where b: "b < length hs" "h_op (hs ! b) = Some (log ! k')" "h_start (hs ! b) = Some (int k' + 1, u)" using log_startedE [OF assms(1) k(2)] .
  show "log ! k \<noteq> log ! k'"
  proof
    assume "log ! k = log ! k'"
    then have "a = b" using same_handler [OF assms(2) a(1) b(1)] a(2) b(2) by simp
    with a(3) b(3) k(3) show False by simp
  qed
qed

lemma log_started_served:
  assumes "log_started log hs" "ids_differ hs" "\<And>h. h \<in> set hs \<Longrightarrow> handler_ok log ops h" shows "served log hs ops"
proof -
  have "\<exists>h \<in> set hs. h_op h = Some op" if "op \<in> set log" for op using that log_startedE [OF assms(1)] by (metis in_set_conv_nth nth_mem)
  with assms log_started_distinct [OF assms(1,2)] show ?thesis by (auto simp: served_def)
qed

text \<open>A step of the servers is one of the service, or leaves it alone.\<close>

lemma submit_start_step:
  assumes inv: "kv_inv n log x" and p: "0 \<le> p" "p < n" and st: "Submit_start (nodes (sv_cl x) p) op = (rf, res)"
  shows "sv_step KVServer_DoOp KVServer_Snapshot KVServer_Restore KVRaft0 len n x (x\<lparr>sv_cl := move p rf (sv_cl x)\<rparr>)"
proof -
  from st obtain r where r: "Start (nodes (sv_cl x) p) op = (rf, r)" by (auto simp: Submit_start_def Let_def split: prod.splits)
  have "keeps (nodes (sv_cl x) p) rf" by (rule keeps_Start [OF r elect_inv_peer(1) [OF sv_invD(1) [OF inv] p]])
  then have "quiet n (sv_cl x) (move p rf (sv_cl x))" by (intro quiet_move [OF cl_start [OF p r], of p rf]) (simp_all add: keeps_def)
  then show ?thesis by (rule sv_raft)
qed

lemma rs_step_service:
  assumes "rs_step len n s s'" "kv_inv n log (ks_sv s)"
  shows "ks_sv s' = ks_sv s \<or> sv_step KVServer_DoOp KVServer_Snapshot KVServer_Restore KVRaft0 len n (ks_sv s) (ks_sv s')"
  using assms(1)
proof (cases rule: rs_step.cases)
  case (rs_start j h op rf index startTerm)
  then show ?thesis using submit_start_step [OF assms(2)] by simp
next
  case (rs_deposed j h op rf e)
  then show ?thesis using submit_start_step [OF assms(2)] by simp
next
  case (rs_register j h index startTerm p r ch)
  then show ?thesis using sv_step.sv_register [OF rs_register(7-9)] by simp
next
  case (rs_poll j h op index startTerm ch p res)
  have "sv_step KVServer_DoOp KVServer_Snapshot KVServer_Restore KVRaft0 len n (ks_sv s) ((ks_sv s)\<lparr>sv_rep := (sv_rep (ks_sv s))
      (p := (sv_rep (ks_sv s) p)\<lparr>rsm := Submit_return (rsm (sv_rep (ks_sv s) p)) index\<rparr>)\<rparr>)" by (rule sv_step.sv_return [OF rs_poll(9,10)])
  then show ?thesis using rs_poll(1) by simp
qed simp_all

lemma rs_step_log:
  assumes "rs_step len n s s'" "raft_holds n log (ks_sv s) (ks_handlers s)"
  shows "\<exists>ext. kv_inv n (log @ ext) (ks_sv s') \<and> log_started (log @ ext) (ks_handlers s)"
proof -
  note H = raft_holdsD [OF assms(2)]
  have "kv_store (KVRaft0 p) = kv_store (KVRaft0 0)" for p by (simp add: KVRaft0_def)
  note sl = kvsm.sv_step_log [OF _ H(1) this]
  from rs_step_service [OF assms(1) H(1)] show ?thesis
  proof
    assume "ks_sv s' = ks_sv s"
    then show ?thesis using H(1,3) by (intro exI [of _ "[]"]) simp
  next
    assume "sv_step KVServer_DoOp KVServer_Snapshot KVServer_Restore KVRaft0 len n (ks_sv s) (ks_sv s')"
    from sl [OF this] obtain ext where "kv_inv n (log @ ext) (ks_sv s')" "log_occurs n (sv_cl (ks_sv s)) (length log) (log @ ext)" by blast
    then show ?thesis using log_started_more [OF H(3) _ H(2)] by blast
  qed
qed

text \<open>A handler makes a step.\<close>

lemma raft_holds_set:
  assumes log: "kv_inv n (log @ ext) (ks_sv s')" "log_started (log @ ext) (ks_handlers s)" and sv: "served log (ks_handlers s) (ks_ops s)"
    and s': "ks_handlers s' = (ks_handlers s)[j := h]" "ks_ops s' = ks_ops s" and j: "j < length (ks_handlers s)"
    and grow: "\<And>op. h_op (ks_handlers s ! j) = Some op \<Longrightarrow> h_op h = Some op" "\<And>st. h_start (ks_handlers s ! j) = Some st \<Longrightarrow> h_start h = Some st"
    and ids: "\<And>op. h_op h = Some op \<Longrightarrow> h_op (ks_handlers s ! j) = Some op \<or> op_Id op \<notin> ids_of (ks_handlers s)"
    and oc: "occ n (sv_cl (ks_sv s')) \<subseteq> started ((ks_handlers s)[j := h])" and ok: "handler_ok (log @ ext) (ks_ops s) h"
  shows "\<exists>ext. raft_holds n (log @ ext) (ks_sv s') (ks_handlers s') \<and> served (log @ ext) (ks_handlers s') (ks_ops s')"
proof -
  have started: "log_started (log @ ext) (ks_handlers s')"
    using log(2) started_mono [OF j grow] s'(1) unfolding log_started_def by auto
  have "served (log @ ext) (ks_handlers s') (ks_ops s')"
  proof (rule log_started_served [OF started])
    show "ids_differ (ks_handlers s')" unfolding s' by (rule ids_differ_set [OF servedD(3) [OF sv] j ids])
    show "handler_ok (log @ ext) (ks_ops s') g" if "g \<in> set (ks_handlers s')" for g
      using that ok handler_ok_more [OF servedD(4) [OF sv]] set_update_subset_insert [of "ks_handlers s" j h] unfolding s' by blast
  qed
  with started log(1) oc s'(1) show ?thesis by (intro exI [of _ ext]) (simp add: raft_holds_def)
qed

text \<open>What \<open>Submit\<close> returns.\<close>

lemma poll_answer:
  assumes inv: "raft_holds n log (ks_sv s) (ks_handlers s)" and ids: "ids_differ (ks_handlers s)" and j: "j < length (ks_handlers s)" "h_op (ks_handlers s ! j) = Some op" and p: "0 \<le> p" "p < n"
    and poll: "Submit_poll (rsm (sv_rep (ks_sv s) p)) (nodes (sv_cl (ks_sv s)) p) ch (op_Id op) startTerm = Some (e, res)"
  shows "e = ErrWrongLeader \<or> e = OK \<and> (\<exists>k < length log. op = log ! k \<and> res = Some (answer log k))"
proof (cases "e = ErrWrongLeader")
  case False
  with poll obtain v where v: "e = OK" "res = Some v"
    by (auto simp: Submit_poll_def Let_def split: list.splits if_splits prod.splits)
  with poll kv_inv_answers [OF raft_holdsD(1) [OF inv]] p obtain k where k: "k < length log" "op_Id (log ! k) = op_Id op"
    "v = snd (serve_req (fst (serve_all MakeKVServer (map op_Command (take k log)))) (op_Command (log ! k)))"
    unfolding kv_answers_def by blast
  obtain b t where "b < length (ks_handlers s)" "h_op (ks_handlers s ! b) = Some (log ! k)" using log_startedE [OF raft_holdsD(3) [OF inv] k(1)] .
  with ids j k(2) have "op = log ! k" unfolding ids_differ_def by (metis option.inject)
  with k v show ?thesis by (auto simp: answer_def at_log_def take_map)
qed simp

lemma occ_submit_start:
  assumes inv: "kv_inv n log x" and p: "0 \<le> p" "p < n" and st: "Submit_start (nodes (sv_cl x) p) op = (rf, res)"
  shows "occ n (move p rf (sv_cl x)) \<subseteq> occ n (sv_cl x) \<union> (case res of Inl e \<Rightarrow> {} | Inr (index, t) \<Rightarrow> {(index, op)})"
proof -
  from st obtain index t lead where r: "Start (nodes (sv_cl x) p) op = (rf, index, t, lead)"
    by (cases "Start (nodes (sv_cl x) p) op") (auto simp: Submit_start_def Let_def)
  from st r have res: "res = (if lead then Inr (index, t) else Inl ErrWrongLeader)" by (auto simp: Submit_start_def Let_def)
  have "node_occ rf \<subseteq> node_occ (nodes (sv_cl x) p) \<union> (if lead then {(index, op)} else {})"
    by (rule occ_Start [OF r elect_inv_peer(1) [OF sv_invD(1) [OF inv] p]])
  then show ?thesis using node_occ_in [OF p, of "sv_cl x"] res by (intro occ_move [of rf _ _ _ _ p]) auto
qed

lemma rs_step_holds:
  assumes st: "rs_step len n s s'" and hold: "raft_holds n log (ks_sv s) (ks_handlers s)" and sv: "served log (ks_handlers s) (ks_ops s)"
  shows "\<exists>ext. raft_holds n (log @ ext) (ks_sv s') (ks_handlers s') \<and> served (log @ ext) (ks_handlers s') (ks_ops s')"
proof -
  from rs_step_log [OF st hold] obtain ext where log: "kv_inv n (log @ ext) (ks_sv s')" "log_started (log @ ext) (ks_handlers s)" by blast
  note H = raft_holdsD [OF hold] and D = servedD [OF sv] and set = raft_holds_set [OF log sv]
  have ok: "handler_ok (log @ ext) (ks_ops s) (ks_handlers s ! j)" if "j < length (ks_handlers s)" for j
    using handler_ok_more [OF D(4)] that by simp
  have mono: "occ n (sv_cl (ks_sv s)) \<subseteq> started ((ks_handlers s)[j := h])" if "j < length (ks_handlers s)"
    "\<And>op. h_op (ks_handlers s ! j) = Some op \<Longrightarrow> h_op h = Some op" "\<And>st. h_start (ks_handlers s ! j) = Some st \<Longrightarrow> h_start h = Some st" for j h
    using H(2) started_mono [OF that] by blast
  from st show ?thesis
  proof (cases rule: rs_step.cases)
    case (rs_service y)
    have "served (log @ ext) (ks_handlers s) (ks_ops s)" by (rule log_started_served [OF log(2) D(3) handler_ok_more [OF D(4)]])
    with rs_service log H(2) show ?thesis by (intro exI [of _ ext]) (auto simp: raft_holds_def)
  next
    case (rs_deliver j h nrand op)
    from rs_deliver(8) have op: "op_Id op = nrand" "op_Command op = kv_cmd (co_req (ks_ops s ! h_opno h))"
      by (auto simp: Submit_op_def GetState_def split: if_splits)
    show ?thesis
      by (intro set [of j "h\<lparr>h_op := Some op\<rparr>"])
        (use rs_deliver(1-5,9) op mono [of j "h\<lparr>h_op := Some op\<rparr>"] ok [of j] in \<open>simp_all add: handler_ok_def\<close>)
  next
    case (rs_refuse j h nrand e)
    then have "e = ErrWrongLeader" by (auto simp: Submit_op_def GetState_def split: if_splits)
    then show ?thesis
      by (intro set [of j "h\<lparr>h_reply := Some (e, None)\<rparr>"])
        (use rs_refuse(1-5) mono [of j "h\<lparr>h_reply := Some (e, None)\<rparr>"] ok [of j] in \<open>simp_all add: handler_ok_def\<close>)
  next
    case (rs_start j h op rf index startTerm)
    let ?h = "h\<lparr>h_start := Some (index, startTerm)\<rparr>"
    have "?h \<in> set ((ks_handlers s)[j := ?h])" using rs_start(2) by (simp add: set_update_memI)
    then have "(index, op) \<in> started ((ks_handlers s)[j := ?h])" using rs_start(4) unfolding started_def by force
    then have "occ n (sv_cl (ks_sv s')) \<subseteq> started ((ks_handlers s)[j := ?h])"
      using occ_submit_start [OF H(1) rs_start(7-9)] mono [of j ?h] rs_start(1-5) by auto
    then show ?thesis by (intro set [of j ?h]) (use rs_start(1-5) ok [of j] in \<open>simp_all add: handler_ok_def\<close>)
  next
    case (rs_deposed j h op rf e)
    then have "e = ErrWrongLeader" by (auto simp: Submit_start_def Let_def split: if_splits prod.splits)
    moreover have "occ n (sv_cl (ks_sv s')) \<subseteq> started ((ks_handlers s)[j := h\<lparr>h_reply := Some (e, None)\<rparr>])"
      using occ_submit_start [OF H(1) rs_deposed(7-9)] mono [of j "h\<lparr>h_reply := Some (e, None)\<rparr>"] rs_deposed(1-5) by auto
    ultimately show ?thesis
      by (intro set [of j "h\<lparr>h_reply := Some (e, None)\<rparr>"]) (use rs_deposed(1-5) ok [of j] in \<open>simp_all add: handler_ok_def\<close>)
  next
    case (rs_register j h index startTerm p r ch)
    then show ?thesis
      by (intro set [of j "h\<lparr>h_chan := Some ch\<rparr>"])
        (use rs_register(1-5) mono [of j "h\<lparr>h_chan := Some ch\<rparr>"] ok [of j] in \<open>simp_all add: handler_ok_def\<close>)
  next
    case (rs_poll j h op index startTerm ch p res)
    obtain e v where res: "res = (e, v)" by (cases res)
    have "e = ErrWrongLeader \<or> e = OK \<and> (\<exists>k < length log. op = log ! k \<and> v = Some (answer log k))"
      by (rule poll_answer [OF hold D(3) rs_poll(2) _ rs_poll(9,10) rs_poll(11) [unfolded res]]) (use rs_poll(3,4) in simp)
    then have "e = ErrWrongLeader \<or> e = OK \<and> (\<exists>k < length (log @ ext). op = (log @ ext) ! k \<and> v = Some (answer (log @ ext) k))"
      by (metis answer_more length_append nth_append trans_less_add1)
    then show ?thesis
      by (intro set [of j "h\<lparr>h_reply := Some res\<rparr>"])
        (use rs_poll(1-5) mono [of j "h\<lparr>h_reply := Some res\<rparr>"] ok [of j] res in \<open>simp_all add: handler_ok_def\<close>)
  qed
qed

lemma rs_step_tries:
  assumes "rs_step len n s s'"
  shows "tries (ks_handlers s') = tries (ks_handlers s) \<or> (\<exists>j h op. j < length (ks_handlers s) \<and> h_op (ks_handlers s ! j) = None
      \<and> op_Id op \<notin> ids_of (ks_handlers s) \<and> h_opno h = h_opno (ks_handlers s ! j) \<and> h_op h = Some op \<and> ks_handlers s' = (ks_handlers s)[j := h])"
  using assms
proof (cases rule: rs_step.cases)
  case (rs_deliver j h nrand op)
  then have "op_Id op = nrand" by (auto simp: Submit_op_def GetState_def split: if_splits)
  with rs_deliver show ?thesis by (intro disjI2 exI [of _ j] exI [of _ "h\<lparr>h_op := Some op\<rparr>"] exI [of _ op]) simp
qed (simp_all add: tries_set)

interpretation raft_kv: kv_provider "rs_step len n" "raft_holds n" for len n
proof
  fix s s' :: "kv_service kv_system"
  assume st: "rs_step len n s s'"
  show "ks_ops s' = ks_ops s \<and> ks_clerks s' = ks_clerks s \<and> ks_log s' = ks_log s \<and> ks_now s' = ks_now s"
    using st by (cases rule: rs_step.cases) simp_all
  show "\<exists>ext. raft_holds n (log @ ext) (ks_sv s') (ks_handlers s') \<and> served (log @ ext) (ks_handlers s') (ks_ops s')"
    if "raft_holds n log (ks_sv s) (ks_handlers s)" "served log (ks_handlers s) (ks_ops s)" for log by (rule rs_step_holds [OF st that])
  show "tries (ks_handlers s') = tries (ks_handlers s) \<or> (\<exists>j h op. j < length (ks_handlers s) \<and> h_op (ks_handlers s ! j) = None
      \<and> op_Id op \<notin> ids_of (ks_handlers s) \<and> h_opno h = h_opno (ks_handlers s ! j) \<and> h_op h = Some op \<and> ks_handlers s' = (ks_handlers s)[j := h])"
    by (rule rs_step_tries [OF st])
qed (simp add: raft_holds_def started_new log_started_def)

lemma raft_holds_init: "raft_holds n [] (kv_init maxraft n now) []"
proof -
  have "kv_store (KVRaft0 p) = kv_store (KVRaft0 0)" for p by (simp add: KVRaft0_def)
  from kvsm.sv_init_inv [OF this] have "kv_inv n [] (kv_init maxraft n now)" .
  then show ?thesis by (simp add: raft_holds_def log_started_def) (simp add: sv_init_def cl_init_occ)
qed

section \<open>Linearizability\<close>


text \<open>A run in which a client puts a value: its request goes to server 0, which peer 1 has elected.\<close>

lemma calm_run: "(calm n)\<^sup>*\<^sup>* (sv_cl (ks_sv s)) c \<Longrightarrow> ks_run (rs_step len n) n s (s\<lparr>ks_sv := (ks_sv s)\<lparr>sv_cl := c\<rparr>\<rparr>)"
proof (induction rule: rtranclp_induct)
  case base
  then show ?case using ks_refl [of "rs_step len n" n s] by simp
next
  case (step c c')
  let ?s = "s\<lparr>ks_sv := (ks_sv s)\<lparr>sv_cl := c\<rparr>\<rparr>"
  have "sv_step KVServer_DoOp KVServer_Snapshot KVServer_Restore KVRaft0 len n (ks_sv ?s) ((ks_sv ?s)\<lparr>sv_cl := c'\<rparr>)"
    by (rule sv_raft) (use step.hyps(2) in \<open>simp add: calm_def\<close>)
  from rs_service [OF this] step.hyps(2) have "rs_step len n ?s (s\<lparr>ks_sv := (ks_sv s)\<lparr>sv_cl := c'\<rparr>\<rparr>)" by (simp add: calm_def)
  then show ?case by (rule ks_server [OF step.IH])
qed

definition demo_call :: clerk_op where
  "demo_call = \<lparr>co_client = 0, co_req = KvModel.ReqPut demo_put, co_call = 0, co_result = None\<rparr>"

definition demo_handler :: "(int \<times> int) option \<Rightarrow> nat option \<Rightarrow> (Err \<times> kv_res option) option \<Rightarrow> kv_handler" where
  "demo_handler st ch r = \<lparr>h_opno = 0, h_server = 0, h_op = Some (demo_log ! 0), h_start = st, h_chan = ch, h_reply = r\<rparr>"

definition demo_operation :: Operation where
  "demo_operation = \<lparr>op_ClientId = 0, op_Input = fst (record_Put demo_put OK), op_Call = 0, op_Output = snd (record_Put demo_put OK), op_Return = 5\<rparr>"

lemma demo_system_start:
  assumes x: "nodes (sv_cl x) 0 = demo_elect [zeroEntry]" "rsm (sv_rep x 0) = demo_rsm" and r: "Submit_register demo_rsm 1 = (r1, 0)"
    and x': "x' = x\<lparr>sv_cl := move 0 (demo_elect [zeroEntry, demo_entry (demo_log ! 0)]) (sv_cl x),
      sv_rep := (sv_rep x)(0 := (sv_rep x 0)\<lparr>rsm := r1, owner := (owner (sv_rep x 0))(0 := 1)\<rparr>)\<rparr>"
  shows "ks_run (rs_step len 3) 3 (one_clerk x Idle [] [] [] 0) (one_clerk x' (Waiting 0 0 True 0) [demo_handler (Some (1, 1)) (Some 0) None] [demo_call] [] 0)"
proof -
  let ?x1 = "x\<lparr>sv_cl := move 0 (demo_elect [zeroEntry, demo_entry (demo_log ! 0)]) (sv_cl x)\<rparr>"
  have "ck_step 3 (one_clerk x Idle [] [] [] 0) (one_clerk x (Calling 0 0 True) [] [demo_call] [] 0)"
    using ck_call [of "one_clerk x Idle [] [] [] 0" 0 "KvModel.ReqPut demo_put"] by (simp add: one_clerk_def demo_call_def fair_req_def demo_put_def)
  note run = ks_client [OF ks_refl [of "rs_step len 3"] this]
  have "ck_step 3 (one_clerk x (Calling 0 0 True) [] [demo_call] [] 0) (one_clerk x (Waiting 0 0 True 0) [new_handler 0 0] [demo_call] [] 0)"
    using ck_send [of "one_clerk x (Calling 0 0 True) [] [demo_call] [] 0" 0] by (simp add: one_clerk_def)
  note run = ks_client [OF run this]
  have op: "Submit_op (demo_elect [zeroEntry] :: (kv_req Op, kv_data) Raft) 7 (KvRaft.ReqPut demo_put) = Inr (demo_log ! 0)"
    by (simp add: Submit_op_def GetState_def demo_elect_def demo_log_def)
  have "rs_step len 3 (one_clerk x (Waiting 0 0 True 0) [new_handler 0 0] [demo_call] [] 0) (one_clerk x (Waiting 0 0 True 0) [demo_handler None None None] [demo_call] [] 0)"
    using rs_deliver [of 0 "one_clerk x (Waiting 0 0 True 0) [new_handler 0 0] [demo_call] [] 0" "new_handler 0 0" 3 7 "demo_log ! 0" len] op
    by (simp add: one_clerk_def new_handler_def demo_call_def demo_handler_def x(1) ids_of_def)
  note run = ks_server [OF run this]
  have "rs_step len 3 (one_clerk x (Waiting 0 0 True 0) [demo_handler None None None] [demo_call] [] 0)
    (one_clerk ?x1 (Waiting 0 0 True 0) [demo_handler (Some (1, 1)) None None] [demo_call] [] 0)"
    using rs_start [of 0 "one_clerk x (Waiting 0 0 True 0) [demo_handler None None None] [demo_call] [] 0" "demo_handler None None None" "demo_log ! 0" 3] x(1)
    by (simp add: one_clerk_def demo_handler_def Submit_start_def demo_started)
  note run = ks_server [OF run this]
  have "rs_step len 3 (one_clerk ?x1 (Waiting 0 0 True 0) [demo_handler (Some (1, 1)) None None] [demo_call] [] 0)
    (one_clerk x' (Waiting 0 0 True 0) [demo_handler (Some (1, 1)) (Some 0) None] [demo_call] [] 0)"
    using rs_register [of 0 "one_clerk ?x1 (Waiting 0 0 True 0) [demo_handler (Some (1, 1)) None None] [demo_call] [] 0" _ 1 1 0 3] x(2) r
    by (simp add: one_clerk_def demo_handler_def x')
  then show ?thesis by (rule ks_server [OF run])
qed

lemma demo_system_end:
  assumes x: "Submit_poll (rsm (sv_rep x 0)) (nodes (sv_cl x) 0) 0 7 1 = Some (OK, Some (ResPut \<lparr>putr_Err = OK\<rparr>))"
  shows "\<exists>x'. ks_run (rs_step len 3) 3 (one_clerk x (Waiting 0 0 True 0) [demo_handler (Some (1, 1)) (Some 0) None] [demo_call] [] 0)
    (one_clerk x' Idle [demo_handler (Some (1, 1)) (Some 0) (Some (OK, Some (ResPut \<lparr>putr_Err = OK\<rparr>)))]
      [demo_call\<lparr>co_result := Some (record_Put demo_put OK, 5)\<rparr>] [demo_operation] 5)"
proof -
  let ?s0 = "\<lambda>t. one_clerk x (Waiting 0 0 True 0) [demo_handler (Some (1, 1)) (Some 0) None] [demo_call] [] t"
  let ?x' = "x\<lparr>sv_rep := (sv_rep x)(0 := (sv_rep x 0)\<lparr>rsm := Submit_return (rsm (sv_rep x 0)) 1\<rparr>)\<rparr>"
  let ?res = "(OK, Some (ResPut \<lparr>putr_Err = OK\<rparr>))"
  let ?h = "demo_handler (Some (1, 1)) (Some 0) (Some ?res)"
  have "ck_step 3 (?s0 0) (?s0 5)" using ck_tick [of "?s0 0" 5] by (simp add: one_clerk_def)
  note run = ks_client [OF ks_refl [of "rs_step len 3"] this]
  have "rs_step len 3 (?s0 5) (one_clerk ?x' (Waiting 0 0 True 0) [?h] [demo_call] [] 5)"
    using rs_poll [of 0 "?s0 5" "demo_handler (Some (1, 1)) (Some 0) None" "demo_log ! 0" 1 1 0 0 3 ?res] x
    by (simp add: one_clerk_def demo_handler_def demo_log_def)
  note run = ks_server [OF run this]
  have "ck_step 3 (one_clerk ?x' (Waiting 0 0 True 0) [?h] [demo_call] [] 5) (one_clerk ?x' (Returned 0 (record_Put demo_put OK)) [?h] [demo_call] [] 5)"
    using ck_return [of "one_clerk ?x' (Waiting 0 0 True 0) [?h] [demo_call] [] 5" 0 0 0 True 0 ?res "ResPut \<lparr>putr_Err = OK\<rparr>" "record_Put demo_put OK"]
    by (simp add: one_clerk_def demo_handler_def demo_call_def KVServer_Put_reply_def Clerk_Put_verdict_def)
  note run = ks_client [OF run this]
  have "ck_step 3 (one_clerk ?x' (Returned 0 (record_Put demo_put OK)) [?h] [demo_call] [] 5)
    (one_clerk ?x' Idle [?h] [demo_call\<lparr>co_result := Some (record_Put demo_put OK, 5)\<rparr>] [demo_operation] 5)"
    using ck_record [of "one_clerk ?x' (Returned 0 (record_Put demo_put OK)) [?h] [demo_call] [] 5" 0 0 "record_Put demo_put OK" _ 3]
    by (simp add: one_clerk_def OpLog_Append_def operation_def demo_operation_def demo_call_def split_beta)
  from ks_client [OF run this] show ?thesis by blast
qed

lemma demo_system_serves:
  assumes x: "nodes (sv_cl x) 0 = demo_elect [zeroEntry, demo_entry (demo_log ! 0)]" "nodes (sv_cl x) 1 = demo_voter" "sv_queue x 0 = []" "rsm (sv_rep x 0) = r1"
    and r: "applyReader_exec KVServer_DoOp KVServer_Restore r1 demo_msg = Some r2" "buf (chans r2 0) = [\<lparr>n_id = 7, n_term = 1, n_result = ResPut \<lparr>putr_Err = OK\<rparr>\<rparr>]"
  shows "\<exists>x'. ks_run (rs_step len 3) 3 (one_clerk x st hs ops lg t) (one_clerk x' st hs ops lg t)
    \<and> Submit_poll (rsm (sv_rep x' 0)) (nodes (sv_cl x') 0) 0 7 1 = Some (OK, Some (ResPut \<lparr>putr_Err = OK\<rparr>))"
proof -
  let ?ld = "demo_leader (demo_log ! 0) :: (kv_req Op, kv_data) Raft"
  from demo_replicated [OF x(1,2)] obtain c where c: "(calm 3)\<^sup>*\<^sup>* (sv_cl x) c" "nodes c 0 = ?ld" by blast
  define x1 where "x1 = x\<lparr>sv_cl := c\<rparr>"
  have run1: "ks_run (rs_step len 3) 3 (one_clerk x st hs ops lg t) (one_clerk x1 st hs ops lg t)"
    using calm_run [of 3 "one_clerk x st hs ops lg t" c len] c(1) by (simp add: x1_def)
  define x2 where "x2 = x1\<lparr>sv_cl := move 0 (?ld\<lparr>lastApplied := 1\<rparr>) c, sv_queue := (sv_queue x1)(0 := sv_queue x1 0 @ [demo_msg])\<rparr>"
  have "sv_step KVServer_DoOp KVServer_Snapshot KVServer_Restore KVRaft0 len 3 x1 x2"
    using sv_apply [of 0 3 x1 "?ld\<lparr>lastApplied := 1\<rparr>" "[demo_msg]"] demo_apply c(2) by (simp add: x1_def x2_def)
  moreover have "node_occ (?ld\<lparr>lastApplied := 1\<rparr>) \<subseteq> occ 3 c" using node_occ_in [of 0 3 c] c(2) by (simp add: node_occ_def)
  then have "occ 3 (sv_cl x2) \<subseteq> occ 3 (sv_cl x1)" using occ_move [of "?ld\<lparr>lastApplied := 1\<rparr>" 3 c "{}" "sv_cl x2" 0] by (simp add: x2_def x1_def)
  ultimately have "rs_step len 3 (one_clerk x1 st hs ops lg t) (one_clerk x2 st hs ops lg t)" using rs_service [of len 3 "one_clerk x1 st hs ops lg t" x2] by simp
  note run2 = ks_server [OF run1 this]
  have x2: "sv_queue x2 0 = [demo_msg]" "rsm (sv_rep x2 0) = r1" by (simp_all add: x2_def x1_def x)
  define x3 where "x3 = x2\<lparr>sv_rep := (sv_rep x2)(0 := (sv_rep x2 0)\<lparr>rsm := r2, applied := msg_index demo_msg\<rparr>), sv_queue := (sv_queue x2)(0 := [])\<rparr>"
  have "sv_step KVServer_DoOp KVServer_Snapshot KVServer_Restore KVRaft0 len 3 x2 x3"
    unfolding x3_def by (rule sv_handle) (use x2 r(1) in simp_all)
  from rs_service [of len 3 "one_clerk x2 st hs ops lg t" x3] this have "rs_step len 3 (one_clerk x2 st hs ops lg t) (one_clerk x3 st hs ops lg t)" by (simp add: x3_def)
  from ks_server [OF run2 this] r(2) show ?thesis by (intro exI [of _ x3]) (simp add: x3_def Submit_poll_def)
qed

lemma demo_system_run:
  "\<exists>s. ks_run (rs_step (\<lambda>_. 0) 3) 3 (ks_init (kv_init (-1) 3 0) 0) s \<and> (\<forall>c. kc_state (ks_clerks s c) = Idle) \<and> length (ks_handlers s) = 1 \<and> ks_log s = [demo_operation]"
proof -
  obtain c :: "(kv_req Op, kv_data) cluster" where c: "(calm 3)\<^sup>*\<^sup>* (cl_init 3 0) c" "nodes c 0 = demo_elect [zeroEntry]" "nodes c 1 = demo_voter"
    using demo_voted by blast
  obtain r1 r2 where r: "Submit_register demo_rsm 1 = (r1, 0)" "applyReader_exec KVServer_DoOp KVServer_Restore r1 demo_msg = Some r2"
    "buf (chans r2 0) = [\<lparr>n_id = 7, n_term = 1, n_result = ResPut \<lparr>putr_Err = OK\<rparr>\<rparr>]" using demo_reader by blast
  define x where "x = (kv_init (-1) 3 0)\<lparr>sv_cl := c\<rparr>"
  have start: "ks_init (kv_init (-1) 3 0) 0 = one_clerk (kv_init (-1) 3 0) Idle [] [] [] 0" by (simp add: ks_init_def one_clerk_def fun_eq_iff)
  have run1: "ks_run (rs_step (\<lambda>_. 0) 3) 3 (ks_init (kv_init (-1) 3 0) 0) (one_clerk x Idle [] [] [] 0)"
    using calm_run [of 3 "one_clerk (kv_init (-1) 3 0) Idle [] [] [] 0" c "\<lambda>_. 0"] c(1) by (simp add: start x_def) (simp add: sv_init_def)
  have x: "nodes (sv_cl x) 0 = demo_elect [zeroEntry]" "rsm (sv_rep x 0) = demo_rsm"
    by (simp_all add: x_def c sv_init_def MakeRSM_def demo_rsm_def Let_def)
  define y where "y = x\<lparr>sv_cl := move 0 (demo_elect [zeroEntry, demo_entry (demo_log ! 0)]) (sv_cl x),
      sv_rep := (sv_rep x)(0 := (sv_rep x 0)\<lparr>rsm := r1, owner := (owner (sv_rep x 0))(0 := 1)\<rparr>)\<rparr>"
  note run2 = ks_run_trans [OF demo_system_start [OF x r(1) y_def] run1]
  have y: "nodes (sv_cl y) 0 = demo_elect [zeroEntry, demo_entry (demo_log ! 0)]" "nodes (sv_cl y) 1 = demo_voter" "sv_queue y 0 = []" "rsm (sv_rep y 0) = r1"
    by (simp_all add: y_def x_def c) (simp add: sv_init_def)
  from demo_system_serves [OF y r(2,3)] obtain z where
    z: "ks_run (rs_step (\<lambda>_. 0) 3) 3 (one_clerk y (Waiting 0 0 True 0) [demo_handler (Some (1, 1)) (Some 0) None] [demo_call] [] 0)
         (one_clerk z (Waiting 0 0 True 0) [demo_handler (Some (1, 1)) (Some 0) None] [demo_call] [] 0)"
      "Submit_poll (rsm (sv_rep z 0)) (nodes (sv_cl z) 0) 0 7 1 = Some (OK, Some (ResPut \<lparr>putr_Err = OK\<rparr>))" by blast
  from demo_system_end [OF z(2)] ks_run_trans [OF z(1) run2] obtain w where
    "ks_run (rs_step (\<lambda>_. 0) 3) 3 (ks_init (kv_init (-1) 3 0) 0) (one_clerk w Idle [demo_handler (Some (1, 1)) (Some 0) (Some (OK, Some (ResPut \<lparr>putr_Err = OK\<rparr>)))]
      [demo_call\<lparr>co_result := Some (record_Put demo_put OK, 5)\<rparr>] [demo_operation] 5)" by (meson ks_run_trans)
  then show ?thesis by (intro exI conjI) (auto simp: one_clerk_def)
qed


end
