(* ===== verification/RaftNext.thy ===== *)
theory RaftNext
  imports RaftSafety
begin

text \<open>
  The next indices of a leader in \<^verbatim>\<open>raft1/raft.go\<close>.  A conflict index that is on its way to a leader, and the index from
  which the leader sends to a peer, never lie beyond the end of the leader's log, so \<open>sendAppendEntriesToPeer\<close>
  never reads outside its log in any run; and after a rejection \<open>handleAppendReply\<close> backs up to the conflict index or to
  just after the last entry of the conflicting term.
\<close>

section \<open>Backing up\<close>

lemma findConflictTerm_found:
  assumes "i < length (rlog rf)"
  shows "\<exists>r. findConflictTerm rf t i = Some r
     \<and> (\<forall>k. r = Some k \<longrightarrow> lastIncludedIndex rf < k \<and> k \<le> lastLogIndex rf \<and> termAt rf k = Some t)
     \<and> (r = None \<longrightarrow> (\<forall>k. lastIncludedIndex rf < k \<and> k \<le> lastIncludedIndex rf + int i \<longrightarrow> termAt rf k \<noteq> Some t))"
  using assms
proof (induction i)
  case (Suc i)
  from Suc.prems have e: "go_nth (rlog rf) (int (Suc i)) = Some (rlog rf ! Suc i)" by (simp add: go_nth_def nat_add_distrib)
  show ?case
  proof (cases "le_Term (rlog rf ! Suc i) = t")
    case True
    with Suc.prems e have "termAt rf (getAbsoluteIndex rf (int (Suc i))) = Some t"
      by (simp add: termAt_def getRelativeIndex_def getAbsoluteIndex_def)
    with True Suc.prems e show ?thesis by (auto simp: getAbsoluteIndex_def lastLogIndex_def)
  next
    case False
    have "k = lastIncludedIndex rf + int (Suc i) \<or> k \<le> lastIncludedIndex rf + int i"
      if "k \<le> lastIncludedIndex rf + int (Suc i)" for k using that by auto
    moreover have "termAt rf (lastIncludedIndex rf + int (Suc i)) \<noteq> Some t"
      using e False by (simp add: termAt_def getRelativeIndex_def)
    ultimately show ?thesis using Suc e False by (auto 4 4)
  qed
qed auto

text \<open>The next index is the conflict index only if the leader's log has no entry of the conflicting term.\<close>

lemma handleAppendReply_search:
  assumes wf: "raft_wf rf" and lead: "role rf = Leader" "currentTerm rf = t" "aer_Term reply \<le> t" "\<not> aer_Success reply"
    and peer: "0 \<le> peer" "peer < npeers rf"
  obtains ni where "handleAppendReply rf peer t args reply = Some (rf\<lparr>nextIndex := (nextIndex rf)[nat peer := ni]\<rparr>)"
    "ni = aer_ConflictIndex reply
       \<and> (aer_ConflictTerm reply \<noteq> -1 \<longrightarrow> (\<forall>k. lastIncludedIndex rf < k \<and> k \<le> lastLogIndex rf \<longrightarrow> termAt rf k \<noteq> Some (aer_ConflictTerm reply)))
     \<or> aer_ConflictTerm reply \<noteq> -1 \<and> lastIncludedIndex rf < ni - 1 \<and> ni - 1 \<le> lastLogIndex rf
       \<and> termAt rf (ni - 1) = Some (aer_ConflictTerm reply)"
proof -
  have "length (rlog rf) - 1 < length (rlog rf)" using wf by (simp add: raft_wf_def)
  from findConflictTerm_found [OF this, of "aer_ConflictTerm reply"] obtain r where
    r: "findConflictTerm rf (aer_ConflictTerm reply) (length (rlog rf) - 1) = Some r"
    "\<And>k. r = Some k \<Longrightarrow> lastIncludedIndex rf < k \<and> k \<le> lastLogIndex rf \<and> termAt rf k = Some (aer_ConflictTerm reply)"
    "r = None \<Longrightarrow> \<forall>k. lastIncludedIndex rf < k \<and> k \<le> lastIncludedIndex rf + int (length (rlog rf) - 1)
       \<longrightarrow> termAt rf k \<noteq> Some (aer_ConflictTerm reply)" by blast
  have last: "lastIncludedIndex rf + int (length (rlog rf) - 1) = lastLogIndex rf"
    using wf by (cases "rlog rf") (simp_all add: raft_wf_def lastLogIndex_def)
  have set: "go_set (nextIndex rf) peer v = Some ((nextIndex rf)[nat peer := v])" for v
    using wf peer by (simp add: go_set_def raft_wf_def)
  let ?ni = "if aer_ConflictTerm reply = -1 then aer_ConflictIndex reply
     else case r of Some i \<Rightarrow> i + 1 | None \<Rightarrow> aer_ConflictIndex reply"
  have "handleAppendReply rf peer t args reply = Some (rf\<lparr>nextIndex := (nextIndex rf)[nat peer := ?ni]\<rparr>)"
    using lead r(1) by (simp add: handleAppendReply_def set)
  then show thesis by (rule that) (use r(2,3) last in \<open>auto split: option.splits\<close>)
qed

lemma handleAppendReply_back:
  assumes "raft_wf rf" "role rf = Leader" "currentTerm rf = t" "aer_Term reply \<le> t" "\<not> aer_Success reply" "0 \<le> peer" "peer < npeers rf"
  obtains ni where "handleAppendReply rf peer t args reply = Some (rf\<lparr>nextIndex := (nextIndex rf)[nat peer := ni]\<rparr>)"
    "ni = aer_ConflictIndex reply
     \<or> aer_ConflictTerm reply \<noteq> -1 \<and> lastIncludedIndex rf < ni - 1 \<and> ni - 1 \<le> lastLogIndex rf
       \<and> termAt rf (ni - 1) = Some (aer_ConflictTerm reply)"
  using handleAppendReply_search [OF assms] by metis

section \<open>The invariant\<close>

definition lead_next :: "int \<Rightarrow> ('c, 'd) Raft \<Rightarrow> bool" where
  "lead_next n rf \<longleftrightarrow> (role rf = Leader \<longrightarrow> (\<forall>q. 0 \<le> q \<and> q < n \<longrightarrow> nextIndex rf ! nat q \<le> lastLogIndex rf + 1))"

definition reply_next :: "'c araft \<Rightarrow> 'c AppendEntriesArgs \<Rightarrow> AppendEntriesReply \<Rightarrow> bool" where
  "reply_next A args reply \<longleftrightarrow> abase A (ae_Term args) \<noteq> None
     \<and> (aer_Term reply \<le> ae_Term args \<and> \<not> aer_Success reply \<longrightarrow> aer_ConflictIndex reply \<le> int (length (allog A (ae_Term args))) + 1)"

definition next_inv :: "int \<Rightarrow> 'c araft \<Rightarrow> ('c, 'd) cluster \<Rightarrow> bool" where
  "next_inv n A s \<longleftrightarrow> (\<forall>p args reply. (p, args, reply) \<in> append_replies s \<longrightarrow> reply_next A args reply)
     \<and> (\<forall>p. 0 \<le> p \<and> p < n \<longrightarrow> lead_next n (nodes s p))"

lemma next_invD:
  assumes "next_inv n A s"
  shows "(p, args, reply) \<in> append_replies s \<Longrightarrow> reply_next A args reply" "0 \<le> p \<Longrightarrow> p < n \<Longrightarrow> lead_next n (nodes s p)"
  using assms by (auto simp: next_inv_def)

lemma reply_next_run: "a_run qm A A' \<Longrightarrow> reply_next A args reply \<Longrightarrow> reply_next A' args reply"
  using growsD [OF a_run_grows, of qm A A' "ae_Term args"] by (fastforce simp: reply_next_def)

lemma next_inv_move:
  assumes "next_inv n A s" "a_run qm A A'" "lead_next n rf" "nodes s' = (nodes s)(p := rf)" "append_replies s' = append_replies s"
  shows "next_inv n A' s'"
  using assms reply_next_run [OF assms(2)] by (auto simp: next_inv_def)

lemma next_inv_same:
  assumes "next_inv n A s" "a_run qm A A'" "nodes s' = nodes s" "append_replies s' = append_replies s"
  shows "next_inv n A' s'"
  using assms reply_next_run [OF assms(2)] by (auto simp: next_inv_def)

lemma lead_next_follower: "role rf \<noteq> Leader \<Longrightarrow> lead_next n rf"
  by (simp add: lead_next_def)

lemma lead_next_keep:
  "lead_next n rf \<Longrightarrow> (role rf' = Leader \<Longrightarrow> role rf = Leader) \<Longrightarrow> nextIndex rf' = nextIndex rf \<Longrightarrow>
     lastLogIndex rf \<le> lastLogIndex rf' \<Longrightarrow> lead_next n rf'"
  by (fastforce simp: lead_next_def)

lemma lead_next_set:
  assumes "lead_next n rf" "role rf' = Leader \<Longrightarrow> role rf = Leader" "nextIndex rf' = (nextIndex rf)[nat p := ni]"
    "lastLogIndex rf' = lastLogIndex rf" "ni \<le> lastLogIndex rf + 1"
  shows "lead_next n rf'"
  unfolding lead_next_def
proof (intro impI allI)
  fix q assume "role rf' = Leader" "0 \<le> q \<and> q < n"
  with assms(1,2,5) have "nextIndex rf ! nat q \<le> lastLogIndex rf + 1" "ni \<le> lastLogIndex rf + 1" by (auto simp: lead_next_def)
  then show "nextIndex rf' ! nat q \<le> lastLogIndex rf' + 1"
    using assms(3,4) by (cases "nat q < length (nextIndex rf)"; cases "nat p = nat q") (auto simp: nth_list_update list_update_beyond)
qed

section \<open>Replies\<close>

text \<open>What a leader has to hear about is never beyond its log.\<close>

lemma leader_covers:
  assumes "a_inv (majority n) A" "peer_sim n A p rf" "raft_wf rf" "abase A t \<noteq> None" "currentTerm rf \<le> t"
  shows "agree (nat (lastIncludedIndex rf)) (alog A p) (allog A t)" "lastIncludedIndex rf \<le> int (length (allog A t))"
    "agree (nat (commitIndex rf)) (alog A p) (allog A t)"
proof -
  from maj.leader_has_committed [OF assms(1) peer_simD(3) [OF assms(2)] assms(4,5)]
  show "agree (nat (commitIndex rf)) (alog A p) (allog A t)" .
  have "committed (majority n) A (currentTerm rf) (nat (lastIncludedIndex rf)) (alog A p)"
    by (rule committed_mono [OF peer_simD(3) [OF assms(2)] order_refl]) (use assms(3) in \<open>simp add: raft_wf_def nat_mono\<close>)
  from maj.leader_has_committed [OF assms(1) this assms(4,5)]
  show "agree (nat (lastIncludedIndex rf)) (alog A p) (allog A t)" .
  from agree_length [OF this] show "lastIncludedIndex rf \<le> int (length (allog A t))" by linarith
qed

lemma reply_next_AppendEntries:
  assumes inv: "a_inv (majority n) A" and P: "peer_sim n A p rf" "raft_wf rf" and args: "append_sim n A p args"
    and st: "AppendEntries rf args now = Some (rf', reply)"
  shows "reply_next A args reply"
proof -
  have b: "abase A (ae_Term args) \<noteq> None" and prev: "ae_PrevLogIndex args \<le> int (length (allog A (ae_Term args)))"
    using args by (auto simp: append_sim_def from_leader_def Let_def)
  show ?thesis
  proof (cases "aer_Term reply \<le> ae_Term args \<and> \<not> aer_Success reply")
    case True
    have cur: "currentTerm rf \<le> ae_Term args" using st P(2) True by (cases rule: AppendEntries_cases) auto
    from AppendEntries_conflict_hint [OF st P(2) cur] True leader_covers(2) [OF inv P b cur] prev b show ?thesis
      by (auto simp: reply_next_def)
  qed (use b in \<open>auto simp: reply_next_def\<close>)
qed

lemma lead_next_handleAppendReply:
  assumes sim: "cluster_sim n A s" and inv: "elect_inv n s" and i: "0 \<le> i" "i < n"
    and nx: "next_inv n A s" and rep: "(p, args, reply) \<in> append_replies s"
    and st: "handleAppendReply (nodes s i) p (ae_Term args) args reply = Some rf"
  shows "lead_next n rf"
proof -
  let ?rf = "nodes s i"
  note P = cluster_simD(3) [OF sim i] and W = elect_inv_peer [OF inv i] and L = next_invD(2) [OF nx i]
  have len: "lastLogIndex ?rf = int (length (allog A (currentTerm ?rf)))" if "role ?rf = Leader"
    using log_sim_last [OF peer_simD(2) [OF P] W(1)] peer_sim_leader(2) [OF P that] by simp
  from st W(1) show ?thesis
  proof (cases rule: handleAppendReply_cases)
    case ignored
    with L show ?thesis by simp
  next
    case deposed
    then show ?thesis by (simp add: lead_next_def)
  next
    case (matched rf1)
    from updateCommitIndex_raises [OF matched(8,9)] obtain k where "rf = rf1\<lparr>commitIndex := k\<rparr>" by blast
    moreover have "ae_PrevLogIndex args + int (length (ae_Entries args)) \<le> lastLogIndex ?rf"
      using msgs_simD(3) [OF cluster_simD(4) [OF sim] rep matched(4)] len [OF matched(1)] matched(2)
        inv_ackedD(3) [OF a_invD(6) [OF cluster_simD(1) [OF sim]], of p "ae_Term args"] by simp
    ultimately show ?thesis using matched(1,7) by (intro lead_next_set [OF L]) auto
  next
    case (backed_up ni)
    have "0 \<le> p" "p < npeers ?rf"
      using st backed_up(1-4) W(1) by (auto simp: handleAppendReply_def bind_Some_iff go_set_Some raft_wf_def split: if_splits)
    from handleAppendReply_back [OF W(1) backed_up(1-4) this] obtain nj where
      "handleAppendReply ?rf p (ae_Term args) args reply = Some (?rf\<lparr>nextIndex := (nextIndex ?rf)[nat p := nj]\<rparr>)"
      "nj = aer_ConflictIndex reply \<or> nj - 1 \<le> lastLogIndex ?rf" by metis
    with st next_invD(1) [OF nx rep] backed_up(2-4) len [OF backed_up(1)] show ?thesis
      by (intro lead_next_set [OF L, of rf p nj]) (auto simp: reply_next_def)
  qed
qed

lemma lead_next_handleSnapshotReply:
  assumes sim: "cluster_sim n A s" and inv: "elect_inv n s" and i: "0 \<le> i" "i < n" and nx: "next_inv n A s"
    and rep: "(p, sargs, reply) \<in> snap_replies s"
    and st: "handleSnapshotReply (nodes s i) p (is_Term sargs) sargs reply = Some rf"
  shows "lead_next n rf"
proof -
  let ?rf = "nodes s i"
  note P = cluster_simD(3) [OF sim i] and W = elect_inv_peer [OF inv i] and L = next_invD(2) [OF nx i]
  from st show ?thesis
  proof (cases rule: handleSnapshotReply_cases)
    case ignored
    with L show ?thesis by simp
  next
    case deposed
    then show ?thesis by (simp add: lead_next_def)
  next
    case (advanced m)
    have p: "0 \<le> p" "p < n" using advanced(4,5) W(1,4) by (simp_all add: raft_wf_def)
    have "lastLogIndex ?rf = int (length (allog A (is_Term sargs)))"
      using log_sim_last [OF peer_simD(2) [OF P] W(1)] peer_sim_leader(2) [OF P advanced(1)] advanced(2) by simp
    moreover have "int (acked A p (is_Term sargs)) \<le> int (length (allog A (is_Term sargs)))"
      using inv_ackedD(3) [OF a_invD(6) [OF cluster_simD(1) [OF sim]]] by simp
    moreover have "m \<le> int (acked A p (is_Term sargs))"
      using msgs_simD(5) [OF cluster_simD(4) [OF sim] rep advanced(3)] peer_sim_leader(5) [OF P advanced(1) p] advanced(2,6) by simp
    ultimately show ?thesis using advanced(7) by (intro lead_next_set [OF L]) auto
  qed
qed

section \<open>Every step keeps the next indices in the log\<close>

lemma leader_hears_nothing:
  assumes "cluster_sim n A s" "0 \<le> p" "p < n" "from_leader A p t" "currentTerm (nodes s p) \<le> t"
    "role rf = role (acceptLeader (nodes s p) t)"
  shows "lead_next n rf"
  using not_leader [OF assms(1-5)] assms(6) by (simp add: lead_next_def)

lemma next_inv_step:
  assumes st: "cl_step n s s'" and inv: "elect_inv n s" and sim: "cluster_sim n A s" and nx: "next_inv n A s"
    and run: "a_run (majority n) A A'"
  shows "next_inv n A' s'"
  using st
proof (cases rule: cl_step.cases)
  case (cl_elect i now rnd rf args)
  have "lead_next n rf" using ticker_elects [OF cl_elect(4) elect_inv_peer(1) [OF inv cl_elect(2,3)]] by (simp add: lead_next_def)
  with cl_elect(1) show ?thesis by (intro next_inv_move [OF nx run, of rf _ i]) (auto simp: open_calls_def set_votes_def move_def)
next
  case (cl_vote p i t args now rf reply)
  have "lead_next n rf"
    by (rule lead_next_keep [OF next_invD(2) [OF nx cl_vote(2,3)]]; use cl_vote(5) in \<open>cases rule: RequestVote_cases\<close>) (auto split: if_splits)
  with cl_vote(1) show ?thesis by (intro next_inv_move [OF nx run, of rf _ p]) (auto simp: set_call_def move_def)
next
  case (cl_vote_reply i t p reply now rf v)
  have "lead_next n rf"
    using cl_vote_reply(5) next_invD(2) [OF nx cl_vote_reply(2,3)] elect_inv_peer(4) [OF inv cl_vote_reply(2,3)]
    by (auto simp: handleVoteReply_def Let_def lead_next_def becomeLeader_def split: if_splits)
  with cl_vote_reply(1) show ?thesis by (intro next_inv_move [OF nx run, of rf _ i]) (auto simp: set_call_def set_votes_def move_def)
next
  case (cl_start i c rf r)
  have "lead_next n rf"
    by (rule lead_next_keep [OF next_invD(2) [OF nx cl_start(2,3)]])
      (use cl_start(4) in \<open>auto simp: Start_def Let_def lastLogIndex_def split: if_splits\<close>)
  with cl_start(1) show ?thesis by (intro next_inv_move [OF nx run, of rf _ i]) (auto simp: move_def)
next
  case (cl_send i p t args)
  then show ?thesis by (intro next_inv_same [OF nx run]) auto
next
  case (cl_send_snap i p t sargs)
  then show ?thesis by (intro next_inv_same [OF nx run]) auto
next
  case (cl_append p args now rf reply)
  note P = cluster_simD(3) [OF sim cl_append(2,3)] and W = elect_inv_peer(1) [OF inv cl_append(2,3)]
  note M = msgs_simD(2) [OF cluster_simD(4) [OF sim] cl_append(4)]
  have fl: "from_leader A p (ae_Term args)" using M by (simp add: append_sim_def Let_def)
  from cl_append(5) W have "lead_next n rf"
    by (cases rule: AppendEntries_cases)
      (auto intro: leader_hears_nothing [OF sim cl_append(2,3) fl] next_invD(2) [OF nx cl_append(2,3)] simp: updateFollowerCommit_eq)
  moreover note reply_next_run [OF run reply_next_AppendEntries [OF cluster_simD(1) [OF sim] P W M cl_append(5)]]
  ultimately show ?thesis using cl_append(1) reply_next_run [OF run] nx by (auto simp: next_inv_def move_def)
next
  case (cl_append_reply i p args reply rf)
  from lead_next_handleAppendReply [OF sim inv cl_append_reply(2,3) nx cl_append_reply(4,6)] cl_append_reply(1)
  show ?thesis by (intro next_inv_move [OF nx run, of rf _ i]) (auto simp: move_def)
next
  case (cl_snap p sargs now rf reply msg)
  have fl: "from_leader A p (is_Term sargs)" using msgs_simD(4) [OF cluster_simD(4) [OF sim] cl_snap(4)] by (simp add: snap_sim_def Let_def)
  from cl_snap(5) elect_inv_peer(1) [OF inv cl_snap(2,3)] have "lead_next n rf"
    by (cases rule: InstallSnapshot_cases)
      (auto intro: leader_hears_nothing [OF sim cl_snap(2,3) fl] next_invD(2) [OF nx cl_snap(2,3)])
  with cl_snap(1) show ?thesis by (intro next_inv_move [OF nx run, of rf _ p]) (auto simp: move_def)
next
  case (cl_snap_reply i p sargs reply rf)
  from lead_next_handleSnapshotReply [OF sim inv cl_snap_reply(2,3) nx cl_snap_reply(4,6)] cl_snap_reply(1)
  show ?thesis by (intro next_inv_move [OF nx run, of rf _ i]) (auto simp: move_def)
next
  case (cl_compact i index snap rf)
  have "lead_next n rf"
    by (rule lead_next_keep [OF next_invD(2) [OF nx cl_compact(2,3)]];
      use cl_compact(5) elect_inv_peer(1) [OF inv cl_compact(2,3)] in \<open>cases rule: Snapshot_cases\<close>) (auto simp: lastLogIndex_def)
  with cl_compact(1) show ?thesis by (intro next_inv_move [OF nx run, of rf _ i]) (auto simp: move_def)
next
  case (cl_apply i rf msgs)
  have "lead_next n rf"
    by (rule lead_next_keep [OF next_invD(2) [OF nx cl_apply(2,3)]]) (use applierLoop_frame [OF cl_apply(4)] in \<open>auto simp: lastLogIndex_def\<close>)
  with cl_apply(1) show ?thesis by (intro next_inv_move [OF nx run, of rf _ i]) (auto simp: move_def)
next
  case (cl_kill i)
  have "lead_next n (Kill (nodes s i))"
    by (rule lead_next_keep [OF next_invD(2) [OF nx cl_kill(2,3)]]) (auto simp: Kill_def lastLogIndex_def)
  with cl_kill(1) show ?thesis by (intro next_inv_move [OF nx run, of _ _ i]) (auto simp: move_def)
next
  case (cl_restart i now)
  have "lead_next n (Make n i (persister (nodes s i)) now)" by (simp add: lead_next_def)
  with cl_restart(1) show ?thesis by (intro next_inv_move [OF nx run, of _ _ i]) (auto simp: move_def)
qed

text \<open>A state of a run together with the state of the protocol it stands for.\<close>

definition sound :: "int \<Rightarrow> 'c araft \<Rightarrow> ('c, 'd) cluster \<Rightarrow> bool" where
  "sound n A s \<longleftrightarrow> elect_inv n s \<and> cluster_sim n A s \<and> next_inv n A s"

lemma sound_step: "sound n A s \<Longrightarrow> cl_step n s s' \<Longrightarrow> \<exists>A'. sound n A' s'"
  unfolding sound_def using cl_step_sim next_inv_step cl_step_elect_inv by meson

lemma cl_init_next: "next_inv n a_init (cl_init n now)"
  by (simp add: next_inv_def cl_init_def lead_next_def)

lemma reachable_sound:
  assumes "cl_run n (cl_init n now) s" shows "\<exists>A. sound n A s"
proof -
  have "\<exists>A. sound n A s'" if "cl_run n s0 s'" "\<exists>A. sound n A s0" for s0 s'
    using that by (induction rule: cl_run.induct) (auto dest: sound_step)
  with assms cl_init_elect_inv cl_init_sim cl_init_next show ?thesis unfolding sound_def by metis
qed

section \<open>No panics\<close>

lemma handleAppendReply_total:
  assumes wf: "raft_wf rf" and peer: "0 \<le> peer" "peer < npeers rf"
  shows "handleAppendReply rf peer t args reply \<noteq> None"
proof (cases "role rf = Leader \<and> currentTerm rf = t \<and> aer_Term reply \<le> t")
  case True
  let ?m = "ae_PrevLogIndex args + int (length (ae_Entries args))"
  let ?rf = "rf\<lparr>matchIndex := (matchIndex rf)[nat peer := ?m], nextIndex := (nextIndex rf)[nat peer := ?m + 1]\<rparr>"
  have "raft_wf ?rf" using wf by (simp add: raft_wf_def)
  from updateCommitIndex_cases [OF this] have up: "updateCommitIndex ?rf \<noteq> None" by auto
  show ?thesis
  proof (cases "aer_Success reply")
    case s: True
    with True up wf peer show ?thesis by (auto simp: handleAppendReply_def go_set_def raft_wf_def)
  next
    case False
    from True have l: "role rf = Leader" "currentTerm rf = t" "aer_Term reply \<le> t" by auto
    obtain ni where "handleAppendReply rf peer t args reply = Some (rf\<lparr>nextIndex := (nextIndex rf)[nat peer := ni]\<rparr>)"
      using handleAppendReply_back [OF wf l False peer, where args = args] by metis
    then show ?thesis by simp
  qed
qed (auto simp: handleAppendReply_def)

text \<open>
  C25: No peer ever panics.  In every state that a run of a cluster reaches, no locked section of any peer reads or slices outside a
  list: neither the handlers, whatever arguments a call carries, nor the timer, the applier, the sender to any peer in any
  term, the handling of any reply from any peer, nor a snapshot of anything that was applied.
\<close>

theorem raft_never_panics:
  assumes "cl_run n (cl_init n now) s" and "0 \<le> i" "i < n" and "0 \<le> p" "p < n" and "k \<le> lastApplied (nodes s i)"
  shows "RequestVote (nodes s i) vargs t \<noteq> None \<and> AppendEntries (nodes s i) aargs t \<noteq> None \<and> InstallSnapshot (nodes s i) sargs t \<noteq> None
     \<and> ticker_tick (nodes s i) t rnd \<noteq> None \<and> applierLoop_iter (nodes s i) \<noteq> None \<and> sendAppendEntriesToPeer (nodes s i) p u \<noteq> None
     \<and> handleAppendReply (nodes s i) p u aargs areply \<noteq> None \<and> handleSnapshotReply (nodes s i) p u sargs sreply \<noteq> None
     \<and> Snapshot (nodes s i) k snap \<noteq> None"
proof -
  let ?rf = "nodes s i"
  obtain A where A: "elect_inv n s" "cluster_sim n A s" "next_inv n A s" using reachable_sound [OF assms(1)] by (auto simp: sound_def)
  note W = elect_inv_peer [OF A(1) assms(2,3)] and P = cluster_simD(3) [OF A(2) assms(2,3)]
  have p: "0 \<le> p" "p < npeers ?rf" using assms(4,5) W(4) by simp_all
  have com: "commitIndex ?rf \<le> lastLogIndex ?rf"
    using committed_length [OF peer_simD(3) [OF P]] log_sim_last [OF peer_simD(2) [OF P] W(1)] by simp
  have "ticker_tick ?rf t rnd \<noteq> None" by (simp add: ticker_tick_def Let_def startElection_eq [OF W(1)])
  moreover have "applierLoop_iter ?rf \<noteq> None" by (simp add: applierLoop_iter_def applier_collect_eq [OF W(1) com])
  moreover have "sendAppendEntriesToPeer ?rf p u \<noteq> None"
  proof (cases "role ?rf = Leader \<and> currentTerm ?rf = u")
    case True
    then have "nextIndex ?rf ! nat p \<le> lastLogIndex ?rf + 1" using next_invD(2) [OF A(3) assms(2,3)] assms(4,5) by (simp add: lead_next_def)
    from sendAppendEntries_contract [OF W(1) p this, of u] True show ?thesis by (auto split: if_splits)
  qed (auto simp: sendAppendEntriesToPeer_def)
  moreover have "handleSnapshotReply ?rf p u sargs sreply \<noteq> None"
    using W(1) p by (auto simp: handleSnapshotReply_def go_nth_def go_set_def raft_wf_def Let_def)
  moreover have "Snapshot ?rf k snap \<noteq> None"
    by (rule Snapshot_total [OF W(1)]) (use assms(6) peer_simD(4) [OF P] com in linarith)
  ultimately show ?thesis
    using RequestVote_total [OF W(1)] AppendEntries_total [OF W(1)] InstallSnapshot_total [OF W(1)] handleAppendReply_total [OF W(1) p] by blast
qed

theorem raft_never_panics_witness:
  "\<exists>s. cl_run 3 (cl_init 3 0 :: (nat, nat) cluster) s \<and> role (nodes s 0) = Leader \<and> sendAppendEntriesToPeer (nodes s 0) 2 1 \<noteq> None
     \<and> AppendEntries (nodes s 0) \<lparr>ae_Term = 9, ae_LeaderId = -1, ae_PrevLogIndex = -4, ae_PrevLogTerm = 0, ae_Entries = [], ae_LeaderCommit = 77\<rparr> 0 \<noteq> None
     \<and> Snapshot (nodes s 0) 0 [1] \<noteq> None"
proof -
  obtain s where s: "cl_run 3 (cl_init 3 0 :: (nat, nat) cluster) s" "nodes s 0 = demo_leader 42" "nodes s 1 = demo_follower 42 1"
    using demo_commit_run [of 42] by auto
  have "(0 :: int) \<le> lastApplied (nodes s 0)" by (simp add: s(2) demo_peers demo_eval)
  from raft_never_panics [OF s(1) _ _ _ _ this, of 2] s(1) demo_values(5) [OF s(2,3)] show ?thesis by (intro exI [of _ s]) simp
qed

end
