(* ===== verification/RaftCatchUp.thy ===== *)
theory RaftCatchUp
  imports RaftNext
begin

text \<open>
  How the leader of \<^verbatim>\<open>raft1/raft.go\<close> brings a follower up to date.  In every reachable state, exchanges of one heartbeat and its
  reply between a leader and a peer of no later term end with the peer holding the whole log of the leader: a rejection
  moves the next index down, a follower that has compacted its log is met just after its snapshot, and one that needs
  entries the leader has compacted gets the leader's snapshot.  The steps used are those of the group \<open>Q\<close> alone, without crashes.
\<close>

section \<open>Steps of a group\<close>

text \<open>Timeouts, heartbeats, requests and replies among the peers of \<open>Q\<close>: no other peer moves, nobody crashes, restarts or
  compacts its log, and no command is started.  A peer whose tester has killed it starts no elections and sends no heartbeats.  A snapshot that a peer installs
  is not older than what the peer has applied.\<close>

inductive among :: "int \<Rightarrow> int set \<Rightarrow> ('c, 'd) cluster \<Rightarrow> ('c, 'd) cluster \<Rightarrow> bool" for n Q where
  am_elect: "i \<in> Q \<Longrightarrow> \<not> killed (nodes s i) \<Longrightarrow> ticker_tick (nodes s i) now rnd = Some (rf, Some args) \<Longrightarrow>
    among n Q s (set_votes i (rv_Term args) 1 (open_calls rf args (move i rf s)))"
| am_vote: "p \<in> Q \<Longrightarrow> i \<in> Q \<Longrightarrow> vote_calls s i t p = VSent args \<Longrightarrow> RequestVote (nodes s p) args now = Some (rf, reply) \<Longrightarrow>
    among n Q s (set_call i t p (VReplied reply) (move p rf s))"
| am_vote_reply: "i \<in> Q \<Longrightarrow> p \<in> Q \<Longrightarrow> vote_calls s i t p = VReplied reply \<Longrightarrow>
    handleVoteReply (nodes s i) (votes s i t) t reply now = (rf, v) \<Longrightarrow>
    among n Q s (set_votes i t v (set_call i t p VDone (move i rf s)))"
| am_send: "i \<in> Q \<Longrightarrow> p \<in> Q \<Longrightarrow> (p, t) \<in> set (sendHeartbeats (nodes s i)) \<Longrightarrow>
    sendAppendEntriesToPeer (nodes s i) p t = Some (SendEntries args) \<Longrightarrow>
    among n Q s (s\<lparr>append_reqs := insert (p, args) (append_reqs s)\<rparr>)"
| am_send_snap: "i \<in> Q \<Longrightarrow> p \<in> Q \<Longrightarrow> (p, t) \<in> set (sendHeartbeats (nodes s i)) \<Longrightarrow>
    sendAppendEntriesToPeer (nodes s i) p t = Some (SendSnapshot sargs) \<Longrightarrow>
    among n Q s (s\<lparr>snap_reqs := insert (p, sargs) (snap_reqs s)\<rparr>)"
| am_append: "p \<in> Q \<Longrightarrow> (p, args) \<in> append_reqs s \<Longrightarrow> ae_LeaderId args \<in> Q \<Longrightarrow>
    AppendEntries (nodes s p) args now = Some (rf, reply) \<Longrightarrow>
    among n Q s ((move p rf s)\<lparr>append_replies := insert (p, args, reply) (append_replies s)\<rparr>)"
| am_append_reply: "i \<in> Q \<Longrightarrow> p \<in> Q \<Longrightarrow> (p, args, reply) \<in> append_replies s \<Longrightarrow> ae_LeaderId args = i \<Longrightarrow>
    handleAppendReply (nodes s i) p (ae_Term args) args reply = Some rf \<Longrightarrow> among n Q s (move i rf s)"
| am_snap: "p \<in> Q \<Longrightarrow> (p, sargs) \<in> snap_reqs s \<Longrightarrow> is_LeaderId sargs \<in> Q \<Longrightarrow>
    InstallSnapshot (nodes s p) sargs now = Some (rf, reply, msg) \<Longrightarrow>
    (msg \<noteq> None \<Longrightarrow> lastApplied (nodes s p) \<le> is_LastIncludedIndex sargs) \<Longrightarrow>
    among n Q s ((move p rf s)\<lparr>snap_replies := insert (p, sargs, reply) (snap_replies s)\<rparr>)"
| am_snap_reply: "i \<in> Q \<Longrightarrow> p \<in> Q \<Longrightarrow> (p, sargs, reply) \<in> snap_replies s \<Longrightarrow> is_LeaderId sargs = i \<Longrightarrow>
    handleSnapshotReply (nodes s i) p (is_Term sargs) sargs reply = Some rf \<Longrightarrow> among n Q s (move i rf s)"

lemma heartbeat_peer:
  "(p, t) \<in> set (sendHeartbeats rf) \<longleftrightarrow> \<not> dead rf \<and> role rf = Leader \<and> t = currentTerm rf \<and> p \<in> set (peers rf) \<and> p \<noteq> me rf"
  by (auto simp: sendHeartbeats_def killed_def)

lemma among_cl:
  assumes "among n Q s s'" "elect_inv n s" "Q \<subseteq> in_cluster n" shows "cl_step n s s'"
proof -
  have Q: "0 \<le> p \<and> p < n \<and> me (nodes s p) = p" if "p \<in> Q" for p using that assms(3) elect_inv_peer(3) [OF assms(2), of p] by auto
  from assms(1) show ?thesis
  proof (cases rule: among.cases)
    case (am_send i p t args)
    with Q show ?thesis by (auto simp: heartbeat_peer intro!: cl_send [of i n p])
  next
    case (am_send_snap i p t sargs)
    with Q show ?thesis by (auto simp: heartbeat_peer intro!: cl_send_snap [of i n p])
  qed (use Q in \<open>auto intro: cl_step.intros\<close>)
qed

lemma among_sound: "among n Q s s' \<Longrightarrow> sound n A s \<Longrightarrow> Q \<subseteq> in_cluster n \<Longrightarrow> \<exists>A'. sound n A' s'"
  using among_cl sound_step sound_def by metis

lemma amongs_sound: "(among n Q)\<^sup>*\<^sup>* s s' \<Longrightarrow> \<exists>A. sound n A s \<Longrightarrow> Q \<subseteq> in_cluster n \<Longrightarrow> \<exists>A'. sound n A' s'"
  by (induction rule: rtranclp_induct) (use among_sound in blast)+

section \<open>A leader and a follower\<close>

text \<open>If the leader \<open>i\<close> is about to send its snapshot to \<open>q\<close>, the snapshot is not older than what \<open>q\<close> has applied.\<close>

definition in_order :: "int \<Rightarrow> int \<Rightarrow> ('c, 'd) cluster \<Rightarrow> bool" where
  "in_order i q s \<longleftrightarrow> (nextIndex (nodes s i) ! nat q \<le> lastIncludedIndex (nodes s i) \<longrightarrow> lastApplied (nodes s q) \<le> lastIncludedIndex (nodes s i))"

text \<open>Peer \<open>i\<close> leads and peer \<open>q\<close> has not gone to a later term.\<close>

definition pair :: "int \<Rightarrow> int set \<Rightarrow> 'c araft \<Rightarrow> int \<Rightarrow> int \<Rightarrow> ('c, 'd) cluster \<Rightarrow> bool" where
  "pair n Q A i q s \<longleftrightarrow> sound n A s \<and> Q \<subseteq> in_cluster n \<and> i \<in> Q \<and> q \<in> Q \<and> q \<noteq> i \<and> role (nodes s i) = Leader \<and> \<not> dead (nodes s i)
     \<and> currentTerm (nodes s q) \<le> currentTerm (nodes s i) \<and> in_order i q s"

lemma pairD:
  assumes "pair n Q A i q s"
  shows "i \<in> Q" "q \<in> Q" "q \<noteq> i" "0 \<le> i" "i < n" "0 \<le> q" "q < n" "role (nodes s i) = Leader" "\<not> dead (nodes s i)"
    "currentTerm (nodes s q) \<le> currentTerm (nodes s i)" "elect_inv n s" "cluster_sim n A s" "next_inv n A s" "Q \<subseteq> in_cluster n" "in_order i q s"
  using assms by (auto simp: pair_def sound_def)

lemma pair_peers:
  assumes "pair n Q A i q s"
  shows "raft_wf (nodes s i)" "raft_wf (nodes s q)" "me (nodes s i) = i" "npeers (nodes s i) = n"
    "log_sim (alog A i) (nodes s i)" "log_sim (alog A q) (nodes s q)" "peer_sim n A i (nodes s i)" "peer_sim n A q (nodes s q)"
    "alog A i = allog A (currentTerm (nodes s i))" "abase A (currentTerm (nodes s i)) \<noteq> None"
    "nextIndex (nodes s i) ! nat q \<le> lastLogIndex (nodes s i) + 1"
proof -
  note D = pairD [OF assms]
  show "raft_wf (nodes s i)" "raft_wf (nodes s q)" "me (nodes s i) = i" "npeers (nodes s i) = n"
    using elect_inv_peer [OF D(11)] D(4-7) by blast+
  show P: "peer_sim n A i (nodes s i)" "peer_sim n A q (nodes s q)" using cluster_simD(3) [OF D(12)] D(4-7) by blast+
  from peer_simD(2) [OF P(1)] peer_simD(2) [OF P(2)] show "log_sim (alog A i) (nodes s i)" "log_sim (alog A q) (nodes s q)" .
  from peer_sim_leader(2) [OF P(1) D(8)] show "alog A i = allog A (currentTerm (nodes s i))" .
  from peer_sim_leader(1) [OF P(1) D(8)] inv_electedD(1) [OF a_invD(5) [OF cluster_simD(1) [OF D(12)]], of "currentTerm (nodes s i)"]
  show "abase A (currentTerm (nodes s i)) \<noteq> None" by auto
  from next_invD(2) [OF D(13,4,5)] D(6-8) show "nextIndex (nodes s i) ! nat q \<le> lastLogIndex (nodes s i) + 1" by (auto simp: lead_next_def)
qed

text \<open>The follower agrees with the leader up to its own snapshot and up to its match index.\<close>

lemma pair_snapshot:
  assumes "pair n Q A i q s"
  shows "agree (nat (lastIncludedIndex (nodes s q))) (alog A q) (alog A i)"
  using leader_covers(1) [OF cluster_simD(1) [OF pairD(12) [OF assms]] pair_peers(8,2,10) [OF assms] pairD(10) [OF assms]]
    pair_peers(9) [OF assms] by simp

text \<open>It agrees with the leader up to what it has applied.\<close>

lemma pair_applied:
  assumes "pair n Q A i q s"
  shows "agree (nat (lastApplied (nodes s q))) (alog A q) (alog A i)"
  using leader_covers(3) [OF cluster_simD(1) [OF pairD(12) [OF assms]] pair_peers(8,2,10) [OF assms] pairD(10) [OF assms]]
    pair_peers(9) [OF assms] peer_simD(4) [OF pair_peers(8) [OF assms]] by (auto intro: agree_mono nat_mono)

lemma pair_match:
  assumes "pair n Q A i q s"
  shows "agree (nat (matchIndex (nodes s i) ! nat q)) (alog A q) (alog A i)"
proof -
  let ?t = "currentTerm (nodes s i)"
  note D = pairD [OF assms] and P = pair_peers [OF assms]
  note K = inv_ackedD [OF a_invD(6) [OF cluster_simD(1) [OF D(12)]]]
  have "agree (acked A q ?t) (alog A q) (alog A i)"
  proof (cases "currentTerm (nodes s q) = ?t")
    case True
    with K(4) [of q] peer_simD(1) [OF P(8)] P(9) show ?thesis by simp
  next
    case False
    with D(10) K(1) [of q ?t] peer_simD(1) [OF P(8)] show ?thesis by simp
  qed
  then show ?thesis by (rule agree_mono) (use peer_sim_leader(5) [OF P(7) D(8,6,7)] in linarith)
qed

text \<open>What an exchange leaves alone.\<close>

definition framed :: "int \<Rightarrow> int \<Rightarrow> int \<Rightarrow> ('c, 'd) cluster \<Rightarrow> ('c, 'd) cluster \<Rightarrow> bool" where
  "framed n i q s s' \<longleftrightarrow> role (nodes s' i) = Leader \<and> currentTerm (nodes s' i) = currentTerm (nodes s i)
     \<and> rlog (nodes s' i) = rlog (nodes s i) \<and> lastIncludedIndex (nodes s' i) = lastIncludedIndex (nodes s i)
     \<and> dead (nodes s' i) = dead (nodes s i) \<and> lastApplied (nodes s' i) = lastApplied (nodes s i)
     \<and> currentTerm (nodes s' q) \<le> currentTerm (nodes s i)
     \<and> (\<forall>p. p \<noteq> i \<and> p \<noteq> q \<longrightarrow> nodes s' p = nodes s p)
     \<and> (\<forall>p. 0 \<le> p \<and> p < n \<and> p \<noteq> q \<longrightarrow> matchIndex (nodes s' i) ! nat p = matchIndex (nodes s i) ! nat p
          \<and> nextIndex (nodes s' i) ! nat p = nextIndex (nodes s i) ! nat p)"

lemma framed_trans: "framed n i q s s' \<Longrightarrow> framed n i q s' s'' \<Longrightarrow> framed n i q s s''"
  by (simp add: framed_def)

lemma framed_pair:
  assumes "pair n Q A i q s" "(among n Q)\<^sup>*\<^sup>* s s'" "framed n i q s s'" "in_order i q s'"
  obtains A' where "pair n Q A' i q s'"
proof -
  from assms(1) have "\<exists>A. sound n A s" by (auto simp: pair_def)
  from amongs_sound [OF assms(2) this pairD(14) [OF assms(1)]] obtain A' where "sound n A' s'" by blast
  with assms(1,3,4) have "pair n Q A' i q s'" by (auto simp: pair_def framed_def)
  then show thesis by (rule that)
qed

definition caught_up :: "int \<Rightarrow> int \<Rightarrow> ('c, 'd) cluster \<Rightarrow> bool" where
  "caught_up i q s \<longleftrightarrow> matchIndex (nodes s i) ! nat q = lastLogIndex (nodes s i) \<and> nextIndex (nodes s i) ! nat q = lastLogIndex (nodes s i) + 1
     \<and> (\<forall>k. \<not> committable (nodes s i) k)"

section \<open>One exchange of entries\<close>

lemma send_entries:
  assumes wf: "raft_wf rf" and lead: "role rf = Leader" and q: "0 \<le> q" "q < npeers rf"
    and ni: "lastIncludedIndex rf < nextIndex rf ! nat q" "nextIndex rf ! nat q \<le> lastLogIndex rf + 1"
  obtains args where "sendAppendEntriesToPeer rf q (currentTerm rf) = Some (SendEntries args)"
    "ae_Term args = currentTerm rf" "ae_LeaderId args = me rf" "ae_PrevLogIndex args = nextIndex rf ! nat q - 1"
    "termAt rf (nextIndex rf ! nat q - 1) = Some (ae_PrevLogTerm args)"
    "ae_PrevLogIndex args + int (length (ae_Entries args)) = lastLogIndex rf"
proof -
  let ?ni = "nextIndex rf ! nat q"
  have n: "go_nth (nextIndex rf) q = Some ?ni" using wf q by (simp add: go_nth_def raft_wf_def)
  have e: "go_nth (rlog rf) (?ni - 1 - lastIncludedIndex rf) = Some (rlog rf ! nat (?ni - 1 - lastIncludedIndex rf))"
    using ni by (simp add: go_nth_def lastLogIndex_def)
  have f: "go_from (rlog rf) (?ni - lastIncludedIndex rf) = Some (drop (nat (?ni - lastIncludedIndex rf)) (rlog rf))"
    using ni by (simp add: go_from_def lastLogIndex_def)
  have t: "termAt rf (?ni - 1) = Some (le_Term (rlog rf ! nat (?ni - 1 - lastIncludedIndex rf)))"
    by (rule termAt_in [OF wf]) (use ni in simp_all)
  have len: "?ni - 1 + int (length (rlog rf) - nat (?ni - lastIncludedIndex rf)) = lastLogIndex rf"
    using ni by (simp add: lastLogIndex_def)
  show thesis
    by (rule that) (use n e f t len ni lead in \<open>auto simp: sendAppendEntriesToPeer_def getRelativeIndex_def Let_def\<close>)
qed

text \<open>The reply to a success puts the match index at the end of the log and leaves nothing to commit.\<close>

lemma handleAppendReply_success:
  assumes wf: "raft_wf rf" and lead: "role rf = Leader" "aer_Term reply \<le> currentTerm rf" "aer_Success reply"
    and peer: "0 \<le> peer" "peer < npeers rf"
  obtains k where "handleAppendReply rf peer (currentTerm rf) args reply = Some (rf\<lparr>
      matchIndex := (matchIndex rf)[nat peer := ae_PrevLogIndex args + int (length (ae_Entries args))],
      nextIndex := (nextIndex rf)[nat peer := ae_PrevLogIndex args + int (length (ae_Entries args)) + 1], commitIndex := k\<rparr>)"
    "\<And>j. \<not> committable (rf\<lparr>
      matchIndex := (matchIndex rf)[nat peer := ae_PrevLogIndex args + int (length (ae_Entries args))],
      nextIndex := (nextIndex rf)[nat peer := ae_PrevLogIndex args + int (length (ae_Entries args)) + 1], commitIndex := k\<rparr>) j"
proof -
  let ?m = "ae_PrevLogIndex args + int (length (ae_Entries args))"
  let ?rf = "rf\<lparr>matchIndex := (matchIndex rf)[nat peer := ?m], nextIndex := (nextIndex rf)[nat peer := ?m + 1]\<rparr>"
  have h: "handleAppendReply rf peer (currentTerm rf) args reply = updateCommitIndex ?rf"
    using lead peer wf by (simp add: handleAppendReply_def go_set_def raft_wf_def)
  have wf': "raft_wf ?rf" using wf by (simp add: raft_wf_def)
  have cm: "committable (?rf\<lparr>commitIndex := k\<rparr>) j \<longleftrightarrow> k < j \<and> committable ?rf j" if "commitIndex ?rf \<le> k" for k j
    using that by (auto simp: committable_def termAt_def replicas_def getRelativeIndex_def)
  have "\<exists>k. updateCommitIndex ?rf = Some (?rf\<lparr>commitIndex := k\<rparr>) \<and> commitIndex ?rf \<le> k \<and> (\<forall>j > k. \<not> committable ?rf j)"
  proof -
    from updateCommitIndex_cases [OF wf'] obtain rf' where rf': "updateCommitIndex ?rf = Some rf'" and
      "rf' = ?rf \<and> (\<forall>k. \<not> committable ?rf k) \<or> (\<exists>k. committable ?rf k \<and> rf' = ?rf\<lparr>commitIndex := k\<rparr> \<and> (\<forall>j > k. \<not> committable ?rf j))"
      by blast
    then consider "rf' = ?rf" "\<forall>k. \<not> committable ?rf k"
      | k where "committable ?rf k" "rf' = ?rf\<lparr>commitIndex := k\<rparr>" "\<forall>j > k. \<not> committable ?rf j" by blast
    then show ?thesis
    proof cases
      case 1
      with rf' show ?thesis by (intro exI [of _ "commitIndex ?rf"]) simp
    next
      case (2 k)
      from 2(1) have "commitIndex ?rf \<le> k" by (simp add: committable_def)
      with rf' 2 show ?thesis by blast
    qed
  qed
  then obtain k where k: "updateCommitIndex ?rf = Some (?rf\<lparr>commitIndex := k\<rparr>)" "commitIndex ?rf \<le> k" "\<forall>j > k. \<not> committable ?rf j" by blast
  have "\<not> committable (?rf\<lparr>commitIndex := k\<rparr>) j" for j using k(2,3) cm by (cases "k < j") auto
  with h k(1) show thesis by (intro that [of k]) simp_all
qed

text \<open>A heartbeat with entries, its handling by the follower and the leader's handling of the reply.\<close>

lemma entries_exchange:
  assumes pr: "pair n Q A i q s" and ni: "lastIncludedIndex (nodes s i) < nextIndex (nodes s i) ! nat q"
  obtains args F reply rf s' where "ae_Term args = currentTerm (nodes s i)" "ae_PrevLogIndex args = nextIndex (nodes s i) ! nat q - 1"
    "termAt (nodes s i) (ae_PrevLogIndex args) = Some (ae_PrevLogTerm args)"
    "ae_PrevLogIndex args + int (length (ae_Entries args)) = lastLogIndex (nodes s i)"
    "AppendEntries (nodes s q) args 0 = Some (F, reply)" "aer_Term reply = currentTerm (nodes s i)"
    "handleAppendReply (nodes s i) q (currentTerm (nodes s i)) args reply = Some rf"
    "(among n Q)\<^sup>*\<^sup>* s s'" "nodes s' = (nodes s)(q := F, i := rf)"
    "currentTerm F = currentTerm (nodes s i)" "aer_Success reply \<or> lastIncludedIndex F = lastIncludedIndex (nodes s q)"
    "lastApplied F = lastApplied (nodes s q)"
proof -
  let ?t = "currentTerm (nodes s i)"
  note D = pairD [OF pr] and P = pair_peers [OF pr]
  from send_entries [OF P(1) D(8,6) _ ni P(11)] D(7) P(4) obtain args where
    send: "sendAppendEntriesToPeer (nodes s i) q ?t = Some (SendEntries args)" and
    args: "ae_Term args = ?t" "ae_LeaderId args = i" "ae_PrevLogIndex args = nextIndex (nodes s i) ! nat q - 1"
      "termAt (nodes s i) (nextIndex (nodes s i) ! nat q - 1) = Some (ae_PrevLogTerm args)"
      "ae_PrevLogIndex args + int (length (ae_Entries args)) = lastLogIndex (nodes s i)" using P(3) by metis
  from AppendEntries_total [OF P(2), of args 0] obtain F reply where F: "AppendEntries (nodes s q) args 0 = Some (F, reply)" by auto
  from F P(2) have r: "aer_Term reply = ?t" "currentTerm F = ?t" "aer_Success reply \<or> lastIncludedIndex F = lastIncludedIndex (nodes s q)"
    "lastApplied F = lastApplied (nodes s q)"
    by (cases rule: AppendEntries_cases; use D(10) args(1) in \<open>auto simp: updateFollowerCommit_eq\<close>)+
  have "\<exists>rf. handleAppendReply (nodes s i) q ?t args reply = Some rf"
  proof (cases "aer_Success reply")
    case True
    from handleAppendReply_success [OF P(1) D(8) _ True D(6), where args = args] D(7) P(4) r(1) show ?thesis by (metis order_refl)
  next
    case False
    from handleAppendReply_back [OF P(1) D(8) refl _ False D(6), where args = args] D(7) P(4) r(1) show ?thesis by (metis order_refl)
  qed
  then obtain rf where rf: "handleAppendReply (nodes s i) q ?t args reply = Some rf" by blast
  define s1 where "s1 = s\<lparr>append_reqs := insert (q, args) (append_reqs s)\<rparr>"
  define s2 where "s2 = (move q F s1)\<lparr>append_replies := insert (q, args, reply) (append_replies s1)\<rparr>"
  have "among n Q s s1" unfolding s1_def
    by (rule am_send [OF D(1,2) _ send]) (use D(3,6-9) P(3,4) in \<open>simp add: heartbeat_peer\<close>)
  moreover have "among n Q s1 s2" unfolding s2_def
    by (rule am_append [OF D(2)]) (use F args(2) D(1) in \<open>simp_all add: s1_def\<close>)
  moreover have "among n Q s2 (move i rf s2)"
    by (rule am_append_reply [OF D(1,2), of args reply]) (use rf args(1,2) D(3) in \<open>simp_all add: s1_def s2_def\<close>)
  ultimately have "(among n Q)\<^sup>*\<^sup>* s (move i rf s2)" by (meson rtranclp.rtrancl_into_rtrancl r_into_rtranclp)
  moreover have "nodes (move i rf s2) = (nodes s)(q := F, i := rf)" by (simp add: s1_def s2_def)
  ultimately show thesis using args F r rf by (intro that [of args F reply rf "move i rf s2"]) simp_all
qed

lemma framed_exchange:
  assumes "q \<noteq> i" "nodes s' = (nodes s)(q := F, i := rf)" "currentTerm F \<le> currentTerm (nodes s i)"
    "role rf = Leader" "currentTerm rf = currentTerm (nodes s i)" "rlog rf = rlog (nodes s i)" "dead rf = dead (nodes s i)"
    "lastIncludedIndex rf = lastIncludedIndex (nodes s i)" "lastApplied rf = lastApplied (nodes s i)"
    "\<exists>m. matchIndex rf = (matchIndex (nodes s i))[nat q := m]" "\<exists>m. nextIndex rf = (nextIndex (nodes s i))[nat q := m]" "0 \<le> q"
  shows "framed n i q s s'"
  using assms unfolding framed_def by (auto simp: nth_list_update eq_nat_nat_iff)

text \<open>After a rejection in the follower's log, the next index goes down: an entry of the conflicting term in the leader's log lies before the
  conflict, since both logs hold that term's entries from one leader.\<close>

lemma back_down:
  assumes pr: "pair n Q A i q s" and args: "ae_Term args = currentTerm (nodes s i)" "ae_PrevLogIndex args = nextIndex (nodes s i) ! nat q - 1"
    "termAt (nodes s i) (ae_PrevLogIndex args) = Some (ae_PrevLogTerm args)"
    and F: "AppendEntries (nodes s q) args 0 = Some (F, reply)" "\<not> aer_Success reply"
    and high: "\<not> ae_PrevLogIndex args < lastIncludedIndex (nodes s q)"
    and nj: "nj = aer_ConflictIndex reply
       \<or> aer_ConflictTerm reply \<noteq> -1 \<and> lastIncludedIndex (nodes s i) < nj - 1 \<and> nj - 1 \<le> lastLogIndex (nodes s i)
         \<and> termAt (nodes s i) (nj - 1) = Some (aer_ConflictTerm reply)"
  shows "nj \<le> ae_PrevLogIndex args \<and> \<not> agree (nat (ae_PrevLogIndex args)) (alog A q) (alog A i)"
proof -
  let ?L = "nodes s i" and ?F = "nodes s q" and ?prev = "ae_PrevLogIndex args" and ?Lg = "alog A i" and ?Fg = "alog A q"
  note D = pairD [OF pr] and P = pair_peers [OF pr]
  note last = log_sim_last [OF P(5,1)] log_sim_last [OF P(6,2)]
  have cur: "currentTerm ?F \<le> ae_Term args" using D(10) args(1) by simp
  have prev: "0 \<le> ?prev" "lastIncludedIndex ?F \<le> ?prev" using high P(2) by (simp_all add: raft_wf_def)
  from AppendEntries_conflict_hint [OF F(1) P(2) cur F(2)] high
  consider (short) "aer_ConflictTerm reply = -1" "aer_ConflictIndex reply = lastLogIndex ?F + 1" "lastLogIndex ?F < ?prev"
    | (conf) "aer_ConflictIndex reply \<le> ?prev" "aer_ConflictTerm reply \<noteq> ae_PrevLogTerm args" "termAt ?F ?prev = Some (aer_ConflictTerm reply)"
    by auto
  then show ?thesis
  proof cases
    case short
    then have "\<not> agree (nat ?prev) ?Fg ?Lg" using last(2) by (auto dest: agree_length)
    with short nj show ?thesis by auto
  next
    case conf
    let ?t = "aer_ConflictTerm reply"
    have le: "?prev \<le> int (length ?Fg)" "?prev \<le> int (length ?Lg)" "lastIncludedIndex ?L \<le> ?prev"
      using conf(3) args(3) last prev by (auto simp: termAt_def go_nth_def getRelativeIndex_def lastLogIndex_def split: if_splits)
    have tF: "tm ?Fg (nat ?prev) = ?t" using log_sim_termAt [OF P(6,2) prev(2) le(1)] conf(3) by simp
    have tL: "tm ?Lg (nat ?prev) = ae_PrevLogTerm args" using log_sim_termAt [OF P(5,1) le(3,2)] args(3) by simp
    have no: "\<not> agree (nat ?prev) ?Fg ?Lg" using tF tL conf(2) agree_tm [OF _ order_refl, of "nat ?prev" ?Fg ?Lg] by auto
    have "nj \<le> ?prev"
    proof (rule ccontr)
      assume "\<not> nj \<le> ?prev"
      with nj conf(1) have f: "?prev \<le> nj - 1" "lastIncludedIndex ?L < nj - 1" "nj - 1 \<le> int (length ?Lg)" "termAt ?L (nj - 1) = Some ?t"
        using last(1) by auto
      have "nat ?prev \<noteq> 0" using no by (intro notI) simp
      moreover have "tm ?Lg (nat (nj - 1)) = ?t" using log_sim_termAt [OF P(5,1) _ f(3)] f(2,4) by simp
      ultimately have "agree (nat (nj - 1)) ?Lg (allog A ?t)" "agree (nat ?prev) ?Fg (allog A ?t)"
        using log_okD(4) [OF sim_log_ok [OF D(12)], of "nat (nj - 1)" i] log_okD(4) [OF sim_log_ok [OF D(12)], of "nat ?prev" q] f(1,3) le(1) tF
        by auto
      with f(1) no show False by (meson agree_mono agree_sym agree_trans nat_mono)
    qed
    with no show ?thesis by simp
  qed
qed

text \<open>An entry the follower has applied is in both logs, and the search for the conflicting term stops there.\<close>

lemma back_down_order:
  assumes pr: "pair n Q A i q s" and args: "ae_Term args = currentTerm (nodes s i)"
    and F: "AppendEntries (nodes s q) args 0 = Some (F, reply)" "\<not> aer_Success reply"
    and high: "\<not> ae_PrevLogIndex args < lastIncludedIndex (nodes s q)" and no: "\<not> agree (nat (ae_PrevLogIndex args)) (alog A q) (alog A i)"
    and nj: "nj = aer_ConflictIndex reply
         \<and> (aer_ConflictTerm reply \<noteq> -1 \<longrightarrow> (\<forall>k. lastIncludedIndex (nodes s i) < k \<and> k \<le> lastLogIndex (nodes s i)
              \<longrightarrow> termAt (nodes s i) k \<noteq> Some (aer_ConflictTerm reply)))
       \<or> aer_ConflictTerm reply \<noteq> -1 \<and> lastIncludedIndex (nodes s i) < nj - 1 \<and> nj - 1 \<le> lastLogIndex (nodes s i)
         \<and> termAt (nodes s i) (nj - 1) = Some (aer_ConflictTerm reply)"
    and low: "nj \<le> lastIncludedIndex (nodes s i)"
  shows "lastApplied (nodes s q) \<le> lastIncludedIndex (nodes s i)"
proof (rule ccontr)
  let ?L = "nodes s i" and ?F = "nodes s q" and ?prev = "ae_PrevLogIndex args" and ?t = "aer_ConflictTerm reply"
  let ?a = "lastApplied (nodes s q)"
  assume "\<not> ?a \<le> lastIncludedIndex ?L"
  then have a: "lastIncludedIndex ?L < ?a" "0 \<le> ?a" using pair_peers(1) [OF pr] by (simp_all add: raft_wf_def)
  note P = pair_peers [OF pr] and ag = pair_applied [OF pr]
  note last = log_sim_last [OF P(5,1)] log_sim_last [OF P(6,2)]
  have len: "?a \<le> lastLogIndex ?L" "?a \<le> lastLogIndex ?F" using agree_length [OF ag] last a(2) by linarith+
  have lt: "?a < ?prev" using no agree_mono [OF ag] a(2) by (metis nat_mono not_less)
  from nj low have nj: "nj = aer_ConflictIndex reply" "?t \<noteq> -1 \<longrightarrow> termAt ?L ?a \<noteq> Some ?t" using a(1) len(1) by auto
  from AppendEntries_conflict_hint [OF F(1) P(2) _ F(2)] pairD(10) [OF pr] args high
  consider "aer_ConflictIndex reply = lastLogIndex ?F + 1"
    | "\<forall>k. aer_ConflictIndex reply \<le> k \<and> k \<le> ?prev \<longrightarrow> termAt ?F k = Some ?t" by force
  then show False
  proof cases
    case 1
    with nj(1) low a(1) len(2) show ?thesis by linarith
  next
    case 2
    then have tF: "termAt ?F ?a = Some ?t" using nj(1) low a(1) lt by simp
    have "lastIncludedIndex ?F \<le> ?a" using P(2) by (simp add: raft_wf_def)
    from log_sim_termAt [OF P(6,2) this] log_sim_termAt [OF P(5,1), of ?a] a(1) len last tF
    have "tm (alog A q) (nat ?a) = ?t" "termAt ?L ?a = Some (tm (alog A i) (nat ?a))" by simp_all
    moreover from this(1) have "1 \<le> ?t" using log_okD(1) [OF sim_log_ok [OF pairD(12) [OF pr]], of "nat ?a" q] a len(2) last(2)
        pair_peers(1) [OF pr] by (simp add: raft_wf_def le_nat_iff)
    ultimately show ?thesis using agree_tm [OF ag order_refl] nj(2) by simp
  qed
qed

text \<open>If the follower has the entry before the ones sent, it is caught up after the exchange; if it has compacted beyond it, the leader
  goes on just after the follower's snapshot; otherwise the next index goes down.\<close>

lemma entries_round:
  assumes pr: "pair n Q A i q s" and ni: "lastIncludedIndex (nodes s i) < nextIndex (nodes s i) ! nat q"
  shows "\<exists>s'. (among n Q)\<^sup>*\<^sup>* s s' \<and> framed n i q s s' \<and> in_order i q s' \<and>
    (if nextIndex (nodes s i) ! nat q - 1 < lastIncludedIndex (nodes s q)
     then lastIncludedIndex (nodes s' q) = lastIncludedIndex (nodes s q)
       \<and> nextIndex (nodes s' i) ! nat q = lastIncludedIndex (nodes s q) + 1
     else caught_up i q s' \<or> \<not> agree (nat (nextIndex (nodes s i) ! nat q - 1)) (alog A q) (alog A i)
       \<and> nextIndex (nodes s' i) ! nat q < nextIndex (nodes s i) ! nat q)"
proof -
  let ?L = "nodes s i" and ?F = "nodes s q"
  note D = pairD [OF pr] and P = pair_peers [OF pr]
  obtain args F reply rf s' where args: "ae_Term args = currentTerm ?L" "ae_PrevLogIndex args = nextIndex ?L ! nat q - 1"
    "termAt ?L (ae_PrevLogIndex args) = Some (ae_PrevLogTerm args)"
    "ae_PrevLogIndex args + int (length (ae_Entries args)) = lastLogIndex ?L"
    and F: "AppendEntries ?F args 0 = Some (F, reply)" "aer_Term reply = currentTerm ?L"
    and rf: "handleAppendReply ?L q (currentTerm ?L) args reply = Some rf" and s': "(among n Q)\<^sup>*\<^sup>* s s'" "nodes s' = (nodes s)(q := F, i := rf)"
    and F': "currentTerm F = currentTerm ?L" "aer_Success reply \<or> lastIncludedIndex F = lastIncludedIndex ?F"
      "lastApplied F = lastApplied ?F"
    using entries_exchange [OF pr ni] by metis
  let ?prev = "ae_PrevLogIndex args"
  have q: "nat q < length (nextIndex ?L)" "nat q < length (matchIndex ?L)" using P(1,4) D(6,7) by (simp_all add: raft_wf_def nat_less_iff)
  show ?thesis
  proof (cases "aer_Success reply")
    case True
    obtain k where k: "rf = ?L\<lparr>matchIndex := (matchIndex ?L)[nat q := lastLogIndex ?L], nextIndex := (nextIndex ?L)[nat q := lastLogIndex ?L + 1],
        commitIndex := k\<rparr>" "\<And>j. \<not> committable rf j"
      using handleAppendReply_success [OF P(1) D(8) _ True D(6), where args = args] D(7) P(4) F(2) rf unfolding args(4) by (metis option.inject order_refl)
    have fr: "framed n i q s s'" by (rule framed_exchange [OF D(3) s'(2)]) (use F'(1) k(1) D(6,8) in auto)
    have "caught_up i q s'" using k q s'(2) by (simp add: caught_up_def)
    moreover from this have "in_order i q s'" using raft_wf_last [OF P(1)] k(1) s'(2) by (simp add: caught_up_def in_order_def)
    moreover have "\<not> ?prev < lastIncludedIndex ?F" using F(1) P(2) by (cases rule: AppendEntries_cases) (use True in auto)
    ultimately show ?thesis using s'(1) fr args(2) by (intro exI [of _ s']) simp
  next
    case False
    have "aer_Term reply \<le> currentTerm ?L" "q < npeers ?L" using F(2) D(7) P(4) by simp_all
    from handleAppendReply_search [OF P(1) D(8) refl this(1) False D(6) this(2), of args] obtain nj where
      nj: "handleAppendReply ?L q (currentTerm ?L) args reply = Some (?L\<lparr>nextIndex := (nextIndex ?L)[nat q := nj]\<rparr>)" "nj = aer_ConflictIndex reply
         \<and> (aer_ConflictTerm reply \<noteq> -1 \<longrightarrow> (\<forall>k. lastIncludedIndex ?L < k \<and> k \<le> lastLogIndex ?L \<longrightarrow> termAt ?L k \<noteq> Some (aer_ConflictTerm reply)))
       \<or> aer_ConflictTerm reply \<noteq> -1 \<and> lastIncludedIndex ?L < nj - 1 \<and> nj - 1 \<le> lastLogIndex ?L
         \<and> termAt ?L (nj - 1) = Some (aer_ConflictTerm reply)" .
    from nj(1) rf have rf: "rf = ?L\<lparr>nextIndex := (nextIndex ?L)[nat q := nj]\<rparr>" by simp
    have fr: "framed n i q s s'"
      by (rule framed_exchange [OF D(3) s'(2)]) (use F'(1) rf D(6,8) in \<open>auto intro: exI [of _ "matchIndex ?L ! nat q"]\<close>)
    have new: "nextIndex (nodes s' i) ! nat q = nj" using s'(2) rf q by simp
    note hint = AppendEntries_conflict_hint [OF F(1) P(2) _ False]
    show ?thesis
    proof (cases "?prev < lastIncludedIndex ?F")
      case True
      with hint D(10) args(1) raft_wf_last [OF P(2)] have "aer_ConflictTerm reply = -1" "aer_ConflictIndex reply = lastIncludedIndex ?F + 1" by auto
      moreover from this True args(2) ni nj(2) have "in_order i q s'" using fr new by (auto simp: in_order_def framed_def)
      ultimately show ?thesis using nj(2) new True args(2) s' fr F'(2) False D(3) by (intro exI [of _ s']) auto
    next
      case high: False
      from back_down [OF pr args(1-3) F(1) False high] nj(2)
      have down: "nj \<le> ?prev" "\<not> agree (nat ?prev) (alog A q) (alog A i)" by blast+
      have "in_order i q s'"
        unfolding in_order_def using back_down_order [OF pr args(1) F(1) False high down(2) nj(2)] s'(2) new rf D(3) F'(3) by auto
      with down args(2) new s'(1) fr high show ?thesis by (intro exI [of _ s']) simp
    qed
  qed
qed

section \<open>One exchange of a snapshot\<close>

lemma send_snapshot:
  assumes "raft_wf rf" "role rf = Leader" "0 \<le> q" "q < npeers rf" "nextIndex rf ! nat q \<le> lastIncludedIndex rf"
  obtains sargs where "sendAppendEntriesToPeer rf q (currentTerm rf) = Some (SendSnapshot sargs)" "is_Term sargs = currentTerm rf"
    "is_LeaderId sargs = me rf" "is_LastIncludedIndex sargs = lastIncludedIndex rf"
proof -
  have "go_nth (nextIndex rf) q = Some (nextIndex rf ! nat q)" using assms(1,3,4) by (simp add: go_nth_def raft_wf_def)
  then show thesis by (intro that) (use assms(2,5) in \<open>auto simp: sendAppendEntriesToPeer_def\<close>)
qed

lemma handleSnapshotReply_advance:
  assumes "raft_wf rf" "role rf = Leader" "isr_Term reply \<le> currentTerm rf" "0 \<le> peer" "peer < npeers rf"
  shows "handleSnapshotReply rf peer (currentTerm rf) sargs reply =
    (let m = max (matchIndex rf ! nat peer) (is_LastIncludedIndex sargs)
     in Some (rf\<lparr>matchIndex := (matchIndex rf)[nat peer := m], nextIndex := (nextIndex rf)[nat peer := m + 1]\<rparr>))"
  using assms by (simp add: handleSnapshotReply_def go_nth_def go_set_def raft_wf_def max_def Let_def)

lemma snapshot_round:
  assumes pr: "pair n Q A i q s" and ni: "nextIndex (nodes s i) ! nat q \<le> lastIncludedIndex (nodes s i)"
  shows "\<exists>s'. (among n Q)\<^sup>*\<^sup>* s s' \<and> framed n i q s s' \<and> in_order i q s' \<and> nextIndex (nodes s' i) ! nat q = matchIndex (nodes s' i) ! nat q + 1
     \<and> lastIncludedIndex (nodes s' i) \<le> matchIndex (nodes s' i) ! nat q"
proof -
  let ?t = "currentTerm (nodes s i)" and ?m = "max (matchIndex (nodes s i) ! nat q) (lastIncludedIndex (nodes s i))"
  note D = pairD [OF pr] and P = pair_peers [OF pr]
  from send_snapshot [OF P(1) D(8,6) _ ni] D(7) P(4) obtain sargs where
    send: "sendAppendEntriesToPeer (nodes s i) q ?t = Some (SendSnapshot sargs)" and
    args: "is_Term sargs = ?t" "is_LeaderId sargs = i" "is_LastIncludedIndex sargs = lastIncludedIndex (nodes s i)" using P(3) by metis
  from InstallSnapshot_total [OF P(2), of sargs 0] obtain F reply msg where F: "InstallSnapshot (nodes s q) sargs 0 = Some (F, reply, msg)" by auto
  from F P(2) have F': "isr_Term reply \<le> ?t" "currentTerm F \<le> ?t"
    by (cases rule: InstallSnapshot_cases; use D(10) args(1) in auto)+
  define rf where "rf = (nodes s i)\<lparr>matchIndex := (matchIndex (nodes s i))[nat q := ?m], nextIndex := (nextIndex (nodes s i))[nat q := ?m + 1]\<rparr>"
  have rf: "handleSnapshotReply (nodes s i) q ?t sargs reply = Some rf"
    using handleSnapshotReply_advance [OF P(1) D(8) F'(1) D(6), of sargs] D(7) P(4) args(3) by (simp add: rf_def Let_def)
  define s1 where "s1 = s\<lparr>snap_reqs := insert (q, sargs) (snap_reqs s)\<rparr>"
  define s2 where "s2 = (move q F s1)\<lparr>snap_replies := insert (q, sargs, reply) (snap_replies s1)\<rparr>"
  have "among n Q s s1" unfolding s1_def
    by (rule am_send_snap [OF D(1,2) _ send]) (use D(3,6-9) P(3,4) in \<open>simp add: heartbeat_peer\<close>)
  moreover have "among n Q s1 s2" unfolding s2_def
    by (rule am_snap [OF D(2)]) (use F args(2,3) D(1,15) ni in \<open>simp_all add: s1_def in_order_def\<close>)
  moreover have "among n Q s2 (move i rf s2)"
    by (rule am_snap_reply [OF D(1,2), of sargs reply]) (use rf args(1,2) D(3) in \<open>simp_all add: s1_def s2_def\<close>)
  ultimately have run: "(among n Q)\<^sup>*\<^sup>* s (move i rf s2)" by (meson rtranclp.rtrancl_into_rtrancl r_into_rtranclp)
  have nd: "nodes (move i rf s2) = (nodes s)(q := F, i := rf)" by (simp add: s1_def s2_def)
  have "framed n i q s (move i rf s2)" by (rule framed_exchange [OF D(3) nd]) (use F'(2) D(6,8) in \<open>auto simp: rf_def\<close>)
  moreover have "nat q < length (nextIndex (nodes s i))" "nat q < length (matchIndex (nodes s i))"
    using P(1,4) D(6,7) by (simp_all add: raft_wf_def nat_less_iff)
  ultimately show ?thesis using run by (intro exI [of _ "move i rf s2"]) (use D(3) in \<open>auto simp: nd rf_def in_order_def max_def\<close>)
qed

section \<open>Catching up\<close>

definition can_catch_up :: "int \<Rightarrow> int set \<Rightarrow> int \<Rightarrow> int \<Rightarrow> ('c, 'd) cluster \<Rightarrow> bool" where
  "can_catch_up n Q i q s \<longleftrightarrow> (\<exists>s'. (among n Q)\<^sup>*\<^sup>* s s' \<and> framed n i q s s' \<and> caught_up i q s')"

lemma catch_up_later: "(among n Q)\<^sup>*\<^sup>* s s' \<Longrightarrow> framed n i q s s' \<Longrightarrow> can_catch_up n Q i q s' \<Longrightarrow> can_catch_up n Q i q s"
  unfolding can_catch_up_def by (meson framed_trans rtranclp_trans)

lemma catch_up_agreed:
  assumes "pair n Q A i q s" "lastIncludedIndex (nodes s i) < nextIndex (nodes s i) ! nat q"
    "lastIncludedIndex (nodes s q) \<le> nextIndex (nodes s i) ! nat q - 1"
    "agree (nat (nextIndex (nodes s i) ! nat q - 1)) (alog A q) (alog A i)"
  shows "can_catch_up n Q i q s"
  using entries_round [OF assms(1,2)] assms(3,4) unfolding can_catch_up_def by auto

lemma catch_up_compacted:
  assumes pr: "pair n Q A i q s" and ni: "lastIncludedIndex (nodes s i) < nextIndex (nodes s i) ! nat q"
    and low: "nextIndex (nodes s i) ! nat q - 1 < lastIncludedIndex (nodes s q)"
  shows "can_catch_up n Q i q s"
proof -
  from entries_round [OF pr ni] low obtain s' where
    s': "(among n Q)\<^sup>*\<^sup>* s s'" "framed n i q s s'" "lastIncludedIndex (nodes s' q) = lastIncludedIndex (nodes s q)"
      "nextIndex (nodes s' i) ! nat q = lastIncludedIndex (nodes s q) + 1" "in_order i q s'" by auto
  obtain A' where pr': "pair n Q A' i q s'" using framed_pair [OF pr s'(1,2,5)] .
  have "can_catch_up n Q i q s'"
    by (rule catch_up_agreed [OF pr']) (use pair_snapshot [OF pr'] s'(2-4) ni low in \<open>simp_all add: framed_def\<close>)
  with s'(1,2) show ?thesis by (rule catch_up_later)
qed

lemma catch_up_matched:
  assumes pr: "pair n Q A i q s" and ni: "nextIndex (nodes s i) ! nat q = matchIndex (nodes s i) ! nat q + 1"
    and m: "lastIncludedIndex (nodes s i) \<le> matchIndex (nodes s i) ! nat q"
  shows "can_catch_up n Q i q s"
proof (cases "lastIncludedIndex (nodes s q) \<le> matchIndex (nodes s i) ! nat q")
  case True
  show ?thesis by (rule catch_up_agreed [OF pr]) (use pair_match [OF pr] ni m True in simp_all)
next
  case False
  show ?thesis by (rule catch_up_compacted [OF pr]) (use ni m False in simp_all)
qed

text \<open>From every reachable state, heartbeats of the leader bring the follower's log to the leader's.\<close>

lemma can_catch_up:
  "pair n Q A i q s \<Longrightarrow> can_catch_up n Q i q s"
proof (induction "nat (nextIndex (nodes s i) ! nat q)" arbitrary: s A rule: less_induct)
  case less
  note pr = less.prems
  show ?case
  proof (cases "lastIncludedIndex (nodes s i) < nextIndex (nodes s i) ! nat q")
    case False
    then obtain s' where s': "(among n Q)\<^sup>*\<^sup>* s s'" "framed n i q s s'" "nextIndex (nodes s' i) ! nat q = matchIndex (nodes s' i) ! nat q + 1"
      "lastIncludedIndex (nodes s' i) \<le> matchIndex (nodes s' i) ! nat q" "in_order i q s'" using snapshot_round [OF pr] by auto
    obtain A' where "pair n Q A' i q s'" using framed_pair [OF pr s'(1,2,5)] .
    from catch_up_matched [OF this s'(3,4)] s'(1,2) show ?thesis by (auto intro: catch_up_later)
  next
    case True
    show ?thesis
    proof (cases "nextIndex (nodes s i) ! nat q - 1 < lastIncludedIndex (nodes s q)")
      case low: True
      show ?thesis by (rule catch_up_compacted [OF pr True low])
    next
      case False
      with entries_round [OF pr True] obtain s' where s': "(among n Q)\<^sup>*\<^sup>* s s'" "framed n i q s s'"
        "caught_up i q s' \<or> nextIndex (nodes s' i) ! nat q < nextIndex (nodes s i) ! nat q" "in_order i q s'" by auto
      obtain A' where pr': "pair n Q A' i q s'" using framed_pair [OF pr s'(1,2,4)] .
      have "0 < nextIndex (nodes s i) ! nat q" using True pair_peers(1) [OF pr] by (simp add: raft_wf_def)
      show ?thesis
      proof (cases "caught_up i q s'")
        case True
        with s'(1,2) show ?thesis unfolding can_catch_up_def by blast
      next
        case False
        with s'(3) \<open>0 < nextIndex (nodes s i) ! nat q\<close> have "can_catch_up n Q i q s'" by (intro less.hyps [OF _ pr']) simp
        with s'(1,2) show ?thesis by (rule catch_up_later)
      qed
    qed
  qed
qed

end
