(* ===== verification/RaftProgress.thy ===== *)
theory RaftProgress
  imports RaftCatchUp
begin

text \<open>
  Progress of Raft as \<^verbatim>\<open>raft1/raft.go\<close> implements it.  No reachable state is a dead end: after any crashes, partitions,
  deposed leaders, diverged and compacted logs, any majority of peers that are running can elect a leader among themselves and
  commit a new command, without any step of the others.
\<close>

section \<open>Committing with a majority\<close>

definition leading :: "int \<Rightarrow> int set \<Rightarrow> int \<Rightarrow> ('c, 'd) cluster \<Rightarrow> bool" where
  "leading n Q i s \<longleftrightarrow> (\<exists>A. sound n A s) \<and> Q \<subseteq> in_cluster n \<and> i \<in> Q \<and> role (nodes s i) = Leader \<and> \<not> dead (nodes s i)
     \<and> (\<forall>q \<in> Q. currentTerm (nodes s q) \<le> currentTerm (nodes s i)) \<and> (\<forall>q \<in> Q - {i}. in_order i q s)"

definition same_leader :: "int \<Rightarrow> ('c, 'd) cluster \<Rightarrow> ('c, 'd) cluster \<Rightarrow> bool" where
  "same_leader i s s' \<longleftrightarrow> role (nodes s' i) = Leader \<and> currentTerm (nodes s' i) = currentTerm (nodes s i)
     \<and> rlog (nodes s' i) = rlog (nodes s i) \<and> lastIncludedIndex (nodes s' i) = lastIncludedIndex (nodes s i)
     \<and> lastApplied (nodes s' i) = lastApplied (nodes s i)"

lemma same_leader_last: "same_leader i s s' \<Longrightarrow> lastLogIndex (nodes s' i) = lastLogIndex (nodes s i)"
  by (simp add: same_leader_def lastLogIndex_def)

lemma leading_catch_up:
  assumes "leading n Q i s" "q \<in> Q" "q \<noteq> i"
  obtains s' where "(among n Q)\<^sup>*\<^sup>* s s'" "framed n i q s s'" "caught_up i q s'" "leading n Q i s'" "same_leader i s s'"
proof -
  from assms obtain A where pr: "pair n Q A i q s" by (auto simp: leading_def pair_def)
  from can_catch_up [OF pr] obtain s' where s': "(among n Q)\<^sup>*\<^sup>* s s'" "framed n i q s s'" "caught_up i q s'"
    by (auto simp: can_catch_up_def)
  have q: "in_order i q s'" using s'(2,3) raft_wf_last [OF pair_peers(1) [OF pr]]
    by (simp add: in_order_def caught_up_def framed_def lastLogIndex_def)
  have "in_order i p s'" if "p \<in> Q - {i}" for p
    using that q assms(1) s'(2) by (cases "p = q") (auto simp: leading_def framed_def in_order_def)
  moreover obtain A' where pr': "pair n Q A' i q s'" using framed_pair [OF pr s'(1,2) q] .
  moreover have "currentTerm (nodes s' p) \<le> currentTerm (nodes s' i)" if "p \<in> Q" for p
    using that assms(1) s'(2) by (cases "p = i"; cases "p = q") (auto simp: leading_def framed_def)
  ultimately have "leading n Q i s'" using pr' by (auto simp: leading_def pair_def)
  moreover have "same_leader i s s'" using s'(2) by (simp add: same_leader_def framed_def)
  ultimately show thesis using s' by (intro that)
qed

lemma leading_catch_up_all:
  assumes "leading n Q i s" "set qs \<subseteq> Q - {i}" "distinct qs"
  shows "\<exists>s'. (among n Q)\<^sup>*\<^sup>* s s' \<and> leading n Q i s' \<and> same_leader i s s' \<and> (qs \<noteq> [] \<or> (\<forall>k. \<not> committable (nodes s i) k) \<longrightarrow> (\<forall>k. \<not> committable (nodes s' i) k))
     \<and> (\<forall>q \<in> set qs. matchIndex (nodes s' i) ! nat q = lastLogIndex (nodes s' i))
     \<and> (\<forall>p. 0 \<le> p \<and> p < n \<and> p \<notin> set qs \<longrightarrow> matchIndex (nodes s' i) ! nat p = matchIndex (nodes s i) ! nat p)"
  using assms
proof (induction qs arbitrary: s)
  case Nil
  then show ?case by (intro exI [of _ s]) (simp add: same_leader_def leading_def)
next
  case (Cons q qs)
  obtain s1 where s1: "(among n Q)\<^sup>*\<^sup>* s s1" "framed n i q s s1" "caught_up i q s1" "leading n Q i s1" "same_leader i s s1"
    using leading_catch_up [OF Cons.prems(1), of q] Cons.prems(2) by auto
  from Cons.IH [OF s1(4)] Cons.prems(2,3) obtain s' where s': "(among n Q)\<^sup>*\<^sup>* s1 s'" "leading n Q i s'" "same_leader i s1 s'"
    "\<forall>k. \<not> committable (nodes s' i) k" "\<forall>q \<in> set qs. matchIndex (nodes s' i) ! nat q = lastLogIndex (nodes s' i)"
    "\<forall>p. 0 \<le> p \<and> p < n \<and> p \<notin> set qs \<longrightarrow> matchIndex (nodes s' i) ! nat p = matchIndex (nodes s1 i) ! nat p"
    using s1(3) by (auto simp: caught_up_def)
  have q: "0 \<le> q" "q < n" "q \<notin> set qs" using Cons.prems by (auto simp: leading_def)
  have same: "same_leader i s s'" using s1(5) s'(3) by (simp add: same_leader_def)
  have m: "matchIndex (nodes s' i) ! nat q = lastLogIndex (nodes s' i)"
    using s'(6) q s1(3) same_leader_last [OF s'(3)] by (simp add: caught_up_def)
  have "matchIndex (nodes s' i) ! nat p = matchIndex (nodes s i) ! nat p" if "0 \<le> p" "p < n" "p \<notin> set (q # qs)" for p
    using that s'(6) s1(2) by (simp add: framed_def)
  with s1(1) s'(1,2,4,5) same m show ?case by (intro exI [of _ s']) auto
qed

lemma replicas_group:
  assumes "Q \<subseteq> in_cluster (npeers rf)" "me rf \<in> Q" "\<And>q. q \<in> Q \<Longrightarrow> q \<noteq> me rf \<Longrightarrow> N \<le> matchIndex rf ! nat q"
  shows "int (card Q) \<le> replicas rf N"
proof -
  let ?R = "set (filter (\<lambda>p. p \<noteq> me rf \<and> N \<le> matchIndex rf ! nat p) (peers rf))"
  have "Q - {me rf} \<subseteq> ?R" using assms by auto
  then have "card (Q - {me rf}) \<le> card ?R" by (intro card_mono finite_set)
  also have "\<dots> = length (filter (\<lambda>p. p \<noteq> me rf \<and> N \<le> matchIndex rf ! nat p) (peers rf))" by (rule distinct_card) simp
  moreover have "card Q = Suc (card (Q - {me rf}))"
    using assms(1,2) finite_subset [OF assms(1)] by (metis card.remove in_cluster_simps(2))
  ultimately show ?thesis unfolding replicas_def by linarith
qed

text \<open>A leader that reaches a majority commits its whole log, if its last entry is of its own term.\<close>

lemma leading_commits:
  assumes ld: "leading n Q i s" and maj: "majority n Q" and n: "2 \<le> n"
    and own: "termAt (nodes s i) (lastLogIndex (nodes s i)) = Some (currentTerm (nodes s i))"
  obtains s' where "(among n Q)\<^sup>*\<^sup>* s s'" "leading n Q i s'" "same_leader i s s'" "commitIndex (nodes s' i) = lastLogIndex (nodes s' i)"
proof -
  have Q: "Q \<subseteq> in_cluster n" "i \<in> Q" "finite Q" using ld finite_subset [of Q "in_cluster n"] by (auto simp: leading_def)
  obtain qs where qs: "set qs = Q - {i}" "distinct qs" using finite_distinct_list [of "Q - {i}"] Q(3) by auto
  have two: "n div 2 < int (card Q)" "2 \<le> card Q" using maj n by (auto simp: majority_def)
  have "card (Q - {i}) = card Q - 1" using Q(2,3) by simp
  with two(2) have "0 < card (Q - {i})" by linarith
  then have "Q - {i} \<noteq> {}" by force
  then have ne: "qs \<noteq> []" unfolding qs(1) [symmetric] set_empty .
  from leading_catch_up_all [OF ld _ qs(2)] qs(1) ne obtain s' where s': "(among n Q)\<^sup>*\<^sup>* s s'" "leading n Q i s'" "same_leader i s s'"
    "\<And>k. \<not> committable (nodes s' i) k" "\<forall>q \<in> Q - {i}. matchIndex (nodes s' i) ! nat q = lastLogIndex (nodes s' i)" by auto
  let ?L = "nodes s' i"
  from s'(2) Q obtain A where A: "sound n A s'" by (auto simp: leading_def)
  then have W: "raft_wf ?L" "me ?L = i" "npeers ?L = n" and P: "peer_sim n A i ?L"
    using Q elect_inv_peer [of n s' i] cluster_simD(3) [of n A s' i] by (auto simp: sound_def)
  have "int (card Q) \<le> replicas ?L (lastLogIndex ?L)" by (rule replicas_group) (use Q W s'(5) in auto)
  moreover have "termAt ?L (lastLogIndex ?L) = Some (currentTerm ?L)"
    using own s'(3) same_leader_last [OF s'(3)] by (simp add: same_leader_def termAt_def getRelativeIndex_def)
  moreover have "\<not> committable ?L (lastLogIndex ?L)" by (rule s'(4))
  ultimately have "lastLogIndex ?L \<le> commitIndex ?L" using two(1) W(3) by (auto simp: committable_def)
  moreover have "commitIndex ?L \<le> lastLogIndex ?L"
    using committed_length [OF peer_simD(3) [OF P]] log_sim_last [OF peer_simD(2) [OF P] W(1)] by simp
  ultimately show thesis using s'(1-3) that by force
qed

section \<open>Winning an election\<close>

text \<open>A peer that does not lead is followed by one that does not know of any leader: its timer fires.\<close>

definition stands :: "int \<Rightarrow> ('c, 'd) cluster \<Rightarrow> ('c, 'd) cluster \<Rightarrow> bool" where
  "stands c s s' \<longleftrightarrow> (\<forall>p. p \<noteq> c \<longrightarrow> nodes s' p = nodes s p) \<and> rlog (nodes s' c) = rlog (nodes s c)
     \<and> lastIncludedIndex (nodes s' c) = lastIncludedIndex (nodes s c) \<and> dead (nodes s' c) = dead (nodes s c)"

definition canvasses :: "int \<Rightarrow> int set \<Rightarrow> int \<Rightarrow> ('c, 'd) cluster \<Rightarrow> bool" where
  "canvasses n Q c s \<longleftrightarrow> role (nodes s c) = Candidate \<and> votes s c (currentTerm (nodes s c)) = 1
     \<and> (\<exists>args. rv_Term args = currentTerm (nodes s c) \<and> rv_CandidateId args = c \<and> rv_LastLogIndex args = lastLogIndex (nodes s c)
          \<and> rv_LastLogTerm args = le_Term (last (rlog (nodes s c)))
          \<and> (\<forall>q \<in> Q - {c}. vote_calls s c (currentTerm (nodes s c)) q = VSent args))"

lemma timer_fires:
  assumes so: "\<exists>A. sound n A s" and Q: "Q \<subseteq> in_cluster n" "c \<in> Q" and c: "role (nodes s c) \<noteq> Leader" "\<not> dead (nodes s c)"
  obtains s' where "among n Q s s'" "stands c s s'" "canvasses n Q c s'" "currentTerm (nodes s' c) = currentTerm (nodes s c) + 1"
proof -
  let ?rf = "nodes s c" and ?now = "lastHeartbeat (nodes s c) + 301"
  from so Q have W: "raft_wf ?rf" "me ?rf = c" "npeers ?rf = n" using elect_inv_peer [of n s c] by (auto simp: sound_def)
  define rf where "rf = (persist (?rf\<lparr>role := Candidate, currentTerm := currentTerm ?rf + 1, votedFor := me ?rf\<rparr>))\<lparr>lastHeartbeat := ?now\<rparr>"
  define args where "args = \<lparr>rv_Term = currentTerm ?rf + 1, rv_CandidateId = me ?rf, rv_LastLogIndex = lastLogIndex ?rf,
     rv_LastLogTerm = le_Term (last (rlog ?rf))\<rparr>"
  have t: "ticker_tick ?rf ?now 0 = Some (rf, Some args)"
    using c(1) startElection_eq [OF W(1), of ?now] by (simp add: ticker_tick_def rf_def args_def Let_def)
  let ?s' = "set_votes c (rv_Term args) 1 (open_calls rf args (move c rf s))"
  have "among n Q s ?s'" by (rule am_elect [OF Q(2) _ t]) (use c(2) in \<open>simp add: killed_def\<close>)
  moreover have "stands c s ?s'" by (simp add: stands_def rf_def)
  moreover have "canvasses n Q c ?s'"
    unfolding canvasses_def using Q W(2,3)
    by (auto simp: rf_def args_def electionPeers_def intro!: exI [of _ args])
  moreover have "currentTerm (nodes ?s' c) = currentTerm ?rf + 1" by (simp add: rf_def)
  ultimately show thesis by (rule that)
qed

text \<open>Elections without an answer raise the term beyond every bound.\<close>

lemma stands_trans: "stands c s s' \<Longrightarrow> stands c s' s'' \<Longrightarrow> stands c s s''"
  by (simp add: stands_def)

lemma timer_fires_again:
  assumes "\<exists>A. sound n A s" "Q \<subseteq> in_cluster n" "c \<in> Q" "role (nodes s c) \<noteq> Leader" "\<not> dead (nodes s c)"
  shows "\<exists>s'. (among n Q)\<^sup>*\<^sup>* s s' \<and> stands c s s' \<and> canvasses n Q c s' \<and> t < currentTerm (nodes s' c)"
  using assms
proof (induction "nat (t - currentTerm (nodes s c))" arbitrary: s rule: less_induct)
  case less
  obtain s1 where s1: "among n Q s s1" "stands c s s1" "canvasses n Q c s1" "currentTerm (nodes s1 c) = currentTerm (nodes s c) + 1"
    using timer_fires [OF less.prems] .
  show ?case
  proof (cases "t < currentTerm (nodes s1 c)")
    case True
    with s1 show ?thesis by blast
  next
    case False
    have "\<exists>A. sound n A s1" using less.prems(1) among_sound [OF s1(1) _ less.prems(2)] by blast
    moreover have "role (nodes s1 c) \<noteq> Leader" "\<not> dead (nodes s1 c)" using s1(2,3) less.prems(5) by (auto simp: canvasses_def stands_def)
    moreover have "nat (t - currentTerm (nodes s1 c)) < nat (t - currentTerm (nodes s c))" using False s1(4) by simp
    ultimately obtain s' where "(among n Q)\<^sup>*\<^sup>* s1 s'" "stands c s1 s'" "canvasses n Q c s'" "t < currentTerm (nodes s' c)"
      using less.hyps [of s1] less.prems(2,3) by blast
    with s1(1) stands_trans [OF s1(2)] show ?thesis by (meson converse_rtranclp_into_rtranclp)
  qed
qed

lemma RequestVote_grants:
  assumes "raft_wf rf" "currentTerm rf < rv_Term args" "logUpToDate args (lastLogIndex rf) (le_Term (last (rlog rf)))"
  obtains rf' where "RequestVote rf args now = Some (rf', \<lparr>rvr_Term = rv_Term args, rvr_VoteGranted = True\<rparr>)"
    "currentTerm rf' = rv_Term args"
proof -
  have "lastLogTerm (stepDown rf (rv_Term args)) = Some (le_Term (last (rlog rf)))"
    using raft_wf_lastLogTerm [OF assms(1)] by (simp add: lastLogTerm_def)
  then show thesis by (intro that) (use assms(2,3) in \<open>auto simp: RequestVote_def Let_def\<close>)
qed

text \<open>The candidate asks for the votes one by one until it has a majority.\<close>

lemma votes_come_in:
  assumes "\<exists>A. sound n A s" "Q \<subseteq> in_cluster n" "c \<in> Q" "role (nodes s c) = Candidate" "currentTerm (nodes s c) = t" "\<not> dead (nodes s c)"
    and "votes s c t = v" "v \<le> n div 2" "n div 2 < v + int (length qs)" "distinct qs" "set qs \<subseteq> Q - {c}"
    and "rv_Term args = t" "\<forall>q \<in> set qs. vote_calls s c t q = VSent args \<and> currentTerm (nodes s q) < t
       \<and> logUpToDate args (lastLogIndex (nodes s q)) (le_Term (last (rlog (nodes s q))))"
    and "\<forall>q \<in> Q. currentTerm (nodes s q) \<le> t"
  shows "\<exists>s'. (among n Q)\<^sup>*\<^sup>* s s' \<and> leading n Q c s'"
  using assms
proof (induction qs arbitrary: s v)
  case (Cons q qs)
  have q: "q \<in> Q" "q \<noteq> c" "vote_calls s c t q = VSent args" "currentTerm (nodes s q) < t"
    "logUpToDate args (lastLogIndex (nodes s q)) (le_Term (last (rlog (nodes s q))))" "q \<notin> set qs" using Cons.prems(10,11,13) by auto
  from Cons.prems(1,2) q(1) have "raft_wf (nodes s q)" using elect_inv_peer(1) [of n s q] by (auto simp: sound_def)
  from RequestVote_grants [OF this _ q(5), of 0] q(4) Cons.prems(12) obtain rf where
    rf: "RequestVote (nodes s q) args 0 = Some (rf, \<lparr>rvr_Term = t, rvr_VoteGranted = True\<rparr>)" "currentTerm rf = t" by auto
  define s1 where "s1 = set_call c t q (VReplied \<lparr>rvr_Term = t, rvr_VoteGranted = True\<rparr>) (move q rf s)"
  have st1: "among n Q s s1" unfolding s1_def by (rule am_vote [OF q(1) Cons.prems(3) q(3) rf(1)])
  define v' where "v' = v + 1"
  define rc where "rc = (if n div 2 < v' then becomeLeader (nodes s c) 0 else nodes s c)"
  have np: "npeers (nodes s c) = n" using Cons.prems(1-3) elect_inv_peer(4) [of n s c] by (auto simp: sound_def)
  have h: "handleVoteReply (nodes s1 c) (votes s1 c t) t \<lparr>rvr_Term = t, rvr_VoteGranted = True\<rparr> 0 = (rc, v')"
    using Cons.prems(4,5,7) q(2) np by (simp add: s1_def handleVoteReply_def v'_def rc_def Let_def)
  define s2 where "s2 = set_votes c t v' (set_call c t q VDone (move c rc s1))"
  have st2: "among n Q s1 s2" unfolding s2_def by (rule am_vote_reply [OF Cons.prems(3) q(1) _ h]) (simp add: s1_def)
  have run: "(among n Q)\<^sup>*\<^sup>* s s2" using st1 st2 by (meson r_into_rtranclp rtranclp.rtrancl_into_rtrancl)
  have so: "\<exists>A. sound n A s2" by (rule amongs_sound [OF run Cons.prems(1,2)])
  have nd: "nodes s2 = (nodes s)(q := rf, c := rc)" by (simp add: s2_def s1_def)
  have rc: "currentTerm rc = t" "\<not> dead rc" using Cons.prems(5,6) by (simp_all add: rc_def becomeLeader_def)
  have terms: "\<forall>p \<in> Q. currentTerm (nodes s2 p) \<le> t" using Cons.prems(14) rf(2) rc(1) by (simp add: nd)
  show ?case
  proof (cases "n div 2 < v'")
    case True
    have wf: "raft_wf (nodes s c)" using Cons.prems(1-3) elect_inv_peer(1) [of n s c] by (auto simp: sound_def)
    have "in_order c p s2" if "p \<in> Q - {c}" for p
      using that True Cons.prems(2) np raft_wf_last [OF wf] by (auto simp: in_order_def nd rc_def becomeLeader_def)
    with True have "leading n Q c s2"
      using so Cons.prems(2,3) rc terms unfolding leading_def by (auto simp: nd rc_def becomeLeader_def)
    with run show ?thesis by blast
  next
    case False
    then have rc': "rc = nodes s c" by (simp add: rc_def)
    have "\<exists>s'. (among n Q)\<^sup>*\<^sup>* s2 s' \<and> leading n Q c s'"
    proof (rule Cons.IH [OF so Cons.prems(2,3)])
      show "votes s2 c t = v'" by (simp add: s2_def)
      show "\<forall>p \<in> set qs. vote_calls s2 c t p = VSent args \<and> currentTerm (nodes s2 p) < t
         \<and> logUpToDate args (lastLogIndex (nodes s2 p)) (le_Term (last (rlog (nodes s2 p))))"
      proof
        fix p assume p: "p \<in> set qs"
        with Cons.prems(11) q(6) have "p \<noteq> q" "p \<noteq> c" by auto
        with Cons.prems(13) p show "vote_calls s2 c t p = VSent args \<and> currentTerm (nodes s2 p) < t
         \<and> logUpToDate args (lastLogIndex (nodes s2 p)) (le_Term (last (rlog (nodes s2 p))))" by (simp add: nd) (simp add: s2_def s1_def)
      qed
    qed (use Cons.prems False rc terms in \<open>auto simp: nd rc' v'_def\<close>)
    with run show ?thesis by (meson rtranclp_trans)
  qed
qed simp

section \<open>A deposed leader\<close>

text \<open>A leader that hears of a later term steps down.\<close>

lemma leader_steps_down:
  assumes so: "\<exists>A. sound n A s" and Q: "Q \<subseteq> in_cluster n" "i \<in> Q" "q \<in> Q"
    and i: "role (nodes s i) = Leader" "\<not> dead (nodes s i)" and later: "currentTerm (nodes s i) < currentTerm (nodes s q)"
  obtains s' where "(among n Q)\<^sup>*\<^sup>* s s'" "stands i s s'" "role (nodes s' i) \<noteq> Leader"
proof -
  let ?L = "nodes s i" and ?F = "nodes s q" and ?rf = "stepDown (nodes s i) (currentTerm (nodes s q))"
  have b: "0 \<le> i" "i < n" "0 \<le> q" "q < n" using Q by auto
  from so have W: "raft_wf ?L" "me ?L = i" "npeers ?L = n" and nx: "lead_next n ?L"
    using elect_inv_peer [of n s i] next_invD(2) [of n _ s i] b by (auto simp: sound_def)
  then have q: "0 \<le> q" "q < npeers ?L" using b by simp_all
  have qi: "q \<noteq> i" using later by auto
  have hb: "(q, currentTerm ?L) \<in> set (sendHeartbeats ?L)" using q qi W(2) i by (simp add: heartbeat_peer)
  note result = that
  have fin: "thesis" if "(among n Q)\<^sup>*\<^sup>* s s'" "nodes s' = (nodes s)(i := ?rf)" for s'
    using that by (intro result [of s']) (simp_all add: stands_def)
  show thesis
  proof (cases "lastIncludedIndex ?L < nextIndex ?L ! nat q")
    case True
    have ub: "nextIndex ?L ! nat q \<le> lastLogIndex ?L + 1" using nx q i(1) W(3) by (simp add: lead_next_def)
    obtain args where args: "sendAppendEntriesToPeer ?L q (currentTerm ?L) = Some (SendEntries args)" "ae_Term args = currentTerm ?L"
      "ae_LeaderId args = i" using send_entries [OF W(1) i(1) q True ub] W(2) by metis
    define reply where "reply = \<lparr>aer_Term = currentTerm ?F, aer_Success = False, aer_ConflictTerm = 0, aer_ConflictIndex = 0\<rparr>"
    define s1 where "s1 = s\<lparr>append_reqs := insert (q, args) (append_reqs s)\<rparr>"
    define s2 where "s2 = (move q ?F s1)\<lparr>append_replies := insert (q, args, reply) (append_replies s1)\<rparr>"
    have "among n Q s s1" unfolding s1_def by (rule am_send [OF Q(2,3) hb args(1)])
    moreover have "among n Q s1 s2" unfolding s2_def
      by (rule am_append [OF Q(3)]) (use later args(2,3) Q(2) in \<open>simp_all add: s1_def reply_def AppendEntries_def Let_def\<close>)
    moreover have "among n Q s2 (move i ?rf s2)"
      by (rule am_append_reply [OF Q(2,3), of args reply])
        (use later args(2,3) i(1) qi in \<open>simp_all add: s1_def s2_def reply_def handleAppendReply_def\<close>)
    ultimately have "(among n Q)\<^sup>*\<^sup>* s (move i ?rf s2)" by (meson rtranclp.rtrancl_into_rtrancl r_into_rtranclp)
    then show thesis by (rule fin) (simp add: s1_def s2_def)
  next
    case False
    then obtain sargs where args: "sendAppendEntriesToPeer ?L q (currentTerm ?L) = Some (SendSnapshot sargs)" "is_Term sargs = currentTerm ?L"
      "is_LeaderId sargs = i" using send_snapshot [OF W(1) i(1) q] W(2) by (metis not_less)
    define reply where "reply = \<lparr>isr_Term = currentTerm ?F\<rparr>"
    define s1 where "s1 = s\<lparr>snap_reqs := insert (q, sargs) (snap_reqs s)\<rparr>"
    define s2 where "s2 = (move q ?F s1)\<lparr>snap_replies := insert (q, sargs, reply) (snap_replies s1)\<rparr>"
    have "among n Q s s1" unfolding s1_def by (rule am_send_snap [OF Q(2,3) hb args(1)])
    moreover have "among n Q s1 s2" unfolding s2_def
      by (rule am_snap [OF Q(3), where msg = None]) (use later args(2,3) Q(2) in \<open>simp_all add: s1_def reply_def InstallSnapshot_def Let_def\<close>)
    moreover have "among n Q s2 (move i ?rf s2)"
      by (rule am_snap_reply [OF Q(2,3), of sargs reply])
        (use later args(2,3) i(1) qi in \<open>simp_all add: s1_def s2_def reply_def handleSnapshotReply_def\<close>)
    ultimately have "(among n Q)\<^sup>*\<^sup>* s (move i ?rf s2)" by (meson rtranclp.rtrancl_into_rtrancl r_into_rtranclp)
    then show thesis by (rule fin) (simp add: s1_def s2_def)
  qed
qed

section \<open>A majority elects a leader\<close>

abbreviation lastTerm :: "('c, 'd) cluster \<Rightarrow> int \<Rightarrow> int" where
  "lastTerm s p \<equiv> le_Term (last (rlog (nodes s p)))"

definition newest :: "int set \<Rightarrow> ('c, 'd) cluster \<Rightarrow> int \<Rightarrow> bool" where
  "newest Q s c \<longleftrightarrow> (\<forall>q \<in> Q. lastTerm s q < lastTerm s c
     \<or> lastTerm s q = lastTerm s c \<and> lastLogIndex (nodes s q) \<le> lastLogIndex (nodes s c))"

lemma newest_exists:
  assumes "finite Q" "Q \<noteq> {}" shows "\<exists>c \<in> Q. newest Q s c"
proof -
  let ?M = "Max (lastTerm s ` Q)"
  let ?S = "{q \<in> Q. lastTerm s q = ?M}"
  have "?M \<in> lastTerm s ` Q" using assms by (intro Max_in) auto
  then have S: "finite ?S" "?S \<noteq> {}" using assms(1) by auto
  let ?K = "Max ((\<lambda>q. lastLogIndex (nodes s q)) ` ?S)"
  have "?K \<in> (\<lambda>q. lastLogIndex (nodes s q)) ` ?S" using S by (intro Max_in) auto
  then obtain c where c: "c \<in> Q" "lastTerm s c = ?M" "lastLogIndex (nodes s c) = ?K" by auto
  have "lastTerm s q \<le> ?M" if "q \<in> Q" for q using that assms(1) by simp
  moreover have "lastLogIndex (nodes s q) \<le> ?K" if "q \<in> Q" "lastTerm s q = ?M" for q using that S(1) by (intro Max_ge) auto
  ultimately have "newest Q s c" using c(2,3) unfolding newest_def by force
  with c(1) show ?thesis by blast
qed

text \<open>Elections leave all logs alone.\<close>

definition same_logs :: "('c, 'd) cluster \<Rightarrow> ('c, 'd) cluster \<Rightarrow> bool" where
  "same_logs s s' \<longleftrightarrow> (\<forall>p. rlog (nodes s' p) = rlog (nodes s p) \<and> lastIncludedIndex (nodes s' p) = lastIncludedIndex (nodes s p)
     \<and> dead (nodes s' p) = dead (nodes s p))"

lemma stands_logs: "stands c s s' \<Longrightarrow> same_logs s s'"
  unfolding stands_def same_logs_def by metis

lemma same_logs_trans: "same_logs s s' \<Longrightarrow> same_logs s' s'' \<Longrightarrow> same_logs s s''"
  by (simp add: same_logs_def)

lemma same_logs_newest: "same_logs s s' \<Longrightarrow> newest Q s c \<Longrightarrow> newest Q s' c"
  by (simp add: newest_def same_logs_def lastLogIndex_def)

text \<open>The peer with the newest log that does not lead wins an election.\<close>

lemma newest_wins:
  assumes so: "\<exists>A. sound n A s" and maj: "majority n Q" and n: "2 \<le> n" and c: "c \<in> Q" "newest Q s c"
    and free: "role (nodes s c) \<noteq> Leader" "\<not> dead (nodes s c)"
  shows "\<exists>s'. (among n Q)\<^sup>*\<^sup>* s s' \<and> leading n Q c s'"
proof -
  have Q: "Q \<subseteq> in_cluster n" "n div 2 < int (card Q)" "finite Q" using maj finite_subset [of Q "in_cluster n"] by (auto simp: majority_def)
  define t0 where "t0 = Max ((\<lambda>q. currentTerm (nodes s q)) ` Q)"
  have t0: "currentTerm (nodes s q) \<le> t0" if "q \<in> Q" for q using that Q(3) by (simp add: t0_def)
  from timer_fires_again [OF so Q(1) c(1) free, of t0] obtain s1 where
    s1: "(among n Q)\<^sup>*\<^sup>* s s1" "stands c s s1" "canvasses n Q c s1" "t0 < currentTerm (nodes s1 c)" by blast
  define t where "t = currentTerm (nodes s1 c)"
  from s1(3) obtain args where args: "role (nodes s1 c) = Candidate" "votes s1 c t = 1" "rv_Term args = t"
    "rv_LastLogIndex args = lastLogIndex (nodes s1 c)" "rv_LastLogTerm args = lastTerm s1 c"
    "\<forall>q \<in> Q - {c}. vote_calls s1 c t q = VSent args" by (auto simp: canvasses_def t_def)
  obtain qs where qs: "set qs = Q - {c}" "distinct qs" using finite_distinct_list [of "Q - {c}"] Q(3) by auto
  have len: "int (length qs) = int (card Q) - 1"
    using distinct_card [OF qs(2)] qs(1) c(1) Q(3) card_Suc_Diff1 [of Q c] by simp
  note new = same_logs_newest [OF stands_logs [OF s1(2)] c(2)]
  have later: "currentTerm (nodes s1 q) < t" if "q \<in> Q - {c}" for q
    using that t0 [of q] s1(2,4) by (simp add: stands_def t_def)
  have up: "logUpToDate args (lastLogIndex (nodes s1 q)) (lastTerm s1 q)" if "q \<in> Q" for q
    using that new args(4,5) by (auto simp: logUpToDate_def newest_def)
  have "\<exists>s'. (among n Q)\<^sup>*\<^sup>* s1 s' \<and> leading n Q c s'"
  proof (rule votes_come_in [OF amongs_sound [OF s1(1) so Q(1)] Q(1) c(1) args(1) _ _ args(2) _ _ qs(2) _ args(3)])
    show "\<forall>q \<in> set qs. vote_calls s1 c t q = VSent args \<and> currentTerm (nodes s1 q) < t
       \<and> logUpToDate args (lastLogIndex (nodes s1 q)) (lastTerm s1 q)" using qs(1) args(6) later up by auto
    show "\<forall>q \<in> Q. currentTerm (nodes s1 q) \<le> t" using later t_def by (metis Diff_iff empty_iff insert_iff order_le_less)
  qed (use qs(1) len Q(2) n free(2) s1(2) in \<open>auto simp: t_def stands_def\<close>)
  with s1(1) show ?thesis by (meson rtranclp_trans)
qed

text \<open>A peer that does not lead calls elections until its term is later than the leader's, and the leader steps down.\<close>

lemma challenger_deposes:
  assumes so: "\<exists>A. sound n A s" and Q: "Q \<subseteq> in_cluster n" "c \<in> Q" "q \<in> Q" and ne: "q \<noteq> c"
    and q: "role (nodes s q) \<noteq> Leader" "\<not> dead (nodes s q)" and c: "role (nodes s c) = Leader" "\<not> dead (nodes s c)"
  shows "\<exists>s'. (among n Q)\<^sup>*\<^sup>* s s' \<and> same_logs s s' \<and> role (nodes s' c) \<noteq> Leader"
proof -
  from timer_fires_again [OF so Q(1,3) q, of "currentTerm (nodes s c)"] obtain s1 where
    s1: "(among n Q)\<^sup>*\<^sup>* s s1" "stands q s s1" "currentTerm (nodes s c) < currentTerm (nodes s1 q)" by blast
  have c1: "nodes s1 c = nodes s c" using s1(2) ne by (simp add: stands_def)
  obtain s2 where "(among n Q)\<^sup>*\<^sup>* s1 s2" "stands c s1 s2" "role (nodes s2 c) \<noteq> Leader"
    by (rule leader_steps_down [OF amongs_sound [OF s1(1) so Q(1)] Q(1,2,3)]) (use c s1(3) c1 in simp_all)
  with s1 show ?thesis by (meson rtranclp_trans same_logs_trans stands_logs)
qed

lemma leader_deposed:
  assumes so: "\<exists>A. sound n A s" and Q: "Q \<subseteq> in_cluster n" "c \<in> Q" "q \<in> Q" and ne: "q \<noteq> c"
    and up: "\<forall>p \<in> Q. \<not> dead (nodes s p)" and c: "role (nodes s c) = Leader"
  shows "\<exists>s'. (among n Q)\<^sup>*\<^sup>* s s' \<and> same_logs s s' \<and> role (nodes s' c) \<noteq> Leader"
proof -
  consider (later) "currentTerm (nodes s c) < currentTerm (nodes s q)" | (free) "role (nodes s q) \<noteq> Leader"
    | (older) "currentTerm (nodes s q) < currentTerm (nodes s c)" "role (nodes s q) = Leader"
    | (same) "currentTerm (nodes s q) = currentTerm (nodes s c)" "role (nodes s q) = Leader" by linarith
  then show ?thesis
  proof cases
    case later
    from leader_steps_down [OF so Q c _ later] up Q(2) show ?thesis by (metis stands_logs)
  next
    case free
    from challenger_deposes [OF so Q ne free _ c] up Q show ?thesis by blast
  next
    case older
    obtain s1 where s1: "(among n Q)\<^sup>*\<^sup>* s s1" "stands q s s1" "role (nodes s1 q) \<noteq> Leader"
      using leader_steps_down [OF so Q(1,3,2) older(2) _ older(1)] up Q(3) by blast
    have "nodes s1 c = nodes s c" "dead (nodes s1 q) = dead (nodes s q)" using s1(2) ne by (simp_all add: stands_def)
    with challenger_deposes [OF amongs_sound [OF s1(1) so Q(1)] Q ne s1(3)] up Q c s1(1) stands_logs [OF s1(2)]
    show ?thesis by (metis rtranclp_trans same_logs_trans)
  next
    case same
    from so have "elect_inv n s" by (auto simp: sound_def)
    moreover have "c \<in> in_cluster n" "q \<in> in_cluster n" using Q by blast+
    ultimately show ?thesis using leader_unique [OF _ cl_refl, of n s c q] same c ne by simp
  qed
qed

lemma majority_elects:
  assumes so: "\<exists>A. sound n A s" and maj: "majority n Q" and n: "2 \<le> n" and up: "\<forall>q \<in> Q. \<not> dead (nodes s q)"
  obtains s' i where "(among n Q)\<^sup>*\<^sup>* s s'" "leading n Q i s'"
proof -
  have Q: "Q \<subseteq> in_cluster n" "finite Q" "Q \<noteq> {}" "2 \<le> card Q" using maj n finite_subset [of Q "in_cluster n"] by (auto simp: majority_def)
  from newest_exists [OF Q(2,3)] obtain c where c: "c \<in> Q" "newest Q s c" by blast
  have "\<exists>s1. (among n Q)\<^sup>*\<^sup>* s s1 \<and> same_logs s s1 \<and> role (nodes s1 c) \<noteq> Leader"
  proof (cases "role (nodes s c) = Leader")
    case False
    then show ?thesis by (intro exI [of _ s]) (simp add: same_logs_def)
  next
    case True
    have "Q \<noteq> {c}" using Q(4) by auto
    then obtain q where "q \<in> Q" "q \<noteq> c" using c(1) by blast
    from leader_deposed [OF so Q(1) c(1) this up True] show ?thesis .
  qed
  then obtain s1 where s1: "(among n Q)\<^sup>*\<^sup>* s s1" "same_logs s s1" "role (nodes s1 c) \<noteq> Leader" by blast
  have "\<not> dead (nodes s1 c)" using s1(2) up c(1) by (simp add: same_logs_def)
  from newest_wins [OF amongs_sound [OF s1(1) so Q(1)] maj n c(1) same_logs_newest [OF s1(2) c(2)] s1(3) this] s1(1) that
  show thesis by (meson rtranclp_trans)
qed

section \<open>A majority makes progress\<close>

text \<open>A leader accepts a command.\<close>

lemma leading_start:
  assumes ld: "leading n Q i s"
  obtains rf where "Start (nodes s i) c = (rf, lastLogIndex rf, currentTerm rf, True)" "cl_step n s (move i rf s)" "leading n Q i (move i rf s)"
    "entryAt rf (lastLogIndex rf) = Some \<lparr>le_Command = Some c, le_Term = currentTerm rf\<rparr>"
    "currentTerm rf = currentTerm (nodes s i)" "apply_view rf = apply_view (nodes s i)" "lastLogIndex rf = lastLogIndex (nodes s i) + 1"
proof -
  let ?L = "nodes s i"
  define rf where "rf = persist (?L\<lparr>rlog := rlog ?L @ [\<lparr>le_Command = Some c, le_Term = currentTerm ?L\<rparr>]\<rparr>)"
  have lead: "role ?L = Leader" "i \<in> Q" "Q \<subseteq> in_cluster n" "\<exists>A. sound n A s" using ld by (auto simp: leading_def)
  have st: "Start ?L c = (rf, lastLogIndex rf, currentTerm rf, True)" using lead(1) by (simp add: Start_def Let_def rf_def)
  have am: "cl_step n s (move i rf s)" by (rule cl_start [OF _ _ st]) (use lead(2,3) in auto)
  have "\<exists>A. sound n A (move i rf s)" using sound_step [OF _ am] lead(4) by blast
  then have ld1: "leading n Q i (move i rf s)" using ld by (auto simp: leading_def rf_def in_order_def)
  have "0 < length (rlog ?L)" using lead elect_inv_peer(1) [of n s i] by (auto simp: sound_def raft_wf_def)
  then have e: "entryAt rf (lastLogIndex rf) = Some \<lparr>le_Command = Some c, le_Term = currentTerm rf\<rparr>"
    by (simp add: rf_def entryAt_def getRelativeIndex_def lastLogIndex_def go_nth_def)
  have v: "currentTerm rf = currentTerm ?L" "apply_view rf = apply_view ?L" "lastLogIndex rf = lastLogIndex ?L + 1"
    by (simp_all add: rf_def apply_view_def persist_def Save_def ReadSnapshot_def lastLogIndex_def)
  show thesis by (rule that [OF st am ld1 e v])
qed

text \<open>A leader that reaches a majority commits its log.\<close>

lemma leading_commits_last:
  assumes ld: "leading n Q i s" and maj: "majority n Q" and n: "2 \<le> n"
    and e: "entryAt (nodes s i) (lastLogIndex (nodes s i)) = Some \<lparr>le_Command = c, le_Term = currentTerm (nodes s i)\<rparr>"
  obtains s' where "(among n Q)\<^sup>*\<^sup>* s s'" "leading n Q i s'" "same_leader i s s'" "commitIndex (nodes s' i) = lastLogIndex (nodes s' i)"
    "entryAt (nodes s' i) (lastLogIndex (nodes s' i)) = Some \<lparr>le_Command = c, le_Term = currentTerm (nodes s' i)\<rparr>"
proof -
  have own: "termAt (nodes s i) (lastLogIndex (nodes s i)) = Some (currentTerm (nodes s i))"
    using e by (auto simp: entryAt_def termAt_def split: if_splits)
  obtain s' where s': "(among n Q)\<^sup>*\<^sup>* s s'" "leading n Q i s'" "same_leader i s s'" "commitIndex (nodes s' i) = lastLogIndex (nodes s' i)"
    using leading_commits [OF ld maj n own] .
  have "entryAt (nodes s' i) j = entryAt (nodes s i) j" for j
    using s'(3) by (simp add: same_leader_def entryAt_def getRelativeIndex_def)
  with s' e same_leader_last [OF s'(3)] show thesis by (intro that [of s']) (simp_all add: same_leader_def)
qed


lemma Make_alive: "\<not> dead (Make n i ps now)"
  by (simp add: Make_def readPersist_def Let_def split: option.splits) (auto simp: bind_Some_iff)


end
