(* ===== verification/RsmProgress.thy ===== *)
theory RsmProgress
  imports RsmService RaftProgress
begin

text \<open>
  Progress of a replicated service: \<^verbatim>\<open>kvraft1/rsm/rsm.go\<close> on top of \<^verbatim>\<open>raft1/raft.go\<close>.  From every state the service reaches, any majority of
  running servers can, without a step of the others, elect a leader whose \<open>Submit\<close> returns \<open>OK\<close>.  The steps of Raft are those of
  \<^verbatim>\<open>RaftProgress\<close>; here they are lifted to the service, whose readers then execute what Raft delivers.
\<close>

section \<open>Steps of a group of servers\<close>

text \<open>A step of Raft among the servers of \<open>Q\<close> that no replica sees, a pass of the applier, a snapshot of a leader in \<open>Q\<close>, a message taken by the
  reader.  Nobody crashes and the other servers do nothing.\<close>

inductive sv_among :: "('s \<Rightarrow> 'q \<Rightarrow> ('s \<times> 'r) option) \<Rightarrow> ('s \<Rightarrow> 'd list \<Rightarrow> 's option) \<Rightarrow> int \<Rightarrow> int set
    \<Rightarrow> ('q, 'd, 's, 'r) service \<Rightarrow> ('q, 'd, 's, 'r) service \<Rightarrow> bool" for dop restore n Q where
  sa_raft: "among n Q (sv_cl x) s \<Longrightarrow> (\<forall>p. apply_view (nodes s p) = apply_view (nodes (sv_cl x) p)) \<Longrightarrow>
    sv_among dop restore n Q x (x\<lparr>sv_cl := s\<rparr>)"
| sa_apply: "p \<in> Q \<Longrightarrow> applierLoop_iter (nodes (sv_cl x) p) = Some (rf, msgs) \<Longrightarrow>
    sv_among dop restore n Q x (x\<lparr>sv_cl := move p rf (sv_cl x), sv_queue := (sv_queue x)(p := sv_queue x p @ msgs)\<rparr>)"
| sa_install: "p \<in> Q \<Longrightarrow> (p, sargs) \<in> snap_reqs (sv_cl x) \<Longrightarrow> is_LeaderId sargs \<in> Q \<Longrightarrow>
    InstallSnapshot (nodes (sv_cl x) p) sargs now = Some (rf, reply, Some m) \<Longrightarrow>
    lastApplied (nodes (sv_cl x) p) \<le> is_LastIncludedIndex sargs \<Longrightarrow>
    sv_among dop restore n Q x
      (x\<lparr>sv_cl := (move p rf (sv_cl x))\<lparr>snap_replies := insert (p, sargs, reply) (snap_replies (sv_cl x))\<rparr>,
         sv_queue := (sv_queue x)(p := sv_queue x p @ [m])\<rparr>)"
| sa_handle: "p \<in> Q \<Longrightarrow> sv_queue x p = m # ms \<Longrightarrow> applyReader_exec dop restore (rsm (sv_rep x p)) m = Some r \<Longrightarrow>
    sv_among dop restore n Q x
      (x\<lparr>sv_rep := (sv_rep x)(p := (sv_rep x p)\<lparr>rsm := r, applied := msg_index m\<rparr>), sv_queue := (sv_queue x)(p := ms)\<rparr>)"

text \<open>\<open>Submit\<close> on server \<open>i\<close> up to its waiting loop: \<open>GetState\<close>, \<open>Start\<close> and the new channel; \<open>None\<close> where it returns \<open>ErrWrongLeader\<close>.  The
  result is the state, the channel and the term that \<open>Start\<close> returned.\<close>

definition Submit_begin :: "int \<Rightarrow> int \<Rightarrow> 'q \<Rightarrow> ('q, 'd, 's, 'r) service \<Rightarrow> (('q, 'd, 's, 'r) service \<times> nat \<times> int) option" where
  "Submit_begin i nrand req x =
     (case Submit_op (nodes (sv_cl x) i) nrand req of
        Inl e \<Rightarrow> None
      | Inr op \<Rightarrow>
          (case Submit_start (nodes (sv_cl x) i) op of
             (rf, Inl e) \<Rightarrow> None
           | (rf, Inr (index, startTerm)) \<Rightarrow>
               (let (r, ch) = Submit_register (rsm (sv_rep x i)) index
                in Some (x\<lparr>sv_cl := move i rf (sv_cl x),
                          sv_rep := (sv_rep x)(i := (sv_rep x i)\<lparr>rsm := r, owner := (owner (sv_rep x i))(ch := index)\<rparr>)\<rparr>, ch, startTerm))))"

lemma sv_among_step:
  assumes "sv_among dop restore n Q x y" "elect_inv n (sv_cl x)" "Q \<subseteq> in_cluster n"
  shows "sv_step dop snap restore s0 len n x y" "sv_cl y = sv_cl x \<or> cl_step n (sv_cl x) (sv_cl y)"
proof -
  have Q: "0 \<le> p \<and> p < n" if "p \<in> Q" for p using that assms(3) by auto
  from assms(1) show "sv_step dop snap restore s0 len n x y"
  proof (cases rule: sv_among.cases)
    case (sa_raft s)
    then show ?thesis using among_cl [OF _ assms(2,3)] by (auto simp: quiet_def intro: sv_raft)
  qed (use Q in \<open>auto intro: sv_step.intros\<close>)
  from assms(1) show "sv_cl y = sv_cl x \<or> cl_step n (sv_cl x) (sv_cl y)"
    by (cases rule: sv_among.cases) (use among_cl [OF _ assms(2,3)] Q in \<open>auto intro: cl_apply cl_snap\<close>)
qed

section \<open>States of a run\<close>

definition serving :: "('s \<Rightarrow> 'q \<Rightarrow> ('s \<times> 'r) option) \<Rightarrow> ('s \<Rightarrow> 'd list) \<Rightarrow> ('s \<Rightarrow> 'v) \<Rightarrow> 's \<Rightarrow> int \<Rightarrow> ('q, 'd, 's, 'r) service \<Rightarrow> bool" where
  "serving dop snap vw t n x \<longleftrightarrow> (\<exists>log. sv_inv dop snap vw t n log x) \<and> (\<exists>A. sound n A (sv_cl x))"

lemma servingD:
  assumes "serving dop snap vw t n x"
  shows "elect_inv n (sv_cl x)" "real_cluster n (sv_cl x)" "\<exists>A. sound n A (sv_cl x)" "\<exists>log. sv_inv dop snap vw t n log x"
  using assms by (auto simp: serving_def sv_inv_def)

text \<open>What a replica sees of a step of Raft among the servers of \<open>Q\<close>: nothing, or a snapshot that is not older than what it has.\<close>

lemma among_seen:
  assumes st: "among n Q s s'" and inv: "elect_inv n s" "real_cluster n s" and Q: "Q \<subseteq> in_cluster n"
  shows "(\<forall>p. apply_view (nodes s' p) = apply_view (nodes s p))
    \<or> (\<exists>p sargs now rf reply m. p \<in> Q \<and> (p, sargs) \<in> snap_reqs s \<and> is_LeaderId sargs \<in> Q
         \<and> InstallSnapshot (nodes s p) sargs now = Some (rf, reply, Some m) \<and> lastApplied (nodes s p) \<le> is_LastIncludedIndex sargs
         \<and> s' = (move p rf s)\<lparr>snap_replies := insert (p, sargs, reply) (snap_replies s)\<rparr>)"
proof -
  have wf: "raft_wf (nodes s p)" if "p \<in> Q" for p using elect_inv_peer(1) [OF inv(1)] that Q by auto
  have kept: ?thesis if "keeps (nodes s p) rf" "nodes s' = (nodes s)(p := rf)" for p rf using that by (auto simp: keeps_def)
  from st show ?thesis
  proof (cases rule: among.cases)
    case (am_append p args now rf reply)
    then show ?thesis using kept [OF keeps_AppendEntries [OF am_append(5) wf real_clusterD(2) [OF inv(2) am_append(3)]]] by simp
  next
    case (am_snap p sargs now rf reply msg)
    show ?thesis
    proof (cases msg)
      case None
      have "apply_view rf = apply_view (nodes s p)"
        using am_snap(5) wf [OF am_snap(2)] by (cases rule: InstallSnapshot_cases) (use None in simp_all)
      with am_snap(1) show ?thesis by simp
    next
      case (Some m)
      with am_snap(1-6) have "p \<in> Q \<and> (p, sargs) \<in> snap_reqs s \<and> is_LeaderId sargs \<in> Q
         \<and> InstallSnapshot (nodes s p) sargs now = Some (rf, reply, Some m) \<and> lastApplied (nodes s p) \<le> is_LastIncludedIndex sargs
         \<and> s' = (move p rf s)\<lparr>snap_replies := insert (p, sargs, reply) (snap_replies s)\<rparr>" by simp
      then show ?thesis by blast
    qed
  next
    case (am_elect i now rnd rf args)
    then show ?thesis using kept [OF keeps_ticker [OF am_elect(4)]] by simp
  next
    case (am_vote p i t args now rf reply)
    then show ?thesis using kept [OF keeps_RequestVote [OF am_vote(5)]] by simp
  next
    case (am_vote_reply i p t reply now rf v)
    then show ?thesis using kept [OF keeps_voteReply [OF am_vote_reply(5)]] by simp
  next
    case (am_append_reply i p args reply rf)
    then show ?thesis using kept [OF keeps_appendReply [OF am_append_reply(6) wf]] by simp
  next
    case (am_snap_reply i p sargs reply rf)
    then show ?thesis using kept [OF keeps_snapReply [OF am_snap_reply(6)]] by simp
  qed auto
qed

text \<open>So a run of Raft is a run of the service, in which the replicas stay as they are.\<close>

lemma among_lift:
  assumes "among n Q (sv_cl x) s" "elect_inv n (sv_cl x)" "real_cluster n (sv_cl x)" "Q \<subseteq> in_cluster n"
  obtains y where "sv_among dop restore n Q x y" "sv_cl y = s" "sv_rep y = sv_rep x"
  using among_seen [OF assms]
proof (elim disjE exE conjE)
  assume "\<forall>p. apply_view (nodes s p) = apply_view (nodes (sv_cl x) p)"
  from that [OF sa_raft [OF assms(1) this]] show thesis by simp
next
  fix p sargs now rf reply m
  assume "p \<in> Q" "(p, sargs) \<in> snap_reqs (sv_cl x)" "is_LeaderId sargs \<in> Q"
    "InstallSnapshot (nodes (sv_cl x) p) sargs now = Some (rf, reply, Some m)" "lastApplied (nodes (sv_cl x) p) \<le> is_LastIncludedIndex sargs"
    and s: "s = (move p rf (sv_cl x))\<lparr>snap_replies := insert (p, sargs, reply) (snap_replies (sv_cl x))\<rparr>"
  from that [OF sa_install [OF this(1-5)]] s show thesis by simp
qed

lemma cl_run_append: "cl_run n s' s'' \<Longrightarrow> cl_run n s s' \<Longrightarrow> cl_run n s s''"
  by (induction rule: cl_run.induct) (auto intro: cl_trans)

context state_machine
begin

lemma serving_step:
  assumes "sv_step DoOp SnapshotSM RestoreSM (\<lambda>_. t) len n x y" "sv_cl y = sv_cl x \<or> cl_step n (sv_cl x) (sv_cl y)"
    and "serving DoOp SnapshotSM view t n x"
  shows "serving DoOp SnapshotSM view t n y"
proof -
  from assms(3) obtain log A where "sv_inv DoOp SnapshotSM view t n log x" "sound n A (sv_cl x)" by (auto simp: serving_def)
  with sv_step_inv [OF assms(1)] assms(2) sound_step show ?thesis unfolding serving_def by metis
qed

lemma serving_among:
  "sv_among DoOp RestoreSM n Q x y \<Longrightarrow> serving DoOp SnapshotSM view t n x \<Longrightarrow> Q \<subseteq> in_cluster n \<Longrightarrow> serving DoOp SnapshotSM view t n y"
  by (rule serving_step [OF sv_among_step]) (auto dest: servingD(1))

lemma amongs_serving:
  "(sv_among DoOp RestoreSM n Q)\<^sup>*\<^sup>* x y \<Longrightarrow> serving DoOp SnapshotSM view t n x \<Longrightarrow> Q \<subseteq> in_cluster n \<Longrightarrow> serving DoOp SnapshotSM view t n y"
  by (induction rule: rtranclp_induct) (auto intro: serving_among)

lemma amongs_lift:
  assumes "(among n Q)\<^sup>*\<^sup>* (sv_cl x) s" and sv: "serving DoOp SnapshotSM view t n x" and Q: "Q \<subseteq> in_cluster n"
  shows "\<exists>y. (sv_among DoOp RestoreSM n Q)\<^sup>*\<^sup>* x y \<and> sv_cl y = s \<and> sv_rep y = sv_rep x"
  using assms(1)
proof (induction rule: rtranclp_induct)
  case base
  then show ?case by blast
next
  case (step s s')
  then obtain y where y: "(sv_among DoOp RestoreSM n Q)\<^sup>*\<^sup>* x y" "sv_cl y = s" "sv_rep y = sv_rep x" by blast
  note S = servingD [OF amongs_serving [OF y(1) sv Q]]
  obtain z where "sv_among DoOp RestoreSM n Q y z" "sv_cl z = s'" "sv_rep z = sv_rep y"
    using among_lift [OF step.hyps(2) [folded y(2)] S(1,2) Q] .
  with y show ?case by (metis rtranclp.rtrancl_into_rtrancl)
qed

text \<open>What the service does to its cluster is a run of the cluster.\<close>

lemma sv_step_cl:
  assumes "sv_step DoOp SnapshotSM RestoreSM s0 len n x y" and inv: "sv_inv DoOp SnapshotSM view t n log x"
  shows "cl_run n (sv_cl x) (sv_cl y)"
  using assms(1)
proof (cases rule: sv_step.cases)
  case (sv_compact p m rf)
  let ?rf = "nodes (sv_cl x) p"
  have "int (applied (sv_rep x p)) \<le> lastApplied ?rf"
    using peer_ok_applied [OF sv_invD(3) [OF inv sv_compact(2,3)]] elect_inv_peer(1) [OF sv_invD(1) [OF inv] sv_compact(2,3)]
    by (auto simp: raft_wf_def)
  with sv_compact have "rf = ?rf \<or> cl_step n (sv_cl x) (move p rf (sv_cl x))"
    by (auto simp: applyReader_snapshot_def intro: cl_compact split: if_splits)
  then show ?thesis using move_same [OF sv_invD(1) [OF inv] sv_compact(2,3)] sv_compact(1) by (auto intro: cl_refl cl_trans)
next
  case (sv_restart p maxraft now r rf)
  then have "rf = Make n p (persister (nodes (sv_cl x) p)) now" by (auto simp: MakeRSM_def Let_def bind_Some_iff split: if_splits)
  with sv_restart show ?thesis by (auto intro: cl_trans [OF cl_refl] cl_restart)
qed (auto simp: quiet_def intro: cl_refl cl_trans [OF cl_refl] cl_apply cl_snap)

lemma run_serving:
  assumes "sv_run DoOp SnapshotSM RestoreSM s0 len n (sv_init RestoreSM s0 maxraft n now) x" and views: "\<And>p. view (s0 p) = view t"
  shows "serving DoOp SnapshotSM view t n x"
proof -
  have "cl_run n (cl_init n now) (sv_cl x)"
    using assms(1)
  proof (induction "sv_init RestoreSM s0 maxraft n now :: ('q, 'd, 's, 'r) service" x rule: sv_run.induct)
    case sv_refl
    then show ?case by (simp add: sv_init_def cl_refl)
  next
    case (sv_trans y z)
    from sv_run_inv [OF sv_trans.hyps(1) views sv_init_inv [OF views]] obtain log where "sv_inv DoOp SnapshotSM view t n log y" by blast
    from cl_run_append [OF sv_step_cl [OF sv_trans.hyps(3) this] sv_trans.hyps(2)] show ?case .
  qed
  from reachable_sound [OF this] sv_run_inv [OF assms(1) views sv_init_inv [OF views]] show ?thesis by (auto simp: serving_def)
qed

end

section \<open>Servers whose operations always return\<close>

lemma queue_ok_snoc:
  "queue_ok dop snap s0 log k (ms @ [m]) a \<longleftrightarrow>
     (\<exists>b. queue_ok dop snap s0 log k ms b \<and> next_msg dop snap s0 log b m a \<and> msg_index m = a \<and> a \<le> length log)"
  by (induction ms arbitrary: k) auto

locale total_machine = state_machine +
  assumes DoOp_total: "DoOp s q \<noteq> None"
begin

lemmas total_run_serving = run_serving and total_amongs_serving = amongs_serving

text \<open>The reader can take the next message; \<open>Submit\<close> calls for later indices go on waiting.\<close>

lemma reader_reads:
  assumes m: "next_msg DoOp SnapshotSM t log k m j"
  obtains r where "applyReader_exec DoOp RestoreSM x m = Some r" "\<forall>i. int j < i \<longrightarrow> pendingOps r i = pendingOps x i"
  using m
proof (cases rule: next_msg.cases)
  case next_command
  obtain s' v where "DoOp (sm x) (op_Command (log ! k)) = Some (s', v)" using DoOp_total by fast
  with next_command show thesis
    by (intro that [of "notify (x\<lparr>sm := s'\<rparr>) (int k + 1) \<lparr>n_id = op_Id (log ! k), n_term = op_Term (log ! k), n_result = v\<rparr>"])
      (auto simp: applyReader_exec_def notify_def split: option.splits)
next
  case (next_snapshot s rs)
  obtain s' where "RestoreSM (sm x) (SnapshotSM s) = Some s'" using Restore_Snapshot by blast
  with next_snapshot show thesis by (intro that [of "x\<lparr>sm := s'\<rparr>"]) (simp_all add: applyReader_exec_def)
qed

lemma reader_drains:
  assumes "sv_inv DoOp SnapshotSM view t n log x" "p \<in> Q" "Q \<subseteq> in_cluster n" "sv_queue x p = ms @ rest"
    "queue_ok DoOp SnapshotSM t log (applied (sv_rep x p)) ms b"
  shows "\<exists>y. (sv_among DoOp RestoreSM n Q)\<^sup>*\<^sup>* x y \<and> sv_inv DoOp SnapshotSM view t n log y \<and> sv_cl y = sv_cl x \<and> sv_queue y p = rest
     \<and> owner (sv_rep y p) = owner (sv_rep x p) \<and> (\<forall>i. int b < i \<longrightarrow> pendingOps (rsm (sv_rep y p)) i = pendingOps (rsm (sv_rep x p)) i)"
  using assms
proof (induction ms arbitrary: x)
  case Nil
  then show ?case by (intro exI [of _ x]) simp
next
  case (Cons m ms)
  from Cons.prems(2,3) have p: "0 \<le> p" "p < n" by auto
  from Cons.prems(5) have m: "next_msg DoOp SnapshotSM t log (applied (sv_rep x p)) m (msg_index m)"
    and ms: "queue_ok DoOp SnapshotSM t log (msg_index m) ms b" by simp_all
  obtain r where r: "applyReader_exec DoOp RestoreSM (rsm (sv_rep x p)) m = Some r"
    "\<forall>i. int (msg_index m) < i \<longrightarrow> pendingOps r i = pendingOps (rsm (sv_rep x p)) i" using reader_reads [OF m, of "rsm (sv_rep x p)"] .
  let ?x = "x\<lparr>sv_rep := (sv_rep x)(p := (sv_rep x p)\<lparr>rsm := r, applied := msg_index m\<rparr>), sv_queue := (sv_queue x)(p := ms @ rest)\<rparr>"
  have q: "sv_queue x p = m # ms @ rest" using Cons.prems(4) by simp
  have st: "sv_among DoOp RestoreSM n Q x ?x" by (rule sa_handle [OF Cons.prems(2) q r(1)])
  have "\<exists>y. (sv_among DoOp RestoreSM n Q)\<^sup>*\<^sup>* ?x y \<and> sv_inv DoOp SnapshotSM view t n log y \<and> sv_cl y = sv_cl ?x \<and> sv_queue y p = rest
     \<and> owner (sv_rep y p) = owner (sv_rep ?x p) \<and> (\<forall>i. int b < i \<longrightarrow> pendingOps (rsm (sv_rep y p)) i = pendingOps (rsm (sv_rep ?x p)) i)"
    by (rule Cons.IH [OF sv_inv_handle [OF Cons.prems(1) p q r(1)] Cons.prems(2,3)]) (use ms in simp_all)
  then obtain y where y: "(sv_among DoOp RestoreSM n Q)\<^sup>*\<^sup>* ?x y" "sv_inv DoOp SnapshotSM view t n log y" "sv_cl y = sv_cl x" "sv_queue y p = rest"
    "owner (sv_rep y p) = owner (sv_rep x p)" "\<And>i. int b < i \<Longrightarrow> pendingOps (rsm (sv_rep y p)) i = pendingOps r i" by auto
  have "pendingOps (rsm (sv_rep y p)) i = pendingOps (rsm (sv_rep x p)) i" if "int b < i" for i
    using that y(6) r(2) queue_ok_le [OF ms] by simp
  with y st show ?case by (intro exI [of _ y]) (simp add: converse_rtranclp_into_rtranclp)
qed

text \<open>The reader takes the message of the operation a \<open>Submit\<close> waits for, and the call can return.\<close>

lemma reader_answers:
  assumes inv: "sv_inv DoOp SnapshotSM view t n log x" and p: "p \<in> Q" "Q \<subseteq> in_cluster n" and q: "sv_queue x p = [m]"
    and m: "next_msg DoOp SnapshotSM t log b m j" "CommandValid m" and op: "pendingOps (rsm (sv_rep x p)) (CommandIndex m) = Some ch"
  shows "\<exists>y v. sv_among DoOp RestoreSM n Q x y \<and> sv_inv DoOp SnapshotSM view t n log y \<and> sv_cl y = sv_cl x
     \<and> owner (sv_rep y p) = owner (sv_rep x p)
     \<and> Submit_poll (rsm (sv_rep y p)) (rf :: ('q Op, 'd) Raft) ch (op_Id (log ! b)) (op_Term (log ! b)) = Some (OK, Some v)"
proof -
  from p have b: "0 \<le> p" "p < n" by auto
  from sv_invD(3) [OF inv b] obtain rs where "chans_ok log rs (sv_rep x p)" by (auto simp: peer_ok_def replica_inv_def)
  with op have e: "buf (chans (rsm (sv_rep x p)) ch) = []" by (auto simp: chans_ok_def)
  from m have am: "am_Command m = Some (log ! b)" by (auto simp: next_msg.simps)
  obtain s' v where d: "DoOp (sm (rsm (sv_rep x p))) (op_Command (log ! b)) = Some (s', v)" using DoOp_total by fast
  define r where "r = notify ((rsm (sv_rep x p))\<lparr>sm := s'\<rparr>) (CommandIndex m) \<lparr>n_id = op_Id (log ! b), n_term = op_Term (log ! b), n_result = v\<rparr>"
  have r: "applyReader_exec DoOp RestoreSM (rsm (sv_rep x p)) m = Some r" using m(2) am d by (simp add: applyReader_exec_def r_def)
  let ?y = "x\<lparr>sv_rep := (sv_rep x)(p := (sv_rep x p)\<lparr>rsm := r, applied := msg_index m\<rparr>), sv_queue := (sv_queue x)(p := [])\<rparr>"
  have "buf (chans r ch) = [\<lparr>n_id = op_Id (log ! b), n_term = op_Term (log ! b), n_result = v\<rparr>]"
    using op e by (simp add: r_def notify_def chan_send_def)
  then have "Submit_poll (rsm (sv_rep ?y p)) rf ch (op_Id (log ! b)) (op_Term (log ! b)) = Some (OK, Some v)" by (simp add: Submit_poll_def)
  with sa_handle [OF p(1) q r] sv_inv_handle [OF inv b q r] show ?thesis by (intro exI [of _ ?y] exI [of _ v]) simp
qed

text \<open>The leader replicates its log to the group, delivers it, and its reader answers the \<open>Submit\<close> that waits at the end of the log.\<close>

lemma leader_answers:
  assumes sv: "serving DoOp SnapshotSM view t n x" and ld: "leading n Q i (sv_cl x)" and maj: "majority n Q" and n: "2 \<le> n"
    and e: "entryAt (nodes (sv_cl x) i) (lastLogIndex (nodes (sv_cl x) i)) = Some \<lparr>le_Command = Some op, le_Term = currentTerm (nodes (sv_cl x) i)\<rparr>"
    and la: "lastApplied (nodes (sv_cl x) i) < lastLogIndex (nodes (sv_cl x) i)"
    and ch: "pendingOps (rsm (sv_rep x i)) (lastLogIndex (nodes (sv_cl x) i)) = Some ch"
  shows "\<exists>y log v. (sv_among DoOp RestoreSM n Q)\<^sup>*\<^sup>* x y \<and> sv_inv DoOp SnapshotSM view t n log y \<and> owner (sv_rep y i) = owner (sv_rep x i)
     \<and> lastLogIndex (nodes (sv_cl x) i) \<le> int (length log) \<and> log ! nat (lastLogIndex (nodes (sv_cl x) i) - 1) = op
     \<and> Submit_poll (rsm (sv_rep y i)) (nodes (sv_cl y) i) ch (op_Id op) (op_Term op) = Some (OK, Some v)"
proof -
  let ?idx = "lastLogIndex (nodes (sv_cl x) i)"
  have Q: "Q \<subseteq> in_cluster n" "i \<in> Q" "0 \<le> i" "i < n" using ld by (auto simp: leading_def)
  obtain s where s: "(among n Q)\<^sup>*\<^sup>* (sv_cl x) s" "leading n Q i s" "same_leader i (sv_cl x) s" "commitIndex (nodes s i) = lastLogIndex (nodes s i)"
    "entryAt (nodes s i) (lastLogIndex (nodes s i)) = Some \<lparr>le_Command = Some op, le_Term = currentTerm (nodes s i)\<rparr>"
    using leading_commits_last [OF ld maj n e] .
  from amongs_lift [OF s(1) sv Q(1)] obtain x1 where
    x1: "(sv_among DoOp RestoreSM n Q)\<^sup>*\<^sup>* x x1" "sv_cl x1 = s" "sv_rep x1 = sv_rep x" by blast
  note S1 = amongs_serving [OF x1(1) sv Q(1)]
  have L: "raft_wf (nodes s i)" "lastLogIndex (nodes s i) = ?idx" "lastApplied (nodes s i) < ?idx" "\<not> killed (nodes s i)"
    using elect_inv_peer(1) [OF servingD(1) [OF S1] Q(3,4)] x1(2) same_leader_last [OF s(3)] s(2,3) la
    by (simp_all add: same_leader_def leading_def killed_def)
  let ?m = "\<lambda>j. commandMsg (rlog (nodes s i) ! nat (j - lastIncludedIndex (nodes s i))) j :: ('b Op, 'd) ApplyMsg"
  let ?ms = "map ?m [lastApplied (nodes s i) + 1 .. ?idx - 1]"
  let ?rf = "(nodes s i)\<lparr>lastApplied := ?idx\<rparr>"
  have it: "applierLoop_iter (nodes s i) = Some (?rf, ?ms @ [?m ?idx])"
    using applier_collect_eq [OF L(1)] s(4) L(2,3,4) upto_rec2 [of "lastApplied (nodes s i) + 1" ?idx]
    by (simp add: applierLoop_iter_def max_def)
  have m: "CommandValid (?m ?idx)" "am_Command (?m ?idx) = Some op" "CommandIndex (?m ?idx) = ?idx"
    using s(5) L(2) by (auto simp: commandMsg_def entryAt_def go_nth_def getRelativeIndex_def split: if_splits)
  let ?x2 = "x1\<lparr>sv_cl := move i ?rf s, sv_queue := (sv_queue x1)(i := sv_queue x1 i @ ?ms @ [?m ?idx])\<rparr>"
  have st2: "sv_among DoOp RestoreSM n Q x1 ?x2" using sa_apply [OF Q(2), of x1 ?rf "?ms @ [?m ?idx]"] it x1(2) by simp
  from servingD(4) [OF serving_among [OF st2 S1 Q(1)]] obtain log where I2: "sv_inv DoOp SnapshotSM view t n log ?x2" by blast
  from sv_invD(3) [OF I2 Q(3,4)] obtain a where
    "queue_ok DoOp SnapshotSM t log (applied (sv_rep ?x2 i)) ((sv_queue x1 i @ ?ms) @ [?m ?idx]) a" by (auto simp: peer_ok_def)
  then obtain b where b: "queue_ok DoOp SnapshotSM t log (applied (sv_rep ?x2 i)) (sv_queue x1 i @ ?ms) b"
    "next_msg DoOp SnapshotSM t log b (?m ?idx) a" unfolding queue_ok_snoc by blast
  from b(2) m have op: "b < length log" "log ! b = op" "?idx = int b + 1" by (auto simp: next_msg.simps)
  from reader_drains [OF I2 Q(2,1) _ b(1), of "[?m ?idx]"] obtain x3 where
    x3: "(sv_among DoOp RestoreSM n Q)\<^sup>*\<^sup>* ?x2 x3" "sv_inv DoOp SnapshotSM view t n log x3" "sv_queue x3 i = [?m ?idx]"
    "owner (sv_rep x3 i) = owner (sv_rep x i)" "pendingOps (rsm (sv_rep x3 i)) ?idx = pendingOps (rsm (sv_rep x i)) ?idx"
    using x1(3) op(3) by auto
  from reader_answers [OF x3(2) Q(2,1) x3(3) b(2) m(1), of ch "nodes (sv_cl x3) i"] x3(5) ch m(3) op(2) obtain y v where
    y: "sv_among DoOp RestoreSM n Q x3 y" "sv_inv DoOp SnapshotSM view t n log y" "sv_cl y = sv_cl x3" "owner (sv_rep y i) = owner (sv_rep x i)"
    "Submit_poll (rsm (sv_rep y i)) (nodes (sv_cl x3) i) ch (op_Id op) (op_Term op) = Some (OK, Some v)" using x3(4) by auto
  from x1(1) st2 x3(1) y(1) have "(sv_among DoOp RestoreSM n Q)\<^sup>*\<^sup>* x y"
    by (meson converse_rtranclp_into_rtranclp rtranclp.rtrancl_into_rtrancl rtranclp_trans)
  with y op show ?thesis by (intro exI [of _ y] exI [of _ log] exI [of _ v]) simp
qed

text \<open>A \<open>Submit\<close> on a leader appends its operation at the end of the log and waits there.\<close>

lemma leader_submits:
  assumes sv: "serving DoOp SnapshotSM view t n x" and ld: "leading n Q i (sv_cl x)"
  obtains y ch op where "Submit_begin i nrand req x = Some (y, ch, op_Term op)" "op_Id op = nrand" "op_Command op = req"
    "serving DoOp SnapshotSM view t n y" "leading n Q i (sv_cl y)"
    "entryAt (nodes (sv_cl y) i) (lastLogIndex (nodes (sv_cl y) i)) = Some \<lparr>le_Command = Some op, le_Term = currentTerm (nodes (sv_cl y) i)\<rparr>"
    "lastApplied (nodes (sv_cl y) i) < lastLogIndex (nodes (sv_cl y) i)"
    "pendingOps (rsm (sv_rep y i)) (lastLogIndex (nodes (sv_cl y) i)) = Some ch" "owner (sv_rep y i) ch = lastLogIndex (nodes (sv_cl y) i)"
proof -
  let ?L = "nodes (sv_cl x) i"
  have Q: "Q \<subseteq> in_cluster n" "i \<in> Q" "0 \<le> i" "i < n" "role ?L = Leader" using ld by (auto simp: leading_def)
  define op where "op = \<lparr>op_Id = nrand, op_Term = currentTerm ?L, op_Command = req\<rparr>"
  obtain rf where rf: "Start ?L op = (rf, lastLogIndex rf, currentTerm rf, True)" "cl_step n (sv_cl x) (move i rf (sv_cl x))"
    "leading n Q i (move i rf (sv_cl x))" "entryAt rf (lastLogIndex rf) = Some \<lparr>le_Command = Some op, le_Term = currentTerm rf\<rparr>"
    "currentTerm rf = currentTerm ?L" "apply_view rf = apply_view ?L" "lastLogIndex rf = lastLogIndex ?L + 1"
    using leading_start [OF ld, of op] .
  obtain r ch where r: "Submit_register (rsm (sv_rep x i)) (lastLogIndex rf) = (r, ch)" by (cases "Submit_register (rsm (sv_rep x i)) (lastLogIndex rf)")
  define x1 where "x1 = x\<lparr>sv_cl := move i rf (sv_cl x)\<rparr>"
  define y where "y = x1\<lparr>sv_rep := (sv_rep x1)(i := (sv_rep x1 i)\<lparr>rsm := r, owner := (owner (sv_rep x1 i))(ch := lastLogIndex rf)\<rparr>)\<rparr>"
  have "sv_step DoOp SnapshotSM RestoreSM (\<lambda>_. t) (\<lambda>_. 0) n x x1" unfolding x1_def by (rule sv_raft) (use rf(2,6) in \<open>simp add: quiet_def\<close>)
  from serving_step [OF this _ sv] have s1: "serving DoOp SnapshotSM view t n x1" using rf(2) by (simp add: x1_def)
  have "sv_step DoOp SnapshotSM RestoreSM (\<lambda>_. t) (\<lambda>_. 0) n x1 y" unfolding y_def by (rule sv_register [OF Q(3,4)]) (simp add: x1_def r)
  from serving_step [OF this _ s1] have sy: "serving DoOp SnapshotSM view t n y" by (simp add: y_def)
  have begin_eq: "Submit_begin i nrand req x = Some (y, ch, op_Term op)"
    using rf(1,5) r Q(5)
    by (simp add: Submit_begin_def Submit_op_def Submit_start_def GetState_def op_def y_def x1_def)
  from sv obtain A where "sound n A (sv_cl x)" by (auto simp: serving_def)
  then have P: "peer_sim n A i ?L" "raft_wf ?L" using Q(3,4) cluster_simD(3) elect_inv_peer(1) by (auto simp: sound_def)
  then have "lastApplied ?L \<le> lastLogIndex ?L"
    using peer_simD(4) [OF P(1)] committed_length [OF peer_simD(3) [OF P(1)]] log_sim_last [OF peer_simD(2) [OF P(1)] P(2)] by simp
  then have la: "lastApplied rf < lastLogIndex rf" using rf(6,7) by (simp add: apply_view_def)
  have sel: "nodes (sv_cl y) i = rf" "sv_cl y = move i rf (sv_cl x)" "rsm (sv_rep y i) = r" "owner (sv_rep y i) ch = lastLogIndex rf"
    by (simp_all add: y_def x1_def)
  have "pendingOps r (lastLogIndex rf) = Some ch" using r by (auto simp: Submit_register_def Let_def)
  then show thesis by (intro that [OF begin_eq _ _ sy]) (use rf la sel in \<open>simp_all add: op_def\<close>)
qed

lemma majority_serves:
  assumes sv: "serving DoOp SnapshotSM view t n x" and maj: "majority n Q" and n: "2 \<le> n" and up: "\<forall>q \<in> Q. \<not> dead (nodes (sv_cl x) q)"
  shows "\<exists>x1 x2 y i ch startTerm v log k. (sv_among DoOp RestoreSM n Q)\<^sup>*\<^sup>* x x1 \<and> i \<in> Q \<and> Submit_begin i nrand req x1 = Some (x2, ch, startTerm)
     \<and> (sv_among DoOp RestoreSM n Q)\<^sup>*\<^sup>* x2 y \<and> Submit_poll (rsm (sv_rep y i)) (nodes (sv_cl y) i) ch nrand startTerm = Some (OK, Some v)
     \<and> sv_inv DoOp SnapshotSM view t n log y \<and> k < length log \<and> op_Command (log ! k) = req \<and> owner (sv_rep y i) ch = int k + 1"
proof -
  have Q: "Q \<subseteq> in_cluster n" using maj by (auto simp: majority_def)
  obtain s i where s: "(among n Q)\<^sup>*\<^sup>* (sv_cl x) s" "leading n Q i s" using majority_elects [OF servingD(3) [OF sv] maj n up] .
  from amongs_lift [OF s(1) sv Q] obtain x1 where x1: "(sv_among DoOp RestoreSM n Q)\<^sup>*\<^sup>* x x1" "sv_cl x1 = s" by blast
  obtain x2 ch op where x2: "Submit_begin i nrand req x1 = Some (x2, ch, op_Term op)" "op_Id op = nrand" "op_Command op = req"
    and W: "serving DoOp SnapshotSM view t n x2" "leading n Q i (sv_cl x2)"
    "entryAt (nodes (sv_cl x2) i) (lastLogIndex (nodes (sv_cl x2) i)) = Some \<lparr>le_Command = Some op, le_Term = currentTerm (nodes (sv_cl x2) i)\<rparr>"
    "lastApplied (nodes (sv_cl x2) i) < lastLogIndex (nodes (sv_cl x2) i)"
    "pendingOps (rsm (sv_rep x2 i)) (lastLogIndex (nodes (sv_cl x2) i)) = Some ch" and own: "owner (sv_rep x2 i) ch = lastLogIndex (nodes (sv_cl x2) i)"
    using leader_submits [OF amongs_serving [OF x1(1) sv Q] s(2) [folded x1(2)], of nrand req] .
  let ?idx = "lastLogIndex (nodes (sv_cl x2) i)"
  from leader_answers [OF W(1,2) maj n W(3-5)] obtain y log v where
    y: "(sv_among DoOp RestoreSM n Q)\<^sup>*\<^sup>* x2 y" "sv_inv DoOp SnapshotSM view t n log y" "owner (sv_rep y i) = owner (sv_rep x2 i)"
    "?idx \<le> int (length log)" "log ! nat (?idx - 1) = op"
    "Submit_poll (rsm (sv_rep y i)) (nodes (sv_cl y) i) ch (op_Id op) (op_Term op) = Some (OK, Some v)" by blast
  have "i \<in> Q" using s(2) by (simp add: leading_def)
  have "0 \<le> lastApplied (nodes (sv_cl x2) i)"
    using elect_inv_peer(1) [OF servingD(1) [OF W(1)], of i] W(2) by (auto simp: leading_def raft_wf_def)
  with W(4) have "0 < ?idx" by simp
  with y own x1(1) x2 \<open>i \<in> Q\<close> show ?thesis
    by (intro exI [of _ x1] exI [of _ x2] exI [of _ y] exI [of _ i] exI [of _ ch] exI [of _ "op_Term op"] exI [of _ v] exI [of _ log]
        exI [of _ "nat (?idx - 1)"]) (auto simp: nat_less_iff)
qed

end

end
