(* ===== verification/KvProgress.thy ===== *)
theory KvProgress
  imports KvService RsmProgress
begin

text \<open>
  Progress of the replicated key/value service, \<^verbatim>\<open>kvraft1/server.go\<close> on \<^verbatim>\<open>kvraft1/rsm/rsm.go\<close> on \<^verbatim>\<open>raft1/raft.go\<close>: it answers clients as long
  as a majority of its servers runs.
\<close>

interpretation kvtm: total_machine KVServer_DoOp KVServer_Snapshot KVServer_Restore kv_store
proof
  fix s q
  show "KVServer_DoOp s q \<noteq> None" using DoOp_serve [of s q] by auto
qed

abbreviation kv_among :: "int \<Rightarrow> int set \<Rightarrow> kv_service \<Rightarrow> kv_service \<Rightarrow> bool" where
  "kv_among \<equiv> sv_among KVServer_DoOp KVServer_Restore"

text \<open>The single-node server's answer to a request, after the requests of a log.\<close>

definition kv_reply :: "kv_req Op list \<Rightarrow> kv_req \<Rightarrow> kv_res" where
  "kv_reply log req = snd (serve_req (fst (serve_all MakeKVServer (map op_Command log))) req)"

lemma serving_answers:
  assumes sv: "serving KVServer_DoOp KVServer_Snapshot kv_store (KVRaft0 0) n x" and maj: "majority n Q" and n: "2 \<le> n" and up: "\<forall>q \<in> Q. \<not> dead (nodes (sv_cl x) q)"
  shows "\<exists>x1 x2 y i ch startTerm v log k. (kv_among n Q)\<^sup>*\<^sup>* x x1 \<and> i \<in> Q \<and> Submit_begin i nrand req x1 = Some (x2, ch, startTerm)
     \<and> (kv_among n Q)\<^sup>*\<^sup>* x2 y \<and> Submit_poll (rsm (sv_rep y i)) (nodes (sv_cl y) i) ch nrand startTerm = Some (OK, Some v)
     \<and> kv_serves n log y \<and> k < length log \<and> op_Command (log ! k) = req \<and> v = kv_reply (take k log) req"
proof -
  from kvtm.majority_serves [OF sv maj n up] obtain x1 x2 y i ch startTerm v log k where
    y: "(kv_among n Q)\<^sup>*\<^sup>* x x1" "i \<in> Q" "Submit_begin i nrand req x1 = Some (x2, ch, startTerm)" "(kv_among n Q)\<^sup>*\<^sup>* x2 y"
      "Submit_poll (rsm (sv_rep y i)) (nodes (sv_cl y) i) ch nrand startTerm = Some (OK, Some v)" "kv_inv n log y" "k < length log"
      "op_Command (log ! k) = req" "owner (sv_rep y i) ch = int k + 1" by blast
  have "i \<in> in_cluster n" using y(2) maj by (auto simp: majority_def)
  then have i: "0 \<le> i" "i < n" by simp_all
  from kv_inv_answers [OF y(6)] i y(5) obtain k' where "owner (sv_rep y i) ch = int k' + 1"
    "v = snd (serve_req (fst (serve_all MakeKVServer (map op_Command (take k' log)))) (op_Command (log ! k')))"
    unfolding kv_answers_def by blast
  with y(8,9) have "v = kv_reply (take k log) req" by (simp add: kv_reply_def)
  with y kv_inv_serves [OF y(6)] show ?thesis by blast
qed

lemma kv_run_serving: "kv_run len n (kv_init maxraft n now) x \<Longrightarrow> serving KVServer_DoOp KVServer_Snapshot kv_store (KVRaft0 0) n x"
  by (erule kvtm.total_run_serving) (simp add: KVRaft0_def)



end
