(* ===== verification/KvHistoryProgress.thy ===== *)
theory KvHistoryProgress
  imports KvHistoryRaft KvProgress
begin

text \<open>
  Progress of the clerks of the replicated key/value service: the loops of \<open>Get\<close> and \<open>Put\<close> in \<^verbatim>\<open>kvraft1/client.go\<close> come to an end as long as a majority of the
  servers runs.  The clerk goes from server to server; when it is at the leader, the handler submits the operation, the group executes it and the answer goes back.
\<close>

section \<open>A group of servers starts nothing by itself\<close>

lemma among_occ:
  assumes st: "among n Q s s'" and inv: "elect_inv n s" and Q: "Q \<subseteq> in_cluster n"
  shows "occ n s' \<subseteq> occ n s"
proof -
  have in_Q: "0 \<le> p" "p < n" "raft_wf (nodes s p)" "node_occ (nodes s p) \<subseteq> occ n s" if "p \<in> Q" for p
    using subsetD [OF Q that] elect_inv_peer(1) [OF inv, of p] node_occ_in [of p n s] by simp_all
  note moved = occ_moved [of _ n s s'] and same = occ_same [of s _ _ s' n]
  from st show ?thesis
  proof (cases rule: among.cases)
    case (am_elect i now rnd rf args)
    with same_log_ticker [OF am_elect(4)] in_Q show ?thesis by (intro same [of i rf]) (auto simp: set_votes_def open_calls_def)
  next
    case (am_vote p i t args now rf reply)
    with same_log_RequestVote [OF am_vote(5)] in_Q show ?thesis by (intro same [of p rf]) (auto simp: set_call_def)
  next
    case (am_vote_reply i p t reply now rf v)
    with same_log_voteReply [OF am_vote_reply(5)] in_Q show ?thesis by (intro same [of i rf]) (auto simp: set_call_def set_votes_def)
  next
    case (am_send i p t args)
    with occ_send [OF am_send(5) in_Q(3) [OF am_send(2)]] in_Q(4) [OF am_send(2)] show ?thesis by (intro occ_sent [of args n s _ p]) auto
  next
    case (am_send_snap i p t sargs)
    then show ?thesis using occ_frame [of s' s n] by simp
  next
    case (am_append p args now rf reply)
    with occ_AppendEntries [OF am_append(5) in_Q(3) [OF am_append(2)]] in_Q(4) [OF am_append(2)] args_occ_in [OF am_append(3), of n]
    show ?thesis by (intro moved [of rf p]) auto
  next
    case (am_append_reply i p args reply rf)
    with same_log_appendReply [OF am_append_reply(6) in_Q(3)] in_Q show ?thesis by (intro same [of i rf]) auto
  next
    case (am_snap p sargs now rf reply msg)
    with occ_InstallSnapshot [OF am_snap(5) in_Q(3) [OF am_snap(2)]] in_Q(4) [OF am_snap(2)] show ?thesis by (intro moved [of rf p]) auto
  next
    case (am_snap_reply i p sargs reply rf)
    with same_log_snapReply [OF am_snap_reply(6)] in_Q show ?thesis by (intro same [of i rf]) auto
  qed
qed

lemma sv_among_occ:
  assumes st: "sv_among dop restore n Q x y" and inv: "elect_inv n (sv_cl x)" and Q: "Q \<subseteq> in_cluster n"
  shows "occ n (sv_cl y) \<subseteq> occ n (sv_cl x)"
  using st
proof (cases rule: sv_among.cases)
  case (sa_raft s)
  with among_occ [OF sa_raft(2) inv Q] show ?thesis by simp
next
  case (sa_apply p rf msgs)
  with applierLoop_frame [OF sa_apply(3)] Q show ?thesis by (intro occ_same [of _ p rf]) (auto simp: same_log_def)
next
  case (sa_install p sargs now rf reply m)
  have p: "0 \<le> p" "p < n" using sa_install(2) Q by auto
  from occ_InstallSnapshot [OF sa_install(5) elect_inv_peer(1) [OF inv p]] node_occ_in [OF p, of "sv_cl x"] sa_install(1)
  show ?thesis by (intro occ_moved [of rf _ _ _ p]) auto
qed simp

section \<open>Runs of a group\<close>

text \<open>Steps of the servers of \<open>Q\<close> only: those of the service, none of which is a crash, and those of the handlers on servers of \<open>Q\<close>.\<close>

definition rs_within :: "(kv_req Op LogEntry list gob list \<Rightarrow> int) \<Rightarrow> int \<Rightarrow> int set \<Rightarrow> kv_service kv_system \<Rightarrow> kv_service kv_system \<Rightarrow> bool" where
  "rs_within len n Q s s' \<longleftrightarrow> rs_step len n s s' \<and>
     (kv_among n Q (ks_sv s) (ks_sv s') \<and> s' = s\<lparr>ks_sv := ks_sv s'\<rparr>
      \<or> (\<exists>j h. j < length (ks_handlers s) \<and> h_server (ks_handlers s ! j) \<in> Q \<and> h \<noteq> ks_handlers s ! j \<and> ks_handlers s' = (ks_handlers s)[j := h]))"

lemma within_handler:
  "rs_step len n s s' \<Longrightarrow> j < length (ks_handlers s) \<Longrightarrow> h_server (ks_handlers s ! j) \<in> Q \<Longrightarrow> h \<noteq> ks_handlers s ! j \<Longrightarrow>
    ks_handlers s' = (ks_handlers s)[j := h] \<Longrightarrow> rs_within len n Q s s'"
  unfolding rs_within_def by blast

lemma within_run: "ks_run (rs_within len n Q) n s s' \<Longrightarrow> ks_run (rs_step len n) n s s'"
  by (induction rule: ks_run.induct) (auto simp: rs_within_def intro: ks_refl ks_client ks_server)

text \<open>What the clerks and handlers do to the service is a run of the service.\<close>

lemma ks_run_service:
  assumes "ks_run (rs_step len n) n s0 s" "s0 = ks_init (kv_init maxraft n now) t"
  shows "kv_run len n (kv_init maxraft n now) (ks_sv s)"
  using assms
proof (induction rule: ks_run.induct)
  case (ks_refl s)
  then show ?case by (simp add: ks_init_def sv_refl)
next
  case (ks_client s s' s'')
  have "ks_sv s'' = ks_sv s'" using ks_client.hyps(2) by (cases rule: ck_step.cases) simp_all
  with ks_client show ?case by simp
next
  case (ks_server s s' s'')
  from raft_kv.run_inv [OF ks_server.hyps(1) ks_server.prems raft_holds_init] obtain log where "kv_inv n log (ks_sv s')" by (auto dest: raft_holdsD(1))
  from rs_step_service [OF ks_server.hyps(2) this] ks_server.IH [OF ks_server.prems] show ?case by (auto intro: sv_trans)
qed

abbreviation kv_serving :: "int \<Rightarrow> kv_service \<Rightarrow> bool" where
  "kv_serving \<equiv> serving KVServer_DoOp KVServer_Snapshot kv_store (KVRaft0 0)"

lemma among_run:
  assumes "(kv_among n Q)\<^sup>*\<^sup>* (ks_sv s) y" "kv_serving n (ks_sv s)" "Q \<subseteq> in_cluster n"
  shows "ks_run (rs_within len n Q) n s (s\<lparr>ks_sv := y\<rparr>)"
  using assms(1)
proof (induction rule: rtranclp_induct)
  case base
  then show ?case using ks_refl [of _ n s] by simp
next
  case (step x y)
  note S = servingD(1) [OF kvtm.total_amongs_serving [OF step.hyps(1) assms(2,3)]]
  have "rs_step len n (s\<lparr>ks_sv := x\<rparr>) (s\<lparr>ks_sv := y\<rparr>)"
    using rs_service [of len n "s\<lparr>ks_sv := x\<rparr>" y] sv_among_step(1) [OF step.hyps(2) S assms(3)] sv_among_occ [OF step.hyps(2) S assms(3)] by simp
  then have "rs_within len n Q (s\<lparr>ks_sv := x\<rparr>) (s\<lparr>ks_sv := y\<rparr>)" using step.hyps(2) by (simp add: rs_within_def)
  then show ?case by (rule ks_server [OF step.IH])
qed

section \<open>The clerk goes to the leader\<close>

text \<open>A clerk calls one of the servers.\<close>

definition clerk_range :: "int \<Rightarrow> kv_clerk \<Rightarrow> bool" where
  "clerk_range n ck \<longleftrightarrow> 0 \<le> kc_leader ck \<and> kc_leader ck < n
     \<and> (case kc_state ck of Calling i p first \<Rightarrow> 0 \<le> p \<and> p < n | Waiting i p first j \<Rightarrow> 0 \<le> p \<and> p < n | _ \<Rightarrow> True)"

lemma clerk_range_run:
  assumes "ks_run (rs_step len n) n s0 s" "s0 = ks_init x t" "0 < n" shows "clerk_range n (ks_clerks s c)"
  using assms
proof (induction arbitrary: c rule: ks_run.induct)
  case (ks_refl s)
  then show ?case by (simp add: ks_init_def clerk_range_def)
next
  case (ks_client s s' s'')
  then have "clerk_range n (ks_clerks s' d)" for d by blast
  note R = this [unfolded clerk_range_def]
  from ks_client.hyps(2) show ?case
  proof (cases rule: ck_step.cases)
    case (ck_fail c' i p first j)
    then show ?thesis using R [of c] R [of c'] ks_client.prems(2) by (auto simp: clerk_range_def)
  next
    case (ck_wrong c' i p first j res r)
    then show ?thesis using R [of c] R [of c'] ks_client.prems(2) by (auto simp: clerk_range_def)
  next
    case (ck_send c' i p first)
    then show ?thesis using R [of c] R [of c'] by (auto simp: clerk_range_def)
  next
    case (ck_return c' i p first j res r io)
    then show ?thesis using R [of c] R [of c'] by (auto simp: clerk_range_def)
  qed (use R [of c] in \<open>auto simp: clerk_range_def\<close>)
next
  case (ks_server s s' s'')
  then show ?case using raft_kv.srv_clients [OF ks_server.hyps(2)] by simp
qed

lemma ids_new [simp]: "ids_of (hs @ [new_handler i p]) = ids_of hs"
proof -
  have "h_op (new_handler i p) = None" by (simp add: new_handler_def)
  then show ?thesis unfolding ids_of_def by (auto dest: sym)
qed

lemma finite_ids: "finite (ids_of hs)"
proof -
  have "ids_of hs \<subseteq> (\<lambda>h. op_Id (the (h_op h))) ` set hs" unfolding ids_of_def by force
  then show ?thesis by (rule finite_subset) simp
qed

text \<open>Calls that fail take the clerk from one server to the next, and so to any server.\<close>

lemma clerk_turns:
  assumes "kc_state (ks_clerks s c) = Calling i p first" "0 \<le> p" "p < n"
  shows "\<exists>s' first. ks_run srv n s s' \<and> kc_state (ks_clerks s' c) = Calling i ((p + int k) mod n) first
     \<and> ks_sv s' = ks_sv s \<and> ks_ops s' = ks_ops s \<and> ids_of (ks_handlers s') = ids_of (ks_handlers s)"
proof (induction k)
  case 0
  then show ?case using assms by (intro exI [of _ s] exI [of _ first]) (simp add: ks_refl)
next
  case (Suc k)
  then obtain s1 first where s1: "ks_run srv n s s1" "kc_state (ks_clerks s1 c) = Calling i ((p + int k) mod n) first"
    "ks_sv s1 = ks_sv s" "ks_ops s1 = ks_ops s" "ids_of (ks_handlers s1) = ids_of (ks_handlers s)" by blast
  let ?p = "(p + int k) mod n" and ?j = "length (ks_handlers s1)"
  define s2 where "s2 = (set_clerk c (Waiting i ?p first ?j) s1)\<lparr>ks_handlers := ks_handlers s1 @ [new_handler i ?p]\<rparr>"
  define s3 where "s3 = set_clerk c (Calling i ((?p + 1) mod n) False) s2"
  have "ck_step n s1 s2" unfolding s2_def by (rule ck_send [OF s1(2)])
  moreover have "ck_step n s2 s3" unfolding s3_def by (rule ck_fail [of _ _ _ _ first ?j]) (simp add: s2_def)
  ultimately have "ks_run srv n s s3" using s1(1) by (meson ks_client)
  moreover have "(?p + 1) mod n = (p + int (Suc k)) mod n" by (simp add: mod_add_left_eq) (simp add: ac_simps)
  then have "kc_state (ks_clerks s3 c) = Calling i ((p + int (Suc k)) mod n) False" by (simp add: s3_def)
  ultimately show ?case using s1(3-5) by (intro exI [of _ s3] exI [of _ False]) (simp add: s3_def s2_def)
qed

lemma clerk_reaches:
  assumes "kc_state (ks_clerks s c) = Calling i p first" "0 \<le> p" "p < n" "0 \<le> q" "q < n"
  shows "\<exists>s' first. ks_run srv n s s' \<and> kc_state (ks_clerks s' c) = Calling i q first
     \<and> ks_sv s' = ks_sv s \<and> ks_ops s' = ks_ops s \<and> ids_of (ks_handlers s') = ids_of (ks_handlers s)"
proof -
  have "(p + int (nat ((q - p) mod n))) mod n = q" using assms(2-5) by (simp add: mod_add_right_eq)
  with clerk_turns [OF assms(1-3), of srv "nat ((q - p) mod n)"] show ?thesis by simp
qed

section \<open>The handler submits\<close>

text \<open>The handler of a new request calls \<open>Submit\<close> up to the waiting loop.\<close>

lemma handler_submits:
  assumes j: "j < length (ks_handlers s)" "ks_handlers s ! j = new_handler i q" and q: "0 \<le> q" "q < n" "q \<in> Q" and new: "nrand \<notin> ids_of (ks_handlers s)"
    and sub: "Submit_begin q nrand (kv_cmd (co_req (ks_ops s ! i))) (ks_sv s) = Some (y, ch, startTerm)"
  obtains op index where "op_Id op = nrand" "ks_run (rs_within len n Q) n s (set_handler j
    \<lparr>h_opno = i, h_server = q, h_op = Some op, h_start = Some (index, startTerm), h_chan = Some ch, h_reply = None\<rparr> (s\<lparr>ks_sv := y\<rparr>))"
proof -
  let ?x = "ks_sv s" and ?h0 = "new_handler i q"
  obtain op rf index r where op: "Submit_op (nodes (sv_cl ?x) q) nrand (kv_cmd (co_req (ks_ops s ! i))) = Inr op"
    and st: "Submit_start (nodes (sv_cl ?x) q) op = (rf, Inr (index, startTerm))" and r: "Submit_register (rsm (sv_rep ?x q)) index = (r, ch)"
    and y: "y = ?x\<lparr>sv_cl := move q rf (sv_cl ?x), sv_rep := (sv_rep ?x)(q := (sv_rep ?x q)\<lparr>rsm := r, owner := (owner (sv_rep ?x q))(ch := index)\<rparr>)\<rparr>"
    using sub unfolding Submit_begin_def by (auto split: sum.splits prod.splits)
  have h0: "h_opno ?h0 = i" "h_server ?h0 = q" "h_op ?h0 = None" "h_start ?h0 = None" "h_chan ?h0 = None" "h_reply ?h0 = None" by (simp_all add: new_handler_def)
  define h1 where "h1 = ?h0\<lparr>h_op := Some op\<rparr>"
  define h2 where "h2 = h1\<lparr>h_start := Some (index, startTerm)\<rparr>"
  define h3 where "h3 = h2\<lparr>h_chan := Some ch\<rparr>"
  define s1 where "s1 = set_handler j h1 s"
  define s2 where "s2 = set_handler j h2 (s1\<lparr>ks_sv := (ks_sv s1)\<lparr>sv_cl := move q rf (sv_cl (ks_sv s1))\<rparr>\<rparr>)"
  define s3 where "s3 = set_handler j h3 (s2\<lparr>ks_sv := (ks_sv s2)\<lparr>sv_rep := (sv_rep (ks_sv s2))
      (q := (sv_rep (ks_sv s2) q)\<lparr>rsm := r, owner := (owner (sv_rep (ks_sv s2) q))(ch := index)\<rparr>)\<rparr>\<rparr>)"
  have h1: "h_opno h1 = i" "h_server h1 = q" "h_op h1 = Some op" "h_start h1 = None" "h_chan h1 = None" "h_reply h1 = None" by (simp_all add: h1_def h0)
  have h2: "h_opno h2 = i" "h_server h2 = q" "h_op h2 = Some op" "h_start h2 = Some (index, startTerm)" "h_chan h2 = None" "h_reply h2 = None"
    by (simp_all add: h2_def h1)
  have h3: "h3 = \<lparr>h_opno = i, h_server = q, h_op = Some op, h_start = Some (index, startTerm), h_chan = Some ch, h_reply = None\<rparr>"
    by (simp add: h3_def h2_def h1_def new_handler_def)
  have sel1: "ks_sv s1 = ?x" "ks_handlers s1 = (ks_handlers s)[j := h1]" "ks_ops s1 = ks_ops s" by (simp_all add: s1_def)
  have sel2: "ks_sv s2 = ?x\<lparr>sv_cl := move q rf (sv_cl ?x)\<rparr>" "ks_handlers s2 = (ks_handlers s)[j := h2]" by (simp_all add: s2_def s1_def)
  have "rs_step len n s s1" unfolding s1_def h1_def by (rule rs_deliver [OF j(1) j(2) [symmetric], of n nrand]) (use h0 q op new in simp_all)
  then have w1: "rs_within len n Q s s1" by (rule within_handler [of _ _ _ _ j _ h1]) (use j q(3) h0 h1(3) sel1 in auto)
  have "rs_step len n s1 s2" unfolding s2_def h2_def
    by (rule rs_start [of j s1 h1 op n rf index startTerm len, unfolded h1(2)]) (use j(1) h1 q st sel1 in simp_all)
  then have w2: "rs_within len n Q s1 s2" by (rule within_handler [of _ _ _ _ j _ h2]) (use j(1) q(3) h1 h2(4) sel1 sel2 in auto)
  have "rs_step len n s2 s3" unfolding s3_def h3_def
    by (rule rs_register [of j s2 h2 index startTerm q n r ch len]) (use j(1) h2 q r sel2 in simp_all)
  then have w3: "rs_within len n Q s2 s3" by (rule within_handler [of _ _ _ _ j _ h3]) (use j(1) q(3) h2 sel2 in \<open>auto simp: s3_def h3_def dest: arg_cong [of _ _ h_chan]\<close>)
  have "ks_run (rs_within len n Q) n s s3" using ks_server [of "rs_within len n Q"] ks_refl w1 w2 w3 by blast
  moreover have "s3 = set_handler j h3 (s\<lparr>ks_sv := y\<rparr>)" by (simp add: s3_def s2_def s1_def y)
  moreover have "op_Id op = nrand" using op by (auto simp: Submit_op_def GetState_def split: if_splits)
  ultimately show thesis using that h3 by simp
qed

text \<open>The answer of the service is one that the clerk returns with.\<close>

lemma reply_returns:
  "\<exists>r io. handler_reply req (OK, Some (kv_reply L (kv_cmd req))) = Some r \<and> reply_err r \<noteq> ErrWrongLeader \<and> clerk_record first req r = Some io"
proof (cases req)
  case (ReqGet g)
  then show ?thesis by (auto simp: kv_reply_def KVServer_Get_reply_def KVServer_get_def KVServer_Get_def split: option.splits)
next
  case (ReqPut a)
  then show ?thesis
    by (auto simp: kv_reply_def KVServer_Put_reply_def KVServer_put_def KVServer_Put_def Let_def split: option.splits if_splits prod.splits)
qed

lemma clerk_records:
  assumes "kc_state (ks_clerks s c) = Returned i io" "i < length (ks_ops s)"
  shows "\<exists>s' io t. ks_run srv n s s' \<and> co_result (ks_ops s' ! i) = Some (io, t)"
proof -
  let ?c = "(ks_ops s ! i)\<lparr>co_result := Some (io, ks_now s)\<rparr>"
  let ?s = "(set_clerk c Idle s)\<lparr>ks_ops := (ks_ops s)[i := ?c], ks_log := OpLog_Append (ks_log s) (operation ?c)\<rparr>"
  have "ks_run srv n s ?s" by (rule ks_client [OF ks_refl ck_record [OF assms(1) refl]])
  then show ?thesis using assms(2) by (intro exI [of _ ?s] exI [of _ io] exI [of _ "ks_now s"]) simp
qed

text \<open>\<open>Submit\<close> returns, the reply reaches the clerk, and the client records the operation.\<close>

lemma clerk_returns:
  assumes j: "j < length (ks_handlers s)" "ks_handlers s ! j = \<lparr>h_opno = i, h_server = q, h_op = Some op, h_start = Some (index, startTerm), h_chan = Some ch, h_reply = None\<rparr>"
    and q: "0 \<le> q" "q < n" "q \<in> Q" and ck: "kc_state (ks_clerks s c) = Waiting i q first j" and i: "i < length (ks_ops s)"
    and poll: "Submit_poll (rsm (sv_rep (ks_sv s) q)) (nodes (sv_cl (ks_sv s)) q) ch (op_Id op) startTerm = Some (OK, Some (kv_reply L (kv_cmd (co_req (ks_ops s ! i)))))"
  shows "\<exists>s' io t. ks_run (rs_within len n Q) n s s' \<and> co_result (ks_ops s' ! i) = Some (io, t)"
proof -
  let ?req = "co_req (ks_ops s ! i)"
  let ?res = "(OK, Some (kv_reply L (kv_cmd ?req)))"
  let ?h = "ks_handlers s ! j"
  define h where "h = ?h\<lparr>h_reply := Some ?res\<rparr>"
  define s1 where "s1 = set_handler j h (s\<lparr>ks_sv := (ks_sv s)\<lparr>sv_rep := (sv_rep (ks_sv s))(q := (sv_rep (ks_sv s) q)\<lparr>rsm := Submit_return (rsm (sv_rep (ks_sv s) q)) index\<rparr>)\<rparr>\<rparr>)"
  from reply_returns [of ?req L first] obtain r io where r: "handler_reply ?req ?res = Some r" "reply_err r \<noteq> ErrWrongLeader" "clerk_record first ?req r = Some io" by blast
  have "rs_step len n s s1" unfolding s1_def h_def
    by (rule rs_poll [OF j(1) refl, of op index startTerm ch q n ?res len]) (use j(2) q poll in simp_all)
  then have w: "rs_within len n Q s s1" by (rule within_handler [of _ _ _ _ j _ h]) (use j q(3) in \<open>auto simp: s1_def h_def\<close>)
  have s1: "ks_clerks s1 = ks_clerks s" "ks_ops s1 = ks_ops s" "h_reply (ks_handlers s1 ! j) = Some ?res" using j(1) by (simp_all add: s1_def h_def)
  define s2 where "s2 = s1\<lparr>ks_clerks := (ks_clerks s1)(c := \<lparr>kc_leader = q, kc_state = Returned i io\<rparr>)\<rparr>"
  have c2: "ck_step n s1 s2" unfolding s2_def by (rule ck_return [of _ _ i q first j ?res r]) (use ck s1 r in simp_all)
  have st2: "kc_state (ks_clerks s2 c) = Returned i io" "ks_ops s2 = ks_ops s" by (simp_all add: s2_def s1)
  have "ks_run (rs_within len n Q) n s s2" by (rule ks_client [OF ks_server [OF ks_refl] c2]) (rule w)
  moreover from clerk_records [OF st2(1), of "rs_within len n Q" n] i st2(2) have
    "\<exists>s' io t. ks_run (rs_within len n Q) n s2 s' \<and> co_result (ks_ops s' ! i) = Some (io, t)" by simp
  ultimately show ?thesis using ks_run_trans by blast
qed

section \<open>Every operation can finish\<close>

text \<open>An operation that is not finished has a clerk, which is at some server or has an answer.\<close>

lemma clerk_at:
  assumes "ks_run (rs_step len n) n (ks_init x t) s" "0 < n" "clerk_opno (kc_state (ks_clerks s c)) = Some i"
  shows "(\<exists>io. kc_state (ks_clerks s c) = Returned i io)
    \<or> (\<exists>s' p first. ks_run srv n s s' \<and> kc_state (ks_clerks s' c) = Calling i p first \<and> 0 \<le> p \<and> p < n
         \<and> ks_sv s' = ks_sv s \<and> ks_ops s' = ks_ops s \<and> ids_of (ks_handlers s') = ids_of (ks_handlers s))"
proof (cases "kc_state (ks_clerks s c)")
  case (Calling i' p first)
  then show ?thesis using clerk_range_run [OF assms(1) refl assms(2), of c] assms(3)
    by (intro disjI2 exI [of _ s] exI [of _ p] exI [of _ first]) (simp add: clerk_range_def ks_refl)
next
  case (Waiting i' p first j)
  from ks_client [OF ks_refl ck_fail [OF Waiting]] Waiting assms(2,3) show ?thesis
    by (intro disjI2 exI [of _ "set_clerk c (Calling i ((p + 1) mod n) False) s"] exI [of _ "(p + 1) mod n"] exI [of _ False]) simp
qed (use assms(3) in simp_all)

text \<open>The clerk that is about to call a server: it goes to the leader of the majority, which executes its request.\<close>

lemma calling_finishes:
  assumes run: "ks_run (rs_step len n) n (ks_init (kv_init maxraft n now) now) s" and maj: "majority n Q" and n: "2 \<le> n"
    and up: "\<forall>q \<in> Q. \<not> dead (nodes (sv_cl (ks_sv s)) q)" and ck: "kc_state (ks_clerks s c) = Calling i p first" "0 \<le> p" "p < n" and i: "i < length (ks_ops s)"
  shows "\<exists>s' io t. ks_run (rs_within len n Q) n s s' \<and> co_result (ks_ops s' ! i) = Some (io, t)"
proof -
  let ?req = "co_req (ks_ops s ! i)"
  have Q: "Q \<subseteq> in_cluster n" using maj by (auto simp: majority_def)
  obtain nrand where new: "nrand \<notin> ids_of (ks_handlers s)" using ex_new_if_finite [OF infinite_UNIV_int finite_ids] by blast
  have sv: "kv_serving n (ks_sv s)" by (rule kv_run_serving [OF ks_run_service [OF run refl]])
  from serving_answers [OF sv maj n up, of nrand "kv_cmd ?req"] obtain x1 x2 y q ch startTerm L where
    x: "(kv_among n Q)\<^sup>*\<^sup>* (ks_sv s) x1" "q \<in> Q" "Submit_begin q nrand (kv_cmd ?req) x1 = Some (x2, ch, startTerm)" "(kv_among n Q)\<^sup>*\<^sup>* x2 y"
      "Submit_poll (rsm (sv_rep y q)) (nodes (sv_cl y) q) ch nrand startTerm = Some (OK, Some (kv_reply L (kv_cmd ?req)))" by blast
  have q: "0 \<le> q" "q < n" using x(2) Q by auto
  have "kc_state (ks_clerks (s\<lparr>ks_sv := x1\<rparr>) c) = Calling i p first" using ck(1) by simp
  from clerk_reaches [OF this ck(2,3) q, of "rs_within len n Q"] obtain s3 first where
    s3: "ks_run (rs_within len n Q) n (s\<lparr>ks_sv := x1\<rparr>) s3" "kc_state (ks_clerks s3 c) = Calling i q first" "ks_sv s3 = x1" "ks_ops s3 = ks_ops s"
      "ids_of (ks_handlers s3) = ids_of (ks_handlers s)" by auto
  let ?j = "length (ks_handlers s3)"
  define s4 where "s4 = (set_clerk c (Waiting i q first ?j) s3)\<lparr>ks_handlers := ks_handlers s3 @ [new_handler i q]\<rparr>"
  have "ck_step n s3 s4" unfolding s4_def by (rule ck_send [OF s3(2)])
  note run4 = ks_client [OF ks_run_trans [OF s3(1) among_run [OF x(1) sv Q]] this]
  have s4: "?j < length (ks_handlers s4)" "ks_handlers s4 ! ?j = new_handler i q" "nrand \<notin> ids_of (ks_handlers s4)" "ks_ops s4 = ks_ops s"
    "kc_state (ks_clerks s4 c) = Waiting i q first ?j" "Submit_begin q nrand (kv_cmd (co_req (ks_ops s4 ! i))) (ks_sv s4) = Some (x2, ch, startTerm)"
    using s3 new x(3) by (simp_all add: s4_def)
  obtain op index where op: "op_Id op = nrand" "ks_run (rs_within len n Q) n s4 (set_handler ?j
    \<lparr>h_opno = i, h_server = q, h_op = Some op, h_start = Some (index, startTerm), h_chan = Some ch, h_reply = None\<rparr> (s4\<lparr>ks_sv := x2\<rparr>))"
    using handler_submits [OF s4(1,2) q x(2) s4(3,6), of len] .
  define s5 where "s5 = set_handler ?j \<lparr>h_opno = i, h_server = q, h_op = Some op, h_start = Some (index, startTerm), h_chan = Some ch, h_reply = None\<rparr> (s4\<lparr>ks_sv := x2\<rparr>)"
  note run5 = ks_run_trans [OF op(2) [folded s5_def] run4]
  have sel5: "ks_sv s5 = x2" by (simp add: s5_def)
  have "kv_serving n (ks_sv s5)" by (rule kv_run_serving [OF ks_run_service [OF ks_run_trans [OF within_run [OF run5] run] refl]])
  with among_run [of n Q s5 y len] x(4) Q sel5 have "ks_run (rs_within len n Q) n s5 (s5\<lparr>ks_sv := y\<rparr>)" by simp
  note run6 = ks_run_trans [OF this run5]
  have "\<exists>s' io t. ks_run (rs_within len n Q) n (s5\<lparr>ks_sv := y\<rparr>) s' \<and> co_result (ks_ops s' ! i) = Some (io, t)"
    by (rule clerk_returns [of ?j _ i q op index startTerm ch n Q c first L]) (use s4 q x(2,5) i op(1) in \<open>simp_all add: s5_def\<close>)
  with run6 show ?thesis using ks_run_trans by blast
qed



end
