(* ===== verification/KvHistorySrv.thy ===== *)
theory KvHistorySrv
  imports KvHistory
begin

text \<open>
  The clients of the single-node key/value service: the handlers of \<^verbatim>\<open>kvsrv1/server.go\<close> execute under the server's mutex, one after the other, and the clerk of
  \<^verbatim>\<open>kvsrv1/client.go\<close> repeats a request until it is answered.
\<close>

section \<open>The server\<close>

text \<open>A request that has arrived is executed.  The id only names the execution; it is not part of the program.\<close>

inductive ss_step :: "KVServer kv_system \<Rightarrow> KVServer kv_system \<Rightarrow> bool" where
  ss_execute: "j < length (ks_handlers s) \<Longrightarrow> h = ks_handlers s ! j \<Longrightarrow> h_op h = None \<Longrightarrow> req = kv_cmd (co_req (ks_ops s ! h_opno h)) \<Longrightarrow>
    serve_req (ks_sv s) req = (kv, r) \<Longrightarrow> u \<notin> ids_of (ks_handlers s) \<Longrightarrow>
    ss_step s (set_handler j (h\<lparr>h_op := Some \<lparr>op_Id = u, op_Term = 0, op_Command = req\<rparr>, h_reply := Some (OK, Some r)\<rparr>) (s\<lparr>ks_sv := kv\<rparr>))"

definition srv_holds :: "kv_req Op list \<Rightarrow> KVServer \<Rightarrow> kv_handler list \<Rightarrow> bool" where
  "srv_holds log kv hs \<longleftrightarrow> kv = at_log (map op_Command log) (length log)"

lemma ss_step_holds:
  assumes st: "ss_step s s'" and hold: "srv_holds log (ks_sv s) (ks_handlers s)" and sv: "served log (ks_handlers s) (ks_ops s)"
  shows "\<exists>ext. srv_holds (log @ ext) (ks_sv s') (ks_handlers s') \<and> served (log @ ext) (ks_handlers s') (ks_ops s')"
  using st
proof (cases rule: ss_step.cases)
  case (ss_execute j h req kv r u)
  note D = servedD [OF sv]
  let ?op = "\<lparr>op_Id = u, op_Term = 0, op_Command = req\<rparr>" and ?hs = "ks_handlers s"
  let ?h = "h\<lparr>h_op := Some ?op, h_reply := Some (OK, Some r)\<rparr>" and ?log = "log @ [?op]"
  have now: "at_log (map op_Command ?log) (length log) = ks_sv s" using hold at_log_append [of "length log" "map op_Command log" "[req]"] by (simp add: srv_holds_def)
  have "srv_holds ?log kv hs" for hs
    using at_log_Suc [of "length log" "map op_Command ?log"] now ss_execute(6) by (simp add: srv_holds_def nth_append)
  moreover have "served ?log (?hs[j := ?h]) (ks_ops s)"
    unfolding served_def
  proof (intro conjI ballI)
    have new: "op \<noteq> ?op" if "op \<in> set log" for op using D(2) [OF that] ss_execute(7) by (auto simp: ids_of_def)
    then show "distinct ?log" using D(1) by auto
    have mem: "?h \<in> set (?hs[j := ?h])" using ss_execute(2) by (simp add: set_update_memI)
    show "\<exists>g \<in> set (?hs[j := ?h]). h_op g = Some op" if op: "op \<in> set ?log" for op
    proof (cases "op = ?op")
      case False
      with op have "op \<in> set log" by simp
      from D(2) [OF this] obtain a where a: "a < length ?hs" "h_op (?hs ! a) = Some op" by (metis in_set_conv_nth)
      then have "?hs[j := ?h] ! a = ?hs ! a" using ss_execute(3,4) by (cases "a = j") auto
      then show ?thesis using a by (metis length_list_update nth_mem)
    qed (use mem in \<open>auto intro!: bexI [of _ ?h]\<close>)
    show "ids_differ (?hs[j := ?h])" by (rule ids_differ_set [OF D(3) ss_execute(2)]) (use ss_execute(7) in auto)
    show "handler_ok ?log (ks_ops s) g" if "g \<in> set (?hs[j := ?h])" for g
    proof (cases "g = ?h")
      case True
      have "answer ?log (length log) = r" using now ss_execute(6) by (simp add: answer_def)
      then have "\<exists>k < length ?log. Some ?op = Some (?log ! k) \<and> Some r = Some (answer ?log k)" by (intro exI [of _ "length log"]) simp
      with True ss_execute(2,3,5) D(4) [of h] show ?thesis by (auto simp: handler_ok_def)
    next
      case False
      then have "g \<in> set ?hs" using that set_update_subset_insert [of ?hs j ?h] by blast
      then show ?thesis by (rule handler_ok_more [OF D(4)])
    qed
  qed
  ultimately show ?thesis using ss_execute(1) by (intro exI [of _ "[?op]"]) simp
qed

interpretation srv_kv: kv_provider ss_step srv_holds
proof
  fix s s' :: "KVServer kv_system"
  assume st: "ss_step s s'"
  show "ks_ops s' = ks_ops s \<and> ks_clerks s' = ks_clerks s \<and> ks_log s' = ks_log s \<and> ks_now s' = ks_now s"
    using st by (cases rule: ss_step.cases) simp_all
  show "\<exists>ext. srv_holds (log @ ext) (ks_sv s') (ks_handlers s') \<and> served (log @ ext) (ks_handlers s') (ks_ops s')"
    if "srv_holds log (ks_sv s) (ks_handlers s)" "served log (ks_handlers s) (ks_ops s)" for log by (rule ss_step_holds [OF st that])
  show "tries (ks_handlers s') = tries (ks_handlers s) \<or> (\<exists>j h op. j < length (ks_handlers s) \<and> h_op (ks_handlers s ! j) = None
      \<and> op_Id op \<notin> ids_of (ks_handlers s) \<and> h_opno h = h_opno (ks_handlers s ! j) \<and> h_op h = Some op \<and> ks_handlers s' = (ks_handlers s)[j := h])"
    using st
  proof (cases rule: ss_step.cases)
    case (ss_execute j h req kv r u)
    let ?op = "\<lparr>op_Id = u, op_Term = 0, op_Command = req\<rparr>"
    show ?thesis using ss_execute
      by (intro disjI2 exI [of _ j] exI [of _ "h\<lparr>h_op := Some ?op, h_reply := Some (OK, Some r)\<rparr>"] exI [of _ ?op]) simp
  qed
qed (simp add: srv_holds_def)

section \<open>Linearizability\<close>


text \<open>A put is executed, its reply is lost, the clerk sends it again and the server answers \<open>ErrVersion\<close>: the client records \<open>ErrMaybe\<close>.\<close>

definition lossy_call :: clerk_op where
  "lossy_call = \<lparr>co_client = 0, co_req = KvModel.ReqPut demo_put, co_call = 0, co_result = None\<rparr>"

definition lossy_handler :: "int \<Rightarrow> Err \<Rightarrow> kv_handler" where
  "lossy_handler u e = \<lparr>h_opno = 0, h_server = 0, h_op = Some \<lparr>op_Id = u, op_Term = 0, op_Command = KvRaft.ReqPut demo_put\<rparr>, h_start = None, h_chan = None,
     h_reply = Some (OK, Some (ResPut \<lparr>putr_Err = e\<rparr>))\<rparr>"

definition lossy_operation :: Operation where
  "lossy_operation = \<lparr>op_ClientId = 0, op_Input = fst (record_Put demo_put ErrMaybe), op_Call = 0, op_Output = snd (record_Put demo_put ErrMaybe), op_Return = 5\<rparr>"

lemma lossy_puts:
  obtains kv where "KVServer_put MakeKVServer demo_put = (kv, \<lparr>putr_Err = OK\<rparr>)" "KVServer_put kv demo_put = (kv, \<lparr>putr_Err = ErrVersion\<rparr>)"
  by (simp add: KVServer_defs MakeKVServer_def demo_put_def)

lemma lossy_run:
  "\<exists>kv. ks_run ss_step 1 (ks_init MakeKVServer 0)
    (one_clerk kv Idle [lossy_handler 0 OK, lossy_handler 1 ErrVersion] [lossy_call\<lparr>co_result := Some (record_Put demo_put ErrMaybe, 5)\<rparr>] [lossy_operation] 5)"
proof -
  obtain kv where kv: "KVServer_put MakeKVServer demo_put = (kv, \<lparr>putr_Err = OK\<rparr>)" "KVServer_put kv demo_put = (kv, \<lparr>putr_Err = ErrVersion\<rparr>)" by (rule lossy_puts)
  let ?run = "ks_run ss_step 1 (ks_init MakeKVServer 0)" and ?c = lossy_call and ?h0 = "lossy_handler 0 OK" and ?h1 = "lossy_handler 1 ErrVersion"
  note defs = one_clerk_def new_handler_def lossy_call_def lossy_handler_def
  let ?s1 = "one_clerk MakeKVServer Idle [] [] [] 0" and ?s2 = "one_clerk MakeKVServer (Calling 0 0 True) [] [?c] [] 0"
    and ?s3 = "one_clerk MakeKVServer (Waiting 0 0 True 0) [new_handler 0 0] [?c] [] 0" and ?s4 = "one_clerk kv (Waiting 0 0 True 0) [?h0] [?c] [] 0"
    and ?s5 = "one_clerk kv (Calling 0 0 False) [?h0] [?c] [] 0" and ?s6 = "one_clerk kv (Waiting 0 0 False 1) [?h0, new_handler 0 0] [?c] [] 0"
    and ?s7 = "one_clerk kv (Waiting 0 0 False 1) [?h0, ?h1] [?c] [] 0" and ?s8 = "one_clerk kv (Waiting 0 0 False 1) [?h0, ?h1] [?c] [] 5"
    and ?s9 = "one_clerk kv (Returned 0 (record_Put demo_put ErrMaybe)) [?h0, ?h1] [?c] [] 5"
  have "?run ?s1" by (simp add: one_clerk_init ks_refl)
  moreover have "ck_step 1 ?s1 ?s2" using ck_call [of ?s1 0 "KvModel.ReqPut demo_put" 1] by (simp add: defs fair_req_def demo_put_def)
  ultimately have "?run ?s2" by (rule ks_client)
  moreover have "ck_step 1 ?s2 ?s3" using ck_send [of ?s2 0 0 0 True 1] by (simp add: defs)
  ultimately have "?run ?s3" by (rule ks_client)
  moreover have "ss_step ?s3 ?s4" using ss_execute [of 0 ?s3 "new_handler 0 0" "KvRaft.ReqPut demo_put" kv "ResPut \<lparr>putr_Err = OK\<rparr>" 0] kv(1) by (simp add: defs ids_of_def)
  ultimately have "?run ?s4" by (rule ks_server)
  moreover have "ck_step 1 ?s4 ?s5" using ck_fail [of ?s4 0 0 0 True 0 1] by (simp add: defs)
  ultimately have "?run ?s5" by (rule ks_client)
  moreover have "ck_step 1 ?s5 ?s6" using ck_send [of ?s5 0 0 0 False 1] by (simp add: defs)
  ultimately have "?run ?s6" by (rule ks_client)
  moreover have "(1 :: int) \<notin> ids_of [?h0, new_handler 0 0]" by (auto simp: ids_of_def lossy_handler_def new_handler_def)
  then have "ss_step ?s6 (set_handler 1 ((new_handler 0 0)\<lparr>h_op := Some \<lparr>op_Id = 1, op_Term = 0, op_Command = KvRaft.ReqPut demo_put\<rparr>,
      h_reply := Some (OK, Some (ResPut \<lparr>putr_Err = ErrVersion\<rparr>))\<rparr>) (?s6\<lparr>ks_sv := kv\<rparr>))"
    by (intro ss_execute) (simp_all add: one_clerk_def new_handler_def lossy_call_def kv(2))
  then have "ss_step ?s6 ?s7" by (simp add: one_clerk_def new_handler_def lossy_handler_def)
  ultimately have "?run ?s7" by (rule ks_server)
  moreover have "ck_step 1 ?s7 ?s8" using ck_tick [of ?s7 5 1] by (simp add: defs)
  ultimately have "?run ?s8" by (rule ks_client)
  moreover have "ck_step 1 ?s8 ?s9"
    using ck_return [of ?s8 0 0 0 False 1 "(OK, Some (ResPut \<lparr>putr_Err = ErrVersion\<rparr>))" "ResPut \<lparr>putr_Err = ErrVersion\<rparr>" "record_Put demo_put ErrMaybe" 1]
    by (simp add: defs KVServer_Put_reply_def Clerk_Put_verdict_def)
  ultimately have "?run ?s9" by (rule ks_client)
  moreover have "ck_step 1 ?s9 (one_clerk kv Idle [?h0, ?h1] [?c\<lparr>co_result := Some (record_Put demo_put ErrMaybe, 5)\<rparr>] [lossy_operation] 5)"
    using ck_record [of ?s9 0 0 "record_Put demo_put ErrMaybe" _ 1] by (simp add: defs OpLog_Append_def operation_def lossy_operation_def split_beta)
  ultimately show ?thesis by (meson ks_client)
qed


end
