(* ===== verification/KvSpawn.thy ===== *)
theory KvSpawn
  imports KvTest
begin

text \<open>
  The clients of a key/value test: \<open>SpawnClientsAndWait\<close> and \<open>runClient\<close> of \<^verbatim>\<open>kvtest1/kvtest.go\<close>.  The driver starts a goroutine per client, sleeps, tells the
  clients to stop over one channel that they share, and collects a result from each over a channel of its own.  No channel has a buffer: a send and its
  receive are one step.
\<close>

section \<open>Driver and clients\<close>

text \<open>A client runs its function, is told to stop, has a result to send, has sent it and deletes its clerk, or has ended.\<close>

datatype 'v runClient = NotStarted | Working | Stopping | Sends 'v | Deleting | Gone

datatype 'v spawner = Spawning nat | Telling nat | Collecting "'v list" | Spawned "'v list"

record 'v spawn =
  sp_main :: "'v spawner"
  sp_cl :: "nat \<Rightarrow> 'v runClient"

definition spawn_init :: "'v spawn" where
  "spawn_init = \<lparr>sp_main = Spawning 0, sp_cl = (\<lambda>_. NotStarted)\<rparr>"

text \<open>\<open>fn c told v\<close>: the function of client \<open>c\<close> may return \<open>v\<close>, after it was told to stop or without.  What a client does at the service while it works is not a step here.\<close>

inductive SpawnClientsAndWait :: "nat \<Rightarrow> (nat \<Rightarrow> bool \<Rightarrow> 'v \<Rightarrow> bool) \<Rightarrow> 'v spawn \<Rightarrow> 'v spawn \<Rightarrow> bool" for nclnt fn where
  sp_go: "sp_main s = Spawning c \<Longrightarrow> c < nclnt \<Longrightarrow>
    SpawnClientsAndWait nclnt fn s (s\<lparr>sp_main := Spawning (Suc c), sp_cl := (sp_cl s)(c := Working)\<rparr>)"
| sp_sleep: "sp_main s = Spawning nclnt \<Longrightarrow> SpawnClientsAndWait nclnt fn s (s\<lparr>sp_main := Telling 0\<rparr>)"
| sp_tell: "sp_main s = Telling i \<Longrightarrow> i < nclnt \<Longrightarrow> c < nclnt \<Longrightarrow> sp_cl s c = Working \<Longrightarrow>
    SpawnClientsAndWait nclnt fn s (s\<lparr>sp_main := Telling (Suc i), sp_cl := (sp_cl s)(c := Stopping)\<rparr>)"
| sp_told: "sp_main s = Telling nclnt \<Longrightarrow> SpawnClientsAndWait nclnt fn s (s\<lparr>sp_main := Collecting []\<rparr>)"
| sp_recv: "sp_main s = Collecting rs \<Longrightarrow> c = length rs \<Longrightarrow> c < nclnt \<Longrightarrow> sp_cl s c = Sends v \<Longrightarrow>
    SpawnClientsAndWait nclnt fn s (s\<lparr>sp_main := Collecting (rs @ [v]), sp_cl := (sp_cl s)(c := Deleting)\<rparr>)"
| sp_done: "sp_main s = Collecting rs \<Longrightarrow> length rs = nclnt \<Longrightarrow> SpawnClientsAndWait nclnt fn s (s\<lparr>sp_main := Spawned rs\<rparr>)"
| sp_early: "c < nclnt \<Longrightarrow> sp_cl s c = Working \<Longrightarrow> fn c False v \<Longrightarrow> SpawnClientsAndWait nclnt fn s (s\<lparr>sp_cl := (sp_cl s)(c := Sends v)\<rparr>)"
| sp_stop: "c < nclnt \<Longrightarrow> sp_cl s c = Stopping \<Longrightarrow> fn c True v \<Longrightarrow> SpawnClientsAndWait nclnt fn s (s\<lparr>sp_cl := (sp_cl s)(c := Sends v)\<rparr>)"
| sp_delete: "c < nclnt \<Longrightarrow> sp_cl s c = Deleting \<Longrightarrow> SpawnClientsAndWait nclnt fn s (s\<lparr>sp_cl := (sp_cl s)(c := Gone)\<rparr>)"

inductive_simps told_steps: "SpawnClientsAndWait nclnt fn \<lparr>sp_main = Telling i, sp_cl = cl\<rparr> s'"

section \<open>Every step is progress\<close>

fun client_rank :: "'v runClient \<Rightarrow> nat" where
  "client_rank NotStarted = 5" | "client_rank Working = 4" | "client_rank Stopping = 3" | "client_rank (Sends v) = 2" | "client_rank Deleting = 1" | "client_rank Gone = 0"

fun main_rank :: "'v spawner \<Rightarrow> nat" where
  "main_rank (Spawning i) = 3" | "main_rank (Telling i) = 2" | "main_rank (Collecting rs) = 1" | "main_rank (Spawned rs) = 0"

definition spawn_rank :: "nat \<Rightarrow> 'v spawn \<Rightarrow> nat" where
  "spawn_rank n s = main_rank (sp_main s) + (\<Sum>c < n. client_rank (sp_cl s c))"

lemma rank_upd:
  fixes f :: "nat \<Rightarrow> 'v runClient"
  assumes "c < n" "client_rank x < client_rank (f c)" shows "(\<Sum>d < n. client_rank ((f(c := x)) d)) < (\<Sum>d < n. client_rank (f d))"
  by (rule sum_strict_mono_ex1) (use assms in \<open>auto intro!: bexI [of _ c]\<close>)

section \<open>Clients that stop when they are told to\<close>

definition was_told :: "(nat \<Rightarrow> 'v runClient) \<Rightarrow> nat \<Rightarrow> bool" where
  "was_told cl c \<longleftrightarrow> cl c = Stopping \<or> (\<exists>v. cl c = Sends v)"

definition spawn_inv :: "nat \<Rightarrow> (nat \<Rightarrow> bool \<Rightarrow> 'v \<Rightarrow> bool) \<Rightarrow> 'v spawn \<Rightarrow> bool" where
  "spawn_inv n fn s \<longleftrightarrow> (\<forall>c v. sp_cl s c = Sends v \<longrightarrow> fn c True v)
     \<and> (case sp_main s of
          Spawning i \<Rightarrow> i \<le> n \<and> (\<forall>c. sp_cl s c = (if c < i then Working else NotStarted))
        | Telling i \<Rightarrow> i = card {c. c < n \<and> was_told (sp_cl s) c} \<and> (\<forall>c < n. sp_cl s c = Working \<or> was_told (sp_cl s) c)
        | Collecting rs \<Rightarrow> length rs \<le> n \<and> (\<forall>c < length rs. sp_cl s c \<in> {Deleting, Gone}) \<and> (\<forall>c < n. length rs \<le> c \<longrightarrow> was_told (sp_cl s) c)
            \<and> (\<forall>c < length rs. fn c True (rs ! c))
        | Spawned rs \<Rightarrow> length rs = n \<and> (\<forall>c < n. sp_cl s c \<in> {Deleting, Gone}) \<and> (\<forall>c < n. fn c True (rs ! c)))"

lemma card_told:
  assumes "card {c. c < n \<and> P c} = n" "c < n" shows "P c"
proof -
  have "{c. c < n \<and> P c} = {..<n}" by (rule card_subset_eq) (use assms in auto)
  with assms(2) show ?thesis by blast
qed

lemma spawn_step_inv:
  assumes polite: "\<And>c v. \<not> fn c False v"
  shows "SpawnClientsAndWait n fn s s' \<Longrightarrow> spawn_inv n fn s \<Longrightarrow> spawn_inv n fn s'"
proof (induction rule: SpawnClientsAndWait.induct)
  case (sp_tell s i c)
  then have "{d. d < n \<and> was_told ((sp_cl s)(c := Stopping)) d} = insert c {d. d < n \<and> was_told (sp_cl s) d}" by (auto simp: was_told_def)
  moreover have "c \<notin> {d. d < n \<and> was_told (sp_cl s) d}" using sp_tell by (auto simp: was_told_def)
  ultimately show ?case using sp_tell by (auto simp: spawn_inv_def was_told_def)
next
  case (sp_sleep s)
  then have "{c. c < n \<and> was_told (sp_cl s) c} = {}" by (auto simp: spawn_inv_def was_told_def)
  with sp_sleep show ?case by (auto simp: spawn_inv_def)
next
  case (sp_told s)
  then have "was_told (sp_cl s) c" if "c < n" for c using card_told [of n "was_told (sp_cl s)" c] that by (auto simp: spawn_inv_def)
  with sp_told show ?case by (auto simp: spawn_inv_def)
next
  case (sp_recv s rs c v)
  then show ?case by (auto simp: spawn_inv_def nth_append less_Suc_eq was_told_def)
next
  case (sp_stop c s v)
  have "was_told ((sp_cl s)(c := Sends v)) = was_told (sp_cl s)" using sp_stop(2) by (auto simp: was_told_def fun_eq_iff)
  with sp_stop show ?case by (auto simp: spawn_inv_def was_told_def split: spawner.splits if_splits)
next
  case (sp_delete c s)
  then show ?case by (auto simp: spawn_inv_def was_told_def split: spawner.splits if_splits)
qed (use polite in \<open>auto simp: spawn_inv_def\<close>)

lemma spawn_rank_less:
  assumes "SpawnClientsAndWait n fn s s'" "spawn_inv n fn s" shows "spawn_rank n s' < spawn_rank n s"
  using assms
proof (induction rule: SpawnClientsAndWait.induct)
  case (sp_go s c)
  then have "sp_cl s c = NotStarted" by (simp add: spawn_inv_def)
  then show ?case using rank_upd [of c n Working "sp_cl s"] sp_go by (simp add: spawn_rank_def del: fun_upd_apply)
qed (auto simp: spawn_rank_def simp del: fun_upd_apply intro!: rank_upd)

definition all_ended :: "nat \<Rightarrow> 'v spawn \<Rightarrow> bool" where
  "all_ended n s \<longleftrightarrow> (\<exists>rs. sp_main s = Spawned rs) \<and> (\<forall>c < n. sp_cl s c = Gone)"

lemma spawn_progress:
  assumes inv: "spawn_inv n fn s" and stops: "\<And>c. \<exists>v. fn c True v" and "\<not> all_ended n s"
  shows "\<exists>s'. SpawnClientsAndWait n fn s s'"
proof (cases "sp_main s")
  case (Spawning i)
  with inv have "i < n \<or> i = n" by (auto simp: spawn_inv_def)
  then show ?thesis using Spawning sp_go sp_sleep by metis
next
  case (Telling i)
  let ?T = "{c. c < n \<and> was_told (sp_cl s) c}"
  have i: "i = card ?T" "\<And>c. c < n \<Longrightarrow> sp_cl s c = Working \<or> was_told (sp_cl s) c" using inv Telling by (auto simp: spawn_inv_def)
  have "card ?T \<le> n" using card_mono [of "{..<n}" ?T] by auto
  show ?thesis
  proof (cases "i = n")
    case True
    then show ?thesis using Telling sp_told by metis
  next
    case False
    have "\<exists>c < n. sp_cl s c = Working"
    proof (rule ccontr)
      assume "\<not> (\<exists>c < n. sp_cl s c = Working)"
      with i(2) have "?T = {..<n}" by auto
      with i(1) False show False by simp
    qed
    moreover have "i < n" using False i(1) \<open>card ?T \<le> n\<close> by simp
    ultimately show ?thesis using sp_tell [OF Telling] by blast
  qed
next
  case (Collecting rs)
  show ?thesis
  proof (cases "length rs = n")
    case True
    then show ?thesis using Collecting sp_done by metis
  next
    case False
    with inv Collecting have "length rs < n" "was_told (sp_cl s) (length rs)" by (auto simp: spawn_inv_def)
    then show ?thesis using sp_recv [OF Collecting refl] sp_stop stops unfolding was_told_def by metis
  qed
next
  case (Spawned rs)
  with assms(3) inv obtain c where "c < n" "sp_cl s c = Deleting" by (auto simp: all_ended_def spawn_inv_def)
  then show ?thesis using sp_delete by metis
qed

lemma spawn_init_inv: "spawn_inv n fn spawn_init"
  by (simp add: spawn_inv_def spawn_init_def)

lemma spawn_run_inv:
  assumes "(SpawnClientsAndWait n fn)\<^sup>*\<^sup>* spawn_init s" "\<And>c v. \<not> fn c False v" shows "spawn_inv n fn s"
  using assms(1) by (induction rule: rtranclp_induct) (auto intro: spawn_init_inv spawn_step_inv [of fn n, OF assms(2)])

text \<open>
  \<open>SpawnClientsAndWait\<close> returns.  If every client's function returns after it was told to stop, and not before, then the driver and the clients
  come to their end from every state of a run, with a result for every client that its function has returned; and no run goes on for ever, since every step lowers
  the rank of the state.
\<close>

lemma spawn_returns:
  assumes "(SpawnClientsAndWait n fn)\<^sup>*\<^sup>* spawn_init s" and polite: "\<And>c v. \<not> fn c False v" and stops: "\<And>c. \<exists>v. fn c True v"
  shows "\<exists>s' rs. (SpawnClientsAndWait n fn)\<^sup>*\<^sup>* s s' \<and> sp_main s' = Spawned rs \<and> length rs = n \<and> (\<forall>c < n. fn c True (rs ! c) \<and> sp_cl s' c = Gone)"
proof -
  have "\<exists>s'. (SpawnClientsAndWait n fn)\<^sup>*\<^sup>* s s' \<and> spawn_inv n fn s' \<and> all_ended n s'" if "spawn_inv n fn s" for s
    using that
  proof (induction "spawn_rank n s" arbitrary: s rule: less_induct)
    case less
    show ?case
    proof (cases "all_ended n s")
      case False
      from spawn_progress [OF less.prems stops this] obtain s1 where s1: "SpawnClientsAndWait n fn s s1" by blast
      from less.hyps [OF spawn_rank_less [OF s1 less.prems] spawn_step_inv [OF polite s1 less.prems]] s1
      show ?thesis by (meson converse_rtranclp_into_rtranclp)
    qed (use less.prems in blast)
  qed
  from this [OF spawn_run_inv [OF assms(1) polite]] show ?thesis by (auto simp: all_ended_def spawn_inv_def)
qed

text \<open>A function that returns before it is told blocks the driver for ever: nobody receives what it sends over \<open>done\<close>.\<close>

lemma early_client_blocks:
  assumes "SpawnClientsAndWait (Suc 0) fn \<lparr>sp_main = Telling 0, sp_cl = cl\<rparr> s'" "cl 0 = Sends v" shows False
  using assms by (auto simp: told_steps)

end
