(* ===== verification/Lock.thy ===== *)
theory Lock
  imports Clerk
begin

text \<open>
  The distributed lock of \<^verbatim>\<open>kvsrv1/lock/lock.go\<close>, run by any number of clients over the unreliable
  network.  Each client is a program counter in \<^verbatim>\<open>Acquire\<close> or \<^verbatim>\<open>Release\<close>; a step is one clerk call's
  effect (a read, or one attempt of a put with the network losing the request, losing the reply,
  delaying the request past the call, or answering it).  Mutual exclusion holds in every state
  reachable in fewer than \<open>2 ^ 64\<close> steps, the point where versions would repeat.
\<close>

section \<open>The lock client\<close>

record Lock =
  lk_l :: string
  lk_myID :: string

definition MakeLock :: "string \<Rightarrow> string \<Rightarrow> Lock" where
  "MakeLock l rand = \<lparr>lk_l = l, lk_myID = rand\<rparr>"

text \<open>
  Where a client is: outside, before the first \<^verbatim>\<open>Get\<close> of \<^verbatim>\<open>Acquire\<close>, in the clerk's retry loop of its
  \<^verbatim>\<open>Put\<close> (with the version put and whether the next call is the first), before the checking \<^verbatim>\<open>Get\<close>
  that follows \<open>ErrMaybe\<close>, holding the lock, and the same for \<^verbatim>\<open>Release\<close>.
\<close>

datatype lock_pc = Idle | AcqGet | AcqPut Tversion bool | AcqCheck | Held | RelGet | RelPut Tversion bool

definition Acquire_after_Get :: "GetReply \<Rightarrow> lock_pc" where
  "Acquire_after_Get r =
     (if getr_Err r = ErrNoKey then AcqPut 0 True
      else if getr_Err r = OK then
        (if getr_Value r = [] then AcqPut (getr_Version r) True else AcqGet)
      else AcqGet)"

definition Acquire_after_Put :: "Err \<Rightarrow> lock_pc" where
  "Acquire_after_Put putErr =
     (if putErr = OK then Held else if putErr = ErrMaybe then AcqCheck else AcqGet)"

definition Acquire_after_check :: "Lock \<Rightarrow> GetReply \<Rightarrow> lock_pc" where
  "Acquire_after_check lk r =
     (if getr_Err r = OK \<and> getr_Value r = lk_myID lk then Held else AcqGet)"

definition Release_after_Get :: "Lock \<Rightarrow> GetReply \<Rightarrow> lock_pc" where
  "Release_after_Get lk r =
     (if getr_Err r = OK \<and> getr_Value r = lk_myID lk then RelPut (getr_Version r) True else Idle)"

definition Release_after_Put :: "Err \<Rightarrow> lock_pc" where
  "Release_after_Put putErr = (if putErr = OK then Idle else RelGet)"

text \<open>The put a client in a retry loop is sending, and what it does with the clerk's verdict.\<close>

fun pending_put :: "Lock \<Rightarrow> lock_pc \<Rightarrow> PutArgs option" where
  "pending_put lk (AcqPut w first) = Some \<lparr>put_Key = lk_l lk, put_Value = lk_myID lk, put_Version = w\<rparr>"
| "pending_put lk (RelPut w first) = Some \<lparr>put_Key = lk_l lk, put_Value = [], put_Version = w\<rparr>"
| "pending_put lk pc = None"

fun retry_put :: "lock_pc \<Rightarrow> lock_pc" where
  "retry_put (AcqPut w first) = AcqPut w False"
| "retry_put (RelPut w first) = RelPut w False"
| "retry_put pc = pc"

fun answered_put :: "lock_pc \<Rightarrow> Err \<Rightarrow> lock_pc" where
  "answered_put (AcqPut w first) e = Acquire_after_Put (Clerk_Put_verdict first e)"
| "answered_put (RelPut w first) e = Release_after_Put (Clerk_Put_verdict first e)"
| "answered_put pc e = pc"

fun answered_get :: "Lock \<Rightarrow> lock_pc \<Rightarrow> GetReply \<Rightarrow> lock_pc" where
  "answered_get lk AcqGet r = Acquire_after_Get r"
| "answered_get lk AcqCheck r = Acquire_after_check lk r"
| "answered_get lk RelGet r = Release_after_Get lk r"
| "answered_get lk pc r = pc"

section \<open>The system\<close>

record lock_sys =
  kv :: KVServer
  pcs :: "nat \<Rightarrow> lock_pc"
  delayed :: "PutArgs set"

definition lock_init :: lock_sys where
  "lock_init = \<lparr>kv = MakeKVServer, pcs = (\<lambda>_. Idle), delayed = {}\<rparr>"

abbreviation set_pc :: "lock_sys \<Rightarrow> nat \<Rightarrow> lock_pc \<Rightarrow> lock_sys" where
  "set_pc s i p \<equiv> s\<lparr>pcs := (pcs s)(i := p)\<rparr>"

inductive lock_step :: "(nat \<Rightarrow> Lock) \<Rightarrow> lock_sys \<Rightarrow> lock_sys \<Rightarrow> bool" for lks where
  acquire: "pcs s i = Idle \<Longrightarrow> lock_step lks s (set_pc s i AcqGet)"
| release: "pcs s i = Held \<Longrightarrow> lock_step lks s (set_pc s i RelGet)"
| get: "pcs s i \<in> {AcqGet, AcqCheck, RelGet} \<Longrightarrow>
     lock_step lks s (set_pc s i
       (answered_get (lks i) (pcs s i) (KVServer_get (kv s) \<lparr>get_Key = lk_l (lks i)\<rparr>)))"
| put_lost: "pending_put (lks i) (pcs s i) = Some a \<Longrightarrow>
     lock_step lks s (set_pc s i (retry_put (pcs s i)))"
| put_delayed: "pending_put (lks i) (pcs s i) = Some a \<Longrightarrow>
     lock_step lks s ((set_pc s i (retry_put (pcs s i)))\<lparr>delayed := insert a (delayed s)\<rparr>)"
| put_unanswered: "pending_put (lks i) (pcs s i) = Some a \<Longrightarrow> KVServer_put (kv s) a = (kv', r) \<Longrightarrow>
     lock_step lks s ((set_pc s i (retry_put (pcs s i)))\<lparr>kv := kv'\<rparr>)"
| put_answered: "pending_put (lks i) (pcs s i) = Some a \<Longrightarrow> KVServer_put (kv s) a = (kv', r) \<Longrightarrow>
     lock_step lks s ((set_pc s i (answered_put (pcs s i) (putr_Err r)))\<lparr>kv := kv'\<rparr>)"
| late: "a \<in> delayed s \<Longrightarrow> KVServer_put (kv s) a = (kv', r) \<Longrightarrow> lock_step lks s (s\<lparr>kv := kv'\<rparr>)"
| other_key: "\<forall>i. put_Key a \<noteq> lk_l (lks i) \<Longrightarrow> KVServer_put (kv s) a = (kv', r) \<Longrightarrow>
     lock_step lks s (s\<lparr>kv := kv'\<rparr>)"

inductive lock_reach :: "(nat \<Rightarrow> Lock) \<Rightarrow> nat \<Rightarrow> lock_sys \<Rightarrow> bool" for lks where
  start: "lock_reach lks 0 lock_init"
| step: "lock_reach lks n s \<Longrightarrow> lock_step lks s t \<Longrightarrow> lock_reach lks (Suc n) t"

text \<open>The clients share one lock key and drew distinct, non-empty identifiers.\<close>

definition locks_ok :: "string \<Rightarrow> (nat \<Rightarrow> Lock) \<Rightarrow> bool" where
  "locks_ok l lks \<longleftrightarrow> (\<forall>i. lk_l (lks i) = l \<and> lk_myID (lks i) \<noteq> [])
     \<and> (\<forall>i j. lk_myID (lks i) = lk_myID (lks j) \<longrightarrow> i = j)"

section \<open>The invariant\<close>

text \<open>\<open>c\<close> is the lock's cell at the server.\<close>

definition cur :: "(string \<times> Tversion) option \<Rightarrow> Tversion" where
  "cur c = (case c of None \<Rightarrow> 0 | Some (_, w) \<Rightarrow> w)"

definition owns :: "string \<Rightarrow> (string \<times> Tversion) option \<Rightarrow> bool" where
  "owns me c \<longleftrightarrow> (\<exists>w. c = Some (me, w))"

definition free :: "(string \<times> Tversion) option \<Rightarrow> bool" where
  "free c \<longleftrightarrow> c = None \<or> owns [] c"

fun pc_ok :: "string \<Rightarrow> (string \<times> Tversion) option \<Rightarrow> lock_pc \<Rightarrow> bool" where
  "pc_ok me c Idle = (\<not> owns me c)"
| "pc_ok me c AcqGet = (\<not> owns me c)"
| "pc_ok me c (AcqPut w first) =
     ((unat w < unat (cur c) \<or> w = cur c \<and> free c) \<and> (first \<longrightarrow> \<not> owns me c))"
| "pc_ok me c AcqCheck = True"
| "pc_ok me c Held = owns me c"
| "pc_ok me c RelGet = True"
| "pc_ok me c (RelPut w first) = (unat w < unat (cur c) \<or> w = cur c \<and> owns me c)"

definition lock_cell :: "(nat \<Rightarrow> Lock) \<Rightarrow> lock_sys \<Rightarrow> (string \<times> Tversion) option" where
  "lock_cell lks s = KVServer_cell (kv s) (lk_l (lks 0))"

definition lock_inv :: "(nat \<Rightarrow> Lock) \<Rightarrow> nat \<Rightarrow> lock_sys \<Rightarrow> bool" where
  "lock_inv lks n s \<longleftrightarrow>
     unat (cur (lock_cell lks s)) \<le> n
     \<and> (lock_cell lks s \<noteq> None \<longrightarrow> cur (lock_cell lks s) \<noteq> 0)
     \<and> (\<forall>i. pc_ok (lk_myID (lks i)) (lock_cell lks s) (pcs s i))
     \<and> (\<forall>a \<in> delayed s. unat (put_Version a) < unat (cur (lock_cell lks s))
          \<or> (\<exists>i. pending_put (lks i) (pcs s i) = Some a \<and> retry_put (pcs s i) = pcs s i))"

lemma lock_initial: "lock_inv lks 0 lock_init"
  by (simp add: lock_inv_def lock_cell_def lock_init_def MakeKVServer_def KVServer_cell_def cur_def owns_def)

text \<open>What a put does to the lock's cell.\<close>

lemma put_cell:
  assumes "KVServer_put k a = (k', r)" and "put_Key a = l"
  shows "if cur (KVServer_cell k l) = put_Version a
    then putr_Err r = OK \<and> KVServer_cell k' l = Some (put_Value a, put_Version a + 1)
    else putr_Err r \<in> {ErrNoKey, ErrVersion} \<and> KVServer_cell k' l = KVServer_cell k l
       \<and> (putr_Err r = ErrNoKey \<longrightarrow> KVServer_cell k l = None)"
  using assms srv.put_ok_iff [of k a] srv.put_ok_cell [of k a] srv.put_fail_cell [of k a]
    srv.put_errs [of k a] srv.put_nokey_iff [of k a]
  by (auto simp: version_of_def cur_def)

lemma put_other_cell:
  "KVServer_put k a = (k', r) \<Longrightarrow> put_Key a \<noteq> l \<Longrightarrow> KVServer_cell k' l = KVServer_cell k l"
  using srv.put_ok_cell [of k a] srv.put_fail_cell [of k a]
  by (cases "putr_Err r = OK") auto

lemma pending_key: "pending_put lk p = Some a \<Longrightarrow> put_Key a = lk_l lk"
  by (cases p) auto

lemma pending_retry [simp]:
  "pending_put lk (retry_put p) = pending_put lk p" "retry_put (retry_put p) = retry_put p"
  by (cases p; simp)+

lemma pending_bound:
  "pending_put lk p = Some a \<Longrightarrow> pc_ok me c p \<Longrightarrow>
     unat (put_Version a) < unat (cur c) \<or> put_Version a = cur c"
  by (cases p) auto

lemma pc_ok_bump:
  assumes "pc_ok me c p" and "\<not> owns me c" and "x \<noteq> me" and "unat (cur c) + 1 < 2 ^ 64"
  shows "pc_ok me (Some (x, cur c + 1)) p"
proof -
  have "unat (cur c + 1) = unat (cur c) + 1" using assms(4) by (simp add: unat_word_ariths)
  then show ?thesis using assms by (cases p) (auto simp: cur_def owns_def)
qed

lemma pc_ok_retry:
  "unat (put_Version a) < unat (cur c) \<Longrightarrow> pending_put lk p = Some a \<Longrightarrow> pc_ok me c (retry_put p)"
  by (cases p) auto

text \<open>An executed put of client \<open>i\<close> leaves its version behind and the other clients consistent.\<close>

lemma pending_put_executed:
  assumes inv: "lock_inv lks n s" and ok: "locks_ok l lks" and n: "Suc n < 2 ^ 64"
    and pend: "pending_put (lks i) (pcs s i) = Some a" and put: "KVServer_put (kv s) a = (k', r)"
  defines "c' \<equiv> KVServer_cell k' l"
  shows "unat (put_Version a) < unat (cur c')" and "unat (cur c') \<le> Suc n"
    and "unat (cur (lock_cell lks s)) \<le> unat (cur c')"
    and "c' \<noteq> None \<longrightarrow> cur c' \<noteq> 0"
    and "j \<noteq> i \<Longrightarrow> pc_ok (lk_myID (lks j)) c' (pcs s j)"
proof -
  let ?c = "lock_cell lks s"
  from ok have l: "lk_l (lks i) = l" "lk_l (lks 0) = l" and ne: "\<And>j. lk_myID (lks j) \<noteq> []"
    and inj: "\<And>j. j \<noteq> i \<Longrightarrow> lk_myID (lks j) \<noteq> lk_myID (lks i)"
    by (auto simp: locks_ok_def)
  from pend l have key: "put_Key a = l" using pending_key by fastforce
  have c: "?c = KVServer_cell (kv s) l" by (simp add: lock_cell_def l)
  from inv have pcok: "\<And>j. pc_ok (lk_myID (lks j)) ?c (pcs s j)" and cn: "unat (cur ?c) \<le> n"
    and c0: "?c \<noteq> None \<longrightarrow> cur ?c \<noteq> 0" by (auto simp: lock_inv_def)
  from pending_bound [OF pend pcok]
  consider (hit) "put_Version a = cur ?c" | (miss) "unat (put_Version a) < unat (cur ?c)" by blast
  then have "unat (put_Version a) < unat (cur c') \<and> unat (cur c') \<le> Suc n \<and> unat (cur ?c) \<le> unat (cur c')
     \<and> (c' \<noteq> None \<longrightarrow> cur c' \<noteq> 0) \<and> (j \<noteq> i \<longrightarrow> pc_ok (lk_myID (lks j)) c' (pcs s j))"
  proof cases
    case hit
    with put_cell [OF put key] c have c': "c' = Some (put_Value a, cur ?c + 1)" by (simp add: c'_def)
    have u: "unat (cur ?c + 1) = unat (cur ?c) + 1" using cn n by (simp add: unat_word_ariths)
    have "pc_ok (lk_myID (lks j)) c' (pcs s j)" if "j \<noteq> i"
      unfolding c'
    proof (rule pc_ok_bump [OF pcok])
      show "\<not> owns (lk_myID (lks j)) ?c"
        using pend pcok [of i] hit inj [OF that] ne [of j]
        by (cases "pcs s i") (auto simp: owns_def free_def)
      show "put_Value a \<noteq> lk_myID (lks j)"
        using pend inj [OF that] ne [of j] by (cases "pcs s i") auto
      show "unat (cur ?c) + 1 < 2 ^ 64" using cn n by simp
    qed
    with u cn hit c' show ?thesis by (auto simp: cur_def unat_eq_0)
  next
    case miss
    then have "cur ?c \<noteq> put_Version a" by auto
    with put_cell [OF put key] c have "c' = ?c" by (simp add: c'_def)
    with miss cn c0 pcok show ?thesis by auto
  qed
  then show "unat (put_Version a) < unat (cur c')" "unat (cur c') \<le> Suc n"
    "unat (cur ?c) \<le> unat (cur c')" "c' \<noteq> None \<longrightarrow> cur c' \<noteq> 0"
    "j \<noteq> i \<Longrightarrow> pc_ok (lk_myID (lks j)) c' (pcs s j)" by blast+
qed

lemma executed_inv:
  assumes inv: "lock_inv lks n s" and ok: "locks_ok l lks" and n: "Suc n < 2 ^ 64"
    and pend: "pending_put (lks i) (pcs s i) = Some a" and put: "KVServer_put (kv s) a = (k', r)"
    and new: "pc_ok (lk_myID (lks i)) (KVServer_cell k' l) p"
  shows "lock_inv lks (Suc n) ((set_pc s i p)\<lparr>kv := k'\<rparr>)"
proof -
  note ex = pending_put_executed [OF inv ok n pend put]
  from ok have l: "lk_l (lks 0) = l" by (simp add: locks_ok_def)
  have del: "unat (put_Version b) < unat (cur (KVServer_cell k' l))
      \<or> (\<exists>j. j \<noteq> i \<and> pending_put (lks j) (pcs s j) = Some b \<and> retry_put (pcs s j) = pcs s j)"
    if b: "b \<in> delayed s" for b
  proof -
    from inv b consider "unat (put_Version b) < unat (cur (lock_cell lks s))"
      | j where "pending_put (lks j) (pcs s j) = Some b" "retry_put (pcs s j) = pcs s j"
      by (auto simp: lock_inv_def)
    then show ?thesis
    proof cases
      case 1
      with ex(3) show ?thesis by simp
    next
      case (2 j)
      with ex(1) pend show ?thesis by (cases "j = i") auto
    qed
  qed
  then have "\<forall>b \<in> delayed s. unat (put_Version b) < unat (cur (KVServer_cell k' l))
      \<or> (\<exists>j. pending_put (lks j) (((pcs s)(i := p)) j) = Some b
             \<and> retry_put (((pcs s)(i := p)) j) = ((pcs s)(i := p)) j)"
    by fastforce
  with ex(2,4,5) new l show ?thesis
    by (simp add: lock_inv_def lock_cell_def)
qed

lemma answered_ok:
  assumes ok: "locks_ok l lks" and pc: "pc_ok (lk_myID (lks i)) (KVServer_cell k l) p"
    and pend: "pending_put (lks i) p = Some a" and put: "KVServer_put k a = (k', r)"
  shows "pc_ok (lk_myID (lks i)) (KVServer_cell k' l) (answered_put p (putr_Err r))"
proof -
  from ok have "lk_l (lks i) = l" and ne: "lk_myID (lks i) \<noteq> []" by (auto simp: locks_ok_def)
  with pending_key [OF pend] have "put_Key a = l" by simp
  from put_cell [OF put this] pc pend ne show ?thesis
    by (cases p) (auto simp: Acquire_after_Put_def Release_after_Put_def Clerk_Put_verdict_def owns_def
        split: if_splits)
qed

lemma answered_get_ok:
  assumes "pc_ok (lk_myID lk) (KVServer_cell k (lk_l lk)) p" "p \<in> {AcqGet, AcqCheck, RelGet}"
  shows "pc_ok (lk_myID lk) (KVServer_cell k (lk_l lk))
     (answered_get lk p (KVServer_get k \<lparr>get_Key = lk_l lk\<rparr>))"
  using assms srv.get_some [of k "\<lparr>get_Key = lk_l lk\<rparr>"] srv.get_none [of k "\<lparr>get_Key = lk_l lk\<rparr>"]
  by (cases "KVServer_cell k (lk_l lk)")
     (auto simp: Acquire_after_Get_def Acquire_after_check_def Release_after_Get_def owns_def free_def cur_def)

text \<open>A step that leaves the lock's cell alone keeps the invariant when it keeps the mover's part.\<close>

lemma same_cell_inv:
  assumes inv: "lock_inv lks n s" and cell: "lock_cell lks t = lock_cell lks s"
    and pcs: "pcs t = (pcs s)(i := p)" and p: "pc_ok (lk_myID (lks i)) (lock_cell lks s) p"
    and keep: "pending_put (lks i) (pcs s i) = None \<or> p = retry_put (pcs s i)"
    and del: "delayed t \<subseteq> delayed s \<union> {a. pending_put (lks i) p = Some a \<and> retry_put p = p}"
  shows "lock_inv lks (Suc n) t"
proof -
  have "unat (put_Version b) < unat (cur (lock_cell lks s))
      \<or> (\<exists>j. pending_put (lks j) (pcs t j) = Some b \<and> retry_put (pcs t j) = pcs t j)"
    if "b \<in> delayed t" for b
  proof (cases "b \<in> delayed s")
    case True
    with inv consider "unat (put_Version b) < unat (cur (lock_cell lks s))"
      | j where "pending_put (lks j) (pcs s j) = Some b" "retry_put (pcs s j) = pcs s j"
      by (auto simp: lock_inv_def)
    then show ?thesis
    proof cases
      case (2 j)
      with keep have "pending_put (lks j) (pcs t j) = Some b \<and> retry_put (pcs t j) = pcs t j"
        by (cases "j = i") (auto simp: pcs)
      then show ?thesis by blast
    qed simp
  next
    case False
    with del that have "pending_put (lks i) (pcs t i) = Some b \<and> retry_put (pcs t i) = pcs t i"
      by (auto simp: pcs)
    then show ?thesis by blast
  qed
  with inv p show ?thesis by (auto simp: lock_inv_def cell pcs)
qed

lemma late_inv:
  assumes inv: "lock_inv lks n s" and ok: "locks_ok l lks" and n: "Suc n < 2 ^ 64"
    and a: "a \<in> delayed s" and put: "KVServer_put (kv s) a = (k', r)"
  shows "lock_inv lks (Suc n) (s\<lparr>kv := k'\<rparr>)"
proof -
  from ok have l: "lk_l (lks 0) = l" by (simp add: locks_ok_def)
  from inv a consider (old) "unat (put_Version a) < unat (cur (lock_cell lks s))"
    | (live) i where "pending_put (lks i) (pcs s i) = Some a" "retry_put (pcs s i) = pcs s i"
    by (auto simp: lock_inv_def)
  then show ?thesis
  proof cases
    case old
    then have "cur (KVServer_cell (kv s) l) \<noteq> put_Version a" by (auto simp: lock_cell_def l)
    then have "KVServer_cell k' l = KVServer_cell (kv s) l"
      using put_cell [OF put, of l] put_other_cell [OF put, of l] by (cases "put_Key a = l") auto
    then have "lock_cell lks (s\<lparr>kv := k'\<rparr>) = lock_cell lks s" by (simp add: lock_cell_def l)
    with inv show ?thesis by (auto simp: lock_inv_def)
  next
    case (live i)
    note ex = pending_put_executed [OF inv ok n live(1) put]
    from live ex(1) have "pc_ok (lk_myID (lks i)) (KVServer_cell k' l) (pcs s i)"
      using pc_ok_retry by metis
    from executed_inv [OF inv ok n live(1) put this] show ?thesis by simp
  qed
qed

lemma lock_step_inv:
  assumes "lock_step lks s t" and "lock_inv lks n s" and "locks_ok l lks" and "Suc n < 2 ^ 64"
  shows "lock_inv lks (Suc n) t"
  using assms
proof (induction rule: lock_step.induct)
  case (acquire s i)
  then show ?case by (intro same_cell_inv [where i = i]) (auto simp: lock_inv_def lock_cell_def dest: spec [of _ i])
next
  case (release s i)
  then show ?case by (intro same_cell_inv [where i = i]) (auto simp: lock_inv_def lock_cell_def dest: spec [of _ i])
next
  case (get s i)
  have c: "lock_cell lks s = KVServer_cell (kv s) (lk_l (lks i))"
    using get.prems by (simp add: lock_cell_def locks_ok_def)
  from get have "pc_ok (lk_myID (lks i)) (KVServer_cell (kv s) (lk_l (lks i))) (pcs s i)"
    by (auto simp: lock_inv_def c [symmetric])
  note new = answered_get_ok [OF this get.hyps(1)]
  from get.hyps have "pending_put (lks i) (pcs s i) = None" by auto
  with get.prems(1) new show ?case
    by (intro same_cell_inv [where i = i]) (auto simp: lock_cell_def c [symmetric])
next
  case (put_lost i s a)
  then show ?case
    by (cases "pcs s i"; intro same_cell_inv [where i = i])
       (auto simp: lock_inv_def lock_cell_def dest: spec [of _ i])
next
  case (put_delayed i s a)
  then show ?case
    by (cases "pcs s i"; intro same_cell_inv [where i = i])
       (auto simp: lock_inv_def lock_cell_def dest: spec [of _ i])
next
  case (put_unanswered i s a k' r)
  note ex = pending_put_executed [OF put_unanswered.prems put_unanswered.hyps]
  show ?case
    by (rule executed_inv [OF put_unanswered.prems put_unanswered.hyps pc_ok_retry [OF ex(1) put_unanswered.hyps(1)]])
next
  case (put_answered i s a k' r)
  have "pc_ok (lk_myID (lks i)) (KVServer_cell (kv s) l) (pcs s i)"
    using put_answered.prems by (auto simp: lock_inv_def lock_cell_def locks_ok_def)
  from executed_inv [OF put_answered.prems put_answered.hyps
      answered_ok [OF put_answered.prems(2) this put_answered.hyps]]
  show ?case .
next
  case (late a s k' r)
  then show ?case by (intro late_inv)
next
  case (other_key a s k' r)
  then have "lock_cell lks (s\<lparr>kv := k'\<rparr>) = lock_cell lks s"
    by (simp add: lock_cell_def put_other_cell)
  with other_key.prems show ?case by (auto simp: lock_inv_def)
qed

lemma lock_reach_inv: "lock_reach lks n s \<Longrightarrow> locks_ok l lks \<Longrightarrow> n < 2 ^ 64 \<Longrightarrow> lock_inv lks n s"
proof (induction rule: lock_reach.induct)
  case start
  show ?case by (rule lock_initial)
next
  case (step n s t)
  then show ?case by (intro lock_step_inv) auto
qed

section \<open>Mutual exclusion\<close>

text \<open>
  C16: mutual exclusion of the distributed lock.  Two clients never hold the lock at the same time, for
  any number of clients, any interleaving, and a network that loses, delays and re-executes
  requests; the clients' random identifiers are assumed distinct.
\<close>

theorem lock_mutual_exclusion:
  assumes "lock_reach lks n s" and "locks_ok l lks" and "n < 2 ^ 64"
    and "pcs s i = Held" and "pcs s j = Held"
  shows "i = j"
proof -
  from lock_reach_inv [OF assms(1-3)] assms(4,5)
  have "owns (lk_myID (lks i)) (lock_cell lks s)" "owns (lk_myID (lks j)) (lock_cell lks s)"
    by (auto simp: lock_inv_def dest: spec [of _ i] spec [of _ j])
  then have "lk_myID (lks i) = lk_myID (lks j)" by (auto simp: owns_def)
  with assms(2) show ?thesis by (auto simp: locks_ok_def)
qed

text \<open>A run that acquires the lock; client \<open>i\<close> drew the identifier of \<open>i + 1\<close> letters.\<close>

definition demo_locks :: "nat \<Rightarrow> Lock" where
  "demo_locks i = MakeLock ''l'' (replicate (Suc i) (CHR ''a''))"

definition demo_held :: lock_sys where
  "demo_held = (set_pc lock_init 0 Held)
     \<lparr>kv := fst (KVServer_put MakeKVServer \<lparr>put_Key = ''l'', put_Value = ''a'', put_Version = 0\<rparr>)\<rparr>"

lemma demo_locks_ok: "locks_ok ''l'' demo_locks"
proof -
  have "i = j" if "replicate (Suc i) x = replicate (Suc j) x" for i j and x :: char
    using arg_cong [OF that, of length] by simp
  then show ?thesis by (auto simp: locks_ok_def demo_locks_def MakeLock_def simp del: replicate_Suc)
qed

lemma demo_held_reach: "lock_reach demo_locks 3 demo_held"
proof -
  let ?s1 = "set_pc lock_init 0 AcqGet" and ?s2 = "set_pc lock_init 0 (AcqPut 0 True)"
  let ?a = "\<lparr>put_Key = ''l'', put_Value = ''a'', put_Version = 0\<rparr> :: PutArgs"
  have 1: "lock_step demo_locks lock_init ?s1"
    by (rule lock_step.acquire) (simp add: lock_init_def)
  have 2: "lock_step demo_locks ?s1 ?s2"
    using lock_step.get [of ?s1 0 demo_locks]
    by (simp add: lock_init_def Acquire_after_Get_def KVServer_defs MakeKVServer_def)
  have 3: "lock_step demo_locks ?s2 demo_held"
    using lock_step.put_answered [of demo_locks 0 ?s2 ?a "fst (KVServer_put MakeKVServer ?a)"
        "snd (KVServer_put MakeKVServer ?a)"]
    by (simp add: demo_held_def lock_init_def Acquire_after_Put_def Clerk_Put_verdict_def KVServer_defs
        MakeKVServer_def demo_locks_def MakeLock_def)
  from lock_reach.step [OF lock_reach.step [OF lock_reach.step [OF lock_reach.start 1] 2] 3]
  show ?thesis by (simp add: numeral_3_eq_3)
qed

lemma lock_mutual_exclusion_witness: "{j. pcs demo_held j = Held} = {0}"
proof -
  have h: "pcs demo_held 0 = Held" by (simp add: demo_held_def)
  have "j = 0" if "pcs demo_held j = Held" for j
    by (rule lock_mutual_exclusion [OF demo_held_reach demo_locks_ok _ that h]) simp
  with h show ?thesis by blast
qed

text \<open>
  While a client is in its critical section the server's lock key holds that client's identifier,
  so the lock state survives at the server whatever happens to the client.
\<close>

theorem lock_held_is_stored:
  assumes "lock_reach lks n s" and "locks_ok l lks" and "n < 2 ^ 64" and "pcs s i = Held"
  shows "\<exists>item. store (kv s) l = Some item \<and> val item = lk_myID (lks i)"
proof -
  from lock_reach_inv [OF assms(1-3)] assms(4)
  have "owns (lk_myID (lks i)) (lock_cell lks s)"
    by (auto simp: lock_inv_def dest: spec [of _ i])
  moreover from assms(2) have "lk_l (lks 0) = l" by (simp add: locks_ok_def)
  ultimately show ?thesis by (auto simp: owns_def lock_cell_def KVServer_cell_def)
qed

lemma lock_held_is_stored_witness:
  "\<exists>item. store (kv demo_held) ''l'' = Some item \<and> val item = lk_myID (demo_locks 0)"
  by (rule lock_held_is_stored [OF demo_held_reach demo_locks_ok]) (simp_all add: demo_held_def)

end
