(* ===== verification/ShardCfg.thy ===== *)
theory ShardCfg
  imports Prelude "HOL-Library.While_Combinator"
begin

text \<open>
  Shard configurations, \<^verbatim>\<open>shardkv1/shardcfg/shardcfg.go\<close>: the assignment of shards to replica groups,
  joining and leaving groups, and the rebalancing loop.  A Go map is an association list with
  distinct keys; its order stands for the iteration order of the run, and every theorem holds for
  all orders.  The unbounded loop of \<^verbatim>\<open>Rebalance\<close> is a \<^const>\<open>while_option\<close>, whose result \<open>None\<close> would be
  divergence; \<^verbatim>\<open>log.Fatalf\<close> is \<open>None\<close> too.
\<close>

section \<open>Shards and keys\<close>

definition NShards :: int where
  "NShards = 12"

definition Key2Shard :: "string \<Rightarrow> int" where
  "Key2Shard key = uint (fnv32a key) mod NShards"

section \<open>Configurations\<close>

type_synonym Tgid = int

record ShardConfig =
  Num :: int
  Shards :: "Tgid list"
  Groups :: "(Tgid \<times> string list) list"

abbreviation gids :: "ShardConfig \<Rightarrow> Tgid list" where
  "gids c \<equiv> map fst (Groups c)"

definition MakeShardConfig :: ShardConfig where
  "MakeShardConfig = \<lparr>Num = 0, Shards = replicate (nat NShards) 0, Groups = []\<rparr>"

definition ShardConfig_Copy :: "ShardConfig \<Rightarrow> ShardConfig" where
  "ShardConfig_Copy cfg = MakeShardConfig
     \<lparr>Num := Num cfg, Shards := Shards cfg,
      Groups := map (\<lambda>(k, srvs). (k, go_copy (replicate (length srvs) []) srvs)) (Groups cfg)\<rparr>"

text \<open>\<open>analyze\<close> returns the most and the least loaded group with their loads.\<close>

fun analyze_loop :: "(Tgid \<Rightarrow> int) \<Rightarrow> Tgid list \<Rightarrow> Tgid \<times> int \<times> Tgid \<times> int \<Rightarrow> Tgid \<times> int \<times> Tgid \<times> int" where
  "analyze_loop counts [] acc = acc"
| "analyze_loop counts (g # groups) (mg, mn, lg, ln) =
     (let (lg, ln) = (if counts g < ln then (g, counts g) else (lg, ln));
          (mg, mn) = (if counts g > mn then (g, counts g) else (mg, mn))
      in analyze_loop counts groups (mg, mn, lg, ln))"

definition analyze :: "ShardConfig \<Rightarrow> Tgid \<times> int \<times> Tgid \<times> int" where
  "analyze c = analyze_loop (\<lambda>g. int (count_list (Shards c) g)) (sort (gids c)) (-1, -1, -1, 257)"

definition least :: "ShardConfig \<Rightarrow> Tgid" where
  "least c = (case analyze c of (_, _, lg, _) \<Rightarrow> lg)"

text \<open>The second loop of \<open>Rebalance\<close>: shards of unknown groups go to the least loaded group.  The loop
  ranges over a copy of the array, so \<open>g\<close> is the assignment before the loop.\<close>

definition assign_one :: "nat \<times> Tgid \<Rightarrow> ShardConfig \<Rightarrow> ShardConfig" where
  "assign_one sg c =
     (if snd sg \<in> set (gids c) then c else c\<lparr>Shards := (Shards c)[fst sg := least c]\<rparr>)"

definition assign_unassigned :: "ShardConfig \<Rightarrow> ShardConfig" where
  "assign_unassigned c = fold assign_one (enumerate 0 (Shards c)) c"

text \<open>The third loop: move one shard from the most to the least loaded group until balanced.\<close>

fun move_one :: "Tgid \<Rightarrow> Tgid \<Rightarrow> Tgid list \<Rightarrow> Tgid list" where
  "move_one mg lg [] = []"
| "move_one mg lg (g # gs) = (if g = mg then lg # gs else g # move_one mg lg gs)"

definition unbalanced :: "ShardConfig \<Rightarrow> bool" where
  "unbalanced c = (case analyze c of (mg, mn, lg, ln) \<Rightarrow> \<not> mn < ln + 2)"

definition balance_step :: "ShardConfig \<Rightarrow> ShardConfig" where
  "balance_step c = (case analyze c of (mg, mn, lg, ln) \<Rightarrow> c\<lparr>Shards := move_one mg lg (Shards c)\<rparr>)"

definition Rebalance :: "ShardConfig \<Rightarrow> ShardConfig option" where
  "Rebalance c =
     (if length (Groups c) < 1 then Some (c\<lparr>Shards := map (\<lambda>_. 0) (Shards c)\<rparr>)
      else while_option unbalanced balance_step (assign_unassigned c))"

text \<open>\<open>Join\<close> and \<open>Leave\<close> return whether the configuration changed; \<open>None\<close> is \<^verbatim>\<open>log.Fatalf\<close>.\<close>

definition shares_server :: "ShardConfig \<Rightarrow> string list \<Rightarrow> bool" where
  "shares_server cfg servers = (\<exists>(xgid, xservers) \<in> set (Groups cfg). \<exists>s1 \<in> set xservers. s1 \<in> set servers)"

fun Join_loop :: "ShardConfig \<Rightarrow> bool \<Rightarrow> (Tgid \<times> string list) list \<Rightarrow> (bool \<times> ShardConfig) option" where
  "Join_loop cfg changed [] =
     (if \<not> changed then None else Some (True, cfg\<lparr>Num := Num cfg + 1\<rparr>))"
| "Join_loop cfg changed ((gid, servers) # rest) =
     (if gid \<in> set (gids cfg) then Some (False, cfg)
      else if shares_server cfg servers then None
      else Join_loop (cfg\<lparr>Groups := Groups cfg @ [(gid, servers)]\<rparr>) True rest)"

definition Join :: "ShardConfig \<Rightarrow> (Tgid \<times> string list) list \<Rightarrow> (bool \<times> ShardConfig) option" where
  "Join cfg servers = Join_loop cfg False servers"

fun Leave_loop :: "ShardConfig \<Rightarrow> bool \<Rightarrow> Tgid list \<Rightarrow> (bool \<times> ShardConfig) option" where
  "Leave_loop cfg changed [] =
     (if \<not> changed then None else Some (True, cfg\<lparr>Num := Num cfg + 1\<rparr>))"
| "Leave_loop cfg changed (gid # rest) =
     (if gid \<notin> set (gids cfg) then Some (False, cfg)
      else Leave_loop (cfg\<lparr>Groups := filter (\<lambda>(g, _). g \<noteq> gid) (Groups cfg)\<rparr>) True rest)"

definition Leave :: "ShardConfig \<Rightarrow> Tgid list \<Rightarrow> (bool \<times> ShardConfig) option" where
  "Leave cfg gs = Leave_loop cfg False gs"

definition JoinBalance :: "ShardConfig \<Rightarrow> (Tgid \<times> string list) list \<Rightarrow> (bool \<times> ShardConfig) option" where
  "JoinBalance cfg servers = do {
     (ok, cfg) \<leftarrow> Join cfg servers;
     if \<not> ok then Some (False, cfg) else do { cfg \<leftarrow> Rebalance cfg; Some (True, cfg) }
   }"

definition LeaveBalance :: "ShardConfig \<Rightarrow> Tgid list \<Rightarrow> (bool \<times> ShardConfig) option" where
  "LeaveBalance cfg gs = do {
     (ok, cfg) \<leftarrow> Leave cfg gs;
     if \<not> ok then Some (False, cfg) else do { cfg \<leftarrow> Rebalance cfg; Some (True, cfg) }
   }"

definition GidServers :: "ShardConfig \<Rightarrow> int \<Rightarrow> (Tgid \<times> string list \<times> bool) option" where
  "GidServers cfg sh = do {
     gid \<leftarrow> go_nth (Shards cfg) sh;
     Some (case map_of (Groups cfg) gid of None \<Rightarrow> (gid, [], False) | Some srvs \<Rightarrow> (gid, srvs, True))
   }"

definition IsMember :: "ShardConfig \<Rightarrow> Tgid \<Rightarrow> bool" where
  "IsMember cfg gid = list_ex (\<lambda>g. g = gid) (Shards cfg)"

text \<open>\<open>CheckConfig\<close> is \<open>True\<close> when no \<^verbatim>\<open>fatalf\<close> is reached.\<close>

fun spread_loop :: "(Tgid \<Rightarrow> int) \<Rightarrow> Tgid list \<Rightarrow> int \<times> int \<Rightarrow> int \<times> int" where
  "spread_loop counts [] acc = acc"
| "spread_loop counts (g # groups) (mx, mi) =
     (let mx = (if counts g > mx then counts g else mx);
          mi = (if counts g < mi then counts g else mi)
      in spread_loop counts groups (mx, mi))"

definition CheckConfig :: "ShardConfig \<Rightarrow> Tgid list \<Rightarrow> bool" where
  "CheckConfig cfg groups =
     (length (Groups cfg) = length groups
      \<and> (\<forall>g \<in> set groups. g \<in> set (gids cfg))
      \<and> (length groups > 0 \<longrightarrow> (\<forall>g \<in> set (Shards cfg). g \<in> set (gids cfg)))
      \<and> (case spread_loop (\<lambda>g. int (count_list (Shards cfg) g)) (gids cfg) (0, 257) of
           (mx, mi) \<Rightarrow> \<not> mx > mi + 1))"

section \<open>Well-formed configurations\<close>

definition cfg_wf :: "ShardConfig \<Rightarrow> bool" where
  "cfg_wf c \<longleftrightarrow> length (Shards c) = nat NShards \<and> distinct (gids c)"

abbreviation load :: "ShardConfig \<Rightarrow> Tgid \<Rightarrow> nat" where
  "load c g \<equiv> count_list (Shards c) g"

definition all_assigned :: "ShardConfig \<Rightarrow> bool" where
  "all_assigned c \<longleftrightarrow> set (Shards c) \<subseteq> set (gids c)"

definition balanced :: "ShardConfig \<Rightarrow> bool" where
  "balanced c \<longleftrightarrow> (\<forall>g \<in> set (gids c). \<forall>h \<in> set (gids c). load c g \<le> load c h + 1)"

lemma cfg_wf_initial [simp]: "cfg_wf MakeShardConfig"
  by (simp add: cfg_wf_def MakeShardConfig_def)

lemma load_bound: "cfg_wf c \<Longrightarrow> load c g < 257"
  using count_le_length [of "Shards c" g] by (simp add: cfg_wf_def NShards_def)

lemma ShardConfig_Copy_eq: "ShardConfig_Copy cfg = cfg"
  by (simp add: ShardConfig_Copy_def MakeShardConfig_def split_beta)

section \<open>analyze\<close>

lemma analyze_loop_spec:
  assumes "analyze_loop cnt gs (mg0, mn0, lg0, ln0) = (mg, mn, lg, ln)"
  shows "mn0 \<le> mn \<and> ln \<le> ln0 \<and> (\<forall>g \<in> set gs. cnt g \<le> mn \<and> ln \<le> cnt g)
       \<and> (mg = mg0 \<and> mn = mn0 \<or> mg \<in> set gs \<and> mn = cnt mg)
       \<and> (lg = lg0 \<and> ln = ln0 \<or> lg \<in> set gs \<and> ln = cnt lg)"
  using assms
proof (induction gs arbitrary: mg0 mn0 lg0 ln0)
  case Nil
  then show ?case by auto
next
  case (Cons g gs)
  show ?case
    using Cons.prems
    by (cases "cnt g < ln0"; cases "cnt g > mn0") (simp; drule Cons.IH; auto)+
qed

lemma analyze_spec:
  assumes "cfg_wf c" and "Groups c \<noteq> []" and "analyze c = (mg, mn, lg, ln)"
  shows "mg \<in> set (gids c)" "lg \<in> set (gids c)" "mn = int (load c mg)" "ln = int (load c lg)"
    "\<forall>g \<in> set (gids c). int (load c g) \<le> mn \<and> ln \<le> int (load c g)"
proof -
  note spec = analyze_loop_spec [OF assms(3) [unfolded analyze_def]]
  obtain g where "g \<in> set (gids c)" using assms(2) by (cases "Groups c") auto
  with spec have "0 \<le> mn" "ln < 257" using load_bound [OF assms(1), of g] by force+
  with spec show "mg \<in> set (gids c)" "lg \<in> set (gids c)" "mn = int (load c mg)" "ln = int (load c lg)"
    "\<forall>g \<in> set (gids c). int (load c g) \<le> mn \<and> ln \<le> int (load c g)" by auto
qed

lemma least_in_gids: "cfg_wf c \<Longrightarrow> Groups c \<noteq> [] \<Longrightarrow> least c \<in> set (gids c)"
  using analyze_spec(2) by (auto simp: least_def split: prod.splits)

section \<open>Rebalance\<close>

lemma assign_fold:
  assumes "cfg_wf c" and "Groups c \<noteq> []" and "Shards c = pre @ ys" and "set pre \<subseteq> set (gids c)"
  shows "Groups (fold assign_one (enumerate (length pre) ys) c) = Groups c
       \<and> Num (fold assign_one (enumerate (length pre) ys) c) = Num c
       \<and> cfg_wf (fold assign_one (enumerate (length pre) ys) c)
       \<and> all_assigned (fold assign_one (enumerate (length pre) ys) c)"
  using assms
proof (induction ys arbitrary: pre c)
  case Nil
  then show ?case by (simp add: all_assigned_def)
next
  case (Cons g ys)
  let ?c = "assign_one (length pre, g) c"
  let ?g = "if g \<in> set (gids c) then g else least c"
  have sh: "Shards ?c = (pre @ [?g]) @ ys" and gr: "Groups ?c = Groups c" "Num ?c = Num c"
    using Cons.prems(3) by (auto simp: assign_one_def)
  have wf: "cfg_wf ?c" using Cons.prems(1,3) sh gr by (simp add: cfg_wf_def)
  have "?g \<in> set (gids c)" using least_in_gids [OF Cons.prems(1,2)] by simp
  with Cons.IH [OF wf _ sh] Cons.prems gr show ?case by simp
qed

lemma assign_unassigned_spec:
  assumes "cfg_wf c" and "Groups c \<noteq> []"
  shows "Groups (assign_unassigned c) = Groups c" "Num (assign_unassigned c) = Num c"
    "cfg_wf (assign_unassigned c)" "all_assigned (assign_unassigned c)"
  using assign_fold [OF assms, of "[]" "Shards c"] by (simp_all add: assign_unassigned_def)

lemma move_one_update:
  "mg \<in> set gs \<Longrightarrow> \<exists>i < length gs. gs ! i = mg \<and> move_one mg lg gs = gs[i := lg]"
proof (induction gs)
  case Nil
  then show ?case by simp
next
  case (Cons g gs)
  show ?case
  proof (cases "g = mg")
    case True
    then show ?thesis by (intro exI [of _ 0]) simp
  next
    case False
    with Cons obtain i where "i < length gs" "gs ! i = mg" "move_one mg lg gs = gs[i := lg]" by auto
    with False show ?thesis by (intro exI [of _ "Suc i"]) simp
  qed
qed

text \<open>The sum of squared loads, which moving a shard from a group to one lighter by two decreases.\<close>

definition potential :: "ShardConfig \<Rightarrow> nat" where
  "potential c = (\<Sum>g \<in> set (gids c). (load c g)\<^sup>2)"

definition rebalancing :: "ShardConfig \<Rightarrow> ShardConfig \<Rightarrow> bool" where
  "rebalancing c0 c \<longleftrightarrow> cfg_wf c \<and> Groups c \<noteq> [] \<and> all_assigned c
     \<and> Groups c = Groups c0 \<and> Num c = Num c0"

lemma balance_step_spec:
  assumes inv: "rebalancing c0 c" and "unbalanced c"
  shows "rebalancing c0 (balance_step c) \<and> potential (balance_step c) < potential c"
proof -
  obtain mg mn lg ln where an: "analyze c = (mg, mn, lg, ln)" by (metis prod_cases4)
  from inv have wf: "cfg_wf c" and ne: "Groups c \<noteq> []" by (auto simp: rebalancing_def)
  note an_spec = analyze_spec [OF wf ne an]
  from assms(2) an have "\<not> mn < ln + 2" by (simp add: unbalanced_def)
  with an_spec have gap: "load c lg + 2 \<le> load c mg" by simp
  then have "mg \<noteq> lg" by auto
  from gap have "mg \<in> set (Shards c)" by (cases "mg \<in> set (Shards c)") simp_all
  then obtain i where i: "i < length (Shards c)" "Shards c ! i = mg"
    and mv: "move_one mg lg (Shards c) = (Shards c)[i := lg]" using move_one_update by blast
  let ?c = "balance_step c"
  have sh: "Shards ?c = (Shards c)[i := lg]" and gr: "Groups ?c = Groups c" "Num ?c = Num c"
    using an mv by (simp_all add: balance_step_def)
  have ld: "load ?c g = (if g = mg then load c g - 1 else if g = lg then load c g + 1 else load c g)" for g
    using count_list_update [OF i(1), of lg g] i(2) \<open>mg \<noteq> lg\<close> by (auto simp: sh split: if_splits)
  have "all_assigned ?c"
    using set_update_subset_insert [of "Shards c" i lg] inv an_spec(2)
    unfolding all_assigned_def rebalancing_def sh gr by blast
  with inv have "rebalancing c0 ?c"
    by (auto simp: rebalancing_def cfg_wf_def gr sh)
  moreover have "potential ?c < potential c"
  proof -
    let ?A = "set (gids c)"
    let ?B = "?A - {mg} - {lg}"
    have split: "(\<Sum>g \<in> ?A. f g) = f mg + (f lg + sum f ?B)" for f :: "Tgid \<Rightarrow> nat"
      using sum.remove [of ?A mg f] sum.remove [of "?A - {mg}" lg f] an_spec(1,2) \<open>mg \<noteq> lg\<close> by simp
    have rest: "(\<Sum>g \<in> ?B. (load ?c g)\<^sup>2) = (\<Sum>g \<in> ?B. (load c g)\<^sup>2)"
      by (rule sum.cong) (auto simp: ld)
    obtain d where "load c mg = load c lg + 2 + d" using gap le_Suc_ex by blast
    then have "(load c mg - 1)\<^sup>2 + (load c lg + 1)\<^sup>2 < (load c mg)\<^sup>2 + (load c lg)\<^sup>2"
      by (simp add: power2_eq_square algebra_simps)
    then show ?thesis
      unfolding potential_def gr split rest using \<open>mg \<noteq> lg\<close> by (simp add: ld)
  qed
  ultimately show ?thesis ..
qed

lemma balanced_when_done:
  assumes "cfg_wf c" and "Groups c \<noteq> []" and "\<not> unbalanced c"
  shows "balanced c"
proof -
  obtain mg mn lg ln where an: "analyze c = (mg, mn, lg, ln)" by (metis prod_cases4)
  with assms(3) have "mn < ln + 2" by (simp add: unbalanced_def)
  moreover have "int (load c g) \<le> mn" "ln \<le> int (load c h)" if "g \<in> set (gids c)" "h \<in> set (gids c)" for g h
    using analyze_spec(5) [OF assms(1,2) an] that by blast+
  ultimately have "int (load c g) \<le> int (load c h) + 1" if "g \<in> set (gids c)" "h \<in> set (gids c)" for g h
    using that by fastforce
  then show ?thesis by (force simp: balanced_def)
qed

lemma Rebalance_total:
  assumes wf: "cfg_wf c" and ne: "Groups c \<noteq> []"
  obtains c' where "Rebalance c = Some c'" "rebalancing c c'" "balanced c'"
proof -
  let ?c = "assign_unassigned c"
  have start: "rebalancing c ?c"
    using assign_unassigned_spec [OF wf ne] ne by (simp add: rebalancing_def)
  obtain c' where c': "while_option unbalanced balance_step ?c = Some c'"
    using measure_while_option_Some [where P = "rebalancing c" and f = potential, OF _ start] balance_step_spec
    by blast
  have "rebalancing c c'"
    by (rule while_option_rule [where P = "rebalancing c", OF _ c' start]) (simp add: balance_step_spec)
  with while_option_stop [OF c'] balanced_when_done have "balanced c'" by (auto simp: rebalancing_def)
  moreover from c' ne have "Rebalance c = Some c'" by (simp add: Rebalance_def Suc_le_eq)
  ultimately show thesis using that \<open>rebalancing c c'\<close> by blast
qed

lemma Rebalance_no_groups:
  "Groups c = [] \<Longrightarrow> Rebalance c = Some (c\<lparr>Shards := replicate (length (Shards c)) 0\<rparr>)"
  by (simp add: Rebalance_def map_replicate_const)

text \<open>
  C32: \<^verbatim>\<open>Rebalance\<close> terminates on every well-formed configuration with a group, and leaves every shard
  assigned to an existing group with the group loads at most one apart; groups and configuration
  number are unchanged.
\<close>

theorem Rebalance_correct:
  assumes "cfg_wf c" and "Groups c \<noteq> []"
  shows "\<exists>c'. Rebalance c = Some c' \<and> cfg_wf c' \<and> all_assigned c' \<and> balanced c'
       \<and> Groups c' = Groups c \<and> Num c' = Num c"
proof -
  from Rebalance_total [OF assms] obtain c' where "Rebalance c = Some c'" "rebalancing c c'" "balanced c'" .
  then show ?thesis by (auto simp: rebalancing_def)
qed

text \<open>A configuration with two groups whose shards all lie with the first.\<close>

definition demo_cfg :: ShardConfig where
  "demo_cfg = \<lparr>Num = 3, Shards = replicate 12 1, Groups = [(2, [''b'']), (1, [''a''])]\<rparr>"

lemma Rebalance_correct_witness:
  "\<exists>c'. Rebalance demo_cfg = Some c' \<and> cfg_wf c' \<and> all_assigned c' \<and> balanced c'
     \<and> Groups c' = Groups demo_cfg \<and> Num c' = Num demo_cfg"
  by (rule Rebalance_correct) (simp_all add: demo_cfg_def cfg_wf_def NShards_def)

section \<open>Joining and leaving\<close>

lemma spread_loop_spec:
  assumes "spread_loop cnt gs (mx0, mi0) = (mx, mi)"
  shows "(mx = mx0 \<or> (\<exists>g \<in> set gs. mx = cnt g)) \<and> (mi = mi0 \<or> (\<exists>g \<in> set gs. mi = cnt g))
       \<and> mi \<le> mi0 \<and> (\<forall>g \<in> set gs. mi \<le> cnt g)"
  using assms
proof (induction gs arbitrary: mx0 mi0)
  case Nil
  then show ?case by simp
next
  case (Cons g gs)
  from Cons.prems
  have "spread_loop cnt gs (if cnt g > mx0 then cnt g else mx0, if cnt g < mi0 then cnt g else mi0) = (mx, mi)"
    by (simp add: Let_def)
  from Cons.IH [OF this] show ?case by (auto split: if_splits)
qed

lemma balanced_CheckConfig:
  assumes wf: "cfg_wf c" and asg: "all_assigned c" and bal: "balanced c"
    and gs: "set gs = set (gids c)" "length gs = length (Groups c)"
  shows "CheckConfig c gs"
proof -
  obtain mx mi where sp: "spread_loop (\<lambda>g. int (load c g)) (gids c) (0, 257) = (mx, mi)" by fastforce
  note spec = spread_loop_spec [OF sp]
  have "mx \<le> mi + 1"
  proof (cases "Groups c")
    case Nil
    with sp show ?thesis by simp
  next
    case (Cons x xs)
    then have x: "fst x \<in> set (gids c)" by simp
    with spec load_bound [OF wf, of "fst x"] have "mi < 257" by force
    with spec obtain h where h: "h \<in> set (gids c)" "mi = int (load c h)" by fastforce
    show ?thesis
    proof (cases "mx = 0")
      case True
      with h show ?thesis by simp
    next
      case False
      with spec obtain g where "g \<in> set (gids c)" "mx = int (load c g)" by fastforce
      with bal h show ?thesis by (fastforce simp: balanced_def)
    qed
  qed
  with sp gs asg show ?thesis by (auto simp: CheckConfig_def all_assigned_def)
qed

lemma no_groups_CheckConfig: "Groups c = [] \<Longrightarrow> CheckConfig c []"
  by (simp add: CheckConfig_def)

lemma shares_server_snoc:
  "shares_server (cfg\<lparr>Groups := Groups cfg @ [(g, sv)]\<rparr>) s \<longleftrightarrow> shares_server cfg s \<or> set sv \<inter> set s \<noteq> {}"
  by (auto simp: shares_server_def)

lemma concat_disjoint:
  "distinct (concat (map snd ((g, sv) # rest))) \<Longrightarrow> (h, s) \<in> set rest \<Longrightarrow> set sv \<inter> set s = {}"
  by force

lemma still_shares_none:
  assumes "\<forall>(g, s) \<in> set ((gid, sv) # rest). \<not> shares_server cfg s"
    and "distinct (concat (map snd ((gid, sv) # rest)))"
  shows "\<forall>(g, s) \<in> set rest. \<not> shares_server (cfg\<lparr>Groups := Groups cfg @ [(gid, sv)]\<rparr>) s"
  using assms(1) concat_disjoint [OF assms(2)] by (auto simp: shares_server_snoc)

lemma gids_filter: "map fst (filter (\<lambda>(g, _). P g) xs) = filter P (map fst xs)"
  by (induction xs) auto

lemma rebalancing_CheckConfig: "rebalancing c c' \<Longrightarrow> balanced c' \<Longrightarrow> CheckConfig c' (gids c')"
  by (rule balanced_CheckConfig) (simp_all add: rebalancing_def)

lemma Join_loop_ok:
  assumes "distinct (map fst servers)" and "set (map fst servers) \<inter> set (gids cfg) = {}"
    and "\<forall>(g, s) \<in> set servers. \<not> shares_server cfg s"
    and "distinct (concat (map snd servers))"
  shows "Join_loop cfg changed servers =
     (if servers = [] \<and> \<not> changed then None
      else Some (True, cfg\<lparr>Num := Num cfg + 1, Groups := Groups cfg @ servers\<rparr>))"
  using assms
proof (induction cfg changed servers rule: Join_loop.induct)
  case (1 cfg changed)
  then show ?case by simp
next
  case (2 cfg changed gid servers rest)
  let ?cfg = "cfg\<lparr>Groups := Groups cfg @ [(gid, servers)]\<rparr>"
  from "2.prems" have new: "gid \<notin> set (gids cfg)" "\<not> shares_server cfg servers" by auto
  have "\<forall>(g, s) \<in> set rest. \<not> shares_server ?cfg s"
    using still_shares_none [OF "2.prems"(3,4)] .
  with "2.IH" new "2.prems" have "Join_loop ?cfg True rest =
      Some (True, ?cfg\<lparr>Num := Num ?cfg + 1, Groups := Groups ?cfg @ rest\<rparr>)" by auto
  with new show ?case by simp
qed

lemma Leave_loop_ok:
  assumes "distinct gs" and "set gs \<subseteq> set (gids cfg)"
  shows "Leave_loop cfg changed gs =
     (if gs = [] \<and> \<not> changed then None
      else Some (True, cfg\<lparr>Num := Num cfg + 1, Groups := filter (\<lambda>(g, _). g \<notin> set gs) (Groups cfg)\<rparr>))"
  using assms
proof (induction cfg changed gs rule: Leave_loop.induct)
  case (1 cfg changed)
  then show ?case by (simp add: split_beta)
next
  case (2 cfg changed gid rest)
  let ?cfg = "cfg\<lparr>Groups := filter (\<lambda>(g, _). g \<noteq> gid) (Groups cfg)\<rparr>"
  from "2.prems" have "gid \<in> set (gids cfg)" "distinct rest" "set rest \<subseteq> set (gids ?cfg)"
    by (auto simp: gids_filter)
  with "2.IH" show ?case
    by (auto simp: case_prod_unfold)
qed

text \<open>
  C33: \<^verbatim>\<open>JoinBalance\<close> with new groups (fresh group ids, servers in no other group) succeeds, advances the
  configuration number by one, adds exactly those groups, and its result passes \<^verbatim>\<open>CheckConfig\<close>.
\<close>

theorem JoinBalance_correct:
  assumes "cfg_wf c" and "servers \<noteq> []"
    and "distinct (map fst servers)" and "set (map fst servers) \<inter> set (gids c) = {}"
    and "\<forall>(g, s) \<in> set servers. \<not> shares_server c s" and "distinct (concat (map snd servers))"
  shows "\<exists>c'. JoinBalance c servers = Some (True, c') \<and> Num c' = Num c + 1
       \<and> Groups c' = Groups c @ servers \<and> cfg_wf c' \<and> CheckConfig c' (gids c')"
proof -
  let ?c = "c\<lparr>Num := Num c + 1, Groups := Groups c @ servers\<rparr>"
  have join: "Join c servers = Some (True, ?c)"
    using Join_loop_ok [OF assms(3-6)] assms(2) by (simp add: Join_def)
  have "cfg_wf ?c" "Groups ?c \<noteq> []" using assms(1-4) by (auto simp: cfg_wf_def)
  from Rebalance_total [OF this] obtain c' where c': "Rebalance ?c = Some c'"
    and reb: "rebalancing ?c c'" and bal: "balanced c'" .
  from rebalancing_CheckConfig [OF reb bal] have "CheckConfig c' (gids c')" .
  with join c' reb show ?thesis by (auto simp: JoinBalance_def rebalancing_def)
qed

lemma JoinBalance_correct_witness:
  "\<exists>c'. JoinBalance MakeShardConfig [(1, [''x'', ''y'', ''z''])] = Some (True, c')
     \<and> Num c' = Num MakeShardConfig + 1 \<and> Groups c' = Groups MakeShardConfig @ [(1, [''x'', ''y'', ''z''])]
     \<and> cfg_wf c' \<and> CheckConfig c' (gids c')"
  by (rule JoinBalance_correct) (simp_all add: MakeShardConfig_def shares_server_def cfg_wf_def)

text \<open>
  \<^verbatim>\<open>LeaveBalance\<close> of existing groups succeeds, advances the configuration number, removes exactly
  those groups, and its result passes \<^verbatim>\<open>CheckConfig\<close>; when the last group leaves, every shard goes to
  the invalid group 0.
\<close>

theorem LeaveBalance_correct:
  assumes "cfg_wf c" and "gs \<noteq> []" and "distinct gs" and "set gs \<subseteq> set (gids c)"
  shows "\<exists>c'. LeaveBalance c gs = Some (True, c') \<and> Num c' = Num c + 1
       \<and> Groups c' = filter (\<lambda>(g, _). g \<notin> set gs) (Groups c) \<and> cfg_wf c' \<and> CheckConfig c' (gids c')
       \<and> (Groups c' = [] \<longrightarrow> Shards c' = replicate (nat NShards) 0)"
proof -
  let ?c = "c\<lparr>Num := Num c + 1, Groups := filter (\<lambda>(g, _). g \<notin> set gs) (Groups c)\<rparr>"
  have leave: "Leave c gs = Some (True, ?c)"
    using Leave_loop_ok [OF assms(3,4)] assms(2) by (simp add: Leave_def)
  have wf: "cfg_wf ?c" using assms(1) by (simp add: cfg_wf_def gids_filter)
  show ?thesis
  proof (cases "Groups ?c = []")
    case True
    let ?d = "?c\<lparr>Shards := replicate (length (Shards ?c)) 0\<rparr>"
    have "LeaveBalance c gs = Some (True, ?d)"
      using Rebalance_no_groups [OF True] leave by (simp add: LeaveBalance_def)
    with wf True no_groups_CheckConfig [of ?d] show ?thesis by (auto simp: cfg_wf_def)
  next
    case False
    from Rebalance_total [OF wf False] obtain c' where c': "Rebalance ?c = Some c'"
      and reb: "rebalancing ?c c'" and bal: "balanced c'" .
    from rebalancing_CheckConfig [OF reb bal] have "CheckConfig c' (gids c')" .
    with leave c' reb show ?thesis by (auto simp: LeaveBalance_def rebalancing_def)
  qed
qed

lemma LeaveBalance_correct_witness:
  "\<exists>c'. LeaveBalance demo_cfg [1] = Some (True, c') \<and> Num c' = Num demo_cfg + 1
     \<and> Groups c' = filter (\<lambda>(g, _). g \<notin> set [1]) (Groups demo_cfg) \<and> cfg_wf c' \<and> CheckConfig c' (gids c')"
proof -
  have "cfg_wf demo_cfg" "[1 :: Tgid] \<noteq> []" "distinct [1 :: Tgid]" "set [1] \<subseteq> set (gids demo_cfg)"
    by (simp_all add: demo_cfg_def cfg_wf_def NShards_def)
  from LeaveBalance_correct [OF this] show ?thesis by blast
qed

text \<open>
  A rejected \<^verbatim>\<open>Join\<close> is not atomic: when a group id is already present it returns \<open>False\<close> with the
  configuration number unchanged, but the groups that the iteration reached before it stay added.
\<close>

theorem Join_rejected_partial:
  assumes "distinct (map fst new)" and "set (map fst new) \<inter> set (gids c) = {}"
    and "\<forall>(g, s) \<in> set new. \<not> shares_server c s" and "distinct (concat (map snd new))"
    and "g \<in> set (gids c)"
  shows "Join c (new @ (g, srvs) # rest) = Some (False, c\<lparr>Groups := Groups c @ new\<rparr>)"
proof -
  have "Join_loop c changed (new @ (g, srvs) # rest) = Some (False, c\<lparr>Groups := Groups c @ new\<rparr>)" for changed
    using assms
  proof (induction c changed new rule: Join_loop.induct)
    case (1 cfg changed)
    then show ?case by simp
  next
    case (2 cfg changed gid servers more)
    let ?cfg = "cfg\<lparr>Groups := Groups cfg @ [(gid, servers)]\<rparr>"
    from "2.prems" have new: "gid \<notin> set (gids cfg)" "\<not> shares_server cfg servers" by auto
    have "\<forall>(g, s) \<in> set more. \<not> shares_server ?cfg s"
      using still_shares_none [OF "2.prems"(3,4)] .
    with "2.IH" new "2.prems" have "Join_loop ?cfg True (more @ (g, srvs) # rest) =
        Some (False, ?cfg\<lparr>Groups := Groups ?cfg @ more\<rparr>)" by auto
    with new show ?case by simp
  qed
  then show ?thesis by (simp add: Join_def)
qed

lemma Join_rejected_partial_witness:
  "Join demo_cfg ([(5, [''e''])] @ (1, [''f'']) # []) =
     Some (False, demo_cfg\<lparr>Groups := Groups demo_cfg @ [(5, [''e''])]\<rparr>)"
  by (rule Join_rejected_partial) (simp_all add: demo_cfg_def shares_server_def)

section \<open>Keys\<close>



end
