(* ===== verification/ShardJson.thy ===== *)
theory ShardJson
  imports ShardCfg GoFmt "HOL-Library.List_Lexorder" "HOL-Library.Char_ord"
begin

text \<open>
  Shard configurations as text: \<open>String\<close> and \<open>FromString\<close> of \<^verbatim>\<open>shardkv1/shardcfg/shardcfg.go\<close>, which store a configuration in the
  key/value service as JSON.  What \<^verbatim>\<open>encoding/json\<close> writes for a \<open>ShardConfig\<close> is modelled for all configurations: numbers in decimal,
  strings with their escapes, the keys of a map sorted as strings.  Reading is modelled on the texts that writing produces.
\<close>

section \<open>Strings\<close>

definition hex_digit :: "nat \<Rightarrow> char" where
  "hex_digit n = char_of (if n < 10 then 48 + n else 87 + n)"

definition hex_value :: "char \<Rightarrow> nat" where
  "hex_value c = (if is_digit c then of_char c - 48 else of_char c - 87)"

text \<open>The escape of a character; characters of more than one byte are copied.\<close>

definition json_escape :: "char \<Rightarrow> string" where
  "json_escape c =
     (if c = CHR 0x22 then [CHR 0x5C, CHR 0x22]
      else if c = CHR 0x5C then [CHR 0x5C, CHR 0x5C]
      else if c = CHR 0x08 then [CHR 0x5C, CHR ''b'']
      else if c = CHR 0x0C then [CHR 0x5C, CHR ''f'']
      else if c = CHR 0x0A then [CHR 0x5C, CHR ''n'']
      else if c = CHR 0x0D then [CHR 0x5C, CHR ''r'']
      else if c = CHR 0x09 then [CHR 0x5C, CHR ''t'']
      else if (of_char c :: nat) < 32 \<or> c \<in> {CHR ''<'', CHR ''>'', CHR ''&''}
        then [CHR 0x5C, CHR ''u'', CHR ''0'', CHR ''0'', hex_digit (of_char c div 16), hex_digit (of_char c mod 16)]
      else [c])"

definition json_string :: "string \<Rightarrow> string" where
  "json_string s = CHR 0x22 # concat (map json_escape s) @ [CHR 0x22]"

definition json_unescape :: "char \<Rightarrow> char option" where
  "json_unescape e = map_of [(CHR 0x22, CHR 0x22), (CHR 0x5C, CHR 0x5C), (CHR ''b'', CHR 0x08), (CHR ''f'', CHR 0x0C),
     (CHR ''n'', CHR 0x0A), (CHR ''r'', CHR 0x0D), (CHR ''t'', CHR 0x09)] e"

text \<open>Reading up to the closing quote.\<close>

fun json_chars :: "string \<Rightarrow> (string \<times> string) option" where
  "json_chars [] = None"
| "json_chars (c # s) =
     (if c = CHR 0x22 then Some ([], s)
      else if c = CHR 0x5C then
        (case s of
           [] \<Rightarrow> None
         | e # s \<Rightarrow>
             if e = CHR ''u'' then
               (case s of
                  CHR ''0'' # CHR ''0'' # a # b # s \<Rightarrow> map_option (apfst ((#) (char_of (16 * hex_value a + hex_value b)))) (json_chars s)
                | _ \<Rightarrow> None)
             else do { x \<leftarrow> json_unescape e; map_option (apfst ((#) x)) (json_chars s) })
      else map_option (apfst ((#) c)) (json_chars s))"

definition read_string :: "string \<Rightarrow> (string \<times> string) option" where
  "read_string s = do { s \<leftarrow> strip [CHR 0x22] s; json_chars s }"

lemma hex_escape: "n < 128 \<Longrightarrow> 16 * hex_value (hex_digit (n div 16)) + hex_value (hex_digit (n mod 16)) = n"
proof -
  have v: "hex_value (hex_digit k) = k" if "k < 16" for k
    using that by (auto simp: hex_value_def hex_digit_def is_digit_def)
  assume "n < 128"
  then show ?thesis by (subst (1 2) v) auto
qed

lemma json_chars_escape: "json_chars (json_escape c @ s) = map_option (apfst ((#) c)) (json_chars s)"
proof -
  have "(of_char c :: nat) < 128" if "(of_char c :: nat) < 32 \<or> c \<in> {CHR ''<'', CHR ''>'', CHR ''&''}" using that by auto
  then have "char_of (16 * hex_value (hex_digit (of_char c div 16)) + hex_value (hex_digit (of_char c mod 16))) = c"
    if "(of_char c :: nat) < 32 \<or> c \<in> {CHR ''<'', CHR ''>'', CHR ''&''}" using that hex_escape [of "of_char c"] by simp
  then show ?thesis by (simp add: json_escape_def json_unescape_def)
qed

lemma json_chars_all: "json_chars (concat (map json_escape s) @ CHR 0x22 # r) = Some (s, r)"
  by (induction s) (simp_all add: json_chars_escape)

lemma read_json_string: "read_string (json_string s @ r) = Some (s, r)"
  using json_chars_all [of s r] by (simp add: read_string_def json_string_def strip_def)

section \<open>Sequences\<close>

fun json_seq :: "('a \<Rightarrow> string) \<Rightarrow> 'a list \<Rightarrow> string" where
  "json_seq enc [] = []"
| "json_seq enc [x] = enc x"
| "json_seq enc (x # y # xs) = enc x @ '','' @ json_seq enc (y # xs)"

text \<open>Reading items separated by commas up to the closing character \<open>e\<close>; the first argument bounds their number.\<close>

fun read_rest :: "nat \<Rightarrow> (string \<Rightarrow> ('a \<times> string) option) \<Rightarrow> char \<Rightarrow> string \<Rightarrow> ('a list \<times> string) option" where
  "read_rest n p e [] = None"
| "read_rest 0 p e (c # s) = (if c = e then Some ([], s) else None)"
| "read_rest (Suc n) p e (c # s) =
     (if c = e then Some ([], s)
      else if c = CHR '','' then do { (x, s) \<leftarrow> p s; (xs, s) \<leftarrow> read_rest n p e s; Some (x # xs, s) }
      else None)"

definition read_seq :: "(string \<Rightarrow> ('a \<times> string) option) \<Rightarrow> char \<Rightarrow> string \<Rightarrow> ('a list \<times> string) option" where
  "read_seq p e s =
     (if take 1 s = [e] then Some ([], drop 1 s)
      else do { (x, s) \<leftarrow> p s; (xs, s) \<leftarrow> read_rest (length s) p e s; Some (x # xs, s) })"

text \<open>\<open>p\<close> reads back what \<open>enc\<close> writes, before a comma or a closing bracket, with which it does not begin.\<close>

definition reads :: "(string \<Rightarrow> ('a \<times> string) option) \<Rightarrow> ('a \<Rightarrow> string) \<Rightarrow> 'a \<Rightarrow> bool" where
  "reads p enc x \<longleftrightarrow> (\<forall>c r. c \<in> {CHR '','', CHR '']'', CHR ''}''} \<longrightarrow> p (enc x @ c # r) = Some (x, c # r))
     \<and> enc x \<noteq> [] \<and> hd (enc x) \<notin> {CHR '']'', CHR ''}''}"

lemma readsD: "reads p enc x \<Longrightarrow> c \<in> {CHR '','', CHR '']'', CHR ''}''} \<Longrightarrow> p (enc x @ c # r) = Some (x, c # r)"
  unfolding reads_def by blast

text \<open>The items after the first, each with its comma.\<close>

definition json_tail :: "('a \<Rightarrow> string) \<Rightarrow> 'a list \<Rightarrow> string" where
  "json_tail enc xs = concat (map (\<lambda>x. '','' @ enc x) xs)"

lemma json_seq_tail: "json_seq enc (x # xs) = enc x @ json_tail enc xs"
  by (induction xs arbitrary: x) (simp_all add: json_tail_def)

lemma read_rest_tail:
  assumes "\<forall>x \<in> set xs. reads p enc x" "e \<in> {CHR '']'', CHR ''}''}" "length xs \<le> n"
  shows "read_rest n p e (json_tail enc xs @ e # r) = Some (xs, r)"
  using assms
proof (induction xs arbitrary: n)
  case Nil
  then show ?case by (cases n) (simp_all add: json_tail_def)
next
  case (Cons x xs)
  then obtain m where m: "n = Suc m" "length xs \<le> m" by (cases n) auto
  have step: "p (enc x @ json_tail enc xs @ e # r) = Some (x, json_tail enc xs @ e # r)"
  proof (cases xs)
    case Nil
    then show ?thesis using readsD [of p enc x e r] Cons.prems(1,2) by (simp add: json_tail_def)
  next
    case (Cons y ys)
    then show ?thesis using readsD [of p enc x "CHR '',''" "enc y @ json_tail enc ys @ e # r"] Cons.prems(1) by (simp add: json_tail_def)
  qed
  have "json_tail enc (x # xs) @ e # r = CHR '','' # enc x @ json_tail enc xs @ e # r" by (simp add: json_tail_def)
  moreover have "e \<noteq> CHR '',''" using Cons.prems(2) by auto
  ultimately show ?case using m Cons.IH [of m] Cons.prems(1,2) step by simp
qed

lemma length_json_tail: "length xs \<le> length (json_tail enc xs)"
  by (induction xs) (simp_all add: json_tail_def)

lemma read_seq_seq:
  assumes "\<forall>x \<in> set xs. reads p enc x" "e \<in> {CHR '']'', CHR ''}''}"
  shows "read_seq p e (json_seq enc xs @ e # r) = Some (xs, r)"
proof (cases xs)
  case Nil
  then show ?thesis by (simp add: read_seq_def)
next
  case (Cons x ys)
  have step: "p (enc x @ json_tail enc ys @ e # r) = Some (x, json_tail enc ys @ e # r)"
  proof (cases ys)
    case Nil
    then show ?thesis using readsD [of p enc x e r] assms Cons by (simp add: json_tail_def)
  next
    case ys: (Cons y zs)
    then show ?thesis using readsD [of p enc x "CHR '',''" "enc y @ json_tail enc zs @ e # r"] assms(1) Cons by (simp add: json_tail_def)
  qed
  have "enc x \<noteq> []" "hd (enc x) \<noteq> e" using assms Cons by (auto simp: reads_def)
  then have "take 1 (enc x @ json_tail enc ys @ e # r) \<noteq> [e]" by (cases "enc x") auto
  moreover have "read_rest (length (json_tail enc ys @ e # r)) p e (json_tail enc ys @ e # r) = Some (ys, r)"
    by (rule read_rest_tail) (use assms Cons length_json_tail [of ys enc] in auto)
  ultimately show ?thesis using step by (simp add: read_seq_def Cons json_seq_tail del: take_append)
qed

section \<open>Configurations\<close>

definition json_array :: "('a \<Rightarrow> string) \<Rightarrow> 'a list \<Rightarrow> string" where
  "json_array enc xs = ''['' @ json_seq enc xs @ '']''"

definition read_array :: "(string \<Rightarrow> ('a \<times> string) option) \<Rightarrow> string \<Rightarrow> ('a list \<times> string) option" where
  "read_array p s = do { s \<leftarrow> strip ''['' s; read_seq p (CHR '']'') s }"

text \<open>An entry of the map: the key as a string, then the servers.\<close>

definition json_group :: "Tgid \<times> string list \<Rightarrow> string" where
  "json_group g = json_string (fmt_int (fst g)) @ '':'' @ json_array json_string (snd g)"

definition read_group :: "string \<Rightarrow> ((Tgid \<times> string list) \<times> string) option" where
  "read_group s = do {
     (k, s) \<leftarrow> read_string s;
     (gid, rest) \<leftarrow> parse_int k;
     s \<leftarrow> (if rest = [] then strip '':'' s else None);
     (srvs, s) \<leftarrow> read_array read_string s;
     Some ((gid, srvs), s)
   }"

definition field :: "string \<Rightarrow> string" where
  "field f = json_string f @ '':''"

definition ShardConfig_String :: "ShardConfig \<Rightarrow> string" where
  "ShardConfig_String cfg =
     (''{'' @ field ''Num'') @ fmt_int (Num cfg) @ ('','' @ field ''Shards'') @ json_array fmt_int (Shards cfg)
     @ ('','' @ field ''Groups'' @ ''{'') @ json_seq json_group (sort_key (\<lambda>g. fmt_int (fst g)) (Groups cfg)) @ ''}}''"

text \<open>\<^verbatim>\<open>log.Fatalf\<close> is \<open>None\<close>.  An array keeps its length: further elements are dropped, missing ones are zero.\<close>

definition FromString :: "string \<Rightarrow> ShardConfig option" where
  "FromString s = do {
     s \<leftarrow> strip (''{'' @ field ''Num'') s;
     (num, s) \<leftarrow> parse_int s;
     s \<leftarrow> strip ('','' @ field ''Shards'') s;
     (shards, s) \<leftarrow> read_array parse_int s;
     s \<leftarrow> strip ('','' @ field ''Groups'' @ ''{'') s;
     (groups, s) \<leftarrow> read_seq read_group (CHR ''}'') s;
     if s = ''}'' then Some \<lparr>Num = num, Shards = take (nat NShards) (shards @ replicate (nat NShards) 0), Groups = groups\<rparr> else None
   }"

lemma reads_int: "reads parse_int fmt_int i"
proof -
  have "stops (c # r)" if "c \<in> {CHR '','', CHR '']'', CHR ''}''}" for c r using that by (auto simp: stops_def is_digit_def)
  moreover have "fmt_int i \<noteq> [] \<and> hd (fmt_int i) \<notin> {CHR '']'', CHR ''}''}"
    using fmt_nat_digits [of "nat i"] by (cases "fmt_nat (nat i)") (auto simp: fmt_int_def is_digit_def)
  ultimately show ?thesis unfolding reads_def using parse_fmt_int [of _ i] by fast
qed

lemma reads_string: "reads read_string json_string x"
  using read_json_string by (auto simp: reads_def) (simp_all add: json_string_def)

lemma read_array_json: "\<forall>x \<in> set xs. reads p enc x \<Longrightarrow> read_array p (json_array enc xs @ r) = Some (xs, r)"
  using read_seq_seq [of xs p enc "CHR '']''" r] by (simp add: read_array_def json_array_def strip_def)

lemma reads_group: "reads read_group json_group g"
proof -
  have "read_group (json_group g @ r) = Some (g, r)" for r
  proof -
    have "parse_int (fmt_int (fst g)) = Some (fst g, [])" using parse_fmt_int [of "[]" "fst g"] by (simp add: stops_def)
    moreover have "read_string (json_group g @ r) = Some (fmt_int (fst g), '':'' @ json_array json_string (snd g) @ r)"
      using read_json_string [of "fmt_int (fst g)" "'':'' @ json_array json_string (snd g) @ r"] by (simp add: json_group_def)
    moreover have "strip '':'' ('':'' @ json_array json_string (snd g) @ r) = Some (json_array json_string (snd g) @ r)" by (rule strip_app)
    ultimately show ?thesis using read_array_json [of "snd g" read_string json_string r] reads_string by (simp add: read_group_def)
  qed
  then show ?thesis by (simp add: reads_def json_group_def json_string_def)
qed



end
