(* ===== verification/KvRaftClerk.thy ===== *)
theory KvRaftClerk
  imports KvRaft
begin

text \<open>
  The client of the replicated key/value service, \<^verbatim>\<open>kvraft1/client.go\<close>: it looks for the leader by trying
  the servers in turn and remembers the one that answered.  A call may fail, or be answered
  \<open>ErrWrongLeader\<close>, although the request was put into the log and executed; both cases carry a flag.
  As in \<^verbatim>\<open>Clerk\<close>, a schedule says what happens to each call, and running off its end is the clerk
  still trying.  Forgetting the servers, the clerk is the clerk of the single-node service.
\<close>

section \<open>The clerk\<close>

record RClerk =
  ck_servers :: "string list"
  ck_leader :: int

definition MakeRClerk :: "string list \<Rightarrow> RClerk" where
  "MakeRClerk servers = \<lparr>ck_servers = servers, ck_leader = 0\<rparr>"

datatype call_result = CallFailed bool | CallWrongLeader bool | CallAnswered

record rattempt =
  r_others :: "PutArgs list"
  r_call :: call_result

text \<open>Only a call that was answered by the leader ends the loop.\<close>

fun took_effect :: "call_result \<Rightarrow> bool" where
  "took_effect (CallFailed ex) = ex"
| "took_effect (CallWrongLeader ex) = ex"
| "took_effect CallAnswered = True"

text \<open>The loop of \<open>Put\<close>: its result (with the server that answered), the service's state, the executions
  and the servers called.  \<open>None\<close> is a panic.\<close>

fun RClerk_Put_loop :: "('s \<Rightarrow> PutArgs \<Rightarrow> 's \<times> PutReply) \<Rightarrow> string list \<Rightarrow> PutArgs \<Rightarrow> bool \<Rightarrow> int
    \<Rightarrow> rattempt list \<Rightarrow> 's \<Rightarrow> ((Err \<times> int) option \<times> 's \<times> trace \<times> string list) option" where
  "RClerk_Put_loop dp servers args first leader [] s = Some (None, s, [], [])"
| "RClerk_Put_loop dp servers args first leader (att # atts) s = do {
     srv \<leftarrow> go_nth servers leader;
     let (s1, tr1) = exec_puts dp (r_others att) s;
     let tr1 = map (Pair False) tr1;
     let (s2, reply) = dp s1 args;
     let own = (True, args, putr_Err reply);
     if r_call att = CallAnswered
     then Some (Some (Clerk_Put_verdict first (putr_Err reply), leader), s2, tr1 @ [own], [srv])
     else do {
       leader \<leftarrow> go_mod (leader + 1) (int (length servers));
       (r, s', tr, called) \<leftarrow> RClerk_Put_loop dp servers args False leader atts
          (if took_effect (r_call att) then s2 else s1);
       Some (r, s', tr1 @ (if took_effect (r_call att) then own # tr else tr), srv # called)
     }
   }"

definition RClerk_Put :: "('s \<Rightarrow> PutArgs \<Rightarrow> 's \<times> PutReply) \<Rightarrow> RClerk \<Rightarrow> string \<Rightarrow> string \<Rightarrow> Tversion
    \<Rightarrow> rattempt list \<Rightarrow> 's \<Rightarrow> (Err option \<times> RClerk \<times> 's \<times> trace \<times> string list) option" where
  "RClerk_Put dp ck key value version atts s = do {
     (r, s', tr, called) \<leftarrow> RClerk_Put_loop dp (ck_servers ck)
        \<lparr>put_Key = key, put_Value = value, put_Version = version\<rparr> True (ck_leader ck) atts s;
     Some (case r of None \<Rightarrow> (None, ck, s', tr, called)
           | Some (e, leader) \<Rightarrow> (Some e, ck\<lparr>ck_leader := leader\<rparr>, s', tr, called))
   }"

fun RClerk_Get_loop :: "('s \<Rightarrow> PutArgs \<Rightarrow> 's \<times> PutReply) \<Rightarrow> ('s \<Rightarrow> GetArgs \<Rightarrow> GetReply) \<Rightarrow> string list \<Rightarrow> GetArgs
    \<Rightarrow> int \<Rightarrow> rattempt list \<Rightarrow> 's \<Rightarrow> (((string \<times> Tversion \<times> Err) \<times> int) option \<times> 's) option" where
  "RClerk_Get_loop dp dg servers args leader [] s = Some (None, s)"
| "RClerk_Get_loop dp dg servers args leader (att # atts) s = do {
     srv \<leftarrow> go_nth servers leader;
     let s1 = fst (exec_puts dp (r_others att) s);
     if r_call att = CallAnswered
     then (let reply = dg s1 args
           in Some (Some ((getr_Value reply, getr_Version reply, getr_Err reply), leader), s1))
     else do {
       leader \<leftarrow> go_mod (leader + 1) (int (length servers));
       RClerk_Get_loop dp dg servers args leader atts s1
     }
   }"

definition RClerk_Get :: "('s \<Rightarrow> PutArgs \<Rightarrow> 's \<times> PutReply) \<Rightarrow> ('s \<Rightarrow> GetArgs \<Rightarrow> GetReply) \<Rightarrow> RClerk \<Rightarrow> string
    \<Rightarrow> rattempt list \<Rightarrow> 's \<Rightarrow> ((string \<times> Tversion \<times> Err) option \<times> RClerk \<times> 's) option" where
  "RClerk_Get dp dg ck key atts s = do {
     (r, s') \<leftarrow> RClerk_Get_loop dp dg (ck_servers ck) \<lparr>get_Key = key\<rparr> (ck_leader ck) atts s;
     Some (case r of None \<Rightarrow> (None, ck, s') | Some (v, leader) \<Rightarrow> (Some v, ck\<lparr>ck_leader := leader\<rparr>, s'))
   }"

section \<open>Forgetting the servers\<close>

definition as_attempt :: "rattempt \<Rightarrow> attempt" where
  "as_attempt a = \<lparr>others = r_others a,
     net = (if r_call a = CallAnswered then Deliver else if took_effect (r_call a) then DropReply else DropRequest)\<rparr>"

lemma as_attempt_sel [simp]:
  "others (as_attempt a) = r_others a"
  "net (as_attempt a) = Deliver \<longleftrightarrow> r_call a = CallAnswered"
  by (simp_all add: as_attempt_def)

definition ck_ok :: "RClerk \<Rightarrow> bool" where
  "ck_ok ck \<longleftrightarrow> 0 \<le> ck_leader ck \<and> ck_leader ck < int (length (ck_servers ck))"

text \<open>The servers a loop that starts at \<open>leader\<close> calls: round robin.\<close>

definition rotation :: "string list \<Rightarrow> int \<Rightarrow> nat \<Rightarrow> string list" where
  "rotation servers leader k = map (\<lambda>j. servers ! nat ((leader + int j) mod int (length servers))) [0..<k]"

lemma rotation_Suc:
  assumes "0 \<le> leader" "leader < int (length servers)"
  shows "rotation servers leader (Suc k) =
     servers ! nat leader # rotation servers ((leader + 1) mod int (length servers)) k"
proof -
  have "[0..<Suc k] = 0 # map Suc [0..<k]" by (simp add: map_Suc_upt upt_conv_Cons del: upt_Suc)
  moreover have "(leader + int (Suc j)) mod int (length servers) =
      ((leader + 1) mod int (length servers) + int j) mod int (length servers)" for j
    by (simp add: mod_add_left_eq add.assoc)
  ultimately show ?thesis using assms by (simp add: rotation_def comp_def del: upt_Suc of_nat_Suc)
qed

lemma RClerk_Put_loop_sim:
  assumes "0 \<le> leader" "leader < int (length servers)"
  shows "\<exists>r s' tr called. RClerk_Put_loop dp servers args first leader atts s = Some (r, s', tr, called)
     \<and> Clerk_Put_loop dp args first (map as_attempt atts) s = (map_option fst r, s', tr)
     \<and> called = rotation servers leader (length called)
     \<and> (\<forall>e l. r = Some (e, l) \<longrightarrow> 0 \<le> l \<and> l < int (length servers) \<and> called \<noteq> [] \<and> last called = servers ! nat l)"
  using assms
proof (induction atts arbitrary: first leader s)
  case Nil
  then show ?case by (simp add: rotation_def)
next
  case (Cons att atts)
  let ?n = "int (length servers)"
  let ?l' = "(leader + 1) mod ?n"
  obtain s1 tr1 where e1: "exec_puts dp (r_others att) s = (s1, tr1)" by fastforce
  obtain s2 reply where e2: "dp s1 args = (s2, reply)" by fastforce
  have srv: "go_nth servers leader = Some (servers ! nat leader)" using Cons.prems by (simp add: go_nth_def)
  have md: "go_mod (leader + 1) ?n = Some ?l'" using Cons.prems by (intro go_mod_nonneg) auto
  have pos: "0 < ?n" using Cons.prems by linarith
  have l': "0 \<le> ?l'" "?l' < ?n" using pos_mod_sign [OF pos] pos_mod_bound [OF pos] by auto
  show ?case
  proof (cases "r_call att = CallAnswered")
    case True
    with e1 e2 srv Cons.prems show ?thesis
      by (simp add: Let_def as_attempt_def rotation_def)
  next
    case False
    let ?s = "if took_effect (r_call att) then s2 else s1"
    from Cons.IH [OF l', of False ?s] obtain r s' tr called where
      IH: "RClerk_Put_loop dp servers args False ?l' atts ?s = Some (r, s', tr, called)"
      "Clerk_Put_loop dp args False (map as_attempt atts) ?s = (map_option fst r, s', tr)"
      "called = rotation servers ?l' (length called)"
      "\<forall>e l. r = Some (e, l) \<longrightarrow> 0 \<le> l \<and> l < ?n \<and> called \<noteq> [] \<and> last called = servers ! nat l" by blast
    let ?called = "servers ! nat leader # called"
    have rot: "?called = rotation servers leader (length ?called)"
      using rotation_Suc [OF Cons.prems] IH(3) by simp
    have "\<forall>e l. r = Some (e, l) \<longrightarrow> 0 \<le> l \<and> l < ?n \<and> ?called \<noteq> [] \<and> last ?called = servers ! nat l"
      using IH(4) by auto
    moreover have "Clerk_Put_loop dp args first (map as_attempt (att # atts)) s =
        (map_option fst r, s', map (Pair False) tr1 @ (if took_effect (r_call att) then (True, args, putr_Err reply) # tr else tr))"
      using False e1 e2 IH(2) by (cases "took_effect (r_call att)") (simp_all add: as_attempt_def Let_def)
    moreover have "RClerk_Put_loop dp servers args first leader (att # atts) s = Some (r, s',
        map (Pair False) tr1 @ (if took_effect (r_call att) then (True, args, putr_Err reply) # tr else tr), ?called)"
      using False e1 e2 srv md IH(1) by (simp add: Let_def)
    ultimately show ?thesis using rot by blast
  qed
qed



end
