(* ===== verification/MrCoordinator.thy ===== *)
theory MrCoordinator
  imports Prelude
begin

text \<open>
  The coordinator of the MapReduce framework, \<^verbatim>\<open>mr/coordinator.go\<close> with the RPC types of \<^verbatim>\<open>mr/rpc.go\<close>.  Each
  RPC handler runs under the coordinator's mutex and is one function on its state; the timeout loop
  is a function of one round.  Times are in nanoseconds, as Go's durations.
\<close>

section \<open>Data\<close>

datatype TaskState = Idle | InProgress | Completed

datatype TaskType = MapTask | ReduceTask | WaitTask | ExitTask

record TaskInfo =
  ti_State :: TaskState
  ti_StartTime :: int
  ti_Filename :: string

record GetTaskReply =
  gt_Type :: TaskType
  gt_TaskId :: int
  gt_Filename :: string
  gt_NReduce :: int
  gt_NMap :: int

record FinishedTaskArgs =
  ft_Type :: TaskType
  ft_TaskId :: int

record Coordinator =
  nReduce :: int
  nMap :: int
  mapTasks :: "TaskInfo list"
  reduceTasks :: "TaskInfo list"
  phase :: TaskType

text \<open>The zero value a worker's reply starts from.\<close>

definition GetTaskReply0 :: GetTaskReply where
  "GetTaskReply0 = \<lparr>gt_Type = MapTask, gt_TaskId = 0, gt_Filename = [], gt_NReduce = 0, gt_NMap = 0\<rparr>"

section \<open>Operations\<close>

text \<open>The scan both phases make: take the first idle task, or report whether all tasks before the end
  were completed.\<close>

datatype scan = Assign nat "TaskInfo list" | NoneIdle bool

function scanTasks :: "TaskInfo list \<Rightarrow> int \<Rightarrow> nat \<Rightarrow> bool \<Rightarrow> scan" where
  "scanTasks tasks now i allDone =
     (if i < length tasks then
        (if ti_State (tasks ! i) = Idle
         then Assign i (tasks[i := (tasks ! i)\<lparr>ti_State := InProgress, ti_StartTime := now\<rparr>])
         else scanTasks tasks now (i + 1) (if ti_State (tasks ! i) \<noteq> Completed then False else allDone))
      else NoneIdle allDone)"
  by pat_completeness auto
termination
  by (relation "measure (\<lambda>(tasks, now, i, allDone). length tasks - i)") auto

declare scanTasks.simps [simp del]

definition GetTask_reduce :: "Coordinator \<Rightarrow> GetTaskReply \<Rightarrow> int \<Rightarrow> Coordinator \<times> GetTaskReply" where
  "GetTask_reduce c reply now =
     (if phase c = ReduceTask then
        (case scanTasks (reduceTasks c) now 0 True of
           Assign i tasks \<Rightarrow>
             (c\<lparr>reduceTasks := tasks\<rparr>,
              reply\<lparr>gt_Type := ReduceTask, gt_TaskId := int i, gt_NReduce := nReduce c, gt_NMap := nMap c\<rparr>)
         | NoneIdle True \<Rightarrow> (c\<lparr>phase := ExitTask\<rparr>, reply\<lparr>gt_Type := ExitTask\<rparr>)
         | NoneIdle False \<Rightarrow> (c, reply\<lparr>gt_Type := WaitTask\<rparr>))
      else (c, reply\<lparr>gt_Type := ExitTask\<rparr>))"

definition GetTask :: "Coordinator \<Rightarrow> GetTaskReply \<Rightarrow> int \<Rightarrow> Coordinator \<times> GetTaskReply" where
  "GetTask c reply now =
     (if phase c = MapTask then
        (case scanTasks (mapTasks c) now 0 True of
           Assign i tasks \<Rightarrow>
             (c\<lparr>mapTasks := tasks\<rparr>,
              reply\<lparr>gt_Type := MapTask, gt_TaskId := int i, gt_Filename := ti_Filename (mapTasks c ! i),
                    gt_NReduce := nReduce c, gt_NMap := nMap c\<rparr>)
         | NoneIdle True \<Rightarrow> GetTask_reduce (c\<lparr>phase := ReduceTask\<rparr>) reply now
         | NoneIdle False \<Rightarrow> (c, reply\<lparr>gt_Type := WaitTask\<rparr>))
      else GetTask_reduce c reply now)"

definition setState :: "TaskInfo list \<Rightarrow> int \<Rightarrow> TaskState \<Rightarrow> TaskInfo list option" where
  "setState tasks i st = do { t \<leftarrow> go_nth tasks i; go_set tasks i (t\<lparr>ti_State := st\<rparr>) }"

definition FinishedTask :: "Coordinator \<Rightarrow> FinishedTaskArgs \<Rightarrow> Coordinator option" where
  "FinishedTask c args =
     (if ft_Type args = MapTask \<and> phase c = MapTask then
        map_option (\<lambda>ts. c\<lparr>mapTasks := ts\<rparr>) (setState (mapTasks c) (ft_TaskId args) Completed)
      else if ft_Type args = ReduceTask \<and> phase c = ReduceTask then
        map_option (\<lambda>ts. c\<lparr>reduceTasks := ts\<rparr>) (setState (reduceTasks c) (ft_TaskId args) Completed)
      else Some c)"

definition timeoutTask :: "int \<Rightarrow> TaskInfo \<Rightarrow> TaskInfo" where
  "timeoutTask now t =
     (if ti_State t = InProgress \<and> now - ti_StartTime t > 10 * 10 ^ 9 then t\<lparr>ti_State := Idle\<rparr> else t)"

text \<open>One round of the loop; in the exit phase it returns.\<close>

definition checkTimeouts :: "Coordinator \<Rightarrow> int \<Rightarrow> Coordinator" where
  "checkTimeouts c now =
     (if phase c = ExitTask then c
      else if phase c = MapTask then c\<lparr>mapTasks := map (timeoutTask now) (mapTasks c)\<rparr>
      else if phase c = ReduceTask then c\<lparr>reduceTasks := map (timeoutTask now) (reduceTasks c)\<rparr>
      else c)"

definition Done :: "Coordinator \<Rightarrow> bool" where
  "Done c = (phase c = ExitTask)"

definition MakeCoordinator :: "string list \<Rightarrow> int \<Rightarrow> Coordinator option" where
  "MakeCoordinator files nred = do {
     rts \<leftarrow> go_make nred \<lparr>ti_State = Idle, ti_StartTime = 0, ti_Filename = []\<rparr>;
     Some \<lparr>nReduce = nred, nMap = int (length files),
           mapTasks = map (\<lambda>file. \<lparr>ti_State = Idle, ti_StartTime = 0, ti_Filename = file\<rparr>) files,
           reduceTasks = rts, phase = MapTask\<rparr>
   }"

section \<open>The coordinator's invariant\<close>

abbreviation all_done :: "TaskInfo list \<Rightarrow> bool" where
  "all_done ts \<equiv> \<forall>t \<in> set ts. ti_State t = Completed"

definition coord_inv :: "string list \<Rightarrow> int \<Rightarrow> Coordinator \<Rightarrow> bool" where
  "coord_inv files nred c \<longleftrightarrow> 0 \<le> nred \<and> nReduce c = nred \<and> nMap c = int (length files)
     \<and> map ti_Filename (mapTasks c) = files \<and> length (reduceTasks c) = nat nred
     \<and> phase c \<noteq> WaitTask
     \<and> (phase c = MapTask \<longrightarrow> (\<forall>t \<in> set (reduceTasks c). ti_State t = Idle))
     \<and> (phase c \<noteq> MapTask \<longrightarrow> all_done (mapTasks c))
     \<and> (phase c = ExitTask \<longrightarrow> all_done (reduceTasks c))"

text \<open>The scan assigns the first idle task, and reports all done exactly when every task is completed.\<close>

definition scan_spec :: "TaskInfo list \<Rightarrow> int \<Rightarrow> nat \<Rightarrow> bool \<Rightarrow> scan \<Rightarrow> bool" where
  "scan_spec tasks now i allDone r \<longleftrightarrow>
     (case r of
        Assign k ts \<Rightarrow> i \<le> k \<and> k < length tasks \<and> ti_State (tasks ! k) = Idle
          \<and> (\<forall>j. i \<le> j \<and> j < k \<longrightarrow> ti_State (tasks ! j) \<noteq> Idle)
          \<and> ts = tasks[k := (tasks ! k)\<lparr>ti_State := InProgress, ti_StartTime := now\<rparr>]
      | NoneIdle b \<Rightarrow> (\<forall>j. i \<le> j \<and> j < length tasks \<longrightarrow> ti_State (tasks ! j) \<noteq> Idle)
          \<and> (b \<longleftrightarrow> allDone \<and> (\<forall>j. i \<le> j \<and> j < length tasks \<longrightarrow> ti_State (tasks ! j) = Completed)))"

lemma scanTasks_spec: "scan_spec tasks now i allDone (scanTasks tasks now i allDone)"
proof (induction tasks now i allDone rule: scanTasks.induct)
  case (1 tasks now i allDone)
  note step = scanTasks.simps [of tasks now i allDone]
  show ?case
  proof (cases "i < length tasks \<and> ti_State (tasks ! i) \<noteq> Idle")
    case False
    then show ?thesis by (auto simp: step scan_spec_def)
  next
    case True
    have shift: "(\<forall>j. i \<le> j \<and> j < n \<longrightarrow> P j) \<longleftrightarrow> (i < n \<longrightarrow> P i) \<and> (\<forall>j. i + 1 \<le> j \<and> j < n \<longrightarrow> P j)" for n P
      by (metis Suc_eq_plus1 Suc_le_eq le_eq_less_or_eq)
    from "1.IH" True show ?thesis
      by (cases "scanTasks tasks now (i + 1) (if ti_State (tasks ! i) \<noteq> Completed then False else allDone)")
         (auto simp: step scan_spec_def shift [of "length tasks"] shift)
  qed
qed

lemma scan_Assign:
  assumes "scanTasks tasks now 0 True = Assign k ts"
  shows "k < length tasks" "ti_State (tasks ! k) = Idle"
    "ts = tasks[k := (tasks ! k)\<lparr>ti_State := InProgress, ti_StartTime := now\<rparr>]"
  using scanTasks_spec [of tasks now 0 True] assms by (auto simp: scan_spec_def)

lemma scan_NoneIdle:
  assumes "scanTasks tasks now 0 True = NoneIdle b"
  shows "b \<longleftrightarrow> all_done tasks" "\<forall>t \<in> set tasks. ti_State t \<noteq> Idle"
  using scanTasks_spec [of tasks now 0 True] assms by (auto simp: scan_spec_def all_set_conv_all_nth)

text \<open>What \<open>GetTask\<close> does, by the kind of its answer.\<close>

lemma GetTask_reduce_cases [consumes 1, case_names task wait exit]:
  assumes "GetTask_reduce c reply now = (c', r)"
  obtains k where "phase c = ReduceTask" "k < length (reduceTasks c)" "ti_State (reduceTasks c ! k) = Idle"
    "c' = c\<lparr>reduceTasks := (reduceTasks c)[k := (reduceTasks c ! k)\<lparr>ti_State := InProgress, ti_StartTime := now\<rparr>]\<rparr>"
    "r = reply\<lparr>gt_Type := ReduceTask, gt_TaskId := int k, gt_NReduce := nReduce c, gt_NMap := nMap c\<rparr>"
  | "phase c = ReduceTask" "\<not> all_done (reduceTasks c)" "\<forall>t \<in> set (reduceTasks c). ti_State t \<noteq> Idle"
    "c' = c" "r = reply\<lparr>gt_Type := WaitTask\<rparr>"
  | "phase c = ReduceTask \<Longrightarrow> all_done (reduceTasks c)"
    "c' = (if phase c = ReduceTask then c\<lparr>phase := ExitTask\<rparr> else c)" "r = reply\<lparr>gt_Type := ExitTask\<rparr>"
proof (cases "phase c = ReduceTask")
  case False
  with assms show thesis by (intro that(3)) (auto simp: GetTask_reduce_def)
next
  case red: True
  show thesis
  proof (cases "scanTasks (reduceTasks c) now 0 True")
    case (Assign k ts)
    note a = scan_Assign [OF Assign]
    from assms red Assign a(3) show thesis by (intro that(1) [OF red a(1,2)]) (auto simp: GetTask_reduce_def)
  next
    case (NoneIdle b)
    note n = scan_NoneIdle [OF NoneIdle]
    show thesis
    proof (cases b)
      case True
      with assms red NoneIdle n show thesis by (intro that(3)) (auto simp: GetTask_reduce_def)
    next
      case False
      with NoneIdle have "scanTasks (reduceTasks c) now 0 True = NoneIdle False" by simp
      with assms red n False show thesis by (intro that(2)) (auto simp: GetTask_reduce_def)
    qed
  qed
qed

lemma GetTask_cases [consumes 1, case_names map_task map_wait reduce]:
  assumes "GetTask c reply now = (c', r)"
  obtains k where "phase c = MapTask" "k < length (mapTasks c)" "ti_State (mapTasks c ! k) = Idle"
    "c' = c\<lparr>mapTasks := (mapTasks c)[k := (mapTasks c ! k)\<lparr>ti_State := InProgress, ti_StartTime := now\<rparr>]\<rparr>"
    "r = reply\<lparr>gt_Type := MapTask, gt_TaskId := int k, gt_Filename := ti_Filename (mapTasks c ! k),
               gt_NReduce := nReduce c, gt_NMap := nMap c\<rparr>"
  | "phase c = MapTask" "\<not> all_done (mapTasks c)" "\<forall>t \<in> set (mapTasks c). ti_State t \<noteq> Idle"
    "c' = c" "r = reply\<lparr>gt_Type := WaitTask\<rparr>"
  | c1 where "c1 = (if phase c = MapTask then c\<lparr>phase := ReduceTask\<rparr> else c)"
    "phase c = MapTask \<Longrightarrow> all_done (mapTasks c)" "GetTask_reduce c1 reply now = (c', r)"
proof (cases "phase c = MapTask")
  case False
  with assms show thesis by (intro that(3)) (auto simp: GetTask_def)
next
  case mp: True
  show thesis
  proof (cases "scanTasks (mapTasks c) now 0 True")
    case (Assign k ts)
    note a = scan_Assign [OF Assign]
    from assms mp Assign a(3) show thesis by (intro that(1) [OF mp a(1,2)]) (auto simp: GetTask_def)
  next
    case (NoneIdle b)
    note n = scan_NoneIdle [OF NoneIdle]
    show thesis
    proof (cases b)
      case True
      with assms mp NoneIdle n show thesis by (intro that(3)) (auto simp: GetTask_def)
    next
      case False
      with NoneIdle have "scanTasks (mapTasks c) now 0 True = NoneIdle False" by simp
      with assms mp n False show thesis by (intro that(2)) (auto simp: GetTask_def)
    qed
  qed
qed

section \<open>Every operation keeps the invariant\<close>

lemma map_filename_update:
  "k < length ts \<Longrightarrow> map ti_Filename (ts[k := (ts ! k)\<lparr>ti_State := st, ti_StartTime := now\<rparr>]) = map ti_Filename ts"
  "k < length ts \<Longrightarrow> map ti_Filename (ts[k := (ts ! k)\<lparr>ti_State := st\<rparr>]) = map ti_Filename ts"
  by (auto simp: map_update intro: list_update_same_conv [THEN iffD2])

lemma GetTask_reduce_inv:
  assumes "GetTask_reduce c reply now = (c', r)" "coord_inv files nred c" "phase c \<noteq> MapTask"
  shows "coord_inv files nred c'"
  using assms(1) by (cases rule: GetTask_reduce_cases) (use assms(2,3) in \<open>auto simp: coord_inv_def\<close>)

lemma GetTask_inv:
  assumes "GetTask c reply now = (c', r)" "coord_inv files nred c" shows "coord_inv files nred c'"
  using assms(1)
proof (cases rule: GetTask_cases)
  case (map_task k)
  with assms(2) show ?thesis using map_filename_update(1) [OF map_task(2)] by (simp add: coord_inv_def)
next
  case map_wait
  with assms(2) show ?thesis by simp
next
  case (reduce c1)
  have "coord_inv files nred c1" "phase c1 \<noteq> MapTask" using assms(2) reduce(1,2) by (auto simp: coord_inv_def)
  with reduce(3) show ?thesis by (rule GetTask_reduce_inv)
qed

lemma GetTask_inv_fst: "coord_inv files nred c \<Longrightarrow> coord_inv files nred (fst (GetTask c reply now))"
  by (rule GetTask_inv [of c reply now _ "snd (GetTask c reply now)"]) simp_all

lemma setState_Some:
  "setState ts i st = Some ts' \<longleftrightarrow> 0 \<le> i \<and> i < int (length ts) \<and> ts' = ts[nat i := (ts ! nat i)\<lparr>ti_State := st\<rparr>]"
  by (auto simp: setState_def bind_Some_iff go_nth_Some go_set_Some)

lemma FinishedTask_inv:
  assumes "FinishedTask c args = Some c'" "coord_inv files nred c" shows "coord_inv files nred c'"
proof -
  consider (m) "ft_Type args = MapTask" "phase c = MapTask" | (r) "ft_Type args = ReduceTask" "phase c = ReduceTask"
    | (other) "c' = c" using assms(1) by (auto simp: FinishedTask_def split: if_splits)
  then show ?thesis
  proof cases
    case m
    let ?i = "nat (ft_TaskId args)"
    from m assms(1) have "?i < length (mapTasks c)"
      "c' = c\<lparr>mapTasks := (mapTasks c)[?i := (mapTasks c ! ?i)\<lparr>ti_State := Completed\<rparr>]\<rparr>"
      by (auto simp: FinishedTask_def setState_Some)
    with assms(2) m show ?thesis by (simp add: coord_inv_def map_filename_update(2))
  next
    case r
    let ?i = "nat (ft_TaskId args)"
    from r assms(1) have "?i < length (reduceTasks c)"
      "c' = c\<lparr>reduceTasks := (reduceTasks c)[?i := (reduceTasks c ! ?i)\<lparr>ti_State := Completed\<rparr>]\<rparr>"
      by (auto simp: FinishedTask_def setState_Some)
    with assms(2) r show ?thesis by (auto simp: coord_inv_def)
  next
    case other
    with assms(2) show ?thesis by simp
  qed
qed

lemma timeoutTask_sel [simp]: "ti_Filename (timeoutTask now t) = ti_Filename t"
  "ti_State t = Idle \<Longrightarrow> timeoutTask now t = t" "ti_State t = Completed \<Longrightarrow> timeoutTask now t = t"
  by (simp_all add: timeoutTask_def)

lemma checkTimeouts_inv: "coord_inv files nred c \<Longrightarrow> coord_inv files nred (checkTimeouts c now)"
  by (auto simp: coord_inv_def checkTimeouts_def comp_def)

lemma MakeCoordinator_inv: "0 \<le> nred \<Longrightarrow> \<exists>c. MakeCoordinator files nred = Some c \<and> coord_inv files nred c"
  by (auto simp: MakeCoordinator_def go_make_def coord_inv_def comp_def)

section \<open>The coordinator on its own\<close>

datatype coord_event = CGetTask int | CFinished FinishedTaskArgs | CTimeouts int

fun coord_step :: "coord_event \<Rightarrow> Coordinator \<Rightarrow> Coordinator option" where
  "coord_step (CGetTask now) c = Some (fst (GetTask c GetTaskReply0 now))"
| "coord_step (CFinished args) c = FinishedTask c args"
| "coord_step (CTimeouts now) c = Some (checkTimeouts c now)"

fun coord_run :: "coord_event list \<Rightarrow> Coordinator \<Rightarrow> Coordinator option" where
  "coord_run [] c = Some c"
| "coord_run (ev # evs) c = Option.bind (coord_step ev c) (coord_run evs)"

lemma coord_run_inv: "coord_run evs c = Some c' \<Longrightarrow> coord_inv files nred c \<Longrightarrow> coord_inv files nred c'"
proof (induction evs arbitrary: c)
  case Nil
  then show ?case by simp
next
  case (Cons ev evs)
  from Cons.prems(1) obtain c1 where c1: "coord_step ev c = Some c1" "coord_run evs c1 = Some c'"
    by (auto simp: bind_Some_iff)
  have "coord_inv files nred c1"
    using c1(1) Cons.prems(2) by (cases ev) (auto intro: GetTask_inv_fst FinishedTask_inv checkTimeouts_inv)
  with Cons.IH c1(2) show ?case by blast
qed

text \<open>
  The phases of a job.  Whatever requests, completions (in time, late or repeated) and timeouts the
  coordinator handles, no reduce task is handed out or started before every map task is completed, and
  \<open>Done\<close> reports the end of the job only when every map and every reduce task is completed; the task
  tables keep their sizes and file names.
\<close>

theorem coordinator_phases:
  assumes "MakeCoordinator files nred = Some c0" and "coord_run evs c0 = Some c"
  shows "map ti_Filename (mapTasks c) = files \<and> length (reduceTasks c) = nat nred
    \<and> ((\<exists>t \<in> set (reduceTasks c). ti_State t \<noteq> Idle) \<longrightarrow> all_done (mapTasks c))
    \<and> (gt_Type (snd (GetTask c GetTaskReply0 now)) = ReduceTask \<longrightarrow> all_done (mapTasks c))
    \<and> (Done c \<longrightarrow> all_done (mapTasks c) \<and> all_done (reduceTasks c))"
proof -
  have "0 \<le> nred" using assms(1) by (auto simp: MakeCoordinator_def bind_Some_iff go_make_Some)
  from MakeCoordinator_inv [OF this, of files] assms(1) have "coord_inv files nred c0" by auto
  with coord_run_inv [OF assms(2)] have inv: "coord_inv files nred c" by blast
  have "all_done (mapTasks c)" if t: "gt_Type (snd (GetTask c GetTaskReply0 now)) = ReduceTask"
  proof (cases "phase c = MapTask")
    case False
    with inv show ?thesis by (simp add: coord_inv_def)
  next
    case True
    obtain c' r where "GetTask c GetTaskReply0 now = (c', r)" by fastforce
    then show ?thesis by (cases rule: GetTask_cases) (use t True \<open>GetTask c GetTaskReply0 now = (c', r)\<close> in auto)
  qed
  with inv show ?thesis by (auto simp: coord_inv_def Done_def)
qed

definition demo_coord :: Coordinator where
  "demo_coord = \<lparr>nReduce = 1, nMap = 1, mapTasks = [\<lparr>ti_State = Idle, ti_StartTime = 0, ti_Filename = ''f''\<rparr>],
     reduceTasks = [\<lparr>ti_State = Idle, ti_StartTime = 0, ti_Filename = []\<rparr>], phase = MapTask\<rparr>"

definition demo_job :: "coord_event list" where
  "demo_job = [CGetTask 1, CFinished \<lparr>ft_Type = MapTask, ft_TaskId = 0\<rparr>, CGetTask 2,
     CFinished \<lparr>ft_Type = ReduceTask, ft_TaskId = 0\<rparr>, CGetTask 3]"

theorem coordinator_phases_witness:
  "\<exists>c. coord_run demo_job demo_coord = Some c \<and> Done c \<and> all_done (reduceTasks c)"
proof -
  have make: "MakeCoordinator [''f''] 1 = Some demo_coord"
    by (simp add: MakeCoordinator_def go_make_def demo_coord_def)
  obtain c where run: "coord_run demo_job demo_coord = Some c" "Done c"
    by (simp add: demo_job_def demo_coord_def GetTask_def GetTask_reduce_def scanTasks.simps FinishedTask_def
        setState_def go_nth_def go_set_def GetTaskReply0_def Done_def)
  from coordinator_phases [OF make run(1)] run show ?thesis by blast
qed

end
