(* ===== verification/MrWorker.thy ===== *)
theory MrWorker
  imports MrCoordinator "HOL-Library.Multiset" "HOL-Library.List_Lexorder" "HOL-Library.Char_ord"
begin

text \<open>
  The work of a MapReduce worker, \<^verbatim>\<open>mr/worker.go\<close>, the sequential program \<^verbatim>\<open>main/mrsequential.go\<close> it must agree
  with, and the word-count and indexer applications of \<^verbatim>\<open>mrapps\<close>.  An intermediate file is the list of
  the records encoded into it.  \<^verbatim>\<open>sort.Sort\<close> is not stable: it is a parameter that returns some
  sorted permutation.  The result is that the buckets of all map tasks, reduced one by one, give the
  lines of the sequential program.
\<close>

section \<open>Map\<close>

record KeyValue =
  kv_Key :: string
  kv_Value :: string

definition ihash :: "string \<Rightarrow> int" where
  "ihash key = uint (fnv32a key AND 0x7FFFFFFF)"

text \<open>The loop that appends each record to its bucket.\<close>

fun bucketize :: "int \<Rightarrow> KeyValue list \<Rightarrow> KeyValue list list \<Rightarrow> KeyValue list list option" where
  "bucketize nred [] buckets = Some buckets"
| "bucketize nred (kv # kva) buckets = do {
     idx \<leftarrow> go_mod (ihash (kv_Key kv)) nred;
     b \<leftarrow> go_nth buckets idx;
     buckets \<leftarrow> go_set buckets idx (b @ [kv]);
     bucketize nred kva buckets
   }"

text \<open>\<open>doMap\<close> up to the buckets, whose files are then written one by one; \<open>None\<close> is a fatal error.\<close>

definition doMap_buckets :: "(string \<Rightarrow> string \<Rightarrow> KeyValue list) \<Rightarrow> (string \<rightharpoonup> string) \<Rightarrow> string \<Rightarrow> int
    \<Rightarrow> KeyValue list list option" where
  "doMap_buckets mapf input filename nred = do {
     content \<leftarrow> input filename;
     buckets \<leftarrow> go_make nred [];
     bucketize nred (mapf filename content) buckets
   }"

section \<open>Reduce\<close>

text \<open>The loop over runs of equal keys in the sorted records.\<close>

function reduce_loop :: "(string \<Rightarrow> string list \<Rightarrow> string) \<Rightarrow> KeyValue list \<Rightarrow> (string \<times> string) list" where
  "reduce_loop reducef [] = []"
| "reduce_loop reducef (kv # rest) =
     (let same = takeWhile (\<lambda>x. kv_Key x = kv_Key kv) rest;
          values = map kv_Value (kv # same);
          output = reducef (kv_Key kv) values
      in (kv_Key kv, output) # reduce_loop reducef (dropWhile (\<lambda>x. kv_Key x = kv_Key kv) rest))"
  by pat_completeness auto
termination
  by (relation "measure (\<lambda>(f, kva). length kva)") (auto simp: less_Suc_eq_le length_dropWhile_le)

definition print_line :: "string \<times> string \<Rightarrow> string" where
  "print_line l = fst l @ '' '' @ snd l @ [CHR 0x0A]"

text \<open>What \<open>doReduce\<close> writes for the records it has read; missing files were skipped by then.\<close>

definition doReduce_output :: "(KeyValue list \<Rightarrow> KeyValue list) \<Rightarrow> (string \<Rightarrow> string list \<Rightarrow> string)
    \<Rightarrow> KeyValue list \<Rightarrow> (string \<times> string) list" where
  "doReduce_output sortf reducef kva = reduce_loop reducef (sortf kva)"

section \<open>The sequential program\<close>

fun seq_intermediate :: "(string \<Rightarrow> string \<Rightarrow> KeyValue list) \<Rightarrow> (string \<rightharpoonup> string) \<Rightarrow> string list \<Rightarrow> KeyValue list option" where
  "seq_intermediate mapf input [] = Some []"
| "seq_intermediate mapf input (filename # fs) = do {
     content \<leftarrow> input filename;
     rest \<leftarrow> seq_intermediate mapf input fs;
     Some (mapf filename content @ rest)
   }"

definition mrsequential :: "(KeyValue list \<Rightarrow> KeyValue list) \<Rightarrow> (string \<Rightarrow> string \<Rightarrow> KeyValue list)
    \<Rightarrow> (string \<Rightarrow> string list \<Rightarrow> string) \<Rightarrow> (string \<rightharpoonup> string) \<Rightarrow> string list \<Rightarrow> (string \<times> string) list option" where
  "mrsequential sortf mapf reducef input files =
     map_option (\<lambda>kva. reduce_loop reducef (sortf kva)) (seq_intermediate mapf input files)"

section \<open>Contracts of the parameters\<close>

text \<open>\<^verbatim>\<open>sort.Sort(ByKey(kva))\<close> returns a permutation that is sorted by key.\<close>

definition key_sort :: "(KeyValue list \<Rightarrow> KeyValue list) \<Rightarrow> bool" where
  "key_sort sortf \<longleftrightarrow> (\<forall>kva. mset (sortf kva) = mset kva \<and> sorted (map kv_Key (sortf kva)))"

text \<open>A reduce function that does not depend on the order of its values.\<close>

definition order_free :: "(string \<Rightarrow> string list \<Rightarrow> string) \<Rightarrow> bool" where
  "order_free reducef \<longleftrightarrow> (\<forall>k vs ws. mset vs = mset ws \<longrightarrow> reducef k vs = reducef k ws)"

section \<open>Buckets\<close>

definition bucket_of :: "int \<Rightarrow> KeyValue \<Rightarrow> int" where
  "bucket_of nred kv = ihash (kv_Key kv) mod nred"

lemma ihash_bounds: "0 \<le> ihash key" "ihash key < 2 ^ 31"
proof -
  have "fnv32a key AND 0x7FFFFFFF = take_bit 31 (fnv32a key)" by (simp add: take_bit_eq_mask mask_eq_exp_minus_1)
  then have "ihash key = uint (take_bit 31 (fnv32a key))" by (simp add: ihash_def)
  also have "\<dots> = take_bit 31 (uint (fnv32a key))" by (simp add: unsigned_take_bit_eq)
  finally show "ihash key < 2 ^ 31" by (simp add: take_bit_eq_mod)
  show "0 \<le> ihash key" by (simp add: ihash_def)
qed

lemma bucketize_eq:
  assumes "0 < nred" "length buckets = nat nred"
  shows "bucketize nred kva buckets =
     Some (map (\<lambda>r. buckets ! r @ filter (\<lambda>kv. bucket_of nred kv = int r) kva) [0..<nat nred])"
  using assms
proof (induction kva arbitrary: buckets)
  case Nil
  from map_nth [of buckets] show ?case by (simp add: Nil(2))
next
  case (Cons kv kva)
  let ?b = "bucket_of nred kv"
  have idx: "go_mod (ihash (kv_Key kv)) nred = Some ?b"
    using go_mod_nonneg [OF ihash_bounds(1) Cons.prems(1)] by (simp add: bucket_of_def)
  have b: "0 \<le> ?b" "?b < nred" using Cons.prems(1) by (simp_all add: bucket_of_def)
  let ?bs = "buckets[nat ?b := buckets ! nat ?b @ [kv]]"
  have "bucketize nred (kv # kva) buckets = bucketize nred kva ?bs"
    using idx b Cons.prems by (simp add: go_nth_def go_set_def)
  also have "\<dots> = Some (map (\<lambda>r. ?bs ! r @ filter (\<lambda>kv. bucket_of nred kv = int r) kva) [0..<nat nred])"
    using Cons.IH [of ?bs] Cons.prems by simp
  also have "map (\<lambda>r. ?bs ! r @ filter (\<lambda>kv. bucket_of nred kv = int r) kva) [0..<nat nred]
      = map (\<lambda>r. buckets ! r @ filter (\<lambda>kv. bucket_of nred kv = int r) (kv # kva)) [0..<nat nred]"
    using b Cons.prems by (auto simp: nth_list_update)
  finally show ?case .
qed

lemma doMap_buckets_eq:
  assumes "0 < nred" "input filename = Some content"
  shows "doMap_buckets mapf input filename nred =
     Some (map (\<lambda>r. filter (\<lambda>kv. bucket_of nred kv = int r) (mapf filename content)) [0..<nat nred])"
  using assms bucketize_eq [OF assms(1), of "replicate (nat nred) []"]
  by (simp add: doMap_buckets_def go_make_def)

text \<open>
  Partitioning.  \<open>doMap\<close> on a readable input distributes exactly the records of the map function over
  the reduce tasks: bucket \<open>r\<close> holds, in order, the records whose key hashes to \<open>r\<close>, and nothing panics
  however many reduce tasks there are (at least one).
\<close>

theorem doMap_partitions:
  assumes "0 < nred" and "input filename = Some content"
  shows "doMap_buckets mapf input filename nred =
     Some (map (\<lambda>r. filter (\<lambda>kv. bucket_of nred kv = int r) (mapf filename content)) [0..<nat nred])"
  using assms by (rule doMap_buckets_eq)

theorem doMap_partitions_witness:
  "\<exists>bs. doMap_buckets (\<lambda>f c. [\<lparr>kv_Key = c, kv_Value = f\<rparr>]) [''in'' \<mapsto> ''a''] ''in'' 1 = Some bs
     \<and> bs = [[\<lparr>kv_Key = ''a'', kv_Value = ''in''\<rparr>]]"
  using doMap_partitions [of 1 "[''in'' \<mapsto> ''a'']" "''in''" "''a''" "\<lambda>f c. [\<lparr>kv_Key = c, kv_Value = f\<rparr>]"]
  by (simp add: bucket_of_def)

section \<open>Reducing sorted records\<close>

definition key_values :: "KeyValue list \<Rightarrow> string \<Rightarrow> string list" where
  "key_values kva k = map kv_Value (filter (\<lambda>kv. kv_Key kv = k) kva)"

abbreviation keys_of :: "KeyValue list \<Rightarrow> string set" where
  "keys_of kva \<equiv> kv_Key ` set kva"

lemma sorted_runs:
  assumes "sorted (map kv_Key (kv # rest))"
  shows "\<forall>x \<in> set (dropWhile (\<lambda>x. kv_Key x = kv_Key kv) rest). kv_Key kv < kv_Key x"
  using assms
proof (induction rest)
  case Nil
  then show ?case by simp
next
  case (Cons y rest)
  show ?case
  proof (cases "kv_Key y = kv_Key kv")
    case True
    with Cons show ?thesis by auto
  next
    case False
    with Cons.prems have "kv_Key kv < kv_Key y" by auto
    with Cons.prems False show ?thesis by (auto intro: less_le_trans)
  qed
qed

lemma insert_run: "B = insert k A \<Longrightarrow> A = S \<union> D \<Longrightarrow> S \<subseteq> {k} \<Longrightarrow> B = insert k D"
  by blast

lemma sorted_list_insert_least:
  assumes "finite K" "\<forall>y \<in> K. k < y"
  shows "sorted_list_of_set (insert k K) = k # sorted_list_of_set (K :: 'a :: linorder set)"
proof -
  have "K - {k} = K" using assms(2) by auto
  with assms show ?thesis by (simp add: insort_is_Cons less_imp_le)
qed

text \<open>On sorted records the loop produces one line per distinct key, in key order, with all the key's
  values.\<close>

lemma reduce_loop_sorted:
  "sorted (map kv_Key kva) \<Longrightarrow>
     reduce_loop reducef kva = map (\<lambda>k. (k, reducef k (key_values kva k))) (sorted_list_of_set (keys_of kva))"
proof (induction reducef kva rule: reduce_loop.induct)
  case (1 reducef)
  then show ?case by simp
next
  case (2 reducef kv rest)
  let ?k = "kv_Key kv"
  let ?S = "takeWhile (\<lambda>x. kv_Key x = ?k) rest" and ?D = "dropWhile (\<lambda>x. kv_Key x = ?k) rest"
  have rest: "rest = ?S @ ?D" by simp
  have gt: "\<forall>x \<in> set ?D. ?k < kv_Key x" by (rule sorted_runs [OF "2.prems"])
  have S: "\<forall>x \<in> set ?S. kv_Key x = ?k" by (auto dest: set_takeWhileD)
  have sD: "sorted (map kv_Key ?D)"
  proof -
    have "sorted (map kv_Key rest)" using "2.prems" by simp
    then have "sorted (map kv_Key (?S @ ?D))" unfolding rest [symmetric] .
    then show ?thesis unfolding map_append sorted_append by blast
  qed
  have keys: "keys_of (kv # rest) = insert ?k (keys_of ?D)"
  proof -
    have "keys_of rest = keys_of (?S @ ?D)" by (simp only: takeWhile_dropWhile_id)
    also have "\<dots> = keys_of ?S \<union> keys_of ?D" by (simp only: set_append image_Un)
    finally have "keys_of rest = keys_of ?S \<union> keys_of ?D" .
    moreover have "keys_of ?S \<subseteq> {?k}" using S by blast
    moreover have "keys_of (kv # rest) = insert ?k (keys_of rest)" by simp
    ultimately show ?thesis by (rule insert_run [rotated])
  qed
  have filt: "filter P rest = filter P ?S @ filter P ?D" for P
  proof -
    have "filter P rest = filter P (?S @ ?D)" by (simp only: takeWhile_dropWhile_id)
    then show ?thesis by (rule trans) (rule filter_append)
  qed
  have kv_k: "key_values (kv # rest) ?k = map kv_Value (kv # ?S)"
  proof -
    have "filter (\<lambda>x. kv_Key x = ?k) ?D = []" by (rule filter_False) (rule ballI, use gt in \<open>metis less_irrefl\<close>)
    moreover have "filter (\<lambda>x. kv_Key x = ?k) ?S = ?S" by (rule filter_True) (rule S)
    ultimately have "filter (\<lambda>x. kv_Key x = ?k) rest = ?S" unfolding filt by simp
    then show ?thesis unfolding key_values_def filter.simps by simp
  qed
  have kv_D: "key_values (kv # rest) k = key_values ?D k" if "k \<in> keys_of ?D" for k
  proof -
    have ne: "k \<noteq> ?k" using that gt by auto
    have "filter (\<lambda>x. kv_Key x = k) ?S = []" by (rule filter_False) (use S ne in metis)
    then have "filter (\<lambda>x. kv_Key x = k) rest = filter (\<lambda>x. kv_Key x = k) ?D" unfolding filt by simp
    with ne show ?thesis unfolding key_values_def filter.simps by simp
  qed
  have "sorted_list_of_set (insert ?k (keys_of ?D)) = ?k # sorted_list_of_set (keys_of ?D)"
    by (rule sorted_list_insert_least) (use gt in auto)
  then have "map (\<lambda>k. (k, reducef k (key_values (kv # rest) k))) (sorted_list_of_set (keys_of (kv # rest))) =
      (?k, reducef ?k (map kv_Value (kv # ?S))) # map (\<lambda>k. (k, reducef k (key_values ?D k))) (sorted_list_of_set (keys_of ?D))"
    using kv_k kv_D keys by (auto intro!: map_cong)
  with "2.IH" [OF refl refl refl sD] show ?case by (simp add: Let_def)
qed

text \<open>With an order-free reduce function the result does not depend on the sort.\<close>

lemma key_values_perm: "mset kva = mset kvb \<Longrightarrow> mset (key_values kva k) = mset (key_values kvb k)"
  by (simp add: key_values_def mset_filter)

lemma doReduce_output_eq:
  assumes "key_sort sortf" "order_free reducef"
  shows "doReduce_output sortf reducef kva =
     map (\<lambda>k. (k, reducef k (key_values kva k))) (sorted_list_of_set (keys_of kva))"
proof -
  from assms(1) have s: "mset (sortf kva) = mset kva" "sorted (map kv_Key (sortf kva))" by (auto simp: key_sort_def)
  from mset_eq_setD [OF s(1)] have "keys_of (sortf kva) = keys_of kva" by simp
  moreover have "reducef k (key_values (sortf kva) k) = reducef k (key_values kva k)" for k
    using assms(2) key_values_perm [OF s(1), of k] unfolding order_free_def by blast
  ultimately show ?thesis using reduce_loop_sorted [OF s(2), of reducef] by (simp add: doReduce_output_def)
qed

section \<open>All buckets together\<close>

definition in_bucket :: "int \<Rightarrow> int \<Rightarrow> KeyValue list \<Rightarrow> KeyValue list" where
  "in_bucket nred r kva = filter (\<lambda>kv. bucket_of nred kv = r) kva"

lemma in_bucket_keys: "keys_of (in_bucket nred r kva) = {k \<in> keys_of kva. ihash k mod nred = r}"
  by (auto simp: in_bucket_def bucket_of_def)

lemma in_bucket_values: "ihash k mod nred = r \<Longrightarrow> key_values (in_bucket nred r kva) k = key_values kva k"
  unfolding key_values_def in_bucket_def filter_filter bucket_of_def by (metis (mono_tags, lifting) filter_cong)

lemma sum_list_upto: "sum_list (map f [0..<n]) = sum f {..<n}"
  by (simp add: interv_sum_list_conv_sum_set_nat atLeast0LessThan)

lemma image_mset_sum_upto: "image_mset f (\<Sum>r<n. g r) = (\<Sum>r<(n :: nat). image_mset f (g r))"
  by (induction n) simp_all

lemma mset_sorted_set: "mset (sorted_list_of_set A) = mset_set A"
  by (metis mset_sorted_list_of_multiset sorted_list_of_mset_set)

lemma mset_set_partition:
  assumes "finite A" "\<And>a. a \<in> A \<Longrightarrow> f a < n"
  shows "mset_set A = (\<Sum>r<n. mset_set {a \<in> A. f a = (r :: nat)})"
  using assms
proof (induction n arbitrary: A)
  case 0
  then have "A = {}" by auto
  then show ?case by simp
next
  case (Suc n)
  let ?B = "{a \<in> A. f a < n}" and ?C = "{a \<in> A. f a = n}"
  have "mset_set A = mset_set ?B + mset_set ?C"
  proof -
    have "A = ?B \<union> ?C" using Suc.prems(2) by (auto simp: less_Suc_eq)
    moreover have "?B \<inter> ?C = {}" by auto
    ultimately show ?thesis using Suc.prems(1) mset_set_Union [of ?B ?C] by (metis finite_Un)
  qed
  moreover have "mset_set ?B = (\<Sum>r<n. mset_set {a \<in> ?B. f a = r})"
    using Suc.prems(1) by (intro Suc.IH) auto
  moreover have "\<dots> = (\<Sum>r<n. mset_set {a \<in> A. f a = r})" by (intro sum.cong arg_cong [of _ _ mset_set]) auto
  ultimately show ?case by simp
qed

text \<open>If every bucket of the intermediate records is reduced on its own, all buckets together print exactly
  the lines of the sequential program.\<close>

lemma buckets_sequential:
  assumes "0 < nred" and "key_sort sortf" and "order_free reducef" and "mrsequential sortf mapf reducef input files = Some out"
    and "seq_intermediate mapf input files = Some kva"
  shows "mset (concat (map (\<lambda>r. doReduce_output sortf reducef (in_bucket nred (int r) kva)) [0..<nat nred])) = mset out"
proof -
  let ?line = "\<lambda>k. (k, reducef k (key_values kva k))"
  let ?K = "\<lambda>r. {k \<in> keys_of kva. ihash k mod nred = int r}"
  have bucket: "mset (doReduce_output sortf reducef (in_bucket nred (int r) kva)) = image_mset ?line (mset_set (?K r))" for r
  proof -
    have "map (\<lambda>k. (k, reducef k (key_values (in_bucket nred (int r) kva) k))) (sorted_list_of_set (?K r))
        = map ?line (sorted_list_of_set (?K r))"
      using in_bucket_values by (auto intro!: map_cong)
    then have "doReduce_output sortf reducef (in_bucket nred (int r) kva) = map ?line (sorted_list_of_set (?K r))"
      unfolding doReduce_output_eq [OF assms(2,3)] in_bucket_keys .
    then show ?thesis by (simp add: mset_sorted_set)
  qed
  have out: "mset out = image_mset ?line (mset_set (keys_of kva))"
    using assms(4,5) doReduce_output_eq [OF assms(2,3), of kva]
    by (auto simp: mrsequential_def doReduce_output_def mset_sorted_set)
  have "mset_set (keys_of kva) = (\<Sum>r<nat nred. mset_set {k \<in> keys_of kva. nat (ihash k mod nred) = r})"
    using assms(1) by (intro mset_set_partition) (auto simp: nat_less_iff)
  also have "\<dots> = (\<Sum>r<nat nred. mset_set (?K r))"
    using assms(1) by (intro sum.cong arg_cong [of _ _ mset_set]) auto
  finally have "image_mset ?line (mset_set (keys_of kva)) = (\<Sum>r<nat nred. image_mset ?line (mset_set (?K r)))"
    by (simp add: image_mset_sum_upto)
  with out bucket show ?thesis by (simp add: mset_concat comp_def sum_list_upto)
qed

section \<open>Applications\<close>

text \<open>\<^verbatim>\<open>mrapps/wc.go\<close> and \<^verbatim>\<open>mrapps/indexer.go\<close>.  Splitting into words is \<^verbatim>\<open>strings.FieldsFunc\<close> with the
  characters for which \<open>letter\<close> (\<^verbatim>\<open>unicode.IsLetter\<close>) fails as separators; decimal printing is a parameter
  for \<^verbatim>\<open>strconv.Itoa\<close> and \<^verbatim>\<open>%d\<close>.\<close>

function FieldsFunc :: "(char \<Rightarrow> bool) \<Rightarrow> string \<Rightarrow> string list" where
  "FieldsFunc letter s =
     (let s = dropWhile (Not \<circ> letter) s
      in if s = [] then [] else takeWhile letter s # FieldsFunc letter (dropWhile letter s))"
  by pat_completeness auto
termination
proof (relation "measure (\<lambda>(l, s). length s)", goal_cases)
  case (2 letter s x)
  then have "letter (hd x)" "x \<noteq> []" using hd_dropWhile [of "Not \<circ> letter" s] by auto
  then have "length (dropWhile letter x) < length x"
    by (cases x) (auto simp: less_Suc_eq_le length_dropWhile_le)
  also have "\<dots> \<le> length s" using 2 by (simp add: length_dropWhile_le)
  finally show ?case by simp
qed simp

declare FieldsFunc.simps [simp del]

definition wc_Map :: "(char \<Rightarrow> bool) \<Rightarrow> string \<Rightarrow> string \<Rightarrow> KeyValue list" where
  "wc_Map letter filename contents = map (\<lambda>w. \<lparr>kv_Key = w, kv_Value = ''1''\<rparr>) (FieldsFunc letter contents)"

definition wc_Reduce :: "(nat \<Rightarrow> string) \<Rightarrow> string \<Rightarrow> string list \<Rightarrow> string" where
  "wc_Reduce itoa key values = itoa (length values)"

text \<open>The indexer's map prints each distinct word once; \<open>order\<close> is the iteration order of its Go map.\<close>

definition indexer_Map :: "(char \<Rightarrow> bool) \<Rightarrow> (string list \<Rightarrow> string list) \<Rightarrow> string \<Rightarrow> string \<Rightarrow> KeyValue list" where
  "indexer_Map letter order document value =
     map (\<lambda>w. \<lparr>kv_Key = w, kv_Value = document\<rparr>) (order (remdups (FieldsFunc letter value)))"

fun strings_Join :: "string list \<Rightarrow> string \<Rightarrow> string" where
  "strings_Join [] sep = []"
| "strings_Join [x] sep = x"
| "strings_Join (x # y # xs) sep = x @ sep @ strings_Join (y # xs) sep"

definition indexer_Reduce :: "(nat \<Rightarrow> string) \<Rightarrow> string \<Rightarrow> string list \<Rightarrow> string" where
  "indexer_Reduce itoa key values =
     (let values = sort values in itoa (length values) @ '' '' @ strings_Join values '','')"

text \<open>\<^verbatim>\<open>mrapps/nocrash.go\<close> (and \<^verbatim>\<open>crash.go\<close>, in the runs where it does not crash).\<close>

definition nocrash_Map :: "(nat \<Rightarrow> string) \<Rightarrow> string \<Rightarrow> string \<Rightarrow> KeyValue list" where
  "nocrash_Map itoa filename contents =
     [\<lparr>kv_Key = ''a'', kv_Value = filename\<rparr>, \<lparr>kv_Key = ''b'', kv_Value = itoa (length filename)\<rparr>,
      \<lparr>kv_Key = ''c'', kv_Value = itoa (length contents)\<rparr>, \<lparr>kv_Key = ''d'', kv_Value = ''xyzzy''\<rparr>]"

definition nocrash_Reduce :: "string \<Rightarrow> string list \<Rightarrow> string" where
  "nocrash_Reduce key values =
     (let vv = go_copy (replicate (length values) []) values in strings_Join (sort vv) '' '')"

text \<open>
  The applications' reduce functions do not depend on the order of the values they are given, so
  their output is the same in every run.
\<close>

theorem apps_order_free:
  "order_free (wc_Reduce itoa) \<and> order_free (indexer_Reduce itoa) \<and> order_free nocrash_Reduce"
proof -
  have srt: "sort vs = sort ws" if "mset vs = mset ws" for vs ws :: "string list"
    using that by (metis properties_for_sort mset_sort sorted_sort)
  have nc: "nocrash_Reduce k vs = strings_Join (sort vs) '' ''" for k vs by (simp add: nocrash_Reduce_def)
  have "order_free (wc_Reduce itoa)" by (auto simp: order_free_def wc_Reduce_def dest: mset_eq_length)
  moreover have "order_free (indexer_Reduce itoa)"
    unfolding order_free_def indexer_Reduce_def Let_def using srt by metis
  moreover have "order_free nocrash_Reduce" unfolding order_free_def nc using srt by metis
  ultimately show ?thesis by blast
qed

end
