(* ===== verification/MrSystem.thy ===== *)
theory MrSystem
  imports MrWorker
begin

text \<open>
  A whole MapReduce job: the coordinator, any number of workers (\<^verbatim>\<open>mr/worker.go\<close>, \<open>Worker\<close>) and the shared
  directory.  A worker is a small state machine: it asks for a task, writes its intermediate files
  one by one (each appears atomically, by renaming), or reads the files of its bucket and writes the
  output file, and then reports; the report may be lost, the worker may be slow, stopped or crash
  at any point, and tasks that time out are handed to other workers, so a task may be executed many
  times at once.  File \<open>inter m r\<close> is \<^verbatim>\<open>mr-m-r\<close> and \<open>outs r\<close> is \<^verbatim>\<open>mr-out-r\<close>.
\<close>

section \<open>The system\<close>

datatype wstate =
    WFree
  | WMap int "KeyValue list list" nat
  | WReduce int int int "KeyValue list"
  | WReduced int
  | WGone

record mr_sys =
  coord :: Coordinator
  inter :: "int \<Rightarrow> int \<Rightarrow> KeyValue list option"
  outs :: "int \<Rightarrow> (string \<times> string) list option"
  workers :: "nat \<Rightarrow> wstate"

text \<open>What the worker does with the coordinator's answer; a fatal error ends the process.\<close>

definition take_task :: "(string \<Rightarrow> string \<Rightarrow> KeyValue list) \<Rightarrow> (string \<rightharpoonup> string) \<Rightarrow> GetTaskReply \<Rightarrow> wstate" where
  "take_task mapf input reply =
     (case gt_Type reply of
        MapTask \<Rightarrow>
          (case doMap_buckets mapf input (gt_Filename reply) (gt_NReduce reply) of
             None \<Rightarrow> WGone
           | Some buckets \<Rightarrow> WMap (gt_TaskId reply) buckets 0)
      | ReduceTask \<Rightarrow> WReduce (gt_TaskId reply) (gt_NMap reply) 0 []
      | WaitTask \<Rightarrow> WFree
      | ExitTask \<Rightarrow> WGone)"

definition read_file :: "KeyValue list option \<Rightarrow> KeyValue list" where
  "read_file f = (case f of None \<Rightarrow> [] | Some kva \<Rightarrow> kva)"

inductive mr_step :: "(KeyValue list \<Rightarrow> KeyValue list) \<Rightarrow> (string \<Rightarrow> string \<Rightarrow> KeyValue list)
    \<Rightarrow> (string \<Rightarrow> string list \<Rightarrow> string) \<Rightarrow> (string \<rightharpoonup> string) \<Rightarrow> mr_sys \<Rightarrow> mr_sys \<Rightarrow> bool"
  for sortf mapf reducef input where
  mr_get: "workers s w = WFree \<Longrightarrow> GetTask (coord s) GetTaskReply0 now = (c, reply) \<Longrightarrow>
    mr_step sortf mapf reducef input s
      (s\<lparr>coord := c, workers := (workers s)(w := take_task mapf input reply)\<rparr>)"
| mr_write: "workers s w = WMap t buckets r \<Longrightarrow> r < length buckets \<Longrightarrow>
    mr_step sortf mapf reducef input s
      (s\<lparr>inter := (inter s)(t := (inter s t)(int r := Some (buckets ! r))),
         workers := (workers s)(w := WMap t buckets (r + 1))\<rparr>)"
| mr_map_done: "workers s w = WMap t buckets r \<Longrightarrow> r = length buckets \<Longrightarrow>
    FinishedTask (coord s) \<lparr>ft_Type = MapTask, ft_TaskId = t\<rparr> = Some c \<Longrightarrow>
    mr_step sortf mapf reducef input s (s\<lparr>coord := c, workers := (workers s)(w := WFree)\<rparr>)"
| mr_read: "workers s w = WReduce t nm m kva \<Longrightarrow> m < nm \<Longrightarrow>
    mr_step sortf mapf reducef input s
      (s\<lparr>workers := (workers s)(w := WReduce t nm (m + 1) (kva @ read_file (inter s m t)))\<rparr>)"
| mr_output: "workers s w = WReduce t nm m kva \<Longrightarrow> \<not> m < nm \<Longrightarrow>
    mr_step sortf mapf reducef input s
      (s\<lparr>outs := (outs s)(t := Some (doReduce_output sortf reducef kva)), workers := (workers s)(w := WReduced t)\<rparr>)"
| mr_reduce_done: "workers s w = WReduced t \<Longrightarrow>
    FinishedTask (coord s) \<lparr>ft_Type = ReduceTask, ft_TaskId = t\<rparr> = Some c \<Longrightarrow>
    mr_step sortf mapf reducef input s (s\<lparr>coord := c, workers := (workers s)(w := WFree)\<rparr>)"
| mr_report_lost: "workers s w = WMap t buckets (length buckets) \<or> workers s w = WReduced t \<Longrightarrow>
    mr_step sortf mapf reducef input s (s\<lparr>workers := (workers s)(w := WFree)\<rparr>)"
| mr_crash: "mr_step sortf mapf reducef input s (s\<lparr>workers := (workers s)(w := WGone)\<rparr>)"
| mr_timeouts: "mr_step sortf mapf reducef input s (s\<lparr>coord := checkTimeouts (coord s) now\<rparr>)"

definition mr_init :: "Coordinator \<Rightarrow> mr_sys" where
  "mr_init c = \<lparr>coord = c, inter = (\<lambda>_ _. None), outs = (\<lambda>_. None), workers = (\<lambda>_. WFree)\<rparr>"

inductive mr_reach :: "(KeyValue list \<Rightarrow> KeyValue list) \<Rightarrow> (string \<Rightarrow> string \<Rightarrow> KeyValue list)
    \<Rightarrow> (string \<Rightarrow> string list \<Rightarrow> string) \<Rightarrow> (string \<rightharpoonup> string) \<Rightarrow> string list \<Rightarrow> int \<Rightarrow> mr_sys \<Rightarrow> bool"
  for sortf mapf reducef input files nred where
  mr_start: "MakeCoordinator files nred = Some c \<Longrightarrow> mr_reach sortf mapf reducef input files nred (mr_init c)"
| mr_next: "mr_reach sortf mapf reducef input files nred s \<Longrightarrow> mr_step sortf mapf reducef input s s' \<Longrightarrow>
    mr_reach sortf mapf reducef input files nred s'"

section \<open>The invariant\<close>

text \<open>What map task \<open>m\<close> has for reduce task \<open>r\<close>, and what reduce task \<open>r\<close> reads in all.\<close>

definition piece :: "(string \<Rightarrow> string \<Rightarrow> KeyValue list) \<Rightarrow> (string \<rightharpoonup> string) \<Rightarrow> string list \<Rightarrow> int
    \<Rightarrow> int \<Rightarrow> int \<Rightarrow> KeyValue list" where
  "piece mapf input files nred m r =
     (let f = files ! nat m in case input f of None \<Rightarrow> [] | Some content \<Rightarrow> in_bucket nred r (mapf f content))"

definition pieces :: "(string \<Rightarrow> string \<Rightarrow> KeyValue list) \<Rightarrow> (string \<rightharpoonup> string) \<Rightarrow> string list \<Rightarrow> int
    \<Rightarrow> int \<Rightarrow> int \<Rightarrow> KeyValue list" where
  "pieces mapf input files nred k r = concat (map (\<lambda>m. piece mapf input files nred m r) [0..k - 1])"

text \<open>A finished map or reduce task has its files in place.\<close>

definition files_ok :: "(KeyValue list \<Rightarrow> KeyValue list) \<Rightarrow> (string \<Rightarrow> string \<Rightarrow> KeyValue list)
    \<Rightarrow> (string \<Rightarrow> string list \<Rightarrow> string) \<Rightarrow> (string \<rightharpoonup> string) \<Rightarrow> string list \<Rightarrow> int \<Rightarrow> mr_sys \<Rightarrow> bool" where
  "files_ok sortf mapf reducef input files nred s \<longleftrightarrow>
     (\<forall>m r kva. inter s m r = Some kva \<longrightarrow> kva = piece mapf input files nred m r)
     \<and> (\<forall>m < length files. ti_State (mapTasks (coord s) ! m) = Completed \<longrightarrow>
          (\<forall>r. 0 \<le> r \<and> r < nred \<longrightarrow> inter s (int m) r \<noteq> None))
     \<and> (\<forall>r lines. outs s r = Some lines \<longrightarrow>
          lines = doReduce_output sortf reducef (pieces mapf input files nred (int (length files)) r))
     \<and> (\<forall>r < nat nred. ti_State (reduceTasks (coord s) ! r) = Completed \<longrightarrow> outs s (int r) \<noteq> None)"

fun worker_ok :: "(string \<Rightarrow> string \<Rightarrow> KeyValue list) \<Rightarrow> (string \<rightharpoonup> string) \<Rightarrow> string list \<Rightarrow> int \<Rightarrow> mr_sys \<Rightarrow> wstate \<Rightarrow> bool" where
  "worker_ok mapf input files nred s (WMap t buckets r) \<longleftrightarrow> 0 \<le> t \<and> t < int (length files)
     \<and> buckets = map (\<lambda>r. piece mapf input files nred t (int r)) [0..<nat nred]
     \<and> r \<le> length buckets \<and> (\<forall>r' < r. inter s t (int r') \<noteq> None)"
| "worker_ok mapf input files nred s (WReduce t nm m kva) \<longleftrightarrow> 0 \<le> t \<and> t < nred \<and> nm = int (length files)
     \<and> 0 \<le> m \<and> m \<le> nm \<and> phase (coord s) \<noteq> MapTask \<and> kva = pieces mapf input files nred m t"
| "worker_ok mapf input files nred s (WReduced t) \<longleftrightarrow> 0 \<le> t \<and> t < nred \<and> outs s t \<noteq> None"
| "worker_ok mapf input files nred s WFree \<longleftrightarrow> True"
| "worker_ok mapf input files nred s WGone \<longleftrightarrow> True"

definition mr_inv :: "(KeyValue list \<Rightarrow> KeyValue list) \<Rightarrow> (string \<Rightarrow> string \<Rightarrow> KeyValue list)
    \<Rightarrow> (string \<Rightarrow> string list \<Rightarrow> string) \<Rightarrow> (string \<rightharpoonup> string) \<Rightarrow> string list \<Rightarrow> int \<Rightarrow> mr_sys \<Rightarrow> bool" where
  "mr_inv sortf mapf reducef input files nred s \<longleftrightarrow> coord_inv files nred (coord s)
     \<and> files_ok sortf mapf reducef input files nred s \<and> (\<forall>w. worker_ok mapf input files nred s (workers s w))"

section \<open>Steps of the coordinator\<close>

text \<open>No task is completed by an assignment or a timeout, and the job never returns to the map phase.\<close>

definition coord_le :: "Coordinator \<Rightarrow> Coordinator \<Rightarrow> bool" where
  "coord_le c c' \<longleftrightarrow>
     (\<forall>i < length (mapTasks c). ti_State (mapTasks c' ! i) = Completed \<longrightarrow> ti_State (mapTasks c ! i) = Completed)
     \<and> (\<forall>i < length (reduceTasks c). ti_State (reduceTasks c' ! i) = Completed \<longrightarrow> ti_State (reduceTasks c ! i) = Completed)
     \<and> (phase c \<noteq> MapTask \<longrightarrow> phase c' \<noteq> MapTask)"

lemma coord_le_reduce: "GetTask_reduce c reply now = (c', r) \<Longrightarrow> coord_le c c'"
  by (cases rule: GetTask_reduce_cases) (auto simp: coord_le_def nth_list_update split: if_splits)

lemma coord_le_GetTask:
  assumes "GetTask c reply now = (c', r)" shows "coord_le c c'"
  using assms
proof (cases rule: GetTask_cases)
  case (reduce c1)
  from coord_le_reduce [OF reduce(3)] reduce(1) show ?thesis by (auto simp: coord_le_def split: if_splits)
qed (auto simp: coord_le_def nth_list_update split: if_splits)

lemma coord_le_timeouts: "coord_le c (checkTimeouts c now)"
  by (auto simp: coord_le_def checkTimeouts_def timeoutTask_def)

lemma files_ok_coord:
  assumes "files_ok sortf mapf reducef input files nred s" "coord_le (coord s) c" "coord_inv files nred (coord s)"
  shows "files_ok sortf mapf reducef input files nred (s\<lparr>coord := c, workers := ws\<rparr>)"
proof -
  have "length (mapTasks (coord s)) = length files" "length (reduceTasks (coord s)) = nat nred"
    using assms(3) by (auto simp: coord_inv_def dest: arg_cong [of _ _ length])
  with assms(1,2) show ?thesis by (simp add: files_ok_def coord_le_def)
qed

lemma fun_upd_all: "P x \<Longrightarrow> (\<And>v. P (f v)) \<Longrightarrow> P ((f(w := x)) v)"
  by simp

lemma worker_ok_mono:
  assumes "worker_ok mapf input files nred s x"
    and "\<And>t r. inter s t r \<noteq> None \<Longrightarrow> inter s' t r \<noteq> None" and "\<And>r. outs s r \<noteq> None \<Longrightarrow> outs s' r \<noteq> None"
    and "phase (coord s) \<noteq> MapTask \<Longrightarrow> phase (coord s') \<noteq> MapTask"
  shows "worker_ok mapf input files nred s' x"
  using assms by (cases x) auto

section \<open>Steps of the workers\<close>

lemma doMap_pieces:
  assumes "0 < nred" "m < length files" "doMap_buckets mapf input (files ! m) nred = Some buckets"
  shows "buckets = map (\<lambda>r. piece mapf input files nred (int m) (int r)) [0..<nat nred]"
proof -
  from assms(3) obtain content where "input (files ! m) = Some content" by (auto simp: doMap_buckets_def bind_Some_iff)
  with assms(3) doMap_buckets_eq [OF assms(1), of input "files ! m" content mapf] show ?thesis
    by (simp add: piece_def in_bucket_def)
qed

lemma take_task_ok:
  assumes "GetTask c GetTaskReply0 now = (c', reply)" "coord_inv files nred c" "0 < nred" "coord s = c'"
  shows "worker_ok mapf input files nred s (take_task mapf input reply)"
  using assms(1)
proof (cases rule: GetTask_cases)
  case (map_task k)
  have fs: "map ti_Filename (mapTasks c) = files" "nReduce c = nred" using assms(2) by (auto simp: coord_inv_def)
  then have k: "k < length files" "ti_Filename (mapTasks c ! k) = files ! k" using map_task(2) by auto
  show ?thesis
    using doMap_pieces [OF assms(3) k(1), of mapf input] k map_task(5) fs(2)
    by (auto simp: take_task_def split: option.splits)
next
  case map_wait
  then show ?thesis by (simp add: take_task_def)
next
  case (reduce c1)
  have c1: "coord_inv files nred c1" "phase c1 \<noteq> MapTask" using assms(2) reduce(1,2) by (auto simp: coord_inv_def)
  from reduce(3) show ?thesis
  proof (cases rule: GetTask_reduce_cases)
    case (task k)
    with c1 assms(3,4) show ?thesis by (auto simp: take_task_def coord_inv_def pieces_def)
  qed (simp_all add: take_task_def)
qed

lemma inv_get:
  assumes inv: "mr_inv sortf mapf reducef input files nred s" and "0 < nred"
    and step: "GetTask (coord s) GetTaskReply0 now = (c, reply)"
  shows "mr_inv sortf mapf reducef input files nred (s\<lparr>coord := c, workers := (workers s)(w := take_task mapf input reply)\<rparr>)"
proof -
  let ?s = "s\<lparr>coord := c, workers := (workers s)(w := take_task mapf input reply)\<rparr>"
  have ci: "coord_inv files nred (coord s)" using inv by (simp add: mr_inv_def)
  have le: "coord_le (coord s) c" by (rule coord_le_GetTask [OF step])
  have "worker_ok mapf input files nred ?s (workers ?s v)" for v
  proof (cases "v = w")
    case True
    then show ?thesis using take_task_ok [OF step ci assms(2), of ?s] by simp
  next
    case False
    have "worker_ok mapf input files nred ?s (workers s v)"
      by (rule worker_ok_mono [of mapf input files nred s]) (use inv le in \<open>auto simp: mr_inv_def coord_le_def\<close>)
    with False show ?thesis by simp
  qed
  moreover have "files_ok sortf mapf reducef input files nred ?s"
    using inv files_ok_coord [OF _ le ci] by (simp add: mr_inv_def)
  ultimately show ?thesis using GetTask_inv [OF step ci] by (simp add: mr_inv_def)
qed

lemma inv_write:
  assumes inv: "mr_inv sortf mapf reducef input files nred s" and w: "workers s w = WMap t buckets r" "r < length buckets"
  shows "mr_inv sortf mapf reducef input files nred
     (s\<lparr>inter := (inter s)(t := (inter s t)(int r := Some (buckets ! r))), workers := (workers s)(w := WMap t buckets (r + 1))\<rparr>)"
proof -
  let ?s = "s\<lparr>inter := (inter s)(t := (inter s t)(int r := Some (buckets ! r))), workers := (workers s)(w := WMap t buckets (r + 1))\<rparr>"
  have wk: "worker_ok mapf input files nred s (WMap t buckets r)" using inv w(1) by (metis mr_inv_def)
  then have b: "buckets ! r = piece mapf input files nred t (int r)" using w(2) by simp
  have mono: "worker_ok mapf input files nred ?s x" if "worker_ok mapf input files nred s x" for x
    by (rule worker_ok_mono [OF that]) auto
  have "worker_ok mapf input files nred ?s (WMap t buckets (r + 1))" using wk w(2) by (auto simp: less_Suc_eq)
  then have "worker_ok mapf input files nred ?s (((workers s)(w := WMap t buckets (r + 1))) v)" for v
    by (rule fun_upd_all) (use inv in \<open>auto simp only: mr_inv_def intro: mono\<close>)
  moreover have "files_ok sortf mapf reducef input files nred ?s"
    using inv b by (auto simp: mr_inv_def files_ok_def)
  ultimately show ?thesis using inv by (simp add: mr_inv_def)
qed

text \<open>A report completes one task, whose files are there.\<close>

lemma inv_finished:
  assumes inv: "mr_inv sortf mapf reducef input files nred s"
    and step: "FinishedTask (coord s) \<lparr>ft_Type = ty, ft_TaskId = t\<rparr> = Some c"
    and fs: "ty = MapTask \<Longrightarrow> \<forall>r. 0 \<le> r \<and> r < nred \<longrightarrow> inter s t r \<noteq> None" "ty = ReduceTask \<Longrightarrow> outs s t \<noteq> None"
  shows "mr_inv sortf mapf reducef input files nred (s\<lparr>coord := c, workers := (workers s)(w := WFree)\<rparr>)"
proof -
  let ?s = "s\<lparr>coord := c, workers := (workers s)(w := WFree)\<rparr>"
  have ci: "coord_inv files nred (coord s)" using inv by (simp add: mr_inv_def)
  have len: "length (mapTasks (coord s)) = length files" "length (reduceTasks (coord s)) = nat nred"
    using ci by (auto simp: coord_inv_def dest: arg_cong [of _ _ length])
  have ph: "phase c = phase (coord s)" using step by (auto simp: FinishedTask_def setState_Some split: if_splits)
  have m: "ti_State (mapTasks c ! i) = Completed \<Longrightarrow> ti_State (mapTasks (coord s) ! i) = Completed \<or> ty = MapTask \<and> t = int i"
    if "i < length files" for i
    using step that len by (auto simp: FinishedTask_def setState_Some nth_list_update split: if_splits)
  have r: "ti_State (reduceTasks c ! i) = Completed \<Longrightarrow> ti_State (reduceTasks (coord s) ! i) = Completed \<or> ty = ReduceTask \<and> t = int i"
    if "i < nat nred" for i
    using step that len by (auto simp: FinishedTask_def setState_Some nth_list_update split: if_splits)
  have "worker_ok mapf input files nred ?s (workers ?s v)" for v
    using inv worker_ok_mono [of mapf input files nred s "workers s v" ?s] ph by (auto simp: mr_inv_def)
  moreover have "files_ok sortf mapf reducef input files nred ?s"
    using inv m r fs unfolding mr_inv_def files_ok_def by fastforce
  ultimately show ?thesis using FinishedTask_inv [OF step ci] by (simp add: mr_inv_def)
qed

lemma pieces_Suc: "0 \<le> m \<Longrightarrow> pieces mapf input files nred (m + 1) r = pieces mapf input files nred m r @ piece mapf input files nred m r"
  using upto_rec2 [of 0 m] by (simp add: pieces_def)

lemma inv_read:
  assumes inv: "mr_inv sortf mapf reducef input files nred s" and w: "workers s w = WReduce t nm m kva" "m < nm"
  shows "mr_inv sortf mapf reducef input files nred
     (s\<lparr>workers := (workers s)(w := WReduce t nm (m + 1) (kva @ read_file (inter s m t)))\<rparr>)"
proof -
  let ?s = "s\<lparr>workers := (workers s)(w := WReduce t nm (m + 1) (kva @ read_file (inter s m t)))\<rparr>"
  have wk: "worker_ok mapf input files nred s (WReduce t nm m kva)" using inv w(1) by (metis mr_inv_def)
  then have ids: "0 \<le> t" "t < nred" "0 \<le> m" "m < int (length files)" "phase (coord s) \<noteq> MapTask" using w(2) by auto
  have ci: "coord_inv files nred (coord s)" and fo: "files_ok sortf mapf reducef input files nred s"
    using inv by (auto simp: mr_inv_def)
  have "length (mapTasks (coord s)) = length files" using ci by (auto simp: coord_inv_def)
  with ci ids have "ti_State (mapTasks (coord s) ! nat m) = Completed" by (auto simp: coord_inv_def)
  with fo ids have "inter s m t \<noteq> None" unfolding files_ok_def by (metis int_nat_eq nat_less_iff)
  then obtain kvs where "inter s m t = Some kvs" by blast
  with fo have "read_file (inter s m t) = piece mapf input files nred m t" by (auto simp: files_ok_def read_file_def)
  with wk w(2) ids have "worker_ok mapf input files nred ?s (WReduce t nm (m + 1) (kva @ read_file (inter s m t)))"
    by (simp add: pieces_Suc)
  then have "worker_ok mapf input files nred ?s (workers ?s v)" for v
    using inv worker_ok_mono [of mapf input files nred s "workers s v" ?s] by (auto simp: mr_inv_def)
  moreover have "files_ok sortf mapf reducef input files nred ?s" using fo by (simp add: files_ok_def)
  ultimately show ?thesis using ci by (simp add: mr_inv_def)
qed

lemma inv_output:
  assumes inv: "mr_inv sortf mapf reducef input files nred s" and w: "workers s w = WReduce t nm m kva" "\<not> m < nm"
  shows "mr_inv sortf mapf reducef input files nred
     (s\<lparr>outs := (outs s)(t := Some (doReduce_output sortf reducef kva)), workers := (workers s)(w := WReduced t)\<rparr>)"
proof -
  let ?s = "s\<lparr>outs := (outs s)(t := Some (doReduce_output sortf reducef kva)), workers := (workers s)(w := WReduced t)\<rparr>"
  have wk: "worker_ok mapf input files nred s (WReduce t nm m kva)" using inv w(1) by (metis mr_inv_def)
  then have kva: "kva = pieces mapf input files nred (int (length files)) t" using w(2) by auto
  have "worker_ok mapf input files nred ?s (WReduced t)" using wk by simp
  then have "worker_ok mapf input files nred ?s (workers ?s v)" for v
    using inv worker_ok_mono [of mapf input files nred s "workers s v" ?s] by (auto simp: mr_inv_def)
  moreover have "files_ok sortf mapf reducef input files nred ?s"
    using inv kva by (auto simp: mr_inv_def files_ok_def)
  ultimately show ?thesis using inv by (simp add: mr_inv_def)
qed

lemma inv_worker:
  assumes "mr_inv sortf mapf reducef input files nred s" "worker_ok mapf input files nred s x"
  shows "mr_inv sortf mapf reducef input files nred (s\<lparr>workers := (workers s)(w := x)\<rparr>)"
proof -
  have "worker_ok mapf input files nred (s\<lparr>workers := ws\<rparr>) y = worker_ok mapf input files nred s y" for ws y
    by (cases y) simp_all
  with assms show ?thesis by (simp add: mr_inv_def files_ok_def)
qed

lemma inv_timeouts:
  assumes inv: "mr_inv sortf mapf reducef input files nred s"
  shows "mr_inv sortf mapf reducef input files nred (s\<lparr>coord := checkTimeouts (coord s) now\<rparr>)"
proof -
  let ?s = "s\<lparr>coord := checkTimeouts (coord s) now\<rparr>"
  have ci: "coord_inv files nred (coord s)" using inv by (simp add: mr_inv_def)
  note le = coord_le_timeouts [of "coord s" now]
  have "worker_ok mapf input files nred ?s (workers s v)" for v
    by (rule worker_ok_mono [of mapf input files nred s]) (use inv le in \<open>auto simp: mr_inv_def coord_le_def\<close>)
  moreover have "files_ok sortf mapf reducef input files nred ?s"
  proof -
    have "files_ok sortf mapf reducef input files nred s" using inv by (simp add: mr_inv_def)
    from files_ok_coord [OF this le ci, of "workers s"] show ?thesis by simp
  qed
  ultimately show ?thesis using checkTimeouts_inv [OF ci] by (simp add: mr_inv_def)
qed

lemma mr_step_inv:
  assumes "mr_step sortf mapf reducef input s s'" "mr_inv sortf mapf reducef input files nred s" "0 < nred"
  shows "mr_inv sortf mapf reducef input files nred s'"
proof -
  have wk: "worker_ok mapf input files nred s (workers s w)" for w using assms(2) by (simp add: mr_inv_def)
  from assms(1) show ?thesis
  proof (cases rule: mr_step.cases)
    case (mr_get w now c reply)
    with inv_get [OF assms(2,3)] show ?thesis by simp
  next
    case (mr_write w t buckets r)
    with inv_write [OF assms(2)] show ?thesis by simp
  next
    case (mr_map_done w t buckets r c)
    from wk [of w] have "\<forall>r'. 0 \<le> r' \<and> r' < nred \<longrightarrow> inter s t r' \<noteq> None"
      unfolding mr_map_done(2) mr_map_done(3) by (auto dest!: spec [of _ "nat _"])
    from inv_finished [OF assms(2) mr_map_done(4) this] show ?thesis unfolding mr_map_done(1) by simp
  next
    case (mr_read w t nm m kva)
    with inv_read [OF assms(2)] show ?thesis by simp
  next
    case (mr_output w t nm m kva)
    with inv_output [OF assms(2)] show ?thesis by simp
  next
    case (mr_reduce_done w t c)
    from wk [of w] have "outs s t \<noteq> None" unfolding mr_reduce_done(2) by simp
    from inv_finished [OF assms(2) mr_reduce_done(3) _ this] show ?thesis unfolding mr_reduce_done(1) by simp
  next
    case (mr_report_lost w t buckets)
    from inv_worker [OF assms(2), of WFree w] show ?thesis unfolding mr_report_lost(1) by simp
  next
    case (mr_crash w)
    from inv_worker [OF assms(2), of WGone w] show ?thesis unfolding mr_crash by simp
  next
    case (mr_timeouts now)
    with inv_timeouts [OF assms(2)] show ?thesis by simp
  qed
qed

lemma mr_reach_inv:
  assumes "mr_reach sortf mapf reducef input files nred s" "0 < nred"
  shows "mr_inv sortf mapf reducef input files nred s"
  using assms(1)
proof (induction rule: mr_reach.induct)
  case (mr_start c)
  have ci: "coord_inv files nred c" using MakeCoordinator_inv [of nred files] mr_start assms(2) by auto
  have idle: "\<forall>t \<in> set (mapTasks c). ti_State t = Idle" "\<forall>t \<in> set (reduceTasks c). ti_State t = Idle"
    using mr_start by (auto simp: MakeCoordinator_def bind_Some_iff go_make_Some)
  have "length (mapTasks c) = length files" "length (reduceTasks c) = nat nred" using ci by (auto simp: coord_inv_def)
  with idle have "files_ok sortf mapf reducef input files nred (mr_init c)" by (auto simp: files_ok_def mr_init_def)
  with ci show ?case by (simp add: mr_inv_def mr_init_def)
next
  case (mr_next s s')
  with mr_step_inv assms(2) show ?case by blast
qed

section \<open>The result of a job\<close>

lemma seq_intermediate_pieces:
  assumes "seq_intermediate mapf input files = Some kva"
  shows "pieces mapf input files nred (int (length files)) r = in_bucket nred r kva"
proof -
  have "in_bucket nred r kva = concat (map (\<lambda>m. piece mapf input files nred (int m) r) [0..<length files])"
    using assms
  proof (induction files arbitrary: kva)
    case Nil
    then show ?case by (simp add: in_bucket_def)
  next
    case (Cons f files)
    then obtain content rest where c: "input f = Some content" "seq_intermediate mapf input files = Some rest"
      "kva = mapf f content @ rest" by (auto simp: bind_Some_iff)
    have shift: "piece mapf input (f # files) nred (int (Suc m)) r = piece mapf input files nred (int m) r" for m
      by (simp add: piece_def nat_add_distrib)
    have "[0..<length (f # files)] = 0 # map Suc [0..<length files]"
      by (simp add: map_Suc_upt upt_conv_Cons del: upt_Suc)
    with Cons.IH [OF c(2)] c shift show ?case
      by (simp add: in_bucket_def piece_def [of _ _ _ _ 0] comp_def del: upt_Suc of_nat_Suc)
  qed
  then show ?thesis by (simp add: pieces_def upto_int_nat comp_def)
qed

lemma mapreduce_result:
  assumes "mr_reach sortf mapf reducef input files nred s" and "Done (coord s)" and "0 < nred"
    and "key_sort sortf" and "order_free reducef" and "mrsequential sortf mapf reducef input files = Some out"
  shows "(\<forall>r. 0 \<le> r \<and> r < nred \<longrightarrow> outs s r \<noteq> None)
    \<and> mset (concat (map (\<lambda>r. the (outs s (int r))) [0..<nat nred])) = mset out"
proof -
  from assms(6) obtain kva where kva: "seq_intermediate mapf input files = Some kva" by (auto simp: mrsequential_def)
  from mr_reach_inv [OF assms(1,3)] have ci: "coord_inv files nred (coord s)"
    and fo: "files_ok sortf mapf reducef input files nred s" by (auto simp: mr_inv_def)
  have "all_done (reduceTasks (coord s))" "length (reduceTasks (coord s)) = nat nred"
    using ci assms(2) by (auto simp: coord_inv_def Done_def)
  then have ex: "outs s (int r) \<noteq> None" if "r < nat nred" for r using fo that by (simp add: files_ok_def)
  have "the (outs s (int r)) = doReduce_output sortf reducef (in_bucket nred (int r) kva)"
    if r: "r < nat nred" for r
  proof -
    obtain ls where ls: "outs s (int r) = Some ls" using ex [OF r] by blast
    with fo have "ls = doReduce_output sortf reducef (pieces mapf input files nred (int (length files)) (int r))"
      unfolding files_ok_def by blast
    with ls seq_intermediate_pieces [OF kva, of nred "int r"] show ?thesis by simp
  qed
  then have "concat (map (\<lambda>r. the (outs s (int r))) [0..<nat nred]) =
      concat (map (\<lambda>r. doReduce_output sortf reducef (in_bucket nred (int r) kva)) [0..<nat nred])"
    by (intro arg_cong [of _ _ concat] map_cong) auto
  moreover have "outs s r \<noteq> None" if "0 \<le> r" "r < nred" for r using ex [of "nat r"] that by simp
  ultimately show ?thesis using buckets_sequential [OF assms(3-6) kva] by simp
qed

text \<open>
  A distributed job computes the sequential result.  Whenever the coordinator reports the job done,
  after any interleaving of any number of workers, crashes, lost reports, timeouts and repeated
  executions, every output file exists and all of them together hold exactly the lines of the
  sequential program on the same input files, each line once; provided \<^verbatim>\<open>sort.Sort\<close> sorts and the reduce
  function does not depend on the order of its values.
\<close>

theorem mapreduce_correct:
  assumes "mr_reach sortf mapf reducef input files nred s" and "Done (coord s)" and "0 < nred"
    and "key_sort sortf" and "order_free reducef" and "mrsequential sortf mapf reducef input files = Some out"
  shows "(\<forall>r. 0 \<le> r \<and> r < nred \<longrightarrow> outs s r \<noteq> None)
    \<and> mset (concat (map (\<lambda>r. the (outs s (int r))) [0..<nat nred])) = mset out"
  by (rule mapreduce_result [OF assms])

text \<open>A job with one input file and one reduce task, done by one worker.\<close>

definition demo_c :: "TaskState \<Rightarrow> int \<Rightarrow> TaskState \<Rightarrow> int \<Rightarrow> TaskType \<Rightarrow> Coordinator" where
  "demo_c ms a rs b ph = \<lparr>nReduce = 1, nMap = 1, mapTasks = [\<lparr>ti_State = ms, ti_StartTime = a, ti_Filename = ''f''\<rparr>],
     reduceTasks = [\<lparr>ti_State = rs, ti_StartTime = b, ti_Filename = []\<rparr>], phase = ph\<rparr>"

definition demo_map :: "string \<Rightarrow> string \<Rightarrow> KeyValue list" where
  "demo_map f c = [\<lparr>kv_Key = c, kv_Value = f\<rparr>]"

lemmas demo_eval = demo_c_def GetTask_def GetTask_reduce_def scanTasks.simps GetTaskReply0_def FinishedTask_def
  setState_def go_nth_def go_set_def

lemma demo_coord_steps:
  "MakeCoordinator [''f''] 1 = Some (demo_c Idle 0 Idle 0 MapTask)"
  "GetTask (demo_c Idle 0 Idle 0 MapTask) GetTaskReply0 1 = (demo_c InProgress 1 Idle 0 MapTask,
     \<lparr>gt_Type = MapTask, gt_TaskId = 0, gt_Filename = ''f'', gt_NReduce = 1, gt_NMap = 1\<rparr>)"
  "FinishedTask (demo_c InProgress 1 Idle 0 MapTask) \<lparr>ft_Type = MapTask, ft_TaskId = 0\<rparr> = Some (demo_c Completed 1 Idle 0 MapTask)"
  "GetTask (demo_c Completed 1 Idle 0 MapTask) GetTaskReply0 2 = (demo_c Completed 1 InProgress 2 ReduceTask,
     \<lparr>gt_Type = ReduceTask, gt_TaskId = 0, gt_Filename = [], gt_NReduce = 1, gt_NMap = 1\<rparr>)"
  "FinishedTask (demo_c Completed 1 InProgress 2 ReduceTask) \<lparr>ft_Type = ReduceTask, ft_TaskId = 0\<rparr> = Some (demo_c Completed 1 Completed 2 ReduceTask)"
  "GetTask (demo_c Completed 1 Completed 2 ReduceTask) GetTaskReply0 3 = (demo_c Completed 1 Completed 2 ExitTask,
     \<lparr>gt_Type = ExitTask, gt_TaskId = 0, gt_Filename = [], gt_NReduce = 0, gt_NMap = 0\<rparr>)"
  by (simp_all add: demo_eval MakeCoordinator_def go_make_def)

lemma demo_take_tasks:
  "take_task demo_map [''f'' \<mapsto> ''a''] \<lparr>gt_Type = MapTask, gt_TaskId = 0, gt_Filename = ''f'', gt_NReduce = 1, gt_NMap = 1\<rparr>
     = WMap 0 [demo_map ''f'' ''a''] 0"
  "take_task demo_map [''f'' \<mapsto> ''a''] \<lparr>gt_Type = ReduceTask, gt_TaskId = 0, gt_Filename = [], gt_NReduce = 1, gt_NMap = 1\<rparr>
     = WReduce 0 1 0 []"
  using doMap_buckets_eq [of 1 "[''f'' \<mapsto> ''a'']" "''f''" "''a''" demo_map]
  by (simp_all add: take_task_def bucket_of_def demo_map_def)

lemma demo_mr_run:
  "\<exists>s. mr_reach (sort_key kv_Key) demo_map (wc_Reduce (\<lambda>n. replicate n CHR ''i'')) [''f'' \<mapsto> ''a''] [''f''] 1 s \<and> Done (coord s)"
proof -
  let ?r = "mr_reach (sort_key kv_Key) demo_map (wc_Reduce (\<lambda>n. replicate n CHR ''i'')) [''f'' \<mapsto> ''a''] [''f''] 1"
  note steps = demo_coord_steps
  have s0: "?r (mr_init (demo_c Idle 0 Idle 0 MapTask))" by (rule mr_start [OF steps(1)])
  obtain s1 where s1: "?r s1" "coord s1 = demo_c InProgress 1 Idle 0 MapTask" "workers s1 0 = WMap 0 [demo_map ''f'' ''a''] 0"
    using mr_next [OF s0 mr_get [of _ 0 1]] steps(2) by (fastforce simp: mr_init_def demo_take_tasks)
  obtain s2 where s2: "?r s2" "coord s2 = demo_c InProgress 1 Idle 0 MapTask" "workers s2 0 = WMap 0 [demo_map ''f'' ''a''] 1"
    using mr_next [OF s1(1) mr_write [OF s1(3)]] s1(2) by fastforce
  obtain s3 where s3: "?r s3" "coord s3 = demo_c Completed 1 Idle 0 MapTask" "workers s3 0 = WFree"
    using mr_next [OF s2(1) mr_map_done [OF s2(3)]] s2(2) steps(3) by fastforce
  obtain s4 where s4: "?r s4" "coord s4 = demo_c Completed 1 InProgress 2 ReduceTask" "workers s4 0 = WReduce 0 1 0 []"
    using mr_next [OF s3(1) mr_get [OF s3(3), of 2]] s3(2) steps(4) by (fastforce simp: demo_take_tasks)
  obtain s5 kva where s5: "?r s5" "coord s5 = demo_c Completed 1 InProgress 2 ReduceTask" "workers s5 0 = WReduce 0 1 1 kva"
    using mr_next [OF s4(1) mr_read [OF s4(3)]] s4(2) by fastforce
  obtain s6 where s6: "?r s6" "coord s6 = demo_c Completed 1 InProgress 2 ReduceTask" "workers s6 0 = WReduced 0"
    using mr_next [OF s5(1) mr_output [OF s5(3)]] s5(2) by fastforce
  obtain s7 where s7: "?r s7" "coord s7 = demo_c Completed 1 Completed 2 ReduceTask" "workers s7 0 = WFree"
    using mr_next [OF s6(1) mr_reduce_done [OF s6(3)]] s6(2) steps(5) by fastforce
  obtain s8 where "?r s8" "coord s8 = demo_c Completed 1 Completed 2 ExitTask"
    using mr_next [OF s7(1) mr_get [OF s7(3), of 3]] s7(2) steps(6) by fastforce
  then show ?thesis by (intro exI [of _ s8]) (simp add: Done_def demo_c_def)
qed

theorem mapreduce_correct_witness:
  "\<exists>s. mr_reach (sort_key kv_Key) demo_map (wc_Reduce (\<lambda>n. replicate n CHR ''i'')) [''f'' \<mapsto> ''a''] [''f''] 1 s
     \<and> Done (coord s) \<and> mset (concat (map (\<lambda>r. the (outs s (int r))) [0..<nat 1])) = {#(''a'', ''i'')#}"
proof -
  let ?red = "wc_Reduce (\<lambda>n. replicate n CHR ''i'')"
  obtain s where s: "mr_reach (sort_key kv_Key) demo_map ?red [''f'' \<mapsto> ''a''] [''f''] 1 s" "Done (coord s)"
    using demo_mr_run by blast
  have ks: "key_sort (sort_key kv_Key)" by (simp add: key_sort_def)
  have ofr: "order_free ?red" by (auto simp: order_free_def wc_Reduce_def dest: mset_eq_length)
  have sq: "mrsequential (sort_key kv_Key) demo_map ?red [''f'' \<mapsto> ''a''] [''f''] = Some [(''a'', ''i'')]"
    by (simp add: mrsequential_def demo_map_def wc_Reduce_def)
  from mapreduce_correct [OF s _ ks ofr sq] s show ?thesis by auto
qed

end
