(* ===== verification/MrProgress.thy ===== *)
theory MrProgress
  imports MrSystem
begin

text \<open>
  Progress of a MapReduce job: whatever has happened, a single worker that stays alive, with the coordinator's timeouts, can finish the
  job.  So no interleaving of crashes, lost reports and slow workers leaves the coordinator of \<^verbatim>\<open>mr/coordinator.go\<close> in a state in which
  some task is never given out again.
\<close>

section \<open>One worker alone\<close>

text \<open>A step in which only worker \<open>w\<close> and the coordinator take part.\<close>

definition solo :: "(KeyValue list \<Rightarrow> KeyValue list) \<Rightarrow> (string \<Rightarrow> string \<Rightarrow> KeyValue list)
    \<Rightarrow> (string \<Rightarrow> string list \<Rightarrow> string) \<Rightarrow> (string \<rightharpoonup> string) \<Rightarrow> nat \<Rightarrow> mr_sys \<Rightarrow> mr_sys \<Rightarrow> bool" where
  "solo sortf mapf reducef input w s s' \<longleftrightarrow> mr_step sortf mapf reducef input s s' \<and> (\<forall>v. v \<noteq> w \<longrightarrow> workers s' v = workers s v)"

definition undone :: "TaskInfo list \<Rightarrow> nat" where
  "undone ts = length (filter (\<lambda>t. ti_State t \<noteq> Completed) ts)"

definition remaining :: "Coordinator \<Rightarrow> nat" where
  "remaining c = undone (mapTasks c) + undone (reduceTasks c)"

definition calm :: "Coordinator \<Rightarrow> bool" where
  "calm c \<longleftrightarrow> (\<forall>t \<in> set (mapTasks c) \<union> set (reduceTasks c). ti_State t \<noteq> InProgress)"

lemma undone_nth: "undone ts = card {i. i < length ts \<and> ti_State (ts ! i) \<noteq> Completed}"
  by (simp add: undone_def length_filter_conv_card)

lemma undone_start: "k < length ts \<Longrightarrow> ti_State (ts ! k) \<noteq> Completed \<Longrightarrow> ti_State t \<noteq> Completed \<Longrightarrow> undone (ts[k := t]) = undone ts"
  unfolding undone_nth by (rule arg_cong [of _ _ card]) (auto simp: nth_list_update)

lemma undone_finish:
  assumes "k < length ts" "ti_State (ts ! k) \<noteq> Completed" "ti_State t = Completed" shows "undone (ts[k := t]) < undone ts"
proof -
  have "{i. i < length (ts[k := t]) \<and> ti_State (ts[k := t] ! i) \<noteq> Completed} \<subset> {i. i < length ts \<and> ti_State (ts ! i) \<noteq> Completed}"
    using assms by (auto simp: nth_list_update)
  then show ?thesis unfolding undone_nth by (intro psubset_card_mono) auto
qed

lemma undone_timeouts: "undone (map (timeoutTask now) ts) = undone ts"
  by (induction ts) (auto simp: undone_def timeoutTask_def)

text \<open>Waiting long enough makes every task that is in progress idle again.\<close>

lemma late_enough: "\<exists>now. \<forall>t \<in> set ts. now - ti_StartTime t > 10 * 10 ^ 9"
proof (induction ts)
  case (Cons t ts)
  then obtain now where "\<forall>t \<in> set ts. now - ti_StartTime t > 10 * 10 ^ 9" by blast
  then have "\<forall>u \<in> set (t # ts). max now (ti_StartTime t + 10 * 10 ^ 9 + 1) - ti_StartTime u > 10 * 10 ^ 9" by auto
  then show ?case by blast
qed simp

lemma timeouts_calm:
  assumes "coord_inv files nred c"
  shows "\<exists>now. calm (checkTimeouts c now) \<and> remaining (checkTimeouts c now) = remaining c"
proof -
  obtain now where now: "\<forall>t \<in> set (mapTasks c @ reduceTasks c). now - ti_StartTime t > 10 * 10 ^ 9" using late_enough by blast
  then have "ti_State (timeoutTask now t) \<noteq> InProgress" if "t \<in> set (mapTasks c @ reduceTasks c)" for t
    using that by (auto simp: timeoutTask_def)
  then have "calm (checkTimeouts c now)"
    using assms by (cases "phase c") (auto simp: calm_def checkTimeouts_def coord_inv_def)
  moreover have "remaining (checkTimeouts c now) = remaining c" by (simp add: remaining_def checkTimeouts_def undone_timeouts)
  ultimately show ?thesis by blast
qed

section \<open>Carrying out a task\<close>

lemma solo_write_all:
  assumes "workers s w = WMap t buckets r" "r \<le> length buckets"
  shows "\<exists>s'. (solo sortf mapf reducef input w)\<^sup>*\<^sup>* s s' \<and> coord s' = coord s \<and> workers s' w = WMap t buckets (length buckets)"
  using assms
proof (induction "length buckets - r" arbitrary: s r)
  case 0
  then show ?case by auto
next
  case (Suc n)
  let ?s = "s\<lparr>inter := (inter s)(t := (inter s t)(int r := Some (buckets ! r))), workers := (workers s)(w := WMap t buckets (r + 1))\<rparr>"
  have "solo sortf mapf reducef input w s ?s" using mr_write [OF Suc.prems(1)] Suc.hyps(2) by (simp add: solo_def)
  moreover have "\<exists>s'. (solo sortf mapf reducef input w)\<^sup>*\<^sup>* ?s s' \<and> coord s' = coord ?s \<and> workers s' w = WMap t buckets (length buckets)"
    by (rule Suc.hyps(1)) (use Suc.hyps(2) in auto)
  ultimately show ?case by (auto intro: converse_rtranclp_into_rtranclp)
qed

lemma solo_read_all:
  assumes "workers s w = WReduce t nm m kva" "m \<le> nm"
  shows "\<exists>s' kva'. (solo sortf mapf reducef input w)\<^sup>*\<^sup>* s s' \<and> coord s' = coord s \<and> workers s' w = WReduce t nm nm kva'"
  using assms
proof (induction "nat (nm - m)" arbitrary: s m kva)
  case 0
  then show ?case by auto
next
  case (Suc n)
  let ?s = "s\<lparr>workers := (workers s)(w := WReduce t nm (m + 1) (kva @ read_file (inter s m t)))\<rparr>"
  have "solo sortf mapf reducef input w s ?s" using mr_read [OF Suc.prems(1)] Suc.hyps(2) by (simp add: solo_def)
  moreover have "\<exists>s' kva'. (solo sortf mapf reducef input w)\<^sup>*\<^sup>* ?s s' \<and> coord s' = coord ?s \<and> workers s' w = WReduce t nm nm kva'"
    by (rule Suc.hyps(1)) (use Suc.hyps(2) in auto)
  ultimately show ?case by (auto intro: converse_rtranclp_into_rtranclp)
qed

lemma solo_map:
  assumes "workers s w = WMap (int k) buckets 0" "phase (coord s) = MapTask" "k < length (mapTasks (coord s))"
  shows "\<exists>s'. (solo sortf mapf reducef input w)\<^sup>*\<^sup>* s s' \<and> workers s' w = WFree
    \<and> coord s' = (coord s)\<lparr>mapTasks := (mapTasks (coord s))[k := (mapTasks (coord s) ! k)\<lparr>ti_State := Completed\<rparr>]\<rparr>"
proof -
  from solo_write_all [OF assms(1), of sortf mapf reducef input] obtain s1 where
    s1: "(solo sortf mapf reducef input w)\<^sup>*\<^sup>* s s1" "coord s1 = coord s" "workers s1 w = WMap (int k) buckets (length buckets)" by auto
  let ?c = "(coord s)\<lparr>mapTasks := (mapTasks (coord s))[k := (mapTasks (coord s) ! k)\<lparr>ti_State := Completed\<rparr>]\<rparr>"
  have "FinishedTask (coord s1) \<lparr>ft_Type = MapTask, ft_TaskId = int k\<rparr> = Some ?c"
    using assms(2,3) s1(2) by (simp add: FinishedTask_def setState_Some)
  from mr_map_done [OF s1(3) refl this, of sortf mapf reducef input]
  have "solo sortf mapf reducef input w s1 (s1\<lparr>coord := ?c, workers := (workers s1)(w := WFree)\<rparr>)" by (simp add: solo_def)
  with s1(1) show ?thesis by (intro exI [of _ "s1\<lparr>coord := ?c, workers := (workers s1)(w := WFree)\<rparr>"]) auto
qed

lemma solo_reduce:
  assumes "workers s w = WReduce (int k) nm 0 []" "0 \<le> nm" "phase (coord s) = ReduceTask" "k < length (reduceTasks (coord s))"
  shows "\<exists>s'. (solo sortf mapf reducef input w)\<^sup>*\<^sup>* s s' \<and> workers s' w = WFree
    \<and> coord s' = (coord s)\<lparr>reduceTasks := (reduceTasks (coord s))[k := (reduceTasks (coord s) ! k)\<lparr>ti_State := Completed\<rparr>]\<rparr>"
proof -
  from solo_read_all [OF assms(1,2), of sortf mapf reducef input] obtain s1 kva where
    s1: "(solo sortf mapf reducef input w)\<^sup>*\<^sup>* s s1" "coord s1 = coord s" "workers s1 w = WReduce (int k) nm nm kva" by auto
  define s2 where "s2 = s1\<lparr>outs := (outs s1)(int k := Some (doReduce_output sortf reducef kva)), workers := (workers s1)(w := WReduced (int k))\<rparr>"
  have st2: "solo sortf mapf reducef input w s1 s2" using mr_output [OF s1(3)] by (simp add: solo_def s2_def)
  have s2: "coord s2 = coord s" "workers s2 w = WReduced (int k)" by (simp_all add: s2_def s1(2))
  let ?c = "(coord s)\<lparr>reduceTasks := (reduceTasks (coord s))[k := (reduceTasks (coord s) ! k)\<lparr>ti_State := Completed\<rparr>]\<rparr>"
  have "FinishedTask (coord s2) \<lparr>ft_Type = ReduceTask, ft_TaskId = int k\<rparr> = Some ?c"
    using assms(3,4) s2(1) by (simp add: FinishedTask_def setState_Some)
  from mr_reduce_done [OF s2(2) this, of sortf mapf reducef input]
  have "solo sortf mapf reducef input w s2 (s2\<lparr>coord := ?c, workers := (workers s2)(w := WFree)\<rparr>)" by (simp add: solo_def)
  with s1(1) st2 show ?thesis by (intro exI [of _ "s2\<lparr>coord := ?c, workers := (workers s2)(w := WFree)\<rparr>"]) auto
qed

section \<open>One task less\<close>

lemma solo_get:
  assumes inv: "coord_inv files nred (coord s)" and cal: "calm (coord s)" and w: "workers s w = WFree"
    and inp: "0 < nred" "\<forall>f \<in> set files. input f \<noteq> None"
  shows "\<exists>s'. (solo sortf mapf reducef input w)\<^sup>*\<^sup>* s s' \<and> (Done (coord s') \<or> workers s' w = WFree \<and> remaining (coord s') < remaining (coord s))"
proof -
  let ?R = "(solo sortf mapf reducef input w)\<^sup>*\<^sup>*"
  obtain c r where g: "GetTask (coord s) GetTaskReply0 0 = (c, r)" by fastforce
  define s1 where "s1 = s\<lparr>coord := c, workers := (workers s)(w := take_task mapf input r)\<rparr>"
  have st: "?R s s1" using mr_get [OF w g] by (auto simp: solo_def s1_def)
  have s1: "coord s1 = c" "workers s1 w = take_task mapf input r" by (simp_all add: s1_def)
  have not_all: "ti_State t = Idle" if "t \<in> set (mapTasks (coord s)) \<union> set (reduceTasks (coord s))" "ti_State t \<noteq> Completed" for t
    using cal that by (cases "ti_State t") (auto simp: calm_def)
  from g show ?thesis
  proof (cases rule: GetTask_cases)
    case (map_task k)
    have "ti_Filename (mapTasks (coord s) ! k) \<in> set files" using inv map_task(2) by (auto simp: coord_inv_def)
    with inp obtain content where co: "input (ti_Filename (mapTasks (coord s) ! k)) = Some content" by blast
    from doMap_buckets_eq [of nred input "ti_Filename (mapTasks (coord s) ! k)" content mapf, OF inp(1) co] obtain buckets where "workers s1 w = WMap (int k) buckets 0"
      using inv map_task(5) by (auto simp: s1(2) take_task_def coord_inv_def)
    from solo_map [OF this, of sortf mapf reducef input] map_task(1,2,4) s1(1) obtain s2 where s2: "?R s1 s2" "workers s2 w = WFree"
      "coord s2 = c\<lparr>mapTasks := (mapTasks c)[k := (mapTasks c ! k)\<lparr>ti_State := Completed\<rparr>]\<rparr>" by auto
    have "remaining (coord s2) < remaining (coord s)"
      using map_task(2,3,4) undone_finish [of k "mapTasks (coord s)" "(mapTasks (coord s) ! k)\<lparr>ti_StartTime := 0, ti_State := Completed\<rparr>"]
      by (simp add: s2(3) remaining_def)
    with st s2 show ?thesis by (meson rtranclp_trans)
  next
    case map_wait
    with not_all show ?thesis by auto
  next
    case (reduce c1)
    have c1: "reduceTasks c1 = reduceTasks (coord s)" "mapTasks c1 = mapTasks (coord s)" "nMap c1 = nMap (coord s)" using reduce(1) by auto
    from reduce(3) show ?thesis
    proof (cases rule: GetTask_reduce_cases)
      case (task k)
      have "workers s1 w = WReduce (int k) (nMap c1) 0 []" using task(5) by (simp add: s1(2) take_task_def)
      from solo_reduce [OF this, of sortf mapf reducef input] task(1,2,4) s1(1) c1 inv obtain s2 where s2: "?R s1 s2" "workers s2 w = WFree"
        "coord s2 = c\<lparr>reduceTasks := (reduceTasks c)[k := (reduceTasks c ! k)\<lparr>ti_State := Completed\<rparr>]\<rparr>" by (auto simp: coord_inv_def)
      have "remaining (coord s2) < remaining (coord s)"
        using task(2,3,4) c1 undone_finish [of k "reduceTasks (coord s)" "(reduceTasks (coord s) ! k)\<lparr>ti_StartTime := 0, ti_State := Completed\<rparr>"]
        by (simp add: s2(3) remaining_def)
      with st s2 show ?thesis by (meson rtranclp_trans)
    next
      case wait
      with not_all c1 show ?thesis by auto
    next
      case exit
      have "phase c1 \<noteq> MapTask" "phase c1 \<noteq> WaitTask" using reduce(1) inv by (auto simp: coord_inv_def)
      with exit(2) have "phase c = ExitTask" by (cases "phase c1") auto
      with st s1(1) show ?thesis by (auto simp: Done_def)
    qed
  qed
qed

lemma solo_coord_inv: "solo sortf mapf reducef input w s s' \<Longrightarrow> coord_inv files nred (coord s) \<Longrightarrow> coord_inv files nred (coord s')"
  unfolding solo_def
  by (elim conjE, cases rule: mr_step.cases) (auto intro: GetTask_inv FinishedTask_inv checkTimeouts_inv)

lemma solos_coord_inv: "(solo sortf mapf reducef input w)\<^sup>*\<^sup>* s s' \<Longrightarrow> coord_inv files nred (coord s) \<Longrightarrow> coord_inv files nred (coord s')"
  by (induction rule: rtranclp_induct) (auto intro: solo_coord_inv)

lemma solo_finishes:
  assumes inp: "0 < nred" "\<forall>f \<in> set files. input f \<noteq> None"
  shows "coord_inv files nred (coord s) \<Longrightarrow> workers s w = WFree \<Longrightarrow> \<exists>s'. (solo sortf mapf reducef input w)\<^sup>*\<^sup>* s s' \<and> Done (coord s')"
proof (induction "remaining (coord s)" arbitrary: s rule: less_induct)
  case less
  let ?R = "(solo sortf mapf reducef input w)\<^sup>*\<^sup>*"
  from timeouts_calm [OF less.prems(1)] obtain now where
    now: "calm (checkTimeouts (coord s) now)" "remaining (checkTimeouts (coord s) now) = remaining (coord s)" by blast
  define s1 where "s1 = s\<lparr>coord := checkTimeouts (coord s) now\<rparr>"
  have "solo sortf mapf reducef input w s s1" using mr_timeouts by (simp add: solo_def s1_def)
  then have r1: "?R s s1" by blast
  have s1: "coord_inv files nred (coord s1)" "calm (coord s1)" "workers s1 w = WFree" "remaining (coord s1) = remaining (coord s)"
    using checkTimeouts_inv [OF less.prems(1)] now less.prems(2) by (simp_all add: s1_def)
  from solo_get [OF s1(1-3) inp] obtain s2 where
    s2: "?R s1 s2" "Done (coord s2) \<or> workers s2 w = WFree \<and> remaining (coord s2) < remaining (coord s)" using s1(4) by metis
  show ?case
  proof (cases "Done (coord s2)")
    case True
    with r1 s2(1) show ?thesis by (meson rtranclp_trans)
  next
    case False
    with s2 less.hyps [of s2] solos_coord_inv [OF s2(1) s1(1)] obtain s3 where "?R s2 s3" "Done (coord s3)" by blast
    with r1 s2(1) show ?thesis by (meson rtranclp_trans)
  qed
qed

text \<open>
  C14: A job can always be finished.  From every state that a job reaches, after any crashes, lost reports, timeouts and repeated
  executions, a single worker that is free can bring the job to its end alone, without any step of another worker: the coordinator
  gives out again what others have left undone.  The input files must be readable.
\<close>

theorem job_can_finish:
  assumes "mr_reach sortf mapf reducef input files nred s" and "0 < nred" and "\<forall>f \<in> set files. input f \<noteq> None"
    and "workers s w = WFree"
  shows "\<exists>s'. (solo sortf mapf reducef input w)\<^sup>*\<^sup>* s s' \<and> Done (coord s')"
proof -
  from mr_reach_inv [OF assms(1,2)] have "coord_inv files nred (coord s)" by (simp add: mr_inv_def)
  with solo_finishes [OF assms(2,3)] assms(4) show ?thesis by blast
qed

theorem job_can_finish_witness:
  "\<exists>s. mr_reach (sort_key kv_Key) demo_map (wc_Reduce (\<lambda>n. replicate n CHR ''i'')) [''f'' \<mapsto> ''a''] [''f''] 1 s
     \<and> workers s 0 = WGone \<and> (\<exists>s'. (solo (sort_key kv_Key) demo_map (wc_Reduce (\<lambda>n. replicate n CHR ''i'')) [''f'' \<mapsto> ''a''] 1)\<^sup>*\<^sup>* s s'
       \<and> Done (coord s'))"
proof -
  let ?red = "wc_Reduce (\<lambda>n. replicate n CHR ''i'')"
  let ?s0 = "mr_init (demo_c Idle 0 Idle 0 MapTask)"
  let ?s1 = "?s0\<lparr>coord := demo_c InProgress 1 Idle 0 MapTask, workers := (workers ?s0)(0 := take_task demo_map [''f'' \<mapsto> ''a'']
     \<lparr>gt_Type = MapTask, gt_TaskId = 0, gt_Filename = ''f'', gt_NReduce = 1, gt_NMap = 1\<rparr>)\<rparr>"
  have r0: "mr_reach (sort_key kv_Key) demo_map ?red [''f'' \<mapsto> ''a''] [''f''] 1 ?s0" by (rule mr_start [OF demo_coord_steps(1)])
  have "mr_step (sort_key kv_Key) demo_map ?red [''f'' \<mapsto> ''a''] ?s0 ?s1"
    by (rule mr_get [of _ _ 1]) (simp_all add: mr_init_def demo_coord_steps(2))
  note r1 = mr_next [OF r0 this]
  let ?s2 = "?s1\<lparr>workers := (workers ?s1)(0 := WGone)\<rparr>"
  have r2: "mr_reach (sort_key kv_Key) demo_map ?red [''f'' \<mapsto> ''a''] [''f''] 1 ?s2" by (rule mr_next [OF r1 mr_crash])
  have "\<exists>s'. (solo (sort_key kv_Key) demo_map ?red [''f'' \<mapsto> ''a''] 1)\<^sup>*\<^sup>* ?s2 s' \<and> Done (coord s')"
    by (rule job_can_finish [OF r2]) (simp_all add: mr_init_def)
  with r2 show ?thesis by (intro exI [of _ ?s2]) simp
qed

end
