(* ===== verification/Programs.thy ===== *)
theory Programs
  imports MrProgress GoFmt
begin

text \<open>
  The command-line programs of \<^verbatim>\<open>main/\<close>: the three MapReduce programs with the loading of plugins, and the programs that start the
  servers and clients of other services, whose packages are not in the repository and are parameters here.  A program is a
  function of its arguments (the first is its name) that ends the process with a status and a message, panics, or goes on.
\<close>

section \<open>Processes\<close>

datatype 'a process = Exited int string | Panicked | Returned 'a

definition newline :: string where
  "newline = [CHR 0x0A]"

section \<open>Plugins\<close>

text \<open>A plugin is opened by its file name and maps the names it exports to symbols; a type assertion on a symbol of another type panics.\<close>

datatype symbol = MapSym "string \<Rightarrow> string \<Rightarrow> KeyValue list" | ReduceSym "string \<Rightarrow> string list \<Rightarrow> string" | OtherSym

type_synonym plugins = "string \<rightharpoonup> (string \<rightharpoonup> symbol)"

definition loadPlugin :: "plugins \<Rightarrow> string
    \<Rightarrow> ((string \<Rightarrow> string \<Rightarrow> KeyValue list) \<times> (string \<Rightarrow> string list \<Rightarrow> string)) process" where
  "loadPlugin plugin_Open filename =
     (case plugin_Open filename of
        None \<Rightarrow> Exited 1 (''cannot load plugin '' @ filename)
      | Some p \<Rightarrow>
          (case p ''Map'' of
             None \<Rightarrow> Exited 1 (''cannot find Map in '' @ filename)
           | Some (MapSym mapf) \<Rightarrow>
               (case p ''Reduce'' of
                  None \<Rightarrow> Exited 1 (''cannot find Reduce in '' @ filename)
                | Some (ReduceSym reducef) \<Rightarrow> Returned (mapf, reducef)
                | Some _ \<Rightarrow> Panicked)
           | Some _ \<Rightarrow> Panicked))"

text \<open>\<^verbatim>\<open>mrsequential.go\<close> has the same function again.\<close>

definition mrsequential_loadPlugin :: "plugins \<Rightarrow> string
    \<Rightarrow> ((string \<Rightarrow> string \<Rightarrow> KeyValue list) \<times> (string \<Rightarrow> string list \<Rightarrow> string)) process" where
  "mrsequential_loadPlugin = loadPlugin"

section \<open>The MapReduce programs\<close>

text \<open>\<^verbatim>\<open>mrworker\<close> up to its call of \<open>Worker\<close> with the two functions.\<close>

definition mrworker_main :: "plugins \<Rightarrow> string list
    \<Rightarrow> ((string \<Rightarrow> string \<Rightarrow> KeyValue list) \<times> (string \<Rightarrow> string list \<Rightarrow> string)) process" where
  "mrworker_main plugin_Open args =
     (if length args \<noteq> 2 then Exited 1 (''Usage: mrworker xxx.so'' @ newline) else loadPlugin plugin_Open (args ! 1))"

text \<open>\<^verbatim>\<open>mrcoordinator\<close> makes a coordinator with ten reduce tasks, then asks it once a second whether the job is done.  The second function
  gives the number of seconds it sleeps in all, from the coordinator's state at each time it asks.\<close>

definition mrcoordinator_main :: "string list \<Rightarrow> Coordinator process" where
  "mrcoordinator_main args =
     (if length args < 2 then Exited 1 (''Usage: mrcoordinator inputfiles...'' @ newline)
      else case MakeCoordinator (drop 1 args) 10 of None \<Rightarrow> Panicked | Some c \<Rightarrow> Returned c)"

fun mrcoordinator_wait :: "Coordinator list \<Rightarrow> nat option" where
  "mrcoordinator_wait [] = None"
| "mrcoordinator_wait (c # cs) = (if Done c = False then map_option Suc (mrcoordinator_wait cs) else Some 1)"

text \<open>\<^verbatim>\<open>mrsequential\<close> reads each file and maps it, so it stops at the first file that cannot be opened (a file that can be opened can be read); its result is the content of
  \<^verbatim>\<open>mr-out-0\<close> by lines.\<close>

definition mrsequential_main :: "plugins \<Rightarrow> (string \<rightharpoonup> string) \<Rightarrow> (KeyValue list \<Rightarrow> KeyValue list) \<Rightarrow> string list
    \<Rightarrow> (string \<times> string) list process" where
  "mrsequential_main plugin_Open input sortf args =
     (if length args < 3 then Exited 1 (''Usage: mrsequential xxx.so inputfiles...'' @ newline)
      else case mrsequential_loadPlugin plugin_Open (args ! 1) of
        Exited n m \<Rightarrow> Exited n m
      | Panicked \<Rightarrow> Panicked
      | Returned (mapf, reducef) \<Rightarrow>
          (case mrsequential sortf mapf reducef input (drop 2 args) of
             Some out \<Rightarrow> Returned out
           | None \<Rightarrow> Exited 1 (''cannot open '' @ hd (filter (\<lambda>f. input f = None) (drop 2 args)))))"

lemma seq_intermediate_None: "seq_intermediate mapf input files = None \<longleftrightarrow> (\<exists>f \<in> set files. input f = None)"
  by (induction files) (auto simp: bind_eq_None_conv)

lemma mrcoordinator_wait_at:
  "mrcoordinator_wait (cs @ [c]) = Some (length cs + 1) \<Longrightarrow> Done c \<and> (\<forall>d \<in> set cs. \<not> Done d)"
  by (induction cs) (auto split: if_splits)

lemma mrcoordinator_main_Returned:
  "mrcoordinator_main args = Returned c \<Longrightarrow> MakeCoordinator (drop 1 args) 10 = Some c"
  by (auto simp: mrcoordinator_main_def split: if_splits option.splits)

lemma mr_reach_steps:
  "(mr_step sortf mapf reducef input)\<^sup>*\<^sup>* s s' \<Longrightarrow> mr_reach sortf mapf reducef input files nred s \<Longrightarrow>
     mr_reach sortf mapf reducef input files nred s'"
  by (induction rule: rtranclp_induct) (auto intro: mr_next)


lemma solo_steps: "(solo sortf mapf reducef input w)\<^sup>*\<^sup>* s s' \<Longrightarrow> (mr_step sortf mapf reducef input)\<^sup>*\<^sup>* s s'"
  by (induction rule: rtranclp_induct) (auto simp: solo_def intro: rtranclp.rtrancl_into_rtrancl)


section \<open>Calls of the coordinator\<close>

text \<open>The socket is named after the user; \<open>call\<close> reports whether the connection was made and the call returned without an error.\<close>

definition coordinatorSock :: "int \<Rightarrow> string" where
  "coordinatorSock uid = ''/var/tmp/5840-mr-'' @ fmt_int uid"

definition mr_call :: "(string \<Rightarrow> 'conn option) \<Rightarrow> ('conn \<Rightarrow> string \<Rightarrow> 'a \<Rightarrow> 'r + string) \<Rightarrow> int \<Rightarrow> string \<Rightarrow> 'a \<Rightarrow> 'r \<Rightarrow> bool \<times> 'r" where
  "mr_call DialHTTP Call uid rpcname args reply =
     (case DialHTTP (coordinatorSock uid) of
        None \<Rightarrow> (False, reply)
      | Some c \<Rightarrow> (case Call c rpcname args of Inl r \<Rightarrow> (True, r) | Inr _ \<Rightarrow> (False, reply)))"

text \<open>Users do not reach each other's coordinators.\<close>

lemma fmt_int_inject: "fmt_int i = fmt_int j \<longleftrightarrow> i = j"
proof
  assume "fmt_int i = fmt_int j"
  then have "parse_int (fmt_int i @ []) = parse_int (fmt_int j @ [])" by simp
  then show "i = j" unfolding parse_fmt_int [of "[]", simplified stops_def list.case, OF TrueI] by simp
qed simp

lemma coordinatorSock_inject: "coordinatorSock u = coordinatorSock v \<longleftrightarrow> u = v"
  by (simp add: coordinatorSock_def fmt_int_inject)

section \<open>Numbers and flags on the command line\<close>

text \<open>The values of \<^verbatim>\<open>strconv.ParseInt(s, 10, 64)\<close>, \<^verbatim>\<open>Atoi\<close> and \<^verbatim>\<open>ParseBool\<close>, whose errors the programs ignore: a text that is not a number
  is 0, a number out of range the nearest one.\<close>

definition ParseInt64 :: "string \<Rightarrow> int" where
  "ParseInt64 s =
     (let neg = take 1 s = ''-''; ds = (if take 1 s = ''-'' \<or> take 1 s = ''+'' then drop 1 s else s)
      in if ds = [] \<or> \<not> list_all is_digit ds then 0
         else let v = int (digits_value ds) in if neg then max (- (2 ^ 63)) (- v) else min (2 ^ 63 - 1) v)"

definition ParseBool :: "string \<Rightarrow> bool" where
  "ParseBool s \<longleftrightarrow> s \<in> {''1'', ''t'', ''T'', ''TRUE'', ''true'', ''True''}"

lemma fmt_nat_no_sign: "take 1 (fmt_nat n) \<noteq> ''-'' \<and> take 1 (fmt_nat n) \<noteq> ''+''"
  using fmt_nat_digits [of n] by (cases "fmt_nat n") (auto simp: is_digit_def)

lemma ParseInt64_fmt: "- (2 ^ 63) \<le> i \<Longrightarrow> i < 2 ^ 63 \<Longrightarrow> ParseInt64 (fmt_int i) = i"
  using fmt_nat_digits [of "nat i"] fmt_nat_digits [of "nat (- i)"] fmt_nat_no_sign [of "nat i"]
  by (auto simp: ParseInt64_def fmt_int_def list_all_iff Let_def)

section \<open>The other programs\<close>

record diskvd =
  dk_gid :: int
  dk_masters :: "string list"
  dk_replicas :: "string list"
  dk_me :: int
  dk_unreliable :: bool
  dk_dir :: string
  dk_restart :: bool

definition diskvd_usage :: "'a process" where
  "diskvd_usage = Exited 1 (''Usage: diskvd -g gid -m master... -s server... -i my-index -d dir'' @ newline)"

text \<open>The loop over pairs of arguments; a last argument without a value is not looked at.\<close>

fun diskvd_loop :: "string list \<Rightarrow> diskvd \<Rightarrow> diskvd process" where
  "diskvd_loop (a0 # a1 # args) d =
     (if a0 = ''-g'' then diskvd_loop args (d\<lparr>dk_gid := ParseInt64 a1\<rparr>)
      else if a0 = ''-m'' then diskvd_loop args (d\<lparr>dk_masters := dk_masters d @ [a1]\<rparr>)
      else if a0 = ''-s'' then diskvd_loop args (d\<lparr>dk_replicas := dk_replicas d @ [a1]\<rparr>)
      else if a0 = ''-i'' then diskvd_loop args (d\<lparr>dk_me := ParseInt64 a1\<rparr>)
      else if a0 = ''-u'' then diskvd_loop args (d\<lparr>dk_unreliable := ParseBool a1\<rparr>)
      else if a0 = ''-d'' then diskvd_loop args (d\<lparr>dk_dir := a1\<rparr>)
      else if a0 = ''-r'' then diskvd_loop args (d\<lparr>dk_restart := ParseBool a1\<rparr>)
      else diskvd_usage)"
| "diskvd_loop _ d = Returned d"

text \<open>Up to the start of the server with these parameters.\<close>

definition diskvd_main :: "string list \<Rightarrow> diskvd process" where
  "diskvd_main args =
     (case diskvd_loop (drop 1 args) \<lparr>dk_gid = -1, dk_masters = [], dk_replicas = [], dk_me = -1, dk_unreliable = False, dk_dir = [], dk_restart = False\<rparr> of
        Returned d \<Rightarrow>
          (if dk_gid d < 0 \<or> dk_me d < 0 \<or> length (dk_masters d) < 1 \<or> dk_me d \<ge> int (length (dk_replicas d)) \<or> dk_dir d = []
           then diskvd_usage else Returned d)
      | r \<Rightarrow> r)"

definition lockc_main :: "(string \<Rightarrow> string \<Rightarrow> string \<Rightarrow> bool) \<Rightarrow> (string \<Rightarrow> string \<Rightarrow> string \<Rightarrow> bool) \<Rightarrow> string list \<Rightarrow> string process" where
  "lockc_main Lock Unlock args =
     (let usage = Exited 1 (''Usage: lockc -l|-u primaryport backupport lockname'' @ newline);
          reply = (\<lambda>ok. Returned (''reply: '' @ (if ok then ''true'' else ''false'') @ newline))
      in if length args = 5 then
           (if args ! 1 = ''-l'' then reply (Lock (args ! 2) (args ! 3) (args ! 4))
            else if args ! 1 = ''-u'' then reply (Unlock (args ! 2) (args ! 3) (args ! 4))
            else usage)
         else usage)"

text \<open>The servers that \<^verbatim>\<open>lockd\<close>, \<^verbatim>\<open>pbd\<close> and \<^verbatim>\<open>viewd\<close> start before they sleep for ever.\<close>

definition lockd_main :: "(string \<Rightarrow> string \<Rightarrow> bool \<Rightarrow> 's) \<Rightarrow> string list \<Rightarrow> 's process" where
  "lockd_main StartServer args =
     (if length args = 4 \<and> args ! 1 = ''-p'' then Returned (StartServer (args ! 2) (args ! 3) True)
      else if length args = 4 \<and> args ! 1 = ''-b'' then Returned (StartServer (args ! 2) (args ! 3) False)
      else Exited 1 (''Usage: lockd -p|-b primaryport backupport'' @ newline))"

definition pbd_main :: "(string \<Rightarrow> string \<Rightarrow> 's) \<Rightarrow> string list \<Rightarrow> 's process" where
  "pbd_main StartServer args =
     (if length args \<noteq> 3 then Exited 1 (''Usage: pbd viewport myport'' @ newline) else Returned (StartServer (args ! 1) (args ! 2)))"

definition viewd_main :: "(string \<Rightarrow> 's) \<Rightarrow> string list \<Rightarrow> 's process" where
  "viewd_main StartServer args =
     (if length args \<noteq> 2 then Exited 1 (''Usage: viewd port'' @ newline) else Returned (StartServer (args ! 1)))"

text \<open>The client prints what it gets; a put prints nothing.  The store is that of the service.\<close>

definition pbc_main :: "(string \<Rightarrow> 's \<Rightarrow> string \<Rightarrow> string) \<Rightarrow> (string \<Rightarrow> 's \<Rightarrow> string \<Rightarrow> string \<Rightarrow> 's) \<Rightarrow> string list \<Rightarrow> 's \<Rightarrow> ('s \<times> string) process" where
  "pbc_main Get Put args st =
     (if length args = 3 then Returned (st, Get (args ! 1) st (args ! 2) @ newline)
      else if length args = 4 then Returned (Put (args ! 1) st (args ! 2) (args ! 3), [])
      else Exited 1 (''Usage: pbc viewport key'' @ newline @ ''       pbc viewport key value'' @ newline))"

text \<open>The arguments for a server, and that \<^verbatim>\<open>diskvd\<close> understands them.\<close>

definition diskvd_args :: "diskvd \<Rightarrow> string list" where
  "diskvd_args d = [''diskvd'', ''-g'', fmt_int (dk_gid d)] @ concat (map (\<lambda>m. [''-m'', m]) (dk_masters d))
     @ concat (map (\<lambda>p. [''-s'', p]) (dk_replicas d))
     @ [''-i'', fmt_int (dk_me d), ''-u'', if dk_unreliable d then ''true'' else ''false'', ''-d'', dk_dir d,
        ''-r'', if dk_restart d then ''true'' else ''false'']"

lemma diskvd_loop_masters:
  "diskvd_loop (concat (map (\<lambda>m. [''-m'', m]) ms) @ args) d = diskvd_loop args (d\<lparr>dk_masters := dk_masters d @ ms\<rparr>)"
  by (induction ms arbitrary: d) simp_all

lemma diskvd_loop_replicas:
  "diskvd_loop (concat (map (\<lambda>m. [''-s'', m]) ps) @ args) d = diskvd_loop args (d\<lparr>dk_replicas := dk_replicas d @ ps\<rparr>)"
  by (induction ps arbitrary: d) simp_all

theorem diskvd_main_args:
  assumes "0 \<le> dk_gid d" "dk_gid d < 2 ^ 63" and "0 \<le> dk_me d" "dk_me d < int (length (dk_replicas d))" "dk_me d < 2 ^ 63"
    and "dk_masters d \<noteq> []" and "dk_dir d \<noteq> []"
  shows "diskvd_main (diskvd_args d) = Returned d"
proof -
  have g: "ParseInt64 (fmt_int (dk_gid d)) = dk_gid d" "ParseInt64 (fmt_int (dk_me d)) = dk_me d" using assms by (auto intro: ParseInt64_fmt)
  have b: "ParseBool (if x then ''true'' else ''false'') = x" for x by (simp add: ParseBool_def)
  have "int (length (dk_masters d)) \<ge> 1" using assms(6) by (cases "dk_masters d") simp_all
  then show ?thesis
    using assms by (simp add: diskvd_main_def diskvd_args_def diskvd_loop_masters diskvd_loop_replicas g b)
qed

end
