(* ===== verification/LabRpc.thy ===== *)
theory LabRpc
  imports Prelude
begin

text \<open>
  The simulated network, \<^verbatim>\<open>labrpc/labrpc.go\<close>, that carries every call of the repository.  A network is a
  set of named client ends, each connected to a server name; a server is a heap object (its address
  is its identity, which \<open>isServerDead\<close> compares) with named services.  A call is handled by three
  concurrent parties: the caller in \<open>Call\<close>, the goroutine running \<open>processReq\<close>, and the goroutine that
  \<open>processReq\<close> starts to run the handler.  Each step of the relation below is one locked section or one
  channel operation of one of them, so a server may be deleted, or an end disabled, between any two.
  Random numbers are arguments; delays only say when a step happens and are not modelled.  Argument
  and reply encodings belong to \<^verbatim>\<open>encoding/gob\<close> and are parameters, and so are the handlers found by
  reflection: a method maps the state of the receivers and the decoded argument to a new state and a
  reply.
\<close>

section \<open>Messages and codecs\<close>

type_synonym bytes = "8 word list"
type_synonym addr = nat

record reqMsg =
  rq_endname :: string
  rq_svcMeth :: string
  rq_args :: bytes

record replyMsg =
  rp_ok :: bool
  rp_reply :: bytes

record ('a, 'r) codec =
  encArgs :: "'a \<Rightarrow> bytes option"
  decArgs :: "bytes \<Rightarrow> 'a option"
  zeroArgs :: 'a
  encReply :: "'r \<Rightarrow> bytes"
  decReply :: "bytes \<Rightarrow> 'r option"

abbreviation failReply :: replyMsg where
  "failReply \<equiv> \<lparr>rp_ok = False, rp_reply = []\<rparr>"

section \<open>Services and servers\<close>

record ('w, 'a, 'r) Service =
  svc_name :: string
  svc_methods :: "string \<rightharpoonup> ('w \<Rightarrow> 'a \<Rightarrow> 'w \<times> 'r)"

record ('w, 'a, 'r) RpcServer =
  rs_services :: "string \<rightharpoonup> ('w, 'a, 'r) Service"
  rs_count :: int

definition MakeServer :: "('w, 'a, 'r) RpcServer" where
  "MakeServer = \<lparr>rs_services = Map.empty, rs_count = 0\<rparr>"

definition AddService :: "('w, 'a, 'r) RpcServer \<Rightarrow> ('w, 'a, 'r) Service \<Rightarrow> ('w, 'a, 'r) RpcServer" where
  "AddService rs svc = rs\<lparr>rs_services := (rs_services rs)(svc_name svc \<mapsto> svc)\<rparr>"

definition Server_GetCount :: "('w, 'a, 'r) RpcServer \<Rightarrow> int" where
  "Server_GetCount rs = rs_count rs"

text \<open>An undecodable argument leaves the zero value, and an unknown method ends the process.\<close>

definition Service_dispatch :: "('a, 'r) codec \<Rightarrow> ('w, 'a, 'r) Service \<Rightarrow> string \<Rightarrow> reqMsg \<Rightarrow> 'w
    \<Rightarrow> ('w \<times> 'a \<times> 'r \<times> replyMsg) option" where
  "Service_dispatch cod svc methname req w = do {
     f \<leftarrow> svc_methods svc methname;
     let a = (case decArgs cod (rq_args req) of Some a \<Rightarrow> a | None \<Rightarrow> zeroArgs cod);
     let (w', r) = f w a;
     Some (w', a, r, \<lparr>rp_ok = True, rp_reply = encReply cod r\<rparr>)
   }"

definition LastIndex :: "string \<Rightarrow> char \<Rightarrow> int" where
  "LastIndex s c = (if c \<in> set s then int (length s) - 1 - int (length (takeWhile (\<lambda>x. x \<noteq> c) (rev s))) else -1)"

definition Server_dispatch :: "('a, 'r) codec \<Rightarrow> ('w, 'a, 'r) RpcServer \<Rightarrow> reqMsg \<Rightarrow> 'w
    \<Rightarrow> (('w, 'a, 'r) RpcServer \<times> 'w \<times> 'a \<times> 'r \<times> replyMsg) option" where
  "Server_dispatch cod rs req w = do {
     let rs = rs\<lparr>rs_count := rs_count rs + 1\<rparr>;
     let dot = LastIndex (rq_svcMeth req) (CHR ''.'');
     serviceName \<leftarrow> go_upto (rq_svcMeth req) dot;
     methodName \<leftarrow> go_from (rq_svcMeth req) (dot + 1);
     service \<leftarrow> rs_services rs serviceName;
     (w', a, r, rep) \<leftarrow> Service_dispatch cod service methodName req w;
     Some (rs, w', a, r, rep)
   }"

section \<open>The network\<close>

text \<open>Looking up a missing key of a Go map gives the zero value: disabled, unconnected, no server.\<close>

record ClientEnd =
  ce_endname :: string

record Network =
  nw_reliable :: bool
  nw_longDelays :: bool
  nw_longReordering :: bool
  nw_ends :: "string \<rightharpoonup> ClientEnd"
  nw_enabled :: "string \<rightharpoonup> bool"
  nw_servers :: "string \<rightharpoonup> addr option"
  nw_connections :: "string \<rightharpoonup> string option"
  nw_done :: bool
  nw_count :: "32 word"
  nw_bytes :: "64 word"

definition MakeNetwork :: Network where
  "MakeNetwork = \<lparr>nw_reliable = True, nw_longDelays = False, nw_longReordering = False, nw_ends = Map.empty,
     nw_enabled = Map.empty, nw_servers = Map.empty, nw_connections = Map.empty, nw_done = False,
     nw_count = 0, nw_bytes = 0\<rparr>"

text \<open>The network's own goroutine: it counts a request and starts \<open>processReq\<close> for it.\<close>

definition acceptReq :: "Network \<Rightarrow> reqMsg \<Rightarrow> Network" where
  "acceptReq rn xreq = rn\<lparr>nw_count := nw_count rn + 1, nw_bytes := nw_bytes rn + of_nat (length (rq_args xreq))\<rparr>"

definition Cleanup :: "Network \<Rightarrow> Network" where
  "Cleanup rn = rn\<lparr>nw_done := True\<rparr>"

definition Reliable :: "Network \<Rightarrow> bool \<Rightarrow> Network" where
  "Reliable rn yes = rn\<lparr>nw_reliable := yes\<rparr>"

definition IsReliable :: "Network \<Rightarrow> bool" where
  "IsReliable rn = nw_reliable rn"

definition LongReordering :: "Network \<Rightarrow> bool \<Rightarrow> Network" where
  "LongReordering rn yes = rn\<lparr>nw_longReordering := yes\<rparr>"

definition LongDelays :: "Network \<Rightarrow> bool \<Rightarrow> Network" where
  "LongDelays rn yes = rn\<lparr>nw_longDelays := yes\<rparr>"

definition IsLongDelays :: "Network \<Rightarrow> bool" where
  "IsLongDelays rn = nw_longDelays rn"

definition isEnabled :: "Network \<Rightarrow> string \<Rightarrow> bool" where
  "isEnabled rn e = (nw_enabled rn e = Some True)"

definition serverOf :: "Network \<Rightarrow> string \<Rightarrow> addr option" where
  "serverOf rn n = (case nw_servers rn n of Some a \<Rightarrow> a | None \<Rightarrow> None)"

definition connectionOf :: "Network \<Rightarrow> string \<Rightarrow> string option" where
  "connectionOf rn e = (case nw_connections rn e of Some n \<Rightarrow> n | None \<Rightarrow> None)"

definition readEndnameInfo :: "Network \<Rightarrow> string \<Rightarrow> bool \<times> string option \<times> addr option \<times> bool \<times> bool" where
  "readEndnameInfo rn e =
     (isEnabled rn e, connectionOf rn e,
      (case connectionOf rn e of Some n \<Rightarrow> serverOf rn n | None \<Rightarrow> None),
      nw_reliable rn, nw_longReordering rn)"

definition isServerDead :: "Network \<Rightarrow> string \<Rightarrow> string \<Rightarrow> addr \<Rightarrow> bool" where
  "isServerDead rn e servername server = (\<not> isEnabled rn e \<or> serverOf rn servername \<noteq> Some server)"

definition MakeEnd :: "Network \<Rightarrow> string \<Rightarrow> (Network \<times> ClientEnd) option" where
  "MakeEnd rn e =
     (if nw_ends rn e \<noteq> None then None
      else (let ce = \<lparr>ce_endname = e\<rparr>
            in Some (rn\<lparr>nw_ends := (nw_ends rn)(e \<mapsto> ce), nw_enabled := (nw_enabled rn)(e \<mapsto> False),
                       nw_connections := (nw_connections rn)(e \<mapsto> None)\<rparr>, ce)))"

definition DeleteEnd :: "Network \<Rightarrow> string \<Rightarrow> Network option" where
  "DeleteEnd rn e =
     (if nw_ends rn e = None then None
      else Some (rn\<lparr>nw_ends := (nw_ends rn)(e := None), nw_enabled := (nw_enabled rn)(e := None),
                    nw_connections := (nw_connections rn)(e := None)\<rparr>))"

definition AddServer :: "Network \<Rightarrow> string \<Rightarrow> addr \<Rightarrow> Network" where
  "AddServer rn servername rs = rn\<lparr>nw_servers := (nw_servers rn)(servername \<mapsto> Some rs)\<rparr>"

definition DeleteServer :: "Network \<Rightarrow> string \<Rightarrow> Network" where
  "DeleteServer rn servername = rn\<lparr>nw_servers := (nw_servers rn)(servername \<mapsto> None)\<rparr>"

definition Connect :: "Network \<Rightarrow> string \<Rightarrow> string \<Rightarrow> Network" where
  "Connect rn e servername = rn\<lparr>nw_connections := (nw_connections rn)(e \<mapsto> Some servername)\<rparr>"

definition Enable :: "Network \<Rightarrow> string \<Rightarrow> bool \<Rightarrow> Network" where
  "Enable rn e b = rn\<lparr>nw_enabled := (nw_enabled rn)(e \<mapsto> b)\<rparr>"

text \<open>Asking for the count of a deleted server dereferences a nil pointer.\<close>

definition Network_GetCount :: "Network \<Rightarrow> (addr \<Rightarrow> ('w, 'a, 'r) RpcServer) \<Rightarrow> string \<Rightarrow> int option" where
  "Network_GetCount rn hp servername = map_option (\<lambda>a. Server_GetCount (hp a)) (serverOf rn servername)"

definition GetTotalCount :: "Network \<Rightarrow> int" where
  "GetTotalCount rn = sint (nw_count rn)"

definition GetTotalBytes :: "Network \<Rightarrow> int" where
  "GetTotalBytes rn = sint (nw_bytes rn)"

section \<open>One call\<close>

text \<open>An argument that cannot be encoded makes \<open>Call\<close> panic.\<close>

definition Call_request :: "('a, 'r) codec \<Rightarrow> ClientEnd \<Rightarrow> string \<Rightarrow> 'a \<Rightarrow> reqMsg option" where
  "Call_request cod e svcMeth args =
     map_option (\<lambda>b. \<lparr>rq_endname = ce_endname e, rq_svcMeth = svcMeth, rq_args = b\<rparr>) (encArgs cod args)"

text \<open>What \<open>Call\<close> makes of the reply: the decoded reply, or \<open>Some None\<close> when it returns false; a reply that
  cannot be decoded ends the process.\<close>

definition Call_result :: "('a, 'r) codec \<Rightarrow> replyMsg \<Rightarrow> 'r option option" where
  "Call_result cod rep = (if rp_ok rep then map_option Some (decReply cod (rp_reply rep)) else Some None)"

text \<open>What \<open>processReq\<close> captures at its start.\<close>

record reqInfo =
  ri_servername :: string
  ri_server :: addr
  ri_reliable :: bool
  ri_longreordering :: bool

text \<open>The first half: \<open>None\<close> is the reply \<open>false\<close>, for a request dropped or with nobody to handle it.\<close>

definition processReq_start :: "Network \<Rightarrow> reqMsg \<Rightarrow> nat \<Rightarrow> reqInfo option" where
  "processReq_start rn req rnd =
     (case readEndnameInfo rn (rq_endname req) of
        (True, Some servername, Some server, reliable, longreordering) \<Rightarrow>
          if \<not> reliable \<and> rnd mod 1000 < 100 then None
          else Some \<lparr>ri_servername = servername, ri_server = server, ri_reliable = reliable,
                     ri_longreordering = longreordering\<rparr>
      | _ \<Rightarrow> None)"

text \<open>The second half, after the waiting loop: whether the handler's reply is passed on.\<close>

definition processReq_finish :: "Network \<Rightarrow> reqMsg \<Rightarrow> reqInfo \<Rightarrow> replyMsg option \<Rightarrow> nat \<Rightarrow> replyMsg option" where
  "processReq_finish rn req info reply rnd =
     (let serverDead = isServerDead rn (rq_endname req) (ri_servername info) (ri_server info)
      in if reply = None \<or> serverDead then None
         else if \<not> ri_reliable info \<and> rnd mod 1000 < 100 then None
         else reply)"

definition deliverReply :: "Network \<Rightarrow> replyMsg option \<Rightarrow> Network \<times> replyMsg" where
  "deliverReply rn out =
     (case out of
        None \<Rightarrow> (rn, failReply)
      | Some reply \<Rightarrow> (rn\<lparr>nw_bytes := nw_bytes rn + of_nat (length (rp_reply reply))\<rparr>, reply))"

section \<open>Networks of concurrent calls\<close>

text \<open>The goroutine that runs the handler, and \<open>processReq\<close> with its caller.  \<open>HandlerDone\<close> is the reply
  offered on the channel \<^verbatim>\<open>ech\<close>; \<open>Decided\<close> is a reply on its way, possibly delayed by the timer.\<close>

datatype handler_pc = HandlerNotStarted | HandlerRunning | HandlerDone replyMsg

datatype call_pc = Queued | Accepted | Waiting reqInfo | Stopped reqInfo "replyMsg option"
  | Decided "replyMsg option" | Returned replyMsg

record 'a call =
  c_args :: 'a
  c_req :: reqMsg
  c_handler :: handler_pc
  c_target :: addr
  c_pc :: call_pc

text \<open>An execution of a handler: the call, the server, the argument it saw and its reply (a history
  variable that no step reads).\<close>

record ('a, 'r) execution =
  x_call :: nat
  x_server :: addr
  x_args :: 'a
  x_reply :: 'r

record ('w, 'a, 'r) rpc_system =
  network :: Network
  heap :: "addr \<Rightarrow> ('w, 'a, 'r) RpcServer"
  next_addr :: addr
  world :: 'w
  calls :: "nat \<Rightarrow> 'a call option"
  executions :: "('a, 'r) execution list"

definition put_call :: "('w, 'a, 'r) rpc_system \<Rightarrow> nat \<Rightarrow> 'a call \<Rightarrow> ('w, 'a, 'r) rpc_system" where
  "put_call s k c = s\<lparr>calls := (calls s)(k \<mapsto> c)\<rparr>"

inductive net_admin :: "Network \<Rightarrow> Network \<Rightarrow> bool" where
  "net_admin rn (Reliable rn b)"
| "net_admin rn (LongReordering rn b)"
| "net_admin rn (LongDelays rn b)"
| "net_admin rn (Cleanup rn)"
| "MakeEnd rn e = Some (rn', ce) \<Longrightarrow> net_admin rn rn'"
| "DeleteEnd rn e = Some rn' \<Longrightarrow> net_admin rn rn'"
| "net_admin rn (Connect rn e n)"
| "net_admin rn (Enable rn e b)"
| "net_admin rn (DeleteServer rn n)"

inductive rpc_step :: "('a, 'r) codec \<Rightarrow> ('w, 'a, 'r) rpc_system \<Rightarrow> ('w, 'a, 'r) rpc_system \<Rightarrow> bool" for cod where
  r_admin: "net_admin (network s) rn \<Longrightarrow> rpc_step cod s (s\<lparr>network := rn\<rparr>)"
| r_start_server: "rpc_step cod s (s\<lparr>network := AddServer (network s) n (next_addr s),
    heap := (heap s)(next_addr s := foldl AddService MakeServer svcs), next_addr := next_addr s + 1\<rparr>)"
| r_call: "calls s k = None \<Longrightarrow> Call_request cod e m a = Some req \<Longrightarrow>
    rpc_step cod s (put_call s k \<lparr>c_args = a, c_req = req, c_handler = HandlerNotStarted, c_target = 0, c_pc = Queued\<rparr>)"
| r_accept: "calls s k = Some c \<Longrightarrow> c_pc c = Queued \<Longrightarrow>
    rpc_step cod s (put_call (s\<lparr>network := acceptReq (network s) (c_req c)\<rparr>) k (c\<lparr>c_pc := Accepted\<rparr>))"
| r_gone: "calls s k = Some c \<Longrightarrow> c_pc c = Queued \<Longrightarrow> nw_done (network s) \<Longrightarrow>
    rpc_step cod s (put_call s k (c\<lparr>c_pc := Returned failReply\<rparr>))"
| r_refuse: "calls s k = Some c \<Longrightarrow> c_pc c = Accepted \<Longrightarrow> processReq_start (network s) (c_req c) rnd = None \<Longrightarrow>
    rpc_step cod s (put_call s k (c\<lparr>c_pc := Decided None\<rparr>))"
| r_start: "calls s k = Some c \<Longrightarrow> c_pc c = Accepted \<Longrightarrow> processReq_start (network s) (c_req c) rnd = Some info \<Longrightarrow>
    rpc_step cod s (put_call s k (c\<lparr>c_pc := Waiting info, c_handler := HandlerRunning, c_target := ri_server info\<rparr>))"
| r_handle: "calls s k = Some c \<Longrightarrow> c_handler c = HandlerRunning \<Longrightarrow>
    Server_dispatch cod (heap s (c_target c)) (c_req c) (world s) = Some (rs, w, a, r, rep) \<Longrightarrow>
    rpc_step cod s (put_call (s\<lparr>heap := (heap s)(c_target c := rs), world := w,
      executions := executions s @ [\<lparr>x_call = k, x_server = c_target c, x_args = a, x_reply = r\<rparr>]\<rparr>)
      k (c\<lparr>c_handler := HandlerDone rep\<rparr>))"
| r_receive: "calls s k = Some c \<Longrightarrow> c_pc c = Waiting info \<Longrightarrow> c_handler c = HandlerDone rep \<Longrightarrow>
    rpc_step cod s (put_call s k (c\<lparr>c_pc := Stopped info (Some rep)\<rparr>))"
| r_give_up: "calls s k = Some c \<Longrightarrow> c_pc c = Waiting info \<Longrightarrow>
    isServerDead (network s) (rq_endname (c_req c)) (ri_servername info) (ri_server info) \<Longrightarrow>
    rpc_step cod s (put_call s k (c\<lparr>c_pc := Stopped info None\<rparr>))"
| r_finish: "calls s k = Some c \<Longrightarrow> c_pc c = Stopped info reply \<Longrightarrow>
    rpc_step cod s (put_call s k (c\<lparr>c_pc := Decided (processReq_finish (network s) (c_req c) info reply rnd)\<rparr>))"
| r_return: "calls s k = Some c \<Longrightarrow> c_pc c = Decided out \<Longrightarrow> deliverReply (network s) out = (rn, rep) \<Longrightarrow>
    rpc_step cod s (put_call (s\<lparr>network := rn\<rparr>) k (c\<lparr>c_pc := Returned rep\<rparr>))"

inductive rpc_run :: "('a, 'r) codec \<Rightarrow> ('w, 'a, 'r) rpc_system \<Rightarrow> ('w, 'a, 'r) rpc_system \<Rightarrow> bool" for cod where
  rpc_refl: "rpc_run cod s s"
| rpc_trans: "rpc_run cod s s' \<Longrightarrow> rpc_step cod s' s'' \<Longrightarrow> rpc_run cod s s''"

definition rpc_init :: "'w \<Rightarrow> ('w, 'a, 'r) rpc_system" where
  "rpc_init w = \<lparr>network = MakeNetwork, heap = (\<lambda>_. MakeServer), next_addr = 0, world = w, calls = (\<lambda>_. None),
     executions = []\<rparr>"

section \<open>Basic facts\<close>

lemma isEnabled_Enable [simp]: "isEnabled (Enable net e b) e' = (if e' = e then b else isEnabled net e')"
  by (simp add: isEnabled_def Enable_def)

lemma LastIndex_split:
  assumes "CHR ''.'' \<notin> set m"
  shows "LastIndex (s @ CHR ''.'' # m) (CHR ''.'') = int (length s)"
proof -
  have "takeWhile (\<lambda>x. x \<noteq> CHR ''.'') (rev m @ CHR ''.'' # rev s) = rev m"
    using assms by (subst takeWhile_append2) auto
  then show ?thesis by (simp add: LastIndex_def)
qed

lemma Server_dispatch_reply:
  assumes "Server_dispatch cod rs req w = Some (rs', w', a, r, rep)"
  shows "rep = \<lparr>rp_ok = True, rp_reply = encReply cod r\<rparr>"
    "a = (case decArgs cod (rq_args req) of Some a \<Rightarrow> a | None \<Rightarrow> zeroArgs cod)"
    "rs_count rs' = rs_count rs + 1"
  using assms by (auto simp: Server_dispatch_def Service_dispatch_def go_simps Let_def split_beta)

section \<open>The invariant of a call\<close>

definition execs :: "('w, 'a, 'r) rpc_system \<Rightarrow> nat \<Rightarrow> ('a, 'r) execution list" where
  "execs s k = filter (\<lambda>x. x_call x = k) (executions s)"

text \<open>The handler's reply that \<open>processReq\<close> or the caller holds.\<close>

fun pc_reply :: "call_pc \<Rightarrow> replyMsg option" where
  "pc_reply (Stopped _ r) = r"
| "pc_reply (Decided r) = r"
| "pc_reply (Returned rep) = (if rp_ok rep then Some rep else None)"
| "pc_reply _ = None"

fun started :: "call_pc \<Rightarrow> bool" where
  "started Queued = False"
| "started Accepted = False"
| "started _ = True"

fun handler_ok :: "('a, 'r) codec \<Rightarrow> 'a call \<Rightarrow> ('a, 'r) execution list \<Rightarrow> handler_pc \<Rightarrow> bool" where
  "handler_ok cod c xs (HandlerDone rep) = (\<exists>x. xs = [x] \<and> rep = \<lparr>rp_ok = True, rp_reply = encReply cod (x_reply x)\<rparr>
     \<and> x_args x = (case decArgs cod (rq_args (c_req c)) of Some a \<Rightarrow> a | None \<Rightarrow> zeroArgs cod) \<and> x_server x = c_target c)"
| "handler_ok cod c xs _ = (xs = [])"

lemma handler_ok_pc [simp]: "handler_ok cod (c\<lparr>c_pc := p\<rparr>) xs h = handler_ok cod c xs h"
  by (cases h) simp_all

definition rpc_call_ok :: "('a, 'r) codec \<Rightarrow> ('a, 'r) execution list \<Rightarrow> 'a call \<Rightarrow> bool" where
  "rpc_call_ok cod xs c \<longleftrightarrow>
     encArgs cod (c_args c) = Some (rq_args (c_req c))
     \<and> handler_ok cod c xs (c_handler c)
     \<and> (\<not> started (c_pc c) \<longrightarrow> c_handler c = HandlerNotStarted)
     \<and> (\<forall>rep. pc_reply (c_pc c) = Some rep \<longrightarrow> c_handler c = HandlerDone rep)"

definition rpc_inv :: "('a, 'r) codec \<Rightarrow> ('w, 'a, 'r) rpc_system \<Rightarrow> bool" where
  "rpc_inv cod s \<longleftrightarrow> (\<forall>k. (calls s k = None \<longrightarrow> execs s k = [])
     \<and> (\<forall>c. calls s k = Some c \<longrightarrow> rpc_call_ok cod (execs s k) c))"

lemma rpc_inv_D: "rpc_inv cod s \<Longrightarrow> calls s k = Some c \<Longrightarrow> rpc_call_ok cod (execs s k) c"
  by (simp add: rpc_inv_def)

lemma rpc_inv_fresh: "rpc_inv cod s \<Longrightarrow> calls s k = None \<Longrightarrow> execs s k = []"
  by (simp add: rpc_inv_def)

text \<open>A step of one call that runs no handler only has to keep that call's part.\<close>

lemma rpc_inv_put:
  assumes "rpc_inv cod s" "rpc_call_ok cod (execs s k) c"
    "executions s' = executions s" "calls s' = (calls s)(k \<mapsto> c)"
  shows "rpc_inv cod s'"
proof -
  from assms(3) have "execs s' = execs s" by (simp add: execs_def fun_eq_iff)
  with assms show ?thesis by (auto simp: rpc_inv_def)
qed

lemma rpc_inv_same:
  "rpc_inv cod s \<Longrightarrow> executions s' = executions s \<Longrightarrow> calls s' = calls s \<Longrightarrow> rpc_inv cod s'"
  by (simp add: rpc_inv_def execs_def [abs_def])

lemma put_call_simps [simp]:
  "calls (put_call s k c) = (calls s)(k \<mapsto> c)" "executions (put_call s k c) = executions s"
  "network (put_call s k c) = network s" "next_addr (put_call s k c) = next_addr s"
  by (simp_all add: put_call_def)

lemma rpc_inv_move:
  assumes "rpc_inv cod s" "calls s k = Some c" "rpc_call_ok cod (execs s k) c \<Longrightarrow> rpc_call_ok cod (execs s k) c'"
    "executions s' = executions s" "calls s' = calls s"
  shows "rpc_inv cod (put_call s' k c')"
  using rpc_inv_put [OF assms(1) assms(3) [OF rpc_inv_D [OF assms(1,2)]], of "put_call s' k c'"] assms(4,5)
  by simp

lemma processReq_finish_reply: "processReq_finish rn req info reply rnd = Some rep \<Longrightarrow> reply = Some rep"
  by (auto simp: processReq_finish_def Let_def split: if_splits)

lemma processReq_finish_None [simp]: "processReq_finish rn req info None rnd = None"
  by (simp add: processReq_finish_def)

lemma deliverReply_ok:
  "deliverReply rn out = (rn', rep) \<Longrightarrow> rp_ok rep \<Longrightarrow> out = Some rep"
  by (auto simp: deliverReply_def split: option.splits)

lemma rpc_inv_handle:
  assumes inv: "rpc_inv cod s" and c: "calls s k = Some c" "c_handler c = HandlerRunning"
    and d: "Server_dispatch cod (heap s (c_target c)) (c_req c) (world s) = Some (rs, w, a, r, rep)"
    and s': "executions s' = executions s @ [\<lparr>x_call = k, x_server = c_target c, x_args = a, x_reply = r\<rparr>]"
      "calls s' = (calls s)(k \<mapsto> c\<lparr>c_handler := HandlerDone rep\<rparr>)"
  shows "rpc_inv cod s'"
proof -
  note ok = rpc_inv_D [OF inv c(1)]
  have x: "execs s' j = execs s j @ (if j = k then [\<lparr>x_call = k, x_server = c_target c, x_args = a, x_reply = r\<rparr>] else [])" for j
    using s'(1) by (simp add: execs_def)
  from ok c(2) have e: "execs s k = []" by (simp add: rpc_call_ok_def)
  have "rpc_call_ok cod (execs s' k) (c\<lparr>c_handler := HandlerDone rep\<rparr>)"
    using ok c(2) e x [of k] Server_dispatch_reply [OF d] by (auto simp: rpc_call_ok_def)
  with inv x s'(2) show ?thesis by (auto simp: rpc_inv_def)
qed

lemma rpc_step_inv: "rpc_step cod s s' \<Longrightarrow> rpc_inv cod s \<Longrightarrow> rpc_inv cod s'"
proof (induction rule: rpc_step.induct)
  case (r_call s k e m a req)
  then have "encArgs cod a = Some (rq_args req)" by (auto simp: Call_request_def)
  with rpc_inv_fresh [OF r_call.prems r_call.hyps(1)]
  have "rpc_call_ok cod (execs s k) \<lparr>c_args = a, c_req = req, c_handler = HandlerNotStarted, c_target = 0, c_pc = Queued\<rparr>"
    by (simp add: rpc_call_ok_def)
  with r_call.prems show ?case by (rule rpc_inv_put) simp_all
next
  case (r_handle s k c rs w a r rep)
  show ?case by (rule rpc_inv_handle [OF r_handle.prems r_handle.hyps]) simp_all
next
  case (r_finish s k c info reply rnd)
  from rpc_inv_D [OF r_finish.prems r_finish.hyps(1)] r_finish.hyps(2)
  have "rpc_call_ok cod (execs s k) (c\<lparr>c_pc := Decided (processReq_finish (network s) (c_req c) info reply rnd)\<rparr>)"
    by (cases "c_handler c") (auto simp: rpc_call_ok_def dest: processReq_finish_reply)
  with r_finish.prems show ?case by (rule rpc_inv_put) simp_all
next
  case (r_return s k c out rn rep)
  from rpc_inv_D [OF r_return.prems r_return.hyps(1)] r_return.hyps(2)
  have "rpc_call_ok cod (execs s k) (c\<lparr>c_pc := Returned rep\<rparr>)"
    by (cases "c_handler c") (auto simp: rpc_call_ok_def dest: deliverReply_ok [OF r_return.hyps(3)])
  with r_return.prems show ?case by (rule rpc_inv_put) simp_all
next
  case (r_admin s rn)
  from r_admin.prems show ?case by (rule rpc_inv_same) simp_all
next
  case (r_start_server s n svcs)
  from r_start_server.prems show ?case by (rule rpc_inv_same) simp_all
qed (auto simp: rpc_call_ok_def elim!: rpc_inv_move)

lemma rpc_init_inv: "rpc_inv cod (rpc_init w)"
  by (simp add: rpc_inv_def rpc_init_def execs_def)

lemma rpc_run_inv: "rpc_run cod s s' \<Longrightarrow> rpc_inv cod s \<Longrightarrow> rpc_inv cod s'"
  by (induction rule: rpc_run.induct) (auto intro: rpc_step_inv)

section \<open>Deleted servers\<close>

text \<open>An address that no longer serves a name never serves it again: a restarted server is a new object.\<close>

definition retired :: "('w, 'a, 'r) rpc_system \<Rightarrow> string \<Rightarrow> addr \<Rightarrow> bool" where
  "retired s n a \<longleftrightarrow> a < next_addr s \<and> serverOf (network s) n \<noteq> Some a"

lemma net_admin_serverOf: "net_admin rn rn' \<Longrightarrow> serverOf rn' n = serverOf rn n \<or> serverOf rn' n = None"
  by (induction rule: net_admin.induct)
    (auto simp: serverOf_def Reliable_def LongReordering_def LongDelays_def Cleanup_def MakeEnd_def DeleteEnd_def
      Connect_def Enable_def DeleteServer_def Let_def split: if_splits)

lemma net_counts_serverOf [simp]:
  "serverOf (acceptReq rn req) n = serverOf rn n"
  "deliverReply rn out = (rn', rep) \<Longrightarrow> serverOf rn' n = serverOf rn n"
  by (auto simp: serverOf_def acceptReq_def deliverReply_def split: option.splits)

lemma rpc_step_retired: "rpc_step cod s s' \<Longrightarrow> retired s n a \<Longrightarrow> retired s' n a"
proof (induction rule: rpc_step.induct)
  case (r_admin s rn)
  then show ?case using net_admin_serverOf [OF r_admin.hyps, of n] by (auto simp: retired_def)
next
  case (r_start_server s n' svcs)
  then show ?case by (auto simp: retired_def AddServer_def serverOf_def)
qed (auto simp: retired_def)

text \<open>A call to a retired server that holds no decided reply can only fail.\<close>

definition doomed :: "('w, 'a, 'r) rpc_system \<Rightarrow> nat \<Rightarrow> string \<Rightarrow> addr \<Rightarrow> bool" where
  "doomed s k n a \<longleftrightarrow> retired s n a \<and> (\<exists>c. calls s k = Some c \<and>
     (case c_pc c of Waiting info \<Rightarrow> ri_servername info = n \<and> ri_server info = a
      | Stopped info _ \<Rightarrow> ri_servername info = n \<and> ri_server info = a
      | Decided out \<Rightarrow> out = None
      | Returned rep \<Rightarrow> \<not> rp_ok rep
      | _ \<Rightarrow> False))"

lemma retired_finish:
  "retired s n a \<Longrightarrow> ri_servername info = n \<Longrightarrow> ri_server info = a \<Longrightarrow>
   processReq_finish (network s) req info reply rnd = None"
  by (simp add: retired_def processReq_finish_def isServerDead_def)

lemma rpc_step_doomed: "rpc_step cod s s' \<Longrightarrow> doomed s k n a \<Longrightarrow> doomed s' k n a"
proof -
  assume st: "rpc_step cod s s'" and d: "doomed s k n a"
  then have ret: "retired s' n a" using rpc_step_retired by (auto simp: doomed_def)
  from st d ret show ?thesis
  proof (induction rule: rpc_step.induct)
    case (r_finish s k' c info reply rnd)
    then show ?case by (auto simp: doomed_def retired_finish)
  next
    case (r_return s k' c out rn rep)
    then show ?case by (auto simp: doomed_def dest: deliverReply_ok)
  qed (auto simp: doomed_def)
qed

lemma rpc_run_doomed: "rpc_run cod s s' \<Longrightarrow> doomed s k n a \<Longrightarrow> doomed s' k n a"
  by (induction rule: rpc_run.induct) (auto intro: rpc_step_doomed)

section \<open>Properties\<close>

definition demo_codec :: "(nat, nat) codec" where
  "demo_codec = \<lparr>encArgs = (\<lambda>n. Some (replicate n 0)), decArgs = (\<lambda>b. Some (length b)), zeroArgs = 0,
     encReply = (\<lambda>n. replicate n 0), decReply = (\<lambda>b. Some (length b))\<rparr>"

text \<open>A counter service: \<open>Counter.Add\<close> adds its argument and replies with the sum.\<close>

definition demo_service :: "(nat, nat, nat) Service" where
  "demo_service = \<lparr>svc_name = ''Counter'', svc_methods = [''Add'' \<mapsto> (\<lambda>w a. (w + a, w + a))]\<rparr>"

text \<open>A run of it: the server is started as \<open>s\<close>, an end \<open>e\<close> is connected to it, and a call adds 2.\<close>

definition demo_net :: Network where
  "demo_net = Enable (Connect (fst (the (MakeEnd (AddServer MakeNetwork ''s'' 0) ''e''))) ''e'' ''s'') ''e'' True"

definition demo_req :: reqMsg where
  "demo_req = \<lparr>rq_endname = ''e'', rq_svcMeth = ''Counter.Add'', rq_args = [0, 0]\<rparr>"

definition demo_info :: reqInfo where
  "demo_info = \<lparr>ri_servername = ''s'', ri_server = 0, ri_reliable = True, ri_longreordering = False\<rparr>"

definition demo_call :: "handler_pc \<Rightarrow> call_pc \<Rightarrow> nat call" where
  "demo_call h p = \<lparr>c_args = 2, c_req = demo_req, c_handler = h, c_target = 0, c_pc = p\<rparr>"

definition demo_ready :: "(nat, nat, nat) rpc_system" where
  "demo_ready = \<lparr>network = demo_net, heap = (\<lambda>_. MakeServer)(0 := AddService MakeServer demo_service), next_addr = 1,
     world = 0, calls = (\<lambda>_. None), executions = []\<rparr>"

definition demo_waiting :: "(nat, nat, nat) rpc_system" where
  "demo_waiting = put_call (demo_ready\<lparr>network := acceptReq demo_net demo_req\<rparr>) 0
     (demo_call HandlerRunning (Waiting demo_info))"

definition demo_handled :: "(nat, nat, nat) rpc_system" where
  "demo_handled = put_call (demo_waiting\<lparr>heap := (heap demo_ready)(0 := (heap demo_ready 0)\<lparr>rs_count := 1\<rparr>), world := 2,
     executions := [\<lparr>x_call = 0, x_server = 0, x_args = 2, x_reply = 2\<rparr>]\<rparr>) 0
     (demo_call (HandlerDone \<lparr>rp_ok = True, rp_reply = [0, 0]\<rparr>) (Waiting demo_info))"

lemmas demo_rpc_defs = demo_net_def demo_req_def demo_info_def demo_call_def demo_codec_def demo_service_def
  MakeNetwork_def AddServer_def MakeEnd_def Connect_def Enable_def acceptReq_def Call_request_def readEndnameInfo_def
  isEnabled_def serverOf_def connectionOf_def processReq_start_def Let_def

lemma demo_run_ready: "rpc_run demo_codec (rpc_init 0) demo_ready"
proof -
  let ?s1 = "(rpc_init 0 :: (nat, nat, nat) rpc_system)\<lparr>network := AddServer MakeNetwork ''s'' 0,
    heap := (\<lambda>_. MakeServer)(0 := AddService MakeServer demo_service), next_addr := 1\<rparr>"
  let ?rn2 = "fst (the (MakeEnd (AddServer MakeNetwork ''s'' 0) ''e''))"
  have 1: "rpc_step demo_codec (rpc_init 0) ?s1"
    using r_start_server [of demo_codec "rpc_init 0" "[demo_service]" "''s''"] by (simp add: rpc_init_def)
  have "net_admin (AddServer MakeNetwork ''s'' 0) ?rn2"
    by (rule net_admin.intros(5) [of _ "''e''" _ "\<lparr>ce_endname = ''e''\<rparr>"]) (simp add: demo_rpc_defs)
  then have 2: "rpc_step demo_codec ?s1 (?s1\<lparr>network := ?rn2\<rparr>)" by (intro r_admin) simp
  have 3: "rpc_step demo_codec (?s1\<lparr>network := ?rn2\<rparr>) (?s1\<lparr>network := Connect ?rn2 ''e'' ''s''\<rparr>)"
    using r_admin [OF net_admin.intros(7) [of "network (?s1\<lparr>network := ?rn2\<rparr>)" "''e''" "''s''"], of demo_codec] by simp
  have 4: "rpc_step demo_codec (?s1\<lparr>network := Connect ?rn2 ''e'' ''s''\<rparr>) demo_ready"
    using r_admin [OF net_admin.intros(8) [of "network (?s1\<lparr>network := Connect ?rn2 ''e'' ''s''\<rparr>)" "''e''" True], of demo_codec]
    by (simp add: demo_ready_def demo_net_def rpc_init_def)
  from rpc_trans [OF rpc_trans [OF rpc_trans [OF rpc_trans [OF rpc_refl 1] 2] 3] 4] show ?thesis .
qed

lemma demo_run_waiting: "rpc_run demo_codec demo_ready demo_waiting"
proof -
  have 1: "rpc_step demo_codec demo_ready (put_call demo_ready 0 (demo_call HandlerNotStarted Queued))"
    using r_call [of demo_ready 0 demo_codec "\<lparr>ce_endname = ''e''\<rparr>" "''Counter.Add''" 2 demo_req]
    by (simp add: demo_ready_def demo_rpc_defs numeral_2_eq_2)
  have 2: "rpc_step demo_codec (put_call demo_ready 0 (demo_call HandlerNotStarted Queued))
      (put_call (demo_ready\<lparr>network := acceptReq demo_net demo_req\<rparr>) 0 (demo_call HandlerNotStarted Accepted))"
    using r_accept [of "put_call demo_ready 0 (demo_call HandlerNotStarted Queued)" 0 "demo_call HandlerNotStarted Queued" demo_codec]
    by (simp add: demo_ready_def put_call_def demo_rpc_defs)
  have 3: "rpc_step demo_codec
      (put_call (demo_ready\<lparr>network := acceptReq demo_net demo_req\<rparr>) 0 (demo_call HandlerNotStarted Accepted)) demo_waiting"
    using r_start [of "put_call (demo_ready\<lparr>network := acceptReq demo_net demo_req\<rparr>) 0 (demo_call HandlerNotStarted Accepted)"
      0 "demo_call HandlerNotStarted Accepted" 0 demo_info demo_codec]
    by (simp add: demo_waiting_def demo_ready_def put_call_def demo_rpc_defs)
  from rpc_trans [OF rpc_trans [OF rpc_trans [OF rpc_refl 1] 2] 3] show ?thesis .
qed

lemma rpc_run_append: "rpc_run cod s' s'' \<Longrightarrow> rpc_run cod s s' \<Longrightarrow> rpc_run cod s s''"
  by (induction rule: rpc_run.induct) (auto intro: rpc_trans)

definition demo_reply :: replyMsg where
  "demo_reply = \<lparr>rp_ok = True, rp_reply = [0, 0]\<rparr>"

definition demo_returned :: "(nat, nat, nat) rpc_system" where
  "demo_returned = put_call (demo_handled\<lparr>network := fst (deliverReply (network demo_handled) (Some demo_reply))\<rparr>) 0
     (demo_call (HandlerDone demo_reply) (Returned demo_reply))"

lemma demo_handle: "rpc_step demo_codec demo_waiting demo_handled"
proof -
  have "Server_dispatch demo_codec (heap demo_waiting 0) demo_req (world demo_waiting)
    = Some ((heap demo_ready 0)\<lparr>rs_count := 1\<rparr>, 2, 2, 2, \<lparr>rp_ok = True, rp_reply = [0, 0]\<rparr>)"
    by (simp add: demo_waiting_def demo_ready_def put_call_def Server_dispatch_def Service_dispatch_def demo_rpc_defs
      LastIndex_def go_upto_def go_from_def AddService_def MakeServer_def numeral_2_eq_2)
  then show ?thesis
    using r_handle [of demo_waiting 0 "demo_call HandlerRunning (Waiting demo_info)" demo_codec]
    by (simp add: demo_handled_def demo_waiting_def demo_ready_def put_call_def demo_call_def)
qed

lemma demo_run_returned: "rpc_run demo_codec demo_waiting demo_returned"
proof -
  let ?c = "demo_call (HandlerDone demo_reply)"
  have h: "calls demo_handled 0 = Some (?c (Waiting demo_info))"
    by (simp add: demo_handled_def demo_reply_def)
  have 2: "rpc_step demo_codec demo_handled (put_call demo_handled 0 (?c (Stopped demo_info (Some demo_reply))))"
    using r_receive [OF h, of demo_info demo_reply demo_codec] by (simp add: demo_call_def)
  have f: "processReq_finish (network demo_handled) demo_req demo_info (Some demo_reply) 0 = Some demo_reply"
    by (simp add: demo_handled_def demo_waiting_def demo_ready_def put_call_def processReq_finish_def isServerDead_def
      demo_rpc_defs)
  have 3: "rpc_step demo_codec (put_call demo_handled 0 (?c (Stopped demo_info (Some demo_reply))))
      (put_call demo_handled 0 (?c (Decided (Some demo_reply))))"
    using r_finish [of "put_call demo_handled 0 (?c (Stopped demo_info (Some demo_reply)))" 0
      "?c (Stopped demo_info (Some demo_reply))" demo_info "Some demo_reply" demo_codec 0] f
    by (simp add: demo_call_def put_call_def)
  have 4: "rpc_step demo_codec (put_call demo_handled 0 (?c (Decided (Some demo_reply)))) demo_returned"
    using r_return [of "put_call demo_handled 0 (?c (Decided (Some demo_reply)))" 0 "?c (Decided (Some demo_reply))"
      "Some demo_reply" "fst (deliverReply (network demo_handled) (Some demo_reply))" demo_reply demo_codec]
    by (simp add: demo_call_def put_call_def demo_returned_def deliverReply_def)
  from rpc_trans [OF rpc_trans [OF rpc_trans [OF rpc_trans [OF rpc_refl demo_handle] 2] 3] 4] show ?thesis .
qed

text \<open>The same call when the server is deleted while the caller waits.\<close>

definition demo_deleted :: "(nat, nat, nat) rpc_system" where
  "demo_deleted = demo_waiting\<lparr>network := DeleteServer (network demo_waiting) ''s''\<rparr>"

definition demo_failed :: "(nat, nat, nat) rpc_system" where
  "demo_failed = put_call demo_deleted 0 (demo_call HandlerRunning (Returned failReply))"

lemma demo_run_failed: "rpc_run demo_codec demo_deleted demo_failed"
proof -
  let ?c = "demo_call HandlerRunning"
  have h: "calls demo_deleted 0 = Some (?c (Waiting demo_info))"
    by (simp add: demo_deleted_def demo_waiting_def)
  have 1: "rpc_step demo_codec demo_deleted (put_call demo_deleted 0 (?c (Stopped demo_info None)))"
    using r_give_up [OF h, of demo_info demo_codec]
    by (simp add: demo_deleted_def DeleteServer_def isServerDead_def demo_call_def serverOf_def demo_info_def)
  have 2: "rpc_step demo_codec (put_call demo_deleted 0 (?c (Stopped demo_info None))) (put_call demo_deleted 0 (?c (Decided None)))"
    using r_finish [of "put_call demo_deleted 0 (?c (Stopped demo_info None))" 0 "?c (Stopped demo_info None)" demo_info None demo_codec 0]
    by (simp add: demo_call_def put_call_def)
  have 3: "rpc_step demo_codec (put_call demo_deleted 0 (?c (Decided None))) demo_failed"
    using r_return [of "put_call demo_deleted 0 (?c (Decided None))" 0 "?c (Decided None)" None "network demo_deleted" failReply demo_codec]
    by (simp add: demo_call_def put_call_def demo_failed_def deliverReply_def)
  from rpc_trans [OF rpc_trans [OF rpc_trans [OF rpc_refl 1] 2] 3] show ?thesis .
qed

text \<open>
  C19: calls over the network.  In every run of the network, with requests and replies lost, calls
  interleaved, ends disabled and servers deleted and restarted between any two steps, the handler of a
  call is executed at most once.  When \<^verbatim>\<open>Call\<close> returns, it never fails to decode the reply, and if it
  returns true, the handler was executed exactly once, saw the caller's arguments, and the caller gets
  the reply that execution computed.  (When it returns false the handler may or may not have run.)
\<close>

theorem rpc_at_most_once:
  assumes "rpc_run cod (rpc_init w) s" and "calls s k = Some c"
    and "\<And>a b. encArgs cod a = Some b \<Longrightarrow> decArgs cod b = Some a"
    and "\<And>r. decReply cod (encReply cod r) = Some r"
  shows "length (filter (\<lambda>x. x_call x = k) (executions s)) \<le> 1
    \<and> (\<forall>rep. c_pc c = Returned rep \<longrightarrow> (\<exists>out. Call_result cod rep = Some out \<and>
         (\<forall>r. out = Some r \<longrightarrow> (\<exists>x. filter (\<lambda>x. x_call x = k) (executions s) = [x]
            \<and> x_args x = c_args c \<and> x_reply x = r))))"
proof -
  from rpc_run_inv [OF assms(1) rpc_init_inv] assms(2) have ok: "rpc_call_ok cod (execs s k) c"
    by (rule rpc_inv_D)
  then have le: "length (execs s k) \<le> 1" by (cases "c_handler c") (auto simp: rpc_call_ok_def)
  have "\<exists>out. Call_result cod rep = Some out \<and> (\<forall>r. out = Some r \<longrightarrow>
      (\<exists>x. execs s k = [x] \<and> x_args x = c_args c \<and> x_reply x = r))" if "c_pc c = Returned rep" for rep
  proof (cases "rp_ok rep")
    case True
    with ok that have "c_handler c = HandlerDone rep" "handler_ok cod c (execs s k) (HandlerDone rep)"
      by (auto simp: rpc_call_ok_def)
    with ok assms(3,4) show ?thesis by (auto simp: rpc_call_ok_def Call_result_def)
  qed (simp add: Call_result_def)
  with le show ?thesis by (auto simp: execs_def)
qed

theorem rpc_at_most_once_witness:
  "\<exists>x. filter (\<lambda>x. x_call x = 0) (executions demo_returned) = [x] \<and> x_args x = 2 \<and> x_reply x = 2
    \<and> Call_result demo_codec demo_reply = Some (Some 2)"
proof -
  have r: "rpc_run demo_codec (rpc_init 0) demo_returned"
    using rpc_run_append [OF demo_run_returned rpc_run_append [OF demo_run_waiting demo_run_ready]] .
  have c: "calls demo_returned 0 = Some (demo_call (HandlerDone demo_reply) (Returned demo_reply))"
    by (simp add: demo_returned_def)
  have "Call_result demo_codec demo_reply = Some (Some 2)"
    by (simp add: Call_result_def demo_reply_def demo_codec_def)
  moreover have "c_args (demo_call (HandlerDone demo_reply) (Returned demo_reply)) = 2"
    "c_pc (demo_call (HandlerDone demo_reply) (Returned demo_reply)) = Returned demo_reply"
    by (simp_all add: demo_call_def)
  ultimately show ?thesis
    using rpc_at_most_once [OF r c] by (auto simp: demo_codec_def)
qed

text \<open>
  C20: a deleted server never answers.  Once \<^verbatim>\<open>DeleteServer\<close> has removed a server (or the name was given
  to a restarted one), every call that was sent to that server object and whose reply was not yet on its
  way returns false, however long the run goes on and even when the name is in use again.  So no caller
  can get a positive reply for an operation that the old instance saved in a superseded persister.
\<close>

theorem deleted_server_never_answers:
  assumes "rpc_run cod s s'" and "calls s k = Some c" and "c_pc c = Waiting info"
    and "ri_server info < next_addr s" and "serverOf (network s) (ri_servername info) \<noteq> Some (ri_server info)"
    and "calls s' k = Some c'" and "c_pc c' = Returned rep"
  shows "Call_result cod rep = Some None"
proof -
  from assms(2-5) have "doomed s k (ri_servername info) (ri_server info)"
    by (auto simp: doomed_def retired_def)
  from rpc_run_doomed [OF assms(1) this] assms(6,7) show ?thesis
    by (auto simp: doomed_def Call_result_def)
qed

theorem deleted_server_never_answers_witness:
  "rpc_run demo_codec demo_deleted demo_failed \<and> Call_result demo_codec failReply = Some None"
proof -
  have "calls demo_deleted 0 = Some (demo_call HandlerRunning (Waiting demo_info))"
    by (simp add: demo_deleted_def demo_waiting_def)
  then have "Call_result demo_codec failReply = Some None"
  proof (rule deleted_server_never_answers [OF demo_run_failed])
    show "c_pc (demo_call HandlerRunning (Waiting demo_info)) = Waiting demo_info" by (simp add: demo_call_def)
    show "ri_server demo_info < next_addr demo_deleted"
      by (simp add: demo_info_def demo_deleted_def demo_waiting_def demo_ready_def)
    show "serverOf (network demo_deleted) (ri_servername demo_info) \<noteq> Some (ri_server demo_info)"
      by (simp add: demo_info_def demo_deleted_def DeleteServer_def serverOf_def)
    show "calls demo_failed 0 = Some (demo_call HandlerRunning (Returned failReply))" by (simp add: demo_failed_def)
    show "c_pc (demo_call HandlerRunning (Returned failReply)) = Returned failReply" by (simp add: demo_call_def)
  qed
  with demo_run_failed show ?thesis by simp
qed

end
