(* ===== verification/TestGroup.thy ===== *)
theory TestGroup
  imports LabRpc Persister
begin

text \<open>
  Groups of servers and their storage, \<^verbatim>\<open>tester1/group.go\<close> and \<^verbatim>\<open>tester1/srv.go\<close>: how servers are put on
  the network, partitioned, shut down and restarted.  All operations act on one environment: the network,
  a store of persisters (they are shared by pointer with the running service, so their addresses are
  explicit) and the state of the services themselves.  \<^verbatim>\<open>mks\<close>, the function that starts a service, and
  \<^verbatim>\<open>Kill\<close> are parameters, as is \<^verbatim>\<open>MakeService\<close>, which uses reflection; the \<open>j\<close>-th random end name drawn is \<open>names j\<close>; \<^verbatim>\<open>strconv.Itoa\<close> is \<open>itoa\<close>.  An index out
  of range, and a random name that is already in use, end the process (\<open>None\<close>).
\<close>

section \<open>Data\<close>

record ('r, 's, 'x, 'a, 'b) tenv =
  te_net :: Network
  te_pers :: "addr \<Rightarrow> ('r, 's) Persister"
  te_pnext :: addr
  te_labs :: "addr \<Rightarrow> ('x, 'a, 'b) RpcServer"
  te_snext :: addr
  te_world :: 'x

record 'v tserver =
  ts_saved :: "addr option"
  ts_svcs :: "'v list"
  ts_endNames :: "string list"
  ts_clntEnds :: "ClientEnd list"

record 'v ServerGrp =
  sg_srvs :: "'v tserver list"
  sg_servernames :: "string list"
  sg_gid :: int
  sg_connected :: "bool list"

type_synonym ('r, 's, 'x, 'a, 'b, 'v) mks = "ClientEnd list \<Rightarrow> int \<Rightarrow> int \<Rightarrow> addr \<Rightarrow> ('r, 's, 'x, 'a, 'b) tenv \<Rightarrow> ('r, 's, 'x, 'a, 'b) tenv \<times> 'v list"

text \<open>A loop whose body may end the process.\<close>

fun for_each :: "('i \<Rightarrow> 's \<Rightarrow> 's option) \<Rightarrow> 'i list \<Rightarrow> 's \<Rightarrow> 's option" where
  "for_each f [] s = Some s"
| "for_each f (x # xs) s = Option.bind (f x s) (for_each f xs)"

section \<open>Servers\<close>

definition ServerName :: "(int \<Rightarrow> string) \<Rightarrow> int \<Rightarrow> int \<Rightarrow> string" where
  "ServerName itoa gid i = ''server-'' @ itoa gid @ ''-'' @ itoa i"

definition makeServer :: "(int \<Rightarrow> string) \<Rightarrow> (nat \<Rightarrow> string) \<Rightarrow> Network \<Rightarrow> int \<Rightarrow> nat \<Rightarrow> (Network \<times> 'v tserver) option" where
  "makeServer itoa names net gid nsrv =
     for_each (\<lambda>j (net, srv). do {
         (net, e) \<leftarrow> MakeEnd net (names j);
         let net = Connect net (names j) (ServerName itoa gid (int j));
         Some (net, srv\<lparr>ts_endNames := (ts_endNames srv)[j := names j], ts_clntEnds := (ts_clntEnds srv)[j := e]\<rparr>)
       }) [0..<nsrv]
       (net, \<lparr>ts_saved = None, ts_svcs = [], ts_endNames = replicate nsrv [], ts_clntEnds = replicate nsrv \<lparr>ce_endname = []\<rparr>\<rparr>)"

text \<open>A persister allocated at a fresh address.\<close>

definition newPersister :: "('r, 's, 'x, 'a, 'b) tenv \<Rightarrow> ('r, 's) Persister \<Rightarrow> ('r, 's, 'x, 'a, 'b) tenv \<times> addr" where
  "newPersister te ps = (te\<lparr>te_pers := (te_pers te)(te_pnext te := ps), te_pnext := te_pnext te + 1\<rparr>, te_pnext te)"

definition startServer :: "(int \<Rightarrow> string) \<Rightarrow> (nat \<Rightarrow> string) \<Rightarrow> ('r, 's, 'x, 'a, 'b) tenv \<Rightarrow> 'v tserver \<Rightarrow> int
    \<Rightarrow> (('r, 's, 'x, 'a, 'b) tenv \<times> 'v tserver) option" where
  "startServer itoa names te s gid = do {
     (net, srv) \<leftarrow> makeServer itoa names (te_net te) gid (length (ts_endNames s));
     let te = te\<lparr>te_net := net\<rparr>;
     let (te, a) = newPersister te (case ts_saved s of Some p \<Rightarrow> Persister_Copy (te_pers te p) | None \<Rightarrow> MakePersister);
     Some (te, srv\<lparr>ts_saved := Some a\<rparr>)
   }"

definition shutdownServer :: "('v \<Rightarrow> ('r, 's, 'x, 'a, 'b) tenv \<Rightarrow> ('r, 's, 'x, 'a, 'b) tenv) \<Rightarrow> ('r, 's, 'x, 'a, 'b) tenv \<Rightarrow> 'v tserver
    \<Rightarrow> ('r, 's, 'x, 'a, 'b) tenv \<times> 'v tserver" where
  "shutdownServer kill te s =
     (let (te, s) = (case ts_saved s of
            None \<Rightarrow> (te, s)
          | Some p \<Rightarrow> (let (te, a) = newPersister te (Persister_Copy (te_pers te p)) in (te, s\<lparr>ts_saved := Some a\<rparr>)))
      in (fold kill (ts_svcs s) te, s\<lparr>ts_svcs := []\<rparr>))"

section \<open>Groups\<close>

definition makeSrvGrp :: "(int \<Rightarrow> string) \<Rightarrow> (nat \<Rightarrow> nat \<Rightarrow> string) \<Rightarrow> Network \<Rightarrow> int \<Rightarrow> nat \<Rightarrow> (Network \<times> 'v ServerGrp) option" where
  "makeSrvGrp itoa names net gid n = do {
     (net, srvs) \<leftarrow> for_each (\<lambda>i (net, srvs). do {
         (net, srv) \<leftarrow> makeServer itoa (names i) net gid n;
         Some (net, srvs @ [srv])
       }) [0..<n] (net, []);
     Some (net, \<lparr>sg_srvs = srvs, sg_servernames = map (\<lambda>i. ServerName itoa gid (int i)) [0..<n], sg_gid = gid,
                 sg_connected = replicate n False\<rparr>)
   }"

definition sg_N :: "'v ServerGrp \<Rightarrow> int" where
  "sg_N sg = int (length (sg_srvs sg))"

definition SrvName :: "'v ServerGrp \<Rightarrow> int \<Rightarrow> string option" where
  "SrvName sg i = go_nth (sg_servernames sg) i"

definition SrvNamesTo :: "'v ServerGrp \<Rightarrow> int list \<Rightarrow> string list option" where
  "SrvNamesTo sg to = for_each (\<lambda>i ns. map_option (\<lambda>n. ns @ [n]) (go_nth (sg_servernames sg) i)) to []"

definition all_srvs :: "'v ServerGrp \<Rightarrow> int list" where
  "all_srvs sg = map int [0..<length (sg_srvs sg)]"

definition IsConnected :: "'v ServerGrp \<Rightarrow> int \<Rightarrow> bool option" where
  "IsConnected sg i = go_nth (sg_connected sg) i"

text \<open>\<open>Server.connect\<close>: the outgoing ends of server \<open>s\<close>.\<close>

definition connect_out :: "'v ServerGrp \<Rightarrow> 'v tserver \<Rightarrow> int list \<Rightarrow> Network \<Rightarrow> Network option" where
  "connect_out sg s to net = for_each (\<lambda>j net. do {
       con \<leftarrow> IsConnected sg j;
       if con then do { endname \<leftarrow> go_nth (ts_endNames s) j; Some (Enable net endname True) } else Some net
     }) to net"

definition disconnect_out :: "'v tserver \<Rightarrow> int list \<Rightarrow> Network \<Rightarrow> Network option" where
  "disconnect_out s from net = for_each (\<lambda>j net. do {
       endname \<leftarrow> go_nth (ts_endNames s) j;
       Some (Enable net endname False)
     }) from net"

definition connect :: "'v ServerGrp \<Rightarrow> Network \<Rightarrow> int \<Rightarrow> int list \<Rightarrow> (Network \<times> 'v ServerGrp) option" where
  "connect sg net i to = do {
     con \<leftarrow> go_set (sg_connected sg) i True;
     let sg = sg\<lparr>sg_connected := con\<rparr>;
     s \<leftarrow> go_nth (sg_srvs sg) i;
     net \<leftarrow> connect_out sg s to net;
     net \<leftarrow> for_each (\<lambda>j net. do {
         con \<leftarrow> IsConnected sg j;
         if con then do {
           t \<leftarrow> go_nth (sg_srvs sg) j;
           endname \<leftarrow> go_nth (ts_endNames t) i;
           Some (Enable net endname True)
         } else Some net
       }) to net;
     Some (net, sg)
   }"

definition disconnect :: "'v ServerGrp \<Rightarrow> Network \<Rightarrow> int \<Rightarrow> int list \<Rightarrow> (Network \<times> 'v ServerGrp) option" where
  "disconnect sg net i from = do {
     con \<leftarrow> go_set (sg_connected sg) i False;
     let sg = sg\<lparr>sg_connected := con\<rparr>;
     s \<leftarrow> go_nth (sg_srvs sg) i;
     net \<leftarrow> disconnect_out s from net;
     net \<leftarrow> for_each (\<lambda>j net. do {
         t \<leftarrow> go_nth (sg_srvs sg) j;
         endname \<leftarrow> go_nth (ts_endNames t) i;
         Some (Enable net endname False)
       }) from net;
     Some (net, sg)
   }"

definition ConnectOne :: "'v ServerGrp \<Rightarrow> Network \<Rightarrow> int \<Rightarrow> (Network \<times> 'v ServerGrp) option" where
  "ConnectOne sg net i = connect sg net i (all_srvs sg)"

definition ConnectAll :: "'v ServerGrp \<Rightarrow> Network \<Rightarrow> (Network \<times> 'v ServerGrp) option" where
  "ConnectAll sg net = for_each (\<lambda>i (net, sg). ConnectOne sg net i) (all_srvs sg) (net, sg)"

definition DisconnectAll :: "'v ServerGrp \<Rightarrow> Network \<Rightarrow> int \<Rightarrow> (Network \<times> 'v ServerGrp) option" where
  "DisconnectAll sg net i = disconnect sg net i (all_srvs sg)"

definition StartServer :: "(int \<Rightarrow> string) \<Rightarrow> ('v \<Rightarrow> ('x, 'a, 'b) Service) \<Rightarrow> (nat \<Rightarrow> string) \<Rightarrow> ('r, 's, 'x, 'a, 'b, 'v) mks \<Rightarrow> 'v ServerGrp
    \<Rightarrow> ('r, 's, 'x, 'a, 'b) tenv \<Rightarrow> int \<Rightarrow> (('r, 's, 'x, 'a, 'b) tenv \<times> 'v ServerGrp) option" where
  "StartServer itoa mkService names mks sg te i = do {
     s \<leftarrow> go_nth (sg_srvs sg) i;
     (te, srv) \<leftarrow> startServer itoa names te s (sg_gid sg);
     let (te, svcs) = mks (ts_clntEnds srv) (sg_gid sg) i (the (ts_saved srv)) te;
     let srv = srv\<lparr>ts_svcs := svcs\<rparr>;
     srvs \<leftarrow> go_set (sg_srvs sg) i srv;
     let labsrv = foldl (\<lambda>rs svc. AddService rs (mkService svc)) MakeServer svcs;
     let te = te\<lparr>te_net := AddServer (te_net te) (ServerName itoa (sg_gid sg) i) (te_snext te),
       te_labs := (te_labs te)(te_snext te := labsrv), te_snext := te_snext te + 1\<rparr>;
     Some (te, sg\<lparr>sg_srvs := srvs\<rparr>)
   }"

definition ShutdownServer :: "(int \<Rightarrow> string) \<Rightarrow> ('v \<Rightarrow> ('r, 's, 'x, 'a, 'b) tenv \<Rightarrow> ('r, 's, 'x, 'a, 'b) tenv) \<Rightarrow> 'v ServerGrp
    \<Rightarrow> ('r, 's, 'x, 'a, 'b) tenv \<Rightarrow> int \<Rightarrow> (('r, 's, 'x, 'a, 'b) tenv \<times> 'v ServerGrp) option" where
  "ShutdownServer itoa kill sg te i = do {
     (net, sg) \<leftarrow> disconnect sg (te_net te) i (all_srvs sg);
     let te = te\<lparr>te_net := DeleteServer net (ServerName itoa (sg_gid sg) i)\<rparr>;
     s \<leftarrow> go_nth (sg_srvs sg) i;
     let (te, s) = shutdownServer kill te s;
     srvs \<leftarrow> go_set (sg_srvs sg) i s;
     Some (te, sg\<lparr>sg_srvs := srvs\<rparr>)
   }"

definition Shutdown :: "(int \<Rightarrow> string) \<Rightarrow> ('v \<Rightarrow> ('r, 's, 'x, 'a, 'b) tenv \<Rightarrow> ('r, 's, 'x, 'a, 'b) tenv) \<Rightarrow> 'v ServerGrp
    \<Rightarrow> ('r, 's, 'x, 'a, 'b) tenv \<Rightarrow> (('r, 's, 'x, 'a, 'b) tenv \<times> 'v ServerGrp) option" where
  "Shutdown itoa kill sg te = for_each (\<lambda>i (te, sg). ShutdownServer itoa kill sg te i) (all_srvs sg) (te, sg)"

definition start :: "(int \<Rightarrow> string) \<Rightarrow> ('v \<Rightarrow> ('x, 'a, 'b) Service) \<Rightarrow> (int \<Rightarrow> nat \<Rightarrow> string) \<Rightarrow> ('r, 's, 'x, 'a, 'b, 'v) mks \<Rightarrow> 'v ServerGrp
    \<Rightarrow> ('r, 's, 'x, 'a, 'b) tenv \<Rightarrow> (('r, 's, 'x, 'a, 'b) tenv \<times> 'v ServerGrp) option" where
  "start itoa mkService names mks sg te = for_each (\<lambda>i (te, sg). StartServer itoa mkService (names i) mks sg te i) (all_srvs sg) (te, sg)"

definition StartServers :: "(int \<Rightarrow> string) \<Rightarrow> ('v \<Rightarrow> ('x, 'a, 'b) Service) \<Rightarrow> (int \<Rightarrow> nat \<Rightarrow> string) \<Rightarrow> ('r, 's, 'x, 'a, 'b, 'v) mks \<Rightarrow> 'v ServerGrp
    \<Rightarrow> ('r, 's, 'x, 'a, 'b) tenv \<Rightarrow> (('r, 's, 'x, 'a, 'b) tenv \<times> 'v ServerGrp) option" where
  "StartServers itoa mkService names mks sg te = do {
     (te, sg) \<leftarrow> start itoa mkService names mks sg te;
     (net, sg) \<leftarrow> ConnectAll sg (te_net te);
     Some (te\<lparr>te_net := net\<rparr>, sg)
   }"

text \<open>The size functions read through the pointers of the servers' persisters; a group that was never started has none.\<close>

definition RpcCount :: "(int \<Rightarrow> string) \<Rightarrow> 'v ServerGrp \<Rightarrow> ('r, 's, 'x, 'a, 'b) tenv \<Rightarrow> int \<Rightarrow> int option" where
  "RpcCount itoa sg te server = Network_GetCount (te_net te) (te_labs te) (ServerName itoa (sg_gid sg) server)"

definition LogSize :: "('r list \<Rightarrow> int) \<Rightarrow> 'v ServerGrp \<Rightarrow> ('r, 's, 'x, 'a, 'b) tenv \<Rightarrow> int option" where
  "LogSize len sg te = for_each (\<lambda>s m. map_option (\<lambda>p. let n = RaftStateSize len (te_pers te p) in if n > m then n else m)
     (ts_saved s)) (sg_srvs sg) 0"

definition sg_SnapshotSize :: "('s list \<Rightarrow> int) \<Rightarrow> 'v ServerGrp \<Rightarrow> ('r, 's, 'x, 'a, 'b) tenv \<Rightarrow> int option" where
  "sg_SnapshotSize len sg te = for_each (\<lambda>s m. map_option (\<lambda>p. let n = SnapshotSize len (te_pers te p) in if n > m then n else m)
     (ts_saved s)) (sg_srvs sg) 0"

section \<open>Partitions\<close>

text \<open>The loop of \<open>MakePartition\<close>: \<open>j\<close> counts the servers placed so far.\<close>

definition place :: "nat \<Rightarrow> int \<times> int list \<times> int list \<Rightarrow> (int \<times> int list \<times> int list) option" where
  "place i = (\<lambda>(j, p1, p2).
     if j < int (length p1) then map_option (\<lambda>p1. (j + 1, p1, p2)) (go_set p1 j (int i))
     else map_option (\<lambda>p2. (j + 1, p1, p2)) (go_set p2 (j - int (length p1)) (int i)))"

definition MakePartition :: "'v ServerGrp \<Rightarrow> int \<Rightarrow> (int list \<times> int list) option" where
  "MakePartition sg l = do {
     let n = length (sg_srvs sg);
     (j, p1, p2) \<leftarrow> for_each (\<lambda>i st. if int i \<noteq> l then place i st else Some st) [0..<n]
        (0, replicate (n div 2 + 1) 0, replicate (n div 2) 0);
     p2 \<leftarrow> go_set p2 (int (length p2) - 1) l;
     Some (p1, p2)
   }"

definition part_one :: "int list \<Rightarrow> int list \<Rightarrow> int \<Rightarrow> Network \<times> 'v ServerGrp \<Rightarrow> (Network \<times> 'v ServerGrp) option" where
  "part_one own other i = (\<lambda>(net, sg). do {
     (net, sg) \<leftarrow> disconnect sg net i other;
     connect sg net i own
   })"

definition Partition :: "'v ServerGrp \<Rightarrow> Network \<Rightarrow> int list \<Rightarrow> int list \<Rightarrow> (Network \<times> 'v ServerGrp) option" where
  "Partition sg net p1 p2 = do {
     (net, sg) \<leftarrow> for_each (part_one p1 p2) p1 (net, sg);
     for_each (part_one p2 p1) p2 (net, sg)
   }"

section \<open>Enabling and disabling ends\<close>

lemma for_each_append: "for_each f (xs @ ys) s = Option.bind (for_each f xs s) (for_each f ys)"
proof (induction xs arbitrary: s)
  case (Cons x xs)
  then show ?case by (cases "f x s") auto
qed simp

text \<open>A loop that enables, or disables, the ends \<open>nm j\<close> of the selected indices.\<close>

lemma for_each_Enable:
  assumes "\<And>j net. j \<in> set xs \<Longrightarrow> f j net = Some (if P j then Enable net (nm j) v else net)"
  shows "\<exists>net'. for_each f xs net = Some net'
    \<and> (\<forall>e. isEnabled net' e = (if \<exists>j \<in> set xs. P j \<and> nm j = e then v else isEnabled net e))"
  using assms
proof (induction xs arbitrary: net)
  case (Cons x xs)
  let ?net = "if P x then Enable net (nm x) v else net"
  from Cons.IH [of ?net] Cons.prems obtain net' where
    "for_each f xs ?net = Some net'"
    "\<forall>e. isEnabled net' e = (if \<exists>j \<in> set xs. P j \<and> nm j = e then v else isEnabled ?net e)" by auto
  with Cons.prems show ?case by auto
qed simp

definition endname :: "'v ServerGrp \<Rightarrow> int \<Rightarrow> int \<Rightarrow> string" where
  "endname sg i j = ts_endNames (sg_srvs sg ! nat i) ! nat j"

definition in_group :: "'v ServerGrp \<Rightarrow> int \<Rightarrow> bool" where
  "in_group sg i \<longleftrightarrow> 0 \<le> i \<and> i < int (length (sg_srvs sg))"

text \<open>A well-formed group: every server has an end to every server, and no two ends have the same name.\<close>

definition grp_wf :: "'v ServerGrp \<Rightarrow> bool" where
  "grp_wf sg \<longleftrightarrow> length (sg_connected sg) = length (sg_srvs sg)
     \<and> (\<forall>s \<in> set (sg_srvs sg). length (ts_endNames s) = length (sg_srvs sg))
     \<and> (\<forall>i j i' j'. in_group sg i \<longrightarrow> in_group sg j \<longrightarrow> in_group sg i' \<longrightarrow> in_group sg j' \<longrightarrow>
          endname sg i j = endname sg i' j' \<longrightarrow> i = i' \<and> j = j')"

definition on_net :: "'v ServerGrp \<Rightarrow> int \<Rightarrow> bool" where
  "on_net sg i = sg_connected sg ! nat i"

lemma grp_wf_nth:
  assumes "grp_wf sg" "in_group sg i"
  shows "go_nth (sg_srvs sg) i = Some (sg_srvs sg ! nat i)" "IsConnected sg i = Some (on_net sg i)"
    "go_set (sg_connected sg) i b = Some ((sg_connected sg)[nat i := b])"
  using assms by (auto simp: grp_wf_def in_group_def IsConnected_def on_net_def go_simps)

lemma grp_wf_endname:
  assumes "grp_wf sg" "in_group sg i" "in_group sg j"
  shows "go_nth (ts_endNames (sg_srvs sg ! nat i)) j = Some (endname sg i j)"
proof -
  from assms have "sg_srvs sg ! nat i \<in> set (sg_srvs sg)" by (auto simp: in_group_def intro: nth_mem)
  with assms have "length (ts_endNames (sg_srvs sg ! nat i)) = length (sg_srvs sg)" by (simp add: grp_wf_def)
  with assms(3) show ?thesis by (simp add: go_nth_def endname_def in_group_def)
qed

lemma grp_wf_inj:
  "grp_wf sg \<Longrightarrow> in_group sg i \<Longrightarrow> in_group sg j \<Longrightarrow> in_group sg i' \<Longrightarrow> in_group sg j' \<Longrightarrow>
   endname sg i j = endname sg i' j' \<longleftrightarrow> i = i' \<and> j = j'"
  by (auto simp: grp_wf_def)

text \<open>Whether server \<open>i\<close> can call server \<open>j\<close>.\<close>

abbreviation linked :: "'v ServerGrp \<Rightarrow> Network \<Rightarrow> int \<Rightarrow> int \<Rightarrow> bool" where
  "linked sg net i j \<equiv> isEnabled net (endname sg i j)"

abbreviation mark :: "'v ServerGrp \<Rightarrow> int \<Rightarrow> bool \<Rightarrow> 'v ServerGrp" where
  "mark sg i b \<equiv> sg\<lparr>sg_connected := (sg_connected sg)[nat i := b]\<rparr>"

lemma mark_simps [simp]:
  "endname (mark sg i b) = endname sg" "in_group (mark sg i b) = in_group sg" "grp_wf (mark sg i b) = grp_wf sg"
  by (auto simp: endname_def in_group_def grp_wf_def fun_eq_iff)

lemma on_net_mark:
  "grp_wf sg \<Longrightarrow> in_group sg i \<Longrightarrow> in_group sg j \<Longrightarrow> on_net (mark sg i b) j = (if j = i then b else on_net sg j)"
  by (auto simp: on_net_def grp_wf_def in_group_def nth_list_update nat_eq_iff2)

lemma connect_effect:
  assumes wf: "grp_wf sg" "in_group sg i" and to: "\<And>j. j \<in> set to \<Longrightarrow> in_group sg j"
  shows "\<exists>net'. connect sg net i to = Some (net', mark sg i True) \<and>
    (\<forall>a b. in_group sg a \<longrightarrow> in_group sg b \<longrightarrow> linked sg net' a b =
      (linked sg net a b \<or> a = i \<and> b \<in> set to \<and> on_net (mark sg i True) b
         \<or> b = i \<and> a \<in> set to \<and> on_net (mark sg i True) a))"
proof -
  let ?sg = "mark sg i True"
  have wf': "grp_wf ?sg" using wf by simp
  note nth = grp_wf_nth [OF wf'] grp_wf_endname [OF wf']
  have "\<exists>net1. connect_out ?sg (sg_srvs sg ! nat i) to net = Some net1 \<and> (\<forall>e. isEnabled net1 e =
      (if \<exists>j \<in> set to. on_net ?sg j \<and> endname sg i j = e then True else isEnabled net e))"
    unfolding connect_out_def using nth wf to by (intro for_each_Enable) auto
  then obtain net1 where 1: "connect_out ?sg (sg_srvs sg ! nat i) to net = Some net1"
    "\<And>e. isEnabled net1 e = (if \<exists>j \<in> set to. on_net ?sg j \<and> endname sg i j = e then True else isEnabled net e)" by blast
  let ?f = "\<lambda>j net. do {
         con \<leftarrow> IsConnected ?sg j;
         if con then do {
           t \<leftarrow> go_nth (sg_srvs ?sg) j;
           endname \<leftarrow> go_nth (ts_endNames t) i;
           Some (Enable net endname True)
         } else Some net
       }"
  have "\<exists>net2. for_each ?f to net1 = Some net2 \<and> (\<forall>e. isEnabled net2 e =
      (if \<exists>j \<in> set to. on_net ?sg j \<and> endname sg j i = e then True else isEnabled net1 e))"
    using nth wf to by (intro for_each_Enable) auto
  then obtain net2 where 2: "for_each ?f to net1 = Some net2"
    "\<And>e. isEnabled net2 e = (if \<exists>j \<in> set to. on_net ?sg j \<and> endname sg j i = e then True else isEnabled net1 e)" by blast
  have "connect sg net i to = Some (net2, ?sg)"
    using 1(1) 2(1) grp_wf_nth [OF wf] by (simp add: connect_def)
  moreover have "linked sg net2 a b = (linked sg net a b \<or> a = i \<and> b \<in> set to \<and> on_net ?sg b
         \<or> b = i \<and> a \<in> set to \<and> on_net ?sg a)" if "in_group sg a" "in_group sg b" for a b
    using that wf to grp_wf_inj [OF wf(1)] by (auto simp: 1(2) 2(2))
  ultimately show ?thesis by blast
qed

lemma disconnect_effect:
  assumes wf: "grp_wf sg" "in_group sg i" and "from": "\<And>j. j \<in> set from \<Longrightarrow> in_group sg j"
  shows "\<exists>net'. disconnect sg net i from = Some (net', mark sg i False) \<and>
    (\<forall>a b. in_group sg a \<longrightarrow> in_group sg b \<longrightarrow> linked sg net' a b =
      (linked sg net a b \<and> \<not> (a = i \<and> b \<in> set from) \<and> \<not> (b = i \<and> a \<in> set from)))"
proof -
  let ?sg = "mark sg i False"
  note nth = grp_wf_nth [OF wf(1)] grp_wf_endname [OF wf(1)]
  have "\<exists>net1. disconnect_out (sg_srvs sg ! nat i) from net = Some net1 \<and> (\<forall>e. isEnabled net1 e =
      (if \<exists>j \<in> set from. True \<and> endname sg i j = e then False else isEnabled net e))"
    unfolding disconnect_out_def using nth wf "from" by (intro for_each_Enable) auto
  then obtain net1 where 1: "disconnect_out (sg_srvs sg ! nat i) from net = Some net1"
    "\<And>e. isEnabled net1 e = (if \<exists>j \<in> set from. True \<and> endname sg i j = e then False else isEnabled net e)" by blast
  let ?f = "\<lambda>j net. do {
         t \<leftarrow> go_nth (sg_srvs ?sg) j;
         endname \<leftarrow> go_nth (ts_endNames t) i;
         Some (Enable net endname False)
       }"
  have "\<exists>net2. for_each ?f from net1 = Some net2 \<and> (\<forall>e. isEnabled net2 e =
      (if \<exists>j \<in> set from. True \<and> endname sg j i = e then False else isEnabled net1 e))"
    using nth wf "from" by (intro for_each_Enable) auto
  then obtain net2 where 2: "for_each ?f from net1 = Some net2"
    "\<And>e. isEnabled net2 e = (if \<exists>j \<in> set from. True \<and> endname sg j i = e then False else isEnabled net1 e)" by blast
  have "disconnect sg net i from = Some (net2, ?sg)"
    using 1(1) 2(1) grp_wf_nth [OF wf] by (simp add: disconnect_def)
  moreover have "linked sg net2 a b = (linked sg net a b \<and> \<not> (a = i \<and> b \<in> set from) \<and> \<not> (b = i \<and> a \<in> set from))"
    if "in_group sg a" "in_group sg b" for a b
    using that wf "from" grp_wf_inj [OF wf(1)] by (auto simp: 1(2) 2(2))
  ultimately show ?thesis by blast
qed

section \<open>Partitioning\<close>

definition same_servers :: "'v ServerGrp \<Rightarrow> 'v ServerGrp \<Rightarrow> bool" where
  "same_servers sg sg' \<longleftrightarrow> grp_wf sg' \<and> sg_srvs sg' = sg_srvs sg"

lemma same_servers_names: "same_servers sg sg' \<Longrightarrow> endname sg' = endname sg \<and> in_group sg' = in_group sg"
  by (auto simp: same_servers_def endname_def in_group_def fun_eq_iff)

text \<open>The servers of \<open>D\<close>, on one side, are joined with one another and cut off from the other side.\<close>

definition side_done :: "'v ServerGrp \<Rightarrow> Network \<Rightarrow> int set \<Rightarrow> int set \<Rightarrow> bool" where
  "side_done sg net D other \<longleftrightarrow>
     (\<forall>a \<in> D. on_net sg a \<and> (\<forall>b \<in> D. linked sg net a b) \<and> (\<forall>b \<in> other. \<not> linked sg net a b \<and> \<not> linked sg net b a))"

lemma part_one_effect:
  assumes wf: "grp_wf sg" and i: "i \<in> set own"
    and ranges: "\<And>j. j \<in> set own \<union> set other \<Longrightarrow> in_group sg j" and disj: "set own \<inter> set other = {}"
    and D: "D \<subseteq> set own" "side_done sg net D (set other)"
  shows "\<exists>net'. part_one own other i (net, sg) = Some (net', mark sg i True)
    \<and> side_done (mark sg i True) net' (insert i D) (set other)
    \<and> (\<forall>a b. in_group sg a \<longrightarrow> in_group sg b \<longrightarrow> a \<noteq> i \<longrightarrow> b \<noteq> i \<longrightarrow> linked sg net' a b = linked sg net a b)"
proof -
  from i ranges have ig: "in_group sg i" by simp
  obtain net1 where 1: "disconnect sg net i other = Some (net1, mark sg i False)"
    "\<And>a b. in_group sg a \<Longrightarrow> in_group sg b \<Longrightarrow> linked sg net1 a b =
      (linked sg net a b \<and> \<not> (a = i \<and> b \<in> set other) \<and> \<not> (b = i \<and> a \<in> set other))"
    using disconnect_effect [OF wf ig, of other net] ranges by auto
  obtain net2 where 2: "connect (mark sg i False) net1 i own = Some (net2, mark sg i True)"
    "\<And>a b. in_group sg a \<Longrightarrow> in_group sg b \<Longrightarrow> linked sg net2 a b =
      (linked sg net1 a b \<or> a = i \<and> b \<in> set own \<and> on_net (mark sg i True) b
         \<or> b = i \<and> a \<in> set own \<and> on_net (mark sg i True) a)"
    using connect_effect [of "mark sg i False" i own net1] wf ig ranges by auto
  have "part_one own other i (net, sg) = Some (net2, mark sg i True)"
    using 1(1) 2(1) by (simp add: part_one_def)
  moreover have "linked sg net2 a b = linked sg net a b" if "in_group sg a" "in_group sg b" "a \<noteq> i" "b \<noteq> i" for a b
    using that 1(2) 2(2) by simp
  moreover have "side_done (mark sg i True) net2 (insert i D) (set other)"
    unfolding side_done_def
  proof (intro ballI conjI)
    fix a assume a: "a \<in> insert i D"
    with D i have ao: "a \<in> set own" by auto
    then have ag: "in_group sg a" using ranges by simp
    show on: "on_net (mark sg i True) a"
      using a D(2) on_net_mark [OF wf ig ag] by (auto simp: side_done_def)
    show "linked (mark sg i True) net2 a b" if b: "b \<in> insert i D" for b
    proof -
      from b D i ranges have bg: "in_group sg b" "b \<in> set own" by auto
      with b D(2) on_net_mark [OF wf ig bg(1)] have "on_net (mark sg i True) b" by (auto simp: side_done_def)
      with a b bg ag ao on D(2) disj i show ?thesis
        by (auto simp: side_done_def 1(2) [OF ag bg(1)] 2(2) [OF ag bg(1)])
    qed
    show "\<not> linked (mark sg i True) net2 a b" "\<not> linked (mark sg i True) net2 b a" if b: "b \<in> set other" for b
    proof -
      from b ranges have bg: "in_group sg b" by simp
      from b disj i ao have "b \<notin> set own" "b \<noteq> i" by auto
      with a b D(2) show "\<not> linked (mark sg i True) net2 a b" "\<not> linked (mark sg i True) net2 b a"
        by (auto simp: side_done_def 1(2) [OF ag bg] 2(2) [OF ag bg] 1(2) [OF bg ag] 2(2) [OF bg ag])
    qed
  qed
  ultimately show ?thesis by blast
qed

text \<open>One of the two loops of \<open>Partition\<close>: the part of the network that its side does not touch is left alone.\<close>

lemma part_loop:
  assumes "grp_wf sg" "set xs \<subseteq> set own" "\<And>j. j \<in> set own \<union> set other \<Longrightarrow> in_group sg j"
    "set own \<inter> set other = {}" "D \<subseteq> set own" "side_done sg net D (set other)"
  shows "\<exists>net' sg'. for_each (part_one own other) xs (net, sg) = Some (net', sg') \<and> same_servers sg sg'
    \<and> side_done sg' net' (D \<union> set xs) (set other)
    \<and> (\<forall>a b. in_group sg a \<longrightarrow> in_group sg b \<longrightarrow> a \<notin> set own \<longrightarrow> b \<notin> set own \<longrightarrow> linked sg net' a b = linked sg net a b)"
  using assms
proof (induction xs arbitrary: net sg D)
  case Nil
  then show ?case by (simp add: same_servers_def)
next
  case (Cons x xs)
  let ?sg = "mark sg x True"
  from part_one_effect [of sg x own other D net] Cons.prems obtain net1 where
    1: "part_one own other x (net, sg) = Some (net1, ?sg)" "side_done ?sg net1 (insert x D) (set other)"
      "\<And>a b. in_group sg a \<Longrightarrow> in_group sg b \<Longrightarrow> a \<noteq> x \<Longrightarrow> b \<noteq> x \<Longrightarrow> linked sg net1 a b = linked sg net a b" by auto
  from Cons.IH [of ?sg "insert x D" net1] Cons.prems 1(2) obtain net' sg' where
    2: "for_each (part_one own other) xs (net1, ?sg) = Some (net', sg')" "same_servers ?sg sg'"
      "side_done sg' net' (insert x D \<union> set xs) (set other)"
      "\<And>a b. in_group sg a \<Longrightarrow> in_group sg b \<Longrightarrow> a \<notin> set own \<Longrightarrow> b \<notin> set own \<Longrightarrow> linked sg net' a b = linked sg net1 a b"
    by auto
  have "same_servers sg sg'" using 2(2) by (simp add: same_servers_def)
  moreover have "linked sg net' a b = linked sg net a b"
    if "in_group sg a" "in_group sg b" "a \<notin> set own" "b \<notin> set own" for a b
    using that 1(3) [of a b] 2(4) [of a b] Cons.prems(2) by auto
  moreover have "insert x D \<union> set xs = D \<union> set (x # xs)" by auto
  ultimately show ?case using 1(1) 2(1,3) by (intro exI [of _ net'] exI [of _ sg']) simp
qed

lemma place_loop:
  assumes "length p1 + length p2 = N" "j + length items \<le> N"
  shows "\<exists>q1 q2. for_each place items (int j, p1, p2) = Some (int (j + length items), q1, q2)
    \<and> length q1 = length p1 \<and> length q2 = length p2
    \<and> q1 @ q2 = take j (p1 @ p2) @ map int items @ drop (j + length items) (p1 @ p2)"
  using assms
proof (induction items arbitrary: j p1 p2)
  case Nil
  then show ?case by (simp del: take_append drop_append)
next
  case (Cons i items)
  obtain r1 r2 where r: "place i (int j, p1, p2) = Some (int (Suc j), r1, r2)"
    "length r1 = length p1" "length r2 = length p2" "r1 @ r2 = (p1 @ p2)[j := int i]"
  proof (cases "j < length p1")
    case True
    then show thesis using that [of "p1[j := int i]" p2] by (simp add: place_def go_set_def list_update_append)
  next
    case False
    with Cons.prems show thesis using that [of p1 "p2[j - length p1 := int i]"]
      by (simp add: place_def go_set_def list_update_append nat_diff_distrib of_nat_diff)
  qed
  from Cons.IH [of r1 r2 "Suc j"] Cons.prems r obtain q1 q2 where
    "for_each place items (int (Suc j), r1, r2) = Some (int (Suc j + length items), q1, q2)"
    "length q1 = length p1" "length q2 = length p2"
    "q1 @ q2 = take (Suc j) (r1 @ r2) @ map int items @ drop (Suc j + length items) (r1 @ r2)" by auto
  moreover have "take (Suc j) ((p1 @ p2)[j := int i]) = take j (p1 @ p2) @ [int i]"
    using Cons.prems by (subst take_Suc_conv_app_nth) auto
  ultimately show ?case using r by (auto simp del: take_append drop_append)
qed

lemma for_each_filter: "for_each (\<lambda>i st. if P i then f i st else Some st) xs s = for_each f (filter P xs) s"
  by (induction xs arbitrary: s) (auto intro: bind_option_cong)

lemma shutdownServer_saved:
  "ts_saved s = Some p \<Longrightarrow> shutdownServer kill te s =
     (fold kill (ts_svcs s) (te\<lparr>te_pers := (te_pers te)(te_pnext te := te_pers te p), te_pnext := te_pnext te + 1\<rparr>),
      s\<lparr>ts_saved := Some (te_pnext te), ts_svcs := []\<rparr>)"
  by (simp add: shutdownServer_def newPersister_def)

section \<open>Properties\<close>

definition demo_server :: "string list \<Rightarrow> unit tserver" where
  "demo_server ends = \<lparr>ts_saved = None, ts_svcs = [], ts_endNames = ends, ts_clntEnds = []\<rparr>"

definition demo_group :: "unit ServerGrp" where
  "demo_group = \<lparr>sg_srvs = [demo_server [''aa'', ''ab'', ''ac''], demo_server [''ba'', ''bb'', ''bc''],
     demo_server [''ca'', ''cb'', ''cc'']], sg_servernames = [''a'', ''b'', ''c''], sg_gid = 0, sg_connected = [True, False, True]\<rparr>"

lemma demo_group_wf: "grp_wf demo_group"
proof -
  have "in_group demo_group i \<longleftrightarrow> i = 0 \<or> i = 1 \<or> i = 2" for i
    by (auto simp: in_group_def demo_group_def)
  then show ?thesis
    by (auto simp: grp_wf_def demo_group_def demo_server_def endname_def numeral_2_eq_2)
qed

text \<open>
  Partitions.  On a well-formed group, \<^verbatim>\<open>Partition\<close> of two disjoint lists of servers never panics and,
  whatever was enabled or disabled before, leaves the network so that a server of the lists can call another
  one exactly when both are in the same list.
\<close>

theorem Partition_isolates:
  assumes "grp_wf sg" "\<And>j. j \<in> set p1 \<union> set p2 \<Longrightarrow> in_group sg j" "set p1 \<inter> set p2 = {}"
  shows "\<exists>net' sg'. Partition sg net p1 p2 = Some (net', sg')
    \<and> (\<forall>a b. a \<in> set p1 \<union> set p2 \<longrightarrow> b \<in> set p1 \<union> set p2 \<longrightarrow>
         isEnabled net' (endname sg a b) = (a \<in> set p1 \<longleftrightarrow> b \<in> set p1))"
proof -
  obtain net1 sg1 where 1: "for_each (part_one p1 p2) p1 (net, sg) = Some (net1, sg1)" "same_servers sg sg1"
    "side_done sg1 net1 (set p1) (set p2)"
    using part_loop [of sg p1 p1 p2 "{}" net] assms by (auto simp: side_done_def)
  note same = same_servers_names [OF 1(2)]
  from 1(2) have wf1: "grp_wf sg1" by (simp add: same_servers_def)
  have range2: "in_group sg1 j" if "j \<in> set p2 \<union> set p1" for j using that assms(2) same by auto
  have disj2: "set p2 \<inter> set p1 = {}" using assms(3) by auto
  have empty: "side_done sg1 net1 {} (set p1)" by (simp add: side_done_def)
  obtain net2 sg2 where 2: "for_each (part_one p2 p1) p2 (net1, sg1) = Some (net2, sg2)" "same_servers sg1 sg2"
    "side_done sg2 net2 (set p2) (set p1)"
    "\<And>a b. in_group sg a \<Longrightarrow> in_group sg b \<Longrightarrow> a \<notin> set p2 \<Longrightarrow> b \<notin> set p2 \<Longrightarrow> linked sg net2 a b = linked sg net1 a b"
    using part_loop [OF wf1 _ range2 disj2, of p2 "{}" net1] same empty by auto
  note same2 = same_servers_names [OF 2(2)]
  have "linked sg net2 a b = (a \<in> set p1 \<longleftrightarrow> b \<in> set p1)" if "a \<in> set p1 \<union> set p2" "b \<in> set p1 \<union> set p2" for a b
  proof (cases "a \<in> set p1 \<and> b \<in> set p1")
    case True
    with assms(3) have "a \<notin> set p2" "b \<notin> set p2" by auto
    with True 2(4) [of a b] 1(3) assms(2) same show ?thesis by (auto simp: side_done_def)
  next
    case False
    with that 2(3) assms(3) same same2 show ?thesis by (auto simp: side_done_def)
  qed
  moreover have "Partition sg net p1 p2 = Some (net2, sg2)" using 1(1) 2(1) by (simp add: Partition_def)
  ultimately show ?thesis by blast
qed

theorem Partition_isolates_witness:
  "\<exists>net' sg'. Partition demo_group MakeNetwork [0, 2] [1] = Some (net', sg') \<and> isEnabled net' ''ac'' \<and> \<not> isEnabled net' ''ab''"
proof -
  have "in_group demo_group j" if "j \<in> set [0, 2] \<union> set [1]" for j
    using that by (auto simp: in_group_def demo_group_def)
  from Partition_isolates [of demo_group "[0, 2]" "[1]" MakeNetwork, OF demo_group_wf this]
  obtain net' sg' where "Partition demo_group MakeNetwork [0, 2] [1] = Some (net', sg')"
    "\<forall>a b. a \<in> set [0, 2] \<union> set [1] \<longrightarrow> b \<in> set [0, 2] \<union> set [1] \<longrightarrow>
      isEnabled net' (endname demo_group a b) = (a \<in> set [0, 2] \<longleftrightarrow> b \<in> set [0, 2])" by auto
  moreover from this(2) have "isEnabled net' (endname demo_group 0 2)" "\<not> isEnabled net' (endname demo_group 0 1)" by auto
  ultimately show ?thesis by (simp add: endname_def demo_group_def demo_server_def numeral_2_eq_2)
qed

text \<open>
  \<^verbatim>\<open>MakePartition\<close>.  For an odd number of servers, at least three, the two parts together hold every
  server exactly once, the given leader is in the second part, and the second part is the minority.
\<close>

theorem MakePartition_minority:
  assumes "length (sg_srvs sg) = 2 * k + 1" "1 \<le> k" "0 \<le> l" "l < int (length (sg_srvs sg))"
  shows "\<exists>p1 p2. MakePartition sg l = Some (p1, p2) \<and> distinct (p1 @ p2)
    \<and> set (p1 @ p2) = {0 ..< int (length (sg_srvs sg))} \<and> l \<in> set p2 \<and> length p2 < length p1"
proof -
  define items where "items = filter (\<lambda>i. int i \<noteq> l) [0..<length (sg_srvs sg)]"
  have set_items: "set items = {..<2 * k + 1} - {nat l}" using assms by (auto simp: items_def)
  have dist: "distinct items" by (simp add: items_def)
  have len: "length items = 2 * k"
    using distinct_card [OF dist] set_items assms by (simp add: nat_less_iff)
  have zeros: "drop (2 * k) (replicate (k + 1) (0 :: int) @ replicate k 0) = [0]"
    by (simp flip: replicate_add del: replicate.simps) simp
  obtain q1 q2 where q: "for_each place items (0, replicate (k + 1) 0, replicate k 0) = Some (int (2 * k), q1, q2)"
    "length q1 = k + 1" "length q2 = k" "q1 @ q2 = map int items @ [0]"
    using place_loop [of "replicate (k + 1) 0" "replicate k 0" "2 * k + 1" 0 items] len zeros
    by (auto simp del: replicate.simps drop_append)
  from q(3) assms(2) have q2: "q2 \<noteq> []" by auto
  define p2 where "p2 = q2[k - 1 := l]"
  have "length (sg_srvs sg) div 2 = k" using assms(1) by simp
  then have "MakePartition sg l = Some (q1, p2)"
    using q q2 by (simp add: MakePartition_def for_each_filter go_set_def p2_def flip: items_def)
  moreover have "p2 = butlast q2 @ [l]"
    using q(3) q2 by (cases q2 rule: rev_cases) (auto simp: p2_def list_update_append)
  moreover have "q1 @ butlast q2 = map int items" using q(4) q2 by (metis butlast_append butlast_snoc)
  ultimately have "q1 @ p2 = map int items @ [l]" by simp
  moreover have "set (map int items @ [l]) = {0 ..< int (length (sg_srvs sg))}"
  proof -
    have "set (map int items @ [l]) = int ` insert (nat l) (set items)" using assms(3) by simp
    moreover have "nat l < 2 * k + 1" using assms by linarith
    then have "insert (nat l) (set items) = {0..<length (sg_srvs sg)}" unfolding set_items assms(1) by auto
    ultimately show ?thesis by (simp add: image_int_atLeastLessThan)
  qed
  moreover have "distinct (map int items @ [l])"
  proof -
    have "l \<notin> int ` set items" by (auto simp: items_def)
    with dist show ?thesis by (auto simp: distinct_map)
  qed
  moreover have "l \<in> set p2" using \<open>p2 = butlast q2 @ [l]\<close> by simp
  moreover have "length p2 < length q1" using q by (simp add: p2_def)
  ultimately show ?thesis using \<open>MakePartition sg l = Some (q1, p2)\<close> by (intro exI [of _ q1] exI [of _ p2]) simp
qed

theorem MakePartition_minority_witness:
  "\<exists>p1 p2. MakePartition demo_group 0 = Some (p1, p2) \<and> 0 \<in> set p2 \<and> length p2 < length p1"
  using MakePartition_minority [of demo_group 1 0] by (auto simp: demo_group_def)

text \<open>With an even number of servers the second part has a slot too many, which is left at server 0.\<close>

lemma MakePartition_even_overlaps:
  "MakePartition (demo_group\<lparr>sg_srvs := sg_srvs demo_group @ [demo_server []]\<rparr>) 1 = Some ([0, 2, 3], [0, 1])"
  by (simp add: MakePartition_def demo_group_def place_def go_set_def)

text \<open>
  C37: restarts get the storage saved at the shutdown.  \<^verbatim>\<open>ShutdownServer\<close> of a server with a persister cuts it
  off (no server answers under its name) and, when the server is started again, the new instance gets a new
  persister whose contents are those the old persister had at the shutdown, even if the old instance,
  while being killed or afterwards, went on writing to its own persister.
\<close>

theorem restart_storage:
  assumes "go_nth (sg_srvs sg) i = Some s" "ts_saved s = Some p" "p < te_pnext te"
    and "\<And>v te' a. a \<noteq> p \<Longrightarrow> te_pers (kill v te') a = te_pers te' a"
    and "\<And>v te'. te_pnext (kill v te') = te_pnext te' \<and> te_net (kill v te') = te_net te'"
    and "ShutdownServer itoa kill sg te i = Some (te1, sg1)"
    and "go_nth (sg_srvs sg1) i = Some s1"
    and "startServer itoa names (te1\<lparr>te_pers := (te_pers te1)(p := junk)\<rparr>) s1 (sg_gid sg) = Some (te2, srv)"
  shows "serverOf (te_net te1) (ServerName itoa (sg_gid sg) i) = None
    \<and> (\<exists>a. ts_saved srv = Some a \<and> a \<noteq> p \<and> te_pers te2 a = te_pers te p)"
proof -
  have kills: "te_pnext (fold kill vs te') = te_pnext te'" "te_net (fold kill vs te') = te_net te'"
    "a \<noteq> p \<Longrightarrow> te_pers (fold kill vs te') a = te_pers te' a" for vs te' a
    using assms(4,5) by (induction vs arbitrary: te') auto
  from assms(6) obtain net sg' where d: "disconnect sg (te_net te) i (all_srvs sg) = Some (net, sg')"
    by (auto simp: ShutdownServer_def go_simps)
  then have g: "sg_gid sg' = sg_gid sg" "sg_srvs sg' = sg_srvs sg"
    by (auto simp: disconnect_def go_simps)
  have n: "te_net te1 = DeleteServer net (ServerName itoa (sg_gid sg) i)" and
    t1: "te_pnext te1 = te_pnext te + 1" "te_pers te1 (te_pnext te) = te_pers te p" "ts_saved s1 = Some (te_pnext te)"
  proof -
    have i: "0 \<le> i" "i < int (length (sg_srvs sg))" and e: "go_nth (sg_srvs sg') i = Some s"
      using assms(1) g by (auto simp: go_nth_Some)
    let ?te = "te\<lparr>te_net := DeleteServer net (ServerName itoa (sg_gid sg) i),
      te_pers := (te_pers te)(te_pnext te := te_pers te p), te_pnext := te_pnext te + 1\<rparr>"
    have te1: "te1 = fold kill (ts_svcs s) ?te" and
      sg1: "sg_srvs sg1 = (sg_srvs sg)[nat i := s\<lparr>ts_saved := Some (te_pnext te), ts_svcs := []\<rparr>]"
      using assms(6) d g e i by (auto simp: ShutdownServer_def go_set_def shutdownServer_saved [OF assms(2)])
    show "te_net te1 = DeleteServer net (ServerName itoa (sg_gid sg) i)" "te_pnext te1 = te_pnext te + 1"
      "te_pers te1 (te_pnext te) = te_pers te p"
      using kills assms(3) by (simp_all add: te1)
    show "ts_saved s1 = Some (te_pnext te)" using assms(7) sg1 i by (auto simp: go_nth_def)
  qed
  from t1 assms(3,8) have "\<exists>a. ts_saved srv = Some a \<and> a \<noteq> p \<and> te_pers te2 a = te_pers te p"
    by (auto simp: startServer_def newPersister_def go_simps)
  with n g show ?thesis by (simp add: DeleteServer_def serverOf_def)
qed

definition demo_te :: "(nat, nat, unit, unit, unit) tenv" where
  "demo_te = \<lparr>te_net = MakeNetwork, te_pers = (\<lambda>_. \<lparr>raftstate = [7], snapshot = [8]\<rparr>), te_pnext = 1,
     te_labs = (\<lambda>_. MakeServer), te_snext = 0, te_world = ()\<rparr>"

definition demo_single :: "unit ServerGrp" where
  "demo_single = \<lparr>sg_srvs = [(demo_server [''a''])\<lparr>ts_saved := Some 0\<rparr>], sg_servernames = [''s''], sg_gid = 0, sg_connected = [True]\<rparr>"

theorem restart_storage_witness:
  "\<exists>te1 sg1 s1 te2 srv a. ShutdownServer (\<lambda>_. ''0'') (\<lambda>_ te. te) demo_single demo_te 0 = Some (te1, sg1)
    \<and> go_nth (sg_srvs sg1) 0 = Some s1
    \<and> startServer (\<lambda>_. ''0'') (\<lambda>_. ''b'') (te1\<lparr>te_pers := (te_pers te1)(0 := MakePersister)\<rparr>) s1 0 = Some (te2, srv)
    \<and> ts_saved srv = Some a \<and> raftstate (te_pers te2 a) = [7]"
proof -
  let ?s = "(demo_server [''a''])\<lparr>ts_saved := Some 0\<rparr>"
  have s: "go_nth (sg_srvs demo_single) 0 = Some ?s" "ts_saved ?s = Some 0" "0 < te_pnext demo_te"
    by (simp_all add: demo_single_def go_nth_def demo_te_def)
  obtain te1 sg1 where 1: "ShutdownServer (\<lambda>_. ''0'') (\<lambda>_ te. te) demo_single demo_te 0 = Some (te1, sg1)"
    "length (sg_srvs sg1) = 1" "sg_srvs sg1 ! 0 = ?s\<lparr>ts_saved := Some 1\<rparr>" "nw_ends (te_net te1) = Map.empty"
    by (simp add: ShutdownServer_def disconnect_def disconnect_out_def shutdownServer_def newPersister_def demo_single_def
      demo_te_def all_srvs_def go_set_def go_nth_def demo_server_def DeleteServer_def Enable_def MakeNetwork_def fold_id)
  then have s1: "go_nth (sg_srvs sg1) 0 = Some (?s\<lparr>ts_saved := Some 1\<rparr>)" by (simp add: go_nth_def)
  obtain te2 srv where 2: "startServer (\<lambda>_. ''0'') (\<lambda>_. ''b'') (te1\<lparr>te_pers := (te_pers te1)(0 := MakePersister)\<rparr>)
      (?s\<lparr>ts_saved := Some 1\<rparr>) 0 = Some (te2, srv)"
    using 1(4) by (simp add: startServer_def makeServer_def MakeEnd_def demo_server_def newPersister_def Let_def)
  from 2 have "startServer (\<lambda>_. ''0'') (\<lambda>_. ''b'') (te1\<lparr>te_pers := (te_pers te1)(0 := MakePersister)\<rparr>)
      (?s\<lparr>ts_saved := Some 1\<rparr>) (sg_gid demo_single) = Some (te2, srv)" by (simp add: demo_single_def)
  from restart_storage [OF s _ _ 1(1) s1 this] obtain a where
    "ts_saved srv = Some a" "te_pers te2 a = te_pers demo_te 0" by auto
  with 1(1) s1 2 show ?thesis by (auto simp: demo_te_def)
qed

end
