(* ===== verification/TestClnt.thy ===== *)
theory TestClnt
  imports LabRpc
begin

text \<open>
  Clients of a test, \<^verbatim>\<open>tester1/clnts.go\<close>: a client makes one end per server name, lazily, and may be allowed to
  reach all servers, some of them, or none.  The map from server names to ends is an association list, whose
  order stands for the order in which Go ranges over the map.  The random name of a new end is an argument;
  making an end whose name is in use ends the process (\<open>None\<close>), as \<open>MakeEnd\<close> does.
\<close>

section \<open>Clients\<close>

record Clnt =
  cl_ends :: "(string \<times> string) list"
  cl_srvs :: "string list option"

definition makeClntTo :: "string list option \<Rightarrow> Clnt" where
  "makeClntTo srvs = \<lparr>cl_ends = [], cl_srvs = srvs\<rparr>"

definition allowedL :: "Clnt \<Rightarrow> string \<Rightarrow> bool" where
  "allowedL clnt server = (case cl_srvs clnt of None \<Rightarrow> True | Some ns \<Rightarrow> list_ex (\<lambda>n. n = server) ns)"

definition clnt_makeEnd :: "Clnt \<Rightarrow> Network \<Rightarrow> string \<Rightarrow> string \<Rightarrow> (Clnt \<times> Network \<times> string) option" where
  "clnt_makeEnd clnt net server name =
     (case map_of (cl_ends clnt) server of
        Some e \<Rightarrow> Some (clnt, net, e)
      | None \<Rightarrow> do {
          (net, e) \<leftarrow> MakeEnd net name;
          let net = Connect net name server;
          let net = (if allowedL clnt server then Enable net name True else Enable net name False);
          Some (clnt\<lparr>cl_ends := cl_ends clnt @ [(server, name)]\<rparr>, net, name)
        })"

definition clnt_ConnectAll :: "Clnt \<Rightarrow> Network \<Rightarrow> Clnt \<times> Network" where
  "clnt_ConnectAll clnt net =
     (clnt\<lparr>cl_srvs := None\<rparr>, foldl (\<lambda>net (srv, name). Enable net name True) net (cl_ends clnt))"

definition clnt_ConnectTo :: "Clnt \<Rightarrow> Network \<Rightarrow> string list \<Rightarrow> Clnt \<times> Network" where
  "clnt_ConnectTo clnt net srvs =
     (let clnt = clnt\<lparr>cl_srvs := Some srvs\<rparr>
      in (clnt, foldl (\<lambda>net (srv, name). if allowedL clnt srv then Enable net name True else net) net (cl_ends clnt)))"

definition clnt_Disconnect :: "Clnt \<Rightarrow> Network \<Rightarrow> string \<Rightarrow> Network" where
  "clnt_Disconnect clnt net srv = foldl (\<lambda>net (s, name). if s = srv then Enable net name False else net) net (cl_ends clnt)"

definition clnt_DisconnectAll :: "Clnt \<Rightarrow> Network \<Rightarrow> Clnt \<times> Network" where
  "clnt_DisconnectAll clnt net =
     (clnt\<lparr>cl_srvs := Some []\<rparr>, foldl (\<lambda>net (srv, name). Enable net name False) net (cl_ends clnt))"

definition clnt_remove :: "Clnt \<Rightarrow> Network \<Rightarrow> Network option" where
  "clnt_remove clnt net = foldl (\<lambda>st (srv, name). Option.bind st (\<lambda>net. DeleteEnd net name)) (Some net) (cl_ends clnt)"

text \<open>\<open>Clnt.Call\<close>: the request goes out on the server's end.\<close>

definition clnt_Call :: "('a, 'r) codec \<Rightarrow> Clnt \<Rightarrow> Network \<Rightarrow> string \<Rightarrow> string \<Rightarrow> string \<Rightarrow> 'a
    \<Rightarrow> (Clnt \<times> Network \<times> reqMsg) option" where
  "clnt_Call cod clnt net server name meth args = do {
     (clnt, net, e) \<leftarrow> clnt_makeEnd clnt net server name;
     req \<leftarrow> Call_request cod \<lparr>ce_endname = e\<rparr> meth args;
     Some (clnt, net, req)
   }"

section \<open>All clients of a test\<close>

text \<open>\<open>Clnts.clerks\<close> is a set of pointers; a client is found by its address.\<close>

record Clnts =
  cs_store :: "nat \<Rightarrow> Clnt"
  cs_next :: nat
  cs_clerks :: "nat list"

definition makeClnts :: Clnts where
  "makeClnts = \<lparr>cs_store = (\<lambda>_. makeClntTo None), cs_next = 0, cs_clerks = []\<rparr>"

definition MakeClientTo :: "Clnts \<Rightarrow> string list option \<Rightarrow> Clnts \<times> nat" where
  "MakeClientTo cs srvs =
     (cs\<lparr>cs_store := (cs_store cs)(cs_next cs := makeClntTo srvs), cs_next := cs_next cs + 1, cs_clerks := cs_next cs # cs_clerks cs\<rparr>,
      cs_next cs)"

definition MakeClient :: "Clnts \<Rightarrow> Clnts \<times> nat" where
  "MakeClient cs = MakeClientTo cs None"

definition clnts_cleanup :: "Clnts \<Rightarrow> Network \<Rightarrow> (Clnts \<times> Network) option" where
  "clnts_cleanup cs net = do {
     net \<leftarrow> foldl (\<lambda>st c. Option.bind st (clnt_remove (cs_store cs c))) (Some net) (cs_clerks cs);
     Some (cs\<lparr>cs_clerks := []\<rparr>, net)
   }"

definition DeleteClient :: "Clnts \<Rightarrow> Network \<Rightarrow> nat \<Rightarrow> (Clnts \<times> Network) option" where
  "DeleteClient cs net c =
     (if c \<in> set (cs_clerks cs)
      then map_option (\<lambda>net. (cs\<lparr>cs_clerks := filter (\<lambda>k. k \<noteq> c) (cs_clerks cs)\<rparr>, net)) (clnt_remove (cs_store cs c) net)
      else Some (cs, net))"

section \<open>The invariant\<close>

text \<open>A client's ends exist, have different names, one per server, and are connected to that server.\<close>

definition clnt_ok :: "Clnt \<Rightarrow> Network \<Rightarrow> bool" where
  "clnt_ok clnt net \<longleftrightarrow> distinct (map fst (cl_ends clnt)) \<and> distinct (map snd (cl_ends clnt))
     \<and> (\<forall>(srv, name) \<in> set (cl_ends clnt). nw_ends net name \<noteq> None \<and> connectionOf net name = Some srv)"

lemma Enable_frame [simp]:
  "nw_ends (Enable net e b) = nw_ends net" "connectionOf (Enable net e b) = connectionOf net"
  by (simp_all add: Enable_def connectionOf_def fun_eq_iff)

lemma foldl_Enable:
  "nw_ends (foldl (\<lambda>net (s, name). if P s then Enable net name b else net) net xs) = nw_ends net"
  "connectionOf (foldl (\<lambda>net (s, name). if P s then Enable net name b else net) net xs) = connectionOf net"
  "isEnabled (foldl (\<lambda>net (s, name). if P s then Enable net name b else net) net xs) e
     = (if \<exists>s. (s, e) \<in> set xs \<and> P s then b else isEnabled net e)"
  by (induction xs arbitrary: net) (auto split: if_splits)

lemmas foldl_Enable_all = foldl_Enable [of "\<lambda>_. True", simplified]

lemma makeEnd_cases:
  assumes "clnt_makeEnd clnt net server name = Some (clnt', net', e)"
  obtains (old) "map_of (cl_ends clnt) server = Some e" "clnt' = clnt" "net' = net"
  | (new) "map_of (cl_ends clnt) server = None" "e = name" "nw_ends net name = None"
      "clnt' = clnt\<lparr>cl_ends := cl_ends clnt @ [(server, name)]\<rparr>" "connectionOf net' name = Some server"
      "nw_ends net' = (nw_ends net)(name \<mapsto> \<lparr>ce_endname = name\<rparr>)" "isEnabled net' name = allowedL clnt server"
      "\<And>e'. e' \<noteq> name \<Longrightarrow> isEnabled net' e' = isEnabled net e' \<and> connectionOf net' e' = connectionOf net e'"
proof (cases "map_of (cl_ends clnt) server")
  case (Some e')
  with assms have "e' = e" "clnt' = clnt" "net' = net" by (simp_all add: clnt_makeEnd_def)
  with Some show thesis by (intro old) simp_all
next
  case None
  with assms have 1: "nw_ends net name = None" "e = name" "clnt' = clnt\<lparr>cl_ends := cl_ends clnt @ [(server, name)]\<rparr>"
    "net' = Enable (Connect (fst (the (MakeEnd net name))) name server) name (allowedL clnt server)"
    by (auto simp: clnt_makeEnd_def MakeEnd_def Let_def split: if_splits)
  show thesis
    by (rule new) (use None 1 in \<open>simp_all add: MakeEnd_def Connect_def Enable_def connectionOf_def isEnabled_def Let_def\<close>)
qed

lemma clnt_ok_makeEnd:
  assumes "clnt_ok clnt net" "clnt_makeEnd clnt net server name = Some (clnt', net', e)"
  shows "clnt_ok clnt' net'"
  using assms(2)
proof (cases rule: makeEnd_cases)
  case old
  with assms(1) show ?thesis by simp
next
  case new
  have fresh: "name \<notin> snd ` set (cl_ends clnt)" using assms(1) new(3) by (auto simp: clnt_ok_def)
  have srv: "server \<notin> fst ` set (cl_ends clnt)" using new(1) by (simp add: map_of_eq_None_iff)
  have "nw_ends net' n \<noteq> None \<and> connectionOf net' n = Some s" if "(s, n) \<in> set (cl_ends clnt)" for s n
  proof -
    from that fresh have "n \<noteq> name" by force
    with that assms(1) new(6,8) show ?thesis by (auto simp: clnt_ok_def)
  qed
  with assms(1) fresh srv new show ?thesis by (auto simp: clnt_ok_def)
qed

text \<open>The ends a client makes one after the other, with the names drawn for them.\<close>

fun make_ends :: "Clnt \<Rightarrow> Network \<Rightarrow> (string \<times> string) list \<Rightarrow> (Clnt \<times> Network) option" where
  "make_ends clnt net [] = Some (clnt, net)"
| "make_ends clnt net ((server, name) # xs) = do {
     (clnt, net, e) \<leftarrow> clnt_makeEnd clnt net server name;
     make_ends clnt net xs
   }"

lemma make_ends_closed:
  assumes "clnt_ok clnt net" "cl_srvs clnt = Some []" "\<forall>(srv, name) \<in> set (cl_ends clnt). \<not> isEnabled net name"
    "make_ends clnt net xs = Some (clnt', net')"
  shows "\<forall>(srv, name) \<in> set (cl_ends clnt'). \<not> isEnabled net' name"
  using assms
proof (induction xs arbitrary: clnt net)
  case (Cons x xs)
  obtain server name where x: "x = (server, name)" by fastforce
  from Cons.prems(4) x obtain c1 n1 e where 1: "clnt_makeEnd clnt net server name = Some (c1, n1, e)"
    "make_ends c1 n1 xs = Some (clnt', net')" by (auto simp: go_simps)
  from 1(1) have "cl_srvs c1 = Some [] \<and> (\<forall>(srv, name) \<in> set (cl_ends c1). \<not> isEnabled n1 name)"
  proof (cases rule: makeEnd_cases)
    case new
    then have fresh: "name \<notin> snd ` set (cl_ends clnt)" using Cons.prems(1) by (auto simp: clnt_ok_def)
    have "\<not> isEnabled n1 n" if "(s, n) \<in> set (cl_ends clnt)" for s n
    proof -
      from that fresh have "n \<noteq> name" by force
      with that Cons.prems(3) new(8) show ?thesis by auto
    qed
    with new(4,7) Cons.prems(2) show ?thesis by (auto simp: allowedL_def)
  qed (use Cons.prems in auto)
  with Cons.IH [OF clnt_ok_makeEnd [OF Cons.prems(1) 1(1)] _ _ 1(2)] show ?case by auto
qed simp

section \<open>Properties\<close>

text \<open>
  A client's end.  \<^verbatim>\<open>Clnt.makeEnd\<close> gives each server one end: asking again changes nothing, and a new
  end is connected to that server and enabled exactly when the client may reach it, without touching any other
  end of the network.  The invariant that every end of a client is connected to its server is kept.
\<close>

theorem clnt_makeEnd_contract:
  assumes "clnt_ok clnt net" "clnt_makeEnd clnt net server name = Some (clnt', net', e)"
  shows "clnt_ok clnt' net' \<and> connectionOf net' e = Some server \<and> cl_srvs clnt' = cl_srvs clnt
    \<and> (\<forall>name2. clnt_makeEnd clnt' net' server name2 = Some (clnt', net', e))
    \<and> (\<forall>e'. e' \<noteq> e \<longrightarrow> isEnabled net' e' = isEnabled net e')
    \<and> (server \<notin> fst ` set (cl_ends clnt) \<longrightarrow> isEnabled net' e = allowedL clnt server)"
  using assms(2)
proof (cases rule: makeEnd_cases)
  case old
  then have "(server, e) \<in> set (cl_ends clnt)" by (simp add: map_of_SomeD)
  with old assms(1) show ?thesis by (force simp: clnt_ok_def clnt_makeEnd_def)
next
  case new
  with clnt_ok_makeEnd [OF assms] show ?thesis by (auto simp: clnt_makeEnd_def map_add_def)
qed

theorem clnt_makeEnd_contract_witness:
  "\<exists>clnt' net'. clnt_makeEnd (makeClntTo (Some [''s''])) MakeNetwork ''s'' ''x'' = Some (clnt', net', ''x'')
    \<and> isEnabled net' ''x'' \<and> connectionOf net' ''x'' = Some ''s''"
proof -
  have ok: "clnt_ok (makeClntTo (Some [''s''])) MakeNetwork" by (simp add: clnt_ok_def makeClntTo_def)
  obtain clnt' net' where 1: "clnt_makeEnd (makeClntTo (Some [''s''])) MakeNetwork ''s'' ''x'' = Some (clnt', net', ''x'')"
    by (simp add: clnt_makeEnd_def makeClntTo_def MakeEnd_def MakeNetwork_def Let_def)
  from clnt_makeEnd_contract [OF ok 1] 1 show ?thesis by (simp add: makeClntTo_def allowedL_def)
qed

text \<open>
  A disconnected client reaches nobody.  After \<^verbatim>\<open>Clnt.DisconnectAll\<close> every end of the client is disabled,
  and every end it makes later, to whichever servers, is disabled too, so all its calls fail until it is connected
  again.
\<close>

theorem DisconnectAll_isolates:
  assumes "clnt_ok clnt net" "clnt_DisconnectAll clnt net = (clnt1, net1)" "make_ends clnt1 net1 xs = Some (clnt', net')"
    "(srv, name) \<in> set (cl_ends clnt')" "rq_endname req = name"
  shows "processReq_start net' req rnd = None"
proof -
  from assms(2) have c1: "clnt1 = clnt\<lparr>cl_srvs := Some []\<rparr>"
    "net1 = foldl (\<lambda>net (srv, name). Enable net name False) net (cl_ends clnt)"
    by (simp_all add: clnt_DisconnectAll_def)
  then have "clnt_ok clnt1 net1" using assms(1) by (auto simp: clnt_ok_def foldl_Enable_all)
  moreover have "\<forall>(srv, name) \<in> set (cl_ends clnt1). \<not> isEnabled net1 name"
    by (auto simp: c1 foldl_Enable_all)
  ultimately have "\<forall>(srv, name) \<in> set (cl_ends clnt'). \<not> isEnabled net' name"
    using make_ends_closed [OF _ _ _ assms(3)] c1 by simp
  with assms(4,5) have "\<not> isEnabled net' (rq_endname req)" by auto
  then show ?thesis by (auto simp: processReq_start_def readEndnameInfo_def)
qed

theorem DisconnectAll_isolates_witness:
  "\<exists>clnt' net'. make_ends (fst (clnt_DisconnectAll (makeClntTo None) MakeNetwork)) MakeNetwork [(''s'', ''x'')] = Some (clnt', net')
    \<and> (''s'', ''x'') \<in> set (cl_ends clnt')
    \<and> processReq_start net' \<lparr>rq_endname = ''x'', rq_svcMeth = ''Raft.Start'', rq_args = []\<rparr> 500 = None"
proof -
  have ok: "clnt_ok (makeClntTo None) MakeNetwork" by (simp add: clnt_ok_def makeClntTo_def)
  have d: "clnt_DisconnectAll (makeClntTo None) MakeNetwork = (fst (clnt_DisconnectAll (makeClntTo None) MakeNetwork), MakeNetwork)"
    by (simp add: clnt_DisconnectAll_def makeClntTo_def)
  obtain clnt' net' where 1:
    "make_ends (fst (clnt_DisconnectAll (makeClntTo None) MakeNetwork)) MakeNetwork [(''s'', ''x'')] = Some (clnt', net')"
    "(''s'', ''x'') \<in> set (cl_ends clnt')"
    by (simp add: clnt_DisconnectAll_def clnt_makeEnd_def makeClntTo_def MakeEnd_def MakeNetwork_def Let_def)
  from DisconnectAll_isolates [OF ok d 1, of "\<lparr>rq_endname = ''x'', rq_svcMeth = ''Raft.Start'', rq_args = []\<rparr>" 500] 1
  show ?thesis by auto
qed

text \<open>\<^verbatim>\<open>ConnectTo\<close> only enables: an end to a server that is no longer allowed stays enabled.\<close>

lemma ConnectTo_keeps_old_ends:
  assumes "(srv, name) \<in> set (cl_ends clnt)" "isEnabled net name" "clnt_ConnectTo clnt net srvs = (clnt', net')"
  shows "isEnabled net' name \<and> (allowedL clnt' srv \<longleftrightarrow> srv \<in> set srvs)"
  using assms by (auto simp: clnt_ConnectTo_def Let_def foldl_Enable allowedL_def list_ex_iff)

end
