(* ===== verification/TestConfig.thy ===== *)
theory TestConfig
  imports KvTest TestGroup TestClnt
begin

text \<open>
  The configuration of a test, \<^verbatim>\<open>tester1/config.go\<close>, with the set of server groups of \<^verbatim>\<open>tester1/group.go\<close> and the linearizability check of
  \<^verbatim>\<open>kvtest1/porcupine.go\<close>.  A configuration owns the network with its servers (the environment of \<^verbatim>\<open>TestGroup\<close>), the groups, the clients and the
  annotations.  The map of groups is an association list whose order stands for the order in which Go ranges over it.  Time is a count of
  nanoseconds, given where the code reads the clock; random numbers and the checker of the porcupine package are arguments.  \<open>Fatal\<close> ends the test:
  \<^verbatim>\<open>t.Fatal\<close>, or a panic.
\<close>

section \<open>Groups\<close>

type_synonym 'v Groups = "(int \<times> 'v ServerGrp) list"

definition newGroups :: "'v Groups" where
  "newGroups = []"

definition lookupGroup :: "'v Groups \<Rightarrow> int \<Rightarrow> 'v ServerGrp option" where
  "lookupGroup gs gid = map_of gs gid"

fun setGroup :: "int \<Rightarrow> 'v ServerGrp \<Rightarrow> 'v Groups \<Rightarrow> 'v Groups" where
  "setGroup gid sg [] = [(gid, sg)]"
| "setGroup gid sg (p # gs) = (if fst p = gid then (gid, sg) # gs else p # setGroup gid sg gs)"

definition MakeGroup :: "(int \<Rightarrow> string) \<Rightarrow> (nat \<Rightarrow> nat \<Rightarrow> string) \<Rightarrow> 'v Groups \<Rightarrow> Network \<Rightarrow> int \<Rightarrow> nat \<Rightarrow> (Network \<times> 'v Groups) option" where
  "MakeGroup itoa names gs nw gid nsrv = do {
     (nw, sg) \<leftarrow> makeSrvGrp itoa names nw gid nsrv;
     Some (nw, setGroup gid sg gs)
   }"

definition deleteGroup :: "'v Groups \<Rightarrow> int \<Rightarrow> 'v Groups" where
  "deleteGroup gs gid = filter (\<lambda>p. fst p \<noteq> gid) gs"

text \<open>\<open>ServerGrp.cleanup\<close> kills the services and leaves the servers as they are.\<close>

definition sg_cleanup :: "('v \<Rightarrow> ('r, 's, 'x, 'a, 'b) tenv \<Rightarrow> ('r, 's, 'x, 'a, 'b) tenv) \<Rightarrow> 'v ServerGrp \<Rightarrow> ('r, 's, 'x, 'a, 'b) tenv
    \<Rightarrow> ('r, 's, 'x, 'a, 'b) tenv" where
  "sg_cleanup kill sg te = foldl (\<lambda>te s. foldl (\<lambda>te svc. kill svc te) te (ts_svcs s)) te (sg_srvs sg)"

definition Groups_cleanup :: "('v \<Rightarrow> ('r, 's, 'x, 'a, 'b) tenv \<Rightarrow> ('r, 's, 'x, 'a, 'b) tenv) \<Rightarrow> 'v Groups \<Rightarrow> ('r, 's, 'x, 'a, 'b) tenv
    \<Rightarrow> ('r, 's, 'x, 'a, 'b) tenv" where
  "Groups_cleanup kill gs te = foldl (\<lambda>te (gid, sg). sg_cleanup kill sg te) te gs"

definition SrvNames :: "'v ServerGrp \<Rightarrow> string list" where
  "SrvNames sg = sg_servernames sg"

definition Services :: "'v ServerGrp \<Rightarrow> 'v list list" where
  "Services sg = foldl (\<lambda>ss s. ss @ [ts_svcs s]) [] (sg_srvs sg)"

definition GetConnected :: "'v ServerGrp \<Rightarrow> bool list" where
  "GetConnected sg = sg_connected sg"

section \<open>The configuration\<close>

definition GRP0 :: int where
  "GRP0 = 0"

record ('r, 's, 'x, 'a, 'b, 'v) Config =
  cf_Clnts :: Clnts
  cf_Groups :: "'v Groups"
  cf_env :: "('r, 's, 'x, 'a, 'b) tenv"
  cf_failed :: bool
  cf_start :: int
  cf_t0 :: int
  cf_rpcs0 :: int
  cf_ops :: "32 word"

abbreviation cf_net :: "('r, 's, 'x, 'a, 'b, 'v) Config \<Rightarrow> Network" where
  "cf_net cfg \<equiv> te_net (cf_env cfg)"

abbreviation with_net :: "('r, 's, 'x, 'a, 'b, 'v) Config \<Rightarrow> Network \<Rightarrow> ('r, 's, 'x, 'a, 'b, 'v) Config" where
  "with_net cfg nw \<equiv> cfg\<lparr>cf_env := (cf_env cfg)\<lparr>te_net := nw\<rparr>\<rparr>"

fun of_option :: "'c option \<Rightarrow> 'c outcome" where
  "of_option None = Fatal"
| "of_option (Some x) = Done x"

definition SetReliable :: "('r, 's, 'x, 'a, 'b, 'v) Config \<Rightarrow> bool \<Rightarrow> ('r, 's, 'x, 'a, 'b, 'v) Config" where
  "SetReliable cfg reliable = with_net cfg (Reliable (cf_net cfg) reliable)"

definition Config_IsReliable :: "('r, 's, 'x, 'a, 'b, 'v) Config \<Rightarrow> bool" where
  "Config_IsReliable cfg = IsReliable (cf_net cfg)"

definition SetLongReordering :: "('r, 's, 'x, 'a, 'b, 'v) Config \<Rightarrow> bool \<Rightarrow> ('r, 's, 'x, 'a, 'b, 'v) Config" where
  "SetLongReordering cfg longrel = with_net cfg (LongReordering (cf_net cfg) longrel)"

definition SetLongDelays :: "('r, 's, 'x, 'a, 'b, 'v) Config \<Rightarrow> bool \<Rightarrow> ('r, 's, 'x, 'a, 'b, 'v) Config" where
  "SetLongDelays cfg longdel = with_net cfg (LongDelays (cf_net cfg) longdel)"

definition Group :: "('r, 's, 'x, 'a, 'b, 'v) Config \<Rightarrow> int \<Rightarrow> 'v ServerGrp option" where
  "Group cfg gid = lookupGroup (cf_Groups cfg) gid"

text \<open>\<open>MakeGroupStart\<close>: the group is made with one set of end names, and every server gets new ones when it starts.\<close>

definition MakeGroupStart :: "(int \<Rightarrow> string) \<Rightarrow> ('v \<Rightarrow> ('x, 'a, 'b) Service) \<Rightarrow> (nat \<Rightarrow> nat \<Rightarrow> string) \<Rightarrow> (int \<Rightarrow> nat \<Rightarrow> string) \<Rightarrow>
    ('r, 's, 'x, 'a, 'b, 'v) mks \<Rightarrow> ('r, 's, 'x, 'a, 'b, 'v) Config \<Rightarrow> int \<Rightarrow> nat \<Rightarrow> ('r, 's, 'x, 'a, 'b, 'v) Config option" where
  "MakeGroupStart itoa mkService names names' mks cfg gid nsrv = do {
     (nw, gs) \<leftarrow> MakeGroup itoa names (cf_Groups cfg) (cf_net cfg) gid nsrv;
     let cfg = (with_net cfg nw)\<lparr>cf_Groups := gs\<rparr>;
     sg \<leftarrow> Group cfg gid;
     (te, sg) \<leftarrow> StartServers itoa mkService names' mks sg (cf_env cfg);
     Some (cfg\<lparr>cf_env := te, cf_Groups := setGroup gid sg (cf_Groups cfg)\<rparr>)
   }"

definition MakeConfig :: "(int \<Rightarrow> string) \<Rightarrow> ('v \<Rightarrow> ('x, 'a, 'b) Service) \<Rightarrow> (nat \<Rightarrow> nat \<Rightarrow> string) \<Rightarrow> (int \<Rightarrow> nat \<Rightarrow> string) \<Rightarrow>
    ('r, 's, 'x, 'a, 'b, 'v) mks \<Rightarrow> ('r, 's, 'x, 'a, 'b) tenv \<Rightarrow> int \<Rightarrow> nat \<Rightarrow> bool \<Rightarrow> ('r, 's, 'x, 'a, 'b, 'v) Config option" where
  "MakeConfig itoa mkService names names' mks te now n reliable = do {
     let cfg = \<lparr>cf_Clnts = makeClnts, cf_Groups = newGroups, cf_env = te\<lparr>te_net := MakeNetwork\<rparr>, cf_failed = False, cf_start = 0,
       cf_t0 = 0, cf_rpcs0 = 0, cf_ops = 0\<rparr>;
     cfg \<leftarrow> MakeGroupStart itoa mkService names names' mks cfg GRP0 n;
     let cfg = cfg\<lparr>cf_Clnts := makeClnts, cf_start := now\<rparr>;
     Some (with_net cfg (Reliable (cf_net cfg) reliable))
   }"

definition ExitGroup :: "(int \<Rightarrow> string) \<Rightarrow> ('v \<Rightarrow> ('r, 's, 'x, 'a, 'b) tenv \<Rightarrow> ('r, 's, 'x, 'a, 'b) tenv) \<Rightarrow> ('r, 's, 'x, 'a, 'b, 'v) Config
    \<Rightarrow> int \<Rightarrow> ('r, 's, 'x, 'a, 'b, 'v) Config option" where
  "ExitGroup itoa kill cfg gid = do {
     sg \<leftarrow> Group cfg gid;
     (te, sg) \<leftarrow> Shutdown itoa kill sg (cf_env cfg);
     Some (cfg\<lparr>cf_env := te, cf_Groups := deleteGroup (setGroup gid sg (cf_Groups cfg)) gid\<rparr>)
   }"

definition RpcTotal :: "('r, 's, 'x, 'a, 'b, 'v) Config \<Rightarrow> int" where
  "RpcTotal cfg = GetTotalCount (cf_net cfg)"

definition BytesTotal :: "('r, 's, 'x, 'a, 'b, 'v) Config \<Rightarrow> int" where
  "BytesTotal cfg = GetTotalBytes (cf_net cfg)"

definition timeLimit :: int where
  "timeLimit = 120 * 1000000000"

definition CheckTimeout :: "('r, 's, 'x, 'a, 'b, 'v) Config \<Rightarrow> int \<Rightarrow> unit outcome" where
  "CheckTimeout cfg now = (if \<not> cf_failed cfg \<and> now - cf_start cfg > timeLimit then Fatal else Done ())"

definition Begin :: "('r, 's, 'x, 'a, 'b, 'v) Config \<Rightarrow> int \<Rightarrow> ('r, 's, 'x, 'a, 'b, 'v) Config" where
  "Begin cfg now = cfg\<lparr>cf_t0 := now, cf_rpcs0 := RpcTotal cfg, cf_ops := 0\<rparr>"

definition Config_Op :: "('r, 's, 'x, 'a, 'b, 'v) Config \<Rightarrow> ('r, 's, 'x, 'a, 'b, 'v) Config" where
  "Config_Op cfg = cfg\<lparr>cf_ops := cf_ops cfg + 1\<rparr>"

text \<open>What \<open>End\<close> prints: the time, the peers, the RPCs and the operations since \<open>Begin\<close>.\<close>

record Passed =
  pd_time :: int
  pd_peers :: int
  pd_rpcs :: int
  pd_ops :: int

definition End :: "('r, 's, 'x, 'a, 'b, 'v) Config \<Rightarrow> int \<Rightarrow> int \<Rightarrow> Passed option outcome" where
  "End cfg now now' =
     obind (CheckTimeout cfg now) (\<lambda>_.
       if \<not> cf_failed cfg then
         obind (of_option (Group cfg GRP0)) (\<lambda>sg.
           Done (Some \<lparr>pd_time = now' - cf_t0 cfg, pd_peers = sg_N sg, pd_rpcs = RpcTotal cfg - cf_rpcs0 cfg, pd_ops = sint (cf_ops cfg)\<rparr>))
       else Done None)"

text \<open>\<open>Cleanup\<close>: \<open>vis\<close> is what \<open>Annotation.cleanup\<close> needs of its surroundings (the variable \<^verbatim>\<open>VIS_ENABLE\<close>, whether the file opens, the order of the
  open annotations and the clock).\<close>

definition Config_Cleanup :: "('v \<Rightarrow> ('r, 's, 'x, 'a, 'b) tenv \<Rightarrow> ('r, 's, 'x, 'a, 'b) tenv) \<Rightarrow> (string \<times> bool \<times> string list \<times> int \<times> int) \<Rightarrow>
    ('r, 's, 'x, 'a, 'b, 'v) Config \<Rightarrow> astate \<Rightarrow> int \<Rightarrow> (('r, 's, 'x, 'a, 'b, 'v) Config \<times> astate \<times> PAnnotation list option) outcome" where
  "Config_Cleanup kill vis cfg ann now =
     obind (of_option (clnts_cleanup (cf_Clnts cfg) (cf_net cfg))) (\<lambda>(cs, nw).
       let cfg = (with_net cfg nw)\<lparr>cf_Clnts := cs\<rparr>;
           cfg = cfg\<lparr>cf_env := Groups_cleanup kill (cf_Groups cfg) (cf_env cfg)\<rparr>;
           cfg = with_net cfg (Cleanup (cf_net cfg));
           (enabled, opened, order, t, t') = vis;
           (an, drawn) = (if cf_failed cfg then cleanup True ''test failed'' enabled opened order t t' (annotation ann)
                          else cleanup False ''test passed'' enabled opened order t t' (annotation ann))
       in obind (CheckTimeout cfg now) (\<lambda>_. Done (cfg, ann\<lparr>annotation := an\<rparr>, drawn)))"

text \<open>\<^verbatim>\<open>crand.Read\<close> and the base64 encoding are arguments.\<close>

definition Randstring :: "(int \<Rightarrow> 'bytes) \<Rightarrow> ('bytes \<Rightarrow> string) \<Rightarrow> int \<Rightarrow> string option" where
  "Randstring rnd enc n = (let s = enc (rnd (2 * n)) in if 0 \<le> n \<and> nat n \<le> length s then Some (take (nat n) s) else None)"

text \<open>\<open>rnd i\<close> is the value of \<^verbatim>\<open>rand.Intn(i + 1)\<close>.\<close>

definition random_swap :: "(nat \<Rightarrow> nat) \<Rightarrow> 'e list \<Rightarrow> nat \<Rightarrow> 'e list" where
  "random_swap rnd sa i = (let j = rnd i in sa[i := sa ! j, j := sa ! i])"

definition random_handles :: "(nat \<Rightarrow> nat) \<Rightarrow> ClientEnd list \<Rightarrow> ClientEnd list" where
  "random_handles rnd kvh =
     (let sa = go_copy (replicate (length kvh) \<lparr>ce_endname = []\<rparr>) kvh in foldl (random_swap rnd) sa [0..<length sa])"

section \<open>The linearizability check\<close>

datatype CheckResult = PorcOk | PorcIllegal | PorcUnknown

text \<open>\<open>checkPorcupine\<close>: a failed test also writes its visualization, which is the second part of the result.  \<open>opened\<close> tells whether the file could be opened,
  \<open>vis\<close> gives the order of the open annotations and the clock.\<close>

definition checkPorcupine :: "(Operation list \<Rightarrow> int \<Rightarrow> CheckResult) \<Rightarrow> string \<Rightarrow> bool \<Rightarrow> (string list \<times> int \<times> int) \<Rightarrow> Operation list \<Rightarrow> int \<Rightarrow> astate
    \<Rightarrow> (astate \<times> PAnnotation list option) \<times> bool" where
  "checkPorcupine check enabled opened vis opLog nsec ann =
     (let res = check (OpLog_Read opLog) nsec; (order, t, t') = vis
      in if res = PorcIllegal then
           (if opened \<and> enabled \<noteq> ''never''
            then (let (ann, drawn) = FinalizeAnnotations ''test failed'' order t t' ann in ((ann, Some drawn), False))
            else ((ann, None), False))
         else if enabled = ''always'' \<and> GetAnnotationFinalized ann then
           (if opened then (let (ann, drawn) = FinalizeAnnotations ''test passed'' order t t' ann in ((ann, Some drawn), True))
            else ((ann, None), True))
         else ((ann, None), True))"

definition linearizabilityCheckTimeout :: int where
  "linearizabilityCheckTimeout = 1000000000"

definition CheckPorcupineT :: "(Operation list \<Rightarrow> int \<Rightarrow> CheckResult) \<Rightarrow> string \<Rightarrow> bool \<Rightarrow> (string list \<times> int \<times> int) \<Rightarrow> int \<Rightarrow> 'w Test \<Rightarrow> 'w Test outcome" where
  "CheckPorcupineT check enabled opened vis nsec ts =
     (case ts_oplog ts of
        None \<Rightarrow> Fatal
      | Some log \<Rightarrow> (let ((an, drawn), ok) = checkPorcupine check enabled opened vis log nsec (ts_ann ts)
                    in if ok then Done (ts\<lparr>ts_ann := an\<rparr>) else Fatal))"

definition CheckPorcupine :: "(Operation list \<Rightarrow> int \<Rightarrow> CheckResult) \<Rightarrow> string \<Rightarrow> bool \<Rightarrow> (string list \<times> int \<times> int) \<Rightarrow> 'w Test \<Rightarrow> 'w Test outcome" where
  "CheckPorcupine check enabled opened vis ts = CheckPorcupineT check enabled opened vis linearizabilityCheckTimeout ts"

section \<open>Partitions and clients of the key/value tests\<close>

text \<open>One turn of \<open>Partitioner\<close>: \<open>a\<close> are the bits drawn for the servers.\<close>

definition Partitioner_turn :: "int list \<Rightarrow> int \<Rightarrow> Network \<times> 'v ServerGrp \<times> astate \<Rightarrow> (Network \<times> 'v ServerGrp \<times> astate) option" where
  "Partitioner_turn a now = (\<lambda>(nw, sg, ann). do {
     let (p1, p2) = Partitioner_split a;
     (nw, sg) \<leftarrow> Partition sg nw p1 p2;
     Some (nw, sg, AnnotateTwoPartitions p1 p2 now ann)
   })"

text \<open>The partitioner runs until the channel delivers; the turns are the bits drawn and the time of each turn before that.\<close>

definition Partitioner :: "(int list \<times> int) list \<Rightarrow> Network \<times> 'v ServerGrp \<times> astate \<Rightarrow> (Network \<times> 'v ServerGrp \<times> astate) option" where
  "Partitioner turns st = for_each (\<lambda>(a, now). Partitioner_turn a now) turns st"

definition ConnectClnts :: "nat list \<Rightarrow> Clnts \<Rightarrow> Network \<Rightarrow> Clnts \<times> Network" where
  "ConnectClnts clnts cs nw = foldl (\<lambda>(cs, nw) c.
     let (clnt, nw) = clnt_ConnectAll (cs_store cs c) nw in (cs\<lparr>cs_store := (cs_store cs)(c := clnt)\<rparr>, nw)) (cs, nw) clnts"

definition SpreadPuts :: "(int \<Rightarrow> nat \<Rightarrow> string) \<Rightarrow> 'w IKVClerk \<Rightarrow> int \<Rightarrow> 'w Test \<Rightarrow> ((string list \<times> string list) \<times> 'w Test) outcome" where
  "SpreadPuts randstring ck n ts = SpreadPutsSize (randstring 20) ck n ts"

text \<open>The tests of the replicated service, \<^verbatim>\<open>kvraft1/test.go\<close>.  A clerk of the tests is a client of the tester with the names of the servers it talks to.\<close>

record kvraft_Test =
  kt_part :: string
  kt_nclients :: int
  kt_nservers :: int
  kt_crash :: bool
  kt_partitions :: bool
  kt_maxraftstate :: int
  kt_randomkeys :: bool

definition makeTitle :: "kvraft_Test \<Rightarrow> string" where
  "makeTitle ts =
     (let title = ''Test: '';
          title = (if kt_crash ts then title @ ''restarts, '' else title);
          title = (if kt_partitions ts then title @ ''partitions, '' else title);
          title = (if kt_maxraftstate ts \<noteq> -1 then title @ ''snapshots, '' else title);
          title = (if kt_randomkeys ts then title @ ''random keys, '' else title);
          title = (if kt_nclients ts > 1 then title @ ''many clients'' else title @ ''one client'')
      in title @ '' ('' @ kt_part ts @ '')'')"

definition kvraft_MakeClerk :: "('r, 's, 'x, 'a, 'b, 'v) Config \<Rightarrow> (('r, 's, 'x, 'a, 'b, 'v) Config \<times> nat \<times> string list) option" where
  "kvraft_MakeClerk cfg = do {
     let (cs, clnt) = MakeClient (cf_Clnts cfg);
     let cfg = cfg\<lparr>cf_Clnts := cs\<rparr>;
     sg \<leftarrow> Group cfg GRP0;
     Some (cfg, clnt, SrvNames sg)
   }"

definition kvraft_MakeClerkTo :: "('r, 's, 'x, 'a, 'b, 'v) Config \<Rightarrow> int list \<Rightarrow> (('r, 's, 'x, 'a, 'b, 'v) Config \<times> nat \<times> string list) option" where
  "kvraft_MakeClerkTo cfg to = do {
     sg \<leftarrow> Group cfg GRP0;
     ns \<leftarrow> SrvNamesTo sg to;
     let (cs, clnt) = MakeClientTo (cf_Clnts cfg) (Some ns);
     Some (cfg\<lparr>cf_Clnts := cs\<rparr>, clnt, SrvNames sg)
   }"

definition kvraft_DeleteClerk :: "('r, 's, 'x, 'a, 'b, 'v) Config \<Rightarrow> nat \<Rightarrow> ('r, 's, 'x, 'a, 'b, 'v) Config option" where
  "kvraft_DeleteClerk cfg clnt = do {
     (cs, nw) \<leftarrow> DeleteClient (cf_Clnts cfg) (cf_net cfg) clnt;
     Some ((with_net cfg nw)\<lparr>cf_Clnts := cs\<rparr>)
   }"

end
