(* ===== verification/ShardKv.thy ===== *)
theory ShardKv
  imports ShardCfg TestConfig Rsm
begin

text \<open>
  The sharded key/value service, \<^verbatim>\<open>shardkv1/\<close>.  The server of a shard group, the clerks and the controller are skeletons in this
  repository: their handlers leave the reply as it is and their calls return zero values, and they are modelled as they are.
  The driver \<^verbatim>\<open>shardkv1/test.go\<close> that lets groups join and leave through a controller is modelled over any controller: its
  operations \<open>Query\<close> and \<open>ChangeConfigTo\<close> are arguments.  With a controller that keeps the configuration it was given, a group that
  joins becomes a member and one that leaves is not one any more; with the repository's controller the driver panics.
\<close>

section \<open>The server of a shard group\<close>

record FreezeShardArgs =
  fz_Shard :: int
  fz_Num :: int

record FreezeShardReply =
  fzr_State :: "nat list"
  fzr_Num :: int
  fzr_Err :: Err

record InstallShardArgs =
  ins_Shard :: int
  ins_State :: "nat list"
  ins_Num :: int

record InstallShardReply =
  insr_Err :: Err

record DeleteShardArgs =
  del_Shard :: int
  del_Num :: int

record DeleteShardReply =
  delr_Err :: Err

record ShardGrpServer =
  sgs_me :: int
  sgs_dead :: bool
  sgs_gid :: int

definition ShardGrp_DoOp :: "ShardGrpServer \<Rightarrow> 'q \<Rightarrow> (ShardGrpServer \<times> 'r option) option" where
  "ShardGrp_DoOp kv req = Some (kv, None)"

definition ShardGrp_Snapshot :: "ShardGrpServer \<Rightarrow> 'd list" where
  "ShardGrp_Snapshot kv = []"

definition ShardGrp_Restore :: "ShardGrpServer \<Rightarrow> 'd list \<Rightarrow> ShardGrpServer option" where
  "ShardGrp_Restore kv data = Some kv"

definition ShardGrp_Get :: "ShardGrpServer \<Rightarrow> GetArgs \<Rightarrow> GetReply \<Rightarrow> ShardGrpServer \<times> GetReply" where
  "ShardGrp_Get kv args reply = (kv, reply)"

definition ShardGrp_Put :: "ShardGrpServer \<Rightarrow> PutArgs \<Rightarrow> PutReply \<Rightarrow> ShardGrpServer \<times> PutReply" where
  "ShardGrp_Put kv args reply = (kv, reply)"

definition FreezeShard :: "ShardGrpServer \<Rightarrow> FreezeShardArgs \<Rightarrow> FreezeShardReply \<Rightarrow> ShardGrpServer \<times> FreezeShardReply" where
  "FreezeShard kv args reply = (kv, reply)"

definition InstallShard :: "ShardGrpServer \<Rightarrow> InstallShardArgs \<Rightarrow> InstallShardReply \<Rightarrow> ShardGrpServer \<times> InstallShardReply" where
  "InstallShard kv args reply = (kv, reply)"

definition DeleteShard :: "ShardGrpServer \<Rightarrow> DeleteShardArgs \<Rightarrow> DeleteShardReply \<Rightarrow> ShardGrpServer \<times> DeleteShardReply" where
  "DeleteShard kv args reply = (kv, reply)"

definition ShardGrp_Kill :: "ShardGrpServer \<Rightarrow> ShardGrpServer" where
  "ShardGrp_Kill kv = kv\<lparr>sgs_dead := True\<rparr>"

definition ShardGrp_killed :: "ShardGrpServer \<Rightarrow> bool" where
  "ShardGrp_killed kv = sgs_dead kv"

text \<open>The registration of types with \<^verbatim>\<open>labgob\<close> has no effect on the server.\<close>

definition StartServerShardGrp :: "int \<Rightarrow> int \<Rightarrow> int \<Rightarrow> ('q Op LogEntry list gob, 'd) Persister \<Rightarrow> int \<Rightarrow> int
    \<Rightarrow> ((ShardGrpServer, 'r) RSM \<times> ('q Op, 'd) Raft) option" where
  "StartServerShardGrp n gid i ps maxraft now = MakeRSM ShardGrp_Restore n i ps maxraft \<lparr>sgs_me = i, sgs_dead = False, sgs_gid = gid\<rparr> now"

section \<open>Clerks\<close>

text \<open>The clerk of one group and the clerk of the service: every call returns zero values.\<close>

record ShardGrpClerk =
  sgc_servers :: "string list"

definition ShardGrp_MakeClerk :: "string list \<Rightarrow> ShardGrpClerk" where
  "ShardGrp_MakeClerk servers = \<lparr>sgc_servers = servers\<rparr>"

definition ShardGrpClerk_Get :: "ShardGrpClerk \<Rightarrow> string \<Rightarrow> string \<times> Tversion \<times> Err" where
  "ShardGrpClerk_Get ck key = ([], 0, ErrUnset)"

definition ShardGrpClerk_Put :: "ShardGrpClerk \<Rightarrow> string \<Rightarrow> string \<Rightarrow> Tversion \<Rightarrow> Err" where
  "ShardGrpClerk_Put ck key value version = ErrUnset"

definition ShardGrpClerk_FreezeShard :: "ShardGrpClerk \<Rightarrow> int \<Rightarrow> int \<Rightarrow> nat list \<times> Err" where
  "ShardGrpClerk_FreezeShard ck s n = ([], ErrUnset)"

definition ShardGrpClerk_InstallShard :: "ShardGrpClerk \<Rightarrow> int \<Rightarrow> nat list \<Rightarrow> int \<Rightarrow> Err" where
  "ShardGrpClerk_InstallShard ck s state n = ErrUnset"

definition ShardGrpClerk_DeleteShard :: "ShardGrpClerk \<Rightarrow> int \<Rightarrow> int \<Rightarrow> Err" where
  "ShardGrpClerk_DeleteShard ck s n = ErrUnset"

text \<open>As a clerk of the tests, over any world and clock.\<close>

definition ShardKv_MakeClerk :: "('w \<Rightarrow> int) \<Rightarrow> 'w IKVClerk" where
  "ShardKv_MakeClerk clock = \<lparr>ck_Get = (\<lambda>key w. Some (([], 0, ErrUnset), w)), ck_Put = (\<lambda>key value version w. Some (ErrUnset, w)), ck_now = clock\<rparr>"

section \<open>The controller\<close>

record ShardCtrler =
  sck_killed :: bool

definition MakeShardCtrler :: ShardCtrler where
  "MakeShardCtrler = \<lparr>sck_killed = False\<rparr>"

definition InitController :: "ShardCtrler \<Rightarrow> ShardCtrler" where
  "InitController sck = sck"

definition InitConfig :: "ShardCtrler \<Rightarrow> ShardConfig \<Rightarrow> ShardCtrler" where
  "InitConfig sck cfg = sck"

definition ChangeConfigTo :: "ShardCtrler \<Rightarrow> ShardConfig \<Rightarrow> ShardCtrler" where
  "ChangeConfigTo sck new = sck"

text \<open>\<open>None\<close> is the nil pointer.\<close>

definition ShardCtrler_Query :: "ShardCtrler \<Rightarrow> ShardConfig option" where
  "ShardCtrler_Query sck = None"

section \<open>Groups that join and leave\<close>

text \<open>\<open>newGid\<close> and \<open>groups\<close> of the driver, on the counter of the test.\<close>

definition newGid :: "int \<Rightarrow> int \<times> int" where
  "newGid ngid = (ngid, ngid + 1)"

fun groups :: "nat \<Rightarrow> int \<Rightarrow> int list \<times> int" where
  "groups 0 ngid = ([], ngid)"
| "groups (Suc n) ngid = (let (gid, ngid) = newGid ngid; (grps, ngid) = groups n ngid in (gid # grps, ngid))"

text \<open>A nil configuration is dereferenced, which panics; \<^verbatim>\<open>log.Fatalf\<close> ends the process as well.\<close>

definition checkMember :: "('k \<Rightarrow> ShardConfig option) \<Rightarrow> 'k \<Rightarrow> Tgid \<Rightarrow> bool outcome" where
  "checkMember Query sck gid = (case Query sck of None \<Rightarrow> Fatal | Some cfg \<Rightarrow> Done (IsMember cfg gid))"

definition join :: "('k \<Rightarrow> ShardConfig option) \<Rightarrow> ('k \<Rightarrow> ShardConfig \<Rightarrow> 'k) \<Rightarrow> 'k \<Rightarrow> Tgid \<Rightarrow> string list \<Rightarrow> 'k outcome" where
  "join Query ChangeTo sck gid srvs =
     (case Query sck of
        None \<Rightarrow> Fatal
      | Some cfg \<Rightarrow>
          (case JoinBalance (ShardConfig_Copy cfg) [(gid, srvs)] of
             None \<Rightarrow> Fatal
           | Some (ok, newcfg) \<Rightarrow> if \<not> ok then Fatal else Done (ChangeTo sck newcfg)))"

definition leave :: "('k \<Rightarrow> ShardConfig option) \<Rightarrow> ('k \<Rightarrow> ShardConfig \<Rightarrow> 'k) \<Rightarrow> 'k \<Rightarrow> Tgid \<Rightarrow> 'k outcome" where
  "leave Query ChangeTo sck gid =
     (case Query sck of
        None \<Rightarrow> Fatal
      | Some cfg \<Rightarrow>
          (case LeaveBalance (ShardConfig_Copy cfg) [gid] of
             None \<Rightarrow> Fatal
           | Some (ok, newcfg) \<Rightarrow> if \<not> ok then Fatal else Done (ChangeTo sck newcfg)))"

text \<open>\<open>names\<close> and \<open>names'\<close> give the random names of the ends of each group that is made.\<close>

definition shard_NSRV :: nat where
  "shard_NSRV = 3"

fun joinGroups :: "(int \<Rightarrow> string) \<Rightarrow> ('v \<Rightarrow> ('x, 'a, 'b) Service) \<Rightarrow> (int \<Rightarrow> nat \<Rightarrow> nat \<Rightarrow> string) \<Rightarrow> (int \<Rightarrow> int \<Rightarrow> nat \<Rightarrow> string)
    \<Rightarrow> ('r, 's, 'x, 'a, 'b, 'v) mks \<Rightarrow> ('k \<Rightarrow> ShardConfig option) \<Rightarrow> ('k \<Rightarrow> ShardConfig \<Rightarrow> 'k)
    \<Rightarrow> 'k \<Rightarrow> int list \<Rightarrow> ('r, 's, 'x, 'a, 'b, 'v) Config \<Rightarrow> (bool \<times> 'k \<times> ('r, 's, 'x, 'a, 'b, 'v) Config) outcome" where
  "joinGroups itoa mkService names names' mks Query ChangeTo sck [] tcfg = Done (True, sck, tcfg)"
| "joinGroups itoa mkService names names' mks Query ChangeTo sck (gid # gs) tcfg =
     obind (of_option (MakeGroupStart itoa mkService (names gid) (names' gid) mks tcfg gid shard_NSRV)) (\<lambda>tcfg.
     obind (of_option (Group tcfg gid)) (\<lambda>sg.
     obind (join Query ChangeTo sck gid (SrvNames sg)) (\<lambda>sck.
     obind (checkMember Query sck gid) (\<lambda>ok.
       if \<not> ok then Done (False, sck, tcfg) else joinGroups itoa mkService names names' mks Query ChangeTo sck gs tcfg))))"

fun leaveGroups :: "(int \<Rightarrow> string) \<Rightarrow> ('v \<Rightarrow> ('r, 's, 'x, 'a, 'b) tenv \<Rightarrow> ('r, 's, 'x, 'a, 'b) tenv) \<Rightarrow> ('k \<Rightarrow> ShardConfig option)
    \<Rightarrow> ('k \<Rightarrow> ShardConfig \<Rightarrow> 'k)
    \<Rightarrow> 'k \<Rightarrow> int list \<Rightarrow> ('r, 's, 'x, 'a, 'b, 'v) Config \<Rightarrow> (bool \<times> 'k \<times> ('r, 's, 'x, 'a, 'b, 'v) Config) outcome" where
  "leaveGroups itoa kill Query ChangeTo sck [] tcfg = Done (True, sck, tcfg)"
| "leaveGroups itoa kill Query ChangeTo sck (gid # gs) tcfg =
     obind (leave Query ChangeTo sck gid) (\<lambda>sck.
     obind (checkMember Query sck gid) (\<lambda>ok.
       if ok then Done (False, sck, tcfg)
       else obind (of_option (ExitGroup itoa kill tcfg gid)) (\<lambda>tcfg. leaveGroups itoa kill Query ChangeTo sck gs tcfg)))"

section \<open>Fresh groups\<close>

lemma groups_fresh: "groups n ngid = ([ngid .. ngid + int n - 1], ngid + int n)"
proof (induction n arbitrary: ngid)
  case (Suc n)
  then show ?case using upto_rec1 [of ngid "ngid + int n"] by (simp add: newGid_def algebra_simps)
qed simp

section \<open>Members\<close>

text \<open>In a balanced configuration with at most as many groups as shards every group has a shard.\<close>

lemma sum_count_list: "set xs \<subseteq> set gs \<Longrightarrow> distinct gs \<Longrightarrow> (\<Sum>g \<leftarrow> gs. count_list xs g) = length xs"
proof (induction xs)
  case (Cons x xs)
  have "(\<Sum>g \<leftarrow> gs. count_list (x # xs) g) = (\<Sum>g \<leftarrow> gs. (if x = g then 1 else 0) + count_list xs g)"
    by (intro arg_cong [of _ _ sum_list] map_cong) auto
  also have "\<dots> = (\<Sum>g \<leftarrow> gs. if x = g then 1 else 0) + (\<Sum>g \<leftarrow> gs. count_list xs g)" by (rule sum_list_addf)
  also have "(\<Sum>g \<leftarrow> gs. if x = g then 1 else 0 :: nat) = 1"
    using Cons.prems by (simp add: sum_list_distinct_conv_sum_set)
  finally show ?case using Cons by simp
qed simp

lemma balanced_members:
  assumes "cfg_wf c" "all_assigned c" "balanced c" "length (Groups c) \<le> nat NShards" "g \<in> set (gids c)"
  shows "IsMember c g"
proof (rule ccontr)
  assume "\<not> IsMember c g"
  then have zero: "load c g = 0" by (auto simp: IsMember_def list_ex_iff count_list_0_iff)
  have le: "load c h \<le> (if h = g then 0 else 1)" if "h \<in> set (gids c)" for h
    using assms(3,5) that zero unfolding balanced_def by fastforce
  have "length (Shards c) = (\<Sum>h \<leftarrow> gids c. load c h)"
    using assms(1,2) by (subst sum_count_list) (auto simp: all_assigned_def cfg_wf_def)
  also have "\<dots> \<le> (\<Sum>h \<leftarrow> gids c. if h = g then 0 else 1)" by (intro sum_list_mono le)
  also have "\<dots> = card (set (gids c) - {g})"
    using assms(1) sum_list_distinct_conv_sum_set [of "gids c" "\<lambda>h. if h = g then 0 else 1 :: nat"]
    by (simp add: cfg_wf_def sum.If_cases Diff_eq)
  also have "\<dots> < card (set (gids c))" using assms(5) by (intro psubset_card_mono) auto
  also have "\<dots> \<le> length (Groups c)" using card_length [of "gids c"] by simp
  finally show False using assms(1,4) by (simp add: cfg_wf_def)
qed

lemma JoinBalance_joins:
  assumes "cfg_wf c" "gid \<notin> set (gids c)" "\<not> shares_server c srvs" "distinct srvs"
  obtains c' where "JoinBalance c [(gid, srvs)] = Some (True, c')" "Num c' = Num c + 1" "Groups c' = Groups c @ [(gid, srvs)]" "cfg_wf c'"
    "CheckConfig c' (gids c')" "all_assigned c'" "balanced c'"
proof -
  let ?c = "c\<lparr>Num := Num c + 1, Groups := Groups c @ [(gid, srvs)]\<rparr>"
  have join: "Join c [(gid, srvs)] = Some (True, ?c)" using Join_loop_ok [of "[(gid, srvs)]" c False] assms(2-4) by (simp add: Join_def)
  have "cfg_wf ?c" "Groups ?c \<noteq> []" using assms(1,2) by (auto simp: cfg_wf_def)
  from Rebalance_total [OF this] obtain c' where c': "Rebalance ?c = Some c'" and reb: "rebalancing ?c c'" and bal: "balanced c'" .
  with rebalancing_CheckConfig [OF reb bal] join c' reb show thesis by (intro that [of c']) (auto simp: JoinBalance_def rebalancing_def)
qed

lemma JoinBalance_member:
  assumes "cfg_wf c" "length (Groups c) < nat NShards" "gid \<notin> set (gids c)" "\<not> shares_server c srvs" "distinct srvs"
  obtains c' where "JoinBalance c [(gid, srvs)] = Some (True, c')" "Num c' = Num c + 1" "Groups c' = Groups c @ [(gid, srvs)]" "cfg_wf c'"
    "CheckConfig c' (gids c')" "IsMember c' gid"
proof -
  obtain c' where c': "JoinBalance c [(gid, srvs)] = Some (True, c')" "Num c' = Num c + 1" "Groups c' = Groups c @ [(gid, srvs)]" "cfg_wf c'"
    "CheckConfig c' (gids c')" "all_assigned c'" "balanced c'" using JoinBalance_joins [OF assms(1,3-5)] .
  have "IsMember c' gid" by (rule balanced_members) (use c' assms(2) in auto)
  with c' show thesis by (intro that)
qed

lemma LeaveBalance_member:
  assumes "cfg_wf c" "gid \<in> set (gids c)" "gid \<noteq> 0"
  obtains c' where "LeaveBalance c [gid] = Some (True, c')" "Num c' = Num c + 1" "Groups c' = filter (\<lambda>(g, _). g \<noteq> gid) (Groups c)" "cfg_wf c'"
    "CheckConfig c' (gids c')" "\<not> IsMember c' gid"
proof -
  obtain c' where c': "LeaveBalance c [gid] = Some (True, c')" "Num c' = Num c + 1" "Groups c' = filter (\<lambda>(g, _). g \<noteq> gid) (Groups c)" "cfg_wf c'"
    "CheckConfig c' (gids c')" "Groups c' = [] \<longrightarrow> Shards c' = replicate (nat NShards) 0"
    using LeaveBalance_correct [OF assms(1), of "[gid]"] assms(2) by auto
  have "gid \<notin> set (gids c')" using c'(3) by (auto simp: gids_filter)
  moreover have "set (Shards c') \<subseteq> set (gids c')" if "Groups c' \<noteq> []" using c'(5) that by (auto simp: CheckConfig_def)
  ultimately have "\<not> IsMember c' gid" using c'(6) assms(3) by (cases "Groups c' = []") (auto simp: IsMember_def list_ex_iff)
  with c' show thesis by (intro that)
qed

text \<open>
  Groups join and leave.  With a controller that returns the configuration it was last given, \<open>join\<close> of a new group, whose servers are in no
  other group, succeeds as long as there are fewer groups than shards; the group is then a member and the configuration is
  balanced.  When the group \<open>leave\<close>s again it is no member any more, the other groups are those from before, and the
  configuration is balanced again; every change counts the configuration number up by one.
\<close>

theorem join_leave_members:
  assumes "\<And>k c. Query (ChangeTo k c) = Some c" and "Query sck = Some cfg" and "cfg_wf cfg" and "length (Groups cfg) < nat NShards"
    and "gid \<notin> set (gids cfg)" and "gid \<noteq> 0" and "\<not> shares_server cfg srvs" and "distinct srvs"
  shows "\<exists>sck1 cfg1 sck2 cfg2. join Query ChangeTo sck gid srvs = Done sck1 \<and> Query sck1 = Some cfg1 \<and> checkMember Query sck1 gid = Done True
     \<and> Num cfg1 = Num cfg + 1 \<and> CheckConfig cfg1 (gids cfg @ [gid])
     \<and> leave Query ChangeTo sck1 gid = Done sck2 \<and> Query sck2 = Some cfg2 \<and> checkMember Query sck2 gid = Done False
     \<and> Num cfg2 = Num cfg + 2 \<and> Groups cfg2 = Groups cfg \<and> CheckConfig cfg2 (gids cfg)"
proof -
  from JoinBalance_member [OF assms(3-5,7,8)] obtain cfg1 where j: "JoinBalance cfg [(gid, srvs)] = Some (True, cfg1)" "Num cfg1 = Num cfg + 1"
    "Groups cfg1 = Groups cfg @ [(gid, srvs)]" "cfg_wf cfg1" "CheckConfig cfg1 (gids cfg1)" "IsMember cfg1 gid" .
  have "gid \<in> set (gids cfg1)" using j(3) by simp
  from LeaveBalance_member [OF j(4) this assms(6)] obtain cfg2 where l: "LeaveBalance cfg1 [gid] = Some (True, cfg2)" "Num cfg2 = Num cfg1 + 1"
    "Groups cfg2 = filter (\<lambda>(g, _). g \<noteq> gid) (Groups cfg1)" "CheckConfig cfg2 (gids cfg2)" "\<not> IsMember cfg2 gid" .
  have "filter (\<lambda>(g, _). g \<noteq> gid) (Groups cfg) = Groups cfg" using assms(5) by (force intro!: filter_True)
  with l(3) j(3) have g2: "Groups cfg2 = Groups cfg" by simp
  with j l assms(1,2) show ?thesis
    by (intro exI [of _ "ChangeTo sck cfg1"] exI [of _ cfg1] exI [of _ "ChangeTo (ChangeTo sck cfg1) cfg2"] exI [of _ cfg2])
      (simp add: join_def leave_def checkMember_def ShardConfig_Copy_eq)
qed

theorem join_leave_members_witness:
  "\<exists>sck1 cfg1 sck2 cfg2. join (\<lambda>k. k) (\<lambda>_. Some) (Some demo_cfg) 7 [''c''] = Done sck1 \<and> sck1 = Some cfg1 \<and> checkMember (\<lambda>k. k) sck1 7 = Done True
     \<and> Num cfg1 = 4 \<and> CheckConfig cfg1 [2, 1, 7]
     \<and> leave (\<lambda>k. k) (\<lambda>_. Some) sck1 7 = Done sck2 \<and> sck2 = Some cfg2 \<and> checkMember (\<lambda>k. k) sck2 7 = Done False
     \<and> Num cfg2 = 5 \<and> Groups cfg2 = Groups demo_cfg \<and> CheckConfig cfg2 [2, 1]"
  using join_leave_members [of "\<lambda>k. k" "\<lambda>_. Some" "Some demo_cfg" demo_cfg 7 "[''c'']"]
  by (simp add: demo_cfg_def cfg_wf_def NShards_def shares_server_def)

section \<open>The skeletons\<close>

text \<open>With the repository's controller the driver panics as soon as a group is to join, and with its clerk every check of a value fails.\<close>

lemma skeleton_join_panics:
  "joinGroups itoa mkService names names' mks ShardCtrler_Query ChangeConfigTo sck (gid # gs) tcfg = Fatal"
proof -
  have "join ShardCtrler_Query ChangeConfigTo k gid srvs = Fatal" for k srvs by (simp add: join_def ShardCtrler_Query_def)
  moreover have "obind (of_option x) (\<lambda>_. Fatal) = Fatal" for x :: "'g option" by (cases x) simp_all
  ultimately show ?thesis by (cases "MakeGroupStart itoa mkService (names gid) (names' gid) mks tcfg gid shard_NSRV") simp_all
qed

end
