(* ===== verification/MrApps.thy ===== *)
theory MrApps
  imports MrWorker GoFmt
begin

text \<open>
  The MapReduce applications that test the scheduling of tasks: \<^verbatim>\<open>mrapps/mtiming.go\<close>, \<^verbatim>\<open>rtiming.go\<close>, \<^verbatim>\<open>jobcount.go\<close>, \<^verbatim>\<open>crash.go\<close>,
  \<^verbatim>\<open>nocrash.go\<close> and \<^verbatim>\<open>early_exit.go\<close>.  They leave marks in the working directory and count them, so the directory (the names, in the order
  the system lists them) and the set of live processes are arguments.  The file system does not fail; what a function does
  before and after it sleeps are two functions.
\<close>

section \<open>The directory\<close>

type_synonym dir = "string list"

definition WriteFile :: "string \<Rightarrow> dir \<Rightarrow> dir" where
  "WriteFile f d = (if f \<in> set d then d else d @ [f])"

definition Remove :: "string \<Rightarrow> dir \<Rightarrow> dir option" where
  "Remove f d = (if f \<in> set d then Some (remove1 f d) else None)"

section \<open>Counting workers\<close>

definition worker_prefix :: "string \<Rightarrow> string" where
  "worker_prefix ph = ''mr-worker-'' @ ph @ ''-''"

definition worker_file :: "string \<Rightarrow> int \<Rightarrow> string" where
  "worker_file ph pid = worker_prefix ph @ fmt_int pid"

definition is_blank :: "char \<Rightarrow> bool" where
  "is_blank c \<longleftrightarrow> c \<in> {CHR 0x09, CHR 0x0B, CHR 0x0C, CHR 0x0D, CHR 0x20}"

text \<open>The verb \<^verbatim>\<open>%d\<close> of \<^verbatim>\<open>Sscanf\<close>: blanks, a sign, digits, within 64 bits; what follows is not looked at.\<close>

definition scan_int :: "string \<Rightarrow> int option" where
  "scan_int s =
     (let s = dropWhile is_blank s;
          neg = (take 1 s = ''-'');
          s = (if take 1 s = ''-'' \<or> take 1 s = ''+'' then drop 1 s else s)
      in case parse_nat s of
           None \<Rightarrow> None
         | Some (n, _) \<Rightarrow> let v = (if neg then - int n else int n)
                          in if - (2 ^ 63) \<le> v \<and> v < 2 ^ 63 then Some v else None)"

definition scan_worker :: "string \<Rightarrow> string \<Rightarrow> int option" where
  "scan_worker ph fname = do { s \<leftarrow> strip (worker_prefix ph) fname; scan_int s }"

definition is_alive :: "string \<Rightarrow> (int \<Rightarrow> bool) \<Rightarrow> string \<Rightarrow> bool" where
  "is_alive ph alive fname = (case scan_worker ph fname of None \<Rightarrow> False | Some xpid \<Rightarrow> alive xpid)"

text \<open>\<open>nparallel\<close> up to the time it sleeps, and from there.  \<open>alive\<close> tells whether signal 0 can be sent to a process.\<close>

definition nparallel :: "string \<Rightarrow> int \<Rightarrow> (int \<Rightarrow> bool) \<Rightarrow> dir \<Rightarrow> dir \<times> int" where
  "nparallel ph pid alive d =
     (let d = WriteFile (worker_file ph pid) d;
          names = take 1000000 d
      in (d, int (length (filter (is_alive ph alive) names))))"

text \<open>\<^verbatim>\<open>rtiming.go\<close> has a copy of the function.\<close>

definition rtiming_nparallel :: "string \<Rightarrow> int \<Rightarrow> (int \<Rightarrow> bool) \<Rightarrow> dir \<Rightarrow> dir \<times> int" where
  "rtiming_nparallel = nparallel"

definition nparallel_end :: "string \<Rightarrow> int \<Rightarrow> dir \<Rightarrow> dir option" where
  "nparallel_end ph pid d = Remove (worker_file ph pid) d"

text \<open>\<open>tstamp\<close> is the start time, printed with one decimal.\<close>

definition mtiming_Map :: "string \<Rightarrow> int \<Rightarrow> (int \<Rightarrow> bool) \<Rightarrow> dir \<Rightarrow> dir \<times> KeyValue list" where
  "mtiming_Map tstamp pid alive d =
     (let (d, n) = nparallel ''map'' pid alive d
      in (d, [\<lparr>kv_Key = ''times-'' @ fmt_int pid, kv_Value = tstamp\<rparr>, \<lparr>kv_Key = ''parallel-'' @ fmt_int pid, kv_Value = fmt_int n\<rparr>]))"

definition mtiming_Reduce :: "string \<Rightarrow> string list \<Rightarrow> string" where
  "mtiming_Reduce key values = (let vv = go_copy (replicate (length values) []) values in strings_Join (sort vv) '' '')"

definition rtiming_Map :: "string \<Rightarrow> string \<Rightarrow> KeyValue list" where
  "rtiming_Map filename contents =
     map (\<lambda>k. \<lparr>kv_Key = k, kv_Value = ''1''\<rparr>) [''a'', ''b'', ''c'', ''d'', ''e'', ''f'', ''g'', ''h'', ''i'', ''j'']"

definition rtiming_Reduce :: "int \<Rightarrow> (int \<Rightarrow> bool) \<Rightarrow> dir \<Rightarrow> string \<Rightarrow> string list \<Rightarrow> dir \<times> string" where
  "rtiming_Reduce pid alive d key values = (let (d, n) = rtiming_nparallel ''reduce'' pid alive d in (d, fmt_int n))"

section \<open>Counting jobs\<close>

definition job_prefix :: string where
  "job_prefix = ''mr-worker-jobcount''"

definition job_file :: "int \<Rightarrow> int \<Rightarrow> string" where
  "job_file pid n = job_prefix @ ''-'' @ fmt_int pid @ ''-'' @ fmt_int n"

text \<open>\<open>n\<close> is the global variable \<open>count\<close> of the process.\<close>

definition jobcount_Map :: "int \<Rightarrow> int \<Rightarrow> dir \<Rightarrow> int \<times> dir \<times> KeyValue list" where
  "jobcount_Map pid n d = (n + 1, WriteFile (job_file pid n) d, [\<lparr>kv_Key = ''a'', kv_Value = ''x''\<rparr>])"

definition has_prefix :: "string \<Rightarrow> string \<Rightarrow> bool" where
  "has_prefix s pre = (take (length pre) s = pre)"

definition jobcount_Reduce :: "dir \<Rightarrow> string \<Rightarrow> string list \<Rightarrow> string" where
  "jobcount_Reduce d key values = fmt_int (int (length (filter (\<lambda>f. has_prefix f job_prefix) d)))"

section \<open>Crashing\<close>

text \<open>What \<open>maybeCrash\<close> does with the random number \<open>rr\<close> below 1000, and \<open>ms\<close> below 10000.\<close>

datatype fate = Exits | Sleeps int | Goes

definition crash_maybeCrash :: "int \<Rightarrow> int \<Rightarrow> fate" where
  "crash_maybeCrash rr ms = (if rr < 330 then Exits else if rr < 660 then Sleeps ms else Goes)"

definition nocrash_maybeCrash :: "int \<Rightarrow> fate" where
  "nocrash_maybeCrash rr = (if False \<and> rr < 500 then Exits else Goes)"

text \<open>\<open>None\<close>: the process has exited.\<close>

definition crash_Map :: "(nat \<Rightarrow> string) \<Rightarrow> int \<Rightarrow> int \<Rightarrow> string \<Rightarrow> string \<Rightarrow> KeyValue list option" where
  "crash_Map itoa rr ms filename contents =
     (case crash_maybeCrash rr ms of
        Exits \<Rightarrow> None
      | _ \<Rightarrow> Some [\<lparr>kv_Key = ''a'', kv_Value = filename\<rparr>, \<lparr>kv_Key = ''b'', kv_Value = itoa (length filename)\<rparr>,
                   \<lparr>kv_Key = ''c'', kv_Value = itoa (length contents)\<rparr>, \<lparr>kv_Key = ''d'', kv_Value = ''xyzzy''\<rparr>])"

definition crash_Reduce :: "int \<Rightarrow> int \<Rightarrow> string \<Rightarrow> string list \<Rightarrow> string option" where
  "crash_Reduce rr ms key values =
     (case crash_maybeCrash rr ms of Exits \<Rightarrow> None | _ \<Rightarrow> Some (let vv = go_copy (replicate (length values) []) values in strings_Join (sort vv) '' ''))"

definition early_exit_Map :: "string \<Rightarrow> string \<Rightarrow> KeyValue list" where
  "early_exit_Map filename contents = [\<lparr>kv_Key = filename, kv_Value = ''1''\<rparr>]"

fun contains :: "string \<Rightarrow> string \<Rightarrow> bool" where
  "contains [] sub = (sub = [])"
| "contains (c # s) sub = (has_prefix (c # s) sub \<or> contains s sub)"

text \<open>The seconds it sleeps, and the result.\<close>

definition early_exit_Reduce :: "(nat \<Rightarrow> string) \<Rightarrow> string \<Rightarrow> string list \<Rightarrow> int \<times> string" where
  "early_exit_Reduce itoa key values =
     (if contains key ''sherlock'' \<or> contains key ''tom'' then 3 else 0, itoa (length values))"

section \<open>Names\<close>

lemma fmt_int_nonblank: "dropWhile is_blank (fmt_int pid) = fmt_int pid"
proof -
  have "\<not> is_blank (hd (fmt_int pid))"
    using fmt_nat_digits [of "nat pid"] by (cases "fmt_nat (nat pid)") (auto simp: fmt_int_def is_blank_def is_digit_def)
  then show ?thesis by (cases "fmt_int pid") auto
qed

lemma scan_fmt_int:
  assumes "0 \<le> pid" "pid < 2 ^ 63" shows "scan_int (fmt_int pid) = Some pid"
proof -
  obtain c cs where c: "fmt_nat (nat pid) = c # cs" "is_digit c" using fmt_nat_digits [of "nat pid"] by (cases "fmt_nat (nat pid)") auto
  have "c \<noteq> CHR ''-''" "c \<noteq> CHR ''+''" using c(2) by (auto simp: is_digit_def)
  moreover have "parse_nat (c # cs) = Some (nat pid, [])" using parse_fmt_nat [of "[]" "nat pid"] c(1) by (simp add: stops_def)
  ultimately show ?thesis using assms fmt_int_nonblank [of pid] c(1) by (simp add: scan_int_def fmt_int_def)
qed

lemma scan_worker_file: "0 \<le> pid \<Longrightarrow> pid < 2 ^ 63 \<Longrightarrow> scan_worker ph (worker_file ph pid) = Some pid"
  by (simp add: scan_worker_def worker_file_def scan_fmt_int)

lemma parse_job_file: "0 \<le> pid \<Longrightarrow> 0 \<le> k \<Longrightarrow> job_file pid k = job_file pid' k' \<Longrightarrow> pid = pid' \<and> k = k'"
proof -
  assume "job_file pid k = job_file pid' k'"
  then have eq: "fmt_int pid @ ''-'' @ fmt_int k = fmt_int pid' @ ''-'' @ fmt_int k'" by (simp add: job_file_def)
  have st: "stops (''-'' @ s)" "stops []" for s by (simp_all add: stops_def is_digit_def)
  have "Some (pid, ''-'' @ fmt_int k) = Some (pid', ''-'' @ fmt_int k')"
    using parse_fmt_int [OF st(1) [of "fmt_int k"], of pid] parse_fmt_int [OF st(1) [of "fmt_int k'"], of pid'] unfolding eq by simp
  then have "pid = pid'" "fmt_int k = fmt_int k'" by simp_all
  with parse_fmt_int [OF st(2), of k] parse_fmt_int [OF st(2), of k'] show ?thesis by simp
qed

lemma WriteFile_simps [simp]: "set (WriteFile f d) = insert f (set d)" "distinct d \<Longrightarrow> distinct (WriteFile f d)"
  by (auto simp: WriteFile_def)

section \<open>The workers of a phase\<close>

text \<open>The directory, the live processes, and the processes that are inside \<open>nparallel\<close>.\<close>

record par =
  p_dir :: dir
  p_live :: "int set"
  p_in :: "int set"

text \<open>
  A process starts (with an id that no left-over file carries), calls \<open>nparallel\<close>, leaves it, or dies at any point; other
  files come and go.
\<close>

inductive par_step :: "string \<Rightarrow> par \<Rightarrow> par \<Rightarrow> bool" for ph where
  par_start: "0 < pid \<Longrightarrow> pid < 2 ^ 63 \<Longrightarrow> pid \<notin> p_live x \<Longrightarrow> worker_file ph pid \<notin> set (p_dir x) \<Longrightarrow>
    par_step ph x (x\<lparr>p_live := insert pid (p_live x)\<rparr>)"
| par_enter: "pid \<in> p_live x \<Longrightarrow> pid \<notin> p_in x \<Longrightarrow> nparallel ph pid (\<lambda>q. q \<in> p_live x) (p_dir x) = (d, k) \<Longrightarrow>
    par_step ph x (x\<lparr>p_dir := d, p_in := insert pid (p_in x)\<rparr>)"
| par_leave: "pid \<in> p_in x \<Longrightarrow> nparallel_end ph pid (p_dir x) = Some d \<Longrightarrow>
    par_step ph x (x\<lparr>p_dir := d, p_in := p_in x - {pid}\<rparr>)"
| par_die: "pid \<in> p_live x \<Longrightarrow> par_step ph x (x\<lparr>p_live := p_live x - {pid}, p_in := p_in x - {pid}\<rparr>)"
| par_create: "scan_worker ph f = None \<Longrightarrow> par_step ph x (x\<lparr>p_dir := WriteFile f (p_dir x)\<rparr>)"
| par_delete: "scan_worker ph f = None \<Longrightarrow> par_step ph x (x\<lparr>p_dir := remove1 f (p_dir x)\<rparr>)"

inductive par_run :: "string \<Rightarrow> par \<Rightarrow> bool" for ph where
  par_init: "\<forall>f \<in> set d. scan_worker ph f = None \<Longrightarrow> distinct d \<Longrightarrow> par_run ph \<lparr>p_dir = d, p_live = {}, p_in = {}\<rparr>"
| par_next: "par_run ph x \<Longrightarrow> par_step ph x y \<Longrightarrow> par_run ph y"

text \<open>Every file that is scanned as a worker's is that worker's, and a live process has its file exactly while it is inside.\<close>

definition par_inv :: "string \<Rightarrow> par \<Rightarrow> bool" where
  "par_inv ph x \<longleftrightarrow> distinct (p_dir x) \<and> p_in x \<subseteq> p_live x \<and> (\<forall>q \<in> p_live x. 0 < q \<and> q < 2 ^ 63)
     \<and> (\<forall>f \<in> set (p_dir x). \<forall>q. scan_worker ph f = Some q \<longrightarrow> f = worker_file ph q)
     \<and> (\<forall>q \<in> p_live x. worker_file ph q \<in> set (p_dir x) \<longleftrightarrow> q \<in> p_in x)"

lemma worker_file_inject: "0 < p \<Longrightarrow> p < 2 ^ 63 \<Longrightarrow> 0 < q \<Longrightarrow> q < 2 ^ 63 \<Longrightarrow> worker_file ph p = worker_file ph q \<longleftrightarrow> p = q"
  by (metis order_less_imp_le option.inject scan_worker_file)

lemma par_step_inv: "par_step ph x y \<Longrightarrow> par_inv ph x \<Longrightarrow> par_inv ph y"
proof (induction rule: par_step.induct)
  case (par_start pid x)
  then show ?case by (auto simp: par_inv_def)
next
  case (par_enter pid x d k)
  then have d: "d = WriteFile (worker_file ph pid) (p_dir x)" by (simp add: nparallel_def Let_def)
  have pid: "0 < pid" "pid < 2 ^ 63" using par_enter by (auto simp: par_inv_def)
  with par_enter(1,2,4) scan_worker_file [of pid ph] worker_file_inject [of _ pid ph] show ?case unfolding d par_inv_def by auto
next
  case (par_leave pid x d)
  then have d: "d = remove1 (worker_file ph pid) (p_dir x)" by (simp add: nparallel_end_def Remove_def split: if_splits)
  have pid: "0 < pid" "pid < 2 ^ 63" "pid \<in> p_live x" "distinct (p_dir x)" using par_leave by (auto simp: par_inv_def)
  with par_leave(3) worker_file_inject [of _ pid ph] show ?case unfolding d par_inv_def by auto
next
  case (par_die pid x)
  then show ?case by (auto simp: par_inv_def)
next
  case (par_create f x)
  then show ?case using scan_worker_file [of _ ph] by (auto simp: par_inv_def)
next
  case (par_delete f x)
  then have "distinct (p_dir x)" by (simp add: par_inv_def)
  with par_delete show ?case using scan_worker_file [of _ ph] by (auto simp: par_inv_def)
qed

lemma par_run_inv: "par_run ph x \<Longrightarrow> par_inv ph x"
proof (induction rule: par_run.induct)
  case (par_init d)
  then show ?case by (auto simp: par_inv_def)
qed (rule par_step_inv)

text \<open>
  \<open>nparallel\<close> counts the workers that are running.  However processes start, die, and enter and leave \<open>nparallel\<close>, the call of a
  process returns the number of live processes that are inside at that moment, itself included, in spite of the files that
  dead processes leave behind; and removing its own file at the end never panics.
\<close>

theorem nparallel_counts:
  assumes "par_run ph x" and "pid \<in> p_live x" and "pid \<notin> p_in x" and "length (p_dir x) < 1000000"
    and "nparallel ph pid (\<lambda>q. q \<in> p_live x) (p_dir x) = (d, k)"
  shows "k = int (card (insert pid (p_in x))) \<and> (\<forall>q \<in> insert pid (p_in x). nparallel_end ph q d \<noteq> None)"
proof -
  note inv = par_run_inv [OF assms(1)]
  from par_step_inv [OF par_enter [OF assms(2,3,5)] inv] have inv': "par_inv ph (x\<lparr>p_dir := d, p_in := insert pid (p_in x)\<rparr>)" .
  have live: "insert pid (p_in x) \<subseteq> p_live x" using inv assms(2) by (auto simp: par_inv_def)
  let ?ok = "is_alive ph (\<lambda>q. q \<in> p_live x)"
  have "length d \<le> 1000000" using assms(4,5) by (auto simp: nparallel_def Let_def WriteFile_def)
  with assms(5) have k: "k = int (length (filter ?ok d))" by (auto simp: nparallel_def Let_def)
  have mine: "\<And>f q. f \<in> set d \<Longrightarrow> scan_worker ph f = Some q \<Longrightarrow> f = worker_file ph q"
    and inside: "\<And>q. q \<in> p_live x \<Longrightarrow> worker_file ph q \<in> set d \<Longrightarrow> q \<in> insert pid (p_in x)"
    using inv' by (simp_all add: par_inv_def)
  have "set (filter ?ok d) = worker_file ph ` insert pid (p_in x)" (is "?L = ?R")
  proof (intro set_eqI iffI)
    fix f assume "f \<in> ?L"
    then obtain q where q: "f \<in> set d" "scan_worker ph f = Some q" "q \<in> p_live x" by (auto simp: is_alive_def split: option.splits)
    from mine [OF q(1,2)] inside [OF q(3)] q(1) show "f \<in> ?R" by blast
  next
    fix f assume "f \<in> ?R"
    then obtain q where q: "f = worker_file ph q" "q \<in> insert pid (p_in x)" by blast
    with live inv have "q \<in> p_live x" "0 < q" "q < 2 ^ 63" by (auto simp: par_inv_def)
    with q inv' show "f \<in> ?L" by (auto simp: par_inv_def is_alive_def scan_worker_file)
  qed
  moreover have "distinct (filter ?ok d)" using inv' by (simp add: par_inv_def)
  moreover have "inj_on (worker_file ph) (insert pid (p_in x))"
  proof (rule inj_onI)
    fix p q assume pq: "p \<in> insert pid (p_in x)" "q \<in> insert pid (p_in x)" "worker_file ph p = worker_file ph q"
    with live inv have "0 < p" "p < 2 ^ 63" "0 < q" "q < 2 ^ 63" by (auto simp: par_inv_def)
    with pq(3) show "p = q" by (simp add: worker_file_inject)
  qed
  ultimately have len: "length (filter ?ok d) = card (insert pid (p_in x))" by (metis card_image distinct_card)
  have "nparallel_end ph q d \<noteq> None" if "q \<in> insert pid (p_in x)" for q
  proof -
    have "q \<in> p_live x" using that live by blast
    with that inv' have "worker_file ph q \<in> set d" by (simp add: par_inv_def)
    then show ?thesis by (simp add: nparallel_end_def Remove_def)
  qed
  then show ?thesis unfolding k len by simp
qed

lemma demo_par:
  "par_run ''map'' \<lparr>p_dir = [''mr-worker-map-7'', ''pg.txt''], p_live = {9}, p_in = {}\<rparr>"
proof -
  let ?x = "\<lambda>d l i. \<lparr>p_dir = d, p_live = l, p_in = i\<rparr>"
  have name: "worker_file ''map'' 7 = ''mr-worker-map-7''" "worker_file ''map'' 9 = ''mr-worker-map-9''"
    by code_simp+
  have none: "scan_worker ''map'' ''pg.txt'' = None" by (simp add: scan_worker_def strip_def worker_prefix_def)
  have r0: "par_run ''map'' (?x [] {} {})" by (rule par_init) simp_all
  have "par_run ''map'' (?x [] {7} {})"
    using par_next [OF r0 par_start [of 7 "?x [] {} {}" "''map''"]] by simp
  from par_next [OF this par_enter [of 7 "?x [] {7} {}" "''map''" "[''mr-worker-map-7'']" 1]]
  have "par_run ''map'' (?x [''mr-worker-map-7''] {7} {7})"
    using scan_worker_file [of 7 "''map''"] by (simp add: nparallel_def name WriteFile_def is_alive_def)
  from par_next [OF this par_die [of 7 "?x [''mr-worker-map-7''] {7} {7}" "''map''"]]
  have "par_run ''map'' (?x [''mr-worker-map-7''] {} {})" by simp
  from par_next [OF this par_create [OF none, of "?x [''mr-worker-map-7''] {} {}"]]
  have "par_run ''map'' (?x [''mr-worker-map-7'', ''pg.txt''] {} {})" by (simp add: WriteFile_def)
  from par_next [OF this par_start [of 9 "?x [''mr-worker-map-7'', ''pg.txt''] {} {}" "''map''"]]
  show ?thesis by (simp add: name)
qed

theorem nparallel_counts_witness:
  "snd (nparallel ''map'' 9 (\<lambda>q. q \<in> {9}) [''mr-worker-map-7'', ''pg.txt'']) = 1"
proof -
  let ?x = "\<lparr>p_dir = [''mr-worker-map-7'', ''pg.txt''], p_live = {9}, p_in = {}\<rparr>"
  obtain d k where dk: "nparallel ''map'' 9 (\<lambda>q. q \<in> {9}) [''mr-worker-map-7'', ''pg.txt''] = (d, k)" by fastforce
  with nparallel_counts [OF demo_par, of 9 d k] show ?thesis by simp
qed

section \<open>Invocations of the counting application\<close>

text \<open>Any sequence of \<open>Map\<close> calls, each in the process given, every process with its own counter.\<close>

fun jobcount_run :: "int list \<Rightarrow> (int \<Rightarrow> int) \<Rightarrow> dir \<Rightarrow> dir" where
  "jobcount_run [] cnt d = d"
| "jobcount_run (pid # pids) cnt d =
     (let (n, d, kva) = jobcount_Map pid (cnt pid) d in jobcount_run pids (cnt(pid := n)) d)"

lemma job_file_prefix [simp]: "has_prefix (job_file pid k) job_prefix"
  by (simp add: has_prefix_def job_file_def)

lemma jobcount_run_files:
  assumes "\<forall>pid \<in> set pids. 0 \<le> pid" "\<And>pid. 0 \<le> cnt pid" "\<And>pid k. 0 \<le> pid \<Longrightarrow> cnt pid \<le> k \<Longrightarrow> job_file pid k \<notin> set d"
  shows "length (filter (\<lambda>f. has_prefix f job_prefix) (jobcount_run pids cnt d))
    = length (filter (\<lambda>f. has_prefix f job_prefix) d) + length pids"
  using assms
proof (induction pids arbitrary: cnt d)
  case (Cons pid pids)
  let ?f = "job_file pid (cnt pid)"
  have new: "WriteFile ?f d = d @ [?f]" using Cons.prems(1,3) by (simp add: WriteFile_def)
  have fresh: "job_file q k \<notin> set (d @ [?f])" if "0 \<le> q" "(cnt(pid := cnt pid + 1)) q \<le> k" for q k
  proof -
    have "cnt q \<le> k" "q \<noteq> pid \<or> k \<noteq> cnt pid" using that(2) by (auto split: if_splits)
    moreover have "0 \<le> k" using \<open>cnt q \<le> k\<close> Cons.prems(2) [of q] by simp
    ultimately show ?thesis using Cons.prems(3) [OF that(1), of k] parse_job_file [OF that(1), of k pid "cnt pid"] by auto
  qed
  have "length (filter (\<lambda>f. has_prefix f job_prefix) (jobcount_run pids (cnt(pid := cnt pid + 1)) (d @ [?f])))
      = length (filter (\<lambda>f. has_prefix f job_prefix) (d @ [?f])) + length pids"
    by (rule Cons.IH) (use Cons.prems(1,2) fresh in auto)
  then show ?case by (simp add: jobcount_Map_def new)
qed simp

text \<open>
  \<open>Reduce\<close> of the counting application returns the number of \<open>Map\<close> calls.  After any sequence of calls of \<open>Map\<close>, in any processes
  and with any repetitions, in a directory that had no such files, every call has left a file of its own, and \<open>Reduce\<close> returns their number.
\<close>

theorem jobcount_counts:
  assumes "\<forall>pid \<in> set pids. 0 \<le> pid" and "\<forall>f \<in> set d. \<not> has_prefix f job_prefix"
  shows "jobcount_Reduce (jobcount_run pids (\<lambda>_. 0) d) key values = fmt_int (int (length pids))"
proof -
  have "job_file pid k \<notin> set d" for pid k using assms(2) by auto
  moreover have "filter (\<lambda>f. has_prefix f job_prefix) d = []" using assms(2) by (simp add: filter_empty_conv)
  ultimately show ?thesis using jobcount_run_files [OF assms(1), of "\<lambda>_. 0" d] by (simp add: jobcount_Reduce_def)
qed

theorem jobcount_counts_witness:
  "jobcount_Reduce (jobcount_run [12, 7, 12, 12] (\<lambda>_. 0) [''pg.txt'']) ''a'' [''x''] = ''4''"
proof -
  have "jobcount_Reduce (jobcount_run [12, 7, 12, 12] (\<lambda>_. 0) [''pg.txt'']) ''a'' [''x''] = fmt_int (int (length [12, 7, 12, 12 :: int]))"
    by (rule jobcount_counts) (simp_all add: has_prefix_def job_prefix_def)
  moreover have "fmt_int (int (length [12, 7, 12, 12 :: int])) = ''4''" by code_simp
  ultimately show ?thesis by simp
qed

section \<open>Crashing does not change results\<close>

text \<open>A call of the crashing application that returns has the result of the one that does not crash, and it returns for two thirds of the
  random numbers.  So \<^verbatim>\<open>test-mr.sh\<close> can compare the output of one with that of the other.\<close>

lemma crash_Map_nocrash: "crash_Map itoa rr ms filename contents = (if rr < 330 then None else Some (nocrash_Map itoa filename contents))"
  by (simp add: crash_Map_def crash_maybeCrash_def nocrash_Map_def)

lemma crash_Reduce_nocrash: "crash_Reduce rr ms key values = (if rr < 330 then None else Some (nocrash_Reduce key values))"
  by (simp add: crash_Reduce_def crash_maybeCrash_def nocrash_Reduce_def)

end
