(* ===== verification/RpcService.thy ===== *)
theory RpcService
  imports LabRpc
begin

text \<open>
  How a Go object becomes a service of \<^verbatim>\<open>labrpc/labrpc.go\<close>: \<open>MakeService\<close> walks over the methods that reflection reports and keeps
  those that look like handlers.  Together with \<^verbatim>\<open>LabRpc\<close>, where a service is given by its table of handlers, this tells which
  methods of an object a call can reach.
\<close>

section \<open>Reflection\<close>

text \<open>
  What \<^verbatim>\<open>reflect\<close> reports of a method: its name, the package path (empty for an exported name), the number of its inputs with
  the receiver, whether the third input is a pointer, the number of its outputs, and the function to call.
\<close>

record ('w, 'a, 'r) Method =
  mt_Name :: string
  mt_PkgPath :: string
  mt_NumIn :: int
  mt_In2Ptr :: bool
  mt_NumOut :: int
  mt_Func :: "'w \<Rightarrow> 'a \<Rightarrow> 'w \<times> 'r"

text \<open>The object's type: its name and its methods, in the order of their names.\<close>

record ('w, 'a, 'r) Rtype =
  rt_Name :: string
  rt_Methods :: "('w, 'a, 'r) Method list"

definition looks_like_handler :: "('w, 'a, 'r) Method \<Rightarrow> bool" where
  "looks_like_handler m \<longleftrightarrow> \<not> (mt_PkgPath m \<noteq> [] \<or> mt_NumIn m \<noteq> 3 \<or> \<not> mt_In2Ptr m \<or> mt_NumOut m \<noteq> 0)"

fun MakeService_loop :: "('w, 'a, 'r) Method list \<Rightarrow> (string \<rightharpoonup> ('w \<Rightarrow> 'a \<Rightarrow> 'w \<times> 'r)) \<Rightarrow> (string \<rightharpoonup> ('w \<Rightarrow> 'a \<Rightarrow> 'w \<times> 'r))" where
  "MakeService_loop [] methods = methods"
| "MakeService_loop (m # ms) methods =
     MakeService_loop ms (if looks_like_handler m then methods(mt_Name m \<mapsto> mt_Func m) else methods)"

definition MakeService :: "('w, 'a, 'r) Rtype \<Rightarrow> ('w, 'a, 'r) Service" where
  "MakeService rcvr = \<lparr>svc_name = rt_Name rcvr, svc_methods = MakeService_loop (rt_Methods rcvr) Map.empty\<rparr>"

section \<open>Which methods a call reaches\<close>

lemma MakeService_loop_other: "f \<notin> mt_Name ` set ms \<Longrightarrow> MakeService_loop ms methods f = methods f"
  by (induction ms arbitrary: methods) auto

lemma MakeService_loop_lookup:
  assumes "distinct (map mt_Name ms)" "m \<in> set ms"
  shows "MakeService_loop ms methods (mt_Name m) = (if looks_like_handler m then Some (mt_Func m) else methods (mt_Name m))"
  using assms
proof (induction ms arbitrary: methods)
  case (Cons x ms)
  show ?case
  proof (cases "m = x")
    case True
    with Cons.prems(1) show ?thesis by (simp add: MakeService_loop_other)
  next
    case False
    with Cons.prems have "m \<in> set ms" "mt_Name m \<noteq> mt_Name x" by (auto simp: image_iff)
    with Cons show ?thesis by simp
  qed
qed simp

text \<open>Splitting at the last dot gives back the service and the method, if the method's name has none.\<close>

lemma LastIndex_dot: "CHR ''.'' \<notin> set m \<Longrightarrow> LastIndex (s @ CHR ''.'' # m) (CHR ''.'') = int (length s)"
proof -
  assume "CHR ''.'' \<notin> set m"
  then have "takeWhile (\<lambda>x. x \<noteq> CHR ''.'') (rev m @ CHR ''.'' # rev s) = rev m" by (subst takeWhile_append2) auto
  then show ?thesis by (simp add: LastIndex_def)
qed

definition named_request :: "string \<Rightarrow> string \<Rightarrow> reqMsg \<Rightarrow> bool" where
  "named_request s m req \<longleftrightarrow> rq_svcMeth req = s @ CHR ''.'' # m \<and> CHR ''.'' \<notin> set m"

lemma Server_dispatch_named:
  assumes "named_request s m req"
  shows "Server_dispatch cod rs req w = do {
     service \<leftarrow> rs_services rs s;
     (w', a, r, rep) \<leftarrow> Service_dispatch cod service m req w;
     Some (rs\<lparr>rs_count := rs_count rs + 1\<rparr>, w', a, r, rep) }"
proof -
  note n = assms [unfolded named_request_def]
  have "LastIndex (rq_svcMeth req) (CHR ''.'') = int (length s)" using n LastIndex_dot by simp
  moreover have "nat (int (length s) + 1) = Suc (length s)" by simp
  ultimately show ?thesis using n by (simp add: Server_dispatch_def go_upto_def go_from_def)
qed

text \<open>
  C21: Remote calls reach the handlers of an object and nothing else.  When an object's service has been added to a server, a call of \<open>T.m\<close>, where \<open>T\<close>
  is the object's type and \<open>m\<close> one of its methods, runs exactly that method on the decoded argument and returns its encoded
  reply, if the method is exported, takes an argument and a pointer, and has no result; for every other method the call ends the process.
\<close>

theorem dispatch_reaches_handlers:
  assumes "m \<in> set (rt_Methods rcvr)" and "distinct (map mt_Name (rt_Methods rcvr))" and "named_request (rt_Name rcvr) (mt_Name m) req"
    and "decArgs cod (rq_args req) = Some a" and "mt_Func m w a = (w', r)"
  shows "Server_dispatch cod (AddService rs (MakeService rcvr)) req w =
    (if mt_PkgPath m = [] \<and> mt_NumIn m = 3 \<and> mt_In2Ptr m \<and> mt_NumOut m = 0
     then Some ((AddService rs (MakeService rcvr))\<lparr>rs_count := rs_count rs + 1\<rparr>, w', a, r, \<lparr>rp_ok = True, rp_reply = encReply cod r\<rparr>)
     else None)"
proof -
  have "svc_methods (MakeService rcvr) (mt_Name m) = (if looks_like_handler m then Some (mt_Func m) else None)"
    using MakeService_loop_lookup [OF assms(2,1), of Map.empty] by (simp add: MakeService_def)
  then have "Service_dispatch cod (MakeService rcvr) (mt_Name m) req w =
      (if looks_like_handler m then Some (w', a, r, \<lparr>rp_ok = True, rp_reply = encReply cod r\<rparr>) else None)"
    using assms(4,5) by (simp add: Service_dispatch_def)
  then show ?thesis
    by (simp add: Server_dispatch_named [OF assms(3)] AddService_def looks_like_handler_def) (simp add: MakeService_def)
qed

text \<open>An object with a handler, a method that returns results, like \<open>Start\<close> of a Raft peer, and a method that is not exported.\<close>

definition demo_methods :: "(nat, nat, nat) Method list" where
  "demo_methods = [
     \<lparr>mt_Name = ''Add'', mt_PkgPath = [], mt_NumIn = 3, mt_In2Ptr = True, mt_NumOut = 0, mt_Func = (\<lambda>w a. (w + a, w + a))\<rparr>,
     \<lparr>mt_Name = ''Start'', mt_PkgPath = [], mt_NumIn = 2, mt_In2Ptr = False, mt_NumOut = 3, mt_Func = (\<lambda>w a. (0, 0))\<rparr>,
     \<lparr>mt_Name = ''reset'', mt_PkgPath = ''raft'', mt_NumIn = 3, mt_In2Ptr = True, mt_NumOut = 0, mt_Func = (\<lambda>w a. (0, 0))\<rparr>]"

definition len_codec :: "(nat, nat) codec" where
  "len_codec = \<lparr>encArgs = (\<lambda>n. Some (replicate n 0)), decArgs = (\<lambda>b. Some (length b)), zeroArgs = 0, encReply = (\<lambda>n. replicate n 0),
    decReply = (\<lambda>b. Some (length b))\<rparr>"

theorem dispatch_reaches_handlers_witness:
  "(\<exists>rs. Server_dispatch len_codec (AddService MakeServer (MakeService \<lparr>rt_Name = ''T'', rt_Methods = demo_methods\<rparr>))
         \<lparr>rq_endname = ''e'', rq_svcMeth = ''T.Add'', rq_args = [0, 0]\<rparr> 5 = Some (rs, 7, 2, 7, \<lparr>rp_ok = True, rp_reply = replicate 7 0\<rparr>))
     \<and> Server_dispatch len_codec (AddService MakeServer (MakeService \<lparr>rt_Name = ''T'', rt_Methods = demo_methods\<rparr>))
         \<lparr>rq_endname = ''e'', rq_svcMeth = ''T.Start'', rq_args = [0, 0]\<rparr> 5 = None"
proof -
  let ?T = "\<lparr>rt_Name = ''T'', rt_Methods = demo_methods\<rparr>" and ?req = "\<lambda>f. \<lparr>rq_endname = ''e'', rq_svcMeth = ''T.'' @ f, rq_args = [0, 0]\<rparr>"
  have d: "distinct (map mt_Name (rt_Methods ?T))" by (simp add: demo_methods_def)
  have nm: "named_request ''T'' ''Add'' (?req ''Add'')" "named_request ''T'' ''Start'' (?req ''Start'')" by (simp_all add: named_request_def)
  from dispatch_reaches_handlers [where rcvr = ?T and m = "demo_methods ! 0" and cod = len_codec and a = 2 and w = 5 and rs = MakeServer, OF _ d] nm(1)
  have "\<exists>rs. Server_dispatch len_codec (AddService MakeServer (MakeService ?T)) (?req ''Add'') 5 = Some (rs, 7, 2, 7, \<lparr>rp_ok = True, rp_reply = replicate 7 0\<rparr>)"
    by (simp add: demo_methods_def len_codec_def numeral_nat)
  moreover from dispatch_reaches_handlers [where rcvr = ?T and m = "demo_methods ! 1" and cod = len_codec and a = 2 and w = 5 and rs = MakeServer, OF _ d] nm(2)
  have "Server_dispatch len_codec (AddService MakeServer (MakeService ?T)) (?req ''Start'') 5 = None"
    by (simp add: demo_methods_def len_codec_def)
  ultimately show ?thesis by simp
qed

end
