(* ===== verification/TestSetup.thy ===== *)
theory TestSetup
  imports TestConfig "HOL-Library.Multiset"
begin

text \<open>
  What setting up a test and taking a group down do to the network: the composition of \<^verbatim>\<open>config.go\<close>, \<^verbatim>\<open>group.go\<close>, \<^verbatim>\<open>srv.go\<close> and \<^verbatim>\<open>labrpc.go\<close>.
  Also what the annotations of a test and the history it draws have to do with one another, and the shuffle of \<open>random_handles\<close>.
\<close>

section \<open>Loops\<close>

lemma for_each_upt:
  assumes "P 0 s" "\<And>i s. i < n \<Longrightarrow> P i s \<Longrightarrow> \<exists>s'. f i s = Some s' \<and> P (Suc i) s'"
  shows "\<exists>s'. for_each f [0..<n] s = Some s' \<and> P n s'"
  using assms(2)
proof (induction n)
  case 0
  with assms(1) show ?case by simp
next
  case (Suc n)
  then obtain s' where 1: "for_each f [0..<n] s = Some s'" "P n s'" by (meson less_SucI)
  with Suc.prems [of n s'] obtain s'' where "f n s' = Some s''" "P (Suc n) s''" by blast
  with 1(1) show ?case by (simp add: for_each_append)
qed

lemma for_each_map: "for_each f (map g xs) s = for_each (\<lambda>x. f (g x)) xs s"
proof (induction xs arbitrary: s)
  case (Cons x xs)
  then show ?case by (cases "f (g x) s") auto
qed simp

lemma for_each_keeps:
  assumes "\<And>x s s'. f x s = Some s' \<Longrightarrow> R s' = R s"
  shows "for_each f xs s = Some s' \<Longrightarrow> R s' = R s"
proof (induction xs arbitrary: s)
  case (Cons x xs)
  then obtain s1 where "f x s = Some s1" "for_each f xs s1 = Some s'" by (cases "f x s") auto
  with assms Cons.IH show ?case by metis
qed simp

section \<open>What the operations leave alone\<close>

text \<open>Everything of a network but what is enabled.\<close>

definition wiring :: "Network \<Rightarrow> (string \<rightharpoonup> ClientEnd) \<times> (string \<rightharpoonup> addr option) \<times> (string \<rightharpoonup> string option) \<times> bool \<times> bool" where
  "wiring nw = (nw_ends nw, nw_servers nw, nw_connections nw, nw_reliable nw, nw_longReordering nw)"

lemma wiring_Enable [simp]: "wiring (Enable nw e b) = wiring nw"
  by (simp add: wiring_def Enable_def)

lemma connect_out_wiring: "connect_out sg s to nw = Some nw' \<Longrightarrow> wiring nw' = wiring nw"
  unfolding connect_out_def by (rule for_each_keeps [where R = wiring]) (auto split: if_splits bind_splits)

lemma disconnect_out_wiring: "disconnect_out s to nw = Some nw' \<Longrightarrow> wiring nw' = wiring nw"
  unfolding disconnect_out_def by (rule for_each_keeps [where R = wiring]) (auto split: bind_splits)

lemma connect_wiring:
  assumes "connect sg nw i to = Some (nw', sg')"
  shows "wiring nw' = wiring nw"
proof -
  from assms obtain con s nw1 where "go_nth (sg_srvs sg) i = Some s" and 1: "connect_out (sg\<lparr>sg_connected := con\<rparr>) s to nw = Some nw1"
    "for_each (\<lambda>j nw. do {
         c \<leftarrow> IsConnected (sg\<lparr>sg_connected := con\<rparr>) j;
         if c then do {
           t \<leftarrow> go_nth (sg_srvs (sg\<lparr>sg_connected := con\<rparr>)) j;
           endname \<leftarrow> go_nth (ts_endNames t) i;
           Some (Enable nw endname True)
         } else Some nw
       }) to nw1 = Some nw'"
    unfolding connect_def Let_def Option.bind_eq_Some_conv by force
  from 1(2) have "wiring nw' = wiring nw1" by (rule for_each_keeps [rotated]) (auto split: if_splits bind_splits)
  with connect_out_wiring [OF 1(1)] show ?thesis by simp
qed

lemma disconnect_wiring:
  assumes "disconnect sg nw i from = Some (nw', sg')"
  shows "wiring nw' = wiring nw"
proof -
  from assms obtain s nw1 where "go_nth (sg_srvs sg) i = Some s" and 1: "disconnect_out s from nw = Some nw1"
    "for_each (\<lambda>j nw. do {
         t \<leftarrow> go_nth (sg_srvs sg) j;
         endname \<leftarrow> go_nth (ts_endNames t) i;
         Some (Enable nw endname False)
       }) from nw1 = Some nw'"
    unfolding disconnect_def Let_def Option.bind_eq_Some_conv by auto
  from 1(2) have "wiring nw' = wiring nw1" by (rule for_each_keeps [rotated]) (auto split: bind_splits)
  with disconnect_out_wiring [OF 1(1)] show ?thesis by simp
qed

section \<open>Making a server\<close>

text \<open>The ends of one server: made, named as drawn, each connected to its server.\<close>

definition wired :: "(int \<Rightarrow> string) \<Rightarrow> int \<Rightarrow> nat \<Rightarrow> (nat \<Rightarrow> string) \<Rightarrow> Network \<Rightarrow> Network \<Rightarrow> bool" where
  "wired itoa gid n nms nw nw' \<longleftrightarrow> dom (nw_ends nw') = dom (nw_ends nw) \<union> nms ` {..<n}
     \<and> (\<forall>j < n. connectionOf nw' (nms j) = Some (ServerName itoa gid (int j)))
     \<and> (\<forall>e. e \<notin> nms ` {..<n} \<longrightarrow> connectionOf nw' e = connectionOf nw e)
     \<and> nw_servers nw' = nw_servers nw \<and> nw_longReordering nw' = nw_longReordering nw"

lemma wired_0: "wired itoa gid 0 nms nw nw"
  by (simp add: wired_def)

lemma wired_Suc:
  assumes "wired itoa gid j nms nw nw1" "MakeEnd nw1 (nms j) = Some (nw2, e)" "nms j \<notin> nms ` {..<j}"
  shows "wired itoa gid (Suc j) nms nw (Connect nw2 (nms j) (ServerName itoa gid (int j)))"
proof -
  let ?nw = "Connect nw2 (nms j) (ServerName itoa gid (int j))"
  from assms(2) have e: "nw_ends ?nw = (nw_ends nw1)(nms j \<mapsto> \<lparr>ce_endname = nms j\<rparr>)" "nw_servers ?nw = nw_servers nw1"
      "nw_longReordering ?nw = nw_longReordering nw1"
    and c: "connectionOf ?nw x = (if x = nms j then Some (ServerName itoa gid (int j)) else connectionOf nw1 x)" for x
    by (auto simp: MakeEnd_def Connect_def connectionOf_def Let_def split: if_splits)
  from assms(3) have "nms i \<noteq> nms j" if "i < j" for i using that by (metis imageI lessThan_iff)
  with assms(1) show ?thesis unfolding wired_def e c by (auto simp: lessThan_Suc less_Suc_eq)
qed

lemma makeServer_effect:
  assumes inj: "inj_on nms {..<n}" and fresh: "\<And>j. j < n \<Longrightarrow> nw_ends nw (nms j) = None"
  shows "\<exists>nw'. \<exists>srv :: 'v tserver. makeServer itoa nms nw gid n = Some (nw', srv) \<and> wired itoa gid n nms nw nw' \<and> ts_endNames srv = map nms [0..<n]"
proof -
  let ?P = "\<lambda>j (nw', srv :: 'v tserver). wired itoa gid j nms nw nw' \<and> ts_endNames srv = map nms [0..<j] @ replicate (n - j) []"
  let ?f = "\<lambda>j (net, srv :: 'v tserver). do {
         (net, e) \<leftarrow> MakeEnd net (nms j);
         let net = Connect net (nms j) (ServerName itoa gid (int j));
         Some (net, srv\<lparr>ts_endNames := (ts_endNames srv)[j := nms j], ts_clntEnds := (ts_clntEnds srv)[j := e]\<rparr>)
       }"
  have step: "\<exists>s'. ?f j s = Some s' \<and> ?P (Suc j) s'" if "j < n" "?P j s" for j s
  proof -
    obtain nw1 srv where s: "s = (nw1, srv)" by fastforce
    with that have w: "wired itoa gid j nms nw nw1" and e: "ts_endNames srv = map nms [0..<j] @ replicate (n - j) []" by auto
    have nj: "nms j \<notin> nms ` {..<j}" using inj that(1) by (auto dest: inj_onD)
    with w fresh [OF that(1)] have "nms j \<notin> dom (nw_ends nw1)" by (auto simp: wired_def)
    then have "nw_ends nw1 (nms j) = None" by blast
    then obtain nw2 e where m: "MakeEnd nw1 (nms j) = Some (nw2, e)" by (simp add: MakeEnd_def Let_def)
    have "replicate (n - j) ([] :: string) = [] # replicate (n - Suc j) []" using that(1) by (simp add: Suc_diff_Suc flip: replicate_Suc)
    with e have "(ts_endNames srv)[j := nms j] = map nms [0..<Suc j] @ replicate (n - Suc j) []" by (simp add: list_update_append)
    with wired_Suc [OF w m nj] m s show ?thesis by simp
  qed
  let ?s0 = "(nw, \<lparr>ts_saved = None, ts_svcs = [], ts_endNames = replicate n [], ts_clntEnds = replicate n \<lparr>ce_endname = []\<rparr>\<rparr>)"
  have "?P 0 ?s0" by (simp add: wired_0)
  from for_each_upt [of ?P ?s0 n ?f, OF this step] show ?thesis unfolding makeServer_def by auto
qed

section \<open>Making and starting a group\<close>

definition names_ok :: "nat \<Rightarrow> (nat \<Rightarrow> nat \<Rightarrow> string) \<Rightarrow> bool" where
  "names_ok n nms \<longleftrightarrow> inj_on (\<lambda>(i, j). nms i j) ({..<n} \<times> {..<n})"

definition names_upto :: "nat \<Rightarrow> (nat \<Rightarrow> nat \<Rightarrow> string) \<Rightarrow> nat \<Rightarrow> string set" where
  "names_upto n nms k = (\<Union>i < k. nms i ` {..<n})"

lemma names_upto_Suc [simp]: "names_upto n nms (Suc k) = names_upto n nms k \<union> nms k ` {..<n}"
  by (auto simp: names_upto_def lessThan_Suc)

lemma names_upto_0 [simp]: "names_upto n nms 0 = {}"
  by (simp add: names_upto_def)

lemma names_ok_row: "names_ok n nms \<Longrightarrow> i < n \<Longrightarrow> inj_on (nms i) {..<n}"
  unfolding names_ok_def inj_on_def by fastforce

lemma names_ok_eq: "names_ok n nms \<Longrightarrow> i < n \<Longrightarrow> j < n \<Longrightarrow> i' < n \<Longrightarrow> j' < n \<Longrightarrow> nms i j = nms i' j' \<longleftrightarrow> i = i' \<and> j = j'"
  unfolding names_ok_def inj_on_def by fastforce

lemma names_ok_fresh: "names_ok n nms \<Longrightarrow> i < n \<Longrightarrow> j < n \<Longrightarrow> nms i j \<notin> names_upto n nms i"
  by (auto simp: names_upto_def names_ok_eq)

lemma wired_dom: "wired itoa gid n nms nw nw' \<Longrightarrow> dom (nw_ends nw') = dom (nw_ends nw) \<union> nms ` {..<n}"
  by (simp add: wired_def)

lemma makeSrvGrp_effect:
  assumes "names_ok n nms" "dom (nw_ends nw) = {}"
  shows "\<exists>nw'. \<exists>sg :: 'v ServerGrp. makeSrvGrp itoa nms nw gid n = Some (nw', sg) \<and> dom (nw_ends nw') = names_upto n nms n
    \<and> nw_longReordering nw' = nw_longReordering nw \<and> sg_gid sg = gid \<and> sg_connected sg = replicate n False
    \<and> sg_servernames sg = map (\<lambda>i. ServerName itoa gid (int i)) [0..<n]
    \<and> length (sg_srvs sg) = n \<and> (\<forall>i < n. ts_endNames (sg_srvs sg ! i) = map (nms i) [0..<n])"
proof -
  let ?P = "\<lambda>i (nw', srvs :: 'v tserver list). dom (nw_ends nw') = names_upto n nms i \<and> nw_longReordering nw' = nw_longReordering nw
    \<and> length srvs = i \<and> (\<forall>k < i. ts_endNames (srvs ! k) = map (nms k) [0..<n])"
  let ?f = "\<lambda>i (nw, srvs :: 'v tserver list). do {
         (nw, srv) \<leftarrow> makeServer itoa (nms i) nw gid n;
         Some (nw, srvs @ [srv])
       }"
  have step: "\<exists>s'. ?f i s = Some s' \<and> ?P (Suc i) s'" if "i < n" "?P i s" for i s
  proof -
    obtain nw1 srvs where s: "s = (nw1, srvs)" by fastforce
    with that(2) have P: "?P i (nw1, srvs)" by blast
    have "nw_ends nw1 (nms i j) = None" if "j < n" for j
      using P names_ok_fresh [OF assms(1) \<open>i < n\<close> that] by (auto simp: domIff)
    from makeServer_effect [OF names_ok_row [OF assms(1) that(1)] this, of itoa gid] obtain nw2 and srv :: "'v tserver" where
      m: "makeServer itoa (nms i) nw1 gid n = Some (nw2, srv)" "wired itoa gid n (nms i) nw1 nw2" "ts_endNames srv = map (nms i) [0..<n]"
      by blast
    with P s show ?thesis by (auto simp: wired_def nth_append less_Suc_eq)
  qed
  have "?P 0 (nw, [])" using assms(2) by simp
  from for_each_upt [of ?P "(nw, [])" n ?f, OF this step] obtain nw' srvs where
    "for_each ?f [0..<n] (nw, []) = Some (nw', srvs)" "?P n (nw', srvs)" by blast
  then show ?thesis unfolding makeSrvGrp_def by simp
qed

text \<open>The labrpc server that \<open>StartServer\<close> registers.\<close>

definition lab_of :: "('v \<Rightarrow> ('x, 'a, 'b) Service) \<Rightarrow> 'v list \<Rightarrow> ('x, 'a, 'b) RpcServer" where
  "lab_of mkService svcs = foldl (\<lambda>rs svc. AddService rs (mkService svc)) MakeServer svcs"

text \<open>The first \<open>k\<close> servers of the group have been started.\<close>

definition started :: "(int \<Rightarrow> string) \<Rightarrow> ('v \<Rightarrow> ('x, 'a, 'b) Service) \<Rightarrow> (nat \<Rightarrow> nat \<Rightarrow> string) \<Rightarrow> (int \<Rightarrow> nat \<Rightarrow> string) \<Rightarrow> int \<Rightarrow> nat \<Rightarrow> nat
    \<Rightarrow> ('r, 's, 'x, 'a, 'b) tenv \<Rightarrow> 'v ServerGrp \<Rightarrow> bool" where
  "started itoa mkService nms nms' gid n k te sg \<longleftrightarrow> length (sg_srvs sg) = n \<and> sg_gid sg = gid \<and> sg_connected sg = replicate n False
     \<and> (\<forall>i < n. ts_endNames (sg_srvs sg ! i) = map (if i < k then nms' (int i) else nms i) [0..<n])
     \<and> dom (nw_ends (te_net te)) = names_upto n nms n \<union> names_upto n (\<lambda>i. nms' (int i)) k
     \<and> (\<forall>i < k. \<forall>j < n. connectionOf (te_net te) (nms' (int i) j) = Some (ServerName itoa gid (int j)))
     \<and> (\<forall>i < k. \<exists>a < te_snext te. serverOf (te_net te) (ServerName itoa gid (int i)) = Some a
          \<and> te_labs te a = lab_of mkService (ts_svcs (sg_srvs sg ! i)))
     \<and> \<not> nw_longReordering (te_net te)"

lemma ServerName_inject: "inj itoa \<Longrightarrow> ServerName itoa gid i = ServerName itoa gid j \<longleftrightarrow> i = j"
  by (auto simp: ServerName_def dest: injD)

lemma serverOf_AddServer: "serverOf (AddServer nw s a) x = (if x = s then Some a else serverOf nw x)"
  by (simp add: serverOf_def AddServer_def)

lemma AddServer_frame [simp]:
  "nw_ends (AddServer nw s a) = nw_ends nw" "connectionOf (AddServer nw s a) = connectionOf nw" "nw_longReordering (AddServer nw s a) = nw_longReordering nw"
  by (simp_all add: AddServer_def connectionOf_def fun_eq_iff)

text \<open>What the code relies on when it starts a service: the service does not rewire the network.\<close>

definition mks_frame :: "('r, 's, 'x, 'a, 'b, 'v) mks \<Rightarrow> bool" where
  "mks_frame mks \<longleftrightarrow> (\<forall>ends g i a te. let te' = fst (mks ends g i a te) in
     te_net te' = te_net te \<and> te_labs te' = te_labs te \<and> te_snext te' = te_snext te)"

lemma StartServer_eq:
  fixes sg :: "'v ServerGrp" and srv :: "'v tserver"
  assumes frame: "mks_frame mks" and i: "k < length (sg_srvs sg)" and n: "length (ts_endNames (sg_srvs sg ! k)) = n"
    and m: "makeServer itoa nms (te_net te) (sg_gid sg) n = Some (nw, srv)"
  shows "\<exists>te' srv' svcs. StartServer itoa mkService nms mks sg te (int k) = Some (te', sg\<lparr>sg_srvs := (sg_srvs sg)[k := srv']\<rparr>)
    \<and> ts_endNames srv' = ts_endNames srv \<and> ts_svcs srv' = svcs
    \<and> te_net te' = AddServer nw (ServerName itoa (sg_gid sg) (int k)) (te_snext te)
    \<and> te_labs te' = (te_labs te)(te_snext te := lab_of mkService svcs) \<and> te_snext te' = te_snext te + 1"
proof -
  obtain te1 a where p: "newPersister (te\<lparr>te_net := nw\<rparr>) (case ts_saved (sg_srvs sg ! k) of Some p \<Rightarrow> Persister_Copy (te_pers te p) | None \<Rightarrow> MakePersister) = (te1, a)"
    and te1: "te_net te1 = nw" "te_labs te1 = te_labs te" "te_snext te1 = te_snext te" by (simp add: newPersister_def)
  obtain te2 svcs where v: "mks (ts_clntEnds srv) (sg_gid sg) (int k) a te1 = (te2, svcs)" by fastforce
  with frame te1 have te2: "te_net te2 = nw" "te_labs te2 = te_labs te" "te_snext te2 = te_snext te"
    unfolding mks_frame_def by (metis (full_types) fst_conv)+
  have "startServer itoa nms te (sg_srvs sg ! k) (sg_gid sg) = Some (te1, srv\<lparr>ts_saved := Some a\<rparr>)"
    using m n p by (simp add: startServer_def split: option.splits)
  then show ?thesis using i v te2
    by (auto simp: StartServer_def go_nth_int go_set_def lab_of_def intro!: exI [of _ "srv\<lparr>ts_saved := Some a, ts_svcs := svcs\<rparr>"])
qed

lemma started_Suc:
  fixes sg :: "'v ServerGrp"
  assumes names: "names_ok n nms" "names_ok n (\<lambda>i. nms' (int i))" "names_upto n nms n \<inter> names_upto n (\<lambda>i. nms' (int i)) n = {}"
    and "inj itoa" "mks_frame mks" and st: "started itoa mkService nms nms' gid n k te sg" and k: "k < n"
  shows "\<exists>te' sg'. StartServer itoa mkService (nms' (int k)) mks sg te (int k) = Some (te', sg')
    \<and> started itoa mkService nms nms' gid n (Suc k) te' sg'"
proof -
  have n: "length (ts_endNames (sg_srvs sg ! k)) = n" "k < length (sg_srvs sg)" "sg_gid sg = gid"
    and d: "dom (nw_ends (te_net te)) = names_upto n nms n \<union> names_upto n (\<lambda>i. nms' (int i)) k"
    using st k by (auto simp: started_def)
  have "nw_ends (te_net te) (nms' (int k) j) = None" if j: "j < n" for j
  proof -
    have "nms' (int k) j \<in> names_upto n (\<lambda>i. nms' (int i)) n" using j k by (auto simp: names_upto_def)
    with names(3) names_ok_fresh [OF names(2) k j] have "nms' (int k) j \<notin> dom (nw_ends (te_net te))" unfolding d by blast
    then show ?thesis by blast
  qed
  from makeServer_effect [OF names_ok_row [OF names(2) k] this, of itoa gid] obtain nw and srv :: "'v tserver" where
    m: "makeServer itoa (nms' (int k)) (te_net te) (sg_gid sg) n = Some (nw, srv)" and w: "wired itoa gid n (nms' (int k)) (te_net te) nw"
    and e: "ts_endNames srv = map (nms' (int k)) [0..<n]" unfolding n(3) by blast
  from StartServer_eq [OF assms(5) n(2,1) m, of mkService] obtain te' srv' where
    S: "StartServer itoa mkService (nms' (int k)) mks sg te (int k) = Some (te', sg\<lparr>sg_srvs := (sg_srvs sg)[k := srv']\<rparr>)"
    "ts_endNames srv' = map (nms' (int k)) [0..<n]" "te_net te' = AddServer nw (ServerName itoa gid (int k)) (te_snext te)"
    "te_labs te' = (te_labs te)(te_snext te := lab_of mkService (ts_svcs srv'))" "te_snext te' = te_snext te + 1"
    unfolding e n(3) by blast
  have conn: "connectionOf nw (nms' (int i) j) = Some (ServerName itoa gid (int j))" if "i < Suc k" "j < n" for i j
  proof (cases "i = k")
    case True
    with w that show ?thesis by (simp add: wired_def)
  next
    case False
    then have "nms' (int i) j \<notin> nms' (int k) ` {..<n}" using that k names_ok_eq [OF names(2), of i j k] by auto
    with w st that False show ?thesis by (simp add: wired_def started_def)
  qed
  have srv: "\<exists>a < te_snext te'. serverOf (te_net te') (ServerName itoa gid (int i)) = Some a
      \<and> te_labs te' a = lab_of mkService (ts_svcs ((sg_srvs sg)[k := srv'] ! i))" if "i < Suc k" for i
  proof (cases "i = k")
    case True
    with S n(2) show ?thesis by (simp add: serverOf_AddServer)
  next
    case False
    with that have "i < k" by simp
    with st obtain a where "a < te_snext te" "serverOf (te_net te) (ServerName itoa gid (int i)) = Some a"
      "te_labs te a = lab_of mkService (ts_svcs (sg_srvs sg ! i))" by (auto simp: started_def)
    moreover have "serverOf nw = serverOf (te_net te)" using w by (simp add: wired_def serverOf_def fun_eq_iff)
    ultimately show ?thesis using S False ServerName_inject [OF assms(4)] by (auto simp: serverOf_AddServer intro!: exI [of _ a])
  qed
  have "started itoa mkService nms nms' gid n (Suc k) te' (sg\<lparr>sg_srvs := (sg_srvs sg)[k := srv']\<rparr>)"
    unfolding started_def using st w S(2,3) conn srv n(2) k d by (auto simp: started_def wired_def nth_list_update)
  with S(1) show ?thesis by blast
qed

lemma start_effect:
  fixes sg :: "'v ServerGrp"
  assumes names: "names_ok n nms" "names_ok n (\<lambda>i. nms' (int i))" "names_upto n nms n \<inter> names_upto n (\<lambda>i. nms' (int i)) n = {}"
    and "inj itoa" "mks_frame mks" and st: "started itoa mkService nms nms' gid n 0 te sg"
  shows "\<exists>te' sg'. start itoa mkService nms' mks sg te = Some (te', sg') \<and> started itoa mkService nms nms' gid n n te' sg'"
proof -
  let ?P = "\<lambda>k (te, sg :: 'v ServerGrp). started itoa mkService nms nms' gid n k te sg"
  let ?f = "\<lambda>i (te, sg :: 'v ServerGrp). StartServer itoa mkService (nms' (int i)) mks sg te (int i)"
  have step: "\<exists>s'. ?f k s = Some s' \<and> ?P (Suc k) s'" if "k < n" "?P k s" for k s
    using started_Suc [OF assms(1-5), of mkService gid k "fst s" "snd s"] that by (auto simp: split_beta)
  have "?P 0 (te, sg)" using st by simp
  from for_each_upt [of ?P "(te, sg)" n ?f, OF this step] obtain te' sg' where
    1: "for_each ?f [0..<n] (te, sg) = Some (te', sg')" "started itoa mkService nms nms' gid n n te' sg'" by auto
  from st have "all_srvs sg = map int [0..<n]" by (simp add: all_srvs_def started_def)
  with 1 show ?thesis by (auto simp: start_def for_each_map)
qed

lemma started_grp_wf:
  fixes sg :: "'v ServerGrp"
  assumes "started itoa mkService nms nms' gid n n te sg" "names_ok n (\<lambda>i. nms' (int i))"
  shows "grp_wf sg \<and> (\<forall>i j. in_group sg i \<longrightarrow> in_group sg j \<longrightarrow> endname sg i j = nms' i (nat j))"
proof -
  have l: "length (sg_srvs sg) = n" "sg_connected sg = replicate n False" and
    e: "\<And>i. i < n \<Longrightarrow> ts_endNames (sg_srvs sg ! i) = map (nms' (int i)) [0..<n]"
    using assms(1) by (auto simp: started_def)
  have eq: "endname sg i j = nms' i (nat j)" if "in_group sg i" "in_group sg j" for i j
    using that l(1) e [of "nat i"] by (auto simp: in_group_def endname_def)
  have "i = i' \<and> j = j'" if "in_group sg i" "in_group sg j" "in_group sg i'" "in_group sg j'" "endname sg i j = endname sg i' j'" for i j i' j'
    using names_ok_eq [OF assms(2), of "nat i" "nat j" "nat i'" "nat j'"] that l(1) eq by (auto simp: in_group_def nat_less_iff)
  moreover have "length (ts_endNames s) = n" if "s \<in> set (sg_srvs sg)" for s
    using that e l(1) by (auto simp: in_set_conv_nth)
  ultimately show ?thesis using l eq by (auto simp: grp_wf_def)
qed

text \<open>\<open>ConnectAll\<close> links every server with every server and touches nothing else.\<close>

lemma ConnectAll_effect:
  fixes sg :: "'v ServerGrp"
  assumes wf: "grp_wf sg"
  shows "\<exists>nw' sg'. ConnectAll sg nw = Some (nw', sg') \<and> same_servers sg sg' \<and> wiring nw' = wiring nw \<and> sg_gid sg' = sg_gid sg
    \<and> (\<forall>i. in_group sg i \<longrightarrow> on_net sg' i) \<and> (\<forall>i j. in_group sg i \<longrightarrow> in_group sg j \<longrightarrow> linked sg nw' i j)"
proof -
  let ?n = "length (sg_srvs sg)"
  let ?P = "\<lambda>k (nw', sg'). same_servers sg sg' \<and> wiring nw' = wiring nw \<and> sg_gid sg' = sg_gid sg
    \<and> (\<forall>i. 0 \<le> i \<and> i < int k \<longrightarrow> on_net sg' i) \<and> (\<forall>i j. 0 \<le> i \<and> i < int k \<and> 0 \<le> j \<and> j < int k \<longrightarrow> linked sg nw' i j)"
  have step: "\<exists>s'. (case s of (nw1, sg1) \<Rightarrow> ConnectOne sg1 nw1 (int k)) = Some s' \<and> ?P (Suc k) s'" if k: "k < ?n" and P: "?P k s" for k s
  proof -
    obtain nw1 sg1 where s: "s = (nw1, sg1)" by fastforce
    with P have P: "?P k (nw1, sg1)" by blast
    then have same: "grp_wf sg1" "sg_srvs sg1 = sg_srvs sg" "endname sg1 = endname sg" "in_group sg1 = in_group sg"
      using same_servers_names [of sg sg1] by (auto simp: same_servers_def)
    have ig: "in_group sg1 (int k)" using k same by (simp add: in_group_def)
    have "j \<in> set (all_srvs sg1) \<longleftrightarrow> in_group sg j" for j using same by (auto simp: all_srvs_def in_group_def image_iff intro!: bexI [of _ "nat j"])
    with connect_effect [OF same(1) ig, of "all_srvs sg1" nw1] same obtain nw2 where
      2: "connect sg1 nw1 (int k) (all_srvs sg1) = Some (nw2, mark sg1 (int k) True)"
      "\<And>a b. in_group sg a \<Longrightarrow> in_group sg b \<Longrightarrow> linked sg nw2 a b =
        (linked sg nw1 a b \<or> a = int k \<and> on_net (mark sg1 (int k) True) b \<or> b = int k \<and> on_net (mark sg1 (int k) True) a)" by auto
    have on: "on_net (mark sg1 (int k) True) i" if "0 \<le> i" "i < int (Suc k)" for i
      using that P k on_net_mark [OF same(1) ig, of i True] same by (auto simp: in_group_def)
    moreover have "linked sg nw2 i j" if "0 \<le> i \<and> i < int (Suc k) \<and> 0 \<le> j \<and> j < int (Suc k)" for i j
    proof -
      from that k have "in_group sg i" "in_group sg j" by (auto simp: in_group_def)
      from 2(2) [OF this] on [of i] on [of j] that P show ?thesis by (cases "i = int k"; cases "j = int k") auto
    qed
    moreover have "same_servers sg (mark sg1 (int k) True)" 
      using same mark_simps(3) [of sg1 "int k" True] by (simp add: same_servers_def)
    ultimately show ?thesis using s 2(1) connect_wiring [OF 2(1)] P by (simp add: ConnectOne_def)
  qed
  have "?P 0 (nw, sg)" using wf by (auto simp: same_servers_def)
  from for_each_upt [of ?P "(nw, sg)" ?n "\<lambda>i (nw, sg). ConnectOne sg nw (int i)", OF this step] obtain nw' sg' where
    "for_each (\<lambda>i (nw, sg). ConnectOne sg nw (int i)) [0..<?n] (nw, sg) = Some (nw', sg')" "?P ?n (nw', sg')" by blast
  then show ?thesis by (simp add: ConnectAll_def all_srvs_def for_each_map in_group_def)
qed

section \<open>A configuration is ready\<close>

lemma inj_fmt_int: "inj fmt_int"
proof (rule injI)
  fix i j assume "fmt_int i = fmt_int j"
  with parse_fmt_int [of "[]" i] parse_fmt_int [of "[]" j] show "i = j" by (simp add: stops_def)
qed

lemma lookup_setGroup [simp]: "lookupGroup (setGroup gid sg gs) g = (if g = gid then Some sg else lookupGroup gs g)"
  by (induction gs) (auto simp: lookupGroup_def)

text \<open>A call of server \<open>i\<close> to server \<open>j\<close> of the group reaches the services of \<open>j\<close>.\<close>

definition reaches :: "(int \<Rightarrow> string) \<Rightarrow> ('v \<Rightarrow> ('x, 'a, 'b) Service) \<Rightarrow> ('r, 's, 'x, 'a, 'b) tenv \<Rightarrow> 'v ServerGrp \<Rightarrow> bool \<Rightarrow> int \<Rightarrow> int \<Rightarrow> bool" where
  "reaches itoa mkService te sg reliable i j \<longleftrightarrow> (\<exists>a.
     readEndnameInfo (te_net te) (endname sg i j) = (True, Some (ServerName itoa (sg_gid sg) j), Some a, reliable, False)
     \<and> te_labs te a = lab_of mkService (ts_svcs (sg_srvs sg ! nat j)))"

lemma StartServers_effect:
  fixes sg :: "'v ServerGrp"
  assumes names: "names_ok n nms" "names_ok n (\<lambda>i. nms' (int i))" "names_upto n nms n \<inter> names_upto n (\<lambda>i. nms' (int i)) n = {}"
    and "inj itoa" "mks_frame mks" and st: "started itoa mkService nms nms' gid n 0 te sg"
  shows "\<exists>te' sg'. StartServers itoa mkService nms' mks sg te = Some (te', sg') \<and> grp_wf sg' \<and> length (sg_srvs sg') = n \<and> sg_gid sg' = gid
    \<and> (\<forall>i. in_group sg' i \<longrightarrow> on_net sg' i)
    \<and> (\<forall>i j r. in_group sg' i \<longrightarrow> in_group sg' j \<longrightarrow> reaches itoa mkService (te'\<lparr>te_net := Reliable (te_net te') r\<rparr>) sg' r i j)"
proof -
  from start_effect [OF assms] obtain te1 sg1 where 1: "start itoa mkService nms' mks sg te = Some (te1, sg1)"
    "started itoa mkService nms nms' gid n n te1 sg1" by blast
  note wf = started_grp_wf [OF 1(2) names(2)]
  from ConnectAll_effect [OF conjunct1 [OF wf], of "te_net te1"] obtain nw sg2 where
    2: "ConnectAll sg1 (te_net te1) = Some (nw, sg2)" "same_servers sg1 sg2" "wiring nw = wiring (te_net te1)" "sg_gid sg2 = sg_gid sg1"
    "\<And>i. in_group sg1 i \<Longrightarrow> on_net sg2 i" "\<And>i j. in_group sg1 i \<Longrightarrow> in_group sg1 j \<Longrightarrow> linked sg1 nw i j" by blast
  note same = same_servers_names [OF 2(2)]
  have "reaches itoa mkService (te1\<lparr>te_net := Reliable nw r\<rparr>) sg2 r i j" if "in_group sg1 i" "in_group sg1 j" for i j r
  proof -
    from that 1(2) have ij: "nat i < n" "nat j < n" "0 \<le> i" "0 \<le> j" by (auto simp: in_group_def started_def)
    from 1(2) ij obtain a where "serverOf (te_net te1) (ServerName itoa gid j) = Some a" "te_labs te1 a = lab_of mkService (ts_svcs (sg_srvs sg1 ! nat j))"
      unfolding started_def by (metis int_nat_eq)
    moreover from 1(2) ij have "connectionOf (te_net te1) (nms' i (nat j)) = Some (ServerName itoa gid j)"
      unfolding started_def by (metis int_nat_eq)
    moreover have "\<not> nw_longReordering (te_net te1)" "sg_gid sg1 = gid" "sg_srvs sg2 = sg_srvs sg1"
      using 1(2) 2(2) by (auto simp: started_def same_servers_def)
    ultimately show ?thesis
      using that same wf 2(3,4) 2(6) [OF that]
      by (simp add: reaches_def readEndnameInfo_def wiring_def connectionOf_def serverOf_def Reliable_def isEnabled_def)
  qed
  moreover have "length (sg_srvs sg2) = n" "sg_gid sg2 = gid" "grp_wf sg2"
    using 1(2) 2(2,4) by (auto simp: started_def same_servers_def)
  ultimately show ?thesis using 1(1) 2(1,5) same by (simp add: StartServers_def)
qed

lemma MakeConfig_effect:
  fixes mks :: "('r, 's, 'x, 'a, 'b, 'v) mks"
  assumes "names_ok n nms" "names_ok n (\<lambda>i. nms' (int i))" "names_upto n nms n \<inter> names_upto n (\<lambda>i. nms' (int i)) n = {}" "mks_frame mks"
  shows "\<exists>cfg sg. MakeConfig fmt_int mkService nms nms' mks te now n reliable = Some cfg \<and> Group cfg GRP0 = Some sg
    \<and> grp_wf sg \<and> sg_N sg = int n \<and> cs_clerks (cf_Clnts cfg) = [] \<and> Config_IsReliable cfg = reliable
    \<and> (\<forall>i j. in_group sg i \<and> in_group sg j \<longrightarrow> on_net sg i \<and> reaches fmt_int mkService (cf_env cfg) sg reliable i j)"
proof -
  let ?te = "te\<lparr>te_net := MakeNetwork\<rparr>"
  from makeSrvGrp_effect [OF assms(1), of MakeNetwork fmt_int GRP0] obtain nw and sg :: "'v ServerGrp" where
    1: "makeSrvGrp fmt_int nms MakeNetwork GRP0 n = Some (nw, sg)" "dom (nw_ends nw) = names_upto n nms n" "\<not> nw_longReordering nw"
    "sg_gid sg = GRP0" "sg_connected sg = replicate n False" "length (sg_srvs sg) = n"
    "\<And>i. i < n \<Longrightarrow> ts_endNames (sg_srvs sg ! i) = map (nms i) [0..<n]" by (auto simp: MakeNetwork_def)
  then have "started fmt_int mkService nms nms' GRP0 n 0 (te\<lparr>te_net := nw\<rparr>) sg" by (simp add: started_def)
  from StartServers_effect [OF assms(1-3) inj_fmt_int assms(4) this] obtain te' sg' where
    2: "StartServers fmt_int mkService nms' mks sg (te\<lparr>te_net := nw\<rparr>) = Some (te', sg')" "grp_wf sg'" "length (sg_srvs sg') = n"
    "\<And>i. in_group sg' i \<Longrightarrow> on_net sg' i"
    "\<And>i j. in_group sg' i \<Longrightarrow> in_group sg' j \<Longrightarrow> reaches fmt_int mkService (te'\<lparr>te_net := Reliable (te_net te') reliable\<rparr>) sg' reliable i j"
    by blast
  then show ?thesis
    using 1(1) by (simp add: MakeConfig_def MakeGroupStart_def MakeGroup_def Group_def sg_N_def makeClnts_def Config_IsReliable_def IsReliable_def)
      (simp add: Reliable_def)
qed

text \<open>
  C31: A test starts from a complete network.  When the random end names are all different and starting a service does not rewire the network,
  \<open>MakeConfig\<close> with \<open>n\<close> servers does not panic and yields a configuration whose group 0 has \<open>n\<close> servers, all on the network, with one end of its own name
  from every server to every server.  Each end is enabled and leads to the services of exactly the server it is meant for, over a network that is
  reliable exactly when asked for, and no client exists yet.
\<close>

theorem MakeConfig_ready:
  fixes mks :: "('r, 's, 'x, 'a, 'b, 'v) mks"
  assumes "names_ok n nms" "names_ok n (\<lambda>i. nms' (int i))" "names_upto n nms n \<inter> names_upto n (\<lambda>i. nms' (int i)) n = {}" "mks_frame mks"
  shows "\<exists>cfg sg. MakeConfig fmt_int mkService nms nms' mks te now n reliable = Some cfg \<and> Group cfg GRP0 = Some sg
    \<and> grp_wf sg \<and> sg_N sg = int n \<and> cs_clerks (cf_Clnts cfg) = [] \<and> Config_IsReliable cfg = reliable
    \<and> (\<forall>i j. in_group sg i \<and> in_group sg j \<longrightarrow> on_net sg i \<and> reaches fmt_int mkService (cf_env cfg) sg reliable i j)"
  using MakeConfig_effect [OF assms] .

definition demo_nms :: "nat \<Rightarrow> nat \<Rightarrow> string" where
  "demo_nms i j = replicate (2 * i + j) CHR ''a''"

definition demo_nms' :: "int \<Rightarrow> nat \<Rightarrow> string" where
  "demo_nms' i j = CHR ''b'' # demo_nms (nat i) j"

theorem MakeConfig_ready_witness:
  "\<exists>(cfg :: (nat, nat, unit, unit, unit, nat) Config) sg.
    MakeConfig fmt_int (\<lambda>v. \<lparr>svc_name = ''s'', svc_methods = Map.empty\<rparr>) demo_nms demo_nms' (\<lambda>ends g i a te. (te, [nat i])) demo_te 0 2 False = Some cfg
    \<and> Group cfg GRP0 = Some sg \<and> sg_N sg = 2 \<and> \<not> Config_IsReliable cfg
    \<and> reaches fmt_int (\<lambda>v. \<lparr>svc_name = ''s'', svc_methods = Map.empty\<rparr>) (cf_env cfg) sg False 0 1"
proof -
  let ?mks = "\<lambda>ends g i a te. (te, [nat i]) :: (nat, nat, unit, unit, unit) tenv \<times> nat list"
  have two: "{..<2} = {0, 1 :: nat}" by auto
  have ok: "names_ok 2 demo_nms" "names_ok 2 (\<lambda>i. demo_nms' (int i))"
    unfolding names_ok_def inj_on_def two demo_nms_def demo_nms'_def by auto
  have disj: "names_upto 2 demo_nms 2 \<inter> names_upto 2 (\<lambda>i. demo_nms' (int i)) 2 = {}"
    unfolding names_upto_def two demo_nms_def demo_nms'_def by (auto simp: numeral_2_eq_2)
  have "mks_frame ?mks" by (simp add: mks_frame_def)
  from MakeConfig_ready [OF ok disj this, of "\<lambda>v. \<lparr>svc_name = ''s'', svc_methods = Map.empty\<rparr>" demo_te 0 False] show ?thesis
    by (force simp: in_group_def sg_N_def)
qed

section \<open>A group leaves\<close>

definition same_ends :: "'v ServerGrp \<Rightarrow> 'v ServerGrp \<Rightarrow> bool" where
  "same_ends sg sg' \<longleftrightarrow> grp_wf sg' \<and> endname sg' = endname sg \<and> length (sg_srvs sg') = length (sg_srvs sg) \<and> sg_gid sg' = sg_gid sg"

lemma same_ends_replace:
  assumes "same_ends sg sg1" "k < length (sg_srvs sg)" "ts_endNames s = ts_endNames (sg_srvs sg1 ! k)"
  shows "same_ends sg (sg1\<lparr>sg_connected := (sg_connected sg1)[k := b], sg_srvs := (sg_srvs sg1)[k := s]\<rparr>)"
proof -
  let ?sg = "sg1\<lparr>sg_connected := (sg_connected sg1)[k := b], sg_srvs := (sg_srvs sg1)[k := s]\<rparr>"
  from assms have "ts_endNames ((sg_srvs sg1)[k := s] ! i) = ts_endNames (sg_srvs sg1 ! i)" for i
    by (cases "i = k") (auto simp: same_ends_def)
  then have e: "endname ?sg = endname sg1" by (simp add: endname_def fun_eq_iff)
  moreover have "in_group ?sg = in_group sg1" by (simp add: in_group_def fun_eq_iff)
  moreover have "length (ts_endNames s') = length (sg_srvs sg1)" if "s' \<in> set ((sg_srvs sg1)[k := s])" for s'
    using set_update_subset_insert [of "sg_srvs sg1" k s] that assms by (auto simp: same_ends_def grp_wf_def dest!: subsetD)
  ultimately show ?thesis using assms(1) by (auto simp: same_ends_def grp_wf_def)
qed

lemma shutdownServer_frame:
  assumes "\<And>v te. te_net (kill v te) = te_net te"
  shows "te_net (fst (shutdownServer kill te s)) = te_net te \<and> ts_endNames (snd (shutdownServer kill te s)) = ts_endNames s"
proof -
  have "te_net (fold kill vs te') = te_net te'" for vs te' using assms by (induction vs arbitrary: te') auto
  then show ?thesis by (auto simp: shutdownServer_def newPersister_def Let_def split: option.splits)
qed

text \<open>The first \<open>k\<close> servers are gone: their names lead nowhere and they are linked to nobody.\<close>

definition gone :: "(int \<Rightarrow> string) \<Rightarrow> 'v ServerGrp \<Rightarrow> Network \<Rightarrow> nat \<Rightarrow> ('r, 's, 'x, 'a, 'b) tenv \<Rightarrow> 'v ServerGrp \<Rightarrow> bool" where
  "gone itoa sg nw k te sg' \<longleftrightarrow> same_ends sg sg'
     \<and> (\<forall>s. serverOf (te_net te) s = (if \<exists>i < k. s = ServerName itoa (sg_gid sg) (int i) then None else serverOf nw s))
     \<and> (\<forall>i j. in_group sg i \<and> in_group sg j \<and> (i < int k \<or> j < int k) \<longrightarrow> \<not> linked sg (te_net te) i j)"

lemma gone_Suc:
  assumes kill: "\<And>v te. te_net (kill v te) = te_net te" and g: "gone itoa sg nw k te sg1" and k: "k < length (sg_srvs sg)"
  shows "\<exists>te' sg'. ShutdownServer itoa kill sg1 te (int k) = Some (te', sg') \<and> gone itoa sg nw (Suc k) te' sg'"
proof -
  from g have same: "grp_wf sg1" "endname sg1 = endname sg" "length (sg_srvs sg1) = length (sg_srvs sg)" "sg_gid sg1 = sg_gid sg"
    and ig: "in_group sg1 = in_group sg" by (auto simp: gone_def same_ends_def in_group_def fun_eq_iff)
  have mem: "j \<in> set (all_srvs sg1) \<longleftrightarrow> in_group sg j" for j
    using same by (auto simp: all_srvs_def in_group_def image_iff intro!: bexI [of _ "nat j"])
  have "in_group sg1 (int k)" using k ig by (simp add: in_group_def)
  from disconnect_effect [OF same(1) this, of "all_srvs sg1" "te_net te"] mem ig same(2) obtain nw1 where
    1: "disconnect sg1 (te_net te) (int k) (all_srvs sg1) = Some (nw1, mark sg1 (int k) False)"
    "\<And>a b. in_group sg a \<Longrightarrow> in_group sg b \<Longrightarrow> linked sg nw1 a b = (linked sg (te_net te) a b \<and> a \<noteq> int k \<and> b \<noteq> int k)" by auto
  let ?nw = "DeleteServer nw1 (ServerName itoa (sg_gid sg) (int k))"
  obtain te' s where s: "shutdownServer kill (te\<lparr>te_net := ?nw\<rparr>) (sg_srvs sg1 ! k) = (te', s)" by fastforce
  with shutdownServer_frame [of kill "te\<lparr>te_net := ?nw\<rparr>" "sg_srvs sg1 ! k", OF kill] have
    te': "te_net te' = ?nw" "ts_endNames s = ts_endNames (sg_srvs sg1 ! k)" by auto
  let ?sg = "sg1\<lparr>sg_connected := (sg_connected sg1)[k := False], sg_srvs := (sg_srvs sg1)[k := s]\<rparr>"
  have eq: "ShutdownServer itoa kill sg1 te (int k) = Some (te', ?sg)"
    using 1(1) s same k by (simp add: ShutdownServer_def go_nth_int go_set_def)
  have "nw_servers nw1 = nw_servers (te_net te)" using disconnect_wiring [OF 1(1)] by (simp add: wiring_def)
  then have "serverOf (te_net te') x = (if x = ServerName itoa (sg_gid sg) (int k) then None else serverOf (te_net te) x)" for x
    by (simp add: te' serverOf_def DeleteServer_def)
  moreover have "linked sg (te_net te') a b = linked sg nw1 a b" for a b by (simp add: te' DeleteServer_def isEnabled_def)
  moreover have "i < int (Suc k) \<longleftrightarrow> i < int k \<or> i = int k" for i by auto
  moreover have "same_ends sg ?sg" using g te' k by (intro same_ends_replace) (auto simp: gone_def)
  ultimately have "gone itoa sg nw (Suc k) te' ?sg"
    using g 1(2) unfolding gone_def less_Suc_eq by auto
  with eq show ?thesis by blast
qed

lemma Shutdown_effect:
  assumes "\<And>v te. te_net (kill v te) = te_net te" "grp_wf sg"
  shows "\<exists>te' sg'. Shutdown itoa kill sg te = Some (te', sg') \<and> gone itoa sg (te_net te) (length (sg_srvs sg)) te' sg'"
proof -
  let ?P = "\<lambda>k (te', sg'). gone itoa sg (te_net te) k te' sg'"
  let ?f = "\<lambda>i (te, sg). ShutdownServer itoa kill sg te (int i)"
  have step: "\<exists>s'. ?f k s = Some s' \<and> ?P (Suc k) s'" if "k < length (sg_srvs sg)" "?P k s" for k s
    using gone_Suc [of kill itoa sg "te_net te" k "fst s" "snd s", OF assms(1)] that by (auto simp: split_beta)
  have "?P 0 (te, sg)" using assms(2) by (auto simp: gone_def same_ends_def in_group_def)
  from for_each_upt [of ?P "(te, sg)" _ ?f, OF this step] show ?thesis by (auto simp: Shutdown_def all_srvs_def for_each_map)
qed

text \<open>
  A group that leaves is gone.  \<open>ExitGroup\<close> on a well-formed group does not panic; afterwards the configuration no longer knows the group and
  still knows every other one, the names of the group's servers lead nowhere while every other server stays registered, and no server of the group can
  call, or be called by, another one.
\<close>

theorem ExitGroup_removes:
  fixes cfg :: "('r, 's, 'x, 'a, 'b, 'v) Config"
  assumes "\<And>v te. te_net (kill v te) = te_net te" "Group cfg gid = Some sg" "grp_wf sg"
  shows "\<exists>cfg'. ExitGroup itoa kill cfg gid = Some cfg' \<and> (\<forall>g. Group cfg' g = (if g = gid then None else Group cfg g))
    \<and> (\<forall>s. serverOf (cf_net cfg') s = (if \<exists>i. in_group sg i \<and> s = ServerName itoa (sg_gid sg) i then None else serverOf (cf_net cfg) s))
    \<and> (\<forall>i j. in_group sg i \<and> in_group sg j \<longrightarrow> \<not> linked sg (cf_net cfg') i j)"
proof -
  from Shutdown_effect [of kill sg itoa "cf_env cfg", OF assms(1,3)] obtain te' sg' where
    1: "Shutdown itoa kill sg (cf_env cfg) = Some (te', sg')" "gone itoa sg (cf_net cfg) (length (sg_srvs sg)) te' sg'" by blast
  have ex: "(\<exists>i < length (sg_srvs sg). s = ServerName itoa (sg_gid sg) (int i)) \<longleftrightarrow> (\<exists>i. in_group sg i \<and> s = ServerName itoa (sg_gid sg) i)" for s
    unfolding in_group_def by (metis of_nat_0_le_iff of_nat_less_iff zero_le_imp_eq_int)
  have look: "lookupGroup (deleteGroup gs gid) g = (if g = gid then None else lookupGroup gs g)" for gs :: "'v Groups" and g
    by (induction gs) (auto simp: lookupGroup_def deleteGroup_def)
  show ?thesis using assms(2) 1 by (simp add: ExitGroup_def Group_def look gone_def ex in_group_def)
qed

theorem ExitGroup_removes_witness:
  "\<exists>cfg'. ExitGroup fmt_int (\<lambda>v te. te) \<lparr>cf_Clnts = makeClnts, cf_Groups = [(0, demo_group)], cf_env = demo_te, cf_failed = False, cf_start = 0,
     cf_t0 = 0, cf_rpcs0 = 0, cf_ops = 0\<rparr> 0 = Some cfg' \<and> Group cfg' 0 = None"
  using ExitGroup_removes [of "\<lambda>v te. te" "\<lparr>cf_Clnts = makeClnts, cf_Groups = [(0, demo_group)], cf_env = demo_te, cf_failed = False, cf_start = 0,
     cf_t0 = 0, cf_rpcs0 = 0, cf_ops = 0\<rparr>" 0 demo_group fmt_int] demo_group_wf by (force simp: Group_def lookupGroup_def)

section \<open>Shuffling\<close>

lemma random_swap_frame:
  "i < length sa \<Longrightarrow> rnd i < length sa \<Longrightarrow> mset (random_swap rnd sa i) = mset sa" "length (random_swap rnd sa i) = length sa"
  by (simp_all add: random_swap_def Let_def mset_swap)

lemma shuffle_length [simp]: "length (foldl (random_swap rnd) sa ks) = length sa"
  by (induction ks arbitrary: sa) (auto simp: random_swap_frame)

lemma shuffle_mset: "(\<And>i. rnd i \<le> i) \<Longrightarrow> m \<le> length sa \<Longrightarrow> mset (foldl (random_swap rnd) sa [0..<m]) = mset sa"
proof (induction m)
  case (Suc m)
  then show ?case using random_swap_frame(1) [of m "foldl (random_swap rnd) sa [0..<m]" rnd] le_less_trans [of "rnd m" m] by simp
qed simp

lemma random_swap_append: "i < length sa \<Longrightarrow> rnd i < length sa \<Longrightarrow> random_swap rnd (sa @ ys) i = random_swap rnd sa i @ ys"
  by (simp add: random_swap_def Let_def nth_append list_update_append)

lemma shuffle_append:
  assumes "\<And>i. rnd i \<le> i" "m \<le> length sa"
  shows "foldl (random_swap rnd) (sa @ ys) [0..<m] = foldl (random_swap rnd) sa [0..<m] @ ys"
  using assms(2)
proof (induction m)
  case (Suc m)
  then have "rnd m < length sa" using assms(1) [of m] by simp
  with Suc show ?case by (simp add: random_swap_append)
qed simp

lemma shuffle_cong: "(\<And>i. i < m \<Longrightarrow> rnd i = rnd' i) \<Longrightarrow> foldl (random_swap rnd) sa [0..<m] = foldl (random_swap rnd') sa [0..<m]"
  by (intro foldl_cong) (auto simp: random_swap_def)

lemma shuffle_onto: "mset p = mset sa \<Longrightarrow> \<exists>rnd. (\<forall>i. rnd i \<le> i) \<and> foldl (random_swap rnd) sa [0..<length sa] = p"
proof (induction sa arbitrary: p rule: rev_induct)
  case Nil
  then show ?case by (auto intro!: exI [of _ "\<lambda>_. 0"])
next
  case (snoc x sa)
  let ?n = "length sa"
  have len: "length p = Suc ?n" using mset_eq_length [OF snoc.prems] by simp
  have "x \<in> set p" using mset_eq_setD [OF snoc.prems] by simp
  then obtain j where j: "j < length p" "p ! j = x" by (auto simp: in_set_conv_nth)
  let ?p = "p[?n := p ! j, j := p ! ?n]"
  have "?p ! ?n = x" using j len by (cases "j = ?n") auto
  then have q: "?p = take ?n ?p @ [x]" using len take_Suc_conv_app_nth [of ?n ?p] by simp
  have "mset ?p = mset p" using j len mset_swap [of j p ?n] by simp
  with snoc.prems q have "mset (take ?n ?p) = mset sa" by (metis add_right_cancel mset_append)
  from snoc.IH [OF this] obtain rnd where rnd: "\<And>i. rnd i \<le> i" "foldl (random_swap rnd) sa [0..<?n] = take ?n ?p" by blast
  define r where "r = rnd(?n := j)"
  have r: "r ?n = j" "\<And>i. i < ?n \<Longrightarrow> r i = rnd i" by (auto simp: r_def)
  have le: "r i \<le> i" for i using rnd(1) j len by (auto simp: r_def)
  have "foldl (random_swap r) (sa @ [x]) [0..<?n] = foldl (random_swap rnd) sa [0..<?n] @ [x]"
    using shuffle_append [of r ?n sa "[x]", OF le] shuffle_cong [of ?n r rnd sa, OF r(2)] by simp
  then have "foldl (random_swap r) (sa @ [x]) [0..<?n] = ?p" using rnd(2) q by simp
  moreover have "random_swap r ?p ?n = p"
    using j len by (auto simp: random_swap_def Let_def r(1) intro!: nth_equalityI) (auto simp: nth_list_update)
  ultimately show ?case using le by (intro exI [of _ r]) simp
qed

text \<open>
  \<open>random_handles\<close> returns the handles in some order, and by the choice of the random numbers \<^verbatim>\<open>rand.Intn(i+1)\<close> it can return them in every order: its possible
  results are exactly the permutations of its argument.
\<close>

theorem random_handles_permutations:
  "{random_handles rnd kvh |rnd. \<forall>i. rnd i \<le> i} = {p. mset p = mset kvh}"
  using shuffle_mset [of _ "length kvh" kvh] shuffle_onto [of _ kvh] by (fastforce simp: random_handles_def Let_def)

section \<open>The history that is drawn\<close>

text \<open>
  The visualization of the client operations is not overwritten.  \<open>checkPorcupine\<close> fails a test exactly when the checker finds the history illegal,
  and when it has drawn the history, the \<open>Cleanup\<close> at the end of the test draws nothing more and leaves no annotations for the next test.
\<close>

theorem history_drawn_once:
  assumes "checkPorcupine check enabled opened vis log nsec ann = ((ann', drawn), ok)"
  shows "(ok \<longleftrightarrow> check log nsec \<noteq> PorcIllegal)
    \<and> (drawn \<noteq> None \<longrightarrow> Config_Cleanup kill vis' cfg ann' now = Done (cfg', ann'', drawn') \<longrightarrow>
         drawn' = None \<and> annotation ann'' = clear (annotation ann'))"
proof -
  have r: "OpLog_Read log = log" by (simp add: OpLog_Read_def)
  have fin: "an_finalized (annotation ann')" if "drawn \<noteq> None"
    using assms that by (auto simp: checkPorcupine_def FinalizeAnnotations_def finalize_def Let_def split: if_splits prod.splits)
  have "cleanup f e en op od t t' (annotation ann') = (clear (annotation ann'), None)" if "drawn \<noteq> None" for f e en op od t t'
    using fin [OF that] by (simp add: cleanup_def)
  moreover have "ok \<longleftrightarrow> check log nsec \<noteq> PorcIllegal"
    using assms by (auto simp: checkPorcupine_def r Let_def split: if_splits prod.splits)
  ultimately show ?thesis
    by (cases "clnts_cleanup (cf_Clnts cfg) (cf_net cfg)") (auto simp: Config_Cleanup_def CheckTimeout_def split: if_splits prod.splits)
qed

definition demo_cfg :: "(nat, nat, unit, unit, unit, unit) Config" where
  "demo_cfg = \<lparr>cf_Clnts = makeClnts, cf_Groups = [], cf_env = demo_te, cf_failed = True, cf_start = 0, cf_t0 = 0, cf_rpcs0 = 0, cf_ops = 0\<rparr>"

theorem history_drawn_once_witness:
  "\<exists>ann' drawn cfg' ann2 drawn'. checkPorcupine (\<lambda>_ _. PorcIllegal) [] True ([], 1, 2) [] 0 astate_init = ((ann', Some drawn), False)
    \<and> Config_Cleanup (\<lambda>v te. te) ([], True, [], 3, 4) demo_cfg ann' 5 = Done (cfg', ann2, drawn') \<and> drawn' = None"
proof -
  obtain ann' drawn where 1: "checkPorcupine (\<lambda>_ _. PorcIllegal) [] True ([], 1, 2) [] 0 astate_init = ((ann', Some drawn), False)"
    by (simp add: checkPorcupine_def FinalizeAnnotations_def finalize_def)
  obtain cfg' ann2 drawn' where 2: "Config_Cleanup (\<lambda>v te. te) ([], True, [], 3, 4) demo_cfg ann' 5 = Done (cfg', ann2, drawn')"
    by (cases "cleanup True ''test failed'' [] True [] 3 4 (annotation ann')")
      (simp add: Config_Cleanup_def demo_cfg_def clnts_cleanup_def makeClnts_def CheckTimeout_def)
  from history_drawn_once [OF 1, of "\<lambda>v te. te" "([], True, [], 3, 4)" demo_cfg 5 cfg' ann2 drawn'] 1 2 show ?thesis by auto
qed

end
