(* ===== verification/LabGob.thy ===== *)
theory LabGob
  imports Prelude
begin

text \<open>
  The checks that \<^verbatim>\<open>labgob/labgob.go\<close> wraps around Go's gob coder: \<open>checkType\<close> complains about field names that gob
  would silently drop, once per type, and \<open>checkDefault\<close> about decoding into variables that are not zero.
  What \<^verbatim>\<open>reflect\<close> shows of the types of a program is a list of descriptions, a \<^verbatim>\<open>reflect.Type\<close> being a position in it,
  so types may be recursive; what it shows of a value is a tree.  Field names are ASCII.  The gob coder is a parameter.
\<close>

section \<open>Types and values under reflection\<close>

text \<open>\<open>RElem\<close> is a slice, an array or a pointer.\<close>

datatype rtype = RStruct string "(string \<times> nat) list" | RElem nat | RMap nat nat | RBasic

definition typeAt :: "rtype list \<Rightarrow> nat \<Rightarrow> rtype" where
  "typeAt env t = (if t < length env then env ! t else RBasic)"

text \<open>\<open>GBasic tname zero\<close> is a boolean, number or string of a type of that name; \<open>GOther\<close> is a value of any other kind.\<close>

datatype gval = GStruct "(string \<times> gval) list" | GPtr "gval option" | GBasic string bool | GOther

datatype warning = LowerCase string string | NonDefault string

record labgob =
  lg_checked :: "nat set"
  lg_errorCount :: int
  lg_out :: "warning list"

definition labgob_init :: labgob where
  "labgob_init = \<lparr>lg_checked = {}, lg_errorCount = 0, lg_out = []\<rparr>"

section \<open>checkType\<close>

definition isUpperFirst :: "string \<Rightarrow> bool" where
  "isUpperFirst name = (case name of [] \<Rightarrow> False | c # _ \<Rightarrow> 65 \<le> (of_char c :: nat) \<and> (of_char c :: nat) \<le> 90)"

definition checkField :: "string \<Rightarrow> string \<Rightarrow> labgob \<Rightarrow> labgob" where
  "checkField tname fname g =
     (if isUpperFirst fname then g
      else g\<lparr>lg_out := lg_out g @ [LowerCase fname tname], lg_errorCount := lg_errorCount g + 1\<rparr>)"

text \<open>The first argument bounds the depth of the recursion; the number of types is enough.\<close>

function (sequential) checkType :: "nat \<Rightarrow> rtype list \<Rightarrow> nat \<Rightarrow> labgob \<Rightarrow> labgob option"
  and checkFields :: "nat \<Rightarrow> rtype list \<Rightarrow> string \<Rightarrow> (string \<times> nat) list \<Rightarrow> labgob \<Rightarrow> labgob option" where
  "checkType 0 env t g = None"
| "checkType (Suc n) env t g =
     (if t \<in> lg_checked g then Some g
      else let g = g\<lparr>lg_checked := insert t (lg_checked g)\<rparr>
           in case typeAt env t of
                RStruct tname fs \<Rightarrow> checkFields n env tname fs g
              | RElem e \<Rightarrow> checkType n env e g
              | RMap e k \<Rightarrow> do { g \<leftarrow> checkType n env e g; checkType n env k g }
              | RBasic \<Rightarrow> Some g)"
| "checkFields n env tname [] g = Some g"
| "checkFields n env tname ((fname, ft) # fs) g =
     do { g \<leftarrow> checkType n env ft (checkField tname fname g); checkFields n env tname fs g }"
  by pat_completeness auto
termination
  by (relation "measures [\<lambda>x. case x of Inl (n, _) \<Rightarrow> n | Inr (n, _) \<Rightarrow> n,
        \<lambda>x. case x of Inl _ \<Rightarrow> 0 | Inr (_, _, _, fs, _) \<Rightarrow> Suc (length fs)]") auto

section \<open>checkDefault\<close>

definition warnDefault :: "string \<Rightarrow> string \<Rightarrow> labgob \<Rightarrow> labgob" where
  "warnDefault name tname g =
     g\<lparr>lg_out := (if lg_errorCount g < 1 then lg_out g @ [NonDefault (if name = [] then tname else name)] else lg_out g),
       lg_errorCount := lg_errorCount g + 1\<rparr>"

fun checkDefault1 :: "gval \<Rightarrow> nat \<Rightarrow> string \<Rightarrow> labgob \<Rightarrow> labgob"
  and checkDefaultFields :: "(string \<times> gval) list \<Rightarrow> nat \<Rightarrow> string \<Rightarrow> labgob \<Rightarrow> labgob" where
  "checkDefault1 (GStruct fs) depth name g = (if depth > 3 then g else checkDefaultFields fs depth name g)"
| "checkDefault1 (GPtr p) depth name g =
     (if depth > 3 then g else case p of None \<Rightarrow> g | Some v \<Rightarrow> checkDefault1 v (depth + 1) name g)"
| "checkDefault1 (GBasic tname isZero) depth name g =
     (if depth > 3 then g else if isZero then g else warnDefault name tname g)"
| "checkDefault1 GOther depth name g = g"
| "checkDefaultFields [] depth name g = g"
| "checkDefaultFields ((fname, v) # fs) depth name g =
     checkDefaultFields fs depth name
       (checkDefault1 v (depth + 1) (if name \<noteq> [] then name @ ''.'' @ fname else fname) g)"

section \<open>The wrappers\<close>

text \<open>An interface value is its type and its value; \<open>None\<close> is nil, whose type's \<open>Kind\<close> cannot be asked for.\<close>

type_synonym iface = "(nat \<times> gval) option"

definition checkValue :: "rtype list \<Rightarrow> iface \<Rightarrow> labgob \<Rightarrow> labgob option" where
  "checkValue env e g = do { (t, _) \<leftarrow> e; checkType (Suc (length env)) env t g }"

definition checkDefault :: "iface \<Rightarrow> labgob \<Rightarrow> labgob" where
  "checkDefault e g = (case e of None \<Rightarrow> g | Some (_, v) \<Rightarrow> checkDefault1 v 1 [] g)"

definition LabEncoder_Encode :: "rtype list \<Rightarrow> (iface \<Rightarrow> 'r) \<Rightarrow> iface \<Rightarrow> labgob \<Rightarrow> (labgob \<times> 'r) option" where
  "LabEncoder_Encode env gob_Encode e g = do { g \<leftarrow> checkValue env e g; Some (g, gob_Encode e) }"

text \<open>\<open>EncodeValue\<close> gets a \<^verbatim>\<open>reflect.Value\<close>, which is never nil, and checks the interface it holds.\<close>

definition LabEncoder_EncodeValue :: "rtype list \<Rightarrow> (nat \<times> gval \<Rightarrow> 'r) \<Rightarrow> nat \<times> gval \<Rightarrow> labgob \<Rightarrow> (labgob \<times> 'r) option" where
  "LabEncoder_EncodeValue env gob_EncodeValue e g = do { g \<leftarrow> checkValue env (Some e) g; Some (g, gob_EncodeValue e) }"

definition LabDecoder_Decode :: "rtype list \<Rightarrow> (iface \<Rightarrow> 'r) \<Rightarrow> iface \<Rightarrow> labgob \<Rightarrow> (labgob \<times> 'r) option" where
  "LabDecoder_Decode env gob_Decode e g = do { g \<leftarrow> checkValue env e g; Some (checkDefault e g, gob_Decode e) }"

definition Register :: "rtype list \<Rightarrow> (iface \<Rightarrow> 'r) \<Rightarrow> iface \<Rightarrow> labgob \<Rightarrow> (labgob \<times> 'r) option" where
  "Register env gob_Register e g = do { g \<leftarrow> checkValue env e g; Some (g, gob_Register e) }"

definition RegisterName :: "rtype list \<Rightarrow> (string \<Rightarrow> iface \<Rightarrow> 'r) \<Rightarrow> string \<Rightarrow> iface \<Rightarrow> labgob \<Rightarrow> (labgob \<times> 'r) option" where
  "RegisterName env gob_RegisterName name e g = do { g \<leftarrow> checkValue env e g; Some (g, gob_RegisterName name e) }"

section \<open>checkType visits every reachable type once\<close>

definition succs :: "rtype list \<Rightarrow> nat \<Rightarrow> nat set" where
  "succs env t = (case typeAt env t of RStruct _ fs \<Rightarrow> snd ` set fs | RElem e \<Rightarrow> {e} | RMap e k \<Rightarrow> {e, k} | RBasic \<Rightarrow> {})"

text \<open>The types a value of type \<open>t\<close> can contain, and the bad field names of one type.\<close>

definition reach :: "rtype list \<Rightarrow> nat \<Rightarrow> nat set" where
  "reach env t = {u. (t, u) \<in> {(a, b). b \<in> succs env a}\<^sup>*}"

definition badFields :: "rtype list \<Rightarrow> nat \<Rightarrow> int" where
  "badFields env t = (case typeAt env t of
     RStruct _ fs \<Rightarrow> int (length (filter (\<lambda>(f, _). \<not> isUpperFirst f) fs)) | _ \<Rightarrow> 0)"

text \<open>Every type mentioned is a type of the program.\<close>

definition env_ok :: "rtype list \<Rightarrow> bool" where
  "env_ok env \<longleftrightarrow> (\<forall>t < length env. \<forall>u \<in> succs env t. u < length env)"

definition types_ok :: "rtype list \<Rightarrow> labgob \<Rightarrow> bool" where
  "types_ok env g \<longleftrightarrow> lg_checked g \<subseteq> {..< length env}"

lemma reach_refl: "t \<in> reach env t"
  by (simp add: reach_def)

lemma reach_step: "b \<in> succs env a \<Longrightarrow> reach env b \<subseteq> reach env a"
  by (auto simp: reach_def intro: converse_rtrancl_into_rtrancl)

lemma reach_closed:
  assumes "t \<in> C" "\<And>u. u \<in> C \<Longrightarrow> succs env u \<subseteq> C" shows "reach env t \<subseteq> C"
proof
  fix u assume "u \<in> reach env t"
  then have "(t, u) \<in> {(a, b). b \<in> succs env a}\<^sup>*" by (simp add: reach_def)
  then show "u \<in> C" by (induction) (use assms in auto)
qed

text \<open>What a visit of the types \<open>S\<close>, with \<open>b\<close> complaints of its own, does.\<close>

definition visited :: "rtype list \<Rightarrow> nat set \<Rightarrow> int \<Rightarrow> labgob \<Rightarrow> labgob \<Rightarrow> bool" where
  "visited env S b g g' \<longleftrightarrow> lg_checked g \<union> S \<subseteq> lg_checked g' \<and> lg_checked g' \<subseteq> lg_checked g \<union> (\<Union>t \<in> S. reach env t)
     \<and> types_ok env g' \<and> (\<forall>u \<in> lg_checked g' - lg_checked g. succs env u \<subseteq> lg_checked g')
     \<and> lg_errorCount g' = lg_errorCount g + b + (\<Sum>u \<in> lg_checked g' - lg_checked g. badFields env u)"

lemma visited_trans:
  assumes "visited env S b g g'" "visited env S' b' g' g''"
  shows "visited env (S \<union> S') (b + b') g g''"
proof -
  let ?N = "lg_checked g' - lg_checked g" and ?M = "lg_checked g'' - lg_checked g'"
  have fin: "finite (lg_checked g'')" using assms(2) finite_subset unfolding visited_def types_ok_def by blast
  have sub: "lg_checked g \<subseteq> lg_checked g'" "lg_checked g' \<subseteq> lg_checked g''" using assms by (auto simp: visited_def)
  then have split: "lg_checked g'' - lg_checked g = ?N \<union> ?M" "?N \<inter> ?M = {}" by auto
  moreover have "finite ?N" "finite ?M" using fin sub finite_subset by blast+
  ultimately have "(\<Sum>u \<in> lg_checked g'' - lg_checked g. badFields env u) = sum (badFields env) ?N + sum (badFields env) ?M"
    by (simp add: sum.union_disjoint)
  moreover have "\<forall>u \<in> lg_checked g'' - lg_checked g. succs env u \<subseteq> lg_checked g''"
    unfolding split(1) using assms sub unfolding visited_def by blast
  moreover have "lg_checked g'' \<subseteq> lg_checked g \<union> (\<Union>t \<in> S \<union> S'. reach env t)" using assms unfolding visited_def by blast
  ultimately show ?thesis using assms sub unfolding visited_def by auto
qed

text \<open>Marking \<open>t\<close> and visiting its successors, with its own bad fields, is a visit of \<open>t\<close>.\<close>

lemma visited_mark:
  assumes v: "visited env (succs env t) (badFields env t) (g\<lparr>lg_checked := insert t (lg_checked g)\<rparr>) g'" and t: "t \<notin> lg_checked g"
  shows "visited env {t} 0 g g'"
proof -
  let ?C = "lg_checked g" and ?C' = "lg_checked g'"
  from v have sub: "insert t ?C \<subseteq> ?C'" "succs env t \<subseteq> ?C'" and up: "?C' \<subseteq> insert t ?C \<union> (\<Union>u \<in> succs env t. reach env u)"
    and ok: "types_ok env g'" and cl: "\<And>u. u \<in> ?C' \<Longrightarrow> u \<notin> insert t ?C \<Longrightarrow> succs env u \<subseteq> ?C'"
    and ec: "lg_errorCount g' = lg_errorCount g + badFields env t + (\<Sum>u \<in> ?C' - insert t ?C. badFields env u)"
    by (simp_all add: visited_def)
  have fin: "finite ?C'" using ok finite_subset unfolding types_ok_def by blast
  have eq: "?C' - ?C = insert t (?C' - insert t ?C)" using sub t by blast
  have "(\<Sum>u \<in> ?C' - ?C. badFields env u) = badFields env t + (\<Sum>u \<in> ?C' - insert t ?C. badFields env u)"
    unfolding eq by (rule sum.insert) (use fin in auto)
  moreover have "(\<Union>u \<in> succs env t. reach env u) \<subseteq> reach env t" using reach_step by blast
  then have "?C' \<subseteq> ?C \<union> reach env t" using up reach_refl [of t env] by blast
  moreover have "succs env u \<subseteq> ?C'" if "u \<in> ?C' - ?C" for u using that cl [of u] sub(2) by (cases "u = t") auto
  ultimately show ?thesis using sub ok ec by (simp add: visited_def)
qed

lemma visited_refl: "types_ok env g \<Longrightarrow> S \<subseteq> lg_checked g \<Longrightarrow> visited env S 0 g g"
  by (auto simp: visited_def)

lemma checkField_sel [simp]:
  "lg_checked (checkField tn fn g) = lg_checked g"
  "lg_errorCount (checkField tn fn g) = lg_errorCount g + (if isUpperFirst fn then 0 else 1)"
  by (simp_all add: checkField_def)

lemma visited_field: "types_ok env g \<Longrightarrow> visited env {} (if isUpperFirst fn then 0 else 1) g (checkField tn fn g)"
  by (auto simp: visited_def types_ok_def)

definition unseen :: "rtype list \<Rightarrow> labgob \<Rightarrow> nat" where
  "unseen env g = card ({..< length env} - lg_checked g)"

lemma unseen_mark:
  assumes "t < length env" "t \<notin> lg_checked g" "unseen env g < Suc n"
  shows "unseen env (g\<lparr>lg_checked := insert t (lg_checked g)\<rparr>) < n"
proof -
  have "{..< length env} - insert t (lg_checked g) \<subset> {..< length env} - lg_checked g" using assms(1,2) by auto
  then have "card ({..< length env} - insert t (lg_checked g)) < card ({..< length env} - lg_checked g)"
    by (intro psubset_card_mono) auto
  with assms(3) show ?thesis by (simp add: unseen_def)
qed

lemma unseen_mono: "lg_checked g \<subseteq> lg_checked g' \<Longrightarrow> unseen env g < n \<Longrightarrow> unseen env g' < n"
  unfolding unseen_def by (rule le_less_trans [OF card_mono]) auto

lemma checkType_visits:
  "env_ok env \<Longrightarrow> types_ok env g \<Longrightarrow> t < length env \<Longrightarrow> unseen env g < n \<Longrightarrow>
     \<exists>g'. checkType n env t g = Some g' \<and> visited env {t} 0 g g'"
  "env_ok env \<Longrightarrow> types_ok env g \<Longrightarrow> \<forall>(_, t) \<in> set fs. t < length env \<Longrightarrow> unseen env g < n \<Longrightarrow>
     \<exists>g'. checkFields n env tn fs g = Some g'
       \<and> visited env (snd ` set fs) (int (length (filter (\<lambda>(f, _). \<not> isUpperFirst f) fs))) g g'"
proof (induction n env t g and n env tn fs g rule: checkType_checkFields.induct)
  case (1 env t g)
  then show ?case by simp
next
  case (2 n env t g)
  show ?case
  proof (cases "t \<in> lg_checked g")
    case True
    with 2(5-8) show ?thesis using visited_refl [of env g "{t}"] by simp
  next
    case False
    let ?g = "g\<lparr>lg_checked := insert t (lg_checked g)\<rparr>"
    have ok: "types_ok env ?g" "unseen env ?g < n"
      using 2(6-8) unseen_mark [OF 2(7) False] by (auto simp: types_ok_def)
    have sc: "\<forall>u \<in> succs env t. u < length env" using 2(5,7) by (simp add: env_ok_def)
    have "\<exists>g'. checkType (Suc n) env t g = Some g' \<and> visited env (succs env t) (badFields env t) ?g g'"
    proof (cases "typeAt env t")
      case (RStruct tname fs)
      with sc have "\<forall>(_, u) \<in> set fs. u < length env" by (auto simp: succs_def)
      from 2(1) [OF False refl RStruct 2(5) ok(1) this ok(2)] RStruct False show ?thesis
        by (simp add: succs_def badFields_def)
    next
      case (RElem e)
      with sc have "e < length env" by (simp add: succs_def)
      from 2(2) [OF False refl RElem 2(5) ok(1) this ok(2)] RElem False show ?thesis
        by (simp add: succs_def badFields_def)
    next
      case (RMap e k)
      with sc have ek: "e < length env" "k < length env" by (simp_all add: succs_def)
      from 2(3) [OF False refl RMap 2(5) ok(1) ek(1) ok(2)] obtain g1 where g1: "checkType n env e ?g = Some g1" "visited env {e} 0 ?g g1"
        by blast
      then have "types_ok env g1" "unseen env g1 < n" using unseen_mono [OF _ ok(2)] by (auto simp: visited_def)
      from 2(4) [OF False refl RMap g1(1) 2(5) this(1) ek(2) this(2)] obtain g2 where "checkType n env k g1 = Some g2" "visited env {k} 0 g1 g2"
        by blast
      with g1 visited_trans [OF g1(2)] RMap False show ?thesis
        by (fastforce simp: succs_def badFields_def)
    next
      case RBasic
      with False visited_refl [OF ok(1)] show ?thesis by (simp add: succs_def badFields_def)
    qed
    with visited_mark [OF _ False] show ?thesis by blast
  qed
next
  case (3 n env tname g)
  then show ?case using visited_refl by simp
next
  case (4 n env tname fname ft fs g)
  let ?g = "checkField tname fname g"
  have g0: "visited env {} (if isUpperFirst fname then 0 else 1) g ?g" by (rule visited_field [OF 4(4)])
  have ok: "types_ok env ?g" "unseen env ?g < n" "ft < length env" using 4(4-6) by (auto simp: types_ok_def unseen_def)
  from 4(1) [OF 4(3) ok(1,3,2)] obtain g1 where g1: "checkType n env ft ?g = Some g1" "visited env {ft} 0 ?g g1" by blast
  then have ok1: "types_ok env g1" "unseen env g1 < n" using unseen_mono [OF _ ok(2)] by (auto simp: visited_def)
  from 4(2) [OF g1(1) 4(3) ok1(1) _ ok1(2)] 4(5) obtain g2 where g2: "checkFields n env tname fs g1 = Some g2"
    "visited env (snd ` set fs) (int (length (filter (\<lambda>(f, _). \<not> isUpperFirst f) fs))) g1 g2" by auto
  from visited_trans [OF visited_trans [OF g0 g1(2)] g2(2)] g1(1) g2(1) show ?case by (auto simp: ac_simps)
qed

text \<open>Between the calls of the package, everything that a checked type contains is checked.\<close>

definition closed :: "rtype list \<Rightarrow> labgob \<Rightarrow> bool" where
  "closed env g \<longleftrightarrow> types_ok env g \<and> (\<forall>u \<in> lg_checked g. succs env u \<subseteq> lg_checked g)"

lemma unseen_le: "unseen env g < Suc (length env)"
  unfolding unseen_def by (rule le_less_trans [OF card_mono [of "{..< length env}"]]) auto

lemma checkType_closed:
  assumes "env_ok env" "closed env g" "t < length env"
  shows "\<exists>g'. checkType (Suc (length env)) env t g = Some g' \<and> closed env g' \<and> lg_checked g' = lg_checked g \<union> reach env t
     \<and> lg_errorCount g' = lg_errorCount g + (\<Sum>u \<in> reach env t - lg_checked g. badFields env u)"
proof -
  from assms(2) have ok: "types_ok env g" and cl: "\<And>u. u \<in> lg_checked g \<Longrightarrow> succs env u \<subseteq> lg_checked g"
    by (auto simp: closed_def)
  from checkType_visits(1) [OF assms(1) ok assms(3) unseen_le] obtain g' where
    g': "checkType (Suc (length env)) env t g = Some g'" "visited env {t} 0 g g'" by blast
  then have v: "lg_checked g \<subseteq> lg_checked g'" "t \<in> lg_checked g'" "lg_checked g' \<subseteq> lg_checked g \<union> reach env t"
    "\<And>u. u \<in> lg_checked g' - lg_checked g \<Longrightarrow> succs env u \<subseteq> lg_checked g'" "types_ok env g'"
    by (auto simp: visited_def)
  have cl': "succs env u \<subseteq> lg_checked g'" if "u \<in> lg_checked g'" for u using that v(1,4) cl by blast
  have eq: "lg_checked g' = lg_checked g \<union> reach env t" using reach_closed [OF v(2) cl'] v(1,3) by blast
  then have "lg_checked g' - lg_checked g = reach env t - lg_checked g" by auto
  with g' eq cl' v(5) show ?thesis by (auto simp: visited_def closed_def)
qed

text \<open>
  Encoding is checked once and left alone.  Whatever the program's types, recursive ones included, \<^verbatim>\<open>labgob\<close>'s encoder ends, returns
  what gob returns, has then checked exactly the types that the value's type can contain, and has raised the error
  count by one for every lower-case field of every such type that was not checked before; encoding a value of
  that type again adds no complaint.
\<close>

theorem Encode_checks_once:
  assumes "env_ok env" and "closed env g" and "t < length env"
  shows "\<exists>g'. LabEncoder_Encode env gob (Some (t, v)) g = Some (g', gob (Some (t, v))) \<and> closed env g'
     \<and> lg_checked g' = lg_checked g \<union> reach env t
     \<and> lg_errorCount g' = lg_errorCount g + (\<Sum>u \<in> reach env t - lg_checked g. badFields env u)
     \<and> LabEncoder_Encode env gob (Some (t, w)) g' = Some (g', gob (Some (t, w)))"
proof -
  from checkType_closed [OF assms] obtain g' where g': "checkType (Suc (length env)) env t g = Some g'" "closed env g'"
    "lg_checked g' = lg_checked g \<union> reach env t"
    "lg_errorCount g' = lg_errorCount g + (\<Sum>u \<in> reach env t - lg_checked g. badFields env u)" by blast
  then have "t \<in> lg_checked g'" using reach_refl by blast
  then have "checkType (Suc (length env)) env t g' = Some g'" by simp
  with g' show ?thesis by (auto simp: LabEncoder_Encode_def checkValue_def)
qed

text \<open>The types of \<^verbatim>\<open>raft1/raft.go\<close>'s \<open>AppendEntriesArgs\<close>, and of a list cell with a lower-case link to itself.\<close>

definition demo_types :: "rtype list" where
  "demo_types = [RBasic, RStruct ''LogEntry'' [(''Command'', 0), (''Term'', 0)], RElem 1,
     RStruct ''AppendEntriesArgs'' [(''Term'', 0), (''LeaderId'', 0), (''PrevLogIndex'', 0), (''PrevLogTerm'', 0),
       (''Entries'', 2), (''LeaderCommit'', 0)],
     RStruct ''cell'' [(''Value'', 0), (''next'', 5)], RElem 4]"

lemma demo_env_ok: "env_ok demo_types" "closed demo_types labgob_init"
  by (auto simp: env_ok_def succs_def typeAt_def demo_types_def closed_def types_ok_def labgob_init_def nth_Cons' split: if_splits)

theorem Encode_checks_once_witness:
  "(\<exists>g'. LabEncoder_Encode demo_types (\<lambda>_. True) (Some (3, GOther)) labgob_init = Some (g', True) \<and> lg_errorCount g' = 0)
   \<and> (\<exists>g'. LabEncoder_Encode demo_types (\<lambda>_. True) (Some (5, GOther)) labgob_init = Some (g', True) \<and> lg_errorCount g' = 1
        \<and> LabEncoder_Encode demo_types (\<lambda>_. True) (Some (5, GOther)) g' = Some (g', True))"
proof
  have e3: "checkValue demo_types (Some (3, GOther)) labgob_init =
      Some \<lparr>lg_checked = {0, 1, 2, 3}, lg_errorCount = 0, lg_out = []\<rparr>"
    by (simp add: checkValue_def demo_types_def labgob_init_def typeAt_def checkField_def isUpperFirst_def eval_nat_numeral) auto
  have e5: "checkValue demo_types (Some (5, GOther)) labgob_init =
      Some \<lparr>lg_checked = {0, 4, 5}, lg_errorCount = 1, lg_out = [LowerCase ''next'' ''cell'']\<rparr>"
    by (simp add: checkValue_def demo_types_def labgob_init_def typeAt_def checkField_def isUpperFirst_def eval_nat_numeral)
  show "\<exists>g'. LabEncoder_Encode demo_types (\<lambda>_. True) (Some (3, GOther)) labgob_init = Some (g', True) \<and> lg_errorCount g' = 0"
    using Encode_checks_once [OF demo_env_ok, of 3 "\<lambda>_. True" GOther GOther] e3 by (auto simp: demo_types_def LabEncoder_Encode_def)
  show "\<exists>g'. LabEncoder_Encode demo_types (\<lambda>_. True) (Some (5, GOther)) labgob_init = Some (g', True) \<and> lg_errorCount g' = 1
        \<and> LabEncoder_Encode demo_types (\<lambda>_. True) (Some (5, GOther)) g' = Some (g', True)"
    using Encode_checks_once [OF demo_env_ok, of 5 "\<lambda>_. True" GOther GOther] e5 by (auto simp: demo_types_def LabEncoder_Encode_def)
qed

section \<open>checkDefault counts the variables that are not zero\<close>

text \<open>The basic variables at depth at most 3 that are not zero.\<close>

fun nonDefault :: "gval \<Rightarrow> nat \<Rightarrow> nat" and nonDefaults :: "(string \<times> gval) list \<Rightarrow> nat \<Rightarrow> nat" where
  "nonDefault (GStruct fs) depth = (if depth > 3 then 0 else nonDefaults fs (depth + 1))"
| "nonDefault (GPtr None) depth = 0"
| "nonDefault (GPtr (Some v)) depth = (if depth > 3 then 0 else nonDefault v (depth + 1))"
| "nonDefault (GBasic _ isZero) depth = (if depth > 3 \<or> isZero then 0 else 1)"
| "nonDefault GOther depth = 0"
| "nonDefaults [] depth = 0"
| "nonDefaults ((_, v) # fs) depth = nonDefault v depth + nonDefaults fs depth"

lemma checkDefault1_count:
  "0 \<le> lg_errorCount g \<Longrightarrow> lg_checked (checkDefault1 v depth name g) = lg_checked g
     \<and> lg_errorCount (checkDefault1 v depth name g) = lg_errorCount g + int (nonDefault v depth)
     \<and> length (lg_out (checkDefault1 v depth name g)) = length (lg_out g)
         + (if lg_errorCount g = 0 \<and> 0 < nonDefault v depth then 1 else 0)"
  "0 \<le> lg_errorCount g \<Longrightarrow> lg_checked (checkDefaultFields fs depth name g) = lg_checked g
     \<and> lg_errorCount (checkDefaultFields fs depth name g) = lg_errorCount g + int (nonDefaults fs (depth + 1))
     \<and> length (lg_out (checkDefaultFields fs depth name g)) = length (lg_out g)
         + (if lg_errorCount g = 0 \<and> 0 < nonDefaults fs (depth + 1) then 1 else 0)"
proof (induction v depth name g and fs depth name g rule: checkDefault1_checkDefaultFields.induct)
  case (2 p depth name g)
  then show ?case by (cases p) auto
qed (auto simp: warnDefault_def)

text \<open>
  Decoding into a used variable is noticed.  The walk over the variable that is decoded into raises the error count by the number of
  its basic components, at most three levels down, that are not zero, and prints at most one warning: the first time
  there is anything to complain about.
\<close>

theorem checkDefault_counts:
  assumes "0 \<le> lg_errorCount g"
  shows "let g' = checkDefault (Some (t, v)) g in lg_errorCount g' = lg_errorCount g + int (nonDefault v 1)
     \<and> length (lg_out g') = length (lg_out g) + (if lg_errorCount g = 0 \<and> 0 < nonDefault v 1 then 1 else 0)
     \<and> lg_checked g' = lg_checked g"
  using checkDefault1_count(1) [OF assms, of v 1 "[]"] by (simp add: checkDefault_def Let_def)

theorem checkDefault_counts_witness:
  "lg_errorCount (checkDefault (Some (0, GPtr (Some (GStruct [(''Term'', GBasic ''int'' False), (''Ok'', GBasic ''bool'' True),
     (''Next'', GPtr (Some (GStruct [(''Term'', GBasic ''int'' False)])))])))) labgob_init) = 1"
  using checkDefault_counts [of labgob_init 0 "GPtr (Some (GStruct [(''Term'', GBasic ''int'' False), (''Ok'', GBasic ''bool'' True),
     (''Next'', GPtr (Some (GStruct [(''Term'', GBasic ''int'' False)])))]))"] by (simp add: labgob_init_def Let_def)

end
