(* ===== verification/KvAppend.thy ===== *)
theory KvAppend
  imports KvTest
begin

text \<open>
  The append test of \<^verbatim>\<open>kvtest1/kvtest.go\<close> as a system: clients that run \<open>OneClientAppend\<close> against one server of \<^verbatim>\<open>kvsrv1\<close> over a network
  that loses requests and replies, in any interleaving.  Whatever happens, the list they leave passes \<open>CheckAppends\<close>.
\<close>

section \<open>The system\<close>

text \<open>Between its turns a client is idle; after its \<open>Get\<close> it holds the list and version it read, and whether the clerk's \<open>Put\<close> is at its
  first attempt.\<close>

datatype app_pc = Idle | Putting "entry list" Tversion bool

record appsys =
  sy_srv :: KVServer
  sy_app :: "int \<Rightarrow> appender"
  sy_pc :: "int \<Rightarrow> app_pc"
  sy_failed :: bool

definition append_args :: "int \<Rightarrow> appender \<Rightarrow> entry list \<Rightarrow> Tversion \<Rightarrow> PutArgs" where
  "append_args c a es v = \<lparr>put_Key = ''k'', put_Value = OneClientAppend_value c (ap_i a) es, put_Version = v\<rparr>"

inductive app_step :: "int \<Rightarrow> appsys \<Rightarrow> appsys \<Rightarrow> bool" for n where
  app_get: "0 \<le> c \<Longrightarrow> c < n \<Longrightarrow> sy_pc s c = Idle \<Longrightarrow> KVServer_get (sy_srv s) \<lparr>get_Key = ''k''\<rparr> = r \<Longrightarrow> getr_Err r = OK \<Longrightarrow>
    unmarshal_entries (getr_Value r) = Some es \<Longrightarrow>
    app_step n s (s\<lparr>sy_pc := (sy_pc s)(c := Putting es (getr_Version r) True)\<rparr>)"
| app_fatal: "0 \<le> c \<Longrightarrow> c < n \<Longrightarrow> sy_pc s c = Idle \<Longrightarrow> KVServer_get (sy_srv s) \<lparr>get_Key = ''k''\<rparr> = r \<Longrightarrow>
    getr_Err r \<noteq> OK \<or> unmarshal_entries (getr_Value r) = None \<Longrightarrow> app_step n s (s\<lparr>sy_failed := True\<rparr>)"
| app_lose_request: "0 \<le> c \<Longrightarrow> c < n \<Longrightarrow> sy_pc s c = Putting es v first \<Longrightarrow>
    app_step n s (s\<lparr>sy_pc := (sy_pc s)(c := Putting es v False)\<rparr>)"
| app_lose_reply: "0 \<le> c \<Longrightarrow> c < n \<Longrightarrow> sy_pc s c = Putting es v first \<Longrightarrow>
    KVServer_put (sy_srv s) (append_args c (sy_app s c) es v) = (kv, r) \<Longrightarrow>
    app_step n s (s\<lparr>sy_srv := kv, sy_pc := (sy_pc s)(c := Putting es v False)\<rparr>)"
| app_answer: "0 \<le> c \<Longrightarrow> c < n \<Longrightarrow> sy_pc s c = Putting es v first \<Longrightarrow>
    KVServer_put (sy_srv s) (append_args c (sy_app s c) es v) = (kv, r) \<Longrightarrow>
    app_step n s (s\<lparr>sy_srv := kv, sy_pc := (sy_pc s)(c := Idle),
      sy_app := (sy_app s)(c := (case OneClientAppend_after_Put (sy_app s c) (Clerk_Put_verdict first (putr_Err r)) of
        Some a \<Rightarrow> a | None \<Rightarrow> sy_app s c))\<rparr>)"

inductive app_run :: "int \<Rightarrow> nat \<Rightarrow> appsys \<Rightarrow> appsys \<Rightarrow> bool" for n where
  run_0: "app_run n 0 s s"
| run_Suc: "app_run n k s s' \<Longrightarrow> app_step n s' s'' \<Longrightarrow> app_run n (Suc k) s s''"

text \<open>The test has put the empty list under \<^verbatim>\<open>k\<close>.\<close>

definition app_init :: appsys where
  "app_init = \<lparr>sy_srv = fst (KVServer_put MakeKVServer \<lparr>put_Key = ''k'', put_Value = marshal_entries [], put_Version = 0\<rparr>),
     sy_app = (\<lambda>_. appender_start), sy_pc = (\<lambda>_. Idle), sy_failed = False\<rparr>"

definition app_results :: "int \<Rightarrow> appsys \<Rightarrow> ClntRes list" where
  "app_results n s = map (\<lambda>c. \<lparr>Nok = ap_nok (sy_app s c), Nmaybe = ap_nmay (sy_app s c)\<rparr>) [0 .. n - 1]"

section \<open>The invariant\<close>

lemma unmarshal_marshal_entries [simp]: "unmarshal_entries (marshal_entries es) = Some es"
proof -
  have "map ((\<lambda>(i, m). \<lparr>en_Id = i, en_N = m\<rparr>) \<circ> (\<lambda>e. (en_Id e, en_N e))) es = es" by (induction es) auto
  then show ?thesis by (simp add: unmarshal_entries_def marshal_entries_def unmarshal_marshal_pairs)
qed

definition holds :: "KVServer \<Rightarrow> entry list \<Rightarrow> bool" where
  "holds kv es \<longleftrightarrow> store kv ''k'' = Some \<lparr>val = marshal_entries es, ver = of_nat (Suc (length es))\<rparr>"

text \<open>\<open>applied\<close>: the entry the client is putting is in the list already.\<close>

definition appender_inv :: "int \<Rightarrow> appender \<Rightarrow> bool \<Rightarrow> entry list \<Rightarrow> bool" where
  "appender_inv c a applied es \<longleftrightarrow> 0 \<le> ap_nok a \<and> 0 \<le> ap_nmay a \<and> ap_i a = ap_nok a + ap_nmay a \<and> rising 0 (numbers c es)
     \<and> above 0 (numbers c es) \<le> ap_i a + of_bool applied \<and> ap_nok a + of_bool applied \<le> int (length (numbers c es))"

fun pc_inv :: "int \<Rightarrow> appender \<Rightarrow> app_pc \<Rightarrow> entry list \<Rightarrow> bool" where
  "pc_inv c a Idle es \<longleftrightarrow> appender_inv c a False es"
| "pc_inv c a (Putting es0 v first) es \<longleftrightarrow> v = of_nat (Suc (length es0)) \<and> take (length es0) es = es0 \<and> length es0 \<le> length es
     \<and> (appender_inv c a False es \<or> \<not> first \<and> length es0 < length es \<and> appender_inv c a True es)"

definition app_inv :: "int \<Rightarrow> nat \<Rightarrow> appsys \<Rightarrow> bool" where
  "app_inv n k s \<longleftrightarrow> \<not> sy_failed s \<and> (\<exists>es. holds (sy_srv s) es \<and> length es \<le> k \<and> (\<forall>e \<in> set es. 0 \<le> en_Id e \<and> en_Id e < n)
     \<and> (\<forall>c. 0 \<le> c \<and> c < n \<longrightarrow> pc_inv c (sy_app s c) (sy_pc s c) es))"

lemma app_init_inv: "app_inv n 0 app_init"
  by (auto simp: app_inv_def app_init_def holds_def KVServer_put_def KVServer_Put_def MakeKVServer_def appender_inv_def appender_start_def
      intro!: exI [of _ "[]"])

lemma holds_get: "holds kv es \<Longrightarrow> KVServer_get kv \<lparr>get_Key = ''k''\<rparr> = \<lparr>getr_Value = marshal_entries es, getr_Version = of_nat (Suc (length es)), getr_Err = OK\<rparr>"
  by (simp add: holds_def KVServer_get_def KVServer_Get_def GetReply0_def)

text \<open>A put either finds the list it was computed from, and extends it, or leaves the server alone.\<close>

lemma holds_put:
  assumes "holds kv es" "KVServer_put kv (append_args c a es0 v) = (kv', r)" "v = of_nat (Suc (length es0))"
    and "take (length es0) es = es0" "length es0 \<le> length es" "Suc (length es) < 2 ^ 64"
  shows "es0 = es \<and> holds kv' (es @ [\<lparr>en_Id = c, en_N = ap_i a\<rparr>]) \<and> putr_Err r = OK
    \<or> length es0 < length es \<and> kv' = kv \<and> putr_Err r = ErrVersion"
proof (cases "length es0 = length es")
  case True
  with assms(4) have "es0 = es" by simp
  with assms(1-3) show ?thesis
    by (auto simp: holds_def KVServer_put_def KVServer_Put_def append_args_def OneClientAppend_value_def PutReply0_def)
next
  case False
  then have "(of_nat (Suc (length es0)) :: u64) \<noteq> of_nat (Suc (length es))"
    using assms(5,6) by (subst of_nat_u64_inject) auto
  with False assms(1-3,5) show ?thesis
    by (auto simp: holds_def KVServer_put_def KVServer_Put_def append_args_def PutReply0_def)
qed

text \<open>The others do not notice an entry of client \<open>c\<close>.\<close>

lemma appender_inv_other: "c \<noteq> d \<Longrightarrow> appender_inv d a b (es @ [\<lparr>en_Id = c, en_N = m\<rparr>]) \<longleftrightarrow> appender_inv d a b es"
  by (simp add: appender_inv_def)

lemma pc_inv_other: "c \<noteq> d \<Longrightarrow> pc_inv d a pc es \<Longrightarrow> pc_inv d a pc (es @ [\<lparr>en_Id = c, en_N = m\<rparr>])"
  by (cases pc) (auto simp: appender_inv_other)

lemma appender_inv_append:
  "appender_inv c a False es \<Longrightarrow> appender_inv c a True (es @ [\<lparr>en_Id = c, en_N = ap_i a\<rparr>])"
  by (auto simp: appender_inv_def)

lemma appender_inv_verdict:
  assumes "appender_inv c a applied es" "e = OK \<Longrightarrow> applied" "e = ErrVersion \<Longrightarrow> \<not> applied" "e \<in> {OK, ErrVersion, ErrMaybe}"
  shows "appender_inv c (case OneClientAppend_after_Put a e of Some a' \<Rightarrow> a' | None \<Rightarrow> a) False es"
  using assms by (auto simp: appender_inv_def OneClientAppend_after_Put_def of_bool_def split: if_splits)

section \<open>Every step keeps it\<close>

lemma app_inv_pc:
  assumes "app_inv n k s" "0 \<le> c" "c < n" "\<And>es. holds (sy_srv s) es \<Longrightarrow> pc_inv c (sy_app s c) (sy_pc s c) es \<Longrightarrow> pc_inv c (sy_app s c) pc es"
  shows "app_inv n (Suc k) (s\<lparr>sy_pc := (sy_pc s)(c := pc)\<rparr>)"
proof -
  from assms(1) obtain es where es: "holds (sy_srv s) es" "length es \<le> k" "\<forall>e \<in> set es. 0 \<le> en_Id e \<and> en_Id e < n"
    and all: "\<And>d. 0 \<le> d \<Longrightarrow> d < n \<Longrightarrow> pc_inv d (sy_app s d) (sy_pc s d) es" and "\<not> sy_failed s" by (auto simp: app_inv_def)
  with assms(2-4) show ?thesis by (auto simp: app_inv_def intro!: exI [of _ es])
qed

text \<open>A put of client \<open>c\<close>: what it finds, and that nobody else notices.\<close>

lemma app_inv_put:
  assumes inv: "app_inv n k s" and c: "0 \<le> c" "c < n" and pc: "sy_pc s c = Putting es0 v first"
    and put: "KVServer_put (sy_srv s) (append_args c (sy_app s c) es0 v) = (kv, r)" and k: "k < 2 ^ 62"
  obtains es applied where "holds kv es" "length es \<le> Suc k" "\<forall>e \<in> set es. 0 \<le> en_Id e \<and> en_Id e < n"
    "\<forall>d. 0 \<le> d \<and> d < n \<and> d \<noteq> c \<longrightarrow> pc_inv d (sy_app s d) (sy_pc s d) es"
    "pc_inv c (sy_app s c) (Putting es0 v False) es"
    "appender_inv c (sy_app s c) applied es" "putr_Err r = OK \<Longrightarrow> applied" "putr_Err r = ErrVersion \<Longrightarrow> first \<Longrightarrow> \<not> applied"
    "putr_Err r \<in> {OK, ErrVersion}"
proof -
  from inv obtain es where es: "holds (sy_srv s) es" "length es \<le> k" "\<forall>e \<in> set es. 0 \<le> en_Id e \<and> en_Id e < n"
    and all: "\<And>d. 0 \<le> d \<Longrightarrow> d < n \<Longrightarrow> pc_inv d (sy_app s d) (sy_pc s d) es" by (auto simp: app_inv_def)
  from all [OF c] pc have me: "pc_inv c (sy_app s c) (Putting es0 v first) es" by simp
  from me have v: "v = of_nat (Suc (length es0))" and pre: "take (length es0) es = es0" "length es0 \<le> length es" by auto
  from es(2) k have "Suc (length es) < 2 ^ 64" by simp
  from holds_put [OF es(1) put v pre this] show thesis
  proof (elim disjE conjE)
    let ?e = "\<lparr>en_Id = c, en_N = ap_i (sy_app s c)\<rparr>"
    assume h: "es0 = es" "holds kv (es @ [?e])" "putr_Err r = OK"
    with me have a: "appender_inv c (sy_app s c) True (es @ [?e])" by (auto intro: appender_inv_append)
    show thesis
      using h v a es c all by (intro that [of "es @ [?e]" True]) (auto intro: pc_inv_other)
  next
    assume h: "length es0 < length es" "kv = sy_srv s" "putr_Err r = ErrVersion"
    from me obtain applied where a: "appender_inv c (sy_app s c) applied es" "first \<Longrightarrow> \<not> applied" by auto
    show thesis
      using h me a es all by (intro that [of es applied]) auto
  qed
qed

lemma app_step_inv:
  assumes "app_step n s s'" "app_inv n k s" "k < 2 ^ 62"
  shows "app_inv n (Suc k) s'"
  using assms
proof cases
  case (app_get c r es)
  have "pc_inv c (sy_app s c) (Putting es (getr_Version r) True) es'" if "holds (sy_srv s) es'" "pc_inv c (sy_app s c) (sy_pc s c) es'" for es'
    using that app_get by (auto simp: holds_get)
  with app_get assms(2) show ?thesis by (auto intro: app_inv_pc)
next
  case (app_fatal c r)
  from assms(2) obtain es where "holds (sy_srv s) es" by (auto simp: app_inv_def)
  with app_fatal show ?thesis by (auto simp: holds_get)
next
  case (app_lose_request c es v first)
  with assms(2) show ?thesis by (auto intro!: app_inv_pc)
next
  case (app_lose_reply c es0 v first kv r)
  from app_inv_put [OF assms(2) app_lose_reply(2-5) assms(3)] obtain es where
    "holds kv es" "length es \<le> Suc k" "\<forall>e \<in> set es. 0 \<le> en_Id e \<and> en_Id e < n"
    "\<forall>d. 0 \<le> d \<and> d < n \<and> d \<noteq> c \<longrightarrow> pc_inv d (sy_app s d) (sy_pc s d) es" "pc_inv c (sy_app s c) (Putting es0 v False) es" by metis
  with assms(2) app_lose_reply(1) show ?thesis by (auto simp: app_inv_def intro!: exI [of _ es])
next
  case (app_answer c es0 v first kv r)
  from app_inv_put [OF assms(2) app_answer(2-5) assms(3)] obtain es applied where
    es: "holds kv es" "length es \<le> Suc k" "\<forall>e \<in> set es. 0 \<le> en_Id e \<and> en_Id e < n"
    "\<forall>d. 0 \<le> d \<and> d < n \<and> d \<noteq> c \<longrightarrow> pc_inv d (sy_app s d) (sy_pc s d) es"
    and a: "appender_inv c (sy_app s c) applied es" "putr_Err r = OK \<Longrightarrow> applied" "putr_Err r = ErrVersion \<Longrightarrow> first \<Longrightarrow> \<not> applied"
    "putr_Err r \<in> {OK, ErrVersion}" by metis
  have "appender_inv c (case OneClientAppend_after_Put (sy_app s c) (Clerk_Put_verdict first (putr_Err r)) of
      Some a' \<Rightarrow> a' | None \<Rightarrow> sy_app s c) False es"
    using a(2-4) by (intro appender_inv_verdict [OF a(1)]) (auto simp: Clerk_Put_verdict_def split: if_splits)
  with assms(2) app_answer(1) es show ?thesis by (auto simp: app_inv_def intro!: exI [of _ es])
qed

lemma app_run_inv: "app_run n k s s' \<Longrightarrow> app_inv n 0 s \<Longrightarrow> k \<le> 2 ^ 62 \<Longrightarrow> app_inv n k s'"
  by (induction rule: app_run.induct) (auto intro: app_step_inv)

section \<open>What the check finds at the end\<close>

lemma sint_of_nat_u64: "m < 2 ^ 63 \<Longrightarrow> sint (of_nat m :: u64) = int m"
  by (simp add: signed_of_nat signed_take_bit_int_eq_self)

lemma client_ok_appender:
  assumes "appender_inv c (sy_app s c) False es" "0 \<le> c" "c < n"
  shows "client_ok es (app_results n s) c"
  using assms rising_above [of 0 "numbers c es"] by (auto simp: client_ok_def app_results_def appender_inv_def Let_def)

text \<open>
  C18: The append test passes.  Any number of clients run \<open>OneClientAppend\<close> against one server over a network that loses requests and replies, in any
  order and with any number of retries.  None of them stops with a failed read, and when all have finished their last append the server holds a list that,
  with the counts the clients return and the version of the key, passes \<open>CheckAppends\<close>: no append that was reported as done is missing, none is in the
  list twice and the entries of each client are in order.
\<close>

theorem appends_pass_check:
  assumes "app_run n k app_init s" "k \<le> 2 ^ 62" "\<forall>c. 0 \<le> c \<and> c < n \<longrightarrow> sy_pc s c = Idle"
  shows "\<not> sy_failed s \<and> (\<exists>es. unmarshal_entries (getr_Value (KVServer_get (sy_srv s) \<lparr>get_Key = ''k''\<rparr>)) = Some es
    \<and> CheckAppends es n (app_results n s) (getr_Version (KVServer_get (sy_srv s) \<lparr>get_Key = ''k''\<rparr>)) = Done ())"
proof -
  from app_run_inv [OF assms(1) app_init_inv assms(2)] obtain es where failed: "\<not> sy_failed s"
    and es: "holds (sy_srv s) es" "length es \<le> k" "\<And>e. e \<in> set es \<Longrightarrow> 0 \<le> en_Id e \<and> en_Id e < n"
    and all: "\<And>c. 0 \<le> c \<Longrightarrow> c < n \<Longrightarrow> appender_inv c (sy_app s c) False es"
    using assms(3) by (auto simp: app_inv_def)
  have "rising 0 (numbers c es)" for c
  proof (cases "0 \<le> c \<and> c < n")
    case False
    with es(3) have "filter (\<lambda>e. en_Id e = c) es = []" by (auto simp: filter_empty_conv)
    then show ?thesis by (simp add: numbers_def)
  qed (use all in \<open>auto simp: appender_inv_def\<close>)
  moreover from es(2) assms(2) have "int (length es) + 1 = sint (of_nat (Suc (length es)) :: u64)"
    using sint_of_nat_u64 [of "Suc (length es)"] by simp
  moreover have "client_ok es (app_results n s) c" if "c \<in> {0 ..< n} \<union> en_Id ` set es" for c
    using that es(3) by (intro client_ok_appender all) auto
  ultimately have "CheckAppends es n (app_results n s) (of_nat (Suc (length es))) = Done ()" unfolding CheckAppends_rising_iff by blast
  with failed holds_get [OF es(1)] show ?thesis by auto
qed

text \<open>One client whose put takes effect while the reply is lost: the second attempt returns \<open>ErrVersion\<close>, the client counts it as uncertain.\<close>

definition demo_app :: appsys where
  "demo_app = \<lparr>sy_srv = fst (KVServer_put (sy_srv app_init) (append_args 0 appender_start [] 1)),
     sy_app = (\<lambda>_. appender_start)(0 := \<lparr>ap_i = 1, ap_nok = 0, ap_nmay = 1\<rparr>), sy_pc = (\<lambda>_. Idle), sy_failed = False\<rparr>"

lemma demo_app_run: "app_run 1 3 app_init demo_app"
proof -
  let ?s1 = "app_init\<lparr>sy_pc := (sy_pc app_init)(0 := Putting [] 1 True)\<rparr>"
  let ?put = "KVServer_put (sy_srv app_init) (append_args 0 appender_start [] 1)"
  let ?s2 = "app_init\<lparr>sy_srv := fst ?put, sy_pc := (sy_pc app_init)(0 := Putting [] 1 False)\<rparr>"
  note defs = app_init_def KVServer_put_def KVServer_Put_def MakeKVServer_def append_args_def PutReply0_def
  have h: "holds (sy_srv app_init) []" by (simp add: holds_def defs)
  have "app_step 1 app_init ?s1"
    using app_get [of 0 1 app_init, OF _ _ _ refl, unfolded holds_get [OF h], of "[]"] by (simp add: app_init_def)
  moreover have "app_step 1 ?s1 ?s2"
    using app_lose_reply [of 0 1 ?s1 "[]" 1 True "fst ?put" "snd ?put"] by (simp add: app_init_def)
  moreover have "app_step 1 ?s2 demo_app"
    using app_answer [of 0 1 ?s2 "[]" 1 False "fst ?put" "\<lparr>putr_Err = ErrVersion\<rparr>"]
    by (simp add: demo_app_def defs OneClientAppend_after_Put_def Clerk_Put_verdict_def appender_start_def fun_upd_idem)
  ultimately show ?thesis
    using run_Suc [OF run_Suc [OF run_Suc [OF run_0]], of 1 app_init ?s1 ?s2 demo_app] by (simp add: numeral_3_eq_3)
qed

theorem appends_pass_check_witness:
  "app_run 1 3 app_init demo_app \<and> \<not> sy_failed demo_app \<and> app_results 1 demo_app = [\<lparr>Nok = 0, Nmaybe = 1\<rparr>]
   \<and> (\<exists>es. unmarshal_entries (getr_Value (KVServer_get (sy_srv demo_app) \<lparr>get_Key = ''k''\<rparr>)) = Some es
    \<and> CheckAppends es 1 (app_results 1 demo_app) (getr_Version (KVServer_get (sy_srv demo_app) \<lparr>get_Key = ''k''\<rparr>)) = Done ())"
proof -
  have "app_results 1 demo_app = [\<lparr>Nok = 0, Nmaybe = 1\<rparr>]" by (simp add: app_results_def demo_app_def upto.simps)
  moreover have "\<forall>c. 0 \<le> c \<and> c < 1 \<longrightarrow> sy_pc demo_app c = Idle" by (simp add: demo_app_def)
  ultimately show ?thesis using demo_app_run appends_pass_check [OF demo_app_run] by simp
qed

end
