(* ===== verification/RaftTester.thy ===== *)
theory RaftTester
  imports RaftCluster
begin

text \<open>
  The Raft tests' view of a cluster, \<^verbatim>\<open>raft1/server.go\<close> and the checkers of \<^verbatim>\<open>raft1/test.go\<close>: the service
  that reads each peer's apply channel, compares what the peers apply and makes snapshots, and the check that
  there is one leader.  A value of Go's \<^verbatim>\<open>any\<close> is a \<^verbatim>\<open>'c option\<close> (\<open>None\<close> is nil).  A failed check ends the
  test and is \<open>None\<close>; so the field \<^verbatim>\<open>applyErr\<close>, which is only set after a \<^verbatim>\<open>log.Fatalf\<close>, has no counterpart.
  The functions act on the test's state, the list of services (all of them started); annotations and timing are
  left out.
\<close>

section \<open>The services\<close>

type_synonym 'c snap = "'c option list gob"

record 'c rfsrv =
  rs_me :: int
  rs_lastApplied :: int
  rs_logs :: "int \<rightharpoonup> 'c option"
  rs_raft :: "('c, 'c snap) Raft option"

record 'c rtest =
  rt_srvs :: "'c rfsrv list"
  rt_maxIndex :: int

definition SnapShotInterval :: int where
  "SnapShotInterval = 10"

definition Logs :: "'c rfsrv \<Rightarrow> int \<Rightarrow> 'c option option" where
  "Logs rs i = rs_logs rs i"

text \<open>The entries \<open>xlog\<close> of a snapshot, as the log of the service that ingests it.\<close>

definition logs_of :: "'c option list \<Rightarrow> int \<rightharpoonup> 'c option" where
  "logs_of xlog = (\<lambda>j. go_nth xlog j)"

definition ingestSnap :: "'c rfsrv \<Rightarrow> 'c snap list \<Rightarrow> int \<Rightarrow> 'c rfsrv option" where
  "ingestSnap rs sn index = do {
     (lii, d) \<leftarrow> DecodeInt sn;
     (xlog, d) \<leftarrow> DecodeVal d;
     if index \<noteq> -1 \<and> index \<noteq> lii then None
     else Some (rs\<lparr>rs_logs := logs_of xlog, rs_lastApplied := lii\<rparr>)
   }"

definition newRfsrv :: "int \<Rightarrow> int \<Rightarrow> ('c LogEntry list gob, 'c snap) Persister \<Rightarrow> bool \<Rightarrow> int \<Rightarrow> 'c rfsrv option" where
  "newRfsrv n srv ps snap now =
     (let s = \<lparr>rs_me = srv, rs_lastApplied = 0, rs_logs = Map.empty, rs_raft = Some (Make n srv ps now)\<rparr>
      in if snap \<and> 0 < length (ReadSnapshot ps) then ingestSnap s (ReadSnapshot ps) (-1) else Some s)"

text \<open>\<open>Kill\<close> saves the persister's contents again and forgets the peer.\<close>

definition rfsrv_Kill :: "'c rfsrv \<Rightarrow> ('c LogEntry list gob, 'c snap) Persister
    \<Rightarrow> 'c rfsrv \<times> ('c LogEntry list gob, 'c snap) Persister" where
  "rfsrv_Kill rs ps = (rs\<lparr>rs_raft := None\<rparr>, Save ps (ReadRaftState ps) (ReadSnapshot ps))"

definition rfsrv_GetState :: "'c rfsrv \<Rightarrow> (int \<times> bool) option" where
  "rfsrv_GetState rs = map_option GetState (rs_raft rs)"

section \<open>Comparing what is applied\<close>

text \<open>\<open>checkLogs\<close>: whether some service has another value at the index, whether this one has the entry before
  it, and the test with the entry recorded.\<close>

definition checkLogs :: "'c rtest \<Rightarrow> int \<Rightarrow> ('c, 'c snap) ApplyMsg \<Rightarrow> ('c rtest \<times> bool \<times> bool) option" where
  "checkLogs ts i m = do {
     rs \<leftarrow> go_nth (rt_srvs ts) i;
     let v = am_Command m;
     let err = list_ex (\<lambda>rs. case Logs rs (CommandIndex m) of Some old \<Rightarrow> old \<noteq> v | None \<Rightarrow> False) (rt_srvs ts);
     let prevok = (rs_logs rs (CommandIndex m - 1) \<noteq> None);
     srvs \<leftarrow> go_set (rt_srvs ts) i (rs\<lparr>rs_logs := (rs_logs rs)(CommandIndex m \<mapsto> v)\<rparr>);
     let mx = (if CommandIndex m > rt_maxIndex ts then CommandIndex m else rt_maxIndex ts);
     Some (ts\<lparr>rt_srvs := srvs, rt_maxIndex := mx\<rparr>, err, prevok)
   }"

text \<open>One message read by the service without snapshots.\<close>

definition applier :: "'c rtest \<Rightarrow> int \<Rightarrow> ('c, 'c snap) ApplyMsg \<Rightarrow> 'c rtest option" where
  "applier ts i m =
     (if \<not> CommandValid m then Some ts
      else do {
        (ts, err, prevok) \<leftarrow> checkLogs ts i m;
        if err \<or> CommandIndex m > 1 \<and> \<not> prevok then None else Some ts
      })"

text \<open>The snapshot the service makes at an index.\<close>

definition encodeLogs :: "'c rfsrv \<Rightarrow> int \<Rightarrow> 'c snap list" where
  "encodeLogs rs index = [GobInt index, GobVal (map (\<lambda>j. case rs_logs rs j of Some v \<Rightarrow> v | None \<Rightarrow> None) [0..index])]"

text \<open>One message read by the service with snapshots; a nil \<open>rs_raft\<close> would panic in \<open>Snapshot\<close>.\<close>

definition applierSnap :: "'c rtest \<Rightarrow> int \<Rightarrow> ('c, 'c snap) ApplyMsg \<Rightarrow> 'c rtest option" where
  "applierSnap ts i m = do {
     rs \<leftarrow> go_nth (rt_srvs ts) i;
     if SnapshotValid m then do {
       rs \<leftarrow> ingestSnap rs (am_Snapshot m) (SnapshotIndex m);
       srvs \<leftarrow> go_set (rt_srvs ts) i rs;
       Some (ts\<lparr>rt_srvs := srvs\<rparr>)
     }
     else if CommandValid m then do {
       (ts, err, prevok) \<leftarrow> checkLogs ts i m;
       rs' \<leftarrow> go_nth (rt_srvs ts) i;
       if CommandIndex m \<noteq> rs_lastApplied rs + 1 \<or> err \<or> CommandIndex m > 1 \<and> \<not> prevok then None
       else do {
         let rs' = rs'\<lparr>rs_lastApplied := CommandIndex m\<rparr>;
         r \<leftarrow> go_mod (CommandIndex m + 1) SnapShotInterval;
         rs' \<leftarrow> (if r = 0 then do {
             rf \<leftarrow> rs_raft rs';
             rf \<leftarrow> Snapshot rf (CommandIndex m) (encodeLogs rs' (CommandIndex m));
             Some (rs'\<lparr>rs_raft := Some rf\<rparr>)
           } else Some rs');
         srvs \<leftarrow> go_set (rt_srvs ts) i rs';
         Some (ts\<lparr>rt_srvs := srvs\<rparr>)
       }
     }
     else Some ts
   }"

text \<open>How many services have an entry committed, and its value; two different values fail the test.\<close>

fun nCommitted_loop :: "int \<Rightarrow> 'c rfsrv list \<Rightarrow> int \<times> 'c option \<Rightarrow> (int \<times> 'c option) option" where
  "nCommitted_loop index [] acc = Some acc"
| "nCommitted_loop index (rs # rss) (count, cmd) =
     (case Logs rs index of
        None \<Rightarrow> nCommitted_loop index rss (count, cmd)
      | Some cmd1 \<Rightarrow> if count > 0 \<and> cmd \<noteq> cmd1 then None else nCommitted_loop index rss (count + 1, cmd1))"

definition nCommitted :: "'c rtest \<Rightarrow> int \<Rightarrow> (int \<times> 'c option) option" where
  "nCommitted ts index = nCommitted_loop index (rt_srvs ts) (0, None)"

section \<open>One leader\<close>

text \<open>What \<open>checkOneLeader\<close> sees of a peer: whether it is connected, its term and whether it leads.  The map
  from terms to their leaders is an association list.\<close>

fun add_leader :: "int \<Rightarrow> int \<Rightarrow> (int \<times> int list) list \<Rightarrow> (int \<times> int list) list" where
  "add_leader term i [] = [(term, [i])]"
| "add_leader term i ((t, ls) # m) = (if t = term then (t, ls @ [i]) # m else (t, ls) # add_leader term i m)"

fun collect_leaders :: "int \<Rightarrow> (bool \<times> int \<times> bool) list \<Rightarrow> (int \<times> int list) list \<Rightarrow> (int \<times> int list) list" where
  "collect_leaders i [] m = m"
| "collect_leaders i ((connected, term, leader) # obs) m =
     collect_leaders (i + 1) obs (if connected \<and> leader then add_leader term i m else m)"

text \<open>One round: \<open>None\<close> when a term has two leaders, \<open>Some None\<close> when there is no leader.\<close>

definition checkOneLeader_round :: "(bool \<times> int \<times> bool) list \<Rightarrow> int option option" where
  "checkOneLeader_round obs =
     (let leaders = collect_leaders 0 obs [];
          lastTermWithLeader = foldl (\<lambda>l (t, ls). if t > l then t else l) (-1) leaders
      in if list_ex (\<lambda>(t, ls). 1 < length ls) leaders then None
         else if leaders \<noteq> [] then
           map_option Some (do { ls \<leftarrow> map_of leaders lastTermWithLeader; go_nth ls 0 })
         else Some None)"

fun checkOneLeader :: "(bool \<times> int \<times> bool) list list \<Rightarrow> int option" where
  "checkOneLeader [] = None"
| "checkOneLeader (obs # rounds) =
     (case checkOneLeader_round obs of
        None \<Rightarrow> None
      | Some (Some l) \<Rightarrow> Some l
      | Some None \<Rightarrow> checkOneLeader rounds)"

definition checkTerms :: "(bool \<times> int) list \<Rightarrow> int option" where
  "checkTerms obs = foldl (\<lambda>st (connected, xterm). do {
       term \<leftarrow> st;
       if \<not> connected then Some term
       else if term = -1 then Some xterm
       else if term \<noteq> xterm then None else Some term
     }) (Some (-1)) obs"

definition checkNoLeader :: "(bool \<times> bool) list \<Rightarrow> bool" where
  "checkNoLeader obs = list_all (\<lambda>(connected, leader). \<not> (connected \<and> leader)) obs"

section \<open>Agreement\<close>

text \<open>The messages of all apply channels, in the order in which the services read them.\<close>

fun appliers :: "'c rtest \<Rightarrow> (int \<times> ('c, 'c snap) ApplyMsg) list \<Rightarrow> 'c rtest option" where
  "appliers ts [] = Some ts"
| "appliers ts ((i, m) # ms) = Option.bind (applier ts i m) (\<lambda>ts. appliers ts ms)"

definition logs_agree :: "'c rtest \<Rightarrow> bool" where
  "logs_agree ts \<longleftrightarrow> (\<forall>rs \<in> set (rt_srvs ts). \<forall>rs' \<in> set (rt_srvs ts). \<forall>k v w.
     rs_logs rs k = Some v \<longrightarrow> rs_logs rs' k = Some w \<longrightarrow> v = w)"

definition logs_dense :: "'c rtest \<Rightarrow> bool" where
  "logs_dense ts \<longleftrightarrow> (\<forall>rs \<in> set (rt_srvs ts). \<forall>k > 1. rs_logs rs k \<noteq> None \<longrightarrow> rs_logs rs (k - 1) \<noteq> None)"

lemma applier_effect:
  assumes "applier ts i m = Some ts'" "CommandValid m"
  defines "rs \<equiv> rt_srvs ts ! nat i"
  shows "rs \<in> set (rt_srvs ts)"
    "rt_srvs ts' = (rt_srvs ts)[nat i := rs\<lparr>rs_logs := (rs_logs rs)(CommandIndex m \<mapsto> am_Command m)\<rparr>]"
    "\<And>rs' v. rs' \<in> set (rt_srvs ts) \<Longrightarrow> rs_logs rs' (CommandIndex m) = Some v \<Longrightarrow> v = am_Command m"
    "CommandIndex m > 1 \<Longrightarrow> rs_logs rs (CommandIndex m - 1) \<noteq> None"
proof -
  from assms(1,2) have a: "0 \<le> i" "i < int (length (rt_srvs ts))"
    "rt_srvs ts' = (rt_srvs ts)[nat i := rs\<lparr>rs_logs := (rs_logs rs)(CommandIndex m \<mapsto> am_Command m)\<rparr>]"
    "\<not> list_ex (\<lambda>rs. case Logs rs (CommandIndex m) of Some old \<Rightarrow> old \<noteq> am_Command m | None \<Rightarrow> False) (rt_srvs ts)"
    "CommandIndex m > 1 \<Longrightarrow> rs_logs rs (CommandIndex m - 1) \<noteq> None"
    by (auto simp: applier_def checkLogs_def go_simps Let_def rs_def split: if_splits)
  from a(1,2) show "rs \<in> set (rt_srvs ts)" by (simp add: rs_def nat_less_iff)
  from a(4) show "v = am_Command m" if "rs' \<in> set (rt_srvs ts)" "rs_logs rs' (CommandIndex m) = Some v" for rs' v
    using that by (fastforce simp: list_ex_iff Logs_def)
  from a(3,5) show
    "rt_srvs ts' = (rt_srvs ts)[nat i := rs\<lparr>rs_logs := (rs_logs rs)(CommandIndex m \<mapsto> am_Command m)\<rparr>]"
    "CommandIndex m > 1 \<Longrightarrow> rs_logs rs (CommandIndex m - 1) \<noteq> None" by auto
qed

lemma set_update_cases:
  "x \<in> set (xs[i := y]) \<Longrightarrow> x = y \<or> x \<in> set xs"
  using set_update_subset_insert [of xs i y] by auto

lemma applier_agree:
  assumes "applier ts i m = Some ts'" "logs_agree ts" "logs_dense ts"
  shows "logs_agree ts' \<and> logs_dense ts'"
proof (cases "CommandValid m")
  case True
  define rs where "rs = rt_srvs ts ! nat i"
  note eff = applier_effect [OF assms(1) True, folded rs_def]
  let ?rs = "rs\<lparr>rs_logs := (rs_logs rs)(CommandIndex m \<mapsto> am_Command m)\<rparr>"
  note rs = eff(1)
  have mem: "x = ?rs \<or> x \<in> set (rt_srvs ts)" if "x \<in> set (rt_srvs ts')" for x
    using that eff(2) by (simp add: set_update_cases)
  have ag: "v = w" if "x \<in> set (rt_srvs ts)" "y \<in> set (rt_srvs ts)" "rs_logs x k = Some v" "rs_logs y k = Some w" for x y k v w
    using that assms(2) by (auto simp: logs_agree_def)
  have new: "v = w" if "x \<in> set (rt_srvs ts)" "rs_logs x k = Some v" "rs_logs ?rs k = Some w" for x k v w
    using that eff(3) [OF that(1)] ag [OF that(1) rs that(2)] by (auto split: if_splits)
  have "logs_agree ts'"
    unfolding logs_agree_def
  proof (intro ballI allI impI)
    fix x y k v w
    assume "x \<in> set (rt_srvs ts')" "y \<in> set (rt_srvs ts')" and l: "rs_logs x k = Some v" "rs_logs y k = Some w"
    then have "x = ?rs \<or> x \<in> set (rt_srvs ts)" "y = ?rs \<or> y \<in> set (rt_srvs ts)" using mem by auto
    with l ag new show "v = w" by (metis option.inject)
  qed
  moreover have "logs_dense ts'"
    unfolding logs_dense_def
  proof (intro ballI allI impI)
    fix x k assume x: "x \<in> set (rt_srvs ts')" and k: "1 < k" "rs_logs x k \<noteq> None"
    have d: "rs_logs y (k - 1) \<noteq> None" if "y \<in> set (rt_srvs ts)" "rs_logs y k \<noteq> None" for y
      using assms(3) that k(1) unfolding logs_dense_def by simp
    from mem [OF x] show "rs_logs x (k - 1) \<noteq> None"
    proof
      assume "x = ?rs"
      with k d [OF rs] eff(4) show ?thesis by (auto split: if_splits)
    next
      assume "x \<in> set (rt_srvs ts)"
      with k d show ?thesis by simp
    qed
  qed
  ultimately show ?thesis by simp
qed (use assms in \<open>simp add: applier_def\<close>)

lemma appliers_agree:
  "appliers ts ms = Some ts' \<Longrightarrow> logs_agree ts \<Longrightarrow> logs_dense ts \<Longrightarrow> logs_agree ts' \<and> logs_dense ts'"
proof (induction ms arbitrary: ts)
  case (Cons x ms)
  then show ?case using applier_agree by (cases x) (fastforce simp: go_simps)
qed simp

lemma nCommitted_loop_agree:
  assumes "\<And>rs v. rs \<in> set rss \<Longrightarrow> rs_logs rs index = Some v \<Longrightarrow> v = c" "count > 0 \<Longrightarrow> cmd = c" "0 \<le> count"
  shows "nCommitted_loop index rss (count, cmd) =
    Some (count + int (length (filter (\<lambda>rs. rs_logs rs index \<noteq> None) rss)),
          if \<exists>rs \<in> set rss. rs_logs rs index \<noteq> None then c else cmd)"
  using assms
proof (induction rss arbitrary: count cmd)
  case (Cons rs rss)
  have tl: "v = c" if "rs' \<in> set rss" "rs_logs rs' index = Some v" for rs' v
    using Cons.prems(1) [of rs' v] that by simp
  show ?case
  proof (cases "rs_logs rs index")
    case None
    with Cons.IH [OF tl Cons.prems(2,3)] show ?thesis by (simp add: Logs_def)
  next
    case (Some v)
    with Cons.prems(1) [of rs v] have "v = c" by simp
    moreover have "\<not> (0 < count \<and> cmd \<noteq> c)" using Cons.prems(2) by auto
    moreover have "0 \<le> count + 1" using Cons.prems(3) by simp
    ultimately show ?thesis using Some Cons.IH [of "count + 1" c, OF tl] by (simp add: Logs_def)
  qed
qed simp

section \<open>Collecting leaders\<close>

definition leaders_at :: "(int \<times> int list) list \<Rightarrow> int \<Rightarrow> int list" where
  "leaders_at m t = (case map_of m t of Some ls \<Rightarrow> ls | None \<Rightarrow> [])"

definition leads :: "(bool \<times> int \<times> bool) list \<Rightarrow> int \<Rightarrow> int \<Rightarrow> bool" where
  "leads obs t i \<longleftrightarrow> go_nth obs i = Some (True, t, True)"

definition leaders_wf :: "(int \<times> int list) list \<Rightarrow> bool" where
  "leaders_wf m \<longleftrightarrow> distinct (map fst m) \<and> (\<forall>(t, ls) \<in> set m. ls \<noteq> [])"

lemma add_leader_keys: "fst ` set (add_leader t i m) = insert t (fst ` set m)"
proof (induction m)
  case (Cons x m)
  then show ?case by (cases x) (simp add: insert_commute)
qed simp

lemma add_leader_wf: "leaders_wf m \<Longrightarrow> leaders_wf (add_leader t i m)"
  by (induction m) (auto simp: leaders_wf_def add_leader_keys split: if_splits)

lemma add_leader_at: "leaders_at (add_leader t i m) t' = leaders_at m t' @ (if t' = t then [i] else [])"
  by (induction m) (auto simp: leaders_at_def)

lemma collect_leaders_wf: "leaders_wf m \<Longrightarrow> leaders_wf (collect_leaders i obs m)"
  by (induction i obs m rule: collect_leaders.induct) (auto simp: add_leader_wf)

lemma collect_leaders_at:
  "leaders_at (collect_leaders i obs m) t =
     leaders_at m t @ map (\<lambda>k. i + int k) (filter (\<lambda>k. obs ! k = (True, t, True)) [0..<length obs])"
proof (induction i obs m rule: collect_leaders.induct)
  case (2 i connected "term" leader obs m)
  have "filter (\<lambda>k. ((connected, term, leader) # obs) ! k = (True, t, True)) [0..<Suc (length obs)]
    = (if (connected, term, leader) = (True, t, True) then [0] else [])
      @ map Suc (filter (\<lambda>k. obs ! k = (True, t, True)) [0..<length obs])"
    by (simp add: upt_conv_Cons map_Suc_upt [symmetric] filter_map comp_def del: upt_Suc)
  then show ?case
    using 2 by (simp add: add_leader_at comp_def add.commute add.left_commute del: upt_Suc)
qed simp

text \<open>The map holds, for each term, the connected leaders of that term.\<close>

lemma collected:
  assumes "(t, ls) \<in> set (collect_leaders 0 obs [])"
  shows "ls = map int (filter (\<lambda>k. obs ! k = (True, t, True)) [0..<length obs])" "ls \<noteq> []"
    "\<And>i. i \<in> set ls \<longleftrightarrow> leads obs t i"
proof -
  let ?m = "collect_leaders 0 obs []"
  have wf: "leaders_wf ?m" by (rule collect_leaders_wf) (simp add: leaders_wf_def)
  with assms have "map_of ?m t = Some ls" by (simp add: leaders_wf_def)
  then have "leaders_at ?m t = ls" by (simp add: leaders_at_def)
  then show ls: "ls = map int (filter (\<lambda>k. obs ! k = (True, t, True)) [0..<length obs])"
    using collect_leaders_at [of 0 obs "[]" t] by (simp add: leaders_at_def)
  show "ls \<noteq> []" using wf assms by (auto simp: leaders_wf_def)
  show "i \<in> set ls \<longleftrightarrow> leads obs t i" for i
    by (cases i) (auto simp: ls leads_def go_nth_def)
qed

lemma collected_exists:
  assumes "leads obs t i"
  shows "\<exists>ls. (t, ls) \<in> set (collect_leaders 0 obs [])"
proof -
  from assms have "nat i \<in> set (filter (\<lambda>k. obs ! k = (True, t, True)) [0..<length obs])"
    by (auto simp: leads_def go_nth_Some nat_less_iff)
  then have "leaders_at (collect_leaders 0 obs []) t \<noteq> []"
    using collect_leaders_at [of 0 obs "[]" t] by (auto simp: filter_empty_conv)
  then show ?thesis by (auto simp: leaders_at_def dest: map_of_SomeD split: option.splits)
qed

lemma foldl_last_term:
  "foldl (\<lambda>l (t, ls). if t > l then t else l) a m = Max (insert a (fst ` set m))" for a :: int
proof (induction m arbitrary: a)
  case (Cons x m)
  obtain t ls where "x = (t, ls)" by fastforce
  with Cons [of "max a t"] show ?case
    by (simp add: if_less_max insert_commute Max_insert2 max.assoc) (cases "set m = {}"; simp add: max.assoc max.commute max.left_commute)
qed simp

text \<open>A round in which no term has two leaders finds the leader of the largest term.\<close>

lemma checkOneLeader_round_ok:
  assumes uniq: "\<And>t i j. leads obs t i \<Longrightarrow> leads obs t j \<Longrightarrow> i = j" and pos: "\<And>t i. leads obs t i \<Longrightarrow> 0 \<le> t"
  shows "(\<exists>t l. checkOneLeader_round obs = Some (Some l) \<and> leads obs t l \<and> (\<forall>t' j. leads obs t' j \<longrightarrow> t' \<le> t))
    \<or> checkOneLeader_round obs = Some None \<and> (\<forall>t i. \<not> leads obs t i)"
proof -
  let ?m = "collect_leaders 0 obs []"
  have wf: "leaders_wf ?m" by (rule collect_leaders_wf) (simp add: leaders_wf_def)
  have "length ls \<le> 1" if "(t, ls) \<in> set ?m" for t ls
  proof -
    have "distinct ls" by (simp add: collected(1) [OF that] distinct_map)
    moreover have "card (set ls) \<le> Suc 0" using collected(3) [OF that] uniq by (simp add: card_le_Suc0_iff_eq)
    ultimately show ?thesis by (simp add: distinct_card)
  qed
  then have ok: "\<not> list_ex (\<lambda>(t, ls). 1 < length ls) ?m" by (fastforce simp: list_ex_iff)
  show ?thesis
  proof (cases "?m = []")
    case True
    then show ?thesis using ok collected_exists [of obs] by (auto simp: checkOneLeader_round_def)
  next
    case False
    define t where "t = Max (fst ` set ?m)"
    from False have "t \<in> fst ` set ?m" unfolding t_def by (intro Max_in) auto
    then obtain ls where ls: "(t, ls) \<in> set ?m" by auto
    note c = collected [OF ls]
    from c(2) obtain l where l: "go_nth ls 0 = Some l" "l \<in> set ls" by (cases ls) (auto simp: go_nth_def)
    then have lead: "leads obs t l" using c(3) by simp
    have max: "t' \<le> t" if "leads obs t' j" for t' j
      using collected_exists [OF that] unfolding t_def by (auto intro!: Max_ge rev_image_eqI)
    have "Max (insert (-1) (fst ` set ?m)) = t"
      using False pos [OF lead] by (simp add: t_def Max_insert)
    then have "checkOneLeader_round obs = Some (Some l)"
      using ok False ls wf l(1) by (simp add: checkOneLeader_round_def foldl_last_term leaders_wf_def)
    with lead max show ?thesis by blast
  qed
qed

section \<open>Properties\<close>

text \<open>What the round reads: peer \<open>i\<close> is asked at the \<open>i\<close>-th of a sequence of moments of a run.\<close>

definition observe :: "('c, 'd) cluster list \<Rightarrow> bool list \<Rightarrow> (bool \<times> int \<times> bool) list" where
  "observe ss con = map (\<lambda>i. (con ! i, GetState (nodes (ss ! i) (int i)))) [0..<length ss]"

lemma moments_run:
  assumes "\<And>i. Suc i < length ss \<Longrightarrow> cl_run n (ss ! i) (ss ! Suc i)" "i \<le> j" "j < length ss"
  shows "cl_run n (ss ! i) (ss ! j)"
  using assms(2,3)
proof (induction rule: dec_induct)
  case base
  show ?case by (rule cl_refl)
next
  case (step k)
  have "cl_run n s s''" if "cl_run n s' s''" "cl_run n s s'" for s s' s'' :: "('a, 'b) cluster"
    using that by (induction rule: cl_run.induct) (auto intro: cl_trans)
  from this [OF assms(1) [of k] step.IH] step.prems show ?case by simp
qed

lemma observe_leads:
  assumes "leads (observe ss con) t i"
  shows "0 \<le> i" "nat i < length ss" "role (nodes (ss ! nat i) i) = Leader" "currentTerm (nodes (ss ! nat i) i) = t"
  using assms by (auto simp: leads_def observe_def GetState_def go_nth_def nat_less_iff split: if_splits)

text \<open>
  C26: the one-leader check.  In a run of a cluster of \<open>n\<close> peers, with \<^verbatim>\<open>checkOneLeader\<close> asking the peers one
  after the other while the cluster goes on running, a round never fails with two leaders of one term: it
  returns a connected peer that said it was the leader, of the largest term any connected leader reported, or
  finds that no connected peer said it was the leader.
\<close>

theorem checkOneLeader_sound:
  assumes "cl_run n (cl_init n now) (ss ! 0)" "\<And>i. Suc i < length ss \<Longrightarrow> cl_run n (ss ! i) (ss ! Suc i)"
    and "int (length ss) = n"
  shows "(\<exists>t l. checkOneLeader_round (observe ss con) = Some (Some l) \<and> leads (observe ss con) t l
        \<and> (\<forall>t' j. leads (observe ss con) t' j \<longrightarrow> t' \<le> t))
    \<or> checkOneLeader_round (observe ss con) = Some None \<and> (\<forall>t i. \<not> leads (observe ss con) t i)"
proof (rule checkOneLeader_round_ok)
  have init: "elect_inv n (cl_init n now)" by (rule cl_init_elect_inv)
  have inv: "elect_inv n (ss ! k)" "currentTerm (nodes (ss ! k) q) \<ge> 0" if "k < length ss" for k q
  proof -
    from moments_run [OF assms(2), of 0 k] that have r: "cl_run n (ss ! 0) (ss ! k)" by simp
    have i0: "elect_inv n (ss ! 0)" by (rule cl_run_elect_inv [OF assms(1) init])
    then show "elect_inv n (ss ! k)" by (rule cl_run_elect_inv [OF r])
    have "currentTerm (nodes (cl_init n now :: ('a, 'b) cluster) q) = 0"
      by (simp add: cl_init_def Make_def readPersist_def Let_def)
    with cl_run_term [OF assms(1) init, of q] cl_run_term [OF r i0, of q] show "currentTerm (nodes (ss ! k) q) \<ge> 0" by simp
  qed
  show "0 \<le> t" if "leads (observe ss con) t i" for t i
    using observe_leads [OF that] inv(2) [of "nat i" i] by simp
  have le: "i = j" if "leads (observe ss con) t i" "leads (observe ss con) t j" "nat i \<le> nat j" for t i j
  proof -
    note a = observe_leads [OF that(1)] and b = observe_leads [OF that(2)]
    have "i < n" "j < n" using a(1,2) b(1,2) assms(3) by linarith+
    then show ?thesis
      using leader_unique [OF inv(1) [OF a(2)] moments_run [OF assms(2) that(3) b(2)] a(1) _ a(3) b(1) _ b(3)] a(4) b(4)
      by simp
  qed
  show "i = j" if "leads (observe ss con) t i" "leads (observe ss con) t j" for t i j
    using le [OF that] le [OF that(2,1)] by linarith
qed

theorem checkOneLeader_sound_witness:
  "\<exists>s l. cl_run 3 (cl_init 3 0 :: (nat, nat) cluster) s
     \<and> checkOneLeader_round (observe [s, s, s] [True, True, True]) = Some (Some l)"
proof -
  obtain s where s: "cl_run 3 (cl_init 3 0 :: (nat, nat) cluster) s" "role (nodes s 0) = Leader" "currentTerm (nodes s 0) = 1"
    using demo_cluster_run by blast
  then have "leads (observe [s, s, s] [True, True, True]) 1 0"
    by (simp add: leads_def observe_def go_nth_def GetState_def)
  moreover have "cl_run 3 ([s, s, s] ! i) ([s, s, s] ! Suc i)" if "Suc i < length [s, s, s]" for i
    using that by (auto simp: less_Suc_eq intro: cl_refl)
  ultimately show ?thesis
    using checkOneLeader_sound [of 3 0 "[s, s, s]" "[True, True, True]"] s(1) by (auto intro: exI [of _ s])
qed

text \<open>
  C27: the agreement check.  If the services read any messages from the peers' apply channels, in any
  interleaving, and no check fails, then no two of them have recorded different commands at the same index, no
  service has an entry after the first without the entry before it, and \<^verbatim>\<open>nCommitted\<close> counts exactly the
  services with an entry and returns the command all of them have.
\<close>

theorem appliers_sound:
  assumes "appliers ts ms = Some ts'" "\<forall>rs \<in> set (rt_srvs ts). rs_logs rs = Map.empty"
  shows "logs_agree ts' \<and> logs_dense ts'
    \<and> (\<forall>index. \<exists>c. nCommitted ts' index = Some (int (length (filter (\<lambda>rs. rs_logs rs index \<noteq> None) (rt_srvs ts'))), c)
         \<and> (\<forall>rs \<in> set (rt_srvs ts'). rs_logs rs index = None \<or> rs_logs rs index = Some c))"
proof -
  from assms(2) have "logs_agree ts" "logs_dense ts" by (auto simp: logs_agree_def logs_dense_def)
  with appliers_agree [OF assms(1)] have ag: "logs_agree ts'" "logs_dense ts'" by auto
  have "\<exists>c. nCommitted ts' index = Some (int (length (filter (\<lambda>rs. rs_logs rs index \<noteq> None) (rt_srvs ts'))), c)
         \<and> (\<forall>rs \<in> set (rt_srvs ts'). rs_logs rs index = None \<or> rs_logs rs index = Some c)" for index
  proof (cases "\<exists>rs \<in> set (rt_srvs ts'). rs_logs rs index \<noteq> None")
    case True
    then obtain rs c where rs: "rs \<in> set (rt_srvs ts')" "rs_logs rs index = Some c" by auto
    have all: "v = c" if "rs' \<in> set (rt_srvs ts')" "rs_logs rs' index = Some v" for rs' v
      using ag(1) rs that by (auto simp: logs_agree_def)
    from nCommitted_loop_agree [of "rt_srvs ts'" index c 0 None, OF all] True
    have "nCommitted ts' index = Some (int (length (filter (\<lambda>rs. rs_logs rs index \<noteq> None) (rt_srvs ts'))), c)"
      by (simp add: nCommitted_def)
    moreover have "rs_logs rs' index = None \<or> rs_logs rs' index = Some c" if "rs' \<in> set (rt_srvs ts')" for rs'
      using all [OF that] by (cases "rs_logs rs' index") auto
    ultimately show ?thesis by blast
  next
    case False
    then show ?thesis
      using nCommitted_loop_agree [of "rt_srvs ts'" index None 0 None] by (auto simp: nCommitted_def)
  qed
  with ag show ?thesis by blast
qed

definition demo_apply :: "int \<Rightarrow> nat \<Rightarrow> (nat, nat snap) ApplyMsg" where
  "demo_apply index c = \<lparr>CommandValid = True, am_Command = Some c, CommandIndex = index, SnapshotValid = False,
     am_Snapshot = [], SnapshotTerm = 0, SnapshotIndex = 0\<rparr>"

definition demo_rtest :: "nat rtest" where
  "demo_rtest = \<lparr>rt_srvs = replicate 2 \<lparr>rs_me = 0, rs_lastApplied = 0, rs_logs = Map.empty, rs_raft = None\<rparr>, rt_maxIndex = 0\<rparr>"

theorem appliers_sound_witness:
  "\<exists>ts'. appliers demo_rtest [(0, demo_apply 1 7), (1, demo_apply 1 7), (0, demo_apply 2 8)] = Some ts' \<and> logs_agree ts'"
proof -
  obtain ts' where t: "appliers demo_rtest [(0, demo_apply 1 7), (1, demo_apply 1 7), (0, demo_apply 2 8)] = Some ts'"
    by (simp add: applier_def checkLogs_def demo_apply_def demo_rtest_def go_nth_def go_set_def Logs_def numeral_2_eq_2 Let_def)
  moreover have "\<forall>rs \<in> set (rt_srvs demo_rtest). rs_logs rs = Map.empty" by (simp add: demo_rtest_def)
  ultimately show ?thesis using appliers_sound by blast
qed

text \<open>The snapshot a service makes at an index gives a service that ingests it the same log up to there.\<close>

lemma ingestSnap_round_trip:
  assumes "0 \<le> index"
  shows "\<exists>rs'. ingestSnap rs0 (encodeLogs rs index) index = Some rs' \<and> rs_lastApplied rs' = index
    \<and> (\<forall>j. 0 \<le> j \<and> j \<le> index \<and> rs_logs rs j \<noteq> None \<longrightarrow> rs_logs rs' j = rs_logs rs j) \<and> (\<forall>j > index. rs_logs rs' j = None)"
  using assms by (auto simp: ingestSnap_def encodeLogs_def logs_of_def go_nth_def nth_upto)

end
