(* ===== verification/RaftDriver.thy ===== *)
theory RaftDriver
  imports RaftTester KvTest
begin

text \<open>
  The part of \<^verbatim>\<open>raft1/test.go\<close> that drives a cluster: submitting a command until enough servers have committed it (\<open>one\<close>), waiting for a commit (\<open>wait\<close>) and checking that
  there is none.  The driver polls, so the clock, the finished flag and the annotations are part of its world.  What the cluster does while the driver sleeps is
  the argument \<open>sleep\<close>; formatting of commands (\<^verbatim>\<open>%v\<close>) is the argument \<open>show\<close>.  Times are in nanoseconds.
\<close>

section \<open>The driver\<close>

record 'c dworld =
  dw_ts :: "'c rtest"
  dw_conn :: "bool list"
  dw_finished :: bool
  dw_now :: int
  dw_ann :: astate

definition ms :: "int \<Rightarrow> int" where
  "ms k = k * 1000000"

fun or_fatal :: "'a option \<Rightarrow> 'a outcome" where
  "or_fatal None = Fatal"
| "or_fatal (Some x) = Done x"

definition noted :: "(int \<Rightarrow> astate \<Rightarrow> astate option) \<Rightarrow> 'c dworld \<Rightarrow> 'c dworld outcome" where
  "noted f w = obind (or_fatal (f (dw_now w) (dw_ann w))) (\<lambda>an. Done (w\<lparr>dw_ann := an\<rparr>))"

definition checkFinished :: "'c dworld \<Rightarrow> bool" where
  "checkFinished w = dw_finished w"

definition mksrv :: "bool \<Rightarrow> int \<Rightarrow> ('c LogEntry list gob, 'c snap) Persister \<Rightarrow> int \<Rightarrow> 'c rtest \<Rightarrow> 'c rtest option" where
  "mksrv snap srv ps now ts = do {
     s \<leftarrow> newRfsrv (int (length (rt_srvs ts))) srv ps snap now;
     srvs \<leftarrow> go_set (rt_srvs ts) srv s;
     Some (ts\<lparr>rt_srvs := srvs\<rparr>)
   }"

definition checkNoAgreement :: "int \<Rightarrow> 'c dworld \<Rightarrow> 'c dworld outcome" where
  "checkNoAgreement index w =
     obind (noted (AnnotateCheckerBegin (''checking no unexpected agreement at index '' @ fmt_int index)) w) (\<lambda>w.
     obind (or_fatal (nCommitted (dw_ts w) index)) (\<lambda>(n, _).
       if n > 0 then Fatal
       else noted (AnnotateCheckerSuccess (''no unexpected agreement at index '' @ fmt_int index) ''OK'') w))"

text \<open>The inner loop of \<open>one\<close> that tries all servers, of which \<open>k\<close> are left; the result is the index, -1 if nobody accepted the command, and the last
  server tried.\<close>

fun one_start :: "nat \<Rightarrow> 'c \<Rightarrow> int \<Rightarrow> 'c dworld \<Rightarrow> (int \<times> int \<times> 'c dworld) outcome" where
  "one_start 0 cmd starts w = Done (-1, starts, w)"
| "one_start (Suc k) cmd starts w =
     obind (or_fatal (go_mod (starts + 1) (int (length (rt_srvs (dw_ts w)))))) (\<lambda>starts.
     obind (or_fatal (go_nth (dw_conn w) starts)) (\<lambda>connected.
       if connected then
         obind (or_fatal (go_nth (rt_srvs (dw_ts w)) starts)) (\<lambda>rs.
           case rs_raft rs of
             None \<Rightarrow> one_start k cmd starts w
           | Some rf \<Rightarrow>
               (let (rf, index1, term, ok) = Start rf cmd;
                    w = w\<lparr>dw_ts := (dw_ts w)\<lparr>rt_srvs := (rt_srvs (dw_ts w))[nat starts := rs\<lparr>rs_raft := Some rf\<rparr>]\<rparr>\<rparr>
                in if ok then Done (index1, starts, w) else one_start k cmd starts w))
       else one_start k cmd starts w))"

text \<open>Waiting for agreement, at most two seconds: whether it was reached.\<close>

fun one_wait :: "nat \<Rightarrow> (int \<Rightarrow> 'c dworld \<Rightarrow> 'c dworld) \<Rightarrow> 'c \<Rightarrow> int \<Rightarrow> int \<Rightarrow> int \<Rightarrow> 'c dworld \<Rightarrow> (bool \<times> 'c dworld) outcome" where
  "one_wait 0 sleep cmd expectedServers index t1 w = Running"
| "one_wait (Suc n) sleep cmd expectedServers index t1 w =
     (if dw_now w - t1 < ms 2000 then
        obind (or_fatal (nCommitted (dw_ts w) index)) (\<lambda>(nd, cmd1).
          if nd > 0 \<and> nd \<ge> expectedServers \<and> cmd1 = Some cmd then Done (True, w)
          else one_wait n sleep cmd expectedServers index t1 (sleep (ms 20) w))
      else Done (False, w))"

fun one_loop :: "nat \<Rightarrow> (int \<Rightarrow> 'c dworld \<Rightarrow> 'c dworld) \<Rightarrow> string \<Rightarrow> 'c \<Rightarrow> int \<Rightarrow> bool \<Rightarrow> int \<Rightarrow> int \<Rightarrow> 'c dworld \<Rightarrow> (int \<times> 'c dworld) outcome" where
  "one_loop 0 sleep textcmd cmd expectedServers retry t0 starts w = Running"
| "one_loop (Suc n) sleep textcmd cmd expectedServers retry t0 starts w =
     (if dw_now w - t0 < ms 10000 \<and> \<not> checkFinished w then
        obind (one_start (length (rt_srvs (dw_ts w))) cmd starts w) (\<lambda>(index, starts, w).
          if index \<noteq> -1 then
            obind (one_wait 101 sleep cmd expectedServers index (dw_now w) w) (\<lambda>(agreed, w).
              if agreed then
                obind (noted (AnnotateCheckerSuccess (''agreement of '' @ take 8 textcmd @ '' reached'') ''OK'') w) (\<lambda>w. Done (index, w))
              else if \<not> retry then Fatal
              else one_loop n sleep textcmd cmd expectedServers retry t0 starts w)
          else one_loop n sleep textcmd cmd expectedServers retry t0 starts (sleep (ms 50) w))
      else if \<not> checkFinished w then Fatal
      else Done (-1, w))"

definition one :: "nat \<Rightarrow> (int \<Rightarrow> 'c dworld \<Rightarrow> 'c dworld) \<Rightarrow> ('c \<Rightarrow> string) \<Rightarrow> 'c \<Rightarrow> int \<Rightarrow> bool \<Rightarrow> 'c dworld \<Rightarrow> (int \<times> 'c dworld) outcome" where
  "one n sleep show cmd expectedServers retry w =
     obind (noted (AnnotateCheckerBegin (''checking agreement of '' @ take 8 (show cmd) @ '' by at least '' @ fmt_int expectedServers @ '' servers ''
         @ (if retry then ''with'' else ''without'') @ '' retry'')) w) (\<lambda>w.
       one_loop n sleep (show cmd) cmd expectedServers retry (dw_now w) 0 w)"

text \<open>Whether some server has moved past the term; a server without a Raft peer would be a nil dereference.\<close>

fun moved_on :: "int \<Rightarrow> 'c rfsrv list \<Rightarrow> bool option" where
  "moved_on startTerm [] = Some False"
| "moved_on startTerm (rs # rss) =
     (case rs_raft rs of None \<Rightarrow> None
      | Some rf \<Rightarrow> if fst (GetState rf) > startTerm then Some True else moved_on startTerm rss)"

text \<open>The loop of \<open>wait\<close>, with the iterations left: whether the function returns -1 because a server has moved on.\<close>

fun wait_loop :: "nat \<Rightarrow> (int \<Rightarrow> 'c dworld \<Rightarrow> 'c dworld) \<Rightarrow> int \<Rightarrow> int \<Rightarrow> int \<Rightarrow> int \<Rightarrow> 'c dworld \<Rightarrow> (bool \<times> 'c dworld) outcome" where
  "wait_loop 0 sleep index n startTerm to w = Done (False, w)"
| "wait_loop (Suc k) sleep index n startTerm to w =
     obind (or_fatal (nCommitted (dw_ts w) index)) (\<lambda>(nd, _).
       if nd \<ge> n then Done (False, w)
       else
         (let w = sleep to w;
              to = (if to < ms 1000 then to * 2 else to)
          in if startTerm > -1 then
               obind (or_fatal (moved_on startTerm (rt_srvs (dw_ts w)))) (\<lambda>moved.
                 if moved then Done (True, w) else wait_loop k sleep index n startTerm to w)
             else wait_loop k sleep index n startTerm to w))"

text \<open>\<open>None\<close> is the returned -1, \<open>Some cmd\<close> the command.\<close>

definition wait :: "(int \<Rightarrow> 'c dworld \<Rightarrow> 'c dworld) \<Rightarrow> int \<Rightarrow> int \<Rightarrow> int \<Rightarrow> 'c dworld \<Rightarrow> ('c option option \<times> 'c dworld) outcome" where
  "wait sleep index n startTerm w =
     obind (wait_loop 30 sleep index n startTerm (ms 10) w) (\<lambda>(moved, w).
       if moved then Done (None, w)
       else obind (or_fatal (nCommitted (dw_ts w) index)) (\<lambda>(nd, cmd). if nd < n then Fatal else Done (Some cmd, w)))"

section \<open>What a count of commits means\<close>

lemma obind_Done: "obind x f = Done y \<longleftrightarrow> (\<exists>z. x = Done z \<and> f z = Done y)"
  by (cases x) auto

lemma or_fatal_Done [simp]: "or_fatal x = Done y \<longleftrightarrow> x = Some y"
  by (cases x) auto

lemma or_fatal_Running [simp]: "or_fatal x \<noteq> Running"
  by (cases x) auto

lemma obind_Running: "obind x f = Running \<longleftrightarrow> x = Running \<or> (\<exists>z. x = Done z \<and> f z = Running)"
  by (cases x) auto

definition committed_by :: "'c rtest \<Rightarrow> int \<Rightarrow> 'c option \<Rightarrow> 'c rfsrv list" where
  "committed_by ts index cmd = filter (\<lambda>rs. Logs rs index = Some cmd) (rt_srvs ts)"

lemma nCommitted_loop_count:
  assumes "nCommitted_loop index rss (count, cmd) = Some (n, c)" "0 \<le> count"
  shows "n = count + int (length (filter (\<lambda>rs. Logs rs index \<noteq> None) rss)) \<and> (0 < count \<longrightarrow> c = cmd)
    \<and> (\<forall>rs \<in> set rss. \<forall>v. Logs rs index = Some v \<longrightarrow> v = c)"
  using assms
proof (induction rss arbitrary: count cmd)
  case (Cons rs rss)
  show ?case
  proof (cases "Logs rs index")
    case None
    with Cons show ?thesis by simp
  next
    case (Some v)
    with Cons.prems have "nCommitted_loop index rss (count + 1, v) = Some (n, c)" "\<not> (0 < count \<and> cmd \<noteq> v)" by (auto split: if_splits)
    from Cons.IH [OF this(1)] this(2) Cons.prems(2) Some show ?thesis by auto
  qed
qed simp

lemma nCommitted_by:
  assumes "nCommitted ts index = Some (n, c)"
  shows "n = int (length (committed_by ts index c)) \<and> (\<forall>rs \<in> set (rt_srvs ts). \<forall>v. Logs rs index = Some v \<longrightarrow> v = c)"
proof -
  note count = nCommitted_loop_count [OF assms [unfolded nCommitted_def]]
  then have "filter (\<lambda>rs. Logs rs index \<noteq> None) (rt_srvs ts) = committed_by ts index c"
    unfolding committed_by_def by (intro filter_cong) auto
  with count show ?thesis by simp
qed

section \<open>The loops\<close>

definition keeps_time :: "'c dworld \<Rightarrow> (int \<times> int \<times> 'c dworld) outcome \<Rightarrow> bool" where
  "keeps_time w r \<longleftrightarrow> (case r of Running \<Rightarrow> False | Fatal \<Rightarrow> True | Done (i, s, w') \<Rightarrow> dw_now w' = dw_now w)"

lemma keeps_time_obind: "x \<noteq> Running \<Longrightarrow> (\<And>z. x = Done z \<Longrightarrow> keeps_time w (f z)) \<Longrightarrow> keeps_time w (obind x f)"
  by (cases x) (auto simp: keeps_time_def)

lemma one_start_time: "keeps_time w (one_start k cmd starts w)"
proof (induction k arbitrary: starts w)
  case 0
  show ?case by (simp add: keeps_time_def)
next
  case (Suc k)
  have upd: "keeps_time w (one_start k cmd starts (w\<lparr>dw_ts := ts\<rparr>))" for starts ts
    using Suc.IH [of "w\<lparr>dw_ts := ts\<rparr>" starts] by (auto simp: keeps_time_def split: outcome.splits)
  have "keeps_time w (Done (i, s, w\<lparr>dw_ts := ts\<rparr>))" for i s ts by (simp add: keeps_time_def)
  with upd Suc.IH show ?case
    by (auto intro!: keeps_time_obind split: option.split prod.split simp: Let_def)
qed

text \<open>With a clock that advances at least as far as the driver sleeps, \<open>n\<close> rounds are enough when they would cover the time that is left.\<close>

definition clock_runs :: "(int \<Rightarrow> 'c dworld \<Rightarrow> 'c dworld) \<Rightarrow> bool" where
  "clock_runs sleep \<longleftrightarrow> (\<forall>d w. dw_now w + d \<le> dw_now (sleep d w))"

lemma one_wait_returns:
  assumes "clock_runs sleep"
  shows "ms 2000 \<le> int n * ms 20 + (dw_now w - t1) \<Longrightarrow> one_wait (Suc n) sleep cmd es index t1 w \<noteq> Running"
proof (induction n arbitrary: w)
  case (Suc n)
  have "dw_now w + ms 20 \<le> dw_now (sleep (ms 20) w)" using assms by (simp add: clock_runs_def)
  with Suc.prems have "ms 2000 \<le> int n * ms 20 + (dw_now (sleep (ms 20) w) - t1)" by (simp add: algebra_simps)
  from Suc.IH [OF this] show ?case by (subst one_wait.simps) (auto simp: obind_Running simp del: one_wait.simps split: if_splits)
qed simp

lemma one_wait_gives_up: "one_wait n sleep cmd es index t1 w = Done (False, w') \<Longrightarrow> ms 2000 \<le> dw_now w' - t1"
  by (induction n arbitrary: w) (auto simp: obind_Done split: if_splits)

lemma one_wait_agreed:
  "one_wait n sleep cmd es index t1 w = Done (True, w') \<Longrightarrow> \<exists>nd. nCommitted (dw_ts w') index = Some (nd, Some cmd) \<and> nd \<ge> es"
  by (induction n arbitrary: w) (auto simp: obind_Done split: if_splits)

lemma noted_Running: "noted f w \<noteq> Running"
  by (simp add: noted_def obind_Running)

lemma noted_frame: "noted f w = Done w' \<Longrightarrow> dw_ts w' = dw_ts w \<and> dw_now w' = dw_now w"
  by (auto simp: noted_def obind_Done)

lemma one_loop_returns:
  assumes clock: "clock_runs sleep"
  shows "ms 10000 \<le> int n * ms 50 + (dw_now w - t0) \<Longrightarrow> one_loop (Suc n) sleep textcmd cmd es retry t0 starts w \<noteq> Running"
proof (induction n arbitrary: w starts)
  case 0
  then show ?case by simp
next
  case (Suc n)
  let ?loop = "one_loop (Suc n) sleep textcmd cmd es retry t0"
  have loop: "?loop s w' \<noteq> Running" if "dw_now w + ms 50 \<le> dw_now w'" for s w'
    using Suc.prems that by (intro Suc.IH) (simp add: algebra_simps)
  have round: "(if index \<noteq> -1 then obind (one_wait 101 sleep cmd es index (dw_now w1) w1) (\<lambda>(agreed, w).
        if agreed then obind (noted (AnnotateCheckerSuccess (''agreement of '' @ take 8 textcmd @ '' reached'') ''OK'') w) (\<lambda>w. Done (index, w))
        else if \<not> retry then Fatal else ?loop s w) else ?loop s (sleep (ms 50) w1)) \<noteq> Running"
    if "dw_now w1 = dw_now w" for index s w1
  proof (cases "index = -1")
    case True
    moreover have "?loop s (sleep (ms 50) w1) \<noteq> Running" 
      using clock [unfolded clock_runs_def, rule_format, of w1 "ms 50"] that by (intro loop) simp
    ultimately show ?thesis by simp
  next
    case False
    have "one_wait 101 sleep cmd es index (dw_now w1) w1 \<noteq> Running"
      using one_wait_returns [OF clock, of 100 w1 "dw_now w1"] by (simp add: ms_def numeral_eq_Suc)
    moreover have "?loop s w2 \<noteq> Running" if "one_wait 101 sleep cmd es index (dw_now w1) w1 = Done (False, w2)" for w2
      using one_wait_gives_up [OF that] \<open>dw_now w1 = dw_now w\<close> by (intro loop) (simp add: ms_def)
    ultimately show ?thesis using False noted_Running by (auto simp: obind_Running simp del: one_loop.simps split: if_splits)
  qed
  have kt: "keeps_time w (one_start (length (rt_srvs (dw_ts w))) cmd starts w)" by (rule one_start_time)
  show ?case
  proof (cases "one_start (length (rt_srvs (dw_ts w))) cmd starts w")
    case (Done x)
    obtain i s w1 where x: "x = (i, s, w1)" by (cases x)
    with kt Done have "dw_now w1 = dw_now w" by (simp add: keeps_time_def)
    with round [OF this, of i s] Done x show ?thesis by (subst one_loop.simps) (simp del: one_loop.simps)
  qed (use kt in \<open>simp_all add: keeps_time_def\<close>)
qed

lemma one_loop_agreed:
  "one_loop n sleep textcmd cmd es retry t0 starts w = Done (index, w') \<Longrightarrow> index \<noteq> -1 \<Longrightarrow>
     \<exists>nd. nCommitted (dw_ts w') index = Some (nd, Some cmd) \<and> nd \<ge> es"
proof (induction n arbitrary: w starts)
  case (Suc n)
  from Suc.prems obtain i s w1 where 1: "one_start (length (rt_srvs (dw_ts w))) cmd starts w = Done (i, s, w1)"
    and rest: "(if i \<noteq> -1 then obind (one_wait 101 sleep cmd es i (dw_now w1) w1) (\<lambda>(agreed, w).
        if agreed then obind (noted (AnnotateCheckerSuccess (''agreement of '' @ take 8 textcmd @ '' reached'') ''OK'') w) (\<lambda>w. Done (i, w))
        else if \<not> retry then Fatal else one_loop n sleep textcmd cmd es retry t0 s w)
      else one_loop n sleep textcmd cmd es retry t0 s (sleep (ms 50) w1)) = Done (index, w')"
    by (auto simp: obind_Done split: if_splits)
  show ?case
  proof (cases "i = -1")
    case True
    with rest Suc.IH Suc.prems(2) show ?thesis by simp
  next
    case False
    with rest obtain agreed w2 where 2: "one_wait 101 sleep cmd es i (dw_now w1) w1 = Done (agreed, w2)" by (auto simp: obind_Done)
    show ?thesis
    proof (cases agreed)
      case True
      with False rest 2 have "index = i" "dw_ts w' = dw_ts w2" by (auto simp: obind_Done dest: noted_frame)
      with True one_wait_agreed [of 101 sleep cmd es i "dw_now w1" w1 w2] 2 show ?thesis by simp
    next
      case agreed: False
      with False rest 2 Suc.IH Suc.prems(2) show ?thesis by (auto split: if_splits)
    qed
  qed
qed simp

section \<open>Properties\<close>

text \<open>
  C28: A reported agreement is an agreement.  When \<open>one\<close> returns an index, then at that moment at least the expected number of servers have the submitted
  command committed at that index, and no server has another one there.
\<close>

theorem one_agreed:
  assumes "one n sleep shw cmd expectedServers retry w = Done (index, w')" "index \<noteq> -1"
  shows "expectedServers \<le> int (length (committed_by (dw_ts w') index (Some cmd)))
    \<and> (\<forall>rs \<in> set (rt_srvs (dw_ts w')). \<forall>v. Logs rs index = Some v \<longrightarrow> v = Some cmd)"
proof -
  from assms(1) obtain w1 where "one_loop n sleep (shw cmd) cmd expectedServers retry (dw_now w1) 0 w1 = Done (index, w')"
    by (auto simp: one_def obind_Done)
  from one_loop_agreed [OF this assms(2)] show ?thesis using nCommitted_by by blast
qed

text \<open>A cluster of one server, which commits the command while the driver sleeps.\<close>

definition demo_sleep :: "int \<Rightarrow> nat dworld \<Rightarrow> nat dworld" where
  "demo_sleep d w = w\<lparr>dw_now := dw_now w + d, dw_ts := (dw_ts w)\<lparr>rt_srvs := map (\<lambda>rs. rs\<lparr>rs_logs := [1 \<mapsto> Some 7]\<rparr>) (rt_srvs (dw_ts w))\<rparr>\<rparr>"

definition demo_dworld :: "nat dworld" where
  "demo_dworld = \<lparr>dw_ts = \<lparr>rt_srvs = [\<lparr>rs_me = 0, rs_lastApplied = 0, rs_logs = Map.empty, rs_raft = Some ((Make 1 0 MakePersister 0)\<lparr>role := Leader\<rparr>)\<rparr>],
     rt_maxIndex = 0\<rparr>, dw_conn = [True], dw_finished = False, dw_now = 5, dw_ann = astate_init\<lparr>finfo := mkFrameworkInfo 1\<rparr>\<rparr>"

theorem one_agreed_witness:
  "\<exists>w'. one 3 demo_sleep fmt_nat 7 1 False demo_dworld = Done (1, w') \<and> 1 \<le> int (length (committed_by (dw_ts w') 1 (Some 7)))"
proof -
  note defs = demo_dworld_def demo_sleep_def noted_def AnnotateCheckerBegin_def AnnotateCheckerSuccess_def AnnotateCheckerEnd_def mkFrameworkInfo_def
    go_make_def astate_init_def checkFinished_def go_mod_def go_nth_def Start_def Make_def readPersist_def MakePersister_def ReadRaftState_def
    lastLogIndex_def persist_def nCommitted_def Logs_def
  have unfold: "Suc 100 = 101" "Suc 99 = 100" by simp_all
  note wait = one_wait.simps(2) [of 100, unfolded unfold] one_wait.simps(2) [of 99, unfolded unfold]
  obtain w' where "one 3 demo_sleep fmt_nat 7 1 False demo_dworld = Done (1, w')"
    by (simp add: one_def numeral_3_eq_3 defs ms_def Let_def wait)
  with one_agreed [OF this] show ?thesis by auto
qed

text \<open>
  C29: \<open>one\<close> gives up.  If the clock advances while the driver sleeps, then whatever the cluster does, \<open>one\<close> ends: 201 rounds of its loop, and 101 of each
  wait for agreement, are never used up.
\<close>

theorem one_returns:
  assumes "clock_runs sleep" "n \<ge> 201"
  shows "one n sleep shw cmd expectedServers retry w \<noteq> Running"
proof -
  obtain k where n: "n = Suc k" "200 \<le> k" using assms(2) by (cases n) auto
  then have "ms 10000 \<le> int k * ms 50" by (simp add: ms_def)
  then have "one_loop n sleep (shw cmd) cmd expectedServers retry (dw_now w1) 0 w1 \<noteq> Running" for w1
    using one_loop_returns [OF assms(1), of k w1 "dw_now w1"] n(1) by simp
  then show ?thesis by (simp add: one_def obind_Running noted_Running)
qed

theorem one_returns_witness:
  "clock_runs demo_sleep \<and> one 201 demo_sleep fmt_nat 8 1 True demo_dworld \<noteq> Running"
proof -
  have "clock_runs demo_sleep" by (simp add: clock_runs_def demo_sleep_def)
  with one_returns [OF this, of 201] show ?thesis by simp
qed

end
