(* ===== verification/RsmTest.thy ===== *)
theory RsmTest
  imports RaftDriver TestConfig KvRaft
begin

text \<open>
  The driver of the tests of the replicated state machine layer, \<^verbatim>\<open>kvraft1/rsm/test.go\<close>.  The running servers are the argument \<open>sys\<close>: the operations the driver
  calls on them over a world that holds their state and the clock.  \<open>Submit\<close> on a server is one of them; a call that has not returned makes the driver's
  result \<open>Running\<close>.
\<close>

section \<open>The driver\<close>

record ('w, 'q, 'r) rsmsys =
  sy_connected :: "'w \<Rightarrow> bool list"
  sy_alive :: "'w \<Rightarrow> bool list"
  sy_Submit :: "int \<Rightarrow> 'q \<Rightarrow> 'w \<Rightarrow> ((Err \<times> 'r) \<times> 'w) option"
  sy_counters :: "'w \<Rightarrow> int list"
  sy_now :: "'w \<Rightarrow> int"
  sy_sleep :: "int \<Rightarrow> 'w \<Rightarrow> 'w"

record 'w rsmtest =
  rm_world :: 'w
  rm_leader :: int
  rm_ann :: astate

definition NSRV :: nat where "NSRV = 3"

definition NSEC :: int where "NSEC = 10"

fun inPartition :: "int \<Rightarrow> int list option \<Rightarrow> bool" where
  "inPartition s None = True"
| "inPartition s (Some p) = list_ex (\<lambda>i. s = i) p"

text \<open>One round over the servers, of which \<open>k\<close> are left to try: the server that answered and its reply.\<close>

fun onePartition_round :: "('w, 'q, 'r) rsmsys \<Rightarrow> nat \<Rightarrow> int list option \<Rightarrow> 'q \<Rightarrow> int \<Rightarrow> 'w \<Rightarrow> ((int \<times> 'r) option \<times> 'w) outcome" where
  "onePartition_round sys 0 p req index w = Done (None, w)"
| "onePartition_round sys (Suc k) p req index w =
     (let try_next = (\<lambda>w. obind (or_fatal (go_mod (index + 1) (int NSRV))) (\<lambda>index. onePartition_round sys k p req index w))
      in obind (or_fatal (go_nth (sy_connected sys w) index)) (\<lambda>connected.
           if connected then
             obind (or_fatal (go_nth (sy_alive sys w) index)) (\<lambda>alive.
               if alive \<and> inPartition index p then
                 (case sy_Submit sys index req w of
                    None \<Rightarrow> Running
                  | Some ((err, rep), w) \<Rightarrow> if err = OK then Done (Some (index, rep), w) else try_next w)
               else try_next w)
           else try_next w))"

fun onePartition_loop :: "nat \<Rightarrow> ('w, 'q, 'r) rsmsys \<Rightarrow> int list option \<Rightarrow> 'q \<Rightarrow> int \<Rightarrow> 'w rsmtest \<Rightarrow> ('r option \<times> 'w rsmtest) outcome" where
  "onePartition_loop 0 sys p req t0 ts = Running"
| "onePartition_loop (Suc n) sys p req t0 ts =
     (if sy_now sys (rm_world ts) - t0 < ms (NSEC * 1000) then
        obind (onePartition_round sys NSRV p req (rm_leader ts) (rm_world ts)) (\<lambda>(found, w).
          case found of
            Some (index, rep) \<Rightarrow> Done (Some rep, ts\<lparr>rm_world := w, rm_leader := index\<rparr>)
          | None \<Rightarrow> onePartition_loop n sys p req t0 (ts\<lparr>rm_world := sy_sleep sys (ms 50) w\<rparr>))
      else Done (None, ts))"

definition onePartition :: "nat \<Rightarrow> ('w, 'q, 'r) rsmsys \<Rightarrow> int list option \<Rightarrow> 'q \<Rightarrow> 'w rsmtest \<Rightarrow> ('r option \<times> 'w rsmtest) outcome" where
  "onePartition n sys p req ts = onePartition_loop n sys p req (sy_now sys (rm_world ts)) ts"

text \<open>The type assertions on the reply panic on a reply of the other kind.\<close>

definition oneInc :: "nat \<Rightarrow> ('w, counter_req, counter_res) rsmsys \<Rightarrow> 'w rsmtest \<Rightarrow> (int option \<times> 'w rsmtest) outcome" where
  "oneInc n sys ts = obind (onePartition n sys None Inc ts) (\<lambda>(rep, ts).
     case rep of None \<Rightarrow> Done (None, ts) | Some (IncRep k) \<Rightarrow> Done (Some k, ts) | Some NullRep \<Rightarrow> Fatal)"

definition oneNull :: "nat \<Rightarrow> ('w, counter_req, counter_res) rsmsys \<Rightarrow> 'w rsmtest \<Rightarrow> (unit option \<times> 'w rsmtest) outcome" where
  "oneNull n sys ts = obind (onePartition n sys None Null ts) (\<lambda>(rep, ts).
     case rep of None \<Rightarrow> Done (None, ts) | Some NullRep \<Rightarrow> Done (Some (), ts) | Some (IncRep k) \<Rightarrow> Fatal)"

definition countValue :: "int \<Rightarrow> int list \<Rightarrow> int" where
  "countValue v cs = foldl (\<lambda>i c. if c = v then i + 1 else i) 0 cs"

text \<open>The loop of \<open>checkCounter\<close> with the iterations left.\<close>

fun checkCounter_loop :: "nat \<Rightarrow> ('w, 'q, 'r) rsmsys \<Rightarrow> int \<Rightarrow> int \<Rightarrow> int \<Rightarrow> 'w rsmtest \<Rightarrow> 'w rsmtest outcome" where
  "checkCounter_loop 0 sys v nsrv to ts = Fatal"
| "checkCounter_loop (Suc k) sys v nsrv to ts =
     (let n = countValue v (sy_counters sys (rm_world ts))
      in if n \<ge> nsrv then
           (let t = ''all '' @ fmt_int nsrv @ '' servers have counter value '' @ fmt_int v
            in obind (or_fatal (AnnotateCheckerSuccess t t (sy_now sys (rm_world ts)) (rm_ann ts))) (\<lambda>an. Done (ts\<lparr>rm_ann := an\<rparr>)))
         else checkCounter_loop k sys v nsrv (if to < ms 1000 then to * 2 else to) (ts\<lparr>rm_world := sy_sleep sys to (rm_world ts)\<rparr>))"

definition checkCounter :: "('w, 'q, 'r) rsmsys \<Rightarrow> int \<Rightarrow> int \<Rightarrow> 'w rsmtest \<Rightarrow> 'w rsmtest outcome" where
  "checkCounter sys v nsrv ts = checkCounter_loop 30 sys v nsrv (ms 10) ts"

definition disconnectLeader :: "'v ServerGrp \<Rightarrow> Network \<Rightarrow> 'w rsmtest \<Rightarrow> (Network \<times> 'v ServerGrp \<times> int) option" where
  "disconnectLeader sg nw ts = do {
     (nw, sg) \<leftarrow> DisconnectAll sg nw (rm_leader ts);
     Some (nw, sg, rm_leader ts)
   }"

text \<open>\<open>Leader\<close>: the first server of the group one of whose services is a Raft peer (\<open>peer\<close> gives it) that leads.\<close>

fun Leader_loop :: "('v \<Rightarrow> ('c, 'd) Raft option) \<Rightarrow> int \<Rightarrow> 'v list list \<Rightarrow> bool \<times> int" where
  "Leader_loop peer i [] = (False, 0)"
| "Leader_loop peer i (ss # sss) =
     (if list_ex (\<lambda>s. case peer s of None \<Rightarrow> False | Some r \<Rightarrow> snd (GetState r)) ss then (True, i) else Leader_loop peer (i + 1) sss)"

definition cfg_Leader :: "('v \<Rightarrow> ('c, 'd) Raft option) \<Rightarrow> ('r, 's, 'x, 'a, 'b, 'v) Config \<Rightarrow> int \<Rightarrow> (bool \<times> int) option" where
  "cfg_Leader peer cfg gid = do {
     sg \<leftarrow> Group cfg gid;
     Some (Leader_loop peer 0 (Services sg))
   }"

section \<open>What the servers promise\<close>

text \<open>Three servers; every call of \<open>Submit\<close> returns, no later than it started; the clock advances while the driver sleeps.\<close>

definition sys_ok :: "('w, 'q, 'r) rsmsys \<Rightarrow> bool" where
  "sys_ok sys \<longleftrightarrow> (\<forall>w. length (sy_connected sys w) = NSRV \<and> length (sy_alive sys w) = NSRV)
     \<and> (\<forall>i q w. \<exists>e w'. sy_Submit sys i q w = Some (e, w') \<and> sy_now sys w \<le> sy_now sys w')
     \<and> (\<forall>d w. sy_now sys w + d \<le> sy_now sys (sy_sleep sys d w))"

text \<open>A reply came from a server the driver may ask, which is connected and accepted the request.\<close>

definition answered :: "('w, 'q, 'r) rsmsys \<Rightarrow> int list option \<Rightarrow> 'q \<Rightarrow> int \<Rightarrow> 'r \<Rightarrow> bool" where
  "answered sys p req index rep \<longleftrightarrow> 0 \<le> index \<and> index < int NSRV \<and> inPartition index p
     \<and> (\<exists>w w'. sy_connected sys w ! nat index \<and> sy_alive sys w ! nat index \<and> sy_Submit sys index req w = Some ((OK, rep), w'))"

lemma go_mod_next: "0 \<le> index \<Longrightarrow> \<exists>j. go_mod (index + 1) (int NSRV) = Some j \<and> 0 \<le> j \<and> j < int NSRV"
  by (simp add: go_mod_nonneg NSRV_def)

lemma onePartition_round_ok:
  assumes ok: "sys_ok sys" and "0 \<le> index" "index < int NSRV"
  shows "\<exists>found w'. onePartition_round sys k p req index w = Done (found, w') \<and> sy_now sys w \<le> sy_now sys w'
    \<and> (case found of None \<Rightarrow> True | Some (i, rep) \<Rightarrow> answered sys p req i rep)"
  using assms(2,3)
proof (induction k arbitrary: index w)
  case (Suc k)
  from go_mod_next [OF Suc.prems(1)] obtain j where j: "go_mod (index + 1) (int NSRV) = Some j" "0 \<le> j" "j < int NSRV" by blast
  note IH = Suc.IH [OF j(2,3)]
  from ok have len: "length (sy_connected sys w) = NSRV" "length (sy_alive sys w) = NSRV" by (auto simp: sys_ok_def)
  from ok obtain err rep w1 where s: "sy_Submit sys index req w = Some ((err, rep), w1)" "sy_now sys w \<le> sy_now sys w1"
    unfolding sys_ok_def by (metis surj_pair)
  note nth = go_nth_in [of index "sy_connected sys w"] go_nth_in [of index "sy_alive sys w"]
  show ?case
  proof (cases "sy_connected sys w ! nat index \<and> sy_alive sys w ! nat index \<and> inPartition index p")
    case True
    show ?thesis
    proof (cases "err = OK")
      case True
      with \<open>sy_connected sys w ! nat index \<and> sy_alive sys w ! nat index \<and> inPartition index p\<close> Suc.prems s len nth show ?thesis
        by (auto simp: answered_def)
    next
      case False
      with True IH [of w1] Suc.prems s len nth j show ?thesis by (auto intro: order_trans)
    qed
  next
    case False
    with IH [of w] Suc.prems len nth j show ?thesis by (auto simp: Let_def)
  qed
qed simp

lemma onePartition_loop_ok:
  assumes ok: "sys_ok sys"
  shows "0 \<le> rm_leader ts \<Longrightarrow> rm_leader ts < int NSRV \<Longrightarrow> ms (NSEC * 1000) \<le> int n * ms 50 + (sy_now sys (rm_world ts) - t0) \<Longrightarrow>
    \<exists>rep ts'. onePartition_loop (Suc n) sys p req t0 ts = Done (rep, ts')
      \<and> (case rep of Some r \<Rightarrow> answered sys p req (rm_leader ts') r
         | None \<Rightarrow> rm_leader ts' = rm_leader ts \<and> ms (NSEC * 1000) \<le> sy_now sys (rm_world ts') - t0)"
proof (induction n arbitrary: ts)
  case (Suc n)
  show ?case
  proof (cases "sy_now sys (rm_world ts) - t0 < ms (NSEC * 1000)")
    case True
    from onePartition_round_ok [OF ok Suc.prems(1,2), of NSRV p req "rm_world ts"] obtain found w where
      r: "onePartition_round sys NSRV p req (rm_leader ts) (rm_world ts) = Done (found, w)" "sy_now sys (rm_world ts) \<le> sy_now sys w"
      "case found of None \<Rightarrow> True | Some (i, rep) \<Rightarrow> answered sys p req i rep" by blast
    show ?thesis
    proof (cases found)
      case None
      let ?ts = "ts\<lparr>rm_world := sy_sleep sys (ms 50) w\<rparr>"
      have "sy_now sys w + ms 50 \<le> sy_now sys (sy_sleep sys (ms 50) w)" using ok by (simp add: sys_ok_def)
      with Suc.prems r(2) have b: "ms (NSEC * 1000) \<le> int n * ms 50 + (sy_now sys (rm_world ?ts) - t0)" by (simp add: algebra_simps)
      have l: "rm_leader ?ts = rm_leader ts" by simp
      note Suc.IH [of ?ts, unfolded l, OF Suc.prems(1,2) b]
      moreover have "onePartition_loop (Suc (Suc n)) sys p req t0 ts = onePartition_loop (Suc n) sys p req t0 ?ts"
        using True r(1) None by (subst onePartition_loop.simps(2)) (simp del: onePartition_loop.simps)
      ultimately show ?thesis by (simp del: onePartition_loop.simps)
    next
      case (Some x)
      with True r show ?thesis by (cases x) simp
    qed
  qed simp
qed simp


text \<open>Server 1 leads and answers with the number of requests so far; server 0 is cut off.\<close>

definition demo_sys :: "(int \<times> int, counter_req, counter_res) rsmsys" where
  "demo_sys = \<lparr>sy_connected = (\<lambda>_. [False, True, True]), sy_alive = (\<lambda>_. [True, True, True]),
     sy_Submit = (\<lambda>i q (t, c). Some (if i = 1 then ((OK, IncRep (c + 1)), (t, c + 1)) else ((ErrWrongLeader, NullRep), (t, c)))),
     sy_counters = (\<lambda>(t, c). [c, c, c]), sy_now = fst, sy_sleep = (\<lambda>d (t, c). (t + d, c))\<rparr>"


end
