(* ===== verification/ServiceTests.thy ===== *)
theory ServiceTests
  imports ShardKv RsmTest TestSetup RaftDriver
begin

text \<open>
  How the tests of the services are set up and taken down: \<^verbatim>\<open>kvsrv1/test.go\<close>, \<^verbatim>\<open>kvraft1/test.go\<close>, \<^verbatim>\<open>kvraft1/rsm/test.go\<close>, \<^verbatim>\<open>raft1/test.go\<close>, \<^verbatim>\<open>shardkv1/test.go\<close> and
  \<open>Cleanup\<close> of \<^verbatim>\<open>kvtest1/kvtest.go\<close>.  The configuration of the tester is the world of a test.  What starts the servers of a group is an argument where it is a
  Raft service; the key/value server of \<^verbatim>\<open>kvsrv1\<close> is started as it is.  End names, the environment and clock readings are arguments.
\<close>

section \<open>The single-node server\<close>

text \<open>\<open>StartKVServer\<close> makes one service per server.\<close>

definition kvsrv_StartKVServer :: "('r, 's, 'x, 'a, 'b, KVServer) mks" where
  "kvsrv_StartKVServer ends gid srv ps te = (let kv = MakeKVServer in (te, [kv]))"

record ('r, 's, 'x, 'a, 'b) TestKV =
  tk_Test :: "('r, 's, 'x, 'a, 'b, KVServer) Config Test"
  tk_reliable :: bool

definition MakeTestKV :: "(KVServer \<Rightarrow> ('x, 'a, 'b) Service) \<Rightarrow> (nat \<Rightarrow> nat \<Rightarrow> string) \<Rightarrow> (int \<Rightarrow> nat \<Rightarrow> string) \<Rightarrow> ('r, 's, 'x, 'a, 'b) tenv \<Rightarrow> int \<Rightarrow> astate \<Rightarrow> bool
    \<Rightarrow> ('r, 's, 'x, 'a, 'b) TestKV option" where
  "MakeTestKV mkService names names' te now an reliable = do {
     cfg \<leftarrow> MakeConfig fmt_int mkService names names' kvsrv_StartKVServer te now 1 reliable;
     Some \<lparr>tk_Test = MakeTest cfg False an, tk_reliable = reliable\<rparr>
   }"

text \<open>A clerk of the tests: a client of the tester with the name of the server, or the names of the servers, that it talks to.\<close>

definition TestKV_MakeClerk :: "('r, 's, 'x, 'a, 'b, 'v) Config \<Rightarrow> ('r, 's, 'x, 'a, 'b, 'v) Config \<times> nat \<times> string" where
  "TestKV_MakeClerk cfg =
     (let (cs, clnt) = MakeClient (cf_Clnts cfg)
      in (cfg\<lparr>cf_Clnts := cs\<rparr>, clnt, ServerName fmt_int GRP0 0))"

definition Config_DeleteClient :: "('r, 's, 'x, 'a, 'b, 'v) Config \<Rightarrow> nat \<Rightarrow> ('r, 's, 'x, 'a, 'b, 'v) Config option" where
  "Config_DeleteClient cfg clnt = do {
     (cs, nw) \<leftarrow> DeleteClient (cf_Clnts cfg) (cf_net cfg) clnt;
     Some ((with_net cfg nw)\<lparr>cf_Clnts := cs\<rparr>)
   }"

definition TestKV_DeleteClerk :: "('r, 's, 'x, 'a, 'b, 'v) Config \<Rightarrow> nat \<Rightarrow> ('r, 's, 'x, 'a, 'b, 'v) Config option" where
  "TestKV_DeleteClerk cfg clnt = Config_DeleteClient cfg clnt"

text \<open>\<open>Cleanup\<close> of a key/value test: the statistics, then the configuration.\<close>

definition kvtest_Cleanup :: "('v \<Rightarrow> ('r, 's, 'x, 'a, 'b) tenv \<Rightarrow> ('r, 's, 'x, 'a, 'b) tenv) \<Rightarrow> (string \<times> bool \<times> string list \<times> int \<times> int) \<Rightarrow> int \<Rightarrow> int \<Rightarrow> int
    \<Rightarrow> ('r, 's, 'x, 'a, 'b, 'v) Config Test \<Rightarrow> (('r, 's, 'x, 'a, 'b, 'v) Config Test \<times> Passed option \<times> PAnnotation list option) outcome" where
  "kvtest_Cleanup kill vis now now' now'' ts =
     obind (End (ts_world ts) now now') (\<lambda>passed.
     obind (Config_Cleanup kill vis (ts_world ts) (ts_ann ts) now'') (\<lambda>(cfg, an, drawn).
       Done (ts\<lparr>ts_world := cfg, ts_ann := an\<rparr>, passed, drawn)))"

section \<open>The replicated service\<close>

definition kvraft_MakeTest :: "(int \<Rightarrow> ('r, 's, 'x, 'a, 'b, 'v) mks) \<Rightarrow> ('v \<Rightarrow> ('x, 'a, 'b) Service) \<Rightarrow> (nat \<Rightarrow> nat \<Rightarrow> string) \<Rightarrow> (int \<Rightarrow> nat \<Rightarrow> string)
    \<Rightarrow> ('r, 's, 'x, 'a, 'b) tenv \<Rightarrow> int \<Rightarrow> int \<Rightarrow> astate \<Rightarrow> string \<Rightarrow> int \<Rightarrow> nat \<Rightarrow> bool \<Rightarrow> bool \<Rightarrow> bool \<Rightarrow> int \<Rightarrow> bool
    \<Rightarrow> (kvraft_Test \<times> ('r, 's, 'x, 'a, 'b, 'v) Config Test \<times> string) option" where
  "kvraft_MakeTest startKV mkService names names' te now now' an part nclients nservers reliable crash partitions maxraft randomkeys = do {
     let ts = \<lparr>kt_part = part, kt_nclients = nclients, kt_nservers = int nservers, kt_crash = crash, kt_partitions = partitions,
       kt_maxraftstate = maxraft, kt_randomkeys = randomkeys\<rparr>;
     cfg \<leftarrow> MakeConfig fmt_int mkService names names' (startKV (kt_maxraftstate ts)) te now nservers reliable;
     let test = MakeTest cfg randomkeys an;
     let title = makeTitle ts;
     Some (ts, test\<lparr>ts_world := Begin (ts_world test) now'\<rparr>, title)
   }"

definition kvraft_cleanup :: "('v \<Rightarrow> ('r, 's, 'x, 'a, 'b) tenv \<Rightarrow> ('r, 's, 'x, 'a, 'b) tenv) \<Rightarrow> (string \<times> bool \<times> string list \<times> int \<times> int) \<Rightarrow> int \<Rightarrow> int \<Rightarrow> int
    \<Rightarrow> ('r, 's, 'x, 'a, 'b, 'v) Config Test \<Rightarrow> (('r, 's, 'x, 'a, 'b, 'v) Config Test \<times> Passed option \<times> PAnnotation list option) outcome" where
  "kvraft_cleanup kill vis now now' now'' ts = kvtest_Cleanup kill vis now now' now'' ts"

section \<open>Raft and the state machine layer\<close>

text \<open>Both tests end in the same way: statistics, taking down, and once more the time limit.\<close>

definition Config_finish :: "('v \<Rightarrow> ('r, 's, 'x, 'a, 'b) tenv \<Rightarrow> ('r, 's, 'x, 'a, 'b) tenv) \<Rightarrow> (string \<times> bool \<times> string list \<times> int \<times> int) \<Rightarrow> int \<Rightarrow> int \<Rightarrow> int \<Rightarrow> int
    \<Rightarrow> ('r, 's, 'x, 'a, 'b, 'v) Config \<Rightarrow> astate \<Rightarrow> (('r, 's, 'x, 'a, 'b, 'v) Config \<times> astate \<times> Passed option) outcome" where
  "Config_finish kill vis t1 t2 t3 t4 cfg an =
     obind (End cfg t1 t2) (\<lambda>passed.
     obind (Config_Cleanup kill vis cfg an t3) (\<lambda>(cfg, an, drawn).
     obind (CheckTimeout cfg t4) (\<lambda>_. Done (cfg, an, passed))))"

record ('r, 's, 'x, 'a, 'b, 'v) raft_Test =
  ra_Config :: "('r, 's, 'x, 'a, 'b, 'v) Config"
  ra_n :: int
  ra_finished :: bool
  ra_maxIndex :: int
  ra_snapshot :: bool

definition raft_makeTest :: "(bool \<Rightarrow> ('r, 's, 'x, 'a, 'b, 'v) mks) \<Rightarrow> ('v \<Rightarrow> ('x, 'a, 'b) Service) \<Rightarrow> (nat \<Rightarrow> nat \<Rightarrow> string) \<Rightarrow> (int \<Rightarrow> nat \<Rightarrow> string)
    \<Rightarrow> ('r, 's, 'x, 'a, 'b) tenv \<Rightarrow> int \<Rightarrow> nat \<Rightarrow> bool \<Rightarrow> bool \<Rightarrow> ('r, 's, 'x, 'a, 'b, 'v) raft_Test option" where
  "raft_makeTest mk mkService names names' te now n reliable snap = do {
     cfg \<leftarrow> MakeConfig fmt_int mkService names names' (mk snap) te now n reliable;
     let cfg = SetLongDelays cfg True;
     sg \<leftarrow> Group cfg GRP0;
     Some \<lparr>ra_Config = cfg, ra_n = int n, ra_finished = False, ra_maxIndex = 0, ra_snapshot = snap\<rparr>
   }"

definition raft_cleanup :: "('v \<Rightarrow> ('r, 's, 'x, 'a, 'b) tenv \<Rightarrow> ('r, 's, 'x, 'a, 'b) tenv) \<Rightarrow> (string \<times> bool \<times> string list \<times> int \<times> int) \<Rightarrow> int \<Rightarrow> int \<Rightarrow> int \<Rightarrow> int
    \<Rightarrow> ('r, 's, 'x, 'a, 'b, 'v) raft_Test \<Rightarrow> astate \<Rightarrow> (('r, 's, 'x, 'a, 'b, 'v) raft_Test \<times> astate \<times> Passed option) outcome" where
  "raft_cleanup kill vis t1 t2 t3 t4 ts an =
     (let ts = ts\<lparr>ra_finished := True\<rparr>
      in obind (Config_finish kill vis t1 t2 t3 t4 (ra_Config ts) an) (\<lambda>(cfg, an, passed). Done (ts\<lparr>ra_Config := cfg\<rparr>, an, passed)))"

text \<open>\<open>restart\<close>: the server starts, and the whole group is connected.\<close>

definition raft_restart :: "('v \<Rightarrow> ('x, 'a, 'b) Service) \<Rightarrow> (nat \<Rightarrow> string) \<Rightarrow> ('r, 's, 'x, 'a, 'b, 'v) mks \<Rightarrow> ('r, 's, 'x, 'a, 'b, 'v) Config \<Rightarrow> int
    \<Rightarrow> ('r, 's, 'x, 'a, 'b, 'v) Config option" where
  "raft_restart mkService names mk cfg i = do {
     sg \<leftarrow> Group cfg GRP0;
     (te, sg) \<leftarrow> StartServer fmt_int mkService names mk sg (cf_env cfg) i;
     let cfg = cfg\<lparr>cf_env := te, cf_Groups := setGroup GRP0 sg (cf_Groups cfg)\<rparr>;
     sg \<leftarrow> Group cfg GRP0;
     (nw, sg) \<leftarrow> ConnectAll sg (cf_net cfg);
     Some ((with_net cfg nw)\<lparr>cf_Groups := setGroup GRP0 sg (cf_Groups cfg)\<rparr>)
   }"

text \<open>The test of the state machine layer keeps a slot per server; \<open>None\<close> is an \<open>rsmSrv\<close> whose field \<open>rsm\<close> is nil.\<close>

type_synonym rsm_slot = "((rsmSrv, counter_res) RSM \<times> (counter_req Op, unit gob) Raft) option"

record ('r, 's, 'x, 'a, 'b, 'v) rsm_Test =
  rm_Config :: "('r, 's, 'x, 'a, 'b, 'v) Config"
  rm_maxraftstate :: int
  rm_srvs :: "rsm_slot list"
  rm_lead :: int

definition rsm_makeTest :: "(int \<Rightarrow> ('r, 's, 'x, 'a, 'b, 'v) mks) \<Rightarrow> ('v \<Rightarrow> ('x, 'a, 'b) Service) \<Rightarrow> (nat \<Rightarrow> nat \<Rightarrow> string) \<Rightarrow> (int \<Rightarrow> nat \<Rightarrow> string)
    \<Rightarrow> ('r, 's, 'x, 'a, 'b) tenv \<Rightarrow> int \<Rightarrow> int \<Rightarrow> ('r, 's, 'x, 'a, 'b, 'v) rsm_Test option" where
  "rsm_makeTest mk mkService names names' te now maxraft = do {
     cfg \<leftarrow> MakeConfig fmt_int mkService names names' (mk maxraft) te now NSRV True;
     sg \<leftarrow> Group cfg GRP0;
     Some \<lparr>rm_Config = cfg, rm_maxraftstate = maxraft, rm_srvs = replicate NSRV None, rm_lead = 0\<rparr>
   }"

definition rsm_mksrv :: "(counter_req Op LogEntry list gob, unit gob) Persister \<Rightarrow> int \<Rightarrow> int \<Rightarrow> ('r, 's, 'x, 'a, 'b, 'v) rsm_Test \<Rightarrow> ('r, 's, 'x, 'a, 'b, 'v) rsm_Test option" where
  "rsm_mksrv ps srv now ts = do {
     s \<leftarrow> makeRsmSrv (int NSRV) srv ps (rm_maxraftstate ts) now;
     srvs \<leftarrow> go_set (rm_srvs ts) srv (Some s);
     Some (ts\<lparr>rm_srvs := srvs\<rparr>)
   }"

definition rsmSrv_Kill :: "rsm_slot \<Rightarrow> rsm_slot" where
  "rsmSrv_Kill s = None"

definition rsm_cleanup :: "('v \<Rightarrow> ('r, 's, 'x, 'a, 'b) tenv \<Rightarrow> ('r, 's, 'x, 'a, 'b) tenv) \<Rightarrow> (string \<times> bool \<times> string list \<times> int \<times> int) \<Rightarrow> int \<Rightarrow> int \<Rightarrow> int \<Rightarrow> int
    \<Rightarrow> ('r, 's, 'x, 'a, 'b, 'v) rsm_Test \<Rightarrow> astate \<Rightarrow> (('r, 's, 'x, 'a, 'b, 'v) rsm_Test \<times> astate \<times> Passed option) outcome" where
  "rsm_cleanup kill vis t1 t2 t3 t4 ts an =
     obind (Config_finish kill vis t1 t2 t3 t4 (rm_Config ts) an) (\<lambda>(cfg, an, passed). Done (ts\<lparr>rm_Config := cfg\<rparr>, an, passed))"

definition rsm_connect :: "('r, 's, 'x, 'a, 'b, 'v) rsm_Test \<Rightarrow> int \<Rightarrow> ('r, 's, 'x, 'a, 'b, 'v) rsm_Test option" where
  "rsm_connect ts i = do {
     let cfg = rm_Config ts;
     sg \<leftarrow> Group cfg GRP0;
     (nw, sg) \<leftarrow> ConnectOne sg (cf_net cfg) i;
     Some (ts\<lparr>rm_Config := (with_net cfg nw)\<lparr>cf_Groups := setGroup GRP0 sg (cf_Groups cfg)\<rparr>\<rparr>)
   }"

section \<open>The sharded service\<close>

text \<open>\<open>'k\<close> is the controller.  The field \<^verbatim>\<open>part\<close> of the source is never written.\<close>

record ('r, 's, 'x, 'a, 'b, 'v, 'k) shard_Test =
  sh_Test :: "('r, 's, 'x, 'a, 'b, 'v) Config Test"
  sh_sck :: "'k option"
  sh_partition :: bool
  sh_maxraftstate :: int
  sh_ngid :: int

definition Gid1 :: int where
  "Gid1 = 1"

definition MakeTestMaxRaft :: "('r, 's, 'x, 'a, 'b, 'v) mks \<Rightarrow> ('v \<Rightarrow> ('x, 'a, 'b) Service) \<Rightarrow> (nat \<Rightarrow> nat \<Rightarrow> string) \<Rightarrow> (int \<Rightarrow> nat \<Rightarrow> string)
    \<Rightarrow> ('r, 's, 'x, 'a, 'b) tenv \<Rightarrow> int \<Rightarrow> int \<Rightarrow> int \<Rightarrow> astate \<Rightarrow> string \<Rightarrow> bool \<Rightarrow> bool \<Rightarrow> int \<Rightarrow> ('r, 's, 'x, 'a, 'b, 'v, 'k) shard_Test option" where
  "MakeTestMaxRaft startKV mkService names names' te now now' now'' an part reliable partit maxraft = do {
     cfg \<leftarrow> MakeConfig fmt_int mkService names names' startKV te now 1 reliable;
     let test = MakeTest cfg False an;
     an \<leftarrow> AnnotateTest part 1 now' (ts_ann test);
     let test = test\<lparr>ts_ann := an, ts_world := Begin (ts_world test) now''\<rparr>;
     Some \<lparr>sh_Test = test, sh_sck = None, sh_partition = partit, sh_maxraftstate = maxraft, sh_ngid = Gid1 + 1\<rparr>
   }"

definition shard_MakeTest :: "('r, 's, 'x, 'a, 'b, 'v) mks \<Rightarrow> ('v \<Rightarrow> ('x, 'a, 'b) Service) \<Rightarrow> (nat \<Rightarrow> nat \<Rightarrow> string) \<Rightarrow> (int \<Rightarrow> nat \<Rightarrow> string)
    \<Rightarrow> ('r, 's, 'x, 'a, 'b) tenv \<Rightarrow> int \<Rightarrow> int \<Rightarrow> int \<Rightarrow> astate \<Rightarrow> string \<Rightarrow> bool \<Rightarrow> ('r, 's, 'x, 'a, 'b, 'v, 'k) shard_Test option" where
  "shard_MakeTest startKV mkService names names' te now now' now'' an part reliable =
     MakeTestMaxRaft startKV mkService names names' te now now' now'' an part reliable False (-1)"

definition MakeTestLeases :: "('r, 's, 'x, 'a, 'b, 'v) mks \<Rightarrow> ('v \<Rightarrow> ('x, 'a, 'b) Service) \<Rightarrow> (nat \<Rightarrow> nat \<Rightarrow> string) \<Rightarrow> (int \<Rightarrow> nat \<Rightarrow> string)
    \<Rightarrow> ('r, 's, 'x, 'a, 'b) tenv \<Rightarrow> int \<Rightarrow> int \<Rightarrow> int \<Rightarrow> astate \<Rightarrow> string \<Rightarrow> bool \<Rightarrow> ('r, 's, 'x, 'a, 'b, 'v, 'k) shard_Test option" where
  "MakeTestLeases startKV mkService names names' te now now' now'' an part reliable =
     MakeTestMaxRaft startKV mkService names names' te now now' now'' an part reliable True (-1)"

text \<open>A controller and a clerk each get a client of the tester; a clerk of the service has a controller of its own besides.\<close>

definition makeShardCtrlerClnt :: "(nat \<Rightarrow> 'k) \<Rightarrow> ('r, 's, 'x, 'a, 'b, 'v) Config \<Rightarrow> ('r, 's, 'x, 'a, 'b, 'v) Config \<times> 'k \<times> nat" where
  "makeShardCtrlerClnt MakeCtrler cfg = (let (cs, clnt) = MakeClient (cf_Clnts cfg) in (cfg\<lparr>cf_Clnts := cs\<rparr>, MakeCtrler clnt, clnt))"

definition makeShardCtrler :: "(nat \<Rightarrow> 'k) \<Rightarrow> ('r, 's, 'x, 'a, 'b, 'v) Config \<Rightarrow> ('r, 's, 'x, 'a, 'b, 'v) Config \<times> 'k" where
  "makeShardCtrler MakeCtrler cfg = (let (cfg, ck, clnt) = makeShardCtrlerClnt MakeCtrler cfg in (cfg, ck))"

definition shard_MakeClerk :: "(nat \<Rightarrow> 'k) \<Rightarrow> ('r, 's, 'x, 'a, 'b, 'v) Config \<Rightarrow> ('r, 's, 'x, 'a, 'b, 'v) Config \<times> nat \<times> 'k" where
  "shard_MakeClerk MakeCtrler cfg =
     (let (cs, clnt) = MakeClient (cf_Clnts cfg);
          (cfg, sck) = makeShardCtrler MakeCtrler (cfg\<lparr>cf_Clnts := cs\<rparr>)
      in (cfg, clnt, sck))"

definition shard_DeleteClerk :: "('r, 's, 'x, 'a, 'b, 'v) Config \<Rightarrow> nat \<Rightarrow> ('r, 's, 'x, 'a, 'b, 'v) Config option" where
  "shard_DeleteClerk cfg clnt = Config_DeleteClient cfg clnt"

definition ShardTest_ShardCtrler :: "('r, 's, 'x, 'a, 'b, 'v, 'k) shard_Test \<Rightarrow> 'k option" where
  "ShardTest_ShardCtrler ts = sh_sck ts"

definition makeKVClerk :: "('r, 's, 'x, 'a, 'b, 'v) Config \<Rightarrow> ('r, 's, 'x, 'a, 'b, 'v) Config \<times> nat \<times> string" where
  "makeKVClerk cfg =
     (let srv = ServerName fmt_int GRP0 0; (cs, clnt) = MakeClient (cf_Clnts cfg)
      in (cfg\<lparr>cf_Clnts := cs\<rparr>, clnt, srv))"

text \<open>\<open>setupKVService\<close>: the group \<open>Gid1\<close> gets all shards.  \<open>Start\<close> starts the servers of a shard group.\<close>

definition setupKVService :: "(nat \<Rightarrow> 'k) \<Rightarrow> ('k \<Rightarrow> ShardConfig \<Rightarrow> 'k) \<Rightarrow> (int \<Rightarrow> ('r, 's, 'x, 'a, 'b, 'v) mks) \<Rightarrow> ('v \<Rightarrow> ('x, 'a, 'b) Service) \<Rightarrow> (nat \<Rightarrow> nat \<Rightarrow> string)
    \<Rightarrow> (int \<Rightarrow> nat \<Rightarrow> string) \<Rightarrow> ('r, 's, 'x, 'a, 'b, 'v, 'k) shard_Test \<Rightarrow> (int \<times> ('r, 's, 'x, 'a, 'b, 'v, 'k) shard_Test) option" where
  "setupKVService MakeCtrler InitCfg StartGrp mkService names names' ts = do {
     let test = sh_Test ts;
     let (cfg, sck) = makeShardCtrler MakeCtrler (ts_world test);
     let scfg = MakeShardConfig;
     cfg \<leftarrow> MakeGroupStart fmt_int mkService names names' (StartGrp (sh_maxraftstate ts)) cfg Gid1 shard_NSRV;
     sg \<leftarrow> Group cfg Gid1;
     (ok, scfg) \<leftarrow> JoinBalance scfg [(Gid1, SrvNames sg)];
     Some (Gid1, ts\<lparr>sh_Test := test\<lparr>ts_world := cfg\<rparr>, sh_sck := Some (InitCfg sck scfg)\<rparr>)
   }"

definition disconnectClntFromLeader :: "('v \<Rightarrow> ('c, 'd) Raft option) \<Rightarrow> ('v \<Rightarrow> ('r, 's, 'x, 'a, 'b) tenv \<Rightarrow> ('r, 's, 'x, 'a, 'b) tenv)
    \<Rightarrow> ('r, 's, 'x, 'a, 'b, 'v) Config \<Rightarrow> int \<Rightarrow> (int \<times> ('r, 's, 'x, 'a, 'b, 'v) Config) outcome" where
  "disconnectClntFromLeader peer kill cfg gid =
     obind (of_option (cfg_Leader peer cfg gid)) (\<lambda>(ok, l).
       if \<not> ok then Fatal
       else obind (of_option (Group cfg gid)) (\<lambda>sg.
            obind (of_option (ShutdownServer fmt_int kill sg (cf_env cfg) l)) (\<lambda>(te, sg).
              Done (l, cfg\<lparr>cf_env := te, cf_Groups := setGroup gid sg (cf_Groups cfg)\<rparr>))))"

section \<open>Tests start from a complete network\<close>

text \<open>All servers of group 0 are on the network, and each reaches each.\<close>

definition test_ready :: "('v \<Rightarrow> ('x, 'a, 'b) Service) \<Rightarrow> nat \<Rightarrow> bool \<Rightarrow> ('r, 's, 'x, 'a, 'b, 'v) Config \<Rightarrow> bool" where
  "test_ready mkService n reliable cfg \<longleftrightarrow> (\<exists>sg. Group cfg GRP0 = Some sg \<and> grp_wf sg \<and> sg_N sg = int n \<and> cs_clerks (cf_Clnts cfg) = []
     \<and> Config_IsReliable cfg = reliable
     \<and> (\<forall>i j. in_group sg i \<and> in_group sg j \<longrightarrow> on_net sg i \<and> reaches fmt_int mkService (cf_env cfg) sg reliable i j))"

lemma MakeConfig_test_ready:
  assumes "names_ok n nms" "names_ok n (\<lambda>i. nms' (int i))" "names_upto n nms n \<inter> names_upto n (\<lambda>i. nms' (int i)) n = {}" "mks_frame mks"
  obtains cfg where "MakeConfig fmt_int mkService nms nms' mks te now n reliable = Some cfg" "test_ready mkService n reliable cfg"
  using MakeConfig_effect [OF assms, of mkService te now reliable] unfolding test_ready_def by blast

lemma ready_Group: "test_ready mkService n reliable cfg \<Longrightarrow> Group cfg GRP0 \<noteq> None"
  by (auto simp: test_ready_def)

lemma ready_Begin: "test_ready mkService n reliable (Begin cfg now) = test_ready mkService n reliable cfg"
  by (simp add: test_ready_def Begin_def Group_def Config_IsReliable_def)

lemma readEndnameInfo_LongDelays [simp]: "readEndnameInfo (LongDelays nw b) e = readEndnameInfo nw e"
  by (simp add: readEndnameInfo_def LongDelays_def connectionOf_def serverOf_def isEnabled_def cong: option.case_cong)

lemma ready_LongDelays: "test_ready mkService n reliable cfg \<Longrightarrow> test_ready mkService n reliable (SetLongDelays cfg b)"
  by (simp add: test_ready_def SetLongDelays_def Group_def Config_IsReliable_def reaches_def) (simp add: LongDelays_def IsReliable_def)

lemma frame_StartKVServer: "mks_frame kvsrv_StartKVServer"
  by (simp add: mks_frame_def kvsrv_StartKVServer_def Let_def)

text \<open>
  Every test starts from a complete network: with different end names, the set-up of the key/value tests, of the replicated service's tests, of Raft's and of the state
  machine layer's does not panic; the servers are those asked for and reach each other, and no operation is recorded and no client made yet.
\<close>

theorem tests_ready:
  assumes "names_ok n nms" "names_ok n (\<lambda>i. nms' (int i))" "names_upto n nms n \<inter> names_upto n (\<lambda>i. nms' (int i)) n = {}"
    and "\<And>m. mks_frame (mks m)" and "\<And>b. mks_frame (mkr b)"
  shows "n = 1 \<Longrightarrow> \<exists>ts. MakeTestKV mkService nms nms' te now an reliable = Some ts \<and> test_ready mkService 1 reliable (ts_world (tk_Test ts)) \<and> ts_oplog (tk_Test ts) = Some []"
    and "\<exists>kt ts title. kvraft_MakeTest mks mkService' nms nms' te now now' an part nclients n reliable crash partitions maxraft randomkeys = Some (kt, ts, title)
      \<and> test_ready mkService' n reliable (ts_world ts) \<and> ts_oplog ts = Some [] \<and> title = makeTitle kt \<and> kt_nservers kt = int n"
    and "\<exists>rt. raft_makeTest mkr mkService' nms nms' te now n reliable snap = Some rt \<and> test_ready mkService' n reliable (ra_Config rt) \<and> ra_n rt = int n"
    and "n = NSRV \<Longrightarrow> \<exists>st. rsm_makeTest mks mkService' nms nms' te now maxraft = Some st \<and> test_ready mkService' NSRV True (rm_Config st) \<and> rm_srvs st = replicate NSRV None"
proof -
  show "\<exists>ts. MakeTestKV mkService nms nms' te now an reliable = Some ts \<and> test_ready mkService 1 reliable (ts_world (tk_Test ts)) \<and> ts_oplog (tk_Test ts) = Some []" if "n = 1"
  proof -
    obtain cfg where "MakeConfig fmt_int mkService nms nms' kvsrv_StartKVServer te now n reliable = Some cfg" "test_ready mkService n reliable cfg"
      by (rule MakeConfig_test_ready [OF assms(1-3) frame_StartKVServer])
    with that show ?thesis by (simp add: MakeTestKV_def MakeTest_def)
  qed
  show "\<exists>kt ts title. kvraft_MakeTest mks mkService' nms nms' te now now' an part nclients n reliable crash partitions maxraft randomkeys = Some (kt, ts, title)
      \<and> test_ready mkService' n reliable (ts_world ts) \<and> ts_oplog ts = Some [] \<and> title = makeTitle kt \<and> kt_nservers kt = int n"
  proof -
    obtain cfg where "MakeConfig fmt_int mkService' nms nms' (mks maxraft) te now n reliable = Some cfg" "test_ready mkService' n reliable cfg"
      by (rule MakeConfig_test_ready [OF assms(1-3,4)])
    then show ?thesis by (simp add: kvraft_MakeTest_def MakeTest_def ready_Begin Let_def)
  qed
  show "\<exists>rt. raft_makeTest mkr mkService' nms nms' te now n reliable snap = Some rt \<and> test_ready mkService' n reliable (ra_Config rt) \<and> ra_n rt = int n"
  proof -
    obtain cfg where c: "MakeConfig fmt_int mkService' nms nms' (mkr snap) te now n reliable = Some cfg" "test_ready mkService' n reliable cfg"
      by (rule MakeConfig_test_ready [OF assms(1-3,5)])
    note r = ready_LongDelays [OF c(2), of True]
    with ready_Group [OF r] c(1) show ?thesis by (auto simp: raft_makeTest_def Let_def)
  qed
  show "\<exists>st. rsm_makeTest mks mkService' nms nms' te now maxraft = Some st \<and> test_ready mkService' NSRV True (rm_Config st) \<and> rm_srvs st = replicate NSRV None" if "n = NSRV"
  proof -
    obtain cfg where c: "MakeConfig fmt_int mkService' nms nms' (mks maxraft) te now n True = Some cfg" "test_ready mkService' n True cfg"
      by (rule MakeConfig_test_ready [OF assms(1-4)])
    with ready_Group [OF c(2)] that show ?thesis by (auto simp: rsm_makeTest_def)
  qed
qed

section \<open>Clerks\<close>

text \<open>A client that is made has an address of its own.\<close>

definition clnts_fresh :: "Clnts \<Rightarrow> bool" where
  "clnts_fresh cs \<longleftrightarrow> (\<forall>c \<in> set (cs_clerks cs). c < cs_next cs)"

lemma clnts_fresh_make: "clnts_fresh makeClnts" "clnts_fresh cs \<Longrightarrow> clnts_fresh (fst (MakeClient cs))"
  by (auto simp: clnts_fresh_def makeClnts_def MakeClient_def MakeClientTo_def)

text \<open>A new clerk that is deleted leaves nothing behind.\<close>

lemma DeleteClient_new:
  assumes "clnts_fresh (cf_Clnts cfg)" "MakeClient (cf_Clnts cfg) = (cs, clnt)"
  shows "\<exists>cfg'. Config_DeleteClient (cfg\<lparr>cf_Clnts := cs\<rparr>) clnt = Some cfg' \<and> cs_clerks (cf_Clnts cfg') = cs_clerks (cf_Clnts cfg) \<and> cf_env cfg' = cf_env cfg"
proof -
  have "filter (\<lambda>k. k \<noteq> clnt) (cs_clerks (cf_Clnts cfg)) = cs_clerks (cf_Clnts cfg)"
    using assms by (intro filter_True) (auto simp: clnts_fresh_def MakeClient_def MakeClientTo_def)
  then show ?thesis using assms(2)
    by (auto simp: Config_DeleteClient_def DeleteClient_def MakeClient_def MakeClientTo_def clnt_remove_def makeClntTo_def)
qed

theorem TestKV_clerk_roundtrip:
  assumes "clnts_fresh (cf_Clnts cfg)" "TestKV_MakeClerk cfg = (cfg1, clnt, srv)"
  shows "\<exists>cfg2. TestKV_DeleteClerk cfg1 clnt = Some cfg2 \<and> cs_clerks (cf_Clnts cfg2) = cs_clerks (cf_Clnts cfg) \<and> cf_env cfg2 = cf_env cfg"
  using DeleteClient_new [OF assms(1), of "fst (MakeClient (cf_Clnts cfg))" clnt] assms(2)
  by (auto simp: TestKV_MakeClerk_def TestKV_DeleteClerk_def split_beta Let_def prod_eq_iff)

text \<open>
  A clerk of the sharded service does: its controller has a client of its own, which \<open>DeleteClerk\<close> does not delete.  The client stays in the table until the test ends.
\<close>

theorem shard_clerk_leaks:
  assumes "clnts_fresh (cf_Clnts cfg)" "shard_MakeClerk MakeCtrler cfg = (cfg1, clnt, sck)"
  shows "\<exists>cfg2. shard_DeleteClerk cfg1 clnt = Some cfg2 \<and> cs_clerks (cf_Clnts cfg2) = (clnt + 1) # cs_clerks (cf_Clnts cfg) \<and> sck = MakeCtrler (clnt + 1)"
proof -
  have "filter (\<lambda>k. k \<noteq> clnt) (cs_clerks (cf_Clnts cfg)) = cs_clerks (cf_Clnts cfg)"
    using assms by (intro filter_True) (auto simp: clnts_fresh_def shard_MakeClerk_def makeShardCtrler_def makeShardCtrlerClnt_def MakeClient_def MakeClientTo_def Let_def)
  then show ?thesis using assms(2)
    by (auto simp: shard_DeleteClerk_def shard_MakeClerk_def makeShardCtrler_def makeShardCtrlerClnt_def Config_DeleteClient_def DeleteClient_def MakeClient_def MakeClientTo_def
        clnt_remove_def makeClntTo_def Let_def)
qed

section \<open>The first group of the sharded service\<close>

lemma StartServer_names: "StartServer itoa mkService nms mks sg te i = Some (te', sg') \<Longrightarrow> sg_servernames sg' = sg_servernames sg"
  by (auto simp: StartServer_def bind_Some_iff Let_def split_beta)

lemma connect_names: "connect sg nw i to = Some (nw', sg') \<Longrightarrow> sg_servernames sg' = sg_servernames sg"
  by (auto simp: connect_def bind_Some_iff Let_def)

lemma StartServers_names:
  assumes "StartServers itoa mkService nms mks sg te = Some (te', sg')" shows "sg_servernames sg' = sg_servernames sg"
proof -
  from assms obtain te1 sg1 nw where 1: "start itoa mkService nms mks sg te = Some (te1, sg1)" "ConnectAll sg1 (te_net te1) = Some (nw, sg')"
    by (auto simp: StartServers_def bind_Some_iff)
  have "sg_servernames (snd (te1, sg1)) = sg_servernames (snd (te, sg))"
    using 1(1) unfolding start_def by (rule for_each_keeps [rotated]) (auto dest: StartServer_names)
  moreover have "sg_servernames (snd (nw, sg')) = sg_servernames (snd (te_net te1, sg1))"
    using 1(2) unfolding ConnectAll_def by (rule for_each_keeps [rotated]) (auto simp: ConnectOne_def dest: connect_names)
  ultimately show ?thesis by simp
qed

lemma MakeGroupStart_names:
  assumes "MakeGroupStart itoa mkService nms nms' mks cfg gid n = Some cfg'" "Group cfg' gid = Some sg"
  shows "SrvNames sg = map (\<lambda>i. ServerName itoa gid (int i)) [0..<n]"
proof -
  from assms obtain nw sg1 te where "makeSrvGrp itoa nms (cf_net cfg) gid n = Some (nw, sg1)" "StartServers itoa mkService nms' mks sg1 te = Some (cf_env cfg', sg)"
    by (auto simp: MakeGroupStart_def MakeGroup_def Group_def bind_Some_iff Let_def)
  then show ?thesis using StartServers_names [of itoa mkService nms' mks sg1] by (auto simp: SrvNames_def makeSrvGrp_def bind_Some_iff)
qed

text \<open>
  The service starts with one group that owns all shards.  Whenever \<open>setupKVService\<close> returns, the controller was given configuration 1, in which \<open>Gid1\<close> is the only
  group, with its three servers, and has every shard.
\<close>

theorem setupKVService_owns:
  assumes "setupKVService MakeCtrler InitCfg StartGrp mkService nms nms' ts = Some (gid, ts')"
  shows "gid = Gid1 \<and> (\<exists>sck scfg. sh_sck ts' = Some (InitCfg sck scfg) \<and> Num scfg = 1 \<and> Shards scfg = replicate (nat NShards) Gid1
    \<and> Groups scfg = [(Gid1, map (\<lambda>i. ServerName fmt_int Gid1 (int i)) [0..<shard_NSRV])])"
proof -
  from assms obtain cfg0 sck cfg sg ok scfg where
    1: "MakeGroupStart fmt_int mkService nms nms' (StartGrp (sh_maxraftstate ts)) cfg0 Gid1 shard_NSRV = Some cfg" "Group cfg Gid1 = Some sg"
      "JoinBalance MakeShardConfig [(Gid1, SrvNames sg)] = Some (ok, scfg)" "gid = Gid1" "sh_sck ts' = Some (InitCfg sck scfg)"
    by (auto simp: setupKVService_def bind_Some_iff Let_def split_beta)
  note names = MakeGroupStart_names [OF 1(1,2)]
  have "distinct (SrvNames sg)" unfolding names by (simp add: distinct_map inj_on_def ServerName_inject [OF inj_fmt_int])
  then have "\<not> shares_server MakeShardConfig (SrvNames sg)" "distinct (SrvNames sg)" by (simp_all add: shares_server_def MakeShardConfig_def)
  from JoinBalance_member [OF cfg_wf_initial _ _ this, of Gid1] obtain c where
    c: "JoinBalance MakeShardConfig [(Gid1, SrvNames sg)] = Some (True, c)" "Num c = Num MakeShardConfig + 1" "Groups c = Groups MakeShardConfig @ [(Gid1, SrvNames sg)]"
      "cfg_wf c" "CheckConfig c (gids c)" by (auto simp: MakeShardConfig_def NShards_def)
  have "set (Shards c) \<subseteq> {Gid1}" using c(3,5) by (auto simp: CheckConfig_def MakeShardConfig_def)
  then have "Shards c = replicate (nat NShards) Gid1" using c(4) by (intro replicate_eqI) (auto simp: cfg_wf_def)
  with 1(3-5) c(1-3) names show ?thesis by (auto simp: MakeShardConfig_def)
qed

section \<open>The leader is shut down\<close>

lemma Leader_loop_leads:
  "Leader_loop peer i sss = (True, l) \<Longrightarrow> \<exists>k < length sss. l = i + int k \<and> (\<exists>s \<in> set (sss ! k). \<exists>r. peer s = Some r \<and> role r = Leader)"
proof (induction sss arbitrary: i)
  case (Cons ss sss)
  show ?case
  proof (cases "list_ex (\<lambda>s. case peer s of None \<Rightarrow> False | Some r \<Rightarrow> snd (GetState r)) ss")
    case True
    with Cons.prems show ?thesis by (intro exI [of _ 0]) (auto simp: list_ex_iff GetState_def split: option.splits)
  next
    case False
    with Cons.prems have "Leader_loop peer (i + 1) sss = (True, l)" by simp
    from Cons.IH [OF this] obtain k where "k < length sss" "l = i + 1 + int k" "\<exists>s \<in> set (sss ! k). \<exists>r. peer s = Some r \<and> role r = Leader" by blast
    then show ?thesis by (intro exI [of _ "Suc k"]) simp
  qed
qed simp

lemma Services_map: "Services sg = map ts_svcs (sg_srvs sg)"
proof -
  have "foldl (\<lambda>ss s. ss @ [ts_svcs s]) acc xs = acc @ map ts_svcs xs" for acc and xs :: "'a tserver list" by (induction xs arbitrary: acc) simp_all
  then show ?thesis by (simp add: Services_def)
qed

lemma ShutdownServer_unlinks:
  assumes kill: "\<And>v te. te_net (kill v te) = te_net te" and wf: "grp_wf sg" "in_group sg i" and sd: "ShutdownServer itoa kill sg te i = Some (te', sg')"
    and j: "in_group sg j"
  shows "\<not> linked sg (te_net te') i j \<and> \<not> linked sg (te_net te') j i"
proof -
  have mem: "k \<in> set (all_srvs sg) \<longleftrightarrow> in_group sg k" for k
    by (auto simp: all_srvs_def in_group_def image_iff intro!: bexI [of _ "nat k"])
  from disconnect_effect [OF wf, of "all_srvs sg" "te_net te"] mem obtain nw where
    nw: "disconnect sg (te_net te) i (all_srvs sg) = Some (nw, mark sg i False)" "\<not> linked sg nw i j" "\<not> linked sg nw j i" using wf(2) j by blast
  with sd obtain s where s: "te' = fst (shutdownServer kill (te\<lparr>te_net := DeleteServer nw (ServerName itoa (sg_gid sg) i)\<rparr>) s)"
    by (auto simp: ShutdownServer_def bind_Some_iff Let_def split_beta)
  have "te_net te' = DeleteServer nw (ServerName itoa (sg_gid sg) i)" unfolding s using shutdownServer_frame [of kill, OF kill] by simp
  with nw(2,3) show ?thesis by (simp add: DeleteServer_def isEnabled_def)
qed

lemma of_option_Done: "of_option x = Done y \<longleftrightarrow> x = Some y"
  by (cases x) simp_all

text \<open>
  Despite its name \<open>disconnectClntFromLeader\<close> shuts the leader's server down: the server it returns has a Raft peer that leads, and afterwards no call within the group reaches it
  or comes from it.
\<close>

theorem disconnectClntFromLeader_stops_leader:
  assumes kill: "\<And>v te. te_net (kill v te) = te_net te" and g: "Group cfg gid = Some sg" "grp_wf sg"
    and d: "disconnectClntFromLeader peer kill cfg gid = Done (l, cfg')"
  shows "in_group sg l \<and> (\<exists>s \<in> set (ts_svcs (sg_srvs sg ! nat l)). \<exists>r. peer s = Some r \<and> role r = Leader)
    \<and> (\<forall>j. in_group sg j \<longrightarrow> \<not> linked sg (cf_net cfg') l j \<and> \<not> linked sg (cf_net cfg') j l)"
proof -
  from d g obtain te sg' where lead: "Leader_loop peer 0 (Services sg) = (True, l)" and sd: "ShutdownServer fmt_int kill sg (cf_env cfg) l = Some (te, sg')"
    and cfg': "cf_env cfg' = te"
    by (auto simp: disconnectClntFromLeader_def cfg_Leader_def obind_Done of_option_Done split: prod.splits if_splits)
  from Leader_loop_leads [OF lead] have l: "in_group sg l" "\<exists>s \<in> set (ts_svcs (sg_srvs sg ! nat l)). \<exists>r. peer s = Some r \<and> role r = Leader"
    by (auto simp: Services_map in_group_def)
  with ShutdownServer_unlinks [OF kill g(2) l(1) sd] cfg' show ?thesis by blast
qed

end
