(* ===== verification/ShardDriver.thy ===== *)
theory ShardDriver
  imports ServiceTests
begin

text \<open>
  A scenario of \<^verbatim>\<open>shardkv1/test.go\<close>: a group of the sharded service is shut down, and some keys must then be out of reach (\<open>checkShutdownSharding\<close>).  One goroutine per key
  calls \<open>Get\<close> while the driver collects answers until none has come for two seconds; goroutines and driver are a step relation, and the service is an argument.
\<close>

section \<open>A group that is shut down\<close>

text \<open>A goroutine of \<open>checkShutdownSharding\<close>: its \<open>Get\<close> has not returned; it has a text for the channel, empty when the value is right; the text was received; it found the flag
  \<open>done\<close> set and ended.\<close>

datatype getter = Asking | Answers string | Received | Quit

datatype sd_pc = SdSelect | SdCheck | SdReturned | SdFatal

record 'g shutdown_run =
  sd_pc :: sd_pc
  sd_done :: bool
  sd_ndone :: int
  sd_get :: "nat \<Rightarrow> getter"
  sd_grp :: 'g

definition getter_text :: "string \<Rightarrow> string \<Rightarrow> string \<Rightarrow> string" where
  "getter_text key expected v =
     (if v \<noteq> expected then ''Get('' @ key @ ''): expected:'' @ [CHR 0x0A] @ expected @ [CHR 0x0A] @ ''received:'' @ [CHR 0x0A] @ v else [])"

text \<open>\<open>gets i v\<close>: the \<open>Get\<close> of goroutine \<open>i\<close> may return \<open>v\<close>.  \<open>startg\<close> starts the servers of the group again.\<close>

inductive checkShutdownSharding :: "(nat \<Rightarrow> string \<Rightarrow> bool) \<Rightarrow> ('g \<Rightarrow> 'g option) \<Rightarrow> string list \<Rightarrow> string list \<Rightarrow> 'g shutdown_run \<Rightarrow> 'g shutdown_run \<Rightarrow> bool"
  for gets startg ka va where
  sd_answer: "i < length ka \<Longrightarrow> sd_get s i = Asking \<Longrightarrow> gets i v \<Longrightarrow>
    checkShutdownSharding gets startg ka va s
      (s\<lparr>sd_get := (sd_get s)(i := if sd_done s then Quit else Answers (getter_text (ka ! i) (va ! i) v))\<rparr>)"
| sd_recv: "sd_pc s = SdSelect \<Longrightarrow> \<not> sd_done s \<Longrightarrow> i < length ka \<Longrightarrow> sd_get s i = Answers [] \<Longrightarrow>
    checkShutdownSharding gets startg ka va s (s\<lparr>sd_ndone := sd_ndone s + 1, sd_get := (sd_get s)(i := Received)\<rparr>)"
| sd_wrong: "sd_pc s = SdSelect \<Longrightarrow> \<not> sd_done s \<Longrightarrow> i < length ka \<Longrightarrow> sd_get s i = Answers e \<Longrightarrow> e \<noteq> [] \<Longrightarrow>
    checkShutdownSharding gets startg ka va s (s\<lparr>sd_pc := SdFatal, sd_get := (sd_get s)(i := Received)\<rparr>)"
| sd_after: "sd_pc s = SdSelect \<Longrightarrow> \<not> sd_done s \<Longrightarrow> checkShutdownSharding gets startg ka va s (s\<lparr>sd_done := True, sd_pc := SdCheck\<rparr>)"
| sd_many: "sd_pc s = SdCheck \<Longrightarrow> sd_ndone s \<ge> int (length ka) \<Longrightarrow> checkShutdownSharding gets startg ka va s (s\<lparr>sd_pc := SdFatal\<rparr>)"
| sd_restart: "sd_pc s = SdCheck \<Longrightarrow> \<not> sd_ndone s \<ge> int (length ka) \<Longrightarrow> startg (sd_grp s) = Some g \<Longrightarrow>
    checkShutdownSharding gets startg ka va s (s\<lparr>sd_grp := g, sd_pc := SdReturned\<rparr>)"

definition shutdown_init :: "'g \<Rightarrow> 'g shutdown_run" where
  "shutdown_init g = \<lparr>sd_pc = SdSelect, sd_done = False, sd_ndone = 0, sd_get = (\<lambda>_. Asking), sd_grp = g\<rparr>"

text \<open>The beginning: the group is shut down (\<open>shut\<close>) and a clerk is made for every key.\<close>

definition shutdown_begin :: "('g \<Rightarrow> 'g option) \<Rightarrow> ('g \<Rightarrow> 'g) \<Rightarrow> string list \<Rightarrow> 'g \<Rightarrow> 'g shutdown_run option" where
  "shutdown_begin shut mkClerk ka g = do {
     g \<leftarrow> shut g;
     Some (shutdown_init ((mkClerk ^^ length ka) g))
   }"

lemma getter_text_Nil: "getter_text key expected v = [] \<longleftrightarrow> v = expected"
  by (simp add: getter_text_def)

definition received :: "nat \<Rightarrow> (nat \<Rightarrow> getter) \<Rightarrow> nat set" where
  "received n f = {i. i < n \<and> f i = Received}"

definition shutdown_inv :: "(nat \<Rightarrow> string \<Rightarrow> bool) \<Rightarrow> string list \<Rightarrow> string list \<Rightarrow> 'g shutdown_run \<Rightarrow> bool" where
  "shutdown_inv gets ka va s \<longleftrightarrow>
     (\<forall>i < length ka. \<forall>e. sd_get s i = Answers e \<longrightarrow> (\<exists>v. gets i v \<and> e = getter_text (ka ! i) (va ! i) v))
     \<and> (sd_pc s = SdFatal \<longrightarrow> (\<exists>i < length ka. \<exists>v. gets i v \<and> v \<noteq> va ! i) \<or> (\<forall>i < length ka. gets i (va ! i)))
     \<and> (sd_pc s \<noteq> SdFatal \<longrightarrow> sd_ndone s = int (card (received (length ka) (sd_get s))) \<and> (\<forall>i \<in> received (length ka) (sd_get s). gets i (va ! i)))
     \<and> (sd_pc s = SdReturned \<longrightarrow> sd_ndone s < int (length ka))"

lemma finite_received [simp]: "finite (received n f)"
  by (simp add: received_def)

lemma received_set: "i < n \<Longrightarrow> received n (f(i := Received)) = insert i (received n f)"
  by (auto simp: received_def)

lemma received_frame: "f i \<noteq> Received \<Longrightarrow> x \<noteq> Received \<Longrightarrow> received n (f(i := x)) = received n f"
  by (auto simp: received_def)

lemma received_all: "n \<le> card (received n f) \<Longrightarrow> received n f = {..<n}"
  using card_mono [of "{..<n}" "received n f"] by (intro card_subset_eq) (auto simp: received_def)

lemma shutdown_step_inv:
  assumes "checkShutdownSharding gets startg ka va s s'" "shutdown_inv gets ka va s" shows "shutdown_inv gets ka va s'"
  using assms
proof (induction rule: checkShutdownSharding.induct)
  case (sd_answer i s v)
  let ?x = "if sd_done s then Quit else Answers (getter_text (ka ! i) (va ! i) v)"
  have "received (length ka) ((sd_get s)(i := ?x)) = received (length ka) (sd_get s)" by (rule received_frame) (use sd_answer in auto)
  moreover have "\<exists>v'. gets i v' \<and> e = getter_text (ka ! i) (va ! i) v'" if "?x = Answers e" for e using that sd_answer(3) by (auto split: if_splits)
  ultimately show ?case using sd_answer(4) by (auto simp: shutdown_inv_def)
next
  case (sd_recv s i)
  from sd_recv(3-5) obtain v where "gets i v" "getter_text (ka ! i) (va ! i) v = []" unfolding shutdown_inv_def by metis
  then have "gets i (va ! i)" by (simp add: getter_text_Nil)
  moreover have "i \<notin> received (length ka) (sd_get s)" using sd_recv(4) by (simp add: received_def)
  ultimately show ?case using sd_recv by (simp add: shutdown_inv_def received_set)
next
  case (sd_wrong s i e)
  then obtain v where "gets i v" "e = getter_text (ka ! i) (va ! i) v" by (auto simp: shutdown_inv_def)
  with sd_wrong(5) have "\<exists>v. gets i v \<and> v \<noteq> va ! i" by (auto simp: getter_text_Nil)
  with sd_wrong show ?case by (auto simp: shutdown_inv_def)
next
  case (sd_many s)
  then have "received (length ka) (sd_get s) = {..<length ka}" by (intro received_all) (simp add: shutdown_inv_def)
  with sd_many show ?case by (simp add: shutdown_inv_def)
qed (simp_all add: shutdown_inv_def)

lemma shutdown_run_inv: "(checkShutdownSharding gets startg ka va)\<^sup>*\<^sup>* (shutdown_init g) s \<Longrightarrow> shutdown_inv gets ka va s"
proof (induction rule: rtranclp_induct)
  case base
  show ?case by (simp add: shutdown_init_def shutdown_inv_def received_def)
qed (rule shutdown_step_inv)

text \<open>
  The test of sharding judges right.  When \<open>checkShutdownSharding\<close> returns, every answer it received was the expected value and some key got no answer while the group was down;
  when it fails the test, some \<open>Get\<close> returned a wrong value or all keys could be read without the group.
\<close>

theorem checkShutdownSharding_sound:
  assumes "(checkShutdownSharding gets startg ka va)\<^sup>*\<^sup>* (shutdown_init g) s"
  shows "sd_pc s = SdReturned \<Longrightarrow> (\<exists>i < length ka. sd_get s i \<noteq> Received) \<and> (\<forall>i < length ka. sd_get s i = Received \<longrightarrow> gets i (va ! i))"
    and "sd_pc s = SdFatal \<Longrightarrow> (\<exists>i < length ka. \<exists>v. gets i v \<and> v \<noteq> va ! i) \<or> (\<forall>i < length ka. gets i (va ! i))"
proof -
  note inv = shutdown_run_inv [OF assms, unfolded shutdown_inv_def]
  show "(\<exists>i < length ka. sd_get s i \<noteq> Received) \<and> (\<forall>i < length ka. sd_get s i = Received \<longrightarrow> gets i (va ! i))" if "sd_pc s = SdReturned"
  proof -
    have "card (received (length ka) (sd_get s)) < card {..<length ka}" using inv that by simp
    then have "received (length ka) (sd_get s) \<noteq> {..<length ka}" by fastforce
    then show ?thesis using inv that by (auto simp: received_def)
  qed
  show "(\<exists>i < length ka. \<exists>v. gets i v \<and> v \<noteq> va ! i) \<or> (\<forall>i < length ka. gets i (va ! i))" if "sd_pc s = SdFatal" using inv that by simp
qed

text \<open>A goroutine whose \<open>Get\<close> has returned just before the time is up is left behind: nobody receives from the channel any more.\<close>

lemma getter_left_behind:
  assumes "checkShutdownSharding gets startg ka va s s'" "sd_done s" "sd_get s i = Answers e" shows "sd_done s' \<and> sd_get s' i = Answers e"
  using assms by (cases rule: checkShutdownSharding.cases) auto

end
