(* ===== verification/Spec2Isabelle.thy ===== *)
theory Spec2Isabelle
  imports KvHistoryProgress KvHistorySrv KvSpawn Lock ShardJson KvProgress KvRaftClerk Programs ShardKv MrApps RpcService TestSetup LabGob KvAppend RsmTest ShardDriver
begin

text \<open>
  A verification library for the MIT 6.5840 laboratories under \<^verbatim>\<open>src/6.5840/src\<close>: MapReduce, a versioned
  key/value server with a retrying client and a lock, the Raft protocol, a key/value service replicated with
  it, shard configurations, the simulated network and storage all of them are run on, and the test bed that drives
  and checks them.

  \<^bold>\<open>The program and its model.\<close>  Paths are relative to \<^verbatim>\<open>src/6.5840/src\<close>.

  \<^item> \<^verbatim>\<open>Prelude\<close>: Go's slices (indexing, slicing and division that panic), the FNV-1a hash, shared list lemmas and
    the collections \<^verbatim>\<open>go_simps\<close> and \<^verbatim>\<open>wf_intros\<close>.
  \<^item> \<^verbatim>\<open>KvRpc\<close>, \<^verbatim>\<open>KvSpec\<close>, \<^verbatim>\<open>KvSrv\<close>: \<^verbatim>\<open>kvsrv1/rpc/rpc.go\<close> and \<^verbatim>\<open>kvsrv1/server.go\<close>.  The locale \<open>versioned_kv\<close> is the
    contract of a versioned store (\<open>do_get\<close>, \<open>do_put\<close> and their laws); it is interpreted on the handlers
    \<open>KVServer_Get\<close> and \<open>KVServer_Put\<close> here and on the replicated service in \<^verbatim>\<open>KvRaft\<close>, and everything said
    about clerks is proved from the contract.
  \<^item> \<^verbatim>\<open>Clerk\<close>, \<^verbatim>\<open>Lock\<close>: \<^verbatim>\<open>kvsrv1/client.go\<close> and \<^verbatim>\<open>kvsrv1/lock/lock.go\<close>.  The retry loops run over a schedule of
    lost requests, lost replies and delivered calls; the lock is a step relation of any number of clients,
    each of whose steps is one call to the server.
  \<^item> \<^verbatim>\<open>KvModel\<close>: \<^verbatim>\<open>models1/kv.go\<close>, the model the tests check linearizability against, and the recording of
    operations of \<^verbatim>\<open>kvtest1/porcupine.go\<close>.
  \<^item> \<^verbatim>\<open>ShardCfg\<close>, \<^verbatim>\<open>ShardJson\<close>: \<^verbatim>\<open>shardkv1/shardcfg/shardcfg.go\<close>; the loop of \<open>Rebalance\<close> is a \<open>while_option\<close>; \<open>String\<close> and
    \<open>FromString\<close> are a printer and a parser of JSON text.  \<^verbatim>\<open>ShardKv\<close>: the skeletons of the shard server, its clerks and the
    controller, exactly as empty as they are, and the join and leave drivers of \<^verbatim>\<open>shardkv1/test.go\<close> over any controller.  \<^verbatim>\<open>ShardDriver\<close>: its
    \<^verbatim>\<open>checkShutdownSharding\<close>, with one goroutine per key.
  \<^item> \<^verbatim>\<open>Persister\<close>: \<^verbatim>\<open>tester1/persister.go\<close> and encoded streams.
  \<^item> \<^verbatim>\<open>Raft\<close>: \<^verbatim>\<open>raft1/raft.go\<close>, one function per locked section, over the record \<open>Raft\<close>.  \<^verbatim>\<open>RaftNode\<close> gives a case
    rule per handler, \<^verbatim>\<open>RaftLocal\<close> the invariants of one peer, \<^verbatim>\<open>RaftPeer\<close> its contracts, \<^verbatim>\<open>RaftCluster\<close> the
    cluster as a step relation with messages in flight, and \<^verbatim>\<open>RaftTester\<close> the services and checkers of
    \<^verbatim>\<open>raft1/server.go\<close> and \<^verbatim>\<open>raft1/test.go\<close>.
  \<^item> \<^verbatim>\<open>RaftAbs\<close>, \<^verbatim>\<open>RaftCommit\<close>, \<^verbatim>\<open>RaftRefine\<close>, \<^verbatim>\<open>RaftSim\<close>, \<^verbatim>\<open>RaftSafety\<close>: the abstract specification of the protocol, a step
    relation over terms, votes and complete logs without messages or snapshots, with its inductive invariant; what it
    means for an entry to be chosen and committed, proved in the locale \<open>quorums\<close> of sets that intersect, which is
    interpreted on the majorities the code counts; the simulation relation between a cluster, whose logs are compacted, and
    the abstract protocol, with one lemma per handler; and the safety theorems, transported to the cluster.
  \<^item> \<^verbatim>\<open>RaftView\<close>, \<^verbatim>\<open>RaftDemo\<close>: which steps of a cluster change what the service on top of a peer sees of it, and a
    concrete run of three peers (election, one command, its replication and commitment) for the witnesses.
  \<^item> \<^verbatim>\<open>RaftNext\<close>, \<^verbatim>\<open>RaftCatchUp\<close>, \<^verbatim>\<open>RaftProgress\<close>: the invariant of \<^verbatim>\<open>nextIndex\<close> and \<^verbatim>\<open>matchIndex\<close> that keeps every slice of
    the log in range, and progress: \<open>among n Q\<close> are the runs in which only the peers of \<open>Q\<close> take steps; a leader backs up, sends entries or a
    snapshot and so brings any follower up to date.
  \<^item> \<^verbatim>\<open>Rsm\<close>, \<^verbatim>\<open>RsmReplica\<close>: \<^verbatim>\<open>kvraft1/rsm/rsm.go\<close>.  The Go interface \<^verbatim>\<open>StateMachine\<close> is the locale \<open>state_machine\<close>;
    a replica is fed the messages of an agreed log while \<open>Submit\<close> calls register, wait and return.
  \<^item> \<^verbatim>\<open>KvRaft\<close>, \<^verbatim>\<open>KvRaftClerk\<close>: \<^verbatim>\<open>kvraft1/server.go\<close>, \<^verbatim>\<open>kvraft1/rsm/server.go\<close> and \<^verbatim>\<open>kvraft1/client.go\<close>, with the
    interpretations of \<open>state_machine\<close> on the key/value store and on the counter.  \<^verbatim>\<open>RsmService\<close>, \<^verbatim>\<open>KvService\<close>: the replicas composed
    with the Raft cluster below them, whose apply channels feed their readers; the agreed log is the one Raft commits.
    \<^verbatim>\<open>RsmProgress\<close>, \<^verbatim>\<open>KvProgress\<close>: progress of the composed service, in the locale \<open>total_machine\<close> of servers whose operations return.
  \<^item> \<^verbatim>\<open>KvLin\<close>, \<^verbatim>\<open>KvHistory\<close>, \<^verbatim>\<open>KvHistoryRaft\<close>, \<^verbatim>\<open>KvHistorySrv\<close>, \<^verbatim>\<open>KvHistoryProgress\<close>: the services with their clients.  \<^verbatim>\<open>KvLin\<close> defines linearizable histories and shows that a log
    of executed requests, in which an operation may occur several times, gives one.   \<^verbatim>\<open>KvHistory\<close> has any number of clerks over a lossy network, the handlers that their calls
    start and the operation log of \<^verbatim>\<open>kvtest1/porcupine.go\<close>; what it needs of the servers is the locale \<open>kv_provider\<close>, interpreted on the replicated service (with
    \<^verbatim>\<open>RaftOrigin\<close>: a command occurs in a cluster only where a \<open>Start\<close> has put it) and on the single-node server.
    \<^verbatim>\<open>KvHistoryProgress\<close>: the clerks' calls can always come to an end.
  \<^item> \<^verbatim>\<open>MrCoordinator\<close>, \<^verbatim>\<open>MrWorker\<close>, \<^verbatim>\<open>MrSystem\<close>: \<^verbatim>\<open>mr/coordinator.go\<close>, \<^verbatim>\<open>mr/worker.go\<close>, \<^verbatim>\<open>main/mrsequential.go\<close>, three
    applications of \<^verbatim>\<open>mrapps\<close>, and a job as a step relation of the coordinator, its workers and the files.  \<^verbatim>\<open>MrProgress\<close>: how one
    worker brings a job to its end; \<^verbatim>\<open>MrApps\<close>: the timing, counting and crashing applications over a file system and a
    table of processes; \<^verbatim>\<open>Programs\<close>: the programs of \<^verbatim>\<open>main\<close>, with the plug-in and the socket layer as parameters.
  \<^item> \<^verbatim>\<open>LabRpc\<close>: \<^verbatim>\<open>labrpc/labrpc.go\<close>, with concurrent calls as a step relation; \<^verbatim>\<open>RpcService\<close>: \<open>MakeService\<close> and dispatch, over a
    table of methods in place of reflection; \<^verbatim>\<open>TestGroup\<close> and \<^verbatim>\<open>TestClnt\<close>:
    \<^verbatim>\<open>tester1/group.go\<close>, \<^verbatim>\<open>tester1/srv.go\<close> and \<^verbatim>\<open>tester1/clnts.go\<close>; \<^verbatim>\<open>LabGob\<close>: the checks of \<^verbatim>\<open>labgob/labgob.go\<close> on a table of types, in
    which a recursive type refers to itself.
  \<^item> \<^verbatim>\<open>GoFmt\<close>, \<^verbatim>\<open>Annotation\<close>: number formatting and JSON of the standard library, and \<^verbatim>\<open>tester1/annotation.go\<close>, the timeline of a test.
  \<^item> \<^verbatim>\<open>TestConfig\<close>, \<^verbatim>\<open>TestSetup\<close>: \<^verbatim>\<open>tester1/config.go\<close>, the map of groups, the linearizability check of \<^verbatim>\<open>kvtest1/porcupine.go\<close> and the clerks of
    \<^verbatim>\<open>kvraft1/test.go\<close>, and what setting up a test and taking a group down do to the network.
  \<^item> \<^verbatim>\<open>KvTest\<close>, \<^verbatim>\<open>KvAppend\<close>, \<^verbatim>\<open>KvSpawn\<close>: \<^verbatim>\<open>kvtest1/kvtest.go\<close>, the append test as a system of clients over a lossy network, and the goroutines and channels of
    \<^verbatim>\<open>SpawnClientsAndWait\<close>.  \<^verbatim>\<open>RaftDriver\<close>, \<^verbatim>\<open>RsmTest\<close>: the
    polling drivers of \<^verbatim>\<open>raft1/test.go\<close> and \<^verbatim>\<open>kvraft1/rsm/test.go\<close>.  A driver's result is an \<open>outcome\<close>: a value, a failed test, or \<open>Running\<close> when a
    call has not returned or the bound on the rounds is used up.  \<^verbatim>\<open>ServiceTests\<close>: how each of the test programs sets up its servers and clerks and takes them down.

  \<^bold>\<open>Conventions.\<close>  A struct is a record with the source's fields, an operation a function on it.  What runs
  under a mutex, and what a channel operation makes atomic, is one function; where the code releases the lock
  it is cut, and the step relations interleave the pieces.  A panic, a failed type assertion, a
  \<^verbatim>\<open>log.Fatalf\<close> and a failed test are \<open>None\<close>.  Clock readings and random numbers are arguments.  Go's \<^verbatim>\<open>int\<close> is
  the unbounded \<^typ>\<open>int\<close>; versions are 64-bit words, and where a version that wraps around would matter (the lock,
  at-most-once puts) the theorems bound the number of steps by \<open>2 ^ 64\<close>.  Schedules are finite lists, and a retry
  loop that has used up its schedule has not returned; that it does return once a call is answered is a theorem
  of its own.  The polling drivers take a bound on their rounds; the theorems show that 201 rounds are enough for their ten
  seconds, since a round sleeps at least 50 milliseconds.  Loops with no evident bound are \<open>while_option\<close> or come with a termination proof, and the theorems
  state that they return.

  \<^bold>\<open>What is proved.\<close>

  \<^item> Key/value service: at-most-once puts with honest verdicts over a lossy network, for the single server and
    for the replicated one; versions count puts.  The histories that the tests record are linearizable for the tests' model, key by key, for the replicated service (losses,
    crashes, restarts, changes of leaders and snapshots included) and for the single server, if puts carry version 0 or a version that was returned before.  (Without that a
    put that has returned \<open>ErrMaybe\<close> could take effect later, when the key reaches the version it guessed.)
    As long as a majority of the servers runs, every call of a clerk can still return.
  \<^item> Lock: mutual exclusion, and that the holder's id is stored at the server.
  \<^item> Raft: over runs with losses, reordering, repetition, crashes, restarts and snapshots, election safety, log matching,
    leader completeness, permanence of committed entries and state machine safety, by refinement of the abstract
    protocol; one vote per term and nothing persistent lost in a restart; no step of any run panics; functional contracts
    of replication, commitment, application and snapshots.  From every state a run can reach, any majority of running peers has
    a continuation, without the others, in which one of them is elected and commits a new command.
  \<^item> Replicated state machine: a replica holds the store of a single server that executed the agreed log, through
    snapshots and restores; a \<open>Submit\<close> that returns OK returns its own operation's result.  Over the Raft cluster itself, all
    replicas execute prefixes of one log, and the answers the service gives are those of a single server that executes it.
    From every reachable state any majority of running servers has a continuation in which a \<open>Submit\<close> returns OK with that answer.
  \<^item> Shard configurations: \<open>Rebalance\<close> ends with all shards assigned and loads that differ by at most one;
    \<open>JoinBalance\<close> and \<open>LeaveBalance\<close> leave configurations that \<open>CheckConfig\<close> accepts; reading back the text of a configuration gives it again.
  \<^item> MapReduce: whenever the coordinator is done, the output is that of the sequential program, whatever workers
    crash, are slow or repeat work; the programs write the files the sequential program would; from every state of a job one
    worker that stays alive can finish it.
  \<^item> Test bed: exactly the methods of the right shape are registered and a call reaches its own handler; a handler runs at most once per call and a true result is that execution's reply; a deleted server
    never answers; a restarted server gets the storage of the moment of its shutdown; partitions separate
    exactly the two sides; a new configuration connects every server to the right services; the one-leader and agreement
    checks are sound, and the drivers end; the append test passes in every interleaving; type checks of encoders end on
    recursive types; the annotation of faults is accurate.
  \<^item> Behaviour that the code has against its intention is also stated as theorems: a snapshot overtaken by later
    commands wipes out an applied put, a \<open>Submit\<close> that registers late is never notified, a rejected \<open>Join\<close> leaves
    groups behind, a cluster of one peer elects nobody, the join driver panics on the skeleton controller, clearing failures records an annotation that never began.

  \<^bold>\<open>Approximations.\<close>  In \<^verbatim>\<open>RaftCluster\<close> requests and replies for log entries stay in flight for ever (they may be
  handled any number of times, or never); a vote call is handled at most once, as \<^verbatim>\<open>LabRpc\<close> shows of calls.  In
  \<^verbatim>\<open>Clerk\<close> a lost reply means that the request was executed before the next attempt.  A handler's execution is one
  step of \<^verbatim>\<open>LabRpc\<close>.  The sizes of encoded streams are parameters, as is number formatting below \<^verbatim>\<open>TestConfig\<close>.  In \<^verbatim>\<open>RaftDriver\<close> and \<^verbatim>\<open>RsmTest\<close> what
  the servers do while a driver sleeps is an argument; a failed test keeps no state, so annotations of failures made just
  before it are not recorded.

  \<^bold>\<open>Not modelled.\<close>  \<^verbatim>\<open>encoding/gob\<close> itself (streams are lists of values), the porcupine checker, sockets, the loading of
  plug-ins, reflection and JSON files of MapReduce (each a parameter, or a table, where the code uses it); debug output, signal handlers, stack
  traces and random seeds; in \<^verbatim>\<open>shardkv1/test.go\<close> the scenarios with partitioned and concurrent controllers, whose controller has empty bodies in this repository.

  \<^bold>\<open>Progress.\<close>  The liveness theorems of \<^verbatim>\<open>RaftProgress\<close>, \<^verbatim>\<open>KvProgress\<close>, \<^verbatim>\<open>KvHistoryProgress\<close> and \<^verbatim>\<open>MrProgress\<close> say that a continuation exists from every reachable
  state.  That a run takes it rests on the clock and the random election timeouts, which the model leaves free.
\<close>

end
